(* ===== verification/Prelude.thy ===== *)
theory Prelude
  imports Main "HOL-Library.Word" "HOL-Library.Monad_Syntax"
begin

text \<open>
  What the components share: C characters and their two numeric readings, readable memory
  (a C string seen through a pointer), guarded writes into an output buffer, and the
  functions of the C library the sources call (\<open>strlen\<close>, \<open>strcspn\<close>,
  \<open>memchr\<close>, \<open>malloc\<close>).

  A computation that reads or writes outside of an object is undefined behaviour in C. It
  is the value \<open>None\<close> here: a theorem saying that an operation returns
  \<open>Some\<close> also says that the operation stays within its objects. Counts of type
  \<open>size_t\<close> are natural numbers, because no object has \<open>2 ^ 64\<close> bytes.
\<close>

subsection \<open>Characters\<close>

text \<open>
  A \<open>char\<close> is one byte. \<open>uchar\<close> is its value as an
  \<open>unsigned char\<close>, \<open>schar\<close> its value as the signed \<open>char\<close> of the
  targets of the library.
\<close>

abbreviation NUL :: char where
  "NUL \<equiv> CHR 0x00"

definition uchar :: "char \<Rightarrow> nat" where
  "uchar c = of_char c"

definition schar :: "char \<Rightarrow> int" where
  "schar c = (if uchar c < 128 then int (uchar c) else int (uchar c) - 256)"

text \<open>The conversion of an \<open>int\<close> to \<open>char\<close> keeps the low byte.\<close>

definition to_char :: "int \<Rightarrow> char" where
  "to_char i = char_of (nat (i mod 256))"

named_theorems cchar \<open>decide facts about characters by linear arithmetic on their values\<close>

lemma uchar_bound [intro]: "uchar c < 256"
  unfolding uchar_def by (rule nat_of_char_less_256)

lemma char_eq_uchar [cchar]: "c = d \<longleftrightarrow> uchar c = uchar d"
  by (simp add: uchar_def)

lemma uchar_char_of [simp]: "uchar (char_of n) = n mod 256"
  by (simp add: uchar_def)

lemma uchar_to_char [simp]: "uchar (to_char i) = nat (i mod 256)"
  by (simp add: to_char_def nat_less_iff)

lemma uchar_Char: "uchar (Char b0 b1 b2 b3 b4 b5 b6 b7) =
    horner_sum of_bool 2 [b0, b1, b2, b3, b4, b5, b6, b7]"
  by (simp only: uchar_def of_char_Char)

declare uchar_Char [simp]
declare schar_def [cchar]

lemma to_char_uchar [simp]: "to_char (int (uchar c)) = c"
proof -
  have "int (uchar c) mod 256 = int (uchar c)" by (rule mod_pos_pos_trivial) (use uchar_bound [of c] in simp_all)
  then show ?thesis by (simp add: to_char_def uchar_def)
qed

text \<open>\<open>(c >> 4) & 15\<close> and \<open>c & 15\<close> on a signed character give its two nibbles.\<close>

definition shr4_and15 :: "char \<Rightarrow> int" where
  "shr4_and15 c = (schar c div 16) mod 16"

definition and15 :: "char \<Rightarrow> int" where
  "and15 c = schar c mod 16"

lemma schar_eq: "\<exists>k. schar c = int (uchar c) + k * 256"
proof (cases "uchar c < 128")
  case True
  then show ?thesis by (intro exI [of _ 0]) (simp add: schar_def)
next
  case False
  then show ?thesis by (intro exI [of _ "-1"]) (simp add: schar_def)
qed

lemma shr4_and15_eq: "shr4_and15 c = int (uchar c div 16)"
proof -
  obtain k where k: "schar c = int (uchar c) + k * 256" using schar_eq by blast
  then have "schar c = int (uchar c) + (k * 16) * 16" by simp
  then have "schar c div 16 = int (uchar c) div 16 + k * 16" by (simp only: div_mult_self1)
  then have "shr4_and15 c = (int (uchar c) div 16 + k * 16) mod 16" by (simp add: shr4_and15_def)
  also have "\<dots> = int (uchar c) div 16 mod 16" by simp
  also have "\<dots> = int (uchar c div 16 mod 16)" by (simp only: of_nat_div of_nat_mod of_nat_numeral)
  also have "uchar c div 16 mod 16 = uchar c div 16"
  proof (rule mod_less)
    have "uchar c < 16 * 16" using uchar_bound [of c] by simp
    then show "uchar c div 16 < 16" by (rule less_mult_imp_div_less)
  qed
  finally show ?thesis .
qed

lemma and15_eq: "and15 c = int (uchar c mod 16)"
proof -
  obtain k where "schar c = int (uchar c) + k * 256" using schar_eq by blast
  then have "schar c = int (uchar c) + (k * 16) * 16" by simp
  then have "and15 c = (int (uchar c) + (k * 16) * 16) mod 16" by (simp only: and15_def)
  also have "\<dots> = int (uchar c) mod 16" by (simp only: mod_mult_self1)
  finally show ?thesis by (simp add: zmod_int)
qed

text \<open>A right shift divides.\<close>

lemma unat_drop: "unat (drop_bit k w) = unat w div 2 ^ k"
  by (simp only: unsigned_drop_bit_eq drop_bit_eq_div)
    (metis drop_bit_eq_div take_bit_length_eq unsigned_drop_bit_eq drop_bit_take_bit unsigned_take_bit_eq)

subsection \<open>Readable memory\<close>

text \<open>The bytes that can be read from a pointer to the end of the object it points into.\<close>

type_synonym mem = "char list"

definition load :: "'a list \<Rightarrow> nat \<Rightarrow> 'a option" where
  "load m i = (if i < length m then Some (m ! i) else None)"

text \<open>The memory of a C string: its characters and the terminating zero.\<close>

definition cstr :: "string \<Rightarrow> mem" where
  "cstr s = s @ [NUL]"

definition no_nul :: "string \<Rightarrow> bool" where
  "no_nul s \<longleftrightarrow> NUL \<notin> set s"

definition strlen :: "mem \<Rightarrow> nat option" where
  "strlen m = (if NUL \<in> set m then Some (length (takeWhile (\<lambda>c. c \<noteq> NUL) m)) else None)"

definition strcspn :: "mem \<Rightarrow> string \<Rightarrow> nat option" where
  "strcspn m reject =
     (if \<exists>c \<in> set m. c = NUL \<or> c \<in> set reject
      then Some (length (takeWhile (\<lambda>c. c \<noteq> NUL \<and> c \<notin> set reject) m)) else None)"

text \<open>The C string that starts at an offset of an object.\<close>

definition string_at :: "mem \<Rightarrow> nat \<Rightarrow> string" where
  "string_at m i = takeWhile (\<lambda>c. c \<noteq> NUL) (drop i m)"

lemma load_Some [simp]: "i < length m \<Longrightarrow> load m i = Some (m ! i)"
  by (simp add: load_def)

lemma load_eq_Some: "load m i = Some c \<longleftrightarrow> i < length m \<and> c = m ! i"
  by (auto simp: load_def)

lemma load_append_right [simp]: "load (xs @ ys) (length xs + i) = load ys i"
  by (simp add: load_def nth_append)

lemma load_drop: "n \<le> length m \<Longrightarrow> load (drop n m) i = load m (n + i)"
  by (auto simp: load_def)

lemma length_cstr [simp]: "length (cstr s) = Suc (length s)"
  by (simp add: cstr_def)

lemma take_cstr [simp]: "n \<le> length s \<Longrightarrow> take n (cstr s) = take n s"
  by (simp add: cstr_def)

lemma no_nul_simps [simp]:
  "no_nul []"
  "no_nul (c # s) \<longleftrightarrow> c \<noteq> NUL \<and> no_nul s"
  "no_nul (s @ t) \<longleftrightarrow> no_nul s \<and> no_nul t"
  by (auto simp: no_nul_def)

lemma strlen_append_NUL: "no_nul s \<Longrightarrow> strlen (s @ NUL # rest) = Some (length s)"
  by (auto simp: strlen_def no_nul_def takeWhile_append)

lemma strlen_cstr [simp]: "no_nul s \<Longrightarrow> strlen (cstr s) = Some (length s)"
  by (simp add: cstr_def strlen_append_NUL)

lemma string_at_append_NUL:
  "no_nul s \<Longrightarrow> string_at (pre @ s @ NUL # rest) (length pre) = s"
  by (auto simp: string_at_def no_nul_def takeWhile_append)

lemma strcspn_append:
  assumes "no_nul s" and "set s \<inter> set reject = {}" and "c = NUL \<or> c \<in> set reject"
  shows "strcspn (s @ c # rest) reject = Some (length s)"
proof -
  have "takeWhile (\<lambda>c. c \<noteq> NUL \<and> c \<notin> set reject) (s @ c # rest) = s"
    using assms by (subst takeWhile_append2) (auto simp: no_nul_def)
  then show ?thesis using assms(3) by (auto simp: strcspn_def)
qed

text \<open>The bytes from one offset up to another.\<close>

definition chunk :: "mem \<Rightarrow> nat \<Rightarrow> nat \<Rightarrow> string" where
  "chunk m i j = take (j - i) (drop i m)"

lemma chunk_Nil [simp]: "j \<le> i \<Longrightarrow> chunk m i j = []"
  by (simp add: chunk_def)

lemma chunk_Cons: "i < j \<Longrightarrow> j \<le> length m \<Longrightarrow> chunk m i j = m ! i # chunk m (Suc i) j"
  by (simp add: chunk_def Cons_nth_drop_Suc [symmetric] take_Cons' Suc_diff_Suc)

lemma chunk_0 [simp]: "chunk m 0 j = take j m"
  by (simp add: chunk_def)

lemma length_chunk [simp]: "j \<le> length m \<Longrightarrow> length (chunk m i j) = j - i"
  by (simp add: chunk_def)

subsection \<open>Error codes\<close>

text \<open>The negated \<open>errno\<close> values of \<open>src/sys/x-errno.h\<close>.\<close>

definition X_EPERM :: int where "X_EPERM = - 1"
definition X_ENOENT :: int where "X_ENOENT = - 2"
definition X_EAGAIN :: int where "X_EAGAIN = - 11"
definition X_ENOMEM :: int where "X_ENOMEM = - 12"
definition X_EBUSY :: int where "X_EBUSY = - 16"
definition X_EEXIST :: int where "X_EEXIST = - 17"
definition X_EINVAL :: int where "X_EINVAL = - 22"
definition X_ENAMETOOLONG :: int where "X_ENAMETOOLONG = - 36"
definition X_EOVERFLOW :: int where "X_EOVERFLOW = - 75"
definition X_EPROTO :: int where "X_EPROTO = - 71"
definition X_ECANCELED :: int where "X_ECANCELED = - 125"

lemmas x_errno = X_EPERM_def X_ENOENT_def X_EAGAIN_def X_ENOMEM_def X_EBUSY_def X_EEXIST_def X_EINVAL_def
  X_ENAMETOOLONG_def X_EOVERFLOW_def X_EPROTO_def X_ECANCELED_def

subsection \<open>Guarded writes into a buffer\<close>

definition store :: "'a list \<Rightarrow> nat \<Rightarrow> 'a \<Rightarrow> 'a list option" where
  "store buf r c = (if r < length buf then Some (buf[r := c]) else None)"

text \<open>The idiom \<open>if (r < olen) otext[r] = c;\<close>.\<close>

definition put :: "nat \<Rightarrow> mem \<Rightarrow> nat \<Rightarrow> char \<Rightarrow> mem option" where
  "put olen buf r c = (if r < olen then store buf r c else Some buf)"

text \<open>What a run of such writes leaves in the buffer.\<close>

fun puts :: "nat \<Rightarrow> mem \<Rightarrow> nat \<Rightarrow> string \<Rightarrow> mem" where
  "puts olen buf r [] = buf"
| "puts olen buf r (c # cs) = puts olen (if r < olen then buf[r := c] else buf) (Suc r) cs"

lemma put_eq_puts: "olen \<le> length buf \<Longrightarrow> put olen buf r c = Some (puts olen buf r [c])"
  by (auto simp: put_def store_def)

lemma length_puts [simp]: "length (puts olen buf r s) = length buf"
  by (induction s arbitrary: buf r) auto

lemma puts_no_buffer [simp]: "puts olen [] r s = []"
  by (induction s arbitrary: r) auto

lemma puts_append: "puts olen buf r (s @ t) = puts olen (puts olen buf r s) (r + length s) t"
  by (induction s arbitrary: buf r) auto

lemma puts_nth:
  "i < length buf \<Longrightarrow>
    puts olen buf r s ! i = (if r \<le> i \<and> i < r + length s \<and> i < olen then s ! (i - r) else buf ! i)"
proof (induction s arbitrary: buf r)
  case Nil
  then show ?case by auto
next
  case (Cons c s)
  then show ?case by (auto simp: nth_list_update nth_Cons')
qed

lemma puts_fits:
  assumes "r + length s \<le> olen" and "olen \<le> length buf"
  shows "puts olen buf r s = take r buf @ s @ drop (r + length s) buf"
proof (rule nth_equalityI)
  show "length (puts olen buf r s) = length (take r buf @ s @ drop (r + length s) buf)"
    using assms by simp
next
  fix i
  assume "i < length (puts olen buf r s)"
  then show "puts olen buf r s ! i = (take r buf @ s @ drop (r + length s) buf) ! i"
    using assms by (auto simp: puts_nth nth_append min_def)
qed

lemma puts_rest: "drop olen (puts olen buf r s) = drop olen buf"
  by (rule nth_equalityI) (auto simp: puts_nth)

lemma puts_cover:
  "t \<noteq> [] \<Longrightarrow> puts olen (puts olen buf r (s @ [x])) (r + length s) t = puts olen buf r (s @ t)"
  by (rule nth_equalityI) (auto simp: puts_nth nth_append Suc_le_eq neq_Nil_conv)

lemma puts_beyond: "olen \<le> r \<Longrightarrow> puts olen buf r s = buf"
  by (rule nth_equalityI) (auto simp: puts_nth)

text \<open>A routine that works on the part of a buffer that starts at an offset.\<close>

definition at_offset :: "mem \<Rightarrow> nat \<Rightarrow> (mem \<Rightarrow> (nat \<times> mem) option) \<Rightarrow> (nat \<times> mem) option" where
  "at_offset buf p f = do {
     (r, tail) \<leftarrow> f (drop p buf);
     Some (r, take p buf @ tail)
   }"

lemma puts_at_offset:
  assumes "olen \<le> length buf"
  shows "take p buf @ puts (olen - p) (drop p buf) 0 s = puts olen buf p s"
proof (cases "p \<le> length buf")
  case True
  then show ?thesis using assms
    by (intro nth_equalityI) (auto simp: puts_nth nth_append min_def)
next
  case False
  then have "puts olen buf p s = buf" using assms
    by (intro nth_equalityI) (auto simp: puts_nth)
  moreover have "puts (olen - p) (drop p buf) 0 s = []"
    using False by (metis length_0_conv length_drop length_puts diff_is_0_eq nle_le)
  ultimately show ?thesis using False by simp
qed

text \<open>A run of writes with no guard, all inside of the array.\<close>

definition overwrite :: "'a list \<Rightarrow> nat \<Rightarrow> 'a list \<Rightarrow> 'a list" where
  "overwrite xs i ys = take i xs @ ys @ drop (i + length ys) xs"

lemma length_overwrite [simp]: "i + length ys \<le> length xs \<Longrightarrow> length (overwrite xs i ys) = length xs"
  by (simp add: overwrite_def)

lemma overwrite_Nil [simp]: "overwrite xs i [] = xs"
  by (simp add: overwrite_def)

lemma overwrite_append:
  "i + length ys + length zs \<le> length xs \<Longrightarrow>
    overwrite (overwrite xs i ys) (i + length ys) zs = overwrite xs i (ys @ zs)"
  by (simp add: overwrite_def add_ac)

lemma store_overwrite: "i < length xs \<Longrightarrow> store xs i y = Some (overwrite xs i [y])"
  by (simp add: store_def overwrite_def upd_conv_take_nth_drop)

lemma puts_overwrite:
  "r + length s \<le> olen \<Longrightarrow> olen \<le> length buf \<Longrightarrow> puts olen buf r s = overwrite buf r s"
  by (simp add: puts_fits overwrite_def)

lemma overwrite_all: "length ys = length xs \<Longrightarrow> overwrite xs 0 ys = ys"
  by (simp add: overwrite_def)

definition memcpy :: "mem \<Rightarrow> nat \<Rightarrow> mem \<Rightarrow> nat \<Rightarrow> mem option" where
  "memcpy dst off src n =
     (if off + n \<le> length dst \<and> n \<le> length src
      then Some (take off dst @ take n src @ drop (off + n) dst) else None)"

lemma memcpy_puts:
  assumes "olen \<le> length buf" and "n \<le> length src" and "r < olen"
  shows "memcpy buf r src (if olen - r \<ge> n then n else olen - r) = Some (puts olen buf r (take n src))"
proof -
  let ?k = "if olen - r \<ge> n then n else olen - r"
  have k: "r + ?k \<le> length buf" "?k \<le> length src" using assms by auto
  have "take r buf @ take ?k src @ drop (r + ?k) buf = puts olen buf r (take n src)"
    using assms k by (intro nth_equalityI) (auto simp: puts_nth nth_append min_def)
  then show ?thesis using k by (simp only: memcpy_def) simp
qed

subsection \<open>Allocation\<close>

text \<open>
  \<open>malloc\<close> is a function from a size to the block it returns, \<open>None\<close> when it
  returns \<open>NULL\<close>. What the fresh block contains is not specified; all that the sources
  rely on is its size.
\<close>

type_synonym allocator = "nat \<Rightarrow> mem option"

definition allocates :: "allocator \<Rightarrow> bool" where
  "allocates malloc \<longleftrightarrow> (\<forall>n b. malloc n = Some b \<longrightarrow> length b = n)"

text \<open>An allocator that always succeeds, used for concrete runs.\<close>

definition alloc_zero :: allocator where
  "alloc_zero n = Some (replicate n NUL)"

definition alloc_fail :: allocator where
  "alloc_fail n = None"

lemma allocatesD: "allocates malloc \<Longrightarrow> malloc n = Some b \<Longrightarrow> length b = n"
  by (auto simp: allocates_def)

lemma allocates_alloc_zero [simp]: "allocates alloc_zero"
  by (simp add: allocates_def alloc_zero_def)

lemma allocates_alloc_fail [simp]: "allocates alloc_fail"
  by (simp add: allocates_def alloc_fail_def)

text \<open>\<open>realloc\<close> keeps the common part of the block.\<close>

type_synonym reallocator = "mem \<Rightarrow> nat \<Rightarrow> mem option"

definition reallocates :: "reallocator \<Rightarrow> bool" where
  "reallocates realloc \<longleftrightarrow> (\<forall>b n b'. realloc b n = Some b' \<longrightarrow>
     length b' = n \<and> take (min n (length b)) b' = take n b)"

definition realloc_zero :: reallocator where
  "realloc_zero b n = Some (take n (b @ replicate n NUL))"

lemma reallocatesD:
  "reallocates realloc \<Longrightarrow> realloc b n = Some b' \<Longrightarrow> length b' = n \<and> take (min n (length b)) b' = take n b"
  by (simp add: reallocates_def)

lemma reallocates_realloc_zero [simp]: "reallocates realloc_zero"
  by (auto simp: reallocates_def realloc_zero_def min_def)

subsection \<open>Interface: a routine that writes a text into a bounded buffer\<close>

text \<open>
  Several routines share one contract: called with a buffer and its length they return the
  length of the whole text, whatever the buffer, and put in the buffer what fits of the text
  and its terminating zero. \<open>emit a olen buf\<close> is the routine on the input
  \<open>a\<close>, \<open>content a\<close> the text it promises, \<open>ok a\<close> its precondition.
\<close>

locale bounded_writer =
  fixes emit :: "'a \<Rightarrow> nat \<Rightarrow> mem \<Rightarrow> (nat \<times> mem) option"
    and content :: "'a \<Rightarrow> string"
    and ok :: "'a \<Rightarrow> bool"
  assumes emit_eq: "ok a \<Longrightarrow> olen \<le> length buf \<Longrightarrow>
    emit a olen buf = Some (length (content a), puts olen buf 0 (content a @ [NUL]))"
begin

text \<open>The call with no buffer measures; a block of that size plus one takes the text exactly.\<close>

lemma measure: "ok a \<Longrightarrow> emit a 0 [] = Some (length (content a), [])"
  by (simp add: emit_eq)

lemma exact:
  assumes "ok a" and "length buf = length (content a) + 1"
  shows "emit a (length buf) buf = Some (length (content a), cstr (content a))"
  using assms by (simp add: emit_eq puts_fits cstr_def)

lemma frame:
  assumes "ok a" and "olen \<le> length buf" and "emit a olen buf = Some (r, buf')"
  shows "length buf' = length buf \<and> drop olen buf' = drop olen buf"
proof -
  have "buf' = puts olen buf 0 (content a @ [NUL])" using assms by (simp add: emit_eq)
  then show ?thesis by (simp add: puts_rest)
qed

lemma fits:
  assumes "ok a" and "olen \<le> length buf" and "length (content a) < olen" and "no_nul (content a)"
    and "emit a olen buf = Some (r, buf')"
  shows "string_at buf' 0 = content a"
proof -
  have "buf' = puts olen buf 0 (content a @ [NUL])" using assms by (simp add: emit_eq)
  also have "\<dots> = [] @ content a @ NUL # drop (length (content a) + 1) buf"
    using assms by (subst puts_fits) auto
  finally show ?thesis using assms(4) string_at_append_NUL [of "content a" "[]"] by simp
qed

end

subsection \<open>Interface: an encoding and its decoder\<close>

locale codec =
  fixes encode :: "'a \<Rightarrow> 'b"
    and decode :: "'b \<Rightarrow> 'a option"
    and valid :: "'a \<Rightarrow> bool"
  assumes decode_encode: "valid a \<Longrightarrow> decode (encode a) = Some a"
begin

lemma encode_inj: "valid a \<Longrightarrow> valid b \<Longrightarrow> encode a = encode b \<longleftrightarrow> a = b"
proof
  assume v: "valid a" "valid b" and e: "encode a = encode b"
  have "Some a = decode (encode a)" using v(1) by (rule decode_encode [symmetric])
  also have "\<dots> = Some b" unfolding e using v(2) by (rule decode_encode)
  finally show "a = b" by simp
qed simp

lemma encode_inj_on: "inj_on encode {a. valid a}"
  by (auto simp: inj_on_def encode_inj)

end

end
