(* ===== verification/Escape.thy ===== *)
theory Escape
  imports Prelude
begin

text \<open>
  URL escaping of one text, the first half of \<open>src/http/rp-escape.c\<close>. First the code:
  the character tests, the length computations, the escaping and unescaping loops over a
  bounded output buffer, \<open>rp_escape\<close> and \<open>rp_unescape\<close>. Then what it is meant
  to compute, \<open>esc_string\<close> and \<open>unesc_string\<close> on plain strings, and the proofs
  that the code computes them within its buffers, that it measures what it writes, and that
  unescaping inverts escaping.
\<close>

subsection \<open>Characters and hexadecimal digits\<close>

definition should_escape :: "char \<Rightarrow> bool" where
  "should_escape c =
    (if schar c \<le> schar (CHR ''Z'') then
       (if schar c < schar (CHR ''0'') then c \<noteq> CHR ''-'' \<and> c \<noteq> CHR ''.''
        else schar c < schar (CHR ''A'') \<and> schar c > schar (CHR ''9''))
     else
       (if schar c \<le> schar (CHR ''z'') then schar c < schar (CHR ''a'') \<and> c \<noteq> CHR ''_''
        else c \<noteq> CHR ''~''))"

definition bin2hex :: "int \<Rightarrow> char" where
  "bin2hex f =
    (if f mod 16 \<noteq> f then to_char 0
     else if f < 10 then to_char (f + schar (CHR ''0''))
     else to_char (f + (schar (CHR ''A'') - 10)))"

definition hex2bin :: "char \<Rightarrow> int" where
  "hex2bin c =
    (if schar c \<le> schar (CHR ''F'') then
       (if schar c \<le> schar (CHR ''9'') then
          (if schar c \<ge> schar (CHR ''0'') then schar c - schar (CHR ''0'') else - 1)
        else if schar c \<ge> schar (CHR ''A'') then schar c - (schar (CHR ''A'') - 10)
        else - 1)
     else if schar c \<ge> schar (CHR ''a'') \<and> schar c \<le> schar (CHR ''f'')
       then schar c - (schar (CHR ''a'') - 10)
     else - 1)"

subsection \<open>Lengths\<close>

text \<open>The convention of the file: a zero length means that the text ends at its zero.\<close>

definition text_len :: "mem \<Rightarrow> nat \<Rightarrow> nat option" where
  "text_len itext ilen = (if ilen = 0 then strlen itext else Some ilen)"

function escaped_length_loop :: "mem \<Rightarrow> nat \<Rightarrow> nat \<Rightarrow> char \<Rightarrow> nat \<Rightarrow> nat option" where
  "escaped_length_loop itext ilen i c r =
    (if i < ilen then do {
       let r = r + (if c \<noteq> CHR '' '' \<and> should_escape c then 3 else 1);
       c \<leftarrow> load itext (Suc i);
       escaped_length_loop itext ilen (Suc i) c r
     } else Some r)"
  by pat_completeness auto
termination
  by (relation "measure (\<lambda>(itext, ilen, i, c, r). ilen - i)") auto

definition escaped_length :: "mem \<Rightarrow> nat \<Rightarrow> nat option" where
  "escaped_length itext ilen = do {
     ilen \<leftarrow> text_len itext ilen;
     c \<leftarrow> load itext 0;
     escaped_length_loop itext ilen 0 c 0
   }"

function unescapable_length_loop :: "mem \<Rightarrow> nat \<Rightarrow> nat \<Rightarrow> char \<Rightarrow> nat option" where
  "unescapable_length_loop itext ilen i c =
    (if i < ilen then
       if c \<noteq> CHR ''%'' then do {
         c \<leftarrow> load itext (i + 1);
         unescapable_length_loop itext ilen (i + 1) c
       }
       else if i + 3 > ilen then Some i
       else do {
         c1 \<leftarrow> load itext (i + 1);
         if hex2bin c1 < 0 then Some i
         else do {
           c2 \<leftarrow> load itext (i + 2);
           if hex2bin c2 < 0 then Some i
           else do {
             c \<leftarrow> load itext (i + 3);
             unescapable_length_loop itext ilen (i + 3) c
           }
         }
       }
     else Some i)"
  by pat_completeness auto
termination
  by (relation "measure (\<lambda>(itext, ilen, i, c). ilen - i)") auto

definition unescapable_length :: "mem \<Rightarrow> nat \<Rightarrow> nat option" where
  "unescapable_length itext ilen = do {
     c \<leftarrow> load itext 0;
     unescapable_length_loop itext ilen 0 c
   }"

function unescaped_length_loop :: "mem \<Rightarrow> nat \<Rightarrow> nat \<Rightarrow> char \<Rightarrow> nat \<Rightarrow> nat option" where
  "unescaped_length_loop itext ilen i c r =
    (if i < ilen then do {
       let i = i + (1 + (if c = CHR ''%'' then 2 else 0));
       c \<leftarrow> load itext i;
       unescaped_length_loop itext ilen i c (Suc r)
     } else Some r)"
  by pat_completeness auto
termination
  by (relation "measure (\<lambda>(itext, ilen, i, c, r). ilen - i)") auto

definition unescaped_length :: "mem \<Rightarrow> nat \<Rightarrow> nat option" where
  "unescaped_length itext ilen = do {
     c \<leftarrow> load itext 0;
     unescaped_length_loop itext ilen 0 c 0
   }"

subsection \<open>Escaping and unescaping into a buffer\<close>

function escape_loop ::
  "mem \<Rightarrow> nat \<Rightarrow> nat \<Rightarrow> nat \<Rightarrow> char \<Rightarrow> nat \<Rightarrow> mem \<Rightarrow> (nat \<times> mem) option" where
  "escape_loop itext ilen olen i c r otext =
    (if i < ilen then do {
       (c, r, otext) \<leftarrow>
         (if c = CHR '' '' then Some (CHR ''+'', r, otext)
          else if should_escape c then do {
            otext \<leftarrow> put olen otext r (CHR ''%'');
            otext \<leftarrow> put olen otext (r + 1) (bin2hex (shr4_and15 c));
            Some (bin2hex (and15 c), r + 2, otext)
          }
          else Some (c, r, otext));
       otext \<leftarrow> put olen otext r c;
       c \<leftarrow> load itext (Suc i);
       escape_loop itext ilen olen (Suc i) c (r + 1) otext
     } else Some (r, otext))"
  by pat_completeness auto
termination
  by (relation "measure (\<lambda>(itext, ilen, olen, i, c, r, otext). ilen - i)") auto

definition escape_to :: "mem \<Rightarrow> nat \<Rightarrow> mem \<Rightarrow> nat \<Rightarrow> (nat \<times> mem) option" where
  "escape_to itext ilen otext olen = do {
     ilen \<leftarrow> text_len itext ilen;
     c \<leftarrow> load itext 0;
     (r, otext) \<leftarrow> escape_loop itext ilen olen 0 c 0 otext;
     otext \<leftarrow> put olen otext r NUL;
     Some (r, otext)
   }"

text \<open>\<open>(h << 4) | l\<close>, truncated to a character, for two digit values.\<close>

definition hex_pair :: "int \<Rightarrow> int \<Rightarrow> char" where
  "hex_pair h l = to_char (or (push_bit 4 h) l)"

function unescape_loop ::
  "mem \<Rightarrow> nat \<Rightarrow> nat \<Rightarrow> nat \<Rightarrow> char \<Rightarrow> nat \<Rightarrow> mem \<Rightarrow> (nat \<times> mem) option" where
  "unescape_loop itext ilen olen i c r otext =
    (if i < ilen then
       if c \<noteq> CHR ''%'' then do {
         otext \<leftarrow> put olen otext r (if c = CHR ''+'' then CHR '' '' else c);
         c \<leftarrow> load itext (i + 1);
         unescape_loop itext ilen olen (i + 1) c (r + 1) otext
       }
       else if i + 2 \<ge> ilen then Some (r, otext)
       else do {
         c1 \<leftarrow> load itext (i + 1);
         c2 \<leftarrow> load itext (i + 2);
         otext \<leftarrow> put olen otext r (hex_pair (hex2bin c1) (hex2bin c2));
         c \<leftarrow> load itext (i + 3);
         unescape_loop itext ilen olen (i + 3) c (r + 1) otext
       }
     else Some (r, otext))"
  by pat_completeness auto
termination
  by (relation "measure (\<lambda>(itext, ilen, olen, i, c, r, otext). ilen - i)") auto

definition unescape_to :: "mem \<Rightarrow> nat \<Rightarrow> mem \<Rightarrow> nat \<Rightarrow> (nat \<times> mem) option" where
  "unescape_to itext ilen otext olen = do {
     ilen \<leftarrow> unescapable_length itext ilen;
     c \<leftarrow> load itext 0;
     (r, otext) \<leftarrow> unescape_loop itext ilen olen 0 c 0 otext;
     otext \<leftarrow> put olen otext r NUL;
     Some (r, otext)
   }"

declare escaped_length_loop.simps [simp del]
  unescapable_length_loop.simps [simp del]
  unescaped_length_loop.simps [simp del]
  escape_loop.simps [simp del]
  unescape_loop.simps [simp del]

subsection \<open>\<open>rp_escape\<close> and \<open>rp_unescape\<close>\<close>

text \<open>
  The returned block (\<open>None\<close> for \<open>NULL\<close>) and the value stored in
  \<open>*reslength\<close>.
\<close>

definition rp_escape :: "allocator \<Rightarrow> mem \<Rightarrow> nat \<Rightarrow> (mem option \<times> nat) option" where
  "rp_escape malloc text textlen = do {
     textlen \<leftarrow> text_len text textlen;
     elen \<leftarrow> escaped_length text textlen;
     let len = 1 + elen;
     case malloc len of
       None \<Rightarrow> Some (None, len - 1)
     | Some result \<Rightarrow> do {
         (r, result) \<leftarrow> escape_to text textlen result len;
         Some (Some result, len - 1)
       }
   }"

definition rp_unescape :: "allocator \<Rightarrow> mem \<Rightarrow> nat \<Rightarrow> (mem option \<times> nat) option" where
  "rp_unescape malloc text textlen = do {
     textlen \<leftarrow> text_len text textlen;
     ulen \<leftarrow> unescaped_length text textlen;
     let len = 1 + ulen;
     case malloc len of
       None \<Rightarrow> Some (None, len - 1)
     | Some result \<Rightarrow> do {
         (r, result) \<leftarrow> unescape_to text textlen result len;
         Some (Some result, len - 1)
       }
   }"

subsection \<open>What is meant\<close>

text \<open>The characters of \<open>[-.0-9A-Z_a-z~]\<close>, which stand for themselves.\<close>

definition unreserved :: "char \<Rightarrow> bool" where
  "unreserved c \<longleftrightarrow> uchar c \<in> {45, 46, 95, 126} \<union> {48..57} \<union> {65..90} \<union> {97..122}"

definition hexdigit :: "nat \<Rightarrow> char" where
  "hexdigit d = ''0123456789ABCDEF'' ! d"

definition hexval :: "char \<Rightarrow> nat option" where
  "hexval c =
    (if uchar c \<in> {48..57} then Some (uchar c - 48)
     else if uchar c \<in> {65..70} then Some (uchar c - 55)
     else if uchar c \<in> {97..102} then Some (uchar c - 87)
     else None)"

text \<open>The escaped form of a character: \<open>+\<close> for a space, itself when it is unreserved, else \<open>%\<close> and two hexadecimal digits.\<close>

definition esc_char :: "char \<Rightarrow> string" where
  "esc_char c =
    (if c = CHR '' '' then ''+'' else if unreserved c then [c]
     else [CHR ''%'', hexdigit (uchar c div 16), hexdigit (uchar c mod 16)])"

definition esc_string :: "string \<Rightarrow> string" where
  "esc_string s = concat (map esc_char s)"

text \<open>Unescaping stops at the first escape that is not \<open>%\<close> and two hexadecimal digits.\<close>

fun unesc_string :: "string \<Rightarrow> string" where
  "unesc_string [] = []"
| "unesc_string (c # cs) =
    (if c \<noteq> CHR ''%'' then (if c = CHR ''+'' then CHR '' '' else c) # unesc_string cs
     else case cs of
       h # l # rest \<Rightarrow>
         (case (hexval h, hexval l) of
            (Some a, Some b) \<Rightarrow> char_of (16 * a + b) # unesc_string rest
          | _ \<Rightarrow> [])
     | _ \<Rightarrow> [])"

text \<open>All escapes are well formed; the length of the longest prefix where they are.\<close>

fun wf_esc :: "string \<Rightarrow> bool" where
  "wf_esc [] = True"
| "wf_esc (c # cs) =
    (if c \<noteq> CHR ''%'' then wf_esc cs
     else case cs of
       h # l # rest \<Rightarrow> hexval h \<noteq> None \<and> hexval l \<noteq> None \<and> wf_esc rest
     | _ \<Rightarrow> False)"

fun esc_prefix_len :: "string \<Rightarrow> nat" where
  "esc_prefix_len [] = 0"
| "esc_prefix_len (c # cs) =
    (if c \<noteq> CHR ''%'' then Suc (esc_prefix_len cs)
     else case cs of
       h # l # rest \<Rightarrow> (if hexval h \<noteq> None \<and> hexval l \<noteq> None then 3 + esc_prefix_len rest else 0)
     | _ \<Rightarrow> 0)"

text \<open>
  What \<open>unescaped_length\<close> computes: every \<open>%\<close> counts, with the two characters
  after it whatever they are, for one. \<open>esc_reach\<close> is the index where the scan ends,
  beyond the text when it ends inside of an escape.
\<close>

fun esc_count :: "string \<Rightarrow> nat" where
  "esc_count [] = 0"
| "esc_count (c # cs) =
    (if c \<noteq> CHR ''%'' then Suc (esc_count cs)
     else case cs of h # l # rest \<Rightarrow> Suc (esc_count rest) | _ \<Rightarrow> 1)"

fun esc_reach :: "string \<Rightarrow> nat" where
  "esc_reach [] = 0"
| "esc_reach (c # cs) =
    (if c \<noteq> CHR ''%'' then Suc (esc_reach cs)
     else case cs of h # l # rest \<Rightarrow> 3 + esc_reach rest | _ \<Rightarrow> 3)"

subsection \<open>The code computes it\<close>

lemma should_escape_iff: "should_escape c \<longleftrightarrow> \<not> unreserved c"
  using uchar_bound [of c]
  by (auto simp: should_escape_def unreserved_def cchar)

lemma bin2hex_hexdigit: "d < 16 \<Longrightarrow> bin2hex (int d) = hexdigit d"
proof -
  have "\<forall>d \<in> {0..<16}. bin2hex (int d) = hexdigit d" by code_simp
  then show "d < 16 \<Longrightarrow> bin2hex (int d) = hexdigit d" by simp
qed

lemma hex2bin_hexval: "hex2bin c = (case hexval c of None \<Rightarrow> - 1 | Some v \<Rightarrow> int v)"
  using uchar_bound [of c]
  by (auto simp: hex2bin_def hexval_def cchar)

lemma hexval_hexdigit: "d < 16 \<Longrightarrow> hexval (hexdigit d) = Some d"
proof -
  have "\<forall>d \<in> {0..<16}. hexval (hexdigit d) = Some d" by code_simp
  then show "d < 16 \<Longrightarrow> hexval (hexdigit d) = Some d" by simp
qed

lemma hexval_bound: "hexval c = Some v \<Longrightarrow> v < 16"
  by (auto simp: hexval_def split: if_splits)

lemma hex_pair_eq:
  assumes "a < 16" and "b < 16"
  shows "hex_pair (int a) (int b) = char_of (16 * a + b)"
proof -
  have b: "take_bit 4 (int b) = int b" using assms(2) by (simp add: take_bit_int_eq_self)
  have "push_bit 4 (int a) + take_bit 4 (int b) = or (push_bit 4 (int a)) (take_bit 4 (int b))"
    by (rule disjunctive_add) (auto simp: bit_simps)
  then have "or (push_bit 4 (int a)) (int b) = int (16 * a + b)"
    by (simp only: b) (simp add: push_bit_eq_mult)
  moreover have "16 * a + b < 256" using assms by simp
  ultimately show ?thesis by (simp only: hex_pair_def to_char_def) (simp add: nat_mod_as_int)
qed

lemma esc_char_escaped:
  assumes "c \<noteq> CHR '' ''" and "should_escape c"
  shows "esc_char c = [CHR ''%'', bin2hex (shr4_and15 c), bin2hex (and15 c)]"
proof -
  have "uchar c < 16 * 16" using uchar_bound [of c] by simp
  then have "uchar c div 16 < 16" by (rule less_mult_imp_div_less)
  then show ?thesis using assms
    by (simp add: esc_char_def should_escape_iff shr4_and15_eq and15_eq bin2hex_hexdigit)
qed

lemma esc_char_plain: "c \<noteq> CHR '' '' \<Longrightarrow> \<not> should_escape c \<Longrightarrow> esc_char c = [c]"
  by (simp add: esc_char_def should_escape_iff)

lemma esc_char_space: "esc_char (CHR '' '') = ''+''"
  by (simp add: esc_char_def)

lemma esc_string_simps [simp]:
  "esc_string [] = []"
  "esc_string (c # s) = esc_char c @ esc_string s"
  "esc_string (s @ t) = esc_string s @ esc_string t"
  by (simp_all add: esc_string_def)

lemma escape_loop_eq:
  "i \<le> ilen \<Longrightarrow> ilen < length m \<Longrightarrow> olen \<le> length otext \<Longrightarrow>
   escape_loop m ilen olen i (m ! i) r otext =
     Some (r + length (esc_string (chunk m i ilen)), puts olen otext r (esc_string (chunk m i ilen)))"
proof (induction "ilen - i" arbitrary: i r otext)
  case 0
  then show ?case by (simp add: escape_loop.simps)
next
  case (Suc d)
  then have i: "i < ilen" and d: "d = ilen - Suc i" "Suc i \<le> ilen" "ilen < length m" by simp_all
  note IH = Suc.hyps(1) [OF d]
  have e: "chunk m i ilen = m ! i # chunk m (Suc i) ilen" using i d by (intro chunk_Cons) simp_all
  consider "m ! i = CHR '' ''" | "m ! i \<noteq> CHR '' ''" "should_escape (m ! i)"
    | "m ! i \<noteq> CHR '' ''" "\<not> should_escape (m ! i)" by blast
  then show ?case
    using i d Suc.prems(3)
    by cases (subst escape_loop.simps;
      simp add: e IH put_eq_puts esc_char_space esc_char_escaped esc_char_plain)+
qed

lemma length_esc_char: "length (esc_char c) = (if c \<noteq> CHR '' '' \<and> should_escape c then 3 else 1)"
  by (simp add: esc_char_def should_escape_iff)

lemma escaped_length_loop_eq:
  "i \<le> ilen \<Longrightarrow> ilen < length m \<Longrightarrow>
   escaped_length_loop m ilen i (m ! i) r = Some (r + length (esc_string (chunk m i ilen)))"
proof (induction "ilen - i" arbitrary: i r)
  case 0
  then show ?case by (simp add: escaped_length_loop.simps)
next
  case (Suc d)
  then have i: "i < ilen" and d: "d = ilen - Suc i" "Suc i \<le> ilen" "ilen < length m" by simp_all
  have e: "chunk m i ilen = m ! i # chunk m (Suc i) ilen" using i d by (intro chunk_Cons) simp_all
  show ?case using i d
    by (subst escaped_length_loop.simps) (simp add: e Suc.hyps(1) [OF d] length_esc_char)
qed

lemma chunk_Cons3:
  "i + 3 \<le> ilen \<Longrightarrow> ilen \<le> length m \<Longrightarrow>
    chunk m i ilen = m ! i # m ! (i + 1) # m ! (i + 2) # chunk m (i + 3) ilen"
  by (simp add: chunk_Cons numeral_3_eq_3)

lemma chunk_short:
  assumes "i < ilen" and "ilen < i + 3" and "ilen \<le> length m"
  shows "chunk m i ilen = [m ! i] \<or> chunk m i ilen = [m ! i, m ! (i + 1)]"
proof -
  have "ilen = i + 1 \<or> ilen = i + 2" using assms by auto
  then show ?thesis using assms by (auto simp: chunk_Cons)
qed

lemma unescapable_length_loop_eq:
  "i \<le> ilen \<Longrightarrow> ilen < length m \<Longrightarrow>
   unescapable_length_loop m ilen i (m ! i) = Some (i + esc_prefix_len (chunk m i ilen))"
proof (induction "ilen - i" arbitrary: i rule: less_induct)
  case less
  consider "i = ilen" | "i < ilen" "m ! i \<noteq> CHR ''%''" | "i < ilen" "m ! i = CHR ''%''" "ilen < i + 3"
    | "m ! i = CHR ''%''" "i + 3 \<le> ilen" using less.prems by linarith
  then show ?case
  proof cases
    case 1
    then show ?thesis by (simp add: unescapable_length_loop.simps)
  next
    case 2
    then show ?thesis using less
      by (subst unescapable_length_loop.simps) (simp add: chunk_Cons)
  next
    case 3
    then show ?thesis using less.prems chunk_short [of i ilen m]
      by (subst unescapable_length_loop.simps) auto
  next
    case 4
    then show ?thesis using less
      by (subst unescapable_length_loop.simps)
        (auto simp: chunk_Cons3 hex2bin_hexval split: option.splits)
  qed
qed

lemma unescaped_length_loop_eq:
  "i \<le> ilen \<Longrightarrow> ilen < length m \<Longrightarrow>
   unescaped_length_loop m ilen i (m ! i) r =
     (if i + esc_reach (chunk m i ilen) < length m
      then Some (r + esc_count (chunk m i ilen)) else None)"
proof (induction "ilen - i" arbitrary: i r rule: less_induct)
  case less
  consider "i = ilen" | "i < ilen" "m ! i \<noteq> CHR ''%''" | "i < ilen" "m ! i = CHR ''%''" "ilen < i + 3"
    | "m ! i = CHR ''%''" "i + 3 \<le> ilen" using less.prems by linarith
  then show ?case
  proof cases
    case 1
    then show ?thesis using less.prems by (simp add: unescaped_length_loop.simps)
  next
    case 2
    then show ?thesis using less
      by (subst unescaped_length_loop.simps) (simp add: chunk_Cons)
  next
    case 3
    then have r: "esc_reach (chunk m i ilen) = 3" and c: "esc_count (chunk m i ilen) = 1"
      using less.prems chunk_short [of i ilen m] by auto
    have z: "unescaped_length_loop m ilen (Suc (Suc (Suc i))) c (Suc r) = Some (Suc r)" for c
      using 3 by (simp add: unescaped_length_loop.simps)
    show ?thesis using 3 unfolding r c
      by (subst unescaped_length_loop.simps) (simp add: load_def z)
  next
    case 4
    then show ?thesis using less
      by (subst unescaped_length_loop.simps) (simp add: chunk_Cons3 numeral_3_eq_3)
  qed
qed

lemma unescape_loop_eq:
  "i \<le> ilen \<Longrightarrow> ilen < length m \<Longrightarrow> olen \<le> length otext \<Longrightarrow> wf_esc (chunk m i ilen) \<Longrightarrow>
   unescape_loop m ilen olen i (m ! i) r otext =
     Some (r + length (unesc_string (chunk m i ilen)), puts olen otext r (unesc_string (chunk m i ilen)))"
proof (induction "ilen - i" arbitrary: i r otext rule: less_induct)
  case less
  consider "i = ilen" | "i < ilen" "m ! i \<noteq> CHR ''%''" | "i < ilen" "m ! i = CHR ''%''" "ilen < i + 3"
    | "m ! i = CHR ''%''" "i + 3 \<le> ilen" using less.prems by linarith
  then show ?case
  proof cases
    case 1
    then show ?thesis by (simp add: unescape_loop.simps)
  next
    case 2
    then show ?thesis using less
      by (subst unescape_loop.simps) (auto simp: chunk_Cons put_eq_puts)
  next
    case 3
    then show ?thesis using less.prems chunk_short [of i ilen m] by auto
  next
    case 4
    then obtain a b where ab: "hexval (m ! Suc i) = Some a" "hexval (m ! (i + 2)) = Some b"
      using less.prems by (auto simp: chunk_Cons3)
    then have "a < 16" "b < 16" by (auto dest: hexval_bound)
    with 4 ab show ?thesis using less
      by (subst unescape_loop.simps)
        (simp add: chunk_Cons3 hex2bin_hexval hex_pair_eq put_eq_puts)
  qed
qed

lemma text_len_less:
  "text_len m n = Some k \<Longrightarrow> n = 0 \<or> n < length m \<Longrightarrow> k < length m \<and> 0 < length m"
proof -
  assume t: "text_len m n = Some k" and n: "n = 0 \<or> n < length m"
  show ?thesis
  proof (cases "n = 0")
    case True
    then have mem: "NUL \<in> set m" and k: "k = length (takeWhile (\<lambda>c. c \<noteq> NUL) m)"
      using t by (auto simp: text_len_def strlen_def split: if_splits)
    have "k \<noteq> length m" using mem unfolding k
      by (metis takeWhile_eq_take take_all_iff order_refl set_takeWhileD)
    moreover have "k \<le> length m" unfolding k by (rule length_takeWhile_le)
    ultimately have "k < length m" by simp
    then show ?thesis by auto
  next
    case False
    then show ?thesis using t n by (auto simp: text_len_def)
  qed
qed

lemma text_len_idem: "text_len m n = Some k \<Longrightarrow> text_len m k = Some k"
  by (auto simp: text_len_def split: if_splits)

lemma load_head: "k < length m \<Longrightarrow> load m 0 = Some (m ! 0)"
  by (rule load_Some) auto

lemma escaped_length_eq:
  "text_len m n = Some k \<Longrightarrow> k < length m \<Longrightarrow>
    escaped_length m n = Some (length (esc_string (take k m)))"
  using escaped_length_loop_eq [of 0 k m 0] by (simp add: escaped_length_def load_head [of k m])

lemma escape_to_eq:
  "text_len m n = Some k \<Longrightarrow> k < length m \<Longrightarrow> olen \<le> length buf \<Longrightarrow>
    escape_to m n buf olen =
      Some (length (esc_string (take k m)), puts olen buf 0 (esc_string (take k m) @ [NUL]))"
  using escape_loop_eq [of 0 k m olen buf 0]
  by (simp add: escape_to_def load_head [of k m] put_eq_puts puts_append)

lemma unescaped_length_eq:
  "k < length m \<Longrightarrow> unescaped_length m k =
     (if esc_reach (take k m) < length m then Some (esc_count (take k m)) else None)"
  using unescaped_length_loop_eq [of 0 k m 0] by (simp add: unescaped_length_def load_head [of k m])

lemma esc_induct [case_names Nil plain short1 short2 triple]:
  assumes "P []"
    and "\<And>c cs. c \<noteq> CHR ''%'' \<Longrightarrow> P cs \<Longrightarrow> P (c # cs)"
    and "P [CHR ''%'']"
    and "\<And>h. P [CHR ''%'', h]"
    and "\<And>h l rest. P rest \<Longrightarrow> P (CHR ''%'' # h # l # rest)"
  shows "P s"
proof (induction s rule: length_induct)
  case (1 s)
  consider "s = []" | c cs where "s = c # cs" "c \<noteq> CHR ''%''" | "s = [CHR ''%'']"
    | h where "s = [CHR ''%'', h]" | h l rest where "s = CHR ''%'' # h # l # rest"
    by (metis list.exhaust)
  then show ?case using assms 1 by cases auto
qed

lemma esc_prefix_len_le: "esc_prefix_len s \<le> length s"
  by (induction s rule: esc_induct) auto

lemma wf_esc_prefix: "wf_esc (take (esc_prefix_len s) s)"
  by (induction s rule: esc_induct) (auto simp: numeral_3_eq_3)

lemma unesc_prefix: "unesc_string (take (esc_prefix_len s) s) = unesc_string s"
  by (induction s rule: esc_induct) (auto simp: numeral_3_eq_3 split: option.splits)

lemma unescape_to_eq:
  assumes "k < length m" and "olen \<le> length buf"
  shows "unescape_to m k buf olen =
    Some (length (unesc_string (take k m)), puts olen buf 0 (unesc_string (take k m) @ [NUL]))"
proof -
  let ?u = "esc_prefix_len (take k m)"
  have u: "unescapable_length m k = Some ?u"
    using assms unescapable_length_loop_eq [of 0 k m] by (simp add: unescapable_length_def load_head [of k m])
  have le: "?u \<le> k" using esc_prefix_len_le [of "take k m"] assms(1) by simp
  then have take: "take ?u (take k m) = take ?u m" by (simp add: min_def)
  have "unescape_loop m ?u olen 0 (m ! 0) 0 buf =
      Some (length (unesc_string (take k m)), puts olen buf 0 (unesc_string (take k m)))"
    using unescape_loop_eq [of 0 ?u m olen buf 0] le assms
      wf_esc_prefix [of "take k m"] unesc_prefix [of "take k m"]
    by (simp only: take chunk_0) simp
  then show ?thesis using u assms
    by (simp add: unescape_to_def load_head [of k m] put_eq_puts puts_append)
qed

lemma esc_reach_ge: "length s \<le> esc_reach s"
  by (induction s rule: esc_induct) auto

lemma wf_esc_reach: "wf_esc s \<Longrightarrow> esc_reach s = length s"
  by (induction s rule: esc_induct) auto

lemma unesc_le_count: "length (unesc_string s) \<le> esc_count s"
  by (induction s rule: esc_induct) (auto split: option.splits)

lemma unesc_eq_count: "length (unesc_string s) = esc_count s \<longleftrightarrow> wf_esc s"
  by (induction s rule: esc_induct) (auto split: option.splits)

subsection \<open>Unescaping inverts escaping\<close>

lemma escape_char_values:
  assumes "x \<in> set (esc_char c)"
  shows "x = CHR ''%'' \<or> x = CHR ''+'' \<or> unreserved x"
proof -
  have hd: "unreserved (hexdigit d)" if "d < 16" for d
  proof -
    have "\<forall>d \<in> {0..<16}. unreserved (hexdigit d)" by code_simp
    then show ?thesis using that by simp
  qed
  have "uchar c < 16 * 16" using uchar_bound [of c] by simp
  then have "uchar c div 16 < 16" by (rule less_mult_imp_div_less)
  then show ?thesis using assms hd by (auto simp: esc_char_def split: if_splits)
qed

lemma unesc_esc_char: "unesc_string (esc_char c @ t) = c # unesc_string t"
proof -
  have d: "uchar c div 16 < 16" using uchar_bound [of c] by (simp add: less_mult_imp_div_less)
  have u: "\<not> unreserved (CHR ''%'')" "\<not> unreserved (CHR ''+'')" by (simp_all add: unreserved_def)
  have "char_of (16 * (uchar c div 16) + uchar c mod 16) = c" by (simp add: uchar_def)
  then show ?thesis using d u by (auto simp: esc_char_def hexval_hexdigit)
qed

lemma wf_esc_char: "wf_esc (esc_char c @ t) = wf_esc t"
proof -
  have d: "uchar c div 16 < 16" using uchar_bound [of c] by (simp add: less_mult_imp_div_less)
  have u: "\<not> unreserved (CHR ''%'')" by (simp add: unreserved_def)
  then show ?thesis using d by (auto simp: esc_char_def hexval_hexdigit)
qed

lemma unesc_esc_string [simp]: "unesc_string (esc_string s) = s"
  by (induction s) (simp_all add: unesc_esc_char)

lemma wf_esc_string [simp]: "wf_esc (esc_string s)"
  by (induction s) (simp_all add: wf_esc_char)

lemma esc_string_chars:
  "x \<in> set (esc_string s) \<Longrightarrow> x = CHR ''%'' \<or> x = CHR ''+'' \<or> unreserved x"
  by (induction s) (auto dest: escape_char_values)

lemma no_nul_esc_string [simp]: "no_nul (esc_string s)"
proof -
  have "\<not> unreserved NUL" by (simp add: unreserved_def)
  then show ?thesis using esc_string_chars [of NUL s] by (auto simp: no_nul_def)
qed

interpretation url_codec: codec esc_string
  "\<lambda>t. if wf_esc t then Some (unesc_string t) else None" "\<lambda>_. True"
  by unfold_locales simp

text \<open>\<open>escape_to\<close> and \<open>unescape_to\<close> on a text given with its length are bounded writers.\<close>

interpretation escape_writer: bounded_writer
  "\<lambda>(m, n) olen buf. escape_to m n buf olen"
  "\<lambda>(m, n). esc_string (take (the (text_len m n)) m)"
  "\<lambda>(m, n). \<exists>k. text_len m n = Some k \<and> k < length m"
  by unfold_locales (auto simp: escape_to_eq)

interpretation unescape_writer: bounded_writer
  "\<lambda>(m, n) olen buf. unescape_to m n buf olen"
  "\<lambda>(m, n). unesc_string (take n m)"
  "\<lambda>(m, n). n < length m"
  by unfold_locales (auto simp: unescape_to_eq)

subsection \<open>Properties\<close>

text \<open>
  Property C1: \<open>rp_escape\<close> stays within its text and its block, reports the length of
  the escaped text, and returns it with its terminating zero, for a text given with its
  length (the byte after the text must be readable) or ended by its zero.
\<close>

theorem rp_escape_correct:
  assumes "allocates malloc" and "text_len m n = Some k" and "n = 0 \<or> n < length m"
  shows "rp_escape malloc m n =
    Some (map_option (\<lambda>_. cstr (esc_string (take k m))) (malloc (1 + length (esc_string (take k m)))),
      length (esc_string (take k m)))"
proof -
  have k: "k < length m" using text_len_less assms(2,3) by blast
  have k2: "text_len m k = Some k" by (rule text_len_idem [OF assms(2)])
  show ?thesis
  proof (cases "malloc (1 + length (esc_string (take k m)))")
    case None
    then show ?thesis
      by (simp add: rp_escape_def assms(2) escaped_length_eq [OF k2 k])
  next
    case (Some b)
    then have "length b = length (esc_string (take k m)) + 1"
      using allocatesD [OF assms(1)] by fastforce
    then have "escape_to m k b (length b) =
        Some (length (esc_string (take k m)), cstr (esc_string (take k m)))"
      using escape_writer.exact [of "(m, k)" b] k2 k by simp
    then show ?thesis using Some \<open>length b = _\<close>
      by (simp add: rp_escape_def assms(2) escaped_length_eq [OF k2 k])
  qed
qed

theorem rp_escape_correct_witness:
  "rp_escape alloc_zero (cstr ''a b/c'') 0 = Some (Some (cstr ''a+b%2Fc''), 7)"
  using rp_escape_correct [of alloc_zero "cstr ''a b/c''" 0 5]
  by (simp add: text_len_def cstr_def strlen_def alloc_zero_def esc_char_def unreserved_def hexdigit_def)

text \<open>Without a readable byte after the length it is read all the same.\<close>

lemma rp_escape_overread: "rp_escape alloc_zero ''ab'' 2 = None"
  by code_simp

text \<open>
  \<open>rp_unescape\<close> on a C string. It stays within the text exactly when no
  escape runs over the end of the text; then the block holds the unescaped text and its zero,
  and the reported length counts every \<open>%\<close> for one character.
\<close>

theorem rp_unescape_correct:
  assumes "allocates malloc" and "no_nul s"
  shows "rp_unescape malloc (cstr s) 0 =
    (if esc_reach s = length s
     then Some (map_option (\<lambda>b. unesc_string s @ NUL # drop (length (unesc_string s) + 1) b)
                  (malloc (1 + esc_count s)),
                esc_count s)
     else None)"
proof (cases "esc_reach s = length s")
  case False
  then have "esc_reach s \<ge> Suc (length s)" using esc_reach_ge [of s] by simp
  then have "unescaped_length (cstr s) (length s) = None"
    by (simp add: unescaped_length_eq)
  then show ?thesis using False assms(2) by (simp add: rp_unescape_def text_len_def)
next
  case True
  then have u: "unescaped_length (cstr s) (length s) = Some (esc_count s)"
    by (simp add: unescaped_length_eq)
  show ?thesis
  proof (cases "malloc (1 + esc_count s)")
    case None
    then show ?thesis using u True assms(2) by (simp add: rp_unescape_def text_len_def)
  next
    case (Some b)
    then have b: "length b = esc_count s + 1" using allocatesD [OF assms(1)] by fastforce
    have "unescape_to (cstr s) (length s) b (length b) =
        Some (length (unesc_string s), puts (length b) b 0 (unesc_string s @ [NUL]))"
      by (simp add: unescape_to_eq)
    also have "puts (length b) b 0 (unesc_string s @ [NUL]) =
        unesc_string s @ NUL # drop (length (unesc_string s) + 1) b"
      using b unesc_le_count [of s] by (simp add: puts_fits)
    finally show ?thesis using Some u b True assms(2) by (simp add: rp_unescape_def text_len_def)
  qed
qed

theorem rp_unescape_correct_witness:
  "rp_unescape alloc_zero (cstr ''a+b%2fc'') 0 = Some (Some (cstr ''a b/c''), 5) \<and>
   rp_unescape alloc_zero (cstr ''abc%'') 0 = None"
proof
  show "rp_unescape alloc_zero (cstr ''a+b%2fc'') 0 = Some (Some (cstr ''a b/c''), 5)"
    by (subst rp_unescape_correct)
      (simp_all add: alloc_zero_def hexval_def cstr_def char_eq_uchar)
  show "rp_unescape alloc_zero (cstr ''abc%'') 0 = None"
    by (subst rp_unescape_correct) simp_all
qed

text \<open>
  Property C2: unescaping what \<open>rp_escape\<close> returned gives the text back, with its
  length, whatever the bytes of the text.
\<close>

theorem rp_unescape_escape:
  assumes "allocates malloc" and "allocates malloc'" and "no_nul s"
    and "rp_escape malloc (cstr s) 0 = Some (Some t, n)"
    and "malloc' (1 + length s) = Some b"
  shows "rp_unescape malloc' t 0 = Some (Some (cstr s), length s)"
proof -
  have "text_len (cstr s) 0 = Some (length s)" using assms(3) by (simp add: text_len_def)
  then have t: "t = cstr (esc_string s)"
    using rp_escape_correct [OF assms(1), of "cstr s" 0 "length s"] assms(4)
    by (auto simp: map_option_case split: option.splits)
  have c: "esc_count (esc_string s) = length s"
    using unesc_eq_count [of "esc_string s"] by simp
  have r: "esc_reach (esc_string s) = length (esc_string s)" by (rule wf_esc_reach) simp
  have "length b = 1 + length s" using allocatesD [OF assms(2,5)] .
  then have "drop (length s + 1) b = []" by simp
  then show ?thesis
    using rp_unescape_correct [OF assms(2), of "esc_string s"] assms(5)
    by (simp add: t c r cstr_def)
qed

theorem rp_unescape_escape_witness:
  "rp_unescape alloc_zero (cstr ''%C3%A9+%25'') 0 =
    Some (Some (cstr [CHR 0xC3, CHR 0xA9, CHR '' '', CHR ''%'']), 4)"
proof -
  let ?s = "[CHR 0xC3, CHR 0xA9, CHR '' '', CHR ''%'']"
  have e: "rp_escape alloc_zero (cstr ?s) 0 = Some (Some (cstr ''%C3%A9+%25''), 10)"
    by (subst rp_escape_correct [where k = 4])
      (simp_all add: text_len_def alloc_zero_def cstr_def strlen_def esc_char_def unreserved_def hexdigit_def)
  show ?thesis using rp_unescape_escape [OF _ _ _ e, of alloc_zero] by (simp add: alloc_zero_def)
qed

text \<open>
  For a text whose escapes do not run over its end, the length reported by
  \<open>rp_unescape\<close> is the length of the C string it returns only when all escapes are well
  formed (and none is \<open>%00\<close>): a malformed escape cuts the text but not the length.
\<close>

theorem rp_unescape_reslength:
  assumes "allocates malloc" and "no_nul s" and "no_nul (unesc_string s)"
    and "rp_unescape malloc (cstr s) 0 = Some (Some t, n)"
  shows "strlen t = Some n \<longleftrightarrow> wf_esc s"
proof -
  from rp_unescape_correct [OF assms(1,2)] assms(4)
  obtain b where t: "t = unesc_string s @ NUL # drop (length (unesc_string s) + 1) b"
    and n: "n = esc_count s"
    by (auto simp: map_option_case split: if_splits option.splits)
  have "strlen t = Some (length (unesc_string s))"
    unfolding t using assms(3) by (rule strlen_append_NUL)
  then show ?thesis using unesc_eq_count [of s] by (auto simp: n)
qed

theorem rp_unescape_reslength_witness:
  "rp_unescape alloc_zero (cstr ''a%zz'') 0 = Some (Some [CHR ''a'', NUL, NUL], 2) \<and>
   strlen [CHR ''a'', NUL, NUL] \<noteq> Some 2"
proof -
  have r: "rp_unescape alloc_zero (cstr ''a%zz'') 0 = Some (Some [CHR ''a'', NUL, NUL], 2)"
    by (subst rp_unescape_correct) (simp_all add: alloc_zero_def hexval_def numeral_2_eq_2)
  have "\<not> wf_esc ''a%zz''" and "no_nul (unesc_string ''a%zz'')" by (simp_all add: hexval_def)
  then show ?thesis using rp_unescape_reslength [OF _ _ _ r] r by simp
qed

end
