(* ===== verification/EscapeUrl.thy ===== *)
theory EscapeUrl
  imports Escape
begin

text \<open>
  URLs and their arguments, the second half of \<open>src/http/rp-escape.c\<close>: the
  composition of an URL from a base, a path and arguments, and the splitting of the arguments
  of an URL in one block of pointers and texts. The proofs relate both to plain strings and
  show that splitting inverts composing.
\<close>

subsection \<open>URLs\<close>

text \<open>
  An argument vector is an array of pointers to C strings, \<open>None\<close> for \<open>NULL\<close>:
  keys at the even indices, values at the odd ones, a \<open>NULL\<close> key at the end.
\<close>

type_synonym argv = "mem option list"

text \<open>The steps of the loop over the arguments: the separator, an escaped text, a value.\<close>

definition put_separator :: "nat \<Rightarrow> bool \<Rightarrow> nat \<Rightarrow> mem \<Rightarrow> nat \<Rightarrow> (nat \<times> mem) option" where
  "put_separator i haspath len buffer l =
     (if i \<noteq> 0 then do {
        buffer \<leftarrow> put len buffer l (CHR ''&'');
        Some (l + 1, buffer)
      }
      else if haspath then do {
        buffer \<leftarrow> put len buffer l
          (if CHR ''?'' \<in> set (take l buffer) then CHR ''&'' else CHR ''?'');
        Some (l + 1, buffer)
      }
      else Some (l, buffer))"

definition put_escaped :: "mem \<Rightarrow> nat \<Rightarrow> mem \<Rightarrow> nat \<Rightarrow> (nat \<times> mem) option" where
  "put_escaped arg len buffer l = do {
     alen \<leftarrow> strlen arg;
     (r, buffer) \<leftarrow> at_offset buffer l
       (\<lambda>b. escape_to arg alen b (if l < len then len - l else 0));
     Some (l + r, buffer)
   }"

definition put_value :: "mem option \<Rightarrow> nat \<Rightarrow> mem \<Rightarrow> nat \<Rightarrow> (nat \<times> mem) option" where
  "put_value arg len buffer l =
     (case arg of
        None \<Rightarrow> Some (l, buffer)
      | Some val \<Rightarrow> do {
          buffer \<leftarrow> put len buffer l (CHR ''='');
          put_escaped val len buffer (l + 1)
        })"

function escape_url_args ::
  "argv \<Rightarrow> bool \<Rightarrow> nat \<Rightarrow> nat \<Rightarrow> mem \<Rightarrow> nat \<Rightarrow> (nat \<times> mem) option" where
  "escape_url_args args haspath len i buffer l = do {
     arg \<leftarrow> load args i;
     case arg of
       None \<Rightarrow> Some (l, buffer)
     | Some key \<Rightarrow> do {
         (l, buffer) \<leftarrow> put_separator i haspath len buffer l;
         (l, buffer) \<leftarrow> put_escaped key len buffer l;
         arg \<leftarrow> load args (i + 1);
         (l, buffer) \<leftarrow> put_value arg len buffer l;
         escape_url_args args haspath len (i + 2) buffer l
       }
   }"
  by pat_completeness auto
termination
  by (relation "measure (\<lambda>(args, haspath, len, i, buffer, l). length args - i)")
    (auto simp: load_eq_Some)

declare escape_url_args.simps [simp del]

text \<open>The base, with the slash that may be needed between it and the path; the path.\<close>

definition put_base ::
  "mem option \<Rightarrow> mem option \<Rightarrow> nat \<Rightarrow> nat \<Rightarrow> nat \<Rightarrow> mem \<Rightarrow> (nat \<times> mem) option" where
  "put_base base path lenbase lenpath len buffer =
     (if lenbase \<noteq> 0 then do {
        base \<leftarrow> base;
        buffer \<leftarrow>
          (if len \<noteq> 0
           then memcpy buffer 0 base (if len \<ge> lenbase then lenbase else len)
           else Some buffer);
        cb \<leftarrow> load base (lenbase - 1);
        if cb \<noteq> CHR ''/'' \<and> lenpath \<noteq> 0 then do {
          path \<leftarrow> path;
          cp \<leftarrow> load path 0;
          if cp \<noteq> CHR ''/'' then do {
            buffer \<leftarrow> put len buffer lenbase (CHR ''/'');
            Some (lenbase + 1, buffer)
          } else Some (lenbase, buffer)
        } else Some (lenbase, buffer)
      } else Some (lenbase, buffer))"

definition put_path :: "mem option \<Rightarrow> nat \<Rightarrow> nat \<Rightarrow> mem \<Rightarrow> nat \<Rightarrow> (nat \<times> mem) option" where
  "put_path path lenpath len buffer l =
     (if lenpath \<noteq> 0 then do {
        path \<leftarrow> path;
        buffer \<leftarrow>
          (if l < len
           then memcpy buffer l path (if len - l \<ge> lenpath then lenpath else len - l)
           else Some buffer);
        Some (l + lenpath, buffer)
      } else Some (l, buffer))"

definition escape_url_to ::
  "mem option \<Rightarrow> mem option \<Rightarrow> argv \<Rightarrow> mem \<Rightarrow> nat \<Rightarrow> nat \<Rightarrow> nat \<Rightarrow> (nat \<times> mem) option" where
  "escape_url_to base path args buffer len lenbase lenpath = do {
     (l, buffer) \<leftarrow> put_base base path lenbase lenpath len buffer;
     (l, buffer) \<leftarrow> put_path path lenpath len buffer l;
     (l, buffer) \<leftarrow> escape_url_args args (lenbase \<noteq> 0 \<or> lenpath \<noteq> 0) len 0 buffer l;
     buffer \<leftarrow> put len buffer l NUL;
     Some (l, buffer)
   }"

text \<open>A missing base, path or argument vector counts as an empty one.\<close>

definition opt_strlen :: "mem option \<Rightarrow> nat option" where
  "opt_strlen p = (case p of None \<Rightarrow> Some 0 | Some m \<Rightarrow> strlen m)"

definition args_or_empty :: "argv option \<Rightarrow> argv" where
  "args_or_empty args = (case args of None \<Rightarrow> [None] | Some a \<Rightarrow> a)"

definition rp_escape_url_to ::
  "mem option \<Rightarrow> mem option \<Rightarrow> argv option \<Rightarrow> mem \<Rightarrow> nat \<Rightarrow> (nat \<times> mem) option" where
  "rp_escape_url_to base path args buffer len = do {
     lenbase \<leftarrow> opt_strlen base;
     lenpath \<leftarrow> opt_strlen path;
     escape_url_to base path (args_or_empty args) buffer len lenbase lenpath
   }"

definition rp_escape_url ::
  "allocator \<Rightarrow> mem option \<Rightarrow> mem option \<Rightarrow> argv option \<Rightarrow> (mem option \<times> nat) option" where
  "rp_escape_url malloc base path args = do {
     lenbase \<leftarrow> opt_strlen base;
     lenpath \<leftarrow> opt_strlen path;
     let args = args_or_empty args;
     (rlen, _) \<leftarrow> escape_url_to base path args [] 0 lenbase lenpath;
     case malloc (rlen + 1) of
       None \<Rightarrow> Some (None, rlen)
     | Some result \<Rightarrow> do {
         (_, result) \<leftarrow> escape_url_to base path args result (rlen + 1) lenbase lenpath;
         Some (Some result, rlen)
       }
   }"

definition rp_escape_args :: "allocator \<Rightarrow> argv option \<Rightarrow> (mem option \<times> nat) option" where
  "rp_escape_args malloc args = rp_escape_url malloc None None args"

definition rp_escape_str :: "allocator \<Rightarrow> mem option \<Rightarrow> (mem option \<times> nat) option" where
  "rp_escape_str malloc str = rp_escape_url malloc None None (Some [str, None, None])"

subsection \<open>Splitting URL arguments\<close>

text \<open>Subtraction of \<open>size_t\<close> values wraps.\<close>

definition size_sub :: "nat \<Rightarrow> nat \<Rightarrow> nat" where
  "size_sub a b = (if b \<le> a then a - b else a + 2 ^ 64 - b)"

text \<open>First pass of \<open>rp_unescape_args\<close>: the number of pairs and the length of their text.\<close>

function unescape_args_count :: "mem \<Rightarrow> nat \<Rightarrow> nat \<Rightarrow> nat \<Rightarrow> (nat \<times> nat) option" where
  "unescape_args_count args z n lt = do {
     l \<leftarrow> strcspn (drop z args) ''&='';
     u \<leftarrow> unescaped_length (drop z args) l;
     let lt = lt + (1 + u);
     let z = z + l;
     c \<leftarrow> load args z;
     let z = z + 1;
     (c, z, lt) \<leftarrow>
       (if c = CHR ''='' then do {
          l \<leftarrow> strcspn (drop z args) ''&'';
          u \<leftarrow> unescaped_length (drop z args) l;
          let lt = lt + (1 + u);
          let z = z + l;
          c \<leftarrow> load args z;
          Some (c, z + 1, lt)
        } else Some (c, z, lt));
     if c \<noteq> NUL then unescape_args_count args z (n + 1) lt else Some (n + 1, lt)
   }"
  by pat_completeness auto
termination
  by (relation "measure (\<lambda>(args, z, n, lt). length args - z)")
    (auto simp: load_eq_Some Let_def split: if_splits Option.bind_splits)

text \<open>
  Second pass: the pointers are offsets in the text area, \<open>q\<close> is the index of the next
  pointer to store.
\<close>

type_synonym arg_ptrs = "nat option list"

function unescape_args_fill ::
  "mem \<Rightarrow> nat \<Rightarrow> arg_ptrs \<Rightarrow> nat \<Rightarrow> mem \<Rightarrow> nat \<Rightarrow> nat \<Rightarrow> (nat \<times> arg_ptrs \<times> mem) option" where
  "unescape_args_fill args z ptrs q area p lt = do {
     ptrs \<leftarrow> store ptrs q (Some p);
     l \<leftarrow> strcspn (drop z args) ''&='';
     (r, area) \<leftarrow> at_offset area p (\<lambda>b. unescape_to (drop z args) l b lt);
     let lt = size_sub lt (1 + r);
     let p = p + (1 + r);
     let z = z + l;
     c \<leftarrow> load args z;
     let z = z + 1;
     (c, z, ptrs, area, p, lt) \<leftarrow>
       (if c \<noteq> CHR ''='' then do {
          ptrs \<leftarrow> store ptrs (q + 1) (Some (p - 1));
          Some (c, z, ptrs, area, p, lt)
        }
        else do {
          ptrs \<leftarrow> store ptrs (q + 1) (Some p);
          l \<leftarrow> strcspn (drop z args) ''&'';
          (r, area) \<leftarrow> at_offset area p (\<lambda>b. unescape_to (drop z args) l b lt);
          let lt = size_sub lt (1 + r);
          let p = p + (1 + r);
          let z = z + l;
          c \<leftarrow> load args z;
          Some (c, z + 1, ptrs, area, p, lt)
        });
     if c \<noteq> NUL then unescape_args_fill args z ptrs (q + 2) area p lt
     else Some (q + 2, ptrs, area)
   }"
  by pat_completeness auto
termination
  by (relation "measure (\<lambda>(args, z, ptrs, q, area, p, lt). length args - z)")
    (auto simp: load_eq_Some Let_def split: if_splits Option.bind_splits)

declare unescape_args_count.simps [simp del] unescape_args_fill.simps [simp del]

text \<open>
  The result is one block: \<open>2 * n + 1\<close> pointers of 8 bytes, then the text area. The
  pointers are kept as the array \<open>ptrs\<close> of offsets in the area, \<open>None\<close> for
  \<open>NULL\<close> (the content before the stores is not specified; \<open>None\<close> stands for it).
\<close>

definition rp_unescape_args :: "allocator \<Rightarrow> mem \<Rightarrow> (arg_ptrs \<times> mem) option option" where
  "rp_unescape_args malloc args = do {
     c0 \<leftarrow> load args 0;
     (n, lt) \<leftarrow> (if c0 \<noteq> NUL then unescape_args_count args 0 0 0 else Some (0, 0));
     case malloc (lt + (2 * n + 1) * 8) of
       None \<Rightarrow> Some None
     | Some block \<Rightarrow> do {
         let area = drop ((2 * n + 1) * 8) block;
         let ptrs = replicate (2 * n + 1) None;
         (q, ptrs, area) \<leftarrow>
           (if c0 \<noteq> NUL then unescape_args_fill args 0 ptrs 0 area 0 lt
            else Some (0, ptrs, area));
         ptrs \<leftarrow> store ptrs q None;
         Some (Some (ptrs, area))
       }
   }"

text \<open>
  \<open>rp_unescaped_args_get\<close> walks the pointers by two; its result is the offset of the
  value, \<open>None\<close> (for \<open>NULL\<close>) when the key is not there.
\<close>

function rp_unescaped_args_get :: "arg_ptrs \<Rightarrow> mem \<Rightarrow> nat \<Rightarrow> string \<Rightarrow> nat option option" where
  "rp_unescaped_args_get ptrs area i key = do {
     p \<leftarrow> load ptrs i;
     case p of
       None \<Rightarrow> Some None
     | Some k \<Rightarrow>
         if string_at area k \<noteq> key then rp_unescaped_args_get ptrs area (i + 2) key
         else load ptrs (i + 1)
   }"
  by pat_completeness auto
termination
  by (relation "measure (\<lambda>(ptrs, area, i, key). length ptrs - i)")
    (auto simp: load_eq_Some)

declare rp_unescaped_args_get.simps [simp del]

subsection \<open>What an URL is\<close>

definition argv_of :: "(string \<times> string option) list \<Rightarrow> argv" where
  "argv_of args = concat (map (\<lambda>(k, v). [Some (cstr k), map_option cstr v]) args) @ [None]"

definition url_pair :: "string \<times> string option \<Rightarrow> string" where
  "url_pair p =
     esc_string (fst p) @ (case snd p of None \<Rightarrow> [] | Some v \<Rightarrow> CHR ''='' # esc_string v)"

definition url_more :: "(string \<times> string option) list \<Rightarrow> string" where
  "url_more args = concat (map (\<lambda>p. CHR ''&'' # url_pair p) args)"

definition url_sep :: "string \<Rightarrow> string" where
  "url_sep p = (if p = [] then [] else if CHR ''?'' \<in> set p then ''&'' else ''?'')"

fun url_query :: "string \<Rightarrow> (string \<times> string option) list \<Rightarrow> string" where
  "url_query p [] = []"
| "url_query p (a # as) = url_sep p @ url_pair a @ url_more as"

definition url_base :: "string \<Rightarrow> string \<Rightarrow> string" where
  "url_base base path =
     base @
     (if base \<noteq> [] \<and> path \<noteq> [] \<and> last base \<noteq> CHR ''/'' \<and> hd path \<noteq> CHR ''/''
      then ''/'' else [])"

definition url_prefix :: "string \<Rightarrow> string \<Rightarrow> string" where
  "url_prefix base path = url_base base path @ path"

definition opt_str :: "string option \<Rightarrow> string" where
  "opt_str s = (case s of None \<Rightarrow> [] | Some t \<Rightarrow> t)"

definition url_string :: "string \<Rightarrow> string \<Rightarrow> (string \<times> string option) list \<Rightarrow> string" where
  "url_string base path args =
     url_prefix base path @ url_query (url_prefix base path) args"

definition args_ok :: "(string \<times> string option) list \<Rightarrow> bool" where
  "args_ok args \<longleftrightarrow> (\<forall>(k, v) \<in> set args. no_nul k \<and> (\<forall>s. v = Some s \<longrightarrow> no_nul s))"

lemma argv_of_simps:
  "argv_of [] = [None]"
  "argv_of ((k, v) # args) = Some (cstr k) # map_option cstr v # argv_of args"
  by (simp_all add: argv_of_def)

lemma args_ok_simps [simp]:
  "args_ok []"
  "args_ok ((k, v) # args) \<longleftrightarrow> no_nul k \<and> (\<forall>s. v = Some s \<longrightarrow> no_nul s) \<and> args_ok args"
  by (auto simp: args_ok_def)

subsection \<open>The code builds it\<close>

text \<open>
  Between two writes the buffer holds the URL so far, possibly followed by the zero that
  \<open>escape_to\<close> left and the next write covers.
\<close>

lemma puts_over:
  assumes "length x \<le> 1" and "t \<noteq> []"
  shows "puts olen (puts olen buf 0 (u @ x)) (length u) t = puts olen buf 0 (u @ t)"
proof (cases x)
  case Nil
  then show ?thesis by (simp add: puts_append)
next
  case (Cons a xs)
  then have "x = [a]" using assms(1) by simp
  then show ?thesis using puts_cover [of t olen buf 0 u a] assms(2) by simp
qed

lemma put_over:
  "length x \<le> 1 \<Longrightarrow> olen \<le> length buf \<Longrightarrow>
    put olen (puts olen buf 0 (u @ x)) (length u) c = Some (puts olen buf 0 (u @ [c]))"
  using puts_over [of x "[c]" olen buf u] by (subst put_eq_puts) simp_all

lemma put_escaped_over:
  assumes "length x \<le> 1" and "olen \<le> length buf" and "no_nul k"
  shows "put_escaped (cstr k) olen (puts olen buf 0 (u @ x)) (length u) =
    Some (length (u @ esc_string k), puts olen buf 0 (u @ esc_string k @ [NUL]))"
proof -
  let ?b = "puts olen buf 0 (u @ x)"
  have n: "(if length u < olen then olen - length u else 0) = olen - length u" by simp
  have "text_len (cstr k) (length k) = Some (length k)"
    using assms(3) by (simp add: text_len_def)
  then have "escape_to (cstr k) (length k) (drop (length u) ?b) (olen - length u) =
      Some (length (esc_string k),
        puts (olen - length u) (drop (length u) ?b) 0 (esc_string k @ [NUL]))"
    using assms(2) by (subst escape_to_eq [where k = "length k"]) simp_all
  moreover have "take (length u) ?b @ puts (olen - length u) (drop (length u) ?b) 0 (esc_string k @ [NUL])
      = puts olen buf 0 (u @ esc_string k @ [NUL])"
    using assms(1,2) by (simp add: puts_at_offset puts_over)
  ultimately show ?thesis using assms(3) by (simp add: put_escaped_def at_offset_def n)
qed

lemma put_value_over:
  assumes "length x \<le> 1" and "olen \<le> length buf" and "\<forall>s. v = Some s \<longrightarrow> no_nul s"
  shows "\<exists>y. length y \<le> 1 \<and>
    put_value (map_option cstr v) olen (puts olen buf 0 (u @ x)) (length u) =
      (let t = (case v of None \<Rightarrow> [] | Some s \<Rightarrow> CHR ''='' # esc_string s)
       in Some (length (u @ t), puts olen buf 0 (u @ t @ y)))"
proof (cases v)
  case None
  then show ?thesis using assms(1) by (intro exI [of _ x]) (simp add: put_value_def)
next
  case (Some s)
  have "put_escaped (cstr s) olen (puts olen buf 0 ((u @ ''='') @ [])) (length (u @ ''='')) =
      Some (length ((u @ ''='') @ esc_string s), puts olen buf 0 ((u @ ''='') @ esc_string s @ [NUL]))"
    using assms Some by (intro put_escaped_over) simp_all
  then show ?thesis using assms Some
    by (intro exI [of _ "[NUL]"]) (simp add: put_value_def put_over)
qed

lemma put_memchr:
  assumes "length x \<le> 1" and "olen \<le> length buf" and "u \<noteq> []"
  shows "put olen (puts olen buf 0 (u @ x)) (length u)
      (if CHR ''?'' \<in> set (take (length u) (puts olen buf 0 (u @ x))) then CHR ''&'' else CHR ''?'') =
    Some (puts olen buf 0 (u @ url_sep u))"
proof (cases "length u < olen")
  case True
  have "take (length u) (puts olen buf 0 (u @ x)) = u"
    using True assms(2) by (intro nth_equalityI) (auto simp: puts_nth nth_append)
  then show ?thesis using assms by (simp add: put_over url_sep_def)
next
  case False
  have "puts olen buf 0 (u @ [c]) = puts olen buf 0 (u @ [d])" for c d
    using False by (intro nth_equalityI) (auto simp: puts_nth nth_append)
  then show ?thesis using assms by (auto simp: put_over url_sep_def)
qed

lemma put_separator_over:
  assumes "length x \<le> 1" and "olen \<le> length buf"
  shows "\<exists>y. length y \<le> 1 \<and>
    put_separator i (u \<noteq> []) olen (puts olen buf 0 (u @ x)) (length u) =
      (let t = (if i \<noteq> 0 then ''&'' else url_sep u)
       in Some (length (u @ t), puts olen buf 0 (u @ t @ y)))"
proof -
  consider "i \<noteq> 0" | "i = 0" "u \<noteq> []" | "i = 0" "u = []" by blast
  then show ?thesis
  proof cases
    case 1
    then show ?thesis using assms
      by (intro exI [of _ "[]"]) (simp add: put_separator_def put_over)
  next
    case 2
    then have "length (url_sep u) = 1" by (simp add: url_sep_def)
    then show ?thesis using 2 put_memchr [OF assms 2(2)]
      by (intro exI [of _ "[]"]) (simp add: put_separator_def)
  next
    case 3
    then show ?thesis using assms
      by (intro exI [of _ x]) (simp add: put_separator_def url_sep_def)
  qed
qed

lemma put_separator_later: "i \<noteq> 0 \<Longrightarrow> put_separator i hp = put_separator i hp'"
  by (simp add: put_separator_def fun_eq_iff)

definition url_tail :: "nat \<Rightarrow> string \<Rightarrow> (string \<times> string option) list \<Rightarrow> string" where
  "url_tail i u args = (if i = 0 then url_query u args else url_more args)"

lemma url_tail_simps:
  "url_tail i u [] = []"
  "url_tail i u (p # args) =
     (if i \<noteq> 0 then ''&'' else url_sep u) @ url_pair p @ url_tail (i + 2) u' args"
  by (simp_all add: url_tail_def url_more_def)

lemma escape_url_args_eq:
  assumes "olen \<le> length buf" and "args_ok rest" and "length x \<le> 1"
    and "pre = [] \<longrightarrow> hp = (u \<noteq> [])"
  shows "\<exists>y. length y \<le> 1 \<and>
    escape_url_args (pre @ argv_of rest) hp olen (length pre) (puts olen buf 0 (u @ x)) (length u) =
      (let t = url_tail (length pre) u rest
       in Some (length (u @ t), puts olen buf 0 (u @ t @ y)))"
  using assms
proof (induction rest arbitrary: pre u x)
  case Nil
  then show ?case
    by (intro exI [of _ x], subst escape_url_args.simps)
      (auto simp: argv_of_simps load_def url_tail_simps)
next
  case (Cons p rest)
  obtain k v where p: "p = (k, v)" by (cases p)
  define i pre' where "i = length pre" and pre': "pre' = pre @ [Some (cstr k), map_option cstr v]"
  define u1 where u1: "u1 = u @ (if i \<noteq> 0 then ''&'' else url_sep u)"
  define u2 where u2: "u2 = u1 @ esc_string k"
  define u3 where u3: "u3 = u2 @ (case v of None \<Rightarrow> [] | Some s \<Rightarrow> CHR ''='' # esc_string s)"
  have ok: "no_nul k" "\<forall>s. v = Some s \<longrightarrow> no_nul s" "args_ok rest" using Cons.prems(2) p by auto
  have hp: "put_separator i hp = put_separator i (u \<noteq> [])"
    using Cons.prems(4) put_separator_later [of i] \<open>i = length pre\<close> by (cases pre) auto
  obtain y1 where y1: "length y1 \<le> 1" "put_separator i hp olen (puts olen buf 0 (u @ x)) (length u) =
      Some (length u1, puts olen buf 0 (u1 @ y1))"
    using put_separator_over [OF Cons.prems(3,1), of i u]
    unfolding hp Let_def append_assoc [symmetric] u1 [symmetric] by blast
  have y2: "put_escaped (cstr k) olen (puts olen buf 0 (u1 @ y1)) (length u1) =
      Some (length u2, puts olen buf 0 (u2 @ [NUL]))"
    using put_escaped_over [OF y1(1) Cons.prems(1) ok(1), of u1] by (simp add: u2)
  obtain y3 where y3: "length y3 \<le> 1"
    "put_value (map_option cstr v) olen (puts olen buf 0 (u2 @ [NUL])) (length u2) =
      Some (length u3, puts olen buf 0 (u3 @ y3))"
    using put_value_over [of "[NUL]", OF _ Cons.prems(1) ok(2), of u2]
    unfolding Let_def append_assoc [symmetric] u3 [symmetric] by auto
  have "pre' = [] \<longrightarrow> hp = (u3 \<noteq> [])" by (simp add: pre')
  from Cons.IH [OF Cons.prems(1) ok(3) y3(1) this] obtain y where y: "length y \<le> 1"
    "escape_url_args (pre' @ argv_of rest) hp olen (length pre') (puts olen buf 0 (u3 @ y3)) (length u3) =
      Some (length (u3 @ url_tail (length pre') u3 rest),
        puts olen buf 0 (u3 @ url_tail (length pre') u3 rest @ y))"
    unfolding Let_def by blast
  have args: "pre @ argv_of (p # rest) = pre' @ argv_of rest" by (simp add: p pre' argv_of_simps)
  have l: "load (pre' @ argv_of rest) i = Some (Some (cstr k))"
    "load (pre' @ argv_of rest) (i + 1) = Some (map_option cstr v)"
    by (simp_all add: load_def nth_append pre' \<open>i = length pre\<close>)
  have i2: "i + 2 = length pre'" by (simp add: pre' \<open>i = length pre\<close>)
  have t: "u @ url_tail i u (p # rest) = u3 @ url_tail (length pre') u3 rest"
    unfolding url_tail_simps(2) [where u' = u3] i2 by (simp add: u1 u2 u3 p url_pair_def)
  have "escape_url_args (pre @ argv_of (p # rest)) hp olen i (puts olen buf 0 (u @ x)) (length u) =
      escape_url_args (pre' @ argv_of rest) hp olen (length pre') (puts olen buf 0 (u3 @ y3)) (length u3)"
    unfolding args
    by (subst escape_url_args.simps)
      (simp only: l y1(2) y2 y3(2) i2 Option.bind.simps option.case prod.case)
  then show ?case
    using y unfolding \<open>i = length pre\<close> [symmetric] Let_def append_assoc [symmetric] t by auto
qed

lemma put_base_eq:
  assumes "olen \<le> length buf"
  shows "put_base (map_option cstr b) (map_option cstr p) (length (opt_str b)) (length (opt_str p)) olen buf =
    Some (length (url_base (opt_str b) (opt_str p)), puts olen buf 0 (url_base (opt_str b) (opt_str p)))"
proof (cases "opt_str b = []")
  case True
  then show ?thesis by (simp add: put_base_def url_base_def)
next
  case False
  then obtain s where b: "b = Some s" "s \<noteq> []" by (auto simp: opt_str_def split: option.splits)
  have copy: "(if olen \<noteq> 0 then memcpy buf 0 (cstr s) (if length s \<le> olen then length s else olen)
      else Some buf) = Some (puts olen buf 0 s)"
    using memcpy_puts [OF assms, of "length s" "cstr s" 0]
    by (auto simp: puts_beyond split: if_splits)
  have last: "load (cstr s) (length s - Suc 0) = Some (last s)"
    using b(2) by (auto simp: load_def cstr_def nth_append last_conv_nth)
  have hd: "load (cstr (q # qs)) 0 = Some q" for q qs by (simp add: load_def cstr_def)
  have slash: "put olen (puts olen buf 0 s) (length s) c = Some (puts olen buf 0 (s @ [c]))" for c
    using assms put_over [of "[]" olen buf s c] by simp
  show ?thesis using b copy last
    by (cases "opt_str p") (auto simp: put_base_def url_base_def opt_str_def hd slash split: option.splits)
qed

lemma put_path_eq:
  assumes "olen \<le> length buf"
  shows "put_path (map_option cstr p) (length (opt_str p)) olen (puts olen buf 0 u) (length u) =
    Some (length (u @ opt_str p), puts olen buf 0 (u @ opt_str p))"
proof (cases "opt_str p = []")
  case True
  then show ?thesis by (simp add: put_path_def)
next
  case False
  then obtain s where p: "p = Some s" "s \<noteq> []" by (auto simp: opt_str_def split: option.splits)
  have "(if length u < olen
      then memcpy (puts olen buf 0 u) (length u) (cstr s)
        (if length s \<le> olen - length u then length s else olen - length u)
      else Some (puts olen buf 0 u)) = Some (puts olen buf 0 (u @ s))"
    using memcpy_puts [of olen "puts olen buf 0 u" "length s" "cstr s" "length u"] assms
    by (auto simp: puts_append puts_beyond split: if_splits)
  then show ?thesis using p by (simp add: put_path_def opt_str_def)
qed

lemma escape_url_to_eq:
  assumes "olen \<le> length buf" and "args_ok args"
  shows "escape_url_to (map_option cstr b) (map_option cstr p) (argv_of args) buf olen
      (length (opt_str b)) (length (opt_str p)) =
    (let t = url_string (opt_str b) (opt_str p) args
     in Some (length t, puts olen buf 0 (t @ [NUL])))"
proof -
  define u where u: "u = url_prefix (opt_str b) (opt_str p)"
  have u0: "url_base (opt_str b) (opt_str p) @ opt_str p = u"
    by (simp add: u url_base_def url_prefix_def)
  have hp: "(opt_str b \<noteq> [] \<or> opt_str p \<noteq> []) = (u \<noteq> [])"
    by (auto simp: u url_prefix_def url_base_def)
  obtain y where y: "length y \<le> 1"
    "escape_url_args (argv_of args) (u \<noteq> []) olen 0 (puts olen buf 0 u) (length u) =
      Some (length (u @ url_query u args), puts olen buf 0 ((u @ url_query u args) @ y))"
    using escape_url_args_eq [OF assms, of "[]" "[]" "u \<noteq> []" u]
    by (auto simp: url_tail_def Let_def)
  have nul: "put olen (puts olen buf 0 ((u @ url_query u args) @ y)) (length (u @ url_query u args)) NUL =
      Some (puts olen buf 0 ((u @ url_query u args) @ [NUL]))"
    using y(1) assms(1) by (rule put_over)
  have t: "url_string (opt_str b) (opt_str p) args = u @ url_query u args"
    by (simp add: url_string_def u)
  show ?thesis
    unfolding escape_url_to_def put_base_eq [OF assms(1)] Option.bind.simps prod.case
      put_path_eq [OF assms(1)] u0 length_0_conv hp y(2) nul t Let_def ..
qed

lemma opt_strlen_eq:
  "\<forall>s. b = Some s \<longrightarrow> no_nul s \<Longrightarrow> opt_strlen (map_option cstr b) = Some (length (opt_str b))"
  by (auto simp: opt_strlen_def opt_str_def split: option.splits)

definition url_input_ok ::
  "string option \<Rightarrow> string option \<Rightarrow> (string \<times> string option) list option \<Rightarrow> bool" where
  "url_input_ok b p args \<longleftrightarrow>
     (\<forall>s. b = Some s \<longrightarrow> no_nul s) \<and> (\<forall>s. p = Some s \<longrightarrow> no_nul s) \<and>
     (\<forall>a. args = Some a \<longrightarrow> args_ok a)"

definition opt_args :: "(string \<times> string option) list option \<Rightarrow> (string \<times> string option) list" where
  "opt_args args = (case args of None \<Rightarrow> [] | Some a \<Rightarrow> a)"

lemma args_or_empty_eq: "args_or_empty (map_option argv_of args) = argv_of (opt_args args)"
  by (simp add: args_or_empty_def opt_args_def argv_of_simps split: option.splits)

lemma opt_args_ok: "url_input_ok b p args \<Longrightarrow> args_ok (opt_args args)"
  by (simp add: url_input_ok_def opt_args_def split: option.splits)

lemma rp_escape_url_to_eq:
  assumes "url_input_ok b p args" and "olen \<le> length buf"
  shows "rp_escape_url_to (map_option cstr b) (map_option cstr p) (map_option argv_of args) buf olen =
    (let t = url_string (opt_str b) (opt_str p) (opt_args args)
     in Some (length t, puts olen buf 0 (t @ [NUL])))"
  using assms escape_url_to_eq [OF assms(2) opt_args_ok [OF assms(1)], of b p]
  by (simp add: rp_escape_url_to_def url_input_ok_def opt_strlen_eq args_or_empty_eq)

interpretation url_writer: bounded_writer
  "\<lambda>(b, p, args) olen buf.
     rp_escape_url_to (map_option cstr b) (map_option cstr p) (map_option argv_of args) buf olen"
  "\<lambda>(b, p, args). url_string (opt_str b) (opt_str p) (opt_args args)"
  "\<lambda>(b, p, args). url_input_ok b p args"
  by unfold_locales (auto simp: rp_escape_url_to_eq Let_def)

lemma rp_escape_url_eq:
  assumes "allocates malloc" and "url_input_ok b p args"
  shows "rp_escape_url malloc (map_option cstr b) (map_option cstr p) (map_option argv_of args) =
    (let t = url_string (opt_str b) (opt_str p) (opt_args args)
     in Some (map_option (\<lambda>_. cstr t) (malloc (length t + 1)), length t))"
proof -
  let ?t = "url_string (opt_str b) (opt_str p) (opt_args args)"
  have len: "opt_strlen (map_option cstr b) = Some (length (opt_str b))"
    "opt_strlen (map_option cstr p) = Some (length (opt_str p))"
    using assms(2) by (simp_all add: url_input_ok_def opt_strlen_eq)
  note go = escape_url_to_eq [OF _ opt_args_ok [OF assms(2)], of _ _ b p, unfolded Let_def]
  have first: "escape_url_to (map_option cstr b) (map_option cstr p) (argv_of (opt_args args)) [] 0
      (length (opt_str b)) (length (opt_str p)) = Some (length ?t, [])"
    using go [of 0 "[]"] by simp
  show ?thesis
  proof (cases "malloc (length ?t + 1)")
    case None
    then show ?thesis by (simp add: rp_escape_url_def len args_or_empty_eq first Let_def)
  next
    case (Some blk)
    then have n: "length blk = length ?t + 1" by (rule allocatesD [OF assms(1)])
    have "escape_url_to (map_option cstr b) (map_option cstr p) (argv_of (opt_args args)) blk (length blk)
        (length (opt_str b)) (length (opt_str p)) = Some (length ?t, cstr ?t)"
      using go [of "length blk" blk] n by (simp add: puts_fits cstr_def)
    then show ?thesis using Some n by (simp add: rp_escape_url_def len args_or_empty_eq first Let_def)
  qed
qed

subsection \<open>Properties of URL composition\<close>

text \<open>
  \<open>rp_escape_url_to\<close> never writes outside of the given length, returns the
  length of the whole URL whatever the room, and what it wrote is the URL, complete and ended
  by a zero when the room is greater than that length, cut when it is not.
\<close>

theorem rp_escape_url_to_correct:
  assumes "url_input_ok b p args" and "olen \<le> length buf"
  shows "\<exists>buf'. rp_escape_url_to (map_option cstr b) (map_option cstr p) (map_option argv_of args) buf olen =
      Some (length (url_string (opt_str b) (opt_str p) (opt_args args)), buf') \<and>
    take olen buf' = take olen (cstr (url_string (opt_str b) (opt_str p) (opt_args args)) @
      drop (length (url_string (opt_str b) (opt_str p) (opt_args args)) + 1) buf) \<and>
    drop olen buf' = drop olen buf"
proof -
  let ?t = "url_string (opt_str b) (opt_str p) (opt_args args)"
  have "take olen (puts olen buf 0 (cstr ?t)) = take olen (cstr ?t @ drop (length ?t + 1) buf)"
    using assms(2) by (intro nth_equalityI) (auto simp: puts_nth nth_append)
  then show ?thesis
    using rp_escape_url_to_eq [OF assms]
    by (intro exI [of _ "puts olen buf 0 (cstr ?t)"]) (simp add: Let_def cstr_def puts_rest)
qed

theorem rp_escape_url_to_correct_witness:
  "\<exists>buf'. rp_escape_url_to (Some (cstr ''h'')) (Some (cstr ''p'')) (Some (argv_of [(''a b'', Some ''c'')]))
      (replicate 8 CHR ''#'') 6 = Some (9, buf') \<and>
    take 6 buf' = ''h/p?a+'' \<and> drop 6 buf' = ''##''"
  using rp_escape_url_to_correct [of "Some ''h''" "Some ''p''" "Some [(''a b'', Some ''c'')]" 6 "replicate 8 CHR ''#''"]
  by (simp add: url_input_ok_def opt_str_def opt_args_def url_string_def url_prefix_def url_base_def
      url_sep_def url_pair_def url_more_def cstr_def esc_char_def unreserved_def eval_nat_numeral)

text \<open>
  \<open>rp_escape_url\<close> measures with a first pass, allocates, and fills exactly:
  the block it returns is the URL with its terminating zero and \<open>*length\<close> is its length.
\<close>

theorem rp_escape_url_correct:
  assumes "allocates malloc" and "url_input_ok b p args"
  shows "rp_escape_url malloc (map_option cstr b) (map_option cstr p) (map_option argv_of args) =
    (let t = url_string (opt_str b) (opt_str p) (opt_args args)
     in Some (map_option (\<lambda>_. cstr t) (malloc (length t + 1)), length t))"
  using assms by (rule rp_escape_url_eq)

theorem rp_escape_url_correct_witness:
  "rp_escape_url alloc_zero (Some (cstr ''/x?y'')) None (Some (argv_of [(''k'', None), (''a'', Some ''&'')])) =
    Some (Some (cstr ''/x?y&k&a=%26''), 12)"
  using rp_escape_url_correct [of alloc_zero "Some ''/x?y''" None "Some [(''k'', None), (''a'', Some ''&'')]"]
  by (simp add: url_input_ok_def opt_str_def opt_args_def url_string_def url_prefix_def url_base_def
      url_sep_def url_pair_def url_more_def alloc_zero_def esc_char_def unreserved_def hexdigit_def)

end
