(* ===== verification/EscapeArgs.thy ===== *)
theory EscapeArgs
  imports EscapeUrl
begin

text \<open>
  Splitting the arguments of an URL (\<open>rp_unescape_args\<close> and
  \<open>rp_unescaped_args_get\<close> of \<open>src/http/rp-escape.c\<close>, modelled in
  \<open>EscapeUrl\<close>): what the arguments of a text are, that the two passes of the code agree
  on them and stay within the block, that the lookup finds the first value of a key, and that
  splitting inverts \<open>rp_escape_args\<close>.
\<close>

subsection \<open>What the arguments of an URL are\<close>

text \<open>
  Arguments are separated by \<open>&\<close>; the key of an argument ends at its first
  \<open>=\<close>, which starts its value.
\<close>

definition arg_key :: "string \<Rightarrow> string" where
  "arg_key s = takeWhile (\<lambda>c. c \<noteq> CHR ''&'' \<and> c \<noteq> CHR ''='') s"

definition arg_value :: "string \<Rightarrow> string" where
  "arg_value s = takeWhile (\<lambda>c. c \<noteq> CHR ''&'') s"

function parse_args :: "string \<Rightarrow> (string \<times> string option) list" where
  "parse_args s =
     (let k = arg_key s in
      case drop (length k) s of
        [] \<Rightarrow> [(k, None)]
      | c # t \<Rightarrow>
          if c = CHR ''='' then
            (let v = arg_value t in
             case drop (length v) t of
               [] \<Rightarrow> [(k, Some v)]
             | _ # u \<Rightarrow> (k, Some v) # parse_args u)
          else (k, None) # parse_args t)"
  by pat_completeness auto
termination
proof (relation "measure length", goal_cases)
  case 1
  show ?case by simp
next
  case (2 s k c t v x u)
  from 2(2)[symmetric] have "length (c # t) \<le> length s" by (metis length_drop diff_le_self)
  moreover from 2(5)[symmetric] have "length (x # u) \<le> length t" by (metis length_drop diff_le_self)
  ultimately show ?case by simp
next
  case (3 s k c t)
  from 3(2)[symmetric] have "length (c # t) \<le> length s" by (metis length_drop diff_le_self)
  then show ?case by simp
qed

declare parse_args.simps [simp del]

text \<open>Keys and values as they are cut, without separators inside.\<close>

definition key_text :: "string \<Rightarrow> bool" where
  "key_text k \<longleftrightarrow> CHR ''&'' \<notin> set k \<and> CHR ''='' \<notin> set k"

definition value_text :: "string \<Rightarrow> bool" where
  "value_text v \<longleftrightarrow> CHR ''&'' \<notin> set v"

lemma arg_key_append: "key_text k \<Longrightarrow> t = [] \<or> hd t = CHR ''&'' \<or> hd t = CHR ''='' \<Longrightarrow> arg_key (k @ t) = k"
  unfolding arg_key_def by (subst takeWhile_append2) (cases t; auto simp: key_text_def)+

lemma arg_value_append: "value_text v \<Longrightarrow> t = [] \<or> hd t = CHR ''&'' \<Longrightarrow> arg_value (v @ t) = v"
  unfolding arg_value_def by (subst takeWhile_append2) (cases t; auto simp: value_text_def)+

lemma parse_args_cases:
  "key_text k \<Longrightarrow> parse_args k = [(k, None)]"
  "key_text k \<Longrightarrow> parse_args (k @ CHR ''&'' # t) = (k, None) # parse_args t"
  "key_text k \<Longrightarrow> value_text v \<Longrightarrow> parse_args (k @ CHR ''='' # v) = [(k, Some v)]"
  "key_text k \<Longrightarrow> value_text v \<Longrightarrow>
    parse_args (k @ CHR ''='' # v @ CHR ''&'' # t) = (k, Some v) # parse_args t"
  using arg_key_append [of k "[]"] arg_value_append [of v "[]"]
  by (subst parse_args.simps, simp add: arg_key_append arg_value_append)+

lemma arg_split:
  obtains (last_key) "key_text s"
    | (mid_key) k t where "s = k @ CHR ''&'' # t" "key_text k"
    | (last_value) k v where "s = k @ CHR ''='' # v" "key_text k" "value_text v"
    | (mid_value) k v t where "s = k @ CHR ''='' # v @ CHR ''&'' # t" "key_text k" "value_text v"
proof -
  let ?k = "arg_key s"
  have k: "key_text ?k" by (auto simp: key_text_def arg_key_def dest: set_takeWhileD)
  have s: "s = ?k @ dropWhile (\<lambda>c. c \<noteq> CHR ''&'' \<and> c \<noteq> CHR ''='') s" by (simp add: arg_key_def)
  show thesis
  proof (cases "dropWhile (\<lambda>c. c \<noteq> CHR ''&'' \<and> c \<noteq> CHR ''='') s")
    case Nil
    then have "s = ?k" using s by (metis append_Nil2)
    then show thesis using k last_key by metis
  next
    case (Cons c t)
    then have c: "c = CHR ''&'' \<or> c = CHR ''=''"
      using hd_dropWhile [of "\<lambda>c. c \<noteq> CHR ''&'' \<and> c \<noteq> CHR ''=''" s] by simp
    let ?v = "arg_value t"
    have v: "value_text ?v" by (auto simp: value_text_def arg_value_def dest: set_takeWhileD)
    have t: "t = ?v @ dropWhile (\<lambda>c. c \<noteq> CHR ''&'') t" by (simp add: arg_value_def)
    show thesis
    proof (cases "c = CHR ''&''")
      case True
      then show thesis using mid_key [of ?k t] k s Cons by simp
    next
      case False
      with c have c: "c = CHR ''=''" by simp
      show thesis
      proof (cases "dropWhile (\<lambda>c. c \<noteq> CHR ''&'') t")
        case Nil
        then have "t = ?v" using t by (metis append_Nil2)
        then have "s = ?k @ CHR ''='' # ?v" using s c \<open>dropWhile _ s = c # t\<close> by metis
        then show thesis using last_value k v by blast
      next
        case (Cons d u)
        then have "d = CHR ''&''" using hd_dropWhile [of "\<lambda>c. c \<noteq> CHR ''&''" t] by simp
        then have "t = ?v @ CHR ''&'' # u" using t Cons by metis
        then have "s = ?k @ CHR ''='' # ?v @ CHR ''&'' # u" using s c \<open>dropWhile _ s = c # t\<close> by metis
        then show thesis using mid_value k v by blast
      qed
    qed
  qed
qed

lemma arg_induct [case_names last_key mid_key last_value mid_value]:
  assumes "\<And>k. key_text k \<Longrightarrow> P k"
    and "\<And>k t. key_text k \<Longrightarrow> P t \<Longrightarrow> P (k @ CHR ''&'' # t)"
    and "\<And>k v. key_text k \<Longrightarrow> value_text v \<Longrightarrow> P (k @ CHR ''='' # v)"
    and "\<And>k v t. key_text k \<Longrightarrow> value_text v \<Longrightarrow> P t \<Longrightarrow> P (k @ CHR ''='' # v @ CHR ''&'' # t)"
  shows "P s"
proof (induction s rule: length_induct)
  case (1 s)
  show ?case by (cases s rule: arg_split) (use 1 assms in auto)
qed

subsection \<open>The code splits them\<close>

text \<open>
  What one pair leaves in the text area and where its two pointers point, from the offset
  \<open>p\<close> on. A key with no value shares its terminating zero with the empty value.
\<close>

definition pair_text :: "string \<times> string option \<Rightarrow> string" where
  "pair_text a = cstr (unesc_string (fst a)) @
     (case snd a of None \<Rightarrow> [] | Some v \<Rightarrow> cstr (unesc_string v))"

definition pair_ptrs :: "nat \<Rightarrow> string \<times> string option \<Rightarrow> arg_ptrs" where
  "pair_ptrs p a =
     [Some p, Some (p + length (unesc_string (fst a)) + (if snd a = None then 0 else 1))]"

definition args_text :: "(string \<times> string option) list \<Rightarrow> string" where
  "args_text as = concat (map pair_text as)"

fun args_ptrs :: "nat \<Rightarrow> (string \<times> string option) list \<Rightarrow> arg_ptrs" where
  "args_ptrs p [] = []"
| "args_ptrs p (a # as) = pair_ptrs p a @ args_ptrs (p + length (pair_text a)) as"

text \<open>The room that the first pass counts; no escape runs over the end of a key or value.\<close>

definition pair_room :: "string \<times> string option \<Rightarrow> nat" where
  "pair_room a = 1 + esc_count (fst a) + (case snd a of None \<Rightarrow> 0 | Some v \<Rightarrow> 1 + esc_count v)"

definition args_room :: "(string \<times> string option) list \<Rightarrow> nat" where
  "args_room as = sum_list (map pair_room as)"

definition escapes_end :: "string \<Rightarrow> bool" where
  "escapes_end s \<longleftrightarrow> esc_reach s = length s"

definition args_complete :: "(string \<times> string option) list \<Rightarrow> bool" where
  "args_complete as \<longleftrightarrow>
     (\<forall>(k, v) \<in> set as. escapes_end k \<and> (\<forall>t. v = Some t \<longrightarrow> escapes_end t))"

lemma args_simps [simp]:
  "args_text [] = []" "args_text (a # as) = pair_text a @ args_text as"
  "args_room [] = 0" "args_room (a # as) = pair_room a + args_room as"
  "args_complete []"
  "args_complete ((k, v) # as) \<longleftrightarrow>
     escapes_end k \<and> (\<forall>t. v = Some t \<longrightarrow> escapes_end t) \<and> args_complete as"
  by (auto simp: args_text_def args_room_def args_complete_def)

lemma length_pair_text: "length (pair_text a) \<le> pair_room a"
  using unesc_le_count [of "fst a"]
  by (auto simp: pair_text_def pair_room_def add_mono unesc_le_count split: option.splits)

lemma length_args_ptrs [simp]: "length (args_ptrs p as) = 2 * length as"
  by (induction as arbitrary: p) (simp_all add: pair_ptrs_def)

lemma length_args_text: "length (args_text as) \<le> args_room as"
  by (induction as) (simp_all add: add_mono length_pair_text)

text \<open>One segment: the key or the value at the head of the text still to read.\<close>

lemma segment:
  assumes "drop z args = cstr (k @ t)" and "no_nul (k @ t)" and "set k \<inter> set rej = {}"
    and "t = [] \<or> hd t \<in> set rej" and "escapes_end k"
  shows "strcspn (drop z args) rej = Some (length k)"
    and "unescaped_length (drop z args) (length k) = Some (esc_count k)"
    and "load args (z + length k) = Some (case t of [] \<Rightarrow> NUL | c # _ \<Rightarrow> c)"
    and "drop (Suc (z + length k)) args = (case t of [] \<Rightarrow> [] | _ # u \<Rightarrow> cstr u)"
    and "\<And>buf olen. olen \<le> length buf \<Longrightarrow> unescape_to (drop z args) (length k) buf olen =
      Some (length (unesc_string k), puts olen buf 0 (cstr (unesc_string k)))"
proof -
  have z: "z \<le> length args" using assms(1) by (metis cstr_def drop_all linorder_le_cases snoc_eq_iff_butlast)
  obtain c r where cr: "cstr (k @ t) = k @ c # r" "c = NUL \<or> c \<in> set rej"
    "c = (case t of [] \<Rightarrow> NUL | c # _ \<Rightarrow> c)" "r = (case t of [] \<Rightarrow> [] | _ # u \<Rightarrow> cstr u)"
    using assms(4) by (cases t) (auto simp: cstr_def)
  show "strcspn (drop z args) rej = Some (length k)"
    unfolding assms(1) cr(1) using assms(2,3) cr(2) by (intro strcspn_append) simp_all
  have k: "take (length k) (drop z args) = k" "length k < length (drop z args)"
    unfolding assms(1) cr(1) by simp_all
  show "unescaped_length (drop z args) (length k) = Some (esc_count k)"
    using k assms(5) by (simp only: unescaped_length_eq escapes_end_def) simp
  show "unescape_to (drop z args) (length k) buf olen =
      Some (length (unesc_string k), puts olen buf 0 (cstr (unesc_string k)))"
    if "olen \<le> length buf" for buf olen
    using k(1) unescape_to_eq [OF k(2) that] by (simp add: cstr_def)
  have "load args (z + length k) = load (drop z args) (length k)" using z by (simp add: load_drop)
  then show "load args (z + length k) = Some (case t of [] \<Rightarrow> NUL | c # _ \<Rightarrow> c)"
    unfolding assms(1) cr(1) cr(3) [symmetric] by simp
  have "drop (Suc (z + length k)) args = drop (Suc (length k)) (drop z args)"
    by (simp add: add.commute)
  then show "drop (Suc (z + length k)) args = (case t of [] \<Rightarrow> [] | _ # u \<Rightarrow> cstr u)"
    unfolding assms(1) cr(1) cr(4) by simp
qed

lemma key_text_disjoint: "key_text k \<Longrightarrow> set k \<inter> set ''&='' = {}"
  by (auto simp: key_text_def)

lemma value_text_disjoint: "value_text k \<Longrightarrow> set k \<inter> set ''&'' = {}"
  by (auto simp: value_text_def)

lemma unescape_args_count_eq:
  assumes "no_nul s" and "args_complete (parse_args s)" and "drop z args = cstr s"
  shows "unescape_args_count args z n lt =
    Some (n + length (parse_args s), lt + args_room (parse_args s))"
  using assms
proof (induction s arbitrary: z n lt rule: arg_induct)
  case (last_key k)
  note seg = segment [of z args k "[]" "''&=''", OF _ _ key_text_disjoint [OF last_key(1)], simplified]
  show ?case using last_key seg
    by (subst unescape_args_count.simps) (simp add: parse_args_cases pair_room_def)
next
  case (mid_key k t)
  note seg = segment [of z args k "CHR ''&'' # t" "''&=''", OF _ _ key_text_disjoint [OF mid_key(1)], simplified]
  show ?case using mid_key seg
    by (subst unescape_args_count.simps) (simp add: parse_args_cases pair_room_def)
next
  case (last_value k v)
  note seg = segment [of z args k "CHR ''='' # v" "''&=''", OF _ _ key_text_disjoint [OF last_value(1)], simplified]
  note seg2 = segment [of "Suc (z + length k)" args v "[]" "''&''", OF _ _ value_text_disjoint [OF last_value(2)], simplified]
  show ?case using last_value seg seg2
    by (subst unescape_args_count.simps) (simp add: parse_args_cases pair_room_def)
next
  case (mid_value k v t)
  note seg = segment [of z args k "CHR ''='' # v @ CHR ''&'' # t" "''&=''", OF _ _ key_text_disjoint [OF mid_value(1)], simplified]
  note seg2 = segment [of "Suc (z + length k)" args v "CHR ''&'' # t" "''&''", OF _ _ value_text_disjoint [OF mid_value(2)], simplified]
  show ?case using mid_value seg seg2
    by (subst unescape_args_count.simps) (simp add: parse_args_cases pair_room_def)
qed


lemma store_twice:
  "q + 1 < length ptrs \<Longrightarrow>
    (do { xs \<leftarrow> store ptrs q x; store xs (q + 1) y }) = Some (overwrite ptrs q [x, y])"
  using overwrite_append [of q "[x]" "[y]" ptrs] by (simp add: store_overwrite)

text \<open>One text unescaped at its place in the area, the room that is left given as limit.\<close>

lemma unescape_at:
  assumes "\<And>buf olen. olen \<le> length buf \<Longrightarrow> unescape_to args l buf olen =
      Some (length u, puts olen buf 0 (cstr u))"
    and "p + lt = length area" and "length u < lt"
  shows "at_offset area p (\<lambda>b. unescape_to args l b lt) = Some (length u, overwrite area p (cstr u))"
proof -
  have "unescape_to args l (drop p area) lt = Some (length u, puts lt (drop p area) 0 (cstr u))"
    using assms(2) by (intro assms(1)) simp
  moreover have "take p area @ puts lt (drop p area) 0 (cstr u) = overwrite area p (cstr u)"
    using assms(2,3) by (subst puts_fits) (simp_all add: overwrite_def add_ac)
  ultimately show ?thesis by (simp add: at_offset_def)
qed

lemma size_sub_simp [simp]: "b \<le> a \<Longrightarrow> size_sub a b = a - b"
  by (simp add: size_sub_def)

lemma overwrite_pair:
  "Suc q < length xs \<Longrightarrow> overwrite (overwrite xs q [x]) (Suc q) [y] = overwrite xs q [x, y]"
  "Suc (Suc q) + length zs \<le> length xs \<Longrightarrow>
    overwrite (overwrite xs q [x, y]) (Suc (Suc q)) zs = overwrite xs q (x # y # zs)"
  using overwrite_append [of q "[x]" "[y]" xs] overwrite_append [of q "[x, y]" zs xs] by simp_all

lemma overwrite_cstr:
  "Suc (p + length u + length zs) \<le> length xs \<Longrightarrow>
    overwrite (overwrite xs p (cstr u)) (Suc (p + length u)) zs = overwrite xs p (cstr u @ zs)"
  "Suc (Suc (p + length u + length v + length zs)) \<le> length xs \<Longrightarrow>
    overwrite (overwrite xs p (cstr u @ cstr v)) (Suc (Suc (p + (length u + length v)))) zs =
    overwrite xs p (cstr u @ cstr v @ zs)"
  using overwrite_append [of p "cstr u" zs xs] overwrite_append [of p "cstr u @ cstr v" zs xs]
  by (simp_all add: add_ac)

lemmas fill_simps = store_overwrite overwrite_pair overwrite_cstr

lemma unesc_fits:
  "1 + esc_count k + m \<le> lt \<Longrightarrow> length (unesc_string k) < lt"
  "1 + esc_count k + m \<le> lt \<Longrightarrow> m \<le> lt - Suc (length (unesc_string k))"
  using unesc_le_count [of k] by linarith+

lemma unescape_args_fill_eq:
  assumes "no_nul s" and "args_complete (parse_args s)" and "drop z args = cstr s"
    and "p + lt = length area" and "args_room (parse_args s) \<le> lt"
    and "q + 2 * length (parse_args s) \<le> length ptrs"
  shows "unescape_args_fill args z ptrs q area p lt =
    Some (q + 2 * length (parse_args s), overwrite ptrs q (args_ptrs p (parse_args s)),
      overwrite area p (args_text (parse_args s)))"
  using assms
proof (induction s arbitrary: z ptrs q area p lt rule: arg_induct)
  case (last_key k)
  note seg = segment [of z args k "[]" "''&=''", OF _ _ key_text_disjoint [OF last_key(1)], simplified]
  have room: "length (unesc_string k) < lt"
    using last_key unesc_le_count [of k] by (simp add: parse_args_cases pair_room_def)
  show ?case using last_key seg(1,3) unescape_at [OF seg(5) last_key(5) room]
    by (subst unescape_args_fill.simps)
      (simp add: parse_args_cases pair_ptrs_def pair_text_def fill_simps)
next
  case (mid_key k t)
  note seg = segment [of z args k "CHR ''&'' # t" "''&=''", OF _ _ key_text_disjoint [OF mid_key(1)], simplified]
  have room: "length (unesc_string k) < lt" "args_room (parse_args t) \<le> lt - Suc (length (unesc_string k))"
    using mid_key unesc_le_count [of k] by (simp_all add: parse_args_cases pair_room_def)
  have room': "length (args_text (parse_args t)) \<le> lt - Suc (length (unesc_string k))"
    using room(2) length_args_text [of "parse_args t"] by linarith
  show ?case using mid_key seg(1,3,4) unescape_at [OF seg(5) mid_key(6) room(1)] room room'
    by (subst unescape_args_fill.simps)
      (simp add: parse_args_cases pair_ptrs_def pair_text_def fill_simps)
next
  case (last_value k v)
  note seg = segment [of z args k "CHR ''='' # v" "''&=''", OF _ _ key_text_disjoint [OF last_value(1)], simplified]
  note seg2 = segment [of "Suc (z + length k)" args v "[]" "''&''", OF _ _ value_text_disjoint [OF last_value(2)], simplified]
  have room: "length (unesc_string k) < lt" "length (unesc_string v) < lt - Suc (length (unesc_string k))"
    using last_value unesc_le_count [of k] unesc_le_count [of v] by (simp_all add: parse_args_cases pair_room_def)
  have area: "Suc (p + length (unesc_string k)) + (lt - Suc (length (unesc_string k))) =
      length (overwrite area p (cstr (unesc_string k)))"
    using last_value(6) room(1) by simp
  have room': "Suc (length (unesc_string v)) \<le> lt - Suc (length (unesc_string k))" using room(2) by linarith
  show ?case
    using last_value seg(1,3,4) seg2(1,3) unescape_at [OF seg(5) last_value(6) room(1)]
      unescape_at [OF seg2(5) area room(2)] room room'
    by (subst unescape_args_fill.simps)
      (simp add: parse_args_cases pair_ptrs_def pair_text_def fill_simps)
next
  case (mid_value k v t)
  note seg = segment [of z args k "CHR ''='' # v @ CHR ''&'' # t" "''&=''", OF _ _ key_text_disjoint [OF mid_value(1)], simplified]
  note seg2 = segment [of "Suc (z + length k)" args v "CHR ''&'' # t" "''&''", OF _ _ value_text_disjoint [OF mid_value(2)], simplified]
  have room: "length (unesc_string k) < lt" "length (unesc_string v) < lt - Suc (length (unesc_string k))"
    "args_room (parse_args t) \<le> lt - Suc (length (unesc_string k)) - Suc (length (unesc_string v))"
    using mid_value unesc_le_count [of k] unesc_le_count [of v] by (simp_all add: parse_args_cases pair_room_def)
  have area: "Suc (p + length (unesc_string k)) + (lt - Suc (length (unesc_string k))) =
      length (overwrite area p (cstr (unesc_string k)))"
    using mid_value(7) room(1) by simp
  have room': "length (args_text (parse_args t)) \<le>
      lt - Suc (length (unesc_string k)) - Suc (length (unesc_string v))"
    using room(3) length_args_text [of "parse_args t"] by linarith
  show ?case
    using mid_value seg(1,3,4) seg2(1,3,4) unescape_at [OF seg(5) mid_value(7) room(1)]
      unescape_at [OF seg2(5) area room(2)] room room'
    by (subst unescape_args_fill.simps)
      (simp add: parse_args_cases pair_ptrs_def pair_text_def fill_simps add_ac)
qed

text \<open>The arguments of a whole text: none in the empty one.\<close>

definition query_args :: "string \<Rightarrow> (string \<times> string option) list" where
  "query_args s = (if s = [] then [] else parse_args s)"

lemma parse_args_not_Nil [simp]: "parse_args s \<noteq> []"
  by (cases s rule: arg_split) (simp_all add: parse_args_cases)

lemma rp_unescape_args_eq:
  assumes "allocates malloc" and "no_nul s" and "args_complete (query_args s)"
  shows "rp_unescape_args malloc (cstr s) =
    (let as = query_args s; k = 8 * (2 * length as + 1)
     in Some (map_option (\<lambda>b. (args_ptrs 0 as @ [None], overwrite (drop k b) 0 (args_text as)))
       (malloc (args_room as + k))))"
proof (cases "s = []")
  case True
  then show ?thesis
    by (cases "malloc 8") (simp_all add: rp_unescape_args_def query_args_def cstr_def store_def)
next
  case False
  let ?as = "parse_args s" and ?ptrs = "replicate (2 * length (parse_args s) + 1) (None :: nat option)"
  have s: "query_args s = ?as" "load (cstr s) 0 = Some (hd s)" "hd s \<noteq> NUL"
    using False assms(2) by (auto simp: query_args_def cstr_def neq_Nil_conv)
  have count: "unescape_args_count (cstr s) 0 0 0 = Some (length ?as, args_room ?as)"
    using unescape_args_count_eq [of s 0 "cstr s" 0 0] assms(2,3) s(1) by simp
  show ?thesis
  proof (cases "malloc (args_room ?as + (2 * length ?as + 1) * 8)")
    case None
    then show ?thesis using s count by (simp add: rp_unescape_args_def Let_def mult.commute)
  next
    case (Some b)
    then have b: "length b = args_room ?as + (2 * length ?as + 1) * 8" by (rule allocatesD [OF assms(1)])
    let ?area = "drop ((2 * length ?as + 1) * 8) b"
    have fill: "unescape_args_fill (cstr s) 0 ?ptrs 0 ?area 0 (args_room ?as) =
      Some (2 * length ?as, overwrite ?ptrs 0 (args_ptrs 0 ?as), overwrite ?area 0 (args_text ?as))"
      using unescape_args_fill_eq [of s 0 "cstr s" 0 "args_room ?as" ?area 0 ?ptrs] assms(2,3) s(1) b
      by simp
    have "store (overwrite ?ptrs 0 (args_ptrs 0 ?as)) (2 * length ?as) None = Some (args_ptrs 0 ?as @ [None])"
      using overwrite_append [of 0 "args_ptrs 0 ?as" "[None]" ?ptrs]
      by (simp add: store_overwrite overwrite_all del: replicate.simps)
    then show ?thesis using s count Some fill
      by (simp add: rp_unescape_args_def Let_def mult.commute)
  qed
qed

subsection \<open>Looking a key up\<close>

text \<open>What the receiver of the arguments reads: the unescaped key and value of each pair.\<close>

definition decoded :: "string \<times> string option \<Rightarrow> string \<times> string" where
  "decoded a = (unesc_string (fst a), case snd a of None \<Rightarrow> [] | Some v \<Rightarrow> unesc_string v)"

definition args_no_nul :: "(string \<times> string option) list \<Rightarrow> bool" where
  "args_no_nul as \<longleftrightarrow> (\<forall>a \<in> set as. no_nul (fst (decoded a)) \<and> no_nul (snd (decoded a)))"

lemma args_no_nul_simps [simp]:
  "args_no_nul []"
  "args_no_nul (a # as) \<longleftrightarrow> no_nul (fst (decoded a)) \<and> no_nul (snd (decoded a)) \<and> args_no_nul as"
  by (simp_all add: args_no_nul_def)

lemma pair_reads:
  assumes "no_nul (fst (decoded a))" and "no_nul (snd (decoded a))"
    and "area = pre @ pair_text a @ rest"
  shows "\<exists>v. pair_ptrs (length pre) a = [Some (length pre), Some v] \<and>
    string_at area (length pre) = fst (decoded a) \<and> string_at area v = snd (decoded a)"
proof (cases "snd a")
  case None
  let ?u = "unesc_string (fst a)"
  have area: "area = pre @ ?u @ NUL # rest" "area = (pre @ ?u) @ [] @ NUL # rest"
    using assms(3) None by (simp_all add: pair_text_def cstr_def)
  have "string_at area (length pre) = ?u"
    unfolding area(1) using assms(1) by (intro string_at_append_NUL) (simp add: decoded_def)
  moreover have "string_at area (length (pre @ ?u)) = []"
    unfolding area(2) by (rule string_at_append_NUL) simp
  ultimately show ?thesis using None by (simp add: pair_ptrs_def decoded_def)
next
  case (Some v)
  let ?u = "unesc_string (fst a)" and ?w = "unesc_string v"
  have area: "area = pre @ ?u @ NUL # (?w @ NUL # rest)" "area = (pre @ ?u @ [NUL]) @ ?w @ NUL # rest"
    using assms(3) Some by (simp_all add: pair_text_def cstr_def)
  have "string_at area (length pre) = ?u"
    unfolding area(1) using assms(1) by (intro string_at_append_NUL) (simp add: decoded_def)
  moreover have "string_at area (length (pre @ ?u @ [NUL])) = ?w"
    unfolding area(2) using assms(2) Some by (intro string_at_append_NUL) (simp add: decoded_def)
  ultimately show ?thesis using Some by (simp add: pair_ptrs_def decoded_def)
qed

lemma rp_unescaped_args_get_eq:
  assumes "ptrs = pp @ args_ptrs (length pre) as @ [None]" and "area = pre @ args_text as @ rest"
    and "args_no_nul as"
  shows "map_option (map_option (string_at area)) (rp_unescaped_args_get ptrs area (length pp) key) =
    Some (map_of (map decoded as) key)"
  using assms
proof (induction as arbitrary: pp pre)
  case Nil
  then show ?case by (subst rp_unescaped_args_get.simps) simp
next
  case (Cons a as)
  obtain v where v: "pair_ptrs (length pre) a = [Some (length pre), Some v]"
    "string_at area (length pre) = fst (decoded a)" "string_at area v = snd (decoded a)"
    using pair_reads [of a area pre "args_text as @ rest"] Cons.prems by auto
  have ptrs: "ptrs = (pp @ [Some (length pre), Some v]) @ args_ptrs (length (pre @ pair_text a)) as @ [None]"
    using Cons.prems(1) v(1) by simp
  have area: "area = (pre @ pair_text a) @ args_text as @ rest" using Cons.prems(2) by simp
  have ih: "map_option (map_option (string_at area)) (rp_unescaped_args_get ptrs area (length pp + 2) key) =
    Some (map_of (map decoded as) key)"
    using Cons.IH [OF ptrs area] Cons.prems(3) by simp
  have "load ptrs (length pp) = Some (Some (length pre))" "load ptrs (length pp + 1) = Some (Some v)"
    unfolding ptrs by (simp_all add: load_def nth_append)
  then show ?case using v ih
    by (subst rp_unescaped_args_get.simps) (cases "decoded a"; auto)
qed

subsection \<open>Escaped arguments are split back\<close>

definition esc_arg :: "string \<times> string option \<Rightarrow> string \<times> string option" where
  "esc_arg a = (esc_string (fst a), map_option esc_string (snd a))"

lemma esc_string_key_text [simp]: "key_text (esc_string k)" and esc_string_value_text [simp]: "value_text (esc_string k)"
  using esc_string_chars [of "CHR ''&''" k] esc_string_chars [of "CHR ''=''" k]
  by (auto simp: key_text_def value_text_def unreserved_def)

lemma parse_url_pair:
  "parse_args (url_pair a) = [esc_arg a]"
  "parse_args (url_pair a @ CHR ''&'' # t) = esc_arg a # parse_args t"
  by (cases "snd a"; simp add: url_pair_def esc_arg_def parse_args_cases)+

lemma parse_url_more: "parse_args (url_pair a @ url_more as) = map esc_arg (a # as)"
  by (induction as arbitrary: a) (simp_all add: url_more_def parse_url_pair)

lemma escapes_end_esc_string [simp]: "escapes_end (esc_string s)"
  by (simp add: escapes_end_def wf_esc_reach)

lemma query_args_url_query:
  assumes "as \<noteq> [([], None)]"
  shows "query_args (url_query [] as) = map esc_arg as"
proof (cases as)
  case Nil
  then show ?thesis by (simp add: query_args_def)
next
  case (Cons a bs)
  have "url_pair a @ url_more bs \<noteq> []"
  proof
    assume e: "url_pair a @ url_more bs = []"
    then have "bs = []" by (cases bs) (simp_all add: url_more_def)
    moreover have "fst a = [] \<and> snd a = None"
      using e unesc_esc_string [of "fst a"] by (auto simp: url_pair_def split: option.splits)
    ultimately show False using assms Cons by (cases a) auto
  qed
  then show ?thesis using Cons parse_url_more [of a bs] by (simp add: query_args_def url_sep_def)
qed

lemma esc_args_complete: "args_complete (map esc_arg as)"
  by (auto simp: args_complete_def esc_arg_def)

lemma decoded_esc_arg: "decoded (esc_arg a) = (fst a, case snd a of None \<Rightarrow> [] | Some v \<Rightarrow> v)"
  by (simp add: decoded_def esc_arg_def split: option.splits)

lemma esc_args_no_nul: "args_ok as \<Longrightarrow> args_no_nul (map esc_arg as)"
  by (induction as) (auto simp: decoded_esc_arg split: option.splits)

lemma no_nul_url_query: "no_nul (url_query [] as)"
proof (cases as)
  case (Cons a bs)
  have pair: "no_nul (url_pair b)" for b by (simp add: url_pair_def split: option.splits)
  have "no_nul (url_more cs)" for cs by (induction cs) (simp_all add: url_more_def pair)
  then show ?thesis using Cons pair by (simp add: url_sep_def)
qed simp

subsection \<open>Properties of argument splitting\<close>

text \<open>
  Property C3: \<open>rp_unescape_args\<close> on a query text whose escapes do not run over the end
  of their key or value and do not give a zero: it stays within the text and within the block it
  allocated, and \<open>rp_unescaped_args_get\<close> on its result finds the unescaped value of the first argument
  with the asked key (the empty string for a key without value), \<open>NULL\<close> when there is
  none. A text that ends within an escape is read beyond its end.
\<close>

theorem rp_unescape_args_lookup:
  assumes "allocates malloc" and "no_nul s" and "args_complete (query_args s)"
    and "args_no_nul (query_args s)"
  shows "case malloc (args_room (query_args s) + 8 * (2 * length (query_args s) + 1)) of
      None \<Rightarrow> rp_unescape_args malloc (cstr s) = Some None
    | Some b \<Rightarrow> \<exists>ptrs area. rp_unescape_args malloc (cstr s) = Some (Some (ptrs, area)) \<and>
        map_option (map_option (string_at area)) (rp_unescaped_args_get ptrs area 0 key) =
        Some (map_of (map decoded (query_args s)) key)"
proof -
  let ?as = "query_args s"
  let ?k = "8 * (2 * length ?as + 1)"
  have get: "map_option (map_option (string_at area)) (rp_unescaped_args_get (args_ptrs 0 ?as @ [None]) area 0 key) =
      Some (map_of (map decoded ?as) key)" if "area = overwrite (drop ?k b) 0 (args_text ?as)" for b area
    using rp_unescaped_args_get_eq [of _ "[]" "[]" ?as area _ key] assms(4) that
    by (simp add: overwrite_def)
  show ?thesis
    using rp_unescape_args_eq [OF assms(1-3)] get
    by (cases "malloc (args_room ?as + ?k)") (simp_all add: Let_def)
qed

theorem rp_unescape_args_lookup_witness:
  "\<exists>ptrs area. rp_unescape_args alloc_zero (cstr ''a=1+2&b&a=3'') = Some (Some (ptrs, area)) \<and>
    map_option (map_option (string_at area)) (rp_unescaped_args_get ptrs area 0 ''a'') = Some (Some ''1 2'')"
proof -
  have "query_args ''a=1+2&b&a=3'' = [(''a'', Some ''1+2''), (''b'', None), (''a'', Some ''3'')]"
    using parse_args_cases(4) [of "''a''" "''1+2''" "''b&a=3''"] parse_args_cases(2) [of "''b''" "''a=3''"]
      parse_args_cases(3) [of "''a''" "''3''"]
    by (simp add: query_args_def key_text_def value_text_def)
  then show ?thesis
    using rp_unescape_args_lookup [of alloc_zero "''a=1+2&b&a=3''" "''a''"]
    by (simp add: escapes_end_def alloc_zero_def decoded_def)
qed

text \<open>
  Property C4: the arguments that \<open>rp_escape_args\<close> put in a query text are the ones that
  \<open>rp_unescape_args\<close> reads from it: a lookup gives the value of the first argument with
  the key, whatever characters keys and values have. (The only arguments that are lost are the
  single pair of an empty key without value, whose text is the empty one.)
\<close>

theorem rp_unescape_args_escape_args:
  assumes "allocates malloc" and "allocates malloc'" and "args_ok as" and "as \<noteq> [([], None)]"
    and "rp_escape_args malloc (Some (argv_of as)) = Some (Some t, n)"
    and "rp_unescape_args malloc' t = Some (Some (ptrs, area))"
  shows "map_option (map_option (string_at area)) (rp_unescaped_args_get ptrs area 0 key) =
    Some (map_of (map (\<lambda>(k, v). (k, case v of None \<Rightarrow> [] | Some w \<Rightarrow> w)) as) key)"
proof -
  have "t = cstr (url_query [] as)"
    using rp_escape_url_eq [of malloc None None "Some as"] assms(1,3,5)
    by (auto simp: rp_escape_args_def url_input_ok_def opt_args_def opt_str_def url_string_def
        url_prefix_def url_base_def Let_def split: option.splits)
  moreover have q: "query_args (url_query [] as) = map esc_arg as"
    by (rule query_args_url_query [OF assms(4)])
  ultimately have "args_ptrs 0 (map esc_arg as) @ [None] = ptrs \<and> (\<exists>b. area = overwrite b 0 (args_text (map esc_arg as)))"
    using rp_unescape_args_eq [OF assms(2) no_nul_url_query, of as] assms(6)
    by (auto simp: esc_args_complete Let_def)
  then obtain b where "ptrs = args_ptrs 0 (map esc_arg as) @ [None]" "area = overwrite b 0 (args_text (map esc_arg as))"
    by blast
  then have "map_option (map_option (string_at area)) (rp_unescaped_args_get ptrs area 0 key) =
      Some (map_of (map decoded (map esc_arg as)) key)"
    using rp_unescaped_args_get_eq [of ptrs "[]" "[]" "map esc_arg as" area _ key]
    by (simp add: overwrite_def esc_args_no_nul [OF assms(3)])
  moreover have "decoded \<circ> esc_arg = (\<lambda>(k, v). (k, case v of None \<Rightarrow> [] | Some w \<Rightarrow> w))"
    by (auto simp: decoded_esc_arg)
  ultimately show ?thesis by simp
qed

theorem rp_unescape_args_escape_args_witness:
  "\<exists>t n ptrs area. rp_escape_args alloc_zero (Some (argv_of [(''a&'', Some ''x y''), (''b'', None)])) = Some (Some t, n) \<and>
    rp_unescape_args alloc_zero t = Some (Some (ptrs, area)) \<and>
    map_option (map_option (string_at area)) (rp_unescaped_args_get ptrs area 0 ''a&'') = Some (Some ''x y'')"
proof -
  let ?as = "[(''a&'', Some ''x y''), (''b'', None)]"
  let ?u = "url_query [] ?as"
  have 1: "rp_escape_args alloc_zero (Some (argv_of ?as)) = Some (Some (cstr ?u), length ?u)"
    using rp_escape_url_eq [of alloc_zero None None "Some ?as"]
    by (simp add: rp_escape_args_def url_input_ok_def opt_args_def opt_str_def url_string_def
        url_prefix_def url_base_def Let_def alloc_zero_def)
  have "query_args ?u = map esc_arg ?as" by (rule query_args_url_query) simp
  then have c: "args_complete (query_args ?u)" by (simp only: esc_args_complete)
  obtain ptrs area where 2: "rp_unescape_args alloc_zero (cstr ?u) = Some (Some (ptrs, area))"
    using rp_unescape_args_eq [of alloc_zero ?u, OF _ no_nul_url_query c]
    by (simp add: alloc_zero_def Let_def del: url_query.simps)
  show ?thesis
    using 1 2 rp_unescape_args_escape_args [of alloc_zero alloc_zero ?as, OF _ _ _ _ 1 2, of "''a&''"]
    by auto
qed

end
