(* ===== verification/Base64.thy ===== *)
theory Base64
  imports Prelude
begin

unbundle bit_operations_syntax

text \<open>
  Base64 (\<open>src/misc/rp-base64.c\<close>): the encoder with its line folding, padding and URL
  variant, the decoder, the abstract code they implement (groups of three bytes against groups
  of four 6-bit values), and the round trip. Bytes are the characters of the memory model; the
  shift registers keep their widths of 16 and 8 bits.
\<close>

subsection \<open>Encoding\<close>

definition rp_base64_nomem :: int where
  "rp_base64_nomem = - 1"

definition rp_base64_invalid :: int where
  "rp_base64_invalid = - 2"

definition u16_byte :: "char \<Rightarrow> 16 word" where
  "u16_byte c = word_of_nat (uchar c)"

text \<open>The switch of the encoding loop: the next 6-bit value, the shift register and \<open>in\<close>.\<close>

definition next_sextet :: "mem \<Rightarrow> nat \<Rightarrow> nat \<Rightarrow> nat \<Rightarrow> 16 word \<Rightarrow> (8 word \<times> nat \<times> 16 word) option" where
  "next_sextet data datalen iout i u16 = do {
     (u8, i, u16) \<leftarrow>
       (if iout mod 4 = 0 then do {
          d \<leftarrow> load data i;
          let u16 = u16_byte d;
          Some (ucast (drop_bit 2 u16) :: 8 word, i + 1, u16)
        }
        else if iout mod 4 = 1 then do {
          let u16 = push_bit 8 u16;
          (i, u16) \<leftarrow>
            (if i < datalen then do { d \<leftarrow> load data i; Some (i + 1, u16 OR u16_byte d) }
             else Some (i, u16));
          Some (ucast (drop_bit 4 u16), i, u16)
        }
        else if iout mod 4 = 2 then do {
          let u16 = push_bit 8 u16;
          (i, u16) \<leftarrow>
            (if i < datalen then do { d \<leftarrow> load data i; Some (i + 1, u16 OR u16_byte d) }
             else Some (i, u16));
          Some (ucast (drop_bit 6 u16), i, u16)
        }
        else Some (ucast u16, i, u16));
     Some (u8 AND 63, i, u16)
   }"

definition base64_char :: "bool \<Rightarrow> 8 word \<Rightarrow> char" where
  "base64_char url u8 =
     (if u8 < 52 then
        (if u8 < 26 then to_char (schar (CHR ''A'') + uint u8)
         else to_char (schar (CHR ''a'') + uint u8 - 26))
      else
        (if u8 < 62 then to_char (schar (CHR ''0'') + uint u8 - 52)
         else if u8 = 62 then (if url then CHR ''-'' else CHR ''+'')
         else (if url then CHR ''_'' else CHR ''/'')))"

text \<open>\<open>result[out++] = c\<close>, and a new line when the line has its width.\<close>

definition put_folded :: "int \<Rightarrow> char \<Rightarrow> mem \<times> nat \<times> int \<Rightarrow> (mem \<times> nat \<times> int) option" where
  "put_folded width c = (\<lambda>(result, out, iw). do {
     result \<leftarrow> store result out c;
     let out = out + 1;
     let iw' = (if iw \<noteq> 0 then iw - 1 else iw);
     if iw \<noteq> 0 \<and> iw' = 0 then do {
       result \<leftarrow> store result out (CHR 0x0A);
       Some (result, out + 1, width)
     } else Some (result, out, iw')
   })"

function encode_loop ::
  "mem \<Rightarrow> nat \<Rightarrow> int \<Rightarrow> bool \<Rightarrow> nat \<Rightarrow> nat \<Rightarrow> nat \<Rightarrow> 16 word \<Rightarrow> mem \<times> nat \<times> int
    \<Rightarrow> (mem \<times> nat \<times> int) option" where
  "encode_loop data datalen width url nout iout i u16 st =
    (if iout < nout then do {
       (u8, i, u16) \<leftarrow> next_sextet data datalen iout i u16;
       st \<leftarrow> put_folded width (base64_char url u8) st;
       encode_loop data datalen width url nout (iout + 1) i u16 st
     } else Some st)"
  by pat_completeness auto
termination
  by (relation "measure (\<lambda>(data, datalen, width, url, nout, iout, i, u16, st). nout - iout)") auto

function pad_loop :: "int \<Rightarrow> nat \<Rightarrow> mem \<times> nat \<times> int \<Rightarrow> (mem \<times> nat \<times> int) option" where
  "pad_loop width rlen st =
    (if fst (snd st) < rlen then do {
       st \<leftarrow> put_folded width (CHR ''='') st;
       pad_loop width rlen st
     } else Some st)"
  by pat_completeness auto
termination
  by (relation "measure (\<lambda>(width, rlen, st). rlen - fst (snd st))")
    (auto simp: put_folded_def Let_def split: prod.splits if_splits Option.bind_splits)

declare encode_loop.simps [simp del] pad_loop.simps [simp del]

definition base64_length :: "nat \<Rightarrow> int \<Rightarrow> bool \<Rightarrow> nat" where
  "base64_length nout width pad =
     (let rlen = nout + (if pad then unat ((NOT (word_of_nat nout :: 64 word) + 1) AND 3) else 0)
      in rlen + (if width \<noteq> 0 then rlen div nat (width mod 2 ^ 32) else 0))"

definition rp_base64_encode ::
  "allocator \<Rightarrow> mem \<Rightarrow> nat \<Rightarrow> int \<Rightarrow> bool \<Rightarrow> bool \<Rightarrow> (int + mem \<times> nat) option" where
  "rp_base64_encode malloc data datalen width pad url =
     (let n3 = datalen div 3;
          r3 = datalen mod 3;
          nout = 4 * n3 + r3 + (if r3 \<noteq> 0 then 1 else 0);
          rlen = base64_length nout width pad
      in case malloc (rlen + 1) of
           None \<Rightarrow> Some (Inl rp_base64_nomem)
         | Some result \<Rightarrow> do {
             st \<leftarrow> encode_loop data datalen width url nout 0 0 0 (result, 0, width);
             (result, out, iw) \<leftarrow> pad_loop width rlen st;
             result \<leftarrow> store result out NUL;
             Some (Inr (result, rlen))
           })"

subsection \<open>Decoding\<close>

definition base64_value :: "int \<Rightarrow> char \<Rightarrow> 8 word option" where
  "base64_value url c =
     (if schar (CHR ''A'') \<le> schar c \<and> schar c \<le> schar (CHR ''Z'')
        then Some (word_of_int (schar c - schar (CHR ''A'')))
      else if schar (CHR ''a'') \<le> schar c \<and> schar c \<le> schar (CHR ''z'')
        then Some (word_of_int (schar c - schar (CHR ''a'') + 26))
      else if schar (CHR ''0'') \<le> schar c \<and> schar c \<le> schar (CHR ''9'')
        then Some (word_of_int (schar c - schar (CHR ''0'') + 52))
      else if c = CHR ''-'' \<and> url \<ge> 0 then Some 62
      else if c = CHR ''_'' \<and> url \<ge> 0 then Some 63
      else if c = CHR ''+'' \<and> url \<le> 0 then Some 62
      else if c = CHR ''/'' \<and> url \<le> 0 then Some 63
      else None)"

text \<open>
  The first loop ends at the end of the data or at the first \<open>=\<close>; \<open>Inl\<close> is the
  early return for an invalid character. The state is \<open>(in, u16, iin, result, out)\<close>.
\<close>

function decode_loop ::
  "mem \<Rightarrow> nat \<Rightarrow> int \<Rightarrow> nat \<Rightarrow> 16 word \<Rightarrow> nat \<Rightarrow> mem \<Rightarrow> nat \<Rightarrow> (int + nat \<times> mem \<times> nat) option" where
  "decode_loop data datalen url i u16 iin result out =
    (if i < datalen then do {
       c \<leftarrow> load data i;
       if c = CHR ''='' then Some (Inr (i, result, out))
       else if c \<noteq> CHR 0x0A \<and> c \<noteq> CHR 0x0D then
         case base64_value url c of
           None \<Rightarrow> Some (Inl rp_base64_invalid)
         | Some u8 \<Rightarrow>
             if iin = 0 then decode_loop data datalen url (i + 1) (ucast u8) 6 result out
             else do {
               let u16 = push_bit 6 u16 OR ucast u8;
               let iin = iin - 2;
               result \<leftarrow> store result out (char_of (unat (ucast (drop_bit iin u16) :: 8 word)));
               decode_loop data datalen url (i + 1) u16 iin result (out + 1)
             }
       else decode_loop data datalen url (i + 1) u16 iin result out
     } else Some (Inr (i, result, out)))"
  by pat_completeness auto
termination
  by (relation "measure (\<lambda>(data, datalen, url, i, u16, iin, result, out). datalen - i)") auto

function decode_tail :: "mem \<Rightarrow> nat \<Rightarrow> nat \<Rightarrow> bool option" where
  "decode_tail data datalen i =
    (if i < datalen then do {
       c \<leftarrow> load data i;
       if c \<noteq> CHR ''='' \<and> c \<noteq> CHR 0x0A \<and> c \<noteq> CHR 0x0D then Some False
       else decode_tail data datalen (i + 1)
     } else Some True)"
  by pat_completeness auto
termination
  by (relation "measure (\<lambda>(data, datalen, i). datalen - i)") auto

declare decode_loop.simps [simp del] decode_tail.simps [simp del]

definition rp_base64_decode ::
  "allocator \<Rightarrow> reallocator \<Rightarrow> mem \<Rightarrow> nat \<Rightarrow> int \<Rightarrow> (int + mem \<times> nat) option" where
  "rp_base64_decode malloc realloc data datalen url =
     (case malloc (datalen + 1) of
        None \<Rightarrow> Some (Inl rp_base64_nomem)
      | Some result \<Rightarrow> do {
          r \<leftarrow> decode_loop data datalen url 0 0 0 result 0;
          case r of
            Inl e \<Rightarrow> Some (Inl e)
          | Inr (i, result, out) \<Rightarrow> do {
              ok \<leftarrow> decode_tail data datalen i;
              if \<not> ok then Some (Inl rp_base64_invalid)
              else case realloc result (out + 1) of
                None \<Rightarrow> Some (Inl rp_base64_nomem)
              | Some decoded \<Rightarrow> do {
                  decoded \<leftarrow> store decoded out NUL;
                  Some (Inr (decoded, out))
                }
            }
        })"

subsection \<open>What the code of a text is\<close>

definition alphabet :: "bool \<Rightarrow> string" where
  "alphabet url = ''ABCDEFGHIJKLMNOPQRSTUVWXYZabcdefghijklmnopqrstuvwxyz0123456789'' @
     (if url then ''-_'' else ''+/'')"

text \<open>Groups of three bytes are groups of four values of 6 bits; a last group may be shorter.\<close>

fun sextets :: "nat list \<Rightarrow> nat list" where
  "sextets [] = []"
| "sextets [a] = [a div 4, (a mod 4) * 16]"
| "sextets [a, b] = [a div 4, (a mod 4) * 16 + b div 16, (b mod 16) * 4]"
| "sextets (a # b # c # bs) =
     [a div 4, (a mod 4) * 16 + b div 16, (b mod 16) * 4 + c div 64, c mod 64] @ sextets bs"

fun octets :: "nat list \<Rightarrow> nat list" where
  "octets (a # b # c # d # vs) =
     [a * 4 + b div 16, (b mod 16) * 16 + c div 4, (c mod 4) * 64 + d] @ octets vs"
| "octets [a, b, c] = [a * 4 + b div 16, (b mod 16) * 16 + c div 4]"
| "octets [a, b] = [a * 4 + b div 16]"
| "octets _ = []"

text \<open>A text folded in lines: a new line after each full line.\<close>

function fold_lines :: "nat \<Rightarrow> string \<Rightarrow> string" where
  "fold_lines w s =
     (if w = 0 \<or> length s < w then s
      else take w s @ CHR 0x0A # fold_lines w (drop w s))"
  by pat_completeness auto
termination
  by (relation "measure (\<lambda>(w, s). length s)") auto

declare fold_lines.simps [simp del]

definition padding :: "nat \<Rightarrow> nat" where
  "padding n = (4 - n mod 4) mod 4"

definition base64_text :: "bool \<Rightarrow> bool \<Rightarrow> string \<Rightarrow> string" where
  "base64_text url pad s =
     (let t = map (nth (alphabet url)) (sextets (map uchar s))
      in t @ (if pad then replicate (padding (length t)) (CHR ''='') else []))"

subsection \<open>The registers\<close>

lemma unat_u16_byte [simp]: "unat (u16_byte c) = uchar c"
  using uchar_bound [of c] by (simp add: u16_byte_def unat_of_nat take_bit_nat_eq_self)

lemma unat_and63: "unat (w AND 63 :: 8 word) = unat w mod 64"
proof -
  have "(63 :: 8 word) = mask 6" by (simp add: mask_eq_exp_minus_1)
  then have "unat (w AND 63) = unat (take_bit 6 w)" by (simp only: take_bit_eq_mask)
  also have "\<dots> = take_bit 6 (unat w)" by (rule unsigned_take_bit_eq)
  finally show ?thesis by (simp add: take_bit_eq_mod)
qed

lemma unat_low_byte: "unat (ucast (w :: 16 word) :: 8 word) = unat w mod 256"
  by (simp only: unsigned_ucast_eq take_bit_eq_mod) simp

lemma unat_push: "unat (push_bit k w :: 16 word) = (unat w * 2 ^ k) mod 65536"
proof -
  have "unat (push_bit k w) = take_bit 16 (push_bit k (unat w))"
    by (simp only: unsigned_push_bit_eq len_num0 len_bit0 len_num1) simp
  then show ?thesis by (simp only: take_bit_eq_mod push_bit_eq_mult) simp
qed

lemma push_or:
  assumes "unat v < 2 ^ k"
  shows "unat (push_bit k w OR v :: 16 word) = (unat w * 2 ^ k) mod 65536 + unat v"
proof -
  let ?p = "unat (push_bit k w)"
  have v: "take_bit k (unat v) = unat v" using assms by (simp add: take_bit_nat_eq_self)
  have "\<not> bit ?p n \<or> \<not> bit (unat v) n" for n
    by (subst v [symmetric]) (auto simp only: unsigned_push_bit_eq bit_take_bit_iff bit_push_bit_iff)
  then have "?p + unat v = ?p OR unat v" by (rule disjunctive_add)
  then show ?thesis by (simp only: unsigned_or_eq unat_push)
qed

text \<open>The four positions of a group, \<open>a\<close>, \<open>b\<close> and \<open>c\<close> its bytes.\<close>

lemma word8_eqI: "unat w = n \<Longrightarrow> w = (word_of_nat n :: 8 word)"
  by auto

lemmas registers = unat_and63 unat_low_byte unat_drop unat_push push_or unat_u16_byte

lemma field_mod: "x < m \<Longrightarrow> (a * m + x) mod (m * n) = (a mod n) * m + (x :: nat)"
  by (simp add: mod_mult2_eq)

lemma field_div: "(a * (k * m) + x) div m = a * k + x div (m :: nat)" if "0 < m"
proof -
  have "a * (k * m) + x = x + (a * k) * m" by simp
  also have "\<dots> div m = a * k + x div m" using that by simp
  finally show ?thesis .
qed

lemma bits_of_group:
  fixes a b c :: nat
  assumes "a < 256" and "b < 256" and "c < 256"
  shows "a div 4 mod 256 mod 64 = a div 4"
    and "(a * 256 mod 65536 + b) div 16 mod 256 mod 64 = (a mod 4) * 16 + b div 16"
    and "(((a * 256 mod 65536 + b) * 256) mod 65536 + c) div 64 mod 256 mod 64 =
      (b mod 16) * 4 + c div 64"
    and "(a * 256 mod 65536 + b) mod 256 mod 64 = b mod 64"
proof -
  have a: "a * 256 mod 65536 = a * 256" using assms(1) by simp
  have m: "x mod 256 mod 64 = x mod (64 :: nat)" for x by (rule mod_mod_cancel) simp
  show "a div 4 mod 256 mod 64 = a div 4" using assms(1) by simp
  have "(a * 256 + b) div 16 mod 64 = (a * 16 + b div 16) mod (16 * 4)"
    using field_div [of 16 a 16 b] by simp
  also have "\<dots> = (a mod 4) * 16 + b div 16" using assms(2) by (intro field_mod) simp
  finally show "(a * 256 mod 65536 + b) div 16 mod 256 mod 64 = (a mod 4) * 16 + b div 16"
    unfolding a m .
  have "(a * 256 + b) * 256 mod 65536 = b * 256"
    using field_mod [of "b * 256" 65536 a 1] assms(2) by (simp add: algebra_simps)
  moreover have "(b * 256 + c) div 64 mod 64 = (b * 4 + c div 64) mod (4 * 16)"
    using field_div [of 64 b 4 c] by simp
  moreover have "(b * 4 + c div 64) mod (4 * 16) = (b mod 16) * 4 + c div 64"
    using assms(3) by (intro field_mod) simp
  ultimately show "(((a * 256 mod 65536 + b) * 256) mod 65536 + c) div 64 mod 256 mod 64 =
      (b mod 16) * 4 + c div 64"
    unfolding a m by simp
  have "(b + 64 * (a * 4)) mod 64 = b mod 64" by (rule mod_mult_self2)
  then show "(a * 256 mod 65536 + b) mod 256 mod 64 = b mod 64" unfolding a m by (simp add: algebra_simps)
qed

lemma sextet_words:
  "ucast (drop_bit 2 (u16_byte a)) AND 63 = (word_of_nat (uchar a div 4) :: 8 word)"
  "ucast (drop_bit 4 (push_bit 8 (u16_byte a) OR u16_byte b)) AND 63 =
    (word_of_nat ((uchar a mod 4) * 16 + uchar b div 16) :: 8 word)"
  "ucast (drop_bit 4 (push_bit 8 (u16_byte a))) AND 63 =
    (word_of_nat ((uchar a mod 4) * 16) :: 8 word)"
  "ucast (drop_bit 6 (push_bit 8 (push_bit 8 (u16_byte a) OR u16_byte b) OR u16_byte c)) AND 63 =
    (word_of_nat ((uchar b mod 16) * 4 + uchar c div 64) :: 8 word)"
  "ucast (drop_bit 6 (push_bit 8 (push_bit 8 (u16_byte a) OR u16_byte b))) AND 63 =
    (word_of_nat ((uchar b mod 16) * 4) :: 8 word)"
  "ucast (push_bit 8 w OR u16_byte c) AND 63 = (word_of_nat (uchar c mod 64) :: 8 word)"
proof -
  have lt: "uchar x < 2 ^ 8" for x using uchar_bound [of x] by simp
  note g = bits_of_group [OF uchar_bound [of a] uchar_bound [of b] uchar_bound [of c]]
  note g0 = bits_of_group [OF uchar_bound [of a], of 0 0]
  note gb = bits_of_group [OF uchar_bound [of a] uchar_bound [of b], of 0]
  have p1: "unat (push_bit 8 (u16_byte a) OR u16_byte b) = uchar a * 256 mod 65536 + uchar b"
    using push_or [of "u16_byte b" 8] lt by simp
  have p2: "unat (push_bit 8 w OR u16_byte c) = unat w * 256 mod 65536 + uchar c" for w
    using push_or [of "u16_byte c" 8] lt by simp
  have powers: "(2::nat) ^ 2 = 4" "(2::nat) ^ 4 = 16" "(2::nat) ^ 6 = 64" "(2::nat) ^ 8 = 256" by simp_all
  note regs = unat_and63 unat_low_byte unat_drop p1 p2 unat_push unat_u16_byte
  show "ucast (drop_bit 2 (u16_byte a)) AND 63 = (word_of_nat (uchar a div 4) :: 8 word)"
    using g(1) by (intro word8_eqI) (simp only: regs powers)
  show "ucast (drop_bit 4 (push_bit 8 (u16_byte a) OR u16_byte b)) AND 63 =
    (word_of_nat ((uchar a mod 4) * 16 + uchar b div 16) :: 8 word)"
    using g(2) by (intro word8_eqI) (simp only: regs powers)
  show "ucast (drop_bit 4 (push_bit 8 (u16_byte a))) AND 63 =
    (word_of_nat ((uchar a mod 4) * 16) :: 8 word)"
    using g0(2) by (intro word8_eqI) (simp only: regs powers div_0 add_0_right)
  show "ucast (drop_bit 6 (push_bit 8 (push_bit 8 (u16_byte a) OR u16_byte b) OR u16_byte c)) AND 63 =
    (word_of_nat ((uchar b mod 16) * 4 + uchar c div 64) :: 8 word)"
    using g(3) by (intro word8_eqI) (simp only: regs powers)
  show "ucast (drop_bit 6 (push_bit 8 (push_bit 8 (u16_byte a) OR u16_byte b))) AND 63 =
    (word_of_nat ((uchar b mod 16) * 4) :: 8 word)"
    using gb(3) by (intro word8_eqI) (simp only: regs powers div_0 add_0_right)
  have "(unat w * 256 mod 65536 + uchar c) mod 256 mod 64 = uchar c mod 64"
  proof -
    have "unat w * 256 mod 65536 = (unat w mod 256) * 256"
      using field_mod [of 0 256 "unat w" 256] by simp
    then have "unat w * 256 mod 65536 + uchar c = (unat w mod 256 * 4) * 64 + uchar c" by simp
    then have "(unat w * 256 mod 65536 + uchar c) mod 64 = ((unat w mod 256 * 4) * 64 + uchar c) mod 64"
      by (rule arg_cong)
    also have "\<dots> = uchar c mod 64" by (rule mod_mult_self3)
    finally show ?thesis by (simp add: mod_mod_cancel)
  qed
  then show "ucast (push_bit 8 w OR u16_byte c) AND 63 = (word_of_nat (uchar c mod 64) :: 8 word)"
    by (intro word8_eqI) (simp only: regs powers)
qed

lemma length_alphabet [simp]: "length (alphabet url) = 64"
  by (simp add: alphabet_def)

definition alphabet_char :: "bool \<Rightarrow> nat \<Rightarrow> char" where
  "alphabet_char url v =
     (if v < 26 then char_of (v + 65) else if v < 52 then char_of (v + 71)
      else if v < 62 then char_of (v - 4)
      else if v = 62 then (if url then CHR ''-'' else CHR ''+'') else if url then CHR ''_'' else CHR ''/'')"

lemma alphabet_nth: "v < 64 \<Longrightarrow> alphabet url ! v = alphabet_char url v"
proof -
  assume v: "v < 64"
  have "map (alphabet_char True) [0..<64] = alphabet True"
    and "map (alphabet_char False) [0..<64] = alphabet False"
    by code_simp+
  then have "map (alphabet_char url) [0..<64] = alphabet url" by (cases url) simp_all
  from arg_cong [OF this, of "\<lambda>t. t ! v"] v show ?thesis by simp
qed

lemma to_char_nat: "i = int n \<Longrightarrow> to_char i = char_of n"
  by (simp add: to_char_def nat_mod_distrib)

lemma base64_char_alphabet:
  assumes "v < 64"
  shows "base64_char url (word_of_nat v) = alphabet url ! v"
proof -
  have u: "uint (word_of_nat v :: 8 word) = int v" "unat (word_of_nat v :: 8 word) = v"
    using assms by (simp_all add: uint_word_of_int unat_of_nat uint_nat take_bit_nat_eq_self)
  have less: "(word_of_nat v :: 8 word) < 52 \<longleftrightarrow> v < 52" "(word_of_nat v :: 8 word) < 26 \<longleftrightarrow> v < 26"
    "(word_of_nat v :: 8 word) < 62 \<longleftrightarrow> v < 62" "(word_of_nat v :: 8 word) = 62 \<longleftrightarrow> v = 62"
    by (simp_all add: word_less_nat_alt word_unat_eq_iff u)
  have "base64_char url (word_of_nat v) = alphabet_char url v"
    by (simp add: base64_char_def alphabet_char_def less u schar_def to_char_nat)
  then show ?thesis by (simp add: alphabet_nth assms)
qed

lemma group_bounds:
  "a < 256 \<Longrightarrow> a div 4 < (64 :: nat)"
  "b < 256 \<Longrightarrow> (a mod 4) * 16 + b div 16 < (64 :: nat)"
  "(a mod 4) * 16 < (64 :: nat)"
  "c < 256 \<Longrightarrow> (b mod 16) * 4 + c div 64 < (64 :: nat)"
  "(b mod 16) * 4 < (64 :: nat)"
proof -
  have *: "a mod 4 < 4" "b mod 16 < 16" by simp_all
  show "a < 256 \<Longrightarrow> a div 4 < 64" "(a mod 4) * 16 < 64" "(b mod 16) * 4 < 64" using * by simp_all
  show "(a mod 4) * 16 + b div 16 < 64" if "b < 256"
  proof -
    have "b div 16 < 16" using that by simp
    then show ?thesis using *(1) by linarith
  qed
  show "(b mod 16) * 4 + c div 64 < 64" if "c < 256"
  proof -
    have "c div 64 < 4" using that by simp
    then show ?thesis using *(2) by linarith
  qed
qed

lemma sextets_bound: "\<forall>b \<in> set bs. b < 256 \<Longrightarrow> \<forall>v \<in> set (sextets bs). v < 64"
  by (induction bs rule: sextets.induct) (simp_all add: group_bounds)

lemma length_sextets:
  "length (sextets bs) = 4 * (length bs div 3) + length bs mod 3 + (if length bs mod 3 \<noteq> 0 then 1 else 0)"
proof (induction bs rule: sextets.induct)
  case (4 a b c bs)
  have e: "length (a # b # c # bs) = length bs + 3" by simp
  have "length (sextets (a # b # c # bs)) = length (sextets bs) + 4" by simp
  then show ?case unfolding e 4 by (simp add: div_add_self2)
qed simp_all

subsection \<open>Folding\<close>

text \<open>\<open>k\<close> characters are left on the line, 0 for no folding.\<close>

fun wrap :: "nat \<Rightarrow> nat \<Rightarrow> string \<Rightarrow> string" where
  "wrap w k [] = []"
| "wrap w k (c # cs) = (if k = 1 then [c, CHR 0x0A] @ wrap w w cs else c # wrap w (k - 1) cs)"

fun wrap_left :: "nat \<Rightarrow> nat \<Rightarrow> string \<Rightarrow> nat" where
  "wrap_left w k [] = k"
| "wrap_left w k (c # cs) = wrap_left w (if k = 1 then w else k - 1) cs"

fun put_all :: "int \<Rightarrow> string \<Rightarrow> mem \<times> nat \<times> int \<Rightarrow> (mem \<times> nat \<times> int) option" where
  "put_all width [] st = Some st"
| "put_all width (c # cs) st = do { st \<leftarrow> put_folded width c st; put_all width cs st }"

lemma wrap_append: "wrap w k (xs @ ys) = wrap w k xs @ wrap w (wrap_left w k xs) ys"
  by (induction xs arbitrary: k) auto

lemma wrap_0 [simp]: "wrap w 0 s = s"
  by (induction s) auto

lemma wrap_short: "length s < k \<Longrightarrow> wrap w k s = s"
  by (induction s arbitrary: k) auto

lemma wrap_line: "0 < k \<Longrightarrow> length s = k \<Longrightarrow> wrap w k (s @ t) = s @ CHR 0x0A # wrap w w t"
proof (induction s arbitrary: k)
  case (Cons c s)
  then show ?case by (cases s) auto
qed simp

lemma wrap_fold_lines: "wrap w w s = fold_lines w s"
proof (induction w s rule: fold_lines.induct)
  case (1 w s)
  show ?case
  proof (cases "w = 0 \<or> length s < w")
    case True
    then show ?thesis by (subst fold_lines.simps) (auto simp: wrap_short)
  next
    case False
    have "wrap w w (take w s @ drop w s) = take w s @ CHR 0x0A # wrap w w (drop w s)"
      using False by (intro wrap_line) auto
    then show ?thesis using False 1 by (subst fold_lines.simps) simp
  qed
qed

lemma length_fold_lines: "length (fold_lines w s) = length s + (if w = 0 then 0 else length s div w)"
proof (induction w s rule: fold_lines.induct)
  case (1 w s)
  show ?case
  proof (cases "w = 0 \<or> length s < w")
    case True
    then show ?thesis by (subst fold_lines.simps) auto
  next
    case False
    then show ?thesis using 1 le_div_geq [of w "length s"]
      by (subst fold_lines.simps) auto
  qed
qed

lemma filter_fold_lines:
  "CHR 0x0A \<notin> set s \<Longrightarrow> [c \<leftarrow> fold_lines w s. c \<noteq> CHR 0x0A] = s"
proof (induction w s rule: fold_lines.induct)
  case (1 w s)
  have id: "[c \<leftarrow> s. c \<noteq> CHR 0x0A] = s" "[c \<leftarrow> take w s. c \<noteq> CHR 0x0A] = take w s"
    using 1(2) by (auto simp: filter_id_conv dest: in_set_takeD)
  have "CHR 0x0A \<notin> set (drop w s)" using 1(2) by (auto dest: in_set_dropD)
  then show ?case using 1(1) id by (subst fold_lines.simps) auto
qed

lemma put_folded_eq:
  assumes "out + length (wrap w k [c]) \<le> length result"
  shows "put_folded (int w) c (result, out, int k) =
    Some (overwrite result out (wrap w k [c]), out + length (wrap w k [c]), int (wrap_left w k [c]))"
proof (cases "k = 1")
  case True
  then show ?thesis using assms overwrite_append [of out "[c]" "[CHR 0x0A]" result]
    by (simp add: put_folded_def store_overwrite)
next
  case False
  then show ?thesis using assms
    by (cases k) (auto simp: put_folded_def store_overwrite)
qed

lemma put_all_eq:
  assumes "out + length (wrap w k s) \<le> length result"
  shows "put_all (int w) s (result, out, int k) =
    Some (overwrite result out (wrap w k s), out + length (wrap w k s), int (wrap_left w k s))"
  using assms
proof (induction s arbitrary: result out k)
  case (Cons c s)
  have ws: "wrap w k (c # s) = wrap w k [c] @ wrap w (wrap_left w k [c]) s"
    using wrap_append [of w k "[c]" s] by simp
  then have room: "out + length (wrap w k [c]) \<le> length result"
    "out + length (wrap w k [c]) + length (wrap w (wrap_left w k [c]) s) \<le> length result"
    using Cons.prems by simp_all
  show ?case
    using Cons.IH [of "out + length (wrap w k [c])" "wrap_left w k [c]" "overwrite result out (wrap w k [c])"]
      put_folded_eq [OF room(1)] room overwrite_append [of out "wrap w k [c]" "wrap w (wrap_left w k [c]) s" result]
    by (simp only: put_all.simps ws) (simp add: add.assoc)
qed simp

lemma put_all_append: "put_all w (xs @ ys) st = do { st \<leftarrow> put_all w xs st; put_all w ys st }"
proof (induction xs arbitrary: st)
  case (Cons c xs)
  show ?case by (simp add: Cons.IH cong: Option.bind_cong)
qed simp

subsection \<open>The encoder writes the code\<close>

lemma next_sextet_eqs:
  "iout mod 4 = 0 \<Longrightarrow> i < length data \<Longrightarrow> next_sextet data n iout i u =
    Some (word_of_nat (uchar (data ! i) div 4), i + 1, u16_byte (data ! i))"
  "iout mod 4 = 1 \<Longrightarrow> i < n \<Longrightarrow> n \<le> length data \<Longrightarrow> next_sextet data n iout i (u16_byte a) =
    Some (word_of_nat ((uchar a mod 4) * 16 + uchar (data ! i) div 16), i + 1,
      push_bit 8 (u16_byte a) OR u16_byte (data ! i))"
  "iout mod 4 = 1 \<Longrightarrow> \<not> i < n \<Longrightarrow> next_sextet data n iout i (u16_byte a) =
    Some (word_of_nat ((uchar a mod 4) * 16), i, push_bit 8 (u16_byte a))"
  "iout mod 4 = 2 \<Longrightarrow> i < n \<Longrightarrow> n \<le> length data \<Longrightarrow>
    next_sextet data n iout i (push_bit 8 (u16_byte a) OR u16_byte b) =
    Some (word_of_nat ((uchar b mod 16) * 4 + uchar (data ! i) div 64), i + 1,
      push_bit 8 (push_bit 8 (u16_byte a) OR u16_byte b) OR u16_byte (data ! i))"
  "iout mod 4 = 2 \<Longrightarrow> \<not> i < n \<Longrightarrow> next_sextet data n iout i (push_bit 8 (u16_byte a) OR u16_byte b) =
    Some (word_of_nat ((uchar b mod 16) * 4), i, push_bit 8 (push_bit 8 (u16_byte a) OR u16_byte b))"
  "iout mod 4 = 3 \<Longrightarrow> next_sextet data n iout i (push_bit 8 w OR u16_byte c) =
    Some (word_of_nat (uchar c mod 64), i, push_bit 8 w OR u16_byte c)"
  using sextet_words(1) [of "data ! i"] sextet_words(2) [of a "data ! i"] sextet_words(3) [of a]
    sextet_words(4) [of a b "data ! i"] sextet_words(5) [of a b] sextet_words(6) [of w c]
  by (simp_all add: next_sextet_def Let_def)

lemma encode_step:
  assumes "next_sextet data n iout i u = Some (word_of_nat v, i', u')" and "v < 64"
    and "\<And>st. encode_loop data n width url nout (iout + 1) i' u' st = put_all width cs st"
    and "iout < nout"
  shows "encode_loop data n width url nout iout i u st = put_all width (alphabet url ! v # cs) st"
  using assms by (subst encode_loop.simps) (simp add: base64_char_alphabet cong: Option.bind_cong)

lemma encode_stop: "nout \<le> iout \<Longrightarrow> encode_loop data n width url nout iout i u st = put_all width [] st"
  by (subst encode_loop.simps) simp

lemma mod4_Suc:
  "n mod 4 = 0 \<Longrightarrow> Suc n mod 4 = Suc 0" "n mod 4 = 0 \<Longrightarrow> Suc (Suc n) mod 4 = 2"
  "n mod 4 = 0 \<Longrightarrow> Suc (Suc (Suc n)) mod 4 = 3" "n mod 4 = 0 \<Longrightarrow> Suc (Suc (Suc (Suc n))) mod 4 = 0"
  "n mod 4 = 0 \<Longrightarrow> (3 + n) mod 4 = 3"
  by presburger+

lemma chunk_bytes:
  assumes "map uchar (chunk data i n) = bs" and "n \<le> length data" and "i \<le> n"
  shows "n = i + length bs" and "j < length bs \<Longrightarrow> uchar (data ! (i + j)) = bs ! j"
  using assms by (auto simp: chunk_def)

lemma encode_loop_eq:
  assumes "map uchar (chunk data i datalen) = bs" and "datalen \<le> length data" and "iout mod 4 = 0"
    and "nout = iout + length (sextets bs)" and "i \<le> datalen"
  shows "encode_loop data datalen width url nout iout i u16 st =
    put_all width (map (nth (alphabet url)) (sextets bs)) st"
  using assms
proof (induction bs arbitrary: i iout u16 st rule: sextets.induct)
  case 1
  then show ?case by (simp add: encode_loop.simps)
next
  case (2 a)
  note c = chunk_bytes [OF 2(1,2,5)]
  have i: "datalen = i + 1" "a = uchar (data ! i)" "i < length data"
    using c(1) c(2) [of 0] 2(2) by simp_all
  note m = mod4_Suc [OF 2(3)]
  show ?case unfolding i(2) sextets.simps list.map
    using 2(3,4) i uchar_bound
    by (intro encode_step [OF next_sextet_eqs(1)] encode_step [OF next_sextet_eqs(3)] encode_stop)
      (simp_all add: m group_bounds)
next
  case (3 a b)
  note c = chunk_bytes [OF 3(1,2,5)]
  have i: "datalen = i + 1 + 1" "a = uchar (data ! i)" "b = uchar (data ! (i + 1))" "i + 1 < length data"
    using c(1) c(2) [of 0] c(2) [of 1] 3(2) by simp_all
  note m = mod4_Suc [OF 3(3)]
  show ?case unfolding i(2,3) sextets.simps list.map
    using 3(2,3,4) i uchar_bound
    by (intro encode_step [OF next_sextet_eqs(1)] encode_step [OF next_sextet_eqs(2)]
        encode_step [OF next_sextet_eqs(5)] encode_stop)
      (simp_all add: m group_bounds)
next
  case (4 a b d bs)
  note c = chunk_bytes [OF 4(2,3,6)]
  have i: "a = uchar (data ! i)" "b = uchar (data ! (i + 1))" "d = uchar (data ! (i + 1 + 1))"
    "i + 1 + 1 < datalen" "i + 1 + 1 < length data"
    using c(1) c(2) [of 0] c(2) [of 1] c(2) [of 2] 4(3) by simp_all
  note m = mod4_Suc [OF 4(4)]
  have rest: "map uchar (chunk data (i + 1 + 1 + 1) datalen) = bs"
    using 4(2) c(1) 4(3) by (simp add: chunk_Cons)
  have ih: "encode_loop data datalen width url nout (iout + 1 + 1 + 1 + 1) (i + 1 + 1 + 1) u st =
      put_all width (map (nth (alphabet url)) (sextets bs)) st" for u st
    using i 4(5) m(4) by (intro 4(1) rest 4(3)) simp_all
  show ?case unfolding i(1,2,3) sextets.simps append_Cons append_Nil list.map
    using 4(3,4,5) i uchar_bound
    by (intro encode_step [OF next_sextet_eqs(1)] encode_step [OF next_sextet_eqs(2)]
        encode_step [OF next_sextet_eqs(4)] encode_step [OF next_sextet_eqs(6)] ih)
      (simp_all add: m group_bounds)
qed


lemma pad_loop_eq:
  assumes "out + length (wrap w k (replicate n (CHR ''=''))) = rlen" and "rlen \<le> length result"
  shows "pad_loop (int w) rlen (result, out, int k) = put_all (int w) (replicate n (CHR ''='')) (result, out, int k)"
  using assms
proof (induction n arbitrary: result out k)
  case 0
  then show ?case by (simp add: pad_loop.simps)
next
  case (Suc n)
  have ws: "wrap w k (replicate (Suc n) (CHR ''='')) =
      wrap w k ''='' @ wrap w (wrap_left w k ''='') (replicate n (CHR ''=''))"
    using wrap_append [of w k "''=''" "replicate n (CHR ''='')"] by simp
  have room: "out + length (wrap w k ''='') \<le> length result" "out < rlen"
    using Suc.prems unfolding ws by (auto split: if_splits)
  note step = put_folded_eq [OF room(1)]
  show ?case using Suc.IH [of "out + length (wrap w k ''='')" "wrap_left w k ''=''" "overwrite result out (wrap w k ''='')"]
      Suc.prems room step unfolding ws
    by (subst pad_loop.simps) (simp del: wrap.simps wrap_left.simps add: add.assoc)
qed

lemma neg_mod_4: "(- int n) mod 4 = int (padding n)"
proof -
  have e: "int n mod 4 = int (n mod 4)" by (rule zmod_int [of n 4, simplified, symmetric])
  have "n mod 4 = 0 \<or> n mod 4 = 1 \<or> n mod 4 = 2 \<or> n mod 4 = 3" by presburger
  then show ?thesis
    unfolding padding_def zmod_zminus1_eq_if e by (elim disjE) (simp_all only:, simp_all)
qed

lemma unat_neg_and_3: "unat ((NOT (word_of_nat n :: 64 word) + 1) AND 3) = padding n"
proof -
  have "- word_of_nat n = (word_of_int (- int n) :: 64 word)" by simp
  then have "uint (- word_of_nat n :: 64 word) = uint (word_of_int (- int n) :: 64 word)" by (rule arg_cong)
  then have u: "uint (- word_of_nat n :: 64 word) = take_bit 64 (- int n)"
    by (simp only: unsigned_of_int len_num0 len_bit0 len_num1) simp
  have "(3 :: 64 word) = mask 2" by (simp add: mask_eq_exp_minus_1)
  then have "unat ((NOT (word_of_nat n :: 64 word) + 1) AND 3) = unat (take_bit 2 (- word_of_nat n :: 64 word))"
    by (simp only: take_bit_eq_mask minus_eq_not_plus_1)
  also have "\<dots> = take_bit 2 (unat (- word_of_nat n :: 64 word))" by (rule unsigned_take_bit_eq)
  also have "int \<dots> = take_bit 2 (take_bit 64 (- int n))"
    by (simp only: of_nat_take_bit uint_nat [symmetric] u)
  also have "\<dots> = int (padding n)"
    by (simp only: take_bit_take_bit neg_mod_4 [symmetric]) (simp add: take_bit_eq_mod)
  finally show ?thesis by (simp only: of_nat_eq_iff)
qed

lemma base64_length_eq:
  assumes "w < 2 ^ 32"
  shows "base64_length nout (int w) pad =
    (let n = nout + (if pad then padding nout else 0) in n + (if w = 0 then 0 else n div w))"
  using assms by (simp only: base64_length_def unat_neg_and_3 Let_def) (simp add: nat_mod_distrib)

lemma length_base64_text:
  "length (base64_text url pad s) =
    (let n = length (sextets (map uchar s)) in n + (if pad then padding n else 0))"
  by (simp add: base64_text_def Let_def)

lemma rp_base64_encode_eq:
  assumes "allocates malloc" and "n \<le> length data" and "w < 2 ^ 31"
  shows "rp_base64_encode malloc data n (int w) pad url =
    (let t = fold_lines w (base64_text url pad (take n data))
     in Some (case malloc (length t + 1) of
          None \<Rightarrow> Inl rp_base64_nomem | Some _ \<Rightarrow> Inr (cstr t, length t)))"
proof -
  let ?bs = "map uchar (take n data)"
  let ?nout = "length (sextets ?bs)"
  let ?code = "map (nth (alphabet url)) (sextets ?bs)"
  let ?pad = "replicate (if pad then padding ?nout else 0) (CHR ''='')"
  let ?t = "fold_lines w (base64_text url pad (take n data))"
  have tx: "base64_text url pad (take n data) = ?code @ ?pad"
    by (simp add: base64_text_def Let_def)
  have nout: "4 * (n div 3) + n mod 3 + (if n mod 3 \<noteq> 0 then 1 else 0) = ?nout"
    using length_sextets [of ?bs] assms(2) by (simp add: min_def)
  have len: "base64_length ?nout (int w) pad = length ?t"
    using assms(3) by (subst base64_length_eq) (simp_all add: length_fold_lines length_base64_text Let_def)
  show ?thesis
  proof (cases "malloc (length ?t + 1)")
    case None
    then show ?thesis by (simp only: rp_base64_encode_def Let_def nout len) simp
  next
    case (Some result)
    then have r: "length result = length ?t + 1" by (rule allocatesD [OF assms(1)])
    have t: "?t = wrap w w ?code @ wrap w (wrap_left w w ?code) ?pad"
      unfolding tx wrap_fold_lines [symmetric] by (rule wrap_append)
    have enc: "encode_loop data n (int w) url ?nout 0 0 0 (result, 0, int w) =
        Some (overwrite result 0 (wrap w w ?code), length (wrap w w ?code), int (wrap_left w w ?code))"
      using encode_loop_eq [of data 0 n ?bs 0 ?nout "int w" url 0 "(result, 0, int w)"]
        put_all_eq [of 0 w w ?code result] assms(2) r t by simp
    let ?res = "overwrite result 0 (wrap w w ?code)"
    have r1: "length ?res = length ?t + 1" using r t by simp
    have pad: "pad_loop (int w) (length ?t) (?res, length (wrap w w ?code), int (wrap_left w w ?code)) =
        Some (overwrite result 0 ?t, length ?t, int (wrap_left w (wrap_left w w ?code) ?pad))"
      using pad_loop_eq [of "length (wrap w w ?code)" w "wrap_left w w ?code" _ "length ?t" ?res]
        put_all_eq [of "length (wrap w w ?code)" w "wrap_left w w ?code" ?pad ?res]
        overwrite_append [of 0 "wrap w w ?code" "wrap w (wrap_left w w ?code) ?pad" result] r r1 t
      by simp
    have "store (overwrite result 0 ?t) (length ?t) NUL = Some (cstr ?t)"
      using overwrite_append [of 0 ?t "[NUL]" result] r
      by (simp add: store_overwrite cstr_def overwrite_all)
    then show ?thesis using Some enc pad
      by (simp only: rp_base64_encode_def Let_def nout len) simp
  qed
qed

subsection \<open>What a code stands for\<close>

definition digit :: "int \<Rightarrow> char \<Rightarrow> nat option" where
  "digit url c = List.find (\<lambda>v. url \<le> 0 \<and> alphabet False ! v = c \<or> url \<ge> 0 \<and> alphabet True ! v = c) [0..<64]"

definition clean :: "string \<Rightarrow> string" where
  "clean s = [c \<leftarrow> s. c \<noteq> CHR 0x0A \<and> c \<noteq> CHR 0x0D]"

definition padding_only :: "string \<Rightarrow> bool" where
  "padding_only s \<longleftrightarrow> (\<forall>c \<in> set s. c = CHR ''='' \<or> c = CHR 0x0A \<or> c = CHR 0x0D)"

definition base64_bytes :: "int \<Rightarrow> string \<Rightarrow> string option" where
  "base64_bytes url s =
     (if padding_only (dropWhile (\<lambda>c. c \<noteq> CHR ''='') s)
      then map_option (\<lambda>vs. map char_of (octets vs))
        (those (map (digit url) (clean (takeWhile (\<lambda>c. c \<noteq> CHR ''='') s))))
      else None)"

lemma uchar_alphabet_char:
  assumes "v < 64"
  shows "uchar (alphabet_char url v) =
    (if v < 26 then v + 65 else if v < 52 then v + 71 else if v < 62 then v - 4
     else if v = 62 then (if url then 45 else 43) else if url then 95 else 47)"
  using assms by (auto simp: alphabet_char_def)

lemma base64_value_complete:
  assumes "v < 64" and "url \<le> 0 \<and> alphabet_char False v = c \<or> url \<ge> 0 \<and> alphabet_char True v = c"
  shows "base64_value url c = Some (word_of_nat v)"
proof -
  obtain b where b: "uchar c = uchar (alphabet_char b v)" "b \<longrightarrow> url \<ge> 0" "\<not> b \<longrightarrow> url \<le> 0"
    using assms(2) by fastforce
  have "v = 62 \<or> v = 63 \<or> v < 62" using assms(1) by linarith
  then show ?thesis
    using b(2,3) b(1) [unfolded uchar_alphabet_char [OF assms(1)]] assms(1)
    by (elim disjE) (auto simp: base64_value_def cchar split: if_splits)
qed

lemma base64_value_sound:
  assumes "base64_value url c = Some w"
  shows "unat w < 64 \<and> (url \<le> 0 \<and> alphabet_char False (unat w) = c \<or> url \<ge> 0 \<and> alphabet_char True (unat w) = c)"
proof -
  have u: "unat (word_of_int (int k) :: 8 word) = k" if "k < 64" for k
    using that by (simp add: unat_of_nat take_bit_nat_eq_self)
  have pos: "schar c = int (uchar c)" if "0 \<le> schar c"
    using that uchar_bound [of c] by (auto simp: schar_def split: if_splits)
  have letters: "schar (CHR ''A'') = 65" "schar (CHR ''Z'') = 90" "schar (CHR ''a'') = 97"
    "schar (CHR ''z'') = 122" "schar (CHR ''0'') = 48" "schar (CHR ''9'') = 57"
    by (simp_all add: schar_def)
  have digit: ?thesis if "k < 62" "w = word_of_int (int k)"
    "uchar c = (if k < 26 then k + 65 else if k < 52 then k + 71 else k - 4)" for k
  proof -
    have "uchar (alphabet_char b k) = uchar c" for b
      using that(1,3) by (simp add: uchar_alphabet_char)
    then have "alphabet_char b k = c" for b by (simp only: char_eq_uchar)
    moreover have "unat w = k" using that u by simp
    ultimately show ?thesis using that(1) by auto
  qed
  note def = assms [unfolded base64_value_def letters]
  show ?thesis
  proof (cases "65 \<le> schar c \<and> schar c \<le> 90 \<or> 97 \<le> schar c \<and> schar c \<le> 122 \<or> 48 \<le> schar c \<and> schar c \<le> 57")
    case True
    then show ?thesis
    proof (elim disjE)
      assume r: "65 \<le> schar c \<and> schar c \<le> 90"
      then have "schar c = int (uchar c)" by (intro pos) simp
      with r def show ?thesis by (intro digit [of "uchar c - 65"]) (auto simp: of_nat_diff)
    next
      assume r: "97 \<le> schar c \<and> schar c \<le> 122"
      then have "schar c = int (uchar c)" by (intro pos) simp
      with r def show ?thesis by (intro digit [of "uchar c - 71"]) (auto simp: of_nat_diff)
    next
      assume r: "48 \<le> schar c \<and> schar c \<le> 57"
      then have "schar c = int (uchar c)" by (intro pos) simp
      with r def show ?thesis by (intro digit [of "uchar c + 4"]) (auto simp: of_nat_diff add_ac)
    qed
  next
    case False
    with def show ?thesis by (auto simp: alphabet_char_def split: if_splits)
  qed
qed

lemma digit_eq: "map_option word_of_nat (digit url c) = base64_value url c \<and> (\<forall>v. digit url c = Some v \<longrightarrow> v < 64)"
proof (cases "digit url c")
  case None
  have "\<not> (url \<le> 0 \<and> alphabet_char False v = c \<or> url \<ge> 0 \<and> alphabet_char True v = c)" if "v < 64" for v
    using None that by (auto simp: digit_def find_None_iff alphabet_nth)
  then have "base64_value url c = None" using base64_value_sound by (metis not_None_eq)
  then show ?thesis using None by simp
next
  case (Some v)
  have v: "v < 64" "url \<le> 0 \<and> alphabet_char False v = c \<or> url \<ge> 0 \<and> alphabet_char True v = c"
    using Some by (auto simp: digit_def find_Some_iff alphabet_nth)
  then show ?thesis using base64_value_complete Some by auto
qed

subsection \<open>The decoder reads it\<close>

text \<open>The bytes that the register gives from its state for the values still to come.\<close>

fun register_bytes :: "nat \<Rightarrow> 16 word \<Rightarrow> nat list \<Rightarrow> nat list" where
  "register_bytes iin u16 [] = []"
| "register_bytes iin u16 (v # vs) =
     (if iin = 0 then register_bytes 6 (word_of_nat v) vs
      else let u16 = push_bit 6 u16 OR word_of_nat v
           in unat (ucast (drop_bit (iin - 2) u16) :: 8 word) # register_bytes (iin - 2) u16 vs)"

lemma decoder_registers:
  fixes a b c d :: nat
  assumes "a < 64" and "b < 64" and "c < 64" and "d < 64" and "unat u = a"
  defines "u1 \<equiv> push_bit 6 u OR word_of_nat b :: 16 word"
  defines "u2 \<equiv> push_bit 6 u1 OR word_of_nat c :: 16 word"
  defines "u3 \<equiv> push_bit 6 u2 OR word_of_nat d :: 16 word"
  shows "unat (ucast (drop_bit 4 u1) :: 8 word) = a * 4 + b div 16"
    and "unat (ucast (drop_bit 2 u2) :: 8 word) = (b mod 16) * 16 + c div 4"
    and "unat (ucast (drop_bit 0 u3) :: 8 word) = (c mod 4) * 64 + d"
proof -
  have w: "unat (word_of_nat x :: 16 word) = x" if "x < 64" for x
    using that by (simp add: unat_of_nat take_bit_nat_eq_self)
  have p: "unat (push_bit 6 x OR word_of_nat y :: 16 word) = unat x * 64 mod 65536 + y" if "y < 64" for x y
    using push_or [of "word_of_nat y" 6 x] w [OF that] that by simp
  have u1: "unat u1 = a * 64 + b" using p [OF assms(2), of u] assms(1,5) by (simp add: u1_def)
  have u2: "unat u2 = (a * 64 + b) * 64 mod 65536 + c" using p [OF assms(3), of u1] u1 by (simp add: u2_def)
  have u3: "unat u3 = unat u2 * 64 mod 65536 + d" using p [OF assms(4), of u2] by (simp add: u3_def)
  have sh: "x * 64 mod 65536 = (x mod 1024) * 64" for x :: nat
    using field_mod [of 0 64 x 1024] by simp
  show "unat (ucast (drop_bit 4 u1) :: 8 word) = a * 4 + b div 16"
  proof -
    have "(a * 64 + b) div 16 = a * 4 + b div 16" using field_div [of 16 a 4 b] by simp
    moreover have "a * 4 + b div 16 < 256" using assms(1,2) by auto
    ultimately show ?thesis by (simp only: unat_low_byte unat_drop u1) simp
  qed
  show "unat (ucast (drop_bit 2 u2) :: 8 word) = (b mod 16) * 16 + c div 4"
  proof -
    let ?y = "(a * 64 + b) mod 1024"
    have "?y mod 16 = (a * 64 + b) mod 16" by (rule mod_mod_cancel) simp
    also have "\<dots> = b mod 16" using mod_mult_self3 [of "a * 4" 16 b] by (simp add: mult.commute)
    finally have y: "?y mod 16 = b mod 16" .
    have "unat u2 div 4 mod 256 = (?y * 16 + c div 4) mod (16 * 16)"
      unfolding u2 sh using field_div [of 4 ?y 16 c] by simp
    also have "\<dots> = (?y mod 16) * 16 + c div 4" using assms(3) by (intro field_mod) simp
    finally show ?thesis unfolding y by (simp add: unat_low_byte unat_drop)
  qed
  show "unat (ucast (drop_bit 0 u3) :: 8 word) = (c mod 4) * 64 + d"
  proof -
    let ?y = "unat u2 mod 1024"
    have "?y mod 4 = unat u2 mod 4" by (rule mod_mod_cancel) simp
    also have "\<dots> = c mod 4"
      unfolding u2 sh using mod_mult_self3 [of "((a * 64 + b) mod 1024) * 16" 4 c] by (simp add: mult.commute)
    finally have y: "?y mod 4 = c mod 4" .
    have "unat u3 mod 256 = (?y * 64 + d) mod (64 * 4)" unfolding u3 sh by simp
    also have "\<dots> = (?y mod 4) * 64 + d" using assms(4) by (intro field_mod) simp
    finally show ?thesis unfolding y by (simp add: unat_low_byte unat_drop)
  qed
qed

lemma register_bytes_octets:
  "\<forall>v \<in> set vs. v < 64 \<Longrightarrow> register_bytes 0 u vs = octets vs"
proof (induction vs arbitrary: u rule: octets.induct)
  case (1 a b c d vs)
  have "unat (word_of_nat a :: 16 word) = a" using 1(2) by (simp add: unat_of_nat take_bit_nat_eq_self)
  then show ?case using decoder_registers [of a b c d "word_of_nat a"] 1
    by (simp add: Let_def)
next
  case (2 a b c)
  have "unat (word_of_nat a :: 16 word) = a" using 2 by (simp add: unat_of_nat take_bit_nat_eq_self)
  then show ?case using decoder_registers [of a b c 0 "word_of_nat a"] 2
    by (simp add: Let_def)
next
  case (3 a b)
  have "unat (word_of_nat a :: 16 word) = a" using 3 by (simp add: unat_of_nat take_bit_nat_eq_self)
  then show ?case using decoder_registers [of a b 0 0 "word_of_nat a"] 3
    by (simp add: Let_def)
qed simp_all

lemma length_register_bytes: "length (register_bytes iin u vs) \<le> length vs"
  by (induction iin u vs rule: register_bytes.induct) (auto simp: Let_def)

lemma those_length: "those xs = Some ys \<Longrightarrow> length ys = length xs"
  by (induction xs arbitrary: ys) (auto split: option.splits)

lemma those_digits: "those (map (digit url) cs) = Some vs \<Longrightarrow> \<forall>v \<in> set vs. v < 64"
  using digit_eq by (induction cs arbitrary: vs) (auto split: option.splits)

lemma length_clean: "length (clean s) \<le> length s"
  by (simp add: clean_def)

lemma decode_loop_eq:
  assumes "chunk data i n = s" and "n \<le> length data" and "out + length s \<le> length result" and "i \<le> n"
  defines "body \<equiv> takeWhile (\<lambda>c. c \<noteq> CHR ''='') s"
  shows "decode_loop data n url i u16 iin result out =
    Some (case those (map (digit url) (clean body)) of
        None \<Rightarrow> Inl rp_base64_invalid
      | Some vs \<Rightarrow> let bs = map char_of (register_bytes iin u16 vs)
          in Inr (i + length body, overwrite result out bs, out + length bs))"
  using assms(1-4) unfolding body_def
proof (induction s arbitrary: i u16 iin result out)
  case Nil
  then have "i = n" by (auto simp: chunk_def)
  then show ?case by (subst decode_loop.simps) (simp add: clean_def)
next
  case (Cons c s)
  then have i: "i < n" by (cases "i < n") auto
  have c: "data ! i = c" "chunk data (Suc i) n = s" "i < length data"
    using Cons.prems(1,2) i chunk_Cons [OF i Cons.prems(2)] by auto
  note ih = Cons.IH [OF c(2) Cons.prems(2)]
  show ?case
  proof (cases "c = CHR ''=''")
    case True
    then show ?thesis using i c by (subst decode_loop.simps) (simp add: clean_def)
  next
    case False
    let ?b = "takeWhile (\<lambda>c. c \<noteq> CHR ''='') s"
    have b: "takeWhile (\<lambda>c. c \<noteq> CHR ''='') (c # s) = c # ?b" using False by simp
    show ?thesis
    proof (cases "c = CHR 0x0A \<or> c = CHR 0x0D")
      case True
      then have "clean (c # ?b) = clean ?b" by (auto simp: clean_def)
      then show ?thesis unfolding b using i c False True ih [of out result u16 iin] Cons.prems(3)
        by (subst decode_loop.simps) (auto split: option.splits)
    next
      case plain: False
      then have cl: "clean (c # ?b) = c # clean ?b" by (auto simp: clean_def)
      show ?thesis
      proof (cases "digit url c")
        case None
        then have "base64_value url c = None" using digit_eq [of url c] by simp
        then show ?thesis unfolding b cl using i c False plain None by (subst decode_loop.simps) simp
      next
        case (Some v)
        then have v: "base64_value url c = Some (word_of_nat v)" "v < 64" using digit_eq [of url c] by auto
        then have u: "ucast (word_of_nat v :: 8 word) = (word_of_nat v :: 16 word)"
          by (simp add: word_unat_eq_iff unat_of_nat take_bit_nat_eq_self unsigned_ucast_eq)
        show ?thesis
        proof (cases "iin = 0")
          case True
          then show ?thesis unfolding b cl using i c False plain Some v u Cons.prems(3)
              ih [of out result "word_of_nat v" 6]
            by (subst decode_loop.simps) (auto split: option.splits)
        next
          case nz: False
          let ?u = "push_bit 6 u16 OR word_of_nat v :: 16 word"
          let ?x = "char_of (unat (ucast (drop_bit (iin - 2) ?u) :: 8 word))"
          have join: "overwrite (overwrite result out [?x]) (Suc out) bs = overwrite result out (?x # bs)"
            if "Suc (out + length bs) \<le> length result" for bs
            using overwrite_append [of out "[?x]" bs result] that by simp
          have step: "decode_loop data n url i u16 iin result out =
              decode_loop data n url (Suc i) ?u (iin - 2) (overwrite result out [?x]) (Suc out)"
            using i c False plain v u nz Cons.prems(3)
            by (subst decode_loop.simps) (simp add: store_overwrite Let_def)
          have ih': "decode_loop data n url (Suc i) ?u (iin - 2) (overwrite result out [?x]) (Suc out) =
              Some (case those (map (digit url) (clean ?b)) of
                  None \<Rightarrow> Inl rp_base64_invalid
                | Some vs \<Rightarrow> let bs = map char_of (register_bytes (iin - 2) ?u vs)
                    in Inr (Suc i + length ?b, overwrite (overwrite result out [?x]) (Suc out) bs,
                         Suc out + length bs))"
            using i Cons.prems(3) by (intro ih) simp_all
          show ?thesis
          proof (cases "those (map (digit url) (clean ?b))")
            case None
            then show ?thesis unfolding b cl step ih' using Some by simp
          next
            case (Some vs)
            then have "length vs \<le> length s"
              using those_length [OF Some] length_clean [of ?b] length_takeWhile_le [of "\<lambda>c. c \<noteq> CHR ''=''" s]
              by simp
            then have "length (register_bytes (iin - 2) ?u vs) \<le> length s"
              using length_register_bytes [of "iin - 2" ?u vs] by simp
            then have "overwrite (overwrite result out [?x]) (Suc out) (map char_of (register_bytes (iin - 2) ?u vs)) =
                overwrite result out (?x # map char_of (register_bytes (iin - 2) ?u vs))"
              using Cons.prems(3) by (intro join) simp
            then show ?thesis unfolding b cl step ih' using Some \<open>digit url c = Some v\<close> nz
              by (simp add: Let_def)
          qed
        qed
      qed
    qed
  qed
qed

lemma decode_tail_eq: "n \<le> length data \<Longrightarrow> decode_tail data n i = Some (padding_only (chunk data i n))"
proof (induction "n - i" arbitrary: i)
  case 0
  then show ?case by (subst decode_tail.simps) (simp add: padding_only_def)
next
  case (Suc k)
  then have "i < n" by simp
  then show ?case using Suc chunk_Cons [of i n data]
    by (subst decode_tail.simps) (auto simp: padding_only_def)
qed

lemma drop_takeWhile: "drop (length (takeWhile P xs)) xs = dropWhile P xs"
  by (metis append_eq_conv_conj takeWhile_dropWhile_id)

lemma rp_base64_decode_eq:
  assumes "allocates malloc" and "reallocates realloc" and "n \<le> length data"
  shows "rp_base64_decode malloc realloc data n url =
    Some (case malloc (n + 1) of
        None \<Rightarrow> Inl rp_base64_nomem
      | Some block \<Rightarrow>
          (case base64_bytes url (take n data) of
             None \<Rightarrow> Inl rp_base64_invalid
           | Some bs \<Rightarrow>
               (case realloc (overwrite block 0 bs) (length bs + 1) of
                  None \<Rightarrow> Inl rp_base64_nomem
                | Some _ \<Rightarrow> Inr (bs @ [NUL], length bs))))"
proof (cases "malloc (n + 1)")
  case None
  then show ?thesis by (simp add: rp_base64_decode_def)
next
  case (Some block)
  then have r: "length block = n + 1" by (rule allocatesD [OF assms(1)])
  let ?s = "take n data"
  let ?body = "takeWhile (\<lambda>c. c \<noteq> CHR ''='') ?s"
  note loop = decode_loop_eq [of data 0 n ?s 0 block url 0 0]
  have tail: "decode_tail data n (length ?body) = Some (padding_only (dropWhile (\<lambda>c. c \<noteq> CHR ''='') ?s))"
    using decode_tail_eq [OF assms(3), of "length ?body"]
    by (simp add: chunk_def drop_take [symmetric] drop_takeWhile)
  show ?thesis
  proof (cases "those (map (digit url) (clean ?body))")
    case None
    then show ?thesis using loop r assms(3) \<open>malloc (n + 1) = Some block\<close>
      by (simp add: rp_base64_decode_def base64_bytes_def)
  next
    case (Some vs)
    have oct: "register_bytes 0 0 vs = octets vs"
      by (rule register_bytes_octets [OF those_digits [OF Some]])
    have len: "length (octets vs) \<le> n"
      using length_register_bytes [of 0 0 vs] those_length [OF Some] length_clean [of ?body]
        length_takeWhile_le [of "\<lambda>c. c \<noteq> CHR ''=''" ?s] unfolding oct by simp
    let ?bs = "map char_of (octets vs) :: string"
    show ?thesis
    proof (cases "realloc (overwrite block 0 ?bs) (length ?bs + 1)")
      case None
      then show ?thesis using loop r assms(3) \<open>malloc (n + 1) = Some block\<close> Some tail
        by (simp add: rp_base64_decode_def base64_bytes_def oct Let_def)
    next
      case (Some b)
      have b: "length b = length ?bs + 1"
        "take (min (length ?bs + 1) (n + 1)) b = take (length ?bs + 1) (overwrite block 0 ?bs)"
        using reallocatesD [OF assms(2) Some] r len by simp_all
      then have "take (length ?bs) b = ?bs"
        using len arg_cong [OF b(2), of "take (length ?bs)"] by (simp add: overwrite_def min_def)
      then have "store b (length ?bs) NUL = Some (?bs @ [NUL])"
        using b(1) by (simp add: store_def upd_conv_take_nth_drop)
      then show ?thesis using loop r assms(3) \<open>malloc (n + 1) = Some block\<close> Some tail \<open>those _ = Some vs\<close>
        by (simp add: rp_base64_decode_def base64_bytes_def oct Let_def)
    qed
  qed
qed

subsection \<open>Round trip\<close>

lemma group_round:
  fixes a b c :: nat
  shows "a div 4 * 4 + ((a mod 4) * 16 + b div 16) div 16 = a + b div 256"
    and "((a mod 4) * 16 + b div 16) mod 16 * 16 + ((b mod 16) * 4 + c div 64) div 4 =
      b mod 256 + c div 256"
    and "((b mod 16) * 4 + c div 64) mod 4 * 64 + c mod 64 = c mod 256"
proof -
  have d: "x div 256 = x div 16 div 16" "x div 256 = x div 64 div 4" for x :: nat
    by (simp_all add: div_mult2_eq [symmetric])
  have m: "x mod 256 = x div 16 mod 16 * 16 + x mod 16" "x mod 256 = x div 64 mod 4 * 64 + x mod 64" for x :: nat
    using mod_mult2_eq [of x 16 16] mod_mult2_eq [of x 64 4] by simp_all
  have "((a mod 4) * 16 + b div 16) div 16 = a mod 4 + b div 256"
    unfolding d(1) by simp
  then show "a div 4 * 4 + ((a mod 4) * 16 + b div 16) div 16 = a + b div 256"
    using div_mult_mod_eq [of a 4] by linarith
  show "((a mod 4) * 16 + b div 16) mod 16 * 16 + ((b mod 16) * 4 + c div 64) div 4 = b mod 256 + c div 256"
    unfolding m(1) d(2) by simp
  show "((b mod 16) * 4 + c div 64) mod 4 * 64 + c mod 64 = c mod 256"
    unfolding m(2) by simp
qed

lemma octets_sextets: "\<forall>b \<in> set bs. b < 256 \<Longrightarrow> octets (sextets bs) = bs"
proof (induction bs rule: sextets.induct)
  case (2 a)
  then show ?case using group_round(1) [of a 0] by simp
next
  case (3 a b)
  then show ?case using group_round(1) [of a b] group_round(2) [of a b 0] by simp
next
  case (4 a b c bs)
  then show ?case using group_round(1) [of a b] group_round(2) [of a b c] group_round(3) [of b c] by simp
qed simp

lemma digit_alphabet:
  assumes "v < 64" and "url \<longrightarrow> 0 \<le> u" and "\<not> url \<longrightarrow> u \<le> 0"
  shows "digit u (alphabet url ! v) = Some v"
proof -
  have "base64_value u (alphabet url ! v) = Some (word_of_nat v)"
    using assms by (intro base64_value_complete) (cases url; simp add: alphabet_nth)+
  then obtain v' where v': "digit u (alphabet url ! v) = Some v'" "v' < 64"
      "(word_of_nat v' :: 8 word) = word_of_nat v"
    using digit_eq [of u "alphabet url ! v"] by (cases "digit u (alphabet url ! v)") auto
  then have "unat (word_of_nat v' :: 8 word) = unat (word_of_nat v :: 8 word)" by simp
  then show ?thesis using v'(1,2) assms(1) by (simp add: unat_of_nat take_bit_nat_eq_self)
qed

lemma those_alphabet:
  assumes "url \<longrightarrow> 0 \<le> u" and "\<not> url \<longrightarrow> u \<le> 0"
  shows "\<forall>v \<in> set vs. v < 64 \<Longrightarrow> those (map (digit u) (map (nth (alphabet url)) vs)) = Some vs"
  using digit_alphabet [OF _ assms] by (induction vs) auto

lemma alphabet_plain:
  assumes "v < 64"
  shows "alphabet url ! v \<noteq> CHR ''=''" "alphabet url ! v \<noteq> CHR 0x0A" "alphabet url ! v \<noteq> CHR 0x0D"
  using uchar_alphabet_char [OF assms, of url] assms by (auto simp: alphabet_nth char_eq_uchar)

lemma wrap_set: "set (wrap w k s) \<subseteq> insert (CHR 0x0A) (set s)"
  by (induction s arbitrary: k) auto

lemma wrap_clean: "CHR 0x0A \<notin> set s \<Longrightarrow> CHR 0x0D \<notin> set s \<Longrightarrow> clean (wrap w k s) = s"
  by (induction s arbitrary: k) (auto simp: clean_def)

lemma base64_round:
  assumes "url \<longrightarrow> 0 \<le> u" and "\<not> url \<longrightarrow> u \<le> 0"
  shows "base64_bytes u (fold_lines w (base64_text url pad s)) = Some s"
proof -
  let ?vs = "sextets (map uchar s)"
  let ?code = "map (nth (alphabet url)) ?vs"
  obtain n where tx: "base64_text url pad s = ?code @ replicate n (CHR ''='')"
    by (cases pad) (auto simp: base64_text_def Let_def)
  have vs: "\<forall>v \<in> set ?vs. v < 64" by (rule sextets_bound) (use uchar_bound in auto)
  have plain: "\<forall>c \<in> set ?code. c \<noteq> CHR ''='' \<and> c \<noteq> CHR 0x0A \<and> c \<noteq> CHR 0x0D"
    using vs alphabet_plain by auto
  let ?x = "wrap w w ?code" and ?y = "wrap w (wrap_left w w ?code) (replicate n (CHR ''=''))"
  have t: "fold_lines w (base64_text url pad s) = ?x @ ?y"
    unfolding tx wrap_fold_lines [symmetric] by (rule wrap_append)
  have x: "\<forall>c \<in> set ?x. c \<noteq> CHR ''=''" 
  proof
    fix c
    assume "c \<in> set ?x"
    then have "c = CHR 0x0A \<or> c \<in> set ?code" using wrap_set [of w w ?code] by blast
    then show "c \<noteq> CHR ''=''" using plain by auto
  qed
  have y: "?y = [] \<or> hd ?y = CHR ''=''" by (cases n) auto
  have split: "takeWhile (\<lambda>c. c \<noteq> CHR ''='') (?x @ ?y) = ?x" "dropWhile (\<lambda>c. c \<noteq> CHR ''='') (?x @ ?y) = ?y"
    using x y by (cases ?y; simp add: takeWhile_append dropWhile_append)+
  have pad: "padding_only ?y"
    using wrap_set [of w "wrap_left w w ?code" "replicate n (CHR ''='')"]
    by (auto simp: padding_only_def split: if_splits)
  have "clean ?x = ?code" using plain by (intro wrap_clean) auto
  moreover have "those (map (digit u) ?code) = Some ?vs"
    using vs by (rule those_alphabet [OF assms])
  moreover have "map char_of (octets ?vs) = s"
    by (subst octets_sextets) (use uchar_bound in \<open>simp_all add: uchar_def comp_def\<close>)
  ultimately show ?thesis unfolding t base64_bytes_def split using pad by simp
qed

interpretation base64_codec: codec "\<lambda>s. fold_lines w (base64_text url pad s)" "base64_bytes u"
  "\<lambda>_. (url \<longrightarrow> 0 \<le> u) \<and> (\<not> url \<longrightarrow> u \<le> 0)"
  for w url pad u
  by unfold_locales (auto simp: base64_round)

subsection \<open>Properties\<close>

text \<open>
  Property C5: \<open>rp_base64_encode\<close> fills exactly the block it sized: the code of the data
  (padded to a multiple of four characters when asked), a new line after each full line of
  \<open>width\<close> characters, and the terminating zero; \<open>*encodedlen\<close> is the length of that text.
\<close>

theorem rp_base64_encode_correct:
  assumes "allocates malloc" and "n \<le> length data" and "w < 2 ^ 31"
  shows "rp_base64_encode malloc data n (int w) pad url =
    (let t = fold_lines w (base64_text url pad (take n data))
     in Some (case malloc (length t + 1) of
          None \<Rightarrow> Inl rp_base64_nomem | Some _ \<Rightarrow> Inr (cstr t, length t)))"
  using assms by (rule rp_base64_encode_eq)

theorem rp_base64_encode_correct_witness:
  "rp_base64_encode alloc_zero ''Hello'' 5 4 True False =
    Some (Inr (cstr (''SGVs'' @ [CHR 0x0A] @ ''bG8='' @ [CHR 0x0A]), 10))"
proof -
  have "fold_lines 4 (base64_text False True ''Hello'') = ''SGVs'' @ [CHR 0x0A] @ ''bG8='' @ [CHR 0x0A]"
    by code_simp
  then show ?thesis using rp_base64_encode_correct [of alloc_zero 5 "''Hello''" 4 True False]
    by (simp add: alloc_zero_def)
qed

text \<open>
  Property C6: \<open>rp_base64_decode\<close> on any bytes: it stays within the data and the block,
  accepts exactly the characters of the variants allowed by \<open>url\<close>, new lines anywhere, and
  after the first \<open>=\<close> only \<open>=\<close> and new lines; what it returns is the bytes of the code, with a
  zero after them.
\<close>

theorem rp_base64_decode_correct:
  assumes "allocates malloc" and "reallocates realloc" and "n \<le> length data"
  shows "rp_base64_decode malloc realloc data n url =
    Some (case malloc (n + 1) of
        None \<Rightarrow> Inl rp_base64_nomem
      | Some block \<Rightarrow>
          (case base64_bytes url (take n data) of
             None \<Rightarrow> Inl rp_base64_invalid
           | Some bs \<Rightarrow>
               (case realloc (overwrite block 0 bs) (length bs + 1) of
                  None \<Rightarrow> Inl rp_base64_nomem
                | Some _ \<Rightarrow> Inr (bs @ [NUL], length bs))))"
  using assms by (rule rp_base64_decode_eq)

theorem rp_base64_decode_correct_witness:
  "rp_base64_decode alloc_zero realloc_zero ''SGVsbG8='' 8 0 = Some (Inr (''Hello'' @ [NUL], 5)) \<and>
    rp_base64_decode alloc_zero realloc_zero ''a-'' 2 (-1) = Some (Inl rp_base64_invalid)"
proof -
  have "base64_bytes 0 ''SGVsbG8='' = Some ''Hello''" "base64_bytes (-1) ''a-'' = None" by code_simp+
  then show ?thesis using rp_base64_decode_correct [of alloc_zero realloc_zero 8 "''SGVsbG8=''" 0]
      rp_base64_decode_correct [of alloc_zero realloc_zero 2 "''a-''" "-1"]
    by (simp add: alloc_zero_def realloc_zero_def)
qed

text \<open>
  Property C7: decoding what \<open>rp_base64_encode\<close> returned gives the data back, whatever the
  width of the lines and with or without padding, when the decoder accepts the variant used.
\<close>

theorem rp_base64_decode_encode:
  assumes "allocates malloc" and "allocates malloc'" and "reallocates realloc"
    and "n \<le> length data" and "w < 2 ^ 31" and "url \<longrightarrow> 0 \<le> u" and "\<not> url \<longrightarrow> u \<le> 0"
    and "rp_base64_encode malloc data n (int w) pad url = Some (Inr (t, k))"
    and "malloc' (k + 1) \<noteq> None" and "\<forall>b. realloc b (n + 1) \<noteq> None"
  shows "rp_base64_decode malloc' realloc t k u = Some (Inr (take n data @ [NUL], n))"
proof -
  let ?t = "fold_lines w (base64_text url pad (take n data))"
  have t: "t = cstr ?t" "k = length ?t"
    using rp_base64_encode_eq [OF assms(1,4,5), of pad url] assms(8)
    by (auto simp: Let_def split: option.splits)
  have "take k t = ?t" "k \<le> length t" unfolding t by simp_all
  then have "base64_bytes u (take k t) = Some (take n data)"
    using base64_codec.decode_encode [of url u w pad "take n data"] assms(6,7) by simp
  moreover obtain block where "malloc' (k + 1) = Some block" using assms(9) by blast
  moreover obtain b where "realloc (overwrite block 0 (take n data)) (n + 1) = Some b" using assms(10) by blast
  moreover have "length (take n data) = n" using assms(4) by simp
  ultimately show ?thesis
    using rp_base64_decode_eq [OF assms(2,3) \<open>k \<le> length t\<close>, of u] by (simp del: length_take)
qed

theorem rp_base64_decode_encode_witness:
  "\<exists>t k. rp_base64_encode alloc_zero ''a?>'' 3 2 False True = Some (Inr (t, k)) \<and>
    rp_base64_decode alloc_zero realloc_zero t k 1 = Some (Inr (''a?>'' @ [NUL], 3))"
proof -
  obtain t k where e: "rp_base64_encode alloc_zero ''a?>'' 3 (int 2) False True = Some (Inr (t, k))"
    using rp_base64_encode_eq [of alloc_zero 3 "''a?>''" 2 False True]
    by (auto simp: Let_def alloc_zero_def)
  then show ?thesis
    using rp_base64_decode_encode [of alloc_zero alloc_zero realloc_zero 3 "''a?>''" 2 True 1 False t k]
    by (auto simp: alloc_zero_def realloc_zero_def)
qed

end
