(* ===== verification/Str2Int.thy ===== *)
theory Str2Int
  imports Prelude
begin

text \<open>
  Integers from texts (\<open>src/misc/rp-str2int.c\<close>): sign, base prefix, digits with
  underscores, and the narrowing to the other integer types. A call gives the returned status
  and the value stored, \<open>None\<close> when nothing was stored. The reference is the value of the
  digits as an unbounded number.
\<close>

subsection \<open>The code\<close>

text \<open>The digit of a character, \<open>None\<close> where the loop breaks.\<close>

definition str2int_digit :: "char \<Rightarrow> int option" where
  "str2int_digit c =
     (if schar (CHR ''A'') \<le> schar c \<and> schar c \<le> schar (CHR ''Z'') then Some (schar c - schar (CHR ''A'') + 10)
      else if schar (CHR ''a'') \<le> schar c \<and> schar c \<le> schar (CHR ''z'') then Some (schar c - schar (CHR ''a'') + 10)
      else if schar (CHR ''0'') \<le> schar c \<and> schar c \<le> schar (CHR ''9'') then Some (schar c - schar (CHR ''0''))
      else None)"

text \<open>The loop over the digits: the character it stopped at and the value.\<close>

function value_loop :: "mem \<Rightarrow> nat \<Rightarrow> 64 word \<Rightarrow> 64 word \<Rightarrow> 64 word \<Rightarrow> (char \<times> 64 word) option" where
  "value_loop str i base lim val = do {
     c \<leftarrow> load str i;
     if c = NUL then Some (c, val)
     else if c = CHR ''_'' then value_loop str (i + 1) base lim val
     else case str2int_digit c of
         None \<Rightarrow> Some (c, val)
       | Some digit \<Rightarrow>
           if word_of_int digit \<ge> base then Some (c, val)
           else if val > lim then Some (c, val)
           else value_loop str (i + 1) base lim (val * base + word_of_int digit)
   }"
  by pat_completeness auto
termination
  by (relation "measure (\<lambda>(str, i, base, lim, val). length str - i)") (auto simp: load_eq_Some)

declare value_loop.simps [simp del]

text \<open>The sign: the status and the offset after it.\<close>

definition str2int_sign :: "mem \<Rightarrow> (int \<times> nat) option" where
  "str2int_sign str = do {
     c \<leftarrow> load str 0;
     if c = CHR ''-'' then Some (- 1, 1)
     else if c = CHR ''+'' then Some (1, 1)
     else Some (1, 0)
   }"

text \<open>The base and the offset of the digits, or \<open>None\<close> for the text \<open>0\<close> alone.\<close>

definition str2int_base :: "mem \<Rightarrow> nat \<Rightarrow> (64 word \<times> nat) option option" where
  "str2int_base str i = do {
     c \<leftarrow> load str i;
     if c \<noteq> CHR ''0'' then Some (Some (10, i))
     else do {
       c \<leftarrow> load str (i + 1);
       let k = or (schar c) 32;
       if k = schar (CHR ''b'') then Some (Some (2, i + 2))
       else if k = schar (CHR ''o'') then Some (Some (8, i + 2))
       else if k = schar (CHR ''d'') then Some (Some (10, i + 2))
       else if k = schar (CHR ''x'') then Some (Some (16, i + 2))
       else if c = NUL then Some None
       else Some (Some (8, i + 1))
     }
   }"

definition rp_str2u64 :: "mem \<Rightarrow> (int \<times> 64 word option) option" where
  "rp_str2u64 str = do {
     (rc, i) \<leftarrow> str2int_sign str;
     b \<leftarrow> str2int_base str i;
     case b of
       None \<Rightarrow> Some (rc, Some 0)
     | Some (base, i) \<Rightarrow> do {
         c \<leftarrow> load str i;
         if c = NUL then Some (0, None)
         else do {
           (c, val) \<leftarrow> value_loop str i base (- 1 div base) 0;
           if c \<noteq> NUL then Some (0, None) else Some (rc, Some val)
         }
       }
   }"

definition rp_str2uint64 :: "mem \<Rightarrow> (int \<times> 64 word option) option" where
  "rp_str2uint64 str = do {
     (rc, v) \<leftarrow> rp_str2u64 str;
     Some (if rc > 0 then 1 else 0, v)
   }"

text \<open>The negation of the least value of a signed type overflows: undefined behaviour.\<close>

definition signed_neg :: "'a::len word \<Rightarrow> 'a word option" where
  "signed_neg w = (if sint w = - (2 ^ (LENGTH('a) - 1)) then None else Some (- w))"

definition rp_str2int64 :: "mem \<Rightarrow> (int \<times> 64 word option) option" where
  "rp_str2int64 str = do {
     (rc, v) \<leftarrow> rp_str2u64 str;
     if rc < 0 then do {
       u64 \<leftarrow> v;
       if u64 > 2 ^ 63 then Some (0, None)
       else do { val \<leftarrow> signed_neg u64; Some (1, Some val) }
     }
     else if rc > 0 then do {
       u64 \<leftarrow> v;
       if u64 > 2 ^ 63 - 1 then Some (0, None) else Some (rc, Some u64)
     }
     else Some (rc, None)
   }"

definition rp_str2int32 :: "mem \<Rightarrow> (int \<times> 32 word option) option" where
  "rp_str2int32 str = do {
     (rc, v) \<leftarrow> rp_str2u64 str;
     if rc < 0 then do {
       u64 \<leftarrow> v;
       if u64 > 2 ^ 31 then Some (0, None)
       else do { val \<leftarrow> signed_neg (ucast u64 :: 32 word); Some (1, Some val) }
     }
     else if rc > 0 then do {
       u64 \<leftarrow> v;
       if u64 > 2 ^ 31 - 1 then Some (0, None) else Some (rc, Some (ucast u64))
     }
     else Some (rc, None)
   }"

definition rp_str2uint32 :: "mem \<Rightarrow> (int \<times> 32 word option) option" where
  "rp_str2uint32 str = do {
     (rc, v) \<leftarrow> rp_str2u64 str;
     if rc > 0 then do {
       u64 \<leftarrow> v;
       if u64 \<le> 2 ^ 32 - 1 then Some (rc, Some (ucast u64)) else Some (0, None)
     }
     else Some (0, None)
   }"

subsection \<open>The numbers that texts denote\<close>

definition sign_part :: "string \<Rightarrow> int \<times> string" where
  "sign_part s = (case s of
      c # t \<Rightarrow> if c = CHR ''-'' then (- 1, t) else if c = CHR ''+'' then (1, t) else (1, s)
    | [] \<Rightarrow> (1, s))"

text \<open>The base and the digits of an unsigned text; \<open>0\<close> alone is an octal 0.\<close>

definition base_part :: "string \<Rightarrow> nat \<times> string" where
  "base_part s = (case s of
      c # d # t \<Rightarrow>
        if c \<noteq> CHR ''0'' then (10, s)
        else if d \<in> set ''bB'' then (2, t) else if d \<in> set ''oO'' then (8, t)
        else if d \<in> set ''dD'' then (10, t) else if d \<in> set ''xX'' then (16, t) else (8, d # t)
    | _ \<Rightarrow> (if s = ''0'' then 8 else 10, s))"

definition digit_of :: "char \<Rightarrow> nat option" where
  "digit_of c = (let n = uchar c in
     if 48 \<le> n \<and> n \<le> 57 then Some (n - 48)
     else if 65 \<le> n \<and> n \<le> 90 then Some (n - 55)
     else if 97 \<le> n \<and> n \<le> 122 then Some (n - 87) else None)"

definition base_digit :: "nat \<Rightarrow> char \<Rightarrow> nat option" where
  "base_digit b c = (case digit_of c of None \<Rightarrow> None | Some d \<Rightarrow> if d < b then Some d else None)"

definition digits_value :: "nat \<Rightarrow> nat list \<Rightarrow> nat" where
  "digits_value b ds = foldl (\<lambda>v d. v * b + d) 0 ds"

text \<open>Sign, base and digits of a text; underscores are skipped.\<close>

definition parse_number :: "string \<Rightarrow> (int \<times> nat \<times> nat list) option" where
  "parse_number s =
     (let (sg, t) = sign_part s;
          (b, u) = base_part t
      in if u = [] then None
         else map_option (\<lambda>ds. (sg, b, ds)) (those (map (base_digit b) [c \<leftarrow> u. c \<noteq> CHR ''_''])))"

subsection \<open>The loop computes the value, with its overflow check\<close>

text \<open>The check compares the value so far with the greatest one divided by the base.\<close>

fun checked_value :: "nat \<Rightarrow> nat \<Rightarrow> nat list \<Rightarrow> nat option" where
  "checked_value b v [] = Some v"
| "checked_value b v (d # ds) =
     (if (2 ^ 64 - 1) div b < v then None else checked_value b ((v * b + d) mod 2 ^ 64) ds)"

definition plain_digits :: "string \<Rightarrow> string" where
  "plain_digits s = [c \<leftarrow> s. c \<noteq> CHR ''_'']"

lemma str2int_digit_eq: "str2int_digit c = map_option int (digit_of c)"
proof -
  have "schar (CHR ''A'') = 65" "schar (CHR ''Z'') = 90" "schar (CHR ''a'') = 97"
    "schar (CHR ''z'') = 122" "schar (CHR ''0'') = 48" "schar (CHR ''9'') = 57"
    by (simp_all add: schar_def)
  then show ?thesis
    using uchar_bound [of c] by (simp add: str2int_digit_def digit_of_def Let_def schar_def)
qed

lemma digit_of_less: "digit_of c = Some d \<Longrightarrow> d < 36"
  using uchar_bound [of c] by (auto simp: digit_of_def Let_def split: if_splits)

lemma unat_of_nat64: "v < 2 ^ 64 \<Longrightarrow> unat (word_of_nat v :: 64 word) = v"
  by (simp add: unat_of_nat take_bit_nat_eq_self)

lemma word_gt_lim:
  assumes "v < 2 ^ 64" and "b < 2 ^ 64"
  shows "(word_of_nat v > (- 1 :: 64 word) div word_of_nat b) = ((2 ^ 64 - 1) div b < v)"
  using assms by (simp add: word_less_nat_alt unat_div_distrib unat_of_nat64 unsigned_minus_1_eq_mask mask_eq_exp_minus_1)

lemma word_ge_base:
  assumes "d < 36" and "b < 2 ^ 64"
  shows "((word_of_nat d :: 64 word) \<ge> word_of_nat b) = (b \<le> d)"
  using assms by (simp add: word_le_nat_alt unat_of_nat64)

lemma word_shift_add: "(word_of_nat v * word_of_nat b + word_of_nat d :: 64 word) = word_of_nat ((v * b + d) mod 2 ^ 64)"
proof -
  have "word_of_nat (x mod 2 ^ 64) = (word_of_nat x :: 64 word)" for x
    by (simp add: word_unat_eq_iff unat_of_nat take_bit_eq_mod)
  from this [of "v * b + d"] show ?thesis by simp
qed

lemma value_loop_eq:
  assumes "drop i str = cstr s" and "no_nul s" and "b < 2 ^ 64" and "v < 2 ^ 64"
  shows "\<exists>c w. value_loop str i (word_of_nat b) (- 1 div word_of_nat b) (word_of_nat v) = Some (c, w) \<and>
    (case Option.bind (those (map (base_digit b) (plain_digits s))) (checked_value b v) of
       None \<Rightarrow> c \<noteq> NUL | Some u \<Rightarrow> c = NUL \<and> w = word_of_nat u)"
  using assms
proof (induction s arbitrary: i v)
  case Nil
  then have "load str i = Some NUL" by (metis cstr_def append_Nil load_drop add_0_right drop_all linorder_le_cases list.distinct(1) load_Some length_Cons nth_Cons_0 zero_less_Suc)
  then show ?case by (subst value_loop.simps) (simp add: plain_digits_def)
next
  case (Cons c s)
  have i: "i < length str" using Cons.prems(1) by (metis cstr_def append_Cons drop_all linorder_not_less list.distinct(1))
  have c: "load str i = Some c" "drop (i + 1) str = cstr s"
    using Cons.prems(1) i by (simp_all add: cstr_def Cons_nth_drop_Suc [symmetric])
  show ?case
  proof (cases "c = CHR ''_''")
    case True
    then show ?thesis using Cons.IH [OF c(2) _ Cons.prems(3,4)] Cons.prems(2) c(1)
      by (subst value_loop.simps) (simp add: plain_digits_def)
  next
    case False
    have pd: "plain_digits (c # s) = c # plain_digits s" using False by (simp add: plain_digits_def)
    show ?thesis
    proof (cases "base_digit b c")
      case None
      then have "digit_of c = None \<or> (\<exists>d. digit_of c = Some d \<and> b \<le> d)"
        by (auto simp: base_digit_def split: option.splits if_splits)
      then show ?thesis unfolding pd
        using None False Cons.prems(2,3) c(1) digit_of_less [of c]
        by (subst value_loop.simps) (auto simp: str2int_digit_eq word_ge_base)
    next
      case (Some d)
      then have d: "digit_of c = Some d" "d < b" "d < 36"
        using digit_of_less [of c] by (auto simp: base_digit_def split: option.splits if_splits)
      show ?thesis
      proof (cases "(2 ^ 64 - 1) div b < v")
        case True
        then show ?thesis unfolding pd using Some d False Cons.prems(2-4) c(1)
          by (subst value_loop.simps)
            (auto simp: str2int_digit_eq word_ge_base word_gt_lim split: option.splits bind_splits)
      next
        case small: False
        let ?v = "(v * b + d) mod 2 ^ 64"
        have "?v < 2 ^ 64" by simp
        from Cons.IH [OF c(2) _ Cons.prems(3) this] Cons.prems(2)
        show ?thesis unfolding pd using Some d False small Cons.prems(2-4) c(1)
          by (subst value_loop.simps)
            (simp add: str2int_digit_eq word_ge_base word_gt_lim word_shift_add map_option_bind bind_map_option cong: Option.bind_cong split: option.splits)
      qed
    qed
  qed
qed

lemma str2int_sign_eq:
  "no_nul s \<Longrightarrow> str2int_sign (cstr s) = Some (fst (sign_part s), length s - length (snd (sign_part s)))"
  by (cases s) (auto simp: str2int_sign_def sign_part_def cstr_def)

lemma sign_part_split: "s = take (length s - length (snd (sign_part s))) s @ snd (sign_part s)"
  by (auto simp: sign_part_def split: list.splits)

lemma or_32_letter:
  "(or (schar c) 32 = schar (CHR ''b'')) = (c \<in> set ''bB'')"
  "(or (schar c) 32 = schar (CHR ''o'')) = (c \<in> set ''oO'')"
  "(or (schar c) 32 = schar (CHR ''d'')) = (c \<in> set ''dD'')"
  "(or (schar c) 32 = schar (CHR ''x'')) = (c \<in> set ''xX'')"
  by (cases c; rename_tac b0 b1 b2 b3 b4 b5 b6 b7;
      case_tac b0; case_tac b1; case_tac b2; case_tac b3; case_tac b4; case_tac b5; case_tac b6; case_tac b7;
      simp add: schar_def)+

lemma str2int_base_eq:
  assumes "drop i str = cstr t" and "no_nul t" and "base_part t = (b, u)"
  shows "str2int_base str i =
    Some (if t = ''0'' then None else Some (word_of_nat b, i + (length t - length u)))"
proof -
  have i: "i \<le> length str" using assms(1) by (metis cstr_def drop_all linorder_le_cases snoc_eq_iff_butlast)
  have ld: "load str (i + k) = load (cstr t) k" for k
    using load_drop [OF i, of k] unfolding assms(1) by simp
  show ?thesis
  proof (cases t)
    case Nil
    then show ?thesis using assms(3) ld [of 0] by (simp add: str2int_base_def base_part_def cstr_def)
  next
    case (Cons c t')
    show ?thesis
    proof (cases t')
      case Nil
      have k: "or (schar NUL) 32 = (32::int)" by (simp add: schar_def)
      show ?thesis using Cons Nil assms(3) ld [of 0] ld [of 1]
        by (auto simp: str2int_base_def base_part_def cstr_def k schar_def Let_def)
    next
      case (Cons d t'')
      have ld2: "load str i = Some c" "load str (i + 1) = Some d"
        using \<open>t = c # t'\<close> Cons ld [of 0] ld [of 1] by (simp_all add: cstr_def)
      have d: "d \<noteq> NUL" using \<open>t = c # t'\<close> Cons assms(2) by simp
      have bp: "base_part (c # d # t'') = (b, u)" using \<open>t = c # t'\<close> Cons assms(3) by simp
      show ?thesis
      proof (cases "c = CHR ''0''")
        case False
        then have "b = 10" "u = t" "t \<noteq> ''0''"
          using bp \<open>t = c # t'\<close> Cons by (auto simp: base_part_def)
        then show ?thesis using False ld2 by (simp add: str2int_base_def)
      next
        case zero: True
        show ?thesis
        proof (cases "d \<in> set ''bBoOdDxX''")
          case True
          then consider "d = CHR ''b''" | "d = CHR ''B''" | "d = CHR ''o''" | "d = CHR ''O''"
            | "d = CHR ''d''" | "d = CHR ''D''" | "d = CHR ''x''" | "d = CHR ''X''"
            by auto
          then show ?thesis using bp \<open>t = c # t'\<close> Cons ld2 zero
            by cases (simp_all add: str2int_base_def base_part_def schar_def)
        next
          case False
          then have "or (schar d) 32 \<noteq> schar (CHR ''b'')" "or (schar d) 32 \<noteq> schar (CHR ''o'')"
            "or (schar d) 32 \<noteq> schar (CHR ''d'')" "or (schar d) 32 \<noteq> schar (CHR ''x'')"
            unfolding or_32_letter by simp_all
          then show ?thesis using False bp \<open>t = c # t'\<close> Cons ld2 zero d
            by (auto simp: str2int_base_def base_part_def Let_def)
        qed
      qed
    qed
  qed
qed

lemma base_part_split: "base_part t = (b, u) \<Longrightarrow> drop (length t - length u) t = u \<and> b \<in> {2, 8, 10, 16}"
  by (auto simp: base_part_def Suc_diff_le split: list.splits if_splits)

lemma base_part_zero: "base_part t = (b, u) \<Longrightarrow> t = ''0'' \<Longrightarrow> b = 8 \<and> u = ''0''"
  by (simp add: base_part_def)

lemma rp_str2u64_eq:
  assumes "no_nul s"
  shows "rp_str2u64 (cstr s) = Some
    (case parse_number s of
       None \<Rightarrow> (0, None)
     | Some (sg, b, ds) \<Rightarrow> (case checked_value b 0 ds of
           None \<Rightarrow> (0, None) | Some v \<Rightarrow> (sg, Some (word_of_nat v))))"
proof -
  obtain sg t where st: "sign_part s = (sg, t)" by (cases "sign_part s")
  obtain b u where bu: "base_part t = (b, u)" by (cases "base_part t")
  let ?i = "length s - length t"
  have s: "s = take ?i s @ t" using sign_part_split [of s] st by simp
  then have t: "drop ?i (cstr s) = cstr t" "no_nul t" "length t \<le> length s"
    using assms st by (auto simp: cstr_def sign_part_def split: list.splits if_splits)
  note b = base_part_split [OF bu]
  show ?thesis
  proof (cases "t = ''0''")
    case True
    then have "b = 8" "u = ''0''" using base_part_zero [OF bu] by simp_all
    then have "parse_number s = Some (sg, 8, [0])"
      using bu by (simp add: parse_number_def st base_digit_def digit_of_def)
    then show ?thesis using True str2int_base_eq [OF t(1,2) bu]
      by (simp add: rp_str2u64_def str2int_sign_eq assms st)
  next
    case False
    let ?j = "?i + (length t - length u)"
    have len: "length u \<le> length t" using bu by (auto simp: base_part_def split: list.splits if_splits)
    have "drop ?j (cstr s) = drop (length t - length u) (drop ?i (cstr s))" by (simp add: add.commute)
    also have "\<dots> = cstr u" unfolding t(1) using b len by (simp add: cstr_def)
    finally have u: "drop ?j (cstr s) = cstr u" .
    have nu: "no_nul u" using b t(2) by (metis no_nul_def in_set_dropD)
    have j: "?j \<le> length (cstr s)" using len t(3) by simp
    have ld: "load (cstr s) ?j = load (cstr u) 0" using load_drop [OF j, of 0] unfolding u by simp
    show ?thesis
    proof (cases "u = []")
      case True
      then have "load (cstr s) ?j = Some NUL" using ld by (simp add: cstr_def)
      then show ?thesis using True False str2int_base_eq [OF t(1,2) bu]
        by (simp add: rp_str2u64_def str2int_sign_eq assms st parse_number_def bu)
    next
      case ne: False
      then have "load (cstr s) ?j = Some (hd u)" "hd u \<noteq> NUL" using ld nu by (auto simp: cstr_def neq_Nil_conv)
      then show ?thesis using False ne str2int_base_eq [OF t(1,2) bu]
          value_loop_eq [OF u nu, of b 0] b
        by (auto simp: rp_str2u64_def str2int_sign_eq assms st parse_number_def bu plain_digits_def [symmetric]
            split: option.splits bind_splits)
    qed
  qed
qed

subsection \<open>When the check is exact\<close>

lemma digits_value_Cons: "foldl (\<lambda>v d. v * b + d) v ds = v * b ^ length ds + digits_value b ds"
proof (induction ds arbitrary: v)
  case (Cons d ds)
  show ?case using Cons [of "v * b + d"] Cons [of d] by (simp add: digits_value_def algebra_simps)
qed (simp add: digits_value_def)

lemma foldl_digits_ge: "0 < b \<Longrightarrow> v \<le> foldl (\<lambda>v d. v * b + d) v (ds :: nat list)"
  using digits_value_Cons [of b v ds] by (simp add: trans_le_add1)

lemma checked_value_exact:
  assumes "0 < b" and "foldl (\<lambda>v d. v * b + d) v ds < 2 ^ 64"
  shows "checked_value b v ds = Some (foldl (\<lambda>v d. v * b + d) v ds)"
  using assms(2)
proof (induction ds arbitrary: v)
  case (Cons d ds)
  then have lt: "v * b + d < 2 ^ 64" using foldl_digits_ge [OF assms(1), of "v * b + d" ds] by simp
  then have "v * b \<le> 2 ^ 64 - 1" by linarith
  then have "v \<le> (2 ^ 64 - 1) div b" using assms(1) by (simp add: less_eq_div_iff_mult_less_eq)
  then show ?case using Cons lt by simp
qed simp

lemma checked_value_overflow:
  assumes "b dvd 2 ^ 64" and "1 < b" and "\<forall>d \<in> set ds. d < b" and "v < 2 ^ 64"
    and "2 ^ 64 \<le> foldl (\<lambda>v d. v * b + d) v ds"
  shows "checked_value b v ds = None"
  using assms(3-5)
proof (induction ds arbitrary: v)
  case (Cons d ds)
  show ?case
  proof (cases "(2 ^ 64 - 1) div b < v")
    case False
    obtain q where q: "2 ^ 64 = b * q" using assms(1) by (rule dvdE)
    then have "0 < q" by (cases q) auto
    have "(2 ^ 64 - 1) div b = q - 1"
    proof -
      have "2 ^ 64 - 1 = (q - 1) * b + (b - 1)"
        using q assms(2) \<open>0 < q\<close> by (cases q) (simp_all add: algebra_simps)
      then show ?thesis using assms(2) by (simp only: div_mult_self3) simp
    qed
    then have "v + 1 \<le> q" using False \<open>0 < q\<close> by linarith
    then have "(v + 1) * b \<le> 2 ^ 64" using mult_le_mono1 [of "v + 1" q b] unfolding q by (simp add: mult.commute)
    then have "v * b + d < 2 ^ 64" using Cons.prems(1) by simp
    then show ?thesis using Cons False by simp
  qed simp
qed simp

lemma parse_number_facts:
  assumes "parse_number s = Some (sg, b, ds)"
  shows "b \<in> {2, 8, 10, 16}" and "\<forall>d \<in> set ds. d < b" and "sg = 1 \<or> sg = - 1"
proof -
  obtain t u where st: "sign_part s = (sg, t)" "base_part t = (b, u)" "u \<noteq> []"
    and ds: "those (map (base_digit b) (plain_digits u)) = Some ds"
    using assms by (auto simp: parse_number_def plain_digits_def Let_def split: prod.splits if_splits)
  show "b \<in> {2, 8, 10, 16}" using base_part_split [OF st(2)] by simp
  show "sg = 1 \<or> sg = - 1" using st(1) by (auto simp: sign_part_def split: list.splits if_splits)
  have "\<forall>d \<in> set ds. d < b" if "those (map (base_digit b) cs) = Some ds" for cs
    using that by (induction cs arbitrary: ds) (auto simp: base_digit_def split: option.splits if_splits)
  then show "\<forall>d \<in> set ds. d < b" using ds .
qed

lemma rp_str2u64_in_range:
  assumes "no_nul s" and "parse_number s = Some (sg, b, ds)" and "digits_value b ds < 2 ^ 64"
  shows "rp_str2u64 (cstr s) = Some (sg, Some (word_of_nat (digits_value b ds)))"
  using rp_str2u64_eq [OF assms(1)] checked_value_exact [of b 0 ds] parse_number_facts(1) [OF assms(2)] assms(2,3)
  by (auto simp: digits_value_def)

subsection \<open>Properties\<close>

text \<open>
  Property C8: \<open>rp_str2u64\<close> on a C string stays within it; it stores the value and returns
  the sign for a number of 64 bits, and returns 0 without storing for a text that is not a
  number.
\<close>

theorem rp_str2u64_correct:
  assumes "no_nul s"
  shows "case parse_number s of
      None \<Rightarrow> rp_str2u64 (cstr s) = Some (0, None)
    | Some (sg, b, ds) \<Rightarrow> digits_value b ds < 2 ^ 64 \<longrightarrow>
        rp_str2u64 (cstr s) = Some (sg, Some (word_of_nat (digits_value b ds)))"
  using rp_str2u64_eq [OF assms] rp_str2u64_in_range [OF assms] by (auto split: option.splits)

theorem rp_str2u64_correct_witness:
  "rp_str2u64 (cstr ''-0x1_0'') = Some (- 1, Some 16) \<and> rp_str2u64 (cstr ''12a'') = Some (0, None) \<and>
    rp_str2u64 (cstr ''0'') = Some (1, Some 0)"
proof -
  have "parse_number ''-0x1_0'' = Some (- 1, 16, [1, 0])" "parse_number ''12a'' = None"
    "parse_number ''0'' = Some (1, 8, [0])"
    by code_simp+
  then show ?thesis using rp_str2u64_correct [of "''-0x1_0''"] rp_str2u64_correct [of "''12a''"]
      rp_str2u64_correct [of "''0''"] by (simp add: digits_value_def)
qed

text \<open>
  The overflow check of \<open>rp_str2u64\<close>. It is exact when the base is 2, 8 or 16:
  a number over 64 bits is refused. It is not when the base is 10: \<open>18446744073709551619\<close>
  is accepted, and read as 3.
\<close>

theorem rp_str2u64_overflow:
  "(no_nul s \<and> parse_number s = Some (sg, b, ds) \<and> b \<noteq> 10 \<and> 2 ^ 64 \<le> digits_value b ds \<longrightarrow>
      rp_str2u64 (cstr s) = Some (0, None)) \<and>
    parse_number ''18446744073709551619'' = Some (1, 10, [1,8,4,4,6,7,4,4,0,7,3,7,0,9,5,5,1,6,1,9]) \<and>
    rp_str2u64 (cstr ''18446744073709551619'') = Some (1, Some 3)"
proof (intro conjI impI)
  show p: "parse_number ''18446744073709551619'' = Some (1, 10, [1,8,4,4,6,7,4,4,0,7,3,7,0,9,5,5,1,6,1,9])"
    by code_simp
  show "rp_str2u64 (cstr ''18446744073709551619'') = Some (1, Some 3)"
    using rp_str2u64_eq [of "''18446744073709551619''"] p by simp
  assume a: "no_nul s \<and> parse_number s = Some (sg, b, ds) \<and> b \<noteq> 10 \<and> 2 ^ 64 \<le> digits_value b ds"
  then have b: "b dvd 2 ^ 64" "1 < b" using parse_number_facts(1) [of s sg b ds] by auto
  then have "checked_value b 0 ds = None"
    using a parse_number_facts(2) [of s sg b ds]
    by (intro checked_value_overflow) (auto simp: digits_value_def)
  then show "rp_str2u64 (cstr s) = Some (0, None)" using a rp_str2u64_eq [of s] by simp
qed

theorem rp_str2u64_overflow_witness:
  "rp_str2u64 (cstr ''0x10000000000000000'') = Some (0, None)"
proof -
  have "parse_number ''0x10000000000000000'' = Some (1, 16, [1, 0, 0, 0, 0, 0, 0, 0, 0, 0, 0, 0, 0, 0, 0, 0, 0])" by code_simp
  moreover have "2 ^ 64 \<le> digits_value 16 [1, 0, 0, 0, 0, 0, 0, 0, 0, 0, 0, 0, 0, 0, 0, 0, 0]" by (simp add: digits_value_def)
  ultimately show ?thesis
    using rp_str2u64_overflow [of "''0x10000000000000000''" 1 16 "[1, 0, 0, 0, 0, 0, 0, 0, 0, 0, 0, 0, 0, 0, 0, 0, 0]"] by simp
qed

lemma sint_small:
  "int n < 2 ^ (LENGTH('a) - 1) \<Longrightarrow> sint (word_of_nat n :: 'a::len word) = int n"
  "int n \<le> 2 ^ (LENGTH('a) - 1) \<Longrightarrow> sint (- word_of_nat n :: 'a::len word) = - int n"
proof -
  show "sint (word_of_nat n :: 'a word) = int n" if "int n < 2 ^ (LENGTH('a) - 1)"
    using that zero_le_power [of "2 :: int" "LENGTH('a) - 1"]
    by (simp only: signed_of_nat One_nat_def of_int_eq_id id_apply) (rule signed_take_bit_int_eq_self, linarith+)
  have w: "- word_of_nat n = (word_of_int (- int n) :: 'a word)" by simp
  show "sint (- word_of_nat n :: 'a word) = - int n" if "int n \<le> 2 ^ (LENGTH('a) - 1)"
    unfolding w using that zero_less_power [of "2 :: int" "LENGTH('a) - 1"]
    by (simp only: signed_of_int One_nat_def of_int_eq_id id_apply) (rule signed_take_bit_int_eq_self, linarith+)
qed

text \<open>What a narrowing must do with a value \<open>z\<close> and a type of \<open>k\<close> bits.\<close>

definition narrows :: "nat \<Rightarrow> int \<Rightarrow> (int \<times> 'a::len word option) option \<Rightarrow> bool" where
  "narrows k z r \<longleftrightarrow>
     (if - (2 ^ (k - 1)) < z \<and> z < 2 ^ (k - 1) then \<exists>w. r = Some (1, Some w) \<and> sint w = z
      else if z = - (2 ^ (k - 1)) then r = None
      else r = Some (0, None))"

lemma signed_neg_nat:
  assumes "n < 2 ^ (LENGTH('a) - 1)"
  shows "signed_neg (word_of_nat n :: 'a::len word) = Some (- word_of_nat n)"
proof -
  have "sint (word_of_nat n :: 'a word) = int n" by (rule sint_small(1)) (use assms in simp)
  moreover have "int n \<noteq> - (2 ^ (LENGTH('a) - 1))" by (smt (verit) of_nat_0_le_iff zero_less_power)
  ultimately show ?thesis by (simp add: signed_neg_def)
qed

lemma word_nat_less64: "n < 2 ^ 64 \<Longrightarrow> m < 2 ^ 64 \<Longrightarrow> ((word_of_nat n :: 64 word) < word_of_nat m) = (n < m)"
  by (simp add: word_less_nat_alt unat_of_nat64)

lemma ucast_word_of_nat: "ucast (word_of_nat n :: 64 word) = (word_of_nat n :: 32 word)"
  by (simp add: word_unat_eq_iff unsigned_ucast_eq unat_of_nat take_bit_eq_mod mod_mod_cancel)

text \<open>
  \<open>rp_str2int64\<close> and \<open>rp_str2int32\<close> on a number of 64 bits: 1 and the number
  when it is in the range of the type, 0 when it is not. The least number of the type is in the
  range but the code negates it in the type: undefined behaviour.
\<close>

theorem rp_str2int_correct:
  assumes "no_nul s" and "parse_number s = Some (sg, b, ds)" and "digits_value b ds < 2 ^ 64"
  shows "narrows 64 (sg * int (digits_value b ds)) (rp_str2int64 (cstr s)) \<and>
    narrows 32 (sg * int (digits_value b ds)) (rp_str2int32 (cstr s))"
proof -
  let ?n = "digits_value b ds"
  have u: "rp_str2u64 (cstr s) = Some (sg, Some (word_of_nat ?n))" by (rule rp_str2u64_in_range [OF assms])
  have cmp: "(2 ^ 63 < (word_of_nat ?n :: 64 word)) = (2 ^ 63 < ?n)" "(2 ^ 31 < (word_of_nat ?n :: 64 word)) = (2 ^ 31 < ?n)"
    "(2 ^ 63 - 1 < (word_of_nat ?n :: 64 word)) = (2 ^ 63 - 1 < ?n)" "(2 ^ 31 - 1 < (word_of_nat ?n :: 64 word)) = (2 ^ 31 - 1 < ?n)"
    using assms(3) by (simp_all add: word_less_nat_alt unat_of_nat64)
  have min: "signed_neg (word_of_nat (2 ^ 63) :: 64 word) = None" "signed_neg (word_of_nat (2 ^ 31) :: 32 word) = None"
    by (simp_all add: signed_neg_def)
  show ?thesis
  proof (cases "sg = 1")
    case True
    then show ?thesis using u sint_small(1) [of ?n, where 'a = 64] sint_small(1) [of ?n, where 'a = 32]
      by (simp add: narrows_def rp_str2int64_def rp_str2int32_def cmp [simplified] ucast_word_of_nat)
  next
    case False
    then have "sg = - 1" using parse_number_facts(3) [OF assms(2)] by simp
    then show ?thesis
      using u sint_small(2) [of ?n, where 'a = 64] sint_small(2) [of ?n, where 'a = 32] min
        signed_neg_nat [of ?n, where 'a = 64] signed_neg_nat [of ?n, where 'a = 32]
      by (auto simp: narrows_def rp_str2int64_def rp_str2int32_def cmp [simplified] ucast_word_of_nat)
  qed
qed

theorem rp_str2int_correct_witness:
  "narrows 64 (- 5) (rp_str2int64 (cstr ''-5'')) \<and> narrows 32 (- 5) (rp_str2int32 (cstr ''-5''))"
proof -
  have "parse_number ''-5'' = Some (- 1, 10, [5])" by code_simp
  then show ?thesis using rp_str2int_correct [of "''-5''" "- 1" 10 "[5]"] by (simp add: digits_value_def)
qed

text \<open>
  \<open>rp_str2uint64\<close> and \<open>rp_str2uint32\<close> on a number of 64 bits give 1 and the
  number when it has no minus sign and is in the range, 0 otherwise.
\<close>

theorem rp_str2uint_correct:
  assumes "no_nul s" and "parse_number s = Some (sg, b, ds)" and "digits_value b ds < 2 ^ 64"
  shows "map_option fst (rp_str2uint64 (cstr s)) = Some (if sg = 1 then 1 else 0) \<and>
    map_option fst (rp_str2uint32 (cstr s)) = Some (if sg = 1 \<and> digits_value b ds < 2 ^ 32 then 1 else 0) \<and>
    (\<forall>w. rp_str2uint64 (cstr s) = Some (1, w) \<longrightarrow> map_option unat w = Some (digits_value b ds)) \<and>
    (\<forall>w. rp_str2uint32 (cstr s) = Some (1, w) \<longrightarrow> map_option unat w = Some (digits_value b ds))"
proof -
  let ?n = "digits_value b ds"
  have u: "rp_str2u64 (cstr s) = Some (sg, Some (word_of_nat ?n))" by (rule rp_str2u64_in_range [OF assms])
  have cmp: "((word_of_nat ?n :: 64 word) \<le> 2 ^ 32 - 1) = (?n < 2 ^ 32)"
    using assms(3) by (auto simp: word_le_nat_alt unat_of_nat64)
  have sg: "0 < sg \<longleftrightarrow> sg = 1" using parse_number_facts(3) [OF assms(2)] by auto
  have w32: "unat (word_of_nat ?n :: 32 word) = ?n" if "?n < 2 ^ 32"
    using that by (simp add: unat_of_nat take_bit_nat_eq_self)
  show ?thesis using u sg unat_of_nat64 [OF assms(3)] w32
    by (auto simp: rp_str2uint64_def rp_str2uint32_def cmp [simplified] ucast_word_of_nat split: if_splits)
qed

theorem rp_str2uint_correct_witness:
  "map_option fst (rp_str2uint64 (cstr ''0b101'')) = Some 1 \<and>
    map_option fst (rp_str2uint32 (cstr ''0b101'')) = Some 1"
proof -
  have "parse_number ''0b101'' = Some (1, 2, [1, 0, 1])" by code_simp
  then show ?thesis using rp_str2uint_correct [of "''0b101''" 1 2 "[1, 0, 1]"] by (simp add: digits_value_def)
qed

end
