(* ===== verification/EnumMap.thy ===== *)
theory EnumMap
  imports Prelude
begin

text \<open>
  Association of labels and integers (\<open>src/misc/rp-enum-map.c\<close>): an array of labels and
  values ended by an entry with a \<open>NULL\<close> label. Searches return the index of an entry; the
  functions that report an invalid value return whether a message is emitted. The reference is
  the partial function that the entries before the end define, first entry first.
\<close>

subsection \<open>The code\<close>

record enum_entry =
  label :: "string option"
  enum_value :: int

text \<open>\<open>strcasecmp\<close> compares letters without their case, here in the C locale.\<close>

definition lower :: "char \<Rightarrow> char" where
  "lower c = (if 65 \<le> uchar c \<and> uchar c \<le> 90 then char_of (uchar c + 32) else c)"

definition strcaseeq :: "string \<Rightarrow> string \<Rightarrow> bool" where
  "strcaseeq a b \<longleftrightarrow> map lower a = map lower b"

function search_label :: "enum_entry list \<Rightarrow> nat \<Rightarrow> string \<Rightarrow> nat option option" where
  "search_label keyvals i lab = do {
     e \<leftarrow> load keyvals i;
     case label e of
       None \<Rightarrow> Some None
     | Some l \<Rightarrow> if strcaseeq l lab then Some (Some i) else search_label keyvals (i + 1) lab
   }"
  by pat_completeness auto
termination
  by (relation "measure (\<lambda>(keyvals, i, lab). length keyvals - i)") (auto simp: load_eq_Some)

function search_value :: "enum_entry list \<Rightarrow> nat \<Rightarrow> int \<Rightarrow> nat option option" where
  "search_value keyvals i v = do {
     e \<leftarrow> load keyvals i;
     case label e of
       None \<Rightarrow> Some None
     | Some l \<Rightarrow> if enum_value e = v then Some (Some i) else search_value keyvals (i + 1) v
   }"
  by pat_completeness auto
termination
  by (relation "measure (\<lambda>(keyvals, i, v). length keyvals - i)") (auto simp: load_eq_Some)

declare search_label.simps [simp del] search_value.simps [simp del]

text \<open>The result and whether \<open>RP_ERROR\<close> is called; the context is \<open>None\<close> for \<open>NULL\<close>.\<close>

definition rp_enum_map_check_value ::
  "enum_entry list \<Rightarrow> int \<Rightarrow> string option \<Rightarrow> (bool \<times> bool) option" where
  "rp_enum_map_check_value keyvals v ctx = do {
     r \<leftarrow> search_value keyvals 0 v;
     let valid = (r \<noteq> None);
     Some (valid, \<not> valid \<and> ctx \<noteq> None)
   }"

definition rp_enum_map_has_value :: "enum_entry list \<Rightarrow> int \<Rightarrow> bool option" where
  "rp_enum_map_has_value keyvals v = map_option fst (rp_enum_map_check_value keyvals v None)"

definition rp_enum_map_has_label :: "enum_entry list \<Rightarrow> string \<Rightarrow> bool option" where
  "rp_enum_map_has_label keyvals lab = do {
     r \<leftarrow> search_label keyvals 0 lab;
     Some (r \<noteq> None)
   }"

definition rp_enum_map_check_label ::
  "enum_entry list \<Rightarrow> string \<Rightarrow> string option \<Rightarrow> (bool \<times> bool) option" where
  "rp_enum_map_check_label keyvals lab ctx = do {
     r \<leftarrow> search_label keyvals 0 lab;
     let valid = (r \<noteq> None);
     Some (valid, \<not> valid \<and> ctx \<noteq> None)
   }"

text \<open>The returned boolean and \<open>*result\<close> after the call, given its content before.\<close>

definition rp_enum_map_value :: "enum_entry list \<Rightarrow> string \<Rightarrow> int \<Rightarrow> (bool \<times> int) option" where
  "rp_enum_map_value keyvals lab res = do {
     r \<leftarrow> search_label keyvals 0 lab;
     case r of
       None \<Rightarrow> Some (False, res)
     | Some i \<Rightarrow> do { e \<leftarrow> load keyvals i; Some (True, enum_value e) }
   }"

definition rp_enum_map_label ::
  "enum_entry list \<Rightarrow> int \<Rightarrow> string option \<Rightarrow> (bool \<times> string option) option" where
  "rp_enum_map_label keyvals v res = do {
     r \<leftarrow> search_value keyvals 0 v;
     case r of
       None \<Rightarrow> Some (False, res)
     | Some i \<Rightarrow> do { e \<leftarrow> load keyvals i; Some (True, label e) }
   }"

definition rp_enum_map_value_def :: "enum_entry list \<Rightarrow> string \<Rightarrow> int \<Rightarrow> int option" where
  "rp_enum_map_value_def keyvals lab d = map_option snd (rp_enum_map_value keyvals lab d)"

definition rp_enum_map_label_def :: "enum_entry list \<Rightarrow> int \<Rightarrow> string option \<Rightarrow> string option option" where
  "rp_enum_map_label_def keyvals v d = map_option snd (rp_enum_map_label keyvals v d)"

subsection \<open>The partial functions of an array\<close>

definition enum_array :: "(string \<times> int) list \<Rightarrow> enum_entry list \<Rightarrow> enum_entry list" where
  "enum_array xs rest =
     map (\<lambda>(l, v). \<lparr> label = Some l, enum_value = v \<rparr>) xs @ \<lparr> label = None, enum_value = 0 \<rparr> # rest"

definition value_of_label :: "(string \<times> int) list \<Rightarrow> string \<Rightarrow> int option" where
  "value_of_label xs lab = map_of (map (\<lambda>(l, v). (map lower l, v)) xs) (map lower lab)"

definition label_of_value :: "(string \<times> int) list \<Rightarrow> int \<Rightarrow> string option" where
  "label_of_value xs v = map_of (map (\<lambda>(l, v). (v, l)) xs) v"

lemma load_enum_array:
  "load (pre @ enum_array ((l, v) # xs) rest) (length pre) = Some \<lparr> label = Some l, enum_value = v \<rparr>"
  "load (pre @ enum_array [] rest) (length pre) = Some \<lparr> label = None, enum_value = 0 \<rparr>"
  by (simp_all add: enum_array_def load_def)

lemma enum_array_Cons:
  "enum_array ((l, v) # xs) rest = \<lparr> label = Some l, enum_value = v \<rparr> # enum_array xs rest"
  by (simp add: enum_array_def)

lemma search_label_eq:
  "\<exists>r. search_label (pre @ enum_array xs rest) (length pre) lab = Some r \<and>
    (case r of
       None \<Rightarrow> value_of_label xs lab = None
     | Some i \<Rightarrow> \<exists>e. load (pre @ enum_array xs rest) i = Some e \<and> value_of_label xs lab = Some (enum_value e))"
proof (induction xs arbitrary: pre)
  case Nil
  show ?case by (subst search_label.simps) (simp add: load_enum_array value_of_label_def)
next
  case (Cons x xs)
  obtain l v where x: "x = (l, v)" by (cases x)
  show ?case
  proof (cases "strcaseeq l lab")
    case True
    then show ?thesis unfolding x
      by (subst search_label.simps) (simp add: load_enum_array value_of_label_def strcaseeq_def)
  next
    case False
    then have "value_of_label (x # xs) lab = value_of_label xs lab"
      by (auto simp: x value_of_label_def strcaseeq_def)
    then show ?thesis unfolding x
      using False Cons.IH [of "pre @ [\<lparr> label = Some l, enum_value = v \<rparr>]"]
      by (subst search_label.simps)
        (auto simp: load_enum_array enum_array_Cons [symmetric] split: option.splits)
  qed
qed

lemma search_value_eq:
  "\<exists>r. search_value (pre @ enum_array xs rest) (length pre) v = Some r \<and>
    (case r of
       None \<Rightarrow> label_of_value xs v = None
     | Some i \<Rightarrow> \<exists>e l. load (pre @ enum_array xs rest) i = Some e \<and> label e = Some l \<and>
         label_of_value xs v = Some l)"
proof (induction xs arbitrary: pre)
  case Nil
  show ?case by (subst search_value.simps) (simp add: load_enum_array label_of_value_def)
next
  case (Cons x xs)
  obtain l w where x: "x = (l, w)" by (cases x)
  show ?case
  proof (cases "w = v")
    case True
    then show ?thesis unfolding x
      by (subst search_value.simps) (simp add: load_enum_array label_of_value_def)
  next
    case False
    then have "label_of_value (x # xs) v = label_of_value xs v"
      by (auto simp: x label_of_value_def)
    then show ?thesis unfolding x
      using False Cons.IH [of "pre @ [\<lparr> label = Some l, enum_value = w \<rparr>]"]
      by (subst search_value.simps)
        (auto simp: load_enum_array enum_array_Cons [symmetric] split: option.splits)
  qed
qed

subsection \<open>Properties\<close>

text \<open>
  The lookups of the enumeration maps stay within the array and compute its two
  partial functions: the value of the first entry whose label matches without case, the label
  of the first entry with the value; the result is left as it was when there is none.
\<close>

theorem rp_enum_map_correct:
  "rp_enum_map_value (enum_array xs rest) lab res =
      Some (case value_of_label xs lab of None \<Rightarrow> (False, res) | Some v \<Rightarrow> (True, v)) \<and>
    rp_enum_map_label (enum_array xs rest) v dft =
      Some (case label_of_value xs v of None \<Rightarrow> (False, dft) | Some l \<Rightarrow> (True, Some l)) \<and>
    rp_enum_map_value_def (enum_array xs rest) lab res =
      Some (case value_of_label xs lab of None \<Rightarrow> res | Some v \<Rightarrow> v) \<and>
    rp_enum_map_label_def (enum_array xs rest) v dft =
      Some (case label_of_value xs v of None \<Rightarrow> dft | Some l \<Rightarrow> Some l) \<and>
    rp_enum_map_check_value (enum_array xs rest) v ctx =
      Some (label_of_value xs v \<noteq> None, label_of_value xs v = None \<and> ctx \<noteq> None) \<and>
    rp_enum_map_check_label (enum_array xs rest) lab ctx =
      Some (value_of_label xs lab \<noteq> None, value_of_label xs lab = None \<and> ctx \<noteq> None)"
proof -
  obtain r where r: "search_label (enum_array xs rest) 0 lab = Some r"
    "case r of None \<Rightarrow> value_of_label xs lab = None
       | Some i \<Rightarrow> \<exists>e. load (enum_array xs rest) i = Some e \<and> value_of_label xs lab = Some (enum_value e)"
    using search_label_eq [of "[]" xs rest lab] unfolding append_Nil list.size by blast
  obtain q where q: "search_value (enum_array xs rest) 0 v = Some q"
    "case q of None \<Rightarrow> label_of_value xs v = None
       | Some i \<Rightarrow> \<exists>e l. load (enum_array xs rest) i = Some e \<and> label e = Some l \<and> label_of_value xs v = Some l"
    using search_value_eq [of "[]" xs rest v] unfolding append_Nil list.size by blast
  have 1: "rp_enum_map_value (enum_array xs rest) lab res =
      Some (case value_of_label xs lab of None \<Rightarrow> (False, res) | Some v \<Rightarrow> (True, v))"
    using r by (cases r) (auto simp: rp_enum_map_value_def)
  have 2: "rp_enum_map_label (enum_array xs rest) v dft =
      Some (case label_of_value xs v of None \<Rightarrow> (False, dft) | Some l \<Rightarrow> (True, Some l))"
    using q by (cases q) (auto simp: rp_enum_map_label_def)
  have 3: "rp_enum_map_check_value (enum_array xs rest) v ctx =
      Some (label_of_value xs v \<noteq> None, label_of_value xs v = None \<and> ctx \<noteq> None)"
    using q by (cases q) (auto simp: rp_enum_map_check_value_def)
  have 4: "rp_enum_map_check_label (enum_array xs rest) lab ctx =
      Some (value_of_label xs lab \<noteq> None, value_of_label xs lab = None \<and> ctx \<noteq> None)"
    using r by (cases r) (auto simp: rp_enum_map_check_label_def)
  show ?thesis using 1 2 3 4
    by (simp add: rp_enum_map_value_def_def rp_enum_map_label_def_def split: option.splits)
qed

text \<open>
  Labels and values translate back and forth when the array gives distinct values
  and labels that differ by more than their case.
\<close>

theorem rp_enum_map_round:
  assumes "distinct (map snd xs)" and "distinct (map (map lower \<circ> fst) xs)" and "(l, v) \<in> set xs"
  shows "rp_enum_map_value (enum_array xs rest) l res = Some (True, v) \<and>
    rp_enum_map_label (enum_array xs rest) v dft = Some (True, Some l)"
proof -
  have "value_of_label xs l = Some v"
    unfolding value_of_label_def using assms(2,3)
    by (intro map_of_is_SomeI) (auto simp: comp_def case_prod_beta image_iff intro!: bexI [of _ "(l, v)"])
  moreover have "label_of_value xs v = Some l"
    unfolding label_of_value_def using assms(1,3)
    by (intro map_of_is_SomeI) (auto simp: comp_def case_prod_beta image_iff intro!: bexI [of _ "(l, v)"])
  ultimately show ?thesis using rp_enum_map_correct [of xs rest l res v dft None] by simp
qed

theorem rp_enum_map_round_witness:
  "rp_enum_map_value (enum_array [(''on'', 1), (''off'', 0)] []) ''off'' 7 = Some (True, 0) \<and>
    rp_enum_map_label (enum_array [(''on'', 1), (''off'', 0)] []) 0 None = Some (True, Some ''off'')"
  by (rule rp_enum_map_round) (simp_all add: lower_def)

end
