(* ===== verification/Pearson.thy ===== *)
theory Pearson
  imports Prelude
begin

unbundle bit_operations_syntax

text \<open>
  The Pearson-like hashes of texts (\<open>src/misc/rp-pearson.c\<close> and the inline functions of
  \<open>src/misc/rp-pearson.h\<close>): the two 4-bit registers, the 8-bit hash, and the hashes of 3 to
  7 bits folded from it.
\<close>

subsection \<open>The code\<close>

definition TP4 :: "8 word list" where
  "TP4 = [4, 6, 1, 10, 9, 14, 11, 5, 3, 2, 12, 15, 0, 7, 8, 13]"

definition u8_char :: "char \<Rightarrow> 8 word" where
  "u8_char c = word_of_nat (uchar c)"

definition pearson_step :: "8 word \<times> 8 word \<Rightarrow> 8 word \<Rightarrow> (8 word \<times> 8 word) option" where
  "pearson_step r c = do {
     rl \<leftarrow> load TP4 (unat (fst r XOR (15 AND c)));
     ru \<leftarrow> load TP4 (unat (snd r XOR drop_bit 4 c));
     Some (rl, ru)
   }"

definition pearson_result :: "8 word \<times> 8 word \<Rightarrow> nat \<Rightarrow> 8 word" where
  "pearson_result r n = (push_bit 4 (snd r) OR fst r) XOR word_of_nat n"

function pearson8_loop :: "mem \<Rightarrow> nat \<Rightarrow> 8 word \<times> 8 word \<Rightarrow> 8 word option" where
  "pearson8_loop tx i r = do {
     ch \<leftarrow> load tx i;
     let c = u8_char ch;
     if c \<noteq> 0 then do {
       r \<leftarrow> pearson_step r c;
       pearson8_loop tx (i + 1) r
     } else Some (pearson_result r i)
   }"
  by pat_completeness auto
termination
  by (relation "measure (\<lambda>(tx, i, r). length tx - i)") (auto simp: load_eq_Some)

definition rp_pearson8 :: "mem \<Rightarrow> 8 word option" where
  "rp_pearson8 tx = pearson8_loop tx 0 (0, 15)"

function pearson8_len_loop :: "mem \<Rightarrow> nat \<Rightarrow> nat \<Rightarrow> 8 word \<times> 8 word \<Rightarrow> 8 word option" where
  "pearson8_len_loop tx n pos r =
     (if pos \<noteq> n then do {
        ch \<leftarrow> load tx pos;
        r \<leftarrow> pearson_step r (u8_char ch);
        pearson8_len_loop tx n (pos + 1) r
      } else Some (pearson_result r n))"
  by pat_completeness auto
termination
  by (relation "measure (\<lambda>(tx, n, pos, r). length tx - pos)") (auto simp: load_eq_Some)

declare pearson8_loop.simps [simp del] pearson8_len_loop.simps [simp del]

definition rp_pearson8_len :: "mem \<Rightarrow> nat \<Rightarrow> 8 word option" where
  "rp_pearson8_len tx n = pearson8_len_loop tx n 0 (0, 15)"

text \<open>The macros \<open>_DEF_RP_PEARSON_\<close> and \<open>_DEF_RP_PEARSON_LEN_\<close>, and their instances.\<close>

definition pearson_fold :: "nat \<Rightarrow> 8 word \<Rightarrow> 8 word" where
  "pearson_fold N h = (h XOR drop_bit (8 - N) h) AND drop_bit (8 - N) 255"

definition rp_pearson3 :: "mem \<Rightarrow> 8 word option" where
  "rp_pearson3 tx = map_option (pearson_fold 3) (rp_pearson8 tx)"

definition rp_pearson3_len :: "mem \<Rightarrow> nat \<Rightarrow> 8 word option" where
  "rp_pearson3_len tx n = map_option (pearson_fold 3) (rp_pearson8_len tx n)"

definition rp_pearson4 :: "mem \<Rightarrow> 8 word option" where
  "rp_pearson4 tx = map_option (pearson_fold 4) (rp_pearson8 tx)"

definition rp_pearson4_len :: "mem \<Rightarrow> nat \<Rightarrow> 8 word option" where
  "rp_pearson4_len tx n = map_option (pearson_fold 4) (rp_pearson8_len tx n)"

definition rp_pearson5 :: "mem \<Rightarrow> 8 word option" where
  "rp_pearson5 tx = map_option (pearson_fold 5) (rp_pearson8 tx)"

definition rp_pearson5_len :: "mem \<Rightarrow> nat \<Rightarrow> 8 word option" where
  "rp_pearson5_len tx n = map_option (pearson_fold 5) (rp_pearson8_len tx n)"

definition rp_pearson6 :: "mem \<Rightarrow> 8 word option" where
  "rp_pearson6 tx = map_option (pearson_fold 6) (rp_pearson8 tx)"

definition rp_pearson6_len :: "mem \<Rightarrow> nat \<Rightarrow> 8 word option" where
  "rp_pearson6_len tx n = map_option (pearson_fold 6) (rp_pearson8_len tx n)"

definition rp_pearson7 :: "mem \<Rightarrow> 8 word option" where
  "rp_pearson7 tx = map_option (pearson_fold 7) (rp_pearson8 tx)"

definition rp_pearson7_len :: "mem \<Rightarrow> nat \<Rightarrow> 8 word option" where
  "rp_pearson7_len tx n = map_option (pearson_fold 7) (rp_pearson8_len tx n)"

subsection \<open>The registers\<close>

text \<open>The table is a permutation of the 4-bit values, so that a step can be undone.\<close>

definition nibbles :: "8 word \<times> 8 word \<Rightarrow> bool" where
  "nibbles r \<longleftrightarrow> fst r < 16 \<and> snd r < 16"

fun pearson_run :: "8 word \<times> 8 word \<Rightarrow> string \<Rightarrow> 8 word \<times> 8 word" where
  "pearson_run r [] = r"
| "pearson_run r (c # s) = pearson_run (the (pearson_step r (u8_char c))) s"

lemma less_16: "w < (16 :: 8 word) \<longleftrightarrow> unat w < 16"
  by (simp add: word_less_nat_alt)

lemma word_of_less_16: "w < (16 :: 8 word) \<Longrightarrow> w \<in> set (map word_of_nat [0..<16])"
  by (auto simp: less_16 image_iff intro!: bexI [of _ "unat w"])

lemma xor_less_16: "a < (16 :: 8 word) \<Longrightarrow> b < 16 \<Longrightarrow> a XOR b < 16"
proof -
  have "\<forall>a \<in> set (map word_of_nat [0..<16] :: 8 word list). \<forall>b \<in> set (map word_of_nat [0..<16]). a XOR b < 16"
    by code_simp
  then show "a < (16 :: 8 word) \<Longrightarrow> b < 16 \<Longrightarrow> a XOR b < 16" using word_of_less_16 by blast
qed

lemma TP4_less: "i < 16 \<Longrightarrow> TP4 ! i < 16"
proof -
  have "\<forall>w \<in> set TP4. w < 16" by code_simp
  moreover have "length TP4 = 16" by (simp add: TP4_def)
  ultimately show "i < 16 \<Longrightarrow> TP4 ! i < 16" by (metis nth_mem)
qed

lemma length_TP4 [simp]: "length TP4 = 16"
  by (simp add: TP4_def)

lemma TP4_inj: "i < 16 \<Longrightarrow> j < 16 \<Longrightarrow> TP4 ! i = TP4 ! j \<longleftrightarrow> i = j"
proof -
  have "distinct TP4" by code_simp
  then show "i < 16 \<Longrightarrow> j < 16 \<Longrightarrow> TP4 ! i = TP4 ! j \<longleftrightarrow> i = j" by (simp add: nth_eq_iff_index_eq)
qed

lemma nibble_bounds: "15 AND c < (16 :: 8 word)" "drop_bit 4 c < (16 :: 8 word)"
proof -
  have "(15 :: 8 word) = mask 4" by (simp add: mask_eq_exp_minus_1)
  then have "15 AND c = take_bit 4 c" by (simp only: take_bit_eq_mask and.commute)
  then have "unat (15 AND c) < 2 ^ 4" by (simp only: unsigned_take_bit_eq take_bit_nat_less_exp)
  then show "15 AND c < (16 :: 8 word)" by (simp add: less_16)
  have "unat (drop_bit 4 c) = unat c div 16" using unat_drop [of 4 c] by (simp del: drop_bit_eq_div)
  moreover have "unat c < 2 ^ LENGTH(8)" by (rule unsigned_less)
  ultimately show "drop_bit 4 c < (16 :: 8 word)" by (simp add: less_16)
qed

lemma pearson_step_eq:
  assumes "nibbles r"
  shows "pearson_step r c =
    Some (TP4 ! unat (fst r XOR (15 AND c)), TP4 ! unat (snd r XOR drop_bit 4 c))"
    and "nibbles (the (pearson_step r c))"
proof -
  have i: "unat (fst r XOR (15 AND c)) < 16" "unat (snd r XOR drop_bit 4 c) < 16"
    using assms xor_less_16 nibble_bounds by (simp_all add: nibbles_def flip: less_16)
  then show s: "pearson_step r c =
      Some (TP4 ! unat (fst r XOR (15 AND c)), TP4 ! unat (snd r XOR drop_bit 4 c))"
    by (simp add: pearson_step_def)
  show "nibbles (the (pearson_step r c))" unfolding s using i TP4_less by (simp add: nibbles_def)
qed

lemma nibbles_run: "nibbles r \<Longrightarrow> nibbles (pearson_run r s)"
  by (induction s arbitrary: r) (simp_all add: pearson_step_eq(2))

lemma nibbles_init [simp]: "nibbles (0, 15)"
  by (simp add: nibbles_def)

lemma u8_char_zero: "u8_char c = 0 \<longleftrightarrow> c = NUL"
proof -
  have "unat (u8_char c) = uchar c"
    using uchar_bound [of c] by (simp add: u8_char_def unat_of_nat take_bit_nat_eq_self)
  then have "u8_char c = 0 \<longleftrightarrow> uchar c = uchar NUL" by (simp add: word_unat_eq_iff)
  then show ?thesis by (simp only: char_eq_uchar)
qed

lemma pearson8_len_loop_eq:
  assumes "nibbles r" and "i \<le> n" and "n \<le> length tx"
  shows "pearson8_len_loop tx n i r = Some (pearson_result (pearson_run r (chunk tx i n)) n)"
  using assms
proof (induction "n - i" arbitrary: i r)
  case 0
  then show ?case by (subst pearson8_len_loop.simps) simp
next
  case (Suc k)
  then have i: "i < n" "i < length tx" by simp_all
  show ?case using Suc i pearson_step_eq [OF Suc.prems(1)] chunk_Cons [OF i(1) Suc.prems(3)]
    by (subst pearson8_len_loop.simps) simp
qed

lemma pearson8_loop_eq:
  assumes "nibbles r" and "drop i tx = cstr s" and "no_nul s"
  shows "pearson8_loop tx i r = Some (pearson_result (pearson_run r s) (i + length s))"
  using assms
proof (induction s arbitrary: i r)
  case Nil
  then have "load tx i = Some NUL" by (auto simp: cstr_def load_def) (metis drop_all linorder_not_less list.distinct(1) nth_Cons_0 Cons_nth_drop_Suc)+
  then show ?case by (subst pearson8_loop.simps) (simp add: u8_char_zero)
next
  case (Cons c s)
  have i: "i < length tx" using Cons.prems(2) by (metis cstr_def append_Cons drop_all linorder_not_less list.distinct(1))
  then have "load tx i = Some c" "drop (i + 1) tx = cstr s"
    using Cons.prems(2) by (simp_all add: cstr_def Cons_nth_drop_Suc [symmetric])
  then show ?case using Cons pearson_step_eq [OF Cons.prems(1)]
    by (subst pearson8_loop.simps) (simp add: u8_char_zero)
qed

subsection \<open>Steps can be undone\<close>

lemma xor_cancel: "a XOR c = b XOR c \<longleftrightarrow> a = (b :: 8 word)" "c XOR a = c XOR b \<longleftrightarrow> a = b"
  by (metis xor.assoc xor_self_eq xor.right_neutral) (metis xor.assoc xor_self_eq xor.left_neutral)

lemma byte_nibbles: "15 AND c = 15 AND d \<Longrightarrow> drop_bit 4 c = drop_bit 4 d \<Longrightarrow> c = (d :: 8 word)"
proof -
  assume "15 AND c = 15 AND d" and "drop_bit 4 c = drop_bit 4 d"
  moreover have "(15 :: 8 word) = mask 4" by (simp add: mask_eq_exp_minus_1)
  ultimately have "take_bit 4 c = take_bit 4 d" "drop_bit 4 c = drop_bit 4 d"
    by (simp_all only: take_bit_eq_mask and.commute)
  then show "c = d" by (metis bits_ident)
qed

lemma pearson_step_inj:
  assumes "nibbles r" and "nibbles q"
  shows "the (pearson_step r c) = the (pearson_step q c) \<longleftrightarrow> r = q"
    and "the (pearson_step r c) = the (pearson_step r d) \<longleftrightarrow> c = d"
proof -
  have b: "unat (x XOR (15 AND c)) < 16" "unat (x XOR drop_bit 4 c) < 16" if "x < 16" for x c :: "8 word"
    using that xor_less_16 nibble_bounds by (simp_all flip: less_16)
  show "the (pearson_step r c) = the (pearson_step q c) \<longleftrightarrow> r = q"
    using assms b by (auto simp: pearson_step_eq nibbles_def TP4_inj xor_cancel prod_eq_iff simp flip: word_unat_eq_iff)
  show "the (pearson_step r c) = the (pearson_step r d) \<longleftrightarrow> c = d"
    using assms b byte_nibbles [of c d]
    by (auto simp: pearson_step_eq nibbles_def TP4_inj xor_cancel simp flip: word_unat_eq_iff)
qed

lemma pearson_run_inj: "nibbles r \<Longrightarrow> nibbles q \<Longrightarrow> pearson_run r s = pearson_run q s \<longleftrightarrow> r = q"
  by (induction s arbitrary: r q) (simp_all add: pearson_step_eq(2) pearson_step_inj)

lemma pearson_run_append: "pearson_run r (s @ t) = pearson_run (pearson_run r s) t"
  by (induction s arbitrary: r) simp_all

lemma pearson_result_inj:
  assumes "nibbles r" and "nibbles q"
  shows "pearson_result r n = pearson_result q n \<longleftrightarrow> r = q"
proof -
  have "\<forall>u \<in> set (map word_of_nat [0..<16] :: 8 word list). \<forall>l \<in> set (map word_of_nat [0..<16]).
      drop_bit 4 (push_bit 4 u OR l) = u \<and> 15 AND (push_bit 4 u OR l) = l"
    by code_simp
  then have "drop_bit 4 (push_bit 4 u OR l) = u \<and> 15 AND (push_bit 4 u OR l) = l"
    if "u < 16" "l < 16" for u l :: "8 word"
    using that word_of_less_16 by blast
  then show ?thesis using assms unfolding pearson_result_def xor_cancel nibbles_def
    by (metis prod.collapse)
qed

subsection \<open>Properties\<close>

text \<open>
  On a C string the two 8-bit hashes agree, and neither reads outside of the text
  or of the permutation table.
\<close>

theorem rp_pearson8_len_equiv:
  assumes "no_nul s"
  shows "rp_pearson8 (cstr s) = rp_pearson8_len (cstr s) (length s) \<and> rp_pearson8 (cstr s) \<noteq> None"
  using pearson8_loop_eq [of "(0, 15)" 0 "cstr s" s] pearson8_len_loop_eq [of "(0, 15)" 0 "length s" "cstr s"] assms
  by (simp add: rp_pearson8_def rp_pearson8_len_def)

theorem rp_pearson8_len_equiv_witness:
  "rp_pearson8 (cstr ''ab'') = rp_pearson8_len (cstr ''ab'') 2 \<and> rp_pearson8 (cstr ''ab'') \<noteq> None"
proof -
  have "no_nul ''ab''" and n: "length ''ab'' = 2" by simp_all
  then show ?thesis using rp_pearson8_len_equiv [of "''ab''"] unfolding n by blast
qed

text \<open>
  The hash tells apart any two texts that differ in one character: each step
  permutes the registers.
\<close>

theorem rp_pearson8_one_char:
  assumes "no_nul (s @ c # t)" and "no_nul (s @ d # t)"
  shows "rp_pearson8 (cstr (s @ c # t)) = rp_pearson8 (cstr (s @ d # t)) \<longleftrightarrow> c = d"
proof -
  have h: "rp_pearson8 (cstr (s @ x # t)) =
      Some (pearson_result (pearson_run (0, 15) (s @ x # t)) (length s + Suc (length t)))"
    if "no_nul (s @ x # t)" for x
    using pearson8_loop_eq [of "(0, 15)" 0 "cstr (s @ x # t)" "s @ x # t"] that
    by (simp add: rp_pearson8_def)
  let ?r = "pearson_run (0, 15) s"
  have r: "nibbles ?r" by (rule nibbles_run) simp
  have inj: "u8_char c = u8_char d \<longleftrightarrow> c = d"
    using uchar_bound [of c] uchar_bound [of d]
    by (auto simp: u8_char_def word_unat_eq_iff unat_of_nat take_bit_nat_eq_self char_eq_uchar)
  show ?thesis unfolding h [OF assms(1)] h [OF assms(2)]
    using r by (simp add: pearson_result_inj nibbles_run pearson_step_eq(2) pearson_run_append
        pearson_run_inj pearson_step_inj(2) [OF r r] inj)
qed

theorem rp_pearson8_one_char_witness:
  "rp_pearson8 (cstr ''cat'') \<noteq> rp_pearson8 (cstr ''cut'')"
  using rp_pearson8_one_char [of "''c''" "CHR ''a''" "''t''" "CHR ''u''"] by simp

lemma pearson_fold_less: "N \<in> {3, 4, 5, 6, 7} \<Longrightarrow> unat (pearson_fold N h) < 2 ^ N"
proof -
  have "pearson_fold N h = take_bit N (h XOR drop_bit (8 - N) h)" if "drop_bit (8 - N) 255 = (mask N :: 8 word)"
    unfolding pearson_fold_def that by (simp add: take_bit_eq_mask)
  moreover assume "N \<in> {3, 4, 5, 6, 7}"
  then have "drop_bit (8 - N) 255 = (mask N :: 8 word)" by (auto simp: mask_eq_exp_minus_1)
  ultimately show ?thesis by (simp only: unsigned_take_bit_eq take_bit_nat_less_exp)
qed

text \<open>
  The hashes of N bits, for N from 3 to 7, are less than \<open>2 ^ N\<close>, so that they
  index a table of that size; on a C string the two forms agree.
\<close>

theorem rp_pearson_bits:
  assumes "no_nul s"
  shows "(\<exists>h. rp_pearson3 (cstr s) = Some h \<and> rp_pearson3_len (cstr s) (length s) = Some h \<and> unat h < 8) \<and>
    (\<exists>h. rp_pearson4 (cstr s) = Some h \<and> rp_pearson4_len (cstr s) (length s) = Some h \<and> unat h < 16) \<and>
    (\<exists>h. rp_pearson5 (cstr s) = Some h \<and> rp_pearson5_len (cstr s) (length s) = Some h \<and> unat h < 32) \<and>
    (\<exists>h. rp_pearson6 (cstr s) = Some h \<and> rp_pearson6_len (cstr s) (length s) = Some h \<and> unat h < 64) \<and>
    (\<exists>h. rp_pearson7 (cstr s) = Some h \<and> rp_pearson7_len (cstr s) (length s) = Some h \<and> unat h < 128)"
proof -
  obtain h where "rp_pearson8 (cstr s) = Some h" "rp_pearson8_len (cstr s) (length s) = Some h"
    using pearson8_loop_eq [of "(0, 15)" 0 "cstr s" s] pearson8_len_loop_eq [of "(0, 15)" 0 "length s" "cstr s"] assms
    by (simp add: rp_pearson8_def rp_pearson8_len_def)
  then show ?thesis
    using pearson_fold_less [of 3 h] pearson_fold_less [of 4 h] pearson_fold_less [of 5 h]
      pearson_fold_less [of 6 h] pearson_fold_less [of 7 h]
    by (simp add: rp_pearson3_def rp_pearson4_def rp_pearson5_def rp_pearson6_def rp_pearson7_def
        rp_pearson3_len_def rp_pearson4_len_def rp_pearson5_len_def rp_pearson6_len_def rp_pearson7_len_def)
qed

theorem rp_pearson_bits_witness:
  "\<exists>h. rp_pearson4 (cstr ''key'') = Some h \<and> unat h < 16"
  using rp_pearson_bits [of "''key''"] by auto

end
