(* ===== verification/JsonStr.thy ===== *)
theory JsonStr
  imports Prelude
begin

text \<open>
  JSON strings (\<open>src/json/rp-jsonstr.c\<close>): the three escaping routines against the text they
  promise. Reading stops at the given length or at the first zero, whichever comes first.
\<close>

subsection \<open>Escaping: the code\<close>

definition json_hex :: "int \<Rightarrow> char" where
  "json_hex d = to_char (d + (if d > 9 then schar (CHR ''a'') - 10 else schar (CHR ''0'')))"

function json_escape_length_loop :: "mem \<Rightarrow> nat \<Rightarrow> nat \<Rightarrow> nat \<Rightarrow> nat option" where
  "json_escape_length_loop str maxlen i r =
     (if i < maxlen then do {
        c \<leftarrow> load str i;
        if c = NUL then Some r
        else json_escape_length_loop str maxlen (i + 1)
          (if 32 > uchar c then r + 6
           else if c = CHR 0x22 \<or> c = CHR 0x5C then r + 2 else r + 1)
      } else Some r)"
  by pat_completeness auto
termination
  by (relation "measure (\<lambda>(str, maxlen, i, r). maxlen - i)") auto

definition rp_jsonstr_string_escape_length :: "mem \<Rightarrow> nat \<Rightarrow> nat option" where
  "rp_jsonstr_string_escape_length str maxlen = json_escape_length_loop str maxlen 0 0"

text \<open>The body of the loop: \<open>dest\<close> and \<open>r\<close> before the final \<open>r++\<close>.\<close>

definition json_put_char :: "nat \<Rightarrow> char \<Rightarrow> mem \<Rightarrow> nat \<Rightarrow> (mem \<times> nat) option" where
  "json_put_char destlenmax c dest r =
     (if 32 > uchar c then do {
        dest \<leftarrow> store dest r (CHR 0x5C);
        dest \<leftarrow> put destlenmax dest (r + 1) (CHR ''u'');
        dest \<leftarrow> put destlenmax dest (r + 2) (CHR ''0'');
        dest \<leftarrow> put destlenmax dest (r + 3) (CHR ''0'');
        dest \<leftarrow> put destlenmax dest (r + 4) (json_hex (shr4_and15 c));
        dest \<leftarrow> put destlenmax dest (r + 5) (json_hex (and15 c));
        Some (dest, r + 5)
      }
      else if c = CHR 0x22 \<or> c = CHR 0x5C then do {
        dest \<leftarrow> store dest r (CHR 0x5C);
        dest \<leftarrow> put destlenmax dest (r + 1) c;
        Some (dest, r + 1)
      }
      else do {
        dest \<leftarrow> store dest r c;
        Some (dest, r)
      })"

text \<open>The loop returns \<open>i\<close>, \<open>r\<close>, whether a character is left at \<open>i\<close>, and \<open>dest\<close>.\<close>

function json_escape_loop :: "nat \<Rightarrow> mem \<Rightarrow> nat \<Rightarrow> nat \<Rightarrow> nat \<Rightarrow> mem \<Rightarrow> (nat \<times> nat \<times> bool \<times> mem) option" where
  "json_escape_loop destlenmax str n i r dest =
     (if i < n then do {
        c \<leftarrow> load str i;
        if c \<noteq> NUL \<and> r < destlenmax then do {
          (dest, r) \<leftarrow> json_put_char destlenmax c dest r;
          json_escape_loop destlenmax str n (i + 1) (r + 1) dest
        } else Some (i, r, c \<noteq> NUL, dest)
      } else Some (i, r, False, dest))"
  by pat_completeness auto
termination
  by (relation "measure (\<lambda>(destlenmax, str, n, i, r, dest). n - i)") auto

definition rp_jsonstr_string_escape :: "mem \<Rightarrow> nat \<Rightarrow> mem \<Rightarrow> nat \<Rightarrow> (nat \<times> mem) option" where
  "rp_jsonstr_string_escape dest destlenmax str n = do {
     (i, r, more, dest) \<leftarrow> json_escape_loop destlenmax str n 0 0 dest;
     r \<leftarrow> (if more then do {
             l \<leftarrow> rp_jsonstr_string_escape_length (drop i str) (n - i);
             Some (r + l)
           } else Some r);
     dest \<leftarrow> put destlenmax dest r NUL;
     Some (r, dest)
   }"

function json_unsafe_loop :: "mem \<Rightarrow> nat \<Rightarrow> nat \<Rightarrow> nat \<Rightarrow> mem \<Rightarrow> (nat \<times> mem) option" where
  "json_unsafe_loop str n i r dest =
     (if i < n then do {
        c \<leftarrow> load str i;
        if c = NUL then Some (r, dest)
        else do {
          (dest, r) \<leftarrow>
            (if 32 > uchar c then do {
               dest \<leftarrow> store dest r (CHR 0x5C);
               dest \<leftarrow> store dest (r + 1) (CHR ''u'');
               dest \<leftarrow> store dest (r + 2) (CHR ''0'');
               dest \<leftarrow> store dest (r + 3) (CHR ''0'');
               dest \<leftarrow> store dest (r + 4) (json_hex (shr4_and15 c));
               dest \<leftarrow> store dest (r + 5) (json_hex (and15 c));
               Some (dest, r + 5)
             }
             else if c = CHR 0x22 \<or> c = CHR 0x5C then do {
               dest \<leftarrow> store dest r (CHR 0x5C);
               dest \<leftarrow> store dest (r + 1) c;
               Some (dest, r + 1)
             }
             else do {
               dest \<leftarrow> store dest r c;
               Some (dest, r)
             });
          json_unsafe_loop str n (i + 1) (r + 1) dest
        }
      } else Some (r, dest))"
  by pat_completeness auto
termination
  by (relation "measure (\<lambda>(str, n, i, r, dest). n - i)") auto

definition rp_jsonstr_string_escape_unsafe :: "mem \<Rightarrow> mem \<Rightarrow> nat \<Rightarrow> (nat \<times> mem) option" where
  "rp_jsonstr_string_escape_unsafe dest str n = do {
     (r, dest) \<leftarrow> json_unsafe_loop str n 0 0 dest;
     dest \<leftarrow> store dest r NUL;
     Some (r, dest)
   }"

declare json_escape_length_loop.simps [simp del] json_escape_loop.simps [simp del]
  json_unsafe_loop.simps [simp del]

subsection \<open>Escaping: the text\<close>

definition json_char :: "char \<Rightarrow> string" where
  "json_char c =
     (if uchar c < 32
      then [CHR 0x5C, CHR ''u'', CHR ''0'', CHR ''0'',
        ''0123456789abcdef'' ! (uchar c div 16), ''0123456789abcdef'' ! (uchar c mod 16)]
      else if c = CHR 0x22 \<or> c = CHR 0x5C then [CHR 0x5C, c]
      else [c])"

definition json_string :: "string \<Rightarrow> string" where
  "json_string s = concat (map json_char s)"

lemma json_string_simps [simp]:
  "json_string [] = []"
  "json_string (c # s) = json_char c @ json_string s"
  by (simp_all add: json_string_def)

lemma json_hex_digit: "d < 16 \<Longrightarrow> json_hex (int d) = ''0123456789abcdef'' ! d"
proof -
  assume "d < 16"
  then have "d = 0 \<or> d = 1 \<or> d = 2 \<or> d = 3 \<or> d = 4 \<or> d = 5 \<or> d = 6 \<or> d = 7 \<or> d = 8 \<or>
       d = 9 \<or> d = 10 \<or> d = 11 \<or> d = 12 \<or> d = 13 \<or> d = 14 \<or> d = 15"
    by arith
  then show ?thesis by (elim disjE) (simp_all add: json_hex_def to_char_def cchar)
qed

lemma json_hex_nibbles:
  "json_hex (shr4_and15 c) = ''0123456789abcdef'' ! (uchar c div 16)"
  "json_hex (and15 c) = ''0123456789abcdef'' ! (uchar c mod 16)"
  using uchar_bound [of c] json_hex_digit [of "uchar c div 16"] json_hex_digit [of "uchar c mod 16"]
  by (simp_all add: shr4_and15_eq and15_eq less_mult_imp_div_less del: of_nat_div of_nat_mod zdiv_int zmod_int)

subsection \<open>Reading up to a length or a zero\<close>

definition text_upto :: "mem \<Rightarrow> nat \<Rightarrow> nat \<Rightarrow> string" where
  "text_upto str i n = takeWhile (\<lambda>c. c \<noteq> NUL) (chunk str i n)"

definition readable :: "mem \<Rightarrow> nat \<Rightarrow> nat \<Rightarrow> bool" where
  "readable str i n \<longleftrightarrow> n \<le> length str \<or> NUL \<in> set (drop i str)"

lemma readable_load: "readable str i n \<Longrightarrow> i < n \<Longrightarrow> load str i = Some (str ! i) \<and> i < length str"
  by (cases "i < length str") (auto simp: readable_def)

lemma text_upto_step:
  assumes "readable str i n" and "i < n"
  shows "str ! i = NUL \<Longrightarrow> text_upto str i n = []"
    and "str ! i \<noteq> NUL \<Longrightarrow> text_upto str i n = str ! i # text_upto str (Suc i) n"
    and "str ! i \<noteq> NUL \<Longrightarrow> readable str (Suc i) n"
proof -
  have i: "i < length str" using readable_load [OF assms] by simp
  then have c: "chunk str i n = str ! i # chunk str (Suc i) n"
    using assms(2) by (simp add: chunk_def Cons_nth_drop_Suc [symmetric] Suc_diff_Suc take_Cons')
  show "str ! i = NUL \<Longrightarrow> text_upto str i n = []" by (simp add: text_upto_def c)
  show "str ! i \<noteq> NUL \<Longrightarrow> text_upto str i n = str ! i # text_upto str (Suc i) n"
    by (simp add: text_upto_def c)
  show "str ! i \<noteq> NUL \<Longrightarrow> readable str (Suc i) n"
    using assms(1) i by (auto simp: readable_def Cons_nth_drop_Suc [symmetric])
qed

lemma text_upto_end [simp]: "n \<le> i \<Longrightarrow> text_upto str i n = []"
  by (simp add: text_upto_def)

lemma text_upto_drop: "text_upto (drop i str) 0 (n - i) = text_upto str i n"
  by (simp add: text_upto_def chunk_def)

lemma readable_drop: "readable str i n \<Longrightarrow> readable (drop i str) 0 (n - i)"
  by (auto simp: readable_def)

lemma json_escape_length_loop_eq:
  "readable str i n \<Longrightarrow>
    json_escape_length_loop str n i r = Some (r + length (json_string (text_upto str i n)))"
proof (induction "n - i" arbitrary: i r)
  case 0
  then show ?case by (subst json_escape_length_loop.simps) simp
next
  case (Suc k)
  then have i: "i < n" "load str i = Some (str ! i)" using readable_load by simp_all
  show ?case
  proof (cases "str ! i = NUL")
    case True
    then show ?thesis using i text_upto_step(1) [OF Suc.prems i(1)]
      by (subst json_escape_length_loop.simps) simp
  next
    case False
    then show ?thesis using i text_upto_step(2,3) [OF Suc.prems i(1)] Suc
      by (subst json_escape_length_loop.simps) (simp add: json_char_def)
  qed
qed

lemma rp_jsonstr_string_escape_length_eq:
  "readable str 0 n \<Longrightarrow>
    rp_jsonstr_string_escape_length str n = Some (length (json_string (text_upto str 0 n)))"
  by (simp add: rp_jsonstr_string_escape_length_def json_escape_length_loop_eq)

lemma store_puts: "r < olen \<Longrightarrow> olen \<le> length buf \<Longrightarrow> store buf r c = Some (puts olen buf r [c])"
  by (simp add: store_def)

lemma puts_six:
  "puts olen b r [c1, c2, c3, c4, c5, c6] =
    puts olen (puts olen (puts olen (puts olen (puts olen (puts olen b r [c1]) (r + 1) [c2])
      (r + 2) [c3]) (r + 3) [c4]) (r + 4) [c5]) (r + 5) [c6]"
proof -
  have "[c1, c2, c3, c4, c5, c6] = [c1] @ [c2] @ [c3] @ [c4] @ [c5] @ [c6]" by simp
  then show ?thesis by (simp only: puts_append) (simp add: eval_nat_numeral del: puts.simps)
qed

lemma json_put_char_eq:
  assumes "r < olen" and "olen \<le> length dest"
  shows "json_put_char olen c dest r =
    Some (puts olen dest r (json_char c), r + length (json_char c) - 1)"
proof -
  note p = store_puts [OF assms] put_eq_puts
  show ?thesis
  proof (cases "uchar c < 32")
    case True
    let ?h = "''0123456789abcdef'' ! (uchar c div 16)" and ?l = "''0123456789abcdef'' ! (uchar c mod 16)"
    have "json_char c = [CHR 0x5C, CHR ''u'', CHR ''0'', CHR ''0'', ?h, ?l]"
      using True by (simp add: json_char_def)
    then have "puts olen dest r (json_char c) =
        puts olen (puts olen (puts olen (puts olen (puts olen (puts olen dest r [CHR 0x5C]) (r + 1) [CHR ''u''])
          (r + 2) [CHR ''0'']) (r + 3) [CHR ''0'']) (r + 4) [?h]) (r + 5) [?l]"
      and "length (json_char c) = 6"
      by (simp_all only: puts_six, simp)
    then show ?thesis
      unfolding json_put_char_def if_P [OF True] json_hex_nibbles store_puts [OF assms] bind.bind_lunit
      by (simp only: put_eq_puts assms(2) length_puts bind.bind_lunit) simp
  next
    case False
    show ?thesis
    proof (cases "c = CHR 0x22 \<or> c = CHR 0x5C")
      case True
      have "puts olen dest r ([CHR 0x5C] @ [c]) = puts olen (puts olen dest r [CHR 0x5C]) (r + 1) [c]"
        by (simp only: puts_append) simp
      then show ?thesis using True False assms
        by (auto simp: json_put_char_def p json_char_def simp del: puts.simps)
    next
      case plain: False
      then show ?thesis using False assms by (simp add: json_put_char_def p json_char_def del: puts.simps)
    qed
  qed
qed

lemma json_char_not_Nil [simp]: "json_char c \<noteq> []"
  by (simp add: json_char_def)

lemma json_escape_loop_eq:
  assumes "readable str i n" and "olen \<le> length dest"
  shows "\<exists>j more s t. json_escape_loop olen str n i r dest =
      Some (j, r + length (json_string s), more, puts olen dest r (json_string s)) \<and>
    text_upto str i n = s @ t \<and>
    (if more then t = text_upto str j n \<and> readable str j n \<and> olen \<le> r + length (json_string s) else t = [])"
  using assms
proof (induction "n - i" arbitrary: i r dest)
  case 0
  then show ?case by (subst json_escape_loop.simps) (auto intro!: exI [of _ "[]"])
next
  case (Suc k)
  then have i: "i < n" "load str i = Some (str ! i)" using readable_load by simp_all
  show ?case
  proof (cases "str ! i \<noteq> NUL \<and> r < olen")
    case False
    then show ?thesis using i text_upto_step(1) [OF Suc.prems(1) i(1)] Suc.prems(1)
      by - (rule exI [of _ i], rule exI [of _ "str ! i \<noteq> NUL"], rule exI [of _ "[]"],
          rule exI [of _ "text_upto str i n"], subst json_escape_loop.simps, auto)
  next
    case True
    let ?c = "str ! i"
    note step = text_upto_step(2,3) [OF Suc.prems(1) i(1)]
    have k: "k = n - Suc i" using Suc.hyps(2) by simp
    have len: "olen \<le> length (puts olen dest r (json_char ?c))" using Suc.prems(2) by simp
    have "json_put_char olen ?c dest r = Some (puts olen dest r (json_char ?c), r + length (json_char ?c) - 1)"
      using True Suc.prems(2) by (intro json_put_char_eq) simp_all
    moreover obtain j more s t where ih: "json_escape_loop olen str n (Suc i) (r + length (json_char ?c))
        (puts olen dest r (json_char ?c)) =
        Some (j, r + length (json_char ?c) + length (json_string s), more,
          puts olen (puts olen dest r (json_char ?c)) (r + length (json_char ?c)) (json_string s))"
      "text_upto str (Suc i) n = s @ t"
      "if more then t = text_upto str j n \<and> readable str j n \<and>
         olen \<le> r + length (json_char ?c) + length (json_string s) else t = []"
      using Suc.hyps(1) [OF k step(2) len, of "r + length (json_char ?c)"] True by blast
    moreover have "Suc (r + length (json_char ?c) - Suc 0) = r + length (json_char ?c)"
      by (cases "json_char ?c") simp_all
    ultimately have "json_escape_loop olen str n i r dest =
        Some (j, r + length (json_string (?c # s)), more, puts olen dest r (json_string (?c # s)))"
      using True i by (subst json_escape_loop.simps) (simp add: puts_append add.assoc)
    then show ?thesis using ih(2,3) step(1) True
      by - (rule exI [of _ j], rule exI [of _ more], rule exI [of _ "?c # s"], rule exI [of _ t],
          auto simp: add.assoc)
  qed
qed

lemma rp_jsonstr_string_escape_eq:
  assumes "readable str 0 n" and "olen \<le> length dest"
  shows "rp_jsonstr_string_escape dest olen str n =
    (let t = json_string (text_upto str 0 n) in Some (length t, puts olen dest 0 (t @ [NUL])))"
proof -
  let ?t = "json_string (text_upto str 0 n)"
  obtain j more s t where l: "json_escape_loop olen str n 0 0 dest =
      Some (j, length (json_string s), more, puts olen dest 0 (json_string s))"
    "text_upto str 0 n = s @ t"
    "if more then t = text_upto str j n \<and> readable str j n \<and> olen \<le> length (json_string s) else t = []"
    using json_escape_loop_eq [OF assms, of 0] by (simp only: add_0) blast
  have tt: "?t = json_string s @ json_string t" by (simp add: l(2) json_string_def)
  have fin: "put olen (puts olen dest 0 ?t) (length ?t) NUL = Some (puts olen dest 0 (?t @ [NUL]))"
    using assms(2) by (simp add: put_eq_puts puts_append del: puts.simps)
  show ?thesis
  proof (cases more)
    case False
    then show ?thesis using l fin by (simp add: rp_jsonstr_string_escape_def Let_def)
  next
    case True
    then have m: "t = text_upto str j n" "readable str j n" "olen \<le> length (json_string s)"
      using l(3) by simp_all
    have "rp_jsonstr_string_escape_length (drop j str) (n - j) = Some (length (json_string t))"
      using rp_jsonstr_string_escape_length_eq [OF readable_drop [OF m(2)]] m(1)
      by (simp add: text_upto_drop)
    moreover have "puts olen dest 0 ?t = puts olen dest 0 (json_string s)"
      unfolding tt using m(3) by (simp add: puts_append puts_beyond)
    ultimately show ?thesis using True l fin tt
      by (simp add: rp_jsonstr_string_escape_def Let_def)
  qed
qed

interpretation json_escape_writer: bounded_writer
  "\<lambda>(str, n) olen dest. rp_jsonstr_string_escape dest olen str n"
  "\<lambda>(str, n). json_string (text_upto str 0 n)"
  "\<lambda>(str, n). readable str 0 n"
  by unfold_locales (auto simp: rp_jsonstr_string_escape_eq Let_def)

lemma json_unsafe_loop_eq:
  assumes "readable str i n" and "r + length (json_string (text_upto str i n)) \<le> length dest"
  shows "json_unsafe_loop str n i r dest =
    Some (r + length (json_string (text_upto str i n)), overwrite dest r (json_string (text_upto str i n)))"
  using assms
proof (induction "n - i" arbitrary: i r dest)
  case 0
  then show ?case by (subst json_unsafe_loop.simps) simp
next
  case (Suc k)
  then have i: "i < n" "load str i = Some (str ! i)" using readable_load by simp_all
  show ?case
  proof (cases "str ! i = NUL")
    case True
    then show ?thesis using i text_upto_step(1) [OF Suc.prems(1) i(1)]
      by (subst json_unsafe_loop.simps) simp
  next
    case False
    let ?c = "str ! i" and ?r = "r + length (json_char (str ! i))"
    note step = text_upto_step(2,3) [OF Suc.prems(1) i(1) False]
    have room: "?r \<le> length dest" "?r + length (json_string (text_upto str (Suc i) n)) \<le> length dest"
      using Suc.prems(2) unfolding step(1) by simp_all
    have body: "(if 32 > uchar ?c then do {
               dest \<leftarrow> store dest r (CHR 0x5C);
               dest \<leftarrow> store dest (r + 1) (CHR ''u'');
               dest \<leftarrow> store dest (r + 2) (CHR ''0'');
               dest \<leftarrow> store dest (r + 3) (CHR ''0'');
               dest \<leftarrow> store dest (r + 4) (json_hex (shr4_and15 ?c));
               dest \<leftarrow> store dest (r + 5) (json_hex (and15 ?c));
               Some (dest, r + 5)
             }
             else if ?c = CHR 0x22 \<or> ?c = CHR 0x5C then do {
               dest \<leftarrow> store dest r (CHR 0x5C);
               dest \<leftarrow> store dest (r + 1) ?c;
               Some (dest, r + 1)
             }
             else do {
               dest \<leftarrow> store dest r ?c;
               Some (dest, r)
             }) = json_put_char (length dest) ?c dest r"
      using room(1) unfolding json_put_char_def
      by (auto simp: put_def json_char_def store_def)
    have put: "json_put_char (length dest) ?c dest r = Some (overwrite dest r (json_char ?c), ?r - 1)"
      using room(1) json_put_char_eq [of r "length dest" dest ?c] puts_overwrite [of r "json_char ?c" "length dest" dest]
      by (cases "json_char ?c") simp_all
    have suc: "Suc (?r - Suc 0) = ?r" by (cases "json_char ?c") simp_all
    have ih: "json_unsafe_loop str n (Suc i) ?r (overwrite dest r (json_char ?c)) =
        Some (?r + length (json_string (text_upto str (Suc i) n)),
          overwrite (overwrite dest r (json_char ?c)) ?r (json_string (text_upto str (Suc i) n)))"
      using Suc.hyps(1) [of "Suc i"] Suc.hyps(2) step(2) room by simp
    show ?thesis
      using i False ih suc put room overwrite_append [of r "json_char ?c" "json_string (text_upto str (Suc i) n)" dest]
      by (subst json_unsafe_loop.simps) (simp only: if_True if_False bind.bind_lunit body step(1), simp add: add.assoc)
  qed
qed

lemma rp_jsonstr_string_escape_unsafe_eq:
  assumes "readable str 0 n" and "length (json_string (text_upto str 0 n)) < length dest"
  shows "rp_jsonstr_string_escape_unsafe dest str n =
    (let t = json_string (text_upto str 0 n) in Some (length t, overwrite dest 0 (cstr t)))"
  using json_unsafe_loop_eq [OF assms(1), of 0 dest] assms(2)
    overwrite_append [of 0 "json_string (text_upto str 0 n)" "[NUL]" dest]
  by (simp add: rp_jsonstr_string_escape_unsafe_def Let_def store_overwrite cstr_def)

subsection \<open>Properties of escaping\<close>

text \<open>
  Property C9: \<open>rp_jsonstr_string_escape\<close> returns the length of the whole escaped text,
  whatever the room, and puts in the buffer what fits of the text and its terminating zero; it
  does not touch what lies after the given length.
\<close>

theorem rp_jsonstr_string_escape_correct:
  assumes "readable str 0 n" and "olen \<le> length dest"
  shows "\<exists>dest'. rp_jsonstr_string_escape dest olen str n =
      Some (length (json_string (text_upto str 0 n)), dest') \<and>
    take olen dest' = take olen (cstr (json_string (text_upto str 0 n)) @
      drop (length (json_string (text_upto str 0 n)) + 1) dest) \<and>
    drop olen dest' = drop olen dest"
proof -
  let ?t = "json_string (text_upto str 0 n)"
  have "take olen (puts olen dest 0 (cstr ?t)) = take olen (cstr ?t @ drop (length ?t + 1) dest)"
    using assms(2) by (intro nth_equalityI) (auto simp: puts_nth nth_append)
  then show ?thesis
    using rp_jsonstr_string_escape_eq [OF assms]
    by (intro exI [of _ "puts olen dest 0 (cstr ?t)"]) (simp add: Let_def cstr_def puts_rest)
qed

theorem rp_jsonstr_string_escape_correct_witness:
  "\<exists>dest'. rp_jsonstr_string_escape ''######'' 4 (cstr [CHR ''a'', CHR 0x0A]) 9 = Some (7, dest') \<and>
    take 4 dest' = [CHR ''a'', CHR 0x5C, CHR ''u'', CHR ''0''] \<and> drop 4 dest' = ''##''"
proof -
  have r: "readable (cstr [CHR ''a'', CHR 0x0A]) 0 9" by (simp add: readable_def cstr_def)
  have t: "text_upto (cstr [CHR ''a'', CHR 0x0A]) 0 9 = [CHR ''a'', CHR 0x0A]"
    by (simp add: text_upto_def cstr_def)
  have j: "json_string [CHR ''a'', CHR 0x0A] = [CHR ''a'', CHR 0x5C, CHR ''u'', CHR ''0'', CHR ''0'', CHR ''0'', CHR ''a'']"
    by (simp add: json_char_def)
  have l: "length [CHR ''a'', CHR 0x5C, CHR ''u'', CHR ''0'', CHR ''0'', CHR ''0'', CHR ''a''] = 7" by simp
  show ?thesis
    using rp_jsonstr_string_escape_correct [OF r, of 4 "''######''"] unfolding t j l
    by (simp add: cstr_def)
qed

text \<open>
  \<open>rp_jsonstr_string_escape_unsafe\<close> in a block longer than what
  \<open>rp_jsonstr_string_escape_length\<close> measured stays within the block and writes the whole
  escaped text with its zero.
\<close>

theorem rp_jsonstr_string_escape_unsafe_correct:
  assumes "readable str 0 n" and "rp_jsonstr_string_escape_length str n = Some k" and "k < length dest"
  shows "rp_jsonstr_string_escape_unsafe dest str n =
    Some (k, cstr (json_string (text_upto str 0 n)) @ drop (k + 1) dest)"
proof -
  have "k = length (json_string (text_upto str 0 n))"
    using rp_jsonstr_string_escape_length_eq [OF assms(1)] assms(2) by simp
  then show ?thesis
    using rp_jsonstr_string_escape_unsafe_eq [OF assms(1), of dest] assms(3)
    by (simp add: Let_def overwrite_def)
qed

theorem rp_jsonstr_string_escape_unsafe_correct_witness:
  "rp_jsonstr_string_escape_unsafe ''#########'' (cstr [CHR 0x22, CHR ''b'']) 9 =
    Some (3, [CHR 0x5C, CHR 0x22, CHR ''b'', NUL] @ ''#####'')"
proof -
  have r: "readable (cstr [CHR 0x22, CHR ''b'']) 0 9" by (simp add: readable_def cstr_def)
  have t: "text_upto (cstr [CHR 0x22, CHR ''b'']) 0 9 = [CHR 0x22, CHR ''b'']"
    by (simp add: text_upto_def cstr_def)
  have j: "json_string [CHR 0x22, CHR ''b''] = [CHR 0x5C, CHR 0x22, CHR ''b'']" by (simp add: json_char_def)
  show ?thesis
    using rp_jsonstr_string_escape_unsafe_correct [OF r, of 3 "''#########''"]
      rp_jsonstr_string_escape_length_eq [OF r] unfolding t j
    by (simp add: cstr_def)
qed

text \<open>
  The length that \<open>rp_jsonstr_string_escape_length\<close> returns is the length of
  the escaped text. (It is 11 for \<open>hello\<close> and a new line, where the comment of the header
  file gives 13.)
\<close>

theorem rp_jsonstr_string_escape_length_correct:
  "(readable str 0 n \<longrightarrow>
      rp_jsonstr_string_escape_length str n = Some (length (json_string (text_upto str 0 n)))) \<and>
    rp_jsonstr_string_escape_length (cstr (''hello'' @ [CHR 0x0A])) 10000 = Some 11"
proof (intro conjI impI rp_jsonstr_string_escape_length_eq)
  have r: "readable (cstr (''hello'' @ [CHR 0x0A])) 0 10000" by (simp add: readable_def cstr_def)
  show "rp_jsonstr_string_escape_length (cstr (''hello'' @ [CHR 0x0A])) 10000 = Some 11"
    unfolding rp_jsonstr_string_escape_length_eq [OF r]
    by (simp add: text_upto_def cstr_def json_char_def)
qed

theorem rp_jsonstr_string_escape_length_correct_witness:
  "rp_jsonstr_string_escape_length (cstr ''hi'') 1 = Some 1"
  using rp_jsonstr_string_escape_length_correct [of "cstr ''hi''" 1]
  by (simp add: readable_def cstr_def text_upto_def json_char_def)

end
