(* ===== verification/JsonTest.thy ===== *)
theory JsonTest
  imports JsonStr
begin

text \<open>
  The JSON validator of \<open>src/json/rp-jsonstr.c\<close>: the reader with one character of
  look-ahead, the recursive descent over it, and the language that it accepts. The recursion
  has a fuel; \<open>rp_jsonstr_test\<close> gives one that is shown to be enough for every text.
\<close>

subsection \<open>The reader\<close>

record readtxt =
  rt_c :: char
  rt_pos :: nat
  rt_end :: nat

definition init_readtxt :: "mem \<Rightarrow> nat \<Rightarrow> readtxt option" where
  "init_readtxt str lenmax =
     (if lenmax \<noteq> 0 then do {
        c \<leftarrow> load str 0;
        Some \<lparr> rt_c = c, rt_pos = 1, rt_end = lenmax \<rparr>
      } else Some \<lparr> rt_c = NUL, rt_pos = 0, rt_end = lenmax \<rparr>)"

definition read_readtxt :: "mem \<Rightarrow> readtxt \<Rightarrow> readtxt option" where
  "read_readtxt str rt =
     (if rt_pos rt = rt_end rt then Some (rt \<lparr> rt_c := NUL \<rparr>)
      else do {
        c \<leftarrow> load str (rt_pos rt);
        if c = NUL then Some (rt \<lparr> rt_c := c, rt_end := rt_pos rt \<rparr>)
        else Some (rt \<lparr> rt_c := c, rt_pos := rt_pos rt + 1 \<rparr>)
      })"

text \<open>What is left to read decreases with each character read.\<close>

definition rt_left :: "mem \<Rightarrow> readtxt \<Rightarrow> nat" where
  "rt_left str rt = 2 * (length str - rt_pos rt) + (if rt_c rt = NUL then 0 else 1)"

lemma read_left:
  assumes "read_readtxt str rt = Some rt'"
  shows "rt_left str rt' \<le> rt_left str rt"
    and "rt_c rt \<noteq> NUL \<or> rt_c rt' \<noteq> NUL \<Longrightarrow> rt_left str rt' < rt_left str rt"
  using assms by (auto simp: read_readtxt_def rt_left_def load_eq_Some split: if_splits Option.bind_splits)

definition json_space :: "char \<Rightarrow> bool" where
  "json_space c \<longleftrightarrow> c = CHR '' '' \<or> c = CHR 0x0A \<or> c = CHR 0x0D \<or> c = CHR 0x09"

function skip_whitespaces :: "mem \<Rightarrow> readtxt \<Rightarrow> readtxt option" where
  "skip_whitespaces str rt =
     (if json_space (rt_c rt) then do {
        rt \<leftarrow> read_readtxt str rt;
        skip_whitespaces str rt
      } else Some rt)"
  by pat_completeness auto
termination
  by (relation "measure (\<lambda>(str, rt). rt_left str rt)") (auto simp: json_space_def intro!: read_left(2))

definition json_digit :: "char \<Rightarrow> bool" where
  "json_digit c \<longleftrightarrow> schar c \<ge> schar (CHR ''0'') \<and> schar c \<le> schar (CHR ''9'')"

definition read_next_hex_readtxt :: "mem \<Rightarrow> readtxt \<Rightarrow> (bool \<times> readtxt) option" where
  "read_next_hex_readtxt str rt = do {
     rt \<leftarrow> read_readtxt str rt;
     Some (json_digit (rt_c rt)
       \<or> schar (rt_c rt) \<ge> schar (CHR ''a'') \<and> schar (rt_c rt) \<le> schar (CHR ''f'')
       \<or> schar (rt_c rt) \<ge> schar (CHR ''A'') \<and> schar (rt_c rt) \<le> schar (CHR ''F''), rt)
   }"

text \<open>Four hexadecimal digits, read one after the other while they are digits.\<close>

definition read_hex4 :: "mem \<Rightarrow> readtxt \<Rightarrow> (bool \<times> readtxt) option" where
  "read_hex4 str rt = do {
     (h, rt) \<leftarrow> read_next_hex_readtxt str rt;
     if \<not> h then Some (False, rt) else do {
       (h, rt) \<leftarrow> read_next_hex_readtxt str rt;
       if \<not> h then Some (False, rt) else do {
         (h, rt) \<leftarrow> read_next_hex_readtxt str rt;
         if \<not> h then Some (False, rt) else read_next_hex_readtxt str rt
       }
     }
   }"

lemma read_hex_left: "read_next_hex_readtxt str rt = Some (h, rt') \<Longrightarrow> rt_left str rt' \<le> rt_left str rt"
  using read_left(1) by (auto simp: read_next_hex_readtxt_def split: Option.bind_splits)

lemma read_hex4_left: "read_hex4 str rt = Some (h, rt') \<Longrightarrow> rt_left str rt' \<le> rt_left str rt"
  by (auto simp: read_hex4_def split: Option.bind_splits if_splits prod.splits dest!: read_hex_left)

function test_string_loop :: "mem \<Rightarrow> readtxt \<Rightarrow> (bool \<times> readtxt) option" where
  "test_string_loop str rt = do {
     rt \<leftarrow> read_readtxt str rt;
     if rt_c rt = NUL then Some (False, rt)
     else if rt_c rt = CHR 0x22 then do {
       rt \<leftarrow> read_readtxt str rt;
       Some (True, rt)
     }
     else if rt_c rt = CHR 0x5C then do {
       rt \<leftarrow> read_readtxt str rt;
       if rt_c rt \<in> {CHR 0x22, CHR 0x5C, CHR ''/'', CHR ''b'', CHR ''n'', CHR ''f'', CHR ''r'', CHR ''t''}
       then test_string_loop str rt
       else if rt_c rt = CHR ''u'' then do {
         (h, rt) \<leftarrow> read_hex4 str rt;
         if h then test_string_loop str rt else Some (False, rt)
       }
       else Some (False, rt)
     }
     else test_string_loop str rt
   }"
  by pat_completeness auto
termination
proof (relation "measure (\<lambda>(str, rt). rt_left str rt)", goal_cases)
  case 1
  show ?case by simp
next
  case (2 str rt rt1 rt2)
  then show ?case using read_left(2) [of str rt rt1] read_left(1) [of str rt1 rt2] by simp
next
  case (3 str rt rt1 rt2 p h rt3)
  then show ?case using read_left(2) [of str rt rt1] read_left(1) [of str rt1 rt2] read_hex4_left [of str rt2 h rt3]
    by simp
next
  case (4 str rt rt1)
  then show ?case using read_left(2) [of str rt rt1] by simp
qed

declare skip_whitespaces.simps [simp del] test_string_loop.simps [simp del]

definition test_string :: "mem \<Rightarrow> readtxt \<Rightarrow> (bool \<times> readtxt) option" where
  "test_string str rt =
     (if rt_c rt \<noteq> CHR 0x22 then Some (False, rt) else test_string_loop str rt)"

function skip_digits :: "mem \<Rightarrow> readtxt \<Rightarrow> readtxt option" where
  "skip_digits str rt =
     (if json_digit (rt_c rt) then do {
        rt \<leftarrow> read_readtxt str rt;
        skip_digits str rt
      } else Some rt)"
  by pat_completeness auto
termination
  by (relation "measure (\<lambda>(str, rt). rt_left str rt)") (auto simp: json_digit_def schar_def intro!: read_left(2))

declare skip_digits.simps [simp del]

definition test_number :: "mem \<Rightarrow> readtxt \<Rightarrow> (bool \<times> readtxt) option" where
  "test_number str rt =
     (if schar (rt_c rt) < schar (CHR ''0'') \<or> schar (rt_c rt) > schar (CHR ''9'') then Some (False, rt)
      else do {
        rt \<leftarrow> skip_digits str rt;
        rt \<leftarrow> (if rt_c rt = CHR ''.'' then do { rt \<leftarrow> read_readtxt str rt; skip_digits str rt } else Some rt);
        if rt_c rt = CHR ''e'' \<or> rt_c rt = CHR ''E'' then do {
          rt \<leftarrow> read_readtxt str rt;
          rt \<leftarrow> (if rt_c rt = CHR ''-'' \<or> rt_c rt = CHR ''+'' then read_readtxt str rt else Some rt);
          if schar (rt_c rt) < schar (CHR ''0'') \<or> schar (rt_c rt) > schar (CHR ''9'') then Some (False, rt)
          else do {
            rt \<leftarrow> skip_digits str rt;
            Some (True, rt)
          }
        }
        else Some (True, rt)
      })"

fun test_literal :: "mem \<Rightarrow> readtxt \<Rightarrow> string \<Rightarrow> (bool \<times> readtxt) option" where
  "test_literal str rt [] = Some (True, rt)"
| "test_literal str rt (l # ls) =
     (if rt_c rt \<noteq> l then Some (False, rt)
      else do {
        rt \<leftarrow> read_readtxt str rt;
        test_literal str rt ls
      })"

subsection \<open>The recursive descent\<close>

text \<open>
  The objects and arrays are tested with a given test of the values in them, which is
  \<open>test_value\<close> with less fuel; the loops over the elements have a fuel too.
\<close>

type_synonym tester = "mem \<Rightarrow> readtxt \<Rightarrow> (bool \<times> readtxt) option"

primrec object_loop :: "tester \<Rightarrow> nat \<Rightarrow> mem \<Rightarrow> readtxt \<Rightarrow> (bool \<times> readtxt) option" where
  "object_loop tv 0 str rt = None"
| "object_loop tv (Suc fuel) str rt =
     (if rt_c rt = CHR ''}'' then do { rt \<leftarrow> read_readtxt str rt; Some (True, rt) }
      else do {
        (r, rt) \<leftarrow> test_string str rt;
        if \<not> r then Some (False, rt)
        else do {
          rt \<leftarrow> skip_whitespaces str rt;
          if rt_c rt \<noteq> CHR '':'' then Some (False, rt)
          else do {
            rt \<leftarrow> read_readtxt str rt;
            (r, rt) \<leftarrow> tv str rt;
            if \<not> r then Some (False, rt)
            else if rt_c rt = CHR '','' then do {
              rt \<leftarrow> read_readtxt str rt;
              rt \<leftarrow> skip_whitespaces str rt;
              object_loop tv fuel str rt
            }
            else if rt_c rt = CHR ''}'' then object_loop tv fuel str rt
            else Some (False, rt)
          }
        }
      })"

definition test_object :: "tester \<Rightarrow> nat \<Rightarrow> mem \<Rightarrow> readtxt \<Rightarrow> (bool \<times> readtxt) option" where
  "test_object tv fuel str rt =
     (if rt_c rt \<noteq> CHR ''{'' then Some (False, rt)
      else do {
        rt \<leftarrow> read_readtxt str rt;
        rt \<leftarrow> skip_whitespaces str rt;
        object_loop tv fuel str rt
      })"

primrec array_loop :: "tester \<Rightarrow> nat \<Rightarrow> mem \<Rightarrow> readtxt \<Rightarrow> (bool \<times> readtxt) option" where
  "array_loop tv 0 str rt = None"
| "array_loop tv (Suc fuel) str rt =
     (if rt_c rt = CHR '']'' then do { rt \<leftarrow> read_readtxt str rt; Some (True, rt) }
      else do {
        (r, rt) \<leftarrow> tv str rt;
        if \<not> r then Some (False, rt)
        else if rt_c rt = CHR '','' then do {
          rt \<leftarrow> read_readtxt str rt;
          array_loop tv fuel str rt
        }
        else if rt_c rt = CHR '']'' then array_loop tv fuel str rt
        else Some (False, rt)
      })"

definition test_array :: "tester \<Rightarrow> nat \<Rightarrow> mem \<Rightarrow> readtxt \<Rightarrow> (bool \<times> readtxt) option" where
  "test_array tv fuel str rt =
     (if rt_c rt \<noteq> CHR ''['' then Some (False, rt)
      else do {
        rt \<leftarrow> read_readtxt str rt;
        rt \<leftarrow> skip_whitespaces str rt;
        array_loop tv fuel str rt
      })"

primrec test_value :: "nat \<Rightarrow> mem \<Rightarrow> readtxt \<Rightarrow> (bool \<times> readtxt) option" where
  "test_value 0 str rt = None"
| "test_value (Suc fuel) str rt = do {
     rt \<leftarrow> skip_whitespaces str rt;
     (r, rt) \<leftarrow>
       (let c = rt_c rt in
        if c = CHR ''n'' then test_literal str rt ''null''
        else if c = CHR ''t'' then test_literal str rt ''true''
        else if c = CHR ''f'' then test_literal str rt ''false''
        else if c = CHR ''-'' \<or> c = CHR ''+'' then do { rt \<leftarrow> read_readtxt str rt; test_number str rt }
        else if json_digit c then test_number str rt
        else if c = CHR 0x22 then test_string str rt
        else if c = CHR ''['' then test_array (test_value fuel) fuel str rt
        else if c = CHR ''{'' then test_object (test_value fuel) fuel str rt
        else Some (False, rt));
     if \<not> r then Some (False, rt)
     else do {
       rt \<leftarrow> skip_whitespaces str rt;
       Some (True, rt)
     }
   }"

text \<open>The result and \<open>*size\<close>, a subtraction of \<open>size_t\<close> values that wraps.\<close>

definition rp_jsonstr_test :: "mem \<Rightarrow> nat \<Rightarrow> (bool \<times> 64 word) option" where
  "rp_jsonstr_test str lenmax = do {
     rt \<leftarrow> init_readtxt str lenmax;
     (v, rt) \<leftarrow> test_value (lenmax + 2) str rt;
     let r = (v \<and> rt_c rt = NUL);
     Some (r, word_of_nat (rt_pos rt) - (if r then 0 else 1))
   }"

subsection \<open>The language\<close>

text \<open>
  What is read of a text, as functions on the text that is left. A string is read after its
  opening quote.
\<close>

definition hex_digit :: "char \<Rightarrow> bool" where
  "hex_digit c \<longleftrightarrow> c \<in> set ''0123456789abcdefABCDEF''"

definition json_skip :: "string \<Rightarrow> string" where
  "json_skip s = dropWhile json_space s"

function json_str :: "string \<Rightarrow> string option" where
  "json_str s = (case s of
      [] \<Rightarrow> None
    | c # t \<Rightarrow>
        if c = CHR 0x22 then Some t
        else if c \<noteq> CHR 0x5C then json_str t
        else (case t of
            [] \<Rightarrow> None
          | e # u \<Rightarrow>
              if e \<in> {CHR 0x22, CHR 0x5C, CHR ''/'', CHR ''b'', CHR ''n'', CHR ''f'', CHR ''r'', CHR ''t''}
              then json_str u
              else if e = CHR ''u'' \<and> 4 \<le> length u \<and> list_all hex_digit (take 4 u)
              then json_str (drop 4 u) else None))"
  by pat_completeness auto
termination
  by (relation "measure length") auto

declare json_str.simps [simp del]

definition json_digits :: "string \<Rightarrow> string" where
  "json_digits s = dropWhile json_digit s"

definition json_starts_digit :: "string \<Rightarrow> bool" where
  "json_starts_digit s \<longleftrightarrow> (case s of [] \<Rightarrow> False | c # _ \<Rightarrow> json_digit c)"

definition json_fraction :: "string \<Rightarrow> string" where
  "json_fraction s = (case s of [] \<Rightarrow> [] | c # t \<Rightarrow> if c = CHR ''.'' then json_digits t else s)"

definition json_unsign :: "string \<Rightarrow> string" where
  "json_unsign s = (case s of [] \<Rightarrow> [] | c # t \<Rightarrow> if c = CHR ''-'' \<or> c = CHR ''+'' then t else s)"

definition json_exponent :: "string \<Rightarrow> string option" where
  "json_exponent s = (case s of
      [] \<Rightarrow> Some []
    | c # t \<Rightarrow>
        if c = CHR ''e'' \<or> c = CHR ''E'' then
          (if json_starts_digit (json_unsign t) then Some (json_digits (json_unsign t)) else None)
        else Some s)"

definition json_number :: "string \<Rightarrow> string option" where
  "json_number s =
     (if json_starts_digit s then json_exponent (json_fraction (json_digits s)) else None)"

fun json_literal :: "string \<Rightarrow> string \<Rightarrow> string option" where
  "json_literal [] s = Some s"
| "json_literal (l # ls) [] = None"
| "json_literal (l # ls) (c # s) = (if c = l then json_literal ls s else None)"

text \<open>
  \<open>json_value s t\<close>: a value, with the white space around it, leads from the text
  \<open>s\<close> to what is left, \<open>t\<close>; the same for what follows an opening bracket or brace.
\<close>

inductive json_value :: "string \<Rightarrow> string \<Rightarrow> bool"
  and json_elems :: "string \<Rightarrow> string \<Rightarrow> bool"
  and json_members :: "string \<Rightarrow> string \<Rightarrow> bool" where
  lit: "l \<in> {''null'', ''true'', ''false''} \<Longrightarrow> json_literal l (json_skip s) = Some r \<Longrightarrow>
    json_value s (json_skip r)"
| num: "json_number (json_unsign (json_skip s)) = Some r \<Longrightarrow> json_value s (json_skip r)"
| str: "json_skip s = CHR 0x22 # u \<Longrightarrow> json_str u = Some r \<Longrightarrow> json_value s (json_skip r)"
| arr: "json_skip s = CHR ''['' # u \<Longrightarrow> json_elems (json_skip u) r \<Longrightarrow> json_value s (json_skip r)"
| obj: "json_skip s = CHR ''{'' # u \<Longrightarrow> json_members (json_skip u) r \<Longrightarrow> json_value s (json_skip r)"
| elems_end: "json_elems (CHR '']'' # r) r"
| elems_more: "json_value s (CHR '','' # t) \<Longrightarrow> json_elems t r \<Longrightarrow> json_elems s r"
| elems_last: "json_value s (CHR '']'' # r) \<Longrightarrow> json_elems s r"
| members_end: "json_members (CHR ''}'' # r) r"
| members_more: "json_str u = Some v \<Longrightarrow> json_skip v = CHR '':'' # w \<Longrightarrow> json_value w (CHR '','' # t) \<Longrightarrow>
    json_members (json_skip t) r \<Longrightarrow> json_members (CHR 0x22 # u) r"
| members_last: "json_str u = Some v \<Longrightarrow> json_skip v = CHR '':'' # w \<Longrightarrow> json_value w (CHR ''}'' # r) \<Longrightarrow>
    json_members (CHR 0x22 # u) r"

inductive_cases json_valueE: "json_value s t"
inductive_cases json_elemsE: "json_elems s t"
inductive_cases json_membersE: "json_members s t"

definition json_accepts :: "string \<Rightarrow> bool" where
  "json_accepts s \<longleftrightarrow> json_value s []"

subsection \<open>Each reading consumes and is determined\<close>

lemma length_json_skip: "length (json_skip s) \<le> length s"
  by (simp add: json_skip_def length_dropWhile_le)

lemma length_json_digits: "length (json_digits s) \<le> length s"
  by (simp add: json_digits_def length_dropWhile_le)

lemma json_digits_less: "json_starts_digit s \<Longrightarrow> length (json_digits s) < length s"
  using length_json_digits [of "tl s"]
  by (cases s) (auto simp: json_starts_digit_def json_digits_def)

lemma json_str_simps:
  "json_str [] = None"
  "json_str (CHR 0x22 # t) = Some t"
  "c \<noteq> CHR 0x22 \<Longrightarrow> c \<noteq> CHR 0x5C \<Longrightarrow> json_str (c # t) = json_str t"
  "json_str [CHR 0x5C] = None"
  "e \<in> {CHR 0x22, CHR 0x5C, CHR ''/'', CHR ''b'', CHR ''n'', CHR ''f'', CHR ''r'', CHR ''t''} \<Longrightarrow>
    json_str (CHR 0x5C # e # u) = json_str u"
  "json_str (CHR 0x5C # CHR ''u'' # u) =
    (if 4 \<le> length u \<and> list_all hex_digit (take 4 u) then json_str (drop 4 u) else None)"
  "e \<notin> {CHR 0x22, CHR 0x5C, CHR ''/'', CHR ''b'', CHR ''n'', CHR ''f'', CHR ''r'', CHR ''t'', CHR ''u''} \<Longrightarrow>
    json_str (CHR 0x5C # e # u) = None"
  by (subst json_str.simps; simp)+

lemma json_str_split:
  obtains (nil) "s = []" | (quote) t where "s = CHR 0x22 # t"
    | (plain) c t where "s = c # t" "c \<noteq> CHR 0x22" "c \<noteq> CHR 0x5C"
    | (cut) "s = [CHR 0x5C]"
    | (esc) e u where "s = CHR 0x5C # e # u"
        "e \<in> {CHR 0x22, CHR 0x5C, CHR ''/'', CHR ''b'', CHR ''n'', CHR ''f'', CHR ''r'', CHR ''t''}"
    | (unicode) u where "s = CHR 0x5C # CHR ''u'' # u"
    | (bad) e u where "s = CHR 0x5C # e # u"
        "e \<notin> {CHR 0x22, CHR 0x5C, CHR ''/'', CHR ''b'', CHR ''n'', CHR ''f'', CHR ''r'', CHR ''t'', CHR ''u''}"
proof (cases s)
  case (Cons c t)
  consider "c = CHR 0x22" | "c = CHR 0x5C" | "c \<noteq> CHR 0x22 \<and> c \<noteq> CHR 0x5C" by blast
  then show thesis
  proof cases
    case 2
    show thesis
    proof (cases t)
      case Nil
      then show thesis using cut 2 Cons by blast
    next
      case (Cons e u)
      then show thesis using esc [of e u] unicode [of u] bad [of e u] 2 \<open>s = c # t\<close> by blast
    qed
  qed (use quote plain Cons in blast)+
qed (use nil in blast)

lemma length_json_str: "json_str s = Some t \<Longrightarrow> length t < length s"
proof (induction s rule: length_induct)
  case (1 s)
  show ?case
  proof (cases s rule: json_str_split)
    case (plain c u)
    then show ?thesis using 1 by (fastforce simp: json_str_simps)
  next
    case (esc e u)
    then have "json_str u = Some t" using 1(2) json_str_simps(5) [OF esc(2), of u] by (simp only:)
    moreover have "length u < length s" using esc by simp
    ultimately show ?thesis using 1(1) by (meson less_trans)
  next
    case (unicode u)
    then have "json_str (drop 4 u) = Some t" using 1(2) by (simp add: json_str_simps split: if_splits)
    moreover have "length (drop 4 u) < length s" using unicode by simp
    ultimately show ?thesis using 1(1) by fastforce
  next
    case (bad e u)
    then show ?thesis using 1(2) json_str_simps(7) [OF bad(2), of u] by simp
  qed (use 1(2) in \<open>simp_all add: json_str_simps\<close>)
qed

lemma json_unsign_length: "length (json_unsign s) \<le> length s"
  by (auto simp: json_unsign_def split: list.splits)

lemma length_json_number: "json_number s = Some t \<Longrightarrow> length t < length s"
proof -
  assume n: "json_number s = Some t"
  then have d: "json_starts_digit s" by (auto simp: json_number_def split: if_splits)
  have f: "length (json_fraction u) \<le> length u" for u
    using length_json_digits [of "tl u"] by (cases u) (auto simp: json_fraction_def)
  have e: "json_exponent u = Some v \<Longrightarrow> length v \<le> length u" for u v
    using length_json_digits [of "json_unsign (tl u)"] json_unsign_length [of "tl u"]
    by (cases u) (auto simp: json_exponent_def split: if_splits)
  show ?thesis
    using n d e [of "json_fraction (json_digits s)" t] f [of "json_digits s"] json_digits_less [OF d]
    by (simp add: json_number_def)
qed

lemma length_json_literal: "json_literal l s = Some t \<Longrightarrow> s = l @ t"
  by (induction l s rule: json_literal.induct) (auto split: if_splits)

lemma json_shorter:
  "json_value s t \<Longrightarrow> length t < length s"
  "json_elems s t \<Longrightarrow> length t < length s"
  "json_members s t \<Longrightarrow> length t < length s"
proof (induction rule: json_value_json_elems_json_members.inducts)
  case (lit l s r)
  then have "length r < length (json_skip s)" by (auto dest!: length_json_literal)
  then show ?case using length_json_skip [of s] length_json_skip [of r] by linarith
next
  case (num s r)
  then show ?case
    using length_json_number [OF num] json_unsign_length [of "json_skip s"] length_json_skip [of s] length_json_skip [of r]
    by linarith
next
  case (str s u r)
  then show ?case
    using length_json_str [OF str(2)] length_json_skip [of s] length_json_skip [of r] by simp
next
  case (arr s u r)
  then show ?case using length_json_skip [of s] length_json_skip [of r] length_json_skip [of u] by simp
next
  case (obj s u r)
  then show ?case using length_json_skip [of s] length_json_skip [of r] length_json_skip [of u] by simp
next
  case (members_more u v w t r)
  then show ?case
    using length_json_str [OF members_more(1)] length_json_skip [of v] length_json_skip [of t] by simp
next
  case (members_last u v w r)
  then show ?case using length_json_str [OF members_last(1)] length_json_skip [of v] by simp
qed simp_all

text \<open>The first character decides; the alternatives exclude each other.\<close>

lemma json_literal_head: "json_literal (l # ls) s = Some r \<Longrightarrow> \<exists>t. s = l # t"
  by (cases s) (auto split: if_splits)

lemma json_digit_iff: "json_digit c \<longleftrightarrow> 48 \<le> uchar c \<and> uchar c \<le> 57"
  using uchar_bound [of c] by (auto simp: json_digit_def schar_def)

lemma json_number_head:
  "json_number (json_unsign s) = Some r \<Longrightarrow> \<exists>c t. s = c # t \<and> (c = CHR ''-'' \<or> c = CHR ''+'' \<or> json_digit c)"
  by (cases s) (auto simp: json_number_def json_unsign_def json_starts_digit_def split: if_splits)

lemma json_number_cases:
  assumes "json_number (json_unsign s) = Some r"
  obtains u where "s = CHR ''-'' # u" "json_number u = Some r"
    | u where "s = CHR ''+'' # u" "json_number u = Some r"
    | c u where "s = c # u" "json_digit c" "c \<noteq> CHR ''-''" "c \<noteq> CHR ''+''" "c \<noteq> CHR ''n''" "c \<noteq> CHR ''t''"
        "c \<noteq> CHR ''f''" "json_number (c # u) = Some r"
proof -
  obtain c t where s: "s = c # t" "c = CHR ''-'' \<or> c = CHR ''+'' \<or> json_digit c"
    using json_number_head [OF assms] by blast
  show thesis
  proof (cases "c = CHR ''-'' \<or> c = CHR ''+''")
    case True
    then have "json_number t = Some r" using assms s(1) by (simp add: json_unsign_def)
    then show thesis using that(1,2) s(1) True by blast
  next
    case False
    then have "json_number (c # t) = Some r" "json_digit c" using assms s by (simp_all add: json_unsign_def)
    moreover have "c \<noteq> CHR ''n''" "c \<noteq> CHR ''t''" "c \<noteq> CHR ''f''"
      using \<open>json_digit c\<close> by (auto simp: json_digit_iff)
    ultimately show thesis using that(3) s(1) False by blast
  qed
qed

lemma json_literal_cases:
  assumes "l \<in> {''null'', ''true'', ''false''}" and "json_literal l s = Some r"
  obtains u where "s = CHR ''n'' # u" "json_literal ''null'' (CHR ''n'' # u) = Some r"
    | u where "s = CHR ''t'' # u" "json_literal ''true'' (CHR ''t'' # u) = Some r"
    | u where "s = CHR ''f'' # u" "json_literal ''false'' (CHR ''f'' # u) = Some r"
proof -
  consider "l = ''null''" | "l = ''true''" | "l = ''false''" using assms(1) by blast
  then show thesis
  proof cases
    case 1
    then show thesis using that(1) json_literal_head [of "CHR ''n''" "''ull''" s r] assms(2) by blast
  next
    case 2
    then show thesis using that(2) json_literal_head [of "CHR ''t''" "''rue''" s r] assms(2) by blast
  next
    case 3
    then show thesis using that(3) json_literal_head [of "CHR ''f''" "''alse''" s r] assms(2) by blast
  qed
qed

lemma json_value_iff:
  "json_value s t \<longleftrightarrow> (case json_skip s of [] \<Rightarrow> False
     | c # u \<Rightarrow> \<exists>r. t = json_skip r \<and>
         (if c = CHR ''n'' then json_literal ''null'' (c # u) = Some r
          else if c = CHR ''t'' then json_literal ''true'' (c # u) = Some r
          else if c = CHR ''f'' then json_literal ''false'' (c # u) = Some r
          else if c = CHR ''-'' \<or> c = CHR ''+'' then json_number u = Some r
          else if json_digit c then json_number (c # u) = Some r
          else if c = CHR 0x22 then json_str u = Some r
          else if c = CHR ''['' then json_elems (json_skip u) r
          else if c = CHR ''{'' then json_members (json_skip u) r
          else False))"
proof
  assume "json_value s t"
  then show "case json_skip s of [] \<Rightarrow> False
     | c # u \<Rightarrow> \<exists>r. t = json_skip r \<and>
         (if c = CHR ''n'' then json_literal ''null'' (c # u) = Some r
          else if c = CHR ''t'' then json_literal ''true'' (c # u) = Some r
          else if c = CHR ''f'' then json_literal ''false'' (c # u) = Some r
          else if c = CHR ''-'' \<or> c = CHR ''+'' then json_number u = Some r
          else if json_digit c then json_number (c # u) = Some r
          else if c = CHR 0x22 then json_str u = Some r
          else if c = CHR ''['' then json_elems (json_skip u) r
          else if c = CHR ''{'' then json_members (json_skip u) r
          else False)"
  proof (cases rule: json_value.cases)
    case (lit l r)
    from lit(2,3) show ?thesis
    proof (cases rule: json_literal_cases)
      case (1 u)
      then show ?thesis using lit(1) by simp
    next
      case (2 u)
      then show ?thesis using lit(1) by simp
    next
      case (3 u)
      then show ?thesis using lit(1) by simp
    qed
  next
    case (num r)
    from num(2) show ?thesis
    proof (cases rule: json_number_cases)
      case (1 u)
      then show ?thesis using num(1) by simp
    next
      case (2 u)
      then show ?thesis using num(1) by simp
    next
      case (3 c u)
      then show ?thesis using num(1) by simp
    qed
  next
    case (str u r)
    then show ?thesis by (auto simp: json_digit_iff)
  next
    case (arr u r)
    then show ?thesis by (auto simp: json_digit_iff)
  next
    case (obj u r)
    then show ?thesis by (auto simp: json_digit_iff)
  qed
next
  assume a: "case json_skip s of [] \<Rightarrow> False
     | c # u \<Rightarrow> \<exists>r. t = json_skip r \<and>
         (if c = CHR ''n'' then json_literal ''null'' (c # u) = Some r
          else if c = CHR ''t'' then json_literal ''true'' (c # u) = Some r
          else if c = CHR ''f'' then json_literal ''false'' (c # u) = Some r
          else if c = CHR ''-'' \<or> c = CHR ''+'' then json_number u = Some r
          else if json_digit c then json_number (c # u) = Some r
          else if c = CHR 0x22 then json_str u = Some r
          else if c = CHR ''['' then json_elems (json_skip u) r
          else if c = CHR ''{'' then json_members (json_skip u) r
          else False)"
  then obtain c u where c: "json_skip s = c # u" by (cases "json_skip s") auto
  note l = lit [of _ s, unfolded c]
  have sgn: "json_digit c \<Longrightarrow> c \<noteq> CHR ''-'' \<and> c \<noteq> CHR ''+''" by (auto simp: json_digit_iff)
  have n: "json_number u = Some r \<Longrightarrow> c = CHR ''-'' \<or> c = CHR ''+'' \<Longrightarrow> json_value s (json_skip r)"
    "json_number (c # u) = Some r \<Longrightarrow> json_digit c \<Longrightarrow> json_value s (json_skip r)" for r
    using num [of s r, unfolded c] sgn by (auto simp: json_unsign_def)
  show "json_value s t" using a c n l [of "''null''"] l [of "''true''"] l [of "''false''"]
      str [of s u] arr [of s u] obj [of s u]
    by (auto split: if_splits)
qed

lemma json_elems_iff:
  "json_elems s r \<longleftrightarrow> s = CHR '']'' # r \<or> (\<exists>t. json_value s (CHR '','' # t) \<and> json_elems t r) \<or>
    json_value s (CHR '']'' # r)"
  by (auto elim: json_elemsE intro: json_value_json_elems_json_members.intros)

lemma json_members_iff:
  "json_members s r \<longleftrightarrow> s = CHR ''}'' # r \<or>
    (\<exists>u v w x. s = CHR 0x22 # u \<and> json_str u = Some v \<and> json_skip v = CHR '':'' # w \<and>
      (json_value w (CHR ''}'' # r) \<or> json_value w (CHR '','' # x) \<and> json_members (json_skip x) r))"
  by (auto elim: json_membersE intro: json_value_json_elems_json_members.intros)

lemma json_value_not_close: "json_value (CHR '']'' # s) t \<Longrightarrow> False"
  by (simp add: json_value_iff json_skip_def json_space_def json_digit_iff)

lemma json_determined:
  "json_value s t \<Longrightarrow> json_value s t' \<longrightarrow> t' = t"
  "json_elems s t \<Longrightarrow> json_elems s t' \<longrightarrow> t' = t"
  "json_members s t \<Longrightarrow> json_members s t' \<longrightarrow> t' = t"
proof (induction arbitrary: t' and t' and t' rule: json_value_json_elems_json_members.inducts)
  case (lit l s r)
  then show ?case
  proof (cases rule: json_literal_cases)
    case (1 u)
    then show ?thesis unfolding json_value_iff [of s t'] by auto
  next
    case (2 u)
    then show ?thesis unfolding json_value_iff [of s t'] by auto
  next
    case (3 u)
    then show ?thesis unfolding json_value_iff [of s t'] by auto
  qed
next
  case (num s r)
  then show ?case
  proof (cases rule: json_number_cases)
    case (1 u)
    then show ?thesis unfolding json_value_iff [of s t'] by auto
  next
    case (2 u)
    then show ?thesis unfolding json_value_iff [of s t'] by auto
  next
    case (3 c u)
    then show ?thesis unfolding json_value_iff [of s t'] by auto
  qed
next
  case (str s u r)
  then show ?case unfolding json_value_iff [of s t'] by (simp add: json_digit_iff)
next
  case (arr s u r)
  have "\<exists>q. t' = json_skip q \<and> json_elems (json_skip u) q" if "json_value s t'"
    using that arr.hyps(1) unfolding json_value_iff [of s t'] by (simp add: json_digit_iff)
  then show ?case using arr.IH by blast
next
  case (obj s u r)
  have "\<exists>q. t' = json_skip q \<and> json_members (json_skip u) q" if "json_value s t'"
    using that obj.hyps(1) unfolding json_value_iff [of s t'] by (simp add: json_digit_iff)
  then show ?case using obj.IH by blast
next
  case (elems_end r)
  then show ?case by (auto simp: json_elems_iff [of "_ # _"] dest: json_value_not_close)
next
  case (elems_more s t r)
  have "s \<noteq> CHR '']'' # q" for q using elems_more.hyps(1) json_value_not_close by blast
  then show ?case using elems_more.IH unfolding json_elems_iff [of s t'] by blast
next
  case (elems_last s r)
  have "s \<noteq> CHR '']'' # q" for q using elems_last.hyps(1) json_value_not_close by blast
  then show ?case using elems_last.IH unfolding json_elems_iff [of s t'] by blast
next
  case (members_end r)
  then show ?case by (auto simp: json_members_iff [of "_ # _"])
next
  case (members_more u v w t r)
  have "json_value w (CHR ''}'' # t') \<or> (\<exists>x. json_value w (CHR '','' # x) \<and> json_members (json_skip x) t')"
    if "json_members (CHR 0x22 # u) t'"
    using that members_more.hyps(1,2) unfolding json_members_iff [of "_ # u" t'] by auto
  moreover have "CHR ''}'' # p \<noteq> CHR '','' # q" for p q :: string by simp
  ultimately show ?case using members_more.IH by (metis list.inject)
next
  case (members_last u v w r)
  have "json_value w (CHR ''}'' # t') \<or> (\<exists>x. json_value w (CHR '','' # x) \<and> json_members (json_skip x) t')"
    if "json_members (CHR 0x22 # u) t'"
    using that members_last.hyps(1,2) unfolding json_members_iff [of "_ # u" t'] by auto
  moreover have "CHR ''}'' # p \<noteq> CHR '','' # q" for p q :: string by simp
  ultimately show ?case using members_last.IH by (metis list.inject)
qed

subsection \<open>The reader sees the text\<close>

text \<open>
  The reader sees \<open>s\<close>: its current character is the head of \<open>s\<close>, the tail is what lies
  ahead; \<open>T\<close> is the offset at which the text ends.
\<close>

definition sees :: "mem \<Rightarrow> nat \<Rightarrow> readtxt \<Rightarrow> string \<Rightarrow> bool" where
  "sees str T rt s \<longleftrightarrow> (case s of
      [] \<Rightarrow> rt_c rt = NUL \<and> rt_pos rt = T
    | c # t \<Rightarrow> rt_c rt = c \<and> c \<noteq> NUL \<and> t = text_upto str (rt_pos rt) (rt_end rt) \<and>
        readable str (rt_pos rt) (rt_end rt) \<and> rt_pos rt \<le> rt_end rt \<and> rt_pos rt + length t = T)"

lemma sees_Nil: "sees str T rt [] \<longleftrightarrow> rt_c rt = NUL \<and> rt_pos rt = T"
  by (simp add: sees_def)

lemma sees_head: "sees str T rt (c # t) \<Longrightarrow> rt_c rt = c \<and> c \<noteq> NUL"
  by (simp add: sees_def)

lemma sees_char: "sees str T rt s \<Longrightarrow> d \<noteq> NUL \<Longrightarrow> rt_c rt = d \<longleftrightarrow> (\<exists>t. s = d # t)"
  by (cases s) (auto simp: sees_def)

lemma sees_read:
  assumes "sees str T rt (c # t)"
  obtains rt' where "read_readtxt str rt = Some rt'" "sees str T rt' t"
proof -
  let ?p = "rt_pos rt" and ?e = "rt_end rt"
  have a: "t = text_upto str ?p ?e" "readable str ?p ?e" "?p \<le> ?e" "?p + length t = T"
    using assms by (auto simp: sees_def)
  show thesis
  proof (cases "?p = ?e")
    case True
    then show thesis using that [of "rt \<lparr> rt_c := NUL \<rparr>"] a by (simp add: read_readtxt_def sees_Nil)
  next
    case False
    then have p: "?p < ?e" using a(3) by simp
    have l: "load str ?p = Some (str ! ?p)" using readable_load [OF a(2) p] by simp
    show thesis
    proof (cases "str ! ?p = NUL")
      case True
      then show thesis
        using that [of "rt \<lparr> rt_c := NUL, rt_end := ?p \<rparr>"] a l False text_upto_step(1) [OF a(2) p]
        by (simp add: read_readtxt_def sees_Nil)
    next
      case nz: False
      then show thesis
        using that [of "rt \<lparr> rt_c := str ! ?p, rt_pos := ?p + 1 \<rparr>"] a l False p text_upto_step(2,3) [OF a(2) p]
        by (simp add: read_readtxt_def sees_def)
    qed
  qed
qed

text \<open>A test follows the reading \<open>g\<close> of the text, or the relation \<open>R\<close>.\<close>

definition follows :: "mem \<Rightarrow> nat \<Rightarrow> (bool \<times> readtxt) option \<Rightarrow> string option \<Rightarrow> bool" where
  "follows str T m g \<longleftrightarrow>
     (\<exists>rt. case g of None \<Rightarrow> m = Some (False, rt) | Some t \<Rightarrow> m = Some (True, rt) \<and> sees str T rt t)"

lemma follows_fail [simp]: "follows str T (Some (False, rt)) None"
  by (simp add: follows_def)

lemma follows_done [simp]: "sees str T rt t \<Longrightarrow> follows str T (Some (True, rt)) (Some t)"
  by (auto simp: follows_def)

lemma sees_skip:
  "sees str T rt s \<Longrightarrow> \<exists>rt'. skip_whitespaces str rt = Some rt' \<and> sees str T rt' (json_skip s)"
proof (induction s arbitrary: rt)
  case Nil
  then show ?case by (subst skip_whitespaces.simps) (simp add: json_skip_def sees_Nil json_space_def)
next
  case (Cons c s)
  show ?case
  proof (cases "json_space c")
    case True
    obtain rt' where "read_readtxt str rt = Some rt'" "sees str T rt' s" by (rule sees_read [OF Cons.prems])
    then show ?thesis using True Cons.IH [of rt'] sees_head [OF Cons.prems]
      by (subst skip_whitespaces.simps) (simp add: json_skip_def)
  next
    case False
    then show ?thesis using Cons.prems sees_head [OF Cons.prems]
      by (subst skip_whitespaces.simps) (simp add: json_skip_def)
  qed
qed

lemma sees_digits:
  "sees str T rt s \<Longrightarrow> \<exists>rt'. skip_digits str rt = Some rt' \<and> sees str T rt' (json_digits s)"
proof (induction s arbitrary: rt)
  case Nil
  then show ?case by (subst skip_digits.simps) (simp add: json_digits_def sees_Nil json_digit_iff)
next
  case (Cons c s)
  show ?case
  proof (cases "json_digit c")
    case True
    obtain rt' where "read_readtxt str rt = Some rt'" "sees str T rt' s" by (rule sees_read [OF Cons.prems])
    then show ?thesis using True Cons.IH [of rt'] sees_head [OF Cons.prems]
      by (subst skip_digits.simps) (simp add: json_digits_def)
  next
    case False
    then show ?thesis using Cons.prems sees_head [OF Cons.prems]
      by (subst skip_digits.simps) (simp add: json_digits_def)
  qed
qed

lemma sees_literal:
  "sees str T rt s \<Longrightarrow> no_nul l \<Longrightarrow> follows str T (test_literal str rt l) (json_literal l s)"
proof (induction l s arbitrary: rt rule: json_literal.induct)
  case (2 l ls)
  then show ?case by (auto simp: sees_Nil)
next
  case (3 l ls c s)
  obtain rt' where "read_readtxt str rt = Some rt'" "sees str T rt' s" by (rule sees_read [OF 3(2)])
  then show ?case using 3 sees_head [OF 3(2)] by simp
qed simp

lemma sees_digit: "sees str T rt s \<Longrightarrow>
    (schar (rt_c rt) < schar (CHR ''0'') \<or> schar (CHR ''9'') < schar (rt_c rt)) = (\<not> json_starts_digit s)"
proof -
  assume "sees str T rt s"
  then have "json_starts_digit s = json_digit (rt_c rt)"
    by (cases s) (auto simp: sees_def json_starts_digit_def json_digit_iff)
  then show ?thesis by (auto simp: json_digit_def)
qed

lemma sees_number:
  assumes "sees str T rt s"
  shows "follows str T (test_number str rt) (json_number s)"
proof (cases "json_starts_digit s")
  case False
  then show ?thesis using sees_digit [OF assms] by (simp add: test_number_def json_number_def)
next
  case True
  obtain rt1 where 1: "skip_digits str rt = Some rt1" "sees str T rt1 (json_digits s)"
    using sees_digits [OF assms] by blast
  obtain rt2 where 2: "(if rt_c rt1 = CHR ''.'' then do { rt \<leftarrow> read_readtxt str rt1; skip_digits str rt } else Some rt1)
      = Some rt2" "sees str T rt2 (json_fraction (json_digits s))"
  proof (cases "rt_c rt1 = CHR ''.''")
    case True
    then obtain t where t: "json_digits s = CHR ''.'' # t" using sees_char [OF 1(2)] by auto
    obtain rt' where r: "read_readtxt str rt1 = Some rt'" "sees str T rt' t"
      by (rule sees_read [OF 1(2) [unfolded t]])
    obtain rt'' where "skip_digits str rt' = Some rt''" "sees str T rt'' (json_digits t)"
      using sees_digits [OF r(2)] by blast
    then show thesis using that True t r by (simp add: json_fraction_def)
  next
    case False
    then have "json_fraction (json_digits s) = json_digits s"
      using 1(2) by (cases "json_digits s") (auto simp: json_fraction_def sees_def)
    then show thesis using that False 1 by simp
  qed
  let ?u = "json_fraction (json_digits s)"
  show ?thesis
  proof (cases "rt_c rt2 = CHR ''e'' \<or> rt_c rt2 = CHR ''E''")
    case False
    then have "json_exponent ?u = Some ?u"
      using 2(2) by (cases ?u) (auto simp: json_exponent_def sees_def)
    then show ?thesis using True False 1 2 sees_digit [OF assms]
      by (simp add: test_number_def json_number_def)
  next
    case e: True
    then obtain c t where t: "?u = c # t" "c = CHR ''e'' \<or> c = CHR ''E''"
      using sees_char [OF 2(2), of "CHR ''e''"] sees_char [OF 2(2), of "CHR ''E''"] by auto
    obtain rt3 where 3: "read_readtxt str rt2 = Some rt3" "sees str T rt3 t"
      by (rule sees_read [OF 2(2) [unfolded t(1)]])
    obtain rt4 where 4: "(if rt_c rt3 = CHR ''-'' \<or> rt_c rt3 = CHR ''+'' then read_readtxt str rt3 else Some rt3) = Some rt4"
      "sees str T rt4 (json_unsign t)"
    proof (cases "rt_c rt3 = CHR ''-'' \<or> rt_c rt3 = CHR ''+''")
      case True
      then obtain d v where v: "t = d # v" "d = CHR ''-'' \<or> d = CHR ''+''"
        using sees_char [OF 3(2), of "CHR ''-''"] sees_char [OF 3(2), of "CHR ''+''"] by auto
      obtain rt' where "read_readtxt str rt3 = Some rt'" "sees str T rt' v"
        by (rule sees_read [OF 3(2) [unfolded v(1)]])
      then show thesis using that True v by (simp add: json_unsign_def)
    next
      case False
      then have "json_unsign t = t" using 3(2) by (cases t) (auto simp: json_unsign_def sees_def)
      then show thesis using that False 3 by simp
    qed
    obtain rt5 where 5: "skip_digits str rt4 = Some rt5" "sees str T rt5 (json_digits (json_unsign t))"
      using sees_digits [OF 4(2)] by blast
    show ?thesis using True e t 1 2(1) 3(1) 4 5 sees_digit [OF assms] sees_digit [OF 4(2)]
      by (simp add: test_number_def json_number_def json_exponent_def)
  qed
qed

lemma sees_hex:
  assumes "sees str T rt (x # s)"
  obtains rt' where "read_next_hex_readtxt str rt = Some (s \<noteq> [] \<and> hex_digit (hd s), rt')" "sees str T rt' s"
proof -
  obtain rt' where r: "read_readtxt str rt = Some rt'" "sees str T rt' s" by (rule sees_read [OF assms])
  have h: "hex_digit c \<longleftrightarrow> json_digit c \<or> 97 \<le> uchar c \<and> uchar c \<le> 102 \<or> 65 \<le> uchar c \<and> uchar c \<le> 70" for c
  proof -
    have "uchar c \<in> {48, 49, 50, 51, 52, 53, 54, 55, 56, 57, 97, 98, 99, 100, 101, 102, 65, 66, 67, 68, 69, 70} \<longleftrightarrow>
        48 \<le> uchar c \<and> uchar c \<le> 57 \<or> 97 \<le> uchar c \<and> uchar c \<le> 102 \<or> 65 \<le> uchar c \<and> uchar c \<le> 70"
      by (simp only: insert_iff empty_iff) presburger
    then show ?thesis by (simp add: hex_digit_def char_eq_uchar json_digit_iff)
  qed
  have "read_next_hex_readtxt str rt = Some (s \<noteq> [] \<and> hex_digit (hd s), rt')"
    using r uchar_bound [of "rt_c rt'"]
    by (cases s) (auto simp: read_next_hex_readtxt_def h sees_def schar_def json_digit_iff)
  then show thesis using that r(2) by blast
qed

lemma sees_hex4:
  assumes "sees str T rt (x # s)"
  shows "\<exists>rt'. if 4 \<le> length s \<and> list_all hex_digit (take 4 s)
    then read_hex4 str rt = Some (True, rt') \<and> sees str T rt' (drop 3 s)
    else read_hex4 str rt = Some (False, rt')"
proof -
  obtain rt1 where 1: "read_next_hex_readtxt str rt = Some (s \<noteq> [] \<and> hex_digit (hd s), rt1)" "sees str T rt1 s"
    by (rule sees_hex [OF assms])
  show ?thesis
  proof (cases "s \<noteq> [] \<and> hex_digit (hd s)")
    case False
    then show ?thesis using 1 by (cases s) (auto simp: read_hex4_def)
  next
    case True
    then obtain a s1 where a: "s = a # s1" "hex_digit a" by (cases s) auto
    obtain rt2 where 2: "read_next_hex_readtxt str rt1 = Some (s1 \<noteq> [] \<and> hex_digit (hd s1), rt2)" "sees str T rt2 s1"
      by (rule sees_hex [OF 1(2) [unfolded a(1)]])
    show ?thesis
    proof (cases "s1 \<noteq> [] \<and> hex_digit (hd s1)")
      case False
      then show ?thesis using 1 2 a by (cases s1) (auto simp: read_hex4_def)
    next
      case True
      then obtain b s2 where b: "s1 = b # s2" "hex_digit b" by (cases s1) auto
      obtain rt3 where 3: "read_next_hex_readtxt str rt2 = Some (s2 \<noteq> [] \<and> hex_digit (hd s2), rt3)" "sees str T rt3 s2"
        by (rule sees_hex [OF 2(2) [unfolded b(1)]])
      show ?thesis
      proof (cases "s2 \<noteq> [] \<and> hex_digit (hd s2)")
        case False
        then show ?thesis using 1 2 3 a b by (cases s2) (auto simp: read_hex4_def)
      next
        case True
        then obtain c s3 where c: "s2 = c # s3" "hex_digit c" by (cases s2) auto
        obtain rt4 where 4: "read_next_hex_readtxt str rt3 = Some (s3 \<noteq> [] \<and> hex_digit (hd s3), rt4)" "sees str T rt4 s3"
          by (rule sees_hex [OF 3(2) [unfolded c(1)]])
        show ?thesis using 1 2 3 4 a b c
          by (cases s3) (auto simp: read_hex4_def numeral_3_eq_3)
      qed
    qed
  qed
qed

lemma sees_string_loop:
  "sees str T rt (x # s) \<Longrightarrow> follows str T (test_string_loop str rt) (json_str s)"
proof (induction s arbitrary: rt x rule: length_induct)
  case (1 s)
  obtain rt1 where r1: "read_readtxt str rt = Some rt1" "sees str T rt1 s" by (rule sees_read [OF 1(2)])
  show ?case
  proof (cases s rule: json_str_split)
    case nil
    then show ?thesis using r1 by (subst test_string_loop.simps) (simp add: sees_Nil json_str_simps)
  next
    case (quote t)
    obtain rt2 where "read_readtxt str rt1 = Some rt2" "sees str T rt2 t"
      by (rule sees_read [OF r1(2) [unfolded quote]])
    then show ?thesis using r1 quote sees_head [OF r1(2) [unfolded quote]]
      by (subst test_string_loop.simps) (simp add: json_str_simps)
  next
    case (plain c t)
    have "follows str T (test_string_loop str rt1) (json_str t)"
      using 1(1) plain r1(2) by auto
    then show ?thesis using r1 plain sees_head [OF r1(2) [unfolded plain(1)]]
      by (subst test_string_loop.simps) (simp add: json_str_simps)
  next
    case cut
    obtain rt2 where "read_readtxt str rt1 = Some rt2" "sees str T rt2 []"
      by (rule sees_read [OF r1(2) [unfolded cut]])
    then show ?thesis using r1 cut sees_head [OF r1(2) [unfolded cut]]
      by (subst test_string_loop.simps) (simp add: json_str_simps sees_Nil)
  next
    case (esc e u)
    obtain rt2 where r2: "read_readtxt str rt1 = Some rt2" "sees str T rt2 (e # u)"
      by (rule sees_read [OF r1(2) [unfolded esc(1)]])
    have "length u < length s" using esc(1) by simp
    then have "follows str T (test_string_loop str rt2) (json_str u)" using 1(1) r2(2) by blast
    moreover have "test_string_loop str rt = test_string_loop str rt2"
      using r1 r2 esc(2) sees_head [OF r1(2) [unfolded esc(1)]] sees_head [OF r2(2)]
      by (subst test_string_loop.simps) simp
    ultimately show ?thesis using json_str_simps(5) [OF esc(2), of u] esc(1) by simp
  next
    case (unicode u)
    obtain rt2 where r2: "read_readtxt str rt1 = Some rt2" "sees str T rt2 (CHR ''u'' # u)"
      by (rule sees_read [OF r1(2) [unfolded unicode]])
    obtain rt3 where r3: "if 4 \<le> length u \<and> list_all hex_digit (take 4 u)
      then read_hex4 str rt2 = Some (True, rt3) \<and> sees str T rt3 (drop 3 u)
      else read_hex4 str rt2 = Some (False, rt3)"
      using sees_hex4 [OF r2(2)] by blast
    have step: "test_string_loop str rt = do {
         (h, rt) \<leftarrow> read_hex4 str rt2;
         if h then test_string_loop str rt else Some (False, rt)
       }"
      using r1 r2 sees_head [OF r1(2) [unfolded unicode]] sees_head [OF r2(2)]
      by (subst test_string_loop.simps) simp
    show ?thesis
    proof (cases "4 \<le> length u \<and> list_all hex_digit (take 4 u)")
      case True
      then obtain d where d: "drop 3 u = d # drop 4 u"
        by (metis Cons_nth_drop_Suc Suc_le_lessD eval_nat_numeral(3) numeral_3_eq_3 numeral_eq_Suc pred_numeral_simps(2) semiring_norm(26) semiring_norm(27))
      have "length (drop 4 u) < length s" using unicode by simp
      moreover have "sees str T rt3 (d # drop 4 u)" using r3 True d by simp
      ultimately have "follows str T (test_string_loop str rt3) (json_str (drop 4 u))"
        using 1(1) by blast
      then show ?thesis using step r3 True unicode by (simp add: json_str_simps)
    next
      case False
      then show ?thesis using step r3 unicode by (auto simp: json_str_simps)
    qed
  next
    case (bad e u)
    obtain rt2 where r2: "read_readtxt str rt1 = Some rt2" "sees str T rt2 (e # u)"
      by (rule sees_read [OF r1(2) [unfolded bad(1)]])
    have "test_string_loop str rt = Some (False, rt2)"
      using r1 r2 bad(2) sees_head [OF r1(2) [unfolded bad(1)]] sees_head [OF r2(2)]
      by (subst test_string_loop.simps) simp
    then show ?thesis using json_str_simps(7) [OF bad(2), of u] bad(1) by simp
  qed
qed

lemma sees_string:
  assumes "sees str T rt s"
  shows "follows str T (test_string str rt) (case s of [] \<Rightarrow> None | c # t \<Rightarrow> if c = CHR 0x22 then json_str t else None)"
proof (cases s)
  case Nil
  then show ?thesis using assms by (simp add: test_string_def sees_Nil)
next
  case (Cons c t)
  then show ?thesis using assms sees_head [of str T rt c t] sees_string_loop [of str T rt c t]
    by (auto simp: test_string_def)
qed

subsection \<open>The descent reads the language\<close>

definition decides :: "mem \<Rightarrow> nat \<Rightarrow> (bool \<times> readtxt) option \<Rightarrow> (string \<Rightarrow> bool) \<Rightarrow> bool" where
  "decides str T m R \<longleftrightarrow>
     (\<exists>rt. m = Some (False, rt) \<and> (\<forall>t. \<not> R t) \<or> m = Some (True, rt) \<and> (\<exists>t. R t \<and> sees str T rt t))"

lemma decidesE:
  assumes "decides str T m R"
  obtains (no) rt where "m = Some (False, rt)" "\<And>t. \<not> R t"
    | (yes) rt t where "m = Some (True, rt)" "R t" "sees str T rt t"
  using assms by (auto simp: decides_def)

lemma decides_no: "(\<And>t. \<not> R t) \<Longrightarrow> decides str T (Some (False, rt)) R"
  by (auto simp: decides_def)

lemma decides_yes: "R t \<Longrightarrow> sees str T rt t \<Longrightarrow> decides str T (Some (True, rt)) R"
  by (auto simp: decides_def)

lemma follows_cases:
  assumes "follows str T m g"
  obtains (no) rt where "m = Some (False, rt)" "g = None"
    | (yes) rt t where "m = Some (True, rt)" "g = Some t" "sees str T rt t"
  using assms by (cases g) (auto simp: follows_def)

lemma sees_not_char: "sees str T rt s \<Longrightarrow> d \<noteq> NUL \<Longrightarrow> rt_c rt \<noteq> d \<Longrightarrow> s \<noteq> d # t"
  by (auto simp: sees_def)

lemma array_loop_decides:
  assumes tv: "\<And>s rt. length s < k \<Longrightarrow> sees str T rt s \<Longrightarrow> decides str T (tv str rt) (json_value s)"
  shows "length s < k \<Longrightarrow> length s < n \<Longrightarrow> sees str T rt s \<Longrightarrow>
    decides str T (array_loop tv n str rt) (json_elems s)"
proof (induction n arbitrary: s rt)
  case (Suc n)
  show ?case
  proof (cases "rt_c rt = CHR '']''")
    case True
    then obtain t where t: "s = CHR '']'' # t" using sees_char [OF Suc.prems(3)] by auto
    obtain rt' where "read_readtxt str rt = Some rt'" "sees str T rt' t"
      by (rule sees_read [OF Suc.prems(3) [unfolded t]])
    then show ?thesis using True t by (auto intro!: decides_yes elems_end)
  next
    case False
    note not_close = sees_not_char [OF Suc.prems(3) _ False]
    from tv [OF Suc.prems(1,3)] show ?thesis
    proof (cases rule: decidesE)
      case (no rt1)
      then have "\<not> json_elems s r" for r using json_elems_iff [of s r] not_close [of r] by auto
      then show ?thesis using False no by (auto intro: decides_no)
    next
      case (yes rt1 t)
      note det = json_determined(1) [OF yes(2)]
      consider (comma) u where "t = CHR '','' # u" | (close) u where "t = CHR '']'' # u"
        | (other) "rt_c rt1 \<noteq> CHR '',''" "rt_c rt1 \<noteq> CHR '']''"
        using sees_char [OF yes(3), of "CHR '',''"] sees_char [OF yes(3), of "CHR '']''"] by auto
      then show ?thesis
      proof cases
        case comma
        obtain rt2 where r: "read_readtxt str rt1 = Some rt2" "sees str T rt2 u"
          by (rule sees_read [OF yes(3) [unfolded comma]])
        have len: "length u < length s" using json_shorter(1) [OF yes(2)] comma by simp
        have "decides str T (array_loop tv n str rt2) (json_elems u)"
          using len Suc.prems by (intro Suc.IH r(2)) simp_all
        moreover have "json_elems s = json_elems u"
        proof
          fix r
          have "json_value s (c # x) \<longleftrightarrow> c = CHR '','' \<and> x = u" for c x
            using json_determined(1) [OF yes(2), of "c # x"] yes(2) comma by auto
          then show "json_elems s r = json_elems u r"
            using json_elems_iff [of s r] not_close [of r] by simp
        qed
        ultimately show ?thesis using False yes(1) r sees_head [OF yes(3) [unfolded comma]] by simp
      next
        case close
        have "json_value s (CHR '']'' # u)" using yes(2) close by simp
        moreover have "n \<noteq> 0" using Suc.prems(2) json_shorter(1) [OF yes(2)] by (cases s) auto
        moreover obtain rt2 where "read_readtxt str rt1 = Some rt2" "sees str T rt2 u"
          by (rule sees_read [OF yes(3) [unfolded close]])
        ultimately show ?thesis using False yes close sees_head [OF yes(3) [unfolded close]]
          by (cases n) (auto intro!: decides_yes elems_last)
      next
        case other
        then have "t \<noteq> CHR '','' # u" "t \<noteq> CHR '']'' # u" for u
          using sees_not_char [OF yes(3)] by auto
        then have "\<not> json_elems s r" for r
          using json_elems_iff [of s r] not_close [of r] det by auto
        then show ?thesis using False yes other by (auto intro: decides_no)
      qed
    qed
  qed
qed simp

lemma object_loop_decides:
  assumes tv: "\<And>s rt. length s < k \<Longrightarrow> sees str T rt s \<Longrightarrow> decides str T (tv str rt) (json_value s)"
  shows "length s < k \<Longrightarrow> length s < n \<Longrightarrow> sees str T rt s \<Longrightarrow>
    decides str T (object_loop tv n str rt) (json_members s)"
proof (induction n arbitrary: s rt)
  case (Suc n)
  show ?case
  proof (cases "rt_c rt = CHR ''}''")
    case True
    then obtain t where t: "s = CHR ''}'' # t" using sees_char [OF Suc.prems(3)] by auto
    obtain rt' where "read_readtxt str rt = Some rt'" "sees str T rt' t"
      by (rule sees_read [OF Suc.prems(3) [unfolded t]])
    then show ?thesis using True t by (auto intro!: decides_yes members_end)
  next
    case False
    note not_close = sees_not_char [OF Suc.prems(3) _ False]
    from sees_string [OF Suc.prems(3)] show ?thesis
    proof (cases rule: follows_cases)
      case (no rt1)
      then have "\<not> json_members s r" for r
        using json_members_iff [of s r] not_close [of r] by auto
      then show ?thesis using False no by (auto intro: decides_no)
    next
      case (yes rt1 v)
      then obtain u where u: "s = CHR 0x22 # u" "json_str u = Some v"
        by (auto split: list.splits if_splits)
      obtain rt2 where r2: "skip_whitespaces str rt1 = Some rt2" "sees str T rt2 (json_skip v)"
        using sees_skip [OF yes(3)] by blast
      show ?thesis
      proof (cases "rt_c rt2 = CHR '':''")
        case no_colon: False
        then have "json_skip v \<noteq> CHR '':'' # w" for w using sees_not_char [OF r2(2)] by simp
        then have "\<not> json_members s r" for r
          using json_members_iff [of s r] not_close [of r] u by auto
        then show ?thesis using False yes r2 no_colon by (auto intro: decides_no)
      next
        case True
        then obtain w where w: "json_skip v = CHR '':'' # w" using sees_char [OF r2(2)] by auto
        obtain rt3 where r3: "read_readtxt str rt2 = Some rt3" "sees str T rt3 w"
          by (rule sees_read [OF r2(2) [unfolded w]])
        have len: "length w < length s"
          using length_json_str [OF u(2)] u(1) length_json_skip [of v] w by simp
        have mem: "json_members s r \<longleftrightarrow> json_value w (CHR ''}'' # r) \<or>
            (\<exists>x. json_value w (CHR '','' # x) \<and> json_members (json_skip x) r)" for r
          using json_members_iff [of s r] u w by auto
        have "length w < k" using len Suc.prems(1) by simp
        from tv [OF this r3(2)] show ?thesis
        proof (cases rule: decidesE)
          case no_value: (no rt4)
          then have "\<not> json_members s r" for r unfolding mem by simp
          then show ?thesis using False yes(1) r2 r3 True no_value(1) by (auto intro: decides_no)
        next
          case val: (yes rt4 t)
          have det: "json_value w q \<longleftrightarrow> q = t" for q
            using json_determined(1) [OF val(2), of q] val(2) by auto
          have lt: "length t < length s" using json_shorter(1) [OF val(2)] len by simp
          consider (comma) x where "t = CHR '','' # x" | (close) x where "t = CHR ''}'' # x"
            | (other) "rt_c rt4 \<noteq> CHR '',''" "rt_c rt4 \<noteq> CHR ''}''"
            using sees_char [OF val(3), of "CHR '',''"] sees_char [OF val(3), of "CHR ''}''"] by auto
          then show ?thesis
          proof cases
            case comma
            obtain rt5 where r5: "read_readtxt str rt4 = Some rt5" "sees str T rt5 x"
              by (rule sees_read [OF val(3) [unfolded comma]])
            obtain rt6 where r6: "skip_whitespaces str rt5 = Some rt6" "sees str T rt6 (json_skip x)"
              using sees_skip [OF r5(2)] by blast
            have "length (json_skip x) < length s" using lt comma length_json_skip [of x] by simp
            then have "decides str T (object_loop tv n str rt6) (json_members (json_skip x))"
              using Suc.prems by (intro Suc.IH r6(2)) simp_all
            moreover have "json_members s = json_members (json_skip x)"
              by (rule ext) (simp add: mem det comma)
            ultimately show ?thesis
              using False yes(1) r2(1) r3(1) True val(1) r5(1) r6(1) sees_head [OF val(3) [unfolded comma]]
              by simp
          next
            case close
            have "json_members s x" unfolding mem det close by simp
            moreover have "n \<noteq> 0" using Suc.prems(2) lt by (cases s) auto
            moreover obtain rt5 where "read_readtxt str rt4 = Some rt5" "sees str T rt5 x"
              by (rule sees_read [OF val(3) [unfolded close]])
            ultimately show ?thesis
              using False yes(1) r2(1) r3(1) True val(1) sees_head [OF val(3) [unfolded close]]
              by (cases n) (auto intro!: decides_yes)
          next
            case other
            then have "t \<noteq> CHR '','' # x" "t \<noteq> CHR ''}'' # x" for x
              using sees_not_char [OF val(3)] by auto
            then have "\<not> json_members s r" for r unfolding mem det by metis
            then show ?thesis using False yes(1) r2(1) r3(1) True val(1) other by (auto intro: decides_no)
          qed
        qed
      qed
    qed
  qed
qed simp

text \<open>What follows a value is skipped in the test and in the language.\<close>

lemma decides_skip:
  assumes "decides str T m R" and "\<And>t. Q t \<longleftrightarrow> (\<exists>r. R r \<and> t = json_skip r)"
  shows "decides str T (do {
      (r, rt) \<leftarrow> m;
      if \<not> r then Some (False, rt)
      else do { rt \<leftarrow> skip_whitespaces str rt; Some (True, rt) }
    }) Q"
  using assms(1)
proof (cases rule: decidesE)
  case (no rt)
  then show ?thesis using assms(2) by (auto intro: decides_no)
next
  case (yes rt t)
  obtain rt' where "skip_whitespaces str rt = Some rt'" "sees str T rt' (json_skip t)"
    using sees_skip [OF yes(3)] by blast
  then show ?thesis using yes assms(2) by (auto intro!: decides_yes)
qed

lemma follows_decides: "follows str T m g \<Longrightarrow> decides str T m (\<lambda>t. g = Some t)"
  by (cases g) (auto simp: follows_def decides_def)

lemma test_value_decides:
  "length s < n \<Longrightarrow> sees str T rt s \<Longrightarrow> decides str T (test_value n str rt) (json_value s)"
proof (induction n arbitrary: s rt)
  case (Suc n)
  obtain rt1 where r1: "skip_whitespaces str rt = Some rt1" "sees str T rt1 (json_skip s)"
    using sees_skip [OF Suc.prems(2)] by blast
  let ?R = "\<lambda>r. case json_skip s of [] \<Rightarrow> False
     | c # u \<Rightarrow>
         (if c = CHR ''n'' then json_literal ''null'' (c # u) = Some r
          else if c = CHR ''t'' then json_literal ''true'' (c # u) = Some r
          else if c = CHR ''f'' then json_literal ''false'' (c # u) = Some r
          else if c = CHR ''-'' \<or> c = CHR ''+'' then json_number u = Some r
          else if json_digit c then json_number (c # u) = Some r
          else if c = CHR 0x22 then json_str u = Some r
          else if c = CHR ''['' then json_elems (json_skip u) r
          else if c = CHR ''{'' then json_members (json_skip u) r
          else False)"
  let ?m = "let c = rt_c rt1 in
        if c = CHR ''n'' then test_literal str rt1 ''null''
        else if c = CHR ''t'' then test_literal str rt1 ''true''
        else if c = CHR ''f'' then test_literal str rt1 ''false''
        else if c = CHR ''-'' \<or> c = CHR ''+'' then do { rt \<leftarrow> read_readtxt str rt1; test_number str rt }
        else if json_digit c then test_number str rt1
        else if c = CHR 0x22 then test_string str rt1
        else if c = CHR ''['' then test_array (test_value n) n str rt1
        else if c = CHR ''{'' then test_object (test_value n) n str rt1
        else Some (False, rt1)"
  have "decides str T ?m ?R"
  proof (cases "json_skip s")
    case Nil
    then show ?thesis using r1(2) by (auto simp: sees_Nil json_digit_iff intro!: decides_no)
  next
    case (Cons c u)
    note r1' = r1(2) [unfolded Cons]
    have c: "rt_c rt1 = c" "c \<noteq> NUL" using sees_head [OF r1'] by simp_all
    obtain rt2 where r2: "read_readtxt str rt1 = Some rt2" "sees str T rt2 u" by (rule sees_read [OF r1'])
    obtain rt3 where r3: "skip_whitespaces str rt2 = Some rt3" "sees str T rt3 (json_skip u)"
      using sees_skip [OF r2(2)] by blast
    have len: "length (json_skip u) < n"
      using length_json_skip [of u] length_json_skip [of s] Cons Suc.prems(1) by simp
    have lits: "decides str T (test_literal str rt1 l) (\<lambda>r. json_literal l (c # u) = Some r)" if "no_nul l" for l
      by (rule follows_decides [OF sees_literal [OF r1' that]])
    have lit3: "c = CHR ''n'' \<Longrightarrow> decides str T (test_literal str rt1 ''null'') (\<lambda>r. json_literal ''null'' (CHR ''n'' # u) = Some r)"
      "c = CHR ''t'' \<Longrightarrow> decides str T (test_literal str rt1 ''true'') (\<lambda>r. json_literal ''true'' (CHR ''t'' # u) = Some r)"
      "c = CHR ''f'' \<Longrightarrow> decides str T (test_literal str rt1 ''false'') (\<lambda>r. json_literal ''false'' (CHR ''f'' # u) = Some r)"
      using lits [of "''null''"] lits [of "''true''"] lits [of "''false''"]
      by (simp_all add: no_nul_def del: test_literal.simps json_literal.simps)
    have nums: "decides str T (test_number str rt1) (\<lambda>r. json_number (c # u) = Some r)"
      "decides str T (test_number str rt2) (\<lambda>r. json_number u = Some r)"
      by (rule follows_decides [OF sees_number]; rule r1' r2(2))+
    have strs: "decides str T (test_string str rt1) (\<lambda>r. json_str u = Some r)" if "c = CHR 0x22"
      using follows_decides [OF sees_string [OF r1']] that by simp
    have arrs: "decides str T (array_loop (test_value n) n str rt3) (json_elems (json_skip u))"
      by (rule array_loop_decides [where k = n and tv = "test_value n", OF Suc.IH len len r3(2)])
    have objs: "decides str T (object_loop (test_value n) n str rt3) (json_members (json_skip u))"
      by (rule object_loop_decides [where k = n and tv = "test_value n", OF Suc.IH len len r3(2)])
    consider "c = CHR ''n''" | "c = CHR ''t''" | "c = CHR ''f''" | "c = CHR ''-''" | "c = CHR ''+''"
      | "json_digit c" "c \<notin> {CHR ''n'', CHR ''t'', CHR ''f'', CHR ''-'', CHR ''+''}"
      | "c = CHR 0x22" | "c = CHR ''[''" | "c = CHR ''{''"
      | "c \<notin> {CHR ''n'', CHR ''t'', CHR ''f'', CHR ''-'', CHR ''+'', CHR 0x22, CHR ''['', CHR ''{''}" "\<not> json_digit c"
      by blast
    then show ?thesis 
    proof cases
      case 1 then show ?thesis using lit3(1) [OF 1] by (simp add: Cons c(1) del: test_literal.simps json_literal.simps)
    next
      case 2 then show ?thesis using lit3(2) [OF 2] by (simp add: Cons c(1) del: test_literal.simps json_literal.simps)
    next
      case 3 then show ?thesis using lit3(3) [OF 3] by (simp add: Cons c(1) del: test_literal.simps json_literal.simps)
    next
      case 4 show ?thesis unfolding Cons c(1) Let_def 4 using nums(2) by (simp add: r2(1))
    next
      case 5 show ?thesis unfolding Cons c(1) Let_def 5 using nums(2) by (simp add: r2(1))
    next
      case 6
      moreover have "\<not> json_digit CHR 0x22" "\<not> json_digit CHR ''[''" "\<not> json_digit CHR ''{''"
        by (simp_all add: json_digit_iff)
      ultimately have "c \<noteq> CHR 0x22" "c \<noteq> CHR ''[''" "c \<noteq> CHR ''{''" "c \<noteq> CHR ''n''" "c \<noteq> CHR ''t''"
        "c \<noteq> CHR ''f''" "c \<noteq> CHR ''-''" "c \<noteq> CHR ''+''"
        by blast+
      with 6(1) nums(1) show ?thesis unfolding Cons c(1) Let_def by (simp only: if_False if_True list.case simp_thms)
    next
      case 7 then show ?thesis using strs by (simp add: Cons c(1) json_digit_iff)
    next
      case 8 then show ?thesis using arrs by (simp add: Cons c(1) r2 r3 json_digit_iff test_array_def)
    next
      case 9 then show ?thesis using objs by (simp add: Cons c(1) r2 r3 json_digit_iff test_object_def)
    next
      case 10 then show ?thesis by (auto simp add: Cons c(1) json_digit_iff decides_no)
    qed
  qed
  moreover have "json_value s t \<longleftrightarrow> (\<exists>r. ?R r \<and> t = json_skip r)" for t
    unfolding json_value_iff [of s t] by (cases "json_skip s") (simp_all only: list.case conj_commute simp_thms)
  ultimately have "decides str T (do {
      (r, rt) \<leftarrow> ?m;
      if \<not> r then Some (False, rt)
      else do { rt \<leftarrow> skip_whitespaces str rt; Some (True, rt) }
    }) (json_value s)" by (rule decides_skip)
  then show ?case using r1(1) by simp
qed simp

lemma rp_jsonstr_test_eq:
  assumes "readable str 0 n"
  shows "\<exists>size. rp_jsonstr_test str n = Some (json_accepts (text_upto str 0 n), size) \<and>
    (json_accepts (text_upto str 0 n) \<longrightarrow> size = word_of_nat (length (text_upto str 0 n)))"
proof -
  let ?t = "text_upto str 0 n"
  obtain rt T where rt: "init_readtxt str n = Some rt" "sees str T rt ?t" "?t \<noteq> [] \<Longrightarrow> T = length ?t"
  proof (cases "n = 0")
    case True
    then show thesis using that [of "\<lparr> rt_c = NUL, rt_pos = 0, rt_end = 0 \<rparr>" 0]
      by (simp add: init_readtxt_def sees_Nil)
  next
    case False
    then have n: "0 < n" by simp
    have l: "load str 0 = Some (str ! 0)" using readable_load [OF assms n] by simp
    let ?rt = "\<lparr> rt_c = str ! 0, rt_pos = 1, rt_end = n \<rparr>"
    show thesis
    proof (cases "str ! 0 = NUL")
      case True
      then show thesis using that [of ?rt 1] l n text_upto_step(1) [OF assms n]
        by (simp add: init_readtxt_def sees_Nil)
    next
      case False
      then have "?t = str ! 0 # text_upto str 1 n" "readable str 1 n"
        using text_upto_step(2,3) [OF assms n] by simp_all
      then show thesis using that [of ?rt "length ?t"] l n False
        by (simp add: init_readtxt_def sees_def)
    qed
  qed
  have "length ?t \<le> n"
    using length_takeWhile_le [of "\<lambda>c. c \<noteq> NUL" "chunk str 0 n"] by (simp add: text_upto_def)
  then have "length ?t < n + 2" by simp
  from test_value_decides [OF this rt(2)] show ?thesis
  proof (cases rule: decidesE)
    case (no rt')
    then show ?thesis using rt(1) by (simp add: rp_jsonstr_test_def json_accepts_def Let_def del: test_value.simps)
  next
    case (yes rt' t)
    have "?t \<noteq> []" using yes(2) by (auto simp: json_value_iff json_skip_def)
    then have T: "T = length ?t" by (rule rt(3))
    have "json_accepts ?t \<longleftrightarrow> t = []"
      using yes(2) json_determined(1) [OF yes(2), of "[]"] by (auto simp: json_accepts_def)
    moreover have "rt_c rt' = NUL \<longleftrightarrow> t = []" using yes(3) by (cases t) (auto simp: sees_def)
    moreover have "t = [] \<Longrightarrow> rt_pos rt' = length ?t" using yes(3) T by (simp add: sees_Nil)
    ultimately show ?thesis using rt(1) yes(1) by (simp add: rp_jsonstr_test_def Let_def del: test_value.simps)
  qed
qed

subsection \<open>Properties of the validator\<close>

text \<open>
  Property C10: \<open>rp_jsonstr_test\<close> ends, stays within the string, and returns 1 exactly for
  the texts of the language; then \<open>*size\<close> is the length of the text.
\<close>

theorem rp_jsonstr_test_correct:
  assumes "readable str 0 n"
  shows "\<exists>size. rp_jsonstr_test str n = Some (json_value (text_upto str 0 n) [], size) \<and>
    (json_value (text_upto str 0 n) [] \<longrightarrow> size = word_of_nat (length (text_upto str 0 n)))"
  using rp_jsonstr_test_eq [OF assms] by (simp add: json_accepts_def)

lemma json_run_null: "json_value '' null '' []"
  using lit [of "''null''" "'' null ''" "'' ''"] by (simp add: json_skip_def json_space_def)

theorem rp_jsonstr_test_correct_witness:
  "map_option fst (rp_jsonstr_test (cstr '' null '') 100) = Some True"
proof -
  have r: "readable (cstr '' null '') 0 100" by (simp add: readable_def cstr_def)
  have t: "text_upto (cstr '' null '') 0 100 = '' null ''" by (simp add: text_upto_def cstr_def)
  show ?thesis using rp_jsonstr_test_correct [OF r] json_run_null unfolding t by auto
qed

text \<open>
  The language is larger than JSON: a comma before the closing bracket or brace,
  a sign \<open>+\<close>, leading zeros and a number with no digit after its point are accepted.
\<close>

theorem rp_jsonstr_test_lenient:
  "map_option fst (rp_jsonstr_test (cstr ''[1,]'') 4) = Some True \<and>
    map_option fst (rp_jsonstr_test (cstr [CHR ''{'', CHR 0x22, CHR 0x22, CHR '':'', CHR ''1'', CHR '','', CHR ''}'']) 7) = Some True \<and>
    map_option fst (rp_jsonstr_test (cstr ''01'') 2) = Some True \<and>
    map_option fst (rp_jsonstr_test (cstr ''+1'') 2) = Some True \<and>
    map_option fst (rp_jsonstr_test (cstr ''1.'') 2) = Some True"
  by code_simp

text \<open>
  On the empty text the validator fails with the size 0 when its length is given
  by its zero, and with the greatest \<open>size_t\<close>, \<open>0 - 1\<close>, when its length is given as 0.
\<close>

theorem rp_jsonstr_test_empty:
  "rp_jsonstr_test str 0 = Some (False, - 1) \<and> rp_jsonstr_test (cstr []) (Suc n) = Some (False, 0)"
  by (auto simp: rp_jsonstr_test_def init_readtxt_def cstr_def skip_whitespaces.simps json_space_def
      json_digit_iff numeral_2_eq_2)

lemma json_hex_chars: "d < 16 \<Longrightarrow> hex_digit (''0123456789abcdef'' ! d)"
proof -
  assume "d < 16"
  then have "''0123456789abcdef'' ! d \<in> set ''0123456789abcdef''" by (intro nth_mem) simp
  then show ?thesis by (auto simp: hex_digit_def)
qed

lemma json_str_unicode:
  "hex_digit a \<Longrightarrow> hex_digit b \<Longrightarrow> hex_digit c \<Longrightarrow> hex_digit d \<Longrightarrow>
    json_str (CHR 0x5C # CHR ''u'' # a # b # c # d # t) = json_str t"
  by (simp add: json_str_simps)

lemma json_str_char:
  assumes "c \<noteq> NUL"
  shows "json_str (json_char c @ t) = json_str t"
proof (cases "uchar c < 32")
  case True
  then have "uchar c div 16 < 16" "uchar c mod 16 < 16" by simp_all
  then have "hex_digit (''0123456789abcdef'' ! (uchar c div 16))" "hex_digit (''0123456789abcdef'' ! (uchar c mod 16))"
    by (simp_all only: json_hex_chars)
  moreover have "hex_digit (CHR ''0'')" by (simp add: hex_digit_def)
  ultimately show ?thesis using True by (simp only: json_char_def if_True append.simps json_str_unicode)
next
  case False
  show ?thesis
  proof (cases "c = CHR 0x22 \<or> c = CHR 0x5C")
    case True
    then show ?thesis using False json_str_simps(5) [of c t] by (auto simp: json_char_def)
  next
    case plain: False
    then show ?thesis using False by (simp add: json_char_def json_str_simps)
  qed
qed

lemma json_str_string: "no_nul s \<Longrightarrow> json_str (json_string s @ CHR 0x22 # t) = Some t"
  by (induction s) (simp_all add: json_str_simps json_str_char)

lemma json_char_no_nul: "c \<noteq> NUL \<Longrightarrow> no_nul (json_char c)"
proof -
  assume c: "c \<noteq> NUL"
  have "''0123456789abcdef'' ! d \<noteq> NUL" if "d < 16" for d
    using json_hex_chars [OF that] by (auto simp: hex_digit_def)
  then have "NUL \<noteq> ''0123456789abcdef'' ! (uchar c div 16)" "NUL \<noteq> ''0123456789abcdef'' ! (uchar c mod 16)"
    using uchar_bound [of c] by (simp_all add: less_mult_imp_div_less not_sym)
  then show ?thesis using c by (auto simp: json_char_def no_nul_def)
qed

lemma json_string_no_nul: "no_nul s \<Longrightarrow> no_nul (json_string s)"
  by (induction s) (simp_all add: json_char_no_nul)

text \<open>
  What \<open>rp_jsonstr_string_escape\<close> produces is read back by the validator: any
  text, escaped and put between double quotes, is accepted.
\<close>

theorem rp_jsonstr_test_escaped:
  assumes "no_nul s" and "length dest = length (json_string s) + 1"
    and "rp_jsonstr_string_escape dest (length dest) (cstr s) (length s) = Some (k, t)"
  shows "map_option fst (rp_jsonstr_test (CHR 0x22 # take k t @ CHR 0x22 # rest) (k + 2)) = Some True"
proof -
  let ?j = "json_string s"
  have tx: "text_upto (cstr s) 0 (length s) = s"
    using assms(1) by (auto simp: text_upto_def no_nul_def takeWhile_eq_all_conv)
  have "rp_jsonstr_string_escape dest (length dest) (cstr s) (length s) = Some (length ?j, cstr ?j)"
    using json_escape_writer.exact [of "(cstr s, length s)" dest] assms(2) tx by (simp add: readable_def)
  then have k: "k = length ?j" "take k t = ?j" using assms(3) by auto
  let ?x = "CHR 0x22 # ?j @ [CHR 0x22]"
  have nn: "no_nul ?x" using json_string_no_nul [OF assms(1)] by simp
  have r: "readable (CHR 0x22 # ?j @ CHR 0x22 # rest) 0 (length ?j + 2)" by (simp add: readable_def)
  have "chunk (CHR 0x22 # ?j @ CHR 0x22 # rest) 0 (length ?j + 2) = ?x" by simp
  then have tu: "text_upto (CHR 0x22 # ?j @ CHR 0x22 # rest) 0 (length ?j + 2) = ?x"
    using nn unfolding text_upto_def by (auto simp: no_nul_def takeWhile_eq_all_conv)
  have "json_value ?x (json_skip [])"
    by (rule str [of _ "?j @ [CHR 0x22]"])
      (simp_all add: json_skip_def json_space_def json_str_string assms(1))
  then have "json_accepts ?x" by (simp add: json_accepts_def json_skip_def)
  then show ?thesis using rp_jsonstr_test_eq [OF r] unfolding tu k(2) unfolding k(1) by auto
qed

theorem rp_jsonstr_test_escaped_witness:
  "\<exists>k t. rp_jsonstr_string_escape ''###'' 3 (cstr [CHR 0x5C]) 1 = Some (k, t) \<and>
    map_option fst (rp_jsonstr_test (CHR 0x22 # take k t @ [CHR 0x22]) (k + 2)) = Some True"
proof -
  have "rp_jsonstr_string_escape ''###'' (length ''###'') (cstr [CHR 0x5C]) (length [CHR 0x5C]) =
      Some (length (json_string [CHR 0x5C]), cstr (json_string [CHR 0x5C]))"
    using json_escape_writer.exact [of "(cstr [CHR 0x5C], 1)" "''###''"]
    by (simp add: readable_def text_upto_def cstr_def json_char_def)
  then show ?thesis
    using rp_jsonstr_test_escaped [of "[CHR 0x5C]" "''###''"]
    by (simp add: json_char_def numeral_3_eq_3)
qed

end
