(* ===== verification/U16id.thy ===== *)
theory U16id
  imports Prelude
begin

text \<open>
  The maps from 16-bit identifiers of \<open>src/sandbox/u16id.c\<close>: \<open>u16id2ptr\<close> to
  pointers and \<open>u16id2bool\<close> to booleans, for pointers of 64 bits.

  A map is one block of memory, seen here as the list of its 64-bit cells: the identifiers
  are 16-bit lanes of the first cells (lane 0 of cell 0 is the count of identifiers) and the
  pointers are the cells that follow. Where the pointers start depends on the capacity, so
  that growing and shrinking move them over the identifiers. A null map is \<open>None\<close>.
\<close>

subsection \<open>The block and its two arrays\<close>

unbundle bit_operations_syntax

type_synonym block = "64 word list"
type_synonym u16 = "16 word"
type_synonym ptr = "64 word"

definition lane :: "64 word \<Rightarrow> nat \<Rightarrow> u16" where
  "lane w k = ucast (drop_bit (16 * k) w)"

definition set_lane :: "64 word \<Rightarrow> nat \<Rightarrow> u16 \<Rightarrow> 64 word" where
  "set_lane w k v = (w AND NOT (push_bit (16 * k) 0xffff)) OR push_bit (16 * k) (ucast v)"

definition load_id :: "block \<Rightarrow> nat \<Rightarrow> u16 option" where
  "load_id m i = do { w \<leftarrow> load m (i div 4); Some (lane w (i mod 4)) }"

definition store_id :: "block \<Rightarrow> nat \<Rightarrow> u16 \<Rightarrow> block option" where
  "store_id m i v = do { w \<leftarrow> load m (i div 4); store m (i div 4) (set_lane w (i mod 4) v) }"

text \<open>
  Indexes and counts are \<open>uint16_t\<close> values: natural numbers below \<open>2 ^ 16\<close>, the
  wrap-around written out. \<open>get_capacity\<close> rounds up to a multiple of 4 minus one.
\<close>

definition get_capacity :: "nat \<Rightarrow> nat" where
  "get_capacity upper = upper OR 3"

text \<open>
  The flattened structure. \<open>ids\<close> is the block at the base, and the field \<open>ptrs\<close> is
  the cell that the pointer \<open>flat->ptrs\<close> points to: the cell of the pointer of index
  \<open>i\<close> is \<open>ptrs + i\<close>.
\<close>

record flat =
  upper :: nat
  capacity :: nat
  ids :: "block option"
  ptrs :: nat

definition flatofup :: "block \<Rightarrow> nat \<Rightarrow> flat" where
  "flatofup base up = \<lparr>upper = up, capacity = get_capacity up, ids = Some base,
     ptrs = (get_capacity up + 1) div 4 - 1\<rparr>"

definition flatof :: "block option \<Rightarrow> flat option" where
  "flatof base = (case base of
     Some m \<Rightarrow> do { u \<leftarrow> load_id m 0; Some (flatofup m (unat u)) }
   | None \<Rightarrow> Some \<lparr>upper = 0, capacity = 0, ids = None, ptrs = 0\<rparr>)"

text \<open>The size in bytes, of \<open>uint16_t\<close> and of pointers of 8 bytes.\<close>

definition u16id_size :: "nat \<Rightarrow> nat" where
  "u16id_size cap = 2 * (cap + 1) + 8 * cap"

text \<open>The loop of \<open>search\<close>: \<open>i\<close> is \<open>ids - flat->ids\<close>.\<close>

function search_ids :: "block \<Rightarrow> nat \<Rightarrow> u16 \<Rightarrow> nat \<Rightarrow> nat option" where
  "search_ids m up uid i =
     (if i = up then Some 0
      else if length m * 4 \<le> Suc i then None
      else do {
        d \<leftarrow> load_id m (Suc i);
        if uid = d then Some (Suc i) else search_ids m up uid (Suc i)
      })"
  by pat_completeness auto
termination by (relation "measure (\<lambda>(m, up, uid, i). length m * 4 - i)") auto

declare search_ids.simps [simp del]

definition u16id_search :: "flat \<Rightarrow> u16 \<Rightarrow> nat option" where
  "u16id_search f uid = (case ids f of
     Some m \<Rightarrow> search_ids m (upper f) uid 0
   | None \<Rightarrow> if upper f = 0 then Some 0 else None)"

subsection \<open>Adding and dropping\<close>

text \<open>
  \<open>realloc\<close> is given the block and the size in bytes. It returns a block of that size that
  keeps the common cells.
\<close>

type_synonym u16_realloc = "block option \<Rightarrow> nat \<Rightarrow> block option"

definition u16_reallocates :: "u16_realloc \<Rightarrow> bool" where
  "u16_reallocates re \<longleftrightarrow> (\<forall>b n m. re b n = Some m \<longrightarrow> length m = n div 8 \<and>
     (\<forall>c i. b = Some c \<and> i < length c \<and> i < length m \<longrightarrow> m ! i = c ! i))"

definition u16_realloc_zero :: u16_realloc where
  "u16_realloc_zero b n = Some (case b of
     None \<Rightarrow> replicate (n div 8) 0 | Some c \<Rightarrow> take (n div 8) (c @ replicate (n div 8) 0))"

text \<open>The two loops that move the pointers, from the last one and from the first one.\<close>

primrec ptrs_up :: "block \<Rightarrow> nat \<Rightarrow> nat \<Rightarrow> nat \<Rightarrow> block option" where
  "ptrs_up m dst src 0 = Some m"
| "ptrs_up m dst src (Suc n) = do {
     p \<leftarrow> load m (src + Suc n);
     m \<leftarrow> store m (dst + Suc n) p;
     ptrs_up m dst src n
   }"

function ptrs_down :: "block \<Rightarrow> nat \<Rightarrow> nat \<Rightarrow> nat \<Rightarrow> nat \<Rightarrow> block option" where
  "ptrs_down m dst src idx up =
     (if idx \<le> up then do {
        p \<leftarrow> load m (src + idx);
        m \<leftarrow> store m (dst + idx) p;
        ptrs_down m dst src (Suc idx) up
      }
      else Some m)"
  by pat_completeness auto
termination by (relation "measure (\<lambda>(m, dst, src, idx, up). Suc up - idx)") auto

declare ptrs_down.simps [simp del]

text \<open>
  \<open>add\<close> returns \<open>Some None\<close> when the reallocation fails. The upper index is a
  \<open>uint16_t\<close> that wraps.
\<close>

definition u16id_add :: "u16_realloc \<Rightarrow> flat \<Rightarrow> u16 \<Rightarrow> ptr \<Rightarrow> block option option" where
  "u16id_add re f uid p = (
     let oupper = upper f; nupper = (oupper + 1) mod 2 ^ 16 in do {
       grown \<leftarrow>
         (if nupper > capacity f then
            (case re (ids f) (u16id_size (get_capacity nupper)) of
               None \<Rightarrow> Some None
             | Some grown \<Rightarrow>
                 let f' = flatofup grown nupper in
                 if oupper \<noteq> 0 then do {
                   m \<leftarrow> ptrs_up grown (ptrs f') (ptrs (flatofup grown oupper)) oupper;
                   Some (Some (f'\<lparr>ids := Some m\<rparr>))
                 }
                 else Some (Some f'))
          else Some (Some f));
       (case grown of
          None \<Rightarrow> Some None
        | Some f \<Rightarrow> do {
            m \<leftarrow> ids f;
            m \<leftarrow> store_id m 0 (word_of_nat nupper);
            m \<leftarrow> store_id m nupper uid;
            m \<leftarrow> store m (ptrs f + nupper) p;
            Some (Some m)
          })
     })"

text \<open>\<open>drop\<close>, compiled without \<open>U16ID_ALWAYS_SHRINK\<close>: the block keeps its size.\<close>

definition u16id_drop :: "flat \<Rightarrow> nat \<Rightarrow> block option" where
  "u16id_drop f index = do {
     m \<leftarrow> ids f;
     let up = upper f;
     m \<leftarrow> (if index \<noteq> up then do {
             d \<leftarrow> load_id m up;
             m \<leftarrow> store_id m index d;
             p \<leftarrow> load m (ptrs f + up);
             store m (ptrs f + index) p
           }
           else Some m);
     let up' = (up + (2 ^ 16 - 1)) mod 2 ^ 16;
     m \<leftarrow> store_id m 0 (word_of_nat up');
     if get_capacity up' \<noteq> capacity f
     then ptrs_down m (ptrs (flatofup m up')) (ptrs f) 1 up'
     else Some m
   }"

definition u16id_dropall :: "block option \<Rightarrow> block option option" where
  "u16id_dropall base = (case base of
     Some m \<Rightarrow> do { m \<leftarrow> store_id m 0 0; Some (Some m) }
   | None \<Rightarrow> Some None)"

definition u16id_destroy :: "block option \<Rightarrow> block option" where
  "u16id_destroy base = None"

definition u16id_create :: "(nat \<Rightarrow> block option) \<Rightarrow> (int \<times> block option) option" where
  "u16id_create alloc = (case alloc (u16id_size (get_capacity 0)) of
     None \<Rightarrow> Some (X_ENOMEM, None)
   | Some m \<Rightarrow> do { m \<leftarrow> store_id m 0 0; Some (0, Some m) })"
subsection \<open>The map to pointers\<close>

text \<open>Each operation returns its status and the map that the variable of the caller holds.\<close>

definition u16id2ptr_has :: "block option \<Rightarrow> u16 \<Rightarrow> bool option" where
  "u16id2ptr_has i2p uid = do { f \<leftarrow> flatof i2p; index \<leftarrow> u16id_search f uid; Some (index \<noteq> 0) }"

definition u16id2ptr_add :: "u16_realloc \<Rightarrow> block option \<Rightarrow> u16 \<Rightarrow> ptr \<Rightarrow> (int \<times> block option) option" where
  "u16id2ptr_add re i2p uid p = do {
     f \<leftarrow> flatof i2p;
     index \<leftarrow> u16id_search f uid;
     if index \<noteq> 0 then Some (X_EEXIST, i2p)
     else do {
       r \<leftarrow> u16id_add re f uid p;
       (case r of None \<Rightarrow> Some (X_ENOMEM, i2p) | Some m \<Rightarrow> Some (0, Some m))
     }
   }"

text \<open>The assignment \<open>flat.ptrs[index] = ptr\<close>.\<close>

definition set_ptr :: "flat \<Rightarrow> nat \<Rightarrow> ptr \<Rightarrow> block option" where
  "set_ptr f index p = do { m \<leftarrow> ids f; store m (ptrs f + index) p }"

definition get_ptr :: "flat \<Rightarrow> nat \<Rightarrow> ptr option" where
  "get_ptr f index = do { m \<leftarrow> ids f; load m (ptrs f + index) }"

definition u16id2ptr_set :: "u16_realloc \<Rightarrow> block option \<Rightarrow> u16 \<Rightarrow> ptr \<Rightarrow> (int \<times> block option) option" where
  "u16id2ptr_set re i2p uid p = do {
     f \<leftarrow> flatof i2p;
     index \<leftarrow> u16id_search f uid;
     if index \<noteq> 0 then do { m \<leftarrow> set_ptr f index p; Some (0, Some m) }
     else do {
       r \<leftarrow> u16id_add re f uid p;
       (case r of None \<Rightarrow> Some (X_ENOMEM, i2p) | Some m \<Rightarrow> Some (0, Some m))
     }
   }"

definition u16id2ptr_put :: "block option \<Rightarrow> u16 \<Rightarrow> ptr \<Rightarrow> (int \<times> block option) option" where
  "u16id2ptr_put i2p uid p = do {
     f \<leftarrow> flatof i2p;
     index \<leftarrow> u16id_search f uid;
     if index = 0 then Some (X_ENOENT, i2p)
     else do { m \<leftarrow> set_ptr f index p; Some (0, Some m) }
   }"

text \<open>The value stored in \<open>*pptr\<close>, when there is one, is part of the result.\<close>

definition u16id2ptr_get :: "block option \<Rightarrow> u16 \<Rightarrow> (int \<times> ptr option) option" where
  "u16id2ptr_get i2p uid = do {
     f \<leftarrow> flatof i2p;
     index \<leftarrow> u16id_search f uid;
     if index = 0 then Some (X_ENOENT, None)
     else do { p \<leftarrow> get_ptr f index; Some (0, Some p) }
   }"

definition u16id2ptr_drop :: "block option \<Rightarrow> u16 \<Rightarrow> (int \<times> ptr option \<times> block option) option" where
  "u16id2ptr_drop i2p uid = do {
     f \<leftarrow> flatof i2p;
     index \<leftarrow> u16id_search f uid;
     if index = 0 then Some (X_ENOENT, None, i2p)
     else do {
       p \<leftarrow> get_ptr f index;
       m \<leftarrow> u16id_drop f index;
       Some (0, Some p, Some m)
     }
   }"

definition u16id2ptr_count :: "block option \<Rightarrow> int option" where
  "u16id2ptr_count i2p = (case i2p of
     Some m \<Rightarrow> do { u \<leftarrow> load_id m 0; Some (int (unat u)) }
   | None \<Rightarrow> Some 0)"

definition u16id2ptr_at :: "block option \<Rightarrow> int \<Rightarrow> (int \<times> (u16 \<times> ptr) option) option" where
  "u16id2ptr_at i2p index = do {
     f \<leftarrow> flatof i2p;
     if index < 0 \<or> index \<ge> int (upper f) then Some (X_EINVAL, None)
     else do {
       m \<leftarrow> ids f;
       d \<leftarrow> load_id m (nat index + 1);
       p \<leftarrow> get_ptr f (nat index + 1);
       Some (0, Some (d, p))
     }
   }"

text \<open>
  \<open>u16id2ptr_forall\<close> returns the calls of the callback in their order: from the last pair to
  the first one.
\<close>

primrec forall_calls :: "block \<Rightarrow> flat \<Rightarrow> nat \<Rightarrow> (u16 \<times> ptr) list option" where
  "forall_calls m f 0 = Some []"
| "forall_calls m f (Suc n) = do {
     d \<leftarrow> load_id m (Suc n);
     p \<leftarrow> get_ptr f (Suc n);
     cs \<leftarrow> forall_calls m f n;
     Some ((d, p) # cs)
   }"

definition u16id2ptr_forall :: "block option \<Rightarrow> (u16 \<times> ptr) list option" where
  "u16id2ptr_forall i2p = do {
     f \<leftarrow> flatof i2p;
     (case ids f of Some m \<Rightarrow> forall_calls m f (upper f) | None \<Rightarrow> Some [])
   }"

subsection \<open>The map to booleans\<close>

text \<open>The pointers are fields of \<open>P = 64\<close> bits; the identifiers are multiples of 64.\<close>

definition u16id2bool_get :: "block option \<Rightarrow> u16 \<Rightarrow> int option" where
  "u16id2bool_get i2b uid = do {
     f \<leftarrow> flatof i2b;
     let idm = uid AND NOT 63;
     index \<leftarrow> u16id_search f idm;
     if index = 0 then Some 0
     else do {
       field \<leftarrow> get_ptr f index;
       let mask = push_bit (unat (uid AND 63)) 1;
       Some (if field AND mask \<noteq> 0 then 1 else 0)
     }
   }"

definition u16id2bool_set :: "u16_realloc \<Rightarrow> block option \<Rightarrow> u16 \<Rightarrow> bool \<Rightarrow> (int \<times> block option) option" where
  "u16id2bool_set re i2b uid val = do {
     f \<leftarrow> flatof i2b;
     let idm = uid AND NOT 63;
     index \<leftarrow> u16id_search f idm;
     ofield \<leftarrow> (if index \<noteq> 0 then get_ptr f index else Some 0);
     let mask = push_bit (unat (uid AND 63)) 1;
     let field = (if val then ofield OR mask else ofield AND NOT mask);
     let r = (if ofield AND mask \<noteq> 0 then 1 else 0);
     if field \<noteq> ofield then
       (if field \<noteq> 0 then
          (if index \<noteq> 0 then do { m \<leftarrow> set_ptr f index field; Some (r, Some m) }
           else do {
             g \<leftarrow> u16id_add re f idm field;
             (case g of None \<Rightarrow> Some (X_ENOMEM, i2b) | Some m \<Rightarrow> Some (r, Some m))
           })
        else if index \<noteq> 0 then do { m \<leftarrow> u16id_drop f index; Some (r, Some m) }
        else Some (r, i2b))
     else Some (r, i2b)
   }"

subsection \<open>Lanes and cells\<close>

lemma lane_set_lane:
  assumes "j < 4" and "k < 4"
  shows "lane (set_lane w k v) j = (if j = k then v else lane w j)"
proof (rule bit_word_eqI)
  fix n
  assume "n < LENGTH(16)"
  have ff: "(0xffff :: 64 word) = mask 16" by (simp add: mask_eq_exp_minus_1)
  have jn: "16 * j + n < 64" using \<open>n < LENGTH(16)\<close> assms(1) by simp
  have "16 * k \<le> 16 * j + n \<and> 16 * j + n - 16 * k < 16 \<longleftrightarrow> j = k" using \<open>n < LENGTH(16)\<close> by auto
  then show "bit (lane (set_lane w k v) j) n = bit (if j = k then v else lane w j) n"
    using \<open>n < LENGTH(16)\<close> jn
    by (auto simp: lane_def set_lane_def ff bit_simps dest: bit_imp_le_length)
qed

definition u16_at :: "block \<Rightarrow> nat \<Rightarrow> u16" where
  "u16_at m i = lane (m ! (i div 4)) (i mod 4)"

lemma load_id_eq: "i div 4 < length m \<Longrightarrow> load_id m i = Some (u16_at m i)"
  by (simp add: load_id_def u16_at_def)

definition put_id :: "block \<Rightarrow> nat \<Rightarrow> u16 \<Rightarrow> block" where
  "put_id m i v = m[i div 4 := set_lane (m ! (i div 4)) (i mod 4) v]"

lemma store_id_eq: "i div 4 < length m \<Longrightarrow> store_id m i v = Some (put_id m i v)"
  by (simp add: store_id_def put_id_def store_def)

lemma length_put_id [simp]: "length (put_id m i v) = length m"
  by (simp add: put_id_def)

lemma u16_at_put_id:
  assumes "i div 4 < length m"
  shows "u16_at (put_id m i v) j = (if j = i then v else u16_at m j)"
proof (cases "j div 4 = i div 4")
  case True
  then have "j mod 4 = i mod 4 \<longleftrightarrow> j = i" by (metis div_mod_decomp)
  then show ?thesis using assms True by (simp add: u16_at_def put_id_def lane_set_lane)
next
  case False
  then show ?thesis by (auto simp: u16_at_def put_id_def)
qed

lemma nth_put_id: "j \<noteq> i div 4 \<Longrightarrow> put_id m i v ! j = m ! j"
  by (simp add: put_id_def)

lemma u16_at_update: "j \<noteq> i div 4 \<Longrightarrow> u16_at (m[j := x]) i = u16_at m i"
  by (simp add: u16_at_def)

lemma or3: "n OR 3 = 4 * (n div 4) + (3 :: nat)"
proof -
  have "n OR 3 = 2 * (n div 2 OR 1) + 1" by (subst or_rec) (simp add: one_or_eq)
  also have "n div 2 OR 1 = 2 * (n div 2 div 2) + 1" by (subst or_rec) simp
  finally show ?thesis by (simp add: div_mult2_eq [symmetric])
qed

lemma get_capacity_eq: "get_capacity n = 4 * (n div 4) + 3"
  by (simp add: get_capacity_def or3)

lemma flatofup_simps [simp]:
  "upper (flatofup m u) = u" "capacity (flatofup m u) = 4 * (u div 4) + 3"
  "ids (flatofup m u) = Some m" "ptrs (flatofup m u) = u div 4"
  by (simp_all add: flatofup_def get_capacity_eq)

lemma u16id_size_cells: "u16id_size (get_capacity u) div 8 = 5 * (u div 4) + 4"
  by (simp add: u16id_size_def get_capacity_eq)

lemma ptrs_up_eq:
  "src \<le> dst \<Longrightarrow> dst + n < length m \<Longrightarrow> \<exists>m'. ptrs_up m dst src n = Some m' \<and> length m' = length m \<and>
    (\<forall>j. m' ! j = (if dst < j \<and> j \<le> dst + n then m ! (j - dst + src) else m ! j))"
proof (induction n arbitrary: m)
  case (Suc n)
  let ?m = "m[dst + Suc n := m ! (src + Suc n)]"
  obtain m' where m': "ptrs_up ?m dst src n = Some m'" "length m' = length m"
    "\<And>j. m' ! j = (if dst < j \<and> j \<le> dst + n then ?m ! (j - dst + src) else ?m ! j)"
    using Suc.IH [of ?m] Suc.prems by auto
  have "ptrs_up m dst src (Suc n) = Some m'" using Suc.prems m'(1) by (simp add: store_def)
  moreover have "m' ! j = (if dst < j \<and> j \<le> dst + Suc n then m ! (j - dst + src) else m ! j)" for j
    using Suc.prems by (auto simp: m'(3) nth_list_update le_Suc_eq add.commute)
  ultimately show ?case using m'(2) by blast
qed auto

lemma ptrs_down_eq:
  "dst \<le> src \<Longrightarrow> src + u < length m \<Longrightarrow> i \<le> Suc u \<Longrightarrow> \<exists>m'. ptrs_down m dst src i u = Some m' \<and> length m' = length m \<and>
    (\<forall>j. m' ! j = (if dst + i \<le> j \<and> j \<le> dst + u then m ! (j - dst + src) else m ! j))"
proof (induction m dst src i u rule: ptrs_down.induct)
  case (1 m dst src i u)
  show ?case
  proof (cases "i \<le> u")
    case True
    let ?m = "m[dst + i := m ! (src + i)]"
    have "\<exists>m'. ptrs_down ?m dst src (Suc i) u = Some m' \<and> length m' = length ?m \<and>
      (\<forall>j. m' ! j = (if dst + Suc i \<le> j \<and> j \<le> dst + u then ?m ! (j - dst + src) else ?m ! j))"
      using True 1(2,3) by (intro 1(1) [of "m ! (src + i)"]) (simp_all add: load_def store_def)
    then obtain m' where m': "ptrs_down ?m dst src (Suc i) u = Some m'" "length m' = length m"
      "\<And>j. m' ! j = (if dst + Suc i \<le> j \<and> j \<le> dst + u then ?m ! (j - dst + src) else ?m ! j)"
      by auto
    have "ptrs_down m dst src i u = Some m'" using True 1(2,3) m'(1)
      by (subst ptrs_down.simps) (simp add: store_def)
    moreover have "m' ! j = (if dst + i \<le> j \<and> j \<le> dst + u then m ! (j - dst + src) else m ! j)" for j
      using True 1(2,3) by (auto simp: m'(3) nth_list_update not_le less_Suc_eq_le add.commute)
    ultimately show ?thesis using m'(2) by blast
  next
    case False
    then show ?thesis using 1(4) by (subst ptrs_down.simps) auto
  qed
qed

subsection \<open>The pairs a block holds\<close>

text \<open>
  \<open>holds base es\<close>: the map at \<open>base\<close> has the pairs \<open>es\<close>, in the order of their
  indexes from 1, and the room its capacity promises.
\<close>

definition ptr_at :: "block \<Rightarrow> nat \<Rightarrow> nat \<Rightarrow> ptr" where
  "ptr_at m u i = m ! (u div 4 + i)"

definition room :: "block \<Rightarrow> nat \<Rightarrow> bool" where
  "room m u \<longleftrightarrow> 5 * (u div 4) + 4 \<le> length m"

definition pairs :: "block \<Rightarrow> nat \<Rightarrow> (u16 \<times> ptr) list" where
  "pairs m u = map (\<lambda>i. (u16_at m i, ptr_at m u i)) [1..<Suc u]"

definition holds :: "block option \<Rightarrow> (u16 \<times> ptr) list \<Rightarrow> bool" where
  "holds base es = (case base of
     None \<Rightarrow> es = []
   | Some m \<Rightarrow> unat (u16_at m 0) = length es \<and> room m (length es) \<and> es = pairs m (length es))"

lemma room_bounds:
  assumes "room m u" and "i \<le> u"
  shows "i div 4 < length m" and "u div 4 + i < length m"
proof -
  have "u < 4 * (u div 4) + 4" by linarith
  then show "i div 4 < length m" "u div 4 + i < length m"
    using assms div_le_mono [OF assms(2), of 4] unfolding room_def by linarith+
qed

lemma pairs_Suc: "length (pairs m u) = u" "i < u \<Longrightarrow> pairs m u ! i = (u16_at m (Suc i), ptr_at m u (Suc i))"
  by (simp_all add: pairs_def del: upt_Suc)

lemma holdsI:
  assumes "unat (u16_at m 0) = length es" and "room m (length es)"
    and "\<And>i. i < length es \<Longrightarrow> u16_at m (Suc i) = fst (es ! i)"
    and "\<And>i. i < length es \<Longrightarrow> ptr_at m (length es) (Suc i) = snd (es ! i)"
  shows "holds (Some m) es"
  using assms by (auto simp: holds_def pairs_Suc intro!: nth_equalityI)

lemma holdsD:
  assumes "holds (Some m) es"
  shows "unat (u16_at m 0) = length es" "room m (length es)"
    "i < length es \<Longrightarrow> u16_at m (Suc i) = fst (es ! i)"
    "i < length es \<Longrightarrow> ptr_at m (length es) (Suc i) = snd (es ! i)"
  using assms unfolding holds_def by (auto simp: pairs_Suc dest: arg_cong [where f = "\<lambda>xs. xs ! i"])

lemma holds_length: "holds base es \<Longrightarrow> length es < 2 ^ 16"
proof (cases base)
  case (Some m)
  assume "holds base es"
  then have "length es = unat (u16_at m 0)" by (simp add: Some holdsD(1))
  then show ?thesis using unsigned_less [of "u16_at m 0"] by simp
qed (simp add: holds_def)

lemma flatof_Some: "holds (Some m) es \<Longrightarrow> flatof (Some m) = Some (flatofup m (length es))"
  using holdsD(1,2) [of m es] room_bounds(1) [of m "length es" 0]
  by (auto simp: flatof_def load_id_eq)

lemma flatof_None: "flatof None = Some \<lparr>upper = 0, capacity = 0, ids = None, ptrs = 0\<rparr>"
  by (simp add: flatof_def)

text \<open>\<open>index_of\<close> is the index of the first pair with the identifier, 0 when there is none.\<close>

fun index_from :: "nat \<Rightarrow> (u16 \<times> ptr) list \<Rightarrow> u16 \<Rightarrow> nat" where
  "index_from i [] uid = 0"
| "index_from i (e # es) uid = (if uid = fst e then Suc i else index_from (Suc i) es uid)"

lemma search_ids_eq:
  assumes "holds (Some m) es"
  shows "i \<le> length es \<Longrightarrow> search_ids m (length es) uid i = Some (index_from i (drop i es) uid)"
proof (induction "length es - i" arbitrary: i)
  case 0
  then show ?case by (simp add: search_ids.simps)
next
  case (Suc n)
  then have i: "i < length es" by simp
  have b: "Suc i div 4 < length m" using i by (intro room_bounds(1) [OF holdsD(2) [OF assms]]) simp
  then have "Suc i < length m * 4" by linarith
  moreover have "load_id m (Suc i) = Some (fst (es ! i))"
    using load_id_eq [OF b] holdsD(3) [OF assms i] by simp
  ultimately have "search_ids m (length es) uid i =
      (if uid = fst (es ! i) then Some (Suc i) else search_ids m (length es) uid (Suc i))"
    using i by (subst search_ids.simps) simp
  then show ?case using Suc.hyps(1) [of "Suc i"] Suc.hyps(2) i
    by (simp add: Cons_nth_drop_Suc [symmetric])
qed

lemma search_eq:
  assumes "holds base es" and "flatof base = Some f"
  shows "u16id_search f uid = Some (index_from 0 es uid)"
  using assms search_ids_eq [of _ es 0 uid]
  by (cases base) (auto simp: u16id_search_def flatof_Some flatof_None holds_def)

lemma index_from_0: "index_from i es uid = 0 \<longleftrightarrow> uid \<notin> fst ` set es"
  by (induction es arbitrary: i) auto

lemma index_from_bound:
  "index_from i es uid \<noteq> 0 \<Longrightarrow> \<exists>k. index_from i es uid = Suc (i + k) \<and> k < length es \<and> fst (es ! k) = uid"
proof (induction es arbitrary: i)
  case (Cons e es)
  show ?case
  proof (cases "uid = fst e")
    case True
    then show ?thesis by (intro exI [of _ 0]) simp
  next
    case False
    then obtain k where "index_from (Suc i) es uid = Suc (Suc i + k)" "k < length es" "fst (es ! k) = uid"
      using Cons.IH [of "Suc i"] Cons.prems by auto
    then show ?thesis using False by (intro exI [of _ "Suc k"]) simp
  qed
qed simp

lemma flatof_holds:
  assumes "holds base es"
  obtains f where "flatof base = Some f" "u16id_search f uid = Some (index_from 0 es uid)"
    "upper f = length es" "ids f = base"
proof (cases base)
  case None
  then show thesis using that flatof_None search_eq [OF assms] assms by (auto simp: holds_def)
next
  case (Some m)
  then show thesis using that flatof_Some search_eq [OF assms] assms by auto
qed

text \<open>\<open>at_index\<close>: an identifier is found at the index of its pair.\<close>

lemma index_of_cases:
  obtains (none) "index_from 0 es uid = 0" "uid \<notin> fst ` set es"
  | (found) k where "index_from 0 es uid = Suc k" "k < length es" "fst (es ! k) = uid" "uid \<in> fst ` set es"
proof (cases "index_from 0 es uid = 0")
  case True
  then show thesis using that(1) index_from_0 by blast
next
  case False
  then show thesis using that(2) index_from_bound [of 0 es uid] by (auto intro: nth_mem)
qed

subsection \<open>What the operations do to the pairs\<close>

lemma get_ptr_holds:
  assumes "holds base es" and "flatof base = Some f" and "k < length es"
  shows "get_ptr f (Suc k) = Some (snd (es ! k))"
proof -
  obtain m where m: "base = Some m" using assms by (cases base) (auto simp: holds_def)
  note h = assms(1) [unfolded m]
  have "length es div 4 + Suc k < length m" using assms(3) by (intro room_bounds(2) [OF holdsD(2) [OF h]]) simp
  moreover have "f = flatofup m (length es)" using assms(2) flatof_Some [OF h] by (simp add: m)
  ultimately show ?thesis using holdsD(4) [OF h assms(3)]
    by (simp add: get_ptr_def ptr_at_def)
qed

lemma set_ptr_holds:
  assumes "holds base es" and "flatof base = Some f" and "k < length es"
  obtains m' where "set_ptr f (Suc k) p = Some m'" "holds (Some m') (es[k := (fst (es ! k), p)])"
proof -
  obtain m where m: "base = Some m" using assms by (cases base) (auto simp: holds_def)
  note h = assms(1) [unfolded m]
  let ?u = "length es div 4"
  have b: "?u + Suc k < length m" using assms(3) by (intro room_bounds(2) [OF holdsD(2) [OF h]]) simp
  have f: "f = flatofup m (length es)" using assms(2) flatof_Some [OF h] by (simp add: m)
  let ?m = "m[?u + Suc k := p]"
  have "set_ptr f (Suc k) p = Some ?m" using b by (simp add: set_ptr_def f store_def)
  moreover have "holds (Some ?m) (es[k := (fst (es ! k), p)])"
  proof (rule holdsI)
    have "j div 4 < ?u + Suc k" if "j \<le> length es" for j
      using div_le_mono [OF that, of 4] by simp
    then have u: "u16_at ?m j = u16_at m j" if "j \<le> length es" for j
      using that by (intro u16_at_update) auto
    show "unat (u16_at ?m 0) = length (es[k := (fst (es ! k), p)])" using u [of 0] holdsD(1) [OF h] by simp
    show "room ?m (length (es[k := (fst (es ! k), p)]))" using holdsD(2) [OF h] by (simp add: room_def)
    fix i
    assume i: "i < length (es[k := (fst (es ! k), p)])"
    then show "u16_at ?m (Suc i) = fst (es[k := (fst (es ! k), p)] ! i)"
      using u [of "Suc i"] holdsD(3) [OF h, of i] by (cases "i = k") simp_all
    show "ptr_at ?m (length (es[k := (fst (es ! k), p)])) (Suc i) = snd (es[k := (fst (es ! k), p)] ! i)"
      using i b holdsD(4) [OF h, of i] by (cases "i = k") (simp_all add: ptr_at_def)
  qed
  ultimately show thesis using that by blast
qed

text \<open>
  Adding a pair: the three writes at the end of \<open>add\<close>, then the growth before them, which
  moves the pointers by one cell when a new group of four identifiers is opened.
\<close>

lemma write_pair:
  assumes "room m (Suc u)" and "Suc u < 2 ^ 16"
  obtains m' where "do {
      m \<leftarrow> store_id m 0 (word_of_nat (Suc u)); m \<leftarrow> store_id m (Suc u) uid;
      m \<leftarrow> store m (Suc u div 4 + Suc u) p; Some (Some m)
    } = Some (Some m')"
    "length m' = length m" "unat (u16_at m' 0) = Suc u"
    "\<And>j. 0 < j \<Longrightarrow> j \<le> Suc u \<Longrightarrow> u16_at m' j = (if j = Suc u then uid else u16_at m j)"
    "\<And>j. 0 < j \<Longrightarrow> j \<le> Suc u \<Longrightarrow> ptr_at m' (Suc u) j = (if j = Suc u then p else ptr_at m (Suc u) j)"
proof -
  let ?u = "Suc u div 4"
  define m1 where "m1 = put_id m 0 (word_of_nat (Suc u))"
  define m2 where "m2 = put_id m1 (Suc u) uid"
  define m3 where "m3 = m2[?u + Suc u := p]"
  have b: "?u < length m" "?u + Suc u < length m" "0 < length m"
    using room_bounds [OF assms(1), of "Suc u"] by auto
  have "store_id m 0 (word_of_nat (Suc u)) = Some m1" unfolding m1_def using b by (intro store_id_eq) simp
  moreover have "store_id m1 (Suc u) uid = Some m2" unfolding m2_def using b by (intro store_id_eq) (simp add: m1_def)
  moreover have "store m2 (?u + Suc u) p = Some m3" using b by (simp add: store_def m3_def m2_def m1_def)
  ultimately have run: "do {
      m \<leftarrow> store_id m 0 (word_of_nat (Suc u)); m \<leftarrow> store_id m (Suc u) uid;
      m \<leftarrow> store m (?u + Suc u) p; Some (Some m)
    } = Some (Some m3)" by simp
  have id3: "u16_at m3 j = u16_at m2 j" if "j \<le> Suc u" for j
    unfolding m3_def using div_le_mono [OF that, of 4] by (intro u16_at_update) simp
  have id2: "u16_at m2 j = (if j = Suc u then uid else u16_at m1 j)" for j
    unfolding m2_def using b by (intro u16_at_put_id) (simp add: m1_def)
  have id1: "u16_at m1 j = (if j = 0 then word_of_nat (Suc u) else u16_at m j)" for j
    unfolding m1_def using b by (intro u16_at_put_id) simp
  have "unat (word_of_nat (Suc u) :: u16) = Suc u"
    using assms(2) by (simp add: unat_of_nat take_bit_nat_eq_self del: of_nat_Suc)
  then have c: "unat (u16_at m3 0) = Suc u" by (simp add: id3 id2 id1 del: of_nat_Suc)
  have i: "u16_at m3 j = (if j = Suc u then uid else u16_at m j)" if "0 < j" "j \<le> Suc u" for j
    using that by (simp add: id3 id2 id1)
  have "m3 ! (?u + j) = (if j = Suc u then p else m ! (?u + j))" if "0 < j" "j \<le> Suc u" for j
    using that b by (simp add: m3_def m2_def m1_def nth_put_id)
  then have q: "ptr_at m3 (Suc u) j = (if j = Suc u then p else ptr_at m (Suc u) j)" if "0 < j" "j \<le> Suc u" for j
    using that by (simp add: ptr_at_def)
  show thesis by (rule that [OF run _ c i q]) (simp_all add: m3_def m2_def m1_def)
qed

lemma grow_at_3:
  assumes "(u :: nat) mod 4 = 3"
  shows "Suc u div 4 = Suc (u div 4)"
  using assms by presburger

lemma no_grow:
  assumes "(u :: nat) mod 4 \<noteq> 3"
  shows "Suc u div 4 = u div 4"
  using assms by presburger

lemma beyond_capacity: "4 * (u div 4) + 3 < Suc u \<longleftrightarrow> (u :: nat) mod 4 = 3"
  by presburger

lemma u16_allocD:
  "u16_reallocates re \<Longrightarrow> re b n = Some m \<Longrightarrow> length m = n div 8"
  "u16_reallocates re \<Longrightarrow> re (Some c) n = Some m \<Longrightarrow> i < length c \<Longrightarrow> i < length m \<Longrightarrow> m ! i = c ! i"
  by (simp_all add: u16_reallocates_def)

text \<open>Before the writes: a block with room for one more pair, that holds the pairs at their new place.\<close>

definition ready :: "flat \<Rightarrow> (u16 \<times> ptr) list \<Rightarrow> bool" where
  "ready f es \<longleftrightarrow> (\<exists>m. ids f = Some m \<and> ptrs f = Suc (length es) div 4 \<and> room m (Suc (length es)) \<and>
     (\<forall>i < length es. u16_at m (Suc i) = fst (es ! i) \<and> ptr_at m (Suc (length es)) (Suc i) = snd (es ! i)))"

lemma ready_write:
  assumes "ready f es" and "Suc (length es) < 2 ^ 16"
  obtains m' where "do {
      m \<leftarrow> ids f; m \<leftarrow> store_id m 0 (word_of_nat (Suc (length es))); m \<leftarrow> store_id m (Suc (length es)) uid;
      m \<leftarrow> store m (ptrs f + Suc (length es)) p; Some (Some m)
    } = Some (Some m')" "holds (Some m') (es @ [(uid, p)])"
proof -
  obtain m where m: "ids f = Some m" "ptrs f = Suc (length es) div 4" "room m (Suc (length es))"
    "\<forall>i < length es. u16_at m (Suc i) = fst (es ! i) \<and> ptr_at m (Suc (length es)) (Suc i) = snd (es ! i)"
    using assms(1) by (auto simp: ready_def)
  obtain m' where m': "do {
      m \<leftarrow> store_id m 0 (word_of_nat (Suc (length es))); m \<leftarrow> store_id m (Suc (length es)) uid;
      m \<leftarrow> store m (Suc (length es) div 4 + Suc (length es)) p; Some (Some m)
    } = Some (Some m')" "length m' = length m" "unat (u16_at m' 0) = Suc (length es)"
    "\<And>j. 0 < j \<Longrightarrow> j \<le> Suc (length es) \<Longrightarrow> u16_at m' j = (if j = Suc (length es) then uid else u16_at m j)"
    "\<And>j. 0 < j \<Longrightarrow> j \<le> Suc (length es) \<Longrightarrow>
      ptr_at m' (Suc (length es)) j = (if j = Suc (length es) then p else ptr_at m (Suc (length es)) j)"
    by (rule write_pair [OF m(3) assms(2), where uid = uid and p = p], rule that)
  have "holds (Some m') (es @ [(uid, p)])"
  proof (rule holdsI)
    fix i
    assume i: "i < length (es @ [(uid, p)])"
    show "u16_at m' (Suc i) = fst ((es @ [(uid, p)]) ! i)" using i m(4) by (auto simp: m'(4) nth_append)
    show "ptr_at m' (length (es @ [(uid, p)])) (Suc i) = snd ((es @ [(uid, p)]) ! i)"
      using i m(4) m'(5) [of "Suc i"] by (auto simp: nth_append)
  qed (use m(3) m'(2,3) in \<open>simp_all add: room_def\<close>)
  then show thesis using that m(1,2) m'(1) by simp
qed

lemma u16id_add_holds:
  assumes re: "u16_reallocates re" and h: "holds base es" and f: "flatof base = Some f"
    and n: "Suc (length es) < 2 ^ 16"
  shows "u16id_add re f uid p = Some None \<or>
    (\<exists>m'. u16id_add re f uid p = Some (Some m') \<and> holds (Some m') (es @ [(uid, p)]))"
proof -
  let ?u = "length es"
  have nm: "(?u + 1) mod 2 ^ 16 = Suc ?u" using n by simp
  let ?g = "if Suc ?u > capacity f then
            (case re (ids f) (u16id_size (get_capacity (Suc ?u))) of
               None \<Rightarrow> Some None
             | Some grown \<Rightarrow>
                 let f' = flatofup grown (Suc ?u) in
                 if ?u \<noteq> 0 then do {
                   m \<leftarrow> ptrs_up grown (ptrs f') (ptrs (flatofup grown ?u)) ?u;
                   Some (Some (f'\<lparr>ids := Some m\<rparr>))
                 }
                 else Some (Some f'))
          else Some (Some f)"
  have up: "upper f = ?u" by (rule flatof_holds [OF h, of thesis]) (use f in auto)
  have "?g = Some None \<or> (\<exists>f'. ?g = Some (Some f') \<and> ready f' es)"
  proof (cases base)
    case None
    then have "f = \<lparr>upper = 0, capacity = 0, ids = None, ptrs = 0\<rparr>" "es = []"
      using f h by (auto simp: flatof_None holds_def)
    moreover have "ready (flatofup m 1) []" if "re None (u16id_size (get_capacity 1)) = Some m" for m
      using u16_allocD(1) [OF re that] by (simp add: ready_def room_def u16id_size_cells)
    ultimately show ?thesis by (cases "re None (u16id_size (get_capacity 1))") auto
  next
    case (Some m)
    note h = h [unfolded Some]
    have ff: "f = flatofup m ?u" using f flatof_Some [OF h] by (simp add: Some)
    show ?thesis
    proof (cases "?u mod 4 = 3")
      case False
      then have "ready f es" using holdsD [OF h] no_grow [OF False]
        by (simp add: ready_def ff room_def ptr_at_def)
      moreover have "\<not> Suc ?u > capacity f" using False beyond_capacity by (simp add: ff)
      ultimately show ?thesis by simp
    next
      case True
      then have c: "Suc ?u > capacity f" using beyond_capacity by (simp add: ff)
      show ?thesis
      proof (cases "re (Some m) (u16id_size (get_capacity (Suc ?u)))")
        case None
        then show ?thesis using c by (simp add: ff)
      next
        case g: (Some g)
        have d: "Suc ?u div 4 = Suc (?u div 4)" by (rule grow_at_3 [OF True])
        have lg: "length g = 5 * Suc (?u div 4) + 4" using u16_allocD(1) [OF re g] by (simp add: u16id_size_cells d)
        have "?u < 4 * (?u div 4) + 4" by presburger
        then obtain g' where g': "ptrs_up g (Suc ?u div 4) (?u div 4) ?u = Some g'" "length g' = length g"
          "\<And>j. g' ! j = (if Suc ?u div 4 < j \<and> j \<le> Suc ?u div 4 + ?u then g ! (j - Suc ?u div 4 + ?u div 4) else g ! j)"
          using ptrs_up_eq [of "?u div 4" "Suc ?u div 4" ?u g] lg d by auto
        have keep: "g ! i = m ! i" if "i \<le> ?u div 4 + ?u" for i
        proof -
          have "?u div 4 + ?u < length m" by (rule room_bounds(2) [OF holdsD(2) [OF h]]) simp
          moreover have "?u div 4 + ?u < length g" using lg by presburger
          ultimately show ?thesis using u16_allocD(2) [OF re g, of i] that by simp
        qed
        let ?f = "(flatofup g (Suc ?u))\<lparr>ids := Some g'\<rparr>"
        have "ready ?f es"
          unfolding ready_def
        proof (intro exI conjI allI impI)
          show "ids ?f = Some g'" "ptrs ?f = Suc ?u div 4" by simp_all
          show "room g' (Suc ?u)" using lg by (simp add: room_def g'(2) d)
          fix i
          assume i: "i < ?u"
          then have "Suc i div 4 \<le> ?u div 4" by (intro div_le_mono) simp
          then have "u16_at g' (Suc i) = u16_at m (Suc i)"
            using keep [of "Suc i div 4"] by (simp add: u16_at_def g'(3) d)
          then show "u16_at g' (Suc i) = fst (es ! i)" using holdsD(3) [OF h i] by simp
          have "ptr_at g' (Suc ?u) (Suc i) = ptr_at m ?u (Suc i)"
            using i keep [of "?u div 4 + Suc i"] by (simp add: ptr_at_def g'(3) d add.commute)
          then show "ptr_at g' (Suc ?u) (Suc i) = snd (es ! i)" using holdsD(4) [OF h i] by simp
        qed
        moreover have "?u \<noteq> 0" using True by (cases "?u") auto
        ultimately show ?thesis using c g g'(1) by (simp add: ff Let_def)
      qed
    qed
  qed
  moreover have "u16id_add re f uid p = do {
       grown \<leftarrow> ?g;
       (case grown of
          None \<Rightarrow> Some None
        | Some f \<Rightarrow> do {
            m \<leftarrow> ids f;
            m \<leftarrow> store_id m 0 (word_of_nat (Suc ?u));
            m \<leftarrow> store_id m (Suc ?u) uid;
            m \<leftarrow> store m (ptrs f + Suc ?u) p;
            Some (Some m)
          })}"
    unfolding u16id_add_def up Let_def nm ..
  ultimately show ?thesis
    using n by (auto elim!: ready_write simp del: of_nat_Suc)
qed

text \<open>Dropping a pair puts the last one in its place.\<close>

definition drop_pair :: "nat \<Rightarrow> (u16 \<times> ptr) list \<Rightarrow> (u16 \<times> ptr) list" where
  "drop_pair k es = butlast (es[k := last es])"

lemma drop_pair_split:
  "drop_pair (length xs) (xs @ e # zs @ [l]) = xs @ l # zs"
  "drop_pair (length xs) (xs @ [e]) = xs"
  by (simp_all add: drop_pair_def butlast_append)

lemma drop_pair_cases:
  assumes "k < length es"
  obtains (last) xs e where "es = xs @ [e]" "k = length xs" "drop_pair k es = xs"
    | (inner) xs e zs l where "es = xs @ e # zs @ [l]" "k = length xs" "drop_pair k es = xs @ l # zs"
proof -
  let ?xs = "take k es"
  have es: "es = ?xs @ es ! k # drop (Suc k) es" by (rule id_take_nth_drop [OF assms])
  have k: "k = length ?xs" using assms by simp
  show thesis
  proof (cases "drop (Suc k) es" rule: rev_cases)
    case Nil
    then have "es = ?xs @ [es ! k]" using es by simp
    then show thesis using last [of ?xs "es ! k"] k drop_pair_split(2) [of ?xs "es ! k"] by metis
  next
    case (snoc zs l)
    then have "es = ?xs @ es ! k # zs @ [l]" using es by simp
    then show thesis using inner [of ?xs "es ! k" zs l] k drop_pair_split(1) [of ?xs "es ! k" zs l] by metis
  qed
qed

lemma map_of_drop_pair:
  assumes "k < length es" and "distinct (map fst es)"
  shows "map_of (drop_pair k es) = (map_of es)(fst (es ! k) := None)"
    and "distinct (map fst (drop_pair k es))"
    and "fst ` set (drop_pair k es) = fst ` set es - {fst (es ! k)}"
proof -
  have "map_of (drop_pair k es) = (map_of es)(fst (es ! k) := None) \<and> distinct (map fst (drop_pair k es)) \<and>
    fst ` set (drop_pair k es) = fst ` set es - {fst (es ! k)}"
  using assms(1)
  proof (cases rule: drop_pair_cases)
    case (last xs e)
    then have "map_of xs (fst e) = None" using assms(2) by (auto simp: map_of_eq_None_iff)
    then show ?thesis using last assms(2) by (auto simp: map_add_def fun_eq_iff split: option.splits)
  next
    case (inner xs e zs l)
    then have "map_of xs (fst e) = None" "map_of zs (fst e) = None" "map_of zs (fst l) = None" "fst e \<noteq> fst l"
      using assms(2) by (auto simp: map_of_eq_None_iff)
    then show ?thesis using inner assms(2) by (auto simp: map_add_def fun_eq_iff split: option.splits)
  qed
  then show "map_of (drop_pair k es) = (map_of es)(fst (es ! k) := None)"
    and "distinct (map fst (drop_pair k es))"
    and "fst ` set (drop_pair k es) = fst ` set es - {fst (es ! k)}" by auto
qed

lemma length_drop_pair [simp]: "length (drop_pair k es) = length es - 1"
  by (simp add: drop_pair_def)

lemma nth_drop_pair: "i < length es - 1 \<Longrightarrow> drop_pair k es ! i = (if i = k then last es else es ! i)"
  by (auto simp: drop_pair_def nth_butlast nth_list_update)

lemma u16id_drop_holds:
  assumes h0: "holds base es" and f: "flatof base = Some f" and k: "k < length es"
  obtains m' where "u16id_drop f (Suc k) = Some m'" "holds (Some m') (drop_pair k es)"
proof -
  obtain m where m: "base = Some m" using h0 k by (cases base) (auto simp: holds_def)
  note h = h0 [unfolded m]
  define u where "u = length es"
  define n where "n = u - 1"
  have u: "u = Suc n" "k \<le> n" using k by (simp_all add: u_def n_def)
  have ff: "f = flatofup m u" using f flatof_Some [OF h] by (simp add: m u_def)
  note rb = room_bounds [OF holdsD(2) [OF h], folded u_def]
  define m1 where "m1 = (if Suc k \<noteq> u then (put_id m (Suc k) (u16_at m u))[u div 4 + Suc k := m ! (u div 4 + u)] else m)"
  have b1: "Suc k div 4 < length m" "u div 4 + Suc k < length m" "u div 4 < length m" "u div 4 + u < length m"
    using rb [of "Suc k"] rb [of u] u by auto
  have step1: "(if Suc k \<noteq> u then do {
             d \<leftarrow> load_id m u;
             m \<leftarrow> store_id m (Suc k) d;
             p \<leftarrow> load m (u div 4 + u);
             store m (u div 4 + Suc k) p
           }
           else Some m) = Some m1"
  proof (cases "Suc k = u")
    case False
    have "u div 4 < u div 4 + u" using u by simp
    moreover have "Suc k div 4 \<noteq> u div 4 + u" using u div_le_mono [of "Suc k" u 4] by simp
    ultimately show ?thesis using False b1 by (simp add: load_id_eq store_id_eq store_def m1_def nth_put_id)
  qed (simp add: m1_def)
  have [simp]: "length m1 = length m" by (simp add: m1_def)
  have id1: "u16_at m1 j = (if j = Suc k then u16_at m u else u16_at m j)" if "j \<le> u" for j
  proof (cases "Suc k = u")
    case False
    have "j div 4 < u div 4 + Suc k" using div_le_mono [OF that, of 4] by simp
    then show ?thesis using False b1 by (simp add: m1_def u16_at_update u16_at_put_id)
  qed (simp add: m1_def)
  have p1: "m1 ! (u div 4 + j) = (if j = Suc k then m ! (u div 4 + u) else m ! (u div 4 + j))" if "0 < j" for j
  proof (cases "Suc k = u")
    case False
    have "u div 4 + j \<noteq> Suc k div 4" using that u div_le_mono [of "Suc k" u 4] by simp
    then show ?thesis using b1 False by (simp add: m1_def nth_put_id)
  qed (simp add: m1_def)
  define m2 where "m2 = put_id m1 0 (word_of_nat n)"
  have l0: "0 < length m" using b1(1) by linarith
  have step2: "store_id m1 0 (word_of_nat n) = Some m2" using l0 by (simp add: store_id_eq m2_def)
  have [simp]: "length m2 = length m" by (simp add: m2_def)
  have n16: "u < 2 ^ 16" using holds_length [OF h] by (simp add: u_def)
  then have "unat (word_of_nat n :: u16) = n" by (simp add: unat_of_nat take_bit_nat_eq_self u)
  moreover have id2: "u16_at m2 j = (if j = 0 then word_of_nat n else u16_at m1 j)" for j
    using l0 by (simp add: m2_def u16_at_put_id)
  ultimately have c2: "unat (u16_at m2 0) = n" by simp
  have p2: "m2 ! (u div 4 + j) = m1 ! (u div 4 + j)" if "0 < j" for j
    using that by (simp add: m2_def nth_put_id)
  have wrap: "(u + (2 ^ 16 - 1)) mod 2 ^ 16 = n" using n16 by (simp add: u)
  have run: "u16id_drop f (Suc k) =
      (if 4 * (n div 4) + 3 \<noteq> 4 * (u div 4) + 3 then ptrs_down m2 (n div 4) (u div 4) 1 n else Some m2)"
    by (simp only: u16id_drop_def ff flatofup_simps Let_def step1 step2 wrap get_capacity_eq Option.bind.simps)
  have es: "u16_at m (Suc i) = fst (es ! i)" "m ! (u div 4 + Suc i) = snd (es ! i)" if "i < u" for i
    using holdsD(3,4) [OF h, of i] that by (simp_all add: u_def ptr_at_def)
  have ln: "length (drop_pair k es) = n" "length es - Suc 0 = n" by (simp_all add: n_def u_def)
  have lst: "es ! n = last es" using k by (cases "es = []") (simp_all add: last_conv_nth u_def n_def)
  have nd: "drop_pair k es ! i = (if i = k then es ! n else es ! i)" if "i < n" for i
    using nth_drop_pair [of i es k] that lst by (simp add: n_def u_def)
  have fin1: "u16_at m2 (Suc i) = fst (drop_pair k es ! i)" if "i < n" for i
    unfolding nd [OF that] using that u es(1) [of i] es(1) [of n] id1 [of "Suc i"] by (auto simp: id2)
  have fin2: "m2 ! (u div 4 + Suc i) = snd (drop_pair k es ! i)" if "i < n" for i
    unfolding nd [OF that] using that u es(2) [of i] es(2) [of n] p1 [of "Suc i"] p2 [of "Suc i"] by auto
  have rm: "room m u" using holdsD(2) [OF h] by (simp add: u_def)
  show thesis
  proof (cases "n div 4 = u div 4")
    case True
    have "holds (Some m2) (drop_pair k es)"
      by (rule holdsI) (use c2 rm fin1 fin2 in \<open>simp_all add: ln room_def True ptr_at_def\<close>)
    then show thesis using that run True by simp
  next
    case False
    then have d: "u div 4 = Suc (n div 4)" using u by presburger
    have "Suc n div 4 + n < length m" using b1 u by simp
    then obtain m3 where m3: "ptrs_down m2 (n div 4) (u div 4) 1 n = Some m3" "length m3 = length m"
      "\<And>j. m3 ! j = (if n div 4 + 1 \<le> j \<and> j \<le> n div 4 + n then m2 ! (j - n div 4 + u div 4) else m2 ! j)"
      using ptrs_down_eq [of "n div 4" "u div 4" n m2 1] d u by auto
    have "u16_at m3 j = u16_at m2 j" if "j \<le> n" for j
      using div_le_mono [OF that, of 4] by (simp add: u16_at_def m3(3))
    moreover have "m3 ! (n div 4 + Suc i) = m2 ! (u div 4 + Suc i)" if "i < n" for i
      using that by (simp add: m3(3) add.commute)
    ultimately have "holds (Some m3) (drop_pair k es)"
      by (intro holdsI) (use c2 rm fin1 fin2 m3(2) d in \<open>simp_all add: ln room_def ptr_at_def\<close>)
    then show thesis using that run False m3(1) d by simp
  qed
qed

subsection \<open>The invariant and the abstract map\<close>

definition u16_pairs :: "block option \<Rightarrow> (u16 \<times> ptr) list" where
  "u16_pairs base = (case base of None \<Rightarrow> [] | Some m \<Rightarrow> pairs m (unat (u16_at m 0)))"

definition u16_map :: "block option \<Rightarrow> u16 \<rightharpoonup> ptr" where
  "u16_map base = map_of (u16_pairs base)"

definition u16_inv :: "block option \<Rightarrow> bool" where
  "u16_inv base \<longleftrightarrow> (case base of None \<Rightarrow> True | Some m \<Rightarrow> room m (unat (u16_at m 0))) \<and>
     distinct (map fst (u16_pairs base))"

lemma holds_pairs: "holds base es \<Longrightarrow> u16_pairs base = es"
  by (auto simp: holds_def u16_pairs_def split: option.splits)

lemma u16_invE:
  assumes "u16_inv base"
  obtains es where "holds base es" "distinct (map fst es)" "u16_map base = map_of es" "u16_pairs base = es"
proof (rule that)
  show "holds base (u16_pairs base)" using assms
    by (auto simp: u16_inv_def holds_def u16_pairs_def pairs_Suc split: option.splits)
  show "distinct (map fst (u16_pairs base))" using assms by (simp add: u16_inv_def)
qed (simp_all add: u16_map_def)

lemma u16_invI:
  assumes "holds base es" and "distinct (map fst es)"
  shows "u16_inv base" and "u16_map base = map_of es" and "u16_pairs base = es"
  using assms holds_pairs [OF assms(1)]
  by (auto simp: u16_inv_def u16_map_def holds_def split: option.splits)

lemma dom_u16: "distinct (map fst es) \<Longrightarrow> uid \<in> fst ` set es \<longleftrightarrow> uid \<in> dom (map_of es)"
  by (simp add: dom_map_of_conv_image_fst)

lemma map_of_nth: "distinct (map fst es) \<Longrightarrow> k < length es \<Longrightarrow> map_of es (fst (es ! k)) = Some (snd (es ! k))"
  by (simp add: map_of_eq_Some_iff)

lemma map_of_snoc: "uid \<notin> fst ` set es \<Longrightarrow> map_of (es @ [(uid, p)]) = (map_of es)(uid \<mapsto> p)"
proof -
  assume "uid \<notin> fst ` set es"
  then have "map_of es uid = None" by (simp add: map_of_eq_None_iff)
  then show ?thesis by (auto simp: fun_eq_iff map_add_def split: option.splits)
qed

lemma map_of_set_nth:
  assumes "distinct (map fst es)" and "k < length es"
  shows "map_of (es[k := (fst (es ! k), p)]) = (map_of es)(fst (es ! k) \<mapsto> p)"
    and "map fst (es[k := (fst (es ! k), p)]) = map fst es"
proof -
  show "map fst (es[k := (fst (es ! k), p)]) = map fst es"
    by (simp add: map_update list_update_same_conv assms(2))
  show "map_of (es[k := (fst (es ! k), p)]) = (map_of es)(fst (es ! k) \<mapsto> p)"
    using assms
  proof (induction es arbitrary: k)
    case (Cons e es)
    show ?case
    proof (cases k)
      case (Suc j)
      then have "fst (es ! j) \<noteq> fst e" using Cons.prems nth_mem [of j es] by (metis distinct.simps(2) image_eqI length_Cons list.set_map list.simps(9) Suc_less_eq)
      then show ?thesis using Cons Suc by (cases e) (auto simp: fun_upd_twist)
    qed (cases e, auto simp: fun_eq_iff)
  qed simp
qed

subsection \<open>The operations refine a finite map\<close>

datatype u16_op = Add u16 ptr | Upd u16 ptr | Put u16 ptr | Get u16 | Del u16 | Has u16 | Clear

text \<open>Each operation of the map, with its status, the pointer it gives back and the new map.\<close>

fun u16_exec :: "u16_realloc \<Rightarrow> u16_op \<Rightarrow> block option \<Rightarrow> (int \<times> ptr option \<times> block option) option" where
  "u16_exec re (Add uid p) b = do { (r, b) \<leftarrow> u16id2ptr_add re b uid p; Some (r, None, b) }"
| "u16_exec re (Upd uid p) b = do { (r, b) \<leftarrow> u16id2ptr_set re b uid p; Some (r, None, b) }"
| "u16_exec re (Put uid p) b = do { (r, b) \<leftarrow> u16id2ptr_put b uid p; Some (r, None, b) }"
| "u16_exec re (Get uid) b = do { (r, p) \<leftarrow> u16id2ptr_get b uid; Some (r, p, b) }"
| "u16_exec re (Del uid) b = u16id2ptr_drop b uid"
| "u16_exec re (Has uid) b = do { h \<leftarrow> u16id2ptr_has b uid; Some (if h then 1 else 0, None, b) }"
| "u16_exec re Clear b = do { b \<leftarrow> u16id_dropall b; Some (0, None, b) }"

text \<open>The same operations on a finite map.\<close>

fun map_exec :: "u16_op \<Rightarrow> (u16 \<rightharpoonup> ptr) \<Rightarrow> int \<times> ptr option \<times> (u16 \<rightharpoonup> ptr)" where
  "map_exec (Add uid p) M = (case M uid of Some _ \<Rightarrow> (X_EEXIST, None, M) | None \<Rightarrow> (0, None, M(uid \<mapsto> p)))"
| "map_exec (Upd uid p) M = (0, None, M(uid \<mapsto> p))"
| "map_exec (Put uid p) M = (case M uid of Some _ \<Rightarrow> (0, None, M(uid \<mapsto> p)) | None \<Rightarrow> (X_ENOENT, None, M))"
| "map_exec (Get uid) M = (case M uid of Some q \<Rightarrow> (0, Some q, M) | None \<Rightarrow> (X_ENOENT, None, M))"
| "map_exec (Del uid) M = (case M uid of Some q \<Rightarrow> (0, Some q, M(uid := None)) | None \<Rightarrow> (X_ENOENT, None, M))"
| "map_exec (Has uid) M = (case M uid of Some _ \<Rightarrow> (1, None, M) | None \<Rightarrow> (0, None, M))"
| "map_exec Clear M = (0, None, Map.empty)"

text \<open>The operations that may need memory.\<close>

definition allocating :: "u16_op \<Rightarrow> bool" where
  "allocating op = (case op of Add _ _ \<Rightarrow> True | Upd _ _ \<Rightarrow> True | _ \<Rightarrow> False)"

lemma exec_holds:
  assumes re: "u16_reallocates re" and h: "holds b es" and d: "distinct (map fst es)"
    and n: "Suc (length es) < 2 ^ 16"
  shows "(\<exists>r q b' es'. u16_exec re op b = Some (r, q, b') \<and> holds b' es' \<and> distinct (map fst es') \<and>
      map_exec op (map_of es) = (r, q, map_of es') \<and> length es' \<le> Suc (length es)) \<or>
    (allocating op \<and> u16_exec re op b = Some (X_ENOMEM, None, b))"
proof -
  obtain f where f: "flatof b = Some f" using flatof_holds [OF h] by metis
  have s: "u16id_search f uid = Some (index_from 0 es uid)" for uid by (rule search_eq [OF h f])
  have new: "(\<exists>b'. u16id_add re f uid p = Some (Some b') \<and> holds (Some b') (es @ [(uid, p)]) \<and>
      distinct (map fst (es @ [(uid, p)])) \<and> map_of (es @ [(uid, p)]) = (map_of es)(uid \<mapsto> p)) \<or>
      u16id_add re f uid p = Some None" if "uid \<notin> fst ` set es" for uid p
    using u16id_add_holds [OF re h f n, of uid p] map_of_snoc [OF that] d that by auto
  have old: "\<exists>m'. set_ptr f (Suc k) p = Some m' \<and> holds (Some m') (es[k := (fst (es ! k), p)])"
    if "k < length es" for k p
    using set_ptr_holds [OF h f that, of p] by blast
  have none: "map_of es uid = None" if "uid \<notin> fst ` set es" for uid
    using that by (simp add: map_of_eq_None_iff)
  have ok: ?thesis if "u16_exec re op b = Some (r, q, b')" "holds b' es'" "distinct (map fst es')"
    "map_exec op (map_of es) = (r, q, map_of es')" "length es' \<le> Suc (length es)" for r q b' es'
    using that by blast
  show ?thesis
  proof (cases op)
    case (Add uid p)
    show ?thesis
    proof (cases rule: index_of_cases [of es uid])
      case none': none
      consider b' where "u16id_add re f uid p = Some (Some b')" "holds (Some b') (es @ [(uid, p)])"
          "distinct (map fst (es @ [(uid, p)]))" "map_of (es @ [(uid, p)]) = (map_of es)(uid \<mapsto> p)"
        | "u16id_add re f uid p = Some None"
        using new [OF none'(2), of p] by blast
      then show ?thesis
      proof cases
        case (1 b')
        show ?thesis
          by (rule ok [OF _ 1(2,3)]) (use 1 none' none [OF none'(2)] in \<open>simp_all add: Add u16id2ptr_add_def f s\<close>)
      qed (use none' in \<open>simp add: Add u16id2ptr_add_def f s allocating_def\<close>)
    next
      case (found k)
      show ?thesis
        by (rule ok [OF _ h d]) (use found map_of_nth [OF d found(2)] in \<open>simp_all add: Add u16id2ptr_add_def f s\<close>)
    qed
  next
    case (Upd uid p)
    show ?thesis
    proof (cases rule: index_of_cases [of es uid])
      case none': none
      consider b' where "u16id_add re f uid p = Some (Some b')" "holds (Some b') (es @ [(uid, p)])"
          "distinct (map fst (es @ [(uid, p)]))" "map_of (es @ [(uid, p)]) = (map_of es)(uid \<mapsto> p)"
        | "u16id_add re f uid p = Some None"
        using new [OF none'(2), of p] by blast
      then show ?thesis
      proof cases
        case (1 b')
        show ?thesis
          by (rule ok [OF _ 1(2,3)]) (use 1 none' none [OF none'(2)] in \<open>simp_all add: Upd u16id2ptr_set_def f s\<close>)
      qed (use none' in \<open>simp add: Upd u16id2ptr_set_def f s allocating_def\<close>)
    next
      case (found k)
      obtain m' where m': "set_ptr f (Suc k) p = Some m'" "holds (Some m') (es[k := (fst (es ! k), p)])"
        using old [OF found(2)] by blast
      show ?thesis
        by (rule ok [OF _ m'(2)])
          (use found m'(1) map_of_set_nth [OF d found(2), of p] d in \<open>simp_all add: Upd u16id2ptr_set_def f s\<close>)
    qed
  next
    case (Put uid p)
    show ?thesis
    proof (cases rule: index_of_cases [of es uid])
      case none': none
      show ?thesis
        by (rule ok [OF _ h d]) (use none' none [OF none'(2)] in \<open>simp_all add: Put u16id2ptr_put_def f s\<close>)
    next
      case (found k)
      obtain m' where m': "set_ptr f (Suc k) p = Some m'" "holds (Some m') (es[k := (fst (es ! k), p)])"
        using old [OF found(2)] by blast
      show ?thesis
        by (rule ok [OF _ m'(2)])
          (use found m'(1) map_of_set_nth [OF d found(2), of p] map_of_nth [OF d found(2)] d
            in \<open>simp_all add: Put u16id2ptr_put_def f s\<close>)
    qed
  next
    case (Get uid)
    show ?thesis
    proof (cases rule: index_of_cases [of es uid])
      case none': none
      show ?thesis
        by (rule ok [OF _ h d]) (use none' none [OF none'(2)] in \<open>simp_all add: Get u16id2ptr_get_def f s\<close>)
    next
      case (found k)
      show ?thesis
        by (rule ok [OF _ h d])
          (use found map_of_nth [OF d found(2)] get_ptr_holds [OF h f found(2)] in \<open>simp_all add: Get u16id2ptr_get_def f s\<close>)
    qed
  next
    case (Del uid)
    show ?thesis
    proof (cases rule: index_of_cases [of es uid])
      case none': none
      show ?thesis
        by (rule ok [OF _ h d]) (use none' none [OF none'(2)] in \<open>simp_all add: Del u16id2ptr_drop_def f s\<close>)
    next
      case (found k)
      obtain m' where m': "u16id_drop f (Suc k) = Some m'" "holds (Some m') (drop_pair k es)"
        by (rule u16id_drop_holds [OF h f found(2)])
      show ?thesis
        by (rule ok [OF _ m'(2)])
          (use found m'(1) map_of_nth [OF d found(2)] get_ptr_holds [OF h f found(2)] map_of_drop_pair [OF found(2) d]
            in \<open>simp_all add: Del u16id2ptr_drop_def f s\<close>)
    qed
  next
    case (Has uid)
    have "map_exec op (map_of es) = (if uid \<in> fst ` set es then 1 else 0, None, map_of es)"
      using none [of uid] dom_u16 [OF d, of uid] by (auto simp: Has split: option.splits)
    then show ?thesis
      by (intro ok [OF _ h d, of "if uid \<in> fst ` set es then 1 else 0" None])
        (use index_from_0 [of 0 es uid] in \<open>auto simp add: Has u16id2ptr_has_def f s\<close>)
  next
    case Clear
    show ?thesis
    proof (cases b)
      case None
      then have "es = []" using h by (simp add: holds_def)
      then show ?thesis using h by (intro ok [OF _ h d, of 0 None]) (simp_all add: Clear None u16id_dropall_def)
    next
      case (Some m)
      then have r: "room m (length es)" using h holdsD(2) by blast
      then have "store_id m 0 0 = Some (put_id m 0 0)"
        using room_bounds(1) [of m "length es" 0] by (intro store_id_eq) simp
      moreover have "holds (Some (put_id m 0 0)) []"
        using r room_bounds(1) [of m "length es" 0]
        by (intro holdsI) (auto simp: room_def u16_at_put_id)
      ultimately show ?thesis
        by (intro ok [of 0 None "Some (put_id m 0 0)" "[]"]) (simp_all add: Clear Some u16id_dropall_def)
    qed
  qed
qed

text \<open>When the memory never lacks, no operation fails for it.\<close>

lemma u16id_add_no_fail: "(\<And>b n. re b n \<noteq> None) \<Longrightarrow> u16id_add re f uid p \<noteq> Some None"
  by (auto simp: u16id_add_def Let_def bind_eq_Some_conv split: option.splits if_splits)
    (metis option.distinct(1))+

lemma exec_no_fail: "(\<And>b n. re b n \<noteq> None) \<Longrightarrow> u16_exec re op b \<noteq> Some (X_ENOMEM, None, b)"
  using u16id_add_no_fail [of re]
  by (cases op) (auto simp: u16id2ptr_add_def u16id2ptr_set_def u16id2ptr_put_def u16id2ptr_get_def
      u16id2ptr_drop_def x_errno bind_eq_Some_conv split: option.splits if_splits)

text \<open>
  Property C11: an operation of \<open>u16id2ptr\<close> on a map with fewer than 65535 identifiers stays
  in its block, keeps the invariant and returns what the operation on the finite map returns,
  error codes included. The only other outcome is that adding a pair fails for lack of memory,
  and then nothing has changed.
\<close>

theorem u16id2ptr_refines_map:
  assumes "u16_reallocates re" and "u16_inv b" and "length (u16_pairs b) < 65535"
  shows "(\<exists>r q b'. u16_exec re op b = Some (r, q, b') \<and> u16_inv b' \<and>
      map_exec op (u16_map b) = (r, q, u16_map b')) \<or>
    (allocating op \<and> u16_exec re op b = Some (X_ENOMEM, None, b))"
proof -
  obtain es where es: "holds b es" "distinct (map fst es)" "u16_map b = map_of es" "u16_pairs b = es"
    by (rule u16_invE [OF assms(2)])
  then have n: "Suc (length es) < 2 ^ 16" using assms(3) by simp
  show ?thesis using exec_holds [OF assms(1) es(1,2) n, of op] u16_invI es(3) by metis
qed

lemma u16_reallocates_zero [simp]: "u16_reallocates u16_realloc_zero"
  by (auto simp: u16_reallocates_def u16_realloc_zero_def nth_append split: option.splits)

theorem u16id2ptr_refines_map_witness:
  "\<exists>b. u16_exec u16_realloc_zero (Add 7 42) None = Some (0, None, b) \<and>
    u16_map b = [7 \<mapsto> 42] \<and> u16_inv b"
proof -
  have "u16_inv None" by (simp add: u16_inv_def u16_pairs_def)
  moreover have "u16_map None = Map.empty" by (simp add: u16_map_def u16_pairs_def)
  moreover have "u16_exec u16_realloc_zero (Add 7 42) None \<noteq> Some (X_ENOMEM, None, None)"
    by (rule exec_no_fail) (simp add: u16_realloc_zero_def)
  ultimately show ?thesis
    using u16id2ptr_refines_map [of u16_realloc_zero None "Add 7 42"] by (auto simp: u16_pairs_def)
qed

fun u16_run :: "u16_realloc \<Rightarrow> u16_op list \<Rightarrow> block option \<Rightarrow> ((int \<times> ptr option) list \<times> block option) option" where
  "u16_run re [] b = Some ([], b)"
| "u16_run re (op # ops) b = do {
     (r, q, b) \<leftarrow> u16_exec re op b;
     (rs, b) \<leftarrow> u16_run re ops b;
     Some ((r, q) # rs, b)
   }"

fun map_run :: "u16_op list \<Rightarrow> (u16 \<rightharpoonup> ptr) \<Rightarrow> (int \<times> ptr option) list \<times> (u16 \<rightharpoonup> ptr)" where
  "map_run [] M = ([], M)"
| "map_run (op # ops) M = (let (r, q, M) = map_exec op M; (rs, M) = map_run ops M in ((r, q) # rs, M))"

lemma run_holds:
  assumes re: "u16_reallocates re" "\<And>b n. re b n \<noteq> None"
  shows "holds b es \<Longrightarrow> distinct (map fst es) \<Longrightarrow> length ops + length es < 65535 \<Longrightarrow>
    \<exists>rs b' es'. u16_run re ops b = Some (rs, b') \<and> holds b' es' \<and> distinct (map fst es') \<and>
      map_run ops (map_of es) = (rs, map_of es')"
proof (induction ops arbitrary: b es)
  case (Cons op ops)
  then have "Suc (length es) < 2 ^ 16" by simp
  then obtain r q b1 es1 where 1: "u16_exec re op b = Some (r, q, b1)" "holds b1 es1" "distinct (map fst es1)"
    "map_exec op (map_of es) = (r, q, map_of es1)" "length es1 \<le> Suc (length es)"
    using exec_holds [OF re(1) Cons.prems(1,2), of op] exec_no_fail [of re op b] re(2) by auto
  have "length ops + length es1 < 65535" using 1(5) Cons.prems(3) by simp
  then obtain rs b' es' where "u16_run re ops b1 = Some (rs, b')" "holds b' es'" "distinct (map fst es')"
      "map_run ops (map_of es1) = (rs, map_of es')"
    using Cons.IH [OF 1(2,3)] by blast
  then show ?case using 1 by auto
qed auto

text \<open>
  Whatever sequence of fewer than 65535 operations is run from the null map, no
  access leaves the block, the invariant holds at the end, and the results are those of the
  same sequence on the empty finite map.
\<close>

theorem u16id2ptr_run_refines:
  assumes "u16_reallocates re" and "\<And>b n. re b n \<noteq> None" and "length ops < 65535"
  shows "\<exists>rs b. u16_run re ops None = Some (rs, b) \<and> u16_inv b \<and> map_run ops Map.empty = (rs, u16_map b)"
proof -
  have "holds None []" by (simp add: holds_def)
  then obtain rs b es where "u16_run re ops None = Some (rs, b)" "holds b es" "distinct (map fst es)"
      "map_run ops (map_of []) = (rs, map_of es)"
    using run_holds [OF assms(1,2), of None "[]" ops] assms(3) by auto
  then show ?thesis using u16_invI [of b es] by auto
qed

theorem u16id2ptr_run_refines_witness:
  "\<exists>b. u16_run u16_realloc_zero [Add 7 42, Add 7 43, Upd 9 5, Del 7, Get 9, Get 7] None =
    Some ([(0, None), (X_EEXIST, None), (0, None), (0, Some 42), (0, Some 5), (X_ENOENT, None)], b)"
proof -
  have "u16_realloc_zero b n \<noteq> None" for b n by (simp add: u16_realloc_zero_def)
  then show ?thesis
    using u16id2ptr_run_refines [of u16_realloc_zero "[Add 7 42, Add 7 43, Upd 9 5, Del 7, Get 9, Get 7]"]
    by auto
qed

text \<open>
  Adding an identifier to a map that has 65535 of them wraps the count to 0 and
  overwrites the count with the identifier, while reporting success: the map then pretends to
  have as many identifiers as the value of the one that was added.
\<close>

theorem u16id2ptr_add_wraps:
  assumes "u16_inv (Some m)" and "length (u16_pairs (Some m)) = 65535"
    and "uid \<notin> fst ` set (u16_pairs (Some m))"
  shows "\<exists>m'. u16id2ptr_add re (Some m) uid p = Some (0, Some m') \<and>
    u16id2ptr_count (Some m') = Some (int (unat uid))"
proof -
  obtain es where h: "holds (Some m) es" and es: "u16_pairs (Some m) = es" by (rule u16_invE [OF assms(1)])
  have n: "length es = 65535" using assms(2) es by simp
  have r: "5 * (65535 div 4) + 4 \<le> length m" using holdsD(2) [OF h] by (simp only: room_def n)
  let ?f = "flatofup m 65535"
  have f: "flatof (Some m) = Some ?f" using flatof_Some [OF h] by (simp only: n)
  have s: "u16id_search ?f uid = Some 0"
    using search_eq [OF h f] assms(3) es by (simp add: index_from_0)
  define m1 where "m1 = put_id m 0 0"
  define m2 where "m2 = put_id m1 0 uid"
  define m3 where "m3 = m2[16383 := p]"
  have [simp]: "length m2 = length m" "length m1 = length m" by (simp_all add: m1_def m2_def)
  have l: "0 < length m" "16383 < length m" using r by auto
  have "store_id m 0 0 = Some m1" "store_id m1 0 uid = Some m2" "store m2 16383 p = Some m3"
    using l by (simp_all add: store_id_eq m1_def [symmetric] m2_def [symmetric] m3_def store_def)
  then have "u16id_add re ?f uid p = Some (Some m3)" by (simp add: u16id_add_def)
  then have "u16id2ptr_add re (Some m) uid p = Some (0, Some m3)" by (simp add: u16id2ptr_add_def f s)
  moreover have "u16_at m3 0 = uid" using l
    by (simp add: m3_def m2_def m1_def u16_at_update u16_at_put_id)
  then have "load_id m3 0 = Some uid" using l load_id_eq [of 0 m3] by (simp add: m3_def)
  ultimately show ?thesis by (auto simp: u16id2ptr_count_def)
qed

lemma fill_map:
  "n \<le> 65535 \<Longrightarrow> \<exists>b. holds b (map (\<lambda>i. (word_of_nat (Suc i), 0)) [0..<n])"
proof (induction n)
  case 0
  have "holds None []" by (simp add: holds_def)
  then show ?case by auto
next
  case (Suc n)
  let ?es = "map (\<lambda>i. (word_of_nat (Suc i), 0)) [0..<n]"
  obtain b where b: "holds b ?es" using Suc by auto
  obtain f where f: "flatof b = Some f" using flatof_holds [OF b] by metis
  have "u16id_add u16_realloc_zero f (word_of_nat (Suc n)) 0 \<noteq> Some None"
    by (rule u16id_add_no_fail) (simp add: u16_realloc_zero_def)
  then obtain m where "holds (Some m) (?es @ [(word_of_nat (Suc n), 0)])"
    using u16id_add_holds [OF u16_reallocates_zero b f, of "word_of_nat (Suc n)" 0] Suc.prems by auto
  then show ?case by (intro exI [of _ "Some m"]) simp
qed

theorem u16id2ptr_add_wraps_witness:
  "\<exists>m m'. length (u16_pairs (Some m)) = 65535 \<and>
    u16id2ptr_add u16_realloc_zero (Some m) 0 1 = Some (0, Some m') \<and> u16id2ptr_count (Some m') = Some 0"
proof -
  let ?es = "map (\<lambda>i. (word_of_nat (Suc i), 0)) [0..<65535] :: (u16 \<times> ptr) list"
  obtain b where b: "holds b ?es" using fill_map [of 65535] by auto
  have l: "length ?es = 65535" by simp
  obtain m where m: "b = Some m" using b l by (cases b) (simp_all only: holds_def option.case, simp)
  have inj: "word_of_nat (Suc i) = (word_of_nat (Suc j) :: u16) \<longleftrightarrow> i = j" if "i < 65535" "j < 65535" for i j
    using that by (simp only: word_of_nat_eq_iff) (simp add: take_bit_nat_eq_self)
  have "inj_on (\<lambda>i. word_of_nat (Suc i) :: u16) {0..<65535}"
    by (intro inj_onI) (simp add: inj del: of_nat_Suc)
  then have d: "distinct (map fst ?es)" by (simp only: map_map comp_def fst_conv distinct_map distinct_upt set_upt)
  have z: "word_of_nat (Suc i) \<noteq> (0 :: u16)" if "i < 65535" for i
    using that by (simp only: word_of_nat_eq_0_iff) (auto dest: dvd_imp_le)
  have "0 \<notin> fst ` set ?es" using z by (auto simp del: of_nat_Suc)
  moreover note inv = u16_invI [OF b d, unfolded m]
  ultimately obtain m' where "u16id2ptr_add u16_realloc_zero (Some m) 0 1 = Some (0, Some m')"
    "u16id2ptr_count (Some m') = Some (int (unat (0 :: u16)))"
    using u16id2ptr_add_wraps [OF inv(1), of 0 u16_realloc_zero 1] l unfolding inv(3) by blast
  then show ?thesis using l inv(3) by (intro exI [of _ m] exI [of _ m'] conjI) simp_all
qed

subsection \<open>The other readers\<close>

lemma u16id2ptr_forall_eq:
  assumes "u16_inv b"
  shows "u16id2ptr_forall b = Some (rev (u16_pairs b))"
proof -
  obtain es where h: "holds b es" and es: "u16_pairs b = es" by (rule u16_invE [OF assms])
  show ?thesis
  proof (cases b)
    case None
    then show ?thesis by (simp add: u16id2ptr_forall_def flatof_None u16_pairs_def)
  next
    case (Some m)
    note h = h [unfolded Some]
    let ?f = "flatofup m (length es)"
    have "n \<le> length es \<Longrightarrow> forall_calls m ?f n = Some (rev (take n es))" for n
    proof (induction n)
      case (Suc n)
      then have n: "n < length es" by simp
      have "Suc n div 4 < length m" using n by (intro room_bounds(1) [OF holdsD(2) [OF h]]) simp
      then have "load_id m (Suc n) = Some (fst (es ! n))" using holdsD(3) [OF h n] by (simp add: load_id_eq)
      moreover have "get_ptr ?f (Suc n) = Some (snd (es ! n))"
        by (rule get_ptr_holds [OF h flatof_Some [OF h] n])
      ultimately show ?case using Suc n by (simp add: take_Suc_conv_app_nth)
    qed simp
    then show ?thesis using flatof_Some [OF h] es by (simp add: Some u16id2ptr_forall_def)
  qed
qed

lemma u16id2ptr_at_eq:
  assumes "u16_inv b"
  shows "u16id2ptr_at b i = (if 0 \<le> i \<and> nat i < length (u16_pairs b)
    then Some (0, Some (u16_pairs b ! nat i)) else Some (X_EINVAL, None))"
proof -
  obtain es where h: "holds b es" and es: "u16_pairs b = es" by (rule u16_invE [OF assms])
  obtain f where f: "flatof b = Some f" "upper f = length es" "ids f = b" using flatof_holds [OF h] by metis
  show ?thesis
  proof (cases "0 \<le> i \<and> nat i < length es")
    case True
    then obtain m where m: "b = Some m" using h by (cases b) (auto simp: holds_def)
    note hm = h [unfolded m]
    have "Suc (nat i) div 4 < length m" using True by (intro room_bounds(1) [OF holdsD(2) [OF hm]]) simp
    then have "load_id m (Suc (nat i)) = Some (fst (es ! nat i))"
      using holdsD(3) [OF hm] True by (simp add: load_id_eq)
    moreover have "\<not> i < 0" "\<not> int (length es) \<le> i" using True by linarith+
    ultimately show ?thesis using True get_ptr_holds [OF h f(1)] f es m by (simp add: u16id2ptr_at_def)
  next
    case False
    then have "i < 0 \<or> int (length es) \<le> i" by auto
    then show ?thesis using False f es by (auto simp: u16id2ptr_at_def)
  qed
qed

text \<open>
  Going through a map calls the callback for each pair exactly once, the last added
  pair first, and \<open>at\<close> gives the pairs by index, refusing any other index.
\<close>

theorem u16id2ptr_forall_at:
  assumes "u16_inv b"
  shows "u16id2ptr_forall b = Some (rev (u16_pairs b)) \<and> distinct (map fst (u16_pairs b)) \<and>
    u16id2ptr_at b i = (if 0 \<le> i \<and> nat i < length (u16_pairs b)
      then Some (0, Some (u16_pairs b ! nat i)) else Some (X_EINVAL, None))"
  using u16id2ptr_forall_eq [OF assms] u16id2ptr_at_eq [OF assms] assms by (simp add: u16_inv_def)

theorem u16id2ptr_forall_at_witness: "u16id2ptr_forall None = Some [] \<and> u16id2ptr_at None 0 = Some (X_EINVAL, None)"
proof -
  have "u16_inv None" by (simp add: u16_inv_def u16_pairs_def)
  from u16id2ptr_forall_at [OF this, of 0] show ?thesis by (simp add: u16_pairs_def)
qed

subsection \<open>The map to booleans\<close>

lemma mask_bit: "(w AND push_bit k 1 \<noteq> 0) = bit (w :: 64 word) k" if "k < 64"
proof -
  have "w AND push_bit k 1 = (if bit w k then push_bit k 1 else 0)"
    by (rule bit_word_eqI) (auto simp: bit_simps bit_1_iff)
  moreover have "bit (push_bit k 1 :: 64 word) k" using that by (simp add: bit_simps)
  ultimately show ?thesis using that by (auto simp del: bit_push_bit_iff push_bit_of_1)
qed

lemma low6: "unat (uid AND 63 :: u16) < 64"
proof -
  have "(63 :: u16) = mask 6" by (simp add: mask_eq_exp_minus_1)
  then have "uid AND 63 = take_bit 6 uid" by (simp only: take_bit_eq_mask)
  then have "unat (uid AND 63) = take_bit 6 (unat uid)" by (simp only: unsigned_take_bit_eq)
  then show ?thesis using take_bit_nat_less_exp [of 6 "unat uid"] by simp
qed

text \<open>The set of the identifiers whose boolean is true.\<close>

definition u16_bits :: "block option \<Rightarrow> u16 set" where
  "u16_bits b = {uid. case u16_map b (uid AND NOT 63) of None \<Rightarrow> False | Some w \<Rightarrow> bit w (unat (uid AND 63))}"

definition u16_binv :: "block option \<Rightarrow> bool" where
  "u16_binv b \<longleftrightarrow> u16_inv b \<and> list_all (\<lambda>(uid, _). uid AND 63 = 0) (u16_pairs b)"

lemma high6: "(uid AND NOT 63) AND (63 :: u16) = 0"
  by (rule bit_word_eqI) (auto simp: bit_simps)

lemma u16_split_eq:
  "(uid AND NOT 63 = v AND NOT (63 :: u16)) \<and> unat (uid AND 63) = unat (v AND 63) \<longleftrightarrow> uid = v"
proof -
  have "x = (x AND NOT 63) OR (x AND (63 :: u16))" for x
    by (rule bit_word_eqI) (auto simp: bit_simps)
  then show ?thesis by (metis unsigned_word_eqI)
qed

lemma few_fields:
  fixes es :: "(u16 \<times> ptr) list"
  assumes "distinct (map fst es)" and "list_all (\<lambda>(uid, _). uid AND 63 = 0) es"
  shows "length es \<le> 1024"
proof -
  have "fst ` set es \<subseteq> (\<lambda>n. word_of_nat (64 * n) :: u16) ` {..<1024}"
  proof
    fix w :: u16
    assume "w \<in> fst ` set es"
    then have w: "w AND 63 = 0" using assms(2) by (auto simp: list_all_iff)
    have "(63 :: u16) = mask 6" by (simp add: mask_eq_exp_minus_1)
    then have "take_bit 6 w = 0" using w by (simp only: take_bit_eq_mask)
    then have "take_bit 6 (unat w) = 0" by (metis unsigned_0 unsigned_take_bit_eq)
    then have "unat w mod 64 = 0" by (simp add: take_bit_eq_mod)
    then have e: "64 * (unat w div 64) = unat w" by presburger
    have "unat w < 65536" using unsigned_less [of w, where ?'a = nat] by simp
    then have m: "unat w div 64 < 1024" by simp
    have "w = word_of_nat (64 * (unat w div 64))" unfolding e by simp
    then show "w \<in> (\<lambda>n. word_of_nat (64 * n)) ` {..<1024}" by (rule image_eqI) (simp add: m)
  qed
  then have "card (fst ` set es) \<le> card {..<1024 :: nat}" by (meson surj_card_le finite_lessThan)
  moreover have "card (fst ` set es) = length es"
    using distinct_card [OF assms(1)] by simp
  ultimately show ?thesis by simp
qed

lemma u16id2bool_get_holds:
  assumes h: "holds b es" and d: "distinct (map fst es)"
  shows "u16id2bool_get b uid = Some (case map_of es (uid AND NOT 63) of None \<Rightarrow> 0
    | Some w \<Rightarrow> if bit w (unat (uid AND 63)) then 1 else 0)"
proof -
  obtain f where f: "flatof b = Some f" using flatof_holds [OF h] by metis
  have s: "u16id_search f v = Some (index_from 0 es v)" for v by (rule search_eq [OF h f])
  show ?thesis
  proof (cases rule: index_of_cases [of es "uid AND NOT 63"])
    case none
    then show ?thesis by (simp add: u16id2bool_get_def f s Let_def map_of_eq_None_iff [THEN iffD2])
  next
    case (found k)
    then show ?thesis
      using map_of_nth [OF d found(2)] get_ptr_holds [OF h f found(2)] mask_bit [OF low6 [of uid]]
      by (simp add: u16id2bool_get_def f s Let_def)
  qed
qed

text \<open>The bits of a field after one of them is set or cleared.\<close>

lemma or_bit: "k < 64 \<Longrightarrow> bit (w OR push_bit k 1 :: 64 word) n = (n = k \<or> bit w n)"
  by (auto simp: bit_simps bit_1_iff)

lemma and_not_bit: "k < 64 \<Longrightarrow> bit (w AND NOT (push_bit k 1) :: 64 word) n = (n \<noteq> k \<and> bit w n)"
  by (auto simp: bit_simps bit_1_iff dest: bit_imp_le_length)

definition bits_of :: "(u16 \<rightharpoonup> ptr) \<Rightarrow> u16 set" where
  "bits_of M = {uid. case M (uid AND NOT 63) of None \<Rightarrow> False | Some w \<Rightarrow> bit w (unat (uid AND 63))}"

lemma bits_of_update:
  assumes "\<And>n. bit w n = (if n = unat (uid AND 63) then v else (case M (uid AND NOT 63) of None \<Rightarrow> False | Some x \<Rightarrow> bit x n))"
  shows "bits_of (M(uid AND NOT 63 \<mapsto> w)) = (if v then insert uid (bits_of M) else bits_of M - {uid})"
  using assms u16_split_eq [of _ uid] by (auto simp: bits_of_def split: if_splits option.splits) metis+

text \<open>The operations that the two maps share.\<close>

definition u16id2ptr_create :: "(nat \<Rightarrow> block option) \<Rightarrow> (int \<times> block option) option" where
  "u16id2ptr_create alloc = u16id_create alloc"

definition u16id2ptr_destroy :: "block option \<Rightarrow> block option" where
  "u16id2ptr_destroy i2p = u16id_destroy i2p"

definition u16id2ptr_dropall :: "block option \<Rightarrow> block option option" where
  "u16id2ptr_dropall i2p = u16id_dropall i2p"

definition u16id2bool_create :: "(nat \<Rightarrow> block option) \<Rightarrow> (int \<times> block option) option" where
  "u16id2bool_create alloc = u16id_create alloc"

definition u16id2bool_destroy :: "block option \<Rightarrow> block option" where
  "u16id2bool_destroy i2b = u16id_destroy i2b"

definition u16id2bool_clearall :: "block option \<Rightarrow> block option option" where
  "u16id2bool_clearall i2b = u16id_dropall i2b"

lemma u16id_create_holds:
  assumes "\<And>n m. alloc n = Some m \<Longrightarrow> length m = n div 8"
  shows "u16id_create alloc = Some (X_ENOMEM, None) \<or>
    (\<exists>m. u16id_create alloc = Some (0, Some m) \<and> holds (Some m) [])"
proof (cases "alloc (u16id_size (get_capacity 0))")
  case (Some m)
  then have l: "length m = 4" using assms [OF Some] by (simp add: u16id_size_cells)
  have "holds (Some (put_id m 0 0)) []" by (intro holdsI) (simp_all add: u16_at_put_id l room_def)
  then show ?thesis using Some l by (simp add: u16id_create_def store_id_eq)
qed (simp add: u16id_create_def)

lemma bits_of_None:
  assumes "\<not> v" and "\<And>n. n \<noteq> unat (uid AND 63) \<Longrightarrow> \<not> (case M (uid AND NOT 63) of None \<Rightarrow> False | Some x \<Rightarrow> bit x n)"
  shows "bits_of (M(uid AND NOT 63 := None)) = bits_of M - {uid}"
  using assms u16_split_eq [of _ uid] by (auto simp: bits_of_def split: if_splits option.splits) metis+

lemma u16_bits_eq: "u16_bits b = bits_of (u16_map b)"
  by (simp add: u16_bits_def bits_of_def)

definition fields_ok :: "(u16 \<times> ptr) list \<Rightarrow> bool" where
  "fields_ok es \<longleftrightarrow> distinct (map fst es) \<and> (\<forall>u \<in> fst ` set es. u AND 63 = 0)"

lemma fields_ok_cong: "map fst es' = map fst es \<Longrightarrow> fields_ok es' = fields_ok es"
proof -
  assume m: "map fst es' = map fst es"
  then have "fst ` set es' = fst ` set es" by (metis list.set_map)
  then show ?thesis by (simp only: fields_ok_def m)
qed

lemma u16_binv_eq: "u16_binv b \<longleftrightarrow> u16_inv b \<and> fields_ok (u16_pairs b)"
  by (auto simp: u16_binv_def fields_ok_def u16_inv_def list_all_iff)

lemma u16id2bool_set_holds:
  assumes re: "u16_reallocates re" and h: "holds b es" and ok: "fields_ok es"
  shows "(\<exists>b' es'. u16id2bool_set re b uid val = Some (if uid \<in> bits_of (map_of es) then 1 else 0, b') \<and>
      holds b' es' \<and> fields_ok es' \<and>
      bits_of (map_of es') = (if val then insert uid (bits_of (map_of es)) else bits_of (map_of es) - {uid})) \<or>
    (val \<and> uid \<notin> bits_of (map_of es) \<and> u16id2bool_set re b uid val = Some (X_ENOMEM, b))"
proof -
  let ?hi = "uid AND NOT 63" and ?lo = "unat (uid AND 63)"
  let ?mask = "push_bit ?lo 1 :: 64 word" and ?M = "map_of es"
  have d: "distinct (map fst es)" and ks: "\<forall>u \<in> fst ` set es. u AND 63 = 0" using ok by (simp_all add: fields_ok_def)
  have "length es \<le> 1024" using d ks by (intro few_fields) (auto simp: list_all_iff)
  then have n: "Suc (length es) < 2 ^ 16" by simp
  obtain f where f: "flatof b = Some f" using flatof_holds [OF h] by metis
  have s: "u16id_search f v = Some (index_from 0 es v)" for v by (rule search_eq [OF h f])
  note lo = low6 [of uid]
  note mb = mask_bit [OF lo]
  have same: "insert uid B = B" if "uid \<in> B" for B :: "u16 set" using that by blast
  show ?thesis
  proof (cases rule: index_of_cases [of es ?hi])
    case none
    then have M: "?M ?hi = None" by (simp add: map_of_eq_None_iff)
    then have out: "uid \<notin> bits_of ?M" by (simp add: bits_of_def)
    have z: "0 AND NOT ?mask = 0" "0 OR ?mask = ?mask" "0 AND ?mask = 0" by simp_all
    note run = u16id2bool_set_def f s none(1) Let_def Option.bind.simps simp_thms if_False if_True z
    show ?thesis
    proof (cases val)
      case False
      then have "u16id2bool_set re b uid val = Some (0, b)" by (simp only: run)
      then show ?thesis using False out h ok by auto
    next
      case True
      have "bit ?mask ?lo" using lo by (simp add: bit_simps)
      then have nz: "?mask \<noteq> 0" by (metis bit_0_eq bot_apply bot_bool_def)
      consider m' where "u16id_add re f ?hi ?mask = Some (Some m')" "holds (Some m') (es @ [(?hi, ?mask)])"
        | "u16id_add re f ?hi ?mask = Some None"
        using u16id_add_holds [OF re h f n] by blast
      then show ?thesis
      proof cases
        case (1 m')
        have "bit ?mask m = (if m = ?lo then True else case ?M ?hi of None \<Rightarrow> False | Some x \<Rightarrow> bit x m)" for m
          unfolding M using lo by (auto simp: bit_simps bit_1_iff)
        note bits = bits_of_update [of ?mask uid True ?M, OF this]
        have "fields_ok (es @ [(?hi, ?mask)])" using d ks none(2) high6 [of uid] by (auto simp: fields_ok_def)
        moreover have "u16id2bool_set re b uid val = Some (0, Some m')"
          using True nz 1(1) by (simp only: run) simp
        moreover have "bits_of (map_of (es @ [(?hi, ?mask)])) = insert uid (bits_of ?M)"
          using bits unfolding map_of_snoc [OF none(2)] by simp
        ultimately show ?thesis using True out 1(2) by auto
      next
        case 2
        then have "u16id2bool_set re b uid val = Some (X_ENOMEM, b)"
          using True nz by (simp only: run) simp
        then show ?thesis using True out by simp
      qed
    qed
  next
    case (found k)
    let ?o = "snd (es ! k)" and ?B = "bits_of ?M"
    let ?new = "if val then ?o OR ?mask else ?o AND NOT ?mask"
    have M: "?M ?hi = Some ?o" using map_of_nth [OF d found(2)] found(3) by simp
    have old: "uid \<in> ?B \<longleftrightarrow> bit ?o ?lo" unfolding bits_of_def mem_Collect_eq M by simp
    have bit: "bit ?new m = (if m = ?lo then val else case ?M ?hi of None \<Rightarrow> False | Some x \<Rightarrow> bit x m)" for m
      unfolding M option.case using or_bit [OF lo, of ?o] and_not_bit [OF lo, of ?o] by presburger
    note bits = bits_of_update [of ?new uid val ?M, OF bit]
    have g: "get_ptr f (Suc k) = Some ?o" by (rule get_ptr_holds [OF h f found(2)])
    have run: "u16id2bool_set re b uid val =
      (let r = if uid \<in> ?B then 1 else 0 in
       if ?new \<noteq> ?o then
         (if ?new \<noteq> 0 then do { m \<leftarrow> set_ptr f (Suc k) ?new; Some (r, Some m) }
          else do { m \<leftarrow> u16id_drop f (Suc k); Some (r, Some m) })
       else Some (r, b))"
      using g mb [of ?o] old
      by (simp only: u16id2bool_set_def f s found(1) Let_def Option.bind.simps nat.distinct simp_thms if_False if_True)
    show ?thesis
    proof (cases "?new = ?o")
      case True
      have "?M(?hi \<mapsto> ?new) = ?M" using M True by auto
      then have "bits_of ?M = (if val then insert uid ?B else ?B - {uid})" using bits by simp
      moreover have "u16id2bool_set re b uid val = Some (if uid \<in> ?B then 1 else 0, b)"
        unfolding run using True by (simp only: Let_def simp_thms if_False)
      ultimately show ?thesis using h ok by blast
    next
      case changed: False
      show ?thesis
      proof (cases "?new = 0")
        case False
        obtain m' where m': "set_ptr f (Suc k) ?new = Some m'" "holds (Some m') (es[k := (fst (es ! k), ?new)])"
          by (rule set_ptr_holds [OF h f found(2)])
        note upd = map_of_set_nth [OF d found(2), of ?new]
        have "fields_ok (es[k := (fst (es ! k), ?new)])"
          using ok fields_ok_cong [OF upd(2)] by simp
        moreover have "bits_of (map_of (es[k := (fst (es ! k), ?new)])) = (if val then insert uid ?B else ?B - {uid})"
          unfolding upd(1) unfolding found(3) by (rule bits)
        moreover have "u16id2bool_set re b uid val = Some (if uid \<in> ?B then 1 else 0, Some m')"
          unfolding run using changed False m'(1) by (simp only: Let_def simp_thms if_True Option.bind.simps)
        ultimately show ?thesis using m'(2) by blast
      next
        case True
        obtain m' where m': "u16id_drop f (Suc k) = Some m'" "holds (Some m') (drop_pair k es)"
          by (rule u16id_drop_holds [OF h f found(2)])
        have v: "\<not> val"
          using bit [of ?lo, unfolded True] by simp
        have "\<not> bit ?o m" if "m \<noteq> ?lo" for m
          using bit [of m, unfolded True M] that by simp
        then have "bits_of (map_of (drop_pair k es)) = ?B - {uid}"
          unfolding map_of_drop_pair(1) [OF found(2) d] found(3)
          by (intro bits_of_None [OF v]) (simp only: M option.case not_False_eq_True)
        moreover have "fields_ok (drop_pair k es)"
          using map_of_drop_pair(2,3) [OF found(2) d] ks unfolding fields_ok_def by blast
        moreover have "u16id2bool_set re b uid val = Some (if uid \<in> ?B then 1 else 0, Some m')"
          unfolding run using changed True m'(1) by (simp only: Let_def simp_thms if_True if_False Option.bind.simps)
        ultimately show ?thesis using m'(2) v by auto
      qed
    qed
  qed
qed

text \<open>
  A map to booleans is a set of identifiers. Setting stays in the block, keeps the
  invariant (so that it never holds more than 1024 fields and its count cannot wrap), returns the
  previous boolean and inserts or removes the identifier; it fails only for lack of memory when
  an absent identifier is inserted. Reading decides membership.
\<close>

theorem u16id2bool_refines_set:
  assumes "u16_reallocates re" and "u16_binv b"
  shows "u16id2bool_get b uid = Some (if uid \<in> u16_bits b then 1 else 0) \<and>
    ((\<exists>b'. u16id2bool_set re b uid val = Some (if uid \<in> u16_bits b then 1 else 0, b') \<and> u16_binv b' \<and>
        u16_bits b' = (if val then insert uid (u16_bits b) else u16_bits b - {uid})) \<or>
     (val \<and> uid \<notin> u16_bits b \<and> u16id2bool_set re b uid val = Some (X_ENOMEM, b)))"
proof -
  have ok: "u16_inv b" "fields_ok (u16_pairs b)" using assms(2) by (simp_all add: u16_binv_eq)
  obtain es where es: "holds b es" "distinct (map fst es)" "u16_map b = map_of es" "u16_pairs b = es"
    by (rule u16_invE [OF ok(1)])
  have "u16id2bool_get b uid = Some (if uid \<in> u16_bits b then 1 else 0)"
    unfolding u16id2bool_get_holds [OF es(1,2)] u16_bits_eq es(3) by (auto simp: bits_of_def split: option.splits)
  moreover have "u16_binv b' \<and> u16_bits b' = bits_of (map_of es')" if "holds b' es'" "fields_ok es'" for b' es'
    using that u16_invI [OF that(1)] by (simp add: u16_binv_eq u16_bits_eq fields_ok_def)
  ultimately show ?thesis
    using u16id2bool_set_holds [OF assms(1) es(1), of uid val] ok(2) unfolding u16_bits_eq es(3,4) by blast
qed

theorem u16id2bool_refines_set_witness:
  "\<exists>b. u16id2bool_set u16_realloc_zero None 70 True = Some (0, b) \<and> u16_bits b = {70}"
proof -
  have i: "u16_binv None" by (simp add: u16_binv_def u16_inv_def u16_pairs_def)
  have e: "u16_bits None = {}" by (simp add: u16_bits_def u16_map_def u16_pairs_def)
  have "u16_realloc_zero b n \<noteq> None" for b n by (simp add: u16_realloc_zero_def)
  from u16id2bool_refines_set [OF u16_reallocates_zero i, of 70 True]
  have "(\<exists>b. u16id2bool_set u16_realloc_zero None 70 True = Some (0, b) \<and> u16_bits b = {70}) \<or>
    u16id2bool_set u16_realloc_zero None 70 True = Some (X_ENOMEM, None)"
    by (auto simp: e)
  moreover have "u16id2bool_set u16_realloc_zero None 70 True \<noteq> Some (X_ENOMEM, None)"
    using u16id_add_no_fail [of u16_realloc_zero]
    by (auto simp: u16id2bool_set_def x_errno Let_def bind_eq_Some_conv u16_realloc_zero_def split: option.splits if_splits)
  ultimately show ?thesis by blast
qed

end
