(* ===== verification/Globmatch.thy ===== *)
theory Globmatch
  imports Prelude
begin

text \<open>
  Matching a text with a pattern that may have stars, \<open>src/sandbox/globmatch.c\<close>, compiled
  without the system's \<open>fnmatch\<close>. A pointer into a C string is the list of the characters
  that can be read from it, the terminating zero included; reading past it is \<open>None\<close>. The
  score is an \<open>unsigned\<close> of 32 bits whose wrap-around is written out.
\<close>

unbundle bit_operations_syntax

definition GLOB :: char where
  "GLOB = CHR ''*''"

text \<open>The bits of \<open>flags\<close> that are used, \<open>1 << 0\<close> and \<open>1 << 4\<close>.\<close>

definition FNM_PATHNAME :: "32 word" where "FNM_PATHNAME = push_bit 0 1"
definition FNM_CASEFOLD :: "32 word" where "FNM_CASEFOLD = push_bit 4 1"

text \<open>\<open>tolower\<close> in the C locale.\<close>

definition tolower :: "char \<Rightarrow> char" where
  "tolower c = (if 65 \<le> uchar c \<and> uchar c \<le> 90 then char_of (uchar c + 32) else c)"

definition glob_eq :: "32 word \<Rightarrow> char \<Rightarrow> char \<Rightarrow> bool" where
  "glob_eq flags a b = (if flags AND FNM_CASEFOLD \<noteq> 0 then tolower a = tolower b else a = b)"

text \<open>The scan of the prefix: \<open>Inl\<close> when the function returns there.\<close>

fun glob_prefix :: "32 word \<Rightarrow> mem \<Rightarrow> mem \<Rightarrow> nat \<Rightarrow> (nat + mem \<times> mem \<times> nat) option" where
  "glob_prefix flags [] str r = None"
| "glob_prefix flags (c # pat) str r =
     (if c = GLOB then Some (Inr (pat, str, r))
      else (case str of
          [] \<Rightarrow> None
        | x # str \<Rightarrow>
            if \<not> glob_eq flags c x then Some (Inl 0)
            else if c = NUL then Some (Inl r)
            else glob_prefix flags pat str ((r + 1) mod 2 ^ 32)))"

text \<open>A star at the end of the pattern.\<close>

fun glob_last :: "32 word \<Rightarrow> mem \<Rightarrow> nat \<Rightarrow> nat option" where
  "glob_last flags [] r = None"
| "glob_last flags (x # str) r =
     (if flags AND FNM_PATHNAME = 0 \<or> x = NUL then Some r
      else if x = CHR ''/'' then Some 0
      else glob_last flags str r)"

lemma glob_prefix_shorter:
  "glob_prefix flags pat str r = Some (Inr (pat', str', r')) \<Longrightarrow> length pat' < length pat"
  by (induction flags pat str r rule: glob_prefix.induct)
    (auto split: if_splits list.splits)

text \<open>
  The search of the best score for what follows a star: the \<open>return 0\<close> in it is a best score
  of 0, which gives the same result.
\<close>

function glob_match :: "32 word \<Rightarrow> mem \<Rightarrow> mem \<Rightarrow> nat option"
  and glob_best :: "32 word \<Rightarrow> char \<Rightarrow> mem \<Rightarrow> mem \<Rightarrow> nat \<Rightarrow> nat option" where
  "glob_match flags pat str =
     (case glob_prefix flags pat str 1 of
        None \<Rightarrow> None
      | Some (Inl r) \<Rightarrow> Some r
      | Some (Inr (pat, str, r)) \<Rightarrow>
          (case pat of
             [] \<Rightarrow> None
           | c # pat \<Rightarrow>
               if c = NUL then glob_last flags str r
               else (case glob_best flags c pat str 0 of
                   None \<Rightarrow> None
                 | Some rs \<Rightarrow> Some (if rs \<noteq> 0 then (rs + r) mod 2 ^ 32 else 0))))"
| "glob_best flags c pat str rs =
     (case str of
        [] \<Rightarrow> None
      | x # str \<Rightarrow>
          if x = NUL then Some rs
          else if glob_eq flags c x then
            (case glob_match flags pat str of
               None \<Rightarrow> None
             | Some rr \<Rightarrow> glob_best flags c pat str (if rr > rs then rr else rs))
          else if flags AND FNM_PATHNAME \<noteq> 0 \<and> x = CHR ''/'' then Some 0
          else glob_best flags c pat str rs)"
  by pat_completeness auto
termination
  by (relation "measures [\<lambda>x. case x of Inl (_, pat, _) \<Rightarrow> length pat | Inr (_, _, pat, _, _) \<Rightarrow> length pat,
      \<lambda>x. case x of Inl (_, _, str) \<Rightarrow> length str | Inr (_, _, _, str, _) \<Rightarrow> length str]")
    (auto dest!: glob_prefix_shorter)

declare glob_match.simps [simp del] glob_best.simps [simp del]

definition globmatch :: "mem \<Rightarrow> mem \<Rightarrow> nat option" where
  "globmatch pat str = glob_match 0 pat str"

definition globmatchi :: "mem \<Rightarrow> mem \<Rightarrow> nat option" where
  "globmatchi pat str = glob_match FNM_CASEFOLD pat str"

definition fnmatch :: "mem \<Rightarrow> mem \<Rightarrow> 32 word \<Rightarrow> nat option" where
  "fnmatch pat str flags = map_option (\<lambda>r. if r = 0 then 1 else 0) (glob_match flags pat str)"

subsection \<open>The language of the patterns\<close>

text \<open>What a pattern matches: a star any text, another character itself, up to the flags.\<close>

fun wild :: "(char \<Rightarrow> char \<Rightarrow> bool) \<Rightarrow> string \<Rightarrow> string \<Rightarrow> bool" where
  "wild eq [] s = (s = [])"
| "wild eq (c # p) [] = (c = GLOB \<and> wild eq p [])"
| "wild eq (c # p) (x # s) =
     (if c = GLOB then wild eq p (x # s) \<or> wild eq (c # p) s else eq c x \<and> wild eq p s)"

definition literals :: "string \<Rightarrow> nat" where
  "literals p = length (filter (\<lambda>c. c \<noteq> GLOB) p)"

fun no_double_glob :: "string \<Rightarrow> bool" where
  "no_double_glob (c # d # p) = ((c \<noteq> GLOB \<or> d \<noteq> GLOB) \<and> no_double_glob (d # p))"
| "no_double_glob p = True"

lemma wild_glob_last [simp]: "wild eq [GLOB] s"
  by (induction s) simp_all

lemma wild_glob: "wild eq (GLOB # p) s \<longleftrightarrow> (\<exists>t u. s = t @ u \<and> wild eq p u)"
proof (induction s)
  case (Cons x s)
  show ?case
  proof
    assume "wild eq (GLOB # p) (x # s)"
    then have "wild eq p (x # s) \<or> wild eq (GLOB # p) s" by simp
    then show "\<exists>t u. x # s = t @ u \<and> wild eq p u"
    proof
      assume "wild eq p (x # s)" then show ?thesis by (intro exI [of _ "[]"] exI [of _ "x # s"]) simp
    next
      assume "wild eq (GLOB # p) s" then show ?thesis using Cons.IH by (metis append_Cons)
    qed
  next
    assume "\<exists>t u. x # s = t @ u \<and> wild eq p u"
    then obtain t u where t: "x # s = t @ u" "wild eq p u" by blast
    then show "wild eq (GLOB # p) (x # s)"
    proof (cases t)
      case Nil then show ?thesis using t(2) unfolding append_Nil t(1) [unfolded Nil append_Nil, symmetric] by simp
    next
      case (Cons y t')
      then have "wild eq (GLOB # p) s" using t Cons.IH by auto
      then show ?thesis by simp
    qed
  qed
qed auto

lemma literals_simps [simp]:
  "literals [] = 0" "literals (GLOB # p) = literals p" "c \<noteq> GLOB \<Longrightarrow> literals (c # p) = Suc (literals p)"
  by (simp_all add: literals_def)

lemma literals_le: "literals p \<le> length p"
  by (simp add: literals_def)

lemma GLOB_not_NUL [simp]: "GLOB \<noteq> NUL"
  by (simp add: GLOB_def)

lemma tolower_NUL: "tolower c = NUL \<longleftrightarrow> c = NUL"
  by (auto simp: tolower_def char_eq_uchar)

lemma glob_eq_NUL: "glob_eq flags c NUL \<longleftrightarrow> c = NUL" "glob_eq flags NUL c \<longleftrightarrow> c = NUL"
  using tolower_NUL [of c] tolower_NUL [of NUL] by (auto simp: glob_eq_def)

text \<open>A pattern is literal characters, then possibly a star and more.\<close>

lemma glob_split:
  obtains (literal) "GLOB \<notin> set p" | (glob) l q where "p = l @ GLOB # q" "GLOB \<notin> set l"
  by (metis split_list_first)

fun glob_sees :: "(char \<Rightarrow> char \<Rightarrow> bool) \<Rightarrow> string \<Rightarrow> string \<Rightarrow> string option" where
  "glob_sees eq [] s = Some s"
| "glob_sees eq (c # l) [] = None"
| "glob_sees eq (c # l) (x # s) = (if eq c x then glob_sees eq l s else None)"

lemma wild_sees:
  "GLOB \<notin> set l \<Longrightarrow> wild eq (l @ p) s \<longleftrightarrow> (\<exists>u. glob_sees eq l s = Some u \<and> wild eq p u)"
  by (induction eq l s rule: glob_sees.induct) auto

lemma sees_length: "glob_sees eq l s = Some u \<Longrightarrow> length u \<le> length s \<and> (no_nul s \<longrightarrow> no_nul u)"
  by (induction eq l s rule: glob_sees.induct) (auto split: if_splits)

lemma glob_prefix_literals:
  assumes "GLOB \<notin> set l" and "no_nul l" and "no_nul s" and "r + length l < 2 ^ 32"
  shows "glob_prefix flags (l @ GLOB # q) (cstr s) r =
    Some (case glob_sees (glob_eq flags) l s of None \<Rightarrow> Inl 0 | Some u \<Rightarrow> Inr (q, cstr u, r + length l))"
    and "glob_prefix flags (cstr l) (cstr s) r =
    Some (Inl (case glob_sees (glob_eq flags) l s of Some [] \<Rightarrow> r + length l | _ \<Rightarrow> 0))"
  using assms
proof (induction l arbitrary: s r)
  case Nil
  {
    case 1 show ?case by simp
  next
    case 2 then show ?case by (cases s) (auto simp: cstr_def GLOB_def glob_eq_NUL)
  }
next
  case (Cons c l)
  {
    case 1
    then show ?case using Cons.IH(1) [of "tl s" "Suc r"] by (cases s) (auto simp: cstr_def glob_eq_NUL split: option.splits)
  next
    case 2
    then show ?case using Cons.IH(2) [of "tl s" "Suc r"] by (cases s) (auto simp: cstr_def glob_eq_NUL split: option.splits list.splits)
  }
qed

lemma cstr_Cons: "cstr (c # s) = c # cstr s" "cstr [] = [NUL]"
  by (simp_all add: cstr_def)

lemma glob_best_eq:
  assumes m: "\<And>u. length u < length s \<Longrightarrow> no_nul u \<Longrightarrow> glob_match flags pat (cstr u) = Some (if W u then k else 0)"
    and f: "flags AND FNM_PATHNAME = 0" and k: "0 < k"
  shows "length t \<le> length s \<Longrightarrow> no_nul t \<Longrightarrow> rs = 0 \<or> rs = k \<Longrightarrow> glob_best flags c pat (cstr t) rs =
    Some (if \<exists>v x u. t = v @ x # u \<and> glob_eq flags c x \<and> W u then k else rs)"
proof (induction t arbitrary: rs)
  case Nil
  then show ?case by (subst glob_best.simps) (simp add: cstr_def)
next
  case (Cons y t)
  have ex: "(\<exists>v x u. y # t = v @ x # u \<and> glob_eq flags c x \<and> W u) \<longleftrightarrow>
    (glob_eq flags c y \<and> W t) \<or> (\<exists>v x u. t = v @ x # u \<and> glob_eq flags c x \<and> W u)" (is "?L \<longleftrightarrow> ?A \<or> ?B")
  proof
    assume ?L
    then obtain v x u where v: "y # t = v @ x # u" "glob_eq flags c x" "W u" by blast
    then show "?A \<or> ?B" by (cases v) auto
  next
    assume "?A \<or> ?B"
    then show ?L
    proof
      assume ?A then show ?L by (intro exI [of _ "[]"] exI [of _ y] exI [of _ t]) simp
    next
      assume ?B
      then obtain v x u where "t = v @ x # u" "glob_eq flags c x" "W u" by blast
      then show ?L by (intro exI [of _ "y # v"] exI [of _ x] exI [of _ u]) simp
    qed
  qed
  have mt: "glob_match flags pat (cstr t) = Some (if W t then k else 0)" using Cons.prems by (intro m) auto
  have tl: "length t \<le> length s" "no_nul t" using Cons.prems by auto
  have y: "y \<noteq> NUL" using Cons.prems by simp
  show ?case
    unfolding ex
    using Cons.IH [OF tl, of rs] Cons.IH [OF tl, of k] Cons.prems(3) k y
    by (subst glob_best.simps) (auto simp: cstr_Cons mt f)
qed

lemma glob_match_eq:
  assumes f: "flags AND FNM_PATHNAME = 0"
  shows "no_nul p \<Longrightarrow> no_nul s \<Longrightarrow> no_double_glob p \<Longrightarrow> length p < 2 ^ 32 - 1 \<Longrightarrow>
    glob_match flags (cstr p) (cstr s) = Some (if wild (glob_eq flags) p s then Suc (literals p) else 0)"
proof (induction "length p" arbitrary: p s rule: less_induct)
  case less
  show ?case
  proof (cases rule: glob_split [of p])
    case literal
    then have "filter (\<lambda>c. c \<noteq> GLOB) p = p" by (intro filter_True) auto
    then have "literals p = length p" by (simp add: literals_def)
    moreover have "wild (glob_eq flags) p s \<longleftrightarrow> glob_sees (glob_eq flags) p s = Some []"
      using wild_sees [OF literal, of "glob_eq flags" "[]" s] by auto
    ultimately show ?thesis
      using glob_prefix_literals(2) [OF literal less.prems(1,2), of 1 flags] less.prems(4)
      by (subst glob_match.simps) (auto split: option.splits list.splits)
  next
    case (glob l q)
    then have pre: "glob_prefix flags (cstr p) (cstr s) 1 =
        Some (case glob_sees (glob_eq flags) l s of None \<Rightarrow> Inl 0 | Some u \<Rightarrow> Inr (cstr q, cstr u, Suc (length l)))"
      using glob_prefix_literals(1) [of l s 1 flags "cstr q"] less.prems by (simp add: cstr_def split: option.splits)
    have "filter (\<lambda>c. c \<noteq> GLOB) l = l" using glob(2) by (intro filter_True) auto
    then have lit: "literals p = length l + literals q" using glob(1) by (simp add: literals_def)
    show ?thesis
    proof (cases "glob_sees (glob_eq flags) l s")
      case None
      then show ?thesis using pre wild_sees [OF glob(2), of "glob_eq flags" "GLOB # q" s] glob(1)
        by (subst glob_match.simps) simp
    next
      case (Some u)
      have u: "length u \<le> length s" "no_nul u" using sees_length [OF Some] less.prems(2) by auto
      have w: "wild (glob_eq flags) p s \<longleftrightarrow> wild (glob_eq flags) (GLOB # q) u"
        using wild_sees [OF glob(2), of "glob_eq flags" "GLOB # q" s] glob(1) Some by auto
      show ?thesis
      proof (cases q)
        case Nil
        then show ?thesis using pre Some lit w f
          by (subst glob_match.simps) (cases u, auto simp: cstr_Cons)
      next
        case (Cons c q')
        have "no_double_glob (l @ GLOB # c # q') \<Longrightarrow> c \<noteq> GLOB \<and> no_double_glob q'"
          by (induction l rule: no_double_glob.induct) (auto elim: no_double_glob.elims)
        then have c: "c \<noteq> GLOB" "no_double_glob q'" "c \<noteq> NUL" using less.prems(1,3) glob(1) Cons by auto
        have IH: "glob_match flags (cstr q') (cstr t) =
            Some (if wild (glob_eq flags) q' t then Suc (literals q') else 0)" if "no_nul t" for t
          using less.hyps [of q' t] that less.prems c(2) glob(1) Cons by auto
        have ex: "wild (glob_eq flags) (GLOB # q) u \<longleftrightarrow>
            (\<exists>v x t. u = v @ x # t \<and> glob_eq flags c x \<and> wild (glob_eq flags) q' t)" (is "?L \<longleftrightarrow> ?R")
        proof
          assume ?L
          then obtain v t where v: "u = v @ t" "wild (glob_eq flags) (c # q') t" using wild_glob Cons by blast
          then show ?R using c(1) by (cases t) auto
        next
          assume ?R
          then obtain v x t where v: "u = v @ x # t" "glob_eq flags c x" "wild (glob_eq flags) q' t" by blast
          then have "wild (glob_eq flags) q (x # t)" using Cons c(1) by simp
          then show ?L using v(1) wild_glob by blast
        qed
        have "glob_best flags c (cstr q') (cstr u) 0 = Some (if wild (glob_eq flags) p s then Suc (literals q') else 0)"
          unfolding w ex by (rule glob_best_eq [of u, OF IH f]) (use u in auto)
        moreover have "literals q = Suc (literals q')" using c(1) Cons by simp
        moreover have "Suc (length l) + Suc (literals q') < 2 ^ 32"
          using less.prems(4) glob(1) Cons literals_le [of q'] by simp
        ultimately show ?thesis using pre Some lit c(3) Cons
          by (subst glob_match.simps) (simp add: cstr_Cons)
      qed
    qed
  qed
qed

text \<open>
  Property C12: without \<open>FNM_PATHNAME\<close>, a pattern with no two stars in a row matches exactly the
  texts of its language, a star standing for any text, and its score is one more than its count of
  characters that are not stars, whatever the text. Both strings are read within their bounds.
\<close>

theorem glob_match_correct:
  assumes "no_nul p" and "no_nul s" and "no_double_glob p" and "length p < 2 ^ 32 - 1"
  shows "globmatch (cstr p) (cstr s) = Some (if wild (=) p s then Suc (literals p) else 0) \<and>
    globmatchi (cstr p) (cstr s) = Some (if wild (\<lambda>a b. tolower a = tolower b) p s then Suc (literals p) else 0)"
proof -
  have "glob_eq 0 = (=)" "glob_eq FNM_CASEFOLD = (\<lambda>a b. tolower a = tolower b)"
    by (simp_all add: fun_eq_iff glob_eq_def FNM_CASEFOLD_def)
  then show ?thesis
    using glob_match_eq [OF _ assms, of 0] glob_match_eq [OF _ assms, of FNM_CASEFOLD]
    by (simp add: globmatch_def globmatchi_def FNM_CASEFOLD_def FNM_PATHNAME_def)
qed

theorem glob_match_correct_witness:
  "globmatch (cstr ''a*c'') (cstr ''abbc'') = Some 3 \<and> globmatchi (cstr ''a*c'') (cstr ''bc'') = Some 0"
proof -
  have "wild (=) ''a*c'' ''abbc''" "\<not> wild (\<lambda>a b. tolower a = tolower b) ''a*c'' ''bc''"
    by (simp_all add: GLOB_def tolower_def)
  then show ?thesis
    using glob_match_correct [of "''a*c''" "''abbc''"] glob_match_correct [of "''a*c''" "''bc''"]
    by (simp add: GLOB_def literals_def)
qed

text \<open>
  With \<open>FNM_PATHNAME\<close> a star can match a slash, when a slash follows it in the
  pattern: \<open>*/b\<close> matches \<open>x/y/b\<close>, though not \<open>x/yb\<close>. And after a star, a second star stands for
  itself: \<open>**\<close> does not match \<open>ab\<close>.
\<close>

theorem fnmatch_slash:
  "fnmatch (cstr ''*/b'') (cstr ''x/y/b'') FNM_PATHNAME = Some 0 \<and>
    fnmatch (cstr ''*/b'') (cstr ''x/yb'') FNM_PATHNAME = Some 1 \<and>
    fnmatch (cstr ''*'') (cstr ''x/y'') FNM_PATHNAME = Some 1 \<and>
    globmatch (cstr ''**'') (cstr ''ab'') = Some 0"
  by (simp add: fnmatch_def globmatch_def glob_match.simps glob_best.simps cstr_def GLOB_def glob_eq_def
      FNM_PATHNAME_def FNM_CASEFOLD_def)

end
