(* ===== verification/Globset.thy ===== *)
theory Globset
  imports Globmatch "HOL-Library.Multiset"
begin

text \<open>
  The set of pattern handlers of \<open>src/sandbox/globset.c\<close>: a list of the handlers of patterns
  with stars and a hash table, chained, of those of exact patterns.

  A linked list is the list of its nodes, a pointer to a pointer within it the place it
  designates; the table is \<open>None\<close> when its pointer is null. Texts are the characters before
  their zero. \<open>alloc n\<close> tells whether the allocation of \<open>n\<close> bytes succeeds.
\<close>

record ('cb, 'cl) pathndl =
  ph_hash :: "64 word"
  ph_callback :: 'cb
  ph_closure :: 'cl
  ph_pattern :: string

record ('cb, 'cl) globset =
  globs :: "('cb, 'cl) pathndl list"
  exacts :: "('cb, 'cl) pathndl list list option"
  gmask :: "32 word"
  gcount :: "32 word"

subsection \<open>Normalization and hash\<close>

definition norm_char :: "char \<Rightarrow> char" where
  "norm_char c = (if schar c \<ge> 65 \<and> schar c \<le> 90 then to_char (schar c + 97 - 65) else c)"

definition hash_step :: "32 word \<Rightarrow> char \<Rightarrow> 32 word" where
  "hash_step hash c = (
     let hash = hash + word_of_nat (uchar c);
         hash = hash + push_bit 10 hash
     in hash XOR drop_bit 6 hash)"

text \<open>The loop: the normalized text, \<open>isglob\<close> and \<open>hash\<close> at its end.\<close>

fun norm_loop :: "string \<Rightarrow> bool \<Rightarrow> 32 word \<Rightarrow> string \<times> bool \<times> 32 word" where
  "norm_loop [] isglob hash = ([], isglob, hash)"
| "norm_loop (c # from) isglob hash =
     (if c = GLOB then (let (to, g, h) = norm_loop from True 0 in (c # to, g, h))
      else let c = norm_char c;
               hash = (if \<not> isglob then hash_step hash c else hash);
               (to, g, h) = norm_loop from isglob hash
           in (c # to, g, h))"

definition normhash :: "string \<Rightarrow> string \<times> 32 word" where
  "normhash from = (
     let (to, isglob, hash) = norm_loop from False 0; i = word_of_nat (length to) in
     if \<not> isglob then
       let hash = hash + i;
           hash = hash + push_bit 3 hash;
           hash = hash XOR drop_bit 11 hash;
           hash = hash + push_bit 15 hash
       in (to, if hash = 0 then 1 + i else hash)
     else (to, hash))"

subsection \<open>The table\<close>

definition slot :: "64 word \<Rightarrow> 32 word \<Rightarrow> nat" where
  "slot hash msk = unat (hash AND ucast msk)"

text \<open>The nodes of a chain go one by one at the head of their new chain.\<close>

fun move_chain :: "32 word \<Rightarrow> ('cb, 'cl) pathndl list \<Rightarrow> ('cb, 'cl) pathndl list list \<Rightarrow> ('cb, 'cl) pathndl list list" where
  "move_chain msk [] tab = tab"
| "move_chain msk (ph # next) tab =
     (let i = slot (ph_hash ph) msk in move_chain msk next (tab[i := ph # tab ! i]))"

definition grow :: "(nat \<Rightarrow> bool) \<Rightarrow> ('cb, 'cl) globset \<Rightarrow> int \<times> ('cb, 'cl) globset" where
  "grow alloc gs = (
     let old_gmask = gmask gs in
     if old_gmask - drop_bit 2 old_gmask > gcount gs + 1 then (0, gs)
     else
       let new_gmask = push_bit 1 old_gmask OR 15 in
       if new_gmask + 1 \<le> new_gmask then (X_EOVERFLOW, gs)
       else if \<not> alloc ((1 + unat new_gmask) * 8) then (X_ENOMEM, gs)
       else
         let new_exacts = replicate (1 + unat new_gmask) [];
             new_exacts =
               (if old_gmask \<noteq> 0
                then foldl (\<lambda>tab chain. move_chain new_gmask chain tab) new_exacts
                       (take (unat old_gmask + 1) (case exacts gs of Some t \<Rightarrow> t | None \<Rightarrow> []))
                else new_exacts)
         in (0, gs\<lparr>exacts := Some new_exacts, gmask := new_gmask\<rparr>))"

text \<open>
  The chain to search, \<open>None\<close> when there is no table. \<open>search\<close> also gives the place where it
  stopped: the node found, or the end of the chain.
\<close>

definition chain_of :: "('cb, 'cl) globset \<Rightarrow> 32 word \<Rightarrow> ('cb, 'cl) pathndl list option" where
  "chain_of gs hash =
     (if hash = 0 then Some (globs gs)
      else case exacts gs of
          Some t \<Rightarrow> Some (t ! unat (hash AND gmask gs))
        | None \<Rightarrow> None)"

definition globset_find :: "('cb, 'cl) globset \<Rightarrow> string \<Rightarrow> 32 word \<Rightarrow> ('cb, 'cl) pathndl option" where
  "globset_find gs normal hash =
     (case chain_of gs hash of
        Some chain \<Rightarrow> List.find (\<lambda>ph. normal = ph_pattern ph) chain
      | None \<Rightarrow> None)"

text \<open>An assignment through the place: the chain is replaced.\<close>

definition change_chain ::
  "('cb, 'cl) globset \<Rightarrow> 32 word \<Rightarrow> (('cb, 'cl) pathndl list \<Rightarrow> ('cb, 'cl) pathndl list) \<Rightarrow> ('cb, 'cl) globset" where
  "change_chain gs hash f =
     (if hash = 0 then gs\<lparr>globs := f (globs gs)\<rparr>
      else case exacts gs of
          Some t \<Rightarrow> let i = unat (hash AND gmask gs) in gs\<lparr>exacts := Some (t[i := f (t ! i)])\<rparr>
        | None \<Rightarrow> gs)"

fun unlink :: "string \<Rightarrow> ('cb, 'cl) pathndl list \<Rightarrow> ('cb, 'cl) pathndl list" where
  "unlink normal [] = []"
| "unlink normal (ph # next) = (if normal = ph_pattern ph then next else ph # unlink normal next)"

subsection \<open>The operations\<close>

definition globset_create :: "(nat \<Rightarrow> bool) \<Rightarrow> ('cb, 'cl) globset option" where
  "globset_create alloc =
     (if alloc 24 then Some \<lparr>globs = [], exacts = None, gmask = 0, gcount = 0\<rparr> else None)"

text \<open>The nodes that \<open>globset_destroy\<close> frees, in its order.\<close>

definition globset_destroy :: "('cb, 'cl) globset \<Rightarrow> ('cb, 'cl) pathndl list" where
  "globset_destroy gs =
     (if gmask gs \<noteq> 0 then concat (take (unat (gmask gs) + 1) (case exacts gs of Some t \<Rightarrow> t | None \<Rightarrow> []))
      else []) @ globs gs"

definition globset_add ::
  "(nat \<Rightarrow> bool) \<Rightarrow> ('cb, 'cl) globset \<Rightarrow> string \<Rightarrow> 'cb \<Rightarrow> 'cl \<Rightarrow> int \<times> ('cb, 'cl) globset" where
  "globset_add alloc gs pattern callback closure = (
     let len = length pattern;
         (pat, hash) = normhash pattern;
         (g, gs) = (if hash \<noteq> 0 then grow alloc gs else (0, gs))
     in
     if hash \<noteq> 0 \<and> g \<noteq> 0 then (- 1, gs)
     else case globset_find gs pat hash of
         Some _ \<Rightarrow> (X_EEXIST, gs)
       | None \<Rightarrow>
           if \<not> alloc (1 + len + 32) then (X_ENOMEM, gs)
           else
             let ph = \<lparr>ph_hash = ucast hash, ph_callback = callback, ph_closure = closure, ph_pattern = pat\<rparr>;
                 gs = change_chain gs hash (\<lambda>chain. chain @ [ph])
             in (0, if hash \<noteq> 0 then gs\<lparr>gcount := gcount gs + 1\<rparr> else gs))"

definition globset_del :: "('cb, 'cl) globset \<Rightarrow> string \<Rightarrow> int \<times> 'cl option \<times> ('cb, 'cl) globset" where
  "globset_del gs pattern = (
     let (pat, hash) = normhash pattern in
     case globset_find gs pat hash of
       None \<Rightarrow> (X_ENOENT, None, gs)
     | Some ph \<Rightarrow>
         let gs = (if hash \<noteq> 0 then gs\<lparr>gcount := gcount gs - 1\<rparr> else gs);
             gs = change_chain gs hash (unlink pat)
         in (0, Some (ph_closure ph), gs))"

definition globset_search :: "('cb, 'cl) globset \<Rightarrow> string \<Rightarrow> ('cb, 'cl) pathndl option" where
  "globset_search gs pattern = (let (pat, hash) = normhash pattern in globset_find gs pat hash)"

text \<open>The loop over the patterns with stars: \<open>s\<close> is the best score up to now, of \<open>ph\<close>.\<close>

fun best_glob :: "string \<Rightarrow> ('cb, 'cl) pathndl list \<Rightarrow> nat \<Rightarrow> ('cb, 'cl) pathndl option \<Rightarrow>
    ('cb, 'cl) pathndl option option" where
  "best_glob txt [] s ph = Some ph"
| "best_glob txt (iph # next) s ph =
     (case globmatch (cstr (ph_pattern iph)) (cstr txt) of
        None \<Rightarrow> None
      | Some g \<Rightarrow> if g > s then best_glob txt next g (Some iph) else best_glob txt next s ph)"

definition globset_match :: "('cb, 'cl) globset \<Rightarrow> string \<Rightarrow> ('cb, 'cl) pathndl option option" where
  "globset_match gs text = (
     let (txt, hash) = normhash text;
         ph = (if hash \<noteq> 0 then
                 (case exacts gs of
                    Some t \<Rightarrow> List.find (\<lambda>ph. \<not> (ph_hash ph \<noteq> ucast hash \<or> txt \<noteq> ph_pattern ph))
                                (t ! unat (hash AND gmask gs))
                  | None \<Rightarrow> None)
               else None)
     in
     case ph of
       None \<Rightarrow> best_glob txt (globs gs) 0 None
     | Some _ \<Rightarrow> Some ph)"

subsection \<open>Keys\<close>

text \<open>A pattern is known by its normalized text; its hash depends on that text only.\<close>

abbreviation gs_key :: "string \<Rightarrow> string" where
  "gs_key \<equiv> map norm_char"

definition key_hash :: "string \<Rightarrow> 32 word" where
  "key_hash q = snd (normhash q)"

lemma norm_char_idem [simp]: "norm_char (norm_char c) = norm_char c"
  by (auto simp: norm_char_def schar_def)

lemma norm_char_GLOB: "norm_char c = GLOB \<longleftrightarrow> c = GLOB"
  by (auto simp: norm_char_def GLOB_def schar_def char_eq_uchar split: if_splits)

lemma norm_char_GLOB_eq [simp]: "norm_char GLOB = GLOB"
  using norm_char_GLOB [of GLOB] by simp

lemma uchar_norm_char: "uchar (norm_char c) = (if 65 \<le> uchar c \<and> uchar c \<le> 90 then uchar c + 32 else uchar c)"
proof (cases "65 \<le> uchar c \<and> uchar c \<le> 90")
  case True
  then have "schar c = int (uchar c)" by (simp add: schar_def)
  then show ?thesis using True by (simp add: norm_char_def)
next
  case False
  then have "\<not> (schar c \<ge> 65 \<and> schar c \<le> 90)" using uchar_bound [of c] by (simp add: schar_def)
  then show ?thesis using False by (simp only: norm_char_def if_False)
qed

lemma GLOB_norm_char: "GLOB = norm_char c \<longleftrightarrow> GLOB = c"
  by (metis norm_char_GLOB)

lemma GLOB_in_key: "GLOB \<in> set (gs_key q) \<longleftrightarrow> GLOB \<in> set q"
  by (induction q) (simp_all add: GLOB_norm_char)

lemma norm_loop_text: "fst (norm_loop from g h) = gs_key from"
  by (induction "from" arbitrary: g h) (simp_all add: Let_def case_prod_beta)

lemma norm_loop_norm: "norm_loop (gs_key from) g h = norm_loop from g h"
  by (induction "from" arbitrary: g h) (simp_all add: Let_def norm_char_GLOB)

lemma norm_loop_glob: "fst (snd (norm_loop from g h)) \<longleftrightarrow> g \<or> GLOB \<in> set from"
  by (induction "from" arbitrary: g h) (auto simp: Let_def case_prod_beta)

lemma norm_loop_zero: "snd (snd (norm_loop from True 0)) = 0"
  by (induction "from") (simp_all add: Let_def case_prod_beta)

lemma norm_loop_hash: "GLOB \<in> set from \<Longrightarrow> snd (snd (norm_loop from g h)) = 0"
  by (induction "from" arbitrary: g h) (auto simp: Let_def case_prod_beta norm_loop_zero)

lemma normhash_key: "normhash from = (gs_key from, key_hash (gs_key from))"
proof -
  obtain t g h where l: "norm_loop from False 0 = (t, g, h)" by (cases "norm_loop from False 0")
  then have "t = gs_key from" using norm_loop_text [of "from" False 0] by simp
  moreover have "normhash (gs_key from) = normhash from" by (simp add: normhash_def norm_loop_norm)
  moreover have "fst (normhash from) = t" using l by (simp add: normhash_def Let_def)
  ultimately show ?thesis by (simp add: key_hash_def prod_eq_iff)
qed

lemma key_hash_glob:
  assumes "length q < 2 ^ 32 - 1"
  shows "key_hash q = 0 \<longleftrightarrow> GLOB \<in> set q"
proof -
  obtain t g h where l: "norm_loop q False 0 = (t, g, h)" by (cases "norm_loop q False 0")
  then have t: "length t = length q" using norm_loop_text [of q False 0] by simp
  have "1 + word_of_nat (length t) \<noteq> (0 :: 32 word)"
  proof
    assume "1 + word_of_nat (length t) = (0 :: 32 word)"
    then have "word_of_nat (Suc (length t)) = (0 :: 32 word)" by simp
    then have "2 ^ 32 dvd Suc (length t)" by (simp only: word_of_nat_eq_0_iff) simp
    then show False using assms t dvd_imp_le [of "2 ^ 32" "Suc (length t)"] by simp
  qed
  moreover have "(g \<longleftrightarrow> GLOB \<in> set q) \<and> (g \<longrightarrow> h = 0)" using norm_loop_glob [of q False 0] norm_loop_hash [of q False 0] l by auto
  ultimately show ?thesis using l by (auto simp: key_hash_def normhash_def Let_def)
qed

subsection \<open>The invariant\<close>

definition gs_table :: "('cb, 'cl) globset \<Rightarrow> ('cb, 'cl) pathndl list list" where
  "gs_table gs = (case exacts gs of Some t \<Rightarrow> t | None \<Rightarrow> [])"

definition gs_nodes :: "('cb, 'cl) globset \<Rightarrow> ('cb, 'cl) pathndl list" where
  "gs_nodes gs = globs gs @ concat (gs_table gs)"

definition gs_map :: "('cb, 'cl) globset \<Rightarrow> string \<rightharpoonup> 'cb \<times> 'cl" where
  "gs_map gs = map_of (map (\<lambda>ph. (ph_pattern ph, ph_callback ph, ph_closure ph)) (gs_nodes gs))"

text \<open>In the table, a node is in the chain its hash selects.\<close>

definition placed :: "32 word \<Rightarrow> ('cb, 'cl) pathndl list list \<Rightarrow> bool" where
  "placed m t \<longleftrightarrow> length t = unat m + 1 \<and> (\<forall>i < length t. \<forall>ph \<in> set (t ! i). slot (ph_hash ph) m = i)"

definition node_ok :: "('cb, 'cl) pathndl \<Rightarrow> bool" where
  "node_ok ph \<longleftrightarrow> gs_key (ph_pattern ph) = ph_pattern ph \<and> ph_hash ph = ucast (key_hash (ph_pattern ph))"

definition gs_inv :: "('cb, 'cl) globset \<Rightarrow> bool" where
  "gs_inv gs \<longleftrightarrow>
     (case exacts gs of None \<Rightarrow> gmask gs = 0 | Some t \<Rightarrow> gmask gs \<noteq> 0 \<and> placed (gmask gs) t) \<and>
     list_all node_ok (gs_nodes gs) \<and>
     list_all (\<lambda>ph. ph_hash ph = 0) (globs gs) \<and>
     list_all (\<lambda>ph. ph_hash ph \<noteq> 0) (concat (gs_table gs)) \<and>
     distinct (map ph_pattern (gs_nodes gs)) \<and>
     gcount gs = word_of_nat (length (concat (gs_table gs)))"

text \<open>The same with the nodes as a multiset, in which their order does not matter.\<close>

lemma unat_ucast64: "unat (ucast m :: 64 word) = unat (m :: 32 word)"
proof -
  have "unat m < 2 ^ 64" using unsigned_less [of m, where ?'a = nat] by simp
  then show ?thesis by (simp only: unsigned_ucast_eq) (simp add: take_bit_nat_eq_self)
qed

lemma slot_ucast: "slot (ucast h) m = unat (h AND m)"
proof -
  have "ucast h AND ucast m = (ucast (h AND m) :: 64 word)" by (rule bit_word_eqI) (auto simp: bit_simps)
  then show ?thesis by (simp only: slot_def unat_ucast64)
qed

lemma and_mask_le: "unat (h AND m :: 32 word) \<le> unat m"
  by (metis word_le_nat_alt word_and_le1)

lemma slot_less: "slot h m < unat m + 1"
proof -
  have "(h AND ucast m) \<le> (ucast m :: 64 word)" by (rule word_and_le1)
  then have "unat (h AND ucast m) \<le> unat (ucast m :: 64 word)" by (simp only: word_le_nat_alt)
  also have "unat (ucast m :: 64 word) = unat m" by (rule unat_ucast64)
  finally show ?thesis by (simp add: slot_def)
qed

lemma concat_split: "i < length t \<Longrightarrow> concat t = concat (take i t) @ t ! i @ concat (drop (Suc i) t)"
  by (metis concat.simps(2) concat_append id_take_nth_drop)

lemma concat_update: "i < length t \<Longrightarrow> concat (t[i := c]) = concat (take i t) @ c @ concat (drop (Suc i) t)"
  by (simp add: upd_conv_take_nth_drop)

lemma mset_concat_update:
  assumes "i < length t" and "mset c = mset (t ! i) + d"
  shows "mset (concat (t[i := c])) = mset (concat t) + d"
  unfolding concat_split [OF assms(1)] concat_update [OF assms(1)] using assms(2) by simp

lemma mset_concat_remove:
  assumes "i < length t" and "mset (t ! i) = mset c + d"
  shows "mset (concat t) = mset (concat (t[i := c])) + d"
  unfolding concat_split [OF assms(1)] concat_update [OF assms(1)] using assms(2) by simp

lemma placed_update:
  "placed m t \<Longrightarrow> (\<And>ph. ph \<in> set c \<Longrightarrow> slot (ph_hash ph) m = i) \<Longrightarrow> placed m (t[i := c])"
  by (cases "i < length t") (auto simp: placed_def nth_list_update split: if_splits)

lemma move_chain_placed:
  "placed m t \<Longrightarrow> placed m (move_chain m c t) \<and> mset (concat (move_chain m c t)) = mset (concat t) + mset c"
proof (induction c arbitrary: t)
  case (Cons ph c)
  let ?i = "slot (ph_hash ph) m"
  let ?t = "t[?i := ph # t ! ?i]"
  have i: "?i < length t" using Cons.prems slot_less by (simp add: placed_def)
  have "placed m ?t" using Cons.prems i by (intro placed_update) (auto simp: placed_def)
  moreover have "mset (concat ?t) = mset (concat t) + {#ph#}" using i by (intro mset_concat_update) auto
  ultimately show ?case using Cons.IH [of ?t] by (simp add: Let_def)
qed simp

lemma rehash_placed:
  "placed m t \<Longrightarrow> placed m (foldl (\<lambda>tab chain. move_chain m chain tab) t cs) \<and>
    mset (concat (foldl (\<lambda>tab chain. move_chain m chain tab) t cs)) = mset (concat t) + mset (concat cs)"
proof (induction cs arbitrary: t)
  case (Cons c cs)
  then show ?case using move_chain_placed [OF Cons.prems, of c] by (simp add: add.assoc)
qed simp

text \<open>All that is stated of the nodes is a property of their multisets.\<close>

lemma nodes_perm:
  assumes "gs_inv gs" and "mset (globs gs') = mset (globs gs)"
    and "mset (concat (gs_table gs')) = mset (concat (gs_table gs))" and "gcount gs' = gcount gs"
    and "case exacts gs' of None \<Rightarrow> gmask gs' = 0 | Some t \<Rightarrow> gmask gs' \<noteq> 0 \<and> placed (gmask gs') t"
  shows "gs_inv gs'" and "gs_map gs' = gs_map gs"
proof -
  have s: "set (globs gs') = set (globs gs)" "set (concat (gs_table gs')) = set (concat (gs_table gs))"
    using assms(2,3) by (metis mset_eq_setD)+
  have m: "mset (gs_nodes gs') = mset (gs_nodes gs)" using assms(2,3) by (simp add: gs_nodes_def)
  then have "mset (map ph_pattern (gs_nodes gs')) = mset (map ph_pattern (gs_nodes gs))" by simp
  then have d: "distinct (map ph_pattern (gs_nodes gs'))" using assms(1) mset_eq_imp_distinct_iff gs_inv_def by metis
  have l: "length (concat (gs_table gs')) = length (concat (gs_table gs))" using assms(3) by (metis size_mset)
  show "gs_inv gs'" using assms(1,4,5) s d l unfolding gs_inv_def
    by (simp only: list_all_iff gs_nodes_def set_append) simp
  show "gs_map gs' = gs_map gs"
  proof
    fix q
    have "set (gs_nodes gs') = set (gs_nodes gs)" using m by (rule mset_eq_setD)
    moreover have "distinct (map fst (map (\<lambda>ph. (ph_pattern ph, ph_callback ph, ph_closure ph)) (gs_nodes gs)))"
      "distinct (map fst (map (\<lambda>ph. (ph_pattern ph, ph_callback ph, ph_closure ph)) (gs_nodes gs')))"
      using d assms(1) by (simp_all add: gs_inv_def comp_def)
    ultimately have "gs_map gs' q = Some v \<longleftrightarrow> gs_map gs q = Some v" for v
      unfolding gs_map_def by (simp add: map_of_eq_Some_iff del: map_map)
    then show "gs_map gs' q = gs_map gs q" by (metis not_Some_eq)
  qed
qed

subsection \<open>The operations on the nodes\<close>

lemma find_distinct:
  "distinct (map ph_pattern xs) \<Longrightarrow> List.find (\<lambda>ph. q = ph_pattern ph) xs = Some ph \<longleftrightarrow> ph \<in> set xs \<and> ph_pattern ph = q"
  by (induction xs) (auto intro: rev_image_eqI)

lemma gs_map_iff:
  "gs_inv gs \<Longrightarrow> gs_map gs q = Some v \<longleftrightarrow>
    (\<exists>ph \<in> set (gs_nodes gs). ph_pattern ph = q \<and> v = (ph_callback ph, ph_closure ph))"
  unfolding gs_map_def
  by (subst map_of_eq_Some_iff) (auto simp: gs_inv_def comp_def)

lemma gs_map_dom: "gs_map gs q = None \<longleftrightarrow> q \<notin> ph_pattern ` set (gs_nodes gs)"
  by (auto simp: gs_map_def map_of_eq_None_iff image_image)

lemma gs_invD:
  assumes "gs_inv gs"
  shows "ph \<in> set (gs_nodes gs) \<Longrightarrow> gs_key (ph_pattern ph) = ph_pattern ph"
    "ph \<in> set (gs_nodes gs) \<Longrightarrow> ph_hash ph = ucast (key_hash (ph_pattern ph))"
    "ph \<in> set (globs gs) \<Longrightarrow> ph_hash ph = 0"
    "ph \<in> set (concat (gs_table gs)) \<Longrightarrow> ph_hash ph \<noteq> 0"
    "distinct (map ph_pattern (gs_nodes gs))"
    "exacts gs = Some t \<Longrightarrow> gmask gs \<noteq> 0 \<and> placed (gmask gs) t"
    "exacts gs = None \<Longrightarrow> gmask gs = 0"
    "gcount gs = word_of_nat (length (concat (gs_table gs)))"
  using assms by (auto simp: gs_inv_def list_all_iff node_ok_def split: option.splits)

lemma ucast64_zero: "ucast (h :: 32 word) = (0 :: 64 word) \<longleftrightarrow> h = 0"
  by (metis unat_ucast64 unsigned_0 unsigned_word_eqI)

lemma placed_index: "placed m t \<Longrightarrow> unat (h AND m) < length t"
  using and_mask_le [of h m] by (simp add: placed_def)

lemma chain_nodes:
  assumes inv: "gs_inv gs" and c: "chain_of gs (key_hash q) = Some c"
  shows "distinct (map ph_pattern c)" and "set c \<subseteq> set (gs_nodes gs)"
    and "ph \<in> set (gs_nodes gs) \<Longrightarrow> ph_pattern ph = q \<Longrightarrow> ph \<in> set c"
proof -
  have "distinct (map ph_pattern c) \<and> set c \<subseteq> set (gs_nodes gs) \<and>
      (\<forall>ph. ph \<in> set (gs_nodes gs) \<and> ph_pattern ph = q \<longrightarrow> ph \<in> set c)"
  proof (cases "key_hash q = 0")
    case True
    then have cg: "c = globs gs" using c by (simp add: chain_of_def)
    moreover have "ph \<in> set (globs gs)" if "ph \<in> set (gs_nodes gs)" "ph_pattern ph = q" for ph
      using gs_invD(2) [OF inv that(1)] gs_invD(4) [OF inv, of ph] that True by (auto simp: gs_nodes_def)
    ultimately show ?thesis using gs_invD(5) [OF inv] by (auto simp: gs_nodes_def)
  next
    case False
    then obtain t where t: "exacts gs = Some t" "c = t ! unat (key_hash q AND gmask gs)"
      using c by (auto simp: chain_of_def split: option.splits)
    have p: "placed (gmask gs) t" using gs_invD(6) [OF inv t(1)] by simp
    let ?i = "unat (key_hash q AND gmask gs)"
    have i: "?i < length t" by (rule placed_index [OF p])
    have n: "gs_nodes gs = globs gs @ concat (take ?i t) @ c @ concat (drop (Suc ?i) t)"
      using concat_split [OF i] t by (simp add: gs_nodes_def gs_table_def)
    have "ph \<in> set c" if ph: "ph \<in> set (gs_nodes gs)" "ph_pattern ph = q" for ph
    proof -
      have h: "ph_hash ph = ucast (key_hash q)" using gs_invD(2) [OF inv ph(1)] ph(2) by simp
      then have "ph \<notin> set (globs gs)" using False gs_invD(3) [OF inv, of ph] ucast64_zero by metis
      then obtain d where "d \<in> set t" "ph \<in> set d" using ph(1) t(1) by (auto simp: gs_nodes_def gs_table_def)
      then obtain j where j: "j < length t" "ph \<in> set (t ! j)" by (auto simp: in_set_conv_nth)
      then have "slot (ph_hash ph) (gmask gs) = j" using p by (auto simp: placed_def)
      then have "j = ?i" unfolding h slot_ucast by simp
      then show ?thesis using j(2) t(2) by simp
    qed
    then show ?thesis using n gs_invD(5) [OF inv] by (auto simp: n)
  qed
  then show "distinct (map ph_pattern c)" "set c \<subseteq> set (gs_nodes gs)"
    "ph \<in> set (gs_nodes gs) \<Longrightarrow> ph_pattern ph = q \<Longrightarrow> ph \<in> set c" by auto
qed

lemma find_eq:
  assumes inv: "gs_inv gs"
  shows "globset_find gs q (key_hash q) = Some ph \<longleftrightarrow> ph \<in> set (gs_nodes gs) \<and> ph_pattern ph = q"
proof (cases "chain_of gs (key_hash q)")
  case None
  then have k: "key_hash q \<noteq> 0" "exacts gs = None" by (auto simp: chain_of_def split: if_splits option.splits)
  then have "gs_nodes gs = globs gs" by (simp add: gs_nodes_def gs_table_def)
  then have "ph \<notin> set (gs_nodes gs)" if "ph_pattern ph = q"
    using gs_invD(2,3) [OF inv, of ph] that k(1) ucast64_zero by metis
  then show ?thesis using None by (auto simp: globset_find_def)
next
  case (Some c)
  show ?thesis
    unfolding globset_find_def Some option.case find_distinct [OF chain_nodes(1) [OF inv Some]]
    using chain_nodes(2,3) [OF inv Some] by blast
qed

lemma find_None:
  "gs_inv gs \<Longrightarrow> globset_find gs q (key_hash q) = None \<longleftrightarrow> gs_map gs q = None"
  using find_eq [of gs q] gs_map_dom [of gs q] by (auto simp: image_iff) (metis not_None_eq)

lemma find_map:
  "gs_inv gs \<Longrightarrow> globset_find gs q (key_hash q) = Some ph \<Longrightarrow> gs_map gs q = Some (ph_callback ph, ph_closure ph)"
  using find_eq gs_map_iff by blast

lemma grow_holds:
  assumes inv: "gs_inv gs" and g: "grow alloc gs = (r, gs')"
  shows "gs_inv gs'" and "gs_map gs' = gs_map gs" and "r = 0 \<Longrightarrow> exacts gs' \<noteq> None"
proof -
  let ?o = "gmask gs" and ?n = "push_bit 1 (gmask gs) OR 15 :: 32 word"
  have "gs_inv gs' \<and> gs_map gs' = gs_map gs \<and> (r = 0 \<longrightarrow> exacts gs' \<noteq> None)"
  proof (cases "?o - drop_bit 2 ?o > gcount gs + 1")
    case True
    then have "?o \<noteq> 0" by auto
    then have "exacts gs \<noteq> None" using gs_invD(7) [OF inv] by auto
    then show ?thesis using g inv True by (simp add: grow_def Let_def)
  next
    case no: False
    show ?thesis
    proof (cases "?n + 1 \<le> ?n \<or> \<not> alloc ((1 + unat ?n) * 8)")
      case True
      then show ?thesis using g no inv by (auto simp: grow_def Let_def x_errno split: if_splits)
    next
      case False
      let ?empty = "replicate (1 + unat ?n) [] :: ('a, 'b) pathndl list list"
      let ?cs = "take (unat ?o + 1) (gs_table gs)"
      let ?t = "if ?o \<noteq> 0 then foldl (\<lambda>tab chain. move_chain ?n chain tab) ?empty ?cs else ?empty"
      from False have ok: "\<not> ?n + 1 \<le> ?n" "alloc ((1 + unat ?n) * 8)" by blast+
      have "grow alloc gs = (0, gs\<lparr>exacts := Some ?t, gmask := ?n\<rparr>)"
        by (simp only: grow_def Let_def gs_table_def no ok if_False not_True_eq_False)
      then have gs': "r = 0" "gs' = gs\<lparr>exacts := Some ?t, gmask := ?n\<rparr>" using g by simp_all
      have p0: "placed ?n ?empty" unfolding placed_def by (auto simp del: replicate.simps)
      have "placed ?n ?t \<and> mset (concat ?t) = mset (concat (gs_table gs))"
      proof (cases "?o = 0")
        case True
        then have "exacts gs = None" using gs_invD(6) [OF inv] by (cases "exacts gs") auto
        then show ?thesis using p0 True by (simp add: gs_table_def)
      next
        case False
        then obtain t where t: "exacts gs = Some t" using gs_invD(7) [OF inv] by (cases "exacts gs") auto
        then have "?cs = gs_table gs" using gs_invD(6) [OF inv t] by (simp add: gs_table_def placed_def)
        then show ?thesis using rehash_placed [OF p0, of ?cs] False by simp
      qed
      moreover have "?n \<noteq> 0"
      proof
        assume z: "?n = 0"
        have "bit ?n 0" by (simp add: bit_simps)
        then show False unfolding z by simp
      qed
      ultimately show ?thesis
        using nodes_perm [OF inv, of gs'] unfolding gs' by (simp add: gs_table_def)
    qed
  qed
  then show "gs_inv gs'" "gs_map gs' = gs_map gs" "r = 0 \<Longrightarrow> exacts gs' \<noteq> None" by auto
qed

text \<open>One node more, one node less.\<close>

lemma nodes_insert:
  assumes inv: "gs_inv gs" and "node_ok ph" and "gs_map gs (ph_pattern ph) = None"
    and m: "mset (gs_nodes gs') = mset (gs_nodes gs) + {#ph#}"
    and "case exacts gs' of None \<Rightarrow> gmask gs' = 0 | Some t \<Rightarrow> gmask gs' \<noteq> 0 \<and> placed (gmask gs') t"
    and "list_all (\<lambda>ph. ph_hash ph = 0) (globs gs')" and "list_all (\<lambda>ph. ph_hash ph \<noteq> 0) (concat (gs_table gs'))"
    and "gcount gs' = word_of_nat (length (concat (gs_table gs')))"
  shows "gs_inv gs'" and "gs_map gs' = (gs_map gs)(ph_pattern ph \<mapsto> (ph_callback ph, ph_closure ph))"
proof -
  have "mset (gs_nodes gs') = mset (ph # gs_nodes gs)" using m by simp
  then have s: "set (gs_nodes gs') = insert ph (set (gs_nodes gs))"
    and "mset (map ph_pattern (gs_nodes gs')) = mset (map ph_pattern (ph # gs_nodes gs))"
    by (metis mset_eq_setD list.set(2), metis mset_map)
  then have "distinct (map ph_pattern (gs_nodes gs')) \<longleftrightarrow> distinct (map ph_pattern (ph # gs_nodes gs))"
    by (metis mset_eq_imp_distinct_iff)
  moreover have "ph_pattern ph \<notin> ph_pattern ` set (gs_nodes gs)" using assms(3) by (simp add: gs_map_dom)
  ultimately have d: "distinct (map ph_pattern (gs_nodes gs'))" using gs_invD(5) [OF inv] by simp
  show inv': "gs_inv gs'" using assms s d unfolding gs_inv_def by (simp add: list_all_iff)
  show "gs_map gs' = (gs_map gs)(ph_pattern ph \<mapsto> (ph_callback ph, ph_closure ph))"
  proof
    fix q
    have "gs_map gs' q = Some v \<longleftrightarrow> ((gs_map gs)(ph_pattern ph \<mapsto> (ph_callback ph, ph_closure ph))) q = Some v" for v
      using gs_map_iff [OF inv', of q v] gs_map_iff [OF inv, of q v] s assms(3)
        gs_map_dom [of gs "ph_pattern ph"] by auto
    then show "gs_map gs' q = ((gs_map gs)(ph_pattern ph \<mapsto> (ph_callback ph, ph_closure ph))) q"
      by (metis not_Some_eq)
  qed
qed

lemma nodes_remove:
  assumes inv: "gs_inv gs"
    and m: "mset (gs_nodes gs) = mset (gs_nodes gs') + {#ph#}"
    and "case exacts gs' of None \<Rightarrow> gmask gs' = 0 | Some t \<Rightarrow> gmask gs' \<noteq> 0 \<and> placed (gmask gs') t"
    and "list_all (\<lambda>ph. ph_hash ph = 0) (globs gs')" and "list_all (\<lambda>ph. ph_hash ph \<noteq> 0) (concat (gs_table gs'))"
    and "gcount gs' = word_of_nat (length (concat (gs_table gs')))"
  shows "gs_inv gs'" and "gs_map gs' = (gs_map gs)(ph_pattern ph := None)"
proof -
  have "mset (gs_nodes gs) = mset (ph # gs_nodes gs')" using m by simp
  then have s: "set (gs_nodes gs) = insert ph (set (gs_nodes gs'))"
    and "mset (map ph_pattern (gs_nodes gs)) = mset (map ph_pattern (ph # gs_nodes gs'))"
    by (metis mset_eq_setD list.set(2), metis mset_map)
  then have "distinct (map ph_pattern (gs_nodes gs)) \<longleftrightarrow> distinct (map ph_pattern (ph # gs_nodes gs'))"
    by (metis mset_eq_imp_distinct_iff)
  then have d: "distinct (map ph_pattern (ph # gs_nodes gs'))" using gs_invD(5) [OF inv] by simp
  show inv': "gs_inv gs'" using assms s d unfolding gs_inv_def by (simp add: list_all_iff)
  show "gs_map gs' = (gs_map gs)(ph_pattern ph := None)"
  proof
    fix q
    have "\<forall>x \<in> set (gs_nodes gs'). ph_pattern x \<noteq> ph_pattern ph" using d by auto (metis imageI)
    then have "gs_map gs' q = Some v \<longleftrightarrow> ((gs_map gs)(ph_pattern ph := None)) q = Some v" for v
      using gs_map_iff [OF inv', of q v] gs_map_iff [OF inv, of q v] s d by auto
    then show "gs_map gs' q = ((gs_map gs)(ph_pattern ph := None)) q"
      by (metis not_Some_eq)
  qed
qed

lemma unlink_mset: "ph \<in> set c \<Longrightarrow> ph_pattern ph = q \<Longrightarrow> distinct (map ph_pattern c) \<Longrightarrow> mset c = mset (unlink q c) + {#ph#}"
  by (induction c) (auto intro: rev_image_eqI)

lemma unlink_subset: "set (unlink q c) \<subseteq> set c"
  by (induction c) auto

lemma add_holds:
  assumes inv: "gs_inv gs" and h: "h = key_hash (ph_pattern ph)" and ok: "node_ok ph"
    and new: "gs_map gs (ph_pattern ph) = None" and t: "h \<noteq> 0 \<Longrightarrow> exacts gs \<noteq> None"
  defines "gs' \<equiv> change_chain gs h (\<lambda>chain. chain @ [ph])"
  defines "gs'' \<equiv> if h \<noteq> 0 then gs'\<lparr>gcount := gcount gs' + 1\<rparr> else gs'"
  shows "gs_inv gs''" and "gs_map gs'' = (gs_map gs)(ph_pattern ph \<mapsto> (ph_callback ph, ph_closure ph))"
proof -
  have hp: "ph_hash ph = ucast h" using ok h by (simp add: node_ok_def)
  have "gs_inv gs'' \<and> gs_map gs'' = (gs_map gs)(ph_pattern ph \<mapsto> (ph_callback ph, ph_closure ph))"
  proof (cases "h = 0")
    case True
    then have e: "gs'' = gs\<lparr>globs := globs gs @ [ph]\<rparr>" by (simp add: gs''_def gs'_def change_chain_def)
    show ?thesis
      by (intro conjI nodes_insert [OF inv ok new])
        (use inv True hp in \<open>auto simp: e gs_inv_def gs_nodes_def gs_table_def split: option.splits\<close>)
  next
    case False
    then obtain tab where tab: "exacts gs = Some tab" using t by auto
    let ?i = "unat (h AND gmask gs)"
    let ?t = "tab[?i := tab ! ?i @ [ph]]"
    have e: "gs'' = gs\<lparr>exacts := Some ?t, gcount := gcount gs + 1\<rparr>"
      using False by (simp add: gs''_def gs'_def change_chain_def tab Let_def)
    have p: "gmask gs \<noteq> 0" "placed (gmask gs) tab" using gs_invD(6) [OF inv tab] by simp_all
    have i: "?i < length tab" by (rule placed_index [OF p(2)])
    have p': "placed (gmask gs) ?t" using p(2) i hp
      by (intro placed_update [OF p(2)]) (auto simp: placed_def slot_ucast)
    have m: "mset (concat ?t) = mset (concat tab) + {#ph#}" using i by (intro mset_concat_update) auto
    then have l: "length (concat ?t) = Suc (length (concat tab))" by (metis size_mset size_add_mset union_mset_add_mset_right add_0_right)
    have s: "set (concat ?t) = insert ph (set (concat tab))" using m by (metis mset.simps(2) mset_eq_setD list.set(2) add_mset_add_single)
    have f1: "mset (gs_nodes gs'') = mset (gs_nodes gs) + {#ph#}" using m
      by (simp only: e gs_nodes_def gs_table_def globset.simps option.case tab mset_append) (simp add: add.assoc)
    have f2: "list_all (\<lambda>ph. ph_hash ph \<noteq> 0) (concat (gs_table gs''))"
      using gs_invD(4) [OF inv] s hp False ucast64_zero [of h]
      by (simp only: e list_all_iff gs_table_def globset.simps option.case tab) auto
    have f3: "gcount gs'' = word_of_nat (length (concat (gs_table gs'')))"
      using gs_invD(8) [OF inv] l by (simp only: e gs_table_def globset.simps option.case tab) simp
    have f4: "case exacts gs'' of None \<Rightarrow> gmask gs'' = 0 | Some t \<Rightarrow> gmask gs'' \<noteq> 0 \<and> placed (gmask gs'') t"
      using p(1) p' by (simp add: e)
    have f5: "list_all (\<lambda>ph. ph_hash ph = 0) (globs gs'')" using inv by (simp add: e gs_inv_def)
    show ?thesis using nodes_insert [OF inv ok new f1 f4 f5 f2 f3] by blast
  qed
  then show "gs_inv gs''" and "gs_map gs'' = (gs_map gs)(ph_pattern ph \<mapsto> (ph_callback ph, ph_closure ph))" by auto
qed

lemma del_holds:
  assumes inv: "gs_inv gs" and f: "globset_find gs q h = Some ph" and h: "h = key_hash q"
  defines "gs' \<equiv> if h \<noteq> 0 then gs\<lparr>gcount := gcount gs - 1\<rparr> else gs"
  defines "gs'' \<equiv> change_chain gs' h (unlink q)"
  shows "gs_inv gs''" and "gs_map gs'' = (gs_map gs)(q := None)"
proof -
  have ph: "ph \<in> set (gs_nodes gs)" "ph_pattern ph = q" using f find_eq [OF inv] h by auto
  have "gs_inv gs'' \<and> gs_map gs'' = (gs_map gs)(ph_pattern ph := None)"
  proof (cases "h = 0")
    case True
    have c: "chain_of gs (key_hash q) = Some (globs gs)" using True h by (simp add: chain_of_def)
    note cn = chain_nodes [OF inv c]
    have m: "mset (globs gs) = mset (unlink q (globs gs)) + {#ph#}"
      by (rule unlink_mset [OF cn(3) [OF ph] ph(2) cn(1)])
    have e: "gs'' = gs\<lparr>globs := unlink q (globs gs)\<rparr>" using True by (simp add: gs''_def gs'_def change_chain_def)
    show ?thesis
      by (intro conjI nodes_remove [OF inv])
        (use inv m unlink_subset [of q "globs gs"] in
          \<open>auto simp: e gs_inv_def gs_nodes_def gs_table_def list_all_iff split: option.splits\<close>)
  next
    case False
    then obtain tab where tab: "exacts gs = Some tab" using f h
      by (auto simp: globset_find_def chain_of_def split: option.splits)
    let ?i = "unat (h AND gmask gs)"
    let ?t = "tab[?i := unlink q (tab ! ?i)]"
    have c: "chain_of gs (key_hash q) = Some (tab ! ?i)" using False h tab by (simp add: chain_of_def)
    note cn = chain_nodes [OF inv c]
    have e: "gs'' = gs\<lparr>gcount := gcount gs - 1, exacts := Some ?t\<rparr>"
      using False by (simp add: gs''_def gs'_def change_chain_def tab Let_def)
    have p: "gmask gs \<noteq> 0" "placed (gmask gs) tab" using gs_invD(6) [OF inv tab] by simp_all
    have i: "?i < length tab" by (rule placed_index [OF p(2)])
    have "slot (ph_hash x) (gmask gs) = ?i" if "x \<in> set (unlink q (tab ! ?i))" for x
      using p(2) i that unlink_subset [of q "tab ! ?i"] by (auto simp: placed_def)
    then have p': "placed (gmask gs) ?t" by (rule placed_update [OF p(2)])
    have "mset (tab ! ?i) = mset (unlink q (tab ! ?i)) + {#ph#}"
      by (rule unlink_mset [OF cn(3) [OF ph] ph(2) cn(1)])
    then have m: "mset (concat tab) = mset (concat ?t) + {#ph#}" by (rule mset_concat_remove [OF i])
    then have l: "length (concat tab) = Suc (length (concat ?t))"
      by (metis size_mset size_add_mset union_mset_add_mset_right add_0_right)
    have s: "set (concat tab) = insert ph (set (concat ?t))" using m
      by (metis mset.simps(2) mset_eq_setD list.set(2) add_mset_add_single)
    have f1: "mset (gs_nodes gs) = mset (gs_nodes gs'') + {#ph#}" using m
      by (simp only: e gs_nodes_def gs_table_def globset.simps option.case tab mset_append) (simp add: add.assoc)
    have f2: "list_all (\<lambda>ph. ph_hash ph \<noteq> 0) (concat (gs_table gs''))"
      using gs_invD(4) [OF inv] s by (simp only: e list_all_iff gs_table_def globset.simps option.case tab) auto
    have f3: "gcount gs'' = word_of_nat (length (concat (gs_table gs'')))"
      using gs_invD(8) [OF inv] l by (simp only: e gs_table_def globset.simps option.case tab) simp
    have f4: "case exacts gs'' of None \<Rightarrow> gmask gs'' = 0 | Some t \<Rightarrow> gmask gs'' \<noteq> 0 \<and> placed (gmask gs'') t"
      using p(1) p' by (simp add: e)
    have f5: "list_all (\<lambda>ph. ph_hash ph = 0) (globs gs'')" using inv by (simp add: e gs_inv_def)
    show ?thesis using nodes_remove [OF inv f1 f4 f5 f2 f3] by blast
  qed
  then show "gs_inv gs''" and "gs_map gs'' = (gs_map gs)(q := None)" using ph(2) by auto
qed

text \<open>
  Property C13: a set of handlers is a finite map from normalized patterns to handlers. Adding
  inserts a pattern that is new and refuses one that is present; it can also fail for lack of
  memory, and then the map is the same. Deleting removes a present pattern and gives its closure
  back; searching finds the handler. Each keeps the invariant of the hash table, growth included.
\<close>

theorem globset_refines_map:
  assumes inv: "gs_inv gs" and len: "length pattern < 2 ^ 32 - 1"
  shows "(case globset_add alloc gs pattern cb cl of (r, gs') \<Rightarrow> gs_inv gs' \<and>
      (if r = 0 then gs_map gs (gs_key pattern) = None \<and> gs_map gs' = (gs_map gs)(gs_key pattern \<mapsto> (cb, cl))
       else gs_map gs' = gs_map gs \<and>
         (r = X_EEXIST \<and> gs_map gs (gs_key pattern) \<noteq> None \<or> r = X_ENOMEM \<or> r = - 1 \<and> GLOB \<notin> set pattern))) \<and>
    (case globset_del gs pattern of (r, c, gs') \<Rightarrow> gs_inv gs' \<and>
      (case gs_map gs (gs_key pattern) of
         None \<Rightarrow> r = X_ENOENT \<and> c = None \<and> gs' = gs
       | Some (_, cl) \<Rightarrow> r = 0 \<and> c = Some cl \<and> gs_map gs' = (gs_map gs)(gs_key pattern := None))) \<and>
    map_option (\<lambda>ph. (ph_callback ph, ph_closure ph)) (globset_search gs pattern) = gs_map gs (gs_key pattern)"
proof (intro conjI)
  let ?q = "gs_key pattern"
  let ?h = "key_hash ?q"
  let ?ph = "\<lparr>ph_hash = ucast ?h, ph_callback = cb, ph_closure = cl, ph_pattern = ?q\<rparr>"
  have nh: "normhash pattern = (?q, ?h)" by (rule normhash_key)
  have hz: "?h = 0 \<longleftrightarrow> GLOB \<in> set pattern" using key_hash_glob [of ?q] len GLOB_in_key by simp
  obtain g gs1 where g: "(if ?h \<noteq> 0 then grow alloc gs else (0, gs)) = (g, gs1)" by fastforce
  have inv1: "gs_inv gs1" "gs_map gs1 = gs_map gs" and t1: "?h \<noteq> 0 \<Longrightarrow> g = 0 \<Longrightarrow> exacts gs1 \<noteq> None"
    using g grow_holds [OF inv, of alloc g gs1] inv by (auto split: if_splits)
  have ok: "node_ok ?ph" by (simp add: node_ok_def comp_def)
  have run: "globset_add alloc gs pattern cb cl =
    (if ?h \<noteq> 0 \<and> g \<noteq> 0 then (- 1, gs1)
     else case globset_find gs1 ?q ?h of
         Some _ \<Rightarrow> (X_EEXIST, gs1)
       | None \<Rightarrow>
           if \<not> alloc (1 + length pattern + 32) then (X_ENOMEM, gs1)
           else
             let gs = change_chain gs1 ?h (\<lambda>chain. chain @ [?ph])
             in (0, if ?h \<noteq> 0 then gs\<lparr>gcount := gcount gs + 1\<rparr> else gs))"
    by (simp only: globset_add_def nh Let_def g prod.case)
  show "case globset_add alloc gs pattern cb cl of (r, gs') \<Rightarrow> gs_inv gs' \<and>
      (if r = 0 then gs_map gs ?q = None \<and> gs_map gs' = (gs_map gs)(?q \<mapsto> (cb, cl))
       else gs_map gs' = gs_map gs \<and>
         (r = X_EEXIST \<and> gs_map gs ?q \<noteq> None \<or> r = X_ENOMEM \<or> r = - 1 \<and> GLOB \<notin> set pattern))"
  proof (cases "?h \<noteq> 0 \<and> g \<noteq> 0")
    case True
    then show ?thesis using inv1 hz by (simp add: run)
  next
    case False
    show ?thesis
    proof (cases "globset_find gs1 ?q ?h")
      case (Some ph)
      then have "gs_map gs1 ?q \<noteq> None" using find_map [OF inv1(1)] by simp
      then show ?thesis using inv1 unfolding run if_not_P [OF False] Some by (simp add: x_errno)
    next
      case None
      then have new: "gs_map gs1 ?q = None" using find_None [OF inv1(1)] by simp
      note add = add_holds [OF inv1(1), of ?h ?ph, simplified, OF ok new]
      show ?thesis
        using False inv1 new t1 add unfolding run if_not_P [OF False] None by (auto simp: Let_def x_errno)
    qed
  qed
  show "case globset_del gs pattern of (r, c, gs') \<Rightarrow> gs_inv gs' \<and>
      (case gs_map gs ?q of
         None \<Rightarrow> r = X_ENOENT \<and> c = None \<and> gs' = gs
       | Some (_, cl) \<Rightarrow> r = 0 \<and> c = Some cl \<and> gs_map gs' = (gs_map gs)(?q := None))"
  proof (cases "globset_find gs ?q ?h")
    case None
    then show ?thesis using find_None [OF inv, of ?q] inv unfolding globset_del_def Let_def nh prod.case None by simp
  next
    case (Some ph)
    then show ?thesis using find_map [OF inv Some] del_holds [OF inv Some refl]
      unfolding globset_del_def Let_def nh prod.case Some by simp
  qed
  show "map_option (\<lambda>ph. (ph_callback ph, ph_closure ph)) (globset_search gs pattern) = gs_map gs ?q"
    using find_None [OF inv, of ?q] find_map [OF inv, of ?q]
    by (cases "globset_find gs ?q ?h") (auto simp: globset_search_def nh)
qed

lemma gs_inv_empty: "gs_inv \<lparr>globs = [], exacts = None, gmask = 0, gcount = 0\<rparr>"
  by (simp add: gs_inv_def gs_nodes_def gs_table_def)

theorem globset_refines_map_witness:
  "\<exists>gs'. globset_add (\<lambda>n. True) \<lparr>globs = [], exacts = None, gmask = 0, gcount = 0\<rparr> ''A*'' (1 :: nat) (2 :: nat) = (0, gs') \<and>
    gs_map gs' = [''a*'' \<mapsto> (1, 2)]"
proof -
  let ?gs = "\<lparr>globs = [], exacts = None, gmask = 0, gcount = 0\<rparr> :: (nat, nat) globset"
  have k: "gs_key ''A*'' = ''a*''" by code_simp
  have h: "key_hash ''a*'' = 0" using key_hash_glob [of "''a*''"] by (simp add: GLOB_def)
  obtain gs' where run: "globset_add (\<lambda>n. True) ?gs ''A*'' 1 2 = (0, gs')"
    by (simp add: globset_add_def normhash_key k [simplified] h Let_def globset_find_def chain_of_def)
  have "gs_map ?gs = Map.empty" by (simp add: gs_map_def gs_nodes_def gs_table_def)
  moreover have "gs_map gs' = (gs_map ?gs)(gs_key ''A*'' \<mapsto> (1, 2))"
    using globset_refines_map [OF gs_inv_empty, where pattern = "''A*''" and alloc = "\<lambda>n. True" and cb = "1 :: nat" and cl = "2 :: nat"]
    unfolding run by simp
  ultimately show ?thesis using run unfolding k by simp
qed

subsection \<open>Matching\<close>

text \<open>The patterns with stars that are matched as their language says.\<close>

definition plain_glob :: "string \<Rightarrow> bool" where
  "plain_glob p \<longleftrightarrow> no_nul p \<and> no_double_glob p \<and> length p < 2 ^ 32 - 1"

definition glob_score :: "string \<Rightarrow> string \<Rightarrow> nat" where
  "glob_score p s = (if wild (=) p s then Suc (literals p) else 0)"

lemma glob_eq_0 [simp]: "glob_eq 0 = (=)"
  by (simp add: fun_eq_iff glob_eq_def)

lemma best_glob_eq:
  assumes "no_nul txt"
  shows "\<forall>ph \<in> set phs. plain_glob (ph_pattern ph) \<Longrightarrow>
    \<exists>r. best_glob txt phs s ph0 = Some r \<and>
      (r = ph0 \<and> (\<forall>x \<in> set phs. glob_score (ph_pattern x) txt \<le> s) \<or>
       (\<exists>x \<in> set phs. r = Some x \<and> s < glob_score (ph_pattern x) txt \<and>
          (\<forall>y \<in> set phs. glob_score (ph_pattern y) txt \<le> glob_score (ph_pattern x) txt)))"
proof (induction phs arbitrary: s ph0)
  case (Cons x phs)
  have m: "globmatch (cstr (ph_pattern x)) (cstr txt) = Some (glob_score (ph_pattern x) txt)"
    using glob_match_eq [of 0 "ph_pattern x" "txt"] Cons.prems assms
    by (simp add: globmatch_def plain_glob_def glob_score_def glob_eq_def)
  show ?case
  proof (cases "s < glob_score (ph_pattern x) txt")
    case True
    then show ?thesis
      using Cons.IH [of "glob_score (ph_pattern x) txt" "Some x"] Cons.prems by (auto simp: m)
  next
    case False
    then show ?thesis using Cons.IH [of s ph0] Cons.prems by (auto simp: m)
  qed
qed simp

lemma wild_bool: "wild (=) p s \<longleftrightarrow> 0 < glob_score p s"
  by (simp add: glob_score_def)

text \<open>
  Property C14: matching a text gives the handler of the exact pattern when there is one, and
  otherwise, among the patterns with stars that match the normalized text, one that has the most
  characters that are not stars; it gives nothing exactly when no pattern matches. The stored patterns
  have no two stars in a row (the second one would be compared literally), and patterns and text have no zero and
  less than \<open>2 ^ 32 - 1\<close> characters.
\<close>

theorem globset_match_correct:
  assumes inv: "gs_inv gs" and len: "length text < 2 ^ 32 - 1" and nn: "no_nul text"
    and plain: "\<forall>ph \<in> set (globs gs). plain_glob (ph_pattern ph)"
  shows "\<exists>r. globset_match gs text = Some r \<and>
    (if GLOB \<notin> set text \<and> gs_map gs (gs_key text) \<noteq> None
     then r = globset_search gs text
     else (case r of
         None \<Rightarrow> \<forall>ph \<in> set (globs gs). \<not> wild (=) (ph_pattern ph) (gs_key text)
       | Some ph \<Rightarrow> ph \<in> set (globs gs) \<and> wild (=) (ph_pattern ph) (gs_key text) \<and>
           (\<forall>x \<in> set (globs gs). wild (=) (ph_pattern x) (gs_key text) \<longrightarrow>
              literals (ph_pattern x) \<le> literals (ph_pattern ph))))"
proof -
  let ?q = "gs_key text"
  let ?h = "key_hash ?q"
  have nh: "normhash text = (?q, ?h)" by (rule normhash_key)
  have hz: "?h = 0 \<longleftrightarrow> GLOB \<in> set text" using key_hash_glob [of ?q] len GLOB_in_key by simp
  have "norm_char c \<noteq> NUL" if "c \<noteq> NUL" for c
  proof -
    have "uchar c \<noteq> 0" using that by (simp add: char_eq_uchar [of c NUL])
    then have "uchar (norm_char c) \<noteq> 0" by (simp add: uchar_norm_char)
    then show ?thesis by (auto simp: char_eq_uchar [of "norm_char c" NUL])
  qed
  then have nq: "no_nul ?q" using nn by (induction "text") simp_all
  define ex where "ex = (if ?h \<noteq> 0 then
                 (case exacts gs of
                    Some t \<Rightarrow> List.find (\<lambda>ph. \<not> (ph_hash ph \<noteq> ucast ?h \<or> ?q \<noteq> ph_pattern ph))
                                (t ! unat (?h AND gmask gs))
                  | None \<Rightarrow> None)
               else None)"
  have ex: "ex = (if GLOB \<in> set text then None else globset_find gs ?q ?h)"
  proof (cases "?h = 0 \<or> exacts gs = None")
    case True
    then show ?thesis using hz by (auto simp: ex_def globset_find_def chain_of_def)
  next
    case False
    then obtain t where t: "exacts gs = Some t" by auto
    then have c: "chain_of gs ?h = Some (t ! unat (?h AND gmask gs))" using False by (simp add: chain_of_def)
    have "List.find (\<lambda>ph. \<not> (ph_hash ph \<noteq> ucast ?h \<or> ?q \<noteq> ph_pattern ph)) (t ! unat (?h AND gmask gs)) =
        List.find (\<lambda>ph. ?q = ph_pattern ph) (t ! unat (?h AND gmask gs))"
      using chain_nodes(2) [OF inv c] gs_invD(2) [OF inv] by (intro find_cong) auto
    then show ?thesis using False t c hz by (auto simp: ex_def globset_find_def)
  qed
  have run: "globset_match gs text = (case ex of None \<Rightarrow> best_glob ?q (globs gs) 0 None | Some _ \<Rightarrow> Some ex)"
    unfolding globset_match_def nh Let_def prod.case ex_def [symmetric] ..
  have search: "globset_search gs text = globset_find gs ?q ?h" by (simp add: globset_search_def nh)
  show ?thesis
  proof (cases ex)
    case (Some ph)
    then have "GLOB \<notin> set text" "globset_find gs ?q ?h = Some ph" using ex by (auto split: if_splits)
    then show ?thesis using Some run search find_map [OF inv] by simp
  next
    case None
    then have c: "\<not> (GLOB \<notin> set text \<and> gs_map gs ?q \<noteq> None)" using ex find_None [OF inv, of ?q] by (auto split: if_splits)
    obtain r where r: "best_glob ?q (globs gs) 0 None = Some r" and
      best: "r = None \<and> (\<forall>x \<in> set (globs gs). glob_score (ph_pattern x) ?q \<le> 0) \<or>
       (\<exists>x \<in> set (globs gs). r = Some x \<and> 0 < glob_score (ph_pattern x) ?q \<and>
          (\<forall>y \<in> set (globs gs). glob_score (ph_pattern y) ?q \<le> glob_score (ph_pattern x) ?q))"
      using best_glob_eq [OF nq plain, of 0 None] by blast
    have m: "globset_match gs text = Some r" using run None r by simp
    have le: "literals p \<le> literals p'"
      if "wild (=) p ?q" "wild (=) p' ?q" "glob_score p ?q \<le> glob_score p' ?q" for p p'
      using that by (simp add: glob_score_def)
    from best show ?thesis
    proof
      assume n: "r = None \<and> (\<forall>x \<in> set (globs gs). glob_score (ph_pattern x) ?q \<le> 0)"
      then have "\<forall>ph \<in> set (globs gs). \<not> wild (=) (ph_pattern ph) ?q" by (simp add: wild_bool)
      then show ?thesis using n m unfolding if_not_P [OF c] by simp
    next
      assume "\<exists>x \<in> set (globs gs). r = Some x \<and> 0 < glob_score (ph_pattern x) ?q \<and>
          (\<forall>y \<in> set (globs gs). glob_score (ph_pattern y) ?q \<le> glob_score (ph_pattern x) ?q)"
      then obtain x where x: "x \<in> set (globs gs)" "r = Some x" "wild (=) (ph_pattern x) ?q"
        "\<forall>y \<in> set (globs gs). glob_score (ph_pattern y) ?q \<le> glob_score (ph_pattern x) ?q"
        using wild_bool by blast
      then have "\<forall>y \<in> set (globs gs). wild (=) (ph_pattern y) ?q \<longrightarrow>
          literals (ph_pattern y) \<le> literals (ph_pattern x)" using le by blast
      then show ?thesis using x m unfolding if_not_P [OF c] by simp
    qed
  qed
qed

theorem globset_match_correct_witness:
  "globset_match \<lparr>globs = [\<lparr>ph_hash = 0, ph_callback = 1 :: nat, ph_closure = 2 :: nat, ph_pattern = ''a*''\<rparr>],
      exacts = None, gmask = 0, gcount = 0\<rparr> ''Ab'' =
    Some (Some \<lparr>ph_hash = 0, ph_callback = 1, ph_closure = 2, ph_pattern = ''a*''\<rparr>)"
proof -
  let ?ph = "\<lparr>ph_hash = 0, ph_callback = 1, ph_closure = 2, ph_pattern = ''a*''\<rparr> :: (nat, nat) pathndl"
  let ?gs = "\<lparr>globs = [?ph], exacts = None, gmask = 0, gcount = 0\<rparr>"
  have h: "key_hash ''a*'' = 0" using key_hash_glob [of "''a*''"] by (simp add: GLOB_def)
  have k: "gs_key ''Ab'' = ''ab''" "gs_key ''a*'' = ''a*''" by code_simp+
  have i: "gs_inv ?gs" using k(2) h by (simp add: gs_inv_def gs_nodes_def gs_table_def node_ok_def)
  have m: "gs_map ?gs ''ab'' = None" by (simp add: gs_map_def gs_nodes_def gs_table_def)
  have w: "wild (=) ''a*'' ''ab''" by (simp add: GLOB_def)
  have p: "plain_glob ''a*''" by (simp add: plain_glob_def GLOB_def)
  have ng: "\<not> (GLOB \<notin> set ''Ab'' \<and> gs_map ?gs ''ab'' \<noteq> None)" using m by simp
  obtain r where r: "globset_match ?gs ''Ab'' = Some r"
    "case r of None \<Rightarrow> \<forall>ph \<in> {?ph}. \<not> wild (=) (ph_pattern ph) ''ab'' | Some ph \<Rightarrow> ph \<in> {?ph}"
    using globset_match_correct [OF i, of "''Ab''"] p unfolding k if_not_P [OF ng] by (auto split: option.splits)
  show ?thesis using r w by (cases r) simp_all
qed

end
