(* ===== verification/Subpath.thy ===== *)
theory Subpath
  imports Prelude
begin

text \<open>
  The check of relative paths of \<open>src/sandbox/subpath.c\<close>. A pointer into the path is the
  list of the characters that can be read from it, the terminating zero included.
\<close>

subsection \<open>The code\<close>

abbreviation slash :: char where "slash \<equiv> CHR ''/''"
abbreviation dot :: char where "dot \<equiv> CHR ''.''"

text \<open>The loop of the default case, to the end of the component.\<close>

definition skip_component :: "mem \<Rightarrow> mem" where
  "skip_component p = dropWhile (\<lambda>c. c \<noteq> NUL \<and> c \<noteq> slash) p"

lemma skip_component_le [simp]: "length (skip_component p) \<le> length p"
  by (simp add: skip_component_def length_dropWhile_le)

lemma skip_component_less [termination_simp]:
  "length p < n \<Longrightarrow> length (skip_component p) < n"
  using skip_component_le [of p] by linarith

text \<open>The main loop; the default case counts the component, unless the level is negative.\<close>

definition enter :: "int \<Rightarrow> int" where
  "enter l = (if l \<ge> 0 then l + 1 else l)"

function subpath_loop :: "mem \<Rightarrow> int \<Rightarrow> bool option" where
  "subpath_loop [] l = None"
| "subpath_loop (c # p) l =
     (if c = NUL then Some (l \<ge> 0)
      else if c = dot then
        (case p of
           [] \<Rightarrow> None
         | d # q \<Rightarrow>
             if d = NUL then subpath_loop p l
             else if d = slash then subpath_loop q l
             else if d = dot then
               (case q of
                  [] \<Rightarrow> None
                | e # r \<Rightarrow>
                    if e = NUL then subpath_loop q (l - 1)
                    else if e = slash then subpath_loop r (l - 1)
                    else subpath_loop (skip_component r) (enter l))
             else subpath_loop (skip_component q) (enter l))
      else if c = slash then subpath_loop p l
      else subpath_loop (skip_component p) (enter l))"
  by pat_completeness auto
termination
  by (relation "measure (\<lambda>(p, l). length p)") (auto simp: termination_simp)

definition subpath_is_valid :: "mem \<Rightarrow> bool option" where
  "subpath_is_valid path = do {
     c \<leftarrow> load path 0;
     if c = slash then Some False else subpath_loop path 0
   }"

text \<open>A null path is \<open>None\<close>; the result is the returned text, \<open>None\<close> for \<open>NULL\<close>.\<close>

definition subpath :: "mem option \<Rightarrow> mem option option" where
  "subpath path = (case path of
     None \<Rightarrow> Some None
   | Some p \<Rightarrow> do {
       v \<leftarrow> subpath_is_valid p;
       if v then do { c \<leftarrow> load p 0; Some (Some (if c \<noteq> NUL then p else cstr ''.'')) }
       else Some None
     })"

definition subpath_force :: "mem option \<Rightarrow> mem option option" where
  "subpath_force path = subpath (map_option (dropWhile (\<lambda>c. c = slash)) path)"

subsection \<open>Walking a path\<close>

text \<open>The components of a path, the empty ones left out.\<close>

function components :: "string \<Rightarrow> string list" where
  "components [] = []"
| "components (c # s) =
     (if c = slash then components s
      else takeWhile (\<lambda>x. x \<noteq> slash) (c # s) # components (dropWhile (\<lambda>x. x \<noteq> slash) (c # s)))"
  by pat_completeness auto
termination
  by (relation "measure length") (auto simp: length_dropWhile_le less_Suc_eq_le)

text \<open>
  The walk from a directory at the end of the stack: \<open>None\<close> when a \<open>..\<close> leaves the
  directory where the walk began.
\<close>

fun walk :: "string list \<Rightarrow> string list \<Rightarrow> string list option" where
  "walk [] st = Some st"
| "walk (c # cs) st =
     (if c = ''.'' then walk cs st
      else if c = ''..'' then (case st of [] \<Rightarrow> None | _ # st \<Rightarrow> walk cs st)
      else walk cs (c # st))"

lemma components_split:
  assumes "slash \<notin> set w" and "w \<noteq> []" and "u = [] \<or> hd u = slash"
  shows "components (w @ u) = w # components u"
proof -
  obtain c v where w: "w = c # v" using assms(2) by (cases w) auto
  have t: "takeWhile (\<lambda>x. x \<noteq> slash) (w @ u) = w"
    using assms by (cases u) (auto simp: takeWhile_append)
  have d: "dropWhile (\<lambda>x. x \<noteq> slash) (w @ u) = u"
    using assms by (cases u) (auto simp: dropWhile_append)
  have "c \<noteq> slash" using assms(1) w by auto
  then show ?thesis using t d w by simp
qed

lemma path_split:
  obtains w u where "s = w @ u" "slash \<notin> set w" "u = [] \<or> hd u = slash"
proof
  show "s = takeWhile (\<lambda>x. x \<noteq> slash) s @ dropWhile (\<lambda>x. x \<noteq> slash) s" by simp
  show "slash \<notin> set (takeWhile (\<lambda>x. x \<noteq> slash) s)" by (auto dest: set_takeWhileD)
  show "dropWhile (\<lambda>x. x \<noteq> slash) s = [] \<or> hd (dropWhile (\<lambda>x. x \<noteq> slash) s) = slash"
    using hd_dropWhile [of "\<lambda>x. x \<noteq> slash" s] by auto
qed

lemma skip_component_split:
  assumes "slash \<notin> set w" and "no_nul w" and "u = [] \<or> hd u = slash"
  shows "skip_component (w @ cstr u) = cstr u"
proof -
  have "\<forall>c \<in> set w. c \<noteq> NUL \<and> c \<noteq> slash" using assms by (auto simp: no_nul_def)
  moreover have "dropWhile (\<lambda>c. c \<noteq> NUL \<and> c \<noteq> slash) (cstr u) = cstr u"
    using assms(3) by (cases u) (auto simp: cstr_def)
  ultimately show ?thesis by (simp add: skip_component_def dropWhile_append2)
qed

text \<open>One component of the path in the loop.\<close>

lemma subpath_loop_component:
  assumes "slash \<notin> set w" and "no_nul w" and "w \<noteq> []" and u: "u = [] \<or> hd u = slash"
  shows "subpath_loop (w @ cstr u) l =
    subpath_loop (cstr u) (if w = ''.'' then l else if w = ''..'' then l - 1 else enter l)"
proof -
  have sk: "skip_component (v @ cstr u) = cstr u" if "set v \<subseteq> set w" for v
    using that assms by (intro skip_component_split) (auto simp: no_nul_def)
  have sl: "subpath_loop (slash # x) m = subpath_loop x m" for x m by simp
  obtain c p where w: "w = c # p" using assms(3) by (cases w) auto
  have c: "c \<noteq> NUL" "c \<noteq> slash" using assms(1,2) w by auto
  show ?thesis
  proof (cases "c = dot")
    case False
    have "skip_component (p @ cstr u) = cstr u" using w by (intro sk) auto
    then show ?thesis using False c w by simp
  next
    case dot1: True
    show ?thesis
    proof (cases p)
      case Nil
      then show ?thesis using dot1 w u by (cases u) (auto simp: cstr_def)
    next
      case (Cons d q)
      have d: "d \<noteq> NUL" "d \<noteq> slash" using assms(1,2) w Cons by auto
      show ?thesis
      proof (cases "d = dot")
        case False
        have "skip_component (q @ cstr u) = cstr u" using w Cons by (intro sk) auto
        then show ?thesis using False d dot1 w Cons by simp
      next
        case dot2: True
        show ?thesis
        proof (cases q)
          case Nil
          then show ?thesis using dot1 dot2 w Cons u by (cases u) (auto simp: cstr_def)
        next
          case (Cons e r)
          have e: "e \<noteq> NUL" "e \<noteq> slash" using assms(1,2) w \<open>p = d # q\<close> Cons by auto
          have "skip_component (r @ cstr u) = cstr u" using w \<open>p = d # q\<close> Cons by (intro sk) auto
          then show ?thesis using e dot1 dot2 w \<open>p = d # q\<close> Cons by simp
        qed
      qed
    qed
  qed
qed

lemma subpath_loop_eq:
  "no_nul s \<Longrightarrow> subpath_loop (cstr s) l =
    Some (l \<ge> 0 \<and> walk (components s) (replicate (nat l) []) \<noteq> None)"
proof -
  have walk_cong: "length st = length st' \<Longrightarrow> walk cs st \<noteq> None \<longleftrightarrow> walk cs st' \<noteq> None" for cs st st'
  proof (induction cs arbitrary: st st')
    case (Cons c cs)
    have "length (c # st) = length (c # st')" using Cons.prems by simp
    note 1 = Cons.IH [OF this] and 2 = Cons.IH [OF Cons.prems]
    have 3: "walk cs (tl st) \<noteq> None \<longleftrightarrow> walk cs (tl st') \<noteq> None" using Cons.prems by (intro Cons.IH) simp
    show ?case
    proof (cases "c = ''..''")
      case True
      then show ?thesis using 3 Cons.prems by (cases st; cases st') simp_all
    next
      case False
      then show ?thesis using 1 2 by (simp only: walk.simps if_False split: if_split) blast
    qed
  qed simp
  show "no_nul s \<Longrightarrow> ?thesis"
  proof (induction "length s" arbitrary: s l rule: less_induct)
    case less
    obtain w u where wu: "s = w @ u" "slash \<notin> set w" "u = [] \<or> hd u = slash" by (rule path_split)
    have nn: "no_nul w" "no_nul u" using less.prems wu(1) by auto
    show ?case
    proof (cases "w = []")
      case True
      show ?thesis
      proof (cases u)
        case Nil
        then show ?thesis using True wu(1) by (simp add: cstr_def)
      next
        case (Cons c v)
        then have "c = slash" using wu(3) by simp
        then show ?thesis using less.hyps [of v l] True wu(1) Cons nn by (simp add: cstr_def)
      qed
    next
      case False
      have "length u < length s" using wu(1) False by (cases w) auto
      note IH = less.hyps [OF this nn(2)]
      have cs: "components s = w # components u" using wu False by (simp add: components_split)
      have "cstr s = w @ cstr u" using wu(1) by (simp add: cstr_def)
      then have run: "subpath_loop (cstr s) l =
          subpath_loop (cstr u) (if w = ''.'' then l else if w = ''..'' then l - 1 else enter l)"
        using subpath_loop_component [OF wu(2) nn(1) False wu(3)] by simp
      show ?thesis
      proof (cases "l \<ge> 0")
        case neg: False
        then show ?thesis using run IH by (simp add: enter_def)
      next
        case True
        show ?thesis
        proof (cases "w = ''.'' \<or> w = ''..''")
          case dots: True
          then show ?thesis using run IH True cs by (cases "nat l") (auto simp: nat_diff_distrib)
        next
          case dots: False
          have "walk (components u) (w # replicate (nat l) []) \<noteq> None \<longleftrightarrow>
              walk (components u) (replicate (nat (l + 1)) []) \<noteq> None"
            using True by (intro walk_cong) (simp add: Suc_nat_eq_nat_zadd1)
          then show ?thesis using run IH True cs dots by (simp add: enter_def)
        qed
      qed
    qed
  qed
qed

text \<open>
  Property C15: a path is accepted exactly when it is relative and a walk along its components,
  started in any directory, never leaves that directory by \<open>..\<close>, at no point of the path.
  \<open>subpath_force\<close> forgets the leading slashes first, and \<open>subpath\<close> returns the path itself, or
  \<open>.\<close> for the empty one.
\<close>

theorem subpath_safe:
  assumes "no_nul s"
  shows "subpath_is_valid (cstr s) = Some (\<not> (s \<noteq> [] \<and> hd s = slash) \<and> walk (components s) [] \<noteq> None) \<and>
    subpath_force (Some (cstr s)) = Some (if walk (components s) [] \<noteq> None
      then Some (let t = dropWhile (\<lambda>c. c = slash) s in if t = [] then cstr ''.'' else cstr t) else None)"
proof -
  have valid: "subpath_is_valid (cstr t) = Some (\<not> (t \<noteq> [] \<and> hd t = slash) \<and> walk (components t) [] \<noteq> None)"
    if "no_nul t" for t
    using subpath_loop_eq [OF that, of 0] that by (cases t) (auto simp: subpath_is_valid_def cstr_def load_def)
  let ?t = "dropWhile (\<lambda>c. c = slash) s"
  have nt: "no_nul ?t" using assms by (auto simp: no_nul_def dest: set_dropWhileD)
  have d: "dropWhile (\<lambda>c. c = slash) (cstr s) = cstr ?t" by (induction s) (auto simp: cstr_def)
  have c: "components ?t = components s" by (induction s) auto
  have h: "\<not> (?t \<noteq> [] \<and> hd ?t = slash)" using hd_dropWhile [of "\<lambda>c. c = slash" s] by auto
  have hn: "?t \<noteq> [] \<Longrightarrow> hd ?t \<noteq> NUL" using nt by (cases ?t) auto
  have "subpath_force (Some (cstr s)) = Some (if walk (components s) [] \<noteq> None
      then Some (if ?t = [] then cstr ''.'' else cstr ?t) else None)"
  proof -
    have v: "subpath_is_valid (cstr ?t) = Some (walk (components s) [] \<noteq> None)"
      using valid [OF nt] h unfolding c by simp
    have "load (cstr t) 0 = Some (if t = [] then NUL else hd t)" for t by (cases t) (simp_all add: cstr_def)
    note l = this [of ?t]
    show ?thesis
      unfolding subpath_force_def subpath_def option.map option.case d v l Option.bind.simps using hn by simp
  qed
  then show ?thesis using valid [OF assms] by (simp add: Let_def)
qed

theorem subpath_safe_witness:
  "subpath_is_valid (cstr ''a/../..'') = Some False \<and> subpath_is_valid (cstr ''a/./b/..'') = Some True"
proof -
  have "walk (components ''a/../..'') [] = None" "walk (components ''a/./b/..'') [] \<noteq> None" by simp_all
  then show ?thesis using subpath_safe [of "''a/../..''"] subpath_safe [of "''a/./b/..''"] by simp
qed

end
