(* ===== verification/Uuid.thy ===== *)
theory Uuid
  imports Prelude
begin

text \<open>
  Universally unique identifiers, \<open>src/misc/rp-uuid.c\<close>, compiled without \<open>libuuid\<close>: the
  text form, its parser and the generator. Binary identifiers are lists of bytes, texts are the
  memory of C strings; an access out of an object is \<open>None\<close>.
\<close>

unbundle bit_operations_syntax

type_synonym byte = "8 word"

subsection \<open>From binary to text\<close>

definition hex_char :: "nat \<Rightarrow> char" where
  "hex_char y = (if y < 10 then to_char (48 + int y) else to_char ((97 - 10) + int y))"

text \<open>The loop of \<open>b2h\<close> on \<open>count\<close> bytes; \<open>i\<close> and \<open>o\<close> are the offsets of the two pointers.\<close>

fun b2h :: "byte list \<Rightarrow> nat \<Rightarrow> mem \<Rightarrow> nat \<Rightarrow> nat \<Rightarrow> char \<Rightarrow> mem option" where
  "b2h uu i out k 0 term = store out k term"
| "b2h uu i out k (Suc count) term = do {
     x \<leftarrow> load uu i;
     out \<leftarrow> store out k (hex_char (unat x div 16 mod 16));
     out \<leftarrow> store out (k + 1) (hex_char (unat x mod 16));
     b2h uu (i + 1) out (k + 2) count term
   }"

definition uuid_unparse_lower :: "byte list \<Rightarrow> mem \<Rightarrow> mem option" where
  "uuid_unparse_lower uu out = do {
     out \<leftarrow> b2h uu 0 out 0 4 (CHR ''-'');
     out \<leftarrow> b2h uu 4 out 9 2 (CHR ''-'');
     out \<leftarrow> b2h uu 6 out 14 2 (CHR ''-'');
     out \<leftarrow> b2h uu 8 out 19 2 (CHR ''-'');
     b2h uu 10 out 24 6 NUL
   }"

subsection \<open>From text to binary\<close>

definition hex_value :: "char \<Rightarrow> nat option" where
  "hex_value c = (let x = schar c in
     if 48 \<le> x \<and> x \<le> 57 then Some (nat (x - 48))
     else if 97 \<le> x \<and> x \<le> 102 then Some (nat (x - (97 - 10)))
     else if 65 \<le> x \<and> x \<le> 70 then Some (nat (x - (65 - 10)))
     else None)"

text \<open>The result of \<open>h2b\<close> with the bytes as it leaves them.\<close>

fun h2b :: "mem \<Rightarrow> nat \<Rightarrow> byte list \<Rightarrow> nat \<Rightarrow> nat \<Rightarrow> char \<Rightarrow> (bool \<times> byte list) option" where
  "h2b uu i out k 0 term = do { c \<leftarrow> load uu i; Some (c = term, out) }"
| "h2b uu i out k (Suc count) term = do {
     c \<leftarrow> load uu i;
     (case hex_value c of
        None \<Rightarrow> Some (False, out)
      | Some x \<Rightarrow> do {
          d \<leftarrow> load uu (i + 1);
          (case hex_value d of
             None \<Rightarrow> Some (False, out)
           | Some y \<Rightarrow> do {
               out \<leftarrow> store out k (word_of_nat (push_bit 4 x OR y));
               h2b uu (i + 2) out (k + 1) count term
             })
        })
   }"

text \<open>The conjunction stops at the first failure.\<close>

definition uuid_parse :: "mem \<Rightarrow> byte list \<Rightarrow> (int \<times> byte list) option" where
  "uuid_parse from to = do {
     (r, to) \<leftarrow> h2b from 0 to 0 4 (CHR ''-'');
     (r, to) \<leftarrow> (if r then h2b from 9 to 4 2 (CHR ''-'') else Some (r, to));
     (r, to) \<leftarrow> (if r then h2b from 14 to 6 2 (CHR ''-'') else Some (r, to));
     (r, to) \<leftarrow> (if r then h2b from 19 to 8 2 (CHR ''-'') else Some (r, to));
     (r, to) \<leftarrow> (if r then h2b from 24 to 10 6 NUL else Some (r, to));
     Some ((if r then 1 else 0) - 1, to)
   }"

definition rp_uuid_bin_to_text :: "byte list \<Rightarrow> mem \<Rightarrow> mem option" where
  "rp_uuid_bin_to_text from to = uuid_unparse_lower from to"

definition rp_uuid_text_to_bin :: "mem \<Rightarrow> byte list \<Rightarrow> (bool \<times> byte list) option" where
  "rp_uuid_text_to_bin from to = do { (r, to) \<leftarrow> uuid_parse from to; Some (\<not> r \<noteq> 0, to) }"

text \<open>The local buffer is not initialized: \<open>tmp\<close> is what it holds.\<close>

definition rp_uuid_check_text :: "byte list \<Rightarrow> mem \<Rightarrow> bool option" where
  "rp_uuid_check_text tmp text = do { (r, _) \<leftarrow> rp_uuid_text_to_bin text tmp; Some r }"

subsection \<open>The generator\<close>

text \<open>
  The static variables. What comes from the system are parameters: the low 32 bits of the clock
  mix \<open>x\<close>, the process identifier and the values \<open>GETRND\<close> gives, in order, once the
  generator has been seeded.
\<close>

record uuid_static =
  uuid_pid :: "16 word"
  uuid_counter :: "16 word"

definition lo_byte :: "32 word \<Rightarrow> nat \<Rightarrow> byte" where
  "lo_byte x k = ucast (drop_bit k x)"

definition rp_uuid_new_binary ::
  "uuid_static \<Rightarrow> 32 word \<Rightarrow> 32 word \<Rightarrow> 32 word \<times> 32 word \<times> 32 word \<times> 32 word \<Rightarrow> byte list \<times> uuid_static" where
  "rp_uuid_new_binary st x getpid rnd = (
     let (r1, r2, r3, r4) = rnd;
         st = (if uuid_pid st = 0 then \<lparr>uuid_pid = ucast getpid, uuid_counter = ucast x\<rparr> else st);
         counter = uuid_counter st + 1;
         counter = (if counter = 0 then 1 else counter);
         pid = uuid_pid st
     in ([lo_byte x 24, lo_byte x 16, lo_byte x 8, lo_byte x 0,
          ucast (drop_bit 8 pid), ucast pid,
          (lo_byte r1 16 AND 0x0f) OR 0x40, lo_byte r1 8,
          (lo_byte r2 16 AND 0x3f) OR 0x80, lo_byte r2 8,
          lo_byte r3 16, lo_byte r3 8,
          lo_byte r4 16, lo_byte r4 8,
          ucast (drop_bit 8 counter), ucast counter],
         st\<lparr>uuid_counter := counter\<rparr>))"

definition rp_uuid_new_stringz ::
  "uuid_static \<Rightarrow> 32 word \<Rightarrow> 32 word \<Rightarrow> 32 word \<times> 32 word \<times> 32 word \<times> 32 word \<Rightarrow> mem \<Rightarrow> (mem \<times> uuid_static) option" where
  "rp_uuid_new_stringz st x getpid rnd uuid = (
     let (newuuid, st) = rp_uuid_new_binary st x getpid rnd in
     do { out \<leftarrow> uuid_unparse_lower newuuid uuid; Some (out, st) })"

subsection \<open>The text form\<close>

definition hex_text :: "byte list \<Rightarrow> string" where
  "hex_text bs = concat (map (\<lambda>x. [hex_char (unat x div 16), hex_char (unat x mod 16)]) bs)"

definition uuid_text :: "byte list \<Rightarrow> string" where
  "uuid_text bs = hex_text (take 4 bs) @ ''-'' @ hex_text (take 2 (drop 4 bs)) @ ''-'' @
     hex_text (take 2 (drop 6 bs)) @ ''-'' @ hex_text (take 2 (drop 8 bs)) @ ''-'' @ hex_text (drop 10 bs)"

lemma hex_text_simps [simp]:
  "hex_text [] = []"
  "hex_text (x # bs) = hex_char (unat x div 16) # hex_char (unat x mod 16) # hex_text bs"
  by (simp_all add: hex_text_def)

lemma unat_byte: "unat (x :: byte) < 256"
  using unsigned_less [of x, where ?'a = nat] by simp

lemma uuid_byte_nibbles: "unat (x :: byte) div 16 < 16" "unat x div 16 mod 16 = unat x div 16"
  using unat_byte [of x] by (simp_all add: less_mult_imp_div_less)

lemma b2h_eq:
  "k + 2 * n < length out \<Longrightarrow> i + n \<le> length uu \<Longrightarrow>
    b2h uu i out k n t = Some (overwrite out k (hex_text (take n (drop i uu)) @ [t]))"
proof (induction n arbitrary: i out k)
  case 0
  then show ?case by (simp add: store_overwrite)
next
  case (Suc n)
  let ?a = "hex_char (unat (uu ! i) div 16)" and ?b = "hex_char (unat (uu ! i) mod 16)"
  let ?r = "hex_text (take n (drop (Suc i) uu))"
  have d: "drop i uu = uu ! i # drop (Suc i) uu" using Suc.prems by (simp add: Cons_nth_drop_Suc)
  have l: "length ?r = 2 * n"
    using Suc.prems by (simp add: hex_text_def length_concat comp_def sum_list_triv)
  have s1: "store out k ?a = Some (overwrite out k [?a])" using Suc.prems by (intro store_overwrite) simp
  have s2: "store (overwrite out k [?a]) (Suc k) ?b = Some (overwrite out k [?a, ?b])"
    using Suc.prems overwrite_append [of k "[?a]" "[?b]" out] by (subst store_overwrite) simp_all
  have IH: "b2h uu (Suc i) (overwrite out k [?a, ?b]) (k + 2) n t =
      Some (overwrite (overwrite out k [?a, ?b]) (k + 2) (?r @ [t]))"
    using Suc.prems Suc.IH [of "k + 2" "overwrite out k [?a, ?b]" "Suc i"] by simp
  have "overwrite (overwrite out k [?a, ?b]) (k + 2) (?r @ [t]) = overwrite out k ([?a, ?b] @ ?r @ [t])"
    using Suc.prems l overwrite_append [of k "[?a, ?b]" "?r @ [t]" out] by simp
  then show ?case using Suc.prems s1 s2 IH d by (simp add: uuid_byte_nibbles)
qed

lemma length_hex_text [simp]: "length (hex_text bs) = 2 * length bs"
  by (induction bs) simp_all

lemma unparse_eq:
  assumes "length uu = 16" and "37 \<le> length out"
  shows "uuid_unparse_lower uu out = Some (uuid_text uu @ NUL # drop 37 out)"
proof -
  let ?a = "hex_text (take 4 uu) @ ''-''" and ?b = "hex_text (take 2 (drop 4 uu)) @ ''-''"
    and ?c = "hex_text (take 2 (drop 6 uu)) @ ''-''" and ?d = "hex_text (take 2 (drop 8 uu)) @ ''-''"
    and ?e = "hex_text (drop 10 uu) @ [NUL]"
  have e: "take 6 (drop 10 uu) = drop 10 uu" using assms by simp
  have l: "length ?a = 9" "length ?b = 5" "length ?c = 5" "length ?d = 5" "length ?e = 13"
    using assms(1) by simp_all
  have "uuid_unparse_lower uu out =
      Some (overwrite (overwrite (overwrite (overwrite (overwrite out 0 ?a) 9 ?b) 14 ?c) 19 ?d) 24 ?e)"
    using assms l by (simp add: uuid_unparse_lower_def b2h_eq e)
  also have "\<dots> = Some (overwrite out 0 (?a @ ?b @ ?c @ ?d @ ?e))"
    using assms l overwrite_append [of 0 ?a ?b out] overwrite_append [of 0 "?a @ ?b" ?c out]
      overwrite_append [of 0 "?a @ ?b @ ?c" ?d out] overwrite_append [of 0 "?a @ ?b @ ?c @ ?d" ?e out] by simp
  also have "\<dots> = Some (uuid_text uu @ NUL # drop 37 out)"
    using assms l by (simp add: overwrite_def uuid_text_def)
  finally show ?thesis .
qed

subsection \<open>Parsing\<close>

definition is_hex :: "char \<Rightarrow> bool" where
  "is_hex c \<longleftrightarrow> hex_value c \<noteq> None"

text \<open>A digit in its lower case form; other characters are kept.\<close>

definition canon :: "char \<Rightarrow> char" where
  "canon c = (case hex_value c of Some v \<Rightarrow> hex_char v | None \<Rightarrow> c)"

lemma hex_value_less: "hex_value c = Some v \<Longrightarrow> v < 16"
  by (auto simp: hex_value_def Let_def split: if_splits)

lemma hex_value_NUL [simp]: "hex_value NUL = None" "hex_value (CHR ''-'') = None"
  by (simp_all add: hex_value_def schar_def)

lemma is_hex_canon [simp]: "canon (CHR ''-'') = CHR ''-''"
  by (simp add: canon_def)

lemma nibbles_or: "x < 16 \<Longrightarrow> y < 16 \<Longrightarrow> push_bit 4 x OR y = 16 * x + (y :: nat)"
proof -
  assume a: "x < 16" "y < 16"
  have "\<not> bit (push_bit 4 x) n \<or> \<not> bit y n" for n
  proof (cases "n < 4")
    case False
    then have "2 ^ 4 \<le> (2 :: nat) ^ n" by (intro power_increasing) auto
    then have "y < 2 ^ n" using a(2) by simp
    then show ?thesis by (simp add: bit_iff_odd)
  qed (simp add: bit_push_bit_iff)
  then have "push_bit 4 x + y = push_bit 4 x OR y" by (rule disjunctive_add)
  then show ?thesis by (simp add: push_bit_eq_mult)
qed

lemma parsed_byte:
  assumes "hex_value c = Some x" and "hex_value d = Some y"
  shows "hex_text [word_of_nat (push_bit 4 x OR y)] = [canon c, canon d]"
proof -
  have l: "x < 16" "y < 16" using assms hex_value_less by blast+
  have "16 * x + y < 256" using l by simp
  then have "unat (word_of_nat (16 * x + y) :: byte) = 16 * x + y"
    by (simp only: unat_of_nat) (simp add: take_bit_nat_eq_self)
  then have u: "unat (word_of_nat (push_bit 4 x OR y) :: byte) = 16 * x + y" using nibbles_or [OF l] by simp
  have "(16 * x + y) div 16 = x" "(16 * x + y) mod 16 = y" using l by simp_all
  then show ?thesis using assms u by (simp add: canon_def)
qed

lemma h2b_eq:
  "i \<le> length s \<Longrightarrow> no_nul s \<Longrightarrow> k + n \<le> length out \<Longrightarrow>
    \<exists>r bs. h2b (cstr s) i out k n t = Some (r, overwrite out k bs) \<and> length bs \<le> n \<and>
      (r \<longleftrightarrow> i + 2 * n \<le> length s \<and> list_all is_hex (take (2 * n) (drop i s)) \<and> cstr s ! (i + 2 * n) = t) \<and>
      (r \<longrightarrow> length bs = n \<and> hex_text bs = map canon (take (2 * n) (drop i s)))"
proof (induction n arbitrary: i out k)
  case 0
  then show ?case by (intro exI [of _ "cstr s ! i = t"] exI [of _ "[]"]) (simp add: load_def)
next
  case (Suc n)
  let ?c = "cstr s ! i" and ?d = "cstr s ! Suc i"
  have c: "load (cstr s) i = Some ?c" using Suc.prems by simp
  show ?case
  proof (cases "hex_value ?c")
    case None
    have "\<not> (i + 2 * Suc n \<le> length s \<and> list_all is_hex (take (2 * Suc n) (drop i s)))"
      using None by (auto simp: Cons_nth_drop_Suc [symmetric] cstr_def nth_append is_hex_def)
    then show ?thesis using None c by (intro exI [of _ False] exI [of _ "[]"]) auto
  next
    case (Some x)
    have i: "i < length s"
    proof (rule ccontr)
      assume "\<not> i < length s"
      then have "?c = NUL" using Suc.prems by (simp add: cstr_def nth_append)
      then show False using Some by simp
    qed
    then have ci: "?c = s ! i" by (simp add: cstr_def nth_append)
    have d: "load (cstr s) (Suc i) = Some ?d" using i by simp
    show ?thesis
    proof (cases "hex_value ?d")
      case None
      have "\<not> (i + 2 * Suc n \<le> length s \<and> list_all is_hex (take (2 * Suc n) (drop i s)))"
        using None by (auto simp: Cons_nth_drop_Suc [symmetric] cstr_def nth_append is_hex_def)
      then show ?thesis using Some None c d by (intro exI [of _ False] exI [of _ "[]"]) auto
    next
      case y: (Some y)
      have j: "Suc i < length s"
      proof (rule ccontr)
        assume "\<not> Suc i < length s"
        then have "?d = NUL" using i by (simp add: cstr_def nth_append)
        then show False using y by simp
      qed
      then have cj: "?d = s ! Suc i" by (simp add: cstr_def nth_append)
      let ?b = "word_of_nat (push_bit 4 x OR y) :: byte"
      have st: "store out k ?b = Some (overwrite out k [?b])" using Suc.prems by (intro store_overwrite) simp
      have "Suc (Suc i) \<le> length s" "Suc k + n \<le> length (overwrite out k [?b])" using j Suc.prems by simp_all
      from Suc.IH [OF this(1) Suc.prems(2) this(2)] obtain r bs where
        r: "h2b (cstr s) (Suc (Suc i)) (overwrite out k [?b]) (Suc k) n t =
            Some (r, overwrite (overwrite out k [?b]) (Suc k) bs)" "length bs \<le> n"
          "r \<longleftrightarrow> Suc (Suc i) + 2 * n \<le> length s \<and> list_all is_hex (take (2 * n) (drop (Suc (Suc i)) s)) \<and>
            cstr s ! (Suc (Suc i) + 2 * n) = t"
          "r \<longrightarrow> length bs = n \<and> hex_text bs = map canon (take (2 * n) (drop (Suc (Suc i)) s))"
        by blast
      have o: "overwrite (overwrite out k [?b]) (Suc k) bs = overwrite out k (?b # bs)"
        using overwrite_append [of k "[?b]" bs out] Suc.prems r(2) by simp
      have dr: "drop i s = s ! i # s ! Suc i # drop (Suc (Suc i)) s" using j by (simp add: Cons_nth_drop_Suc)
      have hx: "is_hex (s ! i)" "is_hex (s ! Suc i)" using Some y ci cj by (simp_all add: is_hex_def)
      have tx: "hex_text (?b # bs) = canon (s ! i) # canon (s ! Suc i) # hex_text bs"
        using parsed_byte [OF Some y] ci cj by simp
      have run: "h2b (cstr s) i out k (Suc n) t = Some (r, overwrite out k (?b # bs))"
        using c d Some y st r(1) o by simp
      show ?thesis
        by (rule exI [of _ r], rule exI [of _ "?b # bs"]) (use run r(2-4) hx dr tx in \<open>simp del: hex_text_simps\<close>)
    qed
  qed
qed

text \<open>The format: hexadecimal digits, of either case, but for the hyphens.\<close>

definition is_uuid :: "string \<Rightarrow> bool" where
  "is_uuid s \<longleftrightarrow> length s = 36 \<and>
     (\<forall>i < 36. if i \<in> {8, 13, 18, 23} then s ! i = CHR ''-'' else is_hex (s ! i))"

lemma all_upto_36:
  "(\<forall>i < 36. P i) \<longleftrightarrow> (\<forall>i < 8. P i) \<and> P 8 \<and> (\<forall>i < 4. P (9 + i)) \<and> P 13 \<and> (\<forall>i < 4. P (14 + i)) \<and> P 18 \<and>
    (\<forall>i < 4. P (19 + i)) \<and> P 23 \<and> (\<forall>i < 12. P (24 + i))" for P :: "nat \<Rightarrow> bool"
proof
  assume r: "(\<forall>i < 8. P i) \<and> P 8 \<and> (\<forall>i < 4. P (9 + i)) \<and> P 13 \<and> (\<forall>i < 4. P (14 + i)) \<and> P 18 \<and>
    (\<forall>i < 4. P (19 + i)) \<and> P 23 \<and> (\<forall>i < 12. P (24 + i))"
  show "\<forall>i < 36. P i"
  proof (intro allI impI)
    fix i :: nat
    assume "i < 36"
    then consider "i < 8" | "i = 8" | "i = 9 + (i - 9) \<and> i - 9 < 4" | "i = 13" | "i = 14 + (i - 14) \<and> i - 14 < 4"
      | "i = 18" | "i = 19 + (i - 19) \<and> i - 19 < 4" | "i = 23" | "i = 24 + (i - 24) \<and> i - 24 < 12"
      by linarith
    then show "P i" by cases (use r in \<open>metis\<close>)+
  qed
qed auto

lemma hex_chunk: "i + n \<le> length s \<Longrightarrow> list_all is_hex (take n (drop i s)) \<longleftrightarrow> (\<forall>j < n. is_hex (s ! (i + j)))"
  by (auto simp: list_all_length)

lemma is_uuid_parts:
  "is_uuid s \<longleftrightarrow> length s = 36 \<and> list_all is_hex (take 8 (drop 0 s)) \<and> s ! 8 = CHR ''-'' \<and>
     list_all is_hex (take 4 (drop 9 s)) \<and> s ! 13 = CHR ''-'' \<and> list_all is_hex (take 4 (drop 14 s)) \<and>
     s ! 18 = CHR ''-'' \<and> list_all is_hex (take 4 (drop 19 s)) \<and> s ! 23 = CHR ''-'' \<and>
     list_all is_hex (take 12 (drop 24 s))"
proof (cases "length s = 36")
  case True
  have c: "list_all is_hex (take n (drop i s)) \<longleftrightarrow> (\<forall>j < n. is_hex (s ! (i + j)))" if "i + n \<le> 36" for i n
    using that True by (intro hex_chunk) simp
  have e: "list_all is_hex (take 8 (drop 0 s)) \<longleftrightarrow> (\<forall>j < 8. is_hex (s ! j))"
    "list_all is_hex (take 4 (drop 9 s)) \<longleftrightarrow> (\<forall>j < 4. is_hex (s ! (9 + j)))"
    "list_all is_hex (take 4 (drop 14 s)) \<longleftrightarrow> (\<forall>j < 4. is_hex (s ! (14 + j)))"
    "list_all is_hex (take 4 (drop 19 s)) \<longleftrightarrow> (\<forall>j < 4. is_hex (s ! (19 + j)))"
    "list_all is_hex (take 12 (drop 24 s)) \<longleftrightarrow> (\<forall>j < 12. is_hex (s ! (24 + j)))"
    using c [of 0 8] c [of 9 4] c [of 14 4] c [of 19 4] c [of 24 12] by simp_all
  show ?thesis unfolding is_uuid_def all_upto_36 e using True by simp
qed (simp add: is_uuid_def)

lemma cstr_nth: "i < length s \<Longrightarrow> cstr s ! i = s ! i" "cstr s ! length s = NUL"
  by (simp_all add: cstr_def nth_append)

lemma cstr_nth_eq: "c \<noteq> NUL \<Longrightarrow> i \<le> length s \<Longrightarrow> cstr s ! i = c \<longleftrightarrow> i < length s \<and> s ! i = c"
  by (cases "i = length s") (auto simp: cstr_nth)

text \<open>The text of 16 bytes written part by part.\<close>

lemma overwrite_parts:
  assumes "length to = 16" and "length a = 4" "length b = 2" "length c = 2" "length d = 2" "length e = 6"
  shows "overwrite (overwrite (overwrite (overwrite (overwrite to 0 a) 4 b) 6 c) 8 d) 10 e = a @ b @ c @ d @ e"
  using assms overwrite_append [of 0 a b to] overwrite_append [of 0 "a @ b" c to]
    overwrite_append [of 0 "a @ b @ c" d to] overwrite_append [of 0 "a @ b @ c @ d" e to]
  by (simp add: overwrite_all)

lemma uuid_text_parts:
  assumes "length a = 4" "length b = 2" "length c = 2" "length d = 2" "length e = 6"
  shows "uuid_text (a @ b @ c @ d @ e) =
    hex_text a @ ''-'' @ hex_text b @ ''-'' @ hex_text c @ ''-'' @ hex_text d @ ''-'' @ hex_text e"
  using assms by (simp add: uuid_text_def)

lemma text_parts:
  assumes "length s = 36"
  shows "s = take 8 (drop 0 s) @ s ! 8 # take 4 (drop 9 s) @ s ! 13 # take 4 (drop 14 s) @ s ! 18 #
    take 4 (drop 19 s) @ s ! 23 # take 12 (drop 24 s)" (is "_ = ?r")
proof -
  have d: "drop n s = take k (drop n s) @ drop (n + k) s" for n k
    by (metis append_take_drop_id drop_drop add.commute)
  have e: "drop n s = s ! n # drop (Suc n) s" if "n < 36" for n
    using that assms by (simp add: Cons_nth_drop_Suc)
  have "s = drop 0 s" by simp
  also have "\<dots> = take 8 (drop 0 s) @ s ! 8 # drop 9 s" using d [of 0 8] e [of 8] by simp
  also have "drop 9 s = take 4 (drop 9 s) @ s ! 13 # drop 14 s" using d [of 9 4] e [of 13] by simp
  also have "drop 14 s = take 4 (drop 14 s) @ s ! 18 # drop 19 s" using d [of 14 4] e [of 18] by simp
  also have "drop 19 s = take 4 (drop 19 s) @ s ! 23 # drop 24 s" using d [of 19 4] e [of 23] by simp
  also have "drop 24 s = take 12 (drop 24 s)" using assms by simp
  finally show ?thesis .
qed

lemma uuid_parse_eq:
  assumes nn: "no_nul s" and l: "length to = 16"
  shows "\<exists>to'. uuid_parse (cstr s) to = Some (if is_uuid s then 0 else - 1, to') \<and> length to' = 16 \<and>
    (is_uuid s \<longrightarrow> uuid_text to' = map canon s)"
proof -
  obtain r1 a where 1: "h2b (cstr s) 0 to 0 4 (CHR ''-'') = Some (r1, overwrite to 0 a)" "length a \<le> 4"
    "r1 \<longleftrightarrow> 8 \<le> length s \<and> list_all is_hex (take 8 (drop 0 s)) \<and> cstr s ! 8 = CHR ''-''"
    "r1 \<longrightarrow> length a = 4 \<and> hex_text a = map canon (take 8 (drop 0 s))"
    using h2b_eq [of 0 s 0 4 to "CHR ''-''"] nn l by auto
  let ?t1 = "overwrite to 0 a"
  have l1: "length ?t1 = 16" using 1(2) l by simp
  have u1: "is_uuid s \<Longrightarrow> r1" using 1(3) unfolding is_uuid_parts by (simp add: cstr_nth_eq)
  show ?thesis
  proof (cases r1)
    case False
    then show ?thesis using 1(1) u1 l1 by (auto simp: uuid_parse_def)
  next
    case r1: True
    then have i1: "9 \<le> length s" "s ! 8 = CHR ''-''" using 1(3) by (auto simp: cstr_nth_eq)
    obtain r2 b where 2: "h2b (cstr s) 9 ?t1 4 2 (CHR ''-'') = Some (r2, overwrite ?t1 4 b)" "length b \<le> 2"
      "r2 \<longleftrightarrow> 13 \<le> length s \<and> list_all is_hex (take 4 (drop 9 s)) \<and> cstr s ! 13 = CHR ''-''"
      "r2 \<longrightarrow> length b = 2 \<and> hex_text b = map canon (take 4 (drop 9 s))"
      using h2b_eq [of 9 s 4 2 ?t1 "CHR ''-''"] nn l1 i1 by auto
    let ?t2 = "overwrite ?t1 4 b"
    have l2: "length ?t2 = 16" using 2(2) l1 by simp
    have u2: "is_uuid s \<Longrightarrow> r2" using 2(3) unfolding is_uuid_parts by (simp add: cstr_nth_eq)
    show ?thesis
    proof (cases r2)
      case False
      then show ?thesis using 1(1) 2(1) r1 u2 l2 by (auto simp: uuid_parse_def)
    next
      case r2: True
      then have i2: "14 \<le> length s" "s ! 13 = CHR ''-''" using 2(3) by (auto simp: cstr_nth_eq)
      obtain r3 c where 3: "h2b (cstr s) 14 ?t2 6 2 (CHR ''-'') = Some (r3, overwrite ?t2 6 c)" "length c \<le> 2"
        "r3 \<longleftrightarrow> 18 \<le> length s \<and> list_all is_hex (take 4 (drop 14 s)) \<and> cstr s ! 18 = CHR ''-''"
        "r3 \<longrightarrow> length c = 2 \<and> hex_text c = map canon (take 4 (drop 14 s))"
        using h2b_eq [of 14 s 6 2 ?t2 "CHR ''-''"] nn l2 i2 by auto
      let ?t3 = "overwrite ?t2 6 c"
      have l3: "length ?t3 = 16" using 3(2) l2 by simp
      have u3: "is_uuid s \<Longrightarrow> r3" using 3(3) unfolding is_uuid_parts by (simp add: cstr_nth_eq)
      show ?thesis
      proof (cases r3)
        case False
        then show ?thesis using 1(1) 2(1) 3(1) r1 r2 u3 l3 by (auto simp: uuid_parse_def)
      next
        case r3: True
        then have i3: "19 \<le> length s" "s ! 18 = CHR ''-''" using 3(3) by (auto simp: cstr_nth_eq)
        obtain r4 d where 4: "h2b (cstr s) 19 ?t3 8 2 (CHR ''-'') = Some (r4, overwrite ?t3 8 d)" "length d \<le> 2"
          "r4 \<longleftrightarrow> 23 \<le> length s \<and> list_all is_hex (take 4 (drop 19 s)) \<and> cstr s ! 23 = CHR ''-''"
          "r4 \<longrightarrow> length d = 2 \<and> hex_text d = map canon (take 4 (drop 19 s))"
          using h2b_eq [of 19 s 8 2 ?t3 "CHR ''-''"] nn l3 i3 by auto
        let ?t4 = "overwrite ?t3 8 d"
        have l4: "length ?t4 = 16" using 4(2) l3 by simp
        have u4: "is_uuid s \<Longrightarrow> r4" using 4(3) unfolding is_uuid_parts by (simp add: cstr_nth_eq)
        show ?thesis
        proof (cases r4)
          case False
          then show ?thesis using 1(1) 2(1) 3(1) 4(1) r1 r2 r3 u4 l4 by (auto simp: uuid_parse_def)
        next
          case r4: True
          then have i4: "24 \<le> length s" "s ! 23 = CHR ''-''" using 4(3) by (auto simp: cstr_nth_eq)
          obtain r5 e where 5: "h2b (cstr s) 24 ?t4 10 6 NUL = Some (r5, overwrite ?t4 10 e)" "length e \<le> 6"
            "r5 \<longleftrightarrow> 36 \<le> length s \<and> list_all is_hex (take 12 (drop 24 s)) \<and> cstr s ! 36 = NUL"
            "r5 \<longrightarrow> length e = 6 \<and> hex_text e = map canon (take 12 (drop 24 s))"
            using h2b_eq [of 24 s 10 6 ?t4 NUL] nn l4 i4 by auto
          have l5: "length (overwrite ?t4 10 e) = 16" using 5(2) l4 by simp
          have "cstr s ! 36 = NUL \<longleftrightarrow> length s = 36" if "36 \<le> length s"
          proof (cases "length s = 36")
            case False
            then have "36 < length s" using that by simp
            moreover from this have "s ! 36 \<noteq> NUL" using nn nth_mem [of 36 s] unfolding no_nul_def by metis
            ultimately show ?thesis by (simp add: cstr_nth)
          qed (use cstr_nth(2) [of s] in simp)
          then have r5: "r5 \<longleftrightarrow> is_uuid s"
            using 1(3) 2(3) 3(3) 4(3) 5(3) r1 r2 r3 r4 i1 i2 i3 i4 unfolding is_uuid_parts by auto
          have "uuid_text (overwrite ?t4 10 e) = map canon s" if "is_uuid s"
          proof -
            have ls: "length s = 36" using that by (simp add: is_uuid_def)
            have la: "length a = 4" "length b = 2" "length c = 2" "length d = 2" "length e = 6"
              and h: "hex_text a = map canon (take 8 (drop 0 s))" "hex_text b = map canon (take 4 (drop 9 s))"
                "hex_text c = map canon (take 4 (drop 14 s))" "hex_text d = map canon (take 4 (drop 19 s))"
                "hex_text e = map canon (take 12 (drop 24 s))"
              using 1(4) 2(4) 3(4) 4(4) 5(4) r1 r2 r3 r4 r5 that by blast+
            show ?thesis
              unfolding overwrite_parts [OF l la] uuid_text_parts [OF la] h
              by (subst (6) text_parts [OF ls]) (simp only: i1 i2 i3 i4 map_append list.map is_hex_canon append_Cons append_Nil)
          qed
          then show ?thesis using 1(1) 2(1) 3(1) 4(1) 5(1) r1 r2 r3 r4 r5 l5
            by (intro exI [of _ "overwrite ?t4 10 e"]) (simp add: uuid_parse_def)
        qed
      qed
    qed
  qed
qed

text \<open>
  Property C16: parsing a C string never reads beyond its zero, and succeeds exactly on 36
  characters that are hexadecimal digits and hyphens at the right places; the bytes it then
  stores are those whose text is the string in lower case.
\<close>

theorem rp_uuid_text_to_bin_correct:
  assumes "no_nul s" and "length to = 16"
  shows "\<exists>to'. rp_uuid_text_to_bin (cstr s) to = Some (is_uuid s, to') \<and> length to' = 16 \<and>
    (is_uuid s \<longrightarrow> rp_uuid_bin_to_text to' (replicate 37 NUL) = Some (cstr (map canon s)))"
proof -
  obtain to' where "uuid_parse (cstr s) to = Some (if is_uuid s then 0 else - 1, to')" "length to' = 16"
    "is_uuid s \<longrightarrow> uuid_text to' = map canon s"
    using uuid_parse_eq [OF assms] by blast
  then show ?thesis
    by (intro exI [of _ to']) (auto simp: rp_uuid_text_to_bin_def rp_uuid_bin_to_text_def unparse_eq cstr_def)
qed

theorem rp_uuid_text_to_bin_correct_witness:
  "\<exists>to. rp_uuid_text_to_bin (cstr ''123E4567-e89b-12d3-a456-426614174000'') (replicate 16 0) = Some (True, to) \<and>
    rp_uuid_bin_to_text to (replicate 37 NUL) = Some (cstr ''123e4567-e89b-12d3-a456-426614174000'')"
proof -
  let ?s = "''123E4567-e89b-12d3-a456-426614174000''"
  have nn: "no_nul ?s" by (simp add: no_nul_def)
  have iu: "is_uuid ?s" by code_simp
  have m: "map canon ?s = ''123e4567-e89b-12d3-a456-426614174000''" by code_simp
  have l: "length (replicate 16 (0 :: byte)) = 16" by simp
  obtain to where t: "rp_uuid_text_to_bin (cstr ?s) (replicate 16 0) = Some (is_uuid ?s, to)"
    "is_uuid ?s \<longrightarrow> rp_uuid_bin_to_text to (replicate 37 NUL) = Some (cstr (map canon ?s))"
    using rp_uuid_text_to_bin_correct [OF nn l] by blast
  show ?thesis using t iu unfolding m by (intro exI [of _ to]) (simp only: simp_thms)
qed

lemma hex_char_value: "v < 16 \<Longrightarrow> hex_value (hex_char v) = Some v"
proof -
  assume v: "v < 16"
  then have "uchar (hex_char v) = (if v < 10 then 48 + v else 87 + v)" by (auto simp: hex_char_def nat_add_distrib)
  then have "schar (hex_char v) = (if v < 10 then 48 + int v else 87 + int v)" using v by (simp add: schar_def)
  then show ?thesis using v by (simp add: hex_value_def Let_def)
qed

lemma hex_text_hex: "list_all is_hex (hex_text bs)"
  by (induction bs) (auto simp: is_hex_def hex_char_value uuid_byte_nibbles)

lemma uuid_text_is_uuid:
  assumes "length bs = 16"
  shows "is_uuid (uuid_text bs)"
proof -
  let ?a = "hex_text (take 4 bs)" and ?b = "hex_text (take 2 (drop 4 bs))" and ?c = "hex_text (take 2 (drop 6 bs))"
    and ?d = "hex_text (take 2 (drop 8 bs))" and ?e = "hex_text (drop 10 bs)"
  have l: "length ?a = 8" "length ?b = 4" "length ?c = 4" "length ?d = 4" "length ?e = 12" using assms by simp_all
  have h: "list_all is_hex ?a" "list_all is_hex ?b" "list_all is_hex ?c" "list_all is_hex ?d" "list_all is_hex ?e"
    by (rule hex_text_hex)+
  have s: "uuid_text bs = ?a @ ''-'' @ ?b @ ''-'' @ ?c @ ''-'' @ ?d @ ''-'' @ ?e" by (simp add: uuid_text_def)
  show ?thesis unfolding is_uuid_parts s using l h by (simp add: nth_append)
qed

lemma hex_text_inj: "hex_text a = hex_text b \<Longrightarrow> a = b"
proof (induction a arbitrary: b)
  case (Cons x a)
  then obtain y b' where b: "b = y # b'" by (cases b) auto
  have e: "hex_char (unat x div 16) = hex_char (unat y div 16)" "hex_char (unat x mod 16) = hex_char (unat y mod 16)"
    "a = b'" using Cons b by auto
  have "unat x div 16 = unat y div 16" "unat x mod 16 = unat y mod 16"
    using arg_cong [OF e(1), of hex_value] arg_cong [OF e(2), of hex_value] by (simp_all add: hex_char_value uuid_byte_nibbles)
  then have "unat x = unat y" by (metis div_mod_decomp)
  then show ?case using e(3) b by (simp add: unsigned_word_eqI)
qed (metis hex_text_simps(1) length_0_conv length_hex_text mult_eq_0_iff zero_neq_numeral)

lemma canon_hex_text: "map canon (hex_text bs) = hex_text bs"
  by (induction bs) (simp_all add: canon_def hex_char_value uuid_byte_nibbles)

lemma canon_uuid_text: "map canon (uuid_text bs) = uuid_text bs"
  by (simp add: uuid_text_def canon_hex_text)

lemma uuid_text_inj:
  assumes "length a = 16" and "length b = 16" and "uuid_text a = uuid_text b"
  shows "a = b"
proof -
  have split: "x = take 4 x @ take 2 (drop 4 x) @ take 2 (drop 6 x) @ take 2 (drop 8 x) @ drop 10 x" for x :: "byte list"
  proof -
    have d: "drop n x = take k (drop n x) @ drop (n + k) x" for n k
      by (metis append_take_drop_id drop_drop add.commute)
    show ?thesis using d [of 0 4] d [of 4 2] d [of 6 2] d [of 8 2] by simp
  qed
  have "take 4 a = take 4 b \<and> take 2 (drop 4 a) = take 2 (drop 4 b) \<and> take 2 (drop 6 a) = take 2 (drop 6 b) \<and>
    take 2 (drop 8 a) = take 2 (drop 8 b) \<and> drop 10 a = drop 10 b"
    using assms by (simp add: uuid_text_def) (metis hex_text_inj)
  then show ?thesis using split [of a] split [of b] by metis
qed

lemma uuid_text_no_nul: "no_nul (uuid_text bs)"
proof -
  have "c \<noteq> NUL" if "is_hex c" for c using that by (auto simp: is_hex_def)
  then have "no_nul (hex_text x)" for x using hex_text_hex [of x] by (auto simp: no_nul_def list_all_iff)
  then show ?thesis by (simp add: uuid_text_def)
qed

lemma uuid_new_length: "length (fst (rp_uuid_new_binary st x getpid rnd)) = 16"
  by (simp add: rp_uuid_new_binary_def Let_def split: prod.splits)

text \<open>
  An identifier of the generator has the version 4 and the variant of RFC 4122, and
  its text is read back as the same 16 bytes.
\<close>

theorem rp_uuid_new_correct:
  assumes "rp_uuid_new_binary st x getpid rnd = (uuid, st')"
  shows "uuid ! 6 AND 0xf0 = 0x40 \<and> uuid ! 8 AND 0xc0 = 0x80 \<and> uuid_counter st' \<noteq> 0 \<and>
    rp_uuid_bin_to_text uuid (replicate 37 NUL) = Some (cstr (uuid_text uuid)) \<and>
    rp_uuid_text_to_bin (cstr (uuid_text uuid)) (replicate 16 0) = Some (True, uuid)"
proof -
  have l: "length uuid = 16" using uuid_new_length [of st x getpid rnd] assms by simp
  obtain r1 r2 r3 r4 where r: "rnd = (r1, r2, r3, r4)" by (cases rnd)
  have u: "uuid ! 6 = (lo_byte r1 16 AND 0x0f) OR 0x40" "uuid ! 8 = (lo_byte r2 16 AND 0x3f) OR 0x80"
    using assms by (auto simp: rp_uuid_new_binary_def r Let_def)
  have "((w AND 0x0f) OR 0x40) AND 0xf0 = (0x40 :: byte)" "((w AND 0x3f) OR 0x80) AND 0xc0 = (0x80 :: byte)" for w
    by (simp_all add: bit.conj_disj_distrib2 and.assoc)
  then have v: "uuid ! 6 AND 0xf0 = 0x40" "uuid ! 8 AND 0xc0 = 0x80" unfolding u by blast+
  have c: "uuid_counter st' \<noteq> 0" using assms by (auto simp: rp_uuid_new_binary_def r Let_def split: if_splits)
  have t: "rp_uuid_bin_to_text b (replicate 37 NUL) = Some (cstr (uuid_text b))" if "length b = 16" for b
    using unparse_eq [OF that, of "replicate 37 NUL"] by (simp add: rp_uuid_bin_to_text_def cstr_def)
  obtain to' where to': "rp_uuid_text_to_bin (cstr (uuid_text uuid)) (replicate 16 0) = Some (True, to')" "length to' = 16"
    "rp_uuid_bin_to_text to' (replicate 37 NUL) = Some (cstr (uuid_text uuid))"
    using rp_uuid_text_to_bin_correct [OF uuid_text_no_nul [of uuid], of "replicate 16 0"] uuid_text_is_uuid [OF l]
    unfolding canon_uuid_text by auto
  then have "uuid_text to' = uuid_text uuid" using t [OF to'(2)] by (simp add: cstr_def)
  then show ?thesis using v c t [OF l] to' uuid_text_inj [OF to'(2) l] by simp
qed

theorem rp_uuid_new_correct_witness:
  "fst (rp_uuid_new_binary \<lparr>uuid_pid = 0, uuid_counter = 0\<rparr> 7 42 (1, 2, 3, 4)) ! 6 AND 0xf0 = 0x40"
  using rp_uuid_new_correct [OF prod.collapse [symmetric],
    of "\<lparr>uuid_pid = 0, uuid_counter = 0\<rparr>" 7 42 "(1, 2, 3, 4)"] by blast

end
