(* ===== verification/Sha1.thy ===== *)
theory Sha1
  imports Prelude
begin

text \<open>
  The SHA-1 digest, \<open>src/misc/sha1.c\<close>, on a little endian target, against the definition of
  FIPS 180. Bytes and words have their width; the context is a record whose buffer, a union in
  the code, is the list of its 64 bytes.
\<close>

unbundle bit_operations_syntax

type_synonym byte = "8 word"
type_synonym w32 = "32 word"

subsection \<open>The code\<close>

definition rol :: "w32 \<Rightarrow> nat \<Rightarrow> w32" where
  "rol v bits = push_bit bits v OR drop_bit (32 - bits) v"

text \<open>\<open>blk0\<close> and \<open>blk\<close> give the word of the round and update the block in place.\<close>

definition blk0 :: "nat \<Rightarrow> w32 list \<Rightarrow> w32 \<times> w32 list" where
  "blk0 i block = (
     let v = (rol (block ! i) 24 AND 0xFF00FF00) OR (rol (block ! i) 8 AND 0x00FF00FF)
     in (v, block[i := v]))"

definition blk :: "nat \<Rightarrow> w32 list \<Rightarrow> w32 \<times> w32 list" where
  "blk i block = (
     let v = rol (block ! ((i + 13) mod 16) XOR block ! ((i + 8) mod 16)
                  XOR block ! ((i + 2) mod 16) XOR block ! (i mod 16)) 1
     in (v, block[i mod 16 := v]))"

type_synonym regs = "w32 \<times> w32 \<times> w32 \<times> w32 \<times> w32"

text \<open>
  The macros \<open>R0\<close> to \<open>R4\<close> on \<open>(v, w, x, y, z)\<close>. The calls of \<open>transform\<close> rotate the
  names of the registers from one round to the next: the result has the registers in the order
  in which the next call names them.
\<close>

definition R_step :: "w32 \<Rightarrow> w32 \<Rightarrow> (w32 \<times> w32 list) \<Rightarrow> regs \<Rightarrow> regs \<times> w32 list" where
  "R_step f k b r = (case r of (v, w, x, y, z) \<Rightarrow>
     ((z + (f + fst b + k + rol v 5), v, rol w 30, x, y), snd b))"

definition R0 :: "nat \<Rightarrow> regs \<times> w32 list \<Rightarrow> regs \<times> w32 list" where
  "R0 i s = (case s of ((v, w, x, y, z), block) \<Rightarrow>
     R_step ((w AND (x XOR y)) XOR y) 0x5A827999 (blk0 i block) (v, w, x, y, z))"

definition R1 :: "nat \<Rightarrow> regs \<times> w32 list \<Rightarrow> regs \<times> w32 list" where
  "R1 i s = (case s of ((v, w, x, y, z), block) \<Rightarrow>
     R_step ((w AND (x XOR y)) XOR y) 0x5A827999 (blk i block) (v, w, x, y, z))"

definition R2 :: "nat \<Rightarrow> regs \<times> w32 list \<Rightarrow> regs \<times> w32 list" where
  "R2 i s = (case s of ((v, w, x, y, z), block) \<Rightarrow>
     R_step (w XOR x XOR y) 0x6ED9EBA1 (blk i block) (v, w, x, y, z))"

definition R3 :: "nat \<Rightarrow> regs \<times> w32 list \<Rightarrow> regs \<times> w32 list" where
  "R3 i s = (case s of ((v, w, x, y, z), block) \<Rightarrow>
     R_step (((w OR x) AND y) OR (w AND x)) 0x8F1BBCDC (blk i block) (v, w, x, y, z))"

definition R4 :: "nat \<Rightarrow> regs \<times> w32 list \<Rightarrow> regs \<times> w32 list" where
  "R4 i s = (case s of ((v, w, x, y, z), block) \<Rightarrow>
     R_step (w XOR x XOR y) 0xCA62C1D6 (blk i block) (v, w, x, y, z))"

text \<open>The 80 calls of \<open>transform\<close>, in order; after them the names are back in place.\<close>

definition sha1_calls :: "(regs \<times> w32 list \<Rightarrow> regs \<times> w32 list) list" where
  "sha1_calls = map R0 [0..<16] @ map R1 [16..<20] @ map R2 [20..<40] @ map R3 [40..<60] @ map R4 [60..<80]"

definition sha1_transform :: "regs \<Rightarrow> w32 list \<Rightarrow> regs \<times> w32 list" where
  "sha1_transform state block = (
     let ((a, b, c, d, e), block) = foldl (\<lambda>s r. r s) (state, block) sha1_calls in
     case state of (s0, s1, s2, s3, s4) \<Rightarrow> ((s0 + a, s1 + b, s2 + c, s3 + d, s4 + e), block))"

text \<open>The union: the bytes of the buffer as words of a little endian machine, and back.\<close>

definition word_le :: "byte \<Rightarrow> byte \<Rightarrow> byte \<Rightarrow> byte \<Rightarrow> w32" where
  "word_le b0 b1 b2 b3 = ucast b0 OR push_bit 8 (ucast b1) OR push_bit 16 (ucast b2) OR push_bit 24 (ucast b3)"

fun words_le :: "byte list \<Rightarrow> w32 list" where
  "words_le (b0 # b1 # b2 # b3 # bs) = word_le b0 b1 b2 b3 # words_le bs"
| "words_le bs = []"

definition bytes_le :: "w32 list \<Rightarrow> byte list" where
  "bytes_le ws = concat (map (\<lambda>w. map (\<lambda>k. ucast (drop_bit (8 * k) w)) [0..<4]) ws)"

record sha1_ctx =
  ctx_state :: regs
  ctx_length :: "64 word"
  ctx_buffer :: "byte list"

definition SHA1_init :: "sha1_ctx \<Rightarrow> sha1_ctx" where
  "SHA1_init ctx = ctx\<lparr>ctx_state := (0x67452301, 0xEFCDAB89, 0x98BADCFE, 0x10325476, 0xC3D2E1F0), ctx_length := 0\<rparr>"

definition ctx_transform :: "sha1_ctx \<Rightarrow> sha1_ctx" where
  "ctx_transform ctx = (
     let (state, block) = sha1_transform (ctx_state ctx) (words_le (ctx_buffer ctx))
     in ctx\<lparr>ctx_state := state, ctx_buffer := bytes_le block\<rparr>)"

text \<open>\<open>memcpy\<close> of \<open>n\<close> bytes of \<open>data\<close> from the offset \<open>i\<close> to the offset \<open>j\<close> of the buffer.\<close>

definition copy_in :: "sha1_ctx \<Rightarrow> nat \<Rightarrow> byte list \<Rightarrow> nat \<Rightarrow> nat \<Rightarrow> sha1_ctx option" where
  "copy_in ctx j data i n =
     (if j + n \<le> 64 \<and> i + n \<le> length data
      then Some (ctx\<lparr>ctx_buffer := overwrite (ctx_buffer ctx) j (take n (drop i data))\<rparr>) else None)"

text \<open>The loop over the full blocks of the data: the context and \<open>i\<close> after it.\<close>

function update_blocks :: "sha1_ctx \<Rightarrow> byte list \<Rightarrow> nat \<Rightarrow> nat \<Rightarrow> (sha1_ctx \<times> nat) option" where
  "update_blocks ctx data len i =
     (if i + 64 \<le> len then do {
        ctx \<leftarrow> copy_in ctx 0 data i 64;
        update_blocks (ctx_transform ctx) data len (i + 64)
      }
      else Some (ctx, i))"
  by pat_completeness auto
termination by (relation "measure (\<lambda>(ctx, data, len, i). len - i)") auto

declare update_blocks.simps [simp del]

definition SHA1_update :: "sha1_ctx \<Rightarrow> byte list \<Rightarrow> nat \<Rightarrow> sha1_ctx option" where
  "SHA1_update ctx data len =
     (if len \<noteq> 0 then
        let j = unat (ctx_length ctx AND 63);
            ctx = ctx\<lparr>ctx_length := ctx_length ctx + word_of_nat len\<rparr> in
        if j + len < 64 then copy_in ctx j data 0 len
        else do {
          let i = 64 - j;
          ctx \<leftarrow> copy_in ctx j data 0 i;
          (ctx, i) \<leftarrow> update_blocks (ctx_transform ctx) data len i;
          if len - i \<noteq> 0 then copy_in ctx 0 data i (len - i) else Some ctx
        }
      else Some ctx)"

text \<open>The padding: the loop of zeros, with \<open>i\<close> after it, then the bytes of the length.\<close>

function pad_zeros :: "byte list \<Rightarrow> 64 word \<Rightarrow> nat \<Rightarrow> (byte list \<times> nat) option" where
  "pad_zeros buffer len i =
     (if (len + word_of_nat i) AND 63 \<noteq> 56 then
        (if i < length buffer then pad_zeros (buffer[i := 0]) len (i + 1) else None)
      else Some (buffer, i))"
  by pat_completeness auto
termination by (relation "measure (\<lambda>(buffer, len, i). length buffer - i)") auto

declare pad_zeros.simps [simp del]

fun put_bytes :: "byte list \<Rightarrow> nat \<Rightarrow> byte list \<Rightarrow> byte list option" where
  "put_bytes buffer i [] = Some buffer"
| "put_bytes buffer i (b # bs) = do { buffer \<leftarrow> store buffer i b; put_bytes buffer (i + 1) bs }"

definition length_bytes :: "64 word \<Rightarrow> byte list" where
  "length_bytes len = map (\<lambda>k. ucast (drop_bit k len AND 255)) [56, 48, 40, 32, 24, 16, 8, 0]"

definition SHA1_PAD_SIZE :: nat where "SHA1_PAD_SIZE = 64 + 7"

definition regs_nth :: "regs \<Rightarrow> nat \<Rightarrow> w32" where
  "regs_nth r k = (case r of (a, b, c, d, e) \<Rightarrow> [a, b, c, d, e] ! k)"

definition digest_byte :: "regs \<Rightarrow> nat \<Rightarrow> byte" where
  "digest_byte state i = ucast (drop_bit ((3 - i mod 4) * 8) (regs_nth state (i div 4)) AND 255)"

text \<open>\<open>buffer\<close> is what the local array holds at the entry.\<close>

definition SHA1_final :: "sha1_ctx \<Rightarrow> byte list \<Rightarrow> (byte list \<times> sha1_ctx) option" where
  "SHA1_final ctx buffer = do {
     let len = ctx_length ctx;
     buffer \<leftarrow> store buffer 0 128;
     (buffer, i) \<leftarrow> pad_zeros buffer len 1;
     let len = push_bit 3 len;
     buffer \<leftarrow> put_bytes buffer i (length_bytes len);
     let i = i + 8;
     ctx \<leftarrow> SHA1_update ctx buffer i;
     Some (map (digest_byte (ctx_state ctx)) [0..<20], ctx)
   }"

subsection \<open>The definition of FIPS 180\<close>

definition sha_f :: "nat \<Rightarrow> w32 \<Rightarrow> w32 \<Rightarrow> w32 \<Rightarrow> w32" where
  "sha_f t x y z =
     (if t < 20 then (x AND y) XOR (NOT x AND z)
      else if t < 40 then x XOR y XOR z
      else if t < 60 then (x AND y) XOR (x AND z) XOR (y AND z)
      else x XOR y XOR z)"

definition sha_K :: "nat \<Rightarrow> w32" where
  "sha_K t = (if t < 20 then 0x5A827999 else if t < 40 then 0x6ED9EBA1 else if t < 60 then 0x8F1BBCDC else 0xCA62C1D6)"

fun sha_W :: "w32 list \<Rightarrow> nat \<Rightarrow> w32" where
  "sha_W M t =
     (if t < 16 then M ! t
      else word_rotl 1 (sha_W M (t - 3) XOR sha_W M (t - 8) XOR sha_W M (t - 14) XOR sha_W M (t - 16)))"

declare sha_W.simps [simp del]

definition sha_round :: "w32 list \<Rightarrow> regs \<Rightarrow> nat \<Rightarrow> regs" where
  "sha_round M r t = (case r of (a, b, c, d, e) \<Rightarrow>
     (word_rotl 5 a + sha_f t b c d + e + sha_K t + sha_W M t, a, word_rotl 30 b, c, d))"

definition regs_add :: "regs \<Rightarrow> regs \<Rightarrow> regs" where
  "regs_add r s = (case r of (a, b, c, d, e) \<Rightarrow> case s of (a', b', c', d', e') \<Rightarrow>
     (a + a', b + b', c + c', d + d', e + e'))"

definition word_be :: "byte \<Rightarrow> byte \<Rightarrow> byte \<Rightarrow> byte \<Rightarrow> w32" where
  "word_be b0 b1 b2 b3 = word_le b3 b2 b1 b0"

fun words_be :: "byte list \<Rightarrow> w32 list" where
  "words_be (b0 # b1 # b2 # b3 # bs) = word_be b0 b1 b2 b3 # words_be bs"
| "words_be bs = []"

definition sha_block :: "regs \<Rightarrow> byte list \<Rightarrow> regs" where
  "sha_block H bs = regs_add H (foldl (sha_round (words_be bs)) H [0..<80])"

fun sha_blocks :: "regs \<Rightarrow> byte list \<Rightarrow> regs" where
  "sha_blocks H bs = (if length bs < 64 then H else sha_blocks (sha_block H (take 64 bs)) (drop 64 bs))"

declare sha_blocks.simps [simp del]

definition sha_pad :: "byte list \<Rightarrow> byte list" where
  "sha_pad msg = (let r = length msg mod 64 in
     msg @ [128] @ replicate (if r < 56 then 55 - r else 119 - r) 0 @ length_bytes (word_of_nat (8 * length msg)))"

definition sha1 :: "byte list \<Rightarrow> byte list" where
  "sha1 msg = map (digest_byte (sha_blocks
     (0x67452301, 0xEFCDAB89, 0x98BADCFE, 0x10325476, 0xC3D2E1F0) (sha_pad msg))) [0..<20]"

subsection \<open>The rounds\<close>

lemma rol_rotl:
  assumes "0 < n" and "n < 32"
  shows "rol v n = word_rotl n v"
proof (rule bit_word_eqI)
  fix i
  assume i: "i < LENGTH(32)"
  have r: "bit (rol v n) i \<longleftrightarrow> n \<le> i \<and> bit v (i - n) \<or> bit v (i + (32 - n))"
    using i by (simp add: rol_def bit_or_iff bit_push_bit_iff bit_drop_bit_eq possible_bit_word add.commute)
  have rl: "bit (word_rotl n v) i = bit v ((i + (32 - n)) mod 32)"
    using assms i by (simp only: bit_word_rotl_iff) simp
  show "bit (rol v n) i = bit (word_rotl n v) i"
  proof (cases "i < n")
    case True
    then have "(i + (32 - n)) mod 32 = i + (32 - n)" using assms by (intro mod_less) linarith
    then show ?thesis unfolding r rl using True by simp
  next
    case False
    then have "i + (32 - n) = 32 + (i - n)" using assms by simp
    then have m: "(i + (32 - n)) mod 32 = i - n" using i by (simp only: mod_add_self1) simp
    have "\<not> bit v (i + (32 - n))" using False assms by (auto dest: bit_imp_le_length)
    then show ?thesis unfolding r rl m using False by simp
  qed
qed

lemma byte_masks:
  "(0xFF00FF00 :: w32) = push_bit 8 (mask 8) OR push_bit 24 (mask 8)"
  "(0x00FF00FF :: w32) = mask 8 OR push_bit 16 (mask 8)"
  by (simp_all add: mask_eq_exp_minus_1)

definition swap32 :: "w32 \<Rightarrow> w32" where
  "swap32 w = (rol w 24 AND 0xFF00FF00) OR (rol w 8 AND 0x00FF00FF)"

lemma bit_byte: "bit (x :: byte) n \<Longrightarrow> n < 8"
  using bit_imp_le_length by fastforce

lemma bit_word_le:
  "bit (word_le b0 b1 b2 b3) n = (if n < 8 then bit b0 n else if n < 16 then bit b1 (n - 8)
     else if n < 24 then bit b2 (n - 16) else if n < 32 then bit b3 (n - 24) else False)"
  by (auto simp: word_le_def bit_simps dest: bit_byte)

lemma swap32_word_le: "swap32 (word_le b0 b1 b2 b3) = word_be b0 b1 b2 b3"
proof (rule bit_word_eqI)
  fix n
  assume n: "n < LENGTH(32)"
  let ?w = "word_le b0 b1 b2 b3"
  have r: "bit (rol ?w k) n = bit ?w (if n < k then n + (32 - k) else n - k)" if "0 < k" "k < 32" for k
    using that n by (auto simp: rol_def bit_simps add.commute dest: bit_imp_le_length)
  have m: "bit (0xFF00FF00 :: w32) n \<longleftrightarrow> 8 \<le> n \<and> n < 16 \<or> 24 \<le> n" "bit (0x00FF00FF :: w32) n \<longleftrightarrow> n < 8 \<or> 16 \<le> n \<and> n < 24"
    unfolding byte_masks using n by (auto simp: bit_simps)
  show "bit (swap32 ?w) n = bit (word_be b0 b1 b2 b3) n"
    unfolding swap32_def bit_or_iff bit_and_iff m using n
    by (auto simp: r bit_word_le word_be_def)
qed

lemma words_be_swap: "words_be bs = map swap32 (words_le bs)"
  by (induction bs rule: words_le.induct) (simp_all add: swap32_word_le)

lemma length_words_le: "length (words_le bs) = length bs div 4"
  by (induction bs rule: words_le.induct) simp_all

lemma length_bytes_le [simp]: "length (bytes_le ws) = 4 * length ws"
  by (induction ws) (simp_all add: bytes_le_def)

text \<open>The code's round \<open>i\<close>.\<close>

definition R_call :: "nat \<Rightarrow> regs \<times> w32 list \<Rightarrow> regs \<times> w32 list" where
  "R_call i = (if i < 16 then R0 i else if i < 20 then R1 i else if i < 40 then R2 i
     else if i < 60 then R3 i else R4 i)"

lemma sha1_calls_eq: "sha1_calls = map R_call [0..<80]"
proof -
  have a: "[i..<k] = [i..<j] @ [j..<k]" if "i \<le> j" "j \<le> k" for i j k :: nat
    using upt_add_eq_append [OF that(1), of "k - j"] that(2) by simp
  have u: "[0..<80] = [0..<16] @ [16..<20] @ [20..<40] @ [40..<60] @ [60..<80]"
    using a [of 0 16 80] a [of 16 20 80] a [of 20 40 80] a [of 40 60 80] by simp
  have "map R_call [0..<16] = map R0 [0..<16]" "map R_call [16..<20] = map R1 [16..<20]"
    "map R_call [20..<40] = map R2 [20..<40]" "map R_call [40..<60] = map R3 [40..<60]"
    "map R_call [60..<80] = map R4 [60..<80]"
    by (auto simp: R_call_def)
  then show ?thesis unfolding u map_append sha1_calls_def by simp
qed

text \<open>
  Before the round \<open>i\<close> the block holds the last words of the schedule, and the words of the
  message that are not used yet.
\<close>

definition schedule :: "w32 list \<Rightarrow> nat \<Rightarrow> w32 list \<Rightarrow> bool" where
  "schedule M i block \<longleftrightarrow> length block = 16 \<and>
     (\<forall>t < i. i \<le> t + 16 \<longrightarrow> block ! (t mod 16) = sha_W M t) \<and>
     (\<forall>j < 16. i \<le> j \<longrightarrow> swap32 (block ! j) = M ! j)"

lemma mod16_neq: "t < i \<Longrightarrow> i < t + 16 \<Longrightarrow> t mod 16 \<noteq> i mod (16 :: nat)"
proof
  assume a: "t < i" "i < t + 16" "t mod 16 = i mod 16"
  then have "16 dvd i - t" by (metis less_imp_le mod_eq_dvd_iff_nat)
  then show False using a dvd_imp_le [of 16 "i - t"] by simp
qed

lemma blk0_schedule:
  assumes "schedule M i block" and "i < 16"
  shows "fst (blk0 i block) = sha_W M i" and "schedule M (Suc i) (snd (blk0 i block))"
proof -
  have b: "blk0 i block = (M ! i, block[i := M ! i])"
    using assms by (simp add: blk0_def Let_def schedule_def swap32_def [symmetric])
  show "fst (blk0 i block) = sha_W M i" using assms(2) by (simp add: b sha_W.simps)
  then have w: "M ! i = sha_W M i" by (simp add: b)
  show "schedule M (Suc i) (snd (blk0 i block))"
    unfolding schedule_def b snd_conv
  proof (intro conjI allI impI)
    show "length (block[i := M ! i]) = 16" using assms by (simp add: schedule_def)
    fix t
    assume t: "t < Suc i"
    then have "t mod 16 = t" using assms(2) by simp
    then show "block[i := M ! i] ! (t mod 16) = sha_W M t"
      using t assms w by (cases "t = i") (auto simp: schedule_def)
  next
    fix j
    assume "j < (16 :: nat)" "Suc i \<le> j"
    then show "swap32 (block[i := M ! i] ! j) = M ! j" using assms by (simp add: schedule_def)
  qed
qed

lemma blk_schedule:
  assumes s: "schedule M i block" and i: "16 \<le> i"
  shows "fst (blk i block) = sha_W M i" and "schedule M (Suc i) (snd (blk i block))"
proof -
  have w: "block ! (t mod 16) = sha_W M t" if "t < i" "i \<le> t + 16" for t
    using s that by (simp add: schedule_def)
  have m: "(i + 13) mod 16 = (i - 3) mod 16" "(i + 8) mod 16 = (i - 8) mod 16" "(i + 2) mod 16 = (i - 14) mod 16"
    "i mod 16 = (i - 16) mod 16"
  proof -
    have "i + 13 = (i - 3) + 16" "i + 8 = (i - 8) + 16" "i + 2 = (i - 14) + 16" "i = (i - 16) + 16" using i by simp_all
    then show "(i + 13) mod 16 = (i - 3) mod 16" "(i + 8) mod 16 = (i - 8) mod 16" "(i + 2) mod 16 = (i - 14) mod 16"
      "i mod 16 = (i - 16) mod 16" by (metis mod_add_self2)+
  qed
  have v: "rol (block ! ((i + 13) mod 16) XOR block ! ((i + 8) mod 16)
                  XOR block ! ((i + 2) mod 16) XOR block ! (i mod 16)) 1 = sha_W M i"
    unfolding m(1-3) unfolding m(4)
    using i w [of "i - 3"] w [of "i - 8"] w [of "i - 14"] w [of "i - 16"]
    by (subst sha_W.simps) (simp add: rol_rotl)
  have b: "blk i block = (sha_W M i, block[i mod 16 := sha_W M i])" unfolding blk_def v Let_def ..
  show "fst (blk i block) = sha_W M i" by (simp add: b)
  show "schedule M (Suc i) (snd (blk i block))"
    unfolding schedule_def b snd_conv
  proof (intro conjI allI impI)
    show "length (block[i mod 16 := sha_W M i]) = 16" using s by (simp add: schedule_def)
    fix t
    assume t: "t < Suc i" "Suc i \<le> t + 16"
    show "block[i mod 16 := sha_W M i] ! (t mod 16) = sha_W M t"
    proof (cases "t = i")
      case True
      then show ?thesis using s by (simp add: schedule_def)
    next
      case False
      then have "t mod 16 \<noteq> i mod 16" using t by (intro mod16_neq) auto
      then show ?thesis using w [of t] t False by simp
    qed
  qed (use i in auto)
qed

lemma ch_eq: "((w AND (x XOR y)) XOR y) = (w AND x) XOR (NOT w AND (y :: w32))"
  by (rule bit_word_eqI) (auto simp: bit_simps)

lemma maj_eq: "((w OR x) AND y) OR (w AND x) = (w AND x) XOR (w AND y) XOR (x AND (y :: w32))"
  by (rule bit_word_eqI) (auto simp: bit_simps)

lemma R_call_eq:
  assumes "schedule M i block" and "i < 80"
  shows "fst (R_call i (r, block)) = sha_round M r i" and "schedule M (Suc i) (snd (R_call i (r, block)))"
proof -
  obtain v w x y z where r: "r = (v, w, x, y, z)" by (cases r)
  have "fst (R_call i (r, block)) = sha_round M r i \<and> schedule M (Suc i) (snd (R_call i (r, block)))"
  proof (cases "i < 16")
    case True
    then show ?thesis using blk0_schedule [OF assms(1) True]
      by (simp add: R_call_def R0_def R_step_def r sha_round_def sha_f_def sha_K_def ch_eq rol_rotl add_ac)
  next
    case False
    then have "16 \<le> i" by simp
    from blk_schedule [OF assms(1) this] False assms(2) show ?thesis
      by (auto simp: R_call_def R1_def R2_def R3_def R4_def R_step_def r sha_round_def sha_f_def sha_K_def
          ch_eq maj_eq rol_rotl add_ac)
  qed
  then show "fst (R_call i (r, block)) = sha_round M r i" "schedule M (Suc i) (snd (R_call i (r, block)))" by auto
qed

lemma rounds_eq:
  assumes "schedule M 0 block"
  shows "n \<le> 80 \<Longrightarrow> \<exists>block'. foldl (\<lambda>s i. R_call i s) (r, block) [0..<n] = (foldl (sha_round M) r [0..<n], block') \<and>
    schedule M n block'"
proof (induction n)
  case (Suc n)
  then obtain block' where b: "foldl (\<lambda>s i. R_call i s) (r, block) [0..<n] = (foldl (sha_round M) r [0..<n], block')"
    "schedule M n block'" by auto
  show ?case using R_call_eq [OF b(2), of "foldl (sha_round M) r [0..<n]"] Suc.prems b(1)
    by (cases "R_call n (foldl (sha_round M) r [0..<n], block')") auto
qed (use assms in simp)

lemma transform_eq:
  assumes "length bs = 64"
  shows "\<exists>block. sha1_transform H (words_le bs) = (sha_block H bs, block) \<and> length block = 16"
proof -
  have l: "length (words_le bs) = 16" using assms by (simp add: length_words_le)
  have "schedule (words_be bs) 0 (words_le bs)" using l by (simp add: schedule_def words_be_swap)
  from rounds_eq [OF this, of 80 H] obtain block where
    b: "foldl (\<lambda>s i. R_call i s) (H, words_le bs) [0..<80] = (foldl (sha_round (words_be bs)) H [0..<80], block)"
      "schedule (words_be bs) 80 block" by auto
  have "foldl (\<lambda>s r. r s) (H, words_le bs) sha1_calls = (foldl (sha_round (words_be bs)) H [0..<80], block)"
    unfolding sha1_calls_eq foldl_map by (rule b(1))
  then show ?thesis using b(2)
    by (auto simp: sha1_transform_def sha_block_def regs_add_def schedule_def Let_def split: prod.splits)
qed

subsection \<open>Feeding the data\<close>

abbreviation H0 :: regs where
  "H0 \<equiv> (0x67452301, 0xEFCDAB89, 0x98BADCFE, 0x10325476, 0xC3D2E1F0)"

lemma sha_blocks_short: "length bs < 64 \<Longrightarrow> sha_blocks H bs = H"
  by (simp add: sha_blocks.simps)

lemma sha_blocks_block: "length b = 64 \<Longrightarrow> sha_blocks H (b @ bs) = sha_blocks (sha_block H b) bs"
  by (subst sha_blocks.simps) simp

lemma sha_blocks_append: "64 dvd length a \<Longrightarrow> sha_blocks H (a @ b) = sha_blocks (sha_blocks H a) b"
proof (induction H a rule: sha_blocks.induct)
  case (1 H a)
  show ?case
  proof (cases "length a < 64")
    case True
    then have "a = []" using 1(2) by (cases a) (auto dest: dvd_imp_le)
    then show ?thesis by (simp add: sha_blocks_short)
  next
    case False
    have "64 dvd length (drop 64 a)" using 1(2) by (simp add: dvd_diff_nat)
    moreover have "length (take 64 a) = 64" using False by simp
    moreover have "a = take 64 a @ drop 64 a" by simp
    ultimately show ?thesis using 1(1) [OF False]
      by (metis append.assoc sha_blocks_block)
  qed
qed

text \<open>The bytes of a message that are not in a full block.\<close>

definition sha_tail :: "byte list \<Rightarrow> byte list" where
  "sha_tail m = drop (64 * (length m div 64)) m"

lemma length_sha_tail [simp]: "length (sha_tail m) = length m mod 64"
  by (simp add: sha_tail_def minus_mult_div_eq_mod)

lemma sha_blocks_tail:
  "sha_blocks H (m @ d) = sha_blocks (sha_blocks H m) (sha_tail m @ d)"
proof -
  let ?f = "take (64 * (length m div 64)) m"
  have m: "m = ?f @ sha_tail m" by (simp add: sha_tail_def)
  have "length ?f = 64 * (length m div 64)" by (simp add: min.absorb2)
  then have dv: "64 dvd length ?f" by simp
  have "sha_blocks H m = sha_blocks (sha_blocks H ?f) (sha_tail m)"
    by (subst m) (rule sha_blocks_append [OF dv])
  then have f: "sha_blocks H m = sha_blocks H ?f" by (simp add: sha_blocks_short)
  show ?thesis unfolding f by (subst (1) m) (simp only: append.assoc sha_blocks_append [OF dv])
qed

lemma sha_tail_append_short:
  "length m mod 64 + length d < 64 \<Longrightarrow> sha_tail (m @ d) = sha_tail m @ d"
proof -
  assume a: "length m mod 64 + length d < 64"
  have "length (m @ d) = 64 * (length m div 64) + (length m mod 64 + length d)" by simp
  then have "length (m @ d) div 64 = length m div 64" using a by (metis div_mult_self2 div_less add_0 zero_neq_numeral add.commute mult.commute)
  then show ?thesis by (simp add: sha_tail_def)
qed

lemma sha_tail_eq:
  assumes "64 dvd length a" and "length t < 64"
  shows "sha_tail (a @ t) = t"
proof -
  obtain k where k: "length a = 64 * k" using assms(1) by blast
  then have "length (a @ t) div 64 = k" using assms(2) by simp
  then show ?thesis by (simp add: sha_tail_def k)
qed

text \<open>What a context has been fed with.\<close>

definition holds_msg :: "sha1_ctx \<Rightarrow> byte list \<Rightarrow> bool" where
  "holds_msg ctx m \<longleftrightarrow> ctx_state ctx = sha_blocks H0 m \<and> ctx_length ctx = word_of_nat (length m) \<and>
     length (ctx_buffer ctx) = 64 \<and> take (length m mod 64) (ctx_buffer ctx) = sha_tail m"

lemma ctx_transform_simps:
  assumes "length (ctx_buffer ctx) = 64"
  shows "ctx_state (ctx_transform ctx) = sha_block (ctx_state ctx) (ctx_buffer ctx)"
    "ctx_length (ctx_transform ctx) = ctx_length ctx" "length (ctx_buffer (ctx_transform ctx)) = 64"
  using transform_eq [OF assms, of "ctx_state ctx"] by (auto simp: ctx_transform_def)

lemma update_blocks_eq:
  "i \<le> len \<Longrightarrow> len \<le> length data \<Longrightarrow> length (ctx_buffer ctx) = 64 \<Longrightarrow>
    \<exists>ctx'. update_blocks ctx data len i = Some (ctx', i + 64 * ((len - i) div 64)) \<and>
      ctx_state ctx' = sha_blocks (ctx_state ctx) (take (len - i) (drop i data)) \<and>
      ctx_length ctx' = ctx_length ctx \<and> length (ctx_buffer ctx') = 64"
proof (induction ctx data len i rule: update_blocks.induct)
  case (1 ctx data len i)
  show ?case
  proof (cases "i + 64 \<le> len")
    case False
    then have "(len - i) div 64 = 0" by simp
    then show ?thesis using False 1 by (subst update_blocks.simps) (simp add: sha_blocks_short)
  next
    case True
    let ?b = "take 64 (drop i data)"
    let ?ctx = "ctx\<lparr>ctx_buffer := ?b\<rparr>"
    have lb: "length ?b = 64" using True 1(3) by simp
    have c: "copy_in ctx 0 data i 64 = Some ?ctx"
      using True 1(3,4) lb by (simp add: copy_in_def overwrite_def)
    obtain ctx' where ctx': "update_blocks (ctx_transform ?ctx) data len (i + 64) =
        Some (ctx', i + 64 + 64 * ((len - (i + 64)) div 64))"
      "ctx_state ctx' = sha_blocks (ctx_state (ctx_transform ?ctx)) (take (len - (i + 64)) (drop (i + 64) data))"
      "ctx_length ctx' = ctx_length ctx" "length (ctx_buffer ctx') = 64"
      using 1(1) [OF True c] True 1(3) ctx_transform_simps [of ?ctx] lb by auto
    have "(len - i) div 64 = Suc ((len - (i + 64)) div 64)" using True by (subst le_div_geq) simp_all
    moreover have "take (len - i) (drop i data) = ?b @ take (len - (i + 64)) (drop (i + 64) data)"
      using True take_add [of 64 "len - (i + 64)" "drop i data"] by (simp add: add.commute)
    ultimately show ?thesis
      using True c ctx' lb by (subst update_blocks.simps) (simp add: sha_blocks_block ctx_transform_simps add.assoc)
  qed
qed

lemma length_and_63: "unat (word_of_nat n AND 63 :: 64 word) = n mod 64"
proof -
  have "(63 :: 64 word) = mask 6" by (simp add: mask_eq_exp_minus_1)
  then have "(word_of_nat n AND 63 :: 64 word) = take_bit 6 (word_of_nat n)" by (simp only: take_bit_eq_mask)
  then show ?thesis
    by (simp add: unsigned_take_bit_eq unat_of_nat take_bit_take_bit) (simp add: take_bit_eq_mod mod_mod_cancel)
qed

lemma SHA1_update_long:
  assumes "unat (ctx_length ctx AND 63) = j" and "len \<noteq> 0" and "\<not> j + len < 64"
    and "copy_in (ctx\<lparr>ctx_length := ctx_length ctx + word_of_nat len\<rparr>) j data 0 (64 - j) = Some c1"
    and "update_blocks (ctx_transform c1) data len (64 - j) = Some (c3, e)"
  shows "SHA1_update ctx data len = (if len - e \<noteq> 0 then copy_in c3 0 data e (len - e) else Some c3)"
  unfolding SHA1_update_def Let_def assms(1) using assms(2,3)
  by (simp only: assms(4,5) if_True if_False bind.bind_lunit prod.case not_False_eq_True)

lemma copy_rest_holds:
  assumes t: "sha_tail M = take (len - e) (drop e data)" and mo: "length M mod 64 = len - e"
    and e: "len - e < 64" "e \<le> len" and l: "len \<le> length data"
    and st: "ctx_state c = sha_blocks H0 M" and cl: "ctx_length c = word_of_nat (length M)"
    and b: "length (ctx_buffer c) = 64"
  obtains c' where "(if len - e \<noteq> 0 then copy_in c 0 data e (len - e) else Some c) = Some c'" "holds_msg c' M"
proof (cases "len - e = 0")
  case True
  then have "holds_msg c M" unfolding holds_msg_def mo t using st cl b by simp
  then show thesis using that True by simp
next
  case False
  let ?rem = "take (len - e) (drop e data)"
  let ?c' = "c\<lparr>ctx_buffer := overwrite (ctx_buffer c) 0 ?rem\<rparr>"
  have "copy_in c 0 data e (len - e) = Some ?c'" using e l by (simp add: copy_in_def)
  moreover have "take (len - e) (overwrite (ctx_buffer c) 0 ?rem) = ?rem" "length (overwrite (ctx_buffer c) 0 ?rem) = 64"
    using e l b by (simp_all add: overwrite_def)
  then have "holds_msg ?c' M" unfolding holds_msg_def mo t using st cl by simp
  ultimately show thesis using that False by simp
qed

lemma SHA1_update_holds:
  assumes h: "holds_msg ctx m" and l: "len \<le> length data"
  obtains ctx' where "SHA1_update ctx data len = Some ctx'" "holds_msg ctx' (m @ take len data)"
proof -
  let ?d = "take len data" and ?j = "length m mod 64"
  have j: "unat (ctx_length ctx AND 63) = ?j" using h length_and_63 by (simp add: holds_msg_def)
  have b: "length (ctx_buffer ctx) = 64" "take ?j (ctx_buffer ctx) = sha_tail m" "ctx_state ctx = sha_blocks H0 m"
    using h by (simp_all add: holds_msg_def)
  have cl: "ctx_length ctx + word_of_nat len = word_of_nat (length (m @ ?d))"
    using h l by (simp add: holds_msg_def)
  let ?c = "ctx\<lparr>ctx_length := ctx_length ctx + word_of_nat len\<rparr>"
  show thesis
  proof (cases "len = 0")
    case True
    then show thesis using that [of ctx] h by (simp add: SHA1_update_def)
  next
    case nz: False
    show thesis
    proof (cases "?j + len < 64")
      case True
      let ?c' = "?c\<lparr>ctx_buffer := overwrite (ctx_buffer ctx) ?j ?d\<rparr>"
      have "SHA1_update ctx data len = Some ?c'"
        using nz True l j by (simp add: SHA1_update_def copy_in_def Let_def)
      moreover have "holds_msg ?c' (m @ ?d)"
      proof -
        have t: "sha_tail (m @ ?d) = sha_tail m @ ?d" using True l by (intro sha_tail_append_short) simp
        have m: "length (m @ ?d) mod 64 = ?j + len"
          using length_sha_tail [of "m @ ?d"] l unfolding t by simp
        have tk: "take (?j + len) (overwrite (ctx_buffer ctx) ?j ?d) = sha_tail m @ ?d"
          using b True l by (simp add: overwrite_def)
        have "length (sha_tail m @ ?d) < 64" using True l by simp
        then have bl: "sha_blocks H0 (m @ ?d) = sha_blocks H0 m"
          by (simp only: sha_blocks_tail [of _ m ?d] sha_blocks_short)
        have lb: "length (overwrite (ctx_buffer ctx) ?j ?d) = 64" using b(1) True l by simp
        show ?thesis
          unfolding holds_msg_def m t using b(3) cl bl tk lb
          by (cases ctx) (simp only: sha1_ctx.simps simp_thms)
      qed
      ultimately show thesis by (rule that)
    next
      case False
      let ?i = "64 - ?j"
      have jl: "?j < 64" "?i \<le> len" using False by simp_all
      let ?full = "sha_tail m @ take ?i data"
      have lf: "length ?full = 64" using jl l by simp
      have ov: "overwrite (ctx_buffer ctx) ?j (take ?i data) = ?full"
        using b jl l by (simp add: overwrite_def)
      let ?c1 = "?c\<lparr>ctx_buffer := ?full\<rparr>"
      have c1: "copy_in ?c ?j data 0 ?i = Some ?c1" using jl l ov by (simp add: copy_in_def)
      let ?c2 = "ctx_transform ?c1"
      have c2: "ctx_state ?c2 = sha_block (sha_blocks H0 m) ?full" "ctx_length ?c2 = ctx_length ?c"
        "length (ctx_buffer ?c2) = 64"
        using ctx_transform_simps [of ?c1] lf b by simp_all
      let ?e = "?i + 64 * ((len - ?i) div 64)"
      obtain c3 where c3: "update_blocks ?c2 data len ?i = Some (c3, ?e)"
        "ctx_state c3 = sha_blocks (ctx_state ?c2) (take (len - ?i) (drop ?i data))"
        "ctx_length c3 = ctx_length ?c" "length (ctx_buffer c3) = 64"
        using update_blocks_eq [OF jl(2) l c2(3)] c2(2) by auto
      have d: "?d = take ?i data @ take (len - ?i) (drop ?i data)"
        using jl(2) take_add [of ?i "len - ?i" data] by simp
      have st: "ctx_state c3 = sha_blocks H0 (m @ ?d)"
        unfolding c3(2) c2(1) sha_blocks_tail [of _ m] d using lf
        by (simp only: append.assoc [symmetric] sha_blocks_block)
      let ?rem = "take (len - ?e) (drop ?e data)"
      have r64: "len - ?e < 64" "?e \<le> len" using jl(2) by (simp_all add: minus_mult_div_eq_mod)
      have dd: "?d = take ?e data @ ?rem" using r64(2) take_add [of ?e "len - ?e" data] by simp
      have lr: "length ?rem < 64" unfolding length_take using r64(1) by (rule min.strict_coboundedI2)
      have dv: "64 dvd length (m @ take ?e data)"
      proof -
        have lm: "length m = 64 * (length m div 64) + ?j" by simp
        have "length (take ?e data) = ?e" using r64(2) l by (simp only: length_take min.absorb2)
        then have "length (m @ take ?e data) = length m + ?e" by (simp only: length_append)
        then have "length (m @ take ?e data) = 64 * (length m div 64) + (?j + ?i) + 64 * ((len - ?i) div 64)"
          using lm by linarith
        also have "?j + ?i = 64" using jl(1) by simp
        finally show ?thesis by (simp add: dvd_add)
      qed
      have t: "sha_tail (m @ ?d) = ?rem"
        unfolding dd append.assoc [symmetric] by (rule sha_tail_eq [OF dv lr])
      have mo: "length (m @ ?d) mod 64 = len - ?e" 
      proof -
        have "length ?rem = len - ?e" unfolding length_take length_drop by (rule min.absorb2) (use l in linarith)
        then show ?thesis using length_sha_tail [of "m @ ?d"] unfolding t by (simp only:)
      qed
      have run: "SHA1_update ctx data len = (if len - ?e \<noteq> 0 then copy_in c3 0 data ?e (len - ?e) else Some c3)"
        by (rule SHA1_update_long [OF j nz False c1 c3(1)])
      have cl3: "ctx_length c3 = word_of_nat (length (m @ ?d))" using c3(3) cl by (cases ctx) (simp only: sha1_ctx.simps)
      show thesis
        by (rule copy_rest_holds [OF t mo r64 l st cl3 c3(4)]) (rule that, simp only: run)
    qed
  qed
qed

subsection \<open>Padding\<close>

text \<open>How many zeros follow the byte 128 in the padding.\<close>

definition pad_count :: "nat \<Rightarrow> nat" where
  "pad_count n = (if n mod 64 < 56 then 55 - n mod 64 else 119 - n mod 64)"

lemma pad_cond: "(word_of_nat n + word_of_nat i) AND 63 = (56 :: 64 word) \<longleftrightarrow> (n + i) mod 64 = 56"
proof -
  have "(word_of_nat n + word_of_nat i) AND 63 = (56 :: 64 word) \<longleftrightarrow>
      unat (word_of_nat (n + i) AND 63 :: 64 word) = unat (56 :: 64 word)"
    by (metis of_nat_add unsigned_word_eqI)
  then show ?thesis unfolding length_and_63 by simp
qed

lemma pad_zeros_eq:
  "(n + i + d) mod 64 = 56 \<Longrightarrow> (\<forall>e < d. (n + i + e) mod 64 \<noteq> 56) \<Longrightarrow> i + d \<le> length buffer \<Longrightarrow>
    pad_zeros buffer (word_of_nat n) i = Some (overwrite buffer i (replicate d 0), i + d)"
proof (induction d arbitrary: i buffer)
  case 0
  then show ?case by (subst pad_zeros.simps) (simp add: pad_cond)
next
  case (Suc d)
  have "(n + i) mod 64 \<noteq> 56" using Suc.prems(2) by (metis add_0_right zero_less_Suc)
  moreover have i: "i < length buffer" using Suc.prems(3) by simp
  ultimately have "pad_zeros buffer (word_of_nat n) i = pad_zeros (buffer[i := 0]) (word_of_nat n) (Suc i)"
    by (subst pad_zeros.simps) (simp add: pad_cond)
  also have "\<dots> = Some (overwrite (buffer[i := 0]) (Suc i) (replicate d 0), Suc i + d)"
  proof (rule Suc.IH)
    show "\<forall>e < d. (n + Suc i + e) mod 64 \<noteq> 56"
    proof (intro allI impI)
      fix e
      assume "e < d"
      then have "(n + i + Suc e) mod 64 \<noteq> 56" using Suc.prems(2) by blast
      then show "(n + Suc i + e) mod 64 \<noteq> 56" by simp
    qed
  qed (use Suc.prems in simp_all)
  also have "overwrite (buffer[i := 0]) (Suc i) (replicate d 0) = overwrite buffer i (replicate (Suc d) 0)"
    using i by (simp add: overwrite_def take_Suc_conv_app_nth)
  finally show ?case by simp
qed

lemma pad_count_stops:
  "(n + 1 + pad_count n) mod 64 = 56" "\<forall>e < pad_count n. (n + 1 + e) mod 64 \<noteq> 56" "1 + pad_count n \<le> 64"
  "1 + pad_count n = 64 \<longleftrightarrow> n mod 64 = 56"
proof -
  have r: "n mod 64 < 64" by simp
  have a: "(n + k) mod 64 = (n mod 64 + k) mod 64" for k by (simp add: mod_add_left_eq)
  show "(n + 1 + pad_count n) mod 64 = 56"
    unfolding add.assoc a [of "1 + pad_count n"] using r
    by (cases "n mod 64 < 56") (simp_all add: pad_count_def)
  show "\<forall>e < pad_count n. (n + 1 + e) mod 64 \<noteq> 56"
  proof (intro allI impI)
    fix e
    assume e: "e < pad_count n"
    show "(n + 1 + e) mod 64 \<noteq> 56"
    proof (cases "n mod 64 + (1 + e) < 64")
      case True
      then show ?thesis unfolding add.assoc a [of "1 + e"] using e by (auto simp: pad_count_def split: if_splits)
    next
      case False
      then have "(n mod 64 + (1 + e)) mod 64 = n mod 64 + (1 + e) - 64" using e r
        by (subst le_mod_geq) (auto simp: pad_count_def split: if_splits)
      then show ?thesis unfolding add.assoc a [of "1 + e"] using e r by (auto simp: pad_count_def split: if_splits)
    qed
  qed
  show "1 + pad_count n \<le> 64" "1 + pad_count n = 64 \<longleftrightarrow> n mod 64 = 56"
    using r by (auto simp: pad_count_def)
qed

lemma put_bytes_eq: "i + length bs \<le> length buffer \<Longrightarrow> put_bytes buffer i bs = Some (overwrite buffer i bs)"
proof (induction bs arbitrary: buffer i)
  case (Cons b bs)
  have "overwrite (overwrite buffer i [b]) (Suc i) bs = overwrite buffer i (b # bs)"
    using overwrite_append [of i "[b]" bs buffer] Cons.prems by simp
  then show ?case using Cons by (simp add: store_overwrite)
qed simp

lemma put_bytes_overflow: "i \<le> length buffer \<Longrightarrow> length buffer < i + length bs \<Longrightarrow> put_bytes buffer i bs = None"
  by (induction bs arbitrary: buffer i) (auto simp: store_def)

lemma length_length_bytes [simp]: "length (length_bytes w) = 8"
  by (simp add: length_bytes_def)

text \<open>The final step on a context fed with a message, for a local array of \<open>SHA1_PAD_SIZE\<close> bytes.\<close>

lemma SHA1_final_holds:
  assumes h: "holds_msg ctx m" and b: "length buffer = SHA1_PAD_SIZE"
  shows "map_option fst (SHA1_final ctx buffer) = (if length m mod 64 = 56 then None else Some (sha1 m))"
proof -
  let ?n = "length m"
  let ?d = "pad_count ?n"
  have lb: "length buffer = 71" using b by (simp add: SHA1_PAD_SIZE_def)
  have cl: "ctx_length ctx = word_of_nat ?n" using h by (simp add: holds_msg_def)
  let ?b1 = "overwrite buffer 0 [128]"
  have s: "store buffer 0 128 = Some ?b1" using lb by (intro store_overwrite) simp
  let ?b2 = "overwrite ?b1 1 (replicate ?d 0)"
  have l1: "length ?b1 = 71" using lb by simp
  have z: "pad_zeros ?b1 (word_of_nat ?n) 1 = Some (?b2, 1 + ?d)"
    using pad_count_stops [of ?n] l1 by (intro pad_zeros_eq) simp_all
  have l2: "length ?b2 = 71" using pad_count_stops(3) [of ?n] l1 by simp
  let ?len = "length_bytes (push_bit 3 (word_of_nat ?n))"
  show ?thesis
  proof (cases "?n mod 64 = 56")
    case True
    then have "1 + ?d = 64" using pad_count_stops(4) by blast
    then have "put_bytes ?b2 (1 + ?d) ?len = None" using l2 by (intro put_bytes_overflow) simp_all
    then show ?thesis using True s z cl by (simp add: SHA1_final_def)
  next
    case False
    then have d: "1 + ?d \<le> 63" using pad_count_stops(3,4) [of ?n] by linarith
    let ?b3 = "overwrite ?b2 (1 + ?d) ?len"
    have p: "put_bytes ?b2 (1 + ?d) ?len = Some ?b3" using l2 d by (intro put_bytes_eq) simp
    have "?b2 = overwrite buffer 0 ([128] @ replicate ?d 0)"
      using overwrite_append [of 0 "[128]" "replicate ?d 0" buffer] lb d by simp
    then have "?b3 = overwrite buffer 0 (([128] @ replicate ?d 0) @ ?len)"
      using overwrite_append [of 0 "[128] @ replicate ?d 0" ?len buffer] lb d by simp
    then have "?b3 = (128 # replicate ?d 0 @ ?len) @ drop (9 + ?d) buffer" by (simp add: overwrite_def)
    moreover have "1 + ?d + 8 = length (128 # replicate ?d 0 @ ?len)" by simp
    ultimately have t: "take (1 + ?d + 8) ?b3 = 128 # replicate ?d 0 @ ?len" by (metis append_eq_conv_conj)
    have l3: "1 + ?d + 8 \<le> length ?b3" using d l2 by simp
    obtain ctx' where c: "SHA1_update ctx ?b3 (1 + ?d + 8) = Some ctx'" "holds_msg ctx' (m @ take (1 + ?d + 8) ?b3)"
      by (rule SHA1_update_holds [OF h l3])
    have "push_bit 3 (word_of_nat ?n :: 64 word) = word_of_nat (8 * ?n)" by (simp add: push_bit_eq_mult)
    then have "m @ take (1 + ?d + 8) ?b3 = sha_pad m"
      unfolding t by (simp add: sha_pad_def pad_count_def Let_def)
    then have "ctx_state ctx' = sha_blocks H0 (sha_pad m)" using c(2) by (simp add: holds_msg_def)
    then show ?thesis using False s z p c(1) cl by (simp add: SHA1_final_def sha1_def)
  qed
qed

text \<open>The data given piece by piece.\<close>

fun sha1_feed :: "sha1_ctx \<Rightarrow> byte list list \<Rightarrow> sha1_ctx option" where
  "sha1_feed ctx [] = Some ctx"
| "sha1_feed ctx (d # ds) = do { ctx \<leftarrow> SHA1_update ctx d (length d); sha1_feed ctx ds }"

lemma feed_holds: "holds_msg ctx m \<Longrightarrow> \<exists>ctx'. sha1_feed ctx ds = Some ctx' \<and> holds_msg ctx' (m @ concat ds)"
proof (induction ds arbitrary: ctx m)
  case (Cons d ds)
  obtain ctx' where "SHA1_update ctx d (length d) = Some ctx'" "holds_msg ctx' (m @ take (length d) d)"
    by (rule SHA1_update_holds [OF Cons.prems order_refl])
  then show ?case using Cons.IH [of ctx' "m @ d"] by simp
qed simp

text \<open>
  Property C17: the digest computed by \<open>SHA1_init\<close>, any number of \<open>SHA1_update\<close> and
  \<open>SHA1_final\<close> is the SHA-1 of FIPS 180 of the concatenated data, however it is cut, and no
  access leaves an array; except when the length of the data is 56 modulo 64: then the padding
  takes 72 bytes and is written beyond the local array of 71.
\<close>

theorem SHA1_correct:
  assumes "length (ctx_buffer ctx) = 64" and "length buffer = SHA1_PAD_SIZE"
  shows "\<exists>ctx'. sha1_feed (SHA1_init ctx) ds = Some ctx' \<and>
    map_option fst (SHA1_final ctx' buffer) =
      (if length (concat ds) mod 64 = 56 then None else Some (sha1 (concat ds)))"
proof -
  have "holds_msg (SHA1_init ctx) []"
    using assms(1) by (simp add: holds_msg_def SHA1_init_def sha_blocks_short sha_tail_def)
  then obtain ctx' where "sha1_feed (SHA1_init ctx) ds = Some ctx'" "holds_msg ctx' (concat ds)"
    using feed_holds [of "SHA1_init ctx" "[]" ds] by auto
  then show ?thesis using SHA1_final_holds [OF _ assms(2)] by blast
qed

theorem SHA1_correct_witness:
  "\<exists>ctx'. sha1_feed (SHA1_init \<lparr>ctx_state = H0, ctx_length = 0, ctx_buffer = replicate 64 0\<rparr>) [[97, 98], [99]] = Some ctx' \<and>
    map_option fst (SHA1_final ctx' (replicate 71 0)) = Some (sha1 [97, 98, 99])"
  using SHA1_correct [of "\<lparr>ctx_state = H0, ctx_length = 0, ctx_buffer = replicate 64 0\<rparr>" "replicate 71 0" "[[97, 98], [99]]"]
  by (simp add: SHA1_PAD_SIZE_def)

end
