(* ===== verification/ExpandVars.thy ===== *)
theory ExpandVars
  imports Prelude
begin

text \<open>
  \<open>src/misc/rp-expand-vars.c\<close>: expansion of the variables of a text, written
  \<open>$NAME\<close>, \<open>$(NAME)\<close> or \<open>${NAME}\<close>, the braced ones with an
  optional default (\<open>${NAME-default}\<close>, \<open>${NAME:-default}\<close>).

  The routine \<open>expand\<close> scans its text twice per level: the first scan counts what
  is removed and added, the second one writes into a block allocated from these counts; when
  a value holds a \<open>$\<close> the result is expanded again, ten times at most. The
  resolution function is a parameter of the model, a function from a name to what it stores
  in its result; its release action has no effect on the model.
\<close>

subsection \<open>Data\<close>

abbreviation dollar :: char where "dollar \<equiv> CHR ''$''"
abbreviation backslash :: char where "backslash \<equiv> CHR 0x5C"
abbreviation minus_sign :: char where "minus_sign \<equiv> CHR ''-''"
abbreviation colon :: char where "colon \<equiv> CHR '':''"

definition RP_EXPAND_VARS_LIMIT :: nat where "RP_EXPAND_VARS_LIMIT = 16384"
definition RP_EXPAND_VARS_DEPTH_MAX :: nat where "RP_EXPAND_VARS_DEPTH_MAX = 10"

text \<open>\<open>rp_expand_vars_result_t\<close>, and the resolution functions: the boolean says if found.\<close>

record expand_result =
  ev_value :: "mem option"
  ev_length :: nat

type_synonym lookup = "string \<Rightarrow> (bool \<times> expand_result) option"

text \<open>The variables of one scan: the write pointer (block and offset), the counts and the flag.\<close>

record scan_state =
  sc_write :: "(mem \<times> nat) option"
  sc_remove :: nat
  sc_add :: nat
  sc_again :: bool

subsection \<open>One scan\<close>

definition write_chars :: "string \<Rightarrow> scan_state \<Rightarrow> scan_state option" where
  "write_chars s st =
     (case sc_write st of
        None \<Rightarrow> Some st
      | Some (b, n) \<Rightarrow>
          if n + length s \<le> length b
          then Some (st\<lparr>sc_write := Some (overwrite b n s, n + length s)\<rparr>) else None)"

text \<open>Found or default value of a variable: \<open>cdef\<close> is the kind of default.\<close>

definition no_content :: "expand_result \<Rightarrow> bool option" where
  "no_content ev = (case ev_value ev of None \<Rightarrow> Some True | Some v \<Rightarrow> do { c \<leftarrow> load v 0; Some (c = NUL) })"

definition choose_value ::
  "bool \<Rightarrow> expand_result \<Rightarrow> char option \<Rightarrow> mem \<Rightarrow> nat \<Rightarrow> (bool \<times> expand_result) option" where
  "choose_value found ev cdef def lendef = do {
     use_def \<leftarrow> (if cdef \<noteq> None \<and> \<not> found then Some True
                else if cdef = Some colon then no_content ev else Some False);
     Some (if use_def
           then (True, \<lparr>ev_value = Some (if lendef \<noteq> 0 then def else replicate 8 NUL), ev_length = lendef\<rparr>)
           else (found, ev))
   }"

definition expand_value :: "lookup \<Rightarrow> string \<Rightarrow> char option \<Rightarrow> mem \<Rightarrow> nat \<Rightarrow> scan_state \<Rightarrow> scan_state option" where
  "expand_value lookup name cdef def lendef st = do {
     (found, ev) \<leftarrow> lookup name;
     (found, ev) \<leftarrow> choose_value found ev cdef def lendef;
     case ev_value ev of
       None \<Rightarrow> Some st
     | Some v \<Rightarrow>
         if found then do {
           len \<leftarrow> (if ev_length ev = 0 then strlen v else Some (ev_length ev));
           if len \<le> length v then do {
             st \<leftarrow> write_chars (take len v)
               (st\<lparr>sc_again := sc_again st \<or> (sc_write st \<noteq> None \<and> dollar \<in> set (take len v))\<rparr>);
             Some (st\<lparr>sc_add := sc_add st + len\<rparr>)
           } else None
         } else Some st
   }"

text \<open>The name of a variable with no brace: \<open>isalnum\<close> or an underscore.\<close>

definition name_char :: "char \<Rightarrow> bool" where
  "name_char c \<longleftrightarrow> (let n = uchar c in
     48 \<le> n \<and> n \<le> 57 \<or> 65 \<le> n \<and> n \<le> 90 \<or> 97 \<le> n \<and> n \<le> 122 \<or> n = 95)"

definition plain_variable :: "lookup \<Rightarrow> mem \<Rightarrow> scan_state \<Rightarrow> (mem \<times> scan_state) option" where
  "plain_variable lookup p st = do {
     let len = length (takeWhile name_char p);
     c \<leftarrow> load p len;
     st \<leftarrow> expand_value lookup (take len p) None [] 0 (st\<lparr>sc_remove := sc_remove st + (1 + len)\<rparr>);
     Some (drop len p, st)
   }"

text \<open>
  The loop to the closing character: its offset \<open>n\<close>, the character that stopped it and
  the kind and offset of the first default mark.
\<close>

fun brace_loop :: "char \<Rightarrow> mem \<Rightarrow> nat \<Rightarrow> (char \<times> nat) option \<Rightarrow> (nat \<times> char \<times> (char \<times> nat) option) option" where
  "brace_loop c [] n d = None"
| "brace_loop c (oc # p) n d =
     (if oc = NUL \<or> oc = c then Some (n, oc, d)
      else if d = None \<and> oc = minus_sign then brace_loop c p (n + 1) (Some (oc, n))
      else if d = None \<and> oc = colon then do {
        x \<leftarrow> load p 0;
        brace_loop c p (n + 1) (if x = minus_sign then Some (oc, n) else d)
      }
      else brace_loop c p (n + 1) d)"

definition braced_variable :: "lookup \<Rightarrow> char \<Rightarrow> mem \<Rightarrow> scan_state \<Rightarrow> (mem \<times> scan_state) option" where
  "braced_variable lookup close p st = do {
     (n, oc, d) \<leftarrow> brace_loop close p 0 None;
     let (len, cdef, def, lendef) =
       (case d of
          None \<Rightarrow> (n, None, [], 0)
        | Some (cd, k) \<Rightarrow> let j = k + 1 + (if cd = colon then 1 else 0) in (k, Some cd, drop j p, n - j));
     if oc \<noteq> NUL then do {
       let e = n + 1;
       st \<leftarrow> expand_value lookup (take len p) cdef def lendef (st\<lparr>sc_remove := sc_remove st + (3 + e)\<rparr>);
       Some (drop e p, st)
     }
     else Some (drop n p, st\<lparr>sc_remove := sc_remove st + (2 + n)\<rparr>)
   }"

definition scan_variable :: "lookup \<Rightarrow> mem \<Rightarrow> scan_state \<Rightarrow> (mem \<times> scan_state) option" where
  "scan_variable lookup p st = do {
     oc \<leftarrow> load p 0;
     let close = (if oc = CHR ''('' then CHR '')'' else if oc = CHR ''{'' then CHR ''}'' else NUL);
     if close = NUL then plain_variable lookup p st else braced_variable lookup close (tl p) st
   }"

lemma plain_variable_le: "plain_variable lookup p st = Some (q, st') \<Longrightarrow> length q \<le> length p"
  by (auto simp: plain_variable_def Let_def bind_eq_Some_conv)

lemma braced_variable_le: "braced_variable lookup close p st = Some (q, st') \<Longrightarrow> length q \<le> length p"
  unfolding braced_variable_def Let_def
  by (cases "brace_loop close p 0 None") (auto simp: bind_eq_Some_conv split: if_splits prod.splits)

lemma scan_variable_le: "scan_variable lookup p st = Some (q, st') \<Longrightarrow> length q \<le> length p"
  unfolding scan_variable_def Let_def
  by (cases p) (auto simp: load_def dest: plain_variable_le braced_variable_le split: if_splits)

text \<open>The scan of the text, from \<open>begin\<close>: the pointer and the variables after it.\<close>

function scan :: "lookup \<Rightarrow> mem \<Rightarrow> scan_state \<Rightarrow> (mem \<times> scan_state) option" where
  "scan lookup [] st = None"
| "scan lookup (c # p) st =
     (if c = NUL then Some (p, st)
      else if c = backslash then do {
        oc \<leftarrow> load p 0;
        if oc = backslash \<or> oc = dollar then do {
          st \<leftarrow> write_chars [oc] (st\<lparr>sc_remove := sc_remove st + 1\<rparr>);
          scan lookup (tl p) st
        }
        else do { st \<leftarrow> write_chars [c] st; scan lookup p st }
      }
      else if c \<noteq> dollar then do { st \<leftarrow> write_chars [c] st; scan lookup p st }
      else do {
        oc \<leftarrow> load p 0;
        if oc = dollar then do {
          st \<leftarrow> write_chars [c] (st\<lparr>sc_remove := sc_remove st + 1\<rparr>);
          scan lookup (tl p) st
        }
        else do { (p, st) \<leftarrow> scan_variable lookup p st; scan lookup p st }
      })"
  by pat_completeness auto
termination
  by (relation "measure (\<lambda>(lookup, p, st). length p)") (auto dest: scan_variable_le)

declare scan.simps(2) [simp del]

subsection \<open>The expansion\<close>

text \<open>
  The loop of \<open>expand\<close>: \<open>result\<close> is the block to write, \<open>None\<close> for a
  counting scan. The value is \<open>Some None\<close> when the routine returns \<open>NULL\<close>. The size is
  computed modulo \<open>2 ^ 64\<close>.
\<close>

definition block_index :: "mem \<Rightarrow> mem \<Rightarrow> scan_state \<Rightarrow> nat" where
  "block_index val rest st =
     nat ((int (length val - length rest) + int (sc_add st) - int (sc_remove st)) mod 2 ^ 64)"

definition scan_start :: "mem option \<Rightarrow> scan_state" where
  "scan_start result = \<lparr>sc_write = map_option (\<lambda>b. (b, 0)) result, sc_remove = 0, sc_add = 0, sc_again = False\<rparr>"

function expand_loop :: "allocator \<Rightarrow> lookup \<Rightarrow> nat \<Rightarrow> mem \<Rightarrow> mem option \<Rightarrow> mem option option" where
  "expand_loop malloc lookup depth val result = do {
     (rest, st) \<leftarrow> scan lookup val (scan_start result);
     case result of
       None \<Rightarrow>
         if sc_remove st = 0 then Some None
         else let i = block_index val rest st in
           if i \<ge> RP_EXPAND_VARS_LIMIT then Some None
           else (case malloc (i + 1) of
                   None \<Rightarrow> Some None
                 | Some b \<Rightarrow> expand_loop malloc lookup depth val (Some b))
     | Some _ \<Rightarrow> do {
         (b, n) \<leftarrow> sc_write st;
         b \<leftarrow> store b n NUL;
         if sc_again st
         then (if depth + 1 \<ge> RP_EXPAND_VARS_DEPTH_MAX then Some None
               else expand_loop malloc lookup (depth + 1) b None)
         else Some (Some b)
       }
   }"
  by pat_completeness auto
termination
  by (relation "measure (\<lambda>(malloc, lookup, depth, val, result).
        2 * (RP_EXPAND_VARS_DEPTH_MAX - depth) + (if result = None then 1 else 0))") auto

declare expand_loop.simps [simp del]

definition expand :: "allocator \<Rightarrow> mem option \<Rightarrow> lookup \<Rightarrow> mem option option" where
  "expand malloc val lookup =
     (case val of None \<Rightarrow> Some None | Some v \<Rightarrow> expand_loop malloc lookup 0 v None)"

subsection \<open>Resolution functions\<close>

text \<open>\<open>memcmp (a, b, n) == 0\<close>, for objects of at least \<open>n\<close> bytes.\<close>

definition memcmp_eq :: "mem \<Rightarrow> mem \<Rightarrow> nat \<Rightarrow> bool option" where
  "memcmp_eq a b n = (if n \<le> length a \<and> n \<le> length b then Some (take n a = take n b) else None)"

text \<open>\<open>rp_expand_vars_search\<close> on the array of definitions before its null pointer.\<close>

fun rp_expand_vars_search :: "mem list \<Rightarrow> string \<Rightarrow> nat \<Rightarrow> mem option option" where
  "rp_expand_vars_search [] name len = Some None"
| "rp_expand_vars_search (var # vars) name len = do {
     same \<leftarrow> memcmp_eq var name len;
     if same then do {
       c \<leftarrow> load var len;
       if c = CHR ''='' then Some (Some (drop (len + 1) var)) else rp_expand_vars_search vars name len
     }
     else rp_expand_vars_search vars name len
   }"

definition rp_expand_vars_search_env :: "mem list \<Rightarrow> string \<Rightarrow> nat \<Rightarrow> mem option option" where
  "rp_expand_vars_search_env environ name len = rp_expand_vars_search environ name len"

text \<open>\<open>getvar\<close> searches the arrays up to the first null one.\<close>

fun getvar :: "mem list option list \<Rightarrow> lookup" where
  "getvar [] name = None"
| "getvar (None # arrays) name = Some (False, \<lparr>ev_value = None, ev_length = 0\<rparr>)"
| "getvar (Some ivar # arrays) name = do {
     res \<leftarrow> rp_expand_vars_search ivar name (length name);
     case res of
       Some r \<Rightarrow> Some (True, \<lparr>ev_value = Some r, ev_length = 0\<rparr>)
     | None \<Rightarrow> getvar arrays name
   }"

text \<open>\<open>adaptor\<close> turns a callback that returns a pointer into a resolution function.\<close>

definition adaptor :: "(string \<Rightarrow> mem option option) \<Rightarrow> lookup" where
  "adaptor function name = do {
     v \<leftarrow> function name;
     Some (v \<noteq> None, \<lparr>ev_value = v, ev_length = 0\<rparr>)
   }"

subsection \<open>Entry points\<close>

definition strdup :: "allocator \<Rightarrow> mem \<Rightarrow> mem option option" where
  "strdup malloc v = do {
     n \<leftarrow> strlen v;
     case malloc (n + 1) of None \<Rightarrow> Some None | Some b \<Rightarrow> do { b \<leftarrow> memcpy b 0 v (n + 1); Some (Some b) }
   }"

definition expanded_or_copy :: "allocator \<Rightarrow> mem option \<Rightarrow> bool \<Rightarrow> mem option \<Rightarrow> mem option option" where
  "expanded_or_copy malloc expanded copy val =
     (case (expanded, val) of
        (None, Some v) \<Rightarrow> if copy then strdup malloc v else Some None
      | _ \<Rightarrow> Some expanded)"

definition rp_expand_vars_function :: "allocator \<Rightarrow> mem option \<Rightarrow> bool \<Rightarrow> lookup \<Rightarrow> mem option option" where
  "rp_expand_vars_function malloc val copy function = do {
     expanded \<leftarrow> expand malloc val function;
     expanded_or_copy malloc expanded copy val
   }"

definition rp_expand_vars_callback ::
  "allocator \<Rightarrow> mem option \<Rightarrow> bool \<Rightarrow> (string \<Rightarrow> mem option option) \<Rightarrow> mem option option" where
  "rp_expand_vars_callback malloc val copy function = do {
     expanded \<leftarrow> expand malloc val (adaptor function);
     expanded_or_copy malloc expanded copy val
   }"

definition rp_expand_vars_array ::
  "allocator \<Rightarrow> mem option \<Rightarrow> bool \<Rightarrow> mem list option list \<Rightarrow> mem option option" where
  "rp_expand_vars_array malloc val copy varsarray = rp_expand_vars_function malloc val copy (getvar varsarray)"

definition rp_expand_vars_only ::
  "allocator \<Rightarrow> mem option \<Rightarrow> bool \<Rightarrow> mem list option \<Rightarrow> mem option option" where
  "rp_expand_vars_only malloc val copy vars = rp_expand_vars_array malloc val copy [vars, None]"

text \<open>The global \<open>environ\<close> is an argument.\<close>

definition rp_expand_vars_env_only ::
  "allocator \<Rightarrow> mem list option \<Rightarrow> mem option \<Rightarrow> bool \<Rightarrow> mem option option" where
  "rp_expand_vars_env_only malloc environ val copy = rp_expand_vars_array malloc val copy [environ, None]"

definition rp_expand_vars ::
  "allocator \<Rightarrow> mem list option \<Rightarrow> mem option \<Rightarrow> bool \<Rightarrow> mem list option \<Rightarrow> mem list option \<Rightarrow> mem option option" where
  "rp_expand_vars malloc environ val copy before after =
     rp_expand_vars_array malloc val copy (drop (if before = None then 1 else 0) [before, environ, after, None])"

definition rp_expand_vars_first ::
  "allocator \<Rightarrow> mem list option \<Rightarrow> mem option \<Rightarrow> bool \<Rightarrow> mem list option \<Rightarrow> mem option option" where
  "rp_expand_vars_first malloc environ val copy vars =
     rp_expand_vars_array malloc val copy (drop (if vars = None then 1 else 0) [vars, environ, None])"

definition rp_expand_vars_last ::
  "allocator \<Rightarrow> mem list option \<Rightarrow> mem option \<Rightarrow> bool \<Rightarrow> mem list option \<Rightarrow> mem option option" where
  "rp_expand_vars_last malloc environ val copy vars =
     rp_expand_vars_array malloc val copy [environ, vars, None]"

subsection \<open>Reference: the tokens of a text\<close>

text \<open>What the documentation describes: a text is a sequence of tokens, each with a replacement.\<close>

datatype token =
    Plain char
  | Escaped char char
  | Named string
  | Braced char string
  | Unclosed char string

definition closing :: "char \<Rightarrow> char" where
  "closing c = (if c = CHR ''('' then CHR '')'' else CHR ''}'')"

fun token_text :: "token \<Rightarrow> string" where
  "token_text (Plain c) = [c]"
| "token_text (Escaped e c) = [e, c]"
| "token_text (Named n) = dollar # n"
| "token_text (Braced c b) = dollar # c # b @ [closing c]"
| "token_text (Unclosed c b) = dollar # c # b"

function tokens :: "string \<Rightarrow> token list" where
  "tokens [] = []"
| "tokens [c] = [if c = dollar then Named [] else Plain c]"
| "tokens (c # d # s) =
     (if c = backslash then
        (if d = backslash \<or> d = dollar then Escaped c d # tokens s else Plain c # tokens (d # s))
      else if c \<noteq> dollar then Plain c # tokens (d # s)
      else if d = dollar then Escaped c d # tokens s
      else if d = CHR ''('' \<or> d = CHR ''{'' then
        (let b = takeWhile (\<lambda>x. x \<noteq> closing d) s in
          if closing d \<in> set s then Braced d b # tokens (drop (length b + 1) s) else [Unclosed d s])
      else let n = takeWhile name_char (d # s) in Named n # tokens (drop (length n) (d # s)))"
  by pat_completeness auto
termination by (relation "measure length") auto

declare tokens.simps(3) [simp del]

text \<open>The first token of a text and what follows it; the rule of the proofs below.\<close>

lemma tokens_induct [case_names Nil Plain Escaped Named Braced Unclosed]:
  assumes "P []"
    and plain: "\<And>c s. c \<noteq> dollar \<Longrightarrow> c = backslash \<longrightarrow> s = [] \<or> hd s \<noteq> backslash \<and> hd s \<noteq> dollar \<Longrightarrow>
      tokens (c # s) = Plain c # tokens s \<Longrightarrow> P s \<Longrightarrow> P (c # s)"
    and escaped: "\<And>e c s. e = backslash \<and> (c = backslash \<or> c = dollar) \<or> e = dollar \<and> c = dollar \<Longrightarrow>
      tokens (e # c # s) = Escaped e c # tokens s \<Longrightarrow> P s \<Longrightarrow> P (e # c # s)"
    and named: "\<And>n s. list_all name_char n \<Longrightarrow> s = [] \<or> \<not> name_char (hd s) \<Longrightarrow>
      n @ s = [] \<or> hd (n @ s) \<notin> {dollar, CHR ''('', CHR ''{''} \<Longrightarrow>
      tokens (dollar # n @ s) = Named n # tokens s \<Longrightarrow> P s \<Longrightarrow> P (dollar # n @ s)"
    and braced: "\<And>c b s. c = CHR ''('' \<or> c = CHR ''{'' \<Longrightarrow> closing c \<notin> set b \<Longrightarrow>
      tokens (dollar # c # b @ closing c # s) = Braced c b # tokens s \<Longrightarrow> P s \<Longrightarrow> P (dollar # c # b @ closing c # s)"
    and unclosed: "\<And>c b. c = CHR ''('' \<or> c = CHR ''{'' \<Longrightarrow> closing c \<notin> set b \<Longrightarrow>
      tokens (dollar # c # b) = [Unclosed c b] \<Longrightarrow> P (dollar # c # b)"
  shows "P s"
proof (induction s rule: length_induct)
  case (1 s)
  then have IH: "length t < length s \<Longrightarrow> P t" for t by blast
  consider "s = []" | c where "s = [c]" | c d t where "s = c # d # t" by (metis list.exhaust)
  then show ?case
  proof cases
    case 1
    then show ?thesis using assms(1) by simp
  next
    case 2
    then show ?thesis using plain [of c "[]"] named [of "[]" "[]"] assms(1) by (cases "c = dollar") simp_all
  next
    case (3 c d t)
    note T = tokens.simps(3) [of c d t] and P = IH [unfolded 3]
    consider "c = backslash \<and> (d = backslash \<or> d = dollar) \<or> c = dollar \<and> d = dollar"
      | "c \<noteq> dollar" "c = backslash \<longrightarrow> d \<noteq> backslash \<and> d \<noteq> dollar"
      | "c = dollar" "d = CHR ''('' \<or> d = CHR ''{''" "closing d \<in> set t"
      | "c = dollar" "d = CHR ''('' \<or> d = CHR ''{''" "closing d \<notin> set t"
      | "c = dollar" "d \<notin> {dollar, CHR ''('', CHR ''{''}" by blast
    then show ?thesis
    proof cases
      case 1
      then have "tokens (c # d # t) = Escaped c d # tokens t" unfolding T by auto
      then show ?thesis unfolding 3 using 1 P by (intro escaped) simp_all
    next
      case 2
      then have "tokens (c # d # t) = Plain c # tokens (d # t)" unfolding T by simp
      then show ?thesis unfolding 3 using 2 P by (rule_tac plain) simp_all
    next
      case b: 3
      obtain b u where t: "t = b @ closing d # u" "closing d \<notin> set b" using split_list_first [OF b(3)] by blast
      then have tw: "takeWhile (\<lambda>x. x \<noteq> closing d) t = b" by (auto simp: takeWhile_append)
      have "tokens (c # d # t) = Braced d b # tokens u" unfolding T tw Let_def using b t by auto
      then show ?thesis unfolding 3 using b t P by (auto intro!: braced)
    next
      case 4
      then have "tokens (c # d # t) = [Unclosed d t]" unfolding T Let_def by auto
      then show ?thesis unfolding 3 using 4 unclosed by simp
    next
      case 5
      let ?n = "takeWhile name_char (d # t)" and ?u = "dropWhile name_char (d # t)"
      have dt: "d # t = ?n @ ?u" by (simp only: takeWhile_dropWhile_id)
      have "tokens (c # d # t) = Named ?n # tokens ?u"
        unfolding T Let_def dropWhile_eq_drop using 5 by simp
      moreover have "P ?u" using P [of ?u] length_dropWhile_le [of name_char "d # t"] by simp
      moreover have "list_all name_char ?n" by (simp only: list_all_iff) (blast dest: set_takeWhileD)
      moreover have "?u = [] \<or> \<not> name_char (hd ?u)" using hd_dropWhile by blast
      ultimately have "P (dollar # ?n @ ?u)" using 5 by (intro named) (simp_all only: dt [symmetric], simp_all)
      then show ?thesis unfolding 3 5(1) by (simp only: dt [symmetric])
    qed
  qed
qed

text \<open>Every text is the concatenation of its tokens.\<close>

lemma tokens_text: "concat (map token_text (tokens s)) = s"
  by (induction s rule: tokens_induct) simp_all

text \<open>A braced body is a name and perhaps the kind and the text of a default.\<close>

fun split_default :: "string \<Rightarrow> string \<times> (char \<times> string) option" where
  "split_default [] = ([], None)"
| "split_default (c # s) =
     (if c = minus_sign then ([], Some (c, s))
      else if c = colon \<and> s \<noteq> [] \<and> hd s = minus_sign then ([], Some (c, tl s))
      else let (n, d) = split_default s in (c # n, d))"

type_synonym environment = "string \<Rightarrow> string option"

definition with_default :: "environment \<Rightarrow> string \<Rightarrow> (char \<times> string) option \<Rightarrow> string" where
  "with_default env n d =
     (case (env n, d) of
        (None, None) \<Rightarrow> []
      | (None, Some (k, t)) \<Rightarrow> t
      | (Some v, Some (k, t)) \<Rightarrow> if k = colon \<and> v = [] then t else v
      | (Some v, None) \<Rightarrow> v)"

fun subst :: "environment \<Rightarrow> token \<Rightarrow> string" where
  "subst env (Plain c) = [c]"
| "subst env (Escaped e c) = [c]"
| "subst env (Named n) = with_default env n None"
| "subst env (Braced c b) = (let (n, d) = split_default b in with_default env n d)"
| "subst env (Unclosed c b) = []"

fun names :: "token \<Rightarrow> string set" where
  "names (Named n) = {n}"
| "names (Braced c b) = {fst (split_default b)}"
| "names _ = {}"

fun is_variable :: "token \<Rightarrow> bool" where
  "is_variable (Named n) = True"
| "is_variable (Braced c b) = True"
| "is_variable _ = False"

definition expand1 :: "environment \<Rightarrow> string \<Rightarrow> string" where
  "expand1 env s = concat (map (subst env) (tokens s))"

definition plain_text :: "string \<Rightarrow> bool" where
  "plain_text s \<longleftrightarrow> (\<forall>t \<in> set (tokens s). \<exists>c. t = Plain c)"

definition brings_dollar :: "environment \<Rightarrow> string \<Rightarrow> bool" where
  "brings_dollar env s \<longleftrightarrow> (\<exists>t \<in> set (tokens s). is_variable t \<and> dollar \<in> set (subst env t))"

fun is_braced :: "token \<Rightarrow> bool" where
  "is_braced (Braced c b) = True"
| "is_braced _ = False"

definition braced_count :: "string \<Rightarrow> nat" where
  "braced_count s = length (filter is_braced (tokens s))"

text \<open>
  The expansion in at most \<open>k\<close> levels, \<open>None\<close> when there is nothing to expand or
  a limit is reached. The size limit counts the terminating zero, less the braced variables.
\<close>

fun expanded :: "environment \<Rightarrow> nat \<Rightarrow> string \<Rightarrow> string option" where
  "expanded env 0 s = None"
| "expanded env (Suc k) s =
     (if plain_text s \<or> length (expand1 env s) + 1 - braced_count s \<ge> RP_EXPAND_VARS_LIMIT then None
      else if brings_dollar env s then expanded env k (expand1 env s)
      else Some (expand1 env s))"

subsection \<open>The scan follows the tokens\<close>

definition advance :: "string \<Rightarrow> nat \<Rightarrow> nat \<Rightarrow> bool \<Rightarrow> scan_state \<Rightarrow> scan_state option" where
  "advance out r a g st = map_option (\<lambda>st. st\<lparr>sc_remove := sc_remove st + r, sc_add := sc_add st + a,
     sc_again := sc_again st \<or> (sc_write st \<noteq> None \<and> g)\<rparr>) (write_chars out st)"

lemma advance_None [simp]:
  "sc_write st = None \<Longrightarrow> advance out r a g st = Some (st\<lparr>sc_remove := sc_remove st + r, sc_add := sc_add st + a\<rparr>)"
  by (cases st) (simp add: advance_def write_chars_def)

lemma advance_Some:
  "sc_write st = Some (b, n) \<Longrightarrow> advance out r a g st =
    (if n + length out \<le> length b
     then Some \<lparr>sc_write = Some (overwrite b n out, n + length out), sc_remove = sc_remove st + r,
       sc_add = sc_add st + a, sc_again = sc_again st \<or> g\<rparr> else None)"
  by (cases st) (simp add: advance_def write_chars_def)

definition writable :: "scan_state \<Rightarrow> bool" where
  "writable st \<longleftrightarrow> (case sc_write st of None \<Rightarrow> True | Some (b, n) \<Rightarrow> n \<le> length b)"

lemma advance_writable: "advance out r a g st = Some st' \<Longrightarrow> writable st'"
  by (auto simp: advance_def write_chars_def writable_def split: option.splits if_splits)

lemma advance_append:
  "do { st \<leftarrow> advance o1 r1 a1 g1 st; advance o2 r2 a2 g2 st } =
    advance (o1 @ o2) (r1 + r2) (a1 + a2) (g1 \<or> g2) st"
proof (cases "sc_write st")
  case None
  then show ?thesis by (cases st) simp
next
  case (Some w)
  then obtain b n where w: "sc_write st = Some (b, n)" by (cases w) auto
  show ?thesis
  proof (cases "n + length o1 \<le> length b")
    case True
    then have "n + length o1 + length o2 \<le> length (overwrite b n o1) \<longleftrightarrow> n + length (o1 @ o2) \<le> length b"
      by (simp add: add.assoc)
    then show ?thesis using True overwrite_append [of n o1 o2 b]
      by (simp only: advance_Some [OF w] if_True bind.bind_lunit advance_Some scan_state.simps)
        (simp add: add.assoc)
  qed (simp add: advance_Some [OF w])
qed

lemma write_chars_advance:
  "write_chars s (st\<lparr>sc_remove := sc_remove st + r\<rparr>) = advance s r 0 False st"
  "write_chars s st = advance s 0 0 False st"
  by (cases st; cases "sc_write st"; auto simp: advance_def write_chars_def)+

lemma remove_advance: "writable st \<Longrightarrow> Some (st\<lparr>sc_remove := sc_remove st + r\<rparr>) = advance [] r 0 False st"
  by (cases st; cases "sc_write st") (auto simp: advance_def write_chars_def writable_def)

lemma advance_removed: "advance v r a g (st\<lparr>sc_remove := sc_remove st + r0\<rparr>) = advance v (r0 + r) a g st"
  by (cases st; cases "sc_write st") (auto simp: advance_def write_chars_def)

lemma bind_Some_Pair: "m \<bind> (\<lambda>x. Some (r, x)) = map_option (Pair r) m"
  by (cases m) simp_all

text \<open>What each token removes, adds and asks for.\<close>

fun token_removed :: "token \<Rightarrow> nat" where
  "token_removed (Plain c) = 0"
| "token_removed (Escaped e c) = 1"
| "token_removed (Named n) = 1 + length n"
| "token_removed (Braced c b) = 4 + length b"
| "token_removed (Unclosed c b) = 2 + length b"

definition token_added :: "environment \<Rightarrow> token \<Rightarrow> nat" where
  "token_added env t = (if is_variable t then length (subst env t) else 0)"

definition removed :: "string \<Rightarrow> nat" where
  "removed s = sum_list (map token_removed (tokens s))"

definition added :: "environment \<Rightarrow> string \<Rightarrow> nat" where
  "added env s = sum_list (map (token_added env) (tokens s))"

text \<open>A resolution function gives, for a name, the value of an environment.\<close>

definition holds_value :: "expand_result \<Rightarrow> string \<Rightarrow> bool" where
  "holds_value ev v \<longleftrightarrow> no_nul v \<and> (\<exists>m. ev_value ev = Some m \<and>
     (if ev_length ev = 0 then \<exists>r. m = v @ NUL # r
      else ev_length ev = length v \<and> (\<exists>r. m = v @ r)))"

definition resolves :: "lookup \<Rightarrow> environment \<Rightarrow> string \<Rightarrow> bool" where
  "resolves lookup env name \<longleftrightarrow> (\<exists>found ev. lookup name = Some (found, ev) \<and>
     (case env name of None \<Rightarrow> \<not> found | Some v \<Rightarrow> found \<and> holds_value ev v))"

lemma no_content_holds: "holds_value ev v \<Longrightarrow> no_content ev = Some (v = [])"
  by (cases v) (auto simp: holds_value_def no_content_def load_def split: if_splits)

text \<open>The default text and its kind as the scan has them: a pointer into the text.\<close>

definition holds_default :: "(char \<times> string) option \<Rightarrow> char option \<Rightarrow> mem \<Rightarrow> nat \<Rightarrow> bool" where
  "holds_default d cdef def lendef \<longleftrightarrow>
     (case d of None \<Rightarrow> cdef = None
      | Some (k, t) \<Rightarrow> cdef = Some k \<and> lendef = length t \<and> (\<exists>r. def = t @ r) \<and> no_nul t)"

lemma choose_value_default:
  assumes "resolves lookup env name" and d: "holds_default d cdef def lendef"
  shows "\<exists>found0 ev0 found ev. lookup name = Some (found0, ev0) \<and>
    choose_value found0 ev0 cdef def lendef = Some (found, ev) \<and>
    (if found then holds_value ev (with_default env name d) else with_default env name d = [])"
proof -
  obtain found ev where l: "lookup name = Some (found, ev)"
    and v: "case env name of None \<Rightarrow> \<not> found | Some v \<Rightarrow> found \<and> holds_value ev v"
    using assms(1) unfolding resolves_def by blast
  let ?D = "\<lparr>ev_value = Some (if lendef \<noteq> 0 then def else replicate 8 NUL), ev_length = lendef\<rparr>"
  have def: "holds_value ?D t"
    if "d = Some (k, t)" for k t
    using d that by (auto simp: holds_default_def holds_value_def numeral_eq_Suc)
  have I: ?thesis if "choose_value found ev cdef def lendef = Some (f, e)"
    "if f then holds_value e (with_default env name d) else with_default env name d = []" for f e
    using l that by blast
  show ?thesis
  proof (cases d)
    case None
    then have "cdef = None" using d by (simp add: holds_default_def)
    then have "choose_value found ev cdef def lendef = Some (found, ev)" by (simp add: choose_value_def)
    then show ?thesis using v None by (intro I [of found ev]) (auto simp: with_default_def split: option.splits)
  next
    case (Some kt)
    then obtain k t where kt: "d = Some (k, t)" by (cases kt) auto
    then have c: "cdef = Some k" using d by (simp add: holds_default_def)
    show ?thesis
    proof (cases "env name")
      case None
      then have "choose_value found ev cdef def lendef = Some (True, ?D)" using v c by (simp add: choose_value_def)
      moreover have "holds_value ?D (with_default env name d)" using def [OF kt] None kt by (simp add: with_default_def)
      ultimately show ?thesis by (intro I [of True]) simp_all
    next
      case (Some v0)
      then have n: "no_content ev = Some (v0 = [])" "found" "holds_value ev v0"
        using v no_content_holds by auto
      show ?thesis
      proof (cases "k = colon \<and> v0 = []")
        case True
        then have "choose_value found ev cdef def lendef = Some (True, ?D)" using n c by (simp add: choose_value_def)
        moreover have "holds_value ?D (with_default env name d)" using def [OF kt] Some True kt by (simp add: with_default_def)
        ultimately show ?thesis by (intro I [of True]) simp_all
      next
        case False
        then have "choose_value found ev cdef def lendef = Some (True, ev)" using n c by (auto simp: choose_value_def)
        moreover have "holds_value ev (with_default env name d)" using n Some False kt by (auto simp: with_default_def)
        ultimately show ?thesis by (intro I [of True]) simp_all
      qed
    qed
  qed
qed

lemma expand_value_default:
  assumes "resolves lookup env name" and "holds_default d cdef def lendef" and "writable st"
  shows "expand_value lookup name cdef def lendef st =
    advance (with_default env name d) 0 (length (with_default env name d)) (dollar \<in> set (with_default env name d)) st"
proof -
  let ?v = "with_default env name d"
  obtain found0 ev0 found ev where l: "lookup name = Some (found0, ev0)"
    "choose_value found0 ev0 cdef def lendef = Some (found, ev)"
    "if found then holds_value ev ?v else ?v = []"
    using choose_value_default [OF assms(1,2)] by blast
  show ?thesis
  proof (cases found)
    case False
    then have "?v = []" using l(3) by simp
    then show ?thesis using l False assms(3)
      by (cases st; cases "sc_write st")
        (auto simp: expand_value_def advance_def write_chars_def writable_def split: option.splits)
  next
    case True
    then have h: "holds_value ev ?v" using l(3) by simp
    then obtain m where m: "ev_value ev = Some m" unfolding holds_value_def by blast
    have len: "(if ev_length ev = 0 then strlen m else Some (ev_length ev)) = Some (length ?v)"
      "length ?v \<le> length m" "take (length ?v) m = ?v"
      using h m by (auto simp: holds_value_def strlen_append_NUL split: if_splits)
    show ?thesis
      unfolding expand_value_def l(1) bind.bind_lunit prod.case l(2) m option.case len(1) if_P [OF True] if_P [OF len(2)] len(3)
      by (cases st; cases "sc_write st") (auto simp: advance_def write_chars_def)
  qed
qed

text \<open>The loop to the closing character finds the name and the default of the body.\<close>

lemma brace_loop_default:
  assumes "x = NUL \<or> x = c" and "c \<noteq> NUL" and "NUL \<notin> set b" and "c \<notin> set b"
  shows "brace_loop c (b @ x # r) n (Some k) = Some (n + length b, x, Some k)"
  using assms by (induction b arbitrary: n) auto

definition default_at :: "string \<Rightarrow> nat \<Rightarrow> (char \<times> nat) option" where
  "default_at b n = map_option (\<lambda>(k, t). (k, n + length (fst (split_default b)))) (snd (split_default b))"

lemma brace_loop_eq:
  assumes "x = NUL \<or> x = c" and "c \<noteq> NUL" and "c \<noteq> minus_sign" and "c \<noteq> colon" and "NUL \<notin> set b" and "c \<notin> set b"
  shows "brace_loop c (b @ x # r) n None = Some (n + length b, x, default_at b n)"
  using assms(5,6)
proof (induction b arbitrary: n)
  case Nil
  then show ?case using assms(1) by (simp add: default_at_def)
next
  case (Cons a b)
  have IH: "brace_loop c (b @ x # r) (Suc n) None = Some (Suc n + length b, x, default_at b (Suc n))"
    using Cons by simp
  have D: "brace_loop c (b @ x # r) (Suc n) (Some k) = Some (Suc n + length b, x, Some k)" for k
    using Cons.prems assms by (intro brace_loop_default) simp_all
  have hd: "load (b @ x # r) 0 = Some (if b = [] then x else hd b)" by (cases b) simp_all
  have x: "x \<noteq> minus_sign" using assms(1,3) by auto
  consider "a = minus_sign" | "a = colon" "b \<noteq> []" "hd b = minus_sign"
    | "a \<noteq> minus_sign" "\<not> (a = colon \<and> b \<noteq> [] \<and> hd b = minus_sign)" by blast
  then show ?case
  proof cases
    case 3
    then have "default_at (a # b) n = default_at b (Suc n)"
      by (auto simp: default_at_def split: prod.splits)
    then show ?thesis using 3 Cons.prems IH x by (auto simp: hd)
  qed (use Cons.prems D in \<open>auto simp: hd default_at_def\<close>)
qed

lemma split_default_text:
  "b = (case split_default b of (n, None) \<Rightarrow> n
        | (n, Some (k, t)) \<Rightarrow> n @ k # (if k = colon then minus_sign # t else t))"
  by (induction b rule: split_default.induct) (auto split: prod.splits option.splits simp: neq_Nil_conv)

lemma split_default_kind: "snd (split_default b) = Some (k, t) \<Longrightarrow> k = minus_sign \<or> k = colon"
  by (induction b rule: split_default.induct) (auto split: prod.splits if_splits)

lemma closing_simps [simp]:
  "closing c \<noteq> NUL" "closing c \<noteq> minus_sign" "closing c \<noteq> colon"
  by (simp_all add: closing_def)

lemma braced_closed:
  assumes b: "closing c \<notin> set b" "no_nul b" and w: "writable st"
    and res: "resolves lookup env (fst (split_default b))"
  shows "braced_variable lookup (closing c) (b @ closing c # r) st =
    map_option (Pair r) (advance (subst env (Braced c b)) (token_removed (Braced c b))
      (length (subst env (Braced c b))) (dollar \<in> set (subst env (Braced c b))) st)"
proof -
  let ?p = "b @ closing c # r"
  have l: "brace_loop (closing c) ?p 0 None = Some (length b, closing c, default_at b 0)"
    using b brace_loop_eq [of "closing c" "closing c" b r 0] by (simp add: no_nul_def)
  obtain n d where sd: "split_default b = (n, d)" by (cases "split_default b") auto
  have bt: "b = (case d of None \<Rightarrow> n | Some (k, t) \<Rightarrow> n @ k # (if k = colon then minus_sign # t else t))"
    using split_default_text [of b] sd by simp
  let ?st = "st\<lparr>sc_remove := sc_remove st + (3 + (length b + 1))\<rparr>"
  have wst: "writable ?st" using w by (cases st) (simp add: writable_def)
  have E: "expand_value lookup (take (length n) ?p) cdef def lendef ?st =
      advance (with_default env n d) 0 (length (with_default env n d)) (dollar \<in> set (with_default env n d)) ?st"
    if "holds_default d cdef def lendef" for cdef def lendef
  proof -
    have "take (length n) ?p = n" by (subst bt) (auto split: option.splits)
    then show ?thesis using expand_value_default [OF _ that wst, of lookup env n] res sd by simp
  qed
  show ?thesis
  proof (cases d)
    case None
    then have "n = b" using bt by simp
    then show ?thesis
      unfolding braced_variable_def l using E [of None "[]" 0] sd None
      by (simp add: default_at_def holds_default_def advance_removed bind_Some_Pair)
  next
    case (Some kt)
    then obtain k t where kt: "d = Some (k, t)" by (cases kt) auto
    let ?j = "length n + 1 + (if k = colon then 1 else 0)"
    have bt': "b = n @ k # (if k = colon then minus_sign # t else t)" using bt kt by simp
    have dr: "drop ?j ?p = t @ closing c # r" by (subst bt') simp
    have lt: "length b - ?j = length t" by (subst bt') simp
    have nt: "no_nul t" using b(2) bt' by (auto split: if_splits)
    have "holds_default d (Some k) (drop ?j ?p) (length b - ?j)"
      unfolding dr lt using kt nt by (simp add: holds_default_def)
    note E = E [OF this]
    show ?thesis
      unfolding braced_variable_def l bind.bind_lunit prod.case
      using E sd kt by (simp add: default_at_def advance_removed bind_Some_Pair)
  qed
qed

lemma unclosed_end:
  assumes "closing c \<notin> set b" "no_nul b" and "writable st"
  shows "braced_variable lookup (closing c) (b @ NUL # r) st =
    map_option (Pair (NUL # r)) (advance [] (token_removed (Unclosed c b)) 0 False st)"
proof -
  have l: "brace_loop (closing c) (b @ NUL # r) 0 None = Some (length b, NUL, default_at b 0)"
    using assms brace_loop_eq [of NUL "closing c" b r 0] by (simp add: no_nul_def)
  show ?thesis
    unfolding braced_variable_def l token_removed.simps
    using remove_advance [OF assms(3), of "2 + length b", symmetric]
    by (simp split: option.split prod.split)
qed

lemma name_char_not_NUL [simp]: "\<not> name_char NUL"
  by (simp add: name_char_def)

lemma plain_variable_eq:
  assumes n: "list_all name_char n" and s: "s = [] \<or> \<not> name_char (hd s)" and w: "writable st"
    and res: "resolves lookup env n"
  shows "plain_variable lookup (n @ s @ NUL # r) st =
    map_option (Pair (s @ NUL # r)) (advance (subst env (Named n)) (token_removed (Named n))
      (length (subst env (Named n))) (dollar \<in> set (subst env (Named n))) st)"
proof -
  obtain x q where q: "s @ NUL # r = x # q" by (cases s) auto
  then have "\<not> name_char x" using s by (cases s) auto
  then have tw: "takeWhile name_char (n @ s @ NUL # r) = n"
    unfolding q using n by (subst takeWhile_append2) (auto simp: list_all_iff)
  have ld: "load (n @ s @ NUL # r) (length n) = Some x"
    unfolding q by (simp add: load_def)
  have wst: "writable (st\<lparr>sc_remove := sc_remove st + (1 + length n)\<rparr>)"
    using w by (cases st) (simp add: writable_def)
  show ?thesis
    unfolding plain_variable_def tw Let_def ld bind.bind_lunit
    using expand_value_default [OF res _ wst, of None None "[]" 0]
    by (simp add: holds_default_def advance_removed [of _ _ _ _ _ "Suc (length n)", simplified] bind_Some_Pair)
qed

text \<open>One scan does to its variables what the tokens of the text say.\<close>

definition scan_effect :: "environment \<Rightarrow> string \<Rightarrow> scan_state \<Rightarrow> scan_state option" where
  "scan_effect env s = advance (expand1 env s) (removed s) (added env s) (brings_dollar env s)"

lemma scan_effect_Cons:
  assumes "tokens s = t # tokens s'"
  shows "scan_effect env s st = do {
    st \<leftarrow> advance (subst env t) (token_removed t) (token_added env t) (is_variable t \<and> dollar \<in> set (subst env t)) st;
    scan_effect env s' st }"
  unfolding scan_effect_def advance_append
  using assms by (simp add: expand1_def removed_def added_def brings_dollar_def)

lemma bind_advance_cong:
  "(\<And>st'. writable st' \<Longrightarrow> f st' = g st') \<Longrightarrow> (advance o1 r a d st \<bind> f) = (advance o1 r a d st \<bind> g)"
  by (cases "advance o1 r a d st") (auto dest: advance_writable)

lemma scan_eq:
  assumes "no_nul s" and "\<forall>t \<in> set (tokens s). \<forall>n \<in> names t. resolves lookup env n" and "writable st"
  shows "scan lookup (s @ NUL # r) st = map_option (Pair r) (scan_effect env s st)"
  using assms
proof (induction s arbitrary: st rule: tokens_induct)
  case Nil
  have "advance [] 0 0 False st = Some st" using remove_advance [OF Nil.prems(3), of 0] by (cases st) simp
  then show ?case
    by (simp add: scan.simps(2) scan_effect_def expand1_def removed_def added_def brings_dollar_def)
next
  case (Plain c s)
  obtain x q where q: "s @ NUL # r = x # q" by (cases s) auto
  have x: "c = backslash \<longrightarrow> x \<noteq> backslash \<and> x \<noteq> dollar" using Plain.hyps(2) q by (cases s) auto
  have c: "c \<noteq> NUL" "no_nul s" "\<forall>t \<in> set (tokens s). \<forall>n \<in> names t. resolves lookup env n"
    using Plain.prems Plain.hyps by simp_all
  have "scan lookup ((c # s) @ NUL # r) st = do { st \<leftarrow> write_chars [c] st; scan lookup (s @ NUL # r) st }"
    using c(1) x Plain.hyps(1) unfolding append_Cons q by (subst scan.simps(2)) simp
  also have "\<dots> = do { st \<leftarrow> advance [c] 0 0 False st; map_option (Pair r) (scan_effect env s st) }"
    unfolding write_chars_advance by (rule bind_advance_cong) (rule Plain.IH [OF c(2,3)])
  also have "\<dots> = map_option (Pair r) (scan_effect env (c # s) st)"
    unfolding scan_effect_Cons [OF Plain.hyps(3)] by (simp add: token_added_def map_option_bind comp_def)
  finally show ?case .
next
  case (Escaped e c s)
  have p: "no_nul s" "\<forall>t \<in> set (tokens s). \<forall>n \<in> names t. resolves lookup env n"
    using Escaped.prems Escaped.hyps by simp_all
  have "scan lookup ((e # c # s) @ NUL # r) st =
      do { st \<leftarrow> write_chars [c] (st\<lparr>sc_remove := sc_remove st + 1\<rparr>); scan lookup (s @ NUL # r) st }"
    using Escaped.hyps(1) by (subst append_Cons, subst scan.simps(2)) auto
  also have "\<dots> = do { st \<leftarrow> advance [c] 1 0 False st; map_option (Pair r) (scan_effect env s st) }"
    unfolding write_chars_advance(1) by (rule bind_advance_cong) (rule Escaped.IH [OF p])
  also have "\<dots> = map_option (Pair r) (scan_effect env (e # c # s) st)"
    unfolding scan_effect_Cons [OF Escaped.hyps(2)] by (simp add: token_added_def map_option_bind comp_def)
  finally show ?case .
next
  case (Named n s)
  have p: "no_nul s" "\<forall>t \<in> set (tokens s). \<forall>n \<in> names t. resolves lookup env n" "resolves lookup env n"
    using Named.prems Named.hyps by simp_all
  obtain x q where q: "n @ s @ NUL # r = x # q" by (cases n; cases s) auto
  have x: "x \<notin> {dollar, CHR ''('', CHR ''{''}" using Named.hyps(3) q by (cases n; cases s) auto
  have "scan lookup ((dollar # n @ s) @ NUL # r) st =
      do { (p, st) \<leftarrow> scan_variable lookup (n @ s @ NUL # r) st; scan lookup p st }"
    unfolding append_Cons append_assoc using x by (subst scan.simps(2)) (simp add: q)
  also have "scan_variable lookup (n @ s @ NUL # r) st = plain_variable lookup (n @ s @ NUL # r) st"
    using x by (simp add: scan_variable_def q)
  also have "\<dots> = map_option (Pair (s @ NUL # r)) (advance (subst env (Named n)) (token_removed (Named n))
      (length (subst env (Named n))) (dollar \<in> set (subst env (Named n))) st)"
    by (rule plain_variable_eq [OF Named.hyps(1,2) Named.prems(3) p(3)])
  also have "(map_option (Pair (s @ NUL # r)) (advance (subst env (Named n)) (token_removed (Named n))
      (length (subst env (Named n))) (dollar \<in> set (subst env (Named n))) st) \<bind> (\<lambda>(p, st). scan lookup p st)) =
     do { st \<leftarrow> advance (subst env (Named n)) (token_removed (Named n))
            (length (subst env (Named n))) (dollar \<in> set (subst env (Named n))) st;
          map_option (Pair r) (scan_effect env s st) }"
    unfolding bind_map_option comp_def prod.case by (rule bind_advance_cong) (rule Named.IH [OF p(1,2)])
  also have "\<dots> = map_option (Pair r) (scan_effect env (dollar # n @ s) st)"
    unfolding scan_effect_Cons [OF Named.hyps(4)] by (simp add: token_added_def map_option_bind comp_def)
  finally show ?case .
next
  case (Braced c b s)
  have p: "no_nul s" "\<forall>t \<in> set (tokens s). \<forall>n \<in> names t. resolves lookup env n"
    "resolves lookup env (fst (split_default b))" "no_nul b"
    using Braced.prems Braced.hyps by simp_all
  have c: "c \<noteq> dollar" "(if c = CHR ''('' then CHR '')'' else if c = CHR ''{'' then CHR ''}'' else NUL) = closing c"
    using Braced.hyps(1) by (auto simp: closing_def)
  let ?p = "b @ closing c # s @ NUL # r" and ?t = "Braced c b"
  have "scan lookup ((dollar # c # b @ closing c # s) @ NUL # r) st =
      do { (p, st) \<leftarrow> scan_variable lookup (c # ?p) st; scan lookup p st }"
    using c(1) by (subst append_Cons, subst scan.simps(2)) simp
  also have "scan_variable lookup (c # ?p) st = braced_variable lookup (closing c) ?p st"
    by (simp add: scan_variable_def Let_def c(2))
  also have "\<dots> = map_option (Pair (s @ NUL # r)) (advance (subst env ?t) (token_removed ?t)
      (length (subst env ?t)) (dollar \<in> set (subst env ?t)) st)"
    by (rule braced_closed [OF Braced.hyps(2) p(4) Braced.prems(3) p(3)])
  also have "(map_option (Pair (s @ NUL # r)) (advance (subst env ?t) (token_removed ?t)
      (length (subst env ?t)) (dollar \<in> set (subst env ?t)) st) \<bind> (\<lambda>(p, st). scan lookup p st)) =
     do { st \<leftarrow> advance (subst env ?t) (token_removed ?t) (length (subst env ?t)) (dollar \<in> set (subst env ?t)) st;
          map_option (Pair r) (scan_effect env s st) }"
    unfolding bind_map_option comp_def prod.case by (rule bind_advance_cong) (rule Braced.IH [OF p(1,2)])
  also have "\<dots> = map_option (Pair r) (scan_effect env (dollar # c # b @ closing c # s) st)"
    unfolding scan_effect_Cons [OF Braced.hyps(3)] by (simp add: token_added_def map_option_bind comp_def)
  finally show ?case .
next
  case (Unclosed c b)
  have p: "no_nul b" using Unclosed.prems by simp
  have c: "c \<noteq> dollar" "(if c = CHR ''('' then CHR '')'' else if c = CHR ''{'' then CHR ''}'' else NUL) = closing c"
    using Unclosed.hyps(1) by (auto simp: closing_def)
  have "scan lookup ((dollar # c # b) @ NUL # r) st =
      do { (p, st) \<leftarrow> scan_variable lookup (c # b @ NUL # r) st; scan lookup p st }"
    using c(1) by (subst append_Cons, subst scan.simps(2)) simp
  also have "scan_variable lookup (c # b @ NUL # r) st = braced_variable lookup (closing c) (b @ NUL # r) st"
    by (simp add: scan_variable_def Let_def c(2))
  also have "\<dots> = map_option (Pair (NUL # r)) (advance [] (token_removed (Unclosed c b)) 0 False st)"
    by (rule unclosed_end [OF Unclosed.hyps(2) p Unclosed.prems(3)])
  also have "(map_option (Pair (NUL # r)) (advance [] (token_removed (Unclosed c b)) 0 False st) \<bind>
      (\<lambda>(p, st). scan lookup p st)) = map_option (Pair r) (advance [] (token_removed (Unclosed c b)) 0 False st)"
    by (simp add: bind_map_option comp_def scan.simps(2) bind_Some_Pair)
  also have "\<dots> = map_option (Pair r) (scan_effect env (dollar # c # b) st)"
    by (simp add: scan_effect_def expand1_def removed_def added_def brings_dollar_def token_added_def Unclosed.hyps(3))
  finally show ?case .
qed

subsection \<open>The levels of the expansion\<close>

lemma token_count:
  "length (token_text t) + token_added env t + (if is_braced t then 1 else 0) = length (subst env t) + token_removed t"
  by (cases t) (auto simp: token_added_def)

lemma block_count: "length s + added env s + braced_count s = length (expand1 env s) + removed s"
proof -
  let ?ts = "tokens s"
  have f: "length (filter is_braced ts) = sum_list (map (\<lambda>t. if is_braced t then 1 else 0) ts)" for ts
    by (induction ts) simp_all
  have "sum_list (map (\<lambda>t. length (token_text t) + token_added env t + (if is_braced t then 1 else 0)) ?ts) =
      sum_list (map (\<lambda>t. length (subst env t) + token_removed t) ?ts)"
    by (simp only: token_count)
  moreover have "length s = sum_list (map (\<lambda>t. length (token_text t)) ?ts)"
    by (subst (1) tokens_text [symmetric]) (simp add: length_concat comp_def)
  ultimately show ?thesis
    by (simp add: sum_list_addf added_def braced_count_def f expand1_def removed_def length_concat comp_def)
qed

lemma removed_eq_0: "removed s = 0 \<longleftrightarrow> plain_text s"
proof -
  have "token_removed t = 0 \<longleftrightarrow> (\<exists>c. t = Plain c)" for t by (cases t) auto
  then show ?thesis by (auto simp: removed_def plain_text_def)
qed

lemma load_at: "n = length a \<Longrightarrow> load (a @ x # r) n = Some x"
  by (simp add: load_def)

text \<open>One level: the counting scan, the allocation and the writing scan.\<close>

lemma counting_scan:
  assumes "no_nul s" and "\<forall>t \<in> set (tokens s). \<forall>n \<in> names t. resolves lookup env n"
  shows "expand_loop malloc lookup depth (s @ NUL # r) None =
    (if plain_text s then Some None
     else let i = nat ((int (length (expand1 env s)) + 1 - int (braced_count s)) mod 2 ^ 64) in
       if i \<ge> RP_EXPAND_VARS_LIMIT then Some None
       else (case malloc (i + 1) of None \<Rightarrow> Some None
             | Some b \<Rightarrow> expand_loop malloc lookup depth (s @ NUL # r) (Some b)))"
proof -
  let ?st = "\<lparr>sc_write = None, sc_remove = removed s, sc_add = added env s, sc_again = False\<rparr>"
  have "scan lookup (s @ NUL # r) (scan_start None) = Some (r, ?st)"
    using scan_eq [OF assms, of "scan_start None" r] by (simp add: scan_start_def writable_def scan_effect_def)
  moreover have "block_index (s @ NUL # r) r ?st =
      nat ((int (length (expand1 env s)) + 1 - int (braced_count s)) mod 2 ^ 64)"
  proof -
    have "int (length s) + int (added env s) + int (braced_count s) = int (length (expand1 env s)) + int (removed s)"
      using block_count [of s env] by linarith
    then have "int (length (s @ NUL # r) - length r) + int (added env s) - int (removed s) =
        int (length (expand1 env s)) + 1 - int (braced_count s)" by simp
    then show ?thesis by (simp only: block_index_def scan_state.simps)
  qed
  ultimately show ?thesis
    by (subst expand_loop.simps) (simp add: removed_eq_0 Let_def cong: if_cong option.case_cong)
qed

lemma writing_scan:
  assumes "no_nul s" and "\<forall>t \<in> set (tokens s). \<forall>n \<in> names t. resolves lookup env n"
  shows "expand_loop malloc lookup depth (s @ NUL # r) (Some b) =
    (let out = expand1 env s in
     if length out < length b
     then (if brings_dollar env s
           then (if depth + 1 \<ge> RP_EXPAND_VARS_DEPTH_MAX then Some None
                 else expand_loop malloc lookup (depth + 1) (out @ NUL # drop (length out + 1) b) None)
           else Some (Some (out @ NUL # drop (length out + 1) b)))
     else None)"
proof -
  let ?out = "expand1 env s"
  have w: "writable (scan_start (Some b))" and st: "sc_write (scan_start (Some b)) = Some (b, 0)"
    by (simp_all add: scan_start_def writable_def)
  note S = scan_eq [OF assms w, of r, unfolded scan_effect_def advance_Some [OF st]]
  show ?thesis
  proof (cases "length ?out \<le> length b")
    case False
    then show ?thesis by (subst expand_loop.simps) (simp add: S Let_def)
  next
    case True
    then have sc: "scan lookup (s @ NUL # r) (scan_start (Some b)) = Some (r,
        \<lparr>sc_write = Some (overwrite b 0 ?out, length ?out), sc_remove = removed s, sc_add = added env s,
          sc_again = brings_dollar env s\<rparr>)"
      using S True by (simp add: scan_start_def)
    have "store (overwrite b 0 ?out) (length ?out) NUL =
        (if length ?out < length b then Some (?out @ NUL # drop (length ?out + 1) b) else None)"
      using True by (simp add: store_def overwrite_def list_update_append drop_Suc Cons_nth_drop_Suc [symmetric]
          split: nat.split)
    then show ?thesis
      by (subst expand_loop.simps) (simp add: sc Let_def cong: if_cong)
  qed
qed

text \<open>
  The texts whose levels fit their blocks: each level has names that satisfy a condition, at most one closed braced variable and a result of less than \<open>2 ^ 63\<close> characters.
\<close>

fun good_levels :: "(string \<Rightarrow> bool) \<Rightarrow> environment \<Rightarrow> nat \<Rightarrow> string \<Rightarrow> bool" where
  "good_levels known env 0 s = True"
| "good_levels known env (Suc k) s =
     ((\<forall>t \<in> set (tokens s). \<forall>n \<in> names t. known n) \<and> braced_count s \<le> 1 \<and>
      int (length (expand1 env s)) < 2 ^ 63 \<and>
      (brings_dollar env s \<longrightarrow> good_levels known env k (expand1 env s)))"

lemma no_nul_expand1:
  assumes "no_nul s" and "\<forall>t \<in> set (tokens s). \<forall>n \<in> names t. resolves lookup env n"
  shows "no_nul (expand1 env s)"
proof -
  have v: "no_nul v" if "resolves lookup env n" "env n = Some v" for n v
    using that by (auto simp: resolves_def holds_value_def)
  have "no_nul (subst env t)" if t: "t \<in> set (tokens s)" for t
  proof -
    have "set (token_text t) \<subseteq> set (concat (map token_text (tokens s)))" using t by auto
    then have tt: "no_nul (token_text t)" using assms(1) by (auto simp: tokens_text no_nul_def)
    show ?thesis
    proof (cases t)
      case (Named n)
      then show ?thesis using t assms(2) v by (fastforce simp: with_default_def split: option.split)
    next
      case (Braced c b)
      obtain n d where sd: "split_default b = (n, d)" by (cases "split_default b") auto
      have "no_nul u" if "d = Some (k, u)" for k u
        using tt Braced split_default_text [of b] sd that by (auto simp: no_nul_def split: if_splits)
      moreover have "resolves lookup env n" using t assms(2) Braced sd by fastforce
      ultimately show ?thesis using Braced sd v
        by (auto simp: with_default_def split: option.split)
    qed (use tt in simp_all)
  qed
  then show ?thesis by (auto simp: expand1_def no_nul_def)
qed

lemma names_no_nul:
  assumes "no_nul s" and t: "t \<in> set (tokens s)" and n: "n \<in> names t"
  shows "no_nul n"
proof -
  have "set (token_text t) \<subseteq> set (concat (map token_text (tokens s)))" using t by auto
  then have tt: "no_nul (token_text t)" using assms(1) by (auto simp: tokens_text no_nul_def)
  show ?thesis
  proof (cases t)
    case (Braced c b)
    obtain n' d where "split_default b = (n', d)" by (cases "split_default b") auto
    then show ?thesis using tt n Braced split_default_text [of b] by (auto simp: no_nul_def split: option.splits prod.splits)
  qed (use tt n in simp_all)
qed

lemma expand_loop_correct:
  assumes known: "\<And>n. known n \<Longrightarrow> no_nul n \<Longrightarrow> resolves lookup env n"
    and "no_nul s" and "good_levels known env k s" and "depth + k = RP_EXPAND_VARS_DEPTH_MAX"
    and "0 < k" and m: "allocates malloc" "\<forall>n. malloc n \<noteq> None"
  shows "\<exists>res. expand_loop malloc lookup depth (s @ NUL # r) None = Some res \<and>
    rel_option (\<lambda>b t. \<exists>r. b = cstr t @ r) res (expanded env k s)"
  using assms(2-5)
proof (induction k arbitrary: s depth r)
  case (Suc k)
  let ?out = "expand1 env s" and ?B = "braced_count s"
  have g: "\<forall>t \<in> set (tokens s). \<forall>n \<in> names t. resolves lookup env n" "?B \<le> 1" "int (length ?out) < 2 ^ 63"
    "brings_dollar env s \<longrightarrow> good_levels known env k ?out"
    using Suc.prems(2) known names_no_nul [OF Suc.prems(1)] by simp_all
  let ?i = "length ?out + 1 - ?B"
  have "(int (length ?out) + 1 - int ?B) mod 2 ^ 64 = int (length ?out) + 1 - int ?B"
    using g(2,3) by (intro mod_pos_pos_trivial) simp_all
  then have i: "nat ((int (length ?out) + 1 - int ?B) mod 2 ^ 64) = ?i" using g(2) by linarith
  note C = counting_scan [OF Suc.prems(1) g(1), of malloc depth r, unfolded i Let_def]
  show ?case
  proof (cases "plain_text s \<or> ?i \<ge> RP_EXPAND_VARS_LIMIT")
    case True
    then show ?thesis unfolding C by auto
  next
    case False
    obtain b where b: "malloc (?i + 1) = Some b" using m(2) by blast
    then have lb: "length b = ?i + 1" using m(1) by (rule allocatesD [rotated])
    then have lt: "length ?out < length b" using g(2) by linarith
    let ?b = "?out @ NUL # drop (length ?out + 1) b"
    have W: "expand_loop malloc lookup depth (s @ NUL # r) None =
        (if brings_dollar env s
         then (if depth + 1 \<ge> RP_EXPAND_VARS_DEPTH_MAX then Some None
               else expand_loop malloc lookup (depth + 1) ?b None)
         else Some (Some ?b))"
      unfolding C using False b by (simp add: writing_scan [OF Suc.prems(1) g(1)] lt Let_def)
    show ?thesis
    proof (cases "brings_dollar env s")
      case br: True
      show ?thesis
      proof (cases "k = 0")
        case True
        then show ?thesis using W br False Suc.prems(3) by simp
      next
        case False': False
        then have "\<not> depth + 1 \<ge> RP_EXPAND_VARS_DEPTH_MAX" using Suc.prems(3) by simp
        then have "expand_loop malloc lookup depth (s @ NUL # r) None = expand_loop malloc lookup (depth + 1) ?b None"
          using W br by simp
        moreover have "expanded env (Suc k) s = expanded env k ?out" using False br by simp
        ultimately show ?thesis
          using Suc.IH [of ?out "depth + 1" "drop (length ?out + 1) b"] g(4) br False' Suc.prems(3)
            no_nul_expand1 [OF Suc.prems(1) g(1)] by simp
      qed
    next
      case br: False
      then have "expanded env (Suc k) s = Some ?out" using False by simp
      then show ?thesis using W br by (simp add: cstr_def)
    qed
  qed
qed simp

subsection \<open>Environments\<close>

text \<open>The value that the first definition of a name gives.\<close>

fun definition_of :: "string list \<Rightarrow> environment" where
  "definition_of [] n = None"
| "definition_of (d # ds) n =
     (if take (length n + 1) d = n @ ''='' then Some (drop (length n + 1) d) else definition_of ds n)"

definition definitions_of :: "string list option \<Rightarrow> environment" where
  "definitions_of vars = (case vars of None \<Rightarrow> Map.empty | Some ds \<Rightarrow> definition_of ds)"

text \<open>
  The comparison reads as many characters of each definition as the name has: it stays within
  the definitions when each has at least that many, its terminating zero included.
\<close>

definition within :: "string list \<Rightarrow> string \<Rightarrow> bool" where
  "within ds n \<longleftrightarrow> (\<forall>d \<in> set ds. length n \<le> length d + 1)"

lemma load_cstr_append: "load (cstr (n @ u)) (length n) = Some (hd (cstr u))"
  by (cases u) (simp_all add: cstr_def load_def)

lemma drop_cstr: "k \<le> length s \<Longrightarrow> drop k (cstr s) = cstr (drop k s)"
  by (simp add: cstr_def)

lemma holds_cstr [simp]: "no_nul v \<Longrightarrow> holds_value \<lparr>ev_value = Some (cstr v), ev_length = 0\<rparr> v"
  by (simp add: holds_value_def cstr_def)

lemma definition_search_eq:
  assumes "no_nul n" and "\<forall>d \<in> set ds. no_nul d" and "within ds n"
  shows "rp_expand_vars_search (map cstr ds) n (length n) = Some (map_option cstr (definition_of ds n))"
  using assms(2,3)
proof (induction ds)
  case (Cons d ds)
  have IH: "rp_expand_vars_search (map cstr ds) n (length n) = Some (map_option cstr (definition_of ds n))"
    using Cons by (simp add: within_def)
  have l: "length n \<le> length d + 1" using Cons.prems(2) by (simp add: within_def)
  have m: "memcmp_eq (cstr d) n (length n) = Some (take (length n) (cstr d) = n)"
    using l by (simp add: memcmp_eq_def)
  show ?case
  proof (cases "length n \<le> length d \<and> take (length n) d = n")
    case True
    then obtain u where d: "d = n @ u" by (metis append_take_drop_id)
    have hd: "hd (cstr u) = CHR ''='' \<longleftrightarrow> (\<exists>v. u = CHR ''='' # v)" by (cases u) (auto simp: cstr_def)
    have "take (length n + 1) d = n @ ''='' \<longleftrightarrow> (\<exists>v. u = CHR ''='' # v)" by (cases u) (auto simp: d)
    then show ?thesis using m d IH hd
      by (auto simp: load_cstr_append drop_cstr)
  next
    case False
    have "take (length n) (cstr d) \<noteq> n"
    proof (cases "length n \<le> length d")
      case True
      then show ?thesis using False by simp
    next
      case long: False
      then have "take (length n) (cstr d) = cstr d" using l by simp
      then show ?thesis using assms(1) by (auto simp: cstr_def)
    qed
    moreover have "take (length n + 1) d \<noteq> n @ ''=''"
    proof
      assume t: "take (length n + 1) d = n @ ''=''"
      then have "length (take (length n + 1) d) = length n + 1" by simp
      then have "length n + 1 \<le> length d" by simp
      moreover have "take (length n) (take (length n + 1) d) = n" unfolding t by simp
      ultimately show False using False by (simp add: min_def)
    qed
    ultimately show ?thesis using m IH by simp
  qed
qed simp

lemma getvar_resolves:
  assumes "no_nul n" and "\<forall>ds \<in> set dss. (\<forall>d \<in> set ds. no_nul d) \<and> within ds n"
    and env: "env n = foldr (\<lambda>ds r. case definition_of ds n of None \<Rightarrow> r | Some v \<Rightarrow> Some v) dss None"
  shows "resolves (getvar (map (\<lambda>ds. Some (map cstr ds)) dss @ None # rest)) env n"
proof -
  have nn: "no_nul v" if "definition_of ds n = Some v" "\<forall>d \<in> set ds. no_nul d" for ds v
    using that by (induction ds) (auto simp: no_nul_def split: if_splits dest: in_set_dropD)
  show ?thesis
    unfolding resolves_def env using assms(2)
  proof (induction dss)
    case (Cons ds dss)
    then show ?case
      using definition_search_eq [OF assms(1), of ds] nn [of ds]
      by (cases "definition_of ds n") auto
  qed (simp, blast)
qed

lemma strdup_eq:
  assumes "no_nul s" and "allocates malloc" and "\<forall>n. malloc n \<noteq> None"
  shows "strdup malloc (cstr s) = Some (Some (cstr s))"
proof -
  obtain b where b: "malloc (length s + 1) = Some b" using assms(3) by blast
  then have "length b = length s + 1" using assms(2) by (rule allocatesD [rotated])
  then have "memcpy b 0 (cstr s) (length s + 1) = Some (cstr s)" by (simp add: memcpy_def)
  then show ?thesis using b assms(1) by (simp add: strdup_def)
qed

text \<open>
  Property C18: on a text whose levels have at most one closed braced variable each,
  \<open>rp_expand_vars\<close> stays within its blocks and the definitions it compares and returns the text in
  which every variable is replaced, again while a value holds a variable and up to ten times,
  by its first definition in \<open>before\<close>, the environment and \<open>after\<close>, or by its
  default; it returns nothing, or the copy asked for, when there is nothing to expand or a
  limit is reached. Allocations succeed, and the definitions have, with their zeros, at least the length of
  each name that is looked for (\<open>within\<close>): the comparison reads beyond a shorter one.
\<close>

theorem rp_expand_vars_correct:
  assumes "no_nul s" and "\<forall>d \<in> set (ds @ environ @ ds'). no_nul d"
    and "before = Some ds \<or> before = None \<and> ds = []" and "after = Some ds' \<or> after = None \<and> ds' = []"
    and "env = definition_of ds' ++ definition_of environ ++ definition_of ds"
    and "good_levels (within (ds @ environ @ ds')) env RP_EXPAND_VARS_DEPTH_MAX s"
    and "allocates malloc" and "\<forall>n. malloc n \<noteq> None"
  shows "\<exists>res. rp_expand_vars malloc (Some (map cstr environ)) (Some (cstr s)) copy
      (map_option (map cstr) before) (map_option (map cstr) after) = Some res \<and>
    (case expanded env RP_EXPAND_VARS_DEPTH_MAX s of
       Some t \<Rightarrow> \<exists>r. res = Some (cstr t @ r)
     | None \<Rightarrow> res = (if copy then Some (cstr s) else None))"
proof -
  define arrays where "arrays = drop (if before = None then 1 else 0)
    [map_option (map cstr) before, Some (map cstr environ), map_option (map cstr) after, None]"
  have res: "resolves (getvar arrays) env n" if n: "within (ds @ environ @ ds') n" "no_nul n" for n
  proof -
    define dss where "dss = (if before = None then [] else [ds]) @ [environ] @ (if after = None then [] else [ds'])"
    have "arrays = map (\<lambda>ds. Some (map cstr ds)) dss @ None # (if after = None then [None] else [])"
      using assms(3,4) by (auto simp: arrays_def dss_def)
    moreover have "env n = foldr (\<lambda>ds r. case definition_of ds n of None \<Rightarrow> r | Some v \<Rightarrow> Some v) dss None"
      using assms(3,4) by (auto simp: assms(5) dss_def map_add_def split: option.split)
    ultimately show ?thesis
      using getvar_resolves [OF n(2), of dss env "if after = None then [None] else []"] n(1) assms(2)
      by (auto simp: dss_def within_def split: if_splits)
  qed
  obtain r where r: "expand_loop malloc (getvar arrays) 0 (cstr s) None = Some r"
    "rel_option (\<lambda>b t. \<exists>r. b = cstr t @ r) r (expanded env RP_EXPAND_VARS_DEPTH_MAX s)"
    using expand_loop_correct [OF res assms(1,6) _ _ assms(7,8), of 0 "[]"]
    by (auto simp: RP_EXPAND_VARS_DEPTH_MAX_def cstr_def)
  have "rp_expand_vars malloc (Some (map cstr environ)) (Some (cstr s)) copy
      (map_option (map cstr) before) (map_option (map cstr) after) = expanded_or_copy malloc r copy (Some (cstr s))"
    using r(1) by (simp add: rp_expand_vars_def rp_expand_vars_array_def rp_expand_vars_function_def expand_def
        arrays_def [symmetric])
  then show ?thesis
    using r(2) strdup_eq [OF assms(1,7,8)]
    by (cases "expanded env RP_EXPAND_VARS_DEPTH_MAX s"; cases r) (auto simp: expanded_or_copy_def)
qed

theorem rp_expand_vars_correct_witness:
  "\<exists>r. rp_expand_vars alloc_zero (Some [cstr ''USER=joe'']) (Some (cstr ''/home/${USER:-me}/$DIR'')) False
     None (Some [cstr ''DIR=src'', cstr ''USER=you'']) = Some (Some (cstr ''/home/joe/src'' @ r))"
proof -
  let ?s = "''/home/${USER:-me}/$DIR''"
  let ?env = "definition_of [''DIR=src'', ''USER=you''] ++ definition_of [''USER=joe''] ++ definition_of []"
  have D: "RP_EXPAND_VARS_DEPTH_MAX = Suc 9" by (simp add: RP_EXPAND_VARS_DEPTH_MAX_def)
  have t: "tokens ?s = map Plain ''/home/'' @ [Braced CHR ''{'' ''USER:-me'', Plain CHR ''/'', Named ''DIR'']"
    by code_simp
  have o: "expand1 ?env ?s = ''/home/joe/src''"
    by (simp add: expand1_def t with_default_def map_add_def)
  have b: "\<not> brings_dollar ?env ?s"
    by (simp add: brings_dollar_def t with_default_def map_add_def)
  have g: "good_levels (within ([] @ [''USER=joe''] @ [''DIR=src'', ''USER=you''])) ?env RP_EXPAND_VARS_DEPTH_MAX ?s"
    unfolding D good_levels.simps o braced_count_def t using b by (simp add: within_def)
  have e: "expanded ?env RP_EXPAND_VARS_DEPTH_MAX ?s = Some ''/home/joe/src''"
    unfolding D expanded.simps o using b by (simp add: plain_text_def t RP_EXPAND_VARS_LIMIT_def)
  show ?thesis
    using rp_expand_vars_correct [of ?s "[]" "[''USER=joe'']" "[''DIR=src'', ''USER=you'']" None
        "Some [''DIR=src'', ''USER=you'']" ?env alloc_zero False] g e
    by (auto simp: alloc_zero_def)
qed

text \<open>
  The count of a closed braced variable is one too many. A text with two of them or
  more gets a block too small for its first level, and the writing scan leaves the block.
\<close>

theorem rp_expand_vars_overflow:
  assumes "no_nul s" and "\<forall>t \<in> set (tokens s). \<forall>n \<in> names t. resolves lookup env n"
    and "2 \<le> braced_count s" and "braced_count s \<le> length (expand1 env s) + 1"
    and "length (expand1 env s) + 1 - braced_count s < RP_EXPAND_VARS_LIMIT"
    and "allocates malloc" and "malloc (length (expand1 env s) + 2 - braced_count s) = Some b"
  shows "rp_expand_vars_function malloc (Some (cstr s)) copy lookup = None"
proof -
  let ?n = "length (expand1 env s)" and ?B = "braced_count s"
  let ?i = "?n + 1 - ?B"
  have np: "\<not> plain_text s"
  proof
    assume "plain_text s"
    then have "filter is_braced (tokens s) = []" by (auto simp: plain_text_def filter_empty_conv)
    then show False using assms(3) by (simp add: braced_count_def)
  qed
  have "int ?n + 1 - int ?B = int ?i" using assms(4) by linarith
  moreover have "int ?i mod 2 ^ 64 = int ?i"
    using assms(5) by (intro mod_pos_pos_trivial) (simp_all add: RP_EXPAND_VARS_LIMIT_def)
  ultimately have i: "nat ((int ?n + 1 - int ?B) mod 2 ^ 64) = ?i" by simp
  have b: "malloc (?i + 1) = Some b" using assms(4,7) by (simp add: Suc_diff_le numeral_2_eq_2)
  have "length b = ?i + 1" using assms(6) b by (rule allocatesD)
  then have "\<not> ?n < length b" using assms(3,4) by linarith
  then have "expand_loop malloc lookup 0 (s @ NUL # []) None = None"
    unfolding counting_scan [OF assms(1,2)] i using np assms(5) b
    by (simp add: writing_scan [OF assms(1,2), of malloc 0 "[]" b, simplified])
  then show ?thesis by (simp add: rp_expand_vars_function_def expand_def cstr_def)
qed

theorem rp_expand_vars_overflow_witness:
  "rp_expand_vars_function alloc_zero (Some (cstr ''${A}${A}'')) False (getvar [Some [cstr ''A=x''], None]) = None"
proof -
  let ?s = "''${A}${A}''" and ?env = "definition_of [''A=x'']"
  have t: "tokens ?s = [Braced CHR ''{'' ''A'', Braced CHR ''{'' ''A'']" by code_simp
  have r: "resolves (getvar [Some [cstr ''A=x''], None]) ?env ''A''"
    using getvar_resolves [of "''A''" "[[''A=x'']]" ?env "[]"] by (simp add: within_def)
  have o: "expand1 ?env ?s = ''xx''" by (simp add: expand1_def t with_default_def)
  show ?thesis
    using rp_expand_vars_overflow [of ?s "getvar [Some [cstr ''A=x''], None]" ?env alloc_zero _ False] r
    by (simp add: t o braced_count_def RP_EXPAND_VARS_LIMIT_def alloc_zero_def)
qed

end
