(* ===== verification/PathSearch.thy ===== *)
theory PathSearch
  imports ExpandVars
begin

text \<open>
  \<open>src/misc/rp-path-search.c\<close>, first part: the lists of directories. A list is a
  chain of reference counted nodes that share their tails. The heap of the nodes is a map from
  addresses; the access to an address with no node (a null or released pointer) is undefined, the
  value \<open>None\<close>.
\<close>

subsection \<open>Data\<close>

type_synonym ref = "nat option"

record node =
  ps_parent :: ref
  ps_refcount :: "16 word"
  ps_length :: int
  ps_path :: mem

type_synonym heap = "nat \<Rightarrow> node option"

text \<open>\<open>malloc\<close> of a node, from the heap and the size of its path, \<open>None\<close> for \<open>NULL\<close>.\<close>

type_synonym node_allocator = "heap \<Rightarrow> nat \<Rightarrow> ref"

definition allocates_nodes :: "node_allocator \<Rightarrow> bool" where
  "allocates_nodes alloc \<longleftrightarrow> (\<forall>h n p. alloc h n = Some p \<longrightarrow> h p = None)"

definition SHRT_MAX :: nat where "SHRT_MAX = 32767"

subsection \<open>References\<close>

definition rp_path_search_addref :: "heap \<Rightarrow> ref \<Rightarrow> heap option" where
  "rp_path_search_addref h paths =
     (case paths of
        None \<Rightarrow> Some h
      | Some p \<Rightarrow> do { n \<leftarrow> h p; Some (h(p \<mapsto> n\<lparr>ps_refcount := ps_refcount n + 1\<rparr>)) })"

partial_function (option) rp_path_search_unref :: "heap \<Rightarrow> ref \<Rightarrow> heap option" where
  "rp_path_search_unref h paths =
     (case paths of
        None \<Rightarrow> Some h
      | Some p \<Rightarrow> do {
          n \<leftarrow> h p;
          let count = ps_refcount n - 1;
          if count = 0 then rp_path_search_unref (h(p := None)) (ps_parent n)
          else Some (h(p \<mapsto> n\<lparr>ps_refcount := count\<rparr>))
        })"

subsection \<open>Adding directories\<close>

text \<open>Whether the value is not the one of a node, of the head only when \<open>before\<close> holds.\<close>

partial_function (option) must_add :: "heap \<Rightarrow> ref \<Rightarrow> mem \<Rightarrow> nat \<Rightarrow> bool \<Rightarrow> bool option" where
  "must_add h paths val len before =
     (case paths of
        None \<Rightarrow> Some True
      | Some p \<Rightarrow> do {
          n \<leftarrow> h p;
          let plen = (if ps_length n \<ge> 0 then ps_length n else - ps_length n);
          same \<leftarrow> (if plen = int len then memcmp_eq (ps_path n) val len else Some False);
          if same then Some False
          else if before then Some True
          else must_add h (ps_parent n) val len before
        })"

definition add_entry :: "node_allocator \<Rightarrow> heap \<Rightarrow> ref \<Rightarrow> mem \<Rightarrow> nat \<Rightarrow> bool \<Rightarrow> (int \<times> heap \<times> ref) option" where
  "add_entry alloc h paths val len before =
     (if len > SHRT_MAX then Some (X_EINVAL, h, paths)
      else do {
        b \<leftarrow> (if len > 0 then must_add h paths val len before else Some False);
        if b then
          (case alloc h (1 + len) of
             None \<Rightarrow> Some (X_ENOMEM, h, paths)
           | Some p \<Rightarrow>
               if len \<le> length val then
                 Some (0, h(p \<mapsto> \<lparr>ps_parent = paths, ps_refcount = 1,
                   ps_length = (if before then int len else - int len), ps_path = take len val @ [NUL]\<rparr>), Some p)
               else None)
        else Some (0, h, paths)
      })"

text \<open>The length given to \<open>add\<close> is converted to \<open>int\<close> and read there as unsigned.\<close>

definition int_of_length :: "nat \<Rightarrow> nat" where
  "int_of_length n = n mod 2 ^ 32"

lemma make_shorter:
  assumes "load (dropWhile P dirs) w = Some c"
  shows "length (drop (w + 1) (dropWhile P dirs)) < length dirs"
proof -
  have "w < length (dropWhile P dirs)" using assms by (simp add: load_eq_Some)
  moreover have "length (dropWhile P dirs) \<le> length dirs" by (rule length_dropWhile_le)
  ultimately show ?thesis unfolding length_drop by linarith
qed

function make_paths :: "node_allocator \<Rightarrow> heap \<Rightarrow> ref \<Rightarrow> mem \<Rightarrow> bool \<Rightarrow> (int \<times> heap \<times> ref) option" where
  "make_paths alloc h paths dirs before = do {
     let dirs' = dropWhile (\<lambda>c. c = colon) dirs;
     let where = length (takeWhile (\<lambda>c. c \<noteq> NUL \<and> c \<noteq> colon) dirs');
     c \<leftarrow> load dirs' where;
     if c = NUL then add_entry alloc h paths dirs' (int_of_length where) before
     else do {
       let next = drop (where + 1) dirs';
       (rc, h, paths) \<leftarrow> (if before then make_paths alloc h paths next before else Some (0, h, paths));
       (rc, h, paths) \<leftarrow> (if rc \<ge> 0 then add_entry alloc h paths dirs' (int_of_length where) before
                         else Some (rc, h, paths));
       if rc \<ge> 0 \<and> \<not> before then make_paths alloc h paths next before else Some (rc, h, paths)
     }
   }"
  by pat_completeness auto

termination
  by (relation "measure (\<lambda>(alloc, h, paths, dirs, before). length dirs)") (use make_shorter in auto)

declare make_paths.simps [simp del]

definition add_dir_expanded ::
  "node_allocator \<Rightarrow> heap \<Rightarrow> mem option \<Rightarrow> bool \<Rightarrow> ref \<Rightarrow> (int \<times> heap \<times> ref) option" where
  "add_dir_expanded alloc h dirs before parent = do {
     h \<leftarrow> rp_path_search_addref h parent;
     (rc, h, head) \<leftarrow> (case dirs of
        None \<Rightarrow> Some (X_EINVAL, h, parent)
      | Some d \<Rightarrow> make_paths alloc h parent d before);
     if rc < 0 then do {
       h \<leftarrow> rp_path_search_unref h head;
       Some (rc, h, None)
     }
     else Some (rc, h, head)
   }"

text \<open>
  The entry points. The environment variables and the allocator of texts are arguments; the new
  list is the last part of the result.
\<close>

record libc =
  nodes_alloc :: node_allocator
  text_alloc :: allocator
  env_vars :: "mem list"

definition rp_path_search_add_dirs ::
  "libc \<Rightarrow> heap \<Rightarrow> mem option \<Rightarrow> bool \<Rightarrow> ref \<Rightarrow> (int \<times> heap \<times> ref) option" where
  "rp_path_search_add_dirs lc h dirs before other = do {
     ex \<leftarrow> rp_expand_vars_env_only (text_alloc lc) (Some (env_vars lc)) dirs False;
     add_dir_expanded (nodes_alloc lc) h (if ex \<noteq> None then ex else dirs) before other
   }"

definition rp_path_search_make_dirs :: "libc \<Rightarrow> heap \<Rightarrow> mem option \<Rightarrow> (int \<times> heap \<times> ref) option" where
  "rp_path_search_make_dirs lc h dirs = rp_path_search_add_dirs lc h dirs True None"

text \<open>\<open>getenv\<close> of the C library: the value of the first definition of the name.\<close>

fun getenv :: "mem list \<Rightarrow> string \<Rightarrow> mem option" where
  "getenv [] name = None"
| "getenv (v # vs) name =
     (if take (length name + 1) v = name @ ''='' then Some (drop (length name + 1) v) else getenv vs name)"

definition rp_path_search_add_env ::
  "libc \<Rightarrow> heap \<Rightarrow> string \<Rightarrow> bool \<Rightarrow> ref \<Rightarrow> (int \<times> heap \<times> ref) option" where
  "rp_path_search_add_env lc h var before other =
     (case getenv (env_vars lc) var of
        Some v \<Rightarrow> rp_path_search_add_dirs lc h (Some v) before other
      | None \<Rightarrow> do { h \<leftarrow> rp_path_search_addref h other; Some (0, h, other) })"

definition rp_path_search_make_env :: "libc \<Rightarrow> heap \<Rightarrow> string \<Rightarrow> (int \<times> heap \<times> ref) option" where
  "rp_path_search_make_env lc h var = rp_path_search_add_env lc h var True None"

text \<open>The extending routines replace \<open>*paths\<close>, the last argument and part of the result.\<close>

definition replace_paths :: "(int \<times> heap \<times> ref) option \<Rightarrow> ref \<Rightarrow> (int \<times> heap \<times> ref) option" where
  "replace_paths new paths = do {
     (rc, h, p) \<leftarrow> new;
     if rc \<ge> 0 then do { h \<leftarrow> rp_path_search_unref h paths; Some (rc, h, p) }
     else Some (rc, h, paths)
   }"

definition rp_path_search_extend_dirs ::
  "libc \<Rightarrow> heap \<Rightarrow> mem option \<Rightarrow> bool \<Rightarrow> ref \<Rightarrow> (int \<times> heap \<times> ref) option" where
  "rp_path_search_extend_dirs lc h dirs before paths =
     replace_paths (rp_path_search_add_dirs lc h dirs before paths) paths"

definition rp_path_search_extend_env ::
  "libc \<Rightarrow> heap \<Rightarrow> string \<Rightarrow> bool \<Rightarrow> ref \<Rightarrow> (int \<times> heap \<times> ref) option" where
  "rp_path_search_extend_env lc h var before paths =
     replace_paths (rp_path_search_add_env lc h var before paths) paths"

subsection \<open>Listing and finding\<close>

text \<open>A callback gets its closure, a path and a length, and returns its value and the closure.\<close>

type_synonym 's path_cb = "'s \<Rightarrow> mem \<Rightarrow> nat \<Rightarrow> (int \<times> 's) option"

partial_function (option) rp_path_search_list :: "heap \<Rightarrow> ref \<Rightarrow> 's path_cb \<Rightarrow> 's \<Rightarrow> (int \<times> 's) option" where
  "rp_path_search_list h paths callback closure =
     (case paths of
        None \<Rightarrow> None
      | Some p \<Rightarrow> do {
          n \<leftarrow> h p;
          (result, closure) \<leftarrow> (if ps_length n > 0 then callback closure (ps_path n) (nat (ps_length n))
                               else Some (0, closure));
          (result, closure) \<leftarrow> (if result = 0 \<and> ps_parent n \<noteq> None
                               then rp_path_search_list h (ps_parent n) callback closure else Some (result, closure));
          if result = 0 \<and> ps_length n < 0 then callback closure (ps_path n) (nat (- ps_length n))
          else Some (result, closure)
        })"

definition PATH_MAX :: nat where "PATH_MAX = 4096"

text \<open>
  The buffer of \<open>struct locate\<close> has \<open>PATH_MAX + 1\<close> bytes and ends with the file
  name; \<open>access\<close> tells whether a file exists.
\<close>

record 's locate =
  lo_filename :: mem
  lo_remains :: nat
  lo_closure :: 's

definition find_or_read_cb :: "(string \<Rightarrow> bool) \<Rightarrow> 's path_cb \<Rightarrow> 's locate path_cb" where
  "find_or_read_cb access callback loc path len =
     (if len \<le> lo_remains loc then do {
        let pos = lo_remains loc - len;
        buf \<leftarrow> memcpy (lo_filename loc) pos path len;
        let loc = loc\<lparr>lo_filename := buf\<rparr>;
        if access (string_at buf pos) then do {
          (rc, s) \<leftarrow> callback (lo_closure loc) (drop pos buf) (PATH_MAX + 1 - 1 - pos);
          Some (rc, loc\<lparr>lo_closure := s\<rparr>)
        }
        else Some (0, loc)
      }
      else Some (0, loc))"

definition rp_path_search_find ::
  "(string \<Rightarrow> bool) \<Rightarrow> mem \<Rightarrow> heap \<Rightarrow> ref \<Rightarrow> mem option \<Rightarrow> 's path_cb \<Rightarrow> 's \<Rightarrow> (int \<times> 's) option" where
  "rp_path_search_find access buf h paths filename callback closure =
     (case filename of
        None \<Rightarrow> Some (X_EINVAL, closure)
      | Some f \<Rightarrow> do {
          len \<leftarrow> strlen f;
          if len = 0 \<or> len + 1 \<ge> PATH_MAX + 1 then Some (X_EINVAL, closure)
          else do {
            let remains = PATH_MAX + 1 - len - 2;
            buf \<leftarrow> memcpy buf (remains + 1) f (len + 1);
            buf \<leftarrow> store buf remains (CHR ''/'');
            (rc, loc) \<leftarrow> rp_path_search_list h paths (find_or_read_cb access callback)
              \<lparr>lo_filename = buf, lo_remains = remains, lo_closure = closure\<rparr>;
            Some (rc, lo_closure loc)
          }
        })"

declare rp_path_search_unref.simps [code] must_add.simps [code] rp_path_search_list.simps [code]

subsection \<open>Chains of nodes\<close>

text \<open>The nodes from a reference to the end, with their addresses.\<close>

primrec chain :: "heap \<Rightarrow> ref \<Rightarrow> (nat \<times> node) list \<Rightarrow> bool" where
  "chain h p [] \<longleftrightarrow> p = None"
| "chain h p (an # ns) \<longleftrightarrow> p = Some (fst an) \<and> h (fst an) = Some (snd an) \<and> chain h (ps_parent (snd an)) ns"

definition good_node :: "node \<Rightarrow> bool" where
  "good_node n \<longleftrightarrow> ps_refcount n \<noteq> 0 \<and> (\<exists>d. ps_path n = cstr d \<and> no_nul d \<and> d \<noteq> [] \<and> length d \<le> SHRT_MAX \<and>
     (ps_length n = int (length d) \<or> ps_length n = - int (length d)))"

definition good_chain :: "heap \<Rightarrow> ref \<Rightarrow> (nat \<times> node) list \<Rightarrow> bool" where
  "good_chain h p ns \<longleftrightarrow> chain h p ns \<and> (\<forall>an \<in> set ns. good_node (snd an))"

text \<open>A node as an entry of a list: whether it comes before its parent, and its directory.\<close>

definition entry_of :: "node \<Rightarrow> bool \<times> string" where
  "entry_of n = (ps_length n > 0, butlast (ps_path n))"

definition entries :: "(nat \<times> node) list \<Rightarrow> (bool \<times> string) list" where
  "entries ns = map (entry_of \<circ> snd) ns"

lemma entries_simps [simp]:
  "entries [] = []" "entries (an # ns) = entry_of (snd an) # entries ns" "entries (ms @ ns) = entries ms @ entries ns"
  by (simp_all add: entries_def)

lemma chain_unique: "chain h p ns \<Longrightarrow> chain h p ms \<Longrightarrow> ns = ms"
proof (induction ns arbitrary: p ms)
  case Nil
  then show ?case by (cases ms) auto
next
  case (Cons an ns)
  then show ?case by (cases ms) (auto simp: prod_eq_iff)
qed

lemma chain_append: "chain h p (ms @ ns) \<Longrightarrow> \<exists>q. chain h q ns"
  by (induction ms arbitrary: p) auto

lemma chain_head: "chain h p ns \<Longrightarrow> p = (case ns of [] \<Rightarrow> None | an # _ \<Rightarrow> Some (fst an))"
  by (cases ns) auto

lemma chain_hd_not_in_tl: "chain h p (an # ns) \<Longrightarrow> fst an \<notin> fst ` set ns"
proof
  assume c: "chain h p (an # ns)" and "fst an \<in> fst ` set ns"
  then obtain m where "(fst an, m) \<in> set ns" by (metis imageE prod.collapse)
  then obtain us vs where ns: "ns = us @ (fst an, m) # vs" by (meson split_list)
  then have "chain h p ((an # us) @ (fst an, m) # vs)" using c by simp
  from chain_append [OF this] obtain q where q: "chain h q ((fst an, m) # vs)" by blast
  then have "q = p" using c by simp
  then have "(fst an, m) # vs = an # ns" using chain_unique q c by blast
  then have "length vs = length ns" by (metis length_Cons nat.inject)
  then show False using ns by simp
qed

lemma chain_cong: "chain h p ns \<Longrightarrow> \<forall>an \<in> set ns. h' (fst an) = h (fst an) \<Longrightarrow> chain h' p ns"
  by (induction ns arbitrary: p) auto

lemma chain_upd: "chain h p ns \<Longrightarrow> a \<notin> fst ` set ns \<Longrightarrow> chain (h(a := x)) p ns"
  by (rule chain_cong) auto

lemma chain_allocated: "chain h p ns \<Longrightarrow> an \<in> set ns \<Longrightarrow> h (fst an) = Some (snd an)"
  by (induction ns arbitrary: p) auto

text \<open>\<open>addref\<close> on the head, and its inverse.\<close>

definition addref_head :: "(nat \<times> node) list \<Rightarrow> (nat \<times> node) list" where
  "addref_head ns = (case ns of [] \<Rightarrow> [] | (a, n) # ns \<Rightarrow> (a, n\<lparr>ps_refcount := ps_refcount n + 1\<rparr>) # ns)"

lemma addref_chain:
  assumes "chain h p ns"
  shows "\<exists>h'. rp_path_search_addref h p = Some h' \<and> chain h' p (addref_head ns) \<and>
    (\<forall>a. h' a = None \<longleftrightarrow> h a = None) \<and> (good_chain h p ns \<longrightarrow> rp_path_search_unref h' p = Some h)"
proof (cases ns)
  case Nil
  then show ?thesis using assms
    by (simp add: rp_path_search_addref_def addref_head_def rp_path_search_unref.simps)
next
  case (Cons an ms)
  obtain a n where an: "an = (a, n)" by (cases an)
  let ?n = "n\<lparr>ps_refcount := ps_refcount n + 1\<rparr>"
  have p: "p = Some a" "h a = Some n" "chain h (ps_parent n) ms" using assms Cons an by simp_all
  have "a \<notin> fst ` set ms" using chain_hd_not_in_tl [of h p an ms] assms Cons an by simp
  then have "chain (h(a \<mapsto> ?n)) (ps_parent n) ms" using p(3) by (simp add: chain_upd)
  moreover have "rp_path_search_unref (h(a \<mapsto> ?n)) (Some a) = Some h" if "ps_refcount n \<noteq> 0"
    using that p(2) by (subst rp_path_search_unref.simps) (simp add: fun_upd_idem)
  ultimately show ?thesis using p Cons an
    by (auto simp: rp_path_search_addref_def addref_head_def good_chain_def good_node_def)
qed

lemma entry_addref [simp]: "entries (addref_head ns) = entries ns"
  by (cases ns) (auto simp: addref_head_def entry_of_def)

lemma addref_head_eqs [simp]: "fst ` set (addref_head ns) = fst ` set ns" "addref_head ns = [] \<longleftrightarrow> ns = []"
  by (cases ns; force simp: addref_head_def)+

subsection \<open>Lists of directories\<close>

text \<open>The directories of a text: its parts between colons that are not empty.\<close>

function dirs_of :: "string \<Rightarrow> string list" where
  "dirs_of s =
     (let t = dropWhile (\<lambda>c. c = colon) s; d = takeWhile (\<lambda>c. c \<noteq> colon) t in
      if d = [] then [] else d # dirs_of (drop (length d + 1) t))"
  by pat_completeness auto
termination
proof (relation "measure length")
  fix s t d :: string
  assume t: "t = dropWhile (\<lambda>c. c = colon) s" and d: "d = takeWhile (\<lambda>c. c \<noteq> colon) t" "d \<noteq> []"
  have "t \<noteq> []" using d by auto
  then have "length (drop (length d + 1) t) < length t" by simp
  moreover have "length t \<le> length s" unfolding t by (rule length_dropWhile_le)
  ultimately show "(drop (length d + 1) t, s) \<in> measure length" by simp
qed simp

declare dirs_of.simps [simp del]

text \<open>
  Prepending leaves the list as it is when its head has the same directory; appending does
  when any entry has.
\<close>

definition add_before :: "string \<Rightarrow> (bool \<times> string) list \<Rightarrow> (bool \<times> string) list" where
  "add_before d es = (if es \<noteq> [] \<and> snd (hd es) = d then es else (True, d) # es)"

definition add_after :: "string \<Rightarrow> (bool \<times> string) list \<Rightarrow> (bool \<times> string) list" where
  "add_after d es = (if d \<in> snd ` set es then es else (False, d) # es)"

definition add_dirs :: "bool \<Rightarrow> string list \<Rightarrow> (bool \<times> string) list \<Rightarrow> (bool \<times> string) list" where
  "add_dirs before ds es = (if before then foldr add_before ds es else fold add_after ds es)"

text \<open>The order in which the directories are searched.\<close>

fun search_order :: "(bool \<times> string) list \<Rightarrow> string list" where
  "search_order [] = []"
| "search_order ((before, d) # es) = (if before then d # search_order es else search_order es @ [d])"

subsection \<open>Adding extends a chain\<close>

text \<open>\<open>new\<close> are the nodes added in front of a chain: fresh, with one reference each.\<close>

definition extends :: "heap \<Rightarrow> (nat \<times> node) list \<Rightarrow> heap \<Rightarrow> ref \<Rightarrow> (nat \<times> node) list \<Rightarrow> bool" where
  "extends h ns h' p' new \<longleftrightarrow> chain h' p' (new @ ns) \<and> h' = h ++ map_of new \<and>
     (\<forall>an \<in> set new. h (fst an) = None \<and> good_node (snd an) \<and> ps_refcount (snd an) = 1)"

lemma extends_refl: "chain h p ns \<Longrightarrow> extends h ns h p []"
  by (simp add: extends_def)

lemma extends_trans:
  "extends h ns h1 p1 new1 \<Longrightarrow> extends h1 (new1 @ ns) h2 p2 new2 \<Longrightarrow> extends h ns h2 p2 (new2 @ new1)"
  by (auto simp: extends_def map_add_None)

lemma extends_unref:
  assumes "extends h ns h' p' new" and "chain h p ns"
  shows "rp_path_search_unref h' p' = rp_path_search_unref h p"
  using assms(1)
proof (induction new arbitrary: h' p')
  case Nil
  then have "chain h p' ns" "h' = h" by (auto simp: extends_def)
  then show ?case using chain_head [OF assms(2)] chain_head [of h p' ns] by metis
next
  case (Cons an new)
  obtain a n where an: "an = (a, n)" by (cases an)
  have c: "p' = Some a" "h' a = Some n" "chain h' (ps_parent n) (new @ ns)" "ps_refcount n = 1" "h a = None"
    and h': "h' = (h ++ map_of new)(a \<mapsto> n)"
    using Cons.prems an by (auto simp: extends_def)
  have fresh: "a \<notin> fst ` set (new @ ns)"
  proof -
    have "chain h' p' (an # new @ ns)" using Cons.prems unfolding extends_def append_Cons by blast
    then show ?thesis using chain_hd_not_in_tl [of h' p' an "new @ ns"] an by simp
  qed
  have "h'(a := None) = h ++ map_of new"
    using fresh c(5) by (auto simp: h' fun_eq_iff map_add_def map_of_eq_None_iff split: option.split)
  moreover have "extends h ns (h'(a := None)) (ps_parent n) new"
    using Cons.prems c(3) fresh calculation chain_upd [OF c(3) fresh, of None] by (auto simp: extends_def)
  moreover have "rp_path_search_unref h' p' = rp_path_search_unref (h'(a := None)) (ps_parent n)"
    using c(1,2,4) by (subst rp_path_search_unref.simps) simp
  ultimately show ?case using Cons.IH by simp
qed

lemma butlast_cstr [simp]: "butlast (cstr d) = d"
  by (simp add: cstr_def)

lemma good_node_path: "good_node n \<Longrightarrow> ps_path n = cstr (snd (entry_of n)) \<and> no_nul (snd (entry_of n)) \<and>
    (if ps_length n \<ge> 0 then ps_length n else - ps_length n) = int (length (snd (entry_of n)))"
  by (auto simp: good_node_def entry_of_def)

lemma must_add_eq:
  assumes "good_chain h p ns" and "no_nul d" and "d \<noteq> []"
  shows "must_add h p (d @ r) (length d) before =
    Some (if before then ns = [] \<or> snd (hd (entries ns)) \<noteq> d else d \<notin> snd ` set (entries ns))"
  using assms(1)
proof (induction ns arbitrary: p)
  case Nil
  then show ?case by (subst must_add.simps) (simp add: good_chain_def)
next
  case (Cons an ns)
  obtain a n where an: "an = (a, n)" by (cases an)
  have p: "p = Some a" "h a = Some n" and c: "good_chain h (ps_parent n) ns" and g: "good_node n"
    using Cons.prems an by (auto simp: good_chain_def)
  note P = good_node_path [OF g]
  let ?e = "snd (entry_of n)"
  have m: "(if int (length ?e) = int (length d) then memcmp_eq (ps_path n) (d @ r) (length d) else Some False) =
      Some (?e = d)"
    using P by (auto simp: memcmp_eq_def)
  show ?case
    using Cons.IH [OF c] p m P an
    by (subst must_add.simps) (auto simp: Let_def)
qed

text \<open>The allocator fails on the heap with at most \<open>k\<close> more nodes.\<close>

definition alloc_fails :: "node_allocator \<Rightarrow> heap \<Rightarrow> nat \<Rightarrow> bool" where
  "alloc_fails alloc h k \<longleftrightarrow> (\<exists>h' n. alloc h' n = None \<and> dom h \<subseteq> dom h' \<and>
     finite (dom h' - dom h) \<and> card (dom h' - dom h) \<le> k)"

lemma alloc_fails_here: "alloc h n = None \<Longrightarrow> alloc_fails alloc h k"
  by (auto simp: alloc_fails_def)

lemma alloc_fails_mono: "alloc_fails alloc h k \<Longrightarrow> k \<le> l \<Longrightarrow> alloc_fails alloc h l"
  unfolding alloc_fails_def by (meson le_trans)

lemma alloc_fails_cong: "alloc_fails alloc h k \<Longrightarrow> dom h = dom h' \<Longrightarrow> alloc_fails alloc h' k"
  by (simp add: alloc_fails_def)

lemma alloc_fails_extends:
  assumes "extends h ns h1 p1 new" and "alloc_fails alloc h1 k"
  shows "alloc_fails alloc h (length new + k)"
proof -
  obtain h' n where h': "alloc h' n = None" "dom h1 \<subseteq> dom h'" "finite (dom h' - dom h1)" "card (dom h' - dom h1) \<le> k"
    using assms(2) by (auto simp: alloc_fails_def)
  have d: "dom h1 = fst ` set new \<union> dom h"
    using assms(1) by (simp add: extends_def dom_map_of_conv_image_fst)
  have s: "dom h' - dom h \<subseteq> fst ` set new \<union> (dom h' - dom h1)" using d by blast
  have "card (fst ` set new) \<le> length new" by (metis card_length length_map set_map)
  then have "card (fst ` set new \<union> (dom h' - dom h1)) \<le> length new + k"
    using h'(4) card_Un_le [of "fst ` set new" "dom h' - dom h1"] by linarith
  moreover have "finite (fst ` set new \<union> (dom h' - dom h1))" using h'(3) by simp
  ultimately have "finite (dom h' - dom h)" "card (dom h' - dom h) \<le> length new + k"
    using s by (meson finite_subset, meson card_mono le_trans)
  then show ?thesis using h' d by (auto simp: alloc_fails_def)
qed

text \<open>\<open>add\<close> on a non empty directory.\<close>

lemma add_entry_extends:
  assumes c: "good_chain h p ns" and d: "no_nul d" and l: "length d < 2 ^ 32"
    and al: "allocates_nodes alloc"
  shows "\<exists>rc h' p' new. add_entry alloc h p (d @ r) (int_of_length (length d)) before = Some (rc, h', p') \<and>
    extends h ns h' p' new \<and> length new \<le> (if d = [] then 0 else 1) \<and>
    (rc = 0 \<and> entries (new @ ns) = add_dirs before (if d = [] then [] else [d]) (entries ns) \<or>
     rc = X_EINVAL \<and> length d > SHRT_MAX \<or> rc = X_ENOMEM \<and> alloc_fails alloc h 0)"
proof -
  have i: "int_of_length (length d) = length d" using l by (simp add: int_of_length_def)
  have ch: "chain h p ns" using c by (simp add: good_chain_def)
  note R = extends_refl [OF ch]
  consider "length d > SHRT_MAX" | "d = []" | "0 < length d" "length d \<le> SHRT_MAX" by fastforce
  then show ?thesis
  proof cases
    case 1
    then show ?thesis using R by (intro exI [of _ X_EINVAL] exI [of _ h] exI [of _ p] exI [of _ "[]"]) (simp add: add_entry_def i)
  next
    case 2
    then show ?thesis using R by (intro exI [of _ 0] exI [of _ h] exI [of _ p] exI [of _ "[]"])
      (simp add: add_entry_def int_of_length_def add_dirs_def SHRT_MAX_def)
  next
    case 3
    then have "d \<noteq> []" by auto
    note M = must_add_eq [OF c d this, of r before]
    let ?b = "if before then ns = [] \<or> snd (hd (entries ns)) \<noteq> d else d \<notin> snd ` set (entries ns)"
    have E: "add_dirs before [d] (entries ns) = (if ?b then (before, d) # entries ns else entries ns)"
      by (auto simp: add_dirs_def add_before_def add_after_def entries_def)
    show ?thesis
    proof (cases ?b)
      case False
      then have "add_entry alloc h p (d @ r) (int_of_length (length d)) before = Some (0, h, p)"
        using 3 M by (simp add: add_entry_def i)
      then show ?thesis using R E False 3
        by (intro exI [of _ 0] exI [of _ h] exI [of _ p] exI [of _ "[]"]) simp
    next
      case True
      show ?thesis
      proof (cases "alloc h (1 + length d)")
        case None
        then have "add_entry alloc h p (d @ r) (int_of_length (length d)) before = Some (X_ENOMEM, h, p)"
          using 3 M True by (simp add: add_entry_def i)
        then show ?thesis using R alloc_fails_here [of alloc h "1 + length d" 0] None
          by (intro exI [of _ X_ENOMEM] exI [of _ h] exI [of _ p] exI [of _ "[]"]) simp
      next
        case (Some a)
        let ?n = "\<lparr>ps_parent = p, ps_refcount = 1,
          ps_length = (if before then int (length d) else - int (length d)), ps_path = cstr d\<rparr>"
        have f: "h a = None" using al Some by (auto simp: allocates_nodes_def)
        have "add_entry alloc h p (d @ r) (int_of_length (length d)) before = Some (0, h(a \<mapsto> ?n), Some a)"
          using 3 M True Some by (simp add: add_entry_def i cstr_def)
        moreover have "a \<notin> fst ` set ns" using f chain_allocated [OF ch] by auto
        then have "extends h ns (h(a \<mapsto> ?n)) (Some a) [(a, ?n)]"
          using f 3 d ch chain_upd by (auto simp: extends_def good_node_def)
        moreover have "entries ([(a, ?n)] @ ns) = add_dirs before [d] (entries ns)"
          unfolding E using True 3(1) by (auto simp: entry_of_def)
        ultimately show ?thesis using 3(1)
          by (intro exI [of _ 0] exI [of _ "h(a \<mapsto> ?n)"] exI [of _ "Some a"] exI [of _ "[(a, ?n)]"]) simp
      qed
    qed
  qed
qed

lemma extends_good: "extends h ns h' p' new \<Longrightarrow> good_chain h p ns \<Longrightarrow> good_chain h' p' (new @ ns)"
  by (auto simp: extends_def good_chain_def)

text \<open>The first directory of a text as \<open>make\<close> finds it.\<close>

lemma dirs_of_split:
  assumes "no_nul s"
  obtains d where "dropWhile (\<lambda>c. c = colon) (s @ NUL # r) = d @ NUL # r" "colon \<notin> set d" "no_nul d"
      "dirs_of s = (if d = [] then [] else [d])" "length d \<le> length s"
  | d s' where "dropWhile (\<lambda>c. c = colon) (s @ NUL # r) = d @ colon # s' @ NUL # r" "colon \<notin> set d" "no_nul d" "d \<noteq> []"
      "dirs_of s = d # dirs_of s'" "no_nul s'" "length s' < length s" "length d \<le> length s"
proof -
  let ?t = "dropWhile (\<lambda>c. c = colon) s"
  have t: "dropWhile (\<lambda>c. c = colon) (s @ NUL # r) = ?t @ NUL # r"
    by (induction s) auto
  have nt: "no_nul ?t" "length ?t \<le> length s"
    using assms by (auto simp: no_nul_def length_dropWhile_le dest: set_dropWhileD)
  show thesis
  proof (cases "colon \<in> set ?t")
    case False
    then have tw: "takeWhile (\<lambda>c. c \<noteq> colon) ?t = ?t" by (auto simp: takeWhile_eq_all_conv)
    have "dirs_of [] = []" by (simp add: dirs_of.simps)
    then have "dirs_of s = (if ?t = [] then [] else [?t])"
      by (subst dirs_of.simps) (simp add: tw Let_def)
    then show thesis using that(1) t False nt by blast
  next
    case True
    then obtain d s' where d: "?t = d @ colon # s'" "colon \<notin> set d" by (meson split_list_first)
    have "d \<noteq> []"
    proof
      assume "d = []"
      then have "hd ?t = colon" "?t \<noteq> []" using d by simp_all
      then show False using hd_dropWhile [of "\<lambda>c. c = colon" s] by simp
    qed
    moreover have tw: "takeWhile (\<lambda>c. c \<noteq> colon) ?t = d" using d by (auto simp: takeWhile_append)
    ultimately have "dirs_of s = d # dirs_of s'"
      by (subst dirs_of.simps) (simp add: tw Let_def d(1))
    moreover have "no_nul d" "no_nul s'" "length s' < length s" "length d \<le> length s"
      using nt d by simp_all
    ultimately show thesis using that(2) [of d s'] t d \<open>d \<noteq> []\<close> by simp
  qed
qed

lemma make_nul:
  assumes "dropWhile (\<lambda>c. c = colon) s = d @ NUL # r" and "colon \<notin> set d" and "no_nul d"
  shows "make_paths alloc h p s before = add_entry alloc h p (d @ NUL # r) (int_of_length (length d)) before"
proof -
  have "takeWhile (\<lambda>c. c \<noteq> NUL \<and> c \<noteq> colon) (d @ NUL # r) = d"
    using assms(2,3) by (subst takeWhile_append2) (auto simp: no_nul_def)
  then show ?thesis unfolding make_paths.simps [of alloc h p s] assms(1) by (simp add: load_at Let_def)
qed

lemma make_colon:
  assumes "dropWhile (\<lambda>c. c = colon) s = d @ colon # r" and "colon \<notin> set d" and "no_nul d"
  shows "make_paths alloc h p s before = do {
       (rc, h, p) \<leftarrow> (if before then make_paths alloc h p r before else Some (0, h, p));
       (rc, h, p) \<leftarrow> (if rc \<ge> 0 then add_entry alloc h p (d @ colon # r) (int_of_length (length d)) before
                         else Some (rc, h, p));
       if rc \<ge> 0 \<and> \<not> before then make_paths alloc h p r before else Some (rc, h, p) }"
proof -
  have "takeWhile (\<lambda>c. c \<noteq> NUL \<and> c \<noteq> colon) (d @ colon # r) = d"
    using assms(2,3) by (subst takeWhile_append2) (auto simp: no_nul_def)
  then show ?thesis unfolding make_paths.simps [of alloc h p s] assms(1)
    by (simp only: load_at Let_def bind.bind_lunit) (simp cong: if_cong)
qed

text \<open>
  What \<open>make\<close> gives: success or one of two errors, and the nodes it added in both cases.
\<close>

definition make_result ::
  "node_allocator \<Rightarrow> heap \<Rightarrow> (nat \<times> node) list \<Rightarrow> bool \<Rightarrow> string list \<Rightarrow> int \<times> heap \<times> ref \<Rightarrow> bool" where
  "make_result alloc h ns before ds res \<longleftrightarrow> (case res of (rc, h', p') \<Rightarrow>
     \<exists>new. extends h ns h' p' new \<and> length new \<le> length ds \<and>
       (rc = 0 \<and> entries (new @ ns) = add_dirs before ds (entries ns) \<or>
        rc = X_EINVAL \<and> (\<exists>d \<in> set ds. length d > SHRT_MAX) \<or> rc = X_ENOMEM \<and> alloc_fails alloc h (length ds)))"

lemma make_result_mono:
  "make_result alloc h ns b ds (rc, h', p') \<Longrightarrow> rc \<noteq> 0 \<Longrightarrow> set ds \<subseteq> set ds' \<Longrightarrow> length ds \<le> length ds' \<Longrightarrow>
    make_result alloc h ns b ds' (rc, h', p')"
  unfolding make_result_def prod.case
  by (elim exE conjE, rule exI) (auto intro: alloc_fails_mono)

lemma make_result_seq:
  assumes "extends h ns h1 p1 new1" and "entries (new1 @ ns) = add_dirs b ds1 (entries ns)"
    and "make_result alloc h1 (new1 @ ns) b ds2 res"
    and "\<And>es. add_dirs b ds2 (add_dirs b ds1 es) = add_dirs b ds es" and "set ds2 \<subseteq> set ds"
    and "length new1 \<le> length ds1" and "length ds1 + length ds2 = length ds"
  shows "make_result alloc h ns b ds res"
proof -
  obtain rc h2 p2 where res: "res = (rc, h2, p2)" by (cases res) auto
  obtain new2 where new2: "extends h1 (new1 @ ns) h2 p2 new2"
    "rc = 0 \<and> entries (new2 @ new1 @ ns) = add_dirs b ds2 (entries (new1 @ ns)) \<or>
     rc = X_EINVAL \<and> (\<exists>d \<in> set ds2. length d > SHRT_MAX) \<or> rc = X_ENOMEM \<and> alloc_fails alloc h1 (length ds2)"
    "length new2 \<le> length ds2"
    using assms(3) res by (auto simp: make_result_def)
  have "extends h ns h2 p2 (new2 @ new1)" using assms(1) new2(1) by (rule extends_trans)
  moreover have "add_dirs b ds2 (entries (new1 @ ns)) = add_dirs b ds (entries ns)"
    using assms(2,4) by simp
  moreover have "alloc_fails alloc h (length ds)" if "alloc_fails alloc h1 (length ds2)"
    using alloc_fails_extends [OF assms(1) that] by (rule alloc_fails_mono) (use assms(6,7) in linarith)
  ultimately show ?thesis using new2(2,3) assms(5-7) res unfolding make_result_def
    by (auto intro!: exI [of _ "new2 @ new1"])
qed

lemma add_entry_result:
  assumes "good_chain h p ns" and "no_nul d" and "length d < 2 ^ 32" and "allocates_nodes alloc"
  shows "\<exists>res. add_entry alloc h p (d @ r) (int_of_length (length d)) before = Some res \<and>
    make_result alloc h ns before (if d = [] then [] else [d]) res"
proof -
  obtain rc h' p' new where a: "add_entry alloc h p (d @ r) (int_of_length (length d)) before = Some (rc, h', p')"
    "extends h ns h' p' new" "length new \<le> (if d = [] then 0 else 1)"
    "rc = 0 \<and> entries (new @ ns) = add_dirs before (if d = [] then [] else [d]) (entries ns) \<or>
     rc = X_EINVAL \<and> length d > SHRT_MAX \<or> rc = X_ENOMEM \<and> alloc_fails alloc h 0"
    using add_entry_extends [OF assms, of r before] by (elim exE conjE) (rule that)
  have "make_result alloc h ns before (if d = [] then [] else [d]) (rc, h', p')"
    unfolding make_result_def prod.case
  proof (intro exI [of _ new] conjI)
    show "rc = 0 \<and> entries (new @ ns) = add_dirs before (if d = [] then [] else [d]) (entries ns) \<or>
      rc = X_EINVAL \<and> (\<exists>d' \<in> set (if d = [] then [] else [d]). length d' > SHRT_MAX) \<or>
      rc = X_ENOMEM \<and> alloc_fails alloc h (length (if d = [] then [] else [d]))"
      using a(4) by (elim disjE) (auto simp: SHRT_MAX_def intro: alloc_fails_mono)
  qed (use a(2,3) in \<open>simp_all split: if_splits\<close>)
  then show ?thesis using a(1) by blast
qed

lemma make_eq:
  assumes "good_chain h p ns" and "no_nul s" and "length s < 2 ^ 32" and al: "allocates_nodes alloc"
  shows "\<exists>res. make_paths alloc h p (s @ NUL # r) before = Some res \<and> make_result alloc h ns before (dirs_of s) res"
  using assms(1-3)
proof (induction "length s" arbitrary: s h p ns rule: less_induct)
  case less
  show ?case
  proof (cases rule: dirs_of_split [OF less.prems(2), of r, case_names last more])
    case (last d)
    then show ?thesis
      using add_entry_result [OF less.prems(1) last(3) _ al, of "NUL # r" before] less.prems(3)
      by (simp add: make_nul)
  next
    case (more d s')
    note C = make_colon [OF more(1-3), of alloc h p before] and IH = less.hyps [OF more(7)]
    have dl: "length d < 2 ^ 32" and sl: "length s' < 2 ^ 32" using more(7,8) less.prems(3) by simp_all
    note A = add_entry_result [OF _ more(3) dl al, of _ _ _ "colon # s' @ NUL # r" before]
    show ?thesis
    proof (cases before)
      case True
      obtain res1 where m1: "make_paths alloc h p (s' @ NUL # r) before = Some res1"
        "make_result alloc h ns before (dirs_of s') res1"
        using IH [OF less.prems(1) more(6) sl] by blast
      obtain rc h1 p1 where res1: "res1 = (rc, h1, p1)" by (cases res1)
      note m = m1 [unfolded res1]
      show ?thesis
      proof (cases "rc = 0")
        case False
        then have "\<not> rc \<ge> 0" using m(2) by (auto simp: make_result_def x_errno)
        then show ?thesis unfolding C more(5) using True m False
          by (auto intro!: make_result_mono [of _ _ _ _ "dirs_of s'"])
      next
        case rc: True
        obtain new1 where n: "extends h ns h1 p1 new1" "entries (new1 @ ns) = add_dirs before (dirs_of s') (entries ns)"
          "length new1 \<le> length (dirs_of s')"
          using m(2) rc by (auto simp: make_result_def x_errno)
        obtain res where a: "add_entry alloc h1 p1 (d @ colon # s' @ NUL # r) (int_of_length (length d)) before = Some res"
          "make_result alloc h1 (new1 @ ns) before [d] res"
          using A [OF extends_good [OF n(1) less.prems(1)]] more(4) by auto
        have "make_result alloc h ns before (d # dirs_of s') res"
          using n(1,2) a(2) by (rule make_result_seq) (use n(3) in \<open>simp_all add: add_dirs_def True\<close>)
        then show ?thesis unfolding C more(5) using True m rc a(1) by (auto split: prod.split)
      qed
    next
      case False
      obtain res1 where a1: "add_entry alloc h p (d @ colon # s' @ NUL # r) (int_of_length (length d)) before = Some res1"
        "make_result alloc h ns before [d] res1"
        using A [OF less.prems(1)] more(4) by auto
      obtain rc h1 p1 where res1: "res1 = (rc, h1, p1)" by (cases res1)
      note a = a1 [unfolded res1]
      show ?thesis
      proof (cases "rc = 0")
        case rc: False
        then have "\<not> rc \<ge> 0" using a(2) by (auto simp: make_result_def x_errno)
        then show ?thesis unfolding C more(5) using False a rc
          by (auto intro!: make_result_mono [of _ _ _ _ "[d]"])
      next
        case rc: True
        obtain new1 where n: "extends h ns h1 p1 new1" "entries (new1 @ ns) = add_dirs before [d] (entries ns)"
          "length new1 \<le> length [d]"
          using a(2) rc by (auto simp: make_result_def x_errno)
        obtain res where m: "make_paths alloc h1 p1 (s' @ NUL # r) before = Some res"
          "make_result alloc h1 (new1 @ ns) before (dirs_of s') res"
          using IH [OF extends_good [OF n(1) less.prems(1)] more(6) sl] by blast
        have "make_result alloc h ns before (d # dirs_of s') res"
          using n(1,2) m(2) by (rule make_result_seq) (use n(3) in \<open>auto simp add: add_dirs_def False\<close>)
        then show ?thesis unfolding C more(5) using False m(1) rc a(1) by auto
      qed
    qed
  qed
qed

subsection \<open>The entry points add to a list\<close>

text \<open>A head that can take one more reference: the count has 16 bits.\<close>

definition few_refs :: "(nat \<times> node) list \<Rightarrow> bool" where
  "few_refs ns \<longleftrightarrow> ns = [] \<or> ps_refcount (snd (hd ns)) \<noteq> - 1"

lemma good_addref:
  assumes "good_chain h p ns" and "few_refs ns"
  obtains h1 where "rp_path_search_addref h p = Some h1" "good_chain h1 p (addref_head ns)"
    "\<And>a. h1 a = None \<longleftrightarrow> h a = None" "rp_path_search_unref h1 p = Some h"
proof -
  have "good_node (snd an)" if an: "an \<in> set (addref_head ns)" for an
  proof (cases ns)
    case (Cons bn ms)
    have "ps_refcount (snd bn) + 1 \<noteq> 0" using assms(2) Cons by (auto simp: few_refs_def eq_neg_iff_add_eq_0)
    then show ?thesis using an assms(1) Cons
      by (cases bn) (auto simp: addref_head_def good_chain_def good_node_def)
  qed (use an in \<open>simp add: addref_head_def\<close>)
  moreover obtain h1 where "rp_path_search_addref h p = Some h1" "chain h1 p (addref_head ns)"
    "\<forall>a. h1 a = None \<longleftrightarrow> h a = None" "rp_path_search_unref h1 p = Some h"
    using addref_chain [of h p ns] assms(1) by (auto simp: good_chain_def)
  ultimately show thesis using that by (auto simp: good_chain_def)
qed

text \<open>The result of adding to a list: on error the heap is what it was.\<close>

definition added_list ::
  "libc \<Rightarrow> heap \<Rightarrow> (nat \<times> node) list \<Rightarrow> bool \<Rightarrow> string \<Rightarrow> int \<Rightarrow> heap \<Rightarrow> ref \<Rightarrow> (nat \<times> node) list \<Rightarrow> bool" where
  "added_list lc h ns before t rc h' p' ns' \<longleftrightarrow>
     rc = 0 \<and> good_chain h' p' ns' \<and> entries ns' = add_dirs before (dirs_of t) (entries ns) \<and>
       rp_path_search_unref h' p' = Some h \<or>
     (rc = X_EINVAL \<and> (\<exists>d \<in> set (dirs_of t). length d > SHRT_MAX) \<or>
      rc = X_ENOMEM \<and> alloc_fails (nodes_alloc lc) h (length (dirs_of t))) \<and> h' = h \<and> p' = None"

lemma add_dir_expanded_eq:
  assumes g: "good_chain h p ns" "few_refs ns" and t: "no_nul t" "length t < 2 ^ 32"
    and al: "allocates_nodes (nodes_alloc lc)"
  shows "\<exists>rc h' p' ns'. add_dir_expanded (nodes_alloc lc) h (Some (t @ NUL # r)) before p = Some (rc, h', p') \<and>
    added_list lc h ns before t rc h' p' ns'"
proof -
  obtain h1 where h1: "rp_path_search_addref h p = Some h1" "good_chain h1 p (addref_head ns)"
    "rp_path_search_unref h1 p = Some h" "\<And>a. h1 a = None \<longleftrightarrow> h a = None"
    using good_addref [OF g] by metis
  have dm: "dom h1 = dom h" using h1(4) by (auto simp: dom_def)
  obtain rc h2 p2 where m: "make_paths (nodes_alloc lc) h1 p (t @ NUL # r) before = Some (rc, h2, p2)"
    "make_result (nodes_alloc lc) h1 (addref_head ns) before (dirs_of t) (rc, h2, p2)"
    using make_eq [OF h1(2) t al, of r before] by auto
  obtain new where new: "extends h1 (addref_head ns) h2 p2 new"
    "rc = 0 \<and> entries (new @ addref_head ns) = add_dirs before (dirs_of t) (entries ns) \<or>
     rc = X_EINVAL \<and> (\<exists>d \<in> set (dirs_of t). length d > SHRT_MAX) \<or>
     rc = X_ENOMEM \<and> alloc_fails (nodes_alloc lc) h (length (dirs_of t))"
    using m(2) alloc_fails_cong [OF _ dm] by (auto simp: make_result_def)
  have u: "rp_path_search_unref h2 p2 = Some h"
    using extends_unref [OF new(1), of p] h1(2,3) unfolding good_chain_def by metis
  show ?thesis
  proof (cases "rc = 0")
    case True
    then have "added_list lc h ns before t rc h2 p2 (new @ addref_head ns)"
      using new u extends_good [OF new(1) h1(2)] by (auto simp: added_list_def x_errno)
    then show ?thesis using m(1) h1(1) True by (simp add: add_dir_expanded_def) blast
  next
    case False
    then have "added_list lc h ns before t rc h None []" "rc < 0"
      using new(2) by (auto simp: added_list_def x_errno)
    then show ?thesis using m(1) h1(1) u by (simp add: add_dir_expanded_def) blast
  qed
qed

text \<open>The text that the expansion of the environment variables makes of another.\<close>

definition expands :: "libc \<Rightarrow> string \<Rightarrow> string \<Rightarrow> bool" where
  "expands lc d t \<longleftrightarrow>
     (\<exists>ex. rp_expand_vars_env_only (text_alloc lc) (Some (env_vars lc)) (Some (cstr d)) False = Some ex \<and>
       (case ex of None \<Rightarrow> t = d | Some b \<Rightarrow> \<exists>r. b = cstr t @ r))"

lemma add_dirs_eq:
  assumes "good_chain h p ns" "few_refs ns" and "no_nul t" "length t < 2 ^ 32"
    and "allocates_nodes (nodes_alloc lc)" and "expands lc d t"
  shows "\<exists>rc h' p' ns'. rp_path_search_add_dirs lc h (Some (cstr d)) before p = Some (rc, h', p') \<and>
    added_list lc h ns before t rc h' p' ns'"
proof -
  obtain ex where ex: "rp_expand_vars_env_only (text_alloc lc) (Some (env_vars lc)) (Some (cstr d)) False = Some ex"
    "case ex of None \<Rightarrow> t = d | Some b \<Rightarrow> \<exists>r. b = cstr t @ r"
    using assms(6) by (auto simp: expands_def)
  then obtain r where r: "(if ex \<noteq> None then ex else Some (cstr d)) = Some (t @ NUL # r)"
    by (cases ex) (auto simp: cstr_def)
  show ?thesis unfolding rp_path_search_add_dirs_def ex(1) bind.bind_lunit r
    by (rule add_dir_expanded_eq [OF assms(1-5)])
qed

text \<open>Listing calls the callback on the directories in the order of search.\<close>

fun call_all :: "'s path_cb \<Rightarrow> 's \<Rightarrow> string list \<Rightarrow> (int \<times> 's) option" where
  "call_all cb s [] = Some (0, s)"
| "call_all cb s (d # ds) = do {
     (r, s) \<leftarrow> cb s (cstr d) (length d);
     if r = 0 then call_all cb s ds else Some (r, s)
   }"

lemma call_all_snoc:
  "call_all cb s (ds @ [d]) = do {
     (r, s) \<leftarrow> call_all cb s ds;
     if r = 0 then cb s (cstr d) (length d) else Some (r, s) }"
proof (induction ds arbitrary: s)
  case Nil
  then show ?case by (cases "cb s (cstr d) (length d)") auto
next
  case (Cons e ds)
  then show ?case by (cases "cb s (cstr e) (length e)") (auto split: prod.split)
qed

lemma list_eq:
  assumes "good_chain h p ns" and "ns \<noteq> []"
  shows "rp_path_search_list h p cb s = call_all cb s (search_order (entries ns))"
  using assms
proof (induction ns arbitrary: p s)
  case (Cons an ns)
  obtain a n where an: "an = (a, n)" by (cases an)
  have p: "p = Some a" "h a = Some n" and c: "good_chain h (ps_parent n) ns" and g: "good_node n"
    using Cons.prems an by (auto simp: good_chain_def)
  obtain d where d: "ps_path n = cstr d" "d \<noteq> []" "ps_length n = int (length d) \<or> ps_length n = - int (length d)"
    using g by (auto simp: good_node_def)
  have par: "ps_parent n = None \<longleftrightarrow> ns = []"
    using c by (cases ns) (auto simp: good_chain_def)
  have rest: "(if ps_parent n \<noteq> None then rp_path_search_list h (ps_parent n) cb s' else Some (0, s')) =
      call_all cb s' (search_order (entries ns))" for s'
    using par Cons.IH [OF c] by simp
  show ?case
  proof (cases "ps_length n > 0")
    case True
    then have l: "ps_length n = int (length d)" using d by auto
    then have o: "search_order (entries (an # ns)) = d # search_order (entries ns)"
      using True d(1) an by (simp add: entry_of_def)
    have r: "(if result = 0 \<and> ps_parent n \<noteq> None then rp_path_search_list h (ps_parent n) cb s'
        else Some (result, s')) =
        (if result = 0 then call_all cb s' (search_order (entries ns)) else Some (result, s'))" for result s'
      using rest [of s'] by (cases "ps_parent n = None") auto
    have "rp_path_search_list h p cb s = do {
        (r, s) \<leftarrow> cb s (cstr d) (length d);
        (r, s) \<leftarrow> (if r = 0 \<and> ps_parent n \<noteq> None then rp_path_search_list h (ps_parent n) cb s else Some (r, s));
        Some (r, s) }"
      unfolding p(1) using p(2) l True d(1)
      by (subst rp_path_search_list.simps) (simp del: not_None_eq add: split_def)
    then show ?thesis unfolding o call_all.simps r by (simp add: split_def)
  next
    case False
    then have l: "ps_length n = - int (length d)" "ps_length n < 0" using d by auto
    then have o: "search_order (entries (an # ns)) = search_order (entries ns) @ [d]"
      using False d(1) an by (simp add: entry_of_def)
    have "rp_path_search_list h p cb s = do {
        (r, s) \<leftarrow> (if ps_parent n \<noteq> None then rp_path_search_list h (ps_parent n) cb s else Some (0, s));
        if r = 0 then cb s (cstr d) (length d) else Some (r, s) }"
      unfolding p(1) using p(2) l d(1)
      by (subst rp_path_search_list.simps) (simp del: not_None_eq add: split_def cong: if_cong)
    then show ?thesis unfolding o call_all_snoc rest .
  qed
qed simp

text \<open>
  Property C19: adding directories to a list gives either an error, when a directory is longer
  than \<open>SHRT_MAX\<close> or a node cannot be allocated, and the heap is untouched; or
  a list with the new directories before or after those of the list, where releasing it gives the
  heap back, and that lists its directories in the order of search.
\<close>

theorem rp_path_search_add_dirs_correct:
  assumes "good_chain h p ns" and "few_refs ns" and "no_nul t" and "length t < 2 ^ 32"
    and "allocates_nodes (nodes_alloc lc)" and "expands lc d t"
  shows "\<exists>rc h' p' ns'. rp_path_search_add_dirs lc h (Some (cstr d)) before p = Some (rc, h', p') \<and>
    added_list lc h ns before t rc h' p' ns' \<and>
    (rc = 0 \<and> ns' \<noteq> [] \<longrightarrow> (\<forall>cb s. rp_path_search_list h' p' cb s =
      call_all cb s (search_order (add_dirs before (dirs_of t) (entries ns)))))"
proof -
  obtain rc h' p' ns' where a: "rp_path_search_add_dirs lc h (Some (cstr d)) before p = Some (rc, h', p')"
    "added_list lc h ns before t rc h' p' ns'"
    using add_dirs_eq [OF assms] by blast
  then have "rc = 0 \<longrightarrow> good_chain h' p' ns' \<and> entries ns' = add_dirs before (dirs_of t) (entries ns)"
    by (auto simp: added_list_def x_errno)
  then show ?thesis using a list_eq by metis
qed

text \<open>An allocator of nodes and a C library for concrete runs.\<close>

definition first_free :: node_allocator where
  "first_free h n = find (\<lambda>a. h a = None) [0..<100]"

definition some_libc :: "mem list \<Rightarrow> libc" where
  "some_libc environ = \<lparr>nodes_alloc = first_free, text_alloc = alloc_zero, env_vars = environ\<rparr>"

lemma allocates_first_free: "allocates_nodes first_free"
  by (auto simp: allocates_nodes_def first_free_def find_Some_iff)

definition collect :: "string list path_cb" where
  "collect s path len = Some (0, s @ [take len path])"

text \<open>A text with nothing to expand.\<close>

lemma expands_plain:
  assumes "no_nul d" and "plain_text d"
  shows "expands (some_libc environ) d d"
proof -
  have "names t = {}" if "t \<in> set (tokens d)" for t using that assms(2) by (auto simp: plain_text_def)
  then have "expand_loop alloc_zero lookup 0 (d @ NUL # []) None = Some None" for lookup
    using counting_scan [of d lookup Map.empty alloc_zero 0 "[]"] assms by simp
  then have "rp_expand_vars_env_only alloc_zero (Some environ) (Some (cstr d)) False = Some None"
    by (simp add: rp_expand_vars_env_only_def rp_expand_vars_array_def rp_expand_vars_function_def expand_def
        expanded_or_copy_def cstr_def)
  then show ?thesis by (simp add: expands_def some_libc_def)
qed

theorem rp_path_search_add_dirs_correct_witness:
  "\<exists>h p. rp_path_search_add_dirs (some_libc []) Map.empty (Some (cstr ''/a:/b::/a'')) False None = Some (0, h, p) \<and>
    rp_path_search_list h p collect [] = Some (0, [''/a'', ''/b'']) \<and> rp_path_search_unref h p = Some Map.empty"
proof -
  let ?d = "''/a:/b::/a''"
  have e: "expands (some_libc []) ?d ?d" by (rule expands_plain) (simp, unfold plain_text_def, code_simp)
  have ds: "dirs_of ?d = [''/a'', ''/b'', ''/a'']" by code_simp
  have l: "\<not> (\<exists>d \<in> set (dirs_of ?d). length d > SHRT_MAX)" by (simp add: ds SHRT_MAX_def)
  obtain rc h' p' ns' where r: "rp_path_search_add_dirs (some_libc []) Map.empty (Some (cstr ?d)) False None = Some (rc, h', p')"
    "added_list (some_libc []) Map.empty [] False ?d rc h' p' ns'"
    "rc = 0 \<and> ns' \<noteq> [] \<longrightarrow> (\<forall>cb (s :: string list). rp_path_search_list h' p' cb s =
      call_all cb s (search_order (add_dirs False (dirs_of ?d) (entries []))))"
    using rp_path_search_add_dirs_correct [of Map.empty None "[]" ?d "some_libc []" ?d False] e
      allocates_first_free by (auto simp: good_chain_def few_refs_def some_libc_def)
  have "\<not> alloc_fails first_free Map.empty (length (dirs_of ?d))"
  proof
    assume "alloc_fails first_free Map.empty (length (dirs_of ?d))"
    then obtain h n where h: "first_free h n = None" "finite (dom h)" "card (dom h) \<le> 3"
      by (auto simp: alloc_fails_def ds)
    then have "set [0..<100] \<subseteq> dom h" by (auto simp: first_free_def find_None_iff)
    then have "card (set [0..<100]) \<le> card (dom h)" using h(2) by (rule card_mono [rotated])
    then show False using h(3) by simp
  qed
  then have rc: "rc = 0" "entries ns' = add_dirs False (dirs_of ?d) []" "rp_path_search_unref h' p' = Some Map.empty"
    using r(2) l by (auto simp: added_list_def some_libc_def)
  then have "ns' \<noteq> []" by (auto simp: ds add_dirs_def add_after_def)
  then have "rp_path_search_list h' p' collect [] = Some (0, [''/a'', ''/b''])"
    using r(3) rc(1) by (simp add: ds add_dirs_def add_after_def collect_def)
  then show ?thesis using r(1) rc by blast
qed

text \<open>Extending: the reference of the caller moves to the new list.\<close>

lemma chain_replace:
  "chain h p (us @ (a, n) # vs) \<Longrightarrow> a \<notin> fst ` set (us @ vs) \<Longrightarrow> ps_parent n' = ps_parent n \<Longrightarrow>
    chain (h(a \<mapsto> n')) p (us @ (a, n') # vs)"
  by (induction us arbitrary: p) (auto simp: chain_upd)

lemma extended_unref:
  assumes g: "good_chain h p ns" "few_refs ns" and h1: "rp_path_search_addref h p = Some h1"
    and new: "extends h1 (addref_head ns) h' p' new"
  shows "\<exists>h2. rp_path_search_unref h' p = Some h2 \<and> extends h ns h2 p' new"
proof (cases ns)
  case Nil
  then have "p = None" using g(1) by (simp add: good_chain_def)
  then show ?thesis using Nil h1 new
    by (simp add: rp_path_search_addref_def rp_path_search_unref.simps addref_head_def)
next
  case (Cons an ms)
  obtain a n where an: "an = (a, n)" by (cases an)
  let ?n = "n\<lparr>ps_refcount := ps_refcount n + 1\<rparr>"
  have p: "p = Some a" "h a = Some n" "chain h p ((a, n) # ms)" "ps_refcount n \<noteq> 0"
    using g Cons an by (auto simp: good_chain_def good_node_def)
  have H1: "h1 = h(a \<mapsto> ?n)" "addref_head ns = (a, ?n) # ms"
    using h1 p Cons an by (auto simp: rp_path_search_addref_def addref_head_def)
  have an_new: "a \<notin> fst ` set new" using new H1 by (auto simp: extends_def)
  have an_ms: "a \<notin> fst ` set ms" using chain_hd_not_in_tl [OF p(3)] by simp
  have c: "chain h' p' (new @ (a, ?n) # ms)" "h' = h1 ++ map_of new"
    using new H1(2) by (auto simp: extends_def)
  have h'a: "h' a = Some ?n" using chain_allocated [OF c(1), of "(a, ?n)"] by simp
  let ?h2 = "h'(a \<mapsto> n)"
  have "rp_path_search_unref h' p = Some ?h2"
    unfolding p(1) using h'a p(4) by (subst rp_path_search_unref.simps) simp
  moreover have "?h2 = h ++ map_of new"
  proof
    fix x
    have "map_of new a = None" using an_new by (simp add: map_of_eq_None_iff)
    then show "?h2 x = (h ++ map_of new) x"
      using p(2) unfolding c(2) H1(1) by (cases "x = a") (simp_all add: map_add_def split: option.split)
  qed
  moreover have "chain ?h2 p' (new @ (a, n) # ms)"
    by (rule chain_replace [OF c(1)]) (use an_new an_ms in auto)
  moreover have "\<forall>an \<in> set new. h (fst an) = None \<and> good_node (snd an) \<and> ps_refcount (snd an) = 1"
    using new H1(1) by (auto simp: extends_def split: if_splits)
  ultimately show ?thesis using Cons an by (auto simp: extends_def)
qed

text \<open>
  Extending a list of the caller either fails and changes nothing, or
  replaces it by the list with the new directories, and releasing that list does what releasing
  the old one did.
\<close>

theorem rp_path_search_extend_dirs_correct:
  assumes g: "good_chain h p ns" "few_refs ns" and t: "no_nul t" "length t < 2 ^ 32"
    and al: "allocates_nodes (nodes_alloc lc)" and e: "expands lc d t"
  shows "\<exists>rc h' p' ns'. rp_path_search_extend_dirs lc h (Some (cstr d)) before p = Some (rc, h', p') \<and>
    (rc = 0 \<and> good_chain h' p' ns' \<and> entries ns' = add_dirs before (dirs_of t) (entries ns) \<and>
       rp_path_search_unref h' p' = rp_path_search_unref h p \<or>
     rc < 0 \<and> h' = h \<and> p' = p)"
proof -
  obtain ex where ex: "rp_expand_vars_env_only (text_alloc lc) (Some (env_vars lc)) (Some (cstr d)) False = Some ex"
    "case ex of None \<Rightarrow> t = d | Some b \<Rightarrow> \<exists>r. b = cstr t @ r"
    using e by (auto simp: expands_def)
  then obtain r where r: "(if ex \<noteq> None then ex else Some (cstr d)) = Some (t @ NUL # r)"
    by (cases ex) (auto simp: cstr_def)
  obtain h1 where h1: "rp_path_search_addref h p = Some h1" "good_chain h1 p (addref_head ns)"
    "rp_path_search_unref h1 p = Some h"
    using good_addref [OF g] by metis
  obtain rc h2 p2 where m: "make_paths (nodes_alloc lc) h1 p (t @ NUL # r) before = Some (rc, h2, p2)"
    "make_result (nodes_alloc lc) h1 (addref_head ns) before (dirs_of t) (rc, h2, p2)"
    using make_eq [OF h1(2) t al, of r before] by auto
  obtain new where new: "extends h1 (addref_head ns) h2 p2 new"
    "rc = 0 \<and> entries (new @ addref_head ns) = add_dirs before (dirs_of t) (entries ns) \<or> rc < 0"
    using m(2) by (auto simp: make_result_def x_errno)
  have u: "rp_path_search_unref h2 p2 = Some h"
    using extends_unref [OF new(1), of p] h1(2,3) unfolding good_chain_def by metis
  have a: "rp_path_search_add_dirs lc h (Some (cstr d)) before p =
      (if rc < 0 then Some (rc, h, None) else Some (rc, h2, p2))"
    unfolding rp_path_search_add_dirs_def ex(1) bind.bind_lunit r
    using h1(1) m(1) u by (simp add: add_dir_expanded_def)
  show ?thesis
  proof (cases "rc < 0")
    case True
    then show ?thesis using a by (simp add: rp_path_search_extend_dirs_def replace_paths_def)
  next
    case False
    then have rc: "rc = 0" "entries (new @ ns) = add_dirs before (dirs_of t) (entries ns)"
      using new(2) by auto
    obtain h3 where h3: "rp_path_search_unref h2 p = Some h3" "extends h ns h3 p2 new"
      using extended_unref [OF g h1(1) new(1)] by blast
    have "good_chain h3 p2 (new @ ns)" by (rule extends_good [OF h3(2) g(1)])
    moreover have "rp_path_search_unref h3 p2 = rp_path_search_unref h p"
      using extends_unref [OF h3(2)] g(1) by (simp add: good_chain_def)
    ultimately show ?thesis using a h3(1) rc
      by (auto simp: rp_path_search_extend_dirs_def replace_paths_def)
  qed
qed

text \<open>What finding a file does for each directory.\<close>

definition find_cb :: "(string \<Rightarrow> bool) \<Rightarrow> string \<Rightarrow> 's path_cb \<Rightarrow> 's path_cb" where
  "find_cb access f cb s path len =
     (let file = take len path @ ''/'' @ f in
      if length file \<le> PATH_MAX \<and> access file then cb s (cstr file) (length file) else Some (0, s))"

lemma find_or_read_cb_eq:
  assumes b: "lo_filename loc = pre @ cstr (CHR ''/'' # f)" "length pre = lo_remains loc"
    and s: "lo_remains loc + length f + 2 = PATH_MAX + 1" and f: "no_nul f" and d: "no_nul d"
  shows "\<exists>pre'. length pre' = lo_remains loc \<and> find_or_read_cb access cb loc (cstr d) (length d) =
    map_option (\<lambda>(r, c). (r, loc\<lparr>lo_filename := pre' @ cstr (CHR ''/'' # f), lo_closure := c\<rparr>))
      (find_cb access f cb (lo_closure loc) (cstr d) (length d))"
proof (cases "length d \<le> lo_remains loc")
  case False
  then have "\<not> length (d @ ''/'' @ f) \<le> PATH_MAX" using s by simp
  then have "find_cb access f cb (lo_closure loc) (cstr d) (length d) = Some (0, lo_closure loc)"
    by (simp add: find_cb_def)
  moreover have "loc\<lparr>lo_filename := pre @ cstr (CHR ''/'' # f), lo_closure := lo_closure loc\<rparr> = loc" using b(1) by simp
  ultimately show ?thesis using False b(2) by (intro exI [of _ pre]) (simp add: find_or_read_cb_def)
next
  case True
  let ?pos = "lo_remains loc - length d"
  let ?pre = "take ?pos pre @ d" and ?file = "d @ ''/'' @ f"
  have m: "memcpy (lo_filename loc) ?pos (cstr d) (length d) = Some (?pre @ cstr (CHR ''/'' # f))"
    using True b by (simp add: memcpy_def)
  have lp: "length ?pre = lo_remains loc" using True b(2) by simp
  have dr: "drop ?pos (?pre @ cstr (CHR ''/'' # f)) = cstr ?file"
    using True b(2) by (simp add: cstr_def)
  have st: "string_at (?pre @ cstr (CHR ''/'' # f)) ?pos = ?file"
    unfolding string_at_def dr using f d by (auto simp: cstr_def no_nul_def takeWhile_append)
  have lf: "PATH_MAX - ?pos = length ?file" "length ?file \<le> PATH_MAX" using True s by simp_all
  have "find_cb access f cb (lo_closure loc) (cstr d) (length d) =
      (if access ?file then cb (lo_closure loc) (cstr ?file) (length ?file) else Some (0, lo_closure loc))"
    unfolding find_cb_def Let_def using lf(2) by simp
  moreover have "find_or_read_cb access cb loc (cstr d) (length d) =
      (if access ?file then do {
         (rc, s) \<leftarrow> cb (lo_closure loc) (cstr ?file) (length ?file);
         Some (rc, loc\<lparr>lo_filename := ?pre @ cstr (CHR ''/'' # f), lo_closure := s\<rparr>) }
       else Some (0, loc\<lparr>lo_filename := ?pre @ cstr (CHR ''/'' # f)\<rparr>))"
    unfolding find_or_read_cb_def if_P [OF True] m bind.bind_lunit Let_def st dr
    by (simp only: lf add_diff_cancel_right' locate.simps) simp
  moreover have "loc\<lparr>lo_filename := x, lo_closure := lo_closure loc\<rparr> = loc\<lparr>lo_filename := x\<rparr>" for x by simp
  ultimately show ?thesis using lp
    by (intro exI [of _ ?pre])
      (cases "cb (lo_closure loc) (cstr ?file) (length ?file)"; auto)
qed

lemma find_list_eq:
  assumes "lo_filename loc = pre @ cstr (CHR ''/'' # f)" "length pre = lo_remains loc"
    and "lo_remains loc + length f + 2 = PATH_MAX + 1" and "no_nul f" and "\<forall>d \<in> set ds. no_nul d"
  shows "map_option (\<lambda>(r, loc). (r, lo_closure loc)) (call_all (find_or_read_cb access cb) loc ds) =
    call_all (find_cb access f cb) (lo_closure loc) ds"
  using assms
proof (induction ds arbitrary: loc pre)
  case (Cons d ds)
  obtain pre' where pre': "length pre' = lo_remains loc"
    "find_or_read_cb access cb loc (cstr d) (length d) =
     map_option (\<lambda>(r, c). (r, loc\<lparr>lo_filename := pre' @ cstr (CHR ''/'' # f), lo_closure := c\<rparr>))
       (find_cb access f cb (lo_closure loc) (cstr d) (length d))"
    using find_or_read_cb_eq [OF Cons.prems(1-4), of d access cb] Cons.prems(5) by auto
  show ?case
  proof (cases "find_cb access f cb (lo_closure loc) (cstr d) (length d)")
    case None
    then show ?thesis using pre'(2) by simp
  next
    case (Some rc)
    obtain r c where rc: "rc = (r, c)" by (cases rc)
    let ?loc = "loc\<lparr>lo_filename := pre' @ cstr (CHR ''/'' # f), lo_closure := c\<rparr>"
    have "map_option (\<lambda>(r, loc). (r, lo_closure loc)) (call_all (find_or_read_cb access cb) ?loc ds) =
        call_all (find_cb access f cb) c ds"
      using Cons.IH [of ?loc pre'] pre'(1) Cons.prems by simp
    then show ?thesis using pre'(2) Some rc by simp
  qed
qed simp

lemma entries_no_nul:
  assumes "good_chain h p ns" and "d \<in> set (search_order (entries ns))"
  shows "no_nul d"
proof -
  have "set (search_order es) = snd ` set es" for es by (induction es rule: search_order.induct) auto
  then obtain an where "an \<in> set ns" "d = snd (entry_of (snd an))" using assms(2) by (auto simp: entries_def)
  then show ?thesis using good_node_path assms(1) by (auto simp: good_chain_def)
qed

text \<open>
  Property C20: finding a file calls the callback for every directory of the list, in the
  order of search, whose path to the file fits \<open>PATH_MAX\<close> and exists, with that path and its length;
  no access leaves the buffer. A missing, empty or too long name is refused.
\<close>

theorem rp_path_search_find_correct:
  assumes "good_chain h p ns" and "ns \<noteq> []" and "no_nul f" and "length buf = PATH_MAX + 1"
  shows "rp_path_search_find access buf h p (Some (cstr f)) cb s =
      (if f = [] \<or> length f \<ge> PATH_MAX then Some (X_EINVAL, s)
       else call_all (find_cb access f cb) s (search_order (entries ns))) \<and>
    rp_path_search_find access buf h p None cb s = Some (X_EINVAL, s)"
proof
  show "rp_path_search_find access buf h p None cb s = Some (X_EINVAL, s)"
    by (simp add: rp_path_search_find_def)
  show "rp_path_search_find access buf h p (Some (cstr f)) cb s =
      (if f = [] \<or> length f \<ge> PATH_MAX then Some (X_EINVAL, s)
       else call_all (find_cb access f cb) s (search_order (entries ns)))"
  proof (cases "f = [] \<or> length f \<ge> PATH_MAX")
    case True
    then show ?thesis using assms(3) by (auto simp: rp_path_search_find_def)
  next
    case False
    let ?rem = "PATH_MAX + 1 - length f - 2"
    have rem: "?rem + length f + 2 = PATH_MAX + 1" using False by simp
    have m: "memcpy buf (?rem + 1) (cstr f) (length f + 1) = Some (take (?rem + 1) buf @ cstr f)"
      using rem assms(4) by (simp add: memcpy_def)
    let ?pre = "take ?rem buf"
    have lp: "length ?pre = ?rem" using assms(4) by simp
    have "take (?rem + 1) buf = ?pre @ [buf ! ?rem]" using rem assms(4) by (simp add: take_Suc_conv_app_nth)
    then have st: "store (take (?rem + 1) buf @ cstr f) ?rem (CHR ''/'') = Some (?pre @ cstr (CHR ''/'' # f))"
      using lp by (simp add: store_def cstr_def list_update_append nth_append)
    let ?loc = "\<lparr>lo_filename = ?pre @ cstr (CHR ''/'' # f), lo_remains = ?rem, lo_closure = s\<rparr>"
    have "rp_path_search_find access buf h p (Some (cstr f)) cb s =
        do { (rc, loc) \<leftarrow> call_all (find_or_read_cb access cb) ?loc (search_order (entries ns)); Some (rc, lo_closure loc) }"
      using False assms(3) unfolding rp_path_search_find_def
      by (simp only: option.case strlen_cstr bind.bind_lunit Let_def m st list_eq [OF assms(1,2)]) auto
    also have "\<dots> = map_option (\<lambda>(r, loc). (r, lo_closure loc)) (call_all (find_or_read_cb access cb) ?loc (search_order (entries ns)))"
      by (simp add: map_conv_bind_option split_def comp_def)
    also have "\<dots> = call_all (find_cb access f cb) s (search_order (entries ns))"
      using find_list_eq [of ?loc ?pre f "search_order (entries ns)" access cb] lp rem assms(3) entries_no_nul [OF assms(1)]
      by simp
    finally show ?thesis using False by simp
  qed
qed

theorem rp_path_search_find_correct_witness:
  "let h = [0 \<mapsto> \<lparr>ps_parent = Some 1, ps_refcount = 1, ps_length = - 2, ps_path = cstr ''/a''\<rparr>,
            1 \<mapsto> \<lparr>ps_parent = None, ps_refcount = 1, ps_length = 2, ps_path = cstr ''/b''\<rparr>] in
    rp_path_search_find (\<lambda>f. True) (replicate (PATH_MAX + 1) NUL) h (Some 0) (Some (cstr ''x'')) collect [] =
      Some (0, [''/b/x'', ''/a/x''])"
proof -
  let ?na = "\<lparr>ps_parent = Some 1, ps_refcount = 1, ps_length = - 2, ps_path = cstr ''/a''\<rparr> :: node"
  let ?nb = "\<lparr>ps_parent = None, ps_refcount = 1, ps_length = 2, ps_path = cstr ''/b''\<rparr> :: node"
  have g: "good_chain [0 \<mapsto> ?na, 1 \<mapsto> ?nb] (Some 0) [(0, ?na), (1, ?nb)]"
  proof -
    have "good_node ?na" unfolding good_node_def by (rule conjI, simp, rule exI [of _ "''/a''"]) (simp add: SHRT_MAX_def)
    moreover have "good_node ?nb" unfolding good_node_def by (rule conjI, simp, rule exI [of _ "''/b''"]) (simp add: SHRT_MAX_def)
    ultimately show ?thesis by (simp add: good_chain_def)
  qed
  have o: "search_order (entries [(0, ?na), (1, ?nb)]) = [''/b'', ''/a'']" by (simp add: entry_of_def)
  show ?thesis
    using rp_path_search_find_correct [OF g, of "''x''" "replicate (PATH_MAX + 1) NUL" "\<lambda>f. True" collect "[]", unfolded o]
    by (simp add: find_cb_def collect_def PATH_MAX_def)
qed

theorem rp_path_search_extend_dirs_correct_witness:
  "\<exists>rc h p. rp_path_search_extend_dirs (some_libc []) Map.empty (Some (cstr ''/a'')) True None = Some (rc, h, p) \<and>
    (rc = 0 \<and> rp_path_search_unref h p = Some Map.empty \<or> rc < 0 \<and> h = Map.empty)"
proof -
  have e: "expands (some_libc []) ''/a'' ''/a''" by (rule expands_plain) (simp, unfold plain_text_def, code_simp)
  then show ?thesis
    using rp_path_search_extend_dirs_correct [of Map.empty None "[]" "''/a''" "some_libc []" "''/a''" True]
      allocates_first_free
    by (auto simp: good_chain_def few_refs_def some_libc_def rp_path_search_unref.simps)
qed

end
