(* ===== verification/PathScan.thy ===== *)
theory PathScan
  imports PathSearch
begin

unbundle bit_operations_syntax

text \<open>
  \<open>src/misc/rp-path-search.c\<close>, second part: the enumeration of the files and directories
  found under the directories of a list. The file system is an argument: what
  \<open>opendir\<close> and \<open>readdir\<close> give for a path, and the kind that \<open>stat\<close>
  gives. The recursion takes fuel; \<open>PATH_MAX\<close> is enough because each level lengthens the
  path in the buffer of that size.
\<close>

subsection \<open>The file system\<close>

datatype file_type = DT_REG | DT_DIR | DT_LNK | DT_OTHER

record dirent =
  d_ino :: nat
  d_type :: file_type
  d_name :: string

record filesys =
  fs_opendir :: "string \<Rightarrow> dirent list option"
  fs_stat :: "string \<Rightarrow> file_type option"

subsection \<open>Search data\<close>

datatype search_action =
    rp_path_search_file
  | rp_path_search_directory_before
  | rp_path_search_directory_enter
  | rp_path_search_directory_after

text \<open>The entry given to callbacks; its name is an offset in the path, \<open>None\<close> for a null pointer.\<close>

record search_entry =
  en_name :: "nat option"
  en_pathlen :: nat
  en_namelen :: nat
  en_isDir :: bool
  en_action :: search_action

record 's search =
  se_path :: mem
  se_entry :: search_entry
  se_user :: 's

text \<open>The callback and the optional filter get the path and the entry and may change their closure.\<close>

type_synonym 's item_cb = "'s \<Rightarrow> mem \<Rightarrow> search_entry \<Rightarrow> int \<times> 's"
type_synonym 's filter_cb = "'s \<Rightarrow> mem \<Rightarrow> search_entry \<Rightarrow> bool \<times> 's"

record 's search_env =
  sv_fs :: filesys
  sv_callback :: "'s item_cb"
  sv_filter :: "'s filter_cb option"

definition RP_PATH_SEARCH_FILE :: int where "RP_PATH_SEARCH_FILE = 1"
definition RP_PATH_SEARCH_DIRECTORY :: int where "RP_PATH_SEARCH_DIRECTORY = 2"
definition RP_PATH_SEARCH_FLEXIBLE :: int where "RP_PATH_SEARCH_FLEXIBLE = 4"
definition RP_PATH_SEARCH_RECURSIVE :: int where "RP_PATH_SEARCH_RECURSIVE = 8"
definition RP_PATH_SEARCH_DEPTH_BASE :: int where "RP_PATH_SEARCH_DEPTH_BASE = 16"

lemmas search_flags = RP_PATH_SEARCH_FILE_def RP_PATH_SEARCH_DIRECTORY_def RP_PATH_SEARCH_FLEXIBLE_def
  RP_PATH_SEARCH_RECURSIVE_def RP_PATH_SEARCH_DEPTH_BASE_def

definition RP_PATH_SEARCH_DEPTH :: "int \<Rightarrow> int" where
  "RP_PATH_SEARCH_DEPTH x = RP_PATH_SEARCH_DEPTH_BASE * (1 + x)"

definition has_flag :: "int \<Rightarrow> int \<Rightarrow> bool" where
  "has_flag flags f \<longleftrightarrow> flags AND f \<noteq> 0"

text \<open>Calls of the callback and of the filter on the current entry.\<close>

definition call_item :: "'s search_env \<Rightarrow> 's search \<Rightarrow> int \<times> 's search" where
  "call_item ev st =
     (let (r, u) = sv_callback ev (se_user st) (se_path st) (se_entry st) in (r, st\<lparr>se_user := u\<rparr>))"

definition ask_filter :: "'s search_env \<Rightarrow> 's search \<Rightarrow> bool \<times> 's search" where
  "ask_filter ev st =
     (case sv_filter ev of
        None \<Rightarrow> (True, st)
      | Some f \<Rightarrow> let (r, u) = f (se_user st) (se_path st) (se_entry st) in (r, st\<lparr>se_user := u\<rparr>))"

definition filtered_call :: "'s search_env \<Rightarrow> 's search \<Rightarrow> int \<times> 's search" where
  "filtered_call ev st = (let (ok, st) = ask_filter ev st in if ok then call_item ev st else (0, st))"

definition set_action :: "search_action \<Rightarrow> 's search \<Rightarrow> 's search" where
  "set_action a st = st\<lparr>se_entry := (se_entry st)\<lparr>en_action := a\<rparr>\<rparr>"

subsection \<open>The recursive search\<close>

text \<open>The depth in the flags, one less at each level.\<close>

definition search_level :: "int \<Rightarrow> int" where
  "search_level flags =
     (if flags \<ge> RP_PATH_SEARCH_DEPTH_BASE then
        let flags = flags - RP_PATH_SEARCH_DEPTH_BASE in
        if flags > RP_PATH_SEARCH_DEPTH_BASE then flags OR RP_PATH_SEARCH_RECURSIVE
        else flags AND NOT RP_PATH_SEARCH_RECURSIVE
      else flags)"

text \<open>The kind of an entry, after the link if it is one.\<close>

definition real_type :: "filesys \<Rightarrow> dirent \<Rightarrow> string \<Rightarrow> file_type" where
  "real_type fs ent path =
     (if d_type ent = DT_LNK then
        (case fs_stat fs path of Some DT_REG \<Rightarrow> DT_REG | Some DT_DIR \<Rightarrow> DT_DIR | _ \<Rightarrow> DT_LNK)
      else d_type ent)"

text \<open>Neither \<open>.\<close> nor \<open>..\<close>, from the name in the buffer.\<close>

definition enters_dir :: "mem \<Rightarrow> nat \<Rightarrow> nat \<Rightarrow> bool option" where
  "enters_dir path pos len = do {
     c \<leftarrow> load path pos;
     if c \<noteq> CHR ''.'' then Some True
     else if len > 1 then do {
       d \<leftarrow> load path (pos + 1);
       Some (d \<noteq> CHR ''.'' \<or> len > 2)
     }
     else Some False
   }"

definition visit_file :: "'s search_env \<Rightarrow> int \<Rightarrow> 's search \<Rightarrow> int \<times> 's search" where
  "visit_file ev flags st =
     (let st = set_action rp_path_search_file (st\<lparr>se_entry := (se_entry st)\<lparr>en_isDir := False\<rparr>\<rparr>) in
      if has_flag flags RP_PATH_SEARCH_FILE
      then (let (ok, st) = ask_filter ev st in
            if ok then call_item ev (st\<lparr>se_entry := (se_entry st)\<lparr>en_isDir := False\<rparr>\<rparr>) else (0, st))
      else (0, st))"

text \<open>
  The loop on the entries of a directory; \<open>sub\<close> searches a sub-directory, from its
  entries and the inodes of the directories entered.
\<close>

type_synonym 's sub_search = "'s search \<Rightarrow> dirent list \<Rightarrow> nat list \<Rightarrow> (int \<times> 's search) option"

definition search_one ::
  "'s search_env \<Rightarrow> 's sub_search \<Rightarrow> nat \<Rightarrow> nat list \<Rightarrow> int \<Rightarrow> 's search \<Rightarrow> dirent \<Rightarrow> (int \<times> 's search) option" where
  "search_one ev sub pos previous flags st ent =
     (let len = length (d_name ent) mod 2 ^ 16 in
      if len + pos \<ge> PATH_MAX then Some (0, st)
      else do {
        path \<leftarrow> memcpy (se_path st) pos (cstr (d_name ent)) (1 + len);
        let type = real_type (sv_fs ev) ent (string_at path 0);
        let st = st\<lparr>se_path := path, se_entry := (se_entry st)\<lparr>en_name := Some pos, en_namelen := len,
          en_pathlen := (pos + len) mod 2 ^ 16\<rparr>\<rparr>;
        if type = DT_REG then Some (visit_file ev flags st)
        else if type = DT_DIR then do {
          enter \<leftarrow> enters_dir path pos len;
          if enter then
            (case fs_opendir (sv_fs ev) (string_at path 0) of
               None \<Rightarrow> Some (0, st)
             | Some ents \<Rightarrow> sub st ents (d_ino ent # previous))
          else Some (0, st)
        }
        else Some (0, st)
      })"

fun search_entries ::
  "'s search_env \<Rightarrow> 's sub_search \<Rightarrow> nat \<Rightarrow> nat list \<Rightarrow> int \<Rightarrow> 's search \<Rightarrow> dirent list \<Rightarrow> (int \<times> 's search) option" where
  "search_entries ev sub pos previous flags st [] = Some (0, st)"
| "search_entries ev sub pos previous flags st (ent # ents) =
     (if d_ino ent \<in> set previous then search_entries ev sub pos previous flags st ents
      else do {
        (stop, st) \<leftarrow> search_one ev sub pos previous flags st ent;
        if stop \<noteq> 0 then Some (stop, st) else search_entries ev sub pos previous flags st ents
      })"

text \<open>The separator after the path of the directory: the place of the names.\<close>

definition name_pos :: "mem \<Rightarrow> nat \<Rightarrow> (nat \<times> mem) option" where
  "name_pos path pos =
     (if pos > 0 then do {
        c \<leftarrow> load path (pos - 1);
        if c \<noteq> CHR ''/'' then do { path \<leftarrow> store path pos (CHR ''/''); Some (pos + 1, path) }
        else Some (pos, path)
      }
      else Some (pos, path))"

definition list_dir ::
  "'s search_env \<Rightarrow> (int \<Rightarrow> 's sub_search) \<Rightarrow> int \<Rightarrow> 's search \<Rightarrow> dirent list \<Rightarrow> nat list \<Rightarrow> (int \<times> 's search) option" where
  "list_dir ev sub flags st ents previous = do {
     let onlen = en_namelen (se_entry st);
     let oplen = en_pathlen (se_entry st);
     (pos, path) \<leftarrow> name_pos (se_path st) oplen;
     (stop, st) \<leftarrow> search_entries ev (sub flags) pos previous flags (st\<lparr>se_path := path\<rparr>) ents;
     Some (stop, st\<lparr>se_entry := (se_entry st)\<lparr>en_namelen := onlen, en_pathlen := oplen\<rparr>\<rparr>)
   }"

primrec search_in_dir ::
  "nat \<Rightarrow> 's search_env \<Rightarrow> int \<Rightarrow> 's search \<Rightarrow> dirent list \<Rightarrow> nat list \<Rightarrow> (int \<times> 's search) option" where
  "search_in_dir 0 ev flags st ents previous = None"
| "search_in_dir (Suc fuel) ev flags st ents previous =
     (let flags = search_level flags;
          st = set_action rp_path_search_directory_before (st\<lparr>se_entry := (se_entry st)\<lparr>en_isDir := True\<rparr>\<rparr>);
          (stop, st) = (if has_flag flags RP_PATH_SEARCH_DIRECTORY then filtered_call ev st else (0, st));
          st = set_action rp_path_search_directory_enter st;
          (enter, st) = (if stop = 0 \<and> has_flag flags RP_PATH_SEARCH_RECURSIVE
                         then (if has_flag flags RP_PATH_SEARCH_DIRECTORY then ask_filter ev st else (True, st))
                         else (False, st)) in do {
        (stop, st) \<leftarrow> (if enter then list_dir ev (search_in_dir fuel ev) flags st ents previous else Some (stop, st));
        let st = set_action rp_path_search_directory_after st;
        Some (if stop = 0 \<and> has_flag flags RP_PATH_SEARCH_DIRECTORY \<and> sv_filter ev \<noteq> None
              then filtered_call ev st else (stop, st))
      })"

subsection \<open>Searching the list\<close>

text \<open>The callback of the listing, for one directory of the list.\<close>

definition searchcb :: "'s search_env \<Rightarrow> int \<Rightarrow> 's search path_cb" where
  "searchcb ev flags st path len = do {
     p \<leftarrow> memcpy (se_path st) 0 path (1 + len);
     let st = st\<lparr>se_path := p, se_entry := (se_entry st)\<lparr>en_pathlen := len mod 2 ^ 16, en_namelen := 0\<rparr>\<rparr>;
     case fs_opendir (sv_fs ev) (string_at p 0) of
       Some ents \<Rightarrow> search_in_dir PATH_MAX ev flags st ents []
     | None \<Rightarrow>
         Some (if flags AND (RP_PATH_SEARCH_FLEXIBLE OR RP_PATH_SEARCH_FILE) = RP_PATH_SEARCH_FLEXIBLE OR RP_PATH_SEARCH_FILE \<and>
                 fs_stat (sv_fs ev) (string_at p 0) = Some DT_REG
               then call_item ev (set_action rp_path_search_file (st\<lparr>se_entry := (se_entry st)\<lparr>en_isDir := False\<rparr>\<rparr>))
               else (0, st))
   }"

definition rp_path_search_filter ::
  "filesys \<Rightarrow> heap \<Rightarrow> ref \<Rightarrow> int \<Rightarrow> 's item_cb \<Rightarrow> 's filter_cb option \<Rightarrow> 's \<Rightarrow> (int \<times> 's) option" where
  "rp_path_search_filter fs h paths flags callback filt closure = do {
     let flags = (if flags AND (RP_PATH_SEARCH_FILE OR RP_PATH_SEARCH_DIRECTORY) \<noteq> 0 then flags
                  else flags OR RP_PATH_SEARCH_FILE);
     let ev = \<lparr>sv_fs = fs, sv_callback = callback, sv_filter = filt\<rparr>;
     let st = \<lparr>se_path = replicate PATH_MAX NUL, se_entry = \<lparr>en_name = None, en_pathlen = 0, en_namelen = 0,
       en_isDir = False, en_action = rp_path_search_file\<rparr>, se_user = closure\<rparr>;
     (rc, st) \<leftarrow> rp_path_search_list h paths (searchcb ev flags) st;
     Some (rc, se_user st)
   }"

definition rp_path_search ::
  "filesys \<Rightarrow> heap \<Rightarrow> ref \<Rightarrow> int \<Rightarrow> 's item_cb \<Rightarrow> 's \<Rightarrow> (int \<times> 's) option" where
  "rp_path_search fs h paths flags callback closure = rp_path_search_filter fs h paths flags callback None closure"

text \<open>
  The filter on names: the text at the name of the entry, of the length it gives, ends with the
  extension, and what precedes it and perhaps a dot is the file name.
\<close>

definition matchnamecb :: "string \<Rightarrow> string \<Rightarrow> string \<Rightarrow> nat \<Rightarrow> bool" where
  "matchnamecb filename extension name namelen =
     (let len = namelen in
      if extension \<noteq> [] \<and> (len < length extension \<or>
           extension \<noteq> take (length extension) (drop (len - length extension) name))
      then False
      else
        let len = (if extension \<noteq> [] then len - length extension else len);
            len = (if extension \<noteq> [] \<and> hd extension \<noteq> CHR ''.'' \<and> len \<noteq> 0 \<and> name ! (len - 1) = CHR ''.''
                   then len - 1 else len) in
        filename = [] \<or> len = length filename \<and> filename = take len name)"

definition match_filter :: "string \<Rightarrow> string \<Rightarrow> 's filter_cb" where
  "match_filter filename extension u path en =
     (matchnamecb filename extension (case en_name en of None \<Rightarrow> [] | Some n \<Rightarrow> drop n path) (en_namelen en), u)"

definition rp_path_search_match ::
  "filesys \<Rightarrow> heap \<Rightarrow> ref \<Rightarrow> int \<Rightarrow> string option \<Rightarrow> string option \<Rightarrow> 's item_cb \<Rightarrow> 's \<Rightarrow> (int \<times> 's) option" where
  "rp_path_search_match fs h paths flags name extension callback closure =
     rp_path_search_filter fs h paths flags callback
       (Some (match_filter (case name of None \<Rightarrow> [] | Some n \<Rightarrow> n) (case extension of None \<Rightarrow> [] | Some e \<Rightarrow> e))) closure"

subsection \<open>Termination and bounds\<close>

text \<open>Directories whose entries have names that \<open>readdir\<close> can give.\<close>

definition good_fs :: "filesys \<Rightarrow> bool" where
  "good_fs fs \<longleftrightarrow> (\<forall>p es. fs_opendir fs p = Some es \<longrightarrow>
     (\<forall>e \<in> set es. d_name e \<noteq> [] \<and> no_nul (d_name e) \<and> length (d_name e) < 256))"

definition good_names :: "dirent list \<Rightarrow> bool" where
  "good_names es \<longleftrightarrow> (\<forall>e \<in> set es. d_name e \<noteq> [] \<and> no_nul (d_name e) \<and> length (d_name e) < 256)"

lemma good_fsD: "good_fs fs \<Longrightarrow> fs_opendir fs p = Some es \<Longrightarrow> good_names es"
  by (auto simp: good_fs_def good_names_def)

text \<open>The search state of a run: the buffer keeps its size, and the bytes before an offset.\<close>

definition keeps :: "nat \<Rightarrow> 's search \<Rightarrow> 's search \<Rightarrow> bool" where
  "keeps k st st' \<longleftrightarrow> length (se_path st') = PATH_MAX \<and> take k (se_path st') = take k (se_path st)"

lemma keeps_trans: "keeps k st st' \<Longrightarrow> keeps k st' st'' \<Longrightarrow> keeps k st st''"
  by (simp add: keeps_def)

lemma keeps_less: "keeps l st st' \<Longrightarrow> k \<le> l \<Longrightarrow> keeps k st st'"
  unfolding keeps_def by (metis min.absorb1 take_take)

lemma keeps_refl: "length (se_path st) = PATH_MAX \<Longrightarrow> keeps k st st"
  by (simp add: keeps_def)

text \<open>The steps that only call the user's functions keep path and lengths.\<close>

definition same_path :: "'s search \<Rightarrow> 's search \<Rightarrow> bool" where
  "same_path st st' \<longleftrightarrow> se_path st' = se_path st \<and> en_pathlen (se_entry st') = en_pathlen (se_entry st)"

lemma same_path_trans: "same_path st st' \<Longrightarrow> same_path st' st'' \<Longrightarrow> same_path st st''"
  by (simp add: same_path_def)

lemma same_path_calls:
  "same_path st (snd (call_item ev st))" "same_path st (snd (ask_filter ev st))"
  "same_path st (snd (filtered_call ev st))" "same_path st (set_action a st)"
  "same_path st (snd (visit_file ev flags st))"
  by (auto simp: same_path_def call_item_def ask_filter_def filtered_call_def set_action_def visit_file_def Let_def
      split: prod.split option.split)

lemma same_path_keeps: "same_path st st' \<Longrightarrow> length (se_path st) = PATH_MAX \<Longrightarrow> keeps k st st'"
  by (simp add: same_path_def keeps_def)

text \<open>The sub-searches that the loop may call: defined from any longer path, and keeping it.\<close>

definition sub_ok :: "'s sub_search \<Rightarrow> nat \<Rightarrow> bool" where
  "sub_ok sub k \<longleftrightarrow> (\<forall>st ents previous.
     length (se_path st) = PATH_MAX \<longrightarrow> k < en_pathlen (se_entry st) \<longrightarrow> en_pathlen (se_entry st) < PATH_MAX \<longrightarrow>
     good_names ents \<longrightarrow>
     (\<exists>r st'. sub st ents previous = Some (r, st') \<and> keeps (en_pathlen (se_entry st)) st st'))"

lemma sub_okD:
  assumes "sub_ok sub k" and "length (se_path st) = PATH_MAX" and "en_pathlen (se_entry st) = n"
    and "k < n" and "n < PATH_MAX" and "good_names ents"
  obtains r st' where "sub st ents previous = Some (r, st')" "keeps n st st'"
  using assms unfolding sub_ok_def by blast

lemma enters_dir_ok: "pos < length path \<Longrightarrow> (1 < len \<Longrightarrow> pos + 1 < length path) \<Longrightarrow> \<exists>b. enters_dir path pos len = Some b"
  by (cases "path ! pos = CHR ''.''"; cases "1 < len") (simp_all add: enters_dir_def, blast+)

lemma search_one_ok:
  assumes fs: "good_fs (sv_fs ev)" and sub: "sub_ok sub k" and p: "k \<le> pos" "pos \<le> PATH_MAX"
    and l: "length (se_path st) = PATH_MAX" and n: "d_name ent \<noteq> []" "no_nul (d_name ent)" "length (d_name ent) < 256"
  shows "\<exists>r st'. search_one ev sub pos previous flags st ent = Some (r, st') \<and> keeps pos st st'"
proof -
  have len: "length (d_name ent) mod 2 ^ 16 = length (d_name ent)" using n(3) by simp
  show ?thesis
  proof (cases "length (d_name ent) + pos \<ge> PATH_MAX")
    case True
    then show ?thesis using l len by (simp add: search_one_def keeps_refl)
  next
    case False
    let ?path = "take pos (se_path st) @ cstr (d_name ent) @ drop (pos + length (d_name ent) + 1) (se_path st)"
    have m: "memcpy (se_path st) pos (cstr (d_name ent)) (1 + length (d_name ent)) = Some ?path"
      using False l by (simp add: memcpy_def)
    have lp: "length ?path = PATH_MAX" using False l by simp
    let ?st = "st\<lparr>se_path := ?path, se_entry := (se_entry st)\<lparr>en_name := Some pos, en_namelen := length (d_name ent),
      en_pathlen := pos + length (d_name ent)\<rparr>\<rparr>"
    have mod: "(pos + length (d_name ent)) mod 2 ^ 16 = pos + length (d_name ent)"
      using False by (simp add: PATH_MAX_def)
    have k: "keeps pos st ?st" using lp l p(2) by (simp add: keeps_def)
    note S = search_one_def [of ev sub pos previous flags st ent, unfolded len Let_def if_not_P [OF False] m
        bind.bind_lunit mod]
    consider (reg) "real_type (sv_fs ev) ent (string_at ?path 0) = DT_REG"
      | (dir) "real_type (sv_fs ev) ent (string_at ?path 0) = DT_DIR"
      | (other) "real_type (sv_fs ev) ent (string_at ?path 0) \<notin> {DT_REG, DT_DIR}" by blast
    then show ?thesis
    proof cases
      case reg
      obtain r st' where v: "visit_file ev flags ?st = (r, st')" by (cases "visit_file ev flags ?st")
      then have "same_path ?st st'" using same_path_calls(5) [of ?st ev flags] by simp
      then have "keeps pos ?st st'" using lp by (intro same_path_keeps) simp_all
      then show ?thesis unfolding S using reg v keeps_trans [OF k] by simp
    next
      case dir
      have "\<exists>b. enters_dir ?path pos (length (d_name ent)) = Some b"
        using lp False n(1) by (intro enters_dir_ok) (simp_all add: Suc_le_eq)
      then obtain b where b: "enters_dir ?path pos (length (d_name ent)) = Some b" by blast
      note short = False
      show ?thesis
      proof (cases "b \<and> fs_opendir (sv_fs ev) (string_at ?path 0) \<noteq> None")
        case False
        then show ?thesis unfolding S using dir b k by auto
      next
        case True
        then obtain ents where o: "fs_opendir (sv_fs ev) (string_at ?path 0) = Some ents" by blast
        have "k < pos + length (d_name ent)" using p(1) n(1) by (cases "d_name ent") simp_all
        moreover have "pos + length (d_name ent) < PATH_MAX" using short by simp
        moreover have "length (se_path ?st) = PATH_MAX" "en_pathlen (se_entry ?st) = pos + length (d_name ent)"
          using lp by simp_all
        ultimately obtain r st' where s: "sub ?st ents (d_ino ent # previous) = Some (r, st')"
          "keeps (pos + length (d_name ent)) ?st st'"
          using sub_okD [OF sub _ _ _ _ good_fsD [OF fs o]] by metis
        from s(2) have "keeps pos ?st st'" by (rule keeps_less) (rule le_add1)
        then show ?thesis unfolding S using dir b True o s(1) keeps_trans [OF k] by simp
      qed
    next
      case other
      then show ?thesis unfolding S using k by auto
    qed
  qed
qed

lemma search_entries_ok:
  assumes "good_fs (sv_fs ev)" and "sub_ok sub k" and "k \<le> pos" "pos \<le> PATH_MAX"
    and "length (se_path st) = PATH_MAX" and "good_names ents"
  shows "\<exists>r st'. search_entries ev sub pos previous flags st ents = Some (r, st') \<and> keeps pos st st'"
  using assms(5,6)
proof (induction ents arbitrary: st)
  case (Cons ent ents)
  have g: "good_names ents" "d_name ent \<noteq> []" "no_nul (d_name ent)" "length (d_name ent) < 256"
    using Cons.prems(2) by (auto simp: good_names_def)
  obtain r st' where s: "search_one ev sub pos previous flags st ent = Some (r, st')" "keeps pos st st'"
    using search_one_ok [OF assms(1-4) Cons.prems(1) g(2-4)] by blast
  then have "length (se_path st') = PATH_MAX" by (simp add: keeps_def)
  then show ?case using Cons.IH [OF Cons.prems(1) g(1)] Cons.IH [OF _ g(1), of st'] s
    by (auto intro: keeps_trans)
qed (simp add: keeps_refl)

lemma name_pos_ok:
  assumes "length path = PATH_MAX" and "n < PATH_MAX"
  shows "\<exists>pos path'. name_pos path n = Some (pos, path') \<and> n \<le> pos \<and> pos \<le> PATH_MAX \<and>
    length path' = PATH_MAX \<and> take n path' = take n path"
  using assms by (cases n) (auto simp: name_pos_def store_def)

text \<open>Enough fuel is what remains of the buffer.\<close>

lemma search_in_dir_ok:
  assumes "good_fs (sv_fs ev)" and "length (se_path st) = PATH_MAX" and "en_pathlen (se_entry st) < PATH_MAX"
    and "PATH_MAX \<le> en_pathlen (se_entry st) + fuel" and "good_names ents"
  shows "\<exists>r st'. search_in_dir fuel ev flags st ents previous = Some (r, st') \<and>
    keeps (en_pathlen (se_entry st)) st st'"
  using assms(2-5)
proof (induction fuel arbitrary: st ents previous flags)
  case (Suc fuel)
  let ?k = "en_pathlen (se_entry st)"
  have sub: "sub_ok (search_in_dir fuel ev flags') ?k" for flags'
    unfolding sub_ok_def using Suc.IH Suc.prems(3) by (intro allI impI) simp
  obtain st1 where st1: "st1 = set_action rp_path_search_directory_before (st\<lparr>se_entry := (se_entry st)\<lparr>en_isDir := True\<rparr>\<rparr>)" "same_path st st1"
    by (simp add: same_path_def set_action_def)
  obtain s2 st2 where st2: "(if has_flag (search_level flags) RP_PATH_SEARCH_DIRECTORY then filtered_call ev st1 else (0, st1)) = (s2, st2)"
    by fastforce
  then have "same_path st1 st2" using same_path_calls(3) [of st1 ev] by (auto simp: same_path_def split: if_splits)
  let ?st3 = "set_action rp_path_search_directory_enter st2"
  obtain en st4 where st4: "(if s2 = 0 \<and> has_flag (search_level flags) RP_PATH_SEARCH_RECURSIVE
      then (if has_flag (search_level flags) RP_PATH_SEARCH_DIRECTORY then ask_filter ev ?st3 else (True, ?st3))
      else (False, ?st3)) = (en, st4)"
    by fastforce
  then have "same_path ?st3 st4" using same_path_calls(2) [of ?st3 ev] by (auto simp: same_path_def split: if_splits)
  then have p4: "same_path st st4"
    using st1(2) \<open>same_path st1 st2\<close> same_path_calls(4) same_path_trans by metis
  obtain r st5 where st5: "(if en then list_dir ev (search_in_dir fuel ev) (search_level flags) st4 ents previous
      else Some (s2, st4)) = Some (r, st5)" "keeps ?k st4 st5"
  proof (cases en)
    case False
    then show thesis using that Suc.prems(1) p4 by (auto simp: same_path_def keeps_def)
  next
    case True
    have l4: "length (se_path st4) = PATH_MAX" "en_pathlen (se_entry st4) = ?k"
      using p4 Suc.prems(1) by (simp_all add: same_path_def)
    obtain pos path' where np: "name_pos (se_path st4) ?k = Some (pos, path')" "?k \<le> pos" "pos \<le> PATH_MAX"
      "length path' = PATH_MAX" "take ?k path' = take ?k (se_path st4)"
      using name_pos_ok [OF l4(1) Suc.prems(2)] by blast
    obtain r st' where s: "search_entries ev (search_in_dir fuel ev (search_level flags)) pos previous (search_level flags)
        (st4\<lparr>se_path := path'\<rparr>) ents = Some (r, st')" "keeps pos (st4\<lparr>se_path := path'\<rparr>) st'"
      using search_entries_ok [OF assms(1) sub np(2,3) _ Suc.prems(4), of "st4\<lparr>se_path := path'\<rparr>"
          "search_level flags" previous "search_level flags"] np(4) by auto
    have "keeps ?k st4 (st'\<lparr>se_entry := x\<rparr>)" for x
      using keeps_less [OF s(2) np(2)] np(5) by (simp add: keeps_def)
    then show thesis using that True np(1) s(1) l4(2) by (simp add: list_dir_def)
  qed
  obtain r' st6 where st6: "(if r = 0 \<and> has_flag (search_level flags) RP_PATH_SEARCH_DIRECTORY \<and> sv_filter ev \<noteq> None
      then filtered_call ev (set_action rp_path_search_directory_after st5)
      else (r, set_action rp_path_search_directory_after st5)) = (r', st6)" by fastforce
  have "same_path st5 st6"
    using st6 same_path_calls(3) [of "set_action rp_path_search_directory_after st5" ev] same_path_calls(4) same_path_trans
    by (metis (mono_tags, lifting) snd_conv)
  then have "keeps ?k st st6" using st5(2) p4 Suc.prems(1) by (simp add: keeps_def same_path_def)
  then show ?case
    using st2 st4 st5(1) st6 by (simp add: Let_def st1(1) [symmetric] split del: if_split)
qed simp

lemma searchcb_ok:
  assumes "good_fs (sv_fs ev)" and "length (se_path st) = PATH_MAX" and "no_nul d" "length d < PATH_MAX"
  shows "\<exists>r st'. searchcb ev flags st (cstr d) (length d) = Some (r, st') \<and> length (se_path st') = PATH_MAX"
proof -
  let ?p = "cstr d @ drop (length d + 1) (se_path st)"
  have m: "memcpy (se_path st) 0 (cstr d) (1 + length d) = Some ?p" using assms by (simp add: memcpy_def)
  have lp: "length ?p = PATH_MAX" using assms by simp
  let ?st = "st\<lparr>se_path := ?p, se_entry := (se_entry st)\<lparr>en_pathlen := length d mod 2 ^ 16, en_namelen := 0\<rparr>\<rparr>"
  have len: "length d mod 2 ^ 16 = length d" using assms(4) by (simp add: PATH_MAX_def)
  show ?thesis
  proof (cases "fs_opendir (sv_fs ev) (string_at ?p 0)")
    case None
    obtain r st' where c: "call_item ev (set_action rp_path_search_file (?st\<lparr>se_entry := (se_entry ?st)\<lparr>en_isDir := False\<rparr>\<rparr>)) = (r, st')"
      by fastforce
    then have "se_path st' = ?p"
      using same_path_calls(1) [of "set_action rp_path_search_file (?st\<lparr>se_entry := (se_entry ?st)\<lparr>en_isDir := False\<rparr>\<rparr>)" ev]
      by (simp add: same_path_def set_action_def)
    then show ?thesis
      unfolding searchcb_def m bind.bind_lunit Let_def None option.case c using lp by simp
  next
    case (Some ents)
    then have "\<exists>r st'. search_in_dir PATH_MAX ev flags ?st ents [] = Some (r, st') \<and> keeps (en_pathlen (se_entry ?st)) ?st st'"
      using lp len assms(4) good_fsD [OF assms(1)] by (intro search_in_dir_ok [OF assms(1)]) simp_all
    then show ?thesis unfolding searchcb_def m bind.bind_lunit Let_def Some option.case by (auto simp: keeps_def)
  qed
qed

lemma searchcb_overflow: "length (se_path st) = PATH_MAX \<Longrightarrow> PATH_MAX \<le> length d \<Longrightarrow>
    searchcb ev flags st (cstr d) (length d) = None"
  by (simp add: searchcb_def memcpy_def)

lemma call_all_ok:
  assumes "good_fs (sv_fs ev)" and "length (se_path st) = PATH_MAX" and "\<forall>d \<in> set ds. no_nul d \<and> length d < PATH_MAX"
  shows "call_all (searchcb ev flags) st ds \<noteq> None"
  using assms(2,3)
proof (induction ds arbitrary: st)
  case (Cons d ds)
  obtain r st' where "searchcb ev flags st (cstr d) (length d) = Some (r, st')" "length (se_path st') = PATH_MAX"
    using searchcb_ok [OF assms(1) Cons.prems(1)] Cons.prems(2) by fastforce
  then show ?case using Cons by simp
qed simp

text \<open>
  Property C21: on a file system whose directories have possible names, the search ends
  and stays within its path buffer, whatever the flags, the callback, the filter and the loops of
  links, when all directories of the list are shorter than \<open>PATH_MAX\<close>; a first directory
  that is not is copied beyond the buffer.
\<close>

theorem rp_path_search_filter_terminates:
  assumes "good_fs fs" and "good_chain h p ns" and "ns \<noteq> []"
  shows "((\<forall>d \<in> set (search_order (entries ns)). length d < PATH_MAX) \<longrightarrow>
      (\<exists>rc s'. rp_path_search_filter fs h p flags callback filt s = Some (rc, s'))) \<and>
    (PATH_MAX \<le> length (hd (search_order (entries ns))) \<longrightarrow>
      rp_path_search_filter fs h p flags callback filt s = None)"
proof -
  let ?ds = "search_order (entries ns)"
  let ?flags = "if flags AND (RP_PATH_SEARCH_FILE OR RP_PATH_SEARCH_DIRECTORY) \<noteq> 0 then flags
    else flags OR RP_PATH_SEARCH_FILE"
  let ?ev = "\<lparr>sv_fs = fs, sv_callback = callback, sv_filter = filt\<rparr>"
  let ?st = "\<lparr>se_path = replicate PATH_MAX NUL, se_entry = \<lparr>en_name = None, en_pathlen = 0, en_namelen = 0,
    en_isDir = False, en_action = rp_path_search_file\<rparr>, se_user = s\<rparr>"
  have F: "rp_path_search_filter fs h p flags callback filt s =
      do { (rc, st) \<leftarrow> call_all (searchcb ?ev ?flags) ?st ?ds; Some (rc, se_user st) }"
    unfolding rp_path_search_filter_def Let_def list_eq [OF assms(2,3)] ..
  show ?thesis
  proof (intro conjI impI)
    assume "\<forall>d \<in> set ?ds. length d < PATH_MAX"
    then have "call_all (searchcb ?ev ?flags) ?st ?ds \<noteq> None"
      using assms(1) entries_no_nul [OF assms(2)] by (intro call_all_ok) simp_all
    then show "\<exists>rc s'. rp_path_search_filter fs h p flags callback filt s = Some (rc, s')"
      unfolding F by auto
  next
    assume "PATH_MAX \<le> length (hd ?ds)"
    then have o: "searchcb ?ev ?flags ?st (cstr (hd ?ds)) (length (hd ?ds)) = None" by (intro searchcb_overflow) simp_all
    have "?ds \<noteq> []" using assms(3) by (cases ns) (auto simp: entry_of_def)
    then have "call_all (searchcb ?ev ?flags) ?st ?ds = None" using o by (cases ?ds) simp_all
    then show "rp_path_search_filter fs h p flags callback filt s = None" unfolding F by simp
  qed
qed

subsection \<open>The files found\<close>

text \<open>The path of a name in a directory, and the files found from the entries of a directory.\<close>

definition join_path :: "string \<Rightarrow> string \<Rightarrow> string" where
  "join_path dir name = (if dir = [] \<or> last dir = CHR ''/'' then dir @ name else dir @ ''/'' @ name)"

definition entry_files ::
  "filesys \<Rightarrow> (string \<Rightarrow> dirent list \<Rightarrow> nat list \<Rightarrow> string list) \<Rightarrow> string \<Rightarrow> nat list \<Rightarrow> dirent \<Rightarrow> string list" where
  "entry_files fs sub dir previous ent =
     (let path = join_path dir (d_name ent) in
      if d_ino ent \<in> set previous \<or> length path \<ge> PATH_MAX then []
      else if real_type fs ent path = DT_REG then [path]
      else if real_type fs ent path = DT_DIR \<and> d_name ent \<noteq> ''.'' \<and> d_name ent \<noteq> ''..'' then
        (case fs_opendir fs path of None \<Rightarrow> [] | Some ents \<Rightarrow> sub path ents (d_ino ent # previous))
      else [])"

primrec files_in :: "nat \<Rightarrow> filesys \<Rightarrow> string \<Rightarrow> dirent list \<Rightarrow> nat list \<Rightarrow> string list" where
  "files_in 0 fs dir ents previous = []"
| "files_in (Suc k) fs dir ents previous = concat (map (entry_files fs (files_in k fs) dir previous) ents)"

definition files_under :: "filesys \<Rightarrow> string \<Rightarrow> string list" where
  "files_under fs dir = (case fs_opendir fs dir of None \<Rightarrow> [] | Some ents \<Rightarrow> files_in PATH_MAX fs dir ents [])"

fun run_files :: "('s \<Rightarrow> string \<Rightarrow> int \<times> 's) \<Rightarrow> 's \<Rightarrow> string list \<Rightarrow> int \<times> 's" where
  "run_files g s [] = (0, s)"
| "run_files g s (f # fs) = (let (r, s) = g s f in if r = 0 then run_files g s fs else (r, s))"

lemma run_files_append:
  "run_files g s (xs @ ys) = (let (r, s) = run_files g s xs in if r = 0 then run_files g s ys else (r, s))"
  by (induction xs arbitrary: s) (auto split: prod.split)

text \<open>The search for files only, with no filter; the callback looks at the path alone.\<close>

definition files_env :: "filesys \<Rightarrow> ('s \<Rightarrow> string \<Rightarrow> int \<times> 's) \<Rightarrow> 's search_env" where
  "files_env fs g = \<lparr>sv_fs = fs, sv_callback = (\<lambda>u path en. g u (string_at path 0)), sv_filter = None\<rparr>"

definition file_flags :: int where
  "file_flags = RP_PATH_SEARCH_FILE OR RP_PATH_SEARCH_RECURSIVE"

lemma file_flags_simps [simp]:
  "search_level file_flags = file_flags" "has_flag file_flags RP_PATH_SEARCH_FILE"
  "\<not> has_flag file_flags RP_PATH_SEARCH_DIRECTORY" "has_flag file_flags RP_PATH_SEARCH_RECURSIVE"
  by (simp_all add: file_flags_def search_flags search_level_def has_flag_def)

lemma files_env_simps [simp]:
  "sv_fs (files_env fs g) = fs" "sv_filter (files_env fs g) = None"
  "sv_callback (files_env fs g) u path en = g u (string_at path 0)"
  by (simp_all add: files_env_def)

text \<open>A search that runs the callback on a list of files.\<close>

definition finds :: "('s \<Rightarrow> string \<Rightarrow> int \<times> 's) \<Rightarrow> nat \<Rightarrow> 's search \<Rightarrow> string list \<Rightarrow> (int \<times> 's search) option \<Rightarrow> bool" where
  "finds g k st fs res \<longleftrightarrow> (\<exists>r st'. res = Some (r, st') \<and> keeps k st st' \<and> (r, se_user st') = run_files g (se_user st) fs)"

definition sub_finds ::
  "filesys \<Rightarrow> ('s \<Rightarrow> string \<Rightarrow> int \<times> 's) \<Rightarrow> 's sub_search \<Rightarrow> (string \<Rightarrow> dirent list \<Rightarrow> nat list \<Rightarrow> string list) \<Rightarrow> nat \<Rightarrow> bool" where
  "sub_finds fs g sub spec k \<longleftrightarrow> (\<forall>st dir ents previous.
     length (se_path st) = PATH_MAX \<longrightarrow> en_pathlen (se_entry st) = length dir \<longrightarrow> k < length dir \<longrightarrow>
     length dir < PATH_MAX \<longrightarrow> take (length dir) (se_path st) = dir \<longrightarrow> no_nul dir \<longrightarrow> good_names ents \<longrightarrow>
     finds g (length dir) st (spec dir ents previous) (sub st ents previous))"

lemma finds_none: "length (se_path st') = PATH_MAX \<Longrightarrow> keeps k st st' \<Longrightarrow> se_user st' = se_user st \<Longrightarrow>
    finds g k st [] (Some (0, st'))"
  by (simp add: finds_def)

lemma enters_dir_eq:
  assumes "no_nul n" and "n \<noteq> []"
  shows "enters_dir (pre @ cstr n @ rest) (length pre) (length n) = Some (n \<noteq> ''.'' \<and> n \<noteq> ''..'')"
proof -
  obtain c m where n: "n = c # m" using assms(2) by (cases n) auto
  show ?thesis
  proof (cases m)
    case Nil
    then show ?thesis using n by (simp add: enters_dir_def cstr_def load_def nth_append)
  next
    case (Cons d t)
    then show ?thesis using n by (cases t) (simp_all add: enters_dir_def cstr_def load_def nth_append)
  qed
qed

lemma search_one_finds:
  assumes fs: "good_fs fs" and sub: "sub_finds fs g sub spec k" and p: "k \<le> length base" "length base \<le> PATH_MAX"
    and l: "length (se_path st) = PATH_MAX" and b: "take (length base) (se_path st) = base" "no_nul base"
    and n: "d_name ent \<noteq> []" "no_nul (d_name ent)" "length (d_name ent) < 256"
    and j: "join_path dir (d_name ent) = base @ d_name ent" and pr: "d_ino ent \<notin> set previous"
  shows "finds g (length base) st (entry_files fs spec dir previous ent)
    (search_one (files_env fs g) sub (length base) previous file_flags st ent)"
proof -
  let ?n = "d_name ent" and ?pos = "length base"
  have len: "length ?n mod 2 ^ 16 = length ?n" using n(3) by simp
  show ?thesis
  proof (cases "length ?n + ?pos \<ge> PATH_MAX")
    case True
    then show ?thesis using l len j by (simp add: search_one_def entry_files_def finds_def keeps_refl Let_def)
  next
    case False
    let ?rest = "drop (?pos + length ?n + 1) (se_path st)"
    let ?path = "base @ cstr ?n @ ?rest"
    have m: "memcpy (se_path st) ?pos (cstr ?n) (1 + length ?n) = Some ?path"
      using False l b(1) by (simp add: memcpy_def)
    have lp: "length ?path = PATH_MAX" using False l by simp
    have st: "string_at ?path 0 = base @ ?n"
      using string_at_append_NUL [of "base @ ?n" "[]" ?rest] b(2) n(2) by (simp add: cstr_def)
    let ?st = "st\<lparr>se_path := ?path, se_entry := (se_entry st)\<lparr>en_name := Some ?pos, en_namelen := length ?n,
      en_pathlen := ?pos + length ?n\<rparr>\<rparr>"
    have mod: "(?pos + length ?n) mod 2 ^ 16 = ?pos + length ?n" using False by (simp add: PATH_MAX_def)
    have k: "keeps ?pos st ?st" using lp b(1) by (simp add: keeps_def)
    note S = search_one_def [of "files_env fs g" sub ?pos previous file_flags st ent, unfolded len Let_def
        if_not_P [OF False] m bind.bind_lunit mod st files_env_simps]
    have E: "entry_files fs spec dir previous ent =
        (if real_type fs ent (base @ ?n) = DT_REG then [base @ ?n]
         else if real_type fs ent (base @ ?n) = DT_DIR \<and> ?n \<noteq> ''.'' \<and> ?n \<noteq> ''..'' then
           (case fs_opendir fs (base @ ?n) of None \<Rightarrow> [] | Some ents \<Rightarrow> spec (base @ ?n) ents (d_ino ent # previous))
         else [])"
      using False pr by (simp add: entry_files_def j Let_def)
    consider (reg) "real_type fs ent (base @ ?n) = DT_REG" | (dir) "real_type fs ent (base @ ?n) = DT_DIR"
      | (other) "real_type fs ent (base @ ?n) \<notin> {DT_REG, DT_DIR}" by blast
    then show ?thesis
    proof cases
      case reg
      obtain r u where g: "g (se_user st) (base @ ?n) = (r, u)" by fastforce
      have "visit_file (files_env fs g) file_flags ?st = (r, (set_action rp_path_search_file
          (?st\<lparr>se_entry := (se_entry ?st)\<lparr>en_isDir := False\<rparr>\<rparr>))\<lparr>se_user := u\<rparr>)"
        using st g by (simp add: visit_file_def ask_filter_def call_item_def set_action_def)
      then show ?thesis unfolding S E using reg g k by (auto simp: finds_def keeps_def set_action_def)
    next
      case dir
      have e: "enters_dir ?path ?pos (length ?n) = Some (?n \<noteq> ''.'' \<and> ?n \<noteq> ''..'')"
        using n(1,2) by (rule enters_dir_eq [rotated])
      show ?thesis
      proof (cases "?n \<noteq> ''.'' \<and> ?n \<noteq> ''..'' \<and> fs_opendir fs (base @ ?n) \<noteq> None")
        case no: False
        then show ?thesis unfolding S E using dir e k lp by (auto simp: finds_def)
      next
        case True
        then obtain ents where o: "fs_opendir fs (base @ ?n) = Some ents" by blast
        have "k < length (base @ ?n)" using p(1) n(1) by (cases ?n) simp_all
        moreover have "length (base @ ?n) < PATH_MAX" "take (length (base @ ?n)) (se_path ?st) = base @ ?n"
          using False by (simp_all add: cstr_def)
        moreover have "length (se_path ?st) = PATH_MAX" "en_pathlen (se_entry ?st) = length (base @ ?n)" "no_nul (base @ ?n)"
          using lp b(2) n(2) by simp_all
        ultimately have "finds g (length (base @ ?n)) ?st (spec (base @ ?n) ents (d_ino ent # previous))
            (sub ?st ents (d_ino ent # previous))"
          using sub good_fsD [OF fs o] unfolding sub_finds_def by blast
        then obtain r st' where s: "sub ?st ents (d_ino ent # previous) = Some (r, st')"
          "keeps (length (base @ ?n)) ?st st'"
          "(r, se_user st') = run_files g (se_user ?st) (spec (base @ ?n) ents (d_ino ent # previous))"
          unfolding finds_def by blast
        from s(2) have "keeps ?pos ?st st'" by (rule keeps_less) simp
        then have "keeps ?pos st st'" using k keeps_trans by blast
        then show ?thesis unfolding S E using dir e True o s(1,3) by (simp add: finds_def)
      qed
    next
      case other
      then show ?thesis unfolding S E using k by (auto simp: finds_def)
    qed
  qed
qed

lemma search_entries_finds:
  assumes "good_fs fs" and "sub_finds fs g sub spec k" and "k \<le> length base" "length base \<le> PATH_MAX"
    and "length (se_path st) = PATH_MAX" and "take (length base) (se_path st) = base" and "no_nul base"
    and "good_names ents" and j: "\<And>n. n \<noteq> [] \<Longrightarrow> join_path dir n = base @ n"
  shows "finds g (length base) st (concat (map (entry_files fs spec dir previous) ents))
    (search_entries (files_env fs g) sub (length base) previous file_flags st ents)"
  using assms(5,6,8)
proof (induction ents arbitrary: st)
  case Nil
  then show ?case by (simp add: finds_def keeps_refl)
next
  case (Cons ent ents)
  have g: "good_names ents" "d_name ent \<noteq> []" "no_nul (d_name ent)" "length (d_name ent) < 256"
    using Cons.prems(3) by (auto simp: good_names_def)
  show ?case
  proof (cases "d_ino ent \<in> set previous")
    case True
    then show ?thesis using Cons.IH [OF Cons.prems(1,2) g(1)] by (simp add: entry_files_def)
  next
    case False
    obtain r st' where s: "search_one (files_env fs g) sub (length base) previous file_flags st ent = Some (r, st')"
      "keeps (length base) st st'" "(r, se_user st') = run_files g (se_user st) (entry_files fs spec dir previous ent)"
      using search_one_finds [OF assms(1-4) Cons.prems(1,2) assms(7) g(2-4) j [OF g(2)] False] unfolding finds_def by blast
    show ?thesis
    proof (cases "r = 0")
      case r: False
      then show ?thesis using s False by (simp add: finds_def run_files_append s(3) [symmetric])
    next
      case True
      have st': "length (se_path st') = PATH_MAX" "take (length base) (se_path st') = base"
        using s(2) Cons.prems(2) by (simp_all add: keeps_def)
      obtain r2 st2 where s2: "search_entries (files_env fs g) sub (length base) previous file_flags st' ents = Some (r2, st2)"
        "keeps (length base) st' st2"
        "(r2, se_user st2) = run_files g (se_user st') (concat (map (entry_files fs spec dir previous) ents))"
        using Cons.IH [OF st' g(1)] unfolding finds_def by blast
      have "run_files g (se_user st) (concat (map (entry_files fs spec dir previous) (ent # ents))) = (r2, se_user st2)"
        using s(3) s2(3) True by (simp add: run_files_append s(3) [symmetric])
      then show ?thesis using s(1) s2(1) keeps_trans [OF s(2) s2(2)] True False by (simp add: finds_def)
    qed
  qed
qed

lemma name_pos_join:
  assumes "length path = PATH_MAX" and "length dir < PATH_MAX" and "take (length dir) path = dir" and "no_nul dir"
  obtains base path' where "name_pos path (length dir) = Some (length base, path')" "length path' = PATH_MAX"
    "take (length base) path' = base" "take (length dir) path' = dir" "no_nul base" "length dir \<le> length base"
    "length base \<le> PATH_MAX" "\<And>n. n \<noteq> [] \<Longrightarrow> join_path dir n = base @ n"
proof (cases "dir = [] \<or> last dir = CHR ''/''")
  case True
  have "name_pos path (length dir) = Some (length dir, path)"
  proof (cases dir rule: rev_cases)
    case (snoc d c)
    then have "path ! length d = c" using assms(3) by (metis lessI length_append_singleton nth_append_length nth_take)
    then show ?thesis using snoc True assms(1,2) by (simp add: name_pos_def load_def)
  qed (simp add: name_pos_def)
  then show thesis using that [of dir path] assms True by (simp add: join_path_def)
next
  case False
  then obtain d c where d: "dir = d @ [c]" "c \<noteq> CHR ''/''" by (cases dir rule: rev_cases) auto
  then have "path ! length d = c" using assms(3) by (metis lessI length_append_singleton nth_append_length nth_take)
  then have "name_pos path (length dir) = Some (length (dir @ ''/''), path[length dir := CHR ''/''])"
    using d assms(1,2) by (simp add: name_pos_def load_def store_def)
  moreover have "take (length (dir @ ''/'')) (path[length dir := CHR ''/'']) = dir @ ''/''"
    using assms(1-3) by (simp add: take_Suc_conv_app_nth)
  ultimately show thesis
    using that [of "dir @ ''/''" "path[length dir := CHR ''/'']"] assms False by (simp add: join_path_def)
qed

lemma search_in_dir_finds:
  assumes fs: "good_fs fs" and "length (se_path st) = PATH_MAX" and "en_pathlen (se_entry st) = length dir"
    and "length dir < PATH_MAX" and "take (length dir) (se_path st) = dir" and "no_nul dir"
    and "PATH_MAX \<le> length dir + fuel" and "good_names ents"
  shows "finds g (length dir) st (files_in fuel fs dir ents previous)
    (search_in_dir fuel (files_env fs g) file_flags st ents previous)"
  using assms(2-8)
proof (induction fuel arbitrary: st dir ents previous)
  case (Suc fuel)
  have sub: "sub_finds fs g (search_in_dir fuel (files_env fs g) file_flags) (files_in fuel fs) (length dir)"
    unfolding sub_finds_def using Suc.IH Suc.prems(6) by (intro allI impI) simp
  obtain base path' where np: "name_pos (se_path st) (length dir) = Some (length base, path')" "length path' = PATH_MAX"
    "take (length base) path' = base" "take (length dir) path' = dir" "no_nul base" "length dir \<le> length base"
    "length base \<le> PATH_MAX" "\<And>n. n \<noteq> [] \<Longrightarrow> join_path dir n = base @ n"
    by (rule name_pos_join [OF Suc.prems(1,3,4,5)], rule that)
  let ?st2 = "set_action rp_path_search_directory_enter
    (set_action rp_path_search_directory_before (st\<lparr>se_entry := (se_entry st)\<lparr>en_isDir := True\<rparr>\<rparr>))"
  have st2: "se_path ?st2 = se_path st" "se_user ?st2 = se_user st" "en_pathlen (se_entry ?st2) = length dir"
    using Suc.prems(2) by (simp_all add: set_action_def)
  let ?st3 = "?st2\<lparr>se_path := path'\<rparr>"
  have e: "finds g (length base) ?st3 (concat (map (entry_files fs (files_in fuel fs) dir previous) ents))
    (search_entries (files_env fs g) (search_in_dir fuel (files_env fs g) file_flags) (length base) previous file_flags ?st3 ents)"
    by (rule search_entries_finds [OF fs sub np(6,7) _ _ np(5) Suc.prems(7) np(8)]) (use np(2,3) in simp_all)
  obtain r st4 where st4: "search_entries (files_env fs g) (search_in_dir fuel (files_env fs g) file_flags) (length base)
      previous file_flags ?st3 ents = Some (r, st4)" "keeps (length base) ?st3 st4"
    "(r, se_user st4) = run_files g (se_user st) (files_in (Suc fuel) fs dir ents previous)"
    using e st2(2) unfolding finds_def by auto
  from st4(2) np(6) have "keeps (length dir) ?st3 st4" by (rule keeps_less)
  then have k: "length (se_path st4) = PATH_MAX" "take (length dir) (se_path st4) = take (length dir) (se_path st)"
    using np(4) Suc.prems(4) by (simp_all add: keeps_def)
  let ?st5 = "set_action rp_path_search_directory_after
    (st4\<lparr>se_entry := (se_entry st4)\<lparr>en_namelen := en_namelen (se_entry ?st2), en_pathlen := length dir\<rparr>\<rparr>)"
  have "search_in_dir (Suc fuel) (files_env fs g) file_flags st ents previous = Some (r, ?st5)"
    using np(1) st2 st4(1) by (simp add: Let_def list_dir_def)
  then show ?case using k st4(3) by (simp add: finds_def keeps_def set_action_def)
qed simp

lemma searchcb_finds:
  assumes fs: "good_fs fs" and l: "length (se_path st) = PATH_MAX" and d: "no_nul d" "length d < PATH_MAX"
  shows "finds g 0 st (files_under fs d) (searchcb (files_env fs g) file_flags st (cstr d) (length d))"
proof -
  let ?p = "cstr d @ drop (length d + 1) (se_path st)"
  have m: "memcpy (se_path st) 0 (cstr d) (1 + length d) = Some ?p" using assms by (simp add: memcpy_def)
  have lp: "length ?p = PATH_MAX" using assms by simp
  have st: "string_at ?p 0 = d"
    using string_at_append_NUL [of d "[]" "drop (length d + 1) (se_path st)"] d(1) by (simp add: cstr_def)
  have len: "length d mod 2 ^ 16 = length d" using d(2) by (simp add: PATH_MAX_def)
  let ?st = "st\<lparr>se_path := ?p, se_entry := (se_entry st)\<lparr>en_pathlen := length d, en_namelen := 0\<rparr>\<rparr>"
  have fl: "file_flags AND (RP_PATH_SEARCH_FLEXIBLE OR RP_PATH_SEARCH_FILE) \<noteq> RP_PATH_SEARCH_FLEXIBLE OR RP_PATH_SEARCH_FILE"
    by (simp add: file_flags_def search_flags)
  show ?thesis
  proof (cases "fs_opendir fs d")
    case None
    then show ?thesis
      unfolding searchcb_def m bind.bind_lunit Let_def files_env_simps st using lp fl
      by (simp add: files_under_def finds_def keeps_def)
  next
    case (Some ents)
    have "finds g (length d) ?st (files_in PATH_MAX fs d ents []) (search_in_dir PATH_MAX (files_env fs g) file_flags ?st ents [])"
      by (rule search_in_dir_finds [OF fs]) (use lp d good_fsD [OF fs Some] in \<open>simp_all add: cstr_def\<close>)
    then show ?thesis
      unfolding searchcb_def m bind.bind_lunit Let_def files_env_simps st len Some option.case files_under_def
      by (auto simp: finds_def keeps_def)
  qed
qed

lemma call_all_finds:
  assumes "good_fs fs" and "length (se_path st) = PATH_MAX" and "\<forall>d \<in> set ds. no_nul d \<and> length d < PATH_MAX"
  shows "finds g 0 st (concat (map (files_under fs) ds)) (call_all (searchcb (files_env fs g) file_flags) st ds)"
  using assms(2,3)
proof (induction ds arbitrary: st)
  case Nil
  then show ?case by (simp add: finds_def keeps_def)
next
  case (Cons d ds)
  obtain r st' where s: "searchcb (files_env fs g) file_flags st (cstr d) (length d) = Some (r, st')"
    "keeps 0 st st'" "(r, se_user st') = run_files g (se_user st) (files_under fs d)"
    using searchcb_finds [OF assms(1) Cons.prems(1)] Cons.prems(2) unfolding finds_def by fastforce
  show ?case
  proof (cases "r = 0")
    case False
    then show ?thesis using s by (simp add: finds_def run_files_append s(3) [symmetric])
  next
    case True
    have "length (se_path st') = PATH_MAX" using s(2) by (simp add: keeps_def)
    from Cons.IH [OF this] Cons.prems(2) obtain r2 st2
      where "call_all (searchcb (files_env fs g) file_flags) st' ds = Some (r2, st2)" "keeps 0 st' st2"
        "(r2, se_user st2) = run_files g (se_user st') (concat (map (files_under fs) ds))"
      unfolding finds_def by auto
    then show ?thesis using s True keeps_trans
      by (auto simp: finds_def run_files_append s(3) [symmetric])
  qed
qed

text \<open>
  Property C22: searching files recursively calls the callback for the regular files under
  the directories of the list, in the order of search and of the directories, until a callback stops it, when the
  directories of the list are shorter than \<open>PATH_MAX\<close>. Links are followed. An entry is passed over when its
  path does not fit or when its own inode number is that of an entry on the path to it; for a
  link it is the number of the link, so that a link to a directory above is followed once more.
\<close>

theorem rp_path_search_files:
  assumes "good_fs fs" and "good_chain h p ns" and "ns \<noteq> []"
    and "\<forall>d \<in> set (search_order (entries ns)). length d < PATH_MAX"
  shows "rp_path_search fs h p file_flags (\<lambda>u path en. g u (string_at path 0)) s =
    Some (run_files g s (concat (map (files_under fs) (search_order (entries ns)))))"
proof -
  let ?ds = "search_order (entries ns)"
  let ?st = "\<lparr>se_path = replicate PATH_MAX NUL, se_entry = \<lparr>en_name = None, en_pathlen = 0, en_namelen = 0,
    en_isDir = False, en_action = rp_path_search_file\<rparr>, se_user = s\<rparr>"
  have fl: "file_flags AND (RP_PATH_SEARCH_FILE OR RP_PATH_SEARCH_DIRECTORY) \<noteq> 0"
    by (simp add: file_flags_def search_flags)
  have F: "rp_path_search fs h p file_flags (\<lambda>u path en. g u (string_at path 0)) s =
      do { (rc, st) \<leftarrow> call_all (searchcb (files_env fs g) file_flags) ?st ?ds; Some (rc, se_user st) }"
    unfolding rp_path_search_def rp_path_search_filter_def Let_def list_eq [OF assms(2,3)] if_P [OF fl] files_env_def ..
  have "finds g 0 ?st (concat (map (files_under fs) ?ds)) (call_all (searchcb (files_env fs g) file_flags) ?st ?ds)"
    using assms(4) entries_no_nul [OF assms(2)] by (intro call_all_finds [OF assms(1)]) simp_all
  then show ?thesis unfolding F finds_def by auto
qed

text \<open>A file system with a file, a sub-directory with a file and a link back to the top.\<close>

definition some_fs :: filesys where
  "some_fs = \<lparr>fs_opendir = (\<lambda>p.
       if p = ''/a'' then Some [\<lparr>d_ino = 2, d_type = DT_REG, d_name = ''f''\<rparr>, \<lparr>d_ino = 3, d_type = DT_DIR, d_name = ''b''\<rparr>]
       else if p = ''/a/b'' then Some [\<lparr>d_ino = 4, d_type = DT_REG, d_name = ''g''\<rparr>, \<lparr>d_ino = 3, d_type = DT_DIR, d_name = ''.''\<rparr>]
       else None),
     fs_stat = (\<lambda>p. None)\<rparr>"

definition one_dir_heap :: heap where
  "one_dir_heap = [0 \<mapsto> \<lparr>ps_parent = None, ps_refcount = 1, ps_length = 2, ps_path = cstr ''/a''\<rparr>]"

lemma one_dir_chain:
  "\<exists>ns. good_chain one_dir_heap (Some 0) ns \<and> ns \<noteq> [] \<and> search_order (entries ns) = [''/a'']"
proof -
  let ?n = "\<lparr>ps_parent = None, ps_refcount = 1, ps_length = 2, ps_path = cstr ''/a''\<rparr>"
  have "good_node ?n" unfolding good_node_def by (rule conjI, simp, rule exI [of _ "''/a''"]) (simp add: SHRT_MAX_def)
  then have "good_chain one_dir_heap (Some 0) [(0, ?n)]" by (simp add: good_chain_def one_dir_heap_def)
  moreover have "search_order (entries [(0, ?n)]) = [''/a'']" by (simp add: entry_of_def)
  ultimately show ?thesis by blast
qed

lemma good_some_fs: "good_fs some_fs"
  by (auto simp: good_fs_def some_fs_def split: if_splits)

theorem rp_path_search_files_witness:
  "rp_path_search some_fs one_dir_heap (Some 0) file_flags (\<lambda>u path en. (0, u @ [string_at path 0])) [] =
    Some (0, [''/a/f'', ''/a/b/g''])"
proof -
  obtain ns where ns: "good_chain one_dir_heap (Some 0) ns" "ns \<noteq> []" "search_order (entries ns) = [''/a'']"
    using one_dir_chain by blast
  let ?es = "[\<lparr>d_ino = 2, d_type = DT_REG, d_name = ''f''\<rparr>, \<lparr>d_ino = 3, d_type = DT_DIR, d_name = ''b''\<rparr>]"
  have F: "files_in (Suc (Suc k)) some_fs ''/a'' ?es [] = [''/a/f'', ''/a/b/g'']" for k
    by (simp add: some_fs_def entry_files_def join_path_def real_type_def PATH_MAX_def)
  have o: "fs_opendir some_fs ''/a'' = Some ?es" by (simp add: some_fs_def)
  have P: "PATH_MAX = Suc (Suc 4094)" by (simp add: PATH_MAX_def)
  have "files_under some_fs ''/a'' = [''/a/f'', ''/a/b/g'']"
    unfolding files_under_def o option.case P by (rule F)
  then show ?thesis
    using rp_path_search_files [OF good_some_fs ns(1,2), of "\<lambda>u f. (0, u @ [f])" "[]"] ns(3) by (simp add: PATH_MAX_def)
qed

theorem rp_path_search_filter_terminates_witness:
  "\<exists>rc s'. rp_path_search_filter some_fs one_dir_heap (Some 0) 2 (\<lambda>u path en. (1, u + 1)) (Some (\<lambda>u path en. (True, u))) (0::nat) =
    Some (rc, s')"
proof -
  obtain ns where "good_chain one_dir_heap (Some 0) ns" "ns \<noteq> []" "search_order (entries ns) = [''/a'']"
    using one_dir_chain by blast
  then show ?thesis using rp_path_search_filter_terminates [OF good_some_fs, of one_dir_heap "Some 0" ns 2]
    by (simp add: PATH_MAX_def)
qed

text \<open>
  The names that the filter of \<open>rp_path_search_match\<close> lets through, for a file name and an
  extension: their concatenation, with a dot between them unless the extension has its own.
\<close>

lemma matchnamecb_eq:
  assumes "f \<noteq> []" and "e \<noteq> []"
  shows "matchnamecb f e (n @ rest) (length n) \<longleftrightarrow>
    n = f @ e \<and> (hd e = CHR ''.'' \<or> last f \<noteq> CHR ''.'') \<or> n = f @ ''.'' @ e \<and> hd e \<noteq> CHR ''.''"
proof (cases "\<exists>b. n = b @ e")
  case False
  have "e \<noteq> take (length e) (drop (length n - length e) (n @ rest))" if "length e \<le> length n"
  proof
    assume "e = take (length e) (drop (length n - length e) (n @ rest))"
    then have "e = drop (length n - length e) n" using that by simp
    then show False using False by (metis append_take_drop_id)
  qed
  then have c: "e \<noteq> [] \<and> (length n < length e \<or> e \<noteq> take (length e) (drop (length n - length e) (n @ rest)))"
    using assms(2) by (meson not_less)
  have "\<not> matchnamecb f e (n @ rest) (length n)" unfolding matchnamecb_def Let_def if_P [OF c] by (rule notI)
  moreover have "n \<noteq> f @ e" "n \<noteq> f @ ''.'' @ e" using False by (blast, metis append_assoc)
  ultimately show ?thesis by blast
next
  case True
  then obtain b where n: "n = b @ e" by blast
  have M: "matchnamecb f e (n @ rest) (length n) \<longleftrightarrow>
      f = (if hd e \<noteq> CHR ''.'' \<and> b \<noteq> [] \<and> last b = CHR ''.'' then butlast b else b)"
  proof (cases b rule: rev_cases)
    case Nil
    then show ?thesis using assms n by (auto simp: matchnamecb_def Let_def)
  next
    case (snoc c x)
    then show ?thesis using assms n by (auto simp: matchnamecb_def Let_def nth_append)
  qed
  show ?thesis unfolding M unfolding n using assms(1)
    by (cases b rule: rev_cases) (auto simp: append_eq_append_conv2)
qed

end
