(* ===== verification/Websock.thy ===== *)
theory Websock
  imports Prelude
begin

unbundle bit_operations_syntax

text \<open>
  \<open>src/sandbox/websock.c\<close>: the frames of the web socket protocol on a stream. Sending
  writes one frame; \<open>websock_dispatch\<close> reads headers, piece by piece as the stream gives
  them, and calls back for each frame; the callback reads the payload with
  \<open>websock_read\<close>.

  The interface \<open>websock_itf\<close> is a record of functions on the closure; the callbacks for
  frames may also call the operations of the web socket, so they transform both.
\<close>

subsection \<open>Data\<close>

type_synonym byte = "8 word"

datatype ws_state = STATE_INIT | STATE_START | STATE_LENGTH | STATE_DATA

text \<open>The mask is the four bytes of the \<open>uint32_t\<close> in memory order.\<close>

record websock =
  w_state :: ws_state
  w_maxlength :: "64 word"
  w_lenhead :: nat
  w_szhead :: nat
  w_length :: "64 word"
  w_mask :: "byte list"
  w_header :: "byte list"

text \<open>
  \<open>writev\<close> returns its value and \<open>errno\<close>, \<open>readv\<close> for a size its value
  and the bytes it stored.
\<close>

type_synonym 's callback = "websock \<Rightarrow> 's \<Rightarrow> websock \<times> 's"

record 's websock_itf =
  itf_writev :: "'s \<Rightarrow> byte list list \<Rightarrow> int \<times> int \<times> 's"
  itf_readv :: "'s \<Rightarrow> nat \<Rightarrow> int \<times> byte list \<times> 's"
  itf_on_ping :: "(nat \<Rightarrow> 's callback) option"
  itf_on_pong :: "(nat \<Rightarrow> 's callback) option"
  itf_on_close :: "16 word \<Rightarrow> nat \<Rightarrow> 's callback"
  itf_on_text :: "int \<Rightarrow> nat \<Rightarrow> 's callback"
  itf_on_binary :: "int \<Rightarrow> nat \<Rightarrow> 's callback"
  itf_on_continue :: "int \<Rightarrow> nat \<Rightarrow> 's callback"
  itf_on_extension :: "(int \<Rightarrow> int \<Rightarrow> int \<Rightarrow> int \<Rightarrow> int \<Rightarrow> nat \<Rightarrow> websock \<Rightarrow> 's \<Rightarrow> bool \<times> websock \<times> 's) option"
  itf_on_error :: "(16 word \<Rightarrow> byte list \<Rightarrow> 's callback) option"

definition WEBSOCKET_CODE_PROTOCOL_ERROR :: "16 word" where "WEBSOCKET_CODE_PROTOCOL_ERROR = 1002"
definition WEBSOCKET_CODE_NOT_SET :: "16 word" where "WEBSOCKET_CODE_NOT_SET = 1005"
definition WEBSOCKET_CODE_MESSAGE_TOO_LARGE :: "16 word" where "WEBSOCKET_CODE_MESSAGE_TOO_LARGE = 1009"

definition OPCODE_CONTINUATION :: int where "OPCODE_CONTINUATION = 0"
definition OPCODE_TEXT :: int where "OPCODE_TEXT = 1"
definition OPCODE_BINARY :: int where "OPCODE_BINARY = 2"
definition OPCODE_CLOSE :: int where "OPCODE_CLOSE = 8"
definition OPCODE_PING :: int where "OPCODE_PING = 9"
definition OPCODE_PONG :: int where "OPCODE_PONG = 10"

lemmas opcodes = OPCODE_CONTINUATION_def OPCODE_TEXT_def OPCODE_BINARY_def OPCODE_CLOSE_def OPCODE_PING_def OPCODE_PONG_def

text \<open>The fields of the header bytes, promoted to \<open>int\<close>.\<close>

definition FRAME_GET_FIN :: "byte \<Rightarrow> int" where "FRAME_GET_FIN b = drop_bit 7 (uint b) AND 1"
definition FRAME_GET_RSV1 :: "byte \<Rightarrow> int" where "FRAME_GET_RSV1 b = drop_bit 6 (uint b) AND 1"
definition FRAME_GET_RSV2 :: "byte \<Rightarrow> int" where "FRAME_GET_RSV2 b = drop_bit 5 (uint b) AND 1"
definition FRAME_GET_RSV3 :: "byte \<Rightarrow> int" where "FRAME_GET_RSV3 b = drop_bit 4 (uint b) AND 1"
definition FRAME_GET_OPCODE :: "byte \<Rightarrow> int" where "FRAME_GET_OPCODE b = uint b AND 15"
definition FRAME_GET_MASK :: "byte \<Rightarrow> int" where "FRAME_GET_MASK b = drop_bit 7 (uint b) AND 1"
definition FRAME_GET_PAYLOAD_LEN :: "byte \<Rightarrow> int" where "FRAME_GET_PAYLOAD_LEN b = uint b AND 127"

definition FRAME_SET_LENGTH :: "64 word \<Rightarrow> nat \<Rightarrow> byte" where
  "FRAME_SET_LENGTH x i = ucast (drop_bit (i * 8) x AND 0xFF)"

subsection \<open>Sending\<close>

text \<open>The header of a frame that is not masked, for its payload size.\<close>

definition frame_header :: "byte \<Rightarrow> 64 word \<Rightarrow> byte list" where
  "frame_header first sz =
     first #
     (if sz < 126 then [FRAME_SET_LENGTH sz 0]
      else
        (if sz < 65536 then [126]
         else [127, FRAME_SET_LENGTH sz 7, FRAME_SET_LENGTH sz 6, FRAME_SET_LENGTH sz 5,
               FRAME_SET_LENGTH sz 4, FRAME_SET_LENGTH sz 3, FRAME_SET_LENGTH sz 2])
        @ [FRAME_SET_LENGTH sz 1, FRAME_SET_LENGTH sz 0])"

text \<open>The loop on the buffers: those that are not empty, and the total size.\<close>

fun gather :: "byte list list \<Rightarrow> byte list list \<times> 64 word" where
  "gather [] = ([], 0)"
| "gather (v # vs) =
     (let (iov, sz) = gather vs in
      if v \<noteq> [] then (v # iov, word_of_nat (length v) + sz) else (iov, sz))"

definition websock_send_internal_v ::
  "'s websock_itf \<Rightarrow> 's \<Rightarrow> byte \<Rightarrow> byte list list \<Rightarrow> int \<Rightarrow> (int \<times> 's) option" where
  "websock_send_internal_v itf s first iovec count =
     (if count < 0 \<or> count + 1 > 32 then Some (X_EINVAL, s)
      else if nat count \<le> length iovec then
        let (iov, sz) = gather (take (nat count) iovec);
            (rc, errno, s) = itf_writev itf s (frame_header first sz # iov) in
        Some (if rc < 0 then - errno else 0, s)
      else None)"

definition websock_send_internal :: "'s websock_itf \<Rightarrow> 's \<Rightarrow> byte \<Rightarrow> byte list \<Rightarrow> (int \<times> 's) option" where
  "websock_send_internal itf s first buffer = websock_send_internal_v itf s first [buffer] 1"

definition frame_first :: "int \<Rightarrow> int \<Rightarrow> int \<Rightarrow> int \<Rightarrow> int \<Rightarrow> byte" where
  "frame_first lst rsv1 rsv2 rsv3 opcode =
     word_of_int (push_bit 7 (lst AND 1) OR push_bit 6 (rsv1 AND 1) OR push_bit 6 (rsv2 AND 1)
       OR push_bit 6 (rsv3 AND 1) OR (opcode AND 15))"

definition websock_send_v ::
  "'s websock_itf \<Rightarrow> 's \<Rightarrow> int \<Rightarrow> int \<Rightarrow> int \<Rightarrow> int \<Rightarrow> int \<Rightarrow> byte list list \<Rightarrow> int \<Rightarrow> (int \<times> 's) option" where
  "websock_send_v itf s lst rsv1 rsv2 rsv3 opcode iovec count =
     websock_send_internal_v itf s (frame_first lst rsv1 rsv2 rsv3 opcode) iovec count"

definition websock_send ::
  "'s websock_itf \<Rightarrow> 's \<Rightarrow> int \<Rightarrow> int \<Rightarrow> int \<Rightarrow> int \<Rightarrow> int \<Rightarrow> byte list \<Rightarrow> (int \<times> 's) option" where
  "websock_send itf s lst rsv1 rsv2 rsv3 opcode buffer =
     websock_send_internal itf s (frame_first lst rsv1 rsv2 rsv3 opcode) buffer"

definition websock_close :: "'s websock_itf \<Rightarrow> 's \<Rightarrow> 16 word \<Rightarrow> byte list \<Rightarrow> (int \<times> 's) option" where
  "websock_close itf s code data =
     (if code = WEBSOCKET_CODE_NOT_SET \<and> length data = 0 then websock_send itf s 1 0 0 0 OPCODE_CLOSE []
      else if length data > 123 then Some (X_EINVAL, s)
      else websock_send_v itf s 1 0 0 0 OPCODE_CLOSE
        [[ucast (drop_bit 8 code AND 0xFF), ucast (code AND 0xFF)], data] 2)"

definition websock_close_empty :: "'s websock_itf \<Rightarrow> 's \<Rightarrow> (int \<times> 's) option" where
  "websock_close_empty itf s = websock_close itf s WEBSOCKET_CODE_NOT_SET []"

definition websock_ping :: "'s websock_itf \<Rightarrow> 's \<Rightarrow> byte list \<Rightarrow> (int \<times> 's) option" where
  "websock_ping itf s data =
     (if length data > 125 then Some (X_EINVAL, s) else websock_send itf s 1 0 0 0 OPCODE_PING data)"

definition websock_pong :: "'s websock_itf \<Rightarrow> 's \<Rightarrow> byte list \<Rightarrow> (int \<times> 's) option" where
  "websock_pong itf s data =
     (if length data > 125 then Some (X_EINVAL, s) else websock_send itf s 1 0 0 0 OPCODE_PONG data)"

definition websock_text :: "'s websock_itf \<Rightarrow> 's \<Rightarrow> int \<Rightarrow> byte list \<Rightarrow> (int \<times> 's) option" where
  "websock_text itf s lst data = websock_send itf s lst 0 0 0 OPCODE_TEXT data"

definition websock_text_v :: "'s websock_itf \<Rightarrow> 's \<Rightarrow> int \<Rightarrow> byte list list \<Rightarrow> int \<Rightarrow> (int \<times> 's) option" where
  "websock_text_v itf s lst iovec count = websock_send_v itf s lst 0 0 0 OPCODE_TEXT iovec count"

definition websock_binary :: "'s websock_itf \<Rightarrow> 's \<Rightarrow> int \<Rightarrow> byte list \<Rightarrow> (int \<times> 's) option" where
  "websock_binary itf s lst data = websock_send itf s lst 0 0 0 OPCODE_BINARY data"

definition websock_binary_v :: "'s websock_itf \<Rightarrow> 's \<Rightarrow> int \<Rightarrow> byte list list \<Rightarrow> int \<Rightarrow> (int \<times> 's) option" where
  "websock_binary_v itf s lst iovec count = websock_send_v itf s lst 0 0 0 OPCODE_BINARY iovec count"

definition websock_continue :: "'s websock_itf \<Rightarrow> 's \<Rightarrow> int \<Rightarrow> byte list \<Rightarrow> (int \<times> 's) option" where
  "websock_continue itf s lst data = websock_send itf s lst 0 0 0 OPCODE_CONTINUATION data"

definition websock_continue_v :: "'s websock_itf \<Rightarrow> 's \<Rightarrow> int \<Rightarrow> byte list list \<Rightarrow> int \<Rightarrow> (int \<times> 's) option" where
  "websock_continue_v itf s lst iovec count = websock_send_v itf s lst 0 0 0 OPCODE_CONTINUATION iovec count"

definition websock_error ::
  "'s websock_itf \<Rightarrow> websock \<Rightarrow> 's \<Rightarrow> 16 word \<Rightarrow> byte list \<Rightarrow> (int \<times> websock \<times> 's) option" where
  "websock_error itf ws s code data = do {
     (rc, s) \<leftarrow> websock_close itf s code data;
     let (ws, s) = (case itf_on_error itf of None \<Rightarrow> (ws, s) | Some f \<Rightarrow> f code data ws s);
     Some (rc, ws, s)
   }"

subsection \<open>Unmasking\<close>

text \<open>
  Bytes before the first aligned address are unmasked one by one, with the mask rotated, then
  words of four bytes, then the last bytes. \<open>a\<close> is the address of the buffer.
\<close>

definition turn_mask :: "byte list \<Rightarrow> byte list" where
  "turn_mask m = [m ! 1, m ! 2, m ! 3, m ! 0]"

fun unmask_head :: "byte list \<Rightarrow> nat \<Rightarrow> byte list \<Rightarrow> byte list \<times> byte list \<times> byte list" where
  "unmask_head m a [] = ([], m, [])"
| "unmask_head m a (b # bs) =
     (if a mod 4 \<noteq> 0 then
        let (done, m', rest) = unmask_head (turn_mask m) (a + 1) bs in ((b XOR m ! 0) # done, m', rest)
      else ([], m, b # bs))"

fun unmask_words :: "byte list \<Rightarrow> byte list \<Rightarrow> byte list \<times> byte list" where
  "unmask_words m (b0 # b1 # b2 # b3 # bs) =
     (let (done, rest) = unmask_words m bs in
      ((b0 XOR m ! 0) # (b1 XOR m ! 1) # (b2 XOR m ! 2) # (b3 XOR m ! 3) # done, rest))"
| "unmask_words m bs = ([], bs)"

fun unmask_tail :: "byte list \<Rightarrow> byte list \<Rightarrow> byte list \<times> byte list" where
  "unmask_tail m [] = ([], m)"
| "unmask_tail m (b # bs) = (let (done, m') = unmask_tail (turn_mask m) bs in ((b XOR m ! 0) # done, m'))"

definition unmask :: "byte list \<Rightarrow> nat \<Rightarrow> byte list \<Rightarrow> byte list \<times> byte list" where
  "unmask m a bs =
     (let (d1, m, bs) = unmask_head m a bs;
          (d2, bs) = unmask_words m bs;
          (d3, m) = unmask_tail m bs in (d1 @ d2 @ d3, m))"

subsection \<open>Reading\<close>

definition ws_read :: "'s websock_itf \<Rightarrow> 's \<Rightarrow> nat \<Rightarrow> int \<times> byte list \<times> 's" where
  "ws_read itf s n = itf_readv itf s n"

text \<open>The state of the web socket is written back by the operations; \<open>None\<close> is an access out of bounds.\<close>

definition read_header :: "'s websock_itf \<Rightarrow> websock \<Rightarrow> 's \<Rightarrow> (int \<times> websock \<times> 's) option" where
  "read_header itf ws s =
     (if w_lenhead ws < w_szhead ws then
        let n = w_szhead ws - w_lenhead ws; (rbc, bs, s) = ws_read itf s n in
        if w_lenhead ws + n \<le> length (w_header ws) then
          (if rbc < 0 then Some (rbc, ws, s)
           else Some (0, ws\<lparr>w_header := overwrite (w_header ws) (w_lenhead ws) bs, w_lenhead := w_lenhead ws + nat rbc\<rparr>, s))
        else None
      else Some (0, ws, s))"

definition check_control_header :: "websock \<Rightarrow> bool option" where
  "check_control_header ws = do {
     h0 \<leftarrow> load (w_header ws) 0;
     h1 \<leftarrow> load (w_header ws) 1;
     Some (if FRAME_GET_RSV1 h0 \<noteq> 0 then False
           else if FRAME_GET_RSV2 h0 \<noteq> 0 then False
           else if FRAME_GET_RSV3 h0 \<noteq> 0 then False
           else if FRAME_GET_PAYLOAD_LEN h1 > 125 then False
           else if FRAME_GET_OPCODE h0 = OPCODE_CLOSE then FRAME_GET_PAYLOAD_LEN h1 \<noteq> 1
           else True)
   }"

text \<open>\<open>websock_read\<close> gives its value and the bytes put in the buffer, that is at the address \<open>a\<close>.\<close>

definition websock_read ::
  "'s websock_itf \<Rightarrow> websock \<Rightarrow> 's \<Rightarrow> nat \<Rightarrow> nat \<Rightarrow> int \<times> byte list \<times> websock \<times> 's" where
  "websock_read itf ws s a n =
     (if w_state ws \<noteq> STATE_DATA then (0, [], ws, s)
      else
        let n = (if n > unat (w_length ws) then unat (w_length ws) else n);
            (rc, bs, s) = ws_read itf s n in
        if rc > 0 then
          let ws = ws\<lparr>w_length := w_length ws - word_of_int rc\<rparr> in
          if w_mask ws \<noteq> [0, 0, 0, 0]
          then let (bs, m) = unmask (w_mask ws) a bs in (rc, bs, ws\<lparr>w_mask := m\<rparr>, s)
          else (rc, bs, ws, s)
        else (rc, bs, ws, s))"

text \<open>The loop of \<open>websock_drop\<close>; it has no end when \<open>websock_read\<close> keeps returning 0.\<close>

partial_function (option) websock_drop :: "'s websock_itf \<Rightarrow> websock \<Rightarrow> 's \<Rightarrow> (int \<times> websock \<times> 's) option" where
  "websock_drop itf ws s =
     (if w_length ws \<noteq> 0 then
        (case websock_read itf ws s 0 8000 of (rc, bs, ws, s) \<Rightarrow>
           if rc < 0 then Some (rc, ws, s) else websock_drop itf ws s)
      else Some (0, ws, s))"

text \<open>\<open>stack\<close> is what the local buffer of \<open>pong\<close> holds before it is read into.\<close>

definition pong :: "'s websock_itf \<Rightarrow> byte list \<Rightarrow> websock \<Rightarrow> 's \<Rightarrow> (websock \<times> 's) option" where
  "pong itf stack ws s =
     (let len = (if unat (w_length ws) > 8000 then 8000 else unat (w_length ws));
          (rc, bs, ws, s) = websock_read itf ws s 0 8000 in do {
        s \<leftarrow> (if rc \<ge> 0 then map_option snd (websock_pong itf s (take len (bs @ drop (length bs) stack))) else Some s);
        (rc, ws, s) \<leftarrow> websock_drop itf ws s;
        Some (ws, s)
      })"

subsection \<open>Dispatching\<close>

text \<open>How the body of the loop ends: a return, another turn, or a jump to an error.\<close>

datatype outcome = Return int | Loop | Protocol_error | Too_long_error

text \<open>The steps fall through from one to the next, or leave.\<close>

datatype 's step = Leave outcome websock 's | Next websock 's

text \<open>\<open>STATE_START\<close>: the two first bytes tell the size of the header.\<close>

definition grow_close :: "websock \<Rightarrow> websock option" where
  "grow_close ws = do {
     h1 \<leftarrow> load (w_header ws) 1;
     Some (if FRAME_GET_PAYLOAD_LEN h1 \<noteq> 0 then ws\<lparr>w_szhead := w_szhead ws + 2\<rparr> else ws)
   }"

definition grow_header :: "websock \<Rightarrow> websock option" where
  "grow_header ws = do {
     h1 \<leftarrow> load (w_header ws) 1;
     let m = nat (4 * FRAME_GET_MASK h1);
     Some (ws\<lparr>w_szhead := w_szhead ws +
       (if FRAME_GET_PAYLOAD_LEN h1 = 127 then 6 + (2 + m)
        else if FRAME_GET_PAYLOAD_LEN h1 = 126 then 2 + m else m)\<rparr>)
   }"

definition dispatch_start :: "'s websock_itf \<Rightarrow> websock \<Rightarrow> 's \<Rightarrow> 's step option" where
  "dispatch_start itf ws s = do {
     (rc, ws, s) \<leftarrow> read_header itf ws s;
     if rc < 0 then Some (Leave (Return rc) ws s)
     else if w_lenhead ws < w_szhead ws then Some (Leave (Return 0) ws s)
     else do {
       h0 \<leftarrow> load (w_header ws) 0;
       let op = FRAME_GET_OPCODE h0;
       ok \<leftarrow> (if op = OPCODE_CLOSE \<or> op = OPCODE_PING \<or> op = OPCODE_PONG then check_control_header ws else Some True);
       if ok then do {
         ws \<leftarrow> (if op = OPCODE_CLOSE then grow_close ws else Some ws);
         ws \<leftarrow> grow_header ws;
         Some (Next (ws\<lparr>w_state := STATE_LENGTH\<rparr>) s)
       }
       else Some (Leave Protocol_error ws s)
     }
   }"

text \<open>A byte counted back from the end of the header; an index below 0 is out of bounds.\<close>

definition load_back :: "websock \<Rightarrow> nat \<Rightarrow> byte option" where
  "load_back ws k = (if k \<le> w_szhead ws then load (w_header ws) (w_szhead ws - k) else None)"

text \<open>\<open>STATE_LENGTH\<close>: the length and the mask, from the whole header.\<close>

definition header_length :: "byte list \<Rightarrow> 64 word option" where
  "header_length h = do {
     h1 \<leftarrow> load h 1;
     if FRAME_GET_PAYLOAD_LEN h1 = 127 then do {
       b2 \<leftarrow> load h 2; b3 \<leftarrow> load h 3; b4 \<leftarrow> load h 4; b5 \<leftarrow> load h 5;
       b6 \<leftarrow> load h 6; b7 \<leftarrow> load h 7; b8 \<leftarrow> load h 8; b9 \<leftarrow> load h 9;
       Some (push_bit 56 (ucast b2) OR push_bit 48 (ucast b3) OR push_bit 40 (ucast b4) OR push_bit 32 (ucast b5)
         OR push_bit 24 (ucast b6) OR push_bit 16 (ucast b7) OR push_bit 8 (ucast b8) OR ucast b9)
     }
     else if FRAME_GET_PAYLOAD_LEN h1 = 126 then do {
       b2 \<leftarrow> load h 2; b3 \<leftarrow> load h 3;
       Some (push_bit 8 (ucast b2) OR ucast b3)
     }
     else Some (word_of_int (FRAME_GET_PAYLOAD_LEN h1))
   }"

definition header_mask :: "websock \<Rightarrow> byte list option" where
  "header_mask ws = do {
     h1 \<leftarrow> load (w_header ws) 1;
     if FRAME_GET_MASK h1 \<noteq> 0 then do {
       m0 \<leftarrow> load_back ws 4;
       m1 \<leftarrow> load_back ws 3;
       m2 \<leftarrow> load_back ws 2;
       m3 \<leftarrow> load_back ws 1;
       Some [m0, m1, m2, m3]
     }
     else Some [0, 0, 0, 0]
   }"

definition dispatch_length :: "'s websock_itf \<Rightarrow> websock \<Rightarrow> 's \<Rightarrow> 's step option" where
  "dispatch_length itf ws s = do {
     (rc, ws, s) \<leftarrow> read_header itf ws s;
     if rc < 0 then Some (Leave (Return rc) ws s)
     else if w_lenhead ws < w_szhead ws then Some (Leave (Return 0) ws s)
     else do {
       h0 \<leftarrow> load (w_header ws) 0;
       len \<leftarrow> header_length (w_header ws);
       let ws = ws\<lparr>w_length := (if FRAME_GET_OPCODE h0 = OPCODE_CLOSE \<and> len \<noteq> 0 then len - 2 else len)\<rparr>;
       if w_length ws > w_maxlength ws then Some (Leave Too_long_error ws s)
       else do {
         m \<leftarrow> header_mask ws;
         Some (Next (ws\<lparr>w_mask := m, w_state := STATE_DATA\<rparr>) s)
       }
     }
   }"

text \<open>All heading fields are known: the extension, then the callback of the operation.\<close>

definition close_code :: "websock \<Rightarrow> 16 word option" where
  "close_code ws =
     (if w_length ws = 0 then Some WEBSOCKET_CODE_NOT_SET
      else do {
        b0 \<leftarrow> load_back ws 2;
        b1 \<leftarrow> load_back ws 1;
        Some (push_bit 8 (ucast b0) OR ucast b1)
      })"

definition unless_loop :: "bool \<Rightarrow> outcome" where
  "unless_loop lp = (if lp then Loop else Return 0)"

definition dispatch_frame ::
  "'s websock_itf \<Rightarrow> byte list \<Rightarrow> bool \<Rightarrow> byte \<Rightarrow> websock \<Rightarrow> 's \<Rightarrow> (outcome \<times> websock \<times> 's) option" where
  "dispatch_frame itf stack lp h0 ws s =
     (let fin = FRAME_GET_FIN h0; len = unat (w_length ws); op = FRAME_GET_OPCODE h0 in
      if op = OPCODE_CONTINUATION then Some (unless_loop lp, itf_on_continue itf fin len ws s)
      else if op = OPCODE_TEXT then Some (unless_loop lp, itf_on_text itf fin len ws s)
      else if op = OPCODE_BINARY then Some (unless_loop lp, itf_on_binary itf fin len ws s)
      else if op = OPCODE_CLOSE then do {
        code \<leftarrow> close_code ws;
        Some (Return 0, itf_on_close itf code len ws s)
      }
      else if op = OPCODE_PING then do {
        (ws, s) \<leftarrow> (case itf_on_ping itf of Some f \<Rightarrow> Some (f len ws s) | None \<Rightarrow> pong itf stack ws s);
        Some (unless_loop lp, ws\<lparr>w_state := STATE_INIT\<rparr>, s)
      }
      else if op = OPCODE_PONG then do {
        (ws, s) \<leftarrow> (case itf_on_pong itf of Some f \<Rightarrow> Some (f len ws s) | None \<Rightarrow> map_option snd (websock_drop itf ws s));
        Some (unless_loop lp, ws\<lparr>w_state := STATE_INIT\<rparr>, s)
      }
      else Some (Protocol_error, ws, s))"

definition dispatch_data ::
  "'s websock_itf \<Rightarrow> byte list \<Rightarrow> bool \<Rightarrow> websock \<Rightarrow> 's \<Rightarrow> (outcome \<times> websock \<times> 's) option" where
  "dispatch_data itf stack lp ws s = do {
     h0 \<leftarrow> load (w_header ws) 0;
     let (taken, ws, s) = (case itf_on_extension itf of
         None \<Rightarrow> (False, ws, s)
       | Some f \<Rightarrow> f (FRAME_GET_FIN h0) (FRAME_GET_RSV1 h0) (FRAME_GET_RSV2 h0) (FRAME_GET_RSV3 h0)
                     (FRAME_GET_OPCODE h0) (unat (w_length ws)) ws s);
     if taken then Some (Return 0, ws, s)
     else do {
       h0 \<leftarrow> load (w_header ws) 0;
       if FRAME_GET_RSV1 h0 \<noteq> 0 \<or> FRAME_GET_RSV2 h0 \<noteq> 0 \<or> FRAME_GET_RSV3 h0 \<noteq> 0 then Some (Protocol_error, ws, s)
       else dispatch_frame itf stack lp h0 ws s
     }
   }"

text \<open>One turn of the loop, by cases of the state.\<close>

definition from_length ::
  "'s websock_itf \<Rightarrow> byte list \<Rightarrow> bool \<Rightarrow> websock \<Rightarrow> 's \<Rightarrow> (outcome \<times> websock \<times> 's) option" where
  "from_length itf stack lp ws s = do {
     st \<leftarrow> dispatch_length itf ws s;
     case st of Leave out ws s \<Rightarrow> Some (out, ws, s) | Next ws s \<Rightarrow> dispatch_data itf stack lp ws s
   }"

definition from_start ::
  "'s websock_itf \<Rightarrow> byte list \<Rightarrow> bool \<Rightarrow> websock \<Rightarrow> 's \<Rightarrow> (outcome \<times> websock \<times> 's) option" where
  "from_start itf stack lp ws s = do {
     st \<leftarrow> dispatch_start itf ws s;
     case st of Leave out ws s \<Rightarrow> Some (out, ws, s) | Next ws s \<Rightarrow> from_length itf stack lp ws s
   }"

definition dispatch_turn ::
  "'s websock_itf \<Rightarrow> byte list \<Rightarrow> bool \<Rightarrow> websock \<Rightarrow> 's \<Rightarrow> (outcome \<times> websock \<times> 's) option" where
  "dispatch_turn itf stack lp ws s =
     (case w_state ws of
        STATE_INIT \<Rightarrow> from_start itf stack lp (ws\<lparr>w_lenhead := 0, w_szhead := 2, w_state := STATE_START\<rparr>) s
      | STATE_START \<Rightarrow> from_start itf stack lp ws s
      | STATE_LENGTH \<Rightarrow> from_length itf stack lp ws s
      | STATE_DATA \<Rightarrow>
          if w_length ws \<noteq> 0 then Some (Return 0, ws, s) else Some (Loop, ws\<lparr>w_state := STATE_INIT\<rparr>, s))"

partial_function (option) websock_dispatch ::
  "'s websock_itf \<Rightarrow> byte list \<Rightarrow> bool \<Rightarrow> websock \<Rightarrow> 's \<Rightarrow> (int \<times> websock \<times> 's) option" where
  "websock_dispatch itf stack lp ws s = do {
     (out, ws, s) \<leftarrow> dispatch_turn itf stack lp ws s;
     case out of
       Return rc \<Rightarrow> Some (rc, ws, s)
     | Loop \<Rightarrow> websock_dispatch itf stack lp ws s
     | Too_long_error \<Rightarrow> do {
         (_, ws, s) \<leftarrow> websock_error itf ws s WEBSOCKET_CODE_MESSAGE_TOO_LARGE [];
         Some (0, ws, s)
       }
     | Protocol_error \<Rightarrow> do {
         (_, ws, s) \<leftarrow> websock_error itf ws s WEBSOCKET_CODE_PROTOCOL_ERROR [];
         Some (0, ws, s)
       }
   }"

subsection \<open>Creation and settings\<close>

text \<open>\<open>calloc\<close> gives a cleared structure, or nothing; the default length is a global variable.\<close>

definition websock_create_v13 :: "64 word \<Rightarrow> bool \<Rightarrow> websock option" where
  "websock_create_v13 default_maxlength allocated =
     (if allocated then
        Some \<lparr>w_state = STATE_INIT, w_maxlength = default_maxlength, w_lenhead = 0, w_szhead = 0, w_length = 0,
          w_mask = [0, 0, 0, 0], w_header = replicate 14 0\<rparr>
      else None)"

definition WEBSOCKET_DEFAULT_MAXLENGTH :: "64 word" where "WEBSOCKET_DEFAULT_MAXLENGTH = 1048500"

text \<open>The new value of the global variable.\<close>

definition websock_set_default_max_length :: "64 word \<Rightarrow> 64 word \<Rightarrow> 64 word" where
  "websock_set_default_max_length default_maxlength maxlen = maxlen"

definition websock_set_max_length :: "websock \<Rightarrow> 64 word \<Rightarrow> websock" where
  "websock_set_max_length ws maxlen = ws\<lparr>w_maxlength := maxlen\<rparr>"

definition websocket_explain_error :: "16 word \<Rightarrow> string option" where
  "websocket_explain_error code =
     (let msgs = [''OK'', ''GOING_AWAY'', ''PROTOCOL_ERROR'', ''CANT_ACCEPT'', ''RESERVED'', ''NOT_SET'',
        ''ABNORMAL'', ''INVALID_UTF8'', ''POLICY_VIOLATION'', ''MESSAGE_TOO_LARGE'', ''EXPECT_EXTENSION'',
        ''INTERNAL_ERROR''] in
      if unat code < 1000 \<or> unat code - 1000 \<ge> length msgs then Some ''?'' else load msgs (unat code - 1000))"

subsection \<open>Lemmas on the fields of a header\<close>

lemma fold_gather: "gather vs = (filter (\<lambda>v. v \<noteq> []) vs, word_of_nat (length (concat vs)))"
  by (induction vs) auto

lemma bit_FRAME_SET_LENGTH:
  "bit (ucast (FRAME_SET_LENGTH x i) :: 64 word) n \<longleftrightarrow> n < 8 \<and> bit x (i * 8 + n)"
proof -
  have "(0xFF :: 64 word) = mask 8" by (simp add: mask_eq_exp_minus_1)
  then have "FRAME_SET_LENGTH x i = ucast (drop_bit (i * 8) x AND mask 8)" by (simp only: FRAME_SET_LENGTH_def)
  then show ?thesis by (simp only: bit_simps) (auto dest: bit_imp_le_length)
qed

text \<open>The length bytes, most significant first, give the length again.\<close>

lemma join_8:
  "push_bit 56 (ucast (FRAME_SET_LENGTH x 7)) OR push_bit 48 (ucast (FRAME_SET_LENGTH x 6))
   OR push_bit 40 (ucast (FRAME_SET_LENGTH x 5)) OR push_bit 32 (ucast (FRAME_SET_LENGTH x 4))
   OR push_bit 24 (ucast (FRAME_SET_LENGTH x 3)) OR push_bit 16 (ucast (FRAME_SET_LENGTH x 2))
   OR push_bit 8 (ucast (FRAME_SET_LENGTH x 1)) OR ucast (FRAME_SET_LENGTH x 0) = (x :: 64 word)"
  (is "?l = x")
proof (rule bit_word_eqI)
  fix n assume n: "n < LENGTH(64)"
  have B: "bit ?l n \<longleftrightarrow> (56 \<le> n \<and> n - 56 < 8 \<and> bit x (56 + (n - 56))) \<or> (48 \<le> n \<and> n - 48 < 8 \<and> bit x (48 + (n - 48)))
      \<or> (40 \<le> n \<and> n - 40 < 8 \<and> bit x (40 + (n - 40))) \<or> (32 \<le> n \<and> n - 32 < 8 \<and> bit x (32 + (n - 32)))
      \<or> (24 \<le> n \<and> n - 24 < 8 \<and> bit x (24 + (n - 24))) \<or> (16 \<le> n \<and> n - 16 < 8 \<and> bit x (16 + (n - 16)))
      \<or> (8 \<le> n \<and> n - 8 < 8 \<and> bit x (8 + (n - 8))) \<or> (n < 8 \<and> bit x n)"
    using n by (simp add: bit_or_iff bit_push_bit_iff bit_FRAME_SET_LENGTH)
  consider "n < 8" | "8 \<le> n \<and> n < 16" | "16 \<le> n \<and> n < 24" | "24 \<le> n \<and> n < 32" | "32 \<le> n \<and> n < 40"
    | "40 \<le> n \<and> n < 48" | "48 \<le> n \<and> n < 56" | "56 \<le> n \<and> n < 64" using n by fastforce
  then show "bit ?l n = bit x n" unfolding B by cases auto
qed

lemma join_2:
  assumes "x < 65536"
  shows "push_bit 8 (ucast (FRAME_SET_LENGTH x 1)) OR ucast (FRAME_SET_LENGTH x 0) = (x :: 64 word)" (is "?l = x")
proof (rule bit_word_eqI)
  fix n assume n: "n < LENGTH(64)"
  have "bit ?l n \<longleftrightarrow> (8 \<le> n \<and> n - 8 < 8 \<and> bit x (8 + (n - 8))) \<or> (n < 8 \<and> bit x n)"
    using n by (simp add: bit_or_iff bit_push_bit_iff bit_FRAME_SET_LENGTH)
  also have "\<dots> \<longleftrightarrow> n < 16 \<and> bit x n" by auto
  finally have B: "bit ?l n \<longleftrightarrow> n < 16 \<and> bit x n" .
  have "\<not> bit x n" if "16 \<le> n"
  proof -
    have "take_bit 16 x = x" 
      by (rule word_unat_eq_iff [THEN iffD2])
        (use assms in \<open>simp add: unsigned_take_bit_eq take_bit_nat_eq_self word_less_nat_alt del: take_bit_of_nat\<close>)
    then show ?thesis using that by (metis bit_take_bit_iff not_less)
  qed
  then show "bit ?l n = bit x n" unfolding B by (meson not_less)
qed

lemma and_1_int: "(x :: int) AND 1 = x mod 2"
  by (simp add: and_one_eq)

lemma and_15_int: "(x :: int) AND 15 = x mod 16"
  using take_bit_eq_mask [of 4 x] by (simp add: take_bit_eq_mod mask_eq_exp_minus_1)

lemma and_127_int: "(x :: int) AND 127 = x mod 128"
  using take_bit_eq_mask [of 7 x] by (simp add: take_bit_eq_mod mask_eq_exp_minus_1)

lemmas FRAME_GETs = FRAME_GET_FIN_def FRAME_GET_RSV1_def FRAME_GET_RSV2_def FRAME_GET_RSV3_def
  FRAME_GET_OPCODE_def FRAME_GET_MASK_def FRAME_GET_PAYLOAD_LEN_def
  and_1_int and_15_int and_127_int drop_bit_eq_div

lemma FRAME_GET_bounds [simp]:
  "0 \<le> FRAME_GET_PAYLOAD_LEN b" "FRAME_GET_PAYLOAD_LEN b \<le> 127" "0 \<le> FRAME_GET_MASK b" "FRAME_GET_MASK b \<le> 1"
  by (simp_all add: FRAME_GETs)

subsection \<open>Frames on the wire\<close>

text \<open>
  What RFC 6455 puts before the payload: the first byte, the mask bit with the length, an
  extended length in 0, 2 or 8 bytes, and the masking key if there is one.
\<close>

definition short_length :: "64 word \<Rightarrow> byte" where
  "short_length sz = (if sz < 126 then ucast sz else if sz < 65536 then 126 else 127)"

definition extended_length :: "64 word \<Rightarrow> byte list" where
  "extended_length sz = map (FRAME_SET_LENGTH sz) (if sz < 126 then [] else if sz < 65536 then [1, 0] else [7, 6, 5, 4, 3, 2, 1, 0])"

definition wire_header :: "byte \<Rightarrow> 64 word \<Rightarrow> byte list option \<Rightarrow> byte list" where
  "wire_header first sz key =
     [first, (if key = None then short_length sz else short_length sz OR 128)] @ extended_length sz @
     (case key of None \<Rightarrow> [] | Some k \<Rightarrow> k)"

lemma frame_header_eq: "frame_header first sz = wire_header first sz None"
proof -
  have "(0xFF :: 64 word) = mask 8" by (simp add: mask_eq_exp_minus_1)
  moreover have "ucast (sz AND mask 8) = (ucast sz :: byte)"
    by (rule bit_word_eqI) (simp add: bit_simps)
  ultimately have "FRAME_SET_LENGTH sz 0 = ucast sz" by (simp only: FRAME_SET_LENGTH_def mult_zero_left drop_bit_0 id_apply)
  then show ?thesis by (auto simp: frame_header_def wire_header_def short_length_def extended_length_def)
qed

lemma short_length_uint:
  "uint (short_length sz) = (if sz < 126 then uint sz else if sz < 65536 then 126 else 127)"
proof (cases "sz < 126")
  case True
  then have "uint sz < 126" by (simp add: word_less_def)
  then show ?thesis using True by (simp add: short_length_def unsigned_ucast_eq take_bit_eq_mod)
qed (simp add: short_length_def)

lemma or_128: "uint (b :: byte) < 128 \<Longrightarrow> uint (b OR 128) = uint b + 128"
proof -
  assume "uint b < 128"
  then have "take_bit 7 (uint b) = uint b" by (simp add: take_bit_eq_mod)
  then have "\<not> bit (uint b) 7" by (metis bit_take_bit_iff less_irrefl)
  then have "uint b AND 128 = 0" using and_exp_eq_0_iff_not_bit [of "uint b" 7] by simp
  then have "uint b OR 128 = uint b + 128" using disjunctive_add_eq_or [of "uint b" 128] by simp
  then show ?thesis by (simp add: unsigned_or_eq)
qed

lemma wire_length_byte:
  fixes sz :: "64 word" and key :: "byte list option"
  defines "b \<equiv> (if key = None then short_length sz else short_length sz OR 128)"
  shows "FRAME_GET_PAYLOAD_LEN b = (if sz < 126 then uint sz else if sz < 65536 then 126 else 127)"
    and "FRAME_GET_MASK b = (if key = None then 0 else 1)"
proof -
  have B: "uint (short_length sz) < 128"
    by (simp add: short_length_uint word_less_def)
  have "uint b = uint (short_length sz) + (if key = None then 0 else 128)"
    using or_128 [OF B] by (simp add: b_def)
  moreover have "(uint (short_length sz) + 128) div 128 = 1" "uint (short_length sz) div 128 = 0"
    using B by (simp_all add: div_add_self2 div_pos_pos_trivial)
  ultimately show "FRAME_GET_PAYLOAD_LEN b = (if sz < 126 then uint sz else if sz < 65536 then 126 else 127)"
    and "FRAME_GET_MASK b = (if key = None then 0 else 1)"
    using B by (auto simp: FRAME_GET_MASK_def FRAME_GET_PAYLOAD_LEN_def and_1_int and_127_int drop_bit_eq_div short_length_uint)
qed

subsection \<open>Unmasking\<close>

text \<open>The mask that turns along the bytes.\<close>

fun xor_mask :: "byte list \<Rightarrow> byte list \<Rightarrow> byte list" where
  "xor_mask m [] = []"
| "xor_mask m (b # bs) = (b XOR hd m) # xor_mask (rotate1 m) bs"

lemma xor_mask_append: "xor_mask m (xs @ ys) = xor_mask m xs @ xor_mask (rotate (length xs) m) ys"
  by (induction xs arbitrary: m) (simp_all add: rotate1_rotate_swap)

lemma length_xor_mask [simp]: "length (xor_mask m bs) = length bs"
  by (induction bs arbitrary: m) simp_all

lemma xor_mask_nth: "m \<noteq> [] \<Longrightarrow> i < length bs \<Longrightarrow> xor_mask m bs ! i = bs ! i XOR m ! (i mod length m)"
proof (induction bs arbitrary: m i)
  case (Cons b bs)
  show ?case
  proof (cases i)
    case 0
    then show ?thesis using Cons.prems by (simp add: hd_conv_nth)
  next
    case (Suc j)
    have "rotate1 m ! (j mod length m) = m ! (Suc j mod length m)"
      using Cons.prems(1) by (simp add: nth_rotate1 mod_Suc)
    then show ?thesis using Cons.IH [of "rotate1 m" j] Cons.prems Suc by (simp add: rotate1_is_Nil_conv)
  qed
qed simp

lemma four: "length m = 4 \<longleftrightarrow> (\<exists>a b c d. m = [a, b, c, d])"
  by (auto simp: numeral_eq_Suc length_Suc_conv)

lemma turn_mask_eq [simp]: "length m = 4 \<Longrightarrow> turn_mask m = rotate1 m"
  by (auto simp: four turn_mask_def)

lemma hd_four: "length m = 4 \<Longrightarrow> m ! 0 = hd m"
  by (auto simp: four)

lemma unmask_tail_eq: "length m = 4 \<Longrightarrow> unmask_tail m bs = (xor_mask m bs, rotate (length bs) m)"
  by (induction bs arbitrary: m) (simp_all add: hd_four rotate1_rotate_swap)

lemma unmask_head_eq:
  "length m = 4 \<Longrightarrow> \<exists>k \<le> length bs. unmask_head m a bs = (xor_mask m (take k bs), rotate k m, drop k bs)"
proof (induction bs arbitrary: m a)
  case (Cons b bs)
  show ?case
  proof (cases "a mod 4 \<noteq> 0")
    case True
    obtain k where "k \<le> length bs"
      "unmask_head (rotate1 m) (a + 1) bs = (xor_mask (rotate1 m) (take k bs), rotate k (rotate1 m), drop k bs)"
      using Cons.IH [of "rotate1 m" "a + 1"] Cons.prems by auto
    then show ?thesis using True Cons.prems
      by (intro exI [of _ "Suc k"]) (simp add: hd_four rotate1_rotate_swap)
  next
    case False
    then show ?thesis by (intro exI [of _ 0]) simp
  qed
qed simp

lemma rotate_four [simp]: "length m = 4 \<Longrightarrow> rotate1 (rotate1 (rotate1 (rotate1 m))) = m"
  by (auto simp: four)

lemma unmask_words_eq:
  "length m = 4 \<Longrightarrow> \<exists>k \<le> length bs. unmask_words m bs = (xor_mask m (take k bs), drop k bs) \<and> rotate k m = m"
proof (induction m bs rule: unmask_words.induct)
  case (1 m b0 b1 b2 b3 bs)
  then obtain k where k: "k \<le> length bs" "unmask_words m bs = (xor_mask m (take k bs), drop k bs)" "rotate k m = m"
    by auto
  have K: "k + 4 = Suc (Suc (Suc (Suc k)))" by simp
  have R: "rotate 4 m = m" using rotate_four [OF 1(2)] by (simp add: rotate_def numeral_eq_Suc)
  have "rotate (k + 4) m = m" using k(3) R by (simp flip: rotate_rotate)
  moreover have "unmask_words m (b0 # b1 # b2 # b3 # bs) =
      (xor_mask m (take (k + 4) (b0 # b1 # b2 # b3 # bs)), drop (k + 4) (b0 # b1 # b2 # b3 # bs))"
    using k(2) 1(2) unfolding K by (auto simp: four)
  ultimately show ?case using k(1) by (intro exI [of _ "k + 4"]) simp
qed (rule exI [of _ 0], simp)+

lemma unmask_eq: "length m = 4 \<Longrightarrow> unmask m a bs = (xor_mask m bs, rotate (length bs) m)"
proof -
  assume m: "length m = 4"
  obtain k where k: "k \<le> length bs" "unmask_head m a bs = (xor_mask m (take k bs), rotate k m, drop k bs)"
    using unmask_head_eq [OF m] by blast
  have "length (rotate k m) = 4" using m by simp
  then obtain j where j: "j \<le> length (drop k bs)" "rotate j (rotate k m) = rotate k m"
      "unmask_words (rotate k m) (drop k bs) = (xor_mask (rotate k m) (take j (drop k bs)), drop j (drop k bs))"
    using unmask_words_eq [of "rotate k m" "drop k bs"] by blast
  let ?r = "drop j (drop k bs)"
  have "unmask m a bs = (xor_mask m (take k bs) @ xor_mask (rotate k m) (take j (drop k bs)) @ xor_mask (rotate k m) ?r,
      rotate (length ?r) (rotate k m))"
    unfolding unmask_def k(2) by (simp only: Let_def prod.case j(3)) (simp add: m unmask_tail_eq)
  moreover have "xor_mask (rotate k m) (drop k bs) = xor_mask (rotate k m) (take j (drop k bs)) @ xor_mask (rotate k m) ?r"
    using xor_mask_append [of "rotate k m" "take j (drop k bs)" ?r] j(1,2) unfolding append_take_drop_id by simp
  moreover have "xor_mask m bs = xor_mask m (take k bs) @ xor_mask (rotate k m) (drop k bs)"
    using xor_mask_append [of m "take k bs" "drop k bs"] k(1) by simp
  moreover have "rotate (length ?r) (rotate k m) = rotate (length ?r) (rotate j (rotate k m))" by (simp only: j(2))
  moreover have "length ?r + (j + k) = length bs" using j(1) k(1) by simp
  ultimately show ?thesis by (simp add: rotate_rotate)
qed

text \<open>
  Unmasking does not depend on the address of the buffer: each byte is combined
  with the byte of the mask at its position modulo 4, and the mask is left turned so that
  the next part of the payload, at whatever address, goes on where this one ended.
\<close>

theorem unmask_correct:
  assumes "length m = 4"
  shows "unmask m a bs = (map (\<lambda>i. bs ! i XOR m ! (i mod 4)) [0..<length bs], rotate (length bs) m)
    \<and> (let (p, m') = unmask m a1 xs; (q, m'') = unmask m' a2 ys in unmask m a (xs @ ys) = (p @ q, m''))"
proof
  have "m \<noteq> []" using assms by auto
  then have "xor_mask m bs = map (\<lambda>i. bs ! i XOR m ! (i mod 4)) [0..<length bs]"
    using assms by (intro nth_equalityI) (auto simp: xor_mask_nth)
  then show "unmask m a bs = (map (\<lambda>i. bs ! i XOR m ! (i mod 4)) [0..<length bs], rotate (length bs) m)"
    using unmask_eq [OF assms] by simp
  show "let (p, m') = unmask m a1 xs; (q, m'') = unmask m' a2 ys in unmask m a (xs @ ys) = (p @ q, m'')"
    using assms by (simp add: unmask_eq xor_mask_append rotate_rotate add.commute)
qed

lemma unmask_correct_witness:
  "unmask [1, 2, 3, 4] 3 [16, 16, 16, 16, 16, 16] = ([17, 18, 19, 20, 17, 18], [3, 4, 1, 2])"
  using unmask_correct [of "[1, 2, 3, 4]" 3 "[16, 16, 16, 16, 16, 16]"] by (simp add: rotate_drop_take)

subsection \<open>Sending\<close>

text \<open>
  Property C23: sending accepts 0 to 31 buffers, and refuses other counts without writing;
  it writes in one call the RFC 6455 header for the sum of the sizes, without masking key, and then the
  buffers that are not empty, in order. A failure to write gives the negated \<open>errno\<close>.
\<close>

theorem websock_send_internal_v_correct:
  assumes "nat count \<le> length iovec"
  shows "websock_send_internal_v itf s first iovec count =
    Some (if count < 0 \<or> 31 < count then (X_EINVAL, s)
      else let bufs = take (nat count) iovec in
        case itf_writev itf s (wire_header first (word_of_nat (length (concat bufs))) None # filter (\<lambda>v. v \<noteq> []) bufs) of
          (rc, errno, s') \<Rightarrow> (if rc < 0 then - errno else 0, s'))"
  using assms by (simp add: websock_send_internal_v_def fold_gather frame_header_eq Let_def split: prod.split)

text \<open>An interface on a list of bytes that are all available, with callbacks that do nothing.\<close>

definition list_itf :: "byte list websock_itf" where
  "list_itf = \<lparr>itf_writev = \<lambda>s v. (int (length (concat v)), 0, s @ concat v),
     itf_readv = \<lambda>s n. (int (min n (length s)), take n s, drop n s),
     itf_on_ping = Some (\<lambda>n ws s. (ws, s)), itf_on_pong = Some (\<lambda>n ws s. (ws, s)),
     itf_on_close = \<lambda>c n ws s. (ws, s), itf_on_text = \<lambda>l n ws s. (ws, s),
     itf_on_binary = \<lambda>l n ws s. (ws, s), itf_on_continue = \<lambda>l n ws s. (ws, s),
     itf_on_extension = None, itf_on_error = None\<rparr>"

lemma websock_send_internal_v_correct_witness:
  "websock_send_internal_v list_itf [] 0x81 [[72], [], [73]] 3 = Some (0, [0x81, 2, 72, 73])"
  using websock_send_internal_v_correct [of 3 "[[72], [], [73]]" list_itf "[]" "0x81"]
  by (simp add: list_itf_def wire_header_def short_length_def extended_length_def)

subsection \<open>The invariant of a web socket\<close>

text \<open>
  The header never holds more than announced, nor more than its 14 bytes; in
  \<open>STATE_LENGTH\<close> and after, the two first bytes are known and account for the size announced.
\<close>

definition header_size :: "byte list \<Rightarrow> nat" where
  "header_size h =
     2 + (if FRAME_GET_OPCODE (h ! 0) = OPCODE_CLOSE \<and> FRAME_GET_PAYLOAD_LEN (h ! 1) \<noteq> 0 then 2 else 0)
     + (if FRAME_GET_PAYLOAD_LEN (h ! 1) = 127 then 8 else if FRAME_GET_PAYLOAD_LEN (h ! 1) = 126 then 2 else 0)
     + nat (4 * FRAME_GET_MASK (h ! 1))"

definition websock_ok :: "websock \<Rightarrow> bool" where
  "websock_ok ws \<longleftrightarrow>
     length (w_header ws) = 14 \<and> length (w_mask ws) = 4 \<and> w_szhead ws \<le> 14 \<and>
     (case w_state ws of
        STATE_INIT \<Rightarrow> True
      | STATE_START \<Rightarrow> w_lenhead ws \<le> w_szhead ws \<and> w_szhead ws = 2
      | STATE_LENGTH \<Rightarrow> 2 \<le> w_lenhead ws \<and> w_lenhead ws \<le> w_szhead ws \<and> w_szhead ws = header_size (w_header ws)
      | STATE_DATA \<Rightarrow> w_lenhead ws = w_szhead ws \<and> 2 \<le> w_szhead ws)"

text \<open>What is required of the client: \<open>readv\<close> gives a failure or as many bytes as it says, not
  more than asked for, and the callbacks act on the web socket by its operations only.\<close>

definition readv_ok :: "'s websock_itf \<Rightarrow> bool" where
  "readv_ok itf \<longleftrightarrow> (\<forall>s n. case itf_readv itf s n of (rc, bs, s') \<Rightarrow> rc < 0 \<and> bs = [] \<or> rc = int (length bs) \<and> length bs \<le> n)"

definition callback_ok :: "'s callback \<Rightarrow> bool" where
  "callback_ok f \<longleftrightarrow> (\<forall>ws s. websock_ok ws \<and> w_state ws = STATE_DATA \<longrightarrow>
     websock_ok (fst (f ws s)) \<and> w_state (fst (f ws s)) = STATE_DATA)"

definition itf_ok :: "'s websock_itf \<Rightarrow> bool" where
  "itf_ok itf \<longleftrightarrow> readv_ok itf \<and>
     (\<forall>f n. itf_on_ping itf = Some f \<longrightarrow> callback_ok (f n)) \<and>
     (\<forall>f n. itf_on_pong itf = Some f \<longrightarrow> callback_ok (f n)) \<and>
     (\<forall>c n. callback_ok (itf_on_close itf c n)) \<and>
     (\<forall>l n. callback_ok (itf_on_text itf l n)) \<and>
     (\<forall>l n. callback_ok (itf_on_binary itf l n)) \<and>
     (\<forall>l n. callback_ok (itf_on_continue itf l n)) \<and>
     (\<forall>f a b c d e n. itf_on_extension itf = Some f \<longrightarrow> callback_ok (\<lambda>ws s. snd (f a b c d e n ws s))) \<and>
     (\<forall>f c d ws s. itf_on_error itf = Some f \<longrightarrow> websock_ok ws \<longrightarrow> websock_ok (fst (f c d ws s)))"

lemma callback_okD:
  "callback_ok f \<Longrightarrow> websock_ok ws \<Longrightarrow> w_state ws = STATE_DATA \<Longrightarrow> f ws s = (ws', s') \<Longrightarrow>
    websock_ok ws' \<and> w_state ws' = STATE_DATA"
  unfolding callback_ok_def by (drule spec [of _ ws], drule spec [of _ s]) simp

lemma readv_okE:
  assumes "readv_ok itf"
  obtains rc bs s' where "itf_readv itf s n = (rc, bs, s')" "rc < 0 \<and> bs = [] \<or> rc = int (length bs) \<and> length bs \<le> n"
proof -
  obtain rc bs s' where r: "itf_readv itf s n = (rc, bs, s')" by (cases "itf_readv itf s n")
  then show thesis using assms that unfolding readv_ok_def by (drule_tac spec [of _ s], drule_tac spec [of _ n]) simp
qed

lemma header_size_bounds: "2 \<le> header_size h" "header_size h \<le> 14 \<or> FRAME_GET_OPCODE (h ! 0) = OPCODE_CLOSE"
  "FRAME_GET_PAYLOAD_LEN (h ! 1) \<le> 125 \<Longrightarrow> header_size h \<le> 14"
  "FRAME_GET_MASK (h ! 1) \<noteq> 0 \<Longrightarrow> 6 \<le> header_size h"
  "FRAME_GET_PAYLOAD_LEN (h ! 1) = 127 \<Longrightarrow> 10 \<le> header_size h"
  "FRAME_GET_PAYLOAD_LEN (h ! 1) = 126 \<Longrightarrow> 4 \<le> header_size h"
proof -
  have M: "nat (4 * FRAME_GET_MASK (h ! 1)) \<le> 4" using FRAME_GET_bounds(4) [of "h ! 1"] by (simp add: nat_le_iff)
  show "2 \<le> header_size h" by (simp add: header_size_def)
  show "header_size h \<le> 14 \<or> FRAME_GET_OPCODE (h ! 0) = OPCODE_CLOSE"
    "FRAME_GET_PAYLOAD_LEN (h ! 1) \<le> 125 \<Longrightarrow> header_size h \<le> 14" using M by (auto simp: header_size_def)
  have "FRAME_GET_MASK (h ! 1) \<noteq> 0 \<Longrightarrow> FRAME_GET_MASK (h ! 1) = 1"
    using FRAME_GET_bounds(3,4) [of "h ! 1"] by linarith
  then show "FRAME_GET_MASK (h ! 1) \<noteq> 0 \<Longrightarrow> 6 \<le> header_size h" by (auto simp: header_size_def)
  show "FRAME_GET_PAYLOAD_LEN (h ! 1) = 127 \<Longrightarrow> 10 \<le> header_size h"
    "FRAME_GET_PAYLOAD_LEN (h ! 1) = 126 \<Longrightarrow> 4 \<le> header_size h" by (simp_all add: header_size_def)
qed

lemma overwrite_nth_before: "i < n \<Longrightarrow> n \<le> length xs \<Longrightarrow> overwrite xs n ys ! i = xs ! i"
  by (simp add: overwrite_def nth_append)

lemma header_size_cong: "h ! 0 = h' ! 0 \<Longrightarrow> h ! 1 = h' ! 1 \<Longrightarrow> header_size h = header_size h'"
  by (simp add: header_size_def)

text \<open>Reading adds bytes after those that are known.\<close>

lemma read_header_ok:
  assumes "readv_ok itf" and "w_lenhead ws \<le> w_szhead ws" and "w_szhead ws \<le> 14" and "length (w_header ws) = 14"
  obtains rc h n s' where "read_header itf ws s = Some (rc, ws\<lparr>w_header := h, w_lenhead := n\<rparr>, s')"
    "length h = 14" "w_lenhead ws \<le> n" "n \<le> w_szhead ws" "take (w_lenhead ws) h = take (w_lenhead ws) (w_header ws)"
proof (cases "w_lenhead ws < w_szhead ws")
  case True
  obtain rc bs s' where r: "itf_readv itf s (w_szhead ws - w_lenhead ws) = (rc, bs, s')"
    "rc < 0 \<and> bs = [] \<or> rc = int (length bs) \<and> length bs \<le> w_szhead ws - w_lenhead ws"
    using readv_okE [OF assms(1)] .
  show thesis
  proof (cases "rc < 0")
    case True
    show ?thesis by (rule that [of rc "w_lenhead ws" "w_header ws" s'])
      (use True r assms \<open>w_lenhead ws < w_szhead ws\<close> in \<open>simp_all add: read_header_def ws_read_def\<close>)
  next
    case False
    show ?thesis by (rule that [of 0 "w_lenhead ws + length bs" "overwrite (w_header ws) (w_lenhead ws) bs" s'])
      (use False r assms True in \<open>auto simp: read_header_def ws_read_def overwrite_def\<close>)
  qed
next
  case False
  show thesis by (rule that [of 0 "w_lenhead ws" "w_header ws" s])
    (use False assms in \<open>simp_all add: read_header_def\<close>)
qed

definition step_ok :: "ws_state \<Rightarrow> bool \<Rightarrow> 's step option \<Rightarrow> bool" where
  "step_ok st lp r \<longleftrightarrow> (case r of
     None \<Rightarrow> False
   | Some (Leave out ws s) \<Rightarrow> websock_ok ws \<and> (out = Loop \<longrightarrow> lp)
   | Some (Next ws s) \<Rightarrow> websock_ok ws \<and> w_state ws = st)"

definition turn_ok :: "bool \<Rightarrow> (outcome \<times> websock \<times> 's) option \<Rightarrow> bool" where
  "turn_ok lp r \<longleftrightarrow> (case r of None \<Rightarrow> False | Some (out, ws, s) \<Rightarrow> websock_ok ws \<and> (out = Loop \<longrightarrow> lp))"

lemma websock_okD:
  assumes "websock_ok ws"
  shows "length (w_header ws) = 14" "length (w_mask ws) = 4" "w_szhead ws \<le> 14"
    "w_state ws = STATE_START \<Longrightarrow> w_lenhead ws \<le> w_szhead ws \<and> w_szhead ws = 2"
    "w_state ws = STATE_LENGTH \<Longrightarrow> 2 \<le> w_lenhead ws \<and> w_lenhead ws \<le> w_szhead ws \<and> w_szhead ws = header_size (w_header ws)"
    "w_state ws = STATE_DATA \<Longrightarrow> w_lenhead ws = w_szhead ws \<and> 2 \<le> w_szhead ws"
  using assms by (simp_all add: websock_ok_def)

lemma check_control_header_eq:
  "length (w_header ws) = 14 \<Longrightarrow> \<exists>b. check_control_header ws = Some b \<and> (b \<longrightarrow> FRAME_GET_PAYLOAD_LEN (w_header ws ! 1) \<le> 125)"
  by (simp add: check_control_header_def)

lemma dispatch_start_ok:
  assumes "readv_ok itf" and "websock_ok ws" and "w_state ws = STATE_START"
  shows "step_ok STATE_LENGTH False (dispatch_start itf ws s)"
proof -
  note ok = websock_okD(1-4) [OF assms(2)]
  have sz: "w_lenhead ws \<le> w_szhead ws" "w_szhead ws = 2" using ok(4) assms(3) by auto
  obtain rc h n s' where r: "read_header itf ws s = Some (rc, ws\<lparr>w_header := h, w_lenhead := n\<rparr>, s')"
    "length h = 14" "n \<le> 2" using read_header_ok [OF assms(1) sz(1) ok(3) ok(1)] sz(2) by metis
  let ?ws = "ws\<lparr>w_header := h, w_lenhead := n\<rparr>"
  have W: "websock_ok ?ws" using ok r(2,3) assms(3) sz by (simp add: websock_ok_def)
  obtain b where b: "check_control_header ?ws = Some b" "b \<longrightarrow> FRAME_GET_PAYLOAD_LEN (h ! 1) \<le> 125"
    using check_control_header_eq [of ?ws] r(2) by auto
  consider "rc < 0" | "\<not> rc < 0" "n < 2" | "\<not> rc < 0" "n = 2" using r(3) by linarith
  then show ?thesis
  proof cases
    case 3
    let ?op = "FRAME_GET_OPCODE (h ! 0)"
    let ?ctl = "?op = OPCODE_CLOSE \<or> ?op = OPCODE_PING \<or> ?op = OPCODE_PONG"
    have E: "dispatch_start itf ws s =
        (if ?ctl \<and> \<not> b then Some (Leave Protocol_error ?ws s')
         else Some (Next (?ws\<lparr>w_szhead := header_size h, w_state := STATE_LENGTH\<rparr>) s'))"
      unfolding dispatch_start_def r(1) using 3 sz(2) r(2) b(1)
      by (auto simp: Let_def grow_close_def grow_header_def header_size_def)
    have "header_size h \<le> 14" if "\<not> (?ctl \<and> \<not> b)"
      using that b(2) header_size_bounds(2,3) [of h] by auto
    then show ?thesis using W r(2) 3 ok(2) header_size_bounds(1) [of h]
      by (auto simp: E step_ok_def websock_ok_def)
  qed (use W sz in \<open>simp_all add: dispatch_start_def r(1) step_ok_def\<close>)
qed

lemma header_length_ok:
  "length h = 14 \<Longrightarrow> \<exists>len. header_length h = Some len"
  by (simp add: header_length_def)

lemma dispatch_length_ok:
  assumes "readv_ok itf" and "websock_ok ws" and "w_state ws = STATE_LENGTH"
  shows "step_ok STATE_DATA False (dispatch_length itf ws s)"
proof -
  note ok = websock_okD(1-3,5) [OF assms(2)]
  have sz: "2 \<le> w_lenhead ws" "w_lenhead ws \<le> w_szhead ws" "w_szhead ws = header_size (w_header ws)"
    using ok(4) assms(3) by auto
  obtain rc h n s' where r: "read_header itf ws s = Some (rc, ws\<lparr>w_header := h, w_lenhead := n\<rparr>, s')"
    "length h = 14" "w_lenhead ws \<le> n" "n \<le> w_szhead ws" "take (w_lenhead ws) h = take (w_lenhead ws) (w_header ws)"
    using read_header_ok [OF assms(1) sz(2) ok(3) ok(1)] by metis
  let ?ws = "ws\<lparr>w_header := h, w_lenhead := n\<rparr>"
  have "h ! 0 = w_header ws ! 0" "h ! 1 = w_header ws ! 1"
    using arg_cong [OF r(5), of "\<lambda>l. l ! 0"] arg_cong [OF r(5), of "\<lambda>l. l ! 1"] sz(1) by simp_all
  then have hs: "header_size h = w_szhead ws" using header_size_cong [of h "w_header ws"] sz(3) by simp
  have W: "websock_ok ?ws" using ok r(2-4) assms(3) sz hs by (simp add: websock_ok_def)
  obtain len where len: "header_length h = Some len" using header_length_ok [OF r(2)] by blast
  obtain m where m: "header_mask (?ws\<lparr>w_length := l\<rparr>) = Some m" "length m = 4" for l
  proof -
    have "\<exists>m. (\<forall>l. header_mask (?ws\<lparr>w_length := l\<rparr>) = Some m) \<and> length m = 4"
    proof (cases "FRAME_GET_MASK (h ! 1) = 0")
      case False
      then have "6 \<le> w_szhead ws" using header_size_bounds(4) [of h] hs by simp
      then show ?thesis using r(2) ok(3) False by (auto simp: header_mask_def load_back_def load_def)
    qed (use r(2) in \<open>simp add: header_mask_def\<close>)
    then show thesis using that by blast
  qed
  consider "rc < 0" | "\<not> rc < 0" "n < w_szhead ws" | "\<not> rc < 0" "n = w_szhead ws" using r(4) by linarith
  then show ?thesis
  proof cases
    case 3
    define l where "l = (if FRAME_GET_OPCODE (h ! 0) = OPCODE_CLOSE \<and> len \<noteq> 0 then len - 2 else len)"
    have E: "dispatch_length itf ws s =
       (if l > w_maxlength ws then Some (Leave Too_long_error (?ws\<lparr>w_length := l\<rparr>) s')
        else Some (Next (?ws\<lparr>w_length := l, w_mask := m, w_state := STATE_DATA\<rparr>) s'))"
      unfolding dispatch_length_def r(1) using 3 r(2) len m(1) [of l]
      by (simp add: Let_def flip: l_def)
    have "2 \<le> w_szhead ws" using sz by simp
    then show ?thesis unfolding E using W r(2) m(2) ok(3) 3 assms(3) by (simp add: step_ok_def websock_ok_def)
  qed (use W in \<open>simp_all add: dispatch_length_def r(1) step_ok_def\<close>)
qed

lemma turn_okI: "websock_ok ws \<Longrightarrow> out \<noteq> Loop \<or> lp \<Longrightarrow> turn_ok lp (Some (out, ws, s))"
  by (auto simp: turn_ok_def)

lemma callback_turn_ok:
  assumes "callback_ok f" and "websock_ok ws" and "w_state ws = STATE_DATA" and "out \<noteq> Loop \<or> lp"
  shows "turn_ok lp (Some (out, f ws s))"
  using assms callback_okD [OF assms(1-3)] by (cases "f ws s") (auto simp: turn_ok_def)

lemma set_state_ok: "websock_ok ws \<Longrightarrow> websock_ok (ws\<lparr>w_state := STATE_INIT\<rparr>)"
  by (simp add: websock_ok_def)

lemma unless_loop_cases [simp]: "unless_loop lp \<noteq> Loop \<or> lp"
  by (simp add: unless_loop_def)

lemma dispatch_frame_ok:
  assumes "itf_ok itf" and "itf_on_ping itf \<noteq> None" and "itf_on_pong itf \<noteq> None"
    and "websock_ok ws" and "w_state ws = STATE_DATA"
  shows "turn_ok lp (dispatch_frame itf stack lp h0 ws s)"
proof -
  note ok = websock_okD(1,3,6) [OF assms(4)]
  obtain f g where f: "itf_on_ping itf = Some f" and g: "itf_on_pong itf = Some g" using assms(2,3) by blast
  have C: "callback_ok (f n)" "callback_ok (g n)" "callback_ok (itf_on_close itf c n)" "callback_ok (itf_on_text itf l n)"
    "callback_ok (itf_on_binary itf l n)" "callback_ok (itf_on_continue itf l n)" for n c l
    using assms(1) f g by (simp_all add: itf_ok_def)
  have "\<exists>c. close_code ws = Some c"
    using ok assms(5) by (auto simp: close_code_def load_back_def load_def)
  then obtain c where c: "close_code ws = Some c" ..
  let ?n = "unat (w_length ws)"
  have P: "turn_ok lp (do { (ws, s) \<leftarrow> Some (k n ws s); Some (unless_loop lp, ws\<lparr>w_state := STATE_INIT\<rparr>, s) })"
    if "callback_ok (k n)" for k and n :: nat
    using callback_okD [OF that assms(4,5), of s] set_state_ok by (cases "k n ws s") (auto simp: unless_loop_def intro!: turn_okI)
  show ?thesis
    using callback_turn_ok [OF C(3) assms(4,5), of "Return 0"] callback_turn_ok [OF C(4) assms(4,5) unless_loop_cases]
      callback_turn_ok [OF C(5) assms(4,5) unless_loop_cases] callback_turn_ok [OF C(6) assms(4,5) unless_loop_cases]
      P [of f ?n, OF C(1)] P [of g ?n, OF C(2)]
    by (simp add: dispatch_frame_def Let_def c f g turn_okI assms(4) opcodes)
qed

lemma dispatch_data_ok:
  assumes "itf_ok itf" and "itf_on_ping itf \<noteq> None" and "itf_on_pong itf \<noteq> None"
    and "websock_ok ws" and "w_state ws = STATE_DATA"
  shows "turn_ok lp (dispatch_data itf stack lp ws s)"
proof -
  obtain h0 where h0: "load (w_header ws) 0 = Some h0" using websock_okD(1) [OF assms(4)] by simp
  define ext where "ext = (case itf_on_extension itf of None \<Rightarrow> (False, ws, s)
       | Some f \<Rightarrow> f (FRAME_GET_FIN h0) (FRAME_GET_RSV1 h0) (FRAME_GET_RSV2 h0) (FRAME_GET_RSV3 h0)
                     (FRAME_GET_OPCODE h0) (unat (w_length ws)) ws s)"
  obtain taken ws1 s1 where e: "ext = (taken, ws1, s1)" by (cases ext)
  have W: "websock_ok ws1 \<and> w_state ws1 = STATE_DATA"
  proof (cases "itf_on_extension itf")
    case (Some f)
    then have "callback_ok (\<lambda>ws s. snd (f a b c d o' n ws s))" for a b c d o' n
      using assms(1) unfolding itf_ok_def by blast
    moreover have "snd (f (FRAME_GET_FIN h0) (FRAME_GET_RSV1 h0) (FRAME_GET_RSV2 h0) (FRAME_GET_RSV3 h0)
        (FRAME_GET_OPCODE h0) (unat (w_length ws)) ws s) = (ws1, s1)" using e Some by (simp add: ext_def)
    ultimately show ?thesis by (rule callback_okD [OF _ assms(4,5)])
  qed (use e assms in \<open>simp add: ext_def\<close>)
  obtain h1 where h1: "load (w_header ws1) 0 = Some h1" using websock_okD(1) W by auto
  have "dispatch_data itf stack lp ws s =
     (if taken then Some (Return 0, ws1, s1)
      else if FRAME_GET_RSV1 h1 \<noteq> 0 \<or> FRAME_GET_RSV2 h1 \<noteq> 0 \<or> FRAME_GET_RSV3 h1 \<noteq> 0 then Some (Protocol_error, ws1, s1)
      else dispatch_frame itf stack lp h1 ws1 s1)"
    unfolding dispatch_data_def h0 ext_def [symmetric] using e [unfolded ext_def] h1 by (simp add: Let_def)
  then show ?thesis using dispatch_frame_ok [OF assms(1-3)] W by (simp add: turn_okI)
qed

lemma from_length_ok:
  assumes "itf_ok itf" and "itf_on_ping itf \<noteq> None" and "itf_on_pong itf \<noteq> None"
    and "websock_ok ws" and "w_state ws = STATE_LENGTH"
  shows "turn_ok lp (from_length itf stack lp ws s)"
proof -
  have "readv_ok itf" using assms(1) by (simp add: itf_ok_def)
  from dispatch_length_ok [OF this assms(4,5), of s] show ?thesis
    using dispatch_data_ok [OF assms(1-3)] unfolding from_length_def step_ok_def
    by (auto split: option.splits step.splits intro: turn_okI)
qed

lemma from_start_ok:
  assumes "itf_ok itf" and "itf_on_ping itf \<noteq> None" and "itf_on_pong itf \<noteq> None"
    and "websock_ok ws" and "w_state ws = STATE_START"
  shows "turn_ok lp (from_start itf stack lp ws s)"
proof -
  have "readv_ok itf" using assms(1) by (simp add: itf_ok_def)
  from dispatch_start_ok [OF this assms(4,5), of s] show ?thesis
    using from_length_ok [OF assms(1-3)] unfolding from_start_def step_ok_def
    by (auto split: option.splits step.splits intro: turn_okI)
qed

lemma dispatch_turn_ok:
  assumes "itf_ok itf" and "itf_on_ping itf \<noteq> None" and "itf_on_pong itf \<noteq> None" and "websock_ok ws"
  shows "turn_ok (lp \<or> w_state ws = STATE_DATA) (dispatch_turn itf stack lp ws s)"
proof (cases "w_state ws")
  case STATE_INIT
  have "websock_ok (ws\<lparr>w_lenhead := 0, w_szhead := 2, w_state := STATE_START\<rparr>)"
    using assms(4) by (simp add: websock_ok_def)
  then show ?thesis using from_start_ok [OF assms(1-3)] STATE_INIT by (simp add: dispatch_turn_def)
next
  case STATE_DATA
  then show ?thesis using assms(4) set_state_ok by (auto simp: dispatch_turn_def intro!: turn_okI)
qed (use from_start_ok [OF assms] from_length_ok [OF assms] in \<open>simp_all add: dispatch_turn_def\<close>)

lemma websock_error_ok:
  assumes "itf_ok itf" and "websock_ok ws"
  obtains rc ws' s' where "websock_error itf ws s code [] = Some (rc, ws', s')" "websock_ok ws'"
proof -
  obtain rc s1 where c: "websock_close itf s code [] = Some (rc, s1)"
  proof -
    have "\<exists>r. websock_close itf s code [] = Some r"
      by (simp add: websock_close_def websock_send_def websock_send_v_def websock_send_internal_def
          websock_send_internal_v_def Let_def split: prod.split)
    then show thesis using that by (metis surj_pair)
  qed
  show thesis
  proof (cases "itf_on_error itf")
    case (Some f)
    then have "websock_ok (fst (f code [] ws s1))" using assms unfolding itf_ok_def by blast
    then show ?thesis using that Some c by (cases "f code [] ws s1") (simp add: websock_error_def)
  qed (use that assms c in \<open>simp add: websock_error_def\<close>)
qed

lemma dispatch_leave:
  assumes "itf_ok itf" and "turn_ok False (dispatch_turn itf stack lp ws s)"
  shows "\<exists>rc ws' s'. websock_dispatch itf stack lp ws s = Some (rc, ws', s') \<and> websock_ok ws'"
proof -
  obtain out ws1 s1 where t: "dispatch_turn itf stack lp ws s = Some (out, ws1, s1)" "websock_ok ws1" "out \<noteq> Loop"
    using assms(2) by (auto simp: turn_ok_def split: option.splits)
  obtain ra wa sa rb wb sb where
    "websock_error itf ws1 s1 WEBSOCKET_CODE_MESSAGE_TOO_LARGE [] = Some (ra, wa, sa)" "websock_ok wa"
    "websock_error itf ws1 s1 WEBSOCKET_CODE_PROTOCOL_ERROR [] = Some (rb, wb, sb)" "websock_ok wb"
    using websock_error_ok [OF assms(1) t(2)] by metis
  then show ?thesis using t by (subst websock_dispatch.simps) (cases out; simp)
qed

lemma list_itf_ok: "itf_ok list_itf"
  by (simp add: itf_ok_def readv_ok_def callback_ok_def list_itf_def min.commute)

lemma created_ok: "websock_create_v13 l True = Some ws \<Longrightarrow> websock_ok ws"
  by (auto simp: websock_create_v13_def websock_ok_def)

text \<open>
  Property C24: a call of \<open>websock_dispatch\<close> that does not loop returns, whatever the
  stream gives, and stays inside of the header: from a web socket in a state that the
  operations produce, and with callbacks for ping and for pong (not null: the default pong may loop for ever) that
  keep such a state, it does not access the header out of its 14 bytes and leaves the web socket in such a state.
\<close>

theorem websock_dispatch_ok:
  assumes "itf_ok itf" and "itf_on_ping itf \<noteq> None" and "itf_on_pong itf \<noteq> None" and "websock_ok ws"
  shows "\<exists>rc ws' s'. websock_dispatch itf stack False ws s = Some (rc, ws', s') \<and> websock_ok ws'"
proof -
  note turn = dispatch_turn_ok [OF assms(1-3), where lp = False]
  show ?thesis
  proof (cases "w_state ws = STATE_DATA")
    case False
    then show ?thesis using dispatch_leave [OF assms(1)] turn [OF assms(4), of stack s] by simp
  next
    case True
    let ?ws = "ws\<lparr>w_state := STATE_INIT\<rparr>"
    have I: "\<exists>rc ws' s'. websock_dispatch itf stack False ?ws s = Some (rc, ws', s') \<and> websock_ok ws'"
      using dispatch_leave [OF assms(1)] turn [OF set_state_ok [OF assms(4)], of stack s] by simp
    then show ?thesis using True assms(4)
      by (subst websock_dispatch.simps) (simp add: dispatch_turn_def)
  qed
qed

lemma websock_dispatch_ok_witness:
  "\<exists>rc ws' s'. websock_dispatch list_itf [] False (the (websock_create_v13 1000 True)) [0x81, 1, 65] = Some (rc, ws', s')
    \<and> websock_ok ws'"
proof -
  have "websock_ok (the (websock_create_v13 1000 True))" by (simp add: websock_create_v13_def websock_ok_def)
  then show ?thesis by (intro websock_dispatch_ok [OF list_itf_ok]) (simp_all add: list_itf_def)
qed

subsection \<open>Dropping\<close>

text \<open>
  When the stream ends before the payload, \<open>websock_drop\<close> never
  returns: \<open>readv\<close> gives 0 at the end of the stream, which the loop takes for a progress.
\<close>

theorem websock_drop_never_returns:
  assumes "\<And>n. itf_readv itf s n = (0, [], s)" and "w_state ws = STATE_DATA" and "w_length ws \<noteq> 0"
  shows "websock_drop itf ws s = None"
proof (rule ccontr)
  assume "websock_drop itf ws s \<noteq> None"
  then obtain y where y: "websock_drop itf ws s = Some y" by blast
  have R: "websock_read itf ws s 0 8000 = (0, [], ws, s)"
    using assms(1,2) by (simp add: websock_read_def ws_read_def Let_def)
  have "\<not> (i = itf \<and> v = ws \<and> t = s)" if "websock_drop i v t = Some y" for i v t
    using that
  proof (rule websock_drop.raw_induct [where P = "\<lambda>i v t y. \<not> (i = itf \<and> v = ws \<and> t = s)", rotated])
    fix drop' :: "'a websock_itf \<Rightarrow> websock \<Rightarrow> 'a \<Rightarrow> (int \<times> websock \<times> 'a) option" and i v t y
    assume IH: "\<And>i v t y. drop' i v t = Some y \<Longrightarrow> \<not> (i = itf \<and> v = ws \<and> t = s)"
    assume B: "(if w_length v \<noteq> 0 then
        (case websock_read i v t 0 8000 of (rc, bs, ws, s) \<Rightarrow> if rc < 0 then Some (rc, ws, s) else drop' i ws s)
        else Some (0, v, t)) = Some y"
    show "\<not> (i = itf \<and> v = ws \<and> t = s)"
    proof
      assume "i = itf \<and> v = ws \<and> t = s"
      then have "drop' itf ws s = Some y" using B R assms(3) by simp
      then show False using IH by blast
    qed
  qed
  then show False using y by blast
qed

lemma websock_drop_never_returns_witness:
  "websock_drop list_itf ((the (websock_create_v13 1000 True))\<lparr>w_state := STATE_DATA, w_length := 5\<rparr>) [] = None"
  by (rule websock_drop_never_returns) (simp_all add: list_itf_def)

text \<open>A stream that gives all it has: its contents and what the closure is after a read.\<close>

definition stream_of :: "'s websock_itf \<Rightarrow> ('s \<Rightarrow> byte list) \<Rightarrow> bool" where
  "stream_of itf contents \<longleftrightarrow> (\<forall>s n. case itf_readv itf s n of (rc, bs, s') \<Rightarrow>
     bs = take (nat rc) (contents s) \<and> contents s' = drop (nat rc) (contents s) \<and> 0 \<le> rc \<and> rc \<le> int n
     \<and> rc \<le> int (length (contents s)) \<and> (0 < n \<and> contents s \<noteq> [] \<longrightarrow> 0 < rc))"

lemma stream_ofE:
  assumes "stream_of itf contents"
  obtains k s' where "itf_readv itf s n = (int k, take k (contents s), s')" "contents s' = drop k (contents s)"
    "k \<le> n" "k \<le> length (contents s)" "0 < n \<and> contents s \<noteq> [] \<longrightarrow> 0 < k"
proof -
  obtain rc bs s' where r: "itf_readv itf s n = (rc, bs, s')" by (cases "itf_readv itf s n")
  have "bs = take (nat rc) (contents s)" "contents s' = drop (nat rc) (contents s)" "0 \<le> rc" "rc \<le> int n"
     "rc \<le> int (length (contents s))" "0 < n \<and> contents s \<noteq> [] \<longrightarrow> 0 < rc"
    using assms r unfolding stream_of_def by (drule_tac spec [of _ s], drule_tac spec [of _ n], simp)+
  then show thesis using r by (intro that [of "nat rc" s']) auto
qed

text \<open>
  When the stream holds at least the payload that remains, \<open>websock_drop\<close> returns 0,
  with nothing left of the payload, and exactly the payload has been taken from the stream.
\<close>

theorem websock_drop_correct:
  assumes "stream_of itf contents" and "w_state ws = STATE_DATA" and "length (w_mask ws) = 4"
    and "unat (w_length ws) \<le> length (contents s)"
  shows "\<exists>ws' s'. websock_drop itf ws s = Some (0, ws', s') \<and> w_length ws' = 0 \<and> w_state ws' = STATE_DATA
    \<and> contents s' = drop (unat (w_length ws)) (contents s)"
  using assms(2-)
proof (induction "unat (w_length ws)" arbitrary: ws s rule: less_induct)
  case less
  show ?case
  proof (cases "w_length ws = 0")
    case False
    define n where "n = (if (8000 :: nat) > unat (w_length ws) then unat (w_length ws) else 8000)"
    have "0 < unat (w_length ws)" using False by (simp add: unat_gt_0)
    then have n: "0 < n" "n \<le> unat (w_length ws)" and ne: "contents s \<noteq> []" using less.prems(3) by (auto simp: n_def)
    obtain k s1 where k: "itf_readv itf s n = (int k, take k (contents s), s1)" "contents s1 = drop k (contents s)"
      "k \<le> n" "k \<le> length (contents s)" "0 < n \<and> contents s \<noteq> [] \<longrightarrow> 0 < k" using stream_ofE [OF assms(1), of s n] .
    have k0: "0 < k" using k(5) n(1) ne by simp
    define l where "l = w_length ws - word_of_int (int k)"
    have l: "unat l = unat (w_length ws) - k"
    proof -
      have "k < 2 ^ 64" 
      proof -
        have "unat (w_length ws) < 2 ^ LENGTH(64)" by (rule unsigned_less)
        then show ?thesis using k(3) n(2) by simp
      qed
      then have u: "unat (word_of_nat k :: 64 word) = k" by (simp add: unat_of_nat)
      have "word_of_nat k \<le> w_length ws" using k(3) n(2) by (simp add: word_le_nat_alt u)
      then show ?thesis unfolding l_def by (simp add: unat_sub u)
    qed
    obtain m bs where m: "length m = 4"
      "websock_read itf ws s 0 8000 = (int k, bs, ws\<lparr>w_length := l, w_mask := m\<rparr>, s1)"
    proof (cases "w_mask ws = [0, 0, 0, 0]")
      case True
      show thesis by (rule that [of "w_mask ws" "take k (contents s)"])
        (use True k(1) k0 less.prems(1,2) in \<open>simp_all add: websock_read_def ws_read_def Let_def l_def flip: n_def\<close>)
    next
      case False
      show thesis by (rule that [of "rotate (length (take k (contents s))) (w_mask ws)" "xor_mask (w_mask ws) (take k (contents s))"])
        (use False k(1) k0 less.prems(1,2) in \<open>simp_all add: websock_read_def ws_read_def Let_def l_def unmask_eq flip: n_def\<close>)
    qed
    let ?ws = "ws\<lparr>w_length := l, w_mask := m\<rparr>"
    have "\<exists>ws' s'. websock_drop itf ?ws s1 = Some (0, ws', s') \<and> w_length ws' = 0 \<and> w_state ws' = STATE_DATA
      \<and> contents s' = drop (unat (w_length ?ws)) (contents s1)"
      by (rule less.hyps) (use l k k0 n m(1) less.prems in \<open>simp_all add: diff_le_mono\<close>)
    then show ?thesis using False m(2) l k(2,3) n(2) by (subst websock_drop.simps) (simp add: add.commute)
  qed (use less.prems in \<open>simp add: websock_drop.simps\<close>)
qed

lemma list_itf_stream: "stream_of list_itf (\<lambda>s. s)"
  by (auto simp: stream_of_def list_itf_def min_def)

lemma websock_drop_correct_witness:
  "\<exists>ws' s'. websock_drop list_itf ((the (websock_create_v13 1000 True))\<lparr>w_state := STATE_DATA, w_length := 2\<rparr>) [7, 8, 9]
    = Some (0, ws', s') \<and> w_length ws' = 0 \<and> w_state ws' = STATE_DATA \<and> s' = [9]"
  using websock_drop_correct [OF list_itf_stream,
      of "(the (websock_create_v13 1000 True))\<lparr>w_state := STATE_DATA, w_length := 2\<rparr>" "[7, 8, 9]"]
  by (simp add: websock_create_v13_def)

subsection \<open>Receiving a frame\<close>

lemma read_header_stream:
  assumes "stream_of itf contents" and "w_lenhead ws \<le> w_szhead ws" and "w_szhead ws \<le> 14"
    and "length (w_header ws) = 14" and "take (w_lenhead ws) (w_header ws) @ contents s = all"
  obtains h n s' where "read_header itf ws s = Some (0, ws\<lparr>w_header := h, w_lenhead := n\<rparr>, s')"
    "length h = 14" "w_lenhead ws \<le> n" "n \<le> w_szhead ws" "take n h @ contents s' = all"
    "n < w_szhead ws \<and> contents s \<noteq> [] \<longrightarrow> length (contents s') < length (contents s)"
    "length (contents s') \<le> length (contents s)"
proof (cases "w_lenhead ws < w_szhead ws")
  case True
  let ?n = "w_szhead ws - w_lenhead ws"
  obtain k s' where k: "itf_readv itf s ?n = (int k, take k (contents s), s')" "contents s' = drop k (contents s)"
      "k \<le> ?n" "k \<le> length (contents s)" "0 < ?n \<and> contents s \<noteq> [] \<longrightarrow> 0 < k"
    using stream_ofE [OF assms(1), of s ?n] .
  let ?h = "overwrite (w_header ws) (w_lenhead ws) (take k (contents s))"
  have "take (w_lenhead ws + k) ?h @ contents s' = all"
    using k(2-4) assms(2-5) True by (simp add: overwrite_def min_def)
  then show thesis
    by (intro that [of "w_lenhead ws + k" ?h s'])
      (use k True assms(2-4) in \<open>auto simp: read_header_def ws_read_def\<close>)
next
  case False
  then show thesis using assms by (intro that [of "w_lenhead ws" "w_header ws" s]) (simp_all add: read_header_def)
qed

text \<open>
  The web socket in the middle of the header of a frame: the bytes already in the header and
  those that the stream still has are \<open>all\<close>.
\<close>

definition in_header :: "('s \<Rightarrow> byte list) \<Rightarrow> byte list \<Rightarrow> websock \<Rightarrow> 's \<Rightarrow> bool" where
  "in_header contents all ws s \<longleftrightarrow> websock_ok ws \<and>
     (case w_state ws of
        STATE_INIT \<Rightarrow> contents s = all
      | STATE_DATA \<Rightarrow> False
      | _ \<Rightarrow> take (w_lenhead ws) (w_header ws) @ contents s = all)"

definition data_opcode :: "byte \<Rightarrow> bool" where
  "data_opcode b \<longleftrightarrow> FRAME_GET_OPCODE b = OPCODE_CONTINUATION \<or> FRAME_GET_OPCODE b = OPCODE_TEXT \<or> FRAME_GET_OPCODE b = OPCODE_BINARY"

lemma prefix_nth: "take n h @ c = all \<Longrightarrow> n \<le> length h \<Longrightarrow> i < n \<Longrightarrow> h ! i = all ! i"
  by (auto simp: nth_append)

lemma wire_header_nth:
  "wire_header first sz key ! 0 = first"
  "wire_header first sz key ! 1 = (if key = None then short_length sz else short_length sz OR 128)"
  "2 \<le> length (wire_header first sz key)"
  by (simp_all add: wire_header_def)

lemma wire_header_ne [simp]: "wire_header first sz key \<noteq> []"
  by (simp add: wire_header_def)

lemma length_wire_header:
  "length (wire_header first sz key) = 2 + (if sz < 126 then 0 else if sz < 65536 then 2 else 8)
    + (case key of None \<Rightarrow> 0 | Some k \<Rightarrow> length k)"
  by (simp add: wire_header_def extended_length_def split: option.split)

lemma wire_header_get:
  "FRAME_GET_PAYLOAD_LEN (wire_header first sz key ! Suc 0) = (if sz < 126 then uint sz else if sz < 65536 then 126 else 127)"
  "FRAME_GET_MASK (wire_header first sz key ! Suc 0) = (if key = None then 0 else 1)"
  by (simp_all only: wire_header_nth(2) [unfolded One_nat_def] wire_length_byte)

lemma wire_header_size:
  assumes "data_opcode first" and "\<And>k. key = Some k \<Longrightarrow> length k = 4"
    and "h ! 0 = first" and "h ! 1 = wire_header first sz key ! 1"
  shows "header_size h = length (wire_header first sz key)"
proof -
  have "FRAME_GET_OPCODE (h ! 0) \<noteq> OPCODE_CLOSE" using assms(1,3) by (auto simp: data_opcode_def opcodes)
  moreover have "h ! Suc 0 = wire_header first sz key ! Suc 0" using assms(4) by simp
  moreover have "uint sz \<noteq> 127" "uint sz \<noteq> 126" if "sz < 126" using that by (simp_all add: word_less_def)
  ultimately show ?thesis using assms(2)
    by (auto simp: header_size_def wire_header_get length_wire_header split: option.split)
qed

lemma extended_length_decoded:
  assumes "take (length (wire_header first sz key)) h = wire_header first sz key" and "length h = 14"
  shows "header_length h = Some sz"
proof -
  let ?w = "wire_header first sz key"
  have h: "h = ?w @ drop (length ?w) h" using assms(1) by (metis append_take_drop_id)
  have N: "h ! i = ?w ! i" if "i < length ?w" for i by (subst h) (simp add: nth_append that)
  have P: "FRAME_GET_PAYLOAD_LEN (h ! 1) = (if sz < 126 then uint sz else if sz < 65536 then 126 else 127)"
    using N [of 1] wire_header_nth(3) [of first sz key] by (simp add: wire_header_get)
  have E: "h ! j = extended_length sz ! (j - 2)" if "2 \<le> j" "j < 2 + length (extended_length sz)" for j
  proof -
    define i where "i = j - 2"
    have j: "j = Suc (Suc i)" using that(1) by (simp add: i_def)
    then show ?thesis using N [of j] that(2) by (simp add: wire_header_def nth_append)
  qed
  consider "sz < 126" | "\<not> sz < 126" "sz < 65536" | "\<not> sz < 126" "\<not> sz < 65536" by blast
  then show ?thesis
  proof cases
    case 1
    then have "uint sz < 126" by (simp add: word_less_def)
    then show ?thesis using 1 P assms(2) by (simp add: header_length_def)
  next
    case 2
    then have "h ! 2 = FRAME_SET_LENGTH sz 1" "h ! 3 = FRAME_SET_LENGTH sz 0"
      using E [of 2] E [of 3] by (simp_all add: extended_length_def)
    then show ?thesis using 2 P assms(2) join_2 [of sz] by (simp add: header_length_def)
  next
    case 3
    then have "h ! 2 = FRAME_SET_LENGTH sz 7" "h ! 3 = FRAME_SET_LENGTH sz 6" "h ! 4 = FRAME_SET_LENGTH sz 5"
      "h ! 5 = FRAME_SET_LENGTH sz 4" "h ! 6 = FRAME_SET_LENGTH sz 3" "h ! 7 = FRAME_SET_LENGTH sz 2"
      "h ! 8 = FRAME_SET_LENGTH sz 1" "h ! 9 = FRAME_SET_LENGTH sz 0"
      using E [of 2] E [of 3] E [of 4] E [of 5] E [of 6] E [of 7] E [of 8] E [of 9]
      by (simp_all add: extended_length_def)
    then show ?thesis using 3 P assms(2) join_8 [of sz] by (simp add: header_length_def)
  qed
qed

lemma mask_decoded:
  assumes "take (length (wire_header first sz key)) (w_header ws) = wire_header first sz key"
    and "length (w_header ws) = 14" and "w_szhead ws = length (wire_header first sz key)" and "w_szhead ws \<le> 14"
    and "\<And>k. key = Some k \<Longrightarrow> length k = 4"
  shows "header_mask ws = Some (case key of None \<Rightarrow> [0, 0, 0, 0] | Some k \<Rightarrow> k)"
proof -
  let ?w = "wire_header first sz key"
  have h: "w_header ws = ?w @ drop (length ?w) (w_header ws)" using assms(1) by (metis append_take_drop_id)
  have N: "w_header ws ! i = ?w ! i" if "i < length ?w" for i by (subst h) (simp add: nth_append that)
  have M: "FRAME_GET_MASK (w_header ws ! 1) = (if key = None then 0 else 1)"
    using N [of 1] wire_header_nth(3) [of first sz key] by (simp add: wire_header_get)
  show ?thesis
  proof (cases key)
    case (Some k)
    have "\<exists>a b c d. k = [a, b, c, d]" using assms(5) [OF Some] by (simp only: four)
    then obtain a b c d where k: "k = [a, b, c, d]" by (elim exE)
    define p where "p = [first, short_length sz OR 128] @ extended_length sz"
    have w: "?w = p @ [a, b, c, d]" using Some k by (simp add: wire_header_def p_def)
    have "w_header ws ! (length p + i) = [a, b, c, d] ! i" if "i < 4" for i
      using N [of "length p + i"] that unfolding w by (simp add: nth_append_length_plus)
    from this [of 0] this [of 1] this [of 2] this [of 3]
    have "w_header ws ! length p = a" "w_header ws ! (length p + 1) = b" "w_header ws ! (length p + 2) = c"
      "w_header ws ! (length p + 3) = d" "w_header ws ! (3 + length p) = d" by (simp_all add: add.commute)
    moreover have "w_szhead ws = length p + 4" using assms(3) w by simp
    ultimately show ?thesis using M Some k assms(2,4) by (simp add: header_mask_def load_back_def load_def)
  qed (use M assms(2) in \<open>simp add: header_mask_def\<close>)
qed

text \<open>What a call that does not loop does for a frame of data: it stops for want of bytes, or calls back.\<close>

definition data_callback :: "'s websock_itf \<Rightarrow> byte \<Rightarrow> 64 word \<Rightarrow> 's callback" where
  "data_callback itf first sz =
     (if FRAME_GET_OPCODE first = OPCODE_CONTINUATION then itf_on_continue itf
      else if FRAME_GET_OPCODE first = OPCODE_TEXT then itf_on_text itf else itf_on_binary itf)
     (FRAME_GET_FIN first) (unat sz)"

definition frame_waits :: "('s \<Rightarrow> byte list) \<Rightarrow> byte list \<Rightarrow> websock \<Rightarrow> 's \<Rightarrow> websock \<Rightarrow> 's \<Rightarrow> bool" where
  "frame_waits contents all ws s ws' s' \<longleftrightarrow>
     in_header contents all ws' s' \<and> w_state ws' \<noteq> STATE_INIT \<and> w_maxlength ws' = w_maxlength ws \<and>
     length (contents s') \<le> length (contents s) \<and>
     (contents s \<noteq> [] \<longrightarrow> length (contents s') < length (contents s))"

definition frame_ready :: "('s \<Rightarrow> byte list) \<Rightarrow> 64 word \<Rightarrow> byte list option \<Rightarrow> byte list \<Rightarrow> websock \<Rightarrow> 's \<Rightarrow> bool" where
  "frame_ready contents sz key rest ws' s' \<longleftrightarrow>
     websock_ok ws' \<and> w_state ws' = STATE_DATA \<and> w_length ws' = sz \<and>
     w_mask ws' = (case key of None \<Rightarrow> [0, 0, 0, 0] | Some k \<Rightarrow> k) \<and> contents s' = rest"

definition plain_frame :: "byte \<Rightarrow> byte list option \<Rightarrow> bool" where
  "plain_frame first key \<longleftrightarrow> data_opcode first \<and> FRAME_GET_RSV1 first = 0 \<and> FRAME_GET_RSV2 first = 0 \<and> FRAME_GET_RSV3 first = 0
     \<and> (\<forall>k. key = Some k \<longrightarrow> length k = 4)"

lemma from_length_stream:
  assumes "stream_of itf contents" and "plain_frame first key" and "itf_on_extension itf = None"
    and "websock_ok ws" and "w_state ws = STATE_LENGTH" and "sz \<le> w_maxlength ws"
    and "take (w_lenhead ws) (w_header ws) @ contents s = wire_header first sz key @ rest"
  shows "(\<exists>ws' s'. from_length itf stack False ws s = Some (Return 0, ws', s') \<and>
      frame_waits contents (wire_header first sz key @ rest) ws s ws' s') \<or>
    (\<exists>ws' s'. from_length itf stack False ws s = Some (Return 0, data_callback itf first sz ws' s') \<and>
      frame_ready contents sz key rest ws' s')"
proof -
  let ?w = "wire_header first sz key"
  note ok = websock_okD(1-3,5) [OF assms(4)]
  have sz: "2 \<le> w_lenhead ws" "w_lenhead ws \<le> w_szhead ws" "w_szhead ws = header_size (w_header ws)"
    using ok(4) assms(5) by auto
  obtain h n s' where r: "read_header itf ws s = Some (0, ws\<lparr>w_header := h, w_lenhead := n\<rparr>, s')"
    "length h = 14" "w_lenhead ws \<le> n" "n \<le> w_szhead ws" "take n h @ contents s' = ?w @ rest"
    "n < w_szhead ws \<and> contents s \<noteq> [] \<longrightarrow> length (contents s') < length (contents s)"
    "length (contents s') \<le> length (contents s)"
    using read_header_stream [OF assms(1) sz(2) ok(3) ok(1) assms(7)] .
  let ?ws = "ws\<lparr>w_header := h, w_lenhead := n\<rparr>"
  have key: "length k = 4" if "key = Some k" for k using assms(2) that by (simp add: plain_frame_def)
  have D: "data_opcode first" using assms(2) by (simp add: plain_frame_def)
  have nth: "g ! 0 = first \<and> g ! 1 = ?w ! 1" if "take m g @ c = ?w @ rest" "m \<le> length g" "2 \<le> m" for g c m
    using prefix_nth [OF that(1,2), of 0] prefix_nth [OF that(1,2), of 1] that(3) wire_header_nth(1,3) [of first sz key]
    by (simp add: nth_append)
  have "header_size (w_header ws) = length ?w"
    using nth [OF assms(7)] sz ok(1,3) by (intro wire_header_size D key) auto
  then have W: "w_szhead ws = length ?w" using sz(3) by simp
  have h01: "h ! 0 = first" "h ! 1 = ?w ! 1" using nth [OF r(5)] r(2-4) sz(1) ok(3) by auto
  have hs: "header_size h = length ?w" using h01 by (intro wire_header_size D key) auto
  show ?thesis
  proof (cases "n < w_szhead ws")
    case True
    have "websock_ok ?ws" using ok r(2-4) sz(1) W hs assms(5) by (simp add: websock_ok_def)
    then have "frame_waits contents (?w @ rest) ws s ?ws s'"
      using r(5-7) True assms(5) by (simp add: frame_waits_def in_header_def)
    then show ?thesis using True by (simp add: from_length_def dispatch_length_def r(1))
  next
    case False
    then have n: "n = length ?w" using r(4) W by simp
    then have t: "take (length ?w) h = ?w" "contents s' = rest"
      using r(2,4,5) ok(3) by (simp_all add: append_eq_append_conv)
    let ?m = "case key of None \<Rightarrow> [0, 0, 0, 0] | Some k \<Rightarrow> k"
    let ?v = "?ws\<lparr>w_length := sz, w_mask := ?m, w_state := STATE_DATA\<rparr>"
    have M: "header_mask (?ws\<lparr>w_length := sz\<rparr>) = Some ?m"
      by (rule mask_decoded [where first = first and sz = sz]) (use t r(2) W ok(3) key in simp_all)
    have "FRAME_GET_OPCODE first \<noteq> OPCODE_CLOSE" using D by (auto simp: data_opcode_def opcodes)
    then have L: "dispatch_length itf ws s = Some (Next ?v s')"
      unfolding dispatch_length_def r(1)
      using n W r(2) h01(1) assms(6) M extended_length_decoded [OF t(1) r(2)] by (simp add: Let_def not_less)
    have "dispatch_data itf stack False ?v s' = Some (Return 0, data_callback itf first sz ?v s')"
      using assms(2,3) r(2) h01(1)
      by (auto simp: dispatch_data_def dispatch_frame_def Let_def plain_frame_def data_opcode_def data_callback_def
          unless_loop_def opcodes)
    then have "from_length itf stack False ws s = Some (Return 0, data_callback itf first sz ?v s')"
      by (simp add: from_length_def L)
    moreover have "frame_ready contents sz key rest ?v s'"
      using ok(3) r(2) t(2) n W key sz(1) r(3) by (auto simp: frame_ready_def websock_ok_def split: option.split)
    ultimately show ?thesis by blast
  qed
qed

lemma from_start_stream:
  assumes "stream_of itf contents" and "plain_frame first key" and "itf_on_extension itf = None"
    and "websock_ok ws" and "w_state ws = STATE_START" and "sz \<le> w_maxlength ws"
    and "take (w_lenhead ws) (w_header ws) @ contents s = wire_header first sz key @ rest"
  shows "(\<exists>ws' s'. from_start itf stack False ws s = Some (Return 0, ws', s') \<and>
      frame_waits contents (wire_header first sz key @ rest) ws s ws' s') \<or>
    (\<exists>ws' s'. from_start itf stack False ws s = Some (Return 0, data_callback itf first sz ws' s') \<and>
      frame_ready contents sz key rest ws' s')"
proof -
  let ?w = "wire_header first sz key"
  note ok = websock_okD(1-4) [OF assms(4)]
  have sz: "w_lenhead ws \<le> w_szhead ws" "w_szhead ws = 2" using ok(4) assms(5) by auto
  obtain h n s' where r: "read_header itf ws s = Some (0, ws\<lparr>w_header := h, w_lenhead := n\<rparr>, s')"
    "length h = 14" "w_lenhead ws \<le> n" "n \<le> w_szhead ws" "take n h @ contents s' = ?w @ rest"
    "n < w_szhead ws \<and> contents s \<noteq> [] \<longrightarrow> length (contents s') < length (contents s)"
    "length (contents s') \<le> length (contents s)"
    using read_header_stream [OF assms(1) sz(1) ok(3) ok(1) assms(7)] .
  let ?ws = "ws\<lparr>w_header := h, w_lenhead := n\<rparr>"
  show ?thesis
  proof (cases "n < 2")
    case True
    have "websock_ok ?ws" using ok r(2) True sz assms(5) by (simp add: websock_ok_def)
    then have "frame_waits contents (?w @ rest) ws s ?ws s'"
      using r(5-7) True sz assms(5) by (simp add: frame_waits_def in_header_def)
    then show ?thesis using True sz by (simp add: from_start_def dispatch_start_def r(1))
  next
    case False
    then have n: "n = 2" using r(4) sz by simp
    have D: "data_opcode first" "\<And>k. key = Some k \<Longrightarrow> length k = 4" using assms(2) by (simp_all add: plain_frame_def)
    have h01: "h ! 0 = first" "h ! 1 = ?w ! 1"
      using prefix_nth [OF r(5), of 0] prefix_nth [OF r(5), of 1] n r(2) wire_header_nth(1,3) [of first sz key]
      by (simp_all add: nth_append)
    let ?v = "?ws\<lparr>w_szhead := header_size h, w_state := STATE_LENGTH\<rparr>"
    have hs: "header_size h = length ?w" using h01 by (intro wire_header_size D) auto
    have "length ?w \<le> 14" using D(2) by (auto simp: length_wire_header split: option.split)
    then have V: "websock_ok ?v" using ok(2) r(2) n hs by (simp add: websock_ok_def wire_header_nth(3))
    have "FRAME_GET_OPCODE first \<noteq> OPCODE_CLOSE" "FRAME_GET_OPCODE first \<noteq> OPCODE_PING" "FRAME_GET_OPCODE first \<noteq> OPCODE_PONG"
      using D(1) by (auto simp: data_opcode_def opcodes)
    then have S: "dispatch_start itf ws s = Some (Next ?v s')"
      unfolding dispatch_start_def r(1) using n sz r(2) h01(1)
      by (simp add: Let_def grow_header_def header_size_def)
    have "from_start itf stack False ws s = from_length itf stack False ?v s'" by (simp add: from_start_def S)
    moreover have "frame_waits contents (?w @ rest) ws s ws'' s''" if "frame_waits contents (?w @ rest) ?v s' ws'' s''" for ws'' s''
      using that r(7) unfolding frame_waits_def by (cases "contents s' = []") auto
    moreover have "take (w_lenhead ?v) (w_header ?v) @ contents s' = ?w @ rest" using r(5) by simp
    ultimately show ?thesis
      using from_length_stream [OF assms(1-3) V, of sz s' rest stack] assms(6) by (simp; blast)
  qed
qed

text \<open>
  Property C25: a frame of data arriving in any pieces is delivered once and whole: as long as
  the stream does not give the whole header, a call returns 0 and keeps what it has read,
  taking something from a stream that is not empty; when the header is complete the callback
  of the operation is called with the announced size, the mask set to the masking key and the
  stream standing at the first byte of the payload.
\<close>

theorem websock_dispatch_data_frame:
  assumes "stream_of itf contents" and "plain_frame first key" and "itf_on_extension itf = None"
    and "sz \<le> w_maxlength ws" and "in_header contents (wire_header first sz key @ rest) ws s"
  shows "(\<exists>ws' s'. websock_dispatch itf stack False ws s = Some (0, ws', s') \<and>
      frame_waits contents (wire_header first sz key @ rest) ws s ws' s') \<or>
    (\<exists>ws' s'. websock_dispatch itf stack False ws s = Some (0, data_callback itf first sz ws' s') \<and>
      frame_ready contents sz key rest ws' s')"
proof -
  let ?all = "wire_header first sz key @ rest"
  have ok: "websock_ok ws" using assms(5) by (simp add: in_header_def)
  have R: "websock_dispatch itf stack False ws s = Some (0, r)"
    if "dispatch_turn itf stack False ws s = Some (Return 0, r)" for r
    using that by (cases r) (simp add: websock_dispatch.simps)
  have "(\<exists>ws' s'. dispatch_turn itf stack False ws s = Some (Return 0, ws', s') \<and> frame_waits contents ?all ws s ws' s') \<or>
    (\<exists>ws' s'. dispatch_turn itf stack False ws s = Some (Return 0, data_callback itf first sz ws' s') \<and>
      frame_ready contents sz key rest ws' s')"
  proof (cases "w_state ws")
    case STATE_INIT
    let ?v = "ws\<lparr>w_lenhead := 0, w_szhead := 2, w_state := STATE_START\<rparr>"
    have "websock_ok ?v" using ok by (simp add: websock_ok_def)
    moreover have "take (w_lenhead ?v) (w_header ?v) @ contents s = ?all" using assms(5) STATE_INIT by (simp add: in_header_def)
    moreover have "frame_waits contents ?all ws s = frame_waits contents ?all ?v s" by (simp add: frame_waits_def fun_eq_iff)
    ultimately show ?thesis
      using from_start_stream [OF assms(1-3), of ?v sz s rest stack] assms(4) STATE_INIT by (simp add: dispatch_turn_def)
  next
    case STATE_DATA
    then show ?thesis using assms(5) by (simp add: in_header_def)
  qed (use from_start_stream [OF assms(1-3) ok, of sz s rest stack] from_length_stream [OF assms(1-3) ok, of sz s rest stack]
      assms(4,5) in \<open>simp_all add: dispatch_turn_def in_header_def\<close>)
  then show ?thesis using R by blast
qed

lemma websock_dispatch_data_frame_witness:
  "let ws = the (websock_create_v13 1000 True); all = wire_header 0x81 3 (Some [1, 2, 3, 4]) @ [64, 64, 64] in
    (\<exists>ws' s'. websock_dispatch list_itf [] False ws all = Some (0, ws', s') \<and> frame_waits (\<lambda>s. s) all ws all ws' s') \<or>
    (\<exists>ws' s'. websock_dispatch list_itf [] False ws all = Some (0, data_callback list_itf 0x81 3 ws' s') \<and>
      frame_ready (\<lambda>s. s) 3 (Some [1, 2, 3, 4]) [64, 64, 64] ws' s')"
proof -
  let ?ws = "the (websock_create_v13 1000 True)" and ?all = "wire_header 0x81 3 (Some [1, 2, 3, 4]) @ [64, 64, 64]"
  have "plain_frame 0x81 (Some [1, 2, 3, 4])" by (simp add: plain_frame_def data_opcode_def opcodes FRAME_GETs)
  moreover have "in_header (\<lambda>s. s) ?all ?ws ?all" by (simp add: in_header_def websock_create_v13_def websock_ok_def)
  moreover have "3 \<le> w_maxlength ?ws" by (simp add: websock_create_v13_def)
  moreover have "itf_on_extension list_itf = None" by (simp add: list_itf_def)
  ultimately show ?thesis unfolding Let_def by (intro websock_dispatch_data_frame [OF list_itf_stream])
qed

subsection \<open>Reading the payload\<close>

lemma xor_mask_zero: "set m \<subseteq> {0} \<Longrightarrow> m \<noteq> [] \<Longrightarrow> xor_mask m bs = bs"
proof (induction bs arbitrary: m)
  case (Cons b bs)
  have "hd m = 0" using hd_in_set [OF Cons.prems(2)] Cons.prems(1) by blast
  then show ?case using Cons by (simp add: rotate1_is_Nil_conv)
qed simp

text \<open>
  Property C26: reading gives the bytes of the stream combined with the mask, and no more than
  the payload has: what it returns is the number of bytes, the remaining length
  decreases by it and the mask turns by it, so that the next read goes on at the right byte of the mask.
\<close>

theorem websock_read_correct:
  assumes "stream_of itf contents" and "websock_ok ws" and "w_state ws = STATE_DATA"
  shows "\<exists>k s'. k \<le> n \<and> k \<le> unat (w_length ws) \<and> k \<le> length (contents s) \<and> contents s' = drop k (contents s) \<and>
    (0 < n \<and> w_length ws \<noteq> 0 \<and> contents s \<noteq> [] \<longrightarrow> 0 < k) \<and>
    websock_read itf ws s a n =
      (int k, map (\<lambda>i. contents s ! i XOR w_mask ws ! (i mod 4)) [0..<k],
       ws\<lparr>w_length := w_length ws - of_nat k, w_mask := rotate k (w_mask ws)\<rparr>, s')"
proof -
  define n' where "n' = (if n > unat (w_length ws) then unat (w_length ws) else n)"
  obtain k s' where k: "itf_readv itf s n' = (int k, take k (contents s), s')" "contents s' = drop k (contents s)"
    "k \<le> n'" "k \<le> length (contents s)" "0 < n' \<and> contents s \<noteq> [] \<longrightarrow> 0 < k" using stream_ofE [OF assms(1), of s n'] .
  have m4: "length (w_mask ws) = 4" using websock_okD(2) [OF assms(2)] .
  then have ne: "w_mask ws \<noteq> []" by auto
  have X: "xor_mask (w_mask ws) (take k (contents s)) = map (\<lambda>i. contents s ! i XOR w_mask ws ! (i mod 4)) [0..<k]"
    by (rule nth_equalityI) (use k(4) m4 ne in \<open>simp_all add: xor_mask_nth\<close>)
  have Z: "xor_mask [0, 0, 0, 0] bs = bs" for bs by (rule xor_mask_zero) auto
  have Z4: "rotate k [0, 0, 0, 0 :: byte] = [0, 0, 0, 0]" by (induction k) simp_all
  have "websock_read itf ws s a n = (int k, xor_mask (w_mask ws) (take k (contents s)),
       ws\<lparr>w_length := w_length ws - of_nat k, w_mask := rotate k (w_mask ws)\<rparr>, s')"
  proof (cases "k = 0")
    case True
    then show ?thesis using k(1) assms(3) by (simp add: websock_read_def ws_read_def Let_def flip: n'_def)
  next
    case False
    have "ws\<lparr>w_length := l\<rparr> = ws\<lparr>w_length := l, w_mask := w_mask ws\<rparr>" for l by simp
    then show ?thesis using k(1,4) assms(3) False m4 Z Z4
      by (cases "w_mask ws = [0, 0, 0, 0]")
        (simp_all add: websock_read_def ws_read_def Let_def unmask_eq flip: n'_def)
  qed
  moreover have "k \<le> n" "k \<le> unat (w_length ws)" using k(3) by (auto simp: n'_def split: if_splits)
  moreover have "0 < n \<and> w_length ws \<noteq> 0 \<and> contents s \<noteq> [] \<longrightarrow> 0 < k" using k(5) by (auto simp: n'_def unat_gt_0)
  ultimately show ?thesis using k(2,4) unfolding X by (intro exI [of _ k] exI [of _ s']) simp
qed

lemma websock_read_correct_witness:
  "\<exists>k s'. k \<le> 2 \<and> k \<le> unat (3 :: 64 word) \<and> k \<le> length [7, 8, 9 :: byte] \<and> s' = drop k [7, 8, 9] \<and>
    ((0 :: nat) < 2 \<and> (3 :: 64 word) \<noteq> 0 \<and> [7, 8, 9 :: byte] \<noteq> [] \<longrightarrow> 0 < k) \<and>
    websock_read list_itf \<lparr>w_state = STATE_DATA, w_maxlength = 10, w_lenhead = 6, w_szhead = 6, w_length = 3,
        w_mask = [1, 2, 3, 4], w_header = replicate 14 0\<rparr> [7, 8, 9] 1 2 =
      (int k, map (\<lambda>i. [7, 8, 9] ! i XOR [1, 2, 3, 4] ! (i mod 4)) [0..<k],
       \<lparr>w_state = STATE_DATA, w_maxlength = 10, w_lenhead = 6, w_szhead = 6, w_length = 3 - of_nat k,
        w_mask = rotate k [1, 2, 3, 4], w_header = replicate 14 0\<rparr>, s')"
proof -
  let ?ws = "\<lparr>w_state = STATE_DATA, w_maxlength = 10, w_lenhead = 6, w_szhead = 6, w_length = 3,
        w_mask = [1, 2, 3, 4], w_header = replicate 14 0\<rparr>"
  have "websock_ok ?ws" by (simp add: websock_ok_def)
  from websock_read_correct [OF list_itf_stream this, of 2 "[7, 8, 9]" 1]
  show ?thesis by simp
qed

subsection \<open>Close frames\<close>

text \<open>
  Property C27: what a close frame is read as, its two bytes of code being
  \<open>hi\<close> and \<open>lo\<close> on the wire. Without masking key the callback gets
  the code, but gets \<open>WEBSOCKET_CODE_NOT_SET\<close> when the code comes without a reason. With a masking key,
  that all clients use, the code is not unmasked, and the mask kept for the reason is not
  the key: it is the second half of it and the two bytes of the code.
\<close>

theorem websock_close_frame:
  assumes "2 \<le> sz" and "sz \<le> 125" and "key = [] \<or> length key = 4"
    and "w_header ws = [0x88, (if key = [] then ucast sz else ucast sz OR 128)] @ key @ [hi, lo] @ pad"
    and "length (w_header ws) = 14" and "w_szhead ws = 4 + length key" and "w_lenhead ws = w_szhead ws"
    and "sz \<le> w_maxlength ws"
  shows "\<exists>ws'. dispatch_length itf ws s = Some (Next ws' s) \<and> w_state ws' = STATE_DATA \<and> w_length ws' = (sz :: 64 word) - 2 \<and>
    w_mask ws' = (if key = [] then [0, 0, 0, 0] else [key ! 2, key ! 3, hi, lo]) \<and>
    close_code ws' = Some (if sz = 2 then WEBSOCKET_CODE_NOT_SET else push_bit 8 (ucast hi) OR ucast lo)"
proof -
  have s126: "sz < 126" using assms(2) word_le_less_eq by (simp add: word_less_nat_alt word_le_nat_alt)
  then have u: "uint sz < 126" by (simp add: word_less_def)
  have h1: "w_header ws ! Suc 0 = wire_header 0x88 sz (if key = [] then None else Some key) ! Suc 0"
    using assms(4) s126 by (simp add: wire_header_nth(2) [unfolded One_nat_def] short_length_def)
  have G: "FRAME_GET_PAYLOAD_LEN (w_header ws ! Suc 0) = uint sz"
    "FRAME_GET_MASK (w_header ws ! Suc 0) = (if key = [] then 0 else 1)"
    using s126 unfolding h1 wire_header_get by simp_all
  have O: "FRAME_GET_OPCODE (w_header ws ! 0) = OPCODE_CLOSE" using assms(4) by (simp add: FRAME_GETs opcodes)
  have L: "header_length (w_header ws) = Some sz" using G u assms(5) by (simp add: header_length_def)
  have sub: "sz - 2 \<le> w_maxlength ws" "sz \<noteq> 0" "sz - 2 = 0 \<longleftrightarrow> sz = 2"
    using assms(1,8) by (auto simp: word_le_nat_alt unat_sub) 
  let ?v = "ws\<lparr>w_length := sz - 2\<rparr>"
  consider "key = []" | a b c d where "key = [a, b, c, d]" using assms(3) four by metis
  then show ?thesis
  proof cases
    case 1
    have M: "header_mask ?v = Some [0, 0, 0, 0]" using 1 G(2) assms(5) by (simp add: header_mask_def)
    show ?thesis using 1 assms(4-7) sub L O M
      by (simp add: dispatch_length_def read_header_def Let_def not_less close_code_def load_back_def)
  next
    case 2
    have M: "header_mask ?v = Some [c, d, hi, lo]"
      using 2 G(2) assms(4-6) by (simp add: header_mask_def load_back_def)
    show ?thesis using 2 assms(4-7) sub L O M
      by (simp add: dispatch_length_def read_header_def Let_def not_less close_code_def load_back_def)
  qed
qed

lemma websock_close_frame_witness:
  "\<exists>ws'. dispatch_length list_itf \<lparr>w_state = STATE_LENGTH, w_maxlength = 1000, w_lenhead = 8, w_szhead = 8, w_length = 0,
        w_mask = [0, 0, 0, 0], w_header = [0x88, 0x85, 1, 2, 3, 4, 2, 0xEA, 0, 0, 0, 0, 0, 0]\<rparr> [] = Some (Next ws' []) \<and>
    w_mask ws' = [3, 4, 2, 0xEA] \<and> close_code ws' = Some 0x02EA"
proof -
  let ?ws = "\<lparr>w_state = STATE_LENGTH, w_maxlength = 1000, w_lenhead = 8, w_szhead = 8, w_length = 0,
        w_mask = [0, 0, 0, 0], w_header = [0x88, 0x85, 1, 2, 3, 4, 2, 0xEA, 0, 0, 0, 0, 0, 0]\<rparr>"
  show ?thesis
    using websock_close_frame [where sz = 5 and key = "[1, 2, 3, 4]" and ws = ?ws and hi = 2
        and lo = "0xEA" and pad = "[0, 0, 0, 0, 0, 0]" and itf = list_itf and s = "[]"] by auto
qed

end
