(* ===== verification/Ws.thy ===== *)
theory Ws
  imports Websock
begin

unbundle bit_operations_syntax

text \<open>
  \<open>src/sandbox/ws.c\<close>: the frames of the web socket protocol on buffers that are
  handed over. Received bytes come in allocated buffers; the callbacks get pointers into them
  and release them later; a count of uses decides when a buffer is freed.

  The fields of the header bytes and the spelling of a length are those of
  \<open>websock.c\<close>, defined in the theory Websock: the macros of the two files are the same.
\<close>

subsection \<open>Data\<close>

text \<open>A buffer is an address and a size; the address 0 is \<open>NULL\<close>.\<close>

type_synonym x_buf = "nat \<times> nat"

record ws_data =
  s_state :: ws_state
  s_maxlength :: "64 word"
  s_lenhead :: nat
  s_szhead :: nat
  s_length :: "64 word"
  s_mask :: "byte list"
  s_bufs :: "x_buf list"
  s_uses :: "32 word list"
  s_header :: "byte list"

text \<open>The structure, the memory of the process, the addresses given to \<open>free\<close>, and the client.\<close>

record 's world =
  wo_ws :: ws_data
  wo_mem :: "nat \<Rightarrow> byte"
  wo_freed :: "nat list"
  wo_client :: 's

type_synonym 's wcallback = "x_buf \<Rightarrow> 's world \<Rightarrow> 's world"

record 's ws_itf =
  wi_writev :: "'s world \<Rightarrow> byte list list \<Rightarrow> int \<times> int \<times> 's world"
  wi_on_ping :: "'s wcallback option"
  wi_on_pong :: "'s wcallback option"
  wi_on_close :: "16 word \<Rightarrow> 's wcallback"
  wi_on_text :: "int \<Rightarrow> 's wcallback"
  wi_on_binary :: "int \<Rightarrow> 's wcallback"
  wi_on_continue :: "int \<Rightarrow> 's wcallback"
  wi_on_extension :: "(int \<Rightarrow> x_buf \<Rightarrow> int \<Rightarrow> int \<Rightarrow> 's world \<Rightarrow> bool \<times> 's world) option"
  wi_on_error :: "(16 word \<Rightarrow> byte list \<Rightarrow> 's world \<Rightarrow> 's world) option"

abbreviation upd_ws :: "(ws_data \<Rightarrow> ws_data) \<Rightarrow> 's world \<Rightarrow> 's world" where
  "upd_ws \<equiv> wo_ws_update"

definition WS_BUFS_COUNT :: nat where "WS_BUFS_COUNT = 4"

definition X_EMSGSIZE :: int where "X_EMSGSIZE = - 90"

definition FRAME_GET_RSV123 :: "byte \<Rightarrow> int" where "FRAME_GET_RSV123 b = drop_bit 4 (uint b) AND 7"

text \<open>A byte can be read when it is in a buffer in use.\<close>

definition in_use :: "ws_data \<Rightarrow> nat \<Rightarrow> bool" where
  "in_use ws a \<longleftrightarrow> (\<exists>i < length (s_bufs ws). s_uses ws ! i \<noteq> 0 \<and>
     fst (s_bufs ws ! i) \<le> a \<and> a < fst (s_bufs ws ! i) + snd (s_bufs ws ! i))"

definition fetch :: "'s world \<Rightarrow> nat \<Rightarrow> byte option" where
  "fetch w a = (if in_use (wo_ws w) a then Some (wo_mem w a) else None)"

subsection \<open>Unmasking in memory\<close>

fun mask_unaligned :: "byte list \<Rightarrow> (nat \<Rightarrow> byte) \<Rightarrow> nat \<Rightarrow> nat \<Rightarrow> byte list \<times> (nat \<Rightarrow> byte) \<times> nat \<times> nat" where
  "mask_unaligned m mem b 0 = (m, mem, b, 0)"
| "mask_unaligned m mem b (Suc n) =
     (if b mod 4 \<noteq> 0 then mask_unaligned (turn_mask m) (mem(b := mem b XOR m ! 0)) (b + 1) n
      else (m, mem, b, Suc n))"

fun mask_words :: "byte list \<Rightarrow> (nat \<Rightarrow> byte) \<Rightarrow> nat \<Rightarrow> nat \<Rightarrow> (nat \<Rightarrow> byte) \<times> nat \<times> nat" where
  "mask_words m mem b n =
     (if 4 \<le> n then
        mask_words m (mem(b := mem b XOR m ! 0, b + 1 := mem (b + 1) XOR m ! 1,
          b + 2 := mem (b + 2) XOR m ! 2, b + 3 := mem (b + 3) XOR m ! 3)) (b + 4) (n - 4)
      else (mem, b, n))"

declare mask_words.simps [simp del]

fun mask_rest :: "byte list \<Rightarrow> (nat \<Rightarrow> byte) \<Rightarrow> nat \<Rightarrow> nat \<Rightarrow> byte list \<times> (nat \<Rightarrow> byte)" where
  "mask_rest m mem b 0 = (m, mem)"
| "mask_rest m mem b (Suc n) = mask_rest (turn_mask m) (mem(b := mem b XOR m ! 0)) (b + 1) n"

definition ws_unmask :: "byte list \<Rightarrow> (nat \<Rightarrow> byte) \<Rightarrow> nat \<Rightarrow> nat \<Rightarrow> byte list \<times> (nat \<Rightarrow> byte)" where
  "ws_unmask m mem b n =
     (let (m, mem, b, n) = mask_unaligned m mem b n; (mem, b, n) = mask_words m mem b n in mask_rest m mem b n)"

subsection \<open>Sending\<close>

definition ws_frame_header :: "byte \<Rightarrow> 64 word \<Rightarrow> byte list" where
  "ws_frame_header first sz =
     first #
     (if sz < 126 then [FRAME_SET_LENGTH sz 0]
      else
        (if sz < 65536 then [126]
         else [127, FRAME_SET_LENGTH sz 7, FRAME_SET_LENGTH sz 6, FRAME_SET_LENGTH sz 5,
               FRAME_SET_LENGTH sz 4, FRAME_SET_LENGTH sz 3, FRAME_SET_LENGTH sz 2])
        @ [FRAME_SET_LENGTH sz 1, FRAME_SET_LENGTH sz 0])"

fun ws_gather :: "byte list list \<Rightarrow> byte list list \<times> 64 word" where
  "ws_gather [] = ([], 0)"
| "ws_gather (v # vs) =
     (let (bufs, sz) = ws_gather vs in
      if v \<noteq> [] then (v # bufs, word_of_nat (length v) + sz) else (bufs, sz))"

definition ws_send_internal_v ::
  "'s ws_itf \<Rightarrow> 's world \<Rightarrow> byte \<Rightarrow> byte list list \<Rightarrow> int \<Rightarrow> (int \<times> 's world) option" where
  "ws_send_internal_v itf w first bufs count =
     (if count < 0 \<or> count + 1 > 32 then Some (X_EINVAL, w)
      else if nat count \<le> length bufs then
        let (locbufs, sz) = ws_gather (take (nat count) bufs);
            (rc, errno, w) = wi_writev itf w (ws_frame_header first sz # locbufs) in
        Some (if rc < 0 then - errno else 0, w)
      else None)"

definition ws_send_internal :: "'s ws_itf \<Rightarrow> 's world \<Rightarrow> byte \<Rightarrow> byte list \<Rightarrow> (int \<times> 's world) option" where
  "ws_send_internal itf w first buffer = ws_send_internal_v itf w first [buffer] 1"

definition ws_frame_first :: "int \<Rightarrow> int \<Rightarrow> int \<Rightarrow> byte" where
  "ws_frame_first fin rsv123 opcode =
     word_of_int (push_bit 7 (fin AND 1) OR push_bit 4 (rsv123 AND 7) OR (opcode AND 15))"

definition ws_send_v ::
  "'s ws_itf \<Rightarrow> 's world \<Rightarrow> int \<Rightarrow> int \<Rightarrow> int \<Rightarrow> byte list list \<Rightarrow> int \<Rightarrow> (int \<times> 's world) option" where
  "ws_send_v itf w fin rsv123 opcode bufs count = ws_send_internal_v itf w (ws_frame_first fin rsv123 opcode) bufs count"

definition ws_send :: "'s ws_itf \<Rightarrow> 's world \<Rightarrow> int \<Rightarrow> int \<Rightarrow> int \<Rightarrow> byte list \<Rightarrow> (int \<times> 's world) option" where
  "ws_send itf w fin rsv123 opcode buffer = ws_send_internal itf w (ws_frame_first fin rsv123 opcode) buffer"

definition ws_close :: "'s ws_itf \<Rightarrow> 's world \<Rightarrow> 16 word \<Rightarrow> byte list \<Rightarrow> (int \<times> 's world) option" where
  "ws_close itf w code data =
     (if code = WEBSOCKET_CODE_NOT_SET \<and> length data = 0 then ws_send itf w 1 0 OPCODE_CLOSE []
      else if length data > 123 then Some (X_EINVAL, w)
      else ws_send_v itf w 1 0 OPCODE_CLOSE
        [[ucast (drop_bit 8 code AND 0xFF), ucast (code AND 0xFF)], data] 2)"

definition ws_close_empty :: "'s ws_itf \<Rightarrow> 's world \<Rightarrow> (int \<times> 's world) option" where
  "ws_close_empty itf w = ws_close itf w WEBSOCKET_CODE_NOT_SET []"

definition ws_ping :: "'s ws_itf \<Rightarrow> 's world \<Rightarrow> byte list \<Rightarrow> (int \<times> 's world) option" where
  "ws_ping itf w data = (if length data > 125 then Some (X_EINVAL, w) else ws_send itf w 1 0 OPCODE_PING data)"

definition ws_pong :: "'s ws_itf \<Rightarrow> 's world \<Rightarrow> byte list \<Rightarrow> (int \<times> 's world) option" where
  "ws_pong itf w data = (if length data > 125 then Some (X_EINVAL, w) else ws_send itf w 1 0 OPCODE_PONG data)"

definition ws_text :: "'s ws_itf \<Rightarrow> 's world \<Rightarrow> int \<Rightarrow> byte list \<Rightarrow> (int \<times> 's world) option" where
  "ws_text itf w fin data = ws_send itf w fin 0 OPCODE_TEXT data"

definition ws_text_v :: "'s ws_itf \<Rightarrow> 's world \<Rightarrow> int \<Rightarrow> byte list list \<Rightarrow> int \<Rightarrow> (int \<times> 's world) option" where
  "ws_text_v itf w fin bufs count = ws_send_v itf w fin 0 OPCODE_TEXT bufs count"

definition ws_binary :: "'s ws_itf \<Rightarrow> 's world \<Rightarrow> int \<Rightarrow> byte list \<Rightarrow> (int \<times> 's world) option" where
  "ws_binary itf w fin data = ws_send itf w fin 0 OPCODE_BINARY data"

definition ws_binary_v :: "'s ws_itf \<Rightarrow> 's world \<Rightarrow> int \<Rightarrow> byte list list \<Rightarrow> int \<Rightarrow> (int \<times> 's world) option" where
  "ws_binary_v itf w fin bufs count = ws_send_v itf w fin 0 OPCODE_BINARY bufs count"

definition ws_continue :: "'s ws_itf \<Rightarrow> 's world \<Rightarrow> int \<Rightarrow> byte list \<Rightarrow> (int \<times> 's world) option" where
  "ws_continue itf w fin data = ws_send itf w fin 0 OPCODE_CONTINUATION data"

definition ws_continue_v :: "'s ws_itf \<Rightarrow> 's world \<Rightarrow> int \<Rightarrow> byte list list \<Rightarrow> int \<Rightarrow> (int \<times> 's world) option" where
  "ws_continue_v itf w fin bufs count = ws_send_v itf w fin 0 OPCODE_CONTINUATION bufs count"

definition ws_error :: "'s ws_itf \<Rightarrow> 's world \<Rightarrow> 16 word \<Rightarrow> byte list \<Rightarrow> (int \<times> 's world) option" where
  "ws_error itf w code data = do {
     (rc, w) \<leftarrow> ws_close itf w code data;
     Some (rc, case wi_on_error itf of None \<Rightarrow> w | Some f \<Rightarrow> f code data w)
   }"

subsection \<open>The buffers and their uses\<close>

text \<open>The last slot that is not in use takes the buffer.\<close>

fun addbuf_loop :: "nat \<Rightarrow> 's world \<Rightarrow> x_buf \<Rightarrow> int \<times> 's world" where
  "addbuf_loop 0 w buf = (X_EBUSY, w)"
| "addbuf_loop (Suc i) w buf =
     (if s_uses (wo_ws w) ! i = 0 then
        (int i, upd_ws (\<lambda>ws. ws\<lparr>s_uses := (s_uses ws)[i := 1], s_bufs := (s_bufs ws)[i := buf]\<rparr>) w)
      else addbuf_loop i w buf)"

definition addbuf :: "'s world \<Rightarrow> x_buf \<Rightarrow> int \<times> 's world" where
  "addbuf w buf = addbuf_loop WS_BUFS_COUNT w buf"

definition getbuf :: "'s world \<Rightarrow> nat \<Rightarrow> 's world" where
  "getbuf w i = upd_ws (\<lambda>ws. ws\<lparr>s_uses := (s_uses ws)[i := s_uses ws ! i + 1]\<rparr>) w"

definition putbuf :: "'s world \<Rightarrow> nat \<Rightarrow> 's world" where
  "putbuf w i =
     (let w = upd_ws (\<lambda>ws. ws\<lparr>s_uses := (s_uses ws)[i := s_uses ws ! i - 1]\<rparr>) w in
      if s_uses (wo_ws w) ! i = 0 then w\<lparr>wo_freed := fst (s_bufs (wo_ws w) ! i) # wo_freed w\<rparr> else w)"

fun putbufat_loop :: "nat \<Rightarrow> 's world \<Rightarrow> nat \<Rightarrow> 's world" where
  "putbufat_loop 0 w ptr = w"
| "putbufat_loop (Suc i) w ptr =
     (if s_uses (wo_ws w) ! i \<noteq> 0 \<and> fst (s_bufs (wo_ws w) ! i) \<le> ptr \<and>
         ptr < fst (s_bufs (wo_ws w) ! i) + snd (s_bufs (wo_ws w) ! i)
      then putbuf w i else putbufat_loop i w ptr)"

definition putbufat :: "'s world \<Rightarrow> nat \<Rightarrow> 's world" where
  "putbufat w ptr = putbufat_loop WS_BUFS_COUNT w ptr"

definition ws_release :: "'s world \<Rightarrow> x_buf \<Rightarrow> 's world" where
  "ws_release w buf = putbufat w (fst buf)"

subsection \<open>Dispatching\<close>

text \<open>
  How a turn of the loop ends, after which \<open>b\<close> and \<open>n\<close> are the pointer
  and the count of bytes left.
\<close>

datatype wout = Turn | Finish | Too_long | Protocol_put | Protocol

text \<open>Reading header bytes; the result tells if the header is complete.\<close>

fun fill_header :: "'s world \<Rightarrow> nat \<Rightarrow> nat \<Rightarrow> (bool \<times> 's world \<times> nat \<times> nat) option" where
  "fill_header w b 0 = Some (s_szhead (wo_ws w) \<le> s_lenhead (wo_ws w), w, b, 0)"
| "fill_header w b (Suc n) =
     (if s_lenhead (wo_ws w) < s_szhead (wo_ws w) then do {
        c \<leftarrow> fetch w b;
        h \<leftarrow> store (s_header (wo_ws w)) (s_lenhead (wo_ws w)) c;
        fill_header (upd_ws (\<lambda>ws. ws\<lparr>s_header := h, s_lenhead := s_lenhead ws + 1\<rparr>) w) (b + 1) n
      }
      else Some (True, w, b, Suc n))"

definition ws_control_ok :: "byte list \<Rightarrow> bool option" where
  "ws_control_ok h = do {
     h0 \<leftarrow> load h 0;
     h1 \<leftarrow> load h 1;
     Some (\<not> (FRAME_GET_OPCODE h0 = OPCODE_CLOSE \<or> FRAME_GET_OPCODE h0 = OPCODE_PING \<or> FRAME_GET_OPCODE h0 = OPCODE_PONG)
       \<or> FRAME_GET_RSV123 h0 = 0 \<and> FRAME_GET_PAYLOAD_LEN h1 \<le> 125)
   }"

definition ws_grow_header :: "ws_data \<Rightarrow> ws_data option" where
  "ws_grow_header ws = do {
     h1 \<leftarrow> load (s_header ws) 1;
     let n = s_szhead ws + (if FRAME_GET_PAYLOAD_LEN h1 = 127 then 8 else if FRAME_GET_PAYLOAD_LEN h1 = 126 then 2 else 0);
     Some (ws\<lparr>s_szhead := n + (if FRAME_GET_MASK h1 \<noteq> 0 then 4 else 0), s_state := STATE_LENGTH\<rparr>)
   }"

definition ws_header_mask :: "ws_data \<Rightarrow> byte list option" where
  "ws_header_mask ws = do {
     h1 \<leftarrow> load (s_header ws) 1;
     if FRAME_GET_MASK h1 \<noteq> 0 then
       if 4 \<le> s_szhead ws then do {
         m0 \<leftarrow> load (s_header ws) (s_szhead ws - 4);
         m1 \<leftarrow> load (s_header ws) (s_szhead ws - 3);
         m2 \<leftarrow> load (s_header ws) (s_szhead ws - 2);
         m3 \<leftarrow> load (s_header ws) (s_szhead ws - 1);
         Some [m0, m1, m2, m3]
       }
       else None
     else Some [0, 0, 0, 0]
   }"

text \<open>The callback of the operation, on the buffer \<open>buf\<close>.\<close>

definition ws_on_close :: "'s ws_itf \<Rightarrow> x_buf \<Rightarrow> 's world \<Rightarrow> (wout \<times> 's world) option" where
  "ws_on_close itf buf w =
     (if snd buf = 0 then Some (Finish, wi_on_close itf WEBSOCKET_CODE_NOT_SET buf w)
      else if snd buf = 1 then Some (Protocol, w)
      else do {
        b0 \<leftarrow> fetch w (fst buf);
        b1 \<leftarrow> fetch w (fst buf + 1);
        Some (Finish, wi_on_close itf (push_bit 8 (ucast b0) OR ucast b1) (fst buf + 2, snd buf - 2) w)
      })"

definition ws_handle :: "'s ws_itf \<Rightarrow> int \<Rightarrow> byte \<Rightarrow> x_buf \<Rightarrow> 's world \<Rightarrow> (wout \<times> 's world) option" where
  "ws_handle itf fin h0 buf w =
     (let op = FRAME_GET_OPCODE h0 in
      if op = OPCODE_CONTINUATION then Some (Turn, wi_on_continue itf fin buf w)
      else if op = OPCODE_TEXT then Some (Turn, wi_on_text itf fin buf w)
      else if op = OPCODE_BINARY then Some (Turn, wi_on_binary itf fin buf w)
      else if op = OPCODE_CLOSE then if fin = 0 then Some (Protocol_put, w) else ws_on_close itf buf w
      else if op = OPCODE_PING then
        if fin = 0 then Some (Protocol_put, w)
        else (case wi_on_ping itf of
            Some f \<Rightarrow> Some (Turn, f buf w)
          | None \<Rightarrow> map_option (\<lambda>(rc, w). (Turn, w)) (ws_pong itf w (map (wo_mem w) [fst buf..<fst buf + snd buf])))
      else if op = OPCODE_PONG then
        if fin = 0 then Some (Protocol_put, w)
        else Some (Turn, case wi_on_pong itf of Some f \<Rightarrow> f buf w | None \<Rightarrow> w)
      else Some (Protocol_put, w))"

text \<open>\<open>STATE_DATA\<close>; the pointer is not moved.\<close>

definition ws_dispatch_data :: "'s ws_itf \<Rightarrow> nat \<Rightarrow> 's world \<Rightarrow> nat \<Rightarrow> nat \<Rightarrow> (wout \<times> 's world \<times> nat \<times> nat) option" where
  "ws_dispatch_data itf ibuf w b n =
     (let ws = wo_ws w; base = (if s_length ws \<noteq> 0 then b else 0); whole = (unat (s_length ws) \<le> n) in do {
        h0 \<leftarrow> load (s_header ws) 0;
        let (fin, len) = (if whole then (FRAME_GET_FIN h0, unat (s_length ws)) else (0, n));
        let w = (if whole then upd_ws (\<lambda>ws. ws\<lparr>s_state := STATE_INIT\<rparr>) w else w);
        let n = n - len;
        let w = (if s_mask ws \<noteq> [0, 0, 0, 0]
                 then let (m, mem) = ws_unmask (s_mask ws) (wo_mem w) base len in
                   upd_ws (\<lambda>ws. ws\<lparr>s_mask := m\<rparr>) (w\<lparr>wo_mem := mem\<rparr>)
                 else w);
        let w = getbuf w ibuf;
        let (taken, w) = (case wi_on_extension itf of
            None \<Rightarrow> (False, w)
          | Some f \<Rightarrow> f fin (base, len) (FRAME_GET_RSV123 h0) (FRAME_GET_OPCODE h0) w);
        if taken then Some (Turn, w, b, n)
        else do {
          h0 \<leftarrow> load (s_header (wo_ws w)) 0;
          if FRAME_GET_RSV123 h0 \<noteq> 0 then Some (Protocol_put, w, b, n)
          else map_option (\<lambda>(out, w). (out, w, b, n)) (ws_handle itf fin h0 (base, len) w)
        }
      })"

definition ws_from_length :: "'s ws_itf \<Rightarrow> nat \<Rightarrow> 's world \<Rightarrow> nat \<Rightarrow> nat \<Rightarrow> (wout \<times> 's world \<times> nat \<times> nat) option" where
  "ws_from_length itf ibuf w b n = do {
     (full, w, b, n) \<leftarrow> fill_header w b n;
     if \<not> full then Some (Finish, w, b, n)
     else do {
       len \<leftarrow> header_length (s_header (wo_ws w));
       let w = upd_ws (\<lambda>ws. ws\<lparr>s_length := len\<rparr>) w;
       if len > s_maxlength (wo_ws w) then Some (Too_long, w, b, n)
       else do {
         m \<leftarrow> ws_header_mask (wo_ws w);
         ws_dispatch_data itf ibuf (upd_ws (\<lambda>ws. ws\<lparr>s_mask := m, s_state := STATE_DATA\<rparr>) w) b n
       }
     }
   }"

definition ws_from_start :: "'s ws_itf \<Rightarrow> nat \<Rightarrow> 's world \<Rightarrow> nat \<Rightarrow> nat \<Rightarrow> (wout \<times> 's world \<times> nat \<times> nat) option" where
  "ws_from_start itf ibuf w b n = do {
     (full, w, b, n) \<leftarrow> fill_header w b n;
     if \<not> full then Some (Finish, w, b, n)
     else do {
       ok \<leftarrow> ws_control_ok (s_header (wo_ws w));
       if \<not> ok then Some (Protocol, w, b, n)
       else do {
         ws \<leftarrow> ws_grow_header (wo_ws w);
         ws_from_length itf ibuf (w\<lparr>wo_ws := ws\<rparr>) b n
       }
     }
   }"

definition ws_turn :: "'s ws_itf \<Rightarrow> nat \<Rightarrow> 's world \<Rightarrow> nat \<Rightarrow> nat \<Rightarrow> (wout \<times> 's world \<times> nat \<times> nat) option" where
  "ws_turn itf ibuf w b n =
     (case s_state (wo_ws w) of
        STATE_INIT \<Rightarrow> ws_from_start itf ibuf
          (upd_ws (\<lambda>ws. ws\<lparr>s_lenhead := 0, s_szhead := 2, s_state := STATE_START\<rparr>) w) b n
      | STATE_START \<Rightarrow> ws_from_start itf ibuf w b n
      | STATE_LENGTH \<Rightarrow> ws_from_length itf ibuf w b n
      | STATE_DATA \<Rightarrow> ws_dispatch_data itf ibuf w b n)"

partial_function (option) dispatch_loop :: "'s ws_itf \<Rightarrow> nat \<Rightarrow> 's world \<Rightarrow> nat \<Rightarrow> nat \<Rightarrow> (int \<times> 's world) option" where
  "dispatch_loop itf ibuf w b n =
     (if n = 0 then Some (0, w)
      else do {
        (out, w, b, n) \<leftarrow> ws_turn itf ibuf w b n;
        case out of
          Turn \<Rightarrow> dispatch_loop itf ibuf w b n
        | Finish \<Rightarrow> Some (0, w)
        | Too_long \<Rightarrow> map_option (\<lambda>(_, w). (X_EMSGSIZE, w)) (ws_error itf w WEBSOCKET_CODE_MESSAGE_TOO_LARGE [])
        | Protocol_put \<Rightarrow> map_option (\<lambda>(_, w). (X_EPROTO, w)) (ws_error itf (putbuf w ibuf) WEBSOCKET_CODE_PROTOCOL_ERROR [])
        | Protocol \<Rightarrow> map_option (\<lambda>(_, w). (X_EPROTO, w)) (ws_error itf w WEBSOCKET_CODE_PROTOCOL_ERROR [])
      })"

definition dispatch_buffer :: "'s ws_itf \<Rightarrow> 's world \<Rightarrow> nat \<Rightarrow> (int \<times> 's world) option" where
  "dispatch_buffer itf w ibuf =
     (let (base, len) = s_bufs (wo_ws w) ! ibuf in dispatch_loop itf ibuf w base len)"

text \<open>The buffers are dispatched until there is none or an error, then those left are freed.\<close>

definition free_all :: "'s world \<Rightarrow> x_buf list \<Rightarrow> 's world" where
  "free_all w bufs = w\<lparr>wo_freed := rev (map fst bufs) @ wo_freed w\<rparr>"

fun ws_dispatch_loop :: "'s ws_itf \<Rightarrow> 's world \<Rightarrow> x_buf list \<Rightarrow> (int \<times> 's world) option" where
  "ws_dispatch_loop itf w [] = Some (0, w)"
| "ws_dispatch_loop itf w (buf # bufs) =
     (let (ibuf, w) = addbuf w buf in
      if ibuf < 0 then Some (ibuf, free_all w (buf # bufs))
      else do {
        (rc, w) \<leftarrow> dispatch_buffer itf w (nat ibuf);
        let w = putbuf w (nat ibuf);
        if rc = 0 then ws_dispatch_loop itf w bufs else Some (rc, free_all w bufs)
      })"

definition ws_dispatch :: "'s ws_itf \<Rightarrow> 's world \<Rightarrow> x_buf list \<Rightarrow> nat \<Rightarrow> (int \<times> 's world) option" where
  "ws_dispatch itf w bufs count =
     (if count \<le> length bufs then ws_dispatch_loop itf w (take count bufs) else None)"

subsection \<open>Creation and settings\<close>

definition ws_init :: "64 word \<Rightarrow> ws_data" where
  "ws_init default_maxlength = \<lparr>s_state = STATE_INIT, s_maxlength = default_maxlength, s_lenhead = 0, s_szhead = 0,
     s_length = 0, s_mask = [0, 0, 0, 0], s_bufs = replicate 4 (0, 0), s_uses = replicate 4 0, s_header = replicate 14 0\<rparr>"

definition ws_set_max_length :: "ws_data \<Rightarrow> 64 word \<Rightarrow> ws_data" where
  "ws_set_max_length ws maxlen = ws\<lparr>s_maxlength := maxlen\<rparr>"

definition ws_strerror :: "16 word \<Rightarrow> string option" where
  "ws_strerror code =
     (let msgs = [''OK'', ''GOING_AWAY'', ''PROTOCOL_ERROR'', ''CANT_ACCEPT'', ''RESERVED'', ''NOT_SET'',
        ''ABNORMAL'', ''INVALID_UTF8'', ''POLICY_VIOLATION'', ''MESSAGE_TOO_LARGE'', ''EXPECT_EXTENSION'',
        ''INTERNAL_ERROR''] in
      if unat code < 1000 \<or> unat code - 1000 \<ge> length msgs then Some ''?'' else load msgs (unat code - 1000))"

subsection \<open>Unmasking in memory\<close>

definition mask_range :: "byte list \<Rightarrow> (nat \<Rightarrow> byte) \<Rightarrow> nat \<Rightarrow> nat \<Rightarrow> nat \<Rightarrow> byte" where
  "mask_range m mem b n = (\<lambda>x. if b \<le> x \<and> x < b + n then mem x XOR m ! ((x - b) mod 4) else mem x)"

lemma mask_range_0 [simp]: "mask_range m mem b 0 = mem"
  by (auto simp: mask_range_def fun_eq_iff)

lemma rotate_nth4: "length m = 4 \<Longrightarrow> rotate k m ! (i mod 4) = m ! ((i + k) mod 4)"
  by (simp add: nth_rotate mod_add_right_eq add.commute)

lemma mask_range_split:
  assumes "length m = 4"
  shows "mask_range (rotate k m) (mask_range m mem b k) (b + k) n = mask_range m mem b (k + n)"
proof
  fix x
  consider "x < b + k" | "b + k \<le> x" by linarith
  then show "mask_range (rotate k m) (mask_range m mem b k) (b + k) n x = mask_range m mem b (k + n) x"
  proof cases
    case 2
    then have "rotate k m ! ((x - (b + k)) mod 4) = m ! ((x - b) mod 4)"
      using rotate_nth4 [OF assms, of k "x - (b + k)"] by (simp add: diff_diff_left)
    then show ?thesis using 2 by (simp add: mask_range_def add.assoc)
  qed (simp add: mask_range_def)
qed

lemma mask_range_Suc:
  assumes "length m = 4"
  shows "mask_range m mem b (Suc n) = mask_range (rotate1 m) (mem(b := mem b XOR m ! 0)) (b + 1) n"
proof -
  have "mem(b := mem b XOR m ! 0) = mask_range m mem b 1" by (auto simp: mask_range_def fun_eq_iff)
  moreover have "rotate1 m = rotate 1 m" by simp
  ultimately show ?thesis using mask_range_split [OF assms, of 1 mem b n] by simp
qed

lemma mask_rest_eq: "length m = 4 \<Longrightarrow> mask_rest m mem b n = (rotate n m, mask_range m mem b n)"
  by (induction n arbitrary: m mem b) (simp_all add: mask_range_Suc rotate1_rotate_swap)

lemma mask_unaligned_eq:
  "length m = 4 \<Longrightarrow> \<exists>k \<le> n. mask_unaligned m mem b n = (rotate k m, mask_range m mem b k, b + k, n - k)"
proof (induction n arbitrary: m mem b)
  case (Suc n)
  show ?case
  proof (cases "b mod 4 \<noteq> 0")
    case True
    obtain k where "k \<le> n" "mask_unaligned (rotate1 m) (mem(b := mem b XOR m ! 0)) (b + 1) n =
        (rotate k (rotate1 m), mask_range (rotate1 m) (mem(b := mem b XOR m ! 0)) (b + 1) k, b + 1 + k, n - k)"
      using Suc.IH [of "rotate1 m"] Suc.prems by (metis length_rotate1)
    then show ?thesis using True Suc.prems
      by (intro exI [of _ "Suc k"]) (simp add: mask_range_Suc rotate1_rotate_swap)
  qed (intro exI [of _ 0], simp)
qed simp

lemma mask_words_eq:
  "length m = 4 \<Longrightarrow> \<exists>k \<le> n. mask_words m mem b n = (mask_range m mem b k, b + k, n - k) \<and> rotate k m = m"
proof (induction n arbitrary: mem b rule: less_induct)
  case (less n)
  show ?case
  proof (cases "4 \<le> n")
    case True
    let ?mem = "mem(b := mem b XOR m ! 0, b + 1 := mem (b + 1) XOR m ! 1,
          b + 2 := mem (b + 2) XOR m ! 2, b + 3 := mem (b + 3) XOR m ! 3)"
    obtain k where k: "k \<le> n - 4" "mask_words m ?mem (b + 4) (n - 4) = (mask_range m ?mem (b + 4) k, b + 4 + k, n - 4 - k)"
      "rotate k m = m" 
    proof -
      have "\<exists>k \<le> n - 4. mask_words m ?mem (b + 4) (n - 4) = (mask_range m ?mem (b + 4) k, b + 4 + k, n - 4 - k) \<and> rotate k m = m"
        by (rule less.IH) (use less.prems True in simp_all)
      then show thesis using that by (elim exE conjE)
    qed
    have R: "rotate 4 m = m" using rotate_four [OF less.prems] by (simp add: rotate_def numeral_eq_Suc)
    have M: "?mem = mask_range m mem b 4"
    proof
      fix x
      consider "x < b" | "x = b" | "x = b + 1" | "x = b + 2" | "x = b + 3" | "b + 4 \<le> x" by linarith
      then show "?mem x = mask_range m mem b 4 x" by cases (simp_all add: mask_range_def)
    qed
    have "mask_range m ?mem (b + 4) k = mask_range m mem b (4 + k)"
      using mask_range_split [OF less.prems, of 4 mem b k] R M by simp
    moreover have "rotate (4 + k) m = m" using R k(3) by (simp only: rotate_rotate [symmetric])
    ultimately show ?thesis using k(1,2) True
      by (intro exI [of _ "4 + k"]) (subst mask_words.simps, simp add: add.assoc)
  qed (intro exI [of _ 0], simp add: mask_words.simps)
qed

lemma ws_unmask_eq:
  assumes "length m = 4"
  shows "ws_unmask m mem b n = (rotate n m, mask_range m mem b n)"
proof -
  obtain k where k: "k \<le> n" "mask_unaligned m mem b n = (rotate k m, mask_range m mem b k, b + k, n - k)"
    using mask_unaligned_eq [OF assms] by blast
  have l: "length (rotate k m) = 4" using assms by simp
  obtain j where j: "j \<le> n - k" "rotate j (rotate k m) = rotate k m"
    "mask_words (rotate k m) (mask_range m mem b k) (b + k) (n - k) =
      (mask_range (rotate k m) (mask_range m mem b k) (b + k) j, b + k + j, n - k - j)"
    using mask_words_eq [OF l] by blast
  have 1: "mask_range (rotate k m) (mask_range m mem b k) (b + k) j = mask_range m mem b (k + j)"
    by (rule mask_range_split [OF assms])
  have 2: "rotate k m = rotate (k + j) m" using j(2) by (simp add: rotate_rotate add.commute)
  have "ws_unmask m mem b n = mask_rest (rotate (k + j) m) (mask_range m mem b (k + j)) (b + (k + j)) (n - (k + j))"
    unfolding ws_unmask_def k(2) by (simp add: j(3) 1 add.assoc) (simp add: 2)
  also have "\<dots> = (rotate n m, mask_range m mem b n)"
    using mask_range_split [OF assms, of "k + j" mem b "n - (k + j)"] k(1) j(1) assms
    by (simp add: mask_rest_eq rotate_rotate)
  finally show ?thesis .
qed

subsection \<open>Headers from a buffer\<close>

lemma fetch_header [simp]:
  "fetch (upd_ws (\<lambda>ws. ws\<lparr>s_header := h ws, s_lenhead := l ws\<rparr>) w) a = fetch w a"
  by (cases w) (auto simp: fetch_def in_use_def)

lemma fill_header_full:
  assumes "\<And>i. i < length bs \<Longrightarrow> fetch w (b + i) = Some (bs ! i)"
    and "s_szhead (wo_ws w) = s_lenhead (wo_ws w) + length bs" and "s_szhead (wo_ws w) \<le> length (s_header (wo_ws w))"
    and "length bs \<le> n"
  shows "fill_header w b n = Some (True,
    upd_ws (\<lambda>ws. ws\<lparr>s_header := overwrite (s_header ws) (s_lenhead ws) bs, s_lenhead := s_szhead ws\<rparr>) w,
    b + length bs, n - length bs)"
  using assms
proof (induction bs arbitrary: w b n)
  case Nil
  have "upd_ws (\<lambda>ws. ws\<lparr>s_header := overwrite (s_header ws) (s_lenhead ws) [], s_lenhead := s_szhead ws\<rparr>) w = w"
    using Nil.prems(2) by (cases w; cases "wo_ws w") simp
  then show ?case using Nil.prems by (cases n) simp_all
next
  case (Cons c bs)
  obtain n' where n: "n = Suc n'" using Cons.prems(4) by (cases n) auto
  let ?w = "upd_ws (\<lambda>ws. ws\<lparr>s_header := overwrite (s_header ws) (s_lenhead ws) [c], s_lenhead := s_lenhead ws + 1\<rparr>) w"
  have c: "fetch w b = Some c" using Cons.prems(1) [of 0] by simp
  have "fetch ?w (b + 1 + i) = Some (bs ! i)" if "i < length bs" for i
    using Cons.prems(1) [of "Suc i"] that by simp
  moreover have "s_szhead (wo_ws ?w) = s_lenhead (wo_ws ?w) + length bs" using Cons.prems(2) by simp
  moreover have "s_szhead (wo_ws ?w) \<le> length (s_header (wo_ws ?w))" using Cons.prems(2,3) by simp
  ultimately have IH: "fill_header ?w (b + 1) n' = Some (True,
    upd_ws (\<lambda>ws. ws\<lparr>s_header := overwrite (s_header ws) (s_lenhead ws) bs, s_lenhead := s_szhead ws\<rparr>) ?w,
    b + 1 + length bs, n' - length bs)" using Cons.prems(4) n by (intro Cons.IH) simp_all
  have "overwrite (overwrite h l [c]) (l + 1) bs = overwrite h l (c # bs)" if "l + 1 + length bs \<le> length h" for h l
    using overwrite_append [of l "[c]" bs h] that by simp
  then have "upd_ws (\<lambda>ws. ws\<lparr>s_header := overwrite (s_header ws) (s_lenhead ws) bs, s_lenhead := s_szhead ws\<rparr>) ?w =
    upd_ws (\<lambda>ws. ws\<lparr>s_header := overwrite (s_header ws) (s_lenhead ws) (c # bs), s_lenhead := s_szhead ws\<rparr>) w"
    using Cons.prems(2,3) by (cases w; cases "wo_ws w") simp
  moreover have "fill_header w b n = fill_header (upd_ws (\<lambda>ws. ws\<lparr>s_header := overwrite (s_header (wo_ws w))
      (s_lenhead (wo_ws w)) [c], s_lenhead := s_lenhead ws + 1\<rparr>) w) (b + 1) n'"
    using c n Cons.prems(2,3) by (simp add: store_overwrite)
  moreover have "upd_ws (\<lambda>ws. ws\<lparr>s_header := overwrite (s_header (wo_ws w)) (s_lenhead (wo_ws w)) [c],
      s_lenhead := s_lenhead ws + 1\<rparr>) w = ?w" by (cases w) simp
  ultimately have "fill_header w b n = Some (True,
    upd_ws (\<lambda>ws. ws\<lparr>s_header := overwrite (s_header ws) (s_lenhead ws) (c # bs), s_lenhead := s_szhead ws\<rparr>) w,
    b + 1 + length bs, n' - length bs)" using IH by (simp only:)
  then show ?case using n by simp
qed

lemma fetch_cong:
  "s_bufs (wo_ws v) = s_bufs (wo_ws w) \<Longrightarrow> s_uses (wo_ws v) = s_uses (wo_ws w) \<Longrightarrow> wo_mem v = wo_mem w \<Longrightarrow> fetch v a = fetch w a"
  by (auto simp: fetch_def in_use_def)

definition control_opcode :: "byte \<Rightarrow> bool" where
  "control_opcode b \<longleftrightarrow> FRAME_GET_OPCODE b = OPCODE_CLOSE \<or> FRAME_GET_OPCODE b = OPCODE_PING \<or> FRAME_GET_OPCODE b = OPCODE_PONG"

text \<open>A frame on the wire: its first byte, its length and the masking key, that the rules of RFC 6455 allow.\<close>

definition frame_ok :: "byte \<Rightarrow> 64 word \<Rightarrow> byte list option \<Rightarrow> bool" where
  "frame_ok first sz key \<longleftrightarrow> FRAME_GET_RSV123 first = 0 \<and> (\<forall>k. key = Some k \<longrightarrow> length k = 4) \<and>
     (control_opcode first \<longrightarrow> sz < 126)"

text \<open>The structure when the header of a frame has been read.\<close>

definition header_read :: "byte \<Rightarrow> 64 word \<Rightarrow> byte list option \<Rightarrow> ws_data \<Rightarrow> ws_data" where
  "header_read first sz key ws =
     (let h = wire_header first sz key in
      ws\<lparr>s_header := overwrite (s_header ws) 0 h, s_lenhead := length h, s_szhead := length h, s_length := sz,
         s_mask := (case key of None \<Rightarrow> [0, 0, 0, 0] | Some k \<Rightarrow> k), s_state := STATE_DATA\<rparr>)"

lemma ws_header_mask_eq:
  "ws_header_mask ws = header_mask \<lparr>w_state = STATE_LENGTH, w_maxlength = 0, w_lenhead = 0, w_szhead = s_szhead ws, w_length = 0,
     w_mask = [], w_header = s_header ws\<rparr>" if "FRAME_GET_MASK (s_header ws ! 1) \<noteq> 0 \<Longrightarrow> 4 \<le> s_szhead ws"
  using that by (auto simp: ws_header_mask_def header_mask_def load_back_def load_def)

lemma ws_turn_header:
  assumes "s_state (wo_ws w) = STATE_INIT" and "length (s_header (wo_ws w)) = 14" and "frame_ok first sz key"
    and "\<And>i. i < length (wire_header first sz key) \<Longrightarrow> fetch w (b + i) = Some (wire_header first sz key ! i)"
    and "length (wire_header first sz key) \<le> n" and "sz \<le> s_maxlength (wo_ws w)"
  shows "ws_turn itf ibuf w b n = ws_dispatch_data itf ibuf (upd_ws (header_read first sz key) w)
    (b + length (wire_header first sz key)) (n - length (wire_header first sz key))"
proof -
  let ?w = "wire_header first sz key" and ?H = "s_header (wo_ws w)"
  have key: "\<And>k. key = Some k \<Longrightarrow> length k = 4" using assms(3) by (simp add: frame_ok_def)
  have L: "2 \<le> length ?w" "length ?w \<le> 14"
    using wire_header_nth(3) key by (auto simp: length_wire_header split: option.split)
  let ?w1 = "upd_ws (\<lambda>ws. ws\<lparr>s_lenhead := 0, s_szhead := 2, s_state := STATE_START\<rparr>) w"
  let ?h1 = "overwrite ?H 0 (take 2 ?w)" and ?h2 = "overwrite ?H 0 ?w"
  let ?w2 = "upd_ws (\<lambda>ws. ws\<lparr>s_lenhead := 2, s_szhead := 2, s_state := STATE_START, s_header := ?h1\<rparr>) w"
  have F: "fetch v (b + i) = Some (?w ! i)" if "i < length ?w" "s_bufs (wo_ws v) = s_bufs (wo_ws w)"
    "s_uses (wo_ws v) = s_uses (wo_ws w)" "wo_mem v = wo_mem w" for i v
    using assms(4) [OF that(1)] fetch_cong [OF that(2-4)] by simp
  have 1: "fill_header ?w1 b n = Some (True, ?w2, b + 2, n - 2)"
  proof -
    have "fill_header ?w1 b n = Some (True,
      upd_ws (\<lambda>ws. ws\<lparr>s_header := overwrite (s_header ws) (s_lenhead ws) (take 2 ?w), s_lenhead := s_szhead ws\<rparr>) ?w1,
      b + length (take 2 ?w), n - length (take 2 ?w))"
    proof (rule fill_header_full)
      show "fetch ?w1 (b + i) = Some (take 2 ?w ! i)" if "i < length (take 2 ?w)" for i
        using F [of i ?w1] that by simp
    qed (use L assms(2,5) in simp_all)
    then show ?thesis using L by (cases w; cases "wo_ws w") simp
  qed
  have h1: "?h1 ! 0 = first" "?h1 ! 1 = ?w ! 1" "length ?h1 = 14"
    using L assms(2) wire_header_nth(1) [of first sz key] by (simp_all add: overwrite_def nth_append)
  have G: "FRAME_GET_PAYLOAD_LEN (?h1 ! Suc 0) = (if sz < 126 then uint sz else if sz < 65536 then 126 else 127)"
    "FRAME_GET_MASK (?h1 ! Suc 0) = (if key = None then 0 else 1)"
    using h1(2) by (simp_all add: wire_header_get)
  have u: "uint sz < 126" if "sz < 126" using that by (simp add: word_less_def)
  let ?w3 = "upd_ws (\<lambda>ws. ws\<lparr>s_lenhead := 2, s_szhead := length ?w, s_state := STATE_LENGTH, s_header := ?h1\<rparr>) w"
  have C: "ws_control_ok (s_header (wo_ws ?w2)) = Some True"
    using h1 G u assms(3) by (auto simp: ws_control_ok_def frame_ok_def control_opcode_def)
  have S: "ws_grow_header (wo_ws ?w2) = Some (wo_ws ?w3)"
    using h1(3) G u key by (cases key) (auto simp: ws_grow_header_def length_wire_header Let_def)
  have A: "b + 2 + length (drop 2 ?w) = b + length ?w" "n - 2 - length (drop 2 ?w) = n - length ?w" using L by simp_all
  have "fill_header ?w3 (b + 2) (n - 2) = Some (True,
      upd_ws (\<lambda>ws. ws\<lparr>s_header := overwrite (s_header ws) (s_lenhead ws) (drop 2 ?w), s_lenhead := s_szhead ws\<rparr>) ?w3,
      b + length ?w, n - length ?w)"
    unfolding A [symmetric] using F [of "2 + i" ?w3 for i] L assms(2,5) h1(3) by (intro fill_header_full) (simp_all add: add.assoc)
  moreover have "overwrite ?h1 2 (drop 2 ?w) = ?h2"
  proof -
    have T: "length (take 2 ?w) = 2" using L by simp
    have "overwrite (overwrite ?H 0 (take 2 ?w)) (0 + length (take 2 ?w)) (drop 2 ?w) = overwrite ?H 0 (take 2 ?w @ drop 2 ?w)"
      by (rule overwrite_append) (use L assms(2) in simp)
    then show ?thesis unfolding T append_take_drop_id by (simp only: add_0)
  qed
  ultimately have 2: "fill_header ?w3 (b + 2) (n - 2) = Some (True,
      upd_ws (\<lambda>ws. ws\<lparr>s_header := ?h2, s_lenhead := length ?w, s_szhead := length ?w, s_state := STATE_LENGTH\<rparr>) w,
      b + length ?w, n - length ?w)" (is "_ = Some (True, ?w4, _, _)")
    using L by (cases w; cases "wo_ws w") simp
  have h2: "take (length ?w) ?h2 = ?w" "length ?h2 = 14" using L assms(2) by (simp_all add: overwrite_def)
  have len: "header_length ?h2 = Some sz" by (rule extended_length_decoded [OF h2])
  let ?m = "case key of None \<Rightarrow> [0, 0, 0, 0] | Some k \<Rightarrow> k"
  let ?w5 = "upd_ws (\<lambda>ws. ws\<lparr>s_length := sz\<rparr>) ?w4"
  have m: "ws_header_mask (wo_ws ?w5) = Some ?m"
  proof (subst ws_header_mask_eq)
    have "?h2 ! Suc 0 = ?w ! Suc 0" using L by (simp add: overwrite_def nth_append)
    then show "FRAME_GET_MASK (s_header (wo_ws ?w5) ! 1) \<noteq> 0 \<Longrightarrow> 4 \<le> s_szhead (wo_ws ?w5)"
      using key by (auto simp: wire_header_get length_wire_header split: option.split)
    show "header_mask \<lparr>w_state = STATE_LENGTH, w_maxlength = 0, w_lenhead = 0, w_szhead = s_szhead (wo_ws ?w5), w_length = 0,
      w_mask = [], w_header = s_header (wo_ws ?w5)\<rparr> = Some ?m"
      by (rule mask_decoded [where first = first and sz = sz]) (use h2 L key in simp_all)
  qed
  have X: "\<not> s_maxlength (wo_ws ?w5) < sz" using assms(6) by simp
  have R: "upd_ws (\<lambda>ws. ws\<lparr>s_mask := ?m, s_state := STATE_DATA\<rparr>) ?w5 = upd_ws (header_read first sz key) w"
    by (cases w) (simp add: header_read_def Let_def)
  have "ws_from_length itf ibuf ?w3 (b + 2) (n - 2) =
      ws_dispatch_data itf ibuf (upd_ws (\<lambda>ws. ws\<lparr>s_mask := ?m, s_state := STATE_DATA\<rparr>) ?w5) (b + length ?w) (n - length ?w)"
    unfolding ws_from_length_def 2 using len m X by (simp add: Let_def)
  moreover have "?w2\<lparr>wo_ws := wo_ws ?w3\<rparr> = ?w3" by (cases w) simp
  moreover have "ws_from_start itf ibuf ?w1 b n = ws_from_length itf ibuf (?w2\<lparr>wo_ws := wo_ws ?w3\<rparr>) (b + 2) (n - 2)"
    by (simp only: ws_from_start_def 1 C S Option.bind.simps prod.case not_True_eq_False if_False)
  moreover have "ws_turn itf ibuf w b n = ws_from_start itf ibuf ?w1 b n" using assms(1) by (simp add: ws_turn_def)
  ultimately show ?thesis unfolding R [symmetric] by (simp only:)
qed

subsection \<open>Delivering frames\<close>

definition key_mask :: "byte list option \<Rightarrow> byte list" where
  "key_mask key = (case key of None \<Rightarrow> [0, 0, 0, 0] | Some k \<Rightarrow> k)"

text \<open>The world that the callback of a whole frame gets.\<close>

definition frame_delivered :: "byte \<Rightarrow> 64 word \<Rightarrow> byte list option \<Rightarrow> nat \<Rightarrow> nat \<Rightarrow> 's world \<Rightarrow> 's world" where
  "frame_delivered first sz key ibuf b w =
     upd_ws (\<lambda>ws. (header_read first sz key ws)\<lparr>s_state := STATE_INIT, s_mask := rotate (unat sz) (key_mask key),
         s_uses := (s_uses ws)[ibuf := s_uses ws ! ibuf + 1]\<rparr>)
       (w\<lparr>wo_mem := mask_range (key_mask key) (wo_mem w) (b + length (wire_header first sz key)) (unat sz)\<rparr>)"

definition frame_buf :: "byte \<Rightarrow> 64 word \<Rightarrow> byte list option \<Rightarrow> nat \<Rightarrow> x_buf" where
  "frame_buf first sz key b = (if sz = 0 then 0 else b + length (wire_header first sz key), unat sz)"

lemma zero_mask [simp]: "mask_range [0, 0, 0, 0] mem b n = mem" "rotate n [0, 0, 0, 0 :: byte] = [0, 0, 0, 0]"
proof -
  have "[0, 0, 0, 0 :: byte] ! (i mod 4) = 0" for i
  proof -
    have "i mod 4 < 4" by simp
    then have "i mod 4 \<in> {0, 1, 2, 3}" by auto
    then show ?thesis by auto
  qed
  then show "mask_range [0, 0, 0, 0] mem b n = mem" by (simp add: mask_range_def fun_eq_iff)
  show "rotate n [0, 0, 0, 0 :: byte] = [0, 0, 0, 0]" by (induction n) simp_all
qed

lemma ws_turn_frame:
  assumes "s_state (wo_ws w) = STATE_INIT" and "length (s_header (wo_ws w)) = 14" and "frame_ok first sz key"
    and "\<And>i. i < length (wire_header first sz key) \<Longrightarrow> fetch w (b + i) = Some (wire_header first sz key ! i)"
    and "length (wire_header first sz key) + unat sz \<le> n" and "sz \<le> s_maxlength (wo_ws w)"
    and "wi_on_extension itf = None"
  shows "ws_turn itf ibuf w b n =
    map_option (\<lambda>(out, v). (out, v, b + length (wire_header first sz key), n - length (wire_header first sz key) - unat sz))
      (ws_handle itf (FRAME_GET_FIN first) first (frame_buf first sz key b) (frame_delivered first sz key ibuf b w))"
proof -
  let ?w = "wire_header first sz key"
  let ?v = "upd_ws (header_read first sz key) w"
  let ?m = "key_mask key"
  have L: "length ?w \<le> n" "2 \<le> length ?w" "length ?w \<le> 14" using assms(3,5) wire_header_nth(3)
    by (auto simp: length_wire_header frame_ok_def split: option.split)
  have h0: "load (s_header (wo_ws ?v)) 0 = Some first"
    using L assms(2) wire_header_nth(1) [of first sz key]
    by (simp add: header_read_def Let_def load_def overwrite_def nth_append)
  have f: "s_length (wo_ws ?v) = sz" "s_mask (wo_ws ?v) = ?m" "wo_mem ?v = wo_mem w" "s_uses (wo_ws ?v) = s_uses (wo_ws w)"
    by (simp_all add: header_read_def Let_def key_mask_def)
  have m4: "length ?m = 4" using assms(3) by (auto simp: key_mask_def frame_ok_def split: option.split)
  let ?a = "b + length ?w"
  let ?base = "if sz \<noteq> 0 then ?a else 0"
  have B: "mask_range ?m (wo_mem w) ?base (unat sz) = mask_range ?m (wo_mem w) ?a (unat sz)" by (simp add: unat_gt_0)
  let ?v1 = "upd_ws (\<lambda>ws. ws\<lparr>s_state := STATE_INIT\<rparr>) ?v"
  let ?v2 = "if ?m \<noteq> [0, 0, 0, 0] then let (m, mem) = ws_unmask ?m (wo_mem ?v1) ?base (unat sz) in
      upd_ws (\<lambda>ws. ws\<lparr>s_mask := m\<rparr>) (?v1\<lparr>wo_mem := mem\<rparr>) else ?v1"
  have v2: "getbuf ?v2 ibuf = frame_delivered first sz key ibuf b w"
  proof (cases "?m = [0, 0, 0, 0]")
    case True
    then show ?thesis
      by (cases w) (simp add: getbuf_def frame_delivered_def header_read_def Let_def flip: key_mask_def)
  next
    case False
    then show ?thesis using B f(3)
      by (cases w) (simp add: getbuf_def frame_delivered_def header_read_def Let_def ws_unmask_eq [OF m4])
  qed
  have h0': "load (s_header (wo_ws (frame_delivered first sz key ibuf b w))) 0 = Some first"
    using h0 by (simp add: frame_delivered_def)
  have r: "FRAME_GET_RSV123 first = 0" using assms(3) by (simp add: frame_ok_def)
  have le: "unat sz \<le> n - length ?w" using assms(5) by simp
  have "ws_dispatch_data itf ibuf ?v ?a (n - length ?w) =
    map_option (\<lambda>(out, v). (out, v, ?a, n - length ?w - unat sz))
      (ws_handle itf (FRAME_GET_FIN first) first (?base, unat sz) (frame_delivered first sz key ibuf b w))"
    unfolding ws_dispatch_data_def Let_def f h0 Option.bind.simps using le v2 [unfolded Let_def] h0' r assms(7)
    by (simp only: if_True prod.case option.case Option.bind.simps if_False not_True_eq_False) simp
  moreover have "frame_buf first sz key b = (?base, unat sz)" by (simp add: frame_buf_def)
  ultimately show ?thesis using ws_turn_header [OF assms(1-4) L(1) assms(6)] by (simp only:)
qed

text \<open>
  Property C28: a frame of data that lies whole in a buffer is given to the callback of
  its operation with the flag of its first byte and its payload unmasked in place, one use more of the
  buffer, and the state ready for a next frame; but the pointer stays at the payload just delivered,
  while the count of bytes left is that after the payload: the header of a following frame
  is read from the payload of this one.
\<close>

theorem ws_turn_data_frame:
  assumes "s_state (wo_ws w) = STATE_INIT" and "length (s_header (wo_ws w)) = 14"
    and "frame_ok first sz key" and "data_opcode first"
    and "\<And>i. i < length (wire_header first sz key) \<Longrightarrow> fetch w (b + i) = Some (wire_header first sz key ! i)"
    and "length (wire_header first sz key) + unat sz \<le> n" and "sz \<le> s_maxlength (wo_ws w)"
    and "wi_on_extension itf = None"
  shows "ws_turn itf ibuf w b n =
    Some (Turn, (if FRAME_GET_OPCODE first = OPCODE_CONTINUATION then wi_on_continue itf
        else if FRAME_GET_OPCODE first = OPCODE_TEXT then wi_on_text itf else wi_on_binary itf)
        (FRAME_GET_FIN first) (frame_buf first sz key b) (frame_delivered first sz key ibuf b w),
      b + length (wire_header first sz key), n - length (wire_header first sz key) - unat sz)"
  using ws_turn_frame [OF assms(1-3,5-8), of ibuf] assms(4)
  by (auto simp: ws_handle_def Let_def data_opcode_def opcodes)

lemma addbuf_last:
  assumes "length (s_uses (wo_ws w)) = 4" and "s_uses (wo_ws w) ! 3 = 0"
  shows "addbuf w buf = (3, upd_ws (\<lambda>ws. ws\<lparr>s_uses := (s_uses ws)[3 := 1], s_bufs := (s_bufs ws)[3 := buf]\<rparr>) w)"
proof -
  have "WS_BUFS_COUNT = Suc 3" by (simp add: WS_BUFS_COUNT_def)
  show ?thesis unfolding addbuf_def \<open>WS_BUFS_COUNT = Suc 3\<close> using assms by (subst addbuf_loop.simps(2)) simp
qed

lemma putbufat_last:
  assumes "s_uses (wo_ws w) ! 3 \<noteq> 0" and "fst (s_bufs (wo_ws w) ! 3) \<le> p"
    and "p < fst (s_bufs (wo_ws w) ! 3) + snd (s_bufs (wo_ws w) ! 3)"
  shows "putbufat w p = putbuf w 3"
proof -
  have "WS_BUFS_COUNT = Suc 3" by (simp add: WS_BUFS_COUNT_def)
  show ?thesis unfolding putbufat_def \<open>WS_BUFS_COUNT = Suc 3\<close> using assms by (subst putbufat_loop.simps(2)) simp
qed

text \<open>A client that releases what it gets.\<close>

definition quiet_itf :: "unit ws_itf" where
  "quiet_itf = \<lparr>wi_writev = \<lambda>w v. (0, 0, w), wi_on_ping = None, wi_on_pong = None, wi_on_close = \<lambda>c buf w. w,
     wi_on_text = \<lambda>fin buf w. ws_release w buf, wi_on_binary = \<lambda>fin buf w. ws_release w buf,
     wi_on_continue = \<lambda>fin buf w. ws_release w buf, wi_on_extension = None, wi_on_error = None\<rparr>"

lemma slots [simp]: "replicate 4 x = [x, x, x, x]" "[x, y, z, t][3 := u] = [x, y, z, u]"
  by (simp_all add: numeral_eq_Suc)

definition memory_of :: "nat \<Rightarrow> byte list \<Rightarrow> nat \<Rightarrow> byte" where
  "memory_of b bs = (\<lambda>x. if b \<le> x \<and> x < b + length bs then bs ! (x - b) else 0)"

definition fresh_world :: "nat \<Rightarrow> byte list \<Rightarrow> unit world" where
  "fresh_world b bs = \<lparr>wo_ws = ws_init 1000, wo_mem = memory_of b bs, wo_freed = [], wo_client = ()\<rparr>"

lemma ws_turn_data_frame_witness:
  "let w = snd (addbuf (fresh_world 100 [0x81, 1, 65, 0x81, 1, 66]) (100, 6)) in
    ws_turn quiet_itf 3 w 100 6 = Some (Turn, ws_release (frame_delivered 0x81 1 None 3 100 w) (102, 1), 102, 3)"
proof -
  let ?w = "snd (addbuf (fresh_world 100 [0x81, 1, 65, 0x81, 1, 66]) (100, 6))"
  have W: "wire_header 0x81 1 None = [0x81, 1]" by (simp add: wire_header_def short_length_def extended_length_def)
  have w: "?w = \<lparr>wo_ws = (ws_init 1000)\<lparr>s_uses := [0, 0, 0, 1], s_bufs := [(0, 0), (0, 0), (0, 0), (100, 6)]\<rparr>,
      wo_mem = memory_of 100 [0x81, 1, 65, 0x81, 1, 66], wo_freed = [], wo_client = ()\<rparr>"
    by (subst addbuf_last) (simp_all add: fresh_world_def ws_init_def)
  have "fetch ?w (100 + i) = Some ([0x81, 1] ! i)" if "i < 2" for i
  proof -
    have "i \<in> {0, 1}" using that by auto
    then show ?thesis unfolding w by (auto simp: fetch_def in_use_def memory_of_def intro!: exI [of _ 3])
  qed
  then have "ws_turn quiet_itf 3 ?w 100 6 =
    Some (Turn, (if FRAME_GET_OPCODE 0x81 = OPCODE_CONTINUATION then wi_on_continue quiet_itf
        else if FRAME_GET_OPCODE 0x81 = OPCODE_TEXT then wi_on_text quiet_itf else wi_on_binary quiet_itf)
        (FRAME_GET_FIN 0x81) (frame_buf 0x81 1 None 100) (frame_delivered 0x81 1 None 3 100 ?w),
      100 + length (wire_header 0x81 1 None), 6 - length (wire_header 0x81 1 None) - unat (1 :: 64 word))"
    by (intro ws_turn_data_frame)
      (simp_all add: W w ws_init_def quiet_itf_def frame_ok_def data_opcode_def control_opcode_def FRAME_GETs FRAME_GET_RSV123_def opcodes)
  then show ?thesis by (simp add: W quiet_itf_def FRAME_GETs opcodes frame_buf_def)
qed

subsection \<open>Uses of the buffers\<close>

definition holds_frame :: "'s world \<Rightarrow> nat \<Rightarrow> byte \<Rightarrow> 64 word \<Rightarrow> byte list option \<Rightarrow> bool" where
  "holds_frame w b first sz key \<longleftrightarrow> (\<forall>i < length (wire_header first sz key). wo_mem w (b + i) = wire_header first sz key ! i)"

text \<open>One buffer that holds just one frame, in a web socket with its last slot free.\<close>

lemma ws_dispatch_frame:
  assumes "s_state (wo_ws w) = STATE_INIT" and "length (s_header (wo_ws w)) = 14" and "frame_ok first sz key"
    and "holds_frame w b first sz key" and "sz \<le> s_maxlength (wo_ws w)" and "wi_on_extension itf = None"
    and "length (s_uses (wo_ws w)) = 4" and "length (s_bufs (wo_ws w)) = 4" and "s_uses (wo_ws w) ! 3 = 0"
    and "n = length (wire_header first sz key) + unat sz"
    and "w1 = upd_ws (\<lambda>ws. ws\<lparr>s_uses := (s_uses ws)[3 := 1], s_bufs := (s_bufs ws)[3 := (b, n)]\<rparr>) w"
    and "ws_handle itf (FRAME_GET_FIN first) first (frame_buf first sz key b) (frame_delivered first sz key 3 b w1) = Some (Turn, v)"
  shows "ws_dispatch itf w [(b, n)] 1 = Some (0, putbuf v 3)"
proof -
  let ?w = "wire_header first sz key"
  have F: "fetch w1 (b + i) = Some (?w ! i)" if "i < length ?w" for i
  proof -
    have "in_use (wo_ws w1) (b + i)" unfolding in_use_def
      by (rule exI [of _ 3]) (use that assms(7,8,10,11) in simp)
    then show ?thesis using that assms(4,11) by (simp add: fetch_def holds_frame_def)
  qed
  have "ws_turn itf 3 w1 b n = Some (Turn, v, b + length ?w, n - length ?w - unat sz)"
    by (subst ws_turn_frame [of w1 first sz key]) (use assms F in simp_all)
  moreover have "n - length ?w - unat sz = 0" "n \<noteq> 0" using assms(10) wire_header_nth(3) [of first sz key] by simp_all
  ultimately have T: "dispatch_loop itf 3 w1 b n = Some (0, v)"
    by (subst dispatch_loop.simps) (simp add: dispatch_loop.simps)
  have "addbuf w (b, n) = (3, w1)" using addbuf_last [OF assms(7,9)] assms(11) by simp
  moreover have "s_bufs (wo_ws w1) ! 3 = (b, n)" using assms(8,11) by simp
  ultimately show ?thesis using T by (simp add: ws_dispatch_def dispatch_buffer_def)
qed

text \<open>
  Property C29: a ping that the library answers by itself is never given back: the use
  taken for it is not put, so that the buffer is not freed and its slot stays taken though the client
  never got it; after four of them there is no slot left.
\<close>

theorem ws_ping_leaks:
  assumes "s_state (wo_ws w) = STATE_INIT" and "length (s_header (wo_ws w)) = 14" and "frame_ok first sz key"
    and "FRAME_GET_OPCODE first = OPCODE_PING" and "FRAME_GET_FIN first = 1"
    and "holds_frame w b first sz key" and "sz \<le> s_maxlength (wo_ws w)"
    and "length (s_uses (wo_ws w)) = 4" and "length (s_bufs (wo_ws w)) = 4" and "s_uses (wo_ws w) ! 3 = 0"
    and "wi_on_extension itf = None" and "wi_on_ping itf = None"
    and "\<And>v data. snd (snd (wi_writev itf v data)) = v"
    and "n = length (wire_header first sz key) + unat sz"
  shows "\<exists>w'. ws_dispatch itf w [(b, n)] 1 = Some (0, w') \<and> wo_freed w' = wo_freed w \<and>
    s_uses (wo_ws w') = (s_uses (wo_ws w))[3 := 1]"
proof -
  define w1 where "w1 = upd_ws (\<lambda>ws. ws\<lparr>s_uses := (s_uses ws)[3 := 1], s_bufs := (s_bufs ws)[3 := (b, n)]\<rparr>) w"
  let ?d = "frame_delivered first sz key 3 b w1"
  have P: "\<exists>rc. ws_pong itf v data = Some (rc, v)" for v data
    using assms(13) [of v]
    by (auto simp: ws_pong_def ws_send_def ws_send_internal_def ws_send_internal_v_def Let_def split: prod.splits)
      (metis snd_conv)+
  then obtain rc where rc: "ws_pong itf ?d (map (wo_mem ?d) [fst (frame_buf first sz key b)..<fst (frame_buf first sz key b) + snd (frame_buf first sz key b)])
      = Some (rc, ?d)" by blast
  have "ws_handle itf (FRAME_GET_FIN first) first (frame_buf first sz key b) ?d = Some (Turn, ?d)"
    using assms(4,5,12) rc by (simp add: ws_handle_def Let_def opcodes)
  from ws_dispatch_frame [OF assms(1-3,6,7,11,8-10,14) w1_def this]
  have "ws_dispatch itf w [(b, n)] 1 = Some (0, putbuf ?d 3)" .
  moreover have "s_uses (wo_ws ?d) = (s_uses (wo_ws w))[3 := 2]" "wo_freed ?d = wo_freed w"
    using assms(8) by (simp_all add: frame_delivered_def w1_def header_read_def Let_def)
  ultimately show ?thesis using assms(8) by (simp add: putbuf_def Let_def)
qed

lemma ws_ping_leaks_witness:
  "\<exists>w'. ws_dispatch quiet_itf (fresh_world 100 [0x89, 1, 65]) [(100, 3)] 1 = Some (0, w') \<and> wo_freed w' = [] \<and>
    s_uses (wo_ws w') = [0, 0, 0, 1]"
proof -
  have W: "wire_header 0x89 1 None = [0x89, 1]" by (simp add: wire_header_def short_length_def extended_length_def)
  have H: "holds_frame (fresh_world 100 [0x89, 1, 65]) 100 0x89 1 None"
    by (auto simp: holds_frame_def W fresh_world_def memory_of_def less_Suc_eq)
  have "\<exists>w'. ws_dispatch quiet_itf (fresh_world 100 [0x89, 1, 65]) [(100, 3)] 1 = Some (0, w') \<and>
    wo_freed w' = wo_freed (fresh_world 100 [0x89, 1, 65]) \<and>
    s_uses (wo_ws w') = (s_uses (wo_ws (fresh_world 100 [0x89, 1, 65])))[3 := 1]"
    by (rule ws_ping_leaks [OF _ _ _ _ _ H])
      (simp_all add: W fresh_world_def ws_init_def quiet_itf_def frame_ok_def FRAME_GETs FRAME_GET_RSV123_def opcodes)
  then show ?thesis by (simp add: fresh_world_def ws_init_def)
qed

text \<open>
  A client that releases the payload of each data frame it gets, whose payload
  is not empty, has its buffer freed exactly once and its slot free again.
\<close>

theorem ws_dispatch_released:
  assumes "s_state (wo_ws w) = STATE_INIT" and "length (s_header (wo_ws w)) = 14" and "frame_ok first sz key"
    and "data_opcode first" and "holds_frame w b first sz key" and "sz \<le> s_maxlength (wo_ws w)" and "sz \<noteq> 0"
    and "length (s_uses (wo_ws w)) = 4" and "length (s_bufs (wo_ws w)) = 4" and "s_uses (wo_ws w) ! 3 = 0"
    and "wi_on_extension itf = None"
    and "\<And>f. f \<in> {wi_on_text itf, wi_on_binary itf, wi_on_continue itf} \<Longrightarrow> f = (\<lambda>fin buf w. ws_release w buf)"
    and "n = length (wire_header first sz key) + unat sz"
  shows "\<exists>w'. ws_dispatch itf w [(b, n)] 1 = Some (0, w') \<and> wo_freed w' = b # wo_freed w \<and>
    s_uses (wo_ws w') = s_uses (wo_ws w)"
proof -
  define w1 where "w1 = upd_ws (\<lambda>ws. ws\<lparr>s_uses := (s_uses ws)[3 := 1], s_bufs := (s_bufs ws)[3 := (b, n)]\<rparr>) w"
  let ?d = "frame_delivered first sz key 3 b w1"
  let ?buf = "frame_buf first sz key b"
  have "wi_on_text itf = (\<lambda>fin buf w. ws_release w buf)" "wi_on_binary itf = (\<lambda>fin buf w. ws_release w buf)"
    "wi_on_continue itf = (\<lambda>fin buf w. ws_release w buf)" by (rule assms(12), simp)+
  then have "ws_handle itf (FRAME_GET_FIN first) first ?buf ?d = Some (Turn, ws_release ?d ?buf)"
    using assms(4) by (auto simp: ws_handle_def Let_def data_opcode_def opcodes)
  from ws_dispatch_frame [OF assms(1-3,5,6,11,8-10,13) w1_def this]
  have D: "ws_dispatch itf w [(b, n)] 1 = Some (0, putbuf (ws_release ?d ?buf) 3)" .
  have d: "s_uses (wo_ws ?d) = (s_uses (wo_ws w))[3 := 2]" "wo_freed ?d = wo_freed w" "s_bufs (wo_ws ?d) ! 3 = (b, n)"
    using assms(8,9) by (simp_all add: frame_delivered_def w1_def header_read_def Let_def)
  have "0 < unat sz" using assms(7) by (simp add: unat_gt_0)
  then have "ws_release ?d ?buf = putbuf ?d 3"
    unfolding ws_release_def by (intro putbufat_last) (use d assms(7,8,13) in \<open>simp_all add: frame_buf_def\<close>)
  moreover have "putbuf ?d 3 = upd_ws (\<lambda>ws. ws\<lparr>s_uses := (s_uses (wo_ws w))[3 := 1]\<rparr>) ?d"
    using d assms(8) by (cases ?d) (simp add: putbuf_def Let_def)
  moreover have "(s_uses (wo_ws w))[3 := 0] = s_uses (wo_ws w)" using assms(10) by (metis list_update_id)
  ultimately show ?thesis using D d assms(8,10) by (simp add: putbuf_def Let_def)
qed

lemma ws_dispatch_released_witness:
  "\<exists>w'. ws_dispatch quiet_itf (fresh_world 100 [0x81, 1, 65]) [(100, 3)] 1 = Some (0, w') \<and> wo_freed w' = [100] \<and>
    s_uses (wo_ws w') = [0, 0, 0, 0]"
proof -
  have W: "wire_header 0x81 1 None = [0x81, 1]" by (simp add: wire_header_def short_length_def extended_length_def)
  have H: "holds_frame (fresh_world 100 [0x81, 1, 65]) 100 0x81 1 None"
    by (auto simp: holds_frame_def W fresh_world_def memory_of_def less_Suc_eq)
  have "\<exists>w'. ws_dispatch quiet_itf (fresh_world 100 [0x81, 1, 65]) [(100, 3)] 1 = Some (0, w') \<and>
    wo_freed w' = 100 # wo_freed (fresh_world 100 [0x81, 1, 65]) \<and>
    s_uses (wo_ws w') = s_uses (wo_ws (fresh_world 100 [0x81, 1, 65]))"
    by (rule ws_dispatch_released [OF _ _ _ _ H])
      (auto simp: W fresh_world_def ws_init_def quiet_itf_def frame_ok_def data_opcode_def control_opcode_def FRAME_GETs
        FRAME_GET_RSV123_def opcodes)
  then show ?thesis by (simp add: fresh_world_def ws_init_def)
qed

subsection \<open>Frames in several buffers\<close>

text \<open>
  Property C30: a buffer that holds only a part of what the frame still expects
  is unmasked in place and delivered as a fragment that is not final, but the count of bytes that
  the frame expects is not reduced by it: after it the frame still takes as many bytes as before, those of the frames
  that follow.
\<close>

theorem ws_partial_payload:
  assumes "s_state (wo_ws w) = STATE_DATA" and "length (s_header (wo_ws w)) = 14" and "length (s_mask (wo_ws w)) = 4"
    and "data_opcode (s_header (wo_ws w) ! 0)" and "FRAME_GET_RSV123 (s_header (wo_ws w) ! 0) = 0"
    and "wi_on_extension itf = None" and "0 < n" and "n < unat (s_length (wo_ws w))"
    and "itf_f = (if FRAME_GET_OPCODE (s_header (wo_ws w) ! 0) = OPCODE_CONTINUATION then wi_on_continue itf
        else if FRAME_GET_OPCODE (s_header (wo_ws w) ! 0) = OPCODE_TEXT then wi_on_text itf else wi_on_binary itf)"
  shows "\<exists>v. dispatch_loop itf ibuf w b n = Some (0, itf_f 0 (b, n) v) \<and>
    s_state (wo_ws v) = STATE_DATA \<and> s_length (wo_ws v) = s_length (wo_ws w) \<and>
    wo_mem v = mask_range (s_mask (wo_ws w)) (wo_mem w) b n"
proof -
  let ?h0 = "s_header (wo_ws w) ! 0" and ?m = "s_mask (wo_ws w)"
  define v where "v = upd_ws (\<lambda>ws. ws\<lparr>s_mask := rotate n ?m, s_uses := (s_uses ws)[ibuf := s_uses ws ! ibuf + 1]\<rparr>)
    (w\<lparr>wo_mem := mask_range ?m (wo_mem w) b n\<rparr>)"
  have base: "s_length (wo_ws w) \<noteq> 0" using assms(8) by auto
  have h: "load (s_header (wo_ws w)) 0 = Some ?h0" "load (s_header (wo_ws v)) 0 = Some ?h0" using assms(2) by (simp_all add: v_def)
  have M: "getbuf (if ?m \<noteq> [0, 0, 0, 0] then let (m, mem) = ws_unmask ?m (wo_mem w) b n in
      upd_ws (\<lambda>ws. ws\<lparr>s_mask := m\<rparr>) (w\<lparr>wo_mem := mem\<rparr>) else w) ibuf = v"
  proof (cases "?m = [0, 0, 0, 0]")
    case True
    then show ?thesis by (cases w; cases "wo_ws w") (simp add: getbuf_def v_def)
  next
    case False
    then show ?thesis unfolding ws_unmask_eq [OF assms(3)] Let_def prod.case by (cases w) (simp add: getbuf_def v_def)
  qed
  have H: "ws_handle itf 0 ?h0 (b, n) v = Some (Turn, itf_f 0 (b, n) v)"
    using assms(4) by (auto simp: assms(9) ws_handle_def Let_def data_opcode_def opcodes)
  have nl: "\<not> unat (s_length (wo_ws w)) \<le> n" using assms(8) by simp
  have "ws_dispatch_data itf ibuf w b n = Some (Turn, itf_f 0 (b, n) v, b, 0)"
    unfolding ws_dispatch_data_def Let_def h Option.bind.simps
    using base nl M [unfolded Let_def] h(2) H assms(5,6)
    by (simp only: if_False if_True prod.case option.case Option.bind.simps not_False_eq_True) simp
  then have "dispatch_loop itf ibuf w b n = Some (0, itf_f 0 (b, n) v)"
    using assms(1,7) by (subst dispatch_loop.simps) (simp add: ws_turn_def dispatch_loop.simps)
  then show ?thesis using assms(1) by (intro exI [of _ v]) (simp add: v_def)
qed

lemma ws_partial_payload_witness:
  "\<exists>v. dispatch_loop quiet_itf 3 \<lparr>wo_ws = (header_read 0x81 5 None (ws_init 1000))\<lparr>s_bufs := [(0, 0), (0, 0), (0, 0), (100, 2)],
      s_uses := [0, 0, 0, 1]\<rparr>, wo_mem = memory_of 100 [65, 66], wo_freed = [], wo_client = ()\<rparr> 100 2 =
      Some (0, ws_release v (100, 2)) \<and> s_state (wo_ws v) = STATE_DATA \<and> s_length (wo_ws v) = 5"
proof -
  let ?w = "\<lparr>wo_ws = (header_read 0x81 5 None (ws_init 1000))\<lparr>s_bufs := [(0, 0), (0, 0), (0, 0), (100, 2)],
      s_uses := [0, 0, 0, 1]\<rparr>, wo_mem = memory_of 100 [65, 66], wo_freed = [], wo_client = ()\<rparr>"
  have W: "wire_header 0x81 5 None = [0x81, 5]" by (simp add: wire_header_def short_length_def extended_length_def)
  have h: "s_header (wo_ws ?w) ! 0 = 0x81" by (simp add: header_read_def W ws_init_def Let_def overwrite_def)
  have "\<exists>v. dispatch_loop quiet_itf 3 ?w 100 2 = Some (0, wi_on_text quiet_itf 0 (100, 2) v) \<and>
    s_state (wo_ws v) = STATE_DATA \<and> s_length (wo_ws v) = s_length (wo_ws ?w) \<and>
    wo_mem v = mask_range (s_mask (wo_ws ?w)) (wo_mem ?w) 100 2"
    by (rule ws_partial_payload)
      (simp_all add: h, simp_all add: header_read_def W ws_init_def Let_def overwrite_def quiet_itf_def data_opcode_def FRAME_GETs
        FRAME_GET_RSV123_def opcodes)
  then show ?thesis by (simp add: quiet_itf_def) (auto simp: header_read_def Let_def)
qed

end
