(* ===== verification/Jsonc.thy ===== *)
theory Jsonc
  imports Str2Int "HOL-Library.AList"
begin

unbundle bit_operations_syntax

text \<open>
  \<open>src/json/rp-jsonc.c\<close>, the reading part: error codes, integers out of JSON values,
  comparison, and the calls of a function on all items.

  The library \<open>json-c\<close> is a parameter: the record \<open>json_c\<close> of its operations on values
  of a type \<open>'j\<close>, the identities of objects; the null pointer, which stands for the JSON value
  null, is \<open>None\<close>. What the code relies on is the predicate \<open>json_c_ok\<close>, that relates
  each object to the JSON value it represents. The arithmetic of \<open>double\<close> is a parameter
  too.
\<close>

subsection \<open>The library of JSON objects\<close>

datatype json_type =
    json_type_null | json_type_boolean | json_type_double | json_type_int
  | json_type_object | json_type_array | json_type_string

text \<open>
  \<open>jc_int64\<close> and \<open>jc_uint64\<close> give the value and if \<open>errno\<close> is still 0.
  \<open>jc_object\<close> lists the entries in the order of the iteration, \<open>jc_get\<close> is
  \<open>json_object_object_get_ex\<close>. The functions that create objects may fail. The additions give
  the returned code, 0 or negative when they fail, and the container after the call.
\<close>

record ('j, 'd) json_c =
  jc_type :: "'j \<Rightarrow> json_type"
  jc_type_value :: "json_type \<Rightarrow> int"
  jc_boolean :: "'j \<Rightarrow> bool"
  jc_double :: "'j \<Rightarrow> 'd"
  jc_int64 :: "'j \<Rightarrow> 64 word \<times> bool"
  jc_uint64 :: "'j \<Rightarrow> 64 word \<times> bool"
  jc_string :: "'j \<Rightarrow> string"
  jc_array :: "'j \<Rightarrow> 'j option list"
  jc_object :: "'j \<Rightarrow> (string \<times> 'j option) list"
  jc_get :: "'j \<Rightarrow> string \<Rightarrow> 'j option option"
  jc_new_boolean :: "bool \<Rightarrow> 'j option"
  jc_new_int64 :: "int \<Rightarrow> 'j option"
  jc_new_uint64 :: "nat \<Rightarrow> 'j option"
  jc_new_double :: "'d \<Rightarrow> 'j option"
  jc_new_string :: "string \<Rightarrow> 'j option"
  jc_new_array :: "'j option"
  jc_new_object :: "'j option"
  jc_array_add :: "'j \<Rightarrow> 'j option \<Rightarrow> int \<times> 'j"
  jc_object_add :: "'j \<Rightarrow> string \<Rightarrow> 'j option \<Rightarrow> int \<times> 'j"
  jc_array_sort :: "('j option \<Rightarrow> 'j option \<Rightarrow> int) \<Rightarrow> 'j \<Rightarrow> 'j"

text \<open>Operations on \<open>double\<close>; a conversion to an integer out of its range is undefined.\<close>

record 'd c_double =
  cd_zero :: 'd
  cd_neg :: "'d \<Rightarrow> 'd"
  cd_lt :: "'d \<Rightarrow> 'd \<Rightarrow> bool"
  cd_eq :: "'d \<Rightarrow> 'd \<Rightarrow> bool"
  cd_of_u64 :: "64 word \<Rightarrow> 'd"
  cd_to_u64 :: "'d \<Rightarrow> 64 word option"

text \<open>\<open>json_object_get_type\<close> accepts the null pointer.\<close>

definition get_type :: "('j, 'd) json_c \<Rightarrow> 'j option \<Rightarrow> json_type" where
  "get_type api x = (case x of None \<Rightarrow> json_type_null | Some j \<Rightarrow> jc_type api j)"

definition array_get_idx :: "('j, 'd) json_c \<Rightarrow> 'j \<Rightarrow> nat \<Rightarrow> 'j option" where
  "array_get_idx api x i = (if i < length (jc_array api x) then jc_array api x ! i else None)"

text \<open>JSON values, and the representation of them by objects.\<close>

datatype 'd json = JNull | JBool bool | JInt int | JDouble 'd | JString string
  | JArray "'d json list" | JObject "(string \<times> 'd json) list"

definition value_of :: "('j \<Rightarrow> 'd json) \<Rightarrow> 'j option \<Rightarrow> 'd json" where
  "value_of jv x = (case x of None \<Rightarrow> JNull | Some j \<Rightarrow> jv j)"

fun json_type_of :: "'d json \<Rightarrow> json_type" where
  "json_type_of JNull = json_type_null"
| "json_type_of (JBool b) = json_type_boolean"
| "json_type_of (JInt i) = json_type_int"
| "json_type_of (JDouble d) = json_type_double"
| "json_type_of (JString s) = json_type_string"
| "json_type_of (JArray xs) = json_type_array"
| "json_type_of (JObject xs) = json_type_object"

definition represents :: "('j, 'd) json_c \<Rightarrow> ('j \<Rightarrow> 'd json) \<Rightarrow> 'j \<Rightarrow> bool" where
  "represents api jv x \<longleftrightarrow> jc_type api x = json_type_of (jv x) \<and>
     (case jv x of
        JNull \<Rightarrow> False
      | JBool b \<Rightarrow> jc_boolean api x = b
      | JInt i \<Rightarrow> - (2 ^ 63) \<le> i \<and> i < 2 ^ 64 \<and>
          snd (jc_uint64 api x) = (0 \<le> i) \<and> (0 \<le> i \<longrightarrow> fst (jc_uint64 api x) = word_of_int i) \<and>
          snd (jc_int64 api x) = (i < 2 ^ 63) \<and> fst (jc_int64 api x) = word_of_int (min i (2 ^ 63 - 1))
      | JDouble d \<Rightarrow> jc_double api x = d
      | JString s \<Rightarrow> jc_string api x = s
      | JArray xs \<Rightarrow> map (value_of jv) (jc_array api x) = xs
      | JObject kvs \<Rightarrow> map (\<lambda>(k, v). (k, value_of jv v)) (jc_object api x) = kvs \<and> distinct (map fst kvs) \<and>
          (\<forall>k. jc_get api x k = map_of (jc_object api x) k))"

text \<open>\<open>V\<close> tells the objects that exist; their items exist too.\<close>

definition valid :: "('j \<Rightarrow> bool) \<Rightarrow> 'j option \<Rightarrow> bool" where
  "valid V x = (case x of None \<Rightarrow> True | Some j \<Rightarrow> V j)"

definition json_c_ok :: "('j, 'd) json_c \<Rightarrow> ('j \<Rightarrow> 'd json) \<Rightarrow> ('j \<Rightarrow> bool) \<Rightarrow> bool" where
  "json_c_ok api jv V \<longleftrightarrow> inj (jc_type_value api) \<and>
     (\<forall>x. V x \<longrightarrow> represents api jv x \<and>
        (jc_type api x = json_type_array \<longrightarrow> (\<forall>v \<in> set (jc_array api x). valid V v)) \<and>
        (jc_type api x = json_type_object \<longrightarrow> (\<forall>kv \<in> set (jc_object api x). valid V (snd kv))))"

subsection \<open>Error codes\<close>

datatype rp_jsonc_error_codes =
    rp_jsonc_error_none | rp_jsonc_error_null_object | rp_jsonc_error_truncated | rp_jsonc_error_internal_error
  | rp_jsonc_error_out_of_memory | rp_jsonc_error_invalid_character | rp_jsonc_error_too_long | rp_jsonc_error_too_deep
  | rp_jsonc_error_null_spec | rp_jsonc_error_null_key | rp_jsonc_error_null_string | rp_jsonc_error_out_of_range
  | rp_jsonc_error_dictionary_incomplete | rp_jsonc_error_missfit_type | rp_jsonc_error_key_not_found
  | rp_jsonc_error_bad_base64 | rp_jsonc_error_array_incomplete | rp_jsonc_error_array_extra_field

definition all_errors :: "rp_jsonc_error_codes list" where
  "all_errors = [rp_jsonc_error_none, rp_jsonc_error_null_object, rp_jsonc_error_truncated, rp_jsonc_error_internal_error,
     rp_jsonc_error_out_of_memory, rp_jsonc_error_invalid_character, rp_jsonc_error_too_long, rp_jsonc_error_too_deep,
     rp_jsonc_error_null_spec, rp_jsonc_error_null_key, rp_jsonc_error_null_string, rp_jsonc_error_out_of_range,
     rp_jsonc_error_dictionary_incomplete, rp_jsonc_error_missfit_type, rp_jsonc_error_key_not_found,
     rp_jsonc_error_bad_base64, rp_jsonc_error_array_incomplete, rp_jsonc_error_array_extra_field]"

definition error_value :: "rp_jsonc_error_codes \<Rightarrow> nat" where
  "error_value e = length (takeWhile (\<lambda>x. x \<noteq> e) all_errors)"

text \<open>The returned code holds the error in its low bits and the position in the description above:
  \<open>- (rc | (int)((d - desc) << 4))\<close>, the conversion to \<open>int\<close> keeping the 32 low bits.\<close>

definition error_at :: "rp_jsonc_error_codes \<Rightarrow> nat \<Rightarrow> int" where
  "error_at e pos = - sint (of_nat (error_value e) OR push_bit 4 (of_nat pos) :: 32 word)"

definition rp_jsonc_get_error_position :: "int \<Rightarrow> int" where
  "rp_jsonc_get_error_position rc = drop_bit 4 (if rc < 0 then - rc else rc) + 1"

definition rp_jsonc_get_error_code :: "int \<Rightarrow> int" where
  "rp_jsonc_get_error_code rc = (if rc < 0 then - rc else rc) AND 15"

definition pack_errors :: "string list" where
  "pack_errors = [''unknown error'', ''null object'', ''truncated'', ''internal error'', ''out of memory'', ''invalid character'',
     ''too long'', ''too deep'', ''spec is NULL'', ''key is NULL'', ''string is NULL'', ''array too small'',
     ''dictionary either incomplete or with extra item'', ''missfit of type'', ''key not found'', ''bad base64 encoding'',
     ''incomplete array'', ''array with extra item'']"

definition rp_jsonc_get_error_string :: "int \<Rightarrow> string" where
  "rp_jsonc_get_error_string rc =
     (let rc = rp_jsonc_get_error_code rc; rc = (if rc \<ge> int (length pack_errors) then 0 else rc) in pack_errors ! nat rc)"

subsection \<open>Integers\<close>

definition rp_jsonc_int_mode_strict :: int where "rp_jsonc_int_mode_strict = 0"
definition rp_jsonc_int_mode_double :: int where "rp_jsonc_int_mode_double = 1"
definition rp_jsonc_int_mode_string :: int where "rp_jsonc_int_mode_string = 2"
definition rp_jsonc_int_mode_boolean :: int where "rp_jsonc_int_mode_boolean = 4"
definition rp_jsonc_int_mode_null :: int where "rp_jsonc_int_mode_null = 8"
definition rp_jsonc_int_mode_number :: int where "rp_jsonc_int_mode_number = 3"
definition rp_jsonc_int_mode_any :: int where "rp_jsonc_int_mode_any = 15"

lemmas int_modes = rp_jsonc_int_mode_strict_def rp_jsonc_int_mode_double_def rp_jsonc_int_mode_string_def
  rp_jsonc_int_mode_boolean_def rp_jsonc_int_mode_null_def rp_jsonc_int_mode_number_def rp_jsonc_int_mode_any_def

text \<open>
  The result: the sign, 0 for a failure, and the value stored if one is. The negation of the least value of a
  signed type overflows, what is not defined: \<open>None\<close>.
\<close>

definition getu64 ::
  "('j, 'd) json_c \<Rightarrow> 'd c_double \<Rightarrow> 'j option \<Rightarrow> int \<Rightarrow> (int \<times> 64 word option) option" where
  "getu64 api dd obj mode =
     (case obj of
        None \<Rightarrow> Some (if mode AND rp_jsonc_int_mode_null \<noteq> 0 then (1, Some 0) else (0, None))
      | Some x \<Rightarrow> case jc_type api x of
          json_type_null \<Rightarrow> Some (if mode AND rp_jsonc_int_mode_null \<noteq> 0 then (1, Some 0) else (0, None))
        | json_type_boolean \<Rightarrow>
            Some (if mode AND rp_jsonc_int_mode_boolean \<noteq> 0 then (1, Some (of_bool (jc_boolean api x))) else (0, None))
        | json_type_double \<Rightarrow>
            if mode AND rp_jsonc_int_mode_double \<noteq> 0 then do {
              let d = jc_double api x;
              v \<leftarrow> cd_to_u64 dd (if cd_lt dd d (cd_zero dd) then cd_neg dd d else d);
              Some (if cd_eq dd d (cd_of_u64 dd v)
                    then (if cd_lt dd (cd_zero dd) d \<or> cd_eq dd d (cd_zero dd) then 1 else - 1, Some v)
                    else (0, Some v))
            }
            else Some (0, None)
        | json_type_int \<Rightarrow>
            let (v, ok) = jc_uint64 api x in
            if ok then Some (1, Some v)
            else let (v, ok) = jc_int64 api x in if v = 2 ^ 63 then None else Some (if ok then - 1 else 0, Some (- v))
        | json_type_string \<Rightarrow>
            if mode AND rp_jsonc_int_mode_string \<noteq> 0 then rp_str2u64 (cstr (jc_string api x)) else Some (0, None)
        | _ \<Rightarrow> Some (0, None))"

text \<open>
  The result of the getters: true or false, and the value if one is stored, in the type asked for.
\<close>

definition rp_jsonc_get_int64 ::
  "('j, 'd) json_c \<Rightarrow> 'd c_double \<Rightarrow> 'j option \<Rightarrow> int \<Rightarrow> (int \<times> int option) option" where
  "rp_jsonc_get_int64 api dd obj mode = do {
     (rc, u64) \<leftarrow> getu64 api dd obj mode;
     if rc < 0 then do {
       u \<leftarrow> u64;
       if u > 2 ^ 63 then Some (0, None) else if u = 2 ^ 63 then None else Some (1, Some (sint (- u)))
     }
     else if rc > 0 then do {
       u \<leftarrow> u64;
       Some (if u > 2 ^ 63 - 1 then (0, None) else (rc, Some (sint u)))
     }
     else Some (rc, None)
   }"

definition rp_jsonc_get_uint64 ::
  "('j, 'd) json_c \<Rightarrow> 'd c_double \<Rightarrow> 'j option \<Rightarrow> int \<Rightarrow> (int \<times> int option) option" where
  "rp_jsonc_get_uint64 api dd obj mode = do {
     (rc, v) \<leftarrow> getu64 api dd obj mode;
     Some (of_bool (rc > 0), map_option uint v)
   }"

definition rp_jsonc_get_int32 ::
  "('j, 'd) json_c \<Rightarrow> 'd c_double \<Rightarrow> 'j option \<Rightarrow> int \<Rightarrow> (int \<times> int option) option" where
  "rp_jsonc_get_int32 api dd obj mode = do {
     (rc, u64) \<leftarrow> getu64 api dd obj mode;
     if rc < 0 then do {
       u \<leftarrow> u64;
       if u > 2 ^ 31 then Some (0, None) else if u = 2 ^ 31 then None else Some (1, Some (sint (- (ucast u :: 32 word))))
     }
     else if rc > 0 then do {
       u \<leftarrow> u64;
       Some (if u > 2 ^ 31 - 1 then (0, None) else (rc, Some (sint (ucast u :: 32 word))))
     }
     else Some (rc, None)
   }"

definition rp_jsonc_get_uint32 ::
  "('j, 'd) json_c \<Rightarrow> 'd c_double \<Rightarrow> 'j option \<Rightarrow> int \<Rightarrow> (int \<times> int option) option" where
  "rp_jsonc_get_uint32 api dd obj mode = do {
     (rc, u64) \<leftarrow> getu64 api dd obj mode;
     if rc > 0 then do {
       u \<leftarrow> u64;
       Some (if u \<le> 2 ^ 32 - 1 then (rc, Some (uint (ucast u :: 32 word))) else (0, None))
     }
     else Some (0, None)
   }"

subsection \<open>Calls on items\<close>

text \<open>A callback gets the closure, the item and its name or the null pointer.\<close>

type_synonym ('j, 's) item_cb = "'j option \<Rightarrow> string option \<Rightarrow> 's \<Rightarrow> 's"
type_synonym ('j, 's) until_cb = "'j option \<Rightarrow> string option \<Rightarrow> 's \<Rightarrow> int \<times> 's"

definition object_for_all :: "('j, 'd) json_c \<Rightarrow> 'j \<Rightarrow> ('j, 's) item_cb \<Rightarrow> 's \<Rightarrow> 's" where
  "object_for_all api x f s = fold (\<lambda>(k, v). f v (Some k)) (jc_object api x) s"

definition array_for_all :: "('j, 'd) json_c \<Rightarrow> 'j \<Rightarrow> ('j, 's) item_cb \<Rightarrow> 's \<Rightarrow> 's" where
  "array_for_all api x f s = fold (\<lambda>i. f (array_get_idx api x i) None) [0..<length (jc_array api x)] s"

definition is_type :: "('j, 'd) json_c \<Rightarrow> 'j option \<Rightarrow> json_type \<Rightarrow> bool" where
  "is_type api x t \<longleftrightarrow> get_type api x = t"

definition rp_jsonc_optarray_for_all where
  "rp_jsonc_optarray_for_all api obj f s =
     (if is_type api obj json_type_array then array_for_all api (the obj) f s else f obj None s)"

definition rp_jsonc_array_for_all where
  "rp_jsonc_array_for_all api obj f s =
     (if is_type api obj json_type_array then array_for_all api (the obj) f s else s)"

definition rp_jsonc_object_for_all where
  "rp_jsonc_object_for_all api obj f s =
     (if is_type api obj json_type_object then object_for_all api (the obj) f s else s)"

definition rp_jsonc_optobject_for_all where
  "rp_jsonc_optobject_for_all api obj f s =
     (if is_type api obj json_type_object then object_for_all api (the obj) f s else f obj None s)"

definition rp_jsonc_for_all where
  "rp_jsonc_for_all api obj f s =
     (case obj of
        None \<Rightarrow> s
      | Some x \<Rightarrow>
          if is_type api obj json_type_object then object_for_all api x f s
          else if \<not> is_type api obj json_type_array then f obj None s
          else array_for_all api x f s)"

text \<open>The loops that stop at the first value that is not 0.\<close>

fun until_nonzero :: "('a \<Rightarrow> 's \<Rightarrow> int \<times> 's) \<Rightarrow> 'a list \<Rightarrow> 's \<Rightarrow> int \<times> 's" where
  "until_nonzero f [] s = (0, s)"
| "until_nonzero f (x # xs) s = (let (r, s) = f x s in if r = 0 then until_nonzero f xs s else (r, s))"

definition object_until :: "('j, 'd) json_c \<Rightarrow> 'j \<Rightarrow> ('j, 's) until_cb \<Rightarrow> 's \<Rightarrow> int \<times> 's" where
  "object_until api x f s = until_nonzero (\<lambda>(k, v). f v (Some k)) (jc_object api x) s"

definition array_until :: "('j, 'd) json_c \<Rightarrow> 'j \<Rightarrow> ('j, 's) until_cb \<Rightarrow> 's \<Rightarrow> int \<times> 's" where
  "array_until api x f s = until_nonzero (\<lambda>i. f (array_get_idx api x i) None) [0..<length (jc_array api x)] s"

definition rp_jsonc_optarray_until where
  "rp_jsonc_optarray_until api obj f s =
     (if is_type api obj json_type_array then array_until api (the obj) f s else f obj None s)"

definition rp_jsonc_array_until where
  "rp_jsonc_array_until api obj f s =
     (if is_type api obj json_type_array then array_until api (the obj) f s else (0, s))"

definition rp_jsonc_object_until where
  "rp_jsonc_object_until api obj f s =
     (if is_type api obj json_type_object then object_until api (the obj) f s else (0, s))"

definition rp_jsonc_optobject_until where
  "rp_jsonc_optobject_until api obj f s =
     (if is_type api obj json_type_object then object_until api (the obj) f s else f obj None s)"

definition rp_jsonc_until where
  "rp_jsonc_until api obj f s =
     (case obj of
        None \<Rightarrow> (0, s)
      | Some x \<Rightarrow>
          if is_type api obj json_type_object then object_until api x f s
          else if \<not> is_type api obj json_type_array then f obj None s
          else array_until api x f s)"

subsection \<open>Comparison\<close>

fun strcmp :: "mem \<Rightarrow> mem \<Rightarrow> int option" where
  "strcmp (a # x) (b # y) =
     (if a \<noteq> b then Some (int (uchar a) - int (uchar b)) else if a = NUL then Some 0 else strcmp x y)"
| "strcmp _ _ = None"

text \<open>
  The array of the sorted keys of an object; \<open>cmp\<close> is the comparison given to the sort.
\<close>

fun add_keys :: "('j, 'd) json_c \<Rightarrow> (string \<times> 'j option) list \<Rightarrow> 'j \<Rightarrow> 'j" where
  "add_keys api [] r = r"
| "add_keys api ((k, v) # kvs) r = add_keys api kvs (snd (jc_array_add api r (jc_new_string api k)))"

definition sort_with :: "('j, 'd) json_c \<Rightarrow> ('j option \<Rightarrow> 'j option \<Rightarrow> int) \<Rightarrow> 'j option \<Rightarrow> 'j option" where
  "sort_with api cmp x = (if is_type api x json_type_array then map_option (jc_array_sort api cmp) x else x)"

definition keys_with :: "('j, 'd) json_c \<Rightarrow> ('j option \<Rightarrow> 'j option \<Rightarrow> int) \<Rightarrow> 'j option \<Rightarrow> 'j option option" where
  "keys_with api cmp x =
     (if \<not> is_type api x json_type_object then Some None
      else do { r \<leftarrow> jc_new_array api; Some (sort_with api cmp (Some (add_keys api (jc_object api (the x)) r))) })"

text \<open>The loops on the items, up to a difference.\<close>

fun first_difference :: "('a \<Rightarrow> int option) \<Rightarrow> 'a list \<Rightarrow> int option" where
  "first_difference f [] = Some 0"
| "first_difference f (x # xs) = do { r \<leftarrow> f x; if r = 0 then first_difference f xs else Some r }"

text \<open>
  \<open>jcmp\<close> recurses on items: the first argument bounds the depth. When a key is
  missing and the comparison is for sorting, the loop stays on that key: a result of 0 for the keys would
  never end it.
\<close>

fun jcmp :: "('j, 'd) json_c \<Rightarrow> 'd c_double \<Rightarrow> nat \<Rightarrow> 'j option \<Rightarrow> 'j option \<Rightarrow> bool \<Rightarrow> bool \<Rightarrow> int option" where
  "jcmp api dd 0 x y inc srt = None"
| "jcmp api dd (Suc n) x y inc srt =
     (if x = y then Some 0
      else let tx = get_type api x; ty = get_type api y; r = jc_type_value api tx - jc_type_value api ty in
      if r \<noteq> 0 then Some r
      else case (x, y) of
        (Some x', Some y') \<Rightarrow>
          (case tx of
             json_type_null \<Rightarrow> Some 0
           | json_type_boolean \<Rightarrow> Some (of_bool (jc_boolean api x') - of_bool (jc_boolean api y'))
           | json_type_double \<Rightarrow>
               let dx = jc_double api x'; dy = jc_double api y' in
               Some (if cd_lt dd dx dy then - 1 else of_bool (cd_lt dd dy dx))
           | json_type_int \<Rightarrow>
               let ix = sint (fst (jc_int64 api x')); iy = sint (fst (jc_int64 api y')) in
               Some (if ix < iy then - 1 else of_bool (iy < ix))
           | json_type_object \<Rightarrow>
               let r = int (length (jc_object api x')) - int (length (jc_object api y'));
                   r = (if r > 0 \<and> inc then 0 else r) in
               if r \<noteq> 0 then Some r
               else first_difference (\<lambda>(k, jy).
                 case jc_get api x' k of
                   Some jx \<Rightarrow> jcmp api dd n jx jy inc srt
                 | None \<Rightarrow>
                     if srt then do {
                       kx \<leftarrow> keys_with api (\<lambda>a b. case jcmp api dd n a b False True of Some r \<Rightarrow> r | None \<Rightarrow> 0) x;
                       ky \<leftarrow> keys_with api (\<lambda>a b. case jcmp api dd n a b False True of Some r \<Rightarrow> r | None \<Rightarrow> 0) y;
                       r \<leftarrow> jcmp api dd n kx ky False True;
                       if r = 0 then None else Some r
                     }
                     else Some 1) (jc_object api y')
           | json_type_array \<Rightarrow>
               let r = int (length (jc_array api x')) - int (length (jc_array api y'));
                   r = (if r > 0 \<and> inc then 0 else r) in
               if r \<noteq> 0 then Some r
               else first_difference (\<lambda>i. jcmp api dd n (array_get_idx api x' i) (array_get_idx api y' i) inc srt)
                 [0..<length (jc_array api y')]
           | json_type_string \<Rightarrow> strcmp (cstr (jc_string api x')) (cstr (jc_string api y')))
      | _ \<Rightarrow> Some 0)"

definition rp_jsonc_cmp :: "('j, 'd) json_c \<Rightarrow> 'd c_double \<Rightarrow> nat \<Rightarrow> 'j option \<Rightarrow> 'j option \<Rightarrow> int option" where
  "rp_jsonc_cmp api dd n x y = jcmp api dd n x y False True"

definition rp_jsonc_equal :: "('j, 'd) json_c \<Rightarrow> 'd c_double \<Rightarrow> nat \<Rightarrow> 'j option \<Rightarrow> 'j option \<Rightarrow> bool option" where
  "rp_jsonc_equal api dd n x y = map_option (\<lambda>r. r = 0) (jcmp api dd n x y False False)"

definition rp_jsonc_contains :: "('j, 'd) json_c \<Rightarrow> 'd c_double \<Rightarrow> nat \<Rightarrow> 'j option \<Rightarrow> 'j option \<Rightarrow> bool option" where
  "rp_jsonc_contains api dd n x y = map_option (\<lambda>r. r = 0) (jcmp api dd n x y True False)"

text \<open>The comparison given to the sort of arrays, where \<open>n\<close> bounds the depth of the items.\<close>

definition cmp_with :: "('j, 'd) json_c \<Rightarrow> 'd c_double \<Rightarrow> nat \<Rightarrow> 'j option \<Rightarrow> 'j option \<Rightarrow> int" where
  "cmp_with api dd n a b = (case rp_jsonc_cmp api dd n a b of Some r \<Rightarrow> r | None \<Rightarrow> 0)"

definition rp_jsonc_sort :: "('j, 'd) json_c \<Rightarrow> 'd c_double \<Rightarrow> nat \<Rightarrow> 'j option \<Rightarrow> 'j option" where
  "rp_jsonc_sort api dd n x = sort_with api (cmp_with api dd n) x"

definition rp_jsonc_keys :: "('j, 'd) json_c \<Rightarrow> 'd c_double \<Rightarrow> nat \<Rightarrow> 'j option \<Rightarrow> 'j option option" where
  "rp_jsonc_keys api dd n x = keys_with api (cmp_with api dd n) x"

subsection \<open>The comparison that is decided\<close>

text \<open>
  The relation of JSON values that the comparisons decide: equality, or with \<open>inc\<close>
  inclusion of the second in the first. Objects are compared by their keys, in any order; an array
  includes its prefixes; texts are compared up to their first zero, integers up to \<open>INT64_MAX\<close>.
\<close>

lemma size_list_nth [termination_simp]: "i < length xs \<Longrightarrow> f (xs ! i) < Suc (size_list f xs)"
  by (rule le_imp_less_Suc, rule size_list_estimation' [where x = "xs ! i"]) simp_all

fun json_rel :: "'d c_double \<Rightarrow> bool \<Rightarrow> 'd json \<Rightarrow> 'd json \<Rightarrow> bool" where
  "json_rel dd inc JNull JNull = True"
| "json_rel dd inc (JBool a) (JBool b) = (a = b)"
| "json_rel dd inc (JInt a) (JInt b) = (min a (2 ^ 63 - 1) = min b (2 ^ 63 - 1))"
| "json_rel dd inc (JDouble a) (JDouble b) = (\<not> cd_lt dd a b \<and> \<not> cd_lt dd b a)"
| "json_rel dd inc (JString s) (JString t) = (takeWhile (\<lambda>c. c \<noteq> NUL) s = takeWhile (\<lambda>c. c \<noteq> NUL) t)"
| "json_rel dd inc (JArray xs) (JArray ys) =
     ((if inc then length ys \<le> length xs else length ys = length xs) \<and>
      (\<forall>i < length ys. json_rel dd inc (xs ! i) (ys ! i)))"
| "json_rel dd inc (JObject xs) (JObject ys) =
     ((if inc then length ys \<le> length xs else length ys = length xs) \<and>
      (\<forall>kv \<in> set ys. case map_of xs (fst kv) of None \<Rightarrow> False | Some x \<Rightarrow> json_rel dd inc x (snd kv)))"
| "json_rel dd inc _ _ = False"

fun json_depth :: "'d json \<Rightarrow> nat" where
  "json_depth (JArray xs) = Suc (foldr (\<lambda>x. max (json_depth x)) xs 0)"
| "json_depth (JObject kvs) = Suc (foldr (\<lambda>kv. max (json_depth (snd kv))) kvs 0)"
| "json_depth _ = 1"

lemma foldr_max_le: "foldr (\<lambda>x. max (f x)) xs 0 \<le> (n :: nat) \<longleftrightarrow> (\<forall>x \<in> set xs. f x \<le> n)"
  by (induction xs) auto

lemma json_depth_array: "json_depth (JArray xs) \<le> Suc n \<longleftrightarrow> (\<forall>x \<in> set xs. json_depth x \<le> n)"
  by (simp add: foldr_max_le)

lemma json_depth_object: "json_depth (JObject kvs) \<le> Suc n \<longleftrightarrow> (\<forall>kv \<in> set kvs. json_depth (snd kv) \<le> n)"
  by (simp add: foldr_max_le [where f = "\<lambda>kv. json_depth (snd kv)"])

lemma json_depth_pos: "0 < json_depth v"
  by (cases v) simp_all

subsection \<open>Lemmas on the objects\<close>

lemma value_of_simps [simp]: "value_of jv None = JNull" "value_of jv (Some x) = jv x"
  by (simp_all add: value_of_def)

lemma valid_simps [simp]: "valid V None" "valid V (Some x) = V x"
  by (simp_all add: valid_def)

lemma rep: "json_c_ok api jv V \<Longrightarrow> V x \<Longrightarrow> represents api jv x"
  by (simp add: json_c_ok_def)

lemma not_null: "json_c_ok api jv V \<Longrightarrow> V x \<Longrightarrow> jv x \<noteq> JNull"
  using rep [of api jv V x] by (auto simp: represents_def)

lemma get_type_value: "json_c_ok api jv V \<Longrightarrow> valid V x \<Longrightarrow> get_type api x = json_type_of (value_of jv x)"
  using rep [of api jv V] by (cases x) (auto simp: get_type_def represents_def)

lemma rep_array:
  assumes "json_c_ok api jv V" and "V x" and "jv x = JArray xs"
  shows "length (jc_array api x) = length xs" "i < length xs \<Longrightarrow> value_of jv (array_get_idx api x i) = xs ! i"
    "i < length xs \<Longrightarrow> valid V (array_get_idx api x i)"
proof -
  note R = rep [OF assms(1,2)]
  show l: "length (jc_array api x) = length xs" "i < length xs \<Longrightarrow> value_of jv (array_get_idx api x i) = xs ! i"
    using R assms(3) by (auto simp: represents_def array_get_idx_def)
  have "jc_type api x = json_type_array" using R assms(3) by (simp add: represents_def)
  then have "\<forall>v \<in> set (jc_array api x). valid V v" using assms(1,2) by (simp add: json_c_ok_def)
  then show "i < length xs \<Longrightarrow> valid V (array_get_idx api x i)" using l(1) by (simp add: array_get_idx_def)
qed

lemma rep_object:
  assumes "json_c_ok api jv V" and "V x" and "jv x = JObject kvs"
  shows "kvs = map (\<lambda>(k, v). (k, value_of jv v)) (jc_object api x)" "distinct (map fst kvs)"
    "jc_get api x k = map_of (jc_object api x) k" "map_of kvs k = map_option (value_of jv) (jc_get api x k)"
    "kv \<in> set (jc_object api x) \<Longrightarrow> valid V (snd kv)" "jc_get api x k = Some v \<Longrightarrow> valid V v"
proof -
  note R = rep [OF assms(1,2)]
  show l: "kvs = map (\<lambda>(k, v). (k, value_of jv v)) (jc_object api x)" "distinct (map fst kvs)"
    "jc_get api x k = map_of (jc_object api x) k" "map_of kvs k = map_option (value_of jv) (jc_get api x k)" for k
    using R assms(3) by (auto simp: represents_def map_of_map)
  have "jc_type api x = json_type_object" using R assms(3) by (simp add: represents_def)
  then have V: "\<forall>kv \<in> set (jc_object api x). valid V (snd kv)" using assms(1,2) by (simp add: json_c_ok_def)
  then show "kv \<in> set (jc_object api x) \<Longrightarrow> valid V (snd kv)" by blast
  show "jc_get api x k = Some v \<Longrightarrow> valid V v" using V l(3) [of k] by (metis map_of_SomeD snd_conv)
qed

lemma first_difference_zero:
  assumes "\<And>x. x \<in> set xs \<Longrightarrow> \<exists>r. f x = Some r \<and> (r = 0 \<longleftrightarrow> P x)"
  shows "\<exists>r. first_difference f xs = Some r \<and> (r = 0 \<longleftrightarrow> (\<forall>x \<in> set xs. P x))"
  using assms
proof (induction xs)
  case (Cons x xs)
  obtain r where r: "f x = Some r" "r = 0 \<longleftrightarrow> P x" using Cons.prems by (meson list.set_intros(1))
  obtain q where "first_difference f xs = Some q" "q = 0 \<longleftrightarrow> (\<forall>x \<in> set xs. P x)"
    using Cons by (meson list.set_intros(2))
  then show ?case using r by auto
qed simp

lemma strcmp_cstr:
  "\<exists>r. strcmp (cstr s) (cstr t) = Some r \<and> (r = 0 \<longleftrightarrow> takeWhile (\<lambda>c. c \<noteq> NUL) s = takeWhile (\<lambda>c. c \<noteq> NUL) t)"
proof (induction s arbitrary: t)
  case Nil
  then show ?case by (cases t) (auto simp: cstr_def char_eq_uchar)
next
  case (Cons a s)
  have z: "int (uchar a) - int (uchar b) = 0 \<longleftrightarrow> a = b" for b by (auto simp: char_eq_uchar)
  show ?case
  proof (cases t)
    case Nil
    then show ?thesis using z [of NUL] by (auto simp: cstr_def)
  next
    case (Cons b u)
    then show ?thesis using Cons.IH [of u] z [of b] by (auto simp: cstr_def)
  qed
qed

text \<open>Equality of the pointers is a shortcut.\<close>

lemma json_rel_refl:
  assumes "json_c_ok api jv V" and "\<And>d. \<not> cd_lt dd d d"
  shows "valid V x \<Longrightarrow> json_depth (value_of jv x) \<le> n \<Longrightarrow> json_rel dd inc (value_of jv x) (value_of jv x)"
proof (induction n arbitrary: x)
  case 0
  then show ?case using json_depth_pos [of "value_of jv x"] by simp
next
  case (Suc n)
  show ?case
  proof (cases x)
    case (Some j)
    have V: "V j" using Suc.prems(1) Some by simp
    show ?thesis
    proof (cases "jv j")
      case (JArray xs)
      have "json_rel dd inc (xs ! i) (xs ! i)" if "i < length xs" for i
      proof -
        note A = rep_array(2,3) [OF assms(1) V JArray that]
        have "json_depth (xs ! i) \<le> n"
          using Suc.prems(2) that unfolding Some value_of_simps JArray json_depth_array by simp
        then show ?thesis using Suc.IH [OF A(2)] A(1) by simp
      qed
      then show ?thesis using Some JArray by simp
    next
      case (JObject kvs)
      note R = rep_object [OF assms(1) V JObject]
      have "case map_of kvs (fst kv) of None \<Rightarrow> False | Some a \<Rightarrow> json_rel dd inc a (snd kv)" if kv: "kv \<in> set kvs" for kv
      proof -
        have m: "map_of kvs (fst kv) = Some (snd kv)" using kv R(2) by (metis map_of_is_SomeI prod.collapse)
        then obtain v where v: "jc_get api j (fst kv) = Some v" "snd kv = value_of jv v" using R(4) by auto
        have "json_depth (snd kv) \<le> n"
          using Suc.prems(2) kv unfolding Some value_of_simps JObject json_depth_object by simp
        then show ?thesis using Suc.IH [OF R(6) [OF v(1)]] v(2) m by simp
      qed
      then show ?thesis using Some JObject by simp
    qed (use Some V assms(2) not_null [OF assms(1)] in auto)
  qed simp
qed

lemma int_minus_zero: "inj f \<Longrightarrow> f a - f b = (0 :: int) \<longleftrightarrow> a = b"
  by (auto simp: inj_eq)

lemma sint_word_of_int64: "- (2 ^ 63) \<le> i \<Longrightarrow> i < 2 ^ 63 \<Longrightarrow> sint (word_of_int i :: 64 word) = i"
  by (simp add: sint_sbintrunc' signed_take_bit_int_eq_self)

text \<open>For equality and inclusion, with fuel for the depth of the second value.\<close>

lemma jcmp_decides:
  assumes "json_c_ok api jv V" and "\<And>d. \<not> cd_lt dd d d"
  shows "valid V x \<Longrightarrow> valid V y \<Longrightarrow> json_depth (value_of jv x) \<le> n \<Longrightarrow> json_depth (value_of jv y) \<le> n \<Longrightarrow>
    \<exists>r. jcmp api dd n x y inc False = Some r \<and> (r = 0 \<longleftrightarrow> json_rel dd inc (value_of jv x) (value_of jv y))"
proof (induction n arbitrary: x y)
  case 0
  then show ?case using json_depth_pos [of "value_of jv y"] by simp
next
  case (Suc n)
  note tv = get_type_value [OF assms(1) Suc.prems(1)] get_type_value [OF assms(1) Suc.prems(2)]
  have inj: "inj (jc_type_value api)" using assms(1) by (simp add: json_c_ok_def)
  show ?case
  proof (cases "x = y")
    case True
    then show ?thesis using json_rel_refl [OF assms Suc.prems(1,3), of inc] by simp
  next
    case neq: False
    show ?thesis
    proof (cases "json_type_of (value_of jv x) = json_type_of (value_of jv y)")
      case False
      then have "\<not> json_rel dd inc (value_of jv x) (value_of jv y)"
        by (cases "value_of jv x"; cases "value_of jv y") auto
      then show ?thesis using neq False int_minus_zero [OF inj] by (simp add: tv Let_def)
    next
      case True
      have "json_type_of v = json_type_null \<longleftrightarrow> v = JNull" for v :: "'b json" by (cases v) simp_all
      then have "(x = None) = (y = None)" using True not_null [OF assms(1)] Suc.prems(1,2)
        by (cases x; cases y) (auto; metis)+
      then obtain a b where xy: "x = Some a" "y = Some b" using neq by (cases x; cases y) auto
      have ab: "a \<noteq> b" using neq xy by simp
      note tv = tv [unfolded xy]
      have Va: "V a" and Vb: "V b" using Suc.prems(1,2) xy by simp_all
      have R: "represents api jv a" "represents api jv b" using rep [OF assms(1)] Va Vb by simp_all
      show ?thesis
      proof (cases "jv b")
        case JNull
        then show ?thesis using not_null [OF assms(1) Vb] by blast
      next
        case (JBool q)
        then obtain p where "jv a = JBool p" using True xy by (cases "jv a") auto
        then show ?thesis using ab xy JBool R by (auto simp: tv represents_def Let_def)
      next
        case (JInt j)
        then obtain i where "jv a = JInt i" using True xy by (cases "jv a") auto
        then show ?thesis using ab xy JInt R
          by (auto simp: tv represents_def Let_def sint_word_of_int64 min_def)
      next
        case (JDouble e)
        then obtain d where "jv a = JDouble d" using True xy by (cases "jv a") auto
        then show ?thesis using ab xy JDouble R by (auto simp: tv represents_def Let_def)
      next
        case (JString t)
        then obtain s where "jv a = JString s" using True xy by (cases "jv a") auto
        then show ?thesis using ab xy JString R strcmp_cstr [of s t] by (auto simp: tv represents_def Let_def)
      next
        case (JArray ys)
        then obtain xs where xs: "jv a = JArray xs" using True xy by (cases "jv a") auto
        note A = rep_array [OF assms(1) Va xs] and B = rep_array [OF assms(1) Vb JArray]
        have dx: "\<forall>v \<in> set xs. json_depth v \<le> n" "\<forall>v \<in> set ys. json_depth v \<le> n"
          using Suc.prems(3,4) unfolding xy value_of_simps xs JArray json_depth_array by simp_all
        have I: "\<exists>r. jcmp api dd n (array_get_idx api a i) (array_get_idx api b i) inc False = Some r \<and>
            (r = 0 \<longleftrightarrow> json_rel dd inc (xs ! i) (ys ! i))" if "i < length ys" "i < length xs" for i
          using Suc.IH [OF A(3) [OF that(2)] B(3) [OF that(1)]] A(2) [OF that(2)] B(2) [OF that(1)] that dx by simp
        let ?lx = "length xs" and ?ly = "length ys"
        let ?r = "if int ?lx - int ?ly > 0 \<and> inc then 0 else int ?lx - int ?ly"
        let ?f = "\<lambda>i. jcmp api dd n (array_get_idx api a i) (array_get_idx api b i) inc False"
        have E: "jcmp api dd (Suc n) x y inc False = (if ?r \<noteq> 0 then Some ?r else first_difference ?f [0..<?ly])"
          using ab xy xs JArray A(1) B(1) by (simp add: tv Let_def)
        show ?thesis
        proof (cases "if inc then ?ly \<le> ?lx else ?ly = ?lx")
          case True
          have "\<exists>r. ?f i = Some r \<and> (r = 0 \<longleftrightarrow> json_rel dd inc (xs ! i) (ys ! i))" if i: "i \<in> set [0..<?ly]" for i
            by (rule I) (use i True in \<open>auto split: if_splits\<close>)
          then have "\<exists>r. first_difference ?f [0..<?ly] = Some r \<and>
              (r = 0 \<longleftrightarrow> (\<forall>i \<in> set [0..<?ly]. json_rel dd inc (xs ! i) (ys ! i)))"
            by (rule first_difference_zero)
          moreover have "?r = 0" using True by (auto split: if_splits)
          ultimately show ?thesis unfolding E using True by (cases inc) (simp_all add: xy xs JArray Ball_def)
        next
          case False
          then have "?r \<noteq> 0" by (auto split: if_splits)
          moreover have "\<not> json_rel dd inc (value_of jv x) (value_of jv y)" using False by (simp add: xy xs JArray)
          ultimately show ?thesis unfolding E by simp
        qed
      next
        case (JObject ys)
        then obtain xs where xs: "jv a = JObject xs" using True xy by (cases "jv a") auto
        note A = rep_object [OF assms(1) Va xs] and B = rep_object [OF assms(1) Vb JObject]
        have dx: "\<forall>kv \<in> set xs. json_depth (snd kv) \<le> n" "\<forall>kv \<in> set ys. json_depth (snd kv) \<le> n"
          using Suc.prems(3,4) unfolding xy value_of_simps xs JObject json_depth_object by simp_all
        let ?f = "\<lambda>(k, jy). case jc_get api a k of Some jx \<Rightarrow> jcmp api dd n jx jy inc False | None \<Rightarrow> Some 1"
        let ?P = "\<lambda>kv. case map_of xs (fst kv) of None \<Rightarrow> False | Some v \<Rightarrow> json_rel dd inc v (value_of jv (snd kv))"
        have I: "\<exists>r. ?f kv = Some r \<and> (r = 0 \<longleftrightarrow> ?P kv)" if kv: "kv \<in> set (jc_object api b)" for kv
        proof (cases "jc_get api a (fst kv)")
          case None
          then show ?thesis using A(4) [of "fst kv"] by (cases kv) simp
        next
          case (Some jx)
          have m: "map_of xs (fst kv) = Some (value_of jv jx)" using A(4) [of "fst kv"] Some by simp
          then have "json_depth (value_of jv jx) \<le> n" using dx(1) by (metis map_of_SomeD snd_conv)
          moreover have "json_depth (value_of jv (snd kv)) \<le> n" 
          using dx(2) kv unfolding B(1) by (cases kv) (auto dest!: bspec)
          ultimately show ?thesis using Suc.IH [OF A(6) [OF Some] B(5) [OF kv]] Some m by (cases kv) simp
        qed
        then have F: "\<exists>r. first_difference ?f (jc_object api b) = Some r \<and> (r = 0 \<longleftrightarrow> (\<forall>kv \<in> set (jc_object api b). ?P kv))"
          by (rule first_difference_zero)
        have P: "(\<forall>kv \<in> set (jc_object api b). ?P kv) \<longleftrightarrow>
            (\<forall>kv \<in> set ys. case map_of xs (fst kv) of None \<Rightarrow> False | Some v \<Rightarrow> json_rel dd inc v (snd kv))"
          unfolding B(1) by (auto simp: split_beta cong: option.case_cong)
        have l: "length (jc_object api a) = length xs" "length (jc_object api b) = length ys" unfolding A(1) B(1) by simp_all
        let ?lx = "length xs" and ?ly = "length ys"
        let ?r = "if int ?lx - int ?ly > 0 \<and> inc then 0 else int ?lx - int ?ly"
        have E: "jcmp api dd (Suc n) x y inc False = (if ?r \<noteq> 0 then Some ?r else first_difference ?f (jc_object api b))"
          using ab xy xs JObject l by (simp add: tv Let_def cong: option.case_cong)
        show ?thesis
        proof (cases "if inc then ?ly \<le> ?lx else ?ly = ?lx")
          case True
          then have "?r = 0" by (auto split: if_splits)
          then show ?thesis unfolding E using F P True by (simp add: xy xs JObject)
        next
          case False
          then have "?r \<noteq> 0" by (auto split: if_splits)
          moreover have "\<not> json_rel dd inc (value_of jv x) (value_of jv y)" using False by (simp add: xy xs JObject)
          ultimately show ?thesis unfolding E by simp
        qed
      qed
    qed
  qed
qed

text \<open>
  Property C31: with fuel for the depth of the values, \<open>rp_jsonc_equal\<close> and
  \<open>rp_jsonc_contains\<close> return, and decide the relation of JSON values \<open>json_rel\<close>: equality
  up to the order of the keys, and inclusion. For numbers and texts it is coarser than equality:
  integers above \<open>INT64_MAX\<close> are all equal, and so are texts that agree up to their first zero.
\<close>

theorem rp_jsonc_equal_contains_correct:
  assumes "json_c_ok api jv V" and "\<And>d. \<not> cd_lt dd d d" and "valid V x" and "valid V y"
    and "json_depth (value_of jv x) \<le> n" and "json_depth (value_of jv y) \<le> n"
  shows "rp_jsonc_equal api dd n x y = Some (json_rel dd False (value_of jv x) (value_of jv y)) \<and>
    rp_jsonc_contains api dd n x y = Some (json_rel dd True (value_of jv x) (value_of jv y))"
  using jcmp_decides [OF assms, of False] jcmp_decides [OF assms, of True]
  by (auto simp: rp_jsonc_equal_def rp_jsonc_contains_def)

text \<open>An instance of the library: objects are JSON values, other than null.\<close>

definition obj_of :: "'d json \<Rightarrow> 'd json option" where
  "obj_of v = (case v of JNull \<Rightarrow> None | _ \<Rightarrow> Some v)"

fun insert_by :: "('a \<Rightarrow> 'a \<Rightarrow> int) \<Rightarrow> 'a \<Rightarrow> 'a list \<Rightarrow> 'a list" where
  "insert_by cmp x [] = [x]"
| "insert_by cmp x (y # ys) = (if cmp x y \<le> 0 then x # y # ys else y # insert_by cmp x ys)"

definition type_code :: "json_type \<Rightarrow> int" where
  "type_code t = (case t of json_type_null \<Rightarrow> 0 | json_type_boolean \<Rightarrow> 1 | json_type_double \<Rightarrow> 2 | json_type_int \<Rightarrow> 3
     | json_type_object \<Rightarrow> 4 | json_type_array \<Rightarrow> 5 | json_type_string \<Rightarrow> 6)"

definition tree_api :: "(int json, int) json_c" where
  "tree_api = \<lparr>jc_type = json_type_of, jc_type_value = type_code,
     jc_boolean = \<lambda>x. case x of JBool b \<Rightarrow> b | _ \<Rightarrow> False,
     jc_double = \<lambda>x. case x of JDouble d \<Rightarrow> d | _ \<Rightarrow> 0,
     jc_int64 = \<lambda>x. case x of JInt i \<Rightarrow> (word_of_int (min i (2 ^ 63 - 1)), i < 2 ^ 63) | _ \<Rightarrow> (0, False),
     jc_uint64 = \<lambda>x. case x of JInt i \<Rightarrow> (word_of_int i, 0 \<le> i) | _ \<Rightarrow> (0, False),
     jc_string = \<lambda>x. case x of JString s \<Rightarrow> s | _ \<Rightarrow> [],
     jc_array = \<lambda>x. case x of JArray xs \<Rightarrow> map obj_of xs | _ \<Rightarrow> [],
     jc_object = \<lambda>x. case x of JObject kvs \<Rightarrow> map (\<lambda>(k, v). (k, obj_of v)) kvs | _ \<Rightarrow> [],
     jc_get = \<lambda>x k. case x of JObject kvs \<Rightarrow> map_option obj_of (map_of kvs k) | _ \<Rightarrow> None,
     jc_new_boolean = \<lambda>b. Some (JBool b), jc_new_int64 = \<lambda>i. Some (JInt i), jc_new_uint64 = \<lambda>n. Some (JInt (int n)),
     jc_new_double = \<lambda>d. Some (JDouble d), jc_new_string = \<lambda>s. Some (JString s),
     jc_new_array = Some (JArray []), jc_new_object = Some (JObject []),
     jc_array_add = \<lambda>x v. (case x of JArray xs \<Rightarrow> (0, JArray (xs @ [value_of id v])) | _ \<Rightarrow> (- 1, x)),
     jc_object_add = \<lambda>x k v. (case x of JObject kvs \<Rightarrow> (0, JObject (AList.update k (value_of id v) kvs)) | _ \<Rightarrow> (- 1, x)),
     jc_array_sort = \<lambda>cmp x. case x of JArray xs \<Rightarrow>
       JArray (map (value_of id) (foldr (insert_by cmp) (map obj_of xs) [])) | _ \<Rightarrow> x\<rparr>"

fun json_wf :: "'d json \<Rightarrow> bool" where
  "json_wf JNull = True"
| "json_wf (JInt i) = (- (2 ^ 63) \<le> i \<and> i < 2 ^ 64)"
| "json_wf (JArray xs) = (\<forall>x \<in> set xs. json_wf x)"
| "json_wf (JObject kvs) = (distinct (map fst kvs) \<and> (\<forall>kv \<in> set kvs. json_wf (snd kv)))"
| "json_wf _ = True"

definition tree_ok :: "int json \<Rightarrow> bool" where
  "tree_ok v \<longleftrightarrow> v \<noteq> JNull \<and> json_wf v"

definition int_double :: "int c_double" where
  "int_double = \<lparr>cd_zero = 0, cd_neg = uminus, cd_lt = (<), cd_eq = (=), cd_of_u64 = uint,
     cd_to_u64 = \<lambda>d. if 0 \<le> d \<and> d < 2 ^ 64 then Some (word_of_int d) else None\<rparr>"

lemma value_obj_of [simp]: "value_of id (obj_of v) = v" "valid tree_ok (obj_of v) \<longleftrightarrow> json_wf v"
  by (cases v; simp add: obj_of_def tree_ok_def)+

lemma tree_api_ok: "json_c_ok tree_api id tree_ok"
proof -
  have I: "inj (jc_type_value tree_api)"
    by (rule injI) (auto simp: tree_api_def type_code_def split: json_type.splits)
  have R: "represents tree_api id x" if "tree_ok x" for x
    using that
    by (cases x) (auto simp: represents_def tree_api_def tree_ok_def map_of_map split_beta comp_def min_def map_idI)
  have V: "valid tree_ok v" if "tree_ok x" "v \<in> set (jc_array tree_api x)" "jc_type tree_api x = json_type_array" for x v
    using that by (cases x) (auto simp: tree_api_def tree_ok_def)
  have O: "valid tree_ok (snd kv)" if "tree_ok x" "kv \<in> set (jc_object tree_api x)" "jc_type tree_api x = json_type_object" for x kv
    using that by (cases x) (auto simp: tree_api_def tree_ok_def)
  show ?thesis unfolding json_c_ok_def using I R V O by blast
qed

lemma rp_jsonc_equal_contains_correct_witness:
  "rp_jsonc_equal tree_api int_double 3 (Some (JObject [(''a'', JInt 1), (''b'', JArray [JNull])]))
      (Some (JObject [(''b'', JArray [JNull]), (''a'', JInt 1)])) = Some True \<and>
   rp_jsonc_contains tree_api int_double 3 (Some (JArray [JBool True, JString ''x''])) (Some (JArray [JBool True])) = Some True"
proof -
  let ?x = "JObject [(''a'', JInt 1), (''b'', JArray [JNull])] :: int json"
  let ?y = "JObject [(''b'', JArray [JNull]), (''a'', JInt 1)] :: int json"
  let ?u = "JArray [JBool True, JString ''x''] :: int json" and ?v = "JArray [JBool True] :: int json"
  have irr: "\<And>d. \<not> cd_lt int_double d d" by (simp add: int_double_def)
  have "rp_jsonc_equal tree_api int_double 3 (Some ?x) (Some ?y) = Some (json_rel int_double False ?x ?y)"
    using rp_jsonc_equal_contains_correct [OF tree_api_ok irr, of "Some ?x" "Some ?y" 3] by (simp add: tree_ok_def)
  moreover have "rp_jsonc_contains tree_api int_double 3 (Some ?u) (Some ?v) = Some (json_rel int_double True ?u ?v)"
    using rp_jsonc_equal_contains_correct [OF tree_api_ok irr, of "Some ?u" "Some ?v" 3] by (simp add: tree_ok_def)
  moreover have "json_rel int_double False ?x ?y" "json_rel int_double True ?u ?v" by simp_all
  ultimately show ?thesis by simp
qed

text \<open>
  \<open>rp_jsonc_cmp\<close> is not an order: of two objects that differ in a key, each can be
  greater than the other, because the values of common keys are compared only until a
  missing key is met, in the order of the iteration. Arrays sorted by it are not sorted.
\<close>

theorem rp_jsonc_cmp_not_antisymmetric:
  "\<exists>x y. json_wf x \<and> json_wf y \<and>
    (\<exists>r q. rp_jsonc_cmp tree_api int_double 4 (Some x) (Some y) = Some r \<and>
      rp_jsonc_cmp tree_api int_double 4 (Some y) (Some x) = Some q \<and> 0 < r \<and> 0 < q)"
proof (intro exI conjI)
  let ?x = "JObject [(''b'', JInt 0), (''a'', JInt 2)]" and ?y = "JObject [(''a'', JInt 1), (''c'', JInt 0)]"
  show "json_wf ?x" "json_wf ?y" by simp_all
  show "rp_jsonc_cmp tree_api int_double 4 (Some ?x) (Some ?y) = Some 1" by code_simp
  show "rp_jsonc_cmp tree_api int_double 4 (Some ?y) (Some ?x) = Some 1" by code_simp
qed simp_all

subsection \<open>Properties of the integers and of the error codes\<close>

lemma minus_minus_2p63: "- (2 ^ 63) = (2 ^ 63 :: 64 word)"
  by simp

lemma get_int_values:
  assumes "json_c_ok api jv V" and "V x" and "jv x = JInt i"
  shows "rp_jsonc_get_int64 api dd (Some x) mode =
      (if i = - (2 ^ 63) then None else Some (if i < 2 ^ 63 then (1, Some i) else (0, None))) \<and>
    rp_jsonc_get_uint64 api dd (Some x) mode =
      (if i = - (2 ^ 63) then None else Some (if 0 \<le> i then (1, Some i) else (0, Some (- i)))) \<and>
    rp_jsonc_get_int32 api dd (Some x) mode =
      (if i = - (2 ^ 63) \<or> i = - (2 ^ 31) then None
       else Some (if - (2 ^ 31) < i \<and> i < 2 ^ 31 then (1, Some i) else (0, None))) \<and>
    rp_jsonc_get_uint32 api dd (Some x) mode =
      (if i = - (2 ^ 63) then None else Some (if 0 \<le> i \<and> i < 2 ^ 32 then (1, Some i) else (0, None)))"
proof -
  have R: "represents api jv x" by (rule rep [OF assms(1,2)])
  have t: "jc_type api x = json_type_int" using R assms(3) by (simp add: represents_def)
  have b: "- (2 ^ 63) \<le> i" "i < 2 ^ 64" using R assms(3) by (simp_all add: represents_def)
  show ?thesis
  proof (cases "0 \<le> i")
    case True
    define u where "u = (word_of_int i :: 64 word)"
    have u: "uint u = i" using True b by (simp add: u_def uint_word_of_int)
    have g: "getu64 api dd (Some x) mode = Some (1, Some u)"
      using t R assms(3) True by (cases "jc_uint64 api x") (simp add: getu64_def represents_def u_def)
    have c: "u > 2 ^ 63 - 1 \<longleftrightarrow> \<not> i < 2 ^ 63" "u > 2 ^ 31 - 1 \<longleftrightarrow> \<not> i < 2 ^ 31" "u \<le> 2 ^ 32 - 1 \<longleftrightarrow> i < 2 ^ 32"
      by (auto simp: word_less_def word_le_def u)
    have s: "i < 2 ^ 63 \<Longrightarrow> sint u = i" using True by (simp add: u_def sint_word_of_int64)
    have s32: "i < 2 ^ 31 \<Longrightarrow> sint (ucast u :: 32 word) = i"
      using True by (simp add: u sint_sbintrunc' signed_take_bit_int_eq_self unsigned_ucast_eq sint_uint take_bit_int_eq_self)
    have u32: "i < 2 ^ 32 \<Longrightarrow> uint (ucast u :: 32 word) = i"
      using True by (simp add: u unsigned_ucast_eq take_bit_int_eq_self)
    show ?thesis using True c s s32 u32
      by (simp add: rp_jsonc_get_int64_def rp_jsonc_get_uint64_def rp_jsonc_get_int32_def rp_jsonc_get_uint32_def g u)
  next
    case False
    define u where "u = (word_of_int (- i) :: 64 word)"
    have "- i mod 2 ^ LENGTH(64) = - i" by (rule mod_pos_pos_trivial) (use False b in simp_all)
    then have u: "uint u = - i" unfolding u_def uint_word_of_int .
    have w: "fst (jc_int64 api x) = word_of_int i" "snd (jc_int64 api x)" "\<not> snd (jc_uint64 api x)"
      using R assms(3) False by (simp_all add: represents_def min_def)
    have least: "- v = u \<and> (v = 2 ^ 63 \<longleftrightarrow> i = - (2 ^ 63))" if "v = word_of_int i" for v :: "64 word"
    proof -
      have n: "- v = u" using that by (simp add: u_def)
      have "v = 2 ^ 63 \<longleftrightarrow> - v = 2 ^ 63" by (metis minus_minus_2p63 minus_minus)
      also have "\<dots> \<longleftrightarrow> uint u = 2 ^ 63" unfolding n by (simp add: word_uint_eq_iff)
      finally show ?thesis using n u by auto
    qed
    then have g: "getu64 api dd (Some x) mode = (if i = - (2 ^ 63) then None else Some (- 1, Some u))"
      using t w by (cases "jc_uint64 api x"; cases "jc_int64 api x") (simp add: getu64_def)
    have c: "\<not> u > 2 ^ 63" "u > 2 ^ 31 \<longleftrightarrow> \<not> - (2 ^ 31) \<le> i" "u = 2 ^ 63 \<longleftrightarrow> i = - (2 ^ 63)" "u = 2 ^ 31 \<longleftrightarrow> i = - (2 ^ 31)"
      using b by (auto simp: word_less_def word_uint_eq_iff u)
    have mu: "- u = word_of_int i" by (simp add: u_def)
    have s: "sint (- u) = i" using False b by (simp add: mu sint_word_of_int64)
    have s32: "- (2 ^ 31) \<le> i \<Longrightarrow> sint (- (ucast u :: 32 word)) = i"
    proof -
      assume "- (2 ^ 31) \<le> i"
      moreover have "(ucast u :: 32 word) = word_of_int (- i)"
        unfolding word_uint_eq_iff unsigned_ucast_eq u uint_word_of_int take_bit_eq_mod by (simp only: min.idem len_bit0 len_num1)
      ultimately show ?thesis using False by (simp add: sint_sbintrunc' signed_take_bit_int_eq_self)
    qed
    show ?thesis using False c s s32 b
      by (simp add: rp_jsonc_get_int64_def rp_jsonc_get_uint64_def rp_jsonc_get_int32_def rp_jsonc_get_uint32_def g u)
  qed
qed

text \<open>
  Property C32: the getters of integers on an integer value, whatever the mode: each returns 1 and the value exactly when
  it is in the range of its type, and only \<open>rp_jsonc_get_uint64\<close> stores something when it fails; but the
  behaviour is not defined, for each getter, at the least value of 64 bits, and, for the one of 32 signed bits, at the
  least value of 32 bits, whose negations overflow.
\<close>

theorem rp_jsonc_get_int_correct:
  assumes "json_c_ok api jv V" and "V x" and "jv x = JInt i"
  shows "rp_jsonc_get_int64 api dd (Some x) mode =
      (if i = - (2 ^ 63) then None else Some (if i < 2 ^ 63 then (1, Some i) else (0, None))) \<and>
    rp_jsonc_get_uint64 api dd (Some x) mode =
      (if i = - (2 ^ 63) then None else Some (if 0 \<le> i then (1, Some i) else (0, Some (- i)))) \<and>
    rp_jsonc_get_int32 api dd (Some x) mode =
      (if i = - (2 ^ 63) \<or> i = - (2 ^ 31) then None
       else Some (if - (2 ^ 31) < i \<and> i < 2 ^ 31 then (1, Some i) else (0, None))) \<and>
    rp_jsonc_get_uint32 api dd (Some x) mode =
      (if i = - (2 ^ 63) then None else Some (if 0 \<le> i \<and> i < 2 ^ 32 then (1, Some i) else (0, None)))"
  using assms by (rule get_int_values)

lemma rp_jsonc_get_int_correct_witness:
  "rp_jsonc_get_int32 tree_api int_double (Some (JInt (- 2147483647))) 0 = Some (1, Some (- 2147483647)) \<and>
   rp_jsonc_get_int32 tree_api int_double (Some (JInt (- 2147483648))) 0 = None \<and>
   rp_jsonc_get_uint32 tree_api int_double (Some (JInt 4294967296)) 0 = Some (0, None)"
  using rp_jsonc_get_int_correct [OF tree_api_ok, of "JInt (- 2147483647)" "- 2147483647" int_double 0]
    rp_jsonc_get_int_correct [OF tree_api_ok, of "JInt (- 2147483648)" "- 2147483648" int_double 0]
    rp_jsonc_get_int_correct [OF tree_api_ok, of "JInt 4294967296" "4294967296" int_double 0]
  by (simp add: tree_ok_def)

text \<open>A negative double that is an integer is not accepted, though its sign is dealt with.\<close>

lemma rp_jsonc_get_int64_negative_double:
  "rp_jsonc_get_int64 tree_api int_double (Some (JDouble (- 3))) rp_jsonc_int_mode_any = Some (0, None) \<and>
   rp_jsonc_get_int64 tree_api int_double (Some (JDouble 3)) rp_jsonc_int_mode_any = Some (1, Some 3)"
  by code_simp

lemma and_15_mod: "(x :: int) AND 15 = x mod 16"
  using take_bit_eq_mask [of 4 x] by (simp add: take_bit_eq_mod mask_eq_exp_minus_1)

lemma abs_nonneg: "0 \<le> r \<Longrightarrow> (if - r < 0 then - (- r) else - r) = (r :: int)"
  by auto

text \<open>The code, when the position fits in 27 bits.\<close>

lemma error_value_bounds:
  "error_value e < 18" "16 \<le> error_value e \<longleftrightarrow> e = rp_jsonc_error_array_incomplete \<or> e = rp_jsonc_error_array_extra_field"
  "error_value e = 0 \<longleftrightarrow> e = rp_jsonc_error_none"
  by (cases e; simp add: error_value_def all_errors_def)+

lemma or_nat_less: "x < 2 ^ n \<Longrightarrow> y < 2 ^ n \<Longrightarrow> x OR y < (2 :: nat) ^ n"
  by (metis take_bit_nat_eq_self_iff take_bit_or)

lemma error_at_eq:
  assumes "pos < 2 ^ 27"
  shows "error_at e pos = - int (error_value e OR push_bit 4 pos)"
proof -
  have "push_bit 4 pos < 2 ^ 31" "error_value e < 2 ^ 31" using assms error_value_bounds(1) [of e] by (simp_all add: push_bit_eq_mult)
  then have b: "error_value e OR push_bit 4 pos < 2 ^ 31" by (intro or_nat_less)
  have n: "of_nat m = (word_of_int (int m) :: 32 word)" for m by simp
  have "(of_nat (error_value e) OR push_bit 4 (of_nat pos) :: 32 word) = of_nat (error_value e OR push_bit 4 pos)"
    by (simp add: of_nat_or_eq push_bit_of_nat)
  also have "\<dots> = word_of_int (int (error_value e OR push_bit 4 pos))" by (rule n)
  finally have "(of_nat (error_value e) OR push_bit 4 (of_nat pos) :: 32 word) = word_of_int (int (error_value e OR push_bit 4 pos))" .
  then show ?thesis using b unfolding error_at_def sint_sbintrunc' by (simp add: sint_sbintrunc' signed_take_bit_int_eq_self del: of_int_of_nat_eq)
qed

lemma error_at_neg:
  assumes "e \<noteq> rp_jsonc_error_none" and "pos < 2 ^ 27"
  shows "error_at e pos < 0"
proof -
  have "error_value e OR push_bit 4 pos \<noteq> 0" using assms(1) error_value_bounds(3) [of e] by (simp add: or_eq_0_iff)
  then show ?thesis by (simp add: error_at_eq [OF assms(2)])
qed

lemma error_at_nonzero:
  assumes "e \<noteq> rp_jsonc_error_none"
  shows "error_at e pos \<noteq> 0"
proof
  assume "error_at e pos = 0"
  then have "(of_nat (error_value e) OR push_bit 4 (of_nat pos) :: 32 word) = 0"
    by (simp add: error_at_def signed_eq_0_iff)
  then have "(of_nat (error_value e) :: 32 word) = 0" by (simp add: or_eq_0_iff)
  then have "(2 :: nat) ^ 32 dvd error_value e" by (simp add: word_of_nat_eq_0_iff)
  then have "error_value e = 0" using error_value_bounds(1) [of e] by (cases "error_value e = 0") (auto dest: dvd_imp_le)
  then show False using assms error_value_bounds(3) by simp
qed

text \<open>A position that does not fit in 27 bits is truncated, and may make the code positive.\<close>

lemma error_at_truncated:
  "error_at rp_jsonc_error_truncated (2 ^ 27) = 2147483646" "error_at rp_jsonc_error_truncated (2 ^ 28) = - 2"
  by (simp_all add: error_at_def error_value_def all_errors_def push_bit_eq_mult)

text \<open>
  Reading back the error and the position from a returned code. It is right for the 16 first errors
  only: the two last ones, of arrays, do not fit in 4 bits; they are read as
  no error and null object, at a position made odd.
\<close>

theorem rp_jsonc_get_error_correct:
  assumes "pos < 2 ^ 27"
  shows "rp_jsonc_get_error_code (error_at e pos) = int (error_value e mod 16) \<and>
   rp_jsonc_get_error_position (error_at e pos) = (if error_value e < 16 then int pos else int pos OR 1) + 1 \<and>
   (16 \<le> error_value e \<longleftrightarrow> e = rp_jsonc_error_array_incomplete \<or> e = rp_jsonc_error_array_extra_field)"
proof -
  let ?r = "int (error_value e) OR push_bit 4 (int pos)"
  have E: "error_at e pos = - ?r" using error_at_eq [OF assms, of e] by (simp add: of_nat_or_eq push_bit_of_nat)
  have n: "0 \<le> ?r" by (simp add: or_nonnegative_int_iff)
  have a: "(if error_at e pos < 0 then - error_at e pos else error_at e pos) = ?r"
    unfolding E using abs_nonneg [OF n] .
  have "push_bit 4 (int pos) AND 15 = 0" by (simp add: and_15_mod push_bit_eq_mult)
  then have "?r AND 15 = int (error_value e) AND 15" by (simp add: bit.conj_disj_distrib2)
  moreover have "drop_bit 4 ?r = (if error_value e < 16 then int pos else int pos OR 1)"
  proof -
    have "drop_bit 4 (int (error_value e)) = (if error_value e < 16 then 0 else 1)"
      using error_value_bounds(1) [of e] by (auto simp: drop_bit_eq_div)
    then show ?thesis by (simp add: drop_bit_or drop_bit_push_bit or.commute)
  qed
  ultimately show ?thesis unfolding rp_jsonc_get_error_code_def rp_jsonc_get_error_position_def a
    using error_value_bounds(2) [of e] by (simp add: and_15_mod zmod_int)
qed

end
