(* ===== verification/JsoncPack.thy ===== *)
theory JsoncPack
  imports Jsonc Base64
begin

text \<open>
  \<open>src/json/rp-jsonc.c\<close>, \<open>rp_jsonc_vpack\<close>: making a JSON object from a description,
  a text of one character per item, and a list of arguments.
\<close>

subsection \<open>Descriptions\<close>

definition ignore_all :: string where "ignore_all = [CHR '' '', CHR 0x09, CHR 0x0A, CHR 0x0D, CHR '','', CHR '':'']"
definition pack_accept_arr :: string where "pack_accept_arr = '']['' @ ''{snbiIfoOyY''"
definition pack_accept_key :: string where "pack_accept_key = ''s}''"
definition pack_accept_any :: string where "pack_accept_any = tl pack_accept_arr"
definition STACKCOUNT :: nat where "STACKCOUNT = 32"

text \<open>\<open>desc\<close> is the memory of the description; reading it after its end is \<open>None\<close>.\<close>

function skip :: "mem \<Rightarrow> nat \<Rightarrow> nat option" where
  "skip desc d =
     (if d < length desc then
        if desc ! d \<noteq> NUL \<and> desc ! d \<in> set ignore_all then skip desc (d + 1) else Some d
      else None)"
  by auto
termination by (relation "measure (\<lambda>(desc, d). length desc - d)") auto

declare skip.simps [simp del]

text \<open>
  The arguments, by the type of the call of \<open>va_arg\<close>. A text is the memory it points to.
\<close>

datatype ('j, 'd) varg =
    VStr "mem option" | VSize nat | VInt int | VInt64 int | VUint nat | VUint64 nat | VDouble 'd
  | VObj "'j option" | VBytes "mem option"

subsection \<open>Texts\<close>

text \<open>
  The pieces of a text are put one after the other. A single piece is used where it is; with more, they are copied in
  a buffer: \<open>bs_mem\<close> is what \<open>s\<close> points to, the local array of 256 bytes as long as
  \<open>bs_alloc\<close> is false. \<open>sv\<close> is the text so far: not set, in the memory of the argument, or in the
  buffer.
\<close>

record strbuf =
  bs_mem :: mem
  bs_alloc :: bool

datatype textptr = Unset | User mem | Buffer

record text_state =
  ts_buf :: strbuf
  ts_sv :: textptr
  ts_sz :: nat
  ts_notnull :: bool
  ts_nullable :: bool

text \<open>The buffer grows to at least \<open>nsz\<close> bytes; \<open>Some None\<close> is the lack of memory.\<close>

definition grow_buffer :: "reallocator \<Rightarrow> strbuf \<Rightarrow> nat \<Rightarrow> nat \<Rightarrow> strbuf option option" where
  "grow_buffer realloc b sz nsz =
     (let ssz = length (bs_mem b) in
      if nsz > ssz then
        let ssz = ssz + ssz; ssz = (if ssz < nsz then nsz else ssz) in
        case realloc (if bs_alloc b then bs_mem b else []) ssz of
          None \<Rightarrow> Some None
        | Some s \<Rightarrow>
            if bs_alloc b then Some (Some (b\<lparr>bs_mem := s\<rparr>))
            else do { s \<leftarrow> memcpy s 0 (bs_mem b) sz; Some (Some \<lparr>bs_mem = s, bs_alloc = True\<rparr>) }
      else Some (Some b))"

definition append_piece :: "reallocator \<Rightarrow> text_state \<Rightarrow> mem \<Rightarrow> nat \<Rightarrow> text_state option option" where
  "append_piece realloc t str n =
     (let t = t\<lparr>ts_notnull := True\<rparr>; sz = ts_sz t; nsz = sz + n in
      case ts_sv t of
        Unset \<Rightarrow> Some (Some (t\<lparr>ts_sv := User str, ts_sz := nsz\<rparr>))
      | sv \<Rightarrow> do {
          g \<leftarrow> grow_buffer realloc (ts_buf t) sz nsz;
          case g of
            None \<Rightarrow> Some None
          | Some b \<Rightarrow> do {
              s \<leftarrow> (case sv of User m \<Rightarrow> memcpy (bs_mem b) 0 m sz | _ \<Rightarrow> Some (bs_mem b));
              s \<leftarrow> memcpy s sz str n;
              Some (Some (t\<lparr>ts_buf := b\<lparr>bs_mem := s\<rparr>, ts_sv := Buffer, ts_sz := nsz\<rparr>))
            }
        })"

text \<open>An optional mark: \<open>*d\<close> is compared, and skipped when it is there.\<close>

definition skip_mark :: "mem \<Rightarrow> char \<Rightarrow> nat \<Rightarrow> (bool \<times> nat) option" where
  "skip_mark desc c d = do {
     x \<leftarrow> load desc d;
     if x = c then do { d \<leftarrow> skip desc (d + 1); Some (True, d) } else Some (False, d)
   }"

text \<open>The size of a piece: given by an argument, or the length of the C string.\<close>

definition piece_size ::
  "mem \<Rightarrow> nat \<Rightarrow> mem option \<Rightarrow> ('j, 'd) varg list \<Rightarrow> (nat \<times> nat \<times> ('j, 'd) varg list) option" where
  "piece_size desc d p args = do {
     x \<leftarrow> load desc d;
     if x = CHR ''%'' then
       (case args of VSize n # args \<Rightarrow> do { d \<leftarrow> skip desc (d + 1); Some (n, d, args) } | _ \<Rightarrow> None)
     else if x = CHR ''#'' then
       (case args of VInt n # args \<Rightarrow> do { d \<leftarrow> skip desc (d + 1); Some (nat (n mod 2 ^ 64), d, args) } | _ \<Rightarrow> None)
     else (case p of None \<Rightarrow> Some (0, d, args) | Some m \<Rightarrow> do { n \<leftarrow> strlen m; Some (n, d, args) })
   }"

text \<open>
  The loop on the pieces, at most one for each argument. The left value is the lack of memory.
\<close>

fun pieces ::
  "reallocator \<Rightarrow> mem \<Rightarrow> nat \<Rightarrow> nat \<Rightarrow> ('j, 'd) varg list \<Rightarrow> text_state \<Rightarrow>
    (nat + nat \<times> ('j, 'd) varg list \<times> text_state) option" where
  "pieces realloc desc 0 d args t = None"
| "pieces realloc desc (Suc n) d args t =
     (case args of
        VStr p # args \<Rightarrow> do {
          (q, d) \<leftarrow> skip_mark desc CHR ''?'' d;
          let t = (if q then t\<lparr>ts_nullable := True\<rparr> else t);
          (sz, d, args) \<leftarrow> piece_size desc d p args;
          a \<leftarrow> (case p of None \<Rightarrow> Some (Some t) | Some m \<Rightarrow> append_piece realloc t m sz);
          case a of
            None \<Rightarrow> Some (Inl d)
          | Some t \<Rightarrow> do {
              (q, d) \<leftarrow> skip_mark desc CHR ''?'' d;
              let t = (if q then t\<lparr>ts_nullable := True\<rparr> else t);
              (q, d) \<leftarrow> skip_mark desc CHR ''+'' d;
              if q then pieces realloc desc n d args t else Some (Inr (d, args, t))
            }
        }
      | _ \<Rightarrow> None)"

definition text_bytes :: "text_state \<Rightarrow> string option" where
  "text_bytes t =
     (case ts_sv t of
        Unset \<Rightarrow> None
      | User m \<Rightarrow> if ts_sz t \<le> length m then Some (take (ts_sz t) m) else None
      | Buffer \<Rightarrow> if ts_sz t \<le> length (bs_mem (ts_buf t)) then Some (take (ts_sz t) (bs_mem (ts_buf t))) else None)"

subsection \<open>Items\<close>

text \<open>What an item is: a value, with what is left, or an error found at a position of the description.\<close>

type_synonym ('j, 'd) item = "(rp_jsonc_error_codes \<times> nat) + ('j option \<times> nat \<times> ('j, 'd) varg list \<times> strbuf)"

definition fresh :: "'j option \<Rightarrow> nat \<Rightarrow> ('j, 'd) varg list \<Rightarrow> strbuf \<Rightarrow> ('j, 'd) item" where
  "fresh x d args b = (case x of None \<Rightarrow> Inl (rp_jsonc_error_out_of_memory, d) | Some x \<Rightarrow> Inr (Some x, d, args, b))"

definition pack_text ::
  "('j, 'd) json_c \<Rightarrow> reallocator \<Rightarrow> mem \<Rightarrow> nat \<Rightarrow> ('j, 'd) varg list \<Rightarrow> strbuf \<Rightarrow> ('j, 'd) item option" where
  "pack_text api realloc desc d args b = do {
     r \<leftarrow> pieces realloc desc (length args) d args
       \<lparr>ts_buf = b, ts_sv = Unset, ts_sz = 0, ts_notnull = False, ts_nullable = False\<rparr>;
     case r of
       Inl d \<Rightarrow> Some (Inl (rp_jsonc_error_out_of_memory, d))
     | Inr (d, args, t) \<Rightarrow> do {
         x \<leftarrow> load desc d;
         if ts_notnull t then do {
           s \<leftarrow> text_bytes t;
           if length s < 2 ^ 31 then Some (fresh (jc_new_string api s) d args (ts_buf t)) else None
         }
         else if ts_nullable t \<or> x = CHR ''*'' then Some (Inr (None, d, args, ts_buf t))
         else Some (Inl (rp_jsonc_error_null_string, d))
       }
   }"

definition pack_object ::
  "mem \<Rightarrow> nat \<Rightarrow> ('j, 'd) varg list \<Rightarrow> strbuf \<Rightarrow> ('j, 'd) item option" where
  "pack_object desc d args b =
     (case args of
        VObj x # args \<Rightarrow> do {
          (q, d') \<leftarrow> skip_mark desc CHR ''?'' d;
          c \<leftarrow> load desc d;
          Some (if \<not> q \<and> c \<noteq> CHR ''*'' \<and> x = None then Inl (rp_jsonc_error_null_object, d) else Inr (x, d', args, b))
        }
      | _ \<Rightarrow> None)"

definition pack_bytes ::
  "('j, 'd) json_c \<Rightarrow> allocator \<Rightarrow> bool \<Rightarrow> mem \<Rightarrow> nat \<Rightarrow> ('j, 'd) varg list \<Rightarrow> strbuf \<Rightarrow> ('j, 'd) item option" where
  "pack_bytes api malloc url desc d args b =
     (case args of
        VBytes p # VSize n # args \<Rightarrow> do {
          r \<leftarrow> (case p of
              None \<Rightarrow> Some (Inr (None, d, args, b))
            | Some m \<Rightarrow>
                if n = 0 then Some (Inr (None, d, args, b))
                else do {
                  e \<leftarrow> rp_base64_encode malloc m n 0 False url;
                  case e of
                    Inl _ \<Rightarrow> Some (Inl (rp_jsonc_error_out_of_memory, d))
                  | Inr (out, sz) \<Rightarrow>
                      if sz \<le> length out \<and> sz < 2 ^ 31 then Some (fresh (jc_new_string api (take sz out)) d args b) else None
                });
          case r of
            Inl e \<Rightarrow> Some (Inl e)
          | Inr (x, d, args, b) \<Rightarrow> do {
              (q, d') \<leftarrow> skip_mark desc CHR ''?'' d;
              c \<leftarrow> load desc d;
              Some (if \<not> q \<and> c \<noteq> CHR ''*'' \<and> x = None then fresh (jc_new_string api []) d args b else Inr (x, d', args, b))
            }
        }
      | _ \<Rightarrow> None)"

text \<open>The items that are not containers. The description has been read up to the next character, at \<open>d\<close>.\<close>

definition pack_item ::
  "('j, 'd) json_c \<Rightarrow> allocator \<Rightarrow> reallocator \<Rightarrow> char \<Rightarrow> mem \<Rightarrow> nat \<Rightarrow> ('j, 'd) varg list \<Rightarrow> strbuf \<Rightarrow> ('j, 'd) item option" where
  "pack_item api malloc realloc c desc d args b =
     (if c = CHR ''s'' then pack_text api realloc desc d args b
      else if c = CHR ''n'' then Some (Inr (None, d, args, b))
      else if c = CHR ''b'' then (case args of VInt i # args \<Rightarrow> Some (fresh (jc_new_boolean api (i \<noteq> 0)) d args b) | _ \<Rightarrow> None)
      else if c = CHR ''i'' then (case args of VInt i # args \<Rightarrow> Some (fresh (jc_new_int64 api i) d args b) | _ \<Rightarrow> None)
      else if c = CHR ''I'' then (case args of VInt64 i # args \<Rightarrow> Some (fresh (jc_new_int64 api i) d args b) | _ \<Rightarrow> None)
      else if c = CHR ''u'' then (case args of VUint n # args \<Rightarrow> Some (fresh (jc_new_uint64 api n) d args b) | _ \<Rightarrow> None)
      else if c = CHR ''U'' then (case args of VUint64 n # args \<Rightarrow> Some (fresh (jc_new_uint64 api n) d args b) | _ \<Rightarrow> None)
      else if c = CHR ''f'' then (case args of VDouble x # args \<Rightarrow> Some (fresh (jc_new_double api x) d args b) | _ \<Rightarrow> None)
      else if c = CHR ''o'' \<or> c = CHR ''O'' then pack_object desc d args b
      else if c = CHR ''y'' \<or> c = CHR ''Y'' then pack_bytes api malloc (c = CHR ''y'') desc d args b
      else Some (Inl (rp_jsonc_error_internal_error, d)))"

subsection \<open>The loop\<close>

text \<open>
  The stack, with the top first. \<open>pf_type\<close> is \<open>NUL\<close> at the bottom, the closing
  character of the container, or \<open>:\<close> when a value is expected for \<open>pf_key\<close>.
\<close>

record 'j pframe =
  pf_cont :: "'j option"
  pf_key :: "'j option"
  pf_acc :: string
  pf_type :: char

definition open_container :: "('j, 'd) json_c \<Rightarrow> char \<Rightarrow> 'j pframe" where
  "open_container api c =
     (if c = CHR ''['' then \<lparr>pf_cont = jc_new_array api, pf_key = None, pf_acc = pack_accept_arr, pf_type = CHR '']''\<rparr>
      else \<lparr>pf_cont = jc_new_object api, pf_key = None, pf_acc = pack_accept_key, pf_type = CHR ''}''\<rparr>)"

definition is_empty :: "('j, 'd) json_c \<Rightarrow> char \<Rightarrow> 'j \<Rightarrow> bool" where
  "is_empty api c x = (if c = CHR ''}'' then jc_object api x = [] else jc_array api x = [])"

text \<open>
  Putting a value in the container on top; the bottom of the stack ends. The result is the
  end of the function, an error, or the new top and position. The code returned by the addition is ignored.
\<close>

datatype 'j placed = Done "'j option" | Fails rp_jsonc_error_codes nat | Placed "'j pframe" nat

definition place ::
  "('j, 'd) json_c \<Rightarrow> mem \<Rightarrow> 'j pframe \<Rightarrow> bool \<Rightarrow> 'j option \<Rightarrow> nat \<Rightarrow> 'j placed option" where
  "place api desc tp bottom x d = do {
     c \<leftarrow> load desc d;
     if pf_type tp = NUL then
       Some (if \<not> bottom then Fails rp_jsonc_error_internal_error d
             else if c \<noteq> NUL then Fails rp_jsonc_error_invalid_character d else Done x)
     else if pf_type tp = CHR '']'' then do {
       tp \<leftarrow> (if x \<noteq> None \<or> c \<noteq> CHR ''*''
         then do { r \<leftarrow> pf_cont tp; Some (tp\<lparr>pf_cont := Some (snd (jc_array_add api r x))\<rparr>) } else Some tp);
       (q, d) \<leftarrow> skip_mark desc CHR ''*'' d;
       Some (Placed tp d)
     }
     else if pf_type tp = CHR ''}'' then
       Some (if x = None then Fails rp_jsonc_error_null_key d
             else Placed (tp\<lparr>pf_key := x, pf_acc := pack_accept_any, pf_type := CHR '':''\<rparr>) d)
     else if pf_type tp = CHR '':'' then do {
       tp \<leftarrow> (if x \<noteq> None \<or> c \<noteq> CHR ''*''
         then do { r \<leftarrow> pf_cont tp; k \<leftarrow> pf_key tp;
                   Some (tp\<lparr>pf_cont := Some (snd (jc_object_add api r (takeWhile (\<lambda>c. c \<noteq> NUL) (jc_string api k)) x))\<rparr>) }
         else Some tp);
       (q, d) \<leftarrow> skip_mark desc CHR ''*'' d;
       Some (Placed (tp\<lparr>pf_key := None, pf_acc := pack_accept_key, pf_type := CHR ''}''\<rparr>) d)
     }
     else Some (Fails rp_jsonc_error_internal_error d)
   }"

text \<open>
  The loop: each turn reads one character at least, so the length of the description bounds the
  turns. The result is the returned value and the object. When the stack is full, the release of
  its items starts after its last one: the behaviour is not defined, \<open>None\<close>.
\<close>

fun pack_loop ::
  "('j, 'd) json_c \<Rightarrow> allocator \<Rightarrow> reallocator \<Rightarrow> mem \<Rightarrow> nat \<Rightarrow> nat \<Rightarrow> ('j, 'd) varg list \<Rightarrow> 'j pframe list \<Rightarrow> strbuf \<Rightarrow>
    (int \<times> 'j option) option" where
  "pack_loop api malloc realloc desc 0 d args stack b = None"
| "pack_loop api malloc realloc desc (Suc n) d args stack b = do {
     c \<leftarrow> load desc d;
     (case stack of [] \<Rightarrow> None | tp # below \<Rightarrow>
     if c = NUL then Some (error_at rp_jsonc_error_truncated d, None)
     else if c \<notin> set (pf_acc tp) then Some (error_at rp_jsonc_error_invalid_character d, None)
     else do {
       d \<leftarrow> skip desc (d + 1);
       if c = CHR ''['' \<or> c = CHR ''{'' then
         if STACKCOUNT \<le> length stack then None
         else if pf_cont (open_container api c) = None then Some (error_at rp_jsonc_error_out_of_memory d, None)
         else pack_loop api malloc realloc desc n d args (open_container api c # stack) b
       else do {
         (item, stack) \<leftarrow>
           (if c = CHR ''}'' \<or> c = CHR '']'' then
              if c \<noteq> pf_type tp \<or> below = [] then Some (Inl (rp_jsonc_error_internal_error, d), stack)
              else do {
                r \<leftarrow> pf_cont tp;
                x \<leftarrow> load desc d;
                Some (Inr (if x = CHR ''*'' \<and> is_empty api c r then None else Some r, d, args, b), below)
              }
            else do { i \<leftarrow> pack_item api malloc realloc c desc d args b; Some (i, stack) });
         case item of
           Inl (e, d) \<Rightarrow> Some (error_at e d, None)
         | Inr (x, d, args, b) \<Rightarrow>
             (case stack of [] \<Rightarrow> None | tp # below \<Rightarrow> do {
                p \<leftarrow> place api desc tp (below = []) x d;
                case p of
                  Done x \<Rightarrow> Some (0, x)
                | Fails e d \<Rightarrow> Some (error_at e d, None)
                | Placed tp d \<Rightarrow> pack_loop api malloc realloc desc n d args (tp # below) b
              })
       }
     })
   }"

text \<open>\<open>local_buffer\<close> is what the array of 256 bytes holds at the start. A null description is \<open>None\<close>.\<close>

definition rp_jsonc_vpack ::
  "('j, 'd) json_c \<Rightarrow> allocator \<Rightarrow> reallocator \<Rightarrow> mem \<Rightarrow> mem option \<Rightarrow> ('j, 'd) varg list \<Rightarrow> (int \<times> 'j option) option" where
  "rp_jsonc_vpack api malloc realloc local_buffer desc args =
     (case desc of
        None \<Rightarrow> Some (error_at rp_jsonc_error_null_spec 0, None)
      | Some desc \<Rightarrow> do {
          d \<leftarrow> skip desc 0;
          pack_loop api malloc realloc desc (length desc) d args
            [\<lparr>pf_cont = None, pf_key = None, pf_acc = pack_accept_any, pf_type = NUL\<rparr>]
            \<lparr>bs_mem = local_buffer, bs_alloc = False\<rparr>
        })"

definition rp_jsonc_pack ::
  "('j, 'd) json_c \<Rightarrow> allocator \<Rightarrow> reallocator \<Rightarrow> mem \<Rightarrow> mem option \<Rightarrow> ('j, 'd) varg list \<Rightarrow> (int \<times> 'j option) option" where
  "rp_jsonc_pack api malloc realloc local_buffer desc args = rp_jsonc_vpack api malloc realloc local_buffer desc args"

subsection \<open>What is read of a description\<close>

text \<open>\<open>reads s d ts\<close>: at position \<open>d\<close>, what is left of the description is \<open>ts\<close>, ignored characters apart.\<close>

definition reads :: "string \<Rightarrow> nat \<Rightarrow> string \<Rightarrow> bool" where
  "reads s d ts \<longleftrightarrow> d \<le> length s \<and> filter (\<lambda>c. c \<notin> set ignore_all) (drop d s) = ts \<and>
     (d < length s \<longrightarrow> s ! d \<notin> set ignore_all)"

lemma cstr_char: "d \<le> length s \<Longrightarrow> cstr s ! d = (if d < length s then s ! d else NUL)"
  by (auto simp: cstr_def nth_append)

lemma no_nul_nth: "no_nul s \<Longrightarrow> d < length s \<Longrightarrow> s ! d \<noteq> NUL"
  by (metis no_nul_def nth_mem)

lemma skip_reads:
  assumes "no_nul s"
  shows "d \<le> length s \<Longrightarrow> \<exists>d'. skip (cstr s) d = Some d' \<and> reads s d' (filter (\<lambda>c. c \<notin> set ignore_all) (drop d s))"
proof (induction "length s - d" arbitrary: d)
  case 0
  then have "d = length s" by simp
  then show ?case by (subst skip.simps) (simp add: cstr_char reads_def)
next
  case (Suc m)
  then have d: "d < length s" by simp
  show ?case
  proof (cases "s ! d \<in> set ignore_all")
    case True
    have D: "drop d s = s ! d # drop (Suc d) s" using d by (simp add: Cons_nth_drop_Suc)
    have "\<exists>d'. skip (cstr s) (Suc d) = Some d' \<and> reads s d' (filter (\<lambda>c. c \<notin> set ignore_all) (drop (Suc d) s))"
      using Suc.hyps(2) d by (intro Suc.hyps(1)) simp_all
    moreover have "skip (cstr s) d = skip (cstr s) (Suc d)"
      using True d no_nul_nth [OF assms d] by (subst skip.simps) (simp add: cstr_char)
    ultimately show ?thesis using True by (simp add: D)
  next
    case False
    then show ?thesis using d by (subst skip.simps) (simp add: cstr_char reads_def)
  qed
qed

lemma reads_Nil: "reads s d [] \<Longrightarrow> load (cstr s) d = Some NUL"
proof -
  assume "reads s d []"
  then have "d = length s"
    by (auto simp: reads_def filter_empty_conv) (metis Cons_nth_drop_Suc le_neq_implies_less list.set_intros(1))
  then show ?thesis by (simp add: load_def cstr_char)
qed

lemma reads_Cons:
  assumes "no_nul s" and "reads s d (c # ts)"
  shows "load (cstr s) d = Some c" and "c \<noteq> NUL" and "\<exists>d'. skip (cstr s) (d + 1) = Some d' \<and> reads s d' ts"
proof -
  have d: "d < length s" using assms(2) by (cases "d < length s") (auto simp: reads_def)
  then have D: "drop d s = s ! d # drop (Suc d) s" by (simp add: Cons_nth_drop_Suc)
  then have E: "s ! d = c" "filter (\<lambda>c. c \<notin> set ignore_all) (drop (Suc d) s) = ts"
    using assms(2) d by (auto simp: reads_def)
  show "load (cstr s) d = Some c" using d E by (simp add: load_def cstr_char)
  show "c \<noteq> NUL" using no_nul_nth [OF assms(1) d] E by simp
  show "\<exists>d'. skip (cstr s) (d + 1) = Some d' \<and> reads s d' ts"
    using skip_reads [OF assms(1), of "d + 1"] d E by simp
qed

text \<open>The next character, \<open>NUL\<close> at the end.\<close>

definition next_char :: "string \<Rightarrow> char" where
  "next_char ts = (case ts of [] \<Rightarrow> NUL | c # _ \<Rightarrow> c)"

lemma next_char_simps [simp]: "next_char [] = NUL" "next_char (c # ts) = c"
  by (simp_all add: next_char_def)

lemma reads_load: "no_nul s \<Longrightarrow> reads s d ts \<Longrightarrow> load (cstr s) d = Some (next_char ts)"
  by (cases ts) (auto dest: reads_Nil reads_Cons)

lemma skip_mark_absent:
  "no_nul s \<Longrightarrow> reads s d ts \<Longrightarrow> next_char ts \<noteq> c \<Longrightarrow> skip_mark (cstr s) c d = Some (False, d)"
  by (simp add: skip_mark_def reads_load)

lemma skip_mark_present:
  "no_nul s \<Longrightarrow> reads s d (c # ts) \<Longrightarrow> \<exists>d'. skip_mark (cstr s) c d = Some (True, d') \<and> reads s d' ts"
  using reads_Cons [of s d c ts] by (auto simp: skip_mark_def)

subsection \<open>Texts of one or more pieces\<close>

definition text_ok :: "text_state \<Rightarrow> string \<Rightarrow> bool" where
  "text_ok t str \<longleftrightarrow> 256 \<le> length (bs_mem (ts_buf t)) \<and> ts_sz t = length str \<and>
     (case ts_sv t of Unset \<Rightarrow> str = []
      | User m \<Rightarrow> length str \<le> length m \<and> take (length str) m = str
      | Buffer \<Rightarrow> length str \<le> length (bs_mem (ts_buf t)) \<and> take (length str) (bs_mem (ts_buf t)) = str)"

lemma text_bytes_ok: "text_ok t str \<Longrightarrow> ts_sv t \<noteq> Unset \<Longrightarrow> text_bytes t = Some str"
  by (auto simp: text_ok_def text_bytes_def split: textptr.splits)

lemma grow_buffer_ok:
  assumes "reallocates realloc" and "sz \<le> nsz" and "sz \<le> length (bs_mem b)"
  shows "(grow_buffer realloc b sz nsz = Some None \<and> (\<exists>m k. realloc m k = None)) \<or>
    (\<exists>b'. grow_buffer realloc b sz nsz = Some (Some b') \<and> length (bs_mem b) \<le> length (bs_mem b') \<and> nsz \<le> length (bs_mem b') \<and>
       take sz (bs_mem b') = take sz (bs_mem b))"
proof (cases "nsz > length (bs_mem b)")
  case False
  then show ?thesis by (simp add: grow_buffer_def Let_def)
next
  case True
  let ?l = "length (bs_mem b)"
  let ?k = "if ?l + ?l < nsz then nsz else ?l + ?l"
  have k: "?l \<le> ?k" "nsz \<le> ?k" by auto
  show ?thesis
  proof (cases "realloc (if bs_alloc b then bs_mem b else []) ?k")
    case None
    then show ?thesis using True by (auto simp: grow_buffer_def Let_def)
  next
    case (Some m)
    note R = reallocatesD [OF assms(1) Some]
    have L: "length m = ?k" using R by simp
    show ?thesis
    proof (cases "bs_alloc b")
      case True
      have "take sz m = take sz (bs_mem b)"
      proof -
        have "take ?l m = bs_mem b" using R True k(1) by (simp add: min_def split: if_splits)
        then show ?thesis using assms(3) by (metis min.absorb1 take_take)
      qed
      then show ?thesis using True \<open>nsz > ?l\<close> Some L k by (simp add: grow_buffer_def Let_def)
    next
      case False
      have m: "memcpy m 0 (bs_mem b) sz = Some (take sz (bs_mem b) @ drop sz m)"
        using assms(3) L k(1) by (simp add: memcpy_def)
      have "?l \<le> length (take sz (bs_mem b) @ drop sz m)" "nsz \<le> length (take sz (bs_mem b) @ drop sz m)"
        using assms(3) L k by auto
      then show ?thesis using False True Some m assms(3) by (simp add: grow_buffer_def Let_def)
    qed
  qed
qed

lemma append_piece_ok:
  assumes "reallocates realloc" and "text_ok t str" and "no_nul p"
    and "ts_sv t = Unset \<or> ts_sv t = Buffer \<or> length str \<le> 256"
  shows "(append_piece realloc t (cstr p) (length p) = Some None \<and> (\<exists>m k. realloc m k = None)) \<or>
    (\<exists>t'. append_piece realloc t (cstr p) (length p) = Some (Some t') \<and> text_ok t' (str @ p) \<and> ts_notnull t' \<and>
       (if ts_sv t = Unset then ts_sv t' = User (cstr p) else ts_sv t' = Buffer))"
proof (cases "ts_sv t = Unset")
  case True
  then show ?thesis using assms(2) by (simp add: append_piece_def Let_def text_ok_def)
next
  case False
  let ?n = "length str + length p"
  have sz: "ts_sz t = length str" using assms(2) by (simp add: text_ok_def)
  have le: "length str \<le> length (bs_mem (ts_buf t))"
    using assms(2,4) False by (auto simp: text_ok_def)
  consider "grow_buffer realloc (ts_buf t) (length str) ?n = Some None" "\<exists>m k. realloc m k = None"
    | b where "grow_buffer realloc (ts_buf t) (length str) ?n = Some (Some b)" "length (bs_mem (ts_buf t)) \<le> length (bs_mem b)"
        "?n \<le> length (bs_mem b)" "take (length str) (bs_mem b) = take (length str) (bs_mem (ts_buf t))"
    using grow_buffer_ok [OF assms(1), of "length str" ?n "ts_buf t"] le by auto
  then show ?thesis
  proof cases
    case 1
    then show ?thesis using False sz by (auto simp: append_piece_def Let_def split: textptr.splits)
  next
    case (2 b)
    define s where "s = (case ts_sv t of User m \<Rightarrow> take (length str) m @ drop (length str) (bs_mem b) | _ \<Rightarrow> bs_mem b)"
    have s: "length s = length (bs_mem b)" "take (length str) s = str"
      using assms(2) False le 2 by (auto simp: s_def text_ok_def split: textptr.splits)
    have c: "(case ts_sv t of User m \<Rightarrow> memcpy (bs_mem b) 0 m (length str) | _ \<Rightarrow> Some (bs_mem b)) = Some s"
      using assms(2) False le 2 by (auto simp: s_def text_ok_def memcpy_def split: textptr.splits)
    let ?s = "str @ p @ drop ?n s"
    have m: "memcpy s (length str) (cstr p) (length p) = Some ?s"
      using s 2(3) by (simp add: memcpy_def)
    have E: "append_piece realloc t (cstr p) (length p) =
        Some (Some (t\<lparr>ts_notnull := True, ts_buf := b\<lparr>bs_mem := ?s\<rparr>, ts_sv := Buffer, ts_sz := ?n\<rparr>))"
      using False sz 2(1) c m by (cases "ts_sv t") (simp_all add: append_piece_def Let_def)
    have "text_ok (t\<lparr>ts_notnull := True, ts_buf := b\<lparr>bs_mem := ?s\<rparr>, ts_sv := Buffer, ts_sz := ?n\<rparr>) (str @ p)"
      using s 2 assms(2) by (simp add: text_ok_def)
    then show ?thesis using E False by simp
  qed
qed

text \<open>What does not follow an item: the marks that change it.\<close>

definition follow :: "string \<Rightarrow> bool" where
  "follow ts \<longleftrightarrow> next_char ts \<notin> set ''?%#+''"

lemma followD: "follow ts \<Longrightarrow> next_char ts \<noteq> CHR ''?'' \<and> next_char ts \<noteq> CHR ''%'' \<and> next_char ts \<noteq> CHR ''#'' \<and> next_char ts \<noteq> CHR ''+''"
  by (simp add: follow_def)

lemma pieces_ok:
  assumes "no_nul s" and "reallocates realloc" and "follow ts"
  shows "qs \<noteq> [] \<Longrightarrow> reads s d (replicate (length qs - 1) CHR ''+'' @ ts) \<Longrightarrow> length qs \<le> n \<Longrightarrow> text_ok t str \<Longrightarrow>
    (\<forall>q \<in> set qs. no_nul q) \<Longrightarrow> (ts_sv t = Unset \<Longrightarrow> 2 \<le> length qs \<Longrightarrow> length (hd qs) \<le> 256) \<Longrightarrow>
    ts_sv t = Unset \<or> ts_sv t = Buffer \<or> length str \<le> 256 \<Longrightarrow>
    ((\<exists>m k. realloc m k = None) \<and>
      (\<exists>e. pieces realloc (cstr s) n d (map (\<lambda>q. VStr (Some (cstr q))) qs @ args) t = Some (Inl e))) \<or>
    (\<exists>d' t'. pieces realloc (cstr s) n d (map (\<lambda>q. VStr (Some (cstr q))) qs @ args) t = Some (Inr (d', args, t')) \<and>
       reads s d' ts \<and> text_ok t' (str @ concat qs) \<and> ts_notnull t' \<and> ts_sv t' \<noteq> Unset)"
proof (induction qs arbitrary: n d t str)
  case Nil
  then show ?case by simp
next
  case (Cons q qs)
  obtain k where n: "n = Suc k" "length qs \<le> k" using Cons.prems(3) by (cases n) auto
  let ?ts = "replicate (length qs) CHR ''+'' @ ts"
  have r: "reads s d ?ts" using Cons.prems(2) by simp
  have c: "next_char ?ts \<noteq> CHR ''?''" "next_char ?ts \<noteq> CHR ''%''" "next_char ?ts \<noteq> CHR ''#''"
    using followD [OF assms(3)] by (cases qs; simp)+
  note q1 = skip_mark_absent [OF assms(1) r c(1)]
  have p: "piece_size (cstr s) d (Some (cstr q)) A = Some (length q, d, A)" for A :: "('a, 'b) varg list"
    using c Cons.prems(5) by (simp add: piece_size_def reads_load [OF assms(1) r])
  consider "append_piece realloc t (cstr q) (length q) = Some None" "\<exists>m k. realloc m k = None"
    | t' where "append_piece realloc t (cstr q) (length q) = Some (Some t')" "text_ok t' (str @ q)" "ts_notnull t'"
        "if ts_sv t = Unset then ts_sv t' = User (cstr q) else ts_sv t' = Buffer"
    using append_piece_ok [OF assms(2) Cons.prems(4), of q] Cons.prems(5,7) by auto
  then show ?case
  proof cases
    case 1
    then show ?thesis by (simp add: n q1 p)
  next
    case (2 t')
    have u: "ts_sv t' \<noteq> Unset" using 2(4) by (auto split: if_splits)
    show ?thesis
    proof (cases qs)
      case Nil
      then have r': "reads s d ts" using r by simp
      note q2 = skip_mark_absent [OF assms(1) r', of "CHR ''+''"]
      show ?thesis using 2 u r' Nil q2 followD [OF assms(3)] by (simp add: n q1 p)
    next
      case (Cons a as)
      then have "reads s d (CHR ''+'' # (replicate (length qs - 1) CHR ''+'' @ ts))" using r by simp
      from skip_mark_present [OF assms(1) this] obtain d' where
        d': "skip_mark (cstr s) CHR ''+'' d = Some (True, d')" "reads s d' (replicate (length qs - 1) CHR ''+'' @ ts)"
        by blast
      have len: "ts_sv t' = Buffer \<or> length (str @ q) \<le> 256"
      proof (cases "ts_sv t = Unset")
        case True
        then have "str = []" using Cons.prems(4) by (simp add: text_ok_def)
        then show ?thesis using Cons.prems(6) True Cons by simp
      qed (use 2(4) in simp)
      have E: "pieces realloc (cstr s) n d (map (\<lambda>q. VStr (Some (cstr q))) (q # qs) @ args) t =
          pieces realloc (cstr s) k d' (map (\<lambda>q. VStr (Some (cstr q))) qs @ args) t'"
        using 2(1) by (simp add: n q1 p d')
      have "((\<exists>m k. realloc m k = None) \<and>
          (\<exists>e. pieces realloc (cstr s) k d' (map (\<lambda>q. VStr (Some (cstr q))) qs @ args) t' = Some (Inl e))) \<or>
        (\<exists>d'' t''. pieces realloc (cstr s) k d' (map (\<lambda>q. VStr (Some (cstr q))) qs @ args) t' = Some (Inr (d'', args, t'')) \<and>
           reads s d'' ts \<and> text_ok t'' ((str @ q) @ concat qs) \<and> ts_notnull t'' \<and> ts_sv t'' \<noteq> Unset)"
        using Cons d' n 2 u len Cons.prems(5) by (intro Cons.IH) auto
      then show ?thesis unfolding E by simp
    qed
  qed
qed

subsection \<open>Specifications\<close>

text \<open>
  A value to make, with its description and the arguments of the description. \<open>PText\<close> has one
  or more pieces, \<open>PNoText\<close> is a null text that is allowed to be null. An item may have a star,
  that omits it when it is null or empty.
\<close>

datatype ('j, 'd) pspec =
    PNull | PBool bool | PInt int | PInt64 int | PDouble 'd | PText "string list" | PNoText | PObj "'j option"
  | PBytes bool string | PArray "(bool \<times> ('j, 'd) pspec) list" | PObject "(string list \<times> bool \<times> ('j, 'd) pspec) list"

definition star :: "bool \<Rightarrow> string" where
  "star st = (if st then ''*'' else [])"

definition render_text :: "string list \<Rightarrow> string" where
  "render_text ps = CHR ''s'' # replicate (length ps - 1) CHR ''+''"

definition text_args :: "string list \<Rightarrow> ('j, 'd) varg list" where
  "text_args ps = map (\<lambda>p. VStr (Some (cstr p))) ps"

fun render :: "('j, 'd) pspec \<Rightarrow> string" where
  "render PNull = ''n''"
| "render (PBool b) = ''b''"
| "render (PInt i) = ''i''"
| "render (PInt64 i) = ''I''"
| "render (PDouble x) = ''f''"
| "render (PText ps) = render_text ps"
| "render PNoText = ''s?''"
| "render (PObj x) = (case x of None \<Rightarrow> ''o?'' | Some _ \<Rightarrow> ''o'')"
| "render (PBytes url bs) = (if url then ''y'' else ''Y'')"
| "render (PArray es) = CHR ''['' # concat (map (\<lambda>(st, e). render e @ star st) es) @ '']''"
| "render (PObject es) = CHR ''{'' # concat (map (\<lambda>(ps, st, e). render_text ps @ render e @ star st) es) @ ''}''"

fun args_of :: "('j, 'd) pspec \<Rightarrow> ('j, 'd) varg list" where
  "args_of PNull = []"
| "args_of (PBool b) = [VInt (of_bool b)]"
| "args_of (PInt i) = [VInt i]"
| "args_of (PInt64 i) = [VInt64 i]"
| "args_of (PDouble x) = [VDouble x]"
| "args_of (PText ps) = text_args ps"
| "args_of PNoText = [VStr None]"
| "args_of (PObj x) = [VObj x]"
| "args_of (PBytes url bs) = [VBytes (Some bs), VSize (length bs)]"
| "args_of (PArray es) = concat (map (\<lambda>(st, e). args_of e) es)"
| "args_of (PObject es) = concat (map (\<lambda>(ps, st, e). text_args ps @ args_of e) es)"

text \<open>The value, when it has a star or not; it is null when it is omitted.\<close>

definition kept :: "bool \<Rightarrow> 'd json \<Rightarrow> bool" where
  "kept st v \<longleftrightarrow> \<not> (st \<and> v = JNull)"

definition starred :: "bool \<Rightarrow> 'a list \<Rightarrow> ('a list \<Rightarrow> 'd json) \<Rightarrow> 'd json" where
  "starred st xs f = (if st \<and> xs = [] then JNull else f xs)"

fun pvalue :: "('j \<Rightarrow> 'd json) \<Rightarrow> bool \<Rightarrow> ('j, 'd) pspec \<Rightarrow> 'd json" where
  "pvalue jv st PNull = JNull"
| "pvalue jv st (PBool b) = JBool b"
| "pvalue jv st (PInt i) = JInt i"
| "pvalue jv st (PInt64 i) = JInt i"
| "pvalue jv st (PDouble x) = JDouble x"
| "pvalue jv st (PText ps) = JString (concat ps)"
| "pvalue jv st PNoText = JNull"
| "pvalue jv st (PObj x) = value_of jv x"
| "pvalue jv st (PBytes url bs) = JString (base64_text url False bs)"
| "pvalue jv st (PArray es) =
     starred st (concat (map (\<lambda>(st, e). let v = pvalue jv st e in if kept st v then [v] else []) es)) JArray"
| "pvalue jv st (PObject es) =
     starred st (concat (map (\<lambda>(ps, st, e). let v = pvalue jv st e in if kept st v then [(concat ps, v)] else []) es)) JObject"

text \<open>
  What the function accepts: the pieces of a text fit in the local array when there are more than
  one, the bytes are not none, the containers are not nested more than the stack.
\<close>

definition text_wf :: "string list \<Rightarrow> bool" where
  "text_wf ps \<longleftrightarrow> ps \<noteq> [] \<and> (\<forall>p \<in> set ps. no_nul p) \<and> (2 \<le> length ps \<longrightarrow> length (hd ps) \<le> 256) \<and> length (concat ps) < 2 ^ 31"

fun pwf :: "('j \<Rightarrow> 'd json) \<Rightarrow> nat \<Rightarrow> ('j, 'd) pspec \<Rightarrow> bool" where
  "pwf jv n (PInt i) = (- (2 ^ 31) \<le> i \<and> i < 2 ^ 31)"
| "pwf jv n (PInt64 i) = (- (2 ^ 63) \<le> i \<and> i < 2 ^ 63)"
| "pwf jv n (PText ps) = text_wf ps"
| "pwf jv n (PObj x) = (case x of None \<Rightarrow> True | Some j \<Rightarrow> jv j \<noteq> JNull)"
| "pwf jv n (PBytes url bs) = (bs \<noteq> [] \<and> length (base64_text url False bs) < 2 ^ 31)"
| "pwf jv n (PArray es) = (n < STACKCOUNT \<and> (\<forall>(st, e) \<in> set es. pwf jv (Suc n) e))"
| "pwf jv n (PObject es) = (n < STACKCOUNT \<and> distinct (map (concat \<circ> fst) es) \<and>
     (\<forall>(ps, st, e) \<in> set es. text_wf ps \<and> pwf jv (Suc n) e))"
| "pwf jv n _ = True"

text \<open>The turns of the loop.\<close>

fun turns :: "('j, 'd) pspec \<Rightarrow> nat" where
  "turns (PArray es) = 2 + (\<Sum>(st, e) \<leftarrow> es. turns e)"
| "turns (PObject es) = 2 + (\<Sum>(ps, st, e) \<leftarrow> es. 1 + turns e)"
| "turns _ = 1"

subsection \<open>Making of values\<close>

text \<open>
  What is relied on of the library: what is created and added represents what it should, and a failed
  addition changes nothing. \<open>sure\<close> tells that no creation fails.
\<close>

definition created :: "bool \<Rightarrow> 'j option \<Rightarrow> ('j \<Rightarrow> bool) \<Rightarrow> bool" where
  "created sure x P \<longleftrightarrow> (case x of None \<Rightarrow> \<not> sure | Some j \<Rightarrow> P j)"

definition json_c_makes :: "bool \<Rightarrow> ('j, 'd) json_c \<Rightarrow> ('j \<Rightarrow> 'd json) \<Rightarrow> bool" where
  "json_c_makes sure api jv \<longleftrightarrow>
     (\<forall>b. created sure (jc_new_boolean api b) (\<lambda>x. jv x = JBool b)) \<and>
     (\<forall>i. - (2 ^ 63) \<le> i \<and> i < 2 ^ 63 \<longrightarrow> created sure (jc_new_int64 api i) (\<lambda>x. jv x = JInt i)) \<and>
     (\<forall>d. created sure (jc_new_double api d) (\<lambda>x. jv x = JDouble d)) \<and>
     (\<forall>s. created sure (jc_new_string api s) (\<lambda>x. jv x = JString s \<and> jc_string api x = s)) \<and>
     created sure (jc_new_array api) (\<lambda>x. jv x = JArray []) \<and>
     created sure (jc_new_object api) (\<lambda>x. jv x = JObject []) \<and>
     (\<forall>x vs v. jv x = JArray vs \<longrightarrow> length (jc_array api x) = length vs \<and>
        (case jc_array_add api x v of (rc, y) \<Rightarrow> jv y = JArray (if rc = 0 then vs @ [value_of jv v] else vs))) \<and>
     (\<forall>x kvs k v. jv x = JObject kvs \<longrightarrow> length (jc_object api x) = length kvs \<and>
        (k \<notin> fst ` set kvs \<longrightarrow>
           (case jc_object_add api x k v of (rc, y) \<Rightarrow> jv y = JObject (if rc = 0 then kvs @ [(k, value_of jv v)] else kvs))))"

text \<open>
  The additions to containers do not fail: the code does not look at what they return, and loses the
  item when they do.
\<close>

definition adds_succeed :: "('j, 'd) json_c \<Rightarrow> ('j \<Rightarrow> 'd json) \<Rightarrow> bool" where
  "adds_succeed api jv \<longleftrightarrow> (\<forall>x vs v. jv x = JArray vs \<longrightarrow> fst (jc_array_add api x v) = 0) \<and>
     (\<forall>x kvs k v. jv x = JObject kvs \<longrightarrow> fst (jc_object_add api x k v) = 0)"

definition pack_env :: "bool \<Rightarrow> ('j, 'd) json_c \<Rightarrow> allocator \<Rightarrow> reallocator \<Rightarrow> ('j \<Rightarrow> 'd json) \<Rightarrow> bool" where
  "pack_env sure api malloc realloc jv \<longleftrightarrow> json_c_makes sure api jv \<and> adds_succeed api jv \<and> allocates malloc \<and> reallocates realloc \<and>
     (sure \<longrightarrow> (\<forall>n. malloc n \<noteq> None) \<and> (\<forall>m n. realloc m n \<noteq> None))"

lemma json_c_adds:
  assumes "json_c_makes sure api jv" and "adds_succeed api jv"
  shows "jv x = JArray vs \<Longrightarrow> jv (snd (jc_array_add api x v)) = JArray (vs @ [value_of jv v])"
    and "jv x = JObject kvs \<Longrightarrow> k \<notin> fst ` set kvs \<Longrightarrow>
      jv (snd (jc_object_add api x k v)) = JObject (kvs @ [(k, value_of jv v)])"
  using assms by (auto simp: json_c_makes_def adds_succeed_def case_prod_beta)

lemma pack_envD:
  assumes "pack_env sure api malloc realloc jv"
  shows "created sure (jc_new_boolean api b) (\<lambda>x. jv x = JBool b)"
    and "- (2 ^ 63) \<le> i \<Longrightarrow> i < 2 ^ 63 \<Longrightarrow> created sure (jc_new_int64 api i) (\<lambda>x. jv x = JInt i)"
    and "created sure (jc_new_double api d) (\<lambda>x. jv x = JDouble d)"
    and "created sure (jc_new_string api s) (\<lambda>x. jv x = JString s \<and> jc_string api x = s)"
    and "created sure (jc_new_array api) (\<lambda>x. jv x = JArray [])"
    and "created sure (jc_new_object api) (\<lambda>x. jv x = JObject [])"
    and "jv x = JArray vs \<Longrightarrow> jv (snd (jc_array_add api x v)) = JArray (vs @ [value_of jv v])"
    and "jv x = JArray vs \<Longrightarrow> jc_array api x = [] \<longleftrightarrow> vs = []"
    and "jv x = JObject kvs \<Longrightarrow> jc_object api x = [] \<longleftrightarrow> kvs = []"
    and "jv x = JObject kvs \<Longrightarrow> k \<notin> fst ` set kvs \<Longrightarrow>
      jv (snd (jc_object_add api x k v)) = JObject (kvs @ [(k, value_of jv v)])"
    and "allocates malloc" and "reallocates realloc"
    and "sure \<Longrightarrow> malloc n \<noteq> None" and "sure \<Longrightarrow> realloc m n \<noteq> None"
  using assms json_c_adds [of sure api jv] by (auto simp: pack_env_def json_c_makes_def simp flip: length_0_conv)

text \<open>The lack of memory, when it can be.\<close>

definition oom :: "bool \<Rightarrow> (int \<times> 'j option) option \<Rightarrow> bool" where
  "oom sure r \<longleftrightarrow> \<not> sure \<and> (\<exists>e. r = Some (error_at rp_jsonc_error_out_of_memory e, None))"

definition oom_item :: "bool \<Rightarrow> ('j, 'd) item option \<Rightarrow> bool" where
  "oom_item sure r \<longleftrightarrow> \<not> sure \<and> (\<exists>e. r = Some (Inl (rp_jsonc_error_out_of_memory, e)))"

text \<open>The end of a turn.\<close>

definition after ::
  "('j, 'd) json_c \<Rightarrow> allocator \<Rightarrow> reallocator \<Rightarrow> mem \<Rightarrow> nat \<Rightarrow> 'j option \<Rightarrow> nat \<Rightarrow> ('j, 'd) varg list \<Rightarrow> 'j pframe list \<Rightarrow> strbuf \<Rightarrow>
    (int \<times> 'j option) option" where
  "after api malloc realloc desc n x d args stack b =
     (case stack of [] \<Rightarrow> None | tp # below \<Rightarrow> do {
        p \<leftarrow> place api desc tp (below = []) x d;
        case p of
          Done x \<Rightarrow> Some (0, x)
        | Fails e d \<Rightarrow> Some (error_at e d, None)
        | Placed tp d \<Rightarrow> pack_loop api malloc realloc desc n d args (tp # below) b
      })"

text \<open>The value that an item gives, and what is left then.\<close>

definition gives ::
  "string \<Rightarrow> ('j \<Rightarrow> 'd json) \<Rightarrow> 'd json \<Rightarrow> string \<Rightarrow> 'j option \<Rightarrow> nat \<Rightarrow> strbuf \<Rightarrow> bool" where
  "gives s jv v ts x d b \<longleftrightarrow> value_of jv x = v \<and> (x = None \<longleftrightarrow> v = JNull) \<and> reads s d ts \<and> 256 \<le> length (bs_mem b)"

lemma fresh_ok:
  assumes "created sure x (\<lambda>x. jv x = v)" and "v \<noteq> JNull" and "reads s d ts" and "256 \<le> length (bs_mem b)"
  shows "oom_item sure (Some (fresh x d args b)) \<or>
    (\<exists>y. Some (fresh x d args b) = Some (Inr (y, d, args, b)) \<and> gives s jv v ts y d b)"
  using assms by (cases x) (auto simp: fresh_def oom_item_def created_def gives_def)

lemma created_mono: "created sure x P \<Longrightarrow> (\<And>y. P y \<Longrightarrow> Q y) \<Longrightarrow> created sure x Q"
  by (auto simp: created_def split: option.splits)

lemma pack_text_ok:
  assumes env: "pack_env sure api malloc realloc jv" and s: "no_nul s" and f: "follow ts" and wf: "text_wf ps"
    and r: "reads s d (replicate (length ps - 1) CHR ''+'' @ ts)" and b: "256 \<le> length (bs_mem b)"
  shows "oom_item sure (pack_text api realloc (cstr s) d (text_args ps @ args) b) \<or>
    (\<exists>x d' b'. pack_text api realloc (cstr s) d (text_args ps @ args) b = Some (Inr (Some x, d', args, b')) \<and>
       jv x = JString (concat ps) \<and> jc_string api x = concat ps \<and> reads s d' ts \<and> 256 \<le> length (bs_mem b'))"
proof -
  let ?t = "\<lparr>ts_buf = b, ts_sv = Unset, ts_sz = 0, ts_notnull = False, ts_nullable = False\<rparr>"
  let ?p = "pieces realloc (cstr s) (length (text_args ps @ args)) d (text_args ps @ args) ?t"
  have "text_ok ?t []" using b by (simp add: text_ok_def)
  then have "((\<exists>m k. realloc m k = None) \<and> (\<exists>e. ?p = Some (Inl e))) \<or>
    (\<exists>d' t'. ?p = Some (Inr (d', args, t')) \<and> reads s d' ts \<and> text_ok t' ([] @ concat ps) \<and> ts_notnull t' \<and> ts_sv t' \<noteq> Unset)"
    unfolding text_args_def using wf
    by (intro pieces_ok [OF s pack_envD(12) [OF env] f _ r]) (auto simp: text_wf_def)
  moreover have "(\<exists>m k. realloc m k = None) \<Longrightarrow> \<not> sure" using pack_envD(14) [OF env] by blast
  ultimately consider e where "?p = Some (Inl e)" "\<not> sure"
    | d' t' where "?p = Some (Inr (d', args, t'))" "reads s d' ts" "text_ok t' (concat ps)" "ts_notnull t'" "ts_sv t' \<noteq> Unset"
    unfolding append_Nil by blast
  then show ?thesis
  proof cases
    case 1
    then show ?thesis by (simp add: pack_text_def oom_item_def)
  next
    case (2 d' t')
    have "256 \<le> length (bs_mem (ts_buf t'))" using 2 by (simp add: text_ok_def)
    moreover have "length (concat ps) < 2 ^ 31" using wf by (simp add: text_wf_def)
    moreover have "text_bytes t' = Some (concat ps)" using 2 by (simp add: text_bytes_ok)
    moreover note pack_envD(4) [OF env, of "concat ps"]
    ultimately show ?thesis using 2
      by (cases "jc_new_string api (concat ps)")
        (simp_all add: pack_text_def oom_item_def fresh_def created_def reads_load [OF s] del: length_concat)
  qed
qed

lemma pack_no_text_ok:
  assumes "no_nul s" and "follow ts" and "reads s d (CHR ''?'' # ts)" and "256 \<le> length (bs_mem b)"
  shows "\<exists>d'. pack_text api realloc (cstr s) d (VStr None # args) b = Some (Inr (None, d', args, b)) \<and> reads s d' ts"
proof -
  obtain d' where d': "skip_mark (cstr s) CHR ''?'' d = Some (True, d')" "reads s d' ts"
    using skip_mark_present [OF assms(1,3)] by blast
  note c = followD [OF assms(2)]
  have p: "piece_size (cstr s) d' None A = Some (0, d', A)" for A :: "('a, 'b) varg list"
    using c by (simp add: piece_size_def reads_load [OF assms(1) d'(2)])
  show ?thesis using c d'
    by (simp add: pack_text_def p skip_mark_absent [OF assms(1) d'(2)] reads_load [OF assms(1) d'(2)] Let_def)
qed

lemma pack_object_ok:
  assumes "no_nul s" and "follow ts" and "reads s d ((if x = None then ''?'' else []) @ ts)"
  shows "\<exists>d'. pack_object (cstr s) d (VObj x # args) b = Some (Inr (x, d', args, b)) \<and> reads s d' ts"
proof (cases "x = None")
  case True
  then have r: "reads s d (CHR ''?'' # ts)" using assms(3) by simp
  then obtain d' where "skip_mark (cstr s) CHR ''?'' d = Some (True, d')" "reads s d' ts"
    using skip_mark_present [OF assms(1)] by blast
  then show ?thesis by (simp add: pack_object_def reads_load [OF assms(1) r])
next
  case False
  then have r: "reads s d ts" using assms(3) by (simp only: if_False append_Nil)
  then show ?thesis using False followD [OF assms(2)]
    by (simp add: pack_object_def skip_mark_absent [OF assms(1) r] reads_load [OF assms(1) r])
qed

lemma pack_bytes_ok:
  assumes env: "pack_env sure api malloc realloc jv" and s: "no_nul s" and f: "follow ts" and r: "reads s d ts"
    and bs: "bs \<noteq> []" "length (base64_text url False bs) < 2 ^ 31" and b: "256 \<le> length (bs_mem b)"
  shows "oom_item sure (pack_bytes api malloc url (cstr s) d (VBytes (Some bs) # VSize (length bs) # args) b) \<or>
    (\<exists>y. pack_bytes api malloc url (cstr s) d (VBytes (Some bs) # VSize (length bs) # args) b = Some (Inr (y, d, args, b)) \<and>
       gives s jv (JString (base64_text url False bs)) ts y d b)"
proof -
  let ?t = "base64_text url False bs"
  have E: "rp_base64_encode malloc bs (length bs) 0 False url =
      Some (case malloc (length ?t + 1) of None \<Rightarrow> Inl rp_base64_nomem | Some _ \<Rightarrow> Inr (cstr ?t, length ?t))"
    using rp_base64_encode_eq [OF pack_envD(11) [OF env], of "length bs" bs 0 False url] by (simp add: Let_def fold_lines.simps [of 0])
  show ?thesis
  proof (cases "malloc (length ?t + 1)")
    case None
    then have "\<not> sure" using pack_envD(13) [OF env] by blast
    then show ?thesis using None bs by (simp add: pack_bytes_def E oom_item_def)
  next
    case (Some m)
    note pack_envD(4) [OF env, of ?t]
    then show ?thesis using Some bs followD [OF f] r b
      by (cases "jc_new_string api ?t")
        (simp_all add: pack_bytes_def E oom_item_def fresh_def created_def gives_def skip_mark_absent [OF s r] reads_load [OF s r])
  qed
qed

text \<open>The turns of the loop, by the character that is read.\<close>

lemma turn_item:
  assumes "no_nul s" and "reads s d (c # ts)" and "c \<in> set (pf_acc tp)" and "c \<notin> set ''[{}]''"
  shows "\<exists>d'. reads s d' ts \<and>
    pack_loop api malloc realloc (cstr s) (Suc n) d args (tp # below) b =
      (case pack_item api malloc realloc c (cstr s) d' args b of
         None \<Rightarrow> None
       | Some (Inl (e, d)) \<Rightarrow> Some (error_at e d, None)
       | Some (Inr (x, d, args, b)) \<Rightarrow> after api malloc realloc (cstr s) n x d args (tp # below) b)"
proof -
  obtain d' where d': "skip (cstr s) (d + 1) = Some d'" "reads s d' ts" using reads_Cons(3) [OF assms(1,2)] by blast
  have "c \<noteq> CHR ''['' \<and> c \<noteq> CHR ''{'' \<and> c \<noteq> CHR ''}'' \<and> c \<noteq> CHR '']''" using assms(4) by simp
  then have "pack_loop api malloc realloc (cstr s) (Suc n) d args (tp # below) b =
      (case pack_item api malloc realloc c (cstr s) d' args b of
         None \<Rightarrow> None
       | Some (Inl (e, d)) \<Rightarrow> Some (error_at e d, None)
       | Some (Inr (x, d, args, b)) \<Rightarrow> after api malloc realloc (cstr s) n x d args (tp # below) b)"
    using reads_Cons(1,2) [OF assms(1,2)] assms(3) d'(1)
    by (auto simp: after_def split: option.splits sum.splits)
  then show ?thesis using d'(2) by blast
qed

lemma turn_open:
  assumes "no_nul s" and "reads s d (c # ts)" and "c \<in> set (pf_acc tp)" and "c = CHR ''['' \<or> c = CHR ''{''"
    and "length (tp # below) < STACKCOUNT"
  shows "\<exists>d'. reads s d' ts \<and>
    pack_loop api malloc realloc (cstr s) (Suc n) d args (tp # below) b =
      (if pf_cont (open_container api c) = None then Some (error_at rp_jsonc_error_out_of_memory d', None)
       else pack_loop api malloc realloc (cstr s) n d' args (open_container api c # tp # below) b)"
proof -
  obtain d' where d': "skip (cstr s) (d + 1) = Some d'" "reads s d' ts" using reads_Cons(3) [OF assms(1,2)] by blast
  show ?thesis using reads_Cons(1,2) [OF assms(1,2)] assms(3-5) d' by auto
qed

lemma turn_close:
  assumes "no_nul s" and "reads s d (c # ts)" and "c \<in> set (pf_acc tp)" and "c = CHR '']'' \<or> c = CHR ''}''"
    and "c = pf_type tp" and "pf_cont tp = Some r" and "below \<noteq> []"
  shows "\<exists>d'. reads s d' ts \<and>
    pack_loop api malloc realloc (cstr s) (Suc n) d args (tp # below) b =
      after api malloc realloc (cstr s) n (if next_char ts = CHR ''*'' \<and> is_empty api c r then None else Some r) d' args below b"
proof -
  obtain d' where d': "skip (cstr s) (d + 1) = Some d'" "reads s d' ts" using reads_Cons(3) [OF assms(1,2)] by blast
  have "c \<noteq> CHR ''['' \<and> c \<noteq> CHR ''{''" using assms(4) by auto
  then show ?thesis using reads_Cons(1,2) [OF assms(1,2)] assms(3-7) d' reads_load [OF assms(1) d'(2)]
    by (auto simp: after_def split: option.splits)
qed

declare pack_loop.simps [simp del]

text \<open>The three states of a container.\<close>

definition arr_frame :: "'j \<Rightarrow> 'j pframe" where
  "arr_frame r = \<lparr>pf_cont = Some r, pf_key = None, pf_acc = pack_accept_arr, pf_type = CHR '']''\<rparr>"

definition obj_frame :: "'j \<Rightarrow> 'j pframe" where
  "obj_frame r = \<lparr>pf_cont = Some r, pf_key = None, pf_acc = pack_accept_key, pf_type = CHR ''}''\<rparr>"

definition val_frame :: "'j \<Rightarrow> 'j \<Rightarrow> 'j pframe" where
  "val_frame r k = \<lparr>pf_cont = Some r, pf_key = Some k, pf_acc = pack_accept_any, pf_type = CHR '':''\<rparr>"

text \<open>What follows an item of a container: no mark, and no star.\<close>

definition follow_item :: "string \<Rightarrow> bool" where
  "follow_item ts \<longleftrightarrow> next_char ts \<notin> set ''?%#+*''"

lemma follow_star: "follow_item ts \<Longrightarrow> follow (star st @ ts)"
  by (auto simp: follow_item_def follow_def star_def)

lemma star_next: "follow_item ts \<Longrightarrow> next_char (star st @ ts) = CHR ''*'' \<longleftrightarrow> st"
  by (auto simp: follow_item_def star_def)

lemma skip_star:
  assumes "no_nul s" and "reads s d (star st @ ts)" and "follow_item ts"
  shows "\<exists>d'. skip_mark (cstr s) CHR ''*'' d = Some (st, d') \<and> reads s d' ts"
proof (cases st)
  case True
  then show ?thesis using assms(2) skip_mark_present [OF assms(1), of d "CHR ''*''" ts] by (simp add: star_def)
next
  case False
  then have r: "reads s d ts" using assms(2) by (simp add: star_def)
  have "next_char ts \<noteq> CHR ''*''" using assms(3) by (simp add: follow_item_def)
  then show ?thesis using False r skip_mark_absent [OF assms(1) r] by simp
qed

lemma after_array:
  assumes env: "pack_env sure api malloc realloc jv" and s: "no_nul s" and f: "follow_item ts"
    and g: "gives s jv v (star st @ ts) x d b" and r: "jv r = JArray vs"
  shows "\<exists>r' d'. reads s d' ts \<and> jv r' = JArray (vs @ (if kept st v then [v] else [])) \<and>
    after api malloc realloc (cstr s) n x d args (arr_frame r # below) b =
      pack_loop api malloc realloc (cstr s) n d' args (arr_frame r' # below) b"
proof -
  have rd: "reads s d (star st @ ts)" using g by (simp add: gives_def)
  obtain d' where d': "skip_mark (cstr s) CHR ''*'' d = Some (st, d')" "reads s d' ts"
    using skip_star [OF s rd f] by blast
  have k: "(x \<noteq> None \<or> next_char (star st @ ts) \<noteq> CHR ''*'') = kept st v"
    using g by (auto simp: star_next [OF f] kept_def gives_def)
  have v: "value_of jv x = v" using g by (simp add: gives_def)
  let ?r = "if kept st v then snd (jc_array_add api r x) else r"
  have "jv ?r = JArray (vs @ (if kept st v then [v] else []))" using pack_envD(7) [OF env r] r v by simp
  moreover have "after api malloc realloc (cstr s) n x d args (arr_frame r # below) b =
      pack_loop api malloc realloc (cstr s) n d' args (arr_frame ?r # below) b"
    using k d' by (simp add: after_def place_def arr_frame_def reads_load [OF s rd] split del: if_split) simp
  ultimately show ?thesis using d'(2) by blast
qed

lemma after_val:
  assumes env: "pack_env sure api malloc realloc jv" and s: "no_nul s" and f: "follow_item ts"
    and g: "gives s jv v (star st @ ts) x d b" and r: "jv r = JObject kvs"
    and k: "jc_string api k = key" "no_nul key" "key \<notin> fst ` set kvs"
  shows "\<exists>r' d'. reads s d' ts \<and> jv r' = JObject (kvs @ (if kept st v then [(key, v)] else [])) \<and>
    after api malloc realloc (cstr s) n x d args (val_frame r k # below) b =
      pack_loop api malloc realloc (cstr s) n d' args (obj_frame r' # below) b"
proof -
  have rd: "reads s d (star st @ ts)" using g by (simp add: gives_def)
  obtain d' where d': "skip_mark (cstr s) CHR ''*'' d = Some (st, d')" "reads s d' ts"
    using skip_star [OF s rd f] by blast
  have kp: "(x \<noteq> None \<or> next_char (star st @ ts) \<noteq> CHR ''*'') = kept st v"
    using g by (auto simp: star_next [OF f] kept_def gives_def)
  have v: "value_of jv x = v" using g by (simp add: gives_def)
  have t: "takeWhile (\<lambda>c. c \<noteq> NUL) (jc_string api k) = key"
    using k(1,2) by (auto simp: no_nul_def takeWhile_eq_all_conv)
  let ?r = "if kept st v then snd (jc_object_add api r key x) else r"
  have "jv ?r = JObject (kvs @ (if kept st v then [(key, v)] else []))" using pack_envD(10) [OF env r k(3)] r v by simp
  moreover have "after api malloc realloc (cstr s) n x d args (val_frame r k # below) b =
      pack_loop api malloc realloc (cstr s) n d' args (obj_frame ?r # below) b"
    using kp d' t by (simp add: after_def place_def val_frame_def obj_frame_def reads_load [OF s rd] split del: if_split) simp
  ultimately show ?thesis using d'(2) by blast
qed

lemma after_key:
  assumes "no_nul s" and "reads s d ts"
  shows "after api malloc realloc (cstr s) n (Some k) d args (obj_frame r # below) b =
    pack_loop api malloc realloc (cstr s) n d args (val_frame r k # below) b"
  by (simp add: after_def place_def obj_frame_def val_frame_def reads_load [OF assms])

lemma pack_item_simps:
  "pack_item api malloc realloc CHR ''s'' desc d args b = pack_text api realloc desc d args b"
  "pack_item api malloc realloc CHR ''n'' desc d args b = Some (Inr (None, d, args, b))"
  "pack_item api malloc realloc CHR ''b'' desc d (VInt i # args) b = Some (fresh (jc_new_boolean api (i \<noteq> 0)) d args b)"
  "pack_item api malloc realloc CHR ''i'' desc d (VInt i # args) b = Some (fresh (jc_new_int64 api i) d args b)"
  "pack_item api malloc realloc CHR ''I'' desc d (VInt64 i # args) b = Some (fresh (jc_new_int64 api i) d args b)"
  "pack_item api malloc realloc CHR ''f'' desc d (VDouble x # args) b = Some (fresh (jc_new_double api x) d args b)"
  "pack_item api malloc realloc CHR ''o'' desc d args b = pack_object desc d args b"
  "pack_item api malloc realloc CHR ''y'' desc d args b = pack_bytes api malloc True desc d args b"
  "pack_item api malloc realloc CHR ''Y'' desc d args b = pack_bytes api malloc False desc d args b"
  by (simp_all add: pack_item_def)

subsection \<open>A described value is made\<close>

text \<open>What is proved of each specification, in any state of the loop that accepts a value.\<close>

definition packs ::
  "bool \<Rightarrow> ('j, 'd) json_c \<Rightarrow> allocator \<Rightarrow> reallocator \<Rightarrow> ('j \<Rightarrow> 'd json) \<Rightarrow> string \<Rightarrow> ('j, 'd) pspec \<Rightarrow> bool" where
  "packs sure api malloc realloc jv s e \<longleftrightarrow> (\<forall>st ts n d args tp below b.
     pwf jv (Suc (length below)) e \<longrightarrow> set pack_accept_any \<subseteq> set (pf_acc tp) \<longrightarrow> follow_item ts \<longrightarrow>
     reads s d (render e @ star st @ ts) \<longrightarrow> 256 \<le> length (bs_mem b) \<longrightarrow>
     (let L = pack_loop api malloc realloc (cstr s) (turns e + n) d (args_of e @ args) (tp # below) b in
      oom sure L \<or> (\<exists>x d' b'. gives s jv (pvalue jv st e) (star st @ ts) x d' b' \<and>
        L = after api malloc realloc (cstr s) n x d' args (tp # below) b')))"

lemma packsD:
  assumes "packs sure api malloc realloc jv s e" and "pwf jv (Suc (length below)) e" and "set pack_accept_any \<subseteq> set (pf_acc tp)"
    and "follow_item ts" and "reads s d (render e @ star st @ ts)" and "256 \<le> length (bs_mem b)"
  obtains "oom sure (pack_loop api malloc realloc (cstr s) (turns e + n) d (args_of e @ args) (tp # below) b)"
  | x d' b' where "gives s jv (pvalue jv st e) (star st @ ts) x d' b'"
      "pack_loop api malloc realloc (cstr s) (turns e + n) d (args_of e @ args) (tp # below) b =
        after api malloc realloc (cstr s) n x d' args (tp # below) b'"
  using assms unfolding packs_def Let_def by blast

lemma packsI_scalar:
  assumes s: "no_nul s" and e: "render e = c # ts'" "turns e = 1" "c \<in> set pack_accept_any" "c \<notin> set ''[{}]''"
    and item: "\<And>st ts d args b. pwf jv 0 e \<Longrightarrow> follow (star st @ ts) \<Longrightarrow> reads s d (ts' @ star st @ ts) \<Longrightarrow> 256 \<le> length (bs_mem b) \<Longrightarrow>
      oom_item sure (pack_item api malloc realloc c (cstr s) d (args_of e @ args) b) \<or>
      (\<exists>x d' b'. pack_item api malloc realloc c (cstr s) d (args_of e @ args) b = Some (Inr (x, d', args, b')) \<and>
         gives s jv (pvalue jv st e) (star st @ ts) x d' b')"
    and w: "\<And>k. pwf jv k e \<Longrightarrow> pwf jv 0 e"
  shows "packs sure api malloc realloc jv s e"
  unfolding packs_def Let_def
proof (intro allI impI)
  fix st ts n d args and tp :: "'a pframe" and below :: "'a pframe list" and b :: strbuf
  assume wf: "pwf jv (Suc (length below)) e" and a: "set pack_accept_any \<subseteq> set (pf_acc tp)" and f: "follow_item ts"
    and r: "reads s d (render e @ star st @ ts)" and b: "256 \<le> length (bs_mem b)"
  let ?L = "pack_loop api malloc realloc (cstr s) (turns e + n) d (args_of e @ args) (tp # below) b"
  have r': "reads s d (c # ts' @ star st @ ts)" using r e(1) by simp
  have ca: "c \<in> set (pf_acc tp)" using a e(3) by blast
  obtain d1 where d1: "reads s d1 (ts' @ star st @ ts)"
    and L: "?L = (case pack_item api malloc realloc c (cstr s) d1 (args_of e @ args) b of
         None \<Rightarrow> None
       | Some (Inl (e, d)) \<Rightarrow> Some (error_at e d, None)
       | Some (Inr (x, d, args, b)) \<Rightarrow> after api malloc realloc (cstr s) n x d args (tp # below) b)"
    using turn_item [OF s r' ca e(4)] unfolding e(2) plus_1_eq_Suc by blast
  show "oom sure ?L \<or> (\<exists>x d' b'. gives s jv (pvalue jv st e) (star st @ ts) x d' b' \<and>
        ?L = after api malloc realloc (cstr s) n x d' args (tp # below) b')"
    using item [OF w [OF wf] follow_star [OF f] d1 b, of args]
  proof (elim disjE exE conjE)
    assume "oom_item sure (pack_item api malloc realloc c (cstr s) d1 (args_of e @ args) b)"
    then show ?thesis unfolding L by (auto simp: oom_item_def oom_def)
  next
    fix x d' b'
    assume p: "pack_item api malloc realloc c (cstr s) d1 (args_of e @ args) b = Some (Inr (x, d', args, b'))"
      and "gives s jv (pvalue jv st e) (star st @ ts) x d' b'"
    then show ?thesis unfolding L p by auto
  qed
qed

lemma follow_item_render: "follow_item (render e @ ts)"
  by (cases e) (auto simp: follow_item_def render_text_def split: option.splits)

lemma follow_item_key: "follow_item (render_text ps @ ts)"
  by (simp add: follow_item_def render_text_def)

lemma packsI_fresh:
  assumes s: "no_nul s" and e: "render e = [c]" "turns e = 1" "c \<in> set pack_accept_any" "c \<notin> set ''[{}]''"
    and item: "\<And>d args b. pack_item api malloc realloc c (cstr s) d (args_of e @ args) b = Some (fresh x d args b)"
    and v: "\<And>k st. pwf jv k e \<Longrightarrow> created sure x (\<lambda>x. jv x = pvalue jv st e) \<and> pvalue jv st e \<noteq> JNull \<and> pwf jv 0 e"
  shows "packs sure api malloc realloc jv s e"
proof (rule packsI_scalar [OF s e])
  fix st ts d and args :: "('a, 'b) varg list" and b :: strbuf
  assume w: "pwf jv 0 e" and r: "reads s d ([] @ star st @ ts)" and b: "256 \<le> length (bs_mem b)"
  have "oom_item sure (Some (fresh x d args b)) \<or>
      (\<exists>y. Some (fresh x d args b) = Some (Inr (y, d, args, b)) \<and> gives s jv (pvalue jv st e) (star st @ ts) y d b)"
    using r v [OF w] b by (intro fresh_ok) auto
  then show "oom_item sure (pack_item api malloc realloc c (cstr s) d (args_of e @ args) b) \<or>
      (\<exists>x d' b'. pack_item api malloc realloc c (cstr s) d (args_of e @ args) b = Some (Inr (x, d', args, b')) \<and>
         gives s jv (pvalue jv st e) (star st @ ts) x d' b')"
    unfolding item by blast
qed (use v in blast)

lemmas pack_accepts = pack_accept_any_def pack_accept_arr_def

lemma packs_atoms:
  assumes env: "pack_env sure api malloc realloc jv" and s: "no_nul s"
  shows "packs sure api malloc realloc jv s PNull" and "packs sure api malloc realloc jv s (PBool t)"
    and "packs sure api malloc realloc jv s (PInt i)" and "packs sure api malloc realloc jv s (PInt64 i)"
    and "packs sure api malloc realloc jv s (PDouble x)"
proof -
  show "packs sure api malloc realloc jv s PNull"
    by (rule packsI_scalar [OF s]) (auto simp: pack_accepts pack_item_simps gives_def)
  show "packs sure api malloc realloc jv s (PBool t)"
    by (rule packsI_fresh [OF s, where x = "jc_new_boolean api t"])
      (use pack_envD(1) [OF env, of t] in \<open>auto simp: pack_accepts pack_item_simps\<close>)
  show "packs sure api malloc realloc jv s (PInt i)"
    by (rule packsI_fresh [OF s]) (auto simp: pack_accepts pack_item_simps pack_envD(2) [OF env])
  show "packs sure api malloc realloc jv s (PInt64 i)"
    by (rule packsI_fresh [OF s]) (auto simp: pack_accepts pack_item_simps pack_envD(2) [OF env])
  show "packs sure api malloc realloc jv s (PDouble x)"
    by (rule packsI_fresh [OF s]) (auto simp: pack_accepts pack_item_simps pack_envD(3) [OF env])
qed

lemma packs_text:
  assumes env: "pack_env sure api malloc realloc jv" and s: "no_nul s"
  shows "packs sure api malloc realloc jv s (PText ps)"
proof (rule packsI_scalar [OF s])
  show "render (PText ps) = CHR ''s'' # replicate (length ps - 1) CHR ''+''" by (simp add: render_text_def)
  fix st ts d args and b :: strbuf
  assume h: "pwf jv 0 (PText ps)" "follow (star st @ ts)" "reads s d (replicate (length ps - 1) CHR ''+'' @ star st @ ts)"
    "256 \<le> length (bs_mem b)"
  then show "oom_item sure (pack_item api malloc realloc CHR ''s'' (cstr s) d (args_of (PText ps) @ args) b) \<or>
    (\<exists>x d' b'. pack_item api malloc realloc CHR ''s'' (cstr s) d (args_of (PText ps) @ args) b = Some (Inr (x, d', args, b')) \<and>
       gives s jv (pvalue jv st (PText ps)) (star st @ ts) x d' b')"
    using pack_text_ok [OF env s h(2) _ h(3,4), of args] by (auto simp: pack_item_simps gives_def)
qed (auto simp: pack_accepts)

lemma packs_no_text:
  assumes s: "no_nul s"
  shows "packs sure api malloc realloc jv s PNoText"
proof (rule packsI_scalar [OF s])
  show "render PNoText = CHR ''s'' # ''?''" by simp
  fix st ts d args and b :: strbuf
  assume h: "follow (star st @ ts)" "reads s d (''?'' @ star st @ ts)" "256 \<le> length (bs_mem b)"
  then show "oom_item sure (pack_item api malloc realloc CHR ''s'' (cstr s) d (args_of PNoText @ args) b) \<or>
    (\<exists>x d' b'. pack_item api malloc realloc CHR ''s'' (cstr s) d (args_of PNoText @ args) b = Some (Inr (x, d', args, b')) \<and>
       gives s jv (pvalue jv st PNoText) (star st @ ts) x d' b')"
    using pack_no_text_ok [OF s h(1), of d b api realloc args] by (auto simp: pack_item_simps gives_def)
qed (auto simp: pack_accepts)

lemma packs_obj:
  assumes s: "no_nul s"
  shows "packs sure api malloc realloc jv s (PObj y)"
proof (rule packsI_scalar [OF s])
  show "render (PObj y) = CHR ''o'' # (if y = None then ''?'' else [])" by (cases y) simp_all
  fix st ts d args and b :: strbuf
  assume h: "pwf jv 0 (PObj y)" "follow (star st @ ts)" "reads s d ((if y = None then ''?'' else []) @ star st @ ts)"
    "256 \<le> length (bs_mem b)"
  then show "oom_item sure (pack_item api malloc realloc CHR ''o'' (cstr s) d (args_of (PObj y) @ args) b) \<or>
    (\<exists>x d' b'. pack_item api malloc realloc CHR ''o'' (cstr s) d (args_of (PObj y) @ args) b = Some (Inr (x, d', args, b')) \<and>
       gives s jv (pvalue jv st (PObj y)) (star st @ ts) x d' b')"
    using pack_object_ok [OF s h(2,3), of args b] by (auto simp: pack_item_simps gives_def split: option.splits)
qed (auto simp: pack_accepts)

lemma packs_bytes:
  assumes env: "pack_env sure api malloc realloc jv" and s: "no_nul s"
  shows "packs sure api malloc realloc jv s (PBytes url bs)"
proof (rule packsI_scalar [OF s])
  let ?c = "if url then CHR ''y'' else CHR ''Y''"
  show "render (PBytes url bs) = ?c # []" by simp
  fix st ts d args and b :: strbuf
  assume h: "pwf jv 0 (PBytes url bs)" "follow (star st @ ts)" "reads s d ([] @ star st @ ts)" "256 \<le> length (bs_mem b)"
  then show "oom_item sure (pack_item api malloc realloc ?c (cstr s) d (args_of (PBytes url bs) @ args) b) \<or>
    (\<exists>x d' b'. pack_item api malloc realloc ?c (cstr s) d (args_of (PBytes url bs) @ args) b = Some (Inr (x, d', args, b')) \<and>
       gives s jv (pvalue jv st (PBytes url bs)) (star st @ ts) x d' b')"
    using pack_bytes_ok [OF env s h(2), of d bs url b args] by (cases url) (auto simp: pack_item_simps)
qed (auto simp: pack_accepts)

text \<open>The items of an array.\<close>

lemma array_run:
  assumes env: "pack_env sure api malloc realloc jv" and s: "no_nul s"
  shows "\<forall>(st, e) \<in> set es. packs sure api malloc realloc jv s e \<and> pwf jv (Suc (length below)) e \<Longrightarrow>
    reads s d (concat (map (\<lambda>(st, e). render e @ star st) es) @ CHR '']'' # ts) \<Longrightarrow> 256 \<le> length (bs_mem b) \<Longrightarrow>
    jv r = JArray vs \<Longrightarrow>
    (let L = pack_loop api malloc realloc (cstr s) ((\<Sum>(st, e) \<leftarrow> es. turns e) + n) d
        (concat (map (\<lambda>(st, e). args_of e) es) @ args) (arr_frame r # below) b in
     oom sure L \<or> (\<exists>r' d' b'. jv r' = JArray (vs @ concat (map (\<lambda>(st, e). let v = pvalue jv st e in if kept st v then [v] else []) es)) \<and>
        reads s d' (CHR '']'' # ts) \<and> 256 \<le> length (bs_mem b') \<and>
        L = pack_loop api malloc realloc (cstr s) n d' args (arr_frame r' # below) b'))"
proof (induction es arbitrary: d b r vs)
  case Nil
  then show ?case by (auto simp: Let_def)
next
  case (Cons a es)
  obtain st e where a: "a = (st, e)" by (cases a)
  let ?rest = "concat (map (\<lambda>(st, e). render e @ star st) es) @ CHR '']'' # ts"
  let ?args = "concat (map (\<lambda>(st, e). args_of e) es) @ args"
  let ?n = "(\<Sum>(st, e) \<leftarrow> es. turns e) + n"
  let ?v = "pvalue jv st e"
  have fr: "follow_item ?rest"
  proof (cases es)
    case Nil
    then show ?thesis by (simp add: follow_item_def)
  next
    case (Cons c cs)
    then show ?thesis by (cases c) (simp add: follow_item_render)
  qed
  have A: "set pack_accept_any \<subseteq> set (pf_acc (arr_frame r))" by (auto simp: arr_frame_def pack_accepts)
  have r0: "reads s d (render e @ star st @ ?rest)" using Cons.prems(2) a by simp
  have p: "packs sure api malloc realloc jv s e" and w: "pwf jv (Suc (length below)) e" using Cons.prems(1) a by auto
  have L: "pack_loop api malloc realloc (cstr s) ((\<Sum>(st, e) \<leftarrow> a # es. turns e) + n) d
        (concat (map (\<lambda>(st, e). args_of e) (a # es)) @ args) (arr_frame r # below) b =
      pack_loop api malloc realloc (cstr s) (turns e + ?n) d (args_of e @ ?args) (arr_frame r # below) b"
    by (simp add: a add.assoc)
  show ?case
    using packsD [OF p w A fr r0 Cons.prems(3), of ?n ?args]
  proof cases
    case 1
    then show ?thesis unfolding Let_def L by blast
  next
    case (2 x d' b')
    obtain r' d'' where r': "reads s d'' ?rest" "jv r' = JArray (vs @ (if kept st ?v then [?v] else []))"
      "after api malloc realloc (cstr s) ?n x d' ?args (arr_frame r # below) b' =
        pack_loop api malloc realloc (cstr s) ?n d'' ?args (arr_frame r' # below) b'"
      using after_array [OF env s fr 2(1) Cons.prems(4)] by blast
    have b': "256 \<le> length (bs_mem b')" using 2(1) by (simp add: gives_def)
    have I: "\<forall>(st, e) \<in> set es. packs sure api malloc realloc jv s e \<and> pwf jv (Suc (length below)) e" using Cons.prems(1) by simp
    show ?thesis using Cons.IH [OF I r'(1) b' r'(2)] unfolding L 2(2) r'(3) Let_def by (simp add: a Let_def)
  qed
qed

text \<open>The entries of an object.\<close>

lemma key_turn:
  assumes env: "pack_env sure api malloc realloc jv" and s: "no_nul s" and f: "follow ts" and w: "text_wf ps"
    and r: "reads s d (render_text ps @ ts)" and b: "256 \<le> length (bs_mem b)"
  shows "oom sure (pack_loop api malloc realloc (cstr s) (Suc n) d (text_args ps @ args) (obj_frame r # below) b) \<or>
    (\<exists>k d' b'. jc_string api k = concat ps \<and> reads s d' ts \<and> 256 \<le> length (bs_mem b') \<and>
      pack_loop api malloc realloc (cstr s) (Suc n) d (text_args ps @ args) (obj_frame r # below) b =
      pack_loop api malloc realloc (cstr s) n d' args (val_frame r k # below) b')"
proof -
  have r': "reads s d (CHR ''s'' # replicate (length ps - 1) CHR ''+'' @ ts)" using assms(5) by (simp add: render_text_def)
  let ?L = "pack_loop api malloc realloc (cstr s) (Suc n) d (text_args ps @ args) (obj_frame r # below) b"
  obtain d1 where d1: "reads s d1 (replicate (length ps - 1) CHR ''+'' @ ts)"
    and L: "?L = (case pack_text api realloc (cstr s) d1 (text_args ps @ args) b of
         None \<Rightarrow> None
       | Some (Inl (e, d)) \<Rightarrow> Some (error_at e d, None)
       | Some (Inr (x, d, args, b)) \<Rightarrow> after api malloc realloc (cstr s) n x d args (obj_frame r # below) b)"
    using turn_item [OF s r', of "obj_frame r" api malloc realloc n "text_args ps @ args" below b]
    by (auto simp: obj_frame_def pack_accept_key_def pack_item_simps)
  from pack_text_ok [OF env s f w d1 b, of args] show ?thesis
  proof (elim disjE exE conjE)
    assume "oom_item sure (pack_text api realloc (cstr s) d1 (text_args ps @ args) b)"
    then show ?thesis unfolding L by (auto simp: oom_item_def oom_def)
  next
    fix k d' b'
    assume p: "pack_text api realloc (cstr s) d1 (text_args ps @ args) b = Some (Inr (Some k, d', args, b'))"
      and k: "jc_string api k = concat ps" "reads s d' ts" "256 \<le> length (bs_mem b')"
    have "?L = pack_loop api malloc realloc (cstr s) n d' args (val_frame r k # below) b'"
      unfolding L p using after_key [OF s k(2)] by auto
    then show ?thesis using k by blast
  qed
qed

lemma no_nul_concat: "(\<forall>p \<in> set ps. no_nul p) \<Longrightarrow> no_nul (concat ps)"
  by (induction ps) auto

lemma object_run:
  assumes env: "pack_env sure api malloc realloc jv" and s: "no_nul s"
  shows "\<forall>(ps, st, e) \<in> set es. packs sure api malloc realloc jv s e \<and> pwf jv (Suc (length below)) e \<and> text_wf ps \<Longrightarrow>
    distinct (map (concat \<circ> fst) es) \<Longrightarrow> fst ` set kvs \<inter> (concat \<circ> fst) ` set es = {} \<Longrightarrow>
    reads s d (concat (map (\<lambda>(ps, st, e). render_text ps @ render e @ star st) es) @ CHR ''}'' # ts) \<Longrightarrow> 256 \<le> length (bs_mem b) \<Longrightarrow>
    jv r = JObject kvs \<Longrightarrow>
    (let L = pack_loop api malloc realloc (cstr s) ((\<Sum>(ps, st, e) \<leftarrow> es. 1 + turns e) + n) d
        (concat (map (\<lambda>(ps, st, e). text_args ps @ args_of e) es) @ args) (obj_frame r # below) b in
     oom sure L \<or> (\<exists>r' d' b'. jv r' = JObject (kvs @
          concat (map (\<lambda>(ps, st, e). let v = pvalue jv st e in if kept st v then [(concat ps, v)] else []) es)) \<and>
        reads s d' (CHR ''}'' # ts) \<and> 256 \<le> length (bs_mem b') \<and>
        L = pack_loop api malloc realloc (cstr s) n d' args (obj_frame r' # below) b'))"
proof (induction es arbitrary: d b r kvs)
  case Nil
  then show ?case by (auto simp: Let_def)
next
  case (Cons a es)
  obtain ps st e where a: "a = (ps, st, e)" by (cases a) auto
  let ?rest = "concat (map (\<lambda>(ps, st, e). render_text ps @ render e @ star st) es) @ CHR ''}'' # ts"
  let ?args = "concat (map (\<lambda>(ps, st, e). text_args ps @ args_of e) es) @ args"
  let ?n = "(\<Sum>(ps, st, e) \<leftarrow> es. 1 + turns e) + n"
  let ?v = "pvalue jv st e"
  have fr: "follow_item ?rest"
  proof (cases es)
    case Nil
    then show ?thesis by (simp add: follow_item_def)
  next
    case (Cons c cs)
    then show ?thesis by (cases c) (simp add: follow_item_key)
  qed
  have fv: "follow (render e @ star st @ ?rest)"
    using follow_item_render [of e] by (auto simp: follow_item_def follow_def)
  have r0: "reads s d (render_text ps @ render e @ star st @ ?rest)" using Cons.prems(4) a by simp
  have p: "packs sure api malloc realloc jv s e" and w: "pwf jv (Suc (length below)) e" and wt: "text_wf ps"
    using Cons.prems(1) a by auto
  have L: "pack_loop api malloc realloc (cstr s) ((\<Sum>(ps, st, e) \<leftarrow> a # es. 1 + turns e) + n) d
        (concat (map (\<lambda>(ps, st, e). text_args ps @ args_of e) (a # es)) @ args) (obj_frame r # below) b =
      pack_loop api malloc realloc (cstr s) (Suc (turns e + ?n)) d (text_args ps @ args_of e @ ?args) (obj_frame r # below) b"
    by (simp add: a add.assoc del: pack_loop.simps)
  show ?case
    using key_turn [OF env s fv wt r0 Cons.prems(5), of "turns e + ?n" "args_of e @ ?args" r below]
  proof (elim disjE exE conjE)
    assume "oom sure (pack_loop api malloc realloc (cstr s) (Suc (turns e + ?n)) d (text_args ps @ args_of e @ ?args) (obj_frame r # below) b)"
    then show ?thesis unfolding Let_def L by blast
  next
    fix k d1 b1
    assume k: "jc_string api k = concat ps" and r1: "reads s d1 (render e @ star st @ ?rest)" and b1: "256 \<le> length (bs_mem b1)"
      and L1: "pack_loop api malloc realloc (cstr s) (Suc (turns e + ?n)) d (text_args ps @ args_of e @ ?args) (obj_frame r # below) b =
        pack_loop api malloc realloc (cstr s) (turns e + ?n) d1 (args_of e @ ?args) (val_frame r k # below) b1"
    have A: "set pack_accept_any \<subseteq> set (pf_acc (val_frame r k))" by (simp add: val_frame_def)
    show ?thesis
      using packsD [OF p w A fr r1 b1, of ?n ?args]
    proof cases
      case 1
      then show ?thesis unfolding Let_def L L1 by blast
    next
      case (2 x d' b')
      have kn: "no_nul (concat ps)" "concat ps \<notin> fst ` set kvs"
        using wt Cons.prems(3) a by (auto simp: text_wf_def intro: no_nul_concat)
      obtain r' d'' where r': "reads s d'' ?rest" "jv r' = JObject (kvs @ (if kept st ?v then [(concat ps, ?v)] else []))"
        "after api malloc realloc (cstr s) ?n x d' ?args (val_frame r k # below) b' =
          pack_loop api malloc realloc (cstr s) ?n d'' ?args (obj_frame r' # below) b'"
        using after_val [OF env s fr 2(1) Cons.prems(6) k kn] by blast
      have b': "256 \<le> length (bs_mem b')" using 2(1) by (simp add: gives_def)
      have I: "\<forall>(ps, st, e) \<in> set es. packs sure api malloc realloc jv s e \<and> pwf jv (Suc (length below)) e \<and> text_wf ps"
        using Cons.prems(1) by simp
      have D: "distinct (map (concat \<circ> fst) es)" using Cons.prems(2) by (simp only: list.map distinct.simps)
      have K: "fst ` set (kvs @ (if kept st ?v then [(concat ps, ?v)] else [])) \<inter> (concat \<circ> fst) ` set es = {}"
      proof -
        have "\<forall>x \<in> set es. concat (fst x) \<noteq> concat ps" using Cons.prems(2) a by (simp add: image_iff) metis
        then show ?thesis using Cons.prems(3) by auto
      qed
      show ?thesis using Cons.IH [OF I D K r'(1) b' r'(2)] unfolding L L1 2(2) r'(3) Let_def by (simp add: a Let_def)
    qed
  qed
qed

text \<open>The end of a container.\<close>

lemma close_array:
  assumes env: "pack_env sure api malloc realloc jv" and s: "no_nul s" and f: "follow_item ts"
    and r: "reads s d (CHR '']'' # star st @ ts)" and j: "jv r = JArray vs" and b: "256 \<le> length (bs_mem b)"
  shows "\<exists>x d'. gives s jv (starred st vs JArray) (star st @ ts) x d' b \<and>
    pack_loop api malloc realloc (cstr s) (Suc n) d args (arr_frame r # tp # below) b =
      after api malloc realloc (cstr s) n x d' args (tp # below) b"
proof -
  let ?x = "if next_char (star st @ ts) = CHR ''*'' \<and> is_empty api CHR '']'' r then None else Some r"
  have c: "CHR '']'' \<in> set (pf_acc (arr_frame r))" "CHR '']'' = pf_type (arr_frame r)" "pf_cont (arr_frame r) = Some r"
    by (simp_all add: arr_frame_def pack_accepts)
  obtain d' where d': "reads s d' (star st @ ts)"
    "pack_loop api malloc realloc (cstr s) (Suc n) d args (arr_frame r # tp # below) b =
      after api malloc realloc (cstr s) n ?x d' args (tp # below) b"
    using turn_close [OF s r c(1) disjI1 [OF refl] c(2,3), of "tp # below" api malloc realloc n args b] by auto
  have "gives s jv (starred st vs JArray) (star st @ ts) ?x d' b"
    using d'(1) b j pack_envD(8) [OF env j] by (auto simp: gives_def starred_def star_next [OF f] is_empty_def)
  then show ?thesis using d'(2) by blast
qed

lemma close_object:
  assumes env: "pack_env sure api malloc realloc jv" and s: "no_nul s" and f: "follow_item ts"
    and r: "reads s d (CHR ''}'' # star st @ ts)" and j: "jv r = JObject kvs" and b: "256 \<le> length (bs_mem b)"
  shows "\<exists>x d'. gives s jv (starred st kvs JObject) (star st @ ts) x d' b \<and>
    pack_loop api malloc realloc (cstr s) (Suc n) d args (obj_frame r # tp # below) b =
      after api malloc realloc (cstr s) n x d' args (tp # below) b"
proof -
  let ?x = "if next_char (star st @ ts) = CHR ''*'' \<and> is_empty api CHR ''}'' r then None else Some r"
  have c: "CHR ''}'' \<in> set (pf_acc (obj_frame r))" "CHR ''}'' = pf_type (obj_frame r)" "pf_cont (obj_frame r) = Some r"
    by (simp_all add: obj_frame_def pack_accept_key_def)
  obtain d' where d': "reads s d' (star st @ ts)"
    "pack_loop api malloc realloc (cstr s) (Suc n) d args (obj_frame r # tp # below) b =
      after api malloc realloc (cstr s) n ?x d' args (tp # below) b"
    using turn_close [OF s r c(1) disjI2 [OF refl] c(2,3), of "tp # below" api malloc realloc n args b] by auto
  have "gives s jv (starred st kvs JObject) (star st @ ts) ?x d' b"
    using d'(1) b j pack_envD(9) [OF env j] by (auto simp: gives_def starred_def star_next [OF f] is_empty_def)
  then show ?thesis using d'(2) by blast
qed

text \<open>The start of a container.\<close>

lemma open_ok:
  assumes env: "pack_env sure api malloc realloc jv" and s: "no_nul s" and r: "reads s d (c # ts)"
    and c: "c = CHR ''['' \<or> c = CHR ''{''" and a: "set pack_accept_any \<subseteq> set (pf_acc tp)" and l: "Suc (length below) < STACKCOUNT"
  shows "oom sure (pack_loop api malloc realloc (cstr s) (Suc n) d args (tp # below) b) \<or>
    (\<exists>x d'. jv x = (if c = CHR ''['' then JArray [] else JObject []) \<and> reads s d' ts \<and>
      pack_loop api malloc realloc (cstr s) (Suc n) d args (tp # below) b =
      pack_loop api malloc realloc (cstr s) n d' args ((if c = CHR ''['' then arr_frame x else obj_frame x) # tp # below) b)"
proof -
  have ca: "c \<in> set (pf_acc tp)" using a c by (auto simp: pack_accepts)
  have l': "length (tp # below) < STACKCOUNT" using l by simp
  obtain d' where d': "reads s d' ts" "pack_loop api malloc realloc (cstr s) (Suc n) d args (tp # below) b =
      (if pf_cont (open_container api c) = None then Some (error_at rp_jsonc_error_out_of_memory d', None)
       else pack_loop api malloc realloc (cstr s) n d' args (open_container api c # tp # below) b)"
    using turn_open [OF s r ca c l'] by blast
  show ?thesis
  proof (cases "pf_cont (open_container api c)")
    case None
    then have "\<not> sure" using pack_envD(5,6) [OF env] c
      by (auto simp: open_container_def created_def split: if_splits)
    then show ?thesis using None d'(2) unfolding oom_def by auto
  next
    case (Some x)
    have "jv x = (if c = CHR ''['' then JArray [] else JObject [])"
      using Some pack_envD(5,6) [OF env] c by (auto simp: open_container_def created_def split: if_splits)
    moreover have "open_container api c = (if c = CHR ''['' then arr_frame x else obj_frame x)"
      using Some by (auto simp: open_container_def arr_frame_def obj_frame_def split: if_splits)
    ultimately show ?thesis using d' Some by auto
  qed
qed

lemma packs_array:
  assumes env: "pack_env sure api malloc realloc jv" and s: "no_nul s"
    and IH: "\<forall>(st, e) \<in> set es. packs sure api malloc realloc jv s e"
  shows "packs sure api malloc realloc jv s (PArray es)"
  unfolding packs_def Let_def
proof (intro allI impI)
  fix st ts n d args and tp :: "'a pframe" and below :: "'a pframe list" and b :: strbuf
  assume wf: "pwf jv (Suc (length below)) (PArray es)" and a: "set pack_accept_any \<subseteq> set (pf_acc tp)" and f: "follow_item ts"
    and r: "reads s d (render (PArray es) @ star st @ ts)" and b: "256 \<le> length (bs_mem b)"
  let ?k = "\<Sum>(st, e) \<leftarrow> es. turns e"
  let ?body = "concat (map (\<lambda>(st, e). render e @ star st) es) @ CHR '']'' # star st @ ts"
  let ?args = "concat (map (\<lambda>(st, e). args_of e) es) @ args"
  let ?M = "pack_loop api malloc realloc (cstr s) (Suc (?k + Suc n)) d ?args (tp # below) b"
  let ?goal = "\<lambda>M. oom sure M \<or> (\<exists>x d' b'. gives s jv (pvalue jv st (PArray es)) (star st @ ts) x d' b' \<and>
        M = after api malloc realloc (cstr s) n x d' args (tp # below) b')"
  have T: "turns (PArray es) + n = Suc (?k + Suc n)" and l: "Suc (length below) < STACKCOUNT" using wf by simp_all
  have r': "reads s d (CHR ''['' # ?body)" using r by simp
  have "?goal ?M"
  proof (rule disjE [OF open_ok [OF env s r' disjI1 [OF refl] a l, of "?k + Suc n" ?args b]])
    assume "\<exists>x d'. jv x = (if CHR ''['' = CHR ''['' then JArray [] else JObject []) \<and> reads s d' ?body \<and>
      ?M = pack_loop api malloc realloc (cstr s) (?k + Suc n) d' ?args
        ((if CHR ''['' = CHR ''['' then arr_frame x else obj_frame x) # tp # below) b"
    then obtain x d1 where x: "jv x = JArray []" and d1: "reads s d1 ?body"
      and L: "?M = pack_loop api malloc realloc (cstr s) (?k + Suc n) d1 ?args (arr_frame x # tp # below) b"
      by auto
    have I: "\<forall>(st, e) \<in> set es. packs sure api malloc realloc jv s e \<and> pwf jv (Suc (length (tp # below))) e"
      using IH wf by auto
    show ?thesis
    proof (rule disjE [OF array_run [OF env s I d1 b x, of "Suc n" args, unfolded Let_def, folded L]])
      assume "\<exists>r' d' b'. jv r' = JArray ([] @ concat (map (\<lambda>(st, e). if kept st (pvalue jv st e) then [pvalue jv st e] else []) es)) \<and>
        reads s d' (CHR '']'' # star st @ ts) \<and> 256 \<le> length (bs_mem b') \<and>
        ?M = pack_loop api malloc realloc (cstr s) (Suc n) d' args (arr_frame r' # tp # below) b'"
      then obtain r' d' b' where r': "jv r' = JArray (concat (map (\<lambda>(st, e). if kept st (pvalue jv st e) then [pvalue jv st e] else []) es))"
        "reads s d' (CHR '']'' # star st @ ts)" "256 \<le> length (bs_mem b')"
        and M: "?M = pack_loop api malloc realloc (cstr s) (Suc n) d' args (arr_frame r' # tp # below) b'"
        by auto
      then show ?thesis using close_array [OF env s f r'(2,1,3), of n args tp below] unfolding M pvalue.simps Let_def by blast
    qed blast
  qed blast
  then show "?goal (pack_loop api malloc realloc (cstr s) (turns (PArray es) + n) d (args_of (PArray es) @ args) (tp # below) b)"
    unfolding T args_of.simps .
qed

lemma packs_object:
  assumes env: "pack_env sure api malloc realloc jv" and s: "no_nul s"
    and IH: "\<forall>(ps, st, e) \<in> set es. packs sure api malloc realloc jv s e"
  shows "packs sure api malloc realloc jv s (PObject es)"
  unfolding packs_def Let_def
proof (intro allI impI)
  fix st ts n d args and tp :: "'a pframe" and below :: "'a pframe list" and b :: strbuf
  assume wf: "pwf jv (Suc (length below)) (PObject es)" and a: "set pack_accept_any \<subseteq> set (pf_acc tp)" and f: "follow_item ts"
    and r: "reads s d (render (PObject es) @ star st @ ts)" and b: "256 \<le> length (bs_mem b)"
  let ?k = "\<Sum>(ps, st, e) \<leftarrow> es. 1 + turns e"
  let ?body = "concat (map (\<lambda>(ps, st, e). render_text ps @ render e @ star st) es) @ CHR ''}'' # star st @ ts"
  let ?args = "concat (map (\<lambda>(ps, st, e). text_args ps @ args_of e) es) @ args"
  let ?M = "pack_loop api malloc realloc (cstr s) (Suc (?k + Suc n)) d ?args (tp # below) b"
  let ?goal = "\<lambda>M. oom sure M \<or> (\<exists>x d' b'. gives s jv (pvalue jv st (PObject es)) (star st @ ts) x d' b' \<and>
        M = after api malloc realloc (cstr s) n x d' args (tp # below) b')"
  have T: "turns (PObject es) + n = Suc (?k + Suc n)" and l: "Suc (length below) < STACKCOUNT" using wf by simp_all
  have r': "reads s d (CHR ''{'' # ?body)" using r by simp
  have "?goal ?M"
  proof (rule disjE [OF open_ok [OF env s r' disjI2 [OF refl] a l, of "?k + Suc n" ?args b]])
    assume "\<exists>x d'. jv x = (if CHR ''{'' = CHR ''['' then JArray [] else JObject []) \<and> reads s d' ?body \<and>
      ?M = pack_loop api malloc realloc (cstr s) (?k + Suc n) d' ?args
        ((if CHR ''{'' = CHR ''['' then arr_frame x else obj_frame x) # tp # below) b"
    then obtain x d1 where x: "jv x = JObject []" and d1: "reads s d1 ?body"
      and L: "?M = pack_loop api malloc realloc (cstr s) (?k + Suc n) d1 ?args (obj_frame x # tp # below) b"
      by auto
    have I: "\<forall>(ps, st, e) \<in> set es. packs sure api malloc realloc jv s e \<and> pwf jv (Suc (length (tp # below))) e \<and> text_wf ps"
      using IH wf by auto
    have D: "distinct (map (concat \<circ> fst) es)" and K: "fst ` set [] \<inter> (concat \<circ> fst) ` set es = {}" using wf by simp_all
    show ?thesis
    proof (rule disjE [OF object_run [OF env s I D K d1 b x, of "Suc n" args, unfolded Let_def, folded L]])
      assume "\<exists>r' d' b'. jv r' = JObject ([] @ concat (map (\<lambda>(ps, st, e). if kept st (pvalue jv st e) then [(concat ps, pvalue jv st e)] else []) es)) \<and>
        reads s d' (CHR ''}'' # star st @ ts) \<and> 256 \<le> length (bs_mem b') \<and>
        ?M = pack_loop api malloc realloc (cstr s) (Suc n) d' args (obj_frame r' # tp # below) b'"
      then obtain r' d' b' where r': "jv r' = JObject (concat (map (\<lambda>(ps, st, e). if kept st (pvalue jv st e) then [(concat ps, pvalue jv st e)] else []) es))"
        "reads s d' (CHR ''}'' # star st @ ts)" "256 \<le> length (bs_mem b')"
        and M: "?M = pack_loop api malloc realloc (cstr s) (Suc n) d' args (obj_frame r' # tp # below) b'"
        by auto
      then show ?thesis using close_object [OF env s f r'(2,1,3), of n args tp below] unfolding M pvalue.simps Let_def by blast
    qed blast
  qed blast
  then show "?goal (pack_loop api malloc realloc (cstr s) (turns (PObject es) + n) d (args_of (PObject es) @ args) (tp # below) b)"
    unfolding T args_of.simps .
qed

lemma packs_all:
  assumes env: "pack_env sure api malloc realloc jv" and s: "no_nul s"
  shows "packs sure api malloc realloc jv s e"
proof (induction e)
  case (PArray es)
  then show ?case by (intro packs_array [OF env s]) fastforce
next
  case (PObject es)
  then show ?case by (intro packs_object [OF env s]) fastforce
qed (fact packs_atoms [OF env s] packs_text [OF env s] packs_no_text [OF s] packs_obj [OF s] packs_bytes [OF env s])+

text \<open>Each turn reads a character, so the fuel is enough.\<close>

lemma turns_render: "turns e \<le> length (render e)"
proof (induction e)
  case (PArray es)
  have "(\<Sum>(st, e) \<leftarrow> es. turns e) \<le> length (concat (map (\<lambda>(st, e). render e @ star st) es))"
    using PArray by (induction es) fastforce+
  then show ?case by simp
next
  case (PObject es)
  have "(\<Sum>(ps, st, e) \<leftarrow> es. 1 + turns e) \<le> length (concat (map (\<lambda>(ps, st, e). render_text ps @ render e @ star st) es))"
    using PObject by (induction es) (fastforce simp: render_text_def)+
  then show ?case by simp
qed (auto simp: render_text_def split: option.splits)

lemma vpack_makes:
  assumes env: "pack_env sure api malloc realloc jv" and wf: "pwf jv 1 e" and s: "no_nul s"
    and desc: "filter (\<lambda>c. c \<notin> set ignore_all) s = render e" and buf: "length local_buffer = 256"
  shows "oom sure (rp_jsonc_vpack api malloc realloc local_buffer (Some (cstr s)) (args_of e)) \<or>
    (\<exists>obj. rp_jsonc_vpack api malloc realloc local_buffer (Some (cstr s)) (args_of e) = Some (0, obj) \<and>
       value_of jv obj = pvalue jv False e)"
proof -
  let ?tp = "\<lparr>pf_cont = None, pf_key = None, pf_acc = pack_accept_any, pf_type = NUL\<rparr>"
  let ?b = "\<lparr>bs_mem = local_buffer, bs_alloc = False\<rparr>"
  obtain d where d: "skip (cstr s) 0 = Some d" "reads s d (render e)"
    using skip_reads [OF s, of 0] desc by auto
  have "turns e \<le> length s" using turns_render [of e] length_filter_le [of "\<lambda>c. c \<notin> set ignore_all" s] desc by simp
  then obtain n where n: "length (cstr s) = turns e + n" by (metis le_add_diff_inverse le_SucI length_cstr)
  have L: "rp_jsonc_vpack api malloc realloc local_buffer (Some (cstr s)) (args_of e) =
      pack_loop api malloc realloc (cstr s) (turns e + n) d (args_of e @ []) [?tp] ?b"
    using d n by (simp add: rp_jsonc_vpack_def)
  have r: "reads s d (render e @ star False @ [])" using d by (simp add: star_def)
  have w: "pwf jv (Suc (length [])) e" using wf by simp
  have h: "set pack_accept_any \<subseteq> set (pf_acc ?tp)" "follow_item []" "256 \<le> length (bs_mem ?b)"
    using buf by (simp_all add: follow_item_def)
  show ?thesis
    using packsD [OF packs_all [OF env s] w h(1,2) r h(3), of n "[]"]
  proof cases
    case (2 x d' b')
    then have "reads s d' []" by (simp add: gives_def star_def)
    then have "pack_loop api malloc realloc (cstr s) (turns e + n) d (args_of e @ []) [?tp] ?b = Some (0, x)"
      unfolding 2(2) by (simp add: after_def place_def reads_Nil)
    then show ?thesis using 2(1) unfolding L by (simp add: gives_def)
  qed (unfold L, rule disjI1)
qed

subsection \<open>Properties\<close>

text \<open>
  Property C33: \<open>rp_jsonc_vpack\<close> makes what is described: for a description that is, blanks, commas and
  colons apart, the one of a value (items of any kind, texts of several pieces, bytes in base 64,
  null and starred items, nested arrays and objects, up to the depth of the stack) and the arguments for it,
  the object that is made represents that value. The only failure is the lack of memory, which returns its
  code and no object. The keys of an object are distinct, the first piece of a text of several pieces has at most 256
  bytes, and the additions to containers do not fail: the code overruns its buffer after a longer
  first piece (\<open>rp_jsonc_vpack_long_piece\<close>) and loses the item of a failed addition
  (\<open>rp_jsonc_vpack_lost_item\<close>).
\<close>

theorem rp_jsonc_vpack_correct:
  assumes env: "pack_env sure api malloc realloc jv" and wf: "pwf jv 1 e" and s: "no_nul s"
    and desc: "filter (\<lambda>c. c \<notin> set ignore_all) s = render e" and buf: "length local_buffer = 256"
  shows "oom sure (rp_jsonc_vpack api malloc realloc local_buffer (Some (cstr s)) (args_of e)) \<or>
    (\<exists>obj. rp_jsonc_vpack api malloc realloc local_buffer (Some (cstr s)) (args_of e) = Some (0, obj) \<and>
       value_of jv obj = pvalue jv False e)"
  using assms by (rule vpack_makes)

lemma update_fresh: "k \<notin> fst ` set al \<Longrightarrow> AList.update k v al = al @ [(k, v)]"
  by (induction al) auto

lemma tree_api_makes: "json_c_makes True tree_api id"
  by (simp add: json_c_makes_def created_def tree_api_def update_fresh)

lemma tree_api_adds: "adds_succeed tree_api id"
  by (simp add: adds_succeed_def tree_api_def)

lemma tree_env: "pack_env True tree_api alloc_zero realloc_zero id"
  by (simp add: pack_env_def tree_api_makes tree_api_adds) (simp add: alloc_zero_def realloc_zero_def)

theorem rp_jsonc_vpack_correct_witness:
  "\<exists>obj. rp_jsonc_vpack tree_api alloc_zero realloc_zero (replicate 256 NUL) (Some (cstr ''{ s: [i n*], s+: y, s b* }''))
      [VStr (Some (cstr ''a'')), VInt 3, VStr (Some (cstr ''b'')), VStr (Some (cstr ''c'')), VBytes (Some ''Hello''), VSize 5,
       VStr (Some (cstr ''d'')), VInt 0] = Some (0, obj) \<and>
    value_of id obj = JObject [(''a'', JArray [JInt 3]), (''bc'', JString ''SGVsbG8''), (''d'', JBool False)]"
proof -
  let ?e = "PObject [([''a''], False, PArray [(False, PInt 3), (True, PNull)]), ([''b'', ''c''], False, PBytes True ''Hello''),
     ([''d''], True, PBool False)]"
  have b: "base64_text True False ''Hello'' = ''SGVsbG8''" by code_simp
  have v: "pvalue id False ?e = JObject [(''a'', JArray [JInt 3]), (''bc'', JString ''SGVsbG8''), (''d'', JBool False)]"
    by (simp add: starred_def kept_def b)
  have w: "pwf id 1 ?e" by (simp add: text_wf_def STACKCOUNT_def b)
  have f: "filter (\<lambda>c. c \<notin> set ignore_all) ''{ s: [i n*], s+: y, s b* }'' = render ?e"
    by (simp add: ignore_all_def render_text_def star_def)
  have a: "args_of ?e = [VStr (Some (cstr ''a'')), VInt 3, VStr (Some (cstr ''b'')), VStr (Some (cstr ''c'')),
      VBytes (Some ''Hello''), VSize 5, VStr (Some (cstr ''d'')), VInt 0]"
    by (simp add: text_args_def)
  have n: "no_nul ''{ s: [i n*], s+: y, s b* }''" by simp
  show ?thesis
    using rp_jsonc_vpack_correct [OF tree_env w n f, of "replicate 256 NUL"]
    unfolding v a oom_def by (simp only: length_replicate not_True_eq_False simp_thms)
qed

subsection \<open>Behaviours that are not defined\<close>

text \<open>The description of an array nested more than the stack: what is released is beyond the end of the stack.\<close>

lemma rp_jsonc_vpack_too_deep:
  "rp_jsonc_vpack tree_api alloc_zero realloc_zero (replicate 256 NUL) (Some (cstr (replicate 32 CHR ''['' ))) [] = None"
  by code_simp

text \<open>When the addition of an item fails the function returns 0 and an object without the item.\<close>

lemma rp_jsonc_vpack_lost_item:
  "rp_jsonc_vpack (tree_api\<lparr>jc_array_add := \<lambda>x v. (- 1, x)\<rparr>) alloc_zero realloc_zero (replicate 256 NUL) (Some (cstr ''[i]''))
    [VInt 1] = Some (0, Some (JArray []))"
  by code_simp

text \<open>A first piece longer than the local array, then a second piece: the array is read after its end.\<close>

lemma rp_jsonc_vpack_long_piece:
  "rp_jsonc_vpack tree_api alloc_zero realloc_zero (replicate 256 NUL) (Some (cstr ''s+''))
    [VStr (Some (cstr (replicate 300 CHR ''x''))), VStr (Some (cstr ''y''))] = None"
  by code_simp

end
