(* ===== verification/JsoncUnpack.thy ===== *)
theory JsoncUnpack
  imports JsoncPack
begin

text \<open>
  \<open>src/json/rp-jsonc.c\<close>, \<open>vunpack\<close> and its callers: checking that a JSON object has
  the shape of a description, and storing its values where the arguments tell.
\<close>

subsection \<open>Items\<close>

definition unpack_accept_arr :: string where "unpack_accept_arr = ''*!]['' @ ''{snbiIfFoOyY''"
definition unpack_accept_key :: string where "unpack_accept_key = ''*!s}''"
definition unpack_accept_any :: string where "unpack_accept_any = drop 3 unpack_accept_arr"

text \<open>
  An argument is a key or a pointer to a variable. What is stored is the list of the variables with
  their values, in the order of the stores; a null pointer is \<open>None\<close> and stores nothing.
\<close>

datatype uarg = UKey "mem option" | USlot "nat option"

datatype ('j, 'd) uval =
    OText string | OSize nat | OInt int | OInt64 int | OUint int | OUint64 int | ODouble 'd | OObj "'j option" | OBytes "mem option"

type_synonym ('j, 'd) outs = "(nat \<times> ('j, 'd) uval) list"

definition stored :: "nat option \<Rightarrow> ('j, 'd) uval \<Rightarrow> ('j, 'd) outs" where
  "stored p v = (case p of None \<Rightarrow> [] | Some i \<Rightarrow> [(i, v)])"

definition take_slot :: "bool \<Rightarrow> uarg list \<Rightarrow> (nat option \<times> uarg list) option" where
  "take_slot storing args =
     (if storing then (case args of USlot p # args \<Rightarrow> Some (p, args) | _ \<Rightarrow> None) else Some (None, args))"

text \<open>An item fails, or gives the position and the arguments that are left and what is stored.\<close>

type_synonym ('j, 'd) uitem = "(rp_jsonc_error_codes \<times> nat) + (nat \<times> uarg list \<times> ('j, 'd) outs)"

definition unpack_text ::
  "('j, 'd) json_c \<Rightarrow> bool \<Rightarrow> mem \<Rightarrow> nat \<Rightarrow> nat \<Rightarrow> bool \<Rightarrow> 'j option \<Rightarrow> uarg list \<Rightarrow> ('j, 'd) outs \<Rightarrow> ('j, 'd) uitem option" where
  "unpack_text api storing desc fit d ign obj args out = do {
     (ps, args) \<leftarrow> take_slot storing args;
     if \<not> ign \<and> \<not> is_type api obj json_type_string then Some (Inl (rp_jsonc_error_missfit_type, fit))
     else do {
       let out = (if ign then out else out @ stored ps (OText (jc_string api (the obj))));
       (q, d) \<leftarrow> skip_mark desc CHR ''%'' d;
       if q \<and> storing then do {
         (pz, args) \<leftarrow> take_slot storing args;
         Some (Inr (d, args, if ign then out else out @ stored pz (OSize (length (jc_string api (the obj))))))
       }
       else Some (Inr (d, args, out))
     }
   }"

text \<open>The items of one value: \<open>ok\<close> tells if the type fits, \<open>v\<close> is what is stored.\<close>

definition unpack_value ::
  "bool \<Rightarrow> nat \<Rightarrow> nat \<Rightarrow> bool \<Rightarrow> (bool \<times> ('j, 'd) uval) option \<Rightarrow> uarg list \<Rightarrow> ('j, 'd) outs \<Rightarrow> ('j, 'd) uitem option" where
  "unpack_value storing fit d ign r args out = do {
     (p, args) \<leftarrow> take_slot storing args;
     if ign then Some (Inr (d, args, out))
     else do {
       (ok, v) \<leftarrow> r;
       Some (if \<not> ok then Inl (rp_jsonc_error_missfit_type, fit) else Inr (d, args, out @ stored p v))
     }
   }"

definition int_value :: "(int \<Rightarrow> ('j, 'd) uval) \<Rightarrow> (int \<times> int option) option \<Rightarrow> (bool \<times> ('j, 'd) uval) option" where
  "int_value f r = do {
     (rc, v) \<leftarrow> r;
     if rc = 0 then Some (False, f 0) else do { v \<leftarrow> v; Some (True, f v) }
   }"

definition unpack_bytes ::
  "('j, 'd) json_c \<Rightarrow> allocator \<Rightarrow> reallocator \<Rightarrow> bool \<Rightarrow> nat \<Rightarrow> nat \<Rightarrow> bool \<Rightarrow> 'j option \<Rightarrow> uarg list \<Rightarrow> ('j, 'd) outs \<Rightarrow>
    ('j, 'd) uitem option" where
  "unpack_bytes api malloc realloc storing fit d ign obj args out = do {
     (py, args) \<leftarrow> take_slot storing args;
     (pz, args) \<leftarrow> take_slot storing args;
     if ign then Some (Inr (d, args, out))
     else case obj of
       None \<Rightarrow> Some (Inr (d, args, if py \<noteq> None \<and> pz \<noteq> None then out @ stored py (OBytes None) @ stored pz (OSize 0) else out))
     | Some x \<Rightarrow>
         if \<not> is_type api obj json_type_string then Some (Inl (rp_jsonc_error_missfit_type, fit))
         else if py \<noteq> None \<and> pz \<noteq> None then do {
           r \<leftarrow> rp_base64_decode malloc realloc (jc_string api x) (length (jc_string api x)) 0;
           case r of
             Inl rc \<Rightarrow> Some (Inl (if rc = - 1 then rp_jsonc_error_out_of_memory else rp_jsonc_error_bad_base64, d))
           | Inr (bytes, n) \<Rightarrow> Some (Inr (d, args, out @ stored py (OBytes (Some bytes)) @ stored pz (OSize n)))
         }
         else Some (Inr (d, args, out))
   }"

definition unpack_item ::
  "('j, 'd) json_c \<Rightarrow> 'd c_double \<Rightarrow> allocator \<Rightarrow> reallocator \<Rightarrow> bool \<Rightarrow> char \<Rightarrow> mem \<Rightarrow> nat \<Rightarrow> nat \<Rightarrow> bool \<Rightarrow> 'j option \<Rightarrow>
    uarg list \<Rightarrow> ('j, 'd) outs \<Rightarrow> ('j, 'd) uitem option" where
  "unpack_item api dd malloc realloc storing c desc fit d ign obj args out =
     (if c = CHR ''s'' then unpack_text api storing desc fit d ign obj args out
      else if c = CHR ''n'' then
        Some (if \<not> ign \<and> \<not> is_type api obj json_type_null then Inl (rp_jsonc_error_missfit_type, fit) else Inr (d, args, out))
      else if c = CHR ''b'' then
        unpack_value storing fit d ign
          (Some (is_type api obj json_type_boolean, OInt (of_bool (case obj of None \<Rightarrow> False | Some x \<Rightarrow> jc_boolean api x)))) args out
      else if c = CHR ''i'' then
        unpack_value storing fit d ign (int_value OInt (rp_jsonc_get_int32 api dd obj rp_jsonc_int_mode_number)) args out
      else if c = CHR ''I'' then
        unpack_value storing fit d ign (int_value OInt64 (rp_jsonc_get_int64 api dd obj rp_jsonc_int_mode_number)) args out
      else if c = CHR ''u'' then
        unpack_value storing fit d ign (int_value OUint (rp_jsonc_get_uint32 api dd obj rp_jsonc_int_mode_number)) args out
      else if c = CHR ''U'' then
        unpack_value storing fit d ign (int_value OUint64 (rp_jsonc_get_uint64 api dd obj rp_jsonc_int_mode_number)) args out
      else if c = CHR ''f'' \<or> c = CHR ''F'' then
        unpack_value storing fit d ign
          (Some (is_type api obj json_type_double \<or> c = CHR ''F'' \<and> is_type api obj json_type_int, ODouble (jc_double api (the obj)))) args out
      else if c = CHR ''o'' \<or> c = CHR ''O'' then unpack_value storing fit d ign (Some (True, OObj obj)) args out
      else if c = CHR ''y'' \<or> c = CHR ''Y'' then unpack_bytes api malloc realloc storing fit d ign obj args out
      else Some (Inl (rp_jsonc_error_internal_error, d)))"

subsection \<open>The loop\<close>

text \<open>
  The stack of the containers, the top first: the container, what it accepts after it, the count
  of the items that are taken, the count of all its items. \<open>uf_count\<close> is 0 when the
  items are ignored: it is not read then. \<open>xacc\<close> is the character that closes
  the container, \<open>:\<close> when a value is expected, \<open>NUL\<close> out of containers. The items of a missing
  key are ignored: \<open>ignore\<close> counts the levels.
\<close>

record 'j uframe =
  uf_parent :: "'j option"
  uf_acc :: string
  uf_index :: nat
  uf_count :: nat
  uf_type :: char

record 'j ustate =
  us_acc :: string
  us_xacc :: char
  us_ignore :: nat
  us_stack :: "'j uframe list"
  us_obj :: "'j option"

text \<open>What a turn does: it goes on, it is at the end of an item, it ends with an error or it returns.\<close>

datatype ('j, 'd) uturn =
    UNext nat "'j ustate" "uarg list" "('j, 'd) outs"
  | UItem nat "'j ustate" "uarg list" "('j, 'd) outs"
  | UError rp_jsonc_error_codes nat "('j, 'd) outs"
  | UDone "('j, 'd) outs"

definition unpack_key ::
  "('j, 'd) json_c \<Rightarrow> mem \<Rightarrow> nat \<Rightarrow> 'j ustate \<Rightarrow> uarg list \<Rightarrow> ('j, 'd) outs \<Rightarrow> ('j, 'd) uturn option" where
  "unpack_key api desc d st args out =
     (case args of
        UKey None # args \<Rightarrow> Some (UError rp_jsonc_error_null_key d out)
      | UKey (Some key) # args \<Rightarrow> do {
          (optionnal, d) \<leftarrow> skip_mark desc CHR ''?'' d;
          let st' = st\<lparr>us_xacc := CHR '':'', us_acc := unpack_accept_any\<rparr>;
          if us_ignore st > 0 then Some (UNext d (st'\<lparr>us_ignore := us_ignore st + 1\<rparr>) args out)
          else (case us_stack st of [] \<Rightarrow> None | tp # below \<Rightarrow> do {
            parent \<leftarrow> uf_parent tp;
            k \<leftarrow> strlen key;
            case jc_get api parent (take k key) of
              Some v \<Rightarrow> Some (UNext d (st'\<lparr>us_stack := tp\<lparr>uf_index := uf_index tp + 1\<rparr> # below, us_obj := v\<rparr>) args out)
            | None \<Rightarrow>
                Some (if \<not> optionnal then UError rp_jsonc_error_key_not_found d out
                      else UNext d (st'\<lparr>us_ignore := 1, us_obj := None\<rparr>) args out)
          })
        }
      | _ \<Rightarrow> None)"

definition unpack_open ::
  "('j, 'd) json_c \<Rightarrow> char \<Rightarrow> nat \<Rightarrow> nat \<Rightarrow> 'j ustate \<Rightarrow> uarg list \<Rightarrow> ('j, 'd) outs \<Rightarrow> ('j, 'd) uturn" where
  "unpack_open api c fit d st args out =
     (let ign = us_ignore st > 0; obj = us_obj st;
          typ = (if c = CHR ''['' then json_type_array else json_type_object);
          count = (if ign then 0 else if c = CHR ''['' then length (jc_array api (the obj)) else length (jc_object api (the obj)));
          frame = \<lparr>uf_parent = obj, uf_acc = us_acc st, uf_index = 0, uf_count = count, uf_type = us_xacc st\<rparr>;
          st = st\<lparr>us_stack := frame # us_stack st, us_ignore := (if ign then us_ignore st + 1 else 0)\<rparr>
      in if STACKCOUNT < length (us_stack st) then UError rp_jsonc_error_too_deep d out
         else if \<not> ign \<and> \<not> is_type api obj typ then UError rp_jsonc_error_missfit_type fit out
         else if c = CHR ''['' then UItem d (st\<lparr>us_xacc := CHR '']'', us_acc := unpack_accept_arr\<rparr>) args out
         else UNext d (st\<lparr>us_xacc := CHR ''}'', us_acc := unpack_accept_key\<rparr>) args out)"

definition unpack_close ::
  "char \<Rightarrow> nat \<Rightarrow> 'j ustate \<Rightarrow> uarg list \<Rightarrow> ('j, 'd) outs \<Rightarrow> ('j, 'd) uturn option" where
  "unpack_close c d st args out =
     (if c \<noteq> us_xacc st then Some (UError rp_jsonc_error_internal_error d out)
      else case us_stack st of [] \<Rightarrow> None
      | tp # below \<Rightarrow> Some (UItem d (st\<lparr>us_acc := uf_acc tp, us_xacc := uf_type tp, us_stack := below,
          us_ignore := us_ignore st - 1\<rparr>) args out))"

definition unpack_exact ::
  "mem \<Rightarrow> nat \<Rightarrow> 'j ustate \<Rightarrow> uarg list \<Rightarrow> ('j, 'd) outs \<Rightarrow> ('j, 'd) uturn option" where
  "unpack_exact desc d st args out = do {
     x \<leftarrow> load desc d;
     Some (case us_stack st of [] \<Rightarrow> UError rp_jsonc_error_invalid_character d out
       | tp # below \<Rightarrow>
           if x \<noteq> us_xacc st then UError rp_jsonc_error_invalid_character d out
           else if us_ignore st = 0 \<and> uf_index tp \<noteq> uf_count tp then
             UError (if us_xacc st = CHR ''}'' then rp_jsonc_error_dictionary_incomplete
                     else if uf_index tp < uf_count tp then rp_jsonc_error_array_incomplete
                     else rp_jsonc_error_array_extra_field) d out
           else UNext d (st\<lparr>us_acc := [us_xacc st]\<rparr>) args out)
   }"

text \<open>The end of an item: the next item of an array is taken, if the description has one.\<close>

definition unpack_after ::
  "('j, 'd) json_c \<Rightarrow> mem \<Rightarrow> nat \<Rightarrow> 'j ustate \<Rightarrow> uarg list \<Rightarrow> ('j, 'd) outs \<Rightarrow> ('j, 'd) uturn option" where
  "unpack_after api desc d st args out = do {
     x \<leftarrow> load desc d;
     if us_xacc st = NUL then
       Some (if us_stack st \<noteq> [] then UError rp_jsonc_error_internal_error d out
             else if x \<noteq> NUL then UError rp_jsonc_error_invalid_character d out else UDone out)
     else if us_xacc st = CHR '']'' then
       (if us_ignore st = 0 \<and> (x = NUL \<or> x \<in> set unpack_accept_any) then
          (case us_stack st of [] \<Rightarrow> None | tp # below \<Rightarrow>
             if uf_index tp \<ge> uf_count tp then Some (UError rp_jsonc_error_out_of_range d out)
             else do {
               parent \<leftarrow> uf_parent tp;
               Some (UNext d (st\<lparr>us_obj := array_get_idx api parent (uf_index tp),
                 us_stack := tp\<lparr>uf_index := uf_index tp + 1\<rparr> # below\<rparr>) args out)
             })
        else Some (UNext d st args out))
     else if us_xacc st = CHR '':'' then
       Some (UNext d (st\<lparr>us_acc := unpack_accept_key, us_xacc := CHR ''}'', us_ignore := us_ignore st - 1\<rparr>) args out)
     else Some (UError rp_jsonc_error_internal_error d out)
   }"

definition unpack_turn ::
  "('j, 'd) json_c \<Rightarrow> 'd c_double \<Rightarrow> allocator \<Rightarrow> reallocator \<Rightarrow> bool \<Rightarrow> mem \<Rightarrow> nat \<Rightarrow> 'j ustate \<Rightarrow> uarg list \<Rightarrow> ('j, 'd) outs \<Rightarrow>
    ('j, 'd) uturn option" where
  "unpack_turn api dd malloc realloc storing desc fit st args out = do {
     c \<leftarrow> load desc fit;
     if c = NUL then Some (UError rp_jsonc_error_truncated fit out)
     else if c \<notin> set (us_acc st) then Some (UError rp_jsonc_error_invalid_character fit out)
     else do {
       d \<leftarrow> skip desc (fit + 1);
       if c = CHR ''s'' \<and> us_xacc st = CHR ''}'' then unpack_key api desc d st args out
       else if c = CHR ''['' \<or> c = CHR ''{'' then Some (unpack_open api c fit d st args out)
       else if c = CHR '']'' \<or> c = CHR ''}'' then unpack_close c d st args out
       else if c = CHR ''!'' then unpack_exact desc d st args out
       else if c = CHR ''*'' then Some (UNext d (st\<lparr>us_acc := (if us_xacc st = NUL then [] else [us_xacc st])\<rparr>) args out)
       else do {
         r \<leftarrow> unpack_item api dd malloc realloc storing c desc fit d (us_ignore st > 0) (us_obj st) args out;
         case r of
           Inl (e, d) \<Rightarrow> Some (UError e d out)
         | Inr (d, args, out) \<Rightarrow> Some (UItem d st args out)
       }
     }
   }"

text \<open>The length of the description bounds the turns. The result is the code and what is stored.\<close>

fun unpack_loop ::
  "('j, 'd) json_c \<Rightarrow> 'd c_double \<Rightarrow> allocator \<Rightarrow> reallocator \<Rightarrow> bool \<Rightarrow> mem \<Rightarrow> nat \<Rightarrow> nat \<Rightarrow> 'j ustate \<Rightarrow> uarg list \<Rightarrow> ('j, 'd) outs \<Rightarrow>
    (int \<times> ('j, 'd) outs) option" where
  "unpack_loop api dd malloc realloc storing desc 0 d st args out = None"
| "unpack_loop api dd malloc realloc storing desc (Suc n) d st args out = do {
     t \<leftarrow> unpack_turn api dd malloc realloc storing desc d st args out;
     t \<leftarrow> (case t of UItem d st args out \<Rightarrow> unpack_after api desc d st args out | _ \<Rightarrow> Some t);
     case t of
       UNext d st args out \<Rightarrow> unpack_loop api dd malloc realloc storing desc n d st args out
     | UItem d st args out \<Rightarrow> None
     | UError e d out \<Rightarrow> Some (error_at e d, out)
     | UDone out \<Rightarrow> Some (0, out)
   }"

definition vunpack ::
  "('j, 'd) json_c \<Rightarrow> 'd c_double \<Rightarrow> allocator \<Rightarrow> reallocator \<Rightarrow> 'j option \<Rightarrow> mem option \<Rightarrow> uarg list \<Rightarrow> bool \<Rightarrow>
    (int \<times> ('j, 'd) outs) option" where
  "vunpack api dd malloc realloc obj desc args storing =
     (case desc of
        None \<Rightarrow> Some (error_at rp_jsonc_error_null_spec 0, [])
      | Some desc \<Rightarrow> do {
          d \<leftarrow> skip desc 0;
          unpack_loop api dd malloc realloc storing desc (length desc) d
            \<lparr>us_acc = unpack_accept_any, us_xacc = NUL, us_ignore = 0, us_stack = [], us_obj = obj\<rparr> args []
        })"

definition rp_jsonc_vcheck where
  "rp_jsonc_vcheck api dd malloc realloc obj desc args = map_option fst (vunpack api dd malloc realloc obj desc args False)"

definition rp_jsonc_check where
  "rp_jsonc_check api dd malloc realloc obj desc args = rp_jsonc_vcheck api dd malloc realloc obj desc args"

definition rp_jsonc_vmatch where
  "rp_jsonc_vmatch api dd malloc realloc obj desc args =
     map_option (\<lambda>r. fst r = 0) (vunpack api dd malloc realloc obj desc args False)"

definition rp_jsonc_match where
  "rp_jsonc_match api dd malloc realloc obj desc args = rp_jsonc_vmatch api dd malloc realloc obj desc args"

definition rp_jsonc_vunpack where
  "rp_jsonc_vunpack api dd malloc realloc obj desc args = vunpack api dd malloc realloc obj desc args True"

definition rp_jsonc_unpack where
  "rp_jsonc_unpack api dd malloc realloc obj desc args = vunpack api dd malloc realloc obj desc args True"

subsection \<open>What a description asks for\<close>

text \<open>
  A description as a pattern with the variables to store in; the end of a container tells if it may
  have more items. In an object an optional key may be missing.
\<close>

datatype uend = UOpen | UStar | UBang

datatype upat =
    QNull | QBool "nat option" | QInt "nat option" | QInt64 "nat option" | QDouble bool "nat option"
  | QText "nat option" "nat option option" | QObj bool "nat option" | QBytes bool "nat option" "nat option"
  | QArray "upat list" uend | QObject "(string \<times> bool \<times> upat) list" uend

definition uend_text :: "uend \<Rightarrow> string" where
  "uend_text e = (case e of UOpen \<Rightarrow> [] | UStar \<Rightarrow> ''*'' | UBang \<Rightarrow> ''!'')"

fun urender :: "upat \<Rightarrow> string" where
  "urender QNull = ''n''"
| "urender (QBool p) = ''b''"
| "urender (QInt p) = ''i''"
| "urender (QInt64 p) = ''I''"
| "urender (QDouble wide p) = (if wide then ''F'' else ''f'')"
| "urender (QText p z) = CHR ''s'' # (if z = None then [] else ''%'')"
| "urender (QObj byref p) = (if byref then ''O'' else ''o'')"
| "urender (QBytes y p z) = (if y then ''y'' else ''Y'')"
| "urender (QArray qs e) = CHR ''['' # concat (map urender qs) @ uend_text e @ '']''"
| "urender (QObject qs e) =
     CHR ''{'' # concat (map (\<lambda>(k, opt, q). CHR ''s'' # (if opt then ''?'' else []) @ urender q) qs) @ uend_text e @ ''}''"

text \<open>The arguments: the keys, and the variables when something is stored.\<close>

definition slots :: "bool \<Rightarrow> nat option list \<Rightarrow> uarg list" where
  "slots storing ps = (if storing then map USlot ps else [])"

fun uargs :: "bool \<Rightarrow> upat \<Rightarrow> uarg list" where
  "uargs b QNull = []"
| "uargs b (QBool p) = slots b [p]"
| "uargs b (QInt p) = slots b [p]"
| "uargs b (QInt64 p) = slots b [p]"
| "uargs b (QDouble wide p) = slots b [p]"
| "uargs b (QText p z) = slots b (p # (case z of None \<Rightarrow> [] | Some z \<Rightarrow> [z]))"
| "uargs b (QObj byref p) = slots b [p]"
| "uargs b (QBytes y p z) = slots b [p, z]"
| "uargs b (QArray qs e) = concat (map (uargs b) qs)"
| "uargs b (QObject qs e) = concat (map (\<lambda>(k, opt, q). UKey (Some (cstr k)) # uargs b q) qs)"

text \<open>The turns, the bound on the depth, and keys without zeros.\<close>

definition uend_turns :: "uend \<Rightarrow> nat" where
  "uend_turns e = (if e = UOpen then 0 else 1)"

fun uturns :: "upat \<Rightarrow> nat" where
  "uturns (QArray qs e) = Suc ((\<Sum>q \<leftarrow> qs. uturns q) + (uend_turns e + 1))"
| "uturns (QObject qs e) = Suc ((\<Sum>(k, opt, q) \<leftarrow> qs. Suc (uturns q)) + (uend_turns e + 1))"
| "uturns _ = 1"

fun uwf :: "nat \<Rightarrow> upat \<Rightarrow> bool" where
  "uwf n (QArray qs e) = (n < STACKCOUNT \<and> (\<forall>q \<in> set qs. uwf (Suc n) q))"
| "uwf n (QObject qs e) = (n < STACKCOUNT \<and> (\<forall>(k, opt, q) \<in> set qs. no_nul k \<and> uwf (Suc n) q))"
| "uwf n _ = True"

text \<open>
  The meaning of a pattern for an object: \<open>Some None\<close> when it does not match, \<open>None\<close> when
  the conversion of a number is not defined. Items are taken in order.
\<close>

definition fits_value :: "(bool \<times> ('j, 'd) uval) option \<Rightarrow> nat option \<Rightarrow> ('j, 'd) outs option option" where
  "fits_value r p = do { (ok, v) \<leftarrow> r; Some (if ok then Some (stored p v) else None) }"

definition and_then :: "('j, 'd) outs option option \<Rightarrow> ('j, 'd) outs option option \<Rightarrow> ('j, 'd) outs option option" where
  "and_then a b = (case a of None \<Rightarrow> None | Some None \<Rightarrow> Some None | Some (Some x) \<Rightarrow> map_option (map_option ((@) x)) b)"

definition slot :: "bool \<Rightarrow> nat option \<Rightarrow> nat option" where
  "slot storing p = (if storing then p else None)"

definition match_bytes ::
  "('j, 'd) json_c \<Rightarrow> allocator \<Rightarrow> reallocator \<Rightarrow> nat option \<Rightarrow> nat option \<Rightarrow> 'j option \<Rightarrow> ('j, 'd) outs option option" where
  "match_bytes api malloc realloc p z obj =
     (let both = (p \<noteq> None \<and> z \<noteq> None) in
      case obj of None \<Rightarrow> Some (Some (if both then stored p (OBytes None) @ stored z (OSize 0) else []))
      | Some x \<Rightarrow>
          if \<not> is_type api obj json_type_string then Some None
          else if \<not> both then Some (Some [])
          else do {
            r \<leftarrow> rp_base64_decode malloc realloc (jc_string api x) (length (jc_string api x)) 0;
            Some (case r of Inl _ \<Rightarrow> None | Inr (bytes, n) \<Rightarrow> Some (stored p (OBytes (Some bytes)) @ stored z (OSize n)))
          })"

fun unpacks ::
    "('j, 'd) json_c \<Rightarrow> 'd c_double \<Rightarrow> allocator \<Rightarrow> reallocator \<Rightarrow> bool \<Rightarrow> upat \<Rightarrow> 'j option \<Rightarrow> ('j, 'd) outs option option"
  and match_items ::
    "('j, 'd) json_c \<Rightarrow> 'd c_double \<Rightarrow> allocator \<Rightarrow> reallocator \<Rightarrow> bool \<Rightarrow> upat list \<Rightarrow> uend \<Rightarrow> 'j \<Rightarrow> nat \<Rightarrow> ('j, 'd) outs option option"
  and match_entries ::
    "('j, 'd) json_c \<Rightarrow> 'd c_double \<Rightarrow> allocator \<Rightarrow> reallocator \<Rightarrow> bool \<Rightarrow> (string \<times> bool \<times> upat) list \<Rightarrow> uend \<Rightarrow> 'j \<Rightarrow> nat \<Rightarrow>
      ('j, 'd) outs option option"
where
  "unpacks api dd malloc realloc b QNull obj = Some (if is_type api obj json_type_null then Some [] else None)"
| "unpacks api dd malloc realloc b (QBool p) obj =
     fits_value (Some (is_type api obj json_type_boolean, OInt (of_bool (case obj of None \<Rightarrow> False | Some x \<Rightarrow> jc_boolean api x)))) (slot b p)"
| "unpacks api dd malloc realloc b (QInt p) obj =
     fits_value (int_value OInt (rp_jsonc_get_int32 api dd obj rp_jsonc_int_mode_number)) (slot b p)"
| "unpacks api dd malloc realloc b (QInt64 p) obj =
     fits_value (int_value OInt64 (rp_jsonc_get_int64 api dd obj rp_jsonc_int_mode_number)) (slot b p)"
| "unpacks api dd malloc realloc b (QDouble wide p) obj =
     fits_value (Some (is_type api obj json_type_double \<or> wide \<and> is_type api obj json_type_int, ODouble (jc_double api (the obj)))) (slot b p)"
| "unpacks api dd malloc realloc b (QText p z) obj =
     Some (if is_type api obj json_type_string
           then Some (stored (slot b p) (OText (jc_string api (the obj))) @
             (case z of None \<Rightarrow> [] | Some z \<Rightarrow> stored (slot b z) (OSize (length (jc_string api (the obj))))))
           else None)"
| "unpacks api dd malloc realloc b (QObj byref p) obj = fits_value (Some (True, OObj obj)) (slot b p)"
| "unpacks api dd malloc realloc b (QBytes y p z) obj = match_bytes api malloc realloc (slot b p) (slot b z) obj"
| "unpacks api dd malloc realloc b (QArray qs e) obj =
     (if \<not> is_type api obj json_type_array then Some None else match_items api dd malloc realloc b qs e (the obj) 0)"
| "unpacks api dd malloc realloc b (QObject qs e) obj =
     (if \<not> is_type api obj json_type_object then Some None else match_entries api dd malloc realloc b qs e (the obj) 0)"
| "match_items api dd malloc realloc b [] e x i = Some (if e = UBang \<and> i \<noteq> length (jc_array api x) then None else Some [])"
| "match_items api dd malloc realloc b (q # qs) e x i =
     (if i \<ge> length (jc_array api x) then Some None
      else and_then (unpacks api dd malloc realloc b q (array_get_idx api x i)) (match_items api dd malloc realloc b qs e x (Suc i)))"
| "match_entries api dd malloc realloc b [] e x i = Some (if e = UBang \<and> i \<noteq> length (jc_object api x) then None else Some [])"
| "match_entries api dd malloc realloc b ((k, opt, q) # qs) e x i =
     (case jc_get api x k of
        None \<Rightarrow> if opt then match_entries api dd malloc realloc b qs e x i else Some None
      | Some v \<Rightarrow> and_then (unpacks api dd malloc realloc b q v) (match_entries api dd malloc realloc b qs e x (Suc i)))"

subsection \<open>The loop follows the pattern\<close>

definition unpack_finish ::
  "('j, 'd) json_c \<Rightarrow> 'd c_double \<Rightarrow> allocator \<Rightarrow> reallocator \<Rightarrow> bool \<Rightarrow> mem \<Rightarrow> nat \<Rightarrow> nat \<Rightarrow> 'j ustate \<Rightarrow> uarg list \<Rightarrow> ('j, 'd) outs \<Rightarrow>
    (int \<times> ('j, 'd) outs) option" where
  "unpack_finish api dd malloc realloc b desc n d st args out = do {
     t \<leftarrow> unpack_after api desc d st args out;
     case t of
       UNext d st args out \<Rightarrow> unpack_loop api dd malloc realloc b desc n d st args out
     | UItem d st args out \<Rightarrow> None
     | UError e d out \<Rightarrow> Some (error_at e d, out)
     | UDone out \<Rightarrow> Some (0, out)
   }"

lemma loop_turn:
  "unpack_turn api dd malloc realloc b desc d st args out = None \<Longrightarrow>
    unpack_loop api dd malloc realloc b desc (Suc n) d st args out = None"
  "unpack_turn api dd malloc realloc b desc d st args out = Some (UNext d' st' args' out') \<Longrightarrow>
    unpack_loop api dd malloc realloc b desc (Suc n) d st args out = unpack_loop api dd malloc realloc b desc n d' st' args' out'"
  "unpack_turn api dd malloc realloc b desc d st args out = Some (UItem d' st' args' out') \<Longrightarrow>
    unpack_loop api dd malloc realloc b desc (Suc n) d st args out = unpack_finish api dd malloc realloc b desc n d' st' args' out'"
  "unpack_turn api dd malloc realloc b desc d st args out = Some (UError e d' out') \<Longrightarrow>
    unpack_loop api dd malloc realloc b desc (Suc n) d st args out = Some (error_at e d', out')"
  by (simp_all add: unpack_finish_def)

declare unpack_loop.simps [simp del]

text \<open>What a run gives, against what the pattern tells.\<close>

definition agrees :: "('j, 'd) outs option option \<Rightarrow> (int \<times> ('j, 'd) outs) option \<Rightarrow> (('j, 'd) outs \<Rightarrow> bool) \<Rightarrow> bool" where
  "agrees r L K \<longleftrightarrow> (case r of None \<Rightarrow> L = None | Some None \<Rightarrow> (\<exists>rc x. L = Some (rc, x) \<and> rc \<noteq> 0) | Some (Some x) \<Rightarrow> K x)"

lemma agrees_simps [simp]:
  "agrees None L K \<longleftrightarrow> L = None"
  "agrees (Some None) L K \<longleftrightarrow> (\<exists>rc x. L = Some (rc, x) \<and> rc \<noteq> 0)"
  "agrees (Some (Some x)) L K \<longleftrightarrow> K x"
  by (simp_all add: agrees_def)

lemma agrees_error: "e \<noteq> rp_jsonc_error_none \<Longrightarrow> agrees (Some None) (Some (error_at e d, x)) K"
  by (simp add: error_at_nonzero)

lemma agrees_mono: "agrees r L K \<Longrightarrow> (\<And>x. K x \<Longrightarrow> K' x) \<Longrightarrow> agrees r L K'"
  by (auto simp: agrees_def split: option.splits)

lemma agrees_and_then:
  assumes "agrees a L J" and "\<And>x. J x \<Longrightarrow> agrees r L (\<lambda>y. K (x @ y))"
  shows "agrees (and_then a r) L K"
proof (cases a)
  case (Some a')
  then show ?thesis
  proof (cases a')
    case (Some x)
    then have "agrees r L (\<lambda>y. K (x @ y))" using assms \<open>a = Some a'\<close> by simp
    then show ?thesis using Some \<open>a = Some a'\<close> by (auto simp: and_then_def agrees_def split: option.splits)
  qed (use assms(1) in \<open>auto simp: and_then_def\<close>)
qed (use assms(1) in \<open>auto simp: and_then_def\<close>)

text \<open>The items that are not containers.\<close>

definition item_agrees :: "('j, 'd) outs option option \<Rightarrow> ('j, 'd) uitem option \<Rightarrow> (('j, 'd) outs \<Rightarrow> bool) \<Rightarrow> bool" where
  "item_agrees r L K \<longleftrightarrow> (case r of None \<Rightarrow> L = None
     | Some None \<Rightarrow> (\<exists>e d. L = Some (Inl (e, d)) \<and> e \<noteq> rp_jsonc_error_none) | Some (Some x) \<Rightarrow> K x)"

lemma take_slot_slots [simp]:
  "take_slot b (slots b (p # ps) @ args) = Some (slot b p, slots b ps @ args)"
  by (simp add: take_slot_def slots_def slot_def)

lemma slots_Nil [simp]: "slots b [] = []" "slots False ps = []" "take_slot False args = Some (None, args)"
  by (simp_all add: slots_def take_slot_def)

lemma unpack_value_active:
  "item_agrees (fits_value r (slot b p)) (unpack_value b fit d False r (slots b [p] @ args) out)
     (\<lambda>x. unpack_value b fit d False r (slots b [p] @ args) out = Some (Inr (d, args, out @ x)))"
  by (cases r) (auto simp: item_agrees_def fits_value_def unpack_value_def)

lemma unpack_value_ignored: "unpack_value b fit d True r (slots b [p] @ args) out = Some (Inr (d, args, out))"
  by (simp add: unpack_value_def)

lemma item_agrees_I:
  "item_agrees r L (\<lambda>x. L = Some (Inr (d, args, out @ x))) \<Longrightarrow> reads s d ts \<Longrightarrow>
    item_agrees r L (\<lambda>x. \<exists>d'. L = Some (Inr (d', args, out @ x)) \<and> reads s d' ts)"
  by (auto simp: item_agrees_def split: option.splits)

lemma percent_mark:
  assumes "no_nul s" and "next_char ts \<noteq> CHR ''%''" and "reads s d ((if z = None then [] else ''%'') @ ts)"
  shows "\<exists>d'. skip_mark (cstr s) CHR ''%'' d = Some (z \<noteq> None, d') \<and> reads s d' ts"
  using assms skip_mark_absent [OF assms(1), of d ts "CHR ''%''"] skip_mark_present [OF assms(1), of d "CHR ''%''" ts]
  by (cases z) auto

lemma unpack_text_agrees:
  assumes "no_nul s" and "next_char ts \<noteq> CHR ''%''" and "reads s d ((if z = None then [] else ''%'') @ ts)"
  shows "item_agrees (unpacks api dd malloc realloc b (QText p z) obj) (unpack_text api b (cstr s) fit d False obj (uargs b (QText p z) @ args) out)
      (\<lambda>x. \<exists>d'. unpack_text api b (cstr s) fit d False obj (uargs b (QText p z) @ args) out = Some (Inr (d', args, out @ x)) \<and> reads s d' ts)"
    and "\<exists>d'. unpack_text api b (cstr s) fit d True obj (uargs b (QText p z) @ args) out = Some (Inr (d', args, out)) \<and> reads s d' ts"
proof -
  obtain d' where d': "skip_mark (cstr s) CHR ''%'' d = Some (z \<noteq> None, d')" "reads s d' ts" using percent_mark [OF assms] by blast
  show "item_agrees (unpacks api dd malloc realloc b (QText p z) obj) (unpack_text api b (cstr s) fit d False obj (uargs b (QText p z) @ args) out)
      (\<lambda>x. \<exists>d'. unpack_text api b (cstr s) fit d False obj (uargs b (QText p z) @ args) out = Some (Inr (d', args, out @ x)) \<and> reads s d' ts)"
    using d' by (cases z; cases b) (auto simp: item_agrees_def unpack_text_def Let_def slot_def stored_def)
  show "\<exists>d'. unpack_text api b (cstr s) fit d True obj (uargs b (QText p z) @ args) out = Some (Inr (d', args, out)) \<and> reads s d' ts"
    using d' by (cases z; cases b) (auto simp: unpack_text_def Let_def)
qed

lemma unpack_bytes_agrees:
  "item_agrees (match_bytes api malloc realloc (slot b p) (slot b z) obj)
      (unpack_bytes api malloc realloc b fit d False obj (slots b [p, z] @ args) out)
      (\<lambda>x. unpack_bytes api malloc realloc b fit d False obj (slots b [p, z] @ args) out = Some (Inr (d, args, out @ x)))"
  "unpack_bytes api malloc realloc b fit d True obj (slots b [p, z] @ args) out = Some (Inr (d, args, out))"
proof -
  show "item_agrees (match_bytes api malloc realloc (slot b p) (slot b z) obj)
      (unpack_bytes api malloc realloc b fit d False obj (slots b [p, z] @ args) out)
      (\<lambda>x. unpack_bytes api malloc realloc b fit d False obj (slots b [p, z] @ args) out = Some (Inr (d, args, out @ x)))"
  proof (cases obj)
    case None
    then show ?thesis by (auto simp: item_agrees_def match_bytes_def unpack_bytes_def)
  next
    case (Some x)
    then show ?thesis
      by (cases "rp_base64_decode malloc realloc (jc_string api x) (length (jc_string api x)) 0")
        (auto simp: item_agrees_def match_bytes_def unpack_bytes_def split: sum.splits prod.splits)
  qed
  show "unpack_bytes api malloc realloc b fit d True obj (slots b [p, z] @ args) out = Some (Inr (d, args, out))"
    by (simp add: unpack_bytes_def)
qed

text \<open>The head of a description that is not a container.\<close>

fun atom :: "upat \<Rightarrow> bool" where
  "atom (QArray qs e) = False"
| "atom (QObject qs e) = False"
| "atom _ = True"

lemma unpack_item_agrees:
  assumes "atom q" and "no_nul s" and "next_char ts \<noteq> CHR ''%''" and "reads s d (tl (urender q) @ ts)"
  shows "item_agrees (unpacks api dd malloc realloc b q obj)
      (unpack_item api dd malloc realloc b (hd (urender q)) (cstr s) fit d False obj (uargs b q @ args) out)
      (\<lambda>x. \<exists>d'. unpack_item api dd malloc realloc b (hd (urender q)) (cstr s) fit d False obj (uargs b q @ args) out =
          Some (Inr (d', args, out @ x)) \<and> reads s d' ts)"
    and "\<exists>d'. unpack_item api dd malloc realloc b (hd (urender q)) (cstr s) fit d True obj (uargs b q @ args) out =
          Some (Inr (d', args, out)) \<and> reads s d' ts"
proof -
  note V = item_agrees_I [OF unpack_value_active] and W = item_agrees_I [OF unpack_bytes_agrees(1)]
  show "item_agrees (unpacks api dd malloc realloc b q obj)
      (unpack_item api dd malloc realloc b (hd (urender q)) (cstr s) fit d False obj (uargs b q @ args) out)
      (\<lambda>x. \<exists>d'. unpack_item api dd malloc realloc b (hd (urender q)) (cstr s) fit d False obj (uargs b q @ args) out =
          Some (Inr (d', args, out @ x)) \<and> reads s d' ts)"
  proof (cases q)
    case QNull
    then show ?thesis using assms by (auto simp: unpack_item_def item_agrees_def)
  next
    case (QText p z)
    then show ?thesis using unpack_text_agrees(1) [OF assms(2,3), of d z] assms(4) by (simp add: unpack_item_def del: unpacks.simps uargs.simps)
  next
    case (QBool p)
    let ?r = "Some (is_type api obj json_type_boolean, OInt (of_bool (case obj of None \<Rightarrow> False | Some x \<Rightarrow> jc_boolean api x)))"
    show ?thesis using V [of s d ts ?r b p fit args out] assms(4) unfolding QBool by (simp add: unpack_item_def)
  next
    case (QDouble w p)
    then show ?thesis using V assms(4) by (cases w) (simp_all add: unpack_item_def)
  next
    case (QObj r p)
    then show ?thesis using V assms(4) by (cases r) (simp_all add: unpack_item_def)
  next
    case (QBytes y p z)
    then show ?thesis using W assms(4) by (cases y) (simp_all add: unpack_item_def)
  qed (use V assms in \<open>simp_all add: unpack_item_def\<close>)
  show "\<exists>d'. unpack_item api dd malloc realloc b (hd (urender q)) (cstr s) fit d True obj (uargs b q @ args) out =
          Some (Inr (d', args, out)) \<and> reads s d' ts"
  proof (cases q)
    case (QText p z)
    then show ?thesis using unpack_text_agrees(2) [OF assms(2,3), of d z] assms(4) by (simp add: unpack_item_def del: uargs.simps)
  qed (use assms in \<open>auto simp: unpack_item_def unpack_value_ignored unpack_bytes_agrees(2) split: if_splits\<close>)
qed

text \<open>The states of the loop.\<close>

definition mkst :: "string \<Rightarrow> char \<Rightarrow> nat \<Rightarrow> 'j uframe list \<Rightarrow> 'j option \<Rightarrow> 'j ustate" where
  "mkst acc x ign stack obj = \<lparr>us_acc = acc, us_xacc = x, us_ignore = ign, us_stack = stack, us_obj = obj\<rparr>"

definition mkfr :: "'j option \<Rightarrow> string \<Rightarrow> nat \<Rightarrow> nat \<Rightarrow> char \<Rightarrow> 'j uframe" where
  "mkfr p acc i k x = \<lparr>uf_parent = p, uf_acc = acc, uf_index = i, uf_count = k, uf_type = x\<rparr>"

lemma mkst_simps [simp]:
  "us_acc (mkst acc x ign stack obj) = acc" "us_xacc (mkst acc x ign stack obj) = x" "us_ignore (mkst acc x ign stack obj) = ign"
  "us_stack (mkst acc x ign stack obj) = stack" "us_obj (mkst acc x ign stack obj) = obj"
  "mkst acc x ign stack obj\<lparr>us_acc := acc'\<rparr> = mkst acc' x ign stack obj"
  "mkst acc x ign stack obj\<lparr>us_xacc := x'\<rparr> = mkst acc x' ign stack obj"
  "mkst acc x ign stack obj\<lparr>us_ignore := ign'\<rparr> = mkst acc x ign' stack obj"
  "mkst acc x ign stack obj\<lparr>us_stack := stack'\<rparr> = mkst acc x ign stack' obj"
  "mkst acc x ign stack obj\<lparr>us_obj := obj'\<rparr> = mkst acc x ign stack obj'"
  by (simp_all add: mkst_def)

lemma mkfr_simps [simp]:
  "uf_parent (mkfr p acc i k x) = p" "uf_acc (mkfr p acc i k x) = acc" "uf_index (mkfr p acc i k x) = i"
  "uf_count (mkfr p acc i k x) = k" "uf_type (mkfr p acc i k x) = x"
  "mkfr p acc i k x\<lparr>uf_index := i'\<rparr> = mkfr p acc i' k x"
  by (simp_all add: mkfr_def)

lemma mkfr_eq: "\<lparr>uf_parent = p, uf_acc = acc, uf_index = i, uf_count = k, uf_type = x\<rparr> = mkfr p acc i k x"
  by (simp add: mkfr_def)

text \<open>The turns, by the character that is read.\<close>

lemma turn_start:
  assumes "no_nul s" and "reads s d (c # ts)" and "c \<in> set acc"
  obtains d' where "reads s d' ts" and "skip (cstr s) (Suc d) = Some d'" and "load (cstr s) d = Some c" and "c \<noteq> NUL"
  using reads_Cons [OF assms(1,2)] by auto

lemma turn_atom:
  assumes "no_nul s" and "reads s d (c # ts)" and "c \<in> set acc" and "c \<notin> set ''[{}]!*''" and "\<not> (c = CHR ''s'' \<and> x = CHR ''}'')"
  shows "\<exists>d'. reads s d' ts \<and> unpack_turn api dd malloc realloc b (cstr s) d (mkst acc x ign stack obj) args out =
    (case unpack_item api dd malloc realloc b c (cstr s) d d' (ign > 0) obj args out of
       None \<Rightarrow> None
     | Some (Inl (e, d)) \<Rightarrow> Some (UError e d out)
     | Some (Inr (d, args, out)) \<Rightarrow> Some (UItem d (mkst acc x ign stack obj) args out))"
proof -
  obtain d' where d': "reads s d' ts" "skip (cstr s) (Suc d) = Some d'" "load (cstr s) d = Some c" "c \<noteq> NUL"
    using turn_start [OF assms(1-3)] .
  have "c \<noteq> CHR ''['' \<and> c \<noteq> CHR ''{'' \<and> c \<noteq> CHR ''}'' \<and> c \<noteq> CHR '']'' \<and> c \<noteq> CHR ''!'' \<and> c \<noteq> CHR ''*''"
    using assms(4) by simp
  then have "unpack_turn api dd malloc realloc b (cstr s) d (mkst acc x ign stack obj) args out =
    (case unpack_item api dd malloc realloc b c (cstr s) d d' (ign > 0) obj args out of
       None \<Rightarrow> None
     | Some (Inl (e, d)) \<Rightarrow> Some (UError e d out)
     | Some (Inr (d, args, out)) \<Rightarrow> Some (UItem d (mkst acc x ign stack obj) args out))"
    using assms(3,5) d'(2-4) by (auto simp: unpack_turn_def split: option.splits sum.splits)
  then show ?thesis using d'(1) by blast
qed

lemma turn_container:
  assumes "no_nul s" and "reads s d (c # ts)" and "c \<in> set acc" and "c = CHR ''['' \<or> c = CHR ''{''"
  shows "\<exists>d'. reads s d' ts \<and> unpack_turn api dd malloc realloc b (cstr s) d (mkst acc x ign stack obj) args out =
    Some (unpack_open api c d d' (mkst acc x ign stack obj) args out)"
proof -
  obtain d' where d': "reads s d' ts" "skip (cstr s) (Suc d) = Some d'" "load (cstr s) d = Some c" "c \<noteq> NUL"
    using turn_start [OF assms(1-3)] .
  have "c \<noteq> CHR ''s''" using assms(4) by auto
  then show ?thesis using assms(3,4) d' by (auto simp: unpack_turn_def)
qed

lemma turn_end:
  assumes "no_nul s" and "reads s d (c # ts)" and "c \<in> set acc" and "c = CHR '']'' \<or> c = CHR ''}''"
  shows "\<exists>d'. reads s d' ts \<and>
    unpack_loop api dd malloc realloc b (cstr s) (Suc n) d (mkst acc c ign (mkfr p acc' i k x' # stack) obj) args out =
    unpack_finish api dd malloc realloc b (cstr s) n d' (mkst acc' x' (ign - 1) stack obj) args out"
proof -
  obtain d' where d': "reads s d' ts" "skip (cstr s) (Suc d) = Some d'" "load (cstr s) d = Some c" "c \<noteq> NUL"
    using turn_start [OF assms(1-3)] .
  have c: "c \<noteq> CHR ''s'' \<and> c \<noteq> CHR ''['' \<and> c \<noteq> CHR ''{''" using assms(4) by auto
  then have "unpack_turn api dd malloc realloc b (cstr s) d (mkst acc c ign (mkfr p acc' i k x' # stack) obj) args out =
      Some (UItem d' (mkst acc' x' (ign - 1) stack obj) args out)"
    using assms(3,4) d' by (auto simp: unpack_turn_def unpack_close_def)
  then show ?thesis using loop_turn(3) d'(1) by blast
qed

text \<open>The marks before the end of a container, then its end.\<close>

lemma turns_end:
  assumes s: "no_nul s" and r: "reads s d (uend_text e @ c # ts)" and a: "set ''*!'' \<union> {c} \<subseteq> set acc"
    and c: "c = CHR '']'' \<or> c = CHR ''}''"
  shows "(ign = 0 \<and> e = UBang \<and> i \<noteq> k \<longrightarrow> (\<exists>rc x. rc \<noteq> 0 \<and>
      unpack_loop api dd malloc realloc b (cstr s) (uend_turns e + 1 + n) d (mkst acc c ign (mkfr p acc' i k x' # stack) obj) args out =
        Some (rc, x))) \<and>
    (\<not> (ign = 0 \<and> e = UBang \<and> i \<noteq> k) \<longrightarrow> (\<exists>d'. reads s d' ts \<and>
      unpack_loop api dd malloc realloc b (cstr s) (uend_turns e + 1 + n) d (mkst acc c ign (mkfr p acc' i k x' # stack) obj) args out =
      unpack_finish api dd malloc realloc b (cstr s) n d' (mkst acc' x' (ign - 1) stack obj) args out))"
proof (cases e)
  case UOpen
  have r': "reads s d (c # ts)" using r UOpen by (simp add: uend_text_def)
  show ?thesis using turn_end [OF s r' _ c, of acc] a UOpen by (simp add: uend_turns_def)
next
  case UStar
  have r': "reads s d (CHR ''*'' # c # ts)" using r UStar by (simp add: uend_text_def)
  obtain d1 where d1: "reads s d1 (c # ts)" "skip (cstr s) (Suc d) = Some d1" "load (cstr s) d = Some CHR ''*''"
    using turn_start [OF s r', of acc] a by auto
  have "unpack_turn api dd malloc realloc b (cstr s) d (mkst acc c ign (mkfr p acc' i k x' # stack) obj) args out =
      Some (UNext d1 (mkst [c] c ign (mkfr p acc' i k x' # stack) obj) args out)"
    using a d1 c by (auto simp: unpack_turn_def)
  note L = loop_turn(2) [OF this]
  show ?thesis using turn_end [OF s d1(1) _ c, of "[c]" api dd malloc realloc b n ign p acc' i k x' stack obj args out] UStar
    by (simp add: uend_turns_def L)
next
  case UBang
  have r': "reads s d (CHR ''!'' # c # ts)" using r UBang by (simp add: uend_text_def)
  obtain d1 where d1: "reads s d1 (c # ts)" "skip (cstr s) (Suc d) = Some d1" "load (cstr s) d = Some CHR ''!''"
    using turn_start [OF s r', of acc] a by auto
  have l: "load (cstr s) d1 = Some c" using reads_load [OF s d1(1)] by simp
  let ?e = "if c = CHR ''}'' then rp_jsonc_error_dictionary_incomplete
      else if i < k then rp_jsonc_error_array_incomplete else rp_jsonc_error_array_extra_field"
  have T: "unpack_turn api dd malloc realloc b (cstr s) d (mkst acc c ign (mkfr p acc' i k x' # stack) obj) args out =
      Some (if ign = 0 \<and> i \<noteq> k then UError ?e d1 out else UNext d1 (mkst [c] c ign (mkfr p acc' i k x' # stack) obj) args out)"
    using a d1 c l by (auto simp: unpack_turn_def unpack_exact_def)
  show ?thesis
  proof (cases "ign = 0 \<and> i \<noteq> k")
    case True
    have "?e \<noteq> rp_jsonc_error_none" by simp
    then have "error_at ?e d1 \<noteq> 0" by (rule error_at_nonzero)
    moreover have "unpack_turn api dd malloc realloc b (cstr s) d (mkst acc c ign (mkfr p acc' i k x' # stack) obj) args out = Some (UError ?e d1 out)"
      using T True by simp
    note loop_turn(4) [OF this]
    ultimately show ?thesis using True UBang by (auto simp: uend_turns_def)
  next
    case False
    have "unpack_turn api dd malloc realloc b (cstr s) d (mkst acc c ign (mkfr p acc' i k x' # stack) obj) args out =
        Some (UNext d1 (mkst [c] c ign (mkfr p acc' i k x' # stack) obj) args out)"
      using T False by auto
    note L = loop_turn(2) [OF this]
    show ?thesis using turn_end [OF s d1(1) _ c, of "[c]" api dd malloc realloc b n ign p acc' i k x' stack obj args out] UBang False
      by (auto simp: uend_turns_def L)
  qed
qed

text \<open>What is proved of a pattern: the run when the items are read, and when they are ignored.\<close>

definition runs ::
  "('j, 'd) json_c \<Rightarrow> 'd c_double \<Rightarrow> allocator \<Rightarrow> reallocator \<Rightarrow> bool \<Rightarrow> string \<Rightarrow> upat \<Rightarrow> bool" where
  "runs api dd malloc realloc b s q \<longleftrightarrow> (\<forall>ts n d acc x stack obj args out.
     uwf (length stack) q \<longrightarrow> set unpack_accept_any \<subseteq> set acc \<longrightarrow> x \<noteq> CHR ''}'' \<longrightarrow> next_char ts \<noteq> CHR ''%'' \<longrightarrow>
     reads s d (urender q @ ts) \<longrightarrow>
     (let L = unpack_loop api dd malloc realloc b (cstr s) (uturns q + n) d (mkst acc x 0 stack obj) (uargs b q @ args) out in
      agrees (unpacks api dd malloc realloc b q obj) L (\<lambda>y. \<exists>d' obj'. reads s d' ts \<and>
        L = unpack_finish api dd malloc realloc b (cstr s) n d' (mkst acc x 0 stack obj') args (out @ y))))"

definition skips ::
  "('j, 'd) json_c \<Rightarrow> 'd c_double \<Rightarrow> allocator \<Rightarrow> reallocator \<Rightarrow> bool \<Rightarrow> string \<Rightarrow> upat \<Rightarrow> bool" where
  "skips api dd malloc realloc b s q \<longleftrightarrow> (\<forall>ts n d acc x ign stack obj args out.
     uwf (length stack) q \<longrightarrow> set unpack_accept_any \<subseteq> set acc \<longrightarrow> x \<noteq> CHR ''}'' \<longrightarrow> next_char ts \<noteq> CHR ''%'' \<longrightarrow>
     reads s d (urender q @ ts) \<longrightarrow> 0 < ign \<longrightarrow>
     (\<exists>d'. reads s d' ts \<and>
        unpack_loop api dd malloc realloc b (cstr s) (uturns q + n) d (mkst acc x ign stack obj) (uargs b q @ args) out =
        unpack_finish api dd malloc realloc b (cstr s) n d' (mkst acc x ign stack obj) args out))"

lemma runsD:
  assumes "runs api dd malloc realloc b s q" and "uwf (length stack) q" and "set unpack_accept_any \<subseteq> set acc" and "x \<noteq> CHR ''}''"
    and "next_char ts \<noteq> CHR ''%''" and "reads s d (urender q @ ts)"
    and "L = unpack_loop api dd malloc realloc b (cstr s) (uturns q + n) d (mkst acc x 0 stack obj) (uargs b q @ args) out"
  shows "agrees (unpacks api dd malloc realloc b q obj) L (\<lambda>y. \<exists>d' obj'. reads s d' ts \<and>
        L = unpack_finish api dd malloc realloc b (cstr s) n d' (mkst acc x 0 stack obj') args (out @ y))"
  using assms unfolding runs_def Let_def by blast

lemma skipsD:
  assumes "skips api dd malloc realloc b s q" and "uwf (length stack) q" and "set unpack_accept_any \<subseteq> set acc" and "x \<noteq> CHR ''}''"
    and "next_char ts \<noteq> CHR ''%''" and "reads s d (urender q @ ts)" and "0 < ign"
  shows "\<exists>d'. reads s d' ts \<and>
     unpack_loop api dd malloc realloc b (cstr s) (uturns q + n) d (mkst acc x ign stack obj) (uargs b q @ args) out =
     unpack_finish api dd malloc realloc b (cstr s) n d' (mkst acc x ign stack obj) args out"
  using assms unfolding skips_def by blast

lemmas unpack_accepts = unpack_accept_any_def unpack_accept_arr_def unpack_accept_key_def

lemma urender_hd: "\<exists>c r. urender q = c # r \<and> c \<in> set unpack_accept_any"
  by (cases q) (auto simp: unpack_accepts)

lemma atom_hd: "atom q \<Longrightarrow> urender q = hd (urender q) # tl (urender q) \<and> hd (urender q) \<in> set unpack_accept_any \<and>
    hd (urender q) \<notin> set ''[{}]!*'' \<and> uturns q = 1"
  by (cases q) (auto simp: unpack_accepts)

lemma runs_atom:
  assumes a: "atom q" and s: "no_nul s"
  shows "runs api dd malloc realloc b s q"
  unfolding runs_def Let_def
proof (intro allI impI)
  fix ts n d acc x and stack :: "'a uframe list" and obj args out
  assume ac: "set unpack_accept_any \<subseteq> set acc" and x: "x \<noteq> CHR ''}''" and f: "next_char ts \<noteq> CHR ''%''" and r: "reads s d (urender q @ ts)"
  let ?L = "unpack_loop api dd malloc realloc b (cstr s) (uturns q + n) d (mkst acc x 0 stack obj) (uargs b q @ args) out"
  let ?c = "hd (urender q)"
  note h = atom_hd [OF a]
  have r': "reads s d (?c # tl (urender q) @ ts)" using r h by (metis append_Cons)
  have p: "?c \<in> set acc" "?c \<notin> set ''[{}]!*''" "\<not> (?c = CHR ''s'' \<and> x = CHR ''}'')" using h ac x by blast+
  obtain d' where d': "reads s d' (tl (urender q) @ ts)" and
    T: "unpack_turn api dd malloc realloc b (cstr s) d (mkst acc x 0 stack obj) (uargs b q @ args) out =
      (case unpack_item api dd malloc realloc b ?c (cstr s) d d' False obj (uargs b q @ args) out of
         None \<Rightarrow> None
       | Some (Inl (e, d)) \<Rightarrow> Some (UError e d out)
       | Some (Inr (d, args, out)) \<Rightarrow> Some (UItem d (mkst acc x 0 stack obj) args out))"
    using turn_atom [OF s r' p, of api dd malloc realloc b 0 stack obj "uargs b q @ args" out] by auto
  have L: "?L = unpack_loop api dd malloc realloc b (cstr s) (Suc n) d (mkst acc x 0 stack obj) (uargs b q @ args) out"
    using h by simp
  have "item_agrees (unpacks api dd malloc realloc b q obj) (unpack_item api dd malloc realloc b ?c (cstr s) d d' False obj (uargs b q @ args) out)
      (\<lambda>x. \<exists>d''. unpack_item api dd malloc realloc b ?c (cstr s) d d' False obj (uargs b q @ args) out =
          Some (Inr (d'', args, out @ x)) \<and> reads s d'' ts)"
    by (rule unpack_item_agrees(1) [OF a s f d'])
  then show "agrees (unpacks api dd malloc realloc b q obj) ?L (\<lambda>y. \<exists>d' obj'. reads s d' ts \<and>
        ?L = unpack_finish api dd malloc realloc b (cstr s) n d' (mkst acc x 0 stack obj') args (out @ y))"
    unfolding L
  proof (cases "unpacks api dd malloc realloc b q obj")
    case (Some m)
    assume A: "item_agrees (unpacks api dd malloc realloc b q obj) (unpack_item api dd malloc realloc b ?c (cstr s) d d' False obj (uargs b q @ args) out)
      (\<lambda>x. \<exists>d''. unpack_item api dd malloc realloc b ?c (cstr s) d d' False obj (uargs b q @ args) out =
          Some (Inr (d'', args, out @ x)) \<and> reads s d'' ts)"
    show "agrees (unpacks api dd malloc realloc b q obj) (unpack_loop api dd malloc realloc b (cstr s) (Suc n) d (mkst acc x 0 stack obj) (uargs b q @ args) out)
        (\<lambda>y. \<exists>d' obj'. reads s d' ts \<and>
        unpack_loop api dd malloc realloc b (cstr s) (Suc n) d (mkst acc x 0 stack obj) (uargs b q @ args) out =
        unpack_finish api dd malloc realloc b (cstr s) n d' (mkst acc x 0 stack obj') args (out @ y))"
    proof (cases m)
      case None
      then show ?thesis using A Some by (auto simp: item_agrees_def T loop_turn error_at_nonzero)
    next
      case (Some y)
      then show ?thesis using A \<open>unpacks api dd malloc realloc b q obj = Some m\<close> by (auto simp: item_agrees_def T loop_turn; blast)
    qed
  qed (auto simp: item_agrees_def T loop_turn)
qed

lemma skips_atom:
  assumes a: "atom q" and s: "no_nul s"
  shows "skips api dd malloc realloc b s q"
  unfolding skips_def
proof (intro allI impI)
  fix ts n d acc x and ign :: nat and stack :: "'a uframe list" and obj args out
  assume ac: "set unpack_accept_any \<subseteq> set acc" and x: "x \<noteq> CHR ''}''" and f: "next_char ts \<noteq> CHR ''%''" and r: "reads s d (urender q @ ts)"
    and i: "0 < ign"
  let ?c = "hd (urender q)"
  note h = atom_hd [OF a]
  have r': "reads s d (?c # tl (urender q) @ ts)" using r h by (metis append_Cons)
  have p: "?c \<in> set acc" "?c \<notin> set ''[{}]!*''" "\<not> (?c = CHR ''s'' \<and> x = CHR ''}'')" using h ac x by blast+
  obtain d' where d': "reads s d' (tl (urender q) @ ts)" and
    T: "unpack_turn api dd malloc realloc b (cstr s) d (mkst acc x ign stack obj) (uargs b q @ args) out =
      (case unpack_item api dd malloc realloc b ?c (cstr s) d d' True obj (uargs b q @ args) out of
         None \<Rightarrow> None
       | Some (Inl (e, d)) \<Rightarrow> Some (UError e d out)
       | Some (Inr (d, args, out)) \<Rightarrow> Some (UItem d (mkst acc x ign stack obj) args out))"
    using turn_atom [OF s r' p, of api dd malloc realloc b ign stack obj "uargs b q @ args" out] i by auto
  obtain d'' where d'': "reads s d'' ts"
    "unpack_item api dd malloc realloc b ?c (cstr s) d d' True obj (uargs b q @ args) out = Some (Inr (d'', args, out))"
    using unpack_item_agrees(2) [OF a s f d', of api dd malloc realloc b d obj args out] by blast
  have "unpack_loop api dd malloc realloc b (cstr s) (uturns q + n) d (mkst acc x ign stack obj) (uargs b q @ args) out =
      unpack_finish api dd malloc realloc b (cstr s) n d'' (mkst acc x ign stack obj) args out"
    using h d'' by (simp add: T loop_turn)
  then show "\<exists>d'. reads s d' ts \<and> unpack_loop api dd malloc realloc b (cstr s) (uturns q + n) d (mkst acc x ign stack obj) (uargs b q @ args) out =
      unpack_finish api dd malloc realloc b (cstr s) n d' (mkst acc x ign stack obj) args out" using d''(1) by blast
qed

text \<open>The states in containers, with \<open>x\<close>, \<open>acc\<close> of what is around.\<close>

abbreviation "arr_st ign p acc i k x stack obj \<equiv> mkst unpack_accept_arr CHR '']'' ign (mkfr p acc i k x # stack) obj"
abbreviation "obj_st ign p acc i k x stack obj \<equiv> mkst unpack_accept_key CHR ''}'' ign (mkfr p acc i k x # stack) obj"
abbreviation "val_st ign p acc i k x stack obj \<equiv> mkst unpack_accept_any CHR '':'' ign (mkfr p acc i k x # stack) obj"

lemma finish_next:
  "unpack_after api desc d st args out = Some (UNext d' st' args' out') \<Longrightarrow>
    unpack_finish api dd malloc realloc b desc n d st args out = unpack_loop api dd malloc realloc b desc n d' st' args' out'"
  "unpack_after api desc d st args out = Some (UError e d' out') \<Longrightarrow>
    unpack_finish api dd malloc realloc b desc n d st args out = Some (error_at e d', out')"
  by (simp_all add: unpack_finish_def)

lemma after_value:
  assumes "no_nul s" and "reads s d ts"
  shows "unpack_finish api dd malloc realloc b (cstr s) n d (val_st ign p acc i k x stack obj) args out =
    unpack_loop api dd malloc realloc b (cstr s) n d (obj_st (ign - 1) p acc i k x stack obj) args out"
  by (rule finish_next) (simp add: unpack_after_def reads_load [OF assms])

lemma after_item_ignored:
  assumes "no_nul s" and "reads s d ts" and "0 < ign"
  shows "unpack_finish api dd malloc realloc b (cstr s) n d (arr_st ign p acc i k x stack obj) args out =
    unpack_loop api dd malloc realloc b (cstr s) n d (arr_st ign p acc i k x stack obj) args out"
  by (rule finish_next) (use assms(3) in \<open>simp add: unpack_after_def reads_load [OF assms(1,2)]\<close>)

lemma next_end: "c = CHR '']'' \<or> c = CHR ''}'' \<Longrightarrow> next_char (uend_text e @ c # ts) \<notin> set unpack_accept_any \<and>
    next_char (uend_text e @ c # ts) \<noteq> NUL \<and> next_char (uend_text e @ c # ts) \<noteq> CHR ''%'' \<and> next_char (uend_text e @ c # ts) \<noteq> CHR ''?''"
  by (cases e) (auto simp: uend_text_def unpack_accepts)

lemma next_items: "next_char (concat (map urender qs) @ uend_text e @ CHR '']'' # ts) \<noteq> CHR ''%''"
proof (cases qs)
  case (Cons q qs')
  obtain c r where "urender q = c # r" "c \<in> set unpack_accept_any" using urender_hd by blast
  then show ?thesis using Cons by (auto simp: unpack_accepts)
qed (use next_end in auto)

lemma next_entries: "next_char (concat (map (\<lambda>(k, opt, q). CHR ''s'' # (if opt then ''?'' else []) @ urender q) qs) @ uend_text e @ CHR ''}'' # ts)
    \<noteq> CHR ''%''"
proof (cases qs)
  case (Cons q qs')
  then show ?thesis by (cases q) simp
qed (use next_end in auto)

text \<open>Arrays.\<close>

lemma array_skips:
  assumes s: "no_nul s" and i: "0 < ign"
  shows "\<forall>q \<in> set qs. skips api dd malloc realloc b s q \<and> uwf (Suc (length stack)) q \<Longrightarrow>
    reads s d (concat (map urender qs) @ uend_text e @ CHR '']'' # ts) \<Longrightarrow>
    \<exists>d'. reads s d' ts \<and>
      unpack_loop api dd malloc realloc b (cstr s) ((\<Sum>q \<leftarrow> qs. uturns q) + (uend_turns e + 1 + n)) d (arr_st ign p acc j k x stack obj)
        (concat (map (uargs b) qs) @ args) out =
      unpack_finish api dd malloc realloc b (cstr s) n d' (mkst acc x (ign - 1) stack obj) args out"
proof (induction qs arbitrary: d)
  case Nil
  then have r: "reads s d (uend_text e @ CHR '']'' # ts)" by simp
  show ?case using turns_end [OF s r, of unpack_accept_arr ign j k api dd malloc realloc b n p acc x stack obj args out] i
    by (auto simp: unpack_accepts)
next
  case (Cons q qs)
  let ?n = "(\<Sum>q \<leftarrow> qs. uturns q) + (uend_turns e + 1 + n)"
  let ?ts = "concat (map urender qs) @ uend_text e @ CHR '']'' # ts"
  have r: "reads s d (urender q @ ?ts)" using Cons.prems(2) by simp
  have q: "skips api dd malloc realloc b s q" "uwf (length (mkfr p acc j k x # stack)) q" using Cons.prems(1) by auto
  have a: "set unpack_accept_any \<subseteq> set unpack_accept_arr" and nb: "CHR '']'' \<noteq> CHR ''}''" by (auto simp: unpack_accepts)
  obtain d' where d': "reads s d' ?ts" and
    L: "unpack_loop api dd malloc realloc b (cstr s) (uturns q + ?n) d (arr_st ign p acc j k x stack obj)
        (uargs b q @ concat (map (uargs b) qs) @ args) out =
      unpack_finish api dd malloc realloc b (cstr s) ?n d' (arr_st ign p acc j k x stack obj) (concat (map (uargs b) qs) @ args) out"
    using skipsD [OF q a nb next_items r i] by blast
  have I: "\<forall>q \<in> set qs. skips api dd malloc realloc b s q \<and> uwf (Suc (length stack)) q" using Cons.prems(1) by simp
  have n: "(\<Sum>q \<leftarrow> q # qs. uturns q) + (uend_turns e + 1 + n) = uturns q + ?n"
    and g: "concat (map (uargs b) (q # qs)) @ args = uargs b q @ concat (map (uargs b) qs) @ args" by simp_all
  show ?case using Cons.IH [OF I d'] unfolding n g L after_item_ignored [OF s d' i] .
qed

lemma array_runs:
  assumes s: "no_nul s"
  shows "\<forall>q \<in> set qs. runs api dd malloc realloc b s q \<and> uwf (Suc (length stack)) q \<Longrightarrow>
    reads s d (concat (map urender qs) @ uend_text e @ CHR '']'' # ts) \<Longrightarrow>
    L = unpack_finish api dd malloc realloc b (cstr s) ((\<Sum>q \<leftarrow> qs. uturns q) + (uend_turns e + 1 + n)) d
      (arr_st 0 (Some y) acc i (length (jc_array api y)) x stack obj) (concat (map (uargs b) qs) @ args) out \<Longrightarrow>
    agrees (match_items api dd malloc realloc b qs e y i) L (\<lambda>o'. \<exists>d' obj'. reads s d' ts \<and>
      L = unpack_finish api dd malloc realloc b (cstr s) n d' (mkst acc x 0 stack obj') args (out @ o'))"
proof (induction qs arbitrary: d i obj out)
  case Nil
  have r: "reads s d (uend_text e @ CHR '']'' # ts)" using Nil.prems(2) by simp
  let ?st = "arr_st 0 (Some y) acc i (length (jc_array api y)) x stack obj"
  have "unpack_after api (cstr s) d ?st args out = Some (UNext d ?st args out)"
    using next_end [of "CHR '']''" e ts] by (simp add: unpack_after_def reads_load [OF s r])
  then have L: "L = unpack_loop api dd malloc realloc b (cstr s) (uend_turns e + 1 + n) d ?st args out"
    using Nil.prems(3) by (simp add: finish_next)
  have "set ''*!'' \<union> {CHR '']''} \<subseteq> set unpack_accept_arr" by (auto simp: unpack_accepts)
  note T = turns_end [OF s r this, of 0 i "length (jc_array api y)" api dd malloc realloc b n "Some y" acc x stack obj args out]
  show ?case
  proof (cases "e = UBang \<and> i \<noteq> length (jc_array api y)")
    case True
    then show ?thesis using T unfolding L by auto
  next
    case False
    then obtain d' where "reads s d' ts" "L = unpack_finish api dd malloc realloc b (cstr s) n d' (mkst acc x 0 stack obj) args out"
      using T unfolding L by auto
    then show ?thesis using False by auto
  qed
next
  case (Cons q qs)
  let ?n = "(\<Sum>q \<leftarrow> qs. uturns q) + (uend_turns e + 1 + n)"
  let ?k = "length (jc_array api y)"
  let ?ts = "concat (map urender qs) @ uend_text e @ CHR '']'' # ts"
  have r: "reads s d (urender q @ ?ts)" using Cons.prems(2) by simp
  obtain c r' where c: "urender q = c # r'" "c \<in> set unpack_accept_any" using urender_hd by blast
  have l: "load (cstr s) d = Some c" using reads_load [OF s r] c by simp
  have n: "(\<Sum>q \<leftarrow> q # qs. uturns q) + (uend_turns e + 1 + n) = uturns q + ?n" by simp
  show ?case
  proof (cases "i < ?k")
    case False
    have "unpack_after api (cstr s) d (arr_st 0 (Some y) acc i ?k x stack obj) (concat (map (uargs b) (q # qs)) @ args) out =
        Some (UError rp_jsonc_error_out_of_range d out)"
      using False l c by (simp add: unpack_after_def)
    then show ?thesis using False by (simp add: Cons.prems(3) finish_next error_at_nonzero)
  next
    case True
    let ?v = "array_get_idx api y i"
    have "unpack_after api (cstr s) d (arr_st 0 (Some y) acc i ?k x stack obj) (uargs b q @ concat (map (uargs b) qs) @ args) out =
        Some (UNext d (arr_st 0 (Some y) acc (Suc i) ?k x stack ?v) (uargs b q @ concat (map (uargs b) qs) @ args) out)"
      using True l c by (simp add: unpack_after_def)
    then have L: "L = unpack_loop api dd malloc realloc b (cstr s) (uturns q + ?n) d (arr_st 0 (Some y) acc (Suc i) ?k x stack ?v)
        (uargs b q @ concat (map (uargs b) qs) @ args) out"
      unfolding Cons.prems(3) n by (simp add: finish_next)
    have q: "runs api dd malloc realloc b s q" "uwf (length (mkfr (Some y) acc (Suc i) ?k x # stack)) q" using Cons.prems(1) by auto
    have a: "set unpack_accept_any \<subseteq> set unpack_accept_arr" by (auto simp: unpack_accepts)
    have I: "\<forall>q \<in> set qs. runs api dd malloc realloc b s q \<and> uwf (Suc (length stack)) q" using Cons.prems(1) by simp
    have "agrees (and_then (unpacks api dd malloc realloc b q ?v) (match_items api dd malloc realloc b qs e y (Suc i))) L
      (\<lambda>o'. \<exists>d' obj'. reads s d' ts \<and> L = unpack_finish api dd malloc realloc b (cstr s) n d' (mkst acc x 0 stack obj') args (out @ o'))"
    proof (rule agrees_and_then [OF runsD [OF q a _ next_items r L]])
      fix o1
      assume "\<exists>d' obj'. reads s d' ?ts \<and> L = unpack_finish api dd malloc realloc b (cstr s) ?n d'
          (arr_st 0 (Some y) acc (Suc i) ?k x stack obj') (concat (map (uargs b) qs) @ args) (out @ o1)"
      then obtain d' obj' where d': "reads s d' ?ts" and L': "L = unpack_finish api dd malloc realloc b (cstr s) ?n d'
          (arr_st 0 (Some y) acc (Suc i) ?k x stack obj') (concat (map (uargs b) qs) @ args) (out @ o1)" by blast
      show "agrees (match_items api dd malloc realloc b qs e y (Suc i)) L (\<lambda>o'. \<exists>d' obj'. reads s d' ts \<and>
          L = unpack_finish api dd malloc realloc b (cstr s) n d' (mkst acc x 0 stack obj') args (out @ o1 @ o'))"
        using Cons.IH [OF I d' L'] by simp
    qed simp
    then show ?thesis using True by simp
  qed
qed

text \<open>Objects.\<close>

lemma turn_key:
  assumes s: "no_nul s" and r: "reads s d (CHR ''s'' # (if opt then ''?'' else []) @ ts)" and q: "next_char ts \<noteq> CHR ''?''"
    and k: "no_nul key"
  obtains d' where "reads s d' ts"
    and "0 < ign \<Longrightarrow> unpack_turn api dd malloc realloc b (cstr s) d (obj_st ign p acc i k x stack obj) (UKey (Some (cstr key)) # args) out =
      Some (UNext d' (val_st (Suc ign) p acc i k x stack obj) args out)"
    and "unpack_turn api dd malloc realloc b (cstr s) d (obj_st 0 (Some y) acc i k x stack obj) (UKey (Some (cstr key)) # args) out =
      Some (case jc_get api y key of
        Some v \<Rightarrow> UNext d' (val_st 0 (Some y) acc (Suc i) k x stack v) args out
      | None \<Rightarrow> if opt then UNext d' (val_st 1 (Some y) acc i k x stack None) args out
                else UError rp_jsonc_error_key_not_found d' out)"
proof -
  have a: "CHR ''s'' \<in> set unpack_accept_key" by (simp add: unpack_accepts)
  obtain d1 where d1: "reads s d1 ((if opt then ''?'' else []) @ ts)" "skip (cstr s) (Suc d) = Some d1" "load (cstr s) d = Some CHR ''s''"
    using turn_start [OF s r a] .
  obtain d' where d': "skip_mark (cstr s) CHR ''?'' d1 = Some (opt, d')" "reads s d' ts"
    using d1(1) q skip_mark_absent [OF s, of d1 ts] skip_mark_present [OF s, of d1 "CHR ''?''" ts] by (cases opt) auto
  have 1: "unpack_turn api dd malloc realloc b (cstr s) d (obj_st ign p acc i k x stack obj) (UKey (Some (cstr key)) # args) out =
      Some (UNext d' (val_st (Suc ign) p acc i k x stack obj) args out)" if "0 < ign"
    using that d' d1 a by (simp add: unpack_turn_def unpack_key_def Let_def)
  have 2: "unpack_turn api dd malloc realloc b (cstr s) d (obj_st 0 (Some y) acc i k x stack obj) (UKey (Some (cstr key)) # args) out =
      Some (case jc_get api y key of
        Some v \<Rightarrow> UNext d' (val_st 0 (Some y) acc (Suc i) k x stack v) args out
      | None \<Rightarrow> if opt then UNext d' (val_st 1 (Some y) acc i k x stack None) args out
                else UError rp_jsonc_error_key_not_found d' out)"
    using d' d1 a k by (simp add: unpack_turn_def unpack_key_def Let_def split: option.split)
  show ?thesis using that [OF d'(2) 1 2] .
qed

lemma entry_next: "next_char (urender q @ ts) \<noteq> CHR ''?''"
proof -
  obtain c r where "urender q = c # r" "c \<in> set unpack_accept_any" using urender_hd by blast
  then show ?thesis by (auto simp: unpack_accepts)
qed

lemma any_any: "set unpack_accept_any \<subseteq> set unpack_accept_any" and colon: "CHR '':'' \<noteq> CHR ''}''"
  by simp_all

abbreviation "entries_text qs \<equiv> concat (map (\<lambda>(k, opt, q). CHR ''s'' # (if opt then ''?'' else []) @ urender q) qs)"
abbreviation "entries_args b qs \<equiv> concat (map (\<lambda>(k, opt, q). UKey (Some (cstr k)) # uargs b q) qs)"
abbreviation "entries_turns qs \<equiv> (\<Sum>(k, opt, q) \<leftarrow> qs. Suc (uturns q))"

lemma object_skips:
  assumes s: "no_nul s" and i: "0 < ign"
  shows "\<forall>(key, opt, q) \<in> set qs. skips api dd malloc realloc b s q \<and> uwf (Suc (length stack)) q \<and> no_nul key \<Longrightarrow>
    reads s d (entries_text qs @ uend_text e @ CHR ''}'' # ts) \<Longrightarrow>
    \<exists>d'. reads s d' ts \<and>
      unpack_loop api dd malloc realloc b (cstr s) (entries_turns qs + (uend_turns e + 1 + n)) d (obj_st ign p acc j k x stack obj)
        (entries_args b qs @ args) out =
      unpack_finish api dd malloc realloc b (cstr s) n d' (mkst acc x (ign - 1) stack obj) args out"
proof (induction qs arbitrary: d)
  case Nil
  then have r: "reads s d (uend_text e @ CHR ''}'' # ts)" by simp
  show ?case using turns_end [OF s r, of unpack_accept_key ign j k api dd malloc realloc b n p acc x stack obj args out] i
    by (auto simp: unpack_accepts)
next
  case (Cons a qs)
  obtain key opt q where a: "a = (key, opt, q)" by (cases a) auto
  let ?n = "entries_turns qs + (uend_turns e + 1 + n)"
  let ?ts = "entries_text qs @ uend_text e @ CHR ''}'' # ts"
  let ?args = "entries_args b qs @ args"
  have r: "reads s d (CHR ''s'' # (if opt then ''?'' else []) @ urender q @ ?ts)" using Cons.prems(2) a by simp
  have h: "skips api dd malloc realloc b s q" "uwf (length (mkfr p acc j k x # stack)) q" "no_nul key" using Cons.prems(1) a by auto
  obtain d1 where d1: "reads s d1 (urender q @ ?ts)" and
    T: "unpack_turn api dd malloc realloc b (cstr s) d (obj_st ign p acc j k x stack obj) (UKey (Some (cstr key)) # uargs b q @ ?args) out =
      Some (UNext d1 (val_st (Suc ign) p acc j k x stack obj) (uargs b q @ ?args) out)"
    by (rule turn_key [OF s r entry_next h(3), where y = undefined]) (use i in blast)
  obtain d' where d': "reads s d' ?ts" and
    L: "unpack_loop api dd malloc realloc b (cstr s) (uturns q + ?n) d1 (val_st (Suc ign) p acc j k x stack obj) (uargs b q @ ?args) out =
      unpack_finish api dd malloc realloc b (cstr s) ?n d' (val_st (Suc ign) p acc j k x stack obj) ?args out"
    using skipsD [OF h(1,2) any_any colon next_entries d1, of "Suc ign"] by blast
  have I: "\<forall>(key, opt, q) \<in> set qs. skips api dd malloc realloc b s q \<and> uwf (Suc (length stack)) q \<and> no_nul key" using Cons.prems(1) by simp
  have n: "entries_turns (a # qs) + (uend_turns e + 1 + n) = Suc (uturns q + ?n)"
    and g: "entries_args b (a # qs) @ args = UKey (Some (cstr key)) # uargs b q @ ?args" by (simp_all add: a)
  show ?case using Cons.IH [OF I d'] unfolding n g loop_turn(2) [OF T] L after_value [OF s d'] diff_Suc_1 .
qed

lemma object_runs:
  assumes s: "no_nul s"
  shows "\<forall>(key, opt, q) \<in> set qs. runs api dd malloc realloc b s q \<and> skips api dd malloc realloc b s q \<and> uwf (Suc (length stack)) q \<and> no_nul key \<Longrightarrow>
    reads s d (entries_text qs @ uend_text e @ CHR ''}'' # ts) \<Longrightarrow>
    L = unpack_loop api dd malloc realloc b (cstr s) (entries_turns qs + (uend_turns e + 1 + n)) d
      (obj_st 0 (Some y) acc i (length (jc_object api y)) x stack obj) (entries_args b qs @ args) out \<Longrightarrow>
    agrees (match_entries api dd malloc realloc b qs e y i) L (\<lambda>o'. \<exists>d' obj'. reads s d' ts \<and>
      L = unpack_finish api dd malloc realloc b (cstr s) n d' (mkst acc x 0 stack obj') args (out @ o'))"
proof (induction qs arbitrary: d i obj out)
  case Nil
  have r: "reads s d (uend_text e @ CHR ''}'' # ts)" using Nil.prems(2) by simp
  have L: "L = unpack_loop api dd malloc realloc b (cstr s) (uend_turns e + 1 + n) d
      (obj_st 0 (Some y) acc i (length (jc_object api y)) x stack obj) args out"
    using Nil.prems(3) by simp
  have "set ''*!'' \<union> {CHR ''}''} \<subseteq> set unpack_accept_key" by (auto simp: unpack_accepts)
  note T = turns_end [OF s r this, of 0 i "length (jc_object api y)" api dd malloc realloc b n "Some y" acc x stack obj args out]
  show ?case
  proof (cases "e = UBang \<and> i \<noteq> length (jc_object api y)")
    case True
    then show ?thesis using T unfolding L by auto
  next
    case False
    then obtain d' where "reads s d' ts" "L = unpack_finish api dd malloc realloc b (cstr s) n d' (mkst acc x 0 stack obj) args out"
      using T unfolding L by auto
    then show ?thesis using False by auto
  qed
next
  case (Cons a qs)
  obtain key opt q where a: "a = (key, opt, q)" by (cases a) auto
  let ?n = "entries_turns qs + (uend_turns e + 1 + n)"
  let ?k = "length (jc_object api y)"
  let ?ts = "entries_text qs @ uend_text e @ CHR ''}'' # ts"
  let ?args = "entries_args b qs @ args"
  let ?fr = "mkfr (Some y) acc i ?k x"
  have r: "reads s d (CHR ''s'' # (if opt then ''?'' else []) @ urender q @ ?ts)" using Cons.prems(2) a by simp
  have h: "runs api dd malloc realloc b s q" "skips api dd malloc realloc b s q" "uwf (length (mkfr (Some y) acc j ?k x # stack)) q"
    "no_nul key" for j using Cons.prems(1) a by auto
  have I: "\<forall>(key, opt, q) \<in> set qs. runs api dd malloc realloc b s q \<and> skips api dd malloc realloc b s q \<and> uwf (Suc (length stack)) q \<and> no_nul key"
    using Cons.prems(1) by simp
  have L: "L = unpack_loop api dd malloc realloc b (cstr s) (Suc (uturns q + ?n)) d (obj_st 0 (Some y) acc i ?k x stack obj)
      (UKey (Some (cstr key)) # uargs b q @ ?args) out"
    unfolding Cons.prems(3) by (simp add: a add.assoc)
  obtain d1 where d1: "reads s d1 (urender q @ ?ts)" and
    T: "unpack_turn api dd malloc realloc b (cstr s) d (obj_st 0 (Some y) acc i ?k x stack obj) (UKey (Some (cstr key)) # uargs b q @ ?args) out =
      Some (case jc_get api y key of
        Some v \<Rightarrow> UNext d1 (val_st 0 (Some y) acc (Suc i) ?k x stack v) (uargs b q @ ?args) out
      | None \<Rightarrow> if opt then UNext d1 (val_st 1 (Some y) acc i ?k x stack None) (uargs b q @ ?args) out
                else UError rp_jsonc_error_key_not_found d1 out)"
    by (rule turn_key [OF s r entry_next h(4), where ign = 0 and y = y]) blast
  show ?case
  proof (cases "jc_get api y key")
    case (Some v)
    have L1: "L = unpack_loop api dd malloc realloc b (cstr s) (uturns q + ?n) d1 (val_st 0 (Some y) acc (Suc i) ?k x stack v) (uargs b q @ ?args) out"
      unfolding L by (rule loop_turn(2)) (simp add: T Some)
    have "agrees (and_then (unpacks api dd malloc realloc b q v) (match_entries api dd malloc realloc b qs e y (Suc i))) L
      (\<lambda>o'. \<exists>d' obj'. reads s d' ts \<and> L = unpack_finish api dd malloc realloc b (cstr s) n d' (mkst acc x 0 stack obj') args (out @ o'))"
    proof (rule agrees_and_then [OF runsD [OF h(1) h(3) any_any colon next_entries d1 L1]])
      fix o1
      assume "\<exists>d' obj'. reads s d' ?ts \<and> L = unpack_finish api dd malloc realloc b (cstr s) ?n d'
          (val_st 0 (Some y) acc (Suc i) ?k x stack obj') ?args (out @ o1)"
      then obtain d' obj' where d': "reads s d' ?ts" and L': "L = unpack_finish api dd malloc realloc b (cstr s) ?n d'
          (val_st 0 (Some y) acc (Suc i) ?k x stack obj') ?args (out @ o1)" by blast
      have L2: "L = unpack_loop api dd malloc realloc b (cstr s) ?n d' (obj_st 0 (Some y) acc (Suc i) ?k x stack obj') ?args (out @ o1)"
        unfolding L' after_value [OF s d'] by simp
      show "agrees (match_entries api dd malloc realloc b qs e y (Suc i)) L (\<lambda>o'. \<exists>d' obj'. reads s d' ts \<and>
          L = unpack_finish api dd malloc realloc b (cstr s) n d' (mkst acc x 0 stack obj') args (out @ o1 @ o'))"
        using Cons.IH [OF I d' L2] by simp
    qed
    then show ?thesis using Some by (simp add: a)
  next
    case None
    show ?thesis
    proof (cases opt)
      case True
      have L1: "L = unpack_loop api dd malloc realloc b (cstr s) (uturns q + ?n) d1 (val_st 1 (Some y) acc i ?k x stack None) (uargs b q @ ?args) out"
        unfolding L by (rule loop_turn(2)) (simp add: T None True)
      obtain d' where d': "reads s d' ?ts" and
        L': "unpack_loop api dd malloc realloc b (cstr s) (uturns q + ?n) d1 (val_st 1 (Some y) acc i ?k x stack None) (uargs b q @ ?args) out =
          unpack_finish api dd malloc realloc b (cstr s) ?n d' (val_st 1 (Some y) acc i ?k x stack None) ?args out"
        using skipsD [OF h(2) h(3) any_any colon next_entries d1 zero_less_one] by blast
      have L2: "L = unpack_loop api dd malloc realloc b (cstr s) ?n d' (obj_st 0 (Some y) acc i ?k x stack None) ?args out"
        unfolding L1 L' after_value [OF s d'] by simp
      show ?thesis using Cons.IH [OF I d' L2] None True by (simp add: a)
    next
      case False
      have "L = Some (error_at rp_jsonc_error_key_not_found d1, out)"
        unfolding L by (rule loop_turn(4)) (simp add: T None False)
      then show ?thesis using None False by (simp add: a error_at_nonzero)
    qed
  qed
qed

lemma finish_loop:
  "unpack_after api desc d st args out = Some (UNext d st args out) \<Longrightarrow>
    unpack_finish api dd malloc realloc b desc n d st args out = unpack_loop api dd malloc realloc b desc n d st args out"
  by (rule finish_next)

lemma type_some: "is_type api obj json_type_array \<or> is_type api obj json_type_object \<Longrightarrow> \<exists>y. obj = Some y"
  by (cases obj) (auto simp: is_type_def get_type_def)

lemma runs_array:
  assumes s: "no_nul s" and IH: "\<forall>q \<in> set qs. runs api dd malloc realloc b s q"
  shows "runs api dd malloc realloc b s (QArray qs e)"
  unfolding runs_def Let_def
proof (intro allI impI)
  fix ts n d acc x and stack :: "'a uframe list" and obj args out
  assume w: "uwf (length stack) (QArray qs e)" and ac: "set unpack_accept_any \<subseteq> set acc" and r: "reads s d (urender (QArray qs e) @ ts)"
  let ?ts = "concat (map urender qs) @ uend_text e @ CHR '']'' # ts"
  let ?n = "(\<Sum>q \<leftarrow> qs. uturns q) + (uend_turns e + 1 + n)"
  let ?L = "unpack_loop api dd malloc realloc b (cstr s) (uturns (QArray qs e) + n) d (mkst acc x 0 stack obj) (uargs b (QArray qs e) @ args) out"
  have n: "uturns (QArray qs e) + n = Suc ?n" by simp
  have r': "reads s d (CHR ''['' # ?ts)" using r by simp
  have "CHR ''['' \<in> set acc" using ac by (auto simp: unpack_accepts)
  then obtain d' where d': "reads s d' ?ts" and
    T: "unpack_turn api dd malloc realloc b (cstr s) d (mkst acc x 0 stack obj) (uargs b (QArray qs e) @ args) out =
      Some (unpack_open api CHR ''['' d d' (mkst acc x 0 stack obj) (uargs b (QArray qs e) @ args) out)"
    using turn_container [OF s r', of acc] by blast
  show "agrees (unpacks api dd malloc realloc b (QArray qs e) obj) ?L (\<lambda>y. \<exists>d' obj'. reads s d' ts \<and>
        ?L = unpack_finish api dd malloc realloc b (cstr s) n d' (mkst acc x 0 stack obj') args (out @ y))"
  proof (cases "is_type api obj json_type_array")
    case False
    have "?L = Some (error_at rp_jsonc_error_missfit_type d, out)"
      unfolding n by (rule loop_turn(4)) (use T w False in \<open>simp add: unpack_open_def Let_def\<close>)
    then show ?thesis using False by (simp add: error_at_nonzero)
  next
    case True
    obtain y where y: "obj = Some y" using type_some True by blast
    have L: "?L = unpack_finish api dd malloc realloc b (cstr s) ?n d' (arr_st 0 (Some y) acc 0 (length (jc_array api y)) x stack obj)
        (concat (map (uargs b) qs) @ args) out"
      unfolding n by (rule loop_turn(3)) (use T w True y in \<open>simp add: unpack_open_def Let_def mkfr_eq\<close>)
    have I: "\<forall>q \<in> set qs. runs api dd malloc realloc b s q \<and> uwf (Suc (length stack)) q" using IH w by simp
    show ?thesis using array_runs [OF s I d' L] True y by simp
  qed
qed

lemma runs_object:
  assumes s: "no_nul s" and IH: "\<forall>(k, opt, q) \<in> set qs. runs api dd malloc realloc b s q \<and> skips api dd malloc realloc b s q"
  shows "runs api dd malloc realloc b s (QObject qs e)"
  unfolding runs_def Let_def
proof (intro allI impI)
  fix ts n d acc x and stack :: "'a uframe list" and obj args out
  assume w: "uwf (length stack) (QObject qs e)" and ac: "set unpack_accept_any \<subseteq> set acc" and r: "reads s d (urender (QObject qs e) @ ts)"
  let ?ts = "entries_text qs @ uend_text e @ CHR ''}'' # ts"
  let ?n = "entries_turns qs + (uend_turns e + 1 + n)"
  let ?L = "unpack_loop api dd malloc realloc b (cstr s) (uturns (QObject qs e) + n) d (mkst acc x 0 stack obj) (uargs b (QObject qs e) @ args) out"
  have n: "uturns (QObject qs e) + n = Suc ?n" by simp
  have r': "reads s d (CHR ''{'' # ?ts)" using r by simp
  have "CHR ''{'' \<in> set acc" using ac by (auto simp: unpack_accepts)
  then obtain d' where d': "reads s d' ?ts" and
    T: "unpack_turn api dd malloc realloc b (cstr s) d (mkst acc x 0 stack obj) (uargs b (QObject qs e) @ args) out =
      Some (unpack_open api CHR ''{'' d d' (mkst acc x 0 stack obj) (uargs b (QObject qs e) @ args) out)"
    using turn_container [OF s r', of acc] by blast
  show "agrees (unpacks api dd malloc realloc b (QObject qs e) obj) ?L (\<lambda>y. \<exists>d' obj'. reads s d' ts \<and>
        ?L = unpack_finish api dd malloc realloc b (cstr s) n d' (mkst acc x 0 stack obj') args (out @ y))"
  proof (cases "is_type api obj json_type_object")
    case False
    have "?L = Some (error_at rp_jsonc_error_missfit_type d, out)"
      unfolding n by (rule loop_turn(4)) (use T w False in \<open>simp add: unpack_open_def Let_def\<close>)
    then show ?thesis using False by (simp add: error_at_nonzero)
  next
    case True
    obtain y where y: "obj = Some y" using type_some True by blast
    have L: "?L = unpack_loop api dd malloc realloc b (cstr s) ?n d' (obj_st 0 (Some y) acc 0 (length (jc_object api y)) x stack obj)
        (entries_args b qs @ args) out"
      unfolding n by (rule loop_turn(2)) (use T w True y in \<open>simp add: unpack_open_def Let_def mkfr_eq\<close>)
    have I: "\<forall>(key, opt, q) \<in> set qs. runs api dd malloc realloc b s q \<and> skips api dd malloc realloc b s q \<and> uwf (Suc (length stack)) q \<and> no_nul key"
      using IH w by auto
    show ?thesis using object_runs [OF s I d' L] True y by simp
  qed
qed

lemma skips_array:
  assumes s: "no_nul s" and IH: "\<forall>q \<in> set qs. skips api dd malloc realloc b s q"
  shows "skips api dd malloc realloc b s (QArray qs e)"
  unfolding skips_def
proof (intro allI impI)
  fix ts n d acc x and ign :: nat and stack :: "'a uframe list" and obj args out
  assume w: "uwf (length stack) (QArray qs e)" and ac: "set unpack_accept_any \<subseteq> set acc" and r: "reads s d (urender (QArray qs e) @ ts)"
    and i: "0 < ign"
  let ?ts = "concat (map urender qs) @ uend_text e @ CHR '']'' # ts"
  let ?n = "(\<Sum>q \<leftarrow> qs. uturns q) + (uend_turns e + 1 + n)"
  have n: "uturns (QArray qs e) + n = Suc ?n" by simp
  have r': "reads s d (CHR ''['' # ?ts)" using r by simp
  have "CHR ''['' \<in> set acc" using ac by (auto simp: unpack_accepts)
  then obtain d' where d': "reads s d' ?ts" and
    T: "unpack_turn api dd malloc realloc b (cstr s) d (mkst acc x ign stack obj) (uargs b (QArray qs e) @ args) out =
      Some (unpack_open api CHR ''['' d d' (mkst acc x ign stack obj) (uargs b (QArray qs e) @ args) out)"
    using turn_container [OF s r', of acc] by blast
  have i': "0 < Suc ign" by simp
  have L: "unpack_loop api dd malloc realloc b (cstr s) (uturns (QArray qs e) + n) d (mkst acc x ign stack obj) (uargs b (QArray qs e) @ args) out =
      unpack_finish api dd malloc realloc b (cstr s) ?n d' (arr_st (Suc ign) obj acc 0 0 x stack obj) (concat (map (uargs b) qs) @ args) out"
    unfolding n by (rule loop_turn(3)) (use T w i in \<open>simp add: unpack_open_def Let_def mkfr_eq\<close>)
  have I: "\<forall>q \<in> set qs. skips api dd malloc realloc b s q \<and> uwf (Suc (length stack)) q" using IH w by simp
  show "\<exists>d'. reads s d' ts \<and>
        unpack_loop api dd malloc realloc b (cstr s) (uturns (QArray qs e) + n) d (mkst acc x ign stack obj) (uargs b (QArray qs e) @ args) out =
        unpack_finish api dd malloc realloc b (cstr s) n d' (mkst acc x ign stack obj) args out"
    using array_skips [OF s i' I d'] unfolding L after_item_ignored [OF s d' i'] diff_Suc_1 .
qed

lemma skips_object:
  assumes s: "no_nul s" and IH: "\<forall>(k, opt, q) \<in> set qs. skips api dd malloc realloc b s q"
  shows "skips api dd malloc realloc b s (QObject qs e)"
  unfolding skips_def
proof (intro allI impI)
  fix ts n d acc x and ign :: nat and stack :: "'a uframe list" and obj args out
  assume w: "uwf (length stack) (QObject qs e)" and ac: "set unpack_accept_any \<subseteq> set acc" and r: "reads s d (urender (QObject qs e) @ ts)"
    and i: "0 < ign"
  let ?ts = "entries_text qs @ uend_text e @ CHR ''}'' # ts"
  let ?n = "entries_turns qs + (uend_turns e + 1 + n)"
  have n: "uturns (QObject qs e) + n = Suc ?n" by simp
  have r': "reads s d (CHR ''{'' # ?ts)" using r by simp
  have "CHR ''{'' \<in> set acc" using ac by (auto simp: unpack_accepts)
  then obtain d' where d': "reads s d' ?ts" and
    T: "unpack_turn api dd malloc realloc b (cstr s) d (mkst acc x ign stack obj) (uargs b (QObject qs e) @ args) out =
      Some (unpack_open api CHR ''{'' d d' (mkst acc x ign stack obj) (uargs b (QObject qs e) @ args) out)"
    using turn_container [OF s r', of acc] by blast
  have i': "0 < Suc ign" by simp
  have L: "unpack_loop api dd malloc realloc b (cstr s) (uturns (QObject qs e) + n) d (mkst acc x ign stack obj) (uargs b (QObject qs e) @ args) out =
      unpack_loop api dd malloc realloc b (cstr s) ?n d' (obj_st (Suc ign) obj acc 0 0 x stack obj) (entries_args b qs @ args) out"
    unfolding n by (rule loop_turn(2)) (use T w i in \<open>simp add: unpack_open_def Let_def mkfr_eq\<close>)
  have I: "\<forall>(key, opt, q) \<in> set qs. skips api dd malloc realloc b s q \<and> uwf (Suc (length stack)) q \<and> no_nul key" using IH w by auto
  show "\<exists>d'. reads s d' ts \<and>
        unpack_loop api dd malloc realloc b (cstr s) (uturns (QObject qs e) + n) d (mkst acc x ign stack obj) (uargs b (QObject qs e) @ args) out =
        unpack_finish api dd malloc realloc b (cstr s) n d' (mkst acc x ign stack obj) args out"
    using object_skips [OF s i' I d'] unfolding L diff_Suc_1 .
qed

lemma skips_all:
  assumes s: "no_nul s"
  shows "skips api dd malloc realloc b s q"
proof (induction q)
  case (QArray qs e)
  then show ?case by (intro skips_array [OF s]) blast
next
  case (QObject qs e)
  then show ?case by (intro skips_object [OF s]) fastforce
qed (rule skips_atom [OF _ s], simp)+

lemma runs_all:
  assumes s: "no_nul s"
  shows "runs api dd malloc realloc b s q"
proof (induction q)
  case (QArray qs e)
  then show ?case by (intro runs_array [OF s]) blast
next
  case (QObject qs e)
  then show ?case using skips_all [OF s] by (intro runs_object [OF s]) fastforce
qed (rule runs_atom [OF _ s], simp)+

text \<open>The fuel is enough.\<close>

lemma uturns_urender: "uturns q \<le> length (urender q)"
proof (induction q)
  case (QArray qs e)
  have "(\<Sum>q \<leftarrow> qs. uturns q) \<le> length (concat (map urender qs))" using QArray by (induction qs) fastforce+
  then show ?case by (cases e) (simp_all add: uend_turns_def uend_text_def)
next
  case (QObject qs e)
  have "entries_turns qs \<le> length (entries_text qs)" using QObject by (induction qs) fastforce+
  then show ?case by (cases e) (simp_all add: uend_turns_def uend_text_def)
qed auto

lemma vunpack_matches:
  assumes wf: "uwf 0 q" and s: "no_nul s" and desc: "filter (\<lambda>c. c \<notin> set ignore_all) s = urender q"
  shows "case unpacks api dd malloc realloc b q obj of
      None \<Rightarrow> vunpack api dd malloc realloc obj (Some (cstr s)) (uargs b q) b = None
    | Some None \<Rightarrow> \<exists>rc out. vunpack api dd malloc realloc obj (Some (cstr s)) (uargs b q) b = Some (rc, out) \<and> rc \<noteq> 0
    | Some (Some out) \<Rightarrow> vunpack api dd malloc realloc obj (Some (cstr s)) (uargs b q) b = Some (0, out)"
proof -
  let ?st = "mkst unpack_accept_any NUL 0 [] obj"
  obtain d where d: "skip (cstr s) 0 = Some d" "reads s d (urender q @ [])"
    using skip_reads [OF s, of 0] desc by auto
  have "uturns q \<le> length s" using uturns_urender [of q] length_filter_le [of "\<lambda>c. c \<notin> set ignore_all" s] desc by simp
  then obtain n where n: "length (cstr s) = uturns q + n" by (metis le_add_diff_inverse le_SucI length_cstr)
  let ?L = "vunpack api dd malloc realloc obj (Some (cstr s)) (uargs b q) b"
  have L: "?L = unpack_loop api dd malloc realloc b (cstr s) (uturns q + n) d ?st (uargs b q @ []) []"
    using d n by (simp add: vunpack_def mkst_def)
  have w: "uwf (length ([] :: 'a uframe list)) q" using wf by simp
  have "agrees (unpacks api dd malloc realloc b q obj) ?L (\<lambda>y. \<exists>d' obj'. reads s d' [] \<and>
        ?L = unpack_finish api dd malloc realloc b (cstr s) n d' (mkst unpack_accept_any NUL 0 [] obj') [] ([] @ y))"
    by (rule runsD [OF runs_all [OF s] w _ _ _ d(2) L]) simp_all
  moreover have "?L = Some (0, y)" if "reads s d' []"
    "?L = unpack_finish api dd malloc realloc b (cstr s) n d' (mkst unpack_accept_any NUL 0 [] obj') [] ([] @ y)" for d' obj' y
    unfolding that(2) using that(1) by (simp add: unpack_finish_def unpack_after_def reads_Nil)
  ultimately show ?thesis unfolding agrees_def by (auto split: option.splits)
qed

subsection \<open>Properties\<close>

text \<open>
  Property C34: \<open>vunpack\<close> follows its description: for a description that is, blanks, commas and colons
  apart, the one of a pattern nested no more than the stack, it returns 0 and stores the values that the pattern
  selects, in order, when the object matches, and a code that is not 0 when it does not. Types, missing keys, optional
  keys (whose items are skipped with their arguments), lengths of arrays and exact containers are those of
  the pattern; checking is the same without stores. The third case, in which nothing is defined, is that of an item for
  an integer met with a value whose conversion is not defined: a number with a fraction out of the range of 64
  bits, or an integer that the getters negate with an overflow.
\<close>

theorem vunpack_correct:
  assumes wf: "uwf 0 q" and s: "no_nul s" and desc: "filter (\<lambda>c. c \<notin> set ignore_all) s = urender q"
  shows "case unpacks api dd malloc realloc b q obj of
      None \<Rightarrow> vunpack api dd malloc realloc obj (Some (cstr s)) (uargs b q) b = None
    | Some None \<Rightarrow> \<exists>rc out. vunpack api dd malloc realloc obj (Some (cstr s)) (uargs b q) b = Some (rc, out) \<and> rc \<noteq> 0
    | Some (Some out) \<Rightarrow> vunpack api dd malloc realloc obj (Some (cstr s)) (uargs b q) b = Some (0, out)"
  using assms by (rule vunpack_matches)

theorem vunpack_correct_witness:
  "vunpack tree_api int_double alloc_zero realloc_zero
      (Some (JObject [(''a'', JArray [JInt 3, JString ''x'', JNull]), (''z'', JBool True)])) (Some (cstr ''{s:[i s*], s?:{s:i}}''))
      [UKey (Some (cstr ''a'')), USlot (Some 1), USlot (Some 2), UKey (Some (cstr ''b'')), UKey (Some (cstr ''c'')), USlot (Some 3)] True =
    Some (0, [(1, OInt 3), (2, OText ''x'')])"
proof -
  let ?q = "QObject [(''a'', False, QArray [QInt (Some 1), QText (Some 2) None] UStar),
     (''b'', True, QObject [(''c'', False, QInt (Some 3))] UOpen)] UOpen"
  let ?o = "Some (JObject [(''a'', JArray [JInt 3, JString ''x'', JNull]), (''z'', JBool True)])"
  let ?s = "''{s:[i s*], s?:{s:i}}''"
  have u: "unpacks tree_api int_double alloc_zero realloc_zero True ?q ?o = Some (Some [(1, OInt 3), (2, OText ''x'')])"
    by code_simp
  have w: "uwf 0 ?q" and n: "no_nul ?s" and f: "filter (\<lambda>c. c \<notin> set ignore_all) ?s = urender ?q"
    and a: "uargs True ?q = [UKey (Some (cstr ''a'')), USlot (Some 1), USlot (Some 2), UKey (Some (cstr ''b'')), UKey (Some (cstr ''c'')), USlot (Some 3)]"
    by (simp_all add: STACKCOUNT_def ignore_all_def uend_text_def slots_def)
  show ?thesis using vunpack_correct [OF w n f, where api = tree_api and dd = int_double and malloc = alloc_zero and realloc = realloc_zero and b = True and obj = ?o] unfolding u a by simp
qed

subsection \<open>Unpacking what was packed\<close>

text \<open>
  The pattern that reads back a specification of plain values: the variables are numbered in order,
  containers are exact. The least integers are left out: the getters negate them.
\<close>

fun plain :: "('j, 'd) pspec \<Rightarrow> bool" where
  "plain (PArray es) = (\<forall>(st, e) \<in> set es. \<not> st \<and> plain e)"
| "plain (PObject es) = (\<forall>(ps, st, e) \<in> set es. \<not> st \<and> plain e)"
| "plain (PInt i) = (i \<noteq> - (2 ^ 31))"
| "plain (PInt64 i) = (i \<noteq> - (2 ^ 63))"
| "plain PNoText = False"
| "plain (PObj x) = False"
| "plain (PBytes url bs) = False"
| "plain _ = True"

fun plain_values :: "('j, 'd) pspec \<Rightarrow> ('j, 'd) uval list" where
  "plain_values (PBool b) = [OInt (of_bool b)]"
| "plain_values (PInt i) = [OInt i]"
| "plain_values (PInt64 i) = [OInt64 i]"
| "plain_values (PDouble x) = [ODouble x]"
| "plain_values (PText ps) = [OText (concat ps)]"
| "plain_values (PArray es) = concat (map (\<lambda>(st, e). plain_values e) es)"
| "plain_values (PObject es) = concat (map (\<lambda>(ps, st, e). plain_values e) es)"
| "plain_values _ = []"

fun plain_pat :: "nat \<Rightarrow> ('j, 'd) pspec \<Rightarrow> upat"
  and plain_items :: "nat \<Rightarrow> (bool \<times> ('j, 'd) pspec) list \<Rightarrow> upat list"
  and plain_entries :: "nat \<Rightarrow> (string list \<times> bool \<times> ('j, 'd) pspec) list \<Rightarrow> (string \<times> bool \<times> upat) list"
where
  "plain_pat k (PBool b) = QBool (Some k)"
| "plain_pat k (PInt i) = QInt (Some k)"
| "plain_pat k (PInt64 i) = QInt64 (Some k)"
| "plain_pat k (PDouble x) = QDouble False (Some k)"
| "plain_pat k (PText ps) = QText (Some k) None"
| "plain_pat k (PArray es) = QArray (plain_items k es) UBang"
| "plain_pat k (PObject es) = QObject (plain_entries k es) UBang"
| "plain_pat k _ = QNull"
| "plain_items k [] = []"
| "plain_items k ((st, e) # es) = plain_pat k e # plain_items (k + length (plain_values e)) es"
| "plain_entries k [] = []"
| "plain_entries k ((ps, st, e) # es) = (concat ps, False, plain_pat k e) # plain_entries (k + length (plain_values e)) es"

lemma plain_not_null: "plain e \<Longrightarrow> e \<noteq> PNull \<Longrightarrow> pvalue jv False e \<noteq> JNull"
  by (cases e) (auto simp: starred_def)

lemma type_of_value:
  "json_c_ok api jv V \<Longrightarrow> valid V x \<Longrightarrow> is_type api x t \<longleftrightarrow> json_type_of (value_of jv x) = t"
  by (simp add: is_type_def get_type_value)

lemma object_of_value: "v \<noteq> JNull \<Longrightarrow> value_of jv x = v \<Longrightarrow> valid V x \<Longrightarrow> \<exists>y. x = Some y \<and> jv y = v \<and> V y"
  by (cases x) auto

lemma concat_kept: "(\<forall>(st, e) \<in> set es. \<not> st \<and> plain e) \<Longrightarrow>
    concat (map (\<lambda>(st, e). let v = pvalue jv st e in if kept st v then [v] else []) es) = map (\<lambda>(st, e). pvalue jv False e) es"
  by (induction es) (auto simp: kept_def Let_def)

lemma concat_kept_entries: "(\<forall>(ps, st, e) \<in> set es. \<not> st \<and> plain e) \<Longrightarrow>
    concat (map (\<lambda>(ps, st, e). let v = pvalue jv st e in if kept st v then [(concat ps, v)] else []) es) =
    map (\<lambda>(ps, st, e). (concat ps, pvalue jv False e)) es"
  by (induction es) (auto simp: kept_def Let_def)

lemma pvalue_plain:
  "plain (PArray es) \<Longrightarrow> pvalue jv False (PArray es) = JArray (map (\<lambda>(st, e). pvalue jv False e) es)"
  "plain (PObject qs) \<Longrightarrow> pvalue jv False (PObject qs) = JObject (map (\<lambda>(ps, st, e). (concat ps, pvalue jv False e)) qs)"
  by (simp_all add: starred_def concat_kept concat_kept_entries del: pvalue.simps) (simp_all add: starred_def concat_kept concat_kept_entries)

lemma and_then_enumerate:
  "and_then (Some (Some (enumerate k xs))) (Some (Some (enumerate (k + length xs) ys))) = Some (Some (enumerate k (xs @ ys)))"
  by (simp add: and_then_def enumerate_append_eq)

lemma unpacks_plain:
  assumes ok: "json_c_ok api jv V"
  shows "plain e \<Longrightarrow> pwf jv m e \<Longrightarrow> value_of jv x = pvalue jv False e \<Longrightarrow> valid V x \<Longrightarrow>
      unpacks api dd malloc realloc True (plain_pat k e) x = Some (Some (enumerate k (plain_values e)))"
    and "\<forall>(st, e) \<in> set es. \<not> st \<and> plain e \<and> pwf jv m e \<Longrightarrow> V y \<Longrightarrow> jv y = JArray ws \<Longrightarrow>
      drop i ws = map (\<lambda>(st, e). pvalue jv False e) es \<Longrightarrow> i + length es = length ws \<Longrightarrow>
      match_items api dd malloc realloc True (plain_items k es) UBang y i =
        Some (Some (enumerate k (concat (map (\<lambda>(st, e). plain_values e) es))))"
    and "\<forall>(ps, st, e) \<in> set qs. \<not> st \<and> plain e \<and> pwf jv m e \<Longrightarrow> V y \<Longrightarrow> jv y = JObject kvs \<Longrightarrow>
      \<forall>(ps, st, e) \<in> set qs. map_of kvs (concat ps) = Some (pvalue jv False e) \<Longrightarrow> i + length qs = length kvs \<Longrightarrow>
      match_entries api dd malloc realloc True (plain_entries k qs) UBang y i =
        Some (Some (enumerate k (concat (map (\<lambda>(ps, st, e). plain_values e) qs))))"
proof (induction k e and k es and k qs arbitrary: m x and m y ws i and m y kvs i rule: plain_pat_plain_items_plain_entries.induct)
  case (1 k b)
  then obtain y where y: "x = Some y" "jv y = JBool b" "V y" using object_of_value by fastforce
  then show ?case using rep [OF ok y(3)] by (simp add: fits_value_def slot_def stored_def is_type_def get_type_def represents_def)
next
  case (2 k i)
  then obtain y where y: "x = Some y" "jv y = JInt i" "V y" using object_of_value by fastforce
  show ?case using get_int_values [OF ok y(3,2), of dd rp_jsonc_int_mode_number] 2
    by (simp add: y(1) fits_value_def slot_def stored_def int_value_def)
next
  case (3 k i)
  then obtain y where y: "x = Some y" "jv y = JInt i" "V y" using object_of_value by fastforce
  show ?case using get_int_values [OF ok y(3,2), of dd rp_jsonc_int_mode_number] 3
    by (simp add: y(1) fits_value_def slot_def stored_def int_value_def)
next
  case (4 k d)
  then obtain y where y: "x = Some y" "jv y = JDouble d" "V y" using object_of_value by fastforce
  then show ?case using rep [OF ok y(3)] by (simp add: fits_value_def slot_def stored_def is_type_def get_type_def represents_def)
next
  case (5 k ps)
  then obtain y where y: "x = Some y" "jv y = JString (concat ps)" "V y" using object_of_value by fastforce
  then show ?case using rep [OF ok y(3)] by (simp add: slot_def stored_def is_type_def get_type_def represents_def)
next
  case (6 k es)
  note v = pvalue_plain(1) [OF 6(2)]
  obtain y where y: "x = Some y" "jv y = JArray (map (\<lambda>(st, e). pvalue jv False e) es)" "V y"
    using object_of_value [OF _ 6(4,5)] unfolding v by auto
  have "is_type api x json_type_array" using 6(4,5) v by (simp add: type_of_value [OF ok])
  moreover have "match_items api dd malloc realloc True (plain_items k es) UBang y 0 =
      Some (Some (enumerate k (concat (map (\<lambda>(st, e). plain_values e) es))))"
    by (rule 6(1) [of "Suc m" y _ 0]) (use 6(2,3) y in auto)
  ultimately show ?case using y(1) by simp
next
  case (7 k qs)
  note v = pvalue_plain(2) [OF 7(2)]
  let ?kvs = "map (\<lambda>(ps, st, e). (concat ps, pvalue jv False e)) qs"
  obtain y where y: "x = Some y" "jv y = JObject ?kvs" "V y"
    using object_of_value [OF _ 7(4,5)] unfolding v by auto
  have "is_type api x json_type_object" using 7(4,5) v by (simp add: type_of_value [OF ok])
  moreover have "match_entries api dd malloc realloc True (plain_entries k qs) UBang y 0 =
      Some (Some (enumerate k (concat (map (\<lambda>(ps, st, e). plain_values e) qs))))"
  proof (rule 7(1) [of "Suc m" y ?kvs 0])
    show "\<forall>(ps, st, e) \<in> set qs. \<not> st \<and> plain e \<and> pwf jv (Suc m) e" using 7(2,3) by auto
    have "distinct (map fst ?kvs)" using rep_object(2) [OF ok y(3,2)] .
    then show "\<forall>(ps, st, e) \<in> set qs. map_of ?kvs (concat ps) = Some (pvalue jv False e)" by (force intro!: map_of_is_SomeI)
  qed (use y in auto)
  ultimately show ?case using y(1) by simp
next
  case (9 k)
  then show ?case using rep_array(1) [OF ok 9(2,3)] by simp
next
  case (10 k st e es)
  have i: "i < length ws" using 10(6,7) by simp
  then have D: "drop i ws = ws ! i # drop (Suc i) ws" by (simp add: Cons_nth_drop_Suc)
  have l: "length (jc_array api y) = length ws" using rep_array(1) [OF ok 10(4,5)] .
  have v: "value_of jv (array_get_idx api y i) = pvalue jv False e" "valid V (array_get_idx api y i)"
    using rep_array(2,3) [OF ok 10(4,5) i] D 10(6) by simp_all
  have 1: "unpacks api dd malloc realloc True (plain_pat k e) (array_get_idx api y i) = Some (Some (enumerate k (plain_values e)))"
    by (rule 10(1) [of m]) (use 10(3) v in auto)
  have 2: "match_items api dd malloc realloc True (plain_items (k + length (plain_values e)) es) UBang y (Suc i) =
      Some (Some (enumerate (k + length (plain_values e)) (concat (map (\<lambda>(st, e). plain_values e) es))))"
    by (rule 10(2) [of m y ws]) (use 10 D in auto)
  show ?case using i l by (simp add: 1 2 and_then_enumerate)
next
  case (11 k)
  then show ?case using rep_object(1) [OF ok 11(2,3)] by simp
next
  case (12 k ps st e qs)
  have "map_of kvs (concat ps) = Some (pvalue jv False e)" using 12(6) by simp
  then obtain v where v: "jc_get api y (concat ps) = Some v" "value_of jv v = pvalue jv False e"
    using rep_object(4) [OF ok 12(4,5), of "concat ps"] by auto
  have "valid V v" using rep_object(6) [OF ok 12(4,5) v(1)] .
  then have 1: "unpacks api dd malloc realloc True (plain_pat k e) v = Some (Some (enumerate k (plain_values e)))"
    using 12(3) v by (intro 12(1) [of m]) auto
  have 2: "match_entries api dd malloc realloc True (plain_entries (k + length (plain_values e)) qs) UBang y (Suc i) =
      Some (Some (enumerate (k + length (plain_values e)) (concat (map (\<lambda>(ps, st, e). plain_values e) qs))))"
    by (rule 12(2) [of m y kvs]) (use 12 in auto)
  show ?case by (simp add: v 1 2 and_then_enumerate)
qed (auto simp: type_of_value [OF ok] slot_def)

lemma uwf_plain:
  "pwf jv (Suc m) e \<Longrightarrow> uwf m (plain_pat k e)"
  "\<forall>(st, e) \<in> set es. pwf jv (Suc m) e \<Longrightarrow> \<forall>q \<in> set (plain_items k es). uwf m q"
  "\<forall>(ps, st, e) \<in> set qs. text_wf ps \<and> pwf jv (Suc m) e \<Longrightarrow> \<forall>(key, opt, q) \<in> set (plain_entries k qs). no_nul key \<and> uwf m q"
proof (induction k e and k es and k qs arbitrary: m and m and m rule: plain_pat_plain_items_plain_entries.induct)
  case (6 k es)
  show ?case using 6(1) [of "Suc m"] 6(2) by simp
next
  case (7 k qs)
  have "\<forall>(ps, st, e) \<in> set qs. text_wf ps \<and> pwf jv (Suc (Suc m)) e" and "m < STACKCOUNT" using 7(2) by simp_all
  from 7(1) [OF this(1)] this(2) show ?case by (simp add: case_prod_unfold conj_commute)
next
  case (10 k st e es)
  show ?case using 10(1) [of m] 10(2) [of m] 10(3) by simp
next
  case (12 k ps st e qs)
  have "no_nul (concat ps)" using 12(3) by (simp add: text_wf_def no_nul_concat)
  from this 12(1) [of m] 12(2) [of m] 12(3) show ?case by simp
qed simp_all

text \<open>
  Property C35: unpacking what was packed gives the values back: for a specification of plain values (nested arrays
  and objects of null, booleans, numbers, texts and integers other than the least of their type), when
  \<open>rp_jsonc_pack\<close> has made an object and no addition to a container failed,
  \<open>rp_jsonc_unpack\<close> with the exact description of the same shape accepts it and stores the packed
  values in their order.
\<close>

theorem rp_jsonc_pack_unpack:
  assumes env: "pack_env sure api malloc realloc jv" and ok: "json_c_ok api jv V" and e: "plain e" "pwf jv 1 e"
    and s: "no_nul s" "filter (\<lambda>c. c \<notin> set ignore_all) s = render e" and buf: "length local_buffer = 256"
    and t: "no_nul t" "filter (\<lambda>c. c \<notin> set ignore_all) t = urender (plain_pat 0 e)"
    and made: "rp_jsonc_pack api malloc realloc local_buffer (Some (cstr s)) (args_of e) = Some (0, obj)" and V: "valid V obj"
  shows "rp_jsonc_unpack api dd malloc realloc obj (Some (cstr t)) (uargs True (plain_pat 0 e)) =
    Some (0, enumerate 0 (plain_values e))"
proof -
  have n: "error_at rp_jsonc_error_out_of_memory p \<noteq> 0" for p by (rule error_at_nonzero) simp
  have v: "value_of jv obj = pvalue jv False e"
    using vpack_makes [OF env e(2) s buf] made by (auto simp: rp_jsonc_pack_def oom_def n)
  have u: "unpacks api dd malloc realloc True (plain_pat 0 e) obj = Some (Some (enumerate 0 (plain_values e)))"
    by (rule unpacks_plain(1) [OF ok e v V])
  have "uwf 0 (plain_pat 0 e)" using uwf_plain(1) [of jv 0 e] e(2) by simp
  from vunpack_matches [OF this t, where api = api and dd = dd and malloc = malloc and realloc = realloc and b = True and obj = obj]
  show ?thesis unfolding u rp_jsonc_unpack_def by simp
qed

theorem rp_jsonc_pack_unpack_witness:
  "rp_jsonc_unpack tree_api int_double alloc_zero realloc_zero
      (Some (JObject [(''a'', JArray [JInt 3, JString ''xy'']), (''z'', JBool True)])) (Some (cstr ''{s:[i,s!], s:b!}''))
      [UKey (Some (cstr ''a'')), USlot (Some 0), USlot (Some 1), UKey (Some (cstr ''z'')), USlot (Some 2)] =
    Some (0, [(0, OInt 3), (1, OText ''xy''), (2, OInt 1)])"
proof -
  let ?e = "PObject [([''a''], False, PArray [(False, PInt 3), (False, PText [''x'', ''y''])]), ([''z''], False, PBool True)]"
  let ?o = "Some (JObject [(''a'', JArray [JInt 3, JString ''xy'']), (''z'', JBool True)])"
  let ?s = "''{s:[i,s+], s:b}''" and ?t = "''{s:[i,s!], s:b!}''"
  have w: "plain ?e" "pwf id 1 ?e" by (simp_all add: text_wf_def STACKCOUNT_def)
  have s: "no_nul ?s" "filter (\<lambda>c. c \<notin> set ignore_all) ?s = render ?e" by (simp_all add: ignore_all_def render_text_def star_def)
  have t: "no_nul ?t" "filter (\<lambda>c. c \<notin> set ignore_all) ?t = urender (plain_pat 0 ?e)" by (simp_all add: ignore_all_def uend_text_def)
  have made: "rp_jsonc_pack tree_api alloc_zero realloc_zero (replicate 256 NUL) (Some (cstr ?s)) (args_of ?e) = Some (0, ?o)"
  proof -
    have "pvalue id False ?e = the ?o" by (simp add: starred_def kept_def)
    moreover have "value_of id x = the ?o \<longleftrightarrow> x = ?o" for x :: "int json option" by (cases x) auto
    moreover obtain x where "rp_jsonc_vpack tree_api alloc_zero realloc_zero (replicate 256 NUL) (Some (cstr ?s)) (args_of ?e) = Some (0, x)"
      "value_of id x = pvalue id False ?e"
      using vpack_makes [OF tree_env w(2) s length_replicate, of NUL] unfolding oom_def not_True_eq_False simp_thms by blast
    ultimately show ?thesis unfolding rp_jsonc_pack_def by metis
  qed
  have v: "valid tree_ok ?o" by (simp add: tree_ok_def)
  have a: "uargs True (plain_pat 0 ?e) =
      [UKey (Some (cstr ''a'')), USlot (Some 0), USlot (Some 1), UKey (Some (cstr ''z'')), USlot (Some 2)]"
    by (simp add: slots_def)
  have "enumerate 0 (plain_values ?e) = [(0, OInt 3), (1, OText ''xy''), (2, OInt 1)]" by simp
  then show ?thesis
    using rp_jsonc_pack_unpack [OF tree_env tree_api_ok w s length_replicate t made v, of int_double] unfolding a by simp
qed

end
