(* ===== verification/EvMgr.thy ===== *)
theory EvMgr
  imports Prelude "HOL-Library.While_Combinator" "HOL-Library.Sublist"
begin

unbundle bit_operations_syntax

text \<open>
  \<open>src/sandbox/ev-mgr.c\<close>: the manager of events on file descriptors, of timers and of preparation
  callbacks, with the wake-up by an \<open>eventfd\<close>.

  The state has the manager, \<open>None\<close> when it is released, and the items by their addresses. The linked
  lists are the lists of the addresses. An address is never given twice, so a use after a release is always
  seen, as \<open>None\<close>. The kernel is a state of a type \<open>'k\<close> with the record \<open>ev_sys\<close> of its calls, and
  the callbacks are the record \<open>ev_cbs\<close>: they may do anything to the whole state.
\<close>

subsection \<open>State\<close>

definition X_EINTR :: int where "X_EINTR = - 4"
definition X_ENOTSUP :: int where "X_ENOTSUP = - 95"
definition EPOLLIN :: "32 word" where "EPOLLIN = 1"
definition EPOLLHUP :: "32 word" where "EPOLLHUP = 0x10"
definition TIME_MS_MAX :: "64 word" where "TIME_MS_MAX = - 1"
definition DEFAULT_PERIOD_MS :: "32 word" where "DEFAULT_PERIOD_MS = 1000"

text \<open>The field \<open>mgr\<close> of an item is the manager, or null once it is released.\<close>

record ev_fd =
  fd_mgr :: bool
  fd_handler :: nat
  fd_closure :: nat
  fd_fd :: int
  fd_events :: "32 word"
  fd_refcount :: "16 word"
  fd_is_active :: bool
  fd_is_set :: bool
  fd_has_changed :: bool
  fd_is_deleted :: bool
  fd_auto_close :: bool
  fd_auto_unref :: bool

record ev_timer =
  tm_mgr :: bool
  tm_handler :: nat
  tm_closure :: nat
  tm_next_ms :: "64 word"
  tm_accuracy_ms :: "32 word"
  tm_period_ms :: "32 word"
  tm_decount :: "32 word"
  tm_refcount :: "16 word"
  tm_is_active :: bool
  tm_is_deleted :: bool
  tm_auto_unref :: bool

record ev_prepare =
  pr_mgr :: bool
  pr_handler :: nat
  pr_closure :: nat
  pr_refcount :: "16 word"

datatype ev_state = Idle | Preparing | Ready | Waiting | Pending | Dispatching

text \<open>\<open>data.ptr\<close> of an event: null for the timer, an item, or the manager for the wake-up.\<close>

datatype ev_ptr = PTimer | PFd nat | PMgr

record ev_mgr =
  mg_holder :: "nat option"
  mg_efds :: "nat list"
  mg_timers :: "nat list"
  mg_preparers :: "nat list"
  mg_event_ptr :: ev_ptr
  mg_event_events :: "32 word"
  mg_eventfd :: int
  mg_epollfd :: int
  mg_timerfd :: int
  mg_last_timer :: "64 word"
  mg_refcount :: "16 word"
  mg_state :: ev_state
  mg_efds_changed :: bool
  mg_efds_cleanup :: bool
  mg_timers_cleanup :: bool
  mg_preparers_cleanup :: bool

record 'k evst =
  ev_mgr :: "ev_mgr option"
  ev_fds :: "nat \<Rightarrow> ev_fd option"
  ev_timers :: "nat \<Rightarrow> ev_timer option"
  ev_preps :: "nat \<Rightarrow> ev_prepare option"
  ev_fresh :: nat
  ev_kern :: 'k

text \<open>
  The calls of the kernel. \<open>es_malloc\<close> tells if a block is got and gives what the block
  has where the count of references is; \<open>es_clock\<close> gives seconds and nanoseconds.
\<close>

datatype epoll_op = EPOLL_CTL_ADD | EPOLL_CTL_MOD | EPOLL_CTL_DEL

record 'k ev_sys =
  es_malloc :: "'k \<Rightarrow> (bool \<times> 16 word) \<times> 'k"
  es_epoll_ctl :: "int \<Rightarrow> epoll_op \<Rightarrow> int \<Rightarrow> (ev_ptr \<times> 32 word) option \<Rightarrow> 'k \<Rightarrow> int \<times> 'k"
  es_epoll_wait :: "int \<Rightarrow> int \<Rightarrow> 'k \<Rightarrow> (int \<times> ev_ptr \<times> 32 word) \<times> 'k"
  es_epoll_create :: "'k \<Rightarrow> int \<times> 'k"
  es_eventfd :: "'k \<Rightarrow> int \<times> 'k"
  es_timerfd_create :: "'k \<Rightarrow> int \<times> 'k"
  es_timerfd_settime :: "int \<Rightarrow> nat \<times> nat \<Rightarrow> 'k \<Rightarrow> int \<times> 'k"
  es_close :: "int \<Rightarrow> 'k \<Rightarrow> unit \<times> 'k"
  es_read :: "int \<Rightarrow> 'k \<Rightarrow> (int \<times> 64 word) \<times> 'k"
  es_write :: "int \<Rightarrow> 64 word \<Rightarrow> 'k \<Rightarrow> unit \<times> 'k"
  es_clock :: "'k \<Rightarrow> (nat \<times> nat) \<times> 'k"
  es_time :: "'k \<Rightarrow> 64 word \<times> 'k"
  es_errno :: "'k \<Rightarrow> int"

text \<open>The callbacks: the handler, the item and the values it gets.\<close>

record 'k ev_cbs =
  cb_fd :: "nat \<Rightarrow> nat \<Rightarrow> int \<Rightarrow> 32 word \<Rightarrow> nat \<Rightarrow> 'k evst \<Rightarrow> 'k evst option"
  cb_timer :: "nat \<Rightarrow> nat \<Rightarrow> nat \<Rightarrow> int \<Rightarrow> 'k evst \<Rightarrow> 'k evst option"
  cb_prepare :: "nat \<Rightarrow> nat \<Rightarrow> nat \<Rightarrow> 'k evst \<Rightarrow> 'k evst option"

definition sys_call :: "('k \<Rightarrow> 'r \<times> 'k) \<Rightarrow> 'k evst \<Rightarrow> 'r \<times> 'k evst" where
  "sys_call f st = (let (r, k) = f (ev_kern st) in (r, st\<lparr>ev_kern := k\<rparr>))"

definition upd_mgr :: "(ev_mgr \<Rightarrow> ev_mgr) \<Rightarrow> 'k evst \<Rightarrow> 'k evst option" where
  "upd_mgr f st = do { m \<leftarrow> ev_mgr st; Some (st\<lparr>ev_mgr := Some (f m)\<rparr>) }"

definition upd_fd :: "nat \<Rightarrow> (ev_fd \<Rightarrow> ev_fd) \<Rightarrow> 'k evst \<Rightarrow> 'k evst option" where
  "upd_fd a f st = do { e \<leftarrow> ev_fds st a; Some (st\<lparr>ev_fds := (ev_fds st)(a \<mapsto> f e)\<rparr>) }"

definition upd_timer :: "nat \<Rightarrow> (ev_timer \<Rightarrow> ev_timer) \<Rightarrow> 'k evst \<Rightarrow> 'k evst option" where
  "upd_timer a f st = do { t \<leftarrow> ev_timers st a; Some (st\<lparr>ev_timers := (ev_timers st)(a \<mapsto> f t)\<rparr>) }"

definition upd_prep :: "nat \<Rightarrow> (ev_prepare \<Rightarrow> ev_prepare) \<Rightarrow> 'k evst \<Rightarrow> 'k evst option" where
  "upd_prep a f st = do { p \<leftarrow> ev_preps st a; Some (st\<lparr>ev_preps := (ev_preps st)(a \<mapsto> f p)\<rparr>) }"

text \<open>The manager of an item, when it is not null.\<close>

definition item_epollfd :: "bool \<Rightarrow> 'k evst \<Rightarrow> int option" where
  "item_epollfd linked st = (if linked then map_option mg_epollfd (ev_mgr st) else None)"

subsection \<open>File descriptors\<close>

definition ev_mgr_add_fd ::
  "'k ev_sys \<Rightarrow> int \<Rightarrow> 32 word \<Rightarrow> nat \<Rightarrow> nat \<Rightarrow> bool \<Rightarrow> bool \<Rightarrow> 'k evst \<Rightarrow> (int \<times> nat option \<times> 'k evst) option" where
  "ev_mgr_add_fd sys fd events handler closure autounref autoclose st = do {
     let ((ok, _), st) = sys_call (es_malloc sys) st;
     if \<not> ok then Some (X_ENOMEM, None, st)
     else do {
       let a = ev_fresh st;
       let efd = \<lparr>fd_mgr = True, fd_handler = handler, fd_closure = closure, fd_fd = fd, fd_events = events, fd_refcount = 1,
         fd_is_active = True, fd_is_set = False, fd_has_changed = False, fd_is_deleted = False,
         fd_auto_close = autoclose, fd_auto_unref = autounref\<rparr>;
       st \<leftarrow> upd_mgr (\<lambda>m. m\<lparr>mg_efds := a # mg_efds m, mg_efds_changed := True\<rparr>) st;
       Some (0, Some a, st\<lparr>ev_fds := (ev_fds st)(a \<mapsto> efd), ev_fresh := a + 1\<rparr>)
     }
   }"

definition ev_fd_addref :: "nat option \<Rightarrow> 'k evst \<Rightarrow> 'k evst option" where
  "ev_fd_addref efd st = (case efd of None \<Rightarrow> Some st | Some a \<Rightarrow> upd_fd a (\<lambda>e. e\<lparr>fd_refcount := fd_refcount e + 1\<rparr>) st)"

definition ev_fd_unref :: "'k ev_sys \<Rightarrow> nat option \<Rightarrow> 'k evst \<Rightarrow> 'k evst option" where
  "ev_fd_unref sys efd st =
     (case efd of None \<Rightarrow> Some st
      | Some a \<Rightarrow> do {
          st \<leftarrow> upd_fd a (\<lambda>e. e\<lparr>fd_refcount := fd_refcount e - 1\<rparr>) st;
          e \<leftarrow> ev_fds st a;
          if fd_refcount e \<noteq> 0 then Some st
          else do {
            st \<leftarrow> (if fd_is_active e \<and> fd_is_set e then do {
                ep \<leftarrow> item_epollfd (fd_mgr e) st;
                let (rc, st) = sys_call (es_epoll_ctl sys ep EPOLL_CTL_DEL (fd_fd e) None) st;
                if rc = 0 then upd_fd a (\<lambda>e. e\<lparr>fd_is_set := False\<rparr>) st else Some st
              } else Some st);
            st \<leftarrow> upd_fd a (\<lambda>e. e\<lparr>fd_is_active := False, fd_is_deleted := True\<rparr>) st;
            if fd_mgr e then upd_mgr (\<lambda>m. m\<lparr>mg_efds_cleanup := True\<rparr>) st
            else do {
              let (_, st) = (if fd_auto_close e \<and> 0 \<le> fd_fd e then sys_call (es_close sys (fd_fd e)) st else ((), st));
              Some (st\<lparr>ev_fds := (ev_fds st)(a := None)\<rparr>)
            }
          }
        })"

definition ev_fd_fd :: "nat \<Rightarrow> 'k evst \<Rightarrow> int option" where
  "ev_fd_fd a st = map_option fd_fd (ev_fds st a)"

definition ev_fd_events :: "nat \<Rightarrow> 'k evst \<Rightarrow> 32 word option" where
  "ev_fd_events a st = map_option fd_events (ev_fds st a)"

definition ev_fd_set_events :: "'k ev_sys \<Rightarrow> nat \<Rightarrow> 32 word \<Rightarrow> 'k evst \<Rightarrow> 'k evst option" where
  "ev_fd_set_events sys a events st = do {
     e \<leftarrow> ev_fds st a;
     if fd_events e = events then Some st
     else do {
       st \<leftarrow> upd_fd a (\<lambda>e. e\<lparr>fd_events := events\<rparr>) st;
       (rc, st) \<leftarrow>
         (if fd_is_active e then do {
            ep \<leftarrow> item_epollfd (fd_mgr e) st;
            if fd_is_set e then Some (sys_call (es_epoll_ctl sys ep EPOLL_CTL_MOD (fd_fd e) (Some (PFd a, events))) st)
            else do {
              let (rc, st) = sys_call (es_epoll_ctl sys ep EPOLL_CTL_ADD (fd_fd e) (Some (PFd a, events))) st;
              st \<leftarrow> (if rc = 0 then upd_fd a (\<lambda>e. e\<lparr>fd_is_set := True\<rparr>) st else Some st);
              Some (rc, st)
            }
          }
          else if fd_is_set e then do {
            ep \<leftarrow> item_epollfd (fd_mgr e) st;
            let (rc, st) = sys_call (es_epoll_ctl sys ep EPOLL_CTL_DEL (fd_fd e) None) st;
            st \<leftarrow> (if rc = 0 then upd_fd a (\<lambda>e. e\<lparr>fd_is_set := False\<rparr>) st else Some st);
            Some (rc, st)
          }
          else Some (0, st));
       if rc < 0 then do {
         st \<leftarrow> upd_fd a (\<lambda>e. e\<lparr>fd_has_changed := True\<rparr>) st;
         if fd_mgr e then upd_mgr (\<lambda>m. m\<lparr>mg_efds_changed := True\<rparr>) st else None
       }
       else Some st
     }
   }"

definition ev_fd_set_handler :: "nat \<Rightarrow> nat \<Rightarrow> nat \<Rightarrow> 'k evst \<Rightarrow> 'k evst option" where
  "ev_fd_set_handler a handler closure st = upd_fd a (\<lambda>e. e\<lparr>fd_handler := handler, fd_closure := closure\<rparr>) st"

definition fd_dispatch :: "'k ev_sys \<Rightarrow> 'k ev_cbs \<Rightarrow> nat \<Rightarrow> 32 word \<Rightarrow> 'k evst \<Rightarrow> 'k evst option" where
  "fd_dispatch sys cbs a events st = do {
     e \<leftarrow> ev_fds st a;
     st \<leftarrow> cb_fd cbs (fd_handler e) a (fd_fd e) events (fd_closure e) st;
     if events AND EPOLLHUP \<noteq> 0 then do {
       e \<leftarrow> ev_fds st a;
       st \<leftarrow> (if 0 \<le> fd_fd e then do {
           st \<leftarrow> (if fd_is_set e \<and> (fd_auto_close e \<or> fd_auto_unref e) then do {
               st \<leftarrow> upd_fd a (\<lambda>e. e\<lparr>fd_is_set := False, fd_is_active := False\<rparr>) st;
               if fd_mgr e then do {
                 ep \<leftarrow> item_epollfd True st;
                 Some (snd (sys_call (es_epoll_ctl sys ep EPOLL_CTL_DEL (fd_fd e) None) st))
               } else Some st
             } else Some st);
           if fd_auto_close e then do {
             let (_, st) = sys_call (es_close sys (fd_fd e)) st;
             upd_fd a (\<lambda>e. e\<lparr>fd_fd := - 1\<rparr>) st
           } else Some st
         } else Some st);
       if fd_auto_unref e then ev_fd_unref sys (Some a) st else Some st
     }
     else Some st
   }"

text \<open>The last failure of \<open>epoll_ctl\<close> is what is returned.\<close>

fun efds_prepare_loop :: "'k ev_sys \<Rightarrow> int \<Rightarrow> nat list \<Rightarrow> int \<Rightarrow> 'k evst \<Rightarrow> (int \<times> 'k evst) option" where
  "efds_prepare_loop sys ep [] rc st = Some (rc, st)"
| "efds_prepare_loop sys ep (a # as) rc st = do {
     e \<leftarrow> ev_fds st a;
     if fd_is_active e then
       (if \<not> fd_is_set e then do {
          st \<leftarrow> upd_fd a (\<lambda>e. e\<lparr>fd_is_set := True, fd_has_changed := False\<rparr>) st;
          let (s, st) = sys_call (es_epoll_ctl sys ep EPOLL_CTL_ADD (fd_fd e) (Some (PFd a, fd_events e))) st;
          efds_prepare_loop sys ep as (if s < 0 then s else rc) st
        }
        else if fd_has_changed e then do {
          st \<leftarrow> upd_fd a (\<lambda>e. e\<lparr>fd_has_changed := False\<rparr>) st;
          let (s, st) = sys_call (es_epoll_ctl sys ep EPOLL_CTL_MOD (fd_fd e) (Some (PFd a, fd_events e))) st;
          efds_prepare_loop sys ep as (if s < 0 then s else rc) st
        }
        else efds_prepare_loop sys ep as rc st)
     else if fd_is_set e then do {
       st \<leftarrow> upd_fd a (\<lambda>e. e\<lparr>fd_is_set := False, fd_has_changed := False\<rparr>) st;
       let (s, st) = sys_call (es_epoll_ctl sys ep EPOLL_CTL_DEL (fd_fd e) None) st;
       efds_prepare_loop sys ep as (if s < 0 then s else rc) st
     }
     else efds_prepare_loop sys ep as rc st
   }"

definition efds_prepare :: "'k ev_sys \<Rightarrow> 'k evst \<Rightarrow> (int \<times> 'k evst) option" where
  "efds_prepare sys st = do {
     m \<leftarrow> ev_mgr st;
     if \<not> mg_efds_changed m then Some (0, st)
     else do {
       st \<leftarrow> upd_mgr (\<lambda>m. m\<lparr>mg_efds_changed := False\<rparr>) st;
       efds_prepare_loop sys (mg_epollfd m) (mg_efds m) 0 st
     }
   }"

text \<open>The result is the list of what is kept.\<close>

fun efds_sweep :: "'k ev_sys \<Rightarrow> int \<Rightarrow> nat list \<Rightarrow> 'k evst \<Rightarrow> (nat list \<times> 'k evst) option" where
  "efds_sweep sys ep [] st = Some ([], st)"
| "efds_sweep sys ep (a # as) st = do {
     e \<leftarrow> ev_fds st a;
     if fd_is_deleted e then do {
       let (_, st) = (if fd_is_set e then sys_call (es_epoll_ctl sys ep EPOLL_CTL_DEL (fd_fd e) None) st else (0, st));
       let (_, st) = (if fd_auto_close e \<and> 0 \<le> fd_fd e then sys_call (es_close sys (fd_fd e)) st else ((), st));
       efds_sweep sys ep as (st\<lparr>ev_fds := (ev_fds st)(a := None)\<rparr>)
     }
     else do { (kept, st) \<leftarrow> efds_sweep sys ep as st; Some (a # kept, st) }
   }"

definition efds_cleanup :: "'k ev_sys \<Rightarrow> 'k evst \<Rightarrow> 'k evst option" where
  "efds_cleanup sys st = do {
     m \<leftarrow> ev_mgr st;
     if mg_efds_cleanup m then do {
       (kept, st) \<leftarrow> efds_sweep sys (mg_epollfd m) (mg_efds m) st;
       upd_mgr (\<lambda>m. m\<lparr>mg_efds := kept, mg_efds_cleanup := False\<rparr>) st
     }
     else Some st
   }"

subsection \<open>Timers\<close>

fun timers_sweep :: "nat list \<Rightarrow> 'k evst \<Rightarrow> (nat list \<times> 'k evst) option" where
  "timers_sweep [] st = Some ([], st)"
| "timers_sweep (a # as) st = do {
     t \<leftarrow> ev_timers st a;
     if tm_is_deleted t then timers_sweep as (st\<lparr>ev_timers := (ev_timers st)(a := None)\<rparr>)
     else do { (kept, st) \<leftarrow> timers_sweep as st; Some (a # kept, st) }
   }"

definition timers_cleanup :: "'k evst \<Rightarrow> 'k evst option" where
  "timers_cleanup st = do {
     m \<leftarrow> ev_mgr st;
     if mg_timers_cleanup m then do {
       (kept, st) \<leftarrow> timers_sweep (mg_timers m) st;
       upd_mgr (\<lambda>m. m\<lparr>mg_timers := kept, mg_timers_cleanup := False\<rparr>) st
     }
     else Some st
   }"

definition now_ms :: "'k ev_sys \<Rightarrow> 'k evst \<Rightarrow> 64 word \<times> 'k evst" where
  "now_ms sys st = (let ((sec, nsec), st) = sys_call (es_clock sys) st in (of_nat sec * 1000 + of_nat nsec div 1000000, st))"

definition timer_arm :: "'k ev_sys \<Rightarrow> 64 word \<Rightarrow> 'k evst \<Rightarrow> (int \<times> 'k evst) option" where
  "timer_arm sys when_ms st = do {
     m \<leftarrow> ev_mgr st;
     if when_ms = mg_last_timer m then Some (0, st)
     else do {
       (rc, st) \<leftarrow>
         (if mg_timerfd m < 0 then do {
            let (tfd, st) = sys_call (es_timerfd_create sys) st;
            st \<leftarrow> upd_mgr (\<lambda>m. m\<lparr>mg_timerfd := tfd\<rparr>) st;
            if tfd < 0 then Some (- es_errno sys (ev_kern st), st)
            else do {
              let (rc, st) = sys_call (es_epoll_ctl sys (mg_epollfd m) EPOLL_CTL_ADD tfd (Some (PTimer, EPOLLIN))) st;
              if rc < 0 then do {
                let e = - es_errno sys (ev_kern st);
                let (_, st) = sys_call (es_close sys tfd) st;
                st \<leftarrow> upd_mgr (\<lambda>m. m\<lparr>mg_timerfd := - 1\<rparr>) st;
                Some (e, st)
              }
              else Some (0, st)
            }
          } else Some (0, st));
       if rc < 0 then Some (rc, st)
       else do {
         m \<leftarrow> ev_mgr st;
         let (rc, st) = sys_call (es_timerfd_settime sys (mg_timerfd m)
           (unat (when_ms div 1000), 1000000 * unat (when_ms mod 1000))) st;
         if rc < 0 then Some (- es_errno sys (ev_kern st), st)
         else do {
           st \<leftarrow> upd_mgr (\<lambda>m. m\<lparr>mg_last_timer := when_ms\<rparr>) st;
           Some (0, st)
         }
       }
     }
   }"

text \<open>The slice of time of the next event: \<open>lower\<close> is 0 when there is none.\<close>

fun timer_slice :: "ev_timer list \<Rightarrow> 64 word \<Rightarrow> 64 word \<Rightarrow> 64 word \<times> 64 word" where
  "timer_slice [] lower upper = (lower, upper)"
| "timer_slice (t # ts) lower upper =
     (if tm_is_active t then
        let lo = tm_next_ms t in
        if lo \<le> upper then
          let up = lo + ucast (tm_accuracy_ms t) in
          if up \<le> lower then timer_slice ts lo up
          else timer_slice ts (if lower < lo then lo else lower) (if up < upper then up else upper)
        else timer_slice ts lower upper
      else timer_slice ts lower upper)"

fun all_some :: "'a option list \<Rightarrow> 'a list option" where
  "all_some [] = Some []"
| "all_some (x # xs) = do { y \<leftarrow> x; ys \<leftarrow> all_some xs; Some (y # ys) }"

definition timer_when :: "64 word \<times> 64 word \<Rightarrow> 64 word" where
  "timer_when s = (case s of (lower, upper) \<Rightarrow> if lower \<noteq> 0 then drop_bit 1 (lower + upper) else 0)"

definition timer_set :: "'k ev_sys \<Rightarrow> 64 word \<Rightarrow> 'k evst \<Rightarrow> (int \<times> 'k evst) option" where
  "timer_set sys upper st = do {
     st \<leftarrow> timers_cleanup st;
     m \<leftarrow> ev_mgr st;
     ts \<leftarrow> all_some (map (ev_timers st) (mg_timers m));
     timer_arm sys (timer_when (timer_slice ts 0 upper)) st
   }"

text \<open>
  A pointer to a link of the list, as \<open>prvtim\<close>: the head of the list or the field \<open>next\<close> of an
  item. What it points to, and storing there the link that follows the item \<open>t\<close>.
\<close>

definition link_get :: "nat option \<Rightarrow> nat list \<Rightarrow> nat option option" where
  "link_get p xs = (case p of
      None \<Rightarrow> Some (case xs of [] \<Rightarrow> None | x # _ \<Rightarrow> Some x)
    | Some a \<Rightarrow> if a \<in> set xs then Some (case tl (dropWhile (\<lambda>x. x \<noteq> a) xs) of [] \<Rightarrow> None | x # _ \<Rightarrow> Some x) else None)"

definition link_skip :: "nat option \<Rightarrow> nat \<Rightarrow> nat list \<Rightarrow> nat list option" where
  "link_skip p t xs =
     (if t \<notin> set xs then None
      else let rest = tl (dropWhile (\<lambda>x. x \<noteq> t) xs) in
        case p of None \<Rightarrow> Some rest
        | Some a \<Rightarrow> if a \<in> set xs then Some (takeWhile (\<lambda>x. x \<noteq> a) xs @ a # rest) else None)"

text \<open>\<open>do next += period while (next <= now)\<close>; not returning is \<open>None\<close>.\<close>

definition next_after :: "64 word \<Rightarrow> 64 word \<Rightarrow> 64 word \<Rightarrow> 64 word option" where
  "next_after period now next_ms = while_option (\<lambda>n. n \<le> now) (\<lambda>n. n + period) (next_ms + period)"

text \<open>What happens to a timer after its handler.\<close>

definition timer_step :: "64 word \<Rightarrow> ev_timer \<Rightarrow> ev_timer option" where
  "timer_step now t = do {
     n \<leftarrow> next_after (ucast (tm_period_ms t)) now (tm_next_ms t);
     let t = t\<lparr>tm_next_ms := n\<rparr>;
     if tm_decount t \<noteq> 0 then do {
       let t = t\<lparr>tm_decount := tm_decount t - 1\<rparr>;
       Some (if tm_decount t = 0
             then (if tm_auto_unref t then t\<lparr>tm_is_active := False, tm_is_deleted := True\<rparr>
                   else t\<lparr>tm_is_active := False, tm_next_ms := TIME_MS_MAX\<rparr>)
             else t)
     }
     else Some t
   }"

partial_function (option) timer_dispatch_loop ::
  "'k ev_cbs \<Rightarrow> 64 word \<Rightarrow> nat option \<Rightarrow> 'k evst \<Rightarrow> 'k evst option" where
  "timer_dispatch_loop cbs now prv st = do {
     m \<leftarrow> ev_mgr st;
     cur \<leftarrow> link_get prv (mg_timers m);
     case cur of
       None \<Rightarrow> Some st
     | Some a \<Rightarrow> do {
         t \<leftarrow> ev_timers st a;
         st \<leftarrow> (if tm_is_active t \<and> tm_next_ms t \<le> now then do {
             st \<leftarrow> cb_timer cbs (tm_handler t) a (tm_closure t) (sint (tm_decount t)) st;
             t \<leftarrow> ev_timers st a;
             t \<leftarrow> timer_step now t;
             Some (st\<lparr>ev_timers := (ev_timers st)(a \<mapsto> t)\<rparr>)
           } else Some st);
         t \<leftarrow> ev_timers st a;
         if \<not> tm_is_deleted t then timer_dispatch_loop cbs now (Some a) st
         else do {
           m \<leftarrow> ev_mgr st;
           xs \<leftarrow> link_skip prv a (mg_timers m);
           st \<leftarrow> upd_mgr (\<lambda>m. m\<lparr>mg_timers := xs\<rparr>) st;
           timer_dispatch_loop cbs now prv (st\<lparr>ev_timers := (ev_timers st)(a := None)\<rparr>)
         }
       }
   }"

definition timer_dispatch :: "'k ev_sys \<Rightarrow> 'k ev_cbs \<Rightarrow> 'k evst \<Rightarrow> 'k evst option" where
  "timer_dispatch sys cbs st = (let (now, st) = now_ms sys st in timer_dispatch_loop cbs now None st)"

definition timer_event :: "'k ev_sys \<Rightarrow> 'k ev_cbs \<Rightarrow> 'k evst \<Rightarrow> (int \<times> 'k evst) option" where
  "timer_event sys cbs st = do {
     m \<leftarrow> ev_mgr st;
     let ((rc, n), st) = sys_call (es_read sys (mg_timerfd m)) st;
     if rc < 0 then Some (- es_errno sys (ev_kern st), st)
     else if n > 0 then do { st \<leftarrow> timer_dispatch sys cbs st; Some (0, st) }
     else Some (0, st)
   }"

text \<open>The count of references of a timer is not set: it is what the block has.\<close>

definition ev_mgr_add_timer ::
  "'k ev_sys \<Rightarrow> bool \<Rightarrow> 64 word \<Rightarrow> 32 word \<Rightarrow> 32 word \<Rightarrow> 32 word \<Rightarrow> 32 word \<Rightarrow> nat \<Rightarrow> nat \<Rightarrow> bool \<Rightarrow> 'k evst \<Rightarrow>
    (int \<times> nat option \<times> 'k evst) option" where
  "ev_mgr_add_timer sys absolute start_sec start_ms count period_ms accuracy_ms handler closure autounref st = do {
     let ((ok, refs), st) = sys_call (es_malloc sys) st;
     if \<not> ok then Some (X_ENOMEM, None, st)
     else do {
       let (start_sec, st) = (if absolute then (let (t, st) = sys_call (es_time sys) st in (start_sec - t, st)) else (start_sec, st));
       let (now, st) = now_ms sys st;
       let a = ev_fresh st;
       let t = \<lparr>tm_mgr = True, tm_handler = handler, tm_closure = closure,
         tm_next_ms = now + start_sec * 1000 + ucast start_ms - ucast (drop_bit 1 accuracy_ms),
         tm_accuracy_ms = (if accuracy_ms \<noteq> 0 then accuracy_ms else 1),
         tm_period_ms = (if period_ms \<noteq> 0 then period_ms else DEFAULT_PERIOD_MS),
         tm_decount = count, tm_refcount = refs, tm_is_active = True, tm_is_deleted = False, tm_auto_unref = autounref\<rparr>;
       st \<leftarrow> upd_mgr (\<lambda>m. m\<lparr>mg_timers := a # mg_timers m\<rparr>) (st\<lparr>ev_timers := (ev_timers st)(a \<mapsto> t), ev_fresh := a + 1\<rparr>);
       (rc, st) \<leftarrow> timer_set sys TIME_MS_MAX st;
       st \<leftarrow> (if rc < 0 then upd_timer a (\<lambda>t. t\<lparr>tm_is_deleted := True, tm_is_active := False\<rparr>) st else Some st);
       Some (rc, Some a, st)
     }
   }"

definition ev_timer_addref :: "nat option \<Rightarrow> 'k evst \<Rightarrow> 'k evst option" where
  "ev_timer_addref timer st =
     (case timer of None \<Rightarrow> Some st | Some a \<Rightarrow> upd_timer a (\<lambda>t. t\<lparr>tm_refcount := tm_refcount t + 1\<rparr>) st)"

definition ev_timer_unref :: "nat option \<Rightarrow> 'k evst \<Rightarrow> 'k evst option" where
  "ev_timer_unref timer st =
     (case timer of None \<Rightarrow> Some st
      | Some a \<Rightarrow> do {
          st \<leftarrow> upd_timer a (\<lambda>t. t\<lparr>tm_refcount := tm_refcount t - 1\<rparr>) st;
          t \<leftarrow> ev_timers st a;
          if tm_refcount t \<noteq> 0 then Some st
          else do {
            st \<leftarrow> upd_timer a (\<lambda>t. t\<lparr>tm_is_active := False, tm_is_deleted := True\<rparr>) st;
            if tm_mgr t then upd_mgr (\<lambda>m. m\<lparr>mg_timers_cleanup := True\<rparr>) st else None
          }
        })"

subsection \<open>Preparers\<close>

definition ev_mgr_add_prepare :: "'k ev_sys \<Rightarrow> nat \<Rightarrow> nat \<Rightarrow> 'k evst \<Rightarrow> (int \<times> nat option \<times> 'k evst) option" where
  "ev_mgr_add_prepare sys handler closure st = do {
     let ((ok, _), st) = sys_call (es_malloc sys) st;
     if \<not> ok then Some (X_ENOMEM, None, st)
     else do {
       let a = ev_fresh st;
       let p = \<lparr>pr_mgr = True, pr_handler = handler, pr_closure = closure, pr_refcount = 1\<rparr>;
       st \<leftarrow> upd_mgr (\<lambda>m. m\<lparr>mg_preparers := a # mg_preparers m\<rparr>) st;
       Some (0, Some a, st\<lparr>ev_preps := (ev_preps st)(a \<mapsto> p), ev_fresh := a + 1\<rparr>)
     }
   }"

definition ev_prepare_addref :: "nat option \<Rightarrow> 'k evst \<Rightarrow> 'k evst option" where
  "ev_prepare_addref prep st =
     (case prep of None \<Rightarrow> Some st | Some a \<Rightarrow> upd_prep a (\<lambda>p. p\<lparr>pr_refcount := pr_refcount p + 1\<rparr>) st)"

definition ev_prepare_unref :: "nat option \<Rightarrow> 'k evst \<Rightarrow> 'k evst option" where
  "ev_prepare_unref prep st =
     (case prep of None \<Rightarrow> Some st
      | Some a \<Rightarrow> do {
          st \<leftarrow> upd_prep a (\<lambda>p. p\<lparr>pr_refcount := pr_refcount p - 1\<rparr>) st;
          p \<leftarrow> ev_preps st a;
          if pr_refcount p \<noteq> 0 then Some st
          else if pr_mgr p then upd_mgr (\<lambda>m. m\<lparr>mg_preparers_cleanup := True\<rparr>) st
          else Some (st\<lparr>ev_preps := (ev_preps st)(a := None)\<rparr>)
        })"

fun preparers_sweep :: "nat list \<Rightarrow> 'k evst \<Rightarrow> (nat list \<times> 'k evst) option" where
  "preparers_sweep [] st = Some ([], st)"
| "preparers_sweep (a # as) st = do {
     p \<leftarrow> ev_preps st a;
     if pr_refcount p \<noteq> 0 then do { (kept, st) \<leftarrow> preparers_sweep as st; Some (a # kept, st) }
     else preparers_sweep as (st\<lparr>ev_preps := (ev_preps st)(a := None)\<rparr>)
   }"

definition preparers_cleanup :: "'k evst \<Rightarrow> 'k evst option" where
  "preparers_cleanup st = do {
     m \<leftarrow> ev_mgr st;
     if mg_preparers_cleanup m then do {
       (kept, st) \<leftarrow> preparers_sweep (mg_preparers m) st;
       upd_mgr (\<lambda>m. m\<lparr>mg_preparers := kept, mg_preparers_cleanup := False\<rparr>) st
     }
     else Some st
   }"

partial_function (option) preparers_prepare_loop :: "'k ev_cbs \<Rightarrow> nat option \<Rightarrow> 'k evst \<Rightarrow> 'k evst option" where
  "preparers_prepare_loop cbs prv st = do {
     m \<leftarrow> ev_mgr st;
     cur \<leftarrow> link_get prv (mg_preparers m);
     case cur of
       None \<Rightarrow> Some st
     | Some a \<Rightarrow> do {
         p \<leftarrow> ev_preps st a;
         st \<leftarrow> (if pr_refcount p \<noteq> 0 then cb_prepare cbs (pr_handler p) a (pr_closure p) st else Some st);
         preparers_prepare_loop cbs (Some a) st
       }
   }"

definition preparers_prepare :: "'k ev_cbs \<Rightarrow> 'k evst \<Rightarrow> 'k evst option" where
  "preparers_prepare cbs st = preparers_prepare_loop cbs None st"

subsection \<open>The manager\<close>

definition do_cleanup :: "'k ev_sys \<Rightarrow> 'k evst \<Rightarrow> 'k evst option" where
  "do_cleanup sys st = do { st \<leftarrow> efds_cleanup sys st; st \<leftarrow> timers_cleanup st; preparers_cleanup st }"

definition set_state :: "ev_state \<Rightarrow> 'k evst \<Rightarrow> 'k evst option" where
  "set_state s st = upd_mgr (\<lambda>m. m\<lparr>mg_state := s\<rparr>) st"

definition do_prepare :: "'k ev_sys \<Rightarrow> 'k ev_cbs \<Rightarrow> 64 word \<Rightarrow> 'k evst \<Rightarrow> (int \<times> 'k evst) option" where
  "do_prepare sys cbs wakeup_ms st = do {
     m \<leftarrow> ev_mgr st;
     if mg_state m \<noteq> Idle \<and> mg_state m \<noteq> Ready then Some (X_ENOTSUP, st)
     else do {
       st \<leftarrow> set_state Preparing st;
       st \<leftarrow> do_cleanup sys st;
       st \<leftarrow> preparers_prepare cbs st;
       (_, st) \<leftarrow> timer_set sys wakeup_ms st;
       (rc, st) \<leftarrow> efds_prepare sys st;
       st \<leftarrow> set_state Ready st;
       Some (rc, st)
     }
   }"

definition do_wait :: "'k ev_sys \<Rightarrow> int \<Rightarrow> 'k evst \<Rightarrow> (int \<times> 'k evst) option" where
  "do_wait sys timeout_ms st = do {
     m \<leftarrow> ev_mgr st;
     if mg_state m \<noteq> Ready then Some (X_ENOTSUP, st)
     else do {
       st \<leftarrow> set_state Waiting st;
       let ((rc, p, events), st) = sys_call (es_epoll_wait sys (mg_epollfd m) (if timeout_ms < 0 then - 1 else timeout_ms)) st;
       if rc < 1 then do {
         st \<leftarrow> upd_mgr (\<lambda>m. m\<lparr>mg_event_events := 0, mg_state := Idle\<rparr>) st;
         Some (if rc \<noteq> 0 then - es_errno sys (ev_kern st) else rc, st)
       }
       else do {
         st \<leftarrow> upd_mgr (\<lambda>m. m\<lparr>mg_event_ptr := p, mg_event_events := events, mg_state := Pending\<rparr>) st;
         if p = PMgr then do {
           let (_, st) = sys_call (es_read sys (mg_eventfd m)) st;
           st \<leftarrow> upd_mgr (\<lambda>m. m\<lparr>mg_event_events := 0, mg_state := Idle\<rparr>) st;
           Some (X_EINTR, st)
         }
         else Some (rc, st)
       }
     }
   }"

definition do_dispatch :: "'k ev_sys \<Rightarrow> 'k ev_cbs \<Rightarrow> 'k evst \<Rightarrow> 'k evst option" where
  "do_dispatch sys cbs st = do {
     m \<leftarrow> ev_mgr st;
     if mg_state m \<noteq> Pending then Some st
     else do {
       st \<leftarrow> set_state Dispatching st;
       st \<leftarrow> (case mg_event_ptr m of
           PTimer \<Rightarrow> map_option snd (timer_event sys cbs st)
         | PFd a \<Rightarrow> fd_dispatch sys cbs a (mg_event_events m) st
         | PMgr \<Rightarrow> None);
       set_state Idle st
     }
   }"

definition ev_mgr_wakeup :: "'k ev_sys \<Rightarrow> 'k evst \<Rightarrow> 'k evst option" where
  "ev_mgr_wakeup sys st = do { m \<leftarrow> ev_mgr st; Some (snd (sys_call (es_write sys (mg_eventfd m) 1) st)) }"

definition ev_mgr_holder :: "'k evst \<Rightarrow> nat option option" where
  "ev_mgr_holder st = map_option mg_holder (ev_mgr st)"

definition ev_mgr_try_change_holder :: "nat option \<Rightarrow> nat option \<Rightarrow> 'k evst \<Rightarrow> (nat option \<times> 'k evst) option" where
  "ev_mgr_try_change_holder holder next_holder st = do {
     st \<leftarrow> upd_mgr (\<lambda>m. if mg_holder m = holder then m\<lparr>mg_holder := next_holder\<rparr> else m) st;
     m \<leftarrow> ev_mgr st;
     Some (mg_holder m, st)
   }"

definition ev_mgr_prepare :: "'k ev_sys \<Rightarrow> 'k ev_cbs \<Rightarrow> 'k evst \<Rightarrow> (int \<times> 'k evst) option" where
  "ev_mgr_prepare sys cbs st = do_prepare sys cbs TIME_MS_MAX st"

definition ev_mgr_prepare_with_wakeup :: "'k ev_sys \<Rightarrow> 'k ev_cbs \<Rightarrow> int \<Rightarrow> 'k evst \<Rightarrow> (int \<times> 'k evst) option" where
  "ev_mgr_prepare_with_wakeup sys cbs wakeup_ms st =
     (if 0 \<le> wakeup_ms then let (now, st) = now_ms sys st in do_prepare sys cbs (now + word_of_int wakeup_ms) st
      else do_prepare sys cbs TIME_MS_MAX st)"

definition ev_mgr_wait :: "'k ev_sys \<Rightarrow> int \<Rightarrow> 'k evst \<Rightarrow> (int \<times> 'k evst) option" where
  "ev_mgr_wait sys timeout_ms st = do_wait sys timeout_ms st"

definition ev_mgr_dispatch :: "'k ev_sys \<Rightarrow> 'k ev_cbs \<Rightarrow> 'k evst \<Rightarrow> 'k evst option" where
  "ev_mgr_dispatch sys cbs st = do_dispatch sys cbs st"

definition ev_mgr_run :: "'k ev_sys \<Rightarrow> 'k ev_cbs \<Rightarrow> int \<Rightarrow> 'k evst \<Rightarrow> (int \<times> 'k evst) option" where
  "ev_mgr_run sys cbs timeout_ms st = do {
     (rc, st) \<leftarrow> do_prepare sys cbs TIME_MS_MAX st;
     if 0 \<le> rc then do {
       (rc, st) \<leftarrow> do_wait sys timeout_ms st;
       if 0 < rc then do { st \<leftarrow> do_dispatch sys cbs st; Some (rc, st) } else Some (rc, st)
     }
     else Some (rc, st)
   }"

definition ev_mgr_can_run :: "'k evst \<Rightarrow> bool option" where
  "ev_mgr_can_run st = map_option (\<lambda>m. mg_state m = Idle) (ev_mgr st)"

definition ev_mgr_recover_run :: "'k evst \<Rightarrow> 'k evst option" where
  "ev_mgr_recover_run st = set_state Idle st"

definition ev_mgr_get_fd :: "'k evst \<Rightarrow> int option" where
  "ev_mgr_get_fd st = map_option mg_epollfd (ev_mgr st)"

definition ev_mgr_create :: "'k ev_sys \<Rightarrow> 'k \<Rightarrow> int \<times> 'k evst" where
  "ev_mgr_create sys k =
     (let st = \<lparr>ev_mgr = None, ev_fds = \<lambda>_. None, ev_timers = \<lambda>_. None, ev_preps = \<lambda>_. None, ev_fresh = 0, ev_kern = k\<rparr>;
          ((ok, _), st) = sys_call (es_malloc sys) st
      in if \<not> ok then (X_ENOMEM, st)
         else let (ep, st) = sys_call (es_epoll_create sys) st
         in if ep < 0 then (- es_errno sys (ev_kern st), st)
         else let (fd, st) = sys_call (es_eventfd sys) st
         in if fd < 0 then let rc = - es_errno sys (ev_kern st); (_, st) = sys_call (es_close sys ep) st in (rc, st)
         else let (rc, st) = sys_call (es_epoll_ctl sys ep EPOLL_CTL_ADD fd (Some (PMgr, EPOLLIN))) st
         in if rc < 0 then
              let rc = - es_errno sys (ev_kern st); (_, st) = sys_call (es_close sys fd) st; (_, st) = sys_call (es_close sys ep) st
              in (rc, st)
            else (0, st\<lparr>ev_mgr := Some \<lparr>mg_holder = None, mg_efds = [], mg_timers = [], mg_preparers = [], mg_event_ptr = PTimer,
              mg_event_events = 0, mg_eventfd = fd, mg_epollfd = ep, mg_timerfd = - 1, mg_last_timer = 0, mg_refcount = 1,
              mg_state = Idle, mg_efds_changed = False, mg_efds_cleanup = False, mg_timers_cleanup = False,
              mg_preparers_cleanup = False\<rparr>\<rparr>))"

definition ev_mgr_addref :: "bool \<Rightarrow> 'k evst \<Rightarrow> 'k evst option" where
  "ev_mgr_addref mgr st = (if mgr then upd_mgr (\<lambda>m. m\<lparr>mg_refcount := mg_refcount m + 1\<rparr>) st else Some st)"

text \<open>\<open>mgr\<close> is false for the null pointer.\<close>

definition ev_mgr_unref :: "'k ev_sys \<Rightarrow> bool \<Rightarrow> 'k evst \<Rightarrow> 'k evst option" where
  "ev_mgr_unref sys mgr st =
     (if \<not> mgr then Some st
      else do {
        st \<leftarrow> do_cleanup sys st;
        st \<leftarrow> upd_mgr (\<lambda>m. m\<lparr>mg_refcount := mg_refcount m - 1\<rparr>) st;
        m \<leftarrow> ev_mgr st;
        if mg_refcount m \<noteq> 0 then Some st
        else do {
          let st = st\<lparr>
            ev_preps := (\<lambda>a. if a \<in> set (mg_preparers m) then map_option (\<lambda>p. p\<lparr>pr_mgr := False\<rparr>) (ev_preps st a) else ev_preps st a),
            ev_timers := (\<lambda>a. if a \<in> set (mg_timers m) then map_option (\<lambda>t. t\<lparr>tm_mgr := False\<rparr>) (ev_timers st a) else ev_timers st a),
            ev_fds := (\<lambda>a. if a \<in> set (mg_efds m) then map_option (\<lambda>e. e\<lparr>fd_mgr := False\<rparr>) (ev_fds st a) else ev_fds st a)\<rparr>;
          let (_, st) = sys_call (es_close sys (mg_epollfd m)) st;
          let (_, st) = sys_call (es_close sys (mg_eventfd m)) st;
          let (_, st) = (if 0 \<le> mg_timerfd m then sys_call (es_close sys (mg_timerfd m)) st else ((), st));
          Some (st\<lparr>ev_mgr := None\<rparr>)
        }
      })"

end
