(* ===== verification/EvTimers.thy ===== *)
theory EvTimers
  imports EvMgr
begin

text \<open>
  The timers of \<open>src/sandbox/ev-mgr.c\<close>: when the kernel's timer is armed (\<open>timer_set\<close>), what a dispatch of the
  timers does (\<open>timer_dispatch\<close>), and that a timer asked for a number of calls gets them.
\<close>

subsection \<open>When the timer is armed\<close>

text \<open>The window of a timer: from its time, for its accuracy.\<close>

definition window_ok :: "ev_timer \<Rightarrow> bool" where
  "window_ok t \<longleftrightarrow> 0 < tm_next_ms t \<and> 0 < tm_accuracy_ms t \<and> uint (tm_next_ms t) + uint (tm_accuracy_ms t) < 2 ^ 63"

definition deadline :: "ev_timer \<Rightarrow> int" where
  "deadline t = uint (tm_next_ms t) + uint (tm_accuracy_ms t)"

lemma uint_up:
  assumes "window_ok t"
  shows "uint (tm_next_ms t + ucast (tm_accuracy_ms t)) = deadline t"
proof -
  have "uint (ucast (tm_accuracy_ms t) :: 64 word) = uint (tm_accuracy_ms t)"
    by (simp add: unsigned_ucast_eq take_bit_int_eq_self order_less_trans [OF uint_lt2p])
  then show ?thesis using assms by (simp add: uint_word_ariths window_ok_def deadline_def take_bit_int_eq_self flip: take_bit_eq_mod)
qed

lemma timer_slice_inv:
  assumes "\<forall>t \<in> set ts. tm_is_active t \<longrightarrow> window_ok t" and "lower \<le> upper" and "lower \<noteq> 0 \<Longrightarrow> uint upper < 2 ^ 63"
    and "timer_slice ts lower upper = (l, u)"
  shows "l \<le> u \<and> u \<le> upper \<and> (l \<noteq> 0 \<longrightarrow> uint u < 2 ^ 63) \<and>
    (l = lower \<or> (\<exists>t \<in> set ts. tm_is_active t \<and> l = tm_next_ms t)) \<and>
    (l = 0 \<longrightarrow> lower = 0 \<and> (\<forall>t \<in> set ts. tm_is_active t \<longrightarrow> upper < tm_next_ms t)) \<and>
    (\<forall>t \<in> set ts. tm_is_active t \<longrightarrow> uint u \<le> deadline t)"
  using assms
proof (induction ts arbitrary: lower upper)
  case Nil
  then show ?case by auto
next
  case (Cons t ts)
  have W: "\<forall>t \<in> set ts. tm_is_active t \<longrightarrow> window_ok t" using Cons.prems(1) by simp
  let ?lo = "tm_next_ms t"
  let ?up = "?lo + ucast (tm_accuracy_ms t)"
  show ?case
  proof (cases "tm_is_active t")
    case False
    then show ?thesis using Cons.IH [OF W Cons.prems(2,3)] Cons.prems(4) by simp
  next
    case True
    have w: "window_ok t" using Cons.prems(1) True by simp
    then have lo: "?lo \<noteq> 0" and up: "uint ?up = deadline t" and b: "deadline t < 2 ^ 63" and lu: "?lo < ?up"
      using uint_up [OF w] by (auto simp: window_ok_def deadline_def word_less_def)
    show ?thesis
    proof (cases "?lo \<le> upper")
      case False
      have r: "timer_slice ts lower upper = (l, u)" using Cons.prems(4) True False by (simp add: Let_def)
      note I = Cons.IH [OF W Cons.prems(2,3) r]
      have "uint u \<le> deadline t"
      proof -
        have "uint u < uint ?lo" using I False by (simp add: word_le_def word_less_def)
        then show ?thesis using lu up by (simp add: word_less_def)
      qed
      then show ?thesis using I False by auto
    next
      case L: True
      show ?thesis
      proof (cases "?up \<le> lower")
        case U: True
        have r: "timer_slice ts ?lo ?up = (l, u)" using Cons.prems(4) True L U by (simp add: Let_def)
        have "?lo \<le> ?up" "uint ?up < 2 ^ 63" using lu up b by simp_all
        note I = Cons.IH [OF W this r]
        have "?up \<le> upper" using U Cons.prems(2) by simp
        moreover have "uint u \<le> deadline t" using I up by (simp add: word_le_def)
        ultimately show ?thesis using I lo True by auto
      next
        case U: False
        let ?l = "if lower < ?lo then ?lo else lower" and ?u = "if ?up < upper then ?up else upper"
        have r: "timer_slice ts ?l ?u = (l, u)" using Cons.prems(4) True L U by (simp add: Let_def)
        have lu': "?l \<le> ?u" using L U lu Cons.prems(2) by auto
        have u': "?u \<le> ?up" "?u \<le> upper" by auto
        have b': "uint ?u < 2 ^ 63" using u'(1) up b by (simp add: word_le_def)
        note I = Cons.IH [OF W lu' b' r]
        have "?l \<noteq> 0" using lo by (auto simp: word_gt_0)
        moreover have "uint u \<le> deadline t" using I u'(1) up by (simp add: word_le_def)
        ultimately show ?thesis using I u'(2) True by (auto split: if_splits)
      qed
    qed
  qed
qed

text \<open>The middle of a window.\<close>

lemma uint_middle:
  fixes l u :: "64 word"
  assumes "l \<le> u" and "uint u < 2 ^ 63"
  shows "uint (drop_bit 1 (l + u)) = (uint l + uint u) div 2"
proof -
  have "uint (l + u) = uint l + uint (u :: 64 word)"
    using assms by (simp add: uint_word_ariths word_le_def flip: take_bit_eq_mod)
  then show ?thesis by (simp only: drop_bit_eq_div power_one_right uint_div) simp
qed

lemma timer_when_window:
  assumes "\<forall>t \<in> set ts. tm_is_active t \<longrightarrow> window_ok t"
  shows "let w = timer_when (timer_slice ts 0 upper) in
    if \<exists>t \<in> set ts. tm_is_active t \<and> tm_next_ms t \<le> upper
    then (\<exists>t \<in> set ts. tm_is_active t \<and> tm_next_ms t \<le> w) \<and> w \<le> upper \<and> (\<forall>t \<in> set ts. tm_is_active t \<longrightarrow> uint w \<le> deadline t)
    else w = 0"
proof -
  obtain l u where s: "timer_slice ts 0 upper = (l, u)" by (cases "timer_slice ts 0 upper") auto
  note I = timer_slice_inv [OF assms _ _ s]
  show ?thesis
  proof (cases "l = 0")
    case True
    then have "\<forall>t \<in> set ts. tm_is_active t \<longrightarrow> upper < tm_next_ms t" using I by simp
    then show ?thesis using True by (force simp: s timer_when_def)
  next
    case False
    then have lu: "l \<le> u" "u \<le> upper" "uint u < 2 ^ 63" and d: "\<forall>t \<in> set ts. tm_is_active t \<longrightarrow> uint u \<le> deadline t"
      and ex: "\<exists>t \<in> set ts. tm_is_active t \<and> l = tm_next_ms t" using I by auto
    let ?w = "drop_bit 1 (l + u)"
    have w: "uint ?w = (uint l + uint u) div 2" by (rule uint_middle [OF lu(1,3)])
    have "uint l \<le> uint u" using lu(1) by (simp add: word_le_def)
    then have b: "l \<le> ?w" "?w \<le> u" unfolding word_le_def w by simp_all
    have "tm_next_ms t \<le> upper" if "l = tm_next_ms t" for t using that lu by simp
    then have e: "\<exists>t \<in> set ts. tm_is_active t \<and> tm_next_ms t \<le> upper" using ex by blast
    have "uint ?w \<le> deadline t" if "t \<in> set ts" "tm_is_active t" for t
      using d that b(2) unfolding word_le_def by force
    then show ?thesis using e ex b lu(2) False by (auto simp: s timer_when_def Let_def)
  qed
qed

text \<open>
  Property C36: the time at which \<open>timer_set\<close> arms the timer: when an active timer has its time before the bound, some
  active timer has its time reached then, the time is not after the end of the accuracy of any active timer, and not
  after the bound; when no active timer has its time before the bound the timer is not armed, even if the bound is a
  wake-up that was asked for.
\<close>

theorem timer_set_window:
  assumes "\<forall>t \<in> set ts. tm_is_active t \<longrightarrow> window_ok t"
  shows "let w = timer_when (timer_slice ts 0 upper) in
    if \<exists>t \<in> set ts. tm_is_active t \<and> tm_next_ms t \<le> upper
    then (\<exists>t \<in> set ts. tm_is_active t \<and> tm_next_ms t \<le> w) \<and> w \<le> upper \<and> (\<forall>t \<in> set ts. tm_is_active t \<longrightarrow> uint w \<le> deadline t)
    else w = 0"
  using assms by (rule timer_when_window)

definition test_timer :: "64 word \<Rightarrow> 32 word \<Rightarrow> ev_timer" where
  "test_timer n acc = \<lparr>tm_mgr = True, tm_handler = 0, tm_closure = 0, tm_next_ms = n, tm_accuracy_ms = acc, tm_period_ms = 100,
     tm_decount = 0, tm_refcount = 1, tm_is_active = True, tm_is_deleted = False, tm_auto_unref = False\<rparr>"

lemma timer_set_window_witness:
  "timer_when (timer_slice [test_timer 1000 50, test_timer 1030 100, test_timer 5000 10] 0 TIME_MS_MAX) = 1040 \<and>
   timer_when (timer_slice [test_timer 1000 50] 0 900) = 0 \<and>
   (let ts = [test_timer 1000 50, test_timer 1030 100]; w = timer_when (timer_slice ts 0 TIME_MS_MAX) in
    if \<exists>t \<in> set ts. tm_is_active t \<and> tm_next_ms t \<le> TIME_MS_MAX
    then (\<exists>t \<in> set ts. tm_is_active t \<and> tm_next_ms t \<le> w) \<and> w \<le> TIME_MS_MAX \<and> (\<forall>t \<in> set ts. tm_is_active t \<longrightarrow> uint w \<le> deadline t)
    else w = 0)"
proof (intro conjI)
  have "\<forall>t \<in> set [test_timer 1000 50, test_timer 1030 100]. tm_is_active t \<longrightarrow> window_ok t"
    by (simp add: test_timer_def window_ok_def)
  from timer_set_window [OF this, of TIME_MS_MAX]
  show "let ts = [test_timer 1000 50, test_timer 1030 100]; w = timer_when (timer_slice ts 0 TIME_MS_MAX) in
    if \<exists>t \<in> set ts. tm_is_active t \<and> tm_next_ms t \<le> TIME_MS_MAX
    then (\<exists>t \<in> set ts. tm_is_active t \<and> tm_next_ms t \<le> w) \<and> w \<le> TIME_MS_MAX \<and> (\<forall>t \<in> set ts. tm_is_active t \<longrightarrow> uint w \<le> deadline t)
    else w = 0"
    unfolding Let_def .
qed (code_simp+)

subsection \<open>Dispatching the timers\<close>

text \<open>The next time of a timer: the first of its times after now.\<close>

lemma next_after_correct:
  assumes "0 < p" and "n \<le> now" and "uint now + uint p < 2 ^ 64"
  shows "\<exists>m k. next_after p now n = Some m \<and> now < m \<and> uint m \<le> uint now + uint p \<and> uint m = uint n + int (Suc k) * uint p"
proof -
  let ?P = "\<lambda>m. (\<exists>k. uint m = uint n + int (Suc k) * uint p) \<and> uint m \<le> uint now + uint p"
  have pos: "0 < uint p" using assms(1) by (simp add: word_less_def)
  have step: "uint (m + p) = uint m + uint p" if "m \<le> now" for m
  proof -
    have "uint m + uint p < 2 ^ 64" using that assms(3) by (simp add: word_le_def)
    then show ?thesis by (simp add: uint_word_ariths flip: take_bit_eq_mod)
  qed
  have init: "?P (n + p)" using step [OF assms(2)] assms(2) by (auto simp: word_le_def intro: exI [of _ 0])
  have keep: "?P (m + p)" if P: "?P m" and le: "m \<le> now" for m
  proof -
    obtain k where "uint m = uint n + int (Suc k) * uint p" using P by blast
    then have "uint (m + p) = uint n + int (Suc (Suc k)) * uint p" using step [OF le] by (simp add: algebra_simps)
    moreover have "uint (m + p) \<le> uint now + uint p" using step [OF le] le by (simp add: word_le_def)
    ultimately show ?thesis by blast
  qed
  obtain m where m: "next_after p now n = Some m"
  proof -
    have "\<exists>m. while_option (\<lambda>m. m \<le> now) (\<lambda>m. m + p) (n + p) = Some m"
    proof (rule measure_while_option_Some [where P = ?P and f = "\<lambda>m. nat (uint now + uint p - uint m)"])
      fix m assume "?P m" "m \<le> now"
      then show "?P (m + p) \<and> nat (uint now + uint p - uint (m + p)) < nat (uint now + uint p - uint m)"
        using keep step pos by (auto simp: word_le_def)
    qed (rule init)
    then show ?thesis using that by (auto simp: next_after_def)
  qed
  have "?P m" using while_option_rule [where P = ?P, OF _ m [unfolded next_after_def] init] keep by blast
  moreover have "now < m" using while_option_stop [OF m [unfolded next_after_def]] by (simp add: not_le)
  ultimately show ?thesis using m by blast
qed

text \<open>Callbacks of timers that do not use the manager: they act on the rest of the world only.\<close>

definition outer_timer_cb :: "'k ev_cbs \<Rightarrow> (nat \<Rightarrow> nat \<Rightarrow> nat \<Rightarrow> int \<Rightarrow> 'k \<Rightarrow> 'k) \<Rightarrow> bool" where
  "outer_timer_cb cbs f \<longleftrightarrow> (\<forall>h a c d st. cb_timer cbs h a c d st = Some (st\<lparr>ev_kern := f h a c d (ev_kern st)\<rparr>))"

definition due :: "64 word \<Rightarrow> ev_timer \<Rightarrow> bool" where
  "due now t \<longleftrightarrow> tm_is_active t \<and> tm_next_ms t \<le> now"

definition ticked :: "64 word \<Rightarrow> ev_timer \<Rightarrow> ev_timer" where
  "ticked now t = (if due now t then the (timer_step now t) else t)"

definition period_ok :: "64 word \<Rightarrow> ev_timer \<Rightarrow> bool" where
  "period_ok now t \<longleftrightarrow> 0 < tm_period_ms t \<and> uint now + uint (tm_period_ms t) < 2 ^ 64"

lemma timer_step_Some:
  assumes "due now t" and "period_ok now t"
  shows "timer_step now t = Some (ticked now t)"
proof -
  have p: "uint (ucast (tm_period_ms t) :: 64 word) = uint (tm_period_ms t)"
    by (simp add: unsigned_ucast_eq take_bit_int_eq_self order_less_trans [OF uint_lt2p])
  have "\<exists>m. next_after (ucast (tm_period_ms t)) now (tm_next_ms t) = Some m"
    using next_after_correct [of "ucast (tm_period_ms t)" "tm_next_ms t" now] assms p
    by (auto simp: due_def period_ok_def word_less_def)
  then have "\<exists>t'. timer_step now t = Some t'" by (auto simp: timer_step_def Let_def)
  then show ?thesis using assms(1) by (auto simp: ticked_def)
qed

definition call_timer :: "(nat \<Rightarrow> nat \<Rightarrow> nat \<Rightarrow> int \<Rightarrow> 'k \<Rightarrow> 'k) \<Rightarrow> 64 word \<Rightarrow> (nat \<Rightarrow> ev_timer option) \<Rightarrow> nat \<Rightarrow> 'k \<Rightarrow> 'k" where
  "call_timer f now tms a = (let t = the (tms a) in
     if due now t then f (tm_handler t) a (tm_closure t) (sint (tm_decount t)) else id)"

text \<open>The state after the dispatch of the timers \<open>xs\<close>, those of \<open>pre\<close> being done.\<close>

definition dispatched :: "(nat \<Rightarrow> nat \<Rightarrow> nat \<Rightarrow> int \<Rightarrow> 'k \<Rightarrow> 'k) \<Rightarrow> 64 word \<Rightarrow> nat list \<Rightarrow> nat list \<Rightarrow> 'k evst \<Rightarrow> 'k evst" where
  "dispatched f now pre xs st = st\<lparr>
     ev_mgr := map_option (\<lambda>m. m\<lparr>mg_timers := pre @ filter (\<lambda>a. \<not> tm_is_deleted (ticked now (the (ev_timers st a)))) xs\<rparr>) (ev_mgr st),
     ev_timers := (\<lambda>a. if a \<in> set xs then (let t = ticked now (the (ev_timers st a)) in if tm_is_deleted t then None else Some t)
       else ev_timers st a),
     ev_kern := fold (call_timer f now (ev_timers st)) xs (ev_kern st)\<rparr>"

definition link_last :: "nat list \<Rightarrow> nat option" where
  "link_last pre = (if pre = [] then None else Some (last pre))"

lemma link_get_last:
  assumes "distinct (pre @ xs)"
  shows "link_get (link_last pre) (pre @ xs) = Some (case xs of [] \<Rightarrow> None | x # _ \<Rightarrow> Some x)"
proof (cases pre rule: rev_cases)
  case (snoc p a)
  have "dropWhile (\<lambda>x. x \<noteq> a) (p @ a # xs) = a # xs" using assms snoc by (subst dropWhile_append2) auto
  then show ?thesis using snoc by (simp add: link_get_def link_last_def)
qed (simp add: link_get_def link_last_def)

lemma link_skip_last:
  assumes "distinct (pre @ x # xs)"
  shows "link_skip (link_last pre) x (pre @ x # xs) = Some (pre @ xs)"
proof -
  have D: "dropWhile (\<lambda>y. y \<noteq> x) (pre @ x # xs) = x # xs" using assms by (subst dropWhile_append2) auto
  show ?thesis
  proof (cases pre rule: rev_cases)
    case (snoc p a)
    have "takeWhile (\<lambda>y. y \<noteq> a) (p @ a # x # xs) = p" using assms snoc by (subst takeWhile_append2) auto
    then show ?thesis using snoc D by (simp add: link_skip_def link_last_def)
  qed (use D in \<open>simp add: link_skip_def link_last_def\<close>)
qed

lemma timer_dispatch_loop_eq:
  assumes cb: "outer_timer_cb cbs f"
  shows "ev_mgr st = Some m \<Longrightarrow> mg_timers m = pre @ xs \<Longrightarrow> distinct (pre @ xs) \<Longrightarrow>
    \<forall>a \<in> set xs. \<exists>t. ev_timers st a = Some t \<and> period_ok now t \<Longrightarrow>
    timer_dispatch_loop cbs now (link_last pre) st = Some (dispatched f now pre xs st)"
proof (induction xs arbitrary: pre st m)
  case Nil
  have "dispatched f now pre [] st = st" using Nil by (simp add: dispatched_def)
  then show ?case using Nil link_get_last [of pre "[]"] by (subst timer_dispatch_loop.simps) simp
next
  case (Cons a xs)
  obtain t where t: "ev_timers st a = Some t" "period_ok now t" using Cons.prems(4) by auto
  let ?t = "ticked now t"
  define st1 where "st1 = st\<lparr>ev_timers := (ev_timers st)(a \<mapsto> ?t), ev_kern := call_timer f now (ev_timers st) a (ev_kern st)\<rparr>"
  have body: "(if tm_is_active t \<and> tm_next_ms t \<le> now then do {
             st \<leftarrow> cb_timer cbs (tm_handler t) a (tm_closure t) (sint (tm_decount t)) st;
             t \<leftarrow> ev_timers st a;
             t \<leftarrow> timer_step now t;
             Some (st\<lparr>ev_timers := (ev_timers st)(a \<mapsto> t)\<rparr>)
           } else Some st) = Some st1"
  proof (cases "due now t")
    case True
    then show ?thesis using t cb timer_step_Some [OF True t(2)]
      by (simp add: st1_def outer_timer_cb_def call_timer_def Let_def due_def)
  next
    case False
    then have "st1 = st" using t by (simp add: st1_def ticked_def call_timer_def Let_def fun_upd_idem)
    then show ?thesis using False by (auto simp: due_def)
  qed
  have g: "link_get (link_last pre) (mg_timers m) = Some (Some a)"
    using Cons.prems(2) link_get_last [OF Cons.prems(3)] by simp
  have m1: "ev_mgr st1 = Some m" "ev_timers st1 a = Some ?t" using Cons.prems(1) by (simp_all add: st1_def)
  have o1: "ev_timers st1 b = ev_timers st b" if "b \<in> set xs" for b using that Cons.prems(3) by (auto simp: st1_def)
  have E: "timer_dispatch_loop cbs now (link_last pre) st =
      (if \<not> tm_is_deleted ?t then timer_dispatch_loop cbs now (Some a) st1
       else timer_dispatch_loop cbs now (link_last pre) (st1\<lparr>ev_mgr := Some (m\<lparr>mg_timers := pre @ xs\<rparr>), ev_timers := (ev_timers st1)(a := None)\<rparr>))"
    using Cons.prems(1,2) g t body m1 link_skip_last [OF Cons.prems(3)]
    by (subst timer_dispatch_loop.simps) (simp add: upd_mgr_def)
  have due_eq: "call_timer f now (ev_timers st) b = call_timer f now (ev_timers st') b" if "ev_timers st' b = ev_timers st b" for b st'
    using that by (simp add: call_timer_def)
  have F: "fold (call_timer f now (ev_timers st')) xs k = fold (call_timer f now (ev_timers st)) xs k"
    if "\<forall>b \<in> set xs. ev_timers st' b = ev_timers st b" for st' :: "'a evst" and k
    by (rule fold_cong) (use that in \<open>auto simp: call_timer_def\<close>)
  have flt: "filter (\<lambda>b. \<not> tm_is_deleted (ticked now (the (ev_timers st' b)))) xs = filter (\<lambda>b. \<not> tm_is_deleted (ticked now (the (ev_timers st b)))) xs"
    if "\<forall>b \<in> set xs. ev_timers st' b = ev_timers st b" for st' :: "'a evst"
    by (rule filter_cong) (use that in auto)
  show ?case
  proof (cases "tm_is_deleted ?t")
    case False
    have "timer_dispatch_loop cbs now (link_last (pre @ [a])) st1 = Some (dispatched f now (pre @ [a]) xs st1)"
      by (rule Cons.IH [of st1 m]) (use Cons.prems m1 o1 in auto)
    moreover have "dispatched f now (pre @ [a]) xs st1 = dispatched f now pre (a # xs) st"
      using False Cons.prems(1,3) t F [of st1] flt [of st1] o1 by (auto simp: dispatched_def st1_def fun_eq_iff)
    ultimately show ?thesis using E False by (simp add: link_last_def)
  next
    case True
    let ?st2 = "st1\<lparr>ev_mgr := Some (m\<lparr>mg_timers := pre @ xs\<rparr>), ev_timers := (ev_timers st1)(a := None)\<rparr>"
    have o2: "\<forall>b \<in> set xs. ev_timers ?st2 b = ev_timers st b" using o1 Cons.prems(3) by auto
    have "timer_dispatch_loop cbs now (link_last pre) ?st2 = Some (dispatched f now pre xs ?st2)"
      by (rule Cons.IH) (use Cons.prems o2 in auto)
    moreover have "dispatched f now pre xs ?st2 = dispatched f now pre (a # xs) st"
      using True Cons.prems(1,3) t F [OF o2] flt [OF o2] by (auto simp: dispatched_def st1_def fun_eq_iff)
    ultimately show ?thesis using E True by simp
  qed
qed

text \<open>What is done to a timer whose time is reached.\<close>

lemma ticked_due:
  assumes "due now t" and "period_ok now t"
  shows "(tm_decount t = 1 \<longrightarrow> \<not> tm_is_active (ticked now t) \<and> tm_decount (ticked now t) = 0 \<and>
      (if tm_auto_unref t then tm_is_deleted (ticked now t) else tm_is_deleted (ticked now t) = tm_is_deleted t \<and> tm_next_ms (ticked now t) = TIME_MS_MAX)) \<and>
    (tm_decount t \<noteq> 1 \<longrightarrow> tm_is_active (ticked now t) \<and> tm_is_deleted (ticked now t) = tm_is_deleted t \<and>
      tm_decount (ticked now t) = (if tm_decount t = 0 then 0 else tm_decount t - 1) \<and>
      now < tm_next_ms (ticked now t) \<and> uint (tm_next_ms (ticked now t)) \<le> uint now + uint (tm_period_ms t) \<and>
      (\<exists>k. uint (tm_next_ms (ticked now t)) = uint (tm_next_ms t) + int (Suc k) * uint (tm_period_ms t))) \<and>
    tm_period_ms (ticked now t) = tm_period_ms t"
proof -
  have p: "uint (ucast (tm_period_ms t) :: 64 word) = uint (tm_period_ms t)"
    by (simp add: unsigned_ucast_eq take_bit_int_eq_self order_less_trans [OF uint_lt2p])
  obtain m k where m: "next_after (ucast (tm_period_ms t)) now (tm_next_ms t) = Some m" "now < m"
    "uint m \<le> uint now + uint (tm_period_ms t)" "uint m = uint (tm_next_ms t) + int (Suc k) * uint (tm_period_ms t)"
    using next_after_correct [of "ucast (tm_period_ms t)" "tm_next_ms t" now] assms p
    by (auto simp: due_def period_ok_def word_less_def)
  have a: "tm_is_active t" using assms(1) by (simp add: due_def)
  have one: "tm_decount t - 1 = 0 \<longleftrightarrow> tm_decount t = 1" by simp
  have s: "timer_step now t = Some (if tm_decount t = 0 then t\<lparr>tm_next_ms := m\<rparr>
      else if tm_decount t = 1 then
        (if tm_auto_unref t then t\<lparr>tm_next_ms := m, tm_decount := 0, tm_is_active := False, tm_is_deleted := True\<rparr>
         else t\<lparr>tm_decount := 0, tm_is_active := False, tm_next_ms := TIME_MS_MAX\<rparr>)
      else t\<lparr>tm_next_ms := m, tm_decount := tm_decount t - 1\<rparr>)"
    using m(1) one by (simp add: timer_step_def Let_def)
  have ti: "ticked now t = the (timer_step now t)" using assms(1) by (simp add: ticked_def)
  show ?thesis
  proof (cases "tm_decount t = 1")
    case True
    then show ?thesis unfolding ti s by simp
  next
    case False
    then show ?thesis unfolding ti s using m(2-4) a by (auto intro!: exI [of _ k])
  qed
qed

lemma timer_dispatch_eq:
  assumes "outer_timer_cb cbs f" and "now_ms sys st = (now, st')" and "ev_mgr st = Some m" and "distinct (mg_timers m)"
    and "\<forall>a \<in> set (mg_timers m). \<exists>t. ev_timers st a = Some t \<and> period_ok now t"
  shows "timer_dispatch sys cbs st = Some (dispatched f now [] (mg_timers m) st')"
proof -
  have "ev_mgr st' = ev_mgr st" "ev_timers st' = ev_timers st"
    using assms(2) by (auto simp: now_ms_def sys_call_def Let_def split: prod.splits)
  then show ?thesis using timer_dispatch_loop_eq [OF assms(1), of st' m "[]" "mg_timers m" now] assms(2-5)
    by (simp add: timer_dispatch_def link_last_def)
qed

text \<open>The value of a timer after a dispatch, \<open>None\<close> when it is freed.\<close>

definition dispatched_to :: "64 word \<Rightarrow> ev_timer \<Rightarrow> ev_timer option \<Rightarrow> bool" where
  "dispatched_to now t r \<longleftrightarrow>
     (if \<not> due now t then r = Some t
      else if tm_decount t = 1 \<and> tm_auto_unref t then r = None
      else \<exists>t2. r = Some t2 \<and>
        (if tm_decount t = 1 then \<not> tm_is_active t2
         else tm_is_active t2 \<and> tm_decount t2 = (if tm_decount t = 0 then 0 else tm_decount t - 1) \<and> now < tm_next_ms t2 \<and>
           uint (tm_next_ms t2) \<le> uint now + uint (tm_period_ms t) \<and>
           (\<exists>k. uint (tm_next_ms t2) = uint (tm_next_ms t) + int (Suc k) * uint (tm_period_ms t))))"

lemma ticked_dispatched_to:
  assumes "period_ok now t" and "\<not> tm_is_deleted t"
  shows "dispatched_to now t (if tm_is_deleted (ticked now t) then None else Some (ticked now t))"
proof (cases "due now t")
  case False
  then show ?thesis using assms by (simp add: dispatched_to_def ticked_def)
next
  case True
  show ?thesis using ticked_due [OF True assms(1)] assms(2) True
    by (cases "tm_decount t = 1"; cases "tm_auto_unref t") (simp_all add: dispatched_to_def)
qed

text \<open>
  Property C37: \<open>timer_dispatch\<close> with callbacks that leave the manager alone: the handlers of the active timers whose time is
  reached are called once each, in the order of the list; such a timer gets its next time, after now, at most one
  period later and in step with its period; at the last of its counted calls it is deactivated, and it is unlinked
  and freed if it is an automatic one. The other timers are untouched.
\<close>

theorem timer_dispatch_correct:
  assumes "outer_timer_cb cbs f" and "now_ms sys st = (now, st')" and "ev_mgr st = Some m" and "distinct (mg_timers m)"
    and "\<forall>a \<in> set (mg_timers m). \<exists>t. ev_timers st a = Some t \<and> period_ok now t \<and> \<not> tm_is_deleted t"
  shows "\<exists>st2. timer_dispatch sys cbs st = Some st2 \<and>
    ev_kern st2 = fold (call_timer f now (ev_timers st)) (mg_timers m) (ev_kern st') \<and>
    (\<forall>a \<in> set (mg_timers m). \<forall>t. ev_timers st a = Some t \<longrightarrow> dispatched_to now t (ev_timers st2 a)) \<and>
    ev_mgr st2 = Some (m\<lparr>mg_timers := filter (\<lambda>a. ev_timers st2 a \<noteq> None) (mg_timers m)\<rparr>) \<and>
    (\<forall>a. a \<notin> set (mg_timers m) \<longrightarrow> ev_timers st2 a = ev_timers st a)"
proof (intro exI conjI)
  have st': "ev_mgr st' = Some m" "ev_timers st' = ev_timers st"
    using assms(2,3) by (auto simp: now_ms_def sys_call_def Let_def split: prod.splits)
  let ?st2 = "dispatched f now [] (mg_timers m) st'"
  show "timer_dispatch sys cbs st = Some ?st2"
    using assms by (intro timer_dispatch_eq) auto
  show "ev_kern ?st2 = fold (call_timer f now (ev_timers st)) (mg_timers m) (ev_kern st')"
    and "\<forall>a. a \<notin> set (mg_timers m) \<longrightarrow> ev_timers ?st2 a = ev_timers st a"
    by (simp_all add: dispatched_def st')
  have T: "ev_timers ?st2 a = (if tm_is_deleted (ticked now (the (ev_timers st a))) then None else Some (ticked now (the (ev_timers st a))))"
    if "a \<in> set (mg_timers m)" for a using that by (simp add: dispatched_def st' Let_def)
  show "\<forall>a \<in> set (mg_timers m). \<forall>t. ev_timers st a = Some t \<longrightarrow> dispatched_to now t (ev_timers ?st2 a)"
    using T ticked_dispatched_to assms(5) by fastforce
  have "filter (\<lambda>a. ev_timers ?st2 a \<noteq> None) (mg_timers m) = filter (\<lambda>a. \<not> tm_is_deleted (ticked now (the (ev_timers st a)))) (mg_timers m)"
    by (rule filter_cong) (use T in auto)
  then show "ev_mgr ?st2 = Some (m\<lparr>mg_timers := filter (\<lambda>a. ev_timers ?st2 a \<noteq> None) (mg_timers m)\<rparr>)"
    by (simp add: dispatched_def st')
qed

text \<open>A world for concrete runs: a clock, and the log of the calls of the timers.\<close>

type_synonym test_world = "nat \<times> (nat \<times> int) list"

definition test_sys :: "test_world ev_sys" where
  "test_sys = \<lparr>es_malloc = \<lambda>k. ((True, 7), k), es_epoll_ctl = \<lambda>ep op fd ev k. (0, k), es_epoll_wait = \<lambda>ep t k. ((1, PFd 0, 1), k),
     es_epoll_create = \<lambda>k. (3, k), es_eventfd = \<lambda>k. (4, k), es_timerfd_create = \<lambda>k. (5, k), es_timerfd_settime = \<lambda>fd t k. (0, k),
     es_close = \<lambda>fd k. ((), k), es_read = \<lambda>fd k. ((8, 1), k), es_write = \<lambda>fd x k. ((), k), es_clock = \<lambda>k. ((fst k, 0), k),
     es_time = \<lambda>k. (of_nat (fst k), k), es_errno = \<lambda>k. 0\<rparr>"

definition log_call :: "nat \<Rightarrow> nat \<Rightarrow> nat \<Rightarrow> int \<Rightarrow> test_world \<Rightarrow> test_world" where
  "log_call h a c d k = (fst k, snd k @ [(a, d)])"

definition log_cbs :: "test_world ev_cbs" where
  "log_cbs = \<lparr>cb_fd = \<lambda>h a fd ev c st. Some st, cb_timer = \<lambda>h a c d st. Some (st\<lparr>ev_kern := log_call h a c d (ev_kern st)\<rparr>),
     cb_prepare = \<lambda>h a c st. Some st\<rparr>"

lemma outer_log: "outer_timer_cb log_cbs log_call"
  by (simp add: outer_timer_cb_def log_cbs_def)

definition test_mgr :: "nat list \<Rightarrow> nat list \<Rightarrow> ev_mgr" where
  "test_mgr fds tms = \<lparr>mg_holder = None, mg_efds = fds, mg_timers = tms, mg_preparers = [], mg_event_ptr = PTimer,
     mg_event_events = 0, mg_eventfd = 4, mg_epollfd = 3, mg_timerfd = - 1, mg_last_timer = 0, mg_refcount = 1, mg_state = Idle,
     mg_efds_changed = False, mg_efds_cleanup = False, mg_timers_cleanup = False, mg_preparers_cleanup = False\<rparr>"

definition test_state :: "nat list \<Rightarrow> (nat \<Rightarrow> ev_fd option) \<Rightarrow> nat list \<Rightarrow> (nat \<Rightarrow> ev_timer option) \<Rightarrow> nat \<Rightarrow> test_world evst" where
  "test_state fds fm tms tmm clock = \<lparr>ev_mgr = Some (test_mgr fds tms), ev_fds = fm, ev_timers = tmm, ev_preps = \<lambda>_. None,
     ev_fresh = 10, ev_kern = (clock, [])\<rparr>"

lemma timer_dispatch_correct_witness:
  "\<exists>st2. timer_dispatch test_sys log_cbs (test_state [] Map.empty [1, 2] [1 \<mapsto> test_timer 1990 1, 2 \<mapsto> test_timer 2500 1] 2) = Some st2 \<and>
     snd (ev_kern st2) = [(1, 0)] \<and> ev_timers st2 2 = Some (test_timer 2500 1)"
proof -
  let ?st = "test_state [] Map.empty [1, 2] [1 \<mapsto> test_timer 1990 1, 2 \<mapsto> test_timer 2500 1] 2"
  have n: "now_ms test_sys ?st = (2000, ?st)"
    by (simp add: now_ms_def sys_call_def test_sys_def test_state_def)
  have m: "ev_mgr ?st = Some (test_mgr [] [1, 2])" by (simp add: test_state_def)
  have d: "distinct (mg_timers (test_mgr [] [1, 2]))" by (simp add: test_mgr_def)
  have t: "\<forall>a \<in> set (mg_timers (test_mgr [] [1, 2])). \<exists>t. ev_timers ?st a = Some t \<and> period_ok 2000 t \<and> \<not> tm_is_deleted t"
    by (simp add: test_mgr_def test_state_def test_timer_def period_ok_def)
  obtain st2 where st2: "timer_dispatch test_sys log_cbs ?st = Some st2"
    "ev_kern st2 = fold (call_timer log_call 2000 (ev_timers ?st)) (mg_timers (test_mgr [] [1, 2])) (ev_kern ?st)"
    "\<forall>a \<in> set (mg_timers (test_mgr [] [1, 2])). \<forall>t. ev_timers ?st a = Some t \<longrightarrow> dispatched_to 2000 t (ev_timers st2 a)"
    using timer_dispatch_correct [OF outer_log n m d t] by blast
  have "snd (ev_kern st2) = [(1, 0)]"
    unfolding st2(2) by (simp add: test_mgr_def test_state_def call_timer_def Let_def due_def test_timer_def log_call_def)
  moreover have "ev_timers st2 2 = Some (test_timer 2500 1)"
    using st2(3) by (simp add: test_mgr_def test_state_def dispatched_to_def due_def test_timer_def)
  ultimately show ?thesis using st2(1) by blast
qed

subsection \<open>A counted timer is called as many times as it is asked\<close>

text \<open>A run of dispatches, at given times.\<close>

fun dispatch_all :: "'k ev_cbs \<Rightarrow> 64 word list \<Rightarrow> 'k evst \<Rightarrow> 'k evst option" where
  "dispatch_all cbs [] st = Some st"
| "dispatch_all cbs (now # nows) st = do { st \<leftarrow> timer_dispatch_loop cbs now None st; dispatch_all cbs nows st }"

text \<open>The calls of one timer, alone.\<close>

fun lone_calls :: "64 word list \<Rightarrow> ev_timer option \<Rightarrow> int list" where
  "lone_calls [] t = []"
| "lone_calls (now # nows) None = []"
| "lone_calls (now # nows) (Some t) = (if due now t then [sint (tm_decount t)] else []) @
     lone_calls nows (let t = ticked now t in if tm_is_deleted t then None else Some t)"

definition calls_of :: "nat \<Rightarrow> (nat \<times> int) list \<Rightarrow> int list" where
  "calls_of a log = map snd (filter (\<lambda>(b, d). b = a) log)"

lemma lone_calls_None [simp]: "lone_calls nows None = []"
  by (cases nows) simp_all

lemma log_fold: "snd (fold (call_timer log_call now tms) xs k) = snd k @
    concat (map (\<lambda>b. if due now (the (tms b)) then [(b, sint (tm_decount (the (tms b))))] else []) xs)"
  by (induction xs arbitrary: k) (auto simp: call_timer_def log_call_def Let_def)

lemma calls_one:
  "distinct xs \<Longrightarrow> calls_of a (concat (map (\<lambda>b. if P b then [(b, g b)] else []) xs)) = (if a \<in> set xs \<and> P a then [g a] else [])"
  by (induction xs) (auto simp: calls_of_def)

lemma period_ticked: "period_ok now t \<Longrightarrow> tm_period_ms (ticked now t) = tm_period_ms t"
  using ticked_due [of now t] by (cases "due now t") (auto simp: ticked_def)

lemma dispatch_all_calls:
  assumes "\<forall>now \<in> set nows. uint now + 2 ^ 32 \<le> 2 ^ 64"
  shows "ev_mgr st = Some m \<Longrightarrow> distinct (mg_timers m) \<Longrightarrow> a \<in> set (mg_timers m) \<or> ev_timers st a = None \<Longrightarrow>
    \<forall>b \<in> set (mg_timers m). \<exists>t. ev_timers st b = Some t \<and> 0 < tm_period_ms t \<Longrightarrow>
    \<exists>st2. dispatch_all log_cbs nows st = Some st2 \<and>
      calls_of a (snd (ev_kern st2)) = calls_of a (snd (ev_kern st)) @ lone_calls nows (ev_timers st a)"
  using assms
proof (induction nows arbitrary: st m)
  case Nil
  then show ?case by simp
next
  case (Cons now nows)
  have P: "period_ok now t" if "0 < tm_period_ms t" for t
    using that Cons.prems(5) uint_lt2p [of "tm_period_ms t"] by (auto simp: period_ok_def)
  let ?st = "dispatched log_call now [] (mg_timers m) st"
  let ?m = "m\<lparr>mg_timers := filter (\<lambda>a. \<not> tm_is_deleted (ticked now (the (ev_timers st a)))) (mg_timers m)\<rparr>"
  have D: "timer_dispatch_loop log_cbs now None st = Some ?st"
    using timer_dispatch_loop_eq [OF outer_log Cons.prems(1), of "[]" "mg_timers m" now] Cons.prems(2,4) P
    by (fastforce simp: link_last_def)
  have m: "ev_mgr ?st = Some ?m" using Cons.prems(1) by (simp add: dispatched_def)
  have t: "ev_timers ?st b = (if tm_is_deleted (ticked now (the (ev_timers st b))) then None else Some (ticked now (the (ev_timers st b))))"
    if "b \<in> set (mg_timers m)" for b using that by (simp add: dispatched_def Let_def)
  have p: "\<forall>b \<in> set (mg_timers ?m). \<exists>t. ev_timers ?st b = Some t \<and> 0 < tm_period_ms t"
    using t Cons.prems(4) P period_ticked by fastforce
  have i: "a \<in> set (mg_timers ?m) \<or> ev_timers ?st a = None"
    using Cons.prems(3) t by (cases "a \<in> set (mg_timers m)") (auto simp: dispatched_def)
  obtain st2 where st2: "dispatch_all log_cbs nows ?st = Some st2"
    "calls_of a (snd (ev_kern st2)) = calls_of a (snd (ev_kern ?st)) @ lone_calls nows (ev_timers ?st a)"
    using Cons.IH [OF m _ i p] Cons.prems(2,5) by auto
  have "calls_of a (snd (ev_kern ?st)) = calls_of a (snd (ev_kern st)) @
      (if a \<in> set (mg_timers m) \<and> due now (the (ev_timers st a)) then [sint (tm_decount (the (ev_timers st a)))] else [])"
    using calls_one [OF Cons.prems(2), of a "\<lambda>b. due now (the (ev_timers st b))" "\<lambda>b. sint (tm_decount (the (ev_timers st b)))"]
    by (simp add: dispatched_def log_fold) (simp add: calls_of_def)
  then have "calls_of a (snd (ev_kern st2)) = calls_of a (snd (ev_kern st)) @ lone_calls (now # nows) (ev_timers st a)"
    using st2(2) Cons.prems(3,4) t by (cases "a \<in> set (mg_timers m)") (fastforce simp: Let_def dispatched_def)+
  then show ?case using D st2(1) by auto
qed

text \<open>Times far enough for the timer to be reached at each.\<close>

fun spaced :: "int \<Rightarrow> int \<Rightarrow> 64 word list \<Rightarrow> bool" where
  "spaced p n [] = True"
| "spaced p n (now # nows) = (n \<le> uint now \<and> uint now + 2 ^ 32 \<le> 2 ^ 64 \<and> spaced p (uint now + p) nows)"

lemma spaced_bound: "spaced p n nows \<Longrightarrow> \<forall>now \<in> set nows. uint now + 2 ^ 32 \<le> 2 ^ 64"
  by (induction nows arbitrary: n) auto

lemma spaced_mono: "spaced p n nows \<Longrightarrow> n' \<le> n \<Longrightarrow> spaced p n' nows"
  by (cases nows) auto

lemma lone_inactive: "\<not> tm_is_active t \<Longrightarrow> lone_calls nows (Some t) = []"
  by (induction nows) (auto simp: due_def ticked_def Let_def)

lemma lone_calls_counted:
  "tm_is_active t \<Longrightarrow> \<not> tm_is_deleted t \<Longrightarrow> 0 < tm_period_ms t \<Longrightarrow> unat (tm_decount t) = c \<Longrightarrow> 0 < c \<Longrightarrow> c < 2 ^ 31 \<Longrightarrow> c \<le> length nows \<Longrightarrow>
    spaced (uint (tm_period_ms t)) (uint (tm_next_ms t)) nows \<Longrightarrow> lone_calls nows (Some t) = rev (map int [1..<Suc c])"
proof (induction c arbitrary: t nows)
  case 0
  then show ?case by simp
next
  case (Suc c)
  obtain now ns where n: "nows = now # ns" using Suc.prems(7) by (cases nows) auto
  have d: "due now t" using Suc.prems(1,8) n by (simp add: due_def word_le_def)
  have p: "period_ok now t" using Suc.prems(3,8) n uint_lt2p [of "tm_period_ms t"] by (simp add: period_ok_def)
  have s: "sint (tm_decount t) = int (Suc c)"
  proof -
    have "uint (tm_decount t) = int (Suc c)" using Suc.prems(4) by (simp flip: Suc.prems(4))
    moreover have "signed_take_bit 31 (int (Suc c)) = int (Suc c)" using Suc.prems(6) by (intro signed_take_bit_int_eq_self) auto
    ultimately show ?thesis by (simp add: sint_uint)
  qed
  note T = ticked_due [OF d p]
  show ?case
  proof (cases "c = 0")
    case True
    then have "tm_decount t = 1" using Suc.prems(4) by (simp add: word_unat_eq_iff)
    then show ?thesis using T d s True n by (auto simp: Let_def lone_inactive)
  next
    case False
    then have ne: "tm_decount t \<noteq> 1" "tm_decount t \<noteq> 0" using Suc.prems(4) by auto
    let ?t = "ticked now t"
    have u: "unat (tm_decount ?t) = c"
      using T ne Suc.prems(4) by (simp add: unat_minus_one)
    have "lone_calls ns (Some ?t) = rev (map int [1..<Suc c])"
    proof (rule Suc.IH)
      show "spaced (uint (tm_period_ms ?t)) (uint (tm_next_ms ?t)) ns"
        using Suc.prems(8) n T ne by (auto intro: spaced_mono)
    qed (use T ne u False Suc.prems n in auto)
    then show ?thesis using T ne d s n Suc.prems(2) by (simp add: Let_def)
  qed
qed

text \<open>
  Property C38: a timer asked to be called \<open>c\<close> times is called: in any run of dispatches at times as far from each other
  as its period, with any other timers in the manager, the handler of the timer is called exactly \<open>c\<close> times, with
  \<open>c\<close>, ..., 2, 1, and never again.
\<close>

theorem timer_counted_calls:
  assumes "ev_mgr st = Some m" and "distinct (mg_timers m)" and "a \<in> set (mg_timers m)" and "ev_timers st a = Some t"
    and "\<forall>b \<in> set (mg_timers m). \<exists>t. ev_timers st b = Some t \<and> 0 < tm_period_ms t"
    and "tm_is_active t" and "\<not> tm_is_deleted t" and "unat (tm_decount t) = c" and "0 < c" and "c < 2 ^ 31" and "c \<le> length nows"
    and "spaced (uint (tm_period_ms t)) (uint (tm_next_ms t)) nows" and "calls_of a (snd (ev_kern st)) = []"
  shows "\<exists>st2. dispatch_all log_cbs nows st = Some st2 \<and> calls_of a (snd (ev_kern st2)) = rev (map int [1..<Suc c])"
proof -
  have p: "0 < tm_period_ms t" using assms(3-5) by auto
  show ?thesis
    using dispatch_all_calls [OF spaced_bound [OF assms(12)] assms(1,2) disjI1 [OF assms(3)] assms(5)]
      lone_calls_counted [OF assms(6,7) p assms(8-12)] assms(4,13) by simp
qed

lemma timer_counted_calls_witness:
  "\<exists>st2. dispatch_all log_cbs [1000, 1500, 1800, 2500]
      (test_state [] Map.empty [1, 2] [1 \<mapsto> (test_timer 900 1)\<lparr>tm_decount := 3\<rparr>, 2 \<mapsto> test_timer 1200 1] 2) = Some st2 \<and>
    calls_of 1 (snd (ev_kern st2)) = [3, 2, 1]"
proof -
  let ?t = "(test_timer 900 1)\<lparr>tm_decount := 3\<rparr>"
  let ?st = "test_state [] Map.empty [1, 2] [1 \<mapsto> ?t, 2 \<mapsto> test_timer 1200 1] 2"
  have "\<exists>st2. dispatch_all log_cbs [1000, 1500, 1800, 2500] ?st = Some st2 \<and> calls_of 1 (snd (ev_kern st2)) = rev (map int [1..<Suc 3])"
    by (rule timer_counted_calls [where m = "test_mgr [] [1, 2]" and t = ?t])
      (simp_all add: test_state_def test_mgr_def test_timer_def calls_of_def)
  moreover have "rev (map int [1..<Suc 3]) = [3, 2, 1]" by (simp add: upt_rec)
  ultimately show ?thesis by simp
qed

end
