(* ===== verification/EvOk.thy ===== *)
theory EvOk
  imports EvTimers
begin

text \<open>
  The states that the operations of \<open>src/sandbox/ev-mgr.c\<close> reach are well formed: the linked lists hold
  items that exist, linked to the manager. The rules by which a call keeps a relation on states are the lemmas of the
  locale \<open>ev_keeping\<close>, with two instances: \<open>ev_step_ok\<close> for the calls that callbacks may use and
  \<open>stays_ok\<close> for the others.
\<close>

subsection \<open>Well-formed states\<close>

definition fd_ok :: "ev_fd \<Rightarrow> bool" where
  "fd_ok e \<longleftrightarrow> fd_mgr e \<and> (fd_is_deleted e \<longrightarrow> \<not> fd_is_active e)"

definition timer_ok :: "ev_timer \<Rightarrow> bool" where
  "timer_ok t \<longleftrightarrow> tm_mgr t \<and> 0 < tm_period_ms t \<and> 0 < tm_accuracy_ms t \<and> (tm_is_deleted t \<longrightarrow> \<not> tm_is_active t)"

text \<open>
  A list of the manager has no duplicates, its items exist, are linked to the manager and are not both deleted
  and active. A linked file descriptor or preparer is in its list.
\<close>

definition fds_ok :: "(nat \<Rightarrow> ev_fd option) \<Rightarrow> nat list \<Rightarrow> bool" where
  "fds_ok F xs \<longleftrightarrow> distinct xs \<and> (\<forall>a \<in> set xs. \<exists>e. F a = Some e \<and> fd_ok e) \<and> (\<forall>a e. F a = Some e \<and> fd_mgr e \<longrightarrow> a \<in> set xs)"

definition tms_ok :: "(nat \<Rightarrow> ev_timer option) \<Rightarrow> nat list \<Rightarrow> bool" where
  "tms_ok T xs \<longleftrightarrow> distinct xs \<and> (\<forall>a \<in> set xs. \<exists>t. T a = Some t \<and> timer_ok t)"

definition pps_ok :: "(nat \<Rightarrow> ev_prepare option) \<Rightarrow> nat list \<Rightarrow> bool" where
  "pps_ok P xs \<longleftrightarrow> distinct xs \<and> (\<forall>a \<in> set xs. \<exists>p. P a = Some p \<and> pr_mgr p) \<and> (\<forall>a p. P a = Some p \<and> pr_mgr p \<longrightarrow> a \<in> set xs)"

definition below :: "nat \<Rightarrow> (nat \<Rightarrow> 'a option) \<Rightarrow> bool" where
  "below n M \<longleftrightarrow> (\<forall>a. n \<le> a \<longrightarrow> M a = None)"

text \<open>The lists are empty when the manager is released; a pending event is not the wake-up.\<close>

definition ev_list :: "(ev_mgr \<Rightarrow> nat list) \<Rightarrow> 'k evst \<Rightarrow> nat list" where
  "ev_list f st = (case ev_mgr st of None \<Rightarrow> [] | Some m \<Rightarrow> f m)"

definition no_wake :: "ev_mgr option \<Rightarrow> bool" where
  "no_wake mo = (case mo of None \<Rightarrow> True | Some m \<Rightarrow> mg_state m = Pending \<longrightarrow> mg_event_ptr m \<noteq> PMgr)"

definition ev_ok :: "'k evst \<Rightarrow> bool" where
  "ev_ok st \<longleftrightarrow> below (ev_fresh st) (ev_fds st) \<and> below (ev_fresh st) (ev_timers st) \<and> below (ev_fresh st) (ev_preps st) \<and>
     fds_ok (ev_fds st) (ev_list mg_efds st) \<and> tms_ok (ev_timers st) (ev_list mg_timers st) \<and>
     pps_ok (ev_preps st) (ev_list mg_preparers st) \<and> no_wake (ev_mgr st)"

text \<open>Changes of an item, new items, and items removed.\<close>

lemma below_upd: "below n M \<Longrightarrow> M a = Some x \<Longrightarrow> below n (M(a \<mapsto> y))"
  by (fastforce simp: below_def)

lemma below_new: "below n M \<Longrightarrow> below (Suc n) (M(n \<mapsto> y))"
  by (simp add: below_def)

lemma below_Suc: "below n M \<Longrightarrow> below (Suc n) M"
  by (simp add: below_def)

lemma below_sub: "below n M \<Longrightarrow> (\<And>a. M a = None \<Longrightarrow> M' a = None) \<Longrightarrow> below n M'"
  by (auto simp: below_def)

lemma fds_ok_upd:
  assumes "fds_ok F xs" and "F a = Some e" and "fd_ok e \<Longrightarrow> fd_ok e'" and "fd_mgr e' = fd_mgr e"
  shows "fds_ok (F(a \<mapsto> e')) xs"
  unfolding fds_ok_def
proof (intro conjI)
  show "distinct xs" using assms(1) by (simp add: fds_ok_def)
  show "\<forall>b \<in> set xs. \<exists>e. (F(a \<mapsto> e')) b = Some e \<and> fd_ok e"
  proof
    fix b assume "b \<in> set xs"
    then obtain d where "F b = Some d" "fd_ok d" using assms(1) unfolding fds_ok_def by blast
    then show "\<exists>e. (F(a \<mapsto> e')) b = Some e \<and> fd_ok e" using assms(2,3) by (cases "b = a") auto
  qed
  show "\<forall>b e. (F(a \<mapsto> e')) b = Some e \<and> fd_mgr e \<longrightarrow> b \<in> set xs"
    using assms(1,2,4) unfolding fds_ok_def by (metis fun_upd_apply option.inject)
qed

lemma tms_ok_upd:
  assumes "tms_ok T xs" and "T a = Some t" and "timer_ok t \<Longrightarrow> timer_ok t'"
  shows "tms_ok (T(a \<mapsto> t')) xs"
  unfolding tms_ok_def
proof (intro conjI ballI)
  show "distinct xs" using assms(1) by (simp add: tms_ok_def)
  fix b assume "b \<in> set xs"
  then obtain d where "T b = Some d" "timer_ok d" using assms(1) unfolding tms_ok_def by blast
  then show "\<exists>t. (T(a \<mapsto> t')) b = Some t \<and> timer_ok t" using assms(2,3) by (cases "b = a") auto
qed

lemma pps_ok_upd:
  assumes "pps_ok P xs" and "P a = Some p" and "pr_mgr p' = pr_mgr p"
  shows "pps_ok (P(a \<mapsto> p')) xs"
  unfolding pps_ok_def
proof (intro conjI)
  show "distinct xs" using assms(1) by (simp add: pps_ok_def)
  show "\<forall>b \<in> set xs. \<exists>q. (P(a \<mapsto> p')) b = Some q \<and> pr_mgr q"
    using assms unfolding pps_ok_def by (metis fun_upd_apply option.inject)
  show "\<forall>b q. (P(a \<mapsto> p')) b = Some q \<and> pr_mgr q \<longrightarrow> b \<in> set xs"
    using assms unfolding pps_ok_def by (metis fun_upd_apply option.inject)
qed

lemma fds_ok_new: "fds_ok F xs \<Longrightarrow> F a = None \<Longrightarrow> fd_ok e \<Longrightarrow> fds_ok (F(a \<mapsto> e)) (a # xs)"
  unfolding fds_ok_def by fastforce

lemma tms_ok_new: "tms_ok T xs \<Longrightarrow> T a = None \<Longrightarrow> timer_ok t \<Longrightarrow> tms_ok (T(a \<mapsto> t)) (a # xs)"
  unfolding tms_ok_def by fastforce

lemma pps_ok_new: "pps_ok P xs \<Longrightarrow> P a = None \<Longrightarrow> pr_mgr p \<Longrightarrow> pps_ok (P(a \<mapsto> p)) (a # xs)"
  unfolding pps_ok_def by fastforce

lemma subseq_set_sub: "subseq xs ys \<Longrightarrow> set xs \<subseteq> set ys"
  by (induction rule: list_emb.induct) auto

lemma subseq_distinct: "subseq xs ys \<Longrightarrow> distinct ys \<Longrightarrow> distinct xs"
  by (induction rule: list_emb.induct) (auto dest: subseq_set_sub)

definition without :: "'b set \<Rightarrow> ('b \<Rightarrow> 'a option) \<Rightarrow> 'b \<Rightarrow> 'a option" where
  "without D M = (\<lambda>a. if a \<in> D then None else M a)"

lemma below_without: "below n M \<Longrightarrow> below n (without D M)"
  by (simp add: below_def without_def)

lemma fds_ok_without: "fds_ok F xs \<Longrightarrow> fds_ok (without D F) (filter (\<lambda>a. a \<notin> D) xs)"
  by (auto simp: fds_ok_def without_def)

lemma tms_ok_without: "tms_ok T xs \<Longrightarrow> subseq ys xs \<Longrightarrow> \<forall>a \<in> set ys. a \<notin> D \<Longrightarrow> tms_ok (without D T) ys"
  using subseq_distinct [of ys xs] subseq_set_sub [of ys xs] unfolding tms_ok_def without_def by fastforce

lemma pps_ok_without: "pps_ok P xs \<Longrightarrow> pps_ok (without D P) (filter (\<lambda>a. a \<notin> D) xs)"
  by (auto simp: pps_ok_def without_def)


text \<open>
  How a call used by callbacks changes the state: the manager stays, with its state and its event; timers are
  added in front and removed, not moved.
\<close>

definition ev_rel :: "'k evst \<Rightarrow> 'k evst \<Rightarrow> bool" where
  "ev_rel st st' \<longleftrightarrow> ev_fresh st \<le> ev_fresh st' \<and> (\<forall>m. ev_mgr st = Some m \<longrightarrow>
     (\<exists>m' new ys. ev_mgr st' = Some m' \<and> mg_state m' = mg_state m \<and> mg_event_ptr m' = mg_event_ptr m \<and>
        mg_timers m' = new @ ys \<and> subseq ys (mg_timers m) \<and> (\<forall>a \<in> set new. ev_fresh st \<le> a)))"

lemma ev_relI:
  assumes "ev_mgr st' = Some m'" and "mg_state m' = mg_state m" and "mg_event_ptr m' = mg_event_ptr m"
    and "mg_timers m' = new @ ys" and "subseq ys (mg_timers m)" and "\<forall>a \<in> set new. ev_fresh st \<le> a"
    and "ev_fresh st \<le> ev_fresh st'" and "ev_mgr st = Some m"
  shows "ev_rel st st'"
  unfolding ev_rel_def using assms by (intro conjI allI impI exI [of _ m'] exI [of _ new] exI [of _ ys]) auto

lemma ev_rel_refl [simp]: "ev_rel st st"
  unfolding ev_rel_def
proof (intro conjI allI impI)
  fix m
  assume "ev_mgr st = Some m"
  then show "\<exists>m' new ys. ev_mgr st = Some m' \<and> mg_state m' = mg_state m \<and> mg_event_ptr m' = mg_event_ptr m \<and>
        mg_timers m' = new @ ys \<and> subseq ys (mg_timers m) \<and> (\<forall>a \<in> set new. ev_fresh st \<le> a)"
    by (intro exI [of _ m] exI [of _ "[]"] exI [of _ "mg_timers m"]) simp
qed simp

lemma ev_rel_trans:
  assumes "ev_rel st st1" and "ev_rel st1 st2"
  shows "ev_rel st st2"
proof (cases "ev_mgr st")
  case None
  then show ?thesis using assms by (simp add: ev_rel_def)
next
  case (Some m)
  obtain m1 new1 ys1 where 1: "ev_mgr st1 = Some m1" "mg_state m1 = mg_state m" "mg_event_ptr m1 = mg_event_ptr m"
    "mg_timers m1 = new1 @ ys1" "subseq ys1 (mg_timers m)" "\<forall>a \<in> set new1. ev_fresh st \<le> a"
    using assms(1) Some unfolding ev_rel_def by blast
  obtain m2 new2 ys2 where 2: "ev_mgr st2 = Some m2" "mg_state m2 = mg_state m1" "mg_event_ptr m2 = mg_event_ptr m1"
    "mg_timers m2 = new2 @ ys2" "subseq ys2 (mg_timers m1)" "\<forall>a \<in> set new2. ev_fresh st1 \<le> a"
    using assms(2) 1(1) unfolding ev_rel_def by blast
  obtain us vs where uv: "ys2 = us @ vs" "subseq us new1" "subseq vs ys1"
    using 2(5) unfolding 1(4) by (auto elim: subseq_appendE)
  have "set us \<subseteq> set new1" using uv(2) by (rule subseq_set_sub)
  moreover have "ev_fresh st \<le> ev_fresh st1" using assms(1) by (simp add: ev_rel_def)
  ultimately have "\<forall>a \<in> set (new2 @ us). ev_fresh st \<le> a" using 1(6) 2(6) by fastforce
  moreover have "subseq vs (mg_timers m)" using uv(3) 1(5) by (rule subseq_order.trans)
  moreover have "ev_fresh st \<le> ev_fresh st2" using assms by (simp add: ev_rel_def)
  ultimately show ?thesis using 1 2 uv(1) Some by (intro ev_relI [where new = "new2 @ us" and ys = vs]) simp_all
qed

lemma ev_rel_same: "ev_mgr st' = ev_mgr st \<Longrightarrow> ev_fresh st' = ev_fresh st \<Longrightarrow> ev_rel st st'"
  using ev_rel_refl [of st] unfolding ev_rel_def by simp

text \<open>The two relations kept by the calls: that of what callbacks use, and the mere preservation.\<close>

definition ev_step_ok :: "'k evst \<Rightarrow> 'k evst \<Rightarrow> bool" where
  "ev_step_ok st st' \<longleftrightarrow> (ev_ok st \<longrightarrow> ev_ok st' \<and> ev_rel st st')"

definition stays_ok :: "'k evst \<Rightarrow> 'k evst \<Rightarrow> bool" where
  "stays_ok st st' \<longleftrightarrow> (ev_ok st \<longrightarrow> ev_ok st')"

text \<open>A call whose result, if any, has a state in relation with the first one; \<open>p\<close> gives the state of the result.\<close>

definition ev_keeps :: "('k evst \<Rightarrow> 'k evst \<Rightarrow> bool) \<Rightarrow> ('x \<Rightarrow> 'k evst) \<Rightarrow> 'k evst \<Rightarrow> 'x option \<Rightarrow> bool" where
  "ev_keeps R p st r \<longleftrightarrow> (\<forall>x. r = Some x \<longrightarrow> R st (p x))"

locale ev_keeping =
  fixes R :: "'k evst \<Rightarrow> 'k evst \<Rightarrow> bool"
  assumes refl: "R st st"
    and trans: "R st st1 \<Longrightarrow> R st1 st2 \<Longrightarrow> R st st2"
    and kern: "R st (st\<lparr>ev_kern := k\<rparr>)"
begin

lemma none: "ev_keeps R p st None"
  by (simp add: ev_keeps_def)

lemma ret: "ev_keeps (R :: 'k evst \<Rightarrow> 'k evst \<Rightarrow> bool) p st (Some x) = R st (p x)"
  by (simp add: ev_keeps_def)

lemma by_step: "R st st1 \<Longrightarrow> ev_keeps R p st1 r \<Longrightarrow> ev_keeps R p st r"
  by (auto simp: ev_keeps_def intro: trans)

lemma bind: "ev_keeps R q st r \<Longrightarrow> (\<And>x. r = Some x \<Longrightarrow> ev_keeps R p (q x) (g x)) \<Longrightarrow> ev_keeps R p st (r \<bind> g)"
  by (cases r) (auto simp: ev_keeps_def intro: trans)

lemma bind_val: "(\<And>x. r = Some x \<Longrightarrow> ev_keeps R p st (g x)) \<Longrightarrow> ev_keeps R p st (r \<bind> g)"
  by (cases r) (auto simp: ev_keeps_def)

lemma cond: "(c \<Longrightarrow> ev_keeps R p st x) \<Longrightarrow> (\<not> c \<Longrightarrow> ev_keeps R p st y) \<Longrightarrow> ev_keeps R p st (if c then x else y)"
  by simp

lemma call: "sys_call f st = (r, st1) \<Longrightarrow> R st st1"
  using kern by (auto simp: sys_call_def Let_def split: prod.splits)

lemma call_let: "(\<And>r st1. sys_call f st = (r, st1) \<Longrightarrow> ev_keeps R p st1 (g r st1)) \<Longrightarrow>
    ev_keeps R p st (let (r, st1) = sys_call f st in g r st1)"
  by (cases "sys_call f st") (auto intro: by_step call)

lemma map_state: "ev_keeps R q st r \<Longrightarrow> (\<And>x. p (f x) = q x) \<Longrightarrow> ev_keeps R p st (map_option f r)"
  by (auto simp: ev_keeps_def)

end

lemma ev_ok_kern [simp]: "ev_ok (st\<lparr>ev_kern := k\<rparr>) = ev_ok st"
  by (simp add: ev_ok_def ev_list_def)

interpretation so: ev_keeping ev_step_ok
proof
  fix st st1 st2 :: "'k evst" and k :: 'k
  show "ev_step_ok st st" by (simp add: ev_step_ok_def)
  show "ev_step_ok st st1 \<Longrightarrow> ev_step_ok st1 st2 \<Longrightarrow> ev_step_ok st st2" by (auto simp: ev_step_ok_def intro: ev_rel_trans)
  show "ev_step_ok st (st\<lparr>ev_kern := k\<rparr>)" unfolding ev_step_ok_def by (intro impI conjI ev_rel_same) simp_all
qed

interpretation sy: ev_keeping stays_ok
  by unfold_locales (auto simp: stays_ok_def)

lemma ev_keeps_stays: "ev_keeps ev_step_ok p st r \<Longrightarrow> ev_keeps stays_ok p st r"
  by (simp add: ev_keeps_def ev_step_ok_def stays_ok_def)

subsection \<open>Changes of one item or of the manager\<close>

abbreviation "ev_keeps_st \<equiv> ev_keeps ev_step_ok (\<lambda>st. st)"
abbreviation "ev_keeps_rc \<equiv> ev_keeps ev_step_ok snd"

lemma ev_keeps_upd_fd:
  assumes "\<And>e. fd_mgr (f e) = fd_mgr e" and "\<And>e. fd_ok e \<Longrightarrow> fd_ok (f e)"
  shows "ev_keeps_st st (upd_fd a f st)"
  unfolding ev_keeps_def
proof (intro allI impI)
  fix st'
  assume "upd_fd a f st = Some st'"
  then obtain x where x: "ev_fds st a = Some x" "st' = st\<lparr>ev_fds := (ev_fds st)(a \<mapsto> f x)\<rparr>" by (auto simp: upd_fd_def bind_eq_Some_conv)
  have "fds_ok ((ev_fds st)(a \<mapsto> f x)) xs" if "fds_ok (ev_fds st) xs" for xs
    using that x(1) by (rule fds_ok_upd) (use assms in auto)
  then have "ev_ok st'" if "ev_ok st"
    using that below_upd [where M = "ev_fds st" and a = a and x = x and y = "f x"] x(1) unfolding ev_ok_def ev_list_def x(2) by simp
  then show "ev_step_ok st st'" using ev_rel_same [of st' st] x(2) by (simp add: ev_step_ok_def)
qed

lemma ev_keeps_upd_timer:
  assumes "\<And>t. timer_ok t \<Longrightarrow> timer_ok (f t)"
  shows "ev_keeps_st st (upd_timer a f st)"
  unfolding ev_keeps_def
proof (intro allI impI)
  fix st'
  assume "upd_timer a f st = Some st'"
  then obtain x where x: "ev_timers st a = Some x" "st' = st\<lparr>ev_timers := (ev_timers st)(a \<mapsto> f x)\<rparr>" by (auto simp: upd_timer_def bind_eq_Some_conv)
  have "tms_ok ((ev_timers st)(a \<mapsto> f x)) xs" if "tms_ok (ev_timers st) xs" for xs
    using that x(1) by (rule tms_ok_upd) (use assms in auto)
  then have "ev_ok st'" if "ev_ok st"
    using that below_upd [where M = "ev_timers st" and a = a and x = x and y = "f x"] x(1) unfolding ev_ok_def ev_list_def x(2) by simp
  then show "ev_step_ok st st'" using ev_rel_same [of st' st] x(2) by (simp add: ev_step_ok_def)
qed

lemma ev_keeps_upd_prep:
  assumes "\<And>p. pr_mgr (f p) = pr_mgr p"
  shows "ev_keeps_st st (upd_prep a f st)"
  unfolding ev_keeps_def
proof (intro allI impI)
  fix st'
  assume "upd_prep a f st = Some st'"
  then obtain x where x: "ev_preps st a = Some x" "st' = st\<lparr>ev_preps := (ev_preps st)(a \<mapsto> f x)\<rparr>" by (auto simp: upd_prep_def bind_eq_Some_conv)
  have "pps_ok ((ev_preps st)(a \<mapsto> f x)) xs" if "pps_ok (ev_preps st) xs" for xs
    using that x(1) by (rule pps_ok_upd) (use assms in auto)
  then have "ev_ok st'" if "ev_ok st"
    using that below_upd [where M = "ev_preps st" and a = a and x = x and y = "f x"] x(1) unfolding ev_ok_def ev_list_def x(2) by simp
  then show "ev_step_ok st st'" using ev_rel_same [of st' st] x(2) by (simp add: ev_step_ok_def)
qed

text \<open>Changes of the manager that are not in its lists, its state or its event.\<close>

definition mgr_same :: "ev_mgr \<Rightarrow> ev_mgr \<Rightarrow> bool" where
  "mgr_same m m' \<longleftrightarrow> mg_efds m' = mg_efds m \<and> mg_timers m' = mg_timers m \<and> mg_preparers m' = mg_preparers m \<and>
     mg_state m' = mg_state m \<and> mg_event_ptr m' = mg_event_ptr m"

lemma ev_keeps_upd_mgr:
  assumes "\<And>m. mgr_same m (f m)"
  shows "ev_keeps_st st (upd_mgr f st)"
  unfolding ev_keeps_def
proof (intro allI impI)
  fix st'
  assume "upd_mgr f st = Some st'"
  then obtain m where m: "ev_mgr st = Some m" "st' = st\<lparr>ev_mgr := Some (f m)\<rparr>" by (auto simp: upd_mgr_def bind_eq_Some_conv)
  have "ev_ok st' = ev_ok st" using m assms [of m] by (simp add: ev_ok_def ev_list_def no_wake_def mgr_same_def)
  moreover have "ev_rel st st'"
    using m assms [of m] by (intro ev_relI [where new = "[]" and ys = "mg_timers m" and m = m and m' = "f m"]) (auto simp: mgr_same_def)
  ultimately show "ev_step_ok st st'" by (simp add: ev_step_ok_def)
qed

subsection \<open>The calls keep the state well formed\<close>

lemma fd_changes [simp]:
  "fd_mgr (e\<lparr>fd_refcount := r\<rparr>) = fd_mgr e" "fd_ok (e\<lparr>fd_refcount := r\<rparr>) = fd_ok e"
  "fd_ok (e\<lparr>fd_is_set := b\<rparr>) = fd_ok e" "fd_ok (e\<lparr>fd_has_changed := b\<rparr>) = fd_ok e"
  "fd_ok (e\<lparr>fd_is_set := b, fd_has_changed := c\<rparr>) = fd_ok e"
  "fd_ok (e\<lparr>fd_events := ev\<rparr>) = fd_ok e" "fd_ok (e\<lparr>fd_fd := fd\<rparr>) = fd_ok e" "fd_ok (e\<lparr>fd_handler := h, fd_closure := cl\<rparr>) = fd_ok e"
  "fd_ok e \<Longrightarrow> fd_ok (e\<lparr>fd_is_set := False, fd_is_active := False\<rparr>)"
  "fd_ok e \<Longrightarrow> fd_ok (e\<lparr>fd_is_active := False, fd_is_deleted := True\<rparr>)"
  by (auto simp: fd_ok_def)

lemma timer_changes [simp]:
  "timer_ok (t\<lparr>tm_refcount := r\<rparr>) = timer_ok t" "timer_ok t \<Longrightarrow> timer_ok (t\<lparr>tm_is_active := False, tm_is_deleted := True\<rparr>)"
  "timer_ok t \<Longrightarrow> timer_ok (t\<lparr>tm_is_deleted := True, tm_is_active := False\<rparr>)"
  by (auto simp: timer_ok_def)

lemma timer_step_ok: "timer_step now t = Some t' \<Longrightarrow> timer_ok t \<Longrightarrow> timer_ok t'"
  by (auto simp: timer_step_def bind_eq_Some_conv Let_def timer_ok_def split: if_splits)

lemmas ev_rules = so.bind_val so.cond so.call_let ev_keeps_upd_fd ev_keeps_upd_timer ev_keeps_upd_prep ev_keeps_upd_mgr

lemma ev_keeps_ret [simp]: "ev_keeps ev_step_ok p st (Some x) = ev_step_ok st (p x)"
  by (rule so.ret)

lemmas ev_keeps_refl [simp] = so.refl

lemma bind_st: "ev_keeps_st st r \<Longrightarrow> (\<And>st1. r = Some st1 \<Longrightarrow> ev_keeps ev_step_ok p st1 (g st1)) \<Longrightarrow> ev_keeps ev_step_ok p st (r \<bind> g)"
  by (rule so.bind)

lemma bind_rc: "ev_keeps_rc st r \<Longrightarrow> (\<And>rc st1. r = Some (rc, st1) \<Longrightarrow> ev_keeps ev_step_ok p st1 (g rc st1)) \<Longrightarrow>
    ev_keeps ev_step_ok p st (r \<bind> (\<lambda>(rc, st). g rc st))"
  by (rule so.bind [where q = snd]) auto

lemma ev_keeps_let_if: "(c \<Longrightarrow> (\<And>r st1. sys_call f st = (r, st1) \<Longrightarrow> ev_keeps ev_step_ok p st1 (g r st1))) \<Longrightarrow> (\<not> c \<Longrightarrow> ev_keeps ev_step_ok p st (g u st)) \<Longrightarrow>
    ev_keeps ev_step_ok p st (let (r, st1) = (if c then sys_call f st else (u, st)) in g r st1)"
  using so.call_let [of f st p g] by auto

lemma ev_keeps_opt: "(a = None \<Longrightarrow> ev_keeps R p st x) \<Longrightarrow> (\<And>b. a = Some b \<Longrightarrow> ev_keeps R p st (f b)) \<Longrightarrow>
    ev_keeps R p st (case a of None \<Rightarrow> x | Some b \<Rightarrow> f b)"
  by (cases a) auto

lemmas ev_keeps_intros = ev_keeps_opt bind_st bind_rc so.cond ev_keeps_let_if so.call_let ev_keeps_upd_fd ev_keeps_upd_timer ev_keeps_upd_prep ev_keeps_upd_mgr so.bind_val

lemma ev_step_ok_call [simp]: "ev_step_ok st (snd (sys_call f st))"
  by (cases "sys_call f st") (simp add: so.call)

lemma ev_keeps_ev_fd_addref: "ev_keeps_st st (ev_fd_addref efd st)"
  unfolding ev_fd_addref_def by (intro ev_keeps_intros) simp_all

lemma ev_keeps_free_fd:
  assumes "ev_fds st a = Some e" and "\<not> fd_mgr e"
  shows "ev_step_ok st (st\<lparr>ev_fds := (ev_fds st)(a := None)\<rparr>)"
proof -
  have "a \<notin> set xs" if "fds_ok (ev_fds st) xs" for xs using that assms by (auto simp: fds_ok_def fd_ok_def)
  then have "fds_ok ((ev_fds st)(a := None)) xs" if "fds_ok (ev_fds st) xs" for xs
    using that by (auto simp: fds_ok_def)
  then show ?thesis by (auto simp: ev_step_ok_def ev_ok_def ev_list_def below_def intro: ev_rel_same)
qed

lemma upd_fd_Some: "upd_fd a f st = Some st' \<Longrightarrow> \<exists>e. ev_fds st a = Some e \<and> ev_fds st' a = Some (f e)"
  by (auto simp: upd_fd_def bind_eq_Some_conv)

lemma sys_call_fds: "sys_call f st = (r, st') \<Longrightarrow> ev_fds st' = ev_fds st \<and> ev_mgr st' = ev_mgr st"
  by (auto simp: sys_call_def Let_def split: prod.splits)

lemma ev_keeps_free_fd':
  assumes "\<exists>e. ev_fds st a = Some e \<and> \<not> fd_mgr e"
  shows "ev_step_ok st (st\<lparr>ev_fds := (ev_fds st)(a := None)\<rparr>)"
  using assms ev_keeps_free_fd by blast

lemma mgr_sames [simp]:
  "mgr_same m (m\<lparr>mg_efds_cleanup := b\<rparr>)" "mgr_same m (m\<lparr>mg_efds_changed := b\<rparr>)" "mgr_same m (m\<lparr>mg_timers_cleanup := b\<rparr>)"
  "mgr_same m (m\<lparr>mg_preparers_cleanup := b\<rparr>)" "mgr_same m (m\<lparr>mg_timerfd := fd\<rparr>)" "mgr_same m (m\<lparr>mg_last_timer := w\<rparr>)"
  "mgr_same m (m\<lparr>mg_refcount := r\<rparr>)" "mgr_same m (if c then m\<lparr>mg_holder := h\<rparr> else m)"
  by (simp_all add: mgr_same_def)

lemma ev_keeps_ev_fd_unref: "ev_keeps_st st (ev_fd_unref sys efd st)"
proof (cases efd)
  case None
  then show ?thesis by (simp add: ev_fd_unref_def)
next
  case (Some a)
  show ?thesis unfolding ev_fd_unref_def Some option.case
    by (intro ev_keeps_intros; simp; intro ev_keeps_free_fd';
      auto simp: upd_fd_def bind_eq_Some_conv sys_call_def item_epollfd_def Let_def split: if_splits prod.splits)
qed

lemma ev_keeps_none [simp]: "ev_keeps R p st None"
  by (simp add: ev_keeps_def)

lemma ev_keeps_ev_fd_set_handler: "ev_keeps_st st (ev_fd_set_handler a h c st)"
  unfolding ev_fd_set_handler_def by (intro ev_keeps_intros) simp_all

lemma ev_keeps_ev_fd_set_events: "ev_keeps_st st (ev_fd_set_events sys a events st)"
  unfolding ev_fd_set_events_def by (intro ev_keeps_intros) simp_all

text \<open>New items.\<close>

lemma ev_rel_new:
  assumes "ev_mgr st = Some m" and "ev_mgr st' = Some m'" and "mgr_same m (m'\<lparr>mg_efds := mg_efds m, mg_timers := mg_timers m, mg_preparers := mg_preparers m\<rparr>)"
    and "mg_timers m' = mg_timers m \<or> mg_timers m' = ev_fresh st # mg_timers m" and "ev_fresh st \<le> ev_fresh st'"
  shows "ev_rel st st'"
  using assms(4)
proof
  assume "mg_timers m' = mg_timers m"
  then show ?thesis using assms by (intro ev_relI [where new = "[]" and ys = "mg_timers m" and m = m and m' = m']) (auto simp: mgr_same_def)
next
  assume "mg_timers m' = ev_fresh st # mg_timers m"
  then show ?thesis using assms by (intro ev_relI [where new = "[ev_fresh st]" and ys = "mg_timers m" and m = m and m' = m']) (auto simp: mgr_same_def)
qed

lemma below_fresh: "below n M \<Longrightarrow> M n = None"
  by (simp add: below_def)

lemmas ok_new = below_new below_Suc below_fresh fds_ok_new tms_ok_new pps_ok_new

lemma step_new_fd:
  assumes "ev_mgr st = Some m" and "fd_ok e"
  shows "ev_step_ok st (st\<lparr>ev_mgr := Some (m\<lparr>mg_efds := ev_fresh st # mg_efds m, mg_efds_changed := True\<rparr>),
    ev_fds := (ev_fds st)(ev_fresh st \<mapsto> e), ev_fresh := Suc (ev_fresh st)\<rparr>)"
    (is "ev_step_ok st ?st'")
  unfolding ev_step_ok_def
proof (intro impI conjI)
  show "ev_ok st \<Longrightarrow> ev_ok ?st'"
    using assms by (auto simp: ev_ok_def ev_list_def no_wake_def simp del: fun_upd_apply intro: ok_new)
  show "ev_rel st ?st'" by (rule ev_rel_new [OF assms(1)], simp, simp_all add: mgr_same_def)
qed

lemma step_new_timer:
  assumes "ev_mgr st = Some m" and "timer_ok t"
  shows "ev_step_ok st (st\<lparr>ev_timers := (ev_timers st)(ev_fresh st \<mapsto> t), ev_fresh := Suc (ev_fresh st),
    ev_mgr := Some (m\<lparr>mg_timers := ev_fresh st # mg_timers m\<rparr>)\<rparr>)"
    (is "ev_step_ok st ?st'")
  unfolding ev_step_ok_def
proof (intro impI conjI)
  show "ev_ok st \<Longrightarrow> ev_ok ?st'"
    using assms by (auto simp: ev_ok_def ev_list_def no_wake_def simp del: fun_upd_apply intro: ok_new)
  show "ev_rel st ?st'" by (rule ev_rel_new [OF assms(1)], simp, simp_all add: mgr_same_def)
qed

lemma step_new_prep:
  assumes "ev_mgr st = Some m" and "pr_mgr p"
  shows "ev_step_ok st (st\<lparr>ev_mgr := Some (m\<lparr>mg_preparers := ev_fresh st # mg_preparers m\<rparr>),
    ev_preps := (ev_preps st)(ev_fresh st \<mapsto> p), ev_fresh := Suc (ev_fresh st)\<rparr>)"
    (is "ev_step_ok st ?st'")
  unfolding ev_step_ok_def
proof (intro impI conjI)
  show "ev_ok st \<Longrightarrow> ev_ok ?st'"
    using assms by (auto simp: ev_ok_def ev_list_def no_wake_def simp del: fun_upd_apply intro: ok_new)
  show "ev_rel st ?st'" by (rule ev_rel_new [OF assms(1)], simp, simp_all add: mgr_same_def)
qed

lemma ev_keeps_ev_mgr_add_fd: "ev_keeps ev_step_ok (\<lambda>r. snd (snd r)) st (ev_mgr_add_fd sys fd events h c au ac st)"
  unfolding ev_mgr_add_fd_def
  by (intro ev_keeps_intros; auto simp: case_prod_beta Let_def upd_mgr_def bind_eq_Some_conv fd_ok_def split: bind_splits intro!: step_new_fd)

lemma ev_keeps_ev_mgr_add_prepare: "ev_keeps ev_step_ok (\<lambda>r. snd (snd r)) st (ev_mgr_add_prepare sys h c st)"
  unfolding ev_mgr_add_prepare_def
  by (intro ev_keeps_intros; auto simp: case_prod_beta Let_def upd_mgr_def bind_eq_Some_conv split: bind_splits intro!: step_new_prep)

text \<open>The cleanups.\<close>

lemma without_insert: "without D (M(a := None)) = without (insert a D) M"
  by (auto simp: without_def)

lemma without_empty [simp]: "without {} M = M"
  by (simp add: without_def)

lemma filter_insert: "a \<notin> set xs \<Longrightarrow> filter (\<lambda>b. b \<notin> insert a D) (a # xs) = filter (\<lambda>b. b \<notin> D) xs"
  by (auto intro: filter_cong)

lemma efds_sweep_eq:
  "efds_sweep sys ep xs st = Some (kept, st') \<Longrightarrow> distinct xs \<Longrightarrow>
    \<exists>D k. D \<subseteq> set xs \<and> kept = filter (\<lambda>a. a \<notin> D) xs \<and> st' = st\<lparr>ev_fds := without D (ev_fds st), ev_kern := k\<rparr>"
proof (induction xs arbitrary: st kept st')
  case Nil
  then show ?case by (intro exI [of _ "{}"] exI [of _ "ev_kern st"]) simp
next
  case (Cons a xs)
  obtain e where e: "ev_fds st a = Some e" using Cons.prems(1) by (auto simp: bind_eq_Some_conv)
  show ?case
  proof (cases "fd_is_deleted e")
    case True
    have "\<exists>k1. efds_sweep sys ep xs (st\<lparr>ev_kern := k1, ev_fds := (ev_fds st)(a := None)\<rparr>) = Some (kept, st')"
      using Cons.prems(1) e True
      by (auto simp: sys_call_def Let_def simp del: fun_upd_apply split: prod.splits if_splits) (rule exI [of _ "ev_kern st"], simp)+
    then obtain k1 where "efds_sweep sys ep xs (st\<lparr>ev_kern := k1, ev_fds := (ev_fds st)(a := None)\<rparr>) = Some (kept, st')" ..
    from Cons.IH [OF this] Cons.prems(2) obtain D k where D: "D \<subseteq> set xs" "kept = filter (\<lambda>a. a \<notin> D) xs"
      "st' = st\<lparr>ev_fds := without D ((ev_fds st)(a := None)), ev_kern := k\<rparr>" by (auto simp del: fun_upd_apply)
    have "insert a D \<subseteq> set (a # xs)" using D(1) by auto
    moreover have "kept = filter (\<lambda>b. b \<notin> insert a D) (a # xs)" using filter_insert [of a xs D] Cons.prems(2) D(2) by simp
    moreover have "st' = st\<lparr>ev_fds := without (insert a D) (ev_fds st), ev_kern := k\<rparr>" using D(3) by (simp only: without_insert)
    ultimately show ?thesis by blast
  next
    case False
    obtain kept' where "efds_sweep sys ep xs st = Some (kept', st')" and k: "kept = a # kept'"
      using Cons.prems(1) e False by (auto simp: bind_eq_Some_conv)
    from Cons.IH [OF this(1)] Cons.prems(2) obtain D k where D: "D \<subseteq> set xs" "kept' = filter (\<lambda>a. a \<notin> D) xs"
      "st' = st\<lparr>ev_fds := without D (ev_fds st), ev_kern := k\<rparr>" by auto
    then show ?thesis using Cons.prems(2) k by (intro exI [of _ D] exI [of _ k]) auto
  qed
qed

lemma timers_sweep_eq:
  "timers_sweep xs st = Some (kept, st') \<Longrightarrow> distinct xs \<Longrightarrow>
    \<exists>D. D \<subseteq> set xs \<and> kept = filter (\<lambda>a. a \<notin> D) xs \<and> st' = st\<lparr>ev_timers := without D (ev_timers st)\<rparr>"
proof (induction xs arbitrary: st kept st')
  case Nil
  then show ?case by (intro exI [of _ "{}"]) simp
next
  case (Cons a xs)
  obtain t where t: "ev_timers st a = Some t" using Cons.prems(1) by (auto simp: bind_eq_Some_conv)
  show ?case
  proof (cases "tm_is_deleted t")
    case True
    have "timers_sweep xs (st\<lparr>ev_timers := (ev_timers st)(a := None)\<rparr>) = Some (kept, st')"
      using Cons.prems(1) t True by simp
    from Cons.IH [OF this] Cons.prems(2) obtain D where D: "D \<subseteq> set xs" "kept = filter (\<lambda>a. a \<notin> D) xs"
      "st' = st\<lparr>ev_timers := without D ((ev_timers st)(a := None))\<rparr>" by (auto simp del: fun_upd_apply)
    have "insert a D \<subseteq> set (a # xs)" using D(1) by auto
    moreover have "kept = filter (\<lambda>b. b \<notin> insert a D) (a # xs)" using filter_insert [of a xs D] Cons.prems(2) D(2) by simp
    moreover have "st' = st\<lparr>ev_timers := without (insert a D) (ev_timers st)\<rparr>" using D(3) by (simp only: without_insert)
    ultimately show ?thesis by blast
  next
    case False
    obtain kept' where "timers_sweep xs st = Some (kept', st')" and k: "kept = a # kept'"
      using Cons.prems(1) t False by (auto simp: bind_eq_Some_conv)
    from Cons.IH [OF this(1)] Cons.prems(2) obtain D where D: "D \<subseteq> set xs" "kept' = filter (\<lambda>a. a \<notin> D) xs"
      "st' = st\<lparr>ev_timers := without D (ev_timers st)\<rparr>" by auto
    then show ?thesis using Cons.prems(2) k by (intro exI [of _ D]) auto
  qed
qed

lemma preparers_sweep_eq:
  "preparers_sweep xs st = Some (kept, st') \<Longrightarrow> distinct xs \<Longrightarrow>
    \<exists>D. D \<subseteq> set xs \<and> kept = filter (\<lambda>a. a \<notin> D) xs \<and> st' = st\<lparr>ev_preps := without D (ev_preps st)\<rparr>"
proof (induction xs arbitrary: st kept st')
  case Nil
  then show ?case by (intro exI [of _ "{}"]) simp
next
  case (Cons a xs)
  obtain p where p: "ev_preps st a = Some p" using Cons.prems(1) by (auto simp: bind_eq_Some_conv)
  show ?case
  proof (cases "pr_refcount p = 0")
    case True
    have "preparers_sweep xs (st\<lparr>ev_preps := (ev_preps st)(a := None)\<rparr>) = Some (kept, st')"
      using Cons.prems(1) p True by simp
    from Cons.IH [OF this] Cons.prems(2) obtain D where D: "D \<subseteq> set xs" "kept = filter (\<lambda>a. a \<notin> D) xs"
      "st' = st\<lparr>ev_preps := without D ((ev_preps st)(a := None))\<rparr>" by (auto simp del: fun_upd_apply)
    have "insert a D \<subseteq> set (a # xs)" using D(1) by auto
    moreover have "kept = filter (\<lambda>b. b \<notin> insert a D) (a # xs)" using filter_insert [of a xs D] Cons.prems(2) D(2) by simp
    moreover have "st' = st\<lparr>ev_preps := without (insert a D) (ev_preps st)\<rparr>" using D(3) by (simp only: without_insert)
    ultimately show ?thesis by blast
  next
    case False
    obtain kept' where "preparers_sweep xs st = Some (kept', st')" and k: "kept = a # kept'"
      using Cons.prems(1) p False by (auto simp: bind_eq_Some_conv)
    from Cons.IH [OF this(1)] Cons.prems(2) obtain D where D: "D \<subseteq> set xs" "kept' = filter (\<lambda>a. a \<notin> D) xs"
      "st' = st\<lparr>ev_preps := without D (ev_preps st)\<rparr>" by auto
    then show ?thesis using Cons.prems(2) k by (intro exI [of _ D]) auto
  qed
qed

lemma tms_ok_filter: "tms_ok T xs \<Longrightarrow> tms_ok (without D T) (filter (\<lambda>a. a \<notin> D) xs)"
  by (auto intro: tms_ok_without)

lemma ev_keeps_efds_cleanup: "ev_keeps_st st (efds_cleanup sys st)"
  unfolding ev_keeps_def ev_step_ok_def
proof (intro allI impI)
  fix st'
  assume r: "efds_cleanup sys st = Some st'" and ok: "ev_ok st"
  obtain m where m: "ev_mgr st = Some m" using r by (auto simp: efds_cleanup_def bind_eq_Some_conv)
  show "ev_ok st' \<and> ev_rel st st'"
  proof (cases "mg_efds_cleanup m")
    case True
    obtain kept st1 where s: "efds_sweep sys (mg_epollfd m) (mg_efds m) st = Some (kept, st1)"
      and u: "upd_mgr (\<lambda>m. m\<lparr>mg_efds := kept, mg_efds_cleanup := False\<rparr>) st1 = Some st'"
      using r m True by (auto simp: efds_cleanup_def bind_eq_Some_conv)
    have "distinct (mg_efds m)" using ok m by (simp add: ev_ok_def ev_list_def fds_ok_def)
    from efds_sweep_eq [OF s this] obtain D k where D: "kept = filter (\<lambda>a. a \<notin> D) (mg_efds m)"
      "st1 = st\<lparr>ev_fds := without D (ev_fds st), ev_kern := k\<rparr>" by blast
    have st': "st' = st\<lparr>ev_fds := without D (ev_fds st), ev_kern := k, ev_mgr := Some (m\<lparr>mg_efds := kept, mg_efds_cleanup := False\<rparr>)\<rparr>"
      using u m unfolding D(2) by (simp add: upd_mgr_def)
    have "ev_ok st'" using ok m unfolding st' D(1) by (simp add: ev_ok_def ev_list_def no_wake_def below_without fds_ok_without)
    moreover have "ev_rel st st'" unfolding st' by (rule ev_rel_new [OF m], simp, simp_all add: mgr_same_def)
    ultimately show ?thesis ..
  next
    case False
    then show ?thesis using r m ok by (simp add: efds_cleanup_def)
  qed
qed

lemma ev_keeps_timers_cleanup: "ev_keeps_st st (timers_cleanup st)"
  unfolding ev_keeps_def ev_step_ok_def
proof (intro allI impI)
  fix st'
  assume r: "timers_cleanup st = Some st'" and ok: "ev_ok st"
  obtain m where m: "ev_mgr st = Some m" using r by (auto simp: timers_cleanup_def bind_eq_Some_conv)
  show "ev_ok st' \<and> ev_rel st st'"
  proof (cases "mg_timers_cleanup m")
    case True
    obtain kept st1 where s: "timers_sweep (mg_timers m) st = Some (kept, st1)"
      and u: "upd_mgr (\<lambda>m. m\<lparr>mg_timers := kept, mg_timers_cleanup := False\<rparr>) st1 = Some st'"
      using r m True by (auto simp: timers_cleanup_def bind_eq_Some_conv)
    have "distinct (mg_timers m)" using ok m by (simp add: ev_ok_def ev_list_def tms_ok_def)
    from timers_sweep_eq [OF s this] obtain D where D: "kept = filter (\<lambda>a. a \<notin> D) (mg_timers m)"
      "st1 = st\<lparr>ev_timers := without D (ev_timers st)\<rparr>" by blast
    have st': "st' = st\<lparr>ev_timers := without D (ev_timers st), ev_mgr := Some (m\<lparr>mg_timers := kept, mg_timers_cleanup := False\<rparr>)\<rparr>"
      using u m unfolding D(2) by (simp add: upd_mgr_def)
    have "ev_ok st'" using ok m unfolding st' D(1)
      by (simp add: ev_ok_def ev_list_def no_wake_def below_without tms_ok_filter)
    moreover have "ev_rel st st'" using m unfolding st'
      by (intro ev_relI [where new = "[]" and ys = kept and m = m and m' = "m\<lparr>mg_timers := kept, mg_timers_cleanup := False\<rparr>"])
        (simp_all add: D(1))
    ultimately show ?thesis ..
  next
    case False
    then show ?thesis using r m ok by (simp add: timers_cleanup_def)
  qed
qed

lemma ev_keeps_preparers_cleanup: "ev_keeps_st st (preparers_cleanup st)"
  unfolding ev_keeps_def ev_step_ok_def
proof (intro allI impI)
  fix st'
  assume r: "preparers_cleanup st = Some st'" and ok: "ev_ok st"
  obtain m where m: "ev_mgr st = Some m" using r by (auto simp: preparers_cleanup_def bind_eq_Some_conv)
  show "ev_ok st' \<and> ev_rel st st'"
  proof (cases "mg_preparers_cleanup m")
    case True
    obtain kept st1 where s: "preparers_sweep (mg_preparers m) st = Some (kept, st1)"
      and u: "upd_mgr (\<lambda>m. m\<lparr>mg_preparers := kept, mg_preparers_cleanup := False\<rparr>) st1 = Some st'"
      using r m True by (auto simp: preparers_cleanup_def bind_eq_Some_conv)
    have "distinct (mg_preparers m)" using ok m by (simp add: ev_ok_def ev_list_def pps_ok_def)
    from preparers_sweep_eq [OF s this] obtain D where D: "kept = filter (\<lambda>a. a \<notin> D) (mg_preparers m)"
      "st1 = st\<lparr>ev_preps := without D (ev_preps st)\<rparr>" by blast
    have st': "st' = st\<lparr>ev_preps := without D (ev_preps st), ev_mgr := Some (m\<lparr>mg_preparers := kept, mg_preparers_cleanup := False\<rparr>)\<rparr>"
      using u m unfolding D(2) by (simp add: upd_mgr_def)
    have "ev_ok st'" using ok m unfolding st' D(1) by (simp add: ev_ok_def ev_list_def no_wake_def below_without pps_ok_without)
    moreover have "ev_rel st st'" unfolding st' by (rule ev_rel_new [OF m], simp, simp_all add: mgr_same_def)
    ultimately show ?thesis ..
  next
    case False
    then show ?thesis using r m ok by (simp add: preparers_cleanup_def)
  qed
qed

text \<open>Callbacks whose effect on the manager is that of the calls that they are allowed.\<close>

definition cbs_ok :: "'k ev_cbs \<Rightarrow> bool" where
  "cbs_ok cbs \<longleftrightarrow> (\<forall>h a fd ev c st. ev_keeps_st st (cb_fd cbs h a fd ev c st)) \<and>
     (\<forall>h a c d st. ev_keeps_st st (cb_timer cbs h a c d st)) \<and> (\<forall>h a c st. ev_keeps_st st (cb_prepare cbs h a c st))"

lemma ev_keeps_fd_dispatch:
  assumes "cbs_ok cbs"
  shows "ev_keeps_st st (fd_dispatch sys cbs a events st)"
proof -
  have c: "ev_keeps_st st (cb_fd cbs h a fd ev c st)" for h a fd ev c st using assms by (simp add: cbs_ok_def)
  show ?thesis unfolding fd_dispatch_def by (intro ev_keeps_intros c ev_keeps_ev_fd_unref; simp)
qed

lemma ev_keeps_efds_prepare_loop: "ev_keeps_rc st (efds_prepare_loop sys ep xs rc st)"
proof (induction xs arbitrary: rc st)
  case (Cons a xs)
  show ?case unfolding efds_prepare_loop.simps by (intro ev_keeps_intros Cons.IH; simp)
qed simp

lemma ev_keeps_efds_prepare: "ev_keeps_rc st (efds_prepare sys st)"
  unfolding efds_prepare_def by (intro ev_keeps_intros ev_keeps_efds_prepare_loop; simp)

lemma call_case: "(\<And>r st1. sys_call f st = (r, st1) \<Longrightarrow> ev_keeps ev_step_ok p st1 (g r st1)) \<Longrightarrow>
    ev_keeps ev_step_ok p st (case sys_call f st of (r, st1) \<Rightarrow> g r st1)"
  using so.call_let [of f st p g] by simp

lemma ev_keeps_timer_arm: "ev_keeps_rc st (timer_arm sys w st)"
  unfolding timer_arm_def by (intro ev_keeps_intros; simp; intro call_case ev_keeps_intros; simp)

lemma ev_keeps_timer_set: "ev_keeps_rc st (timer_set sys upper st)"
  unfolding timer_set_def by (intro ev_keeps_intros ev_keeps_timers_cleanup ev_keeps_timer_arm)

lemma step_now: "now_ms sys st = (now, st1) \<Longrightarrow> ev_step_ok st st1"
  by (cases "sys_call (es_clock sys) st") (auto simp: now_ms_def intro: so.call)

lemma ev_keeps_add_timer_set:
  assumes "timer_ok t"
  shows "ev_keeps_rc st (do {
       st \<leftarrow> upd_mgr (\<lambda>m. m\<lparr>mg_timers := ev_fresh st # mg_timers m\<rparr>)
         (st\<lparr>ev_timers := (ev_timers st)(ev_fresh st \<mapsto> t), ev_fresh := ev_fresh st + 1\<rparr>);
       timer_set sys TIME_MS_MAX st })"
proof (rule bind_st)
  show "ev_keeps_st st (upd_mgr (\<lambda>m. m\<lparr>mg_timers := ev_fresh st # mg_timers m\<rparr>)
         (st\<lparr>ev_timers := (ev_timers st)(ev_fresh st \<mapsto> t), ev_fresh := ev_fresh st + 1\<rparr>))"
    using step_new_timer [OF _ assms] by (auto simp: ev_keeps_def upd_mgr_def bind_eq_Some_conv)
qed (rule ev_keeps_timer_set)

lemma ev_keeps_ev_mgr_add_timer: "ev_keeps ev_step_ok (\<lambda>r. snd (snd r)) st (ev_mgr_add_timer sys ab s sm n p acc h c au st)"
proof -
  have t: "timer_ok \<lparr>tm_mgr = True, tm_handler = h, tm_closure = c, tm_next_ms = nx, tm_accuracy_ms = (if acc \<noteq> 0 then acc else 1),
         tm_period_ms = (if p \<noteq> 0 then p else DEFAULT_PERIOD_MS), tm_decount = n, tm_refcount = r, tm_is_active = True,
         tm_is_deleted = False, tm_auto_unref = au\<rparr>" for nx r
    by (simp add: timer_ok_def DEFAULT_PERIOD_MS_def word_neq_0_conv)
  obtain ok r st1 where m: "sys_call (es_malloc sys) st = ((ok, r), st1)" by (metis surj_pair)
  obtain s' st2 where s: "(if ab then (let (t, st) = sys_call (es_time sys) st1 in (s - t, st)) else (s, st1)) = (s', st2)" by fastforce
  obtain now st3 where n: "now_ms sys st2 = (now, st3)" by fastforce
  have "ev_step_ok st1 st2" using s by (auto split: if_splits prod.splits intro: so.call)
  then have st3: "ev_step_ok st st3" using so.call [OF m] step_now [OF n] so.trans by blast
  show ?thesis
  proof (cases ok)
    case False
    then show ?thesis using m so.call [OF m] by (simp add: ev_mgr_add_timer_def)
  next
    case ok: True
    show ?thesis
      unfolding ev_mgr_add_timer_def Let_def m prod.case s [unfolded Let_def] n
      using ok
      apply (simp only: not_True_eq_False if_False)
      apply (rule so.by_step [OF st3])
      apply (subst bind_assoc [symmetric])
      apply (rule bind_rc)
       apply (rule ev_keeps_add_timer_set)
       apply (rule t)
      apply (intro ev_keeps_intros; simp)
      done
  qed
qed

lemma ev_keeps_ev_timer_addref: "ev_keeps_st st (ev_timer_addref timer st)"
  unfolding ev_timer_addref_def by (intro ev_keeps_intros; simp)

lemma ev_keeps_ev_timer_unref: "ev_keeps_st st (ev_timer_unref timer st)"
  unfolding ev_timer_unref_def by (intro ev_keeps_intros; simp)

lemma ev_keeps_ev_prepare_addref: "ev_keeps_st st (ev_prepare_addref prep st)"
  unfolding ev_prepare_addref_def by (intro ev_keeps_intros; simp)

lemma pps_ok_free:
  assumes "pps_ok P xs" and "P a = Some p" and "\<not> pr_mgr p"
  shows "pps_ok (P(a := None)) xs"
proof -
  have a: "a \<notin> set xs" using assms by (auto simp: pps_ok_def)
  then have "filter (\<lambda>b. b \<notin> {a}) xs = xs" by (intro filter_True) auto
  then show ?thesis using pps_ok_without [OF assms(1), of "{a}"] by (simp add: without_def fun_upd_def)
qed

lemma step_free_prep:
  assumes "ev_preps st a = Some p" and "\<not> pr_mgr p"
  shows "ev_step_ok st (st\<lparr>ev_preps := (ev_preps st)(a := None)\<rparr>)"
proof -
  have "below (ev_fresh st) ((ev_preps st)(a := None))" if "ev_ok st" using that by (simp add: ev_ok_def below_def)
  then show ?thesis
    using pps_ok_free [where P = "ev_preps st" and a = a and p = p] assms by (simp add: ev_step_ok_def ev_ok_def ev_list_def ev_rel_same del: fun_upd_apply)
qed

lemma ev_keeps_ev_prepare_unref: "ev_keeps_st st (ev_prepare_unref prep st)"
  unfolding ev_prepare_unref_def by (intro ev_keeps_intros; simp add: step_free_prep)

lemma ev_keeps_do_cleanup: "ev_keeps_st st (do_cleanup sys st)"
  unfolding do_cleanup_def by (intro ev_keeps_intros ev_keeps_efds_cleanup ev_keeps_timers_cleanup ev_keeps_preparers_cleanup)

lemma ev_keeps_SomeD: "ev_keeps R p st r \<Longrightarrow> r = Some x \<Longrightarrow> R st (p x)"
  by (simp add: ev_keeps_def)

lemma preparers_prepare_loop_step:
  assumes "preparers_prepare_loop cbs prv st = Some st'"
  shows "cbs_ok cbs \<longrightarrow> ev_step_ok st st'"
  using assms
proof (rule preparers_prepare_loop.raw_induct [where P = "\<lambda>cbs prv st st'. cbs_ok cbs \<longrightarrow> ev_step_ok st st'", rotated], intro impI)
  fix loop cbs prv st st'
  assume IH: "\<And>cbs prv st st'. loop cbs prv st = Some st' \<Longrightarrow> cbs_ok cbs \<longrightarrow> ev_step_ok st st'" and c: "cbs_ok cbs"
    and r: "do {
     m \<leftarrow> ev_mgr st;
     cur \<leftarrow> link_get prv (mg_preparers m);
     case cur of
       None \<Rightarrow> Some st
     | Some a \<Rightarrow> do {
         p \<leftarrow> ev_preps st a;
         st \<leftarrow> (if pr_refcount p \<noteq> 0 then cb_prepare cbs (pr_handler p) a (pr_closure p) st else Some st);
         loop cbs (Some a) st
       }
   } = Some st'"
  have l: "ev_keeps_st st (loop cbs prv st)" for prv st using IH c by (auto simp: ev_keeps_def)
  have cb: "ev_keeps_st st (cb_prepare cbs h a cl st)" for h a cl st using c by (simp add: cbs_ok_def)
  show "ev_step_ok st st'"
    using r by (rule ev_keeps_SomeD [where p = "\<lambda>st. st", rotated]) (intro ev_keeps_intros cb l; simp)
qed

lemma ev_keeps_preparers_prepare: "cbs_ok cbs \<Longrightarrow> ev_keeps_st st (preparers_prepare cbs st)"
  by (auto simp: ev_keeps_def preparers_prepare_def dest: preparers_prepare_loop_step)

text \<open>
  The loop of the timers: what the handler does leaves the previous timer, when it is still there, before the
  current one.
\<close>

definition link_follows :: "nat option \<Rightarrow> nat \<Rightarrow> nat list \<Rightarrow> bool" where
  "link_follows prv a xs \<longleftrightarrow> (case prv of None \<Rightarrow> True | Some p \<Rightarrow> p \<in> set xs \<longrightarrow> (\<exists>us vs. xs = us @ p # vs \<and> a \<in> set vs))"

lemma link_get_follows:
  assumes "link_get prv xs = Some (Some a)"
  shows "a \<in> set xs \<and> link_follows prv a xs"
proof (cases prv)
  case None
  then show ?thesis using assms by (auto simp: link_get_def link_follows_def split: list.splits)
next
  case (Some p)
  then have p: "p \<in> set xs" using assms by (auto simp: link_get_def split: if_splits)
  then obtain us vs where xs: "xs = us @ p # vs" "p \<notin> set us" by (meson split_list_first)
  then have "dropWhile (\<lambda>x. x \<noteq> p) xs = p # vs" by (subst xs(1), subst dropWhile_append2) auto
  then have "a \<in> set vs" using assms Some p by (auto simp: link_get_def split: list.splits)
  then show ?thesis using Some xs by (auto simp: link_follows_def)
qed

lemma link_follows_subseq:
  assumes "link_follows prv a xs" and "subseq ys xs" and "distinct xs" and "a \<in> set ys"
  shows "link_follows prv a ys"
proof (cases prv)
  case (Some p)
  show ?thesis
    unfolding link_follows_def Some option.case
  proof
    assume p: "p \<in> set ys"
    then have "p \<in> set xs" using subseq_set_sub [OF assms(2)] by blast
    then obtain us vs where xs: "xs = us @ p # vs" "a \<in> set vs" using assms(1) Some by (auto simp: link_follows_def)
    obtain y1 y2 where y: "ys = y1 @ y2" "subseq y1 us" "subseq y2 (p # vs)" using assms(2) unfolding xs(1) by (rule subseq_appendE)
    have n: "p \<notin> set us" "a \<notin> set us" using assms(3) xs by auto
    then have "p \<in> set y2" "a \<in> set y2" using p assms(4) y subseq_set_sub [OF y(2)] by auto
    moreover have "a \<noteq> p" using assms(3) xs by auto
    moreover obtain h r where h: "y2 = h # r" using p y \<open>p \<in> set y2\<close> by (cases y2) auto
    moreover have "h = p"
    proof (rule ccontr)
      assume "h \<noteq> p"
      then have "subseq y2 vs" using y(3) h by (simp add: subseq_Cons2_iff)
      then show False using subseq_set_sub [of y2 vs] \<open>p \<in> set y2\<close> assms(3) xs(1) by auto
    qed
    ultimately have "\<exists>r. y2 = p # r \<and> a \<in> set r" by simp
    then show "\<exists>us vs. ys = us @ p # vs \<and> a \<in> set vs" using y(1) by blast
  qed
qed (simp add: link_follows_def)

lemma link_follows_new:
  assumes "link_follows prv a ys" and "\<forall>p. prv = Some p \<longrightarrow> p \<notin> set new"
  shows "link_follows prv a (new @ ys)"
proof (cases prv)
  case (Some p)
  have "\<exists>us vs. new @ ys = us @ p # vs \<and> a \<in> set vs" if pin: "p \<in> set ys"
  proof -
    obtain us vs where "ys = us @ p # vs" "a \<in> set vs" using assms(1) Some pin by (auto simp: link_follows_def)
    then have "new @ ys = (new @ us) @ p # vs" "a \<in> set vs" by simp_all
    then show ?thesis by blast
  qed
  then show ?thesis using Some assms(2) by (auto simp: link_follows_def)
qed (simp add: link_follows_def)

lemma link_skip_subseq:
  assumes "link_skip prv a xs = Some ys" and "link_follows prv a xs" and "distinct xs"
  shows "subseq ys xs \<and> a \<notin> set ys"
proof -
  have "a \<in> set xs" using assms(1) by (simp add: link_skip_def split: if_splits)
  then obtain us vs where xs: "xs = us @ a # vs" "a \<notin> set us" by (meson split_list_first)
  then have rest: "tl (dropWhile (\<lambda>x. x \<noteq> a) xs) = vs" by (subst xs(1), subst dropWhile_append2) auto
  show ?thesis
  proof (cases prv)
    case None
    then have "ys = vs" using assms(1) rest by (auto simp: link_skip_def Let_def split: if_splits)
    then show ?thesis using xs assms(3) by auto
  next
    case (Some p)
    then have p: "p \<in> set xs" and ys: "ys = takeWhile (\<lambda>x. x \<noteq> p) xs @ p # vs"
      using assms(1) rest by (auto simp: link_skip_def Let_def split: if_splits)
    obtain u1 v1 where x1: "xs = u1 @ p # v1" "a \<in> set v1" using assms(2) p Some by (auto simp: link_follows_def)
    have "p \<notin> set u1" using assms(3) x1(1) by simp
    then have t: "takeWhile (\<lambda>x. x \<noteq> p) xs = u1" by (subst x1(1), subst takeWhile_append2) auto
    obtain v2 v3 where v: "v1 = v2 @ a # v3" using x1(2) by (meson split_list)
    have "(u1 @ p # v2) @ a # v3 = us @ a # vs" using x1(1) xs(1) v by simp
    moreover have "a \<notin> set (u1 @ p # v2)" using assms(3) x1(1) v by auto
    moreover have "a \<notin> set v3" using assms(3) x1(1) v by auto
    ultimately have "v3 = vs" using append_Cons_eq_iff [of a "u1 @ p # v2" v3 us vs] by blast
    then have "ys = u1 @ [p] @ vs" "xs = u1 @ [p] @ (v2 @ [a]) @ vs" using ys t x1(1) v by simp_all
    moreover have "subseq vs ((v2 @ [a]) @ vs)" by (rule list_emb_append2) simp
    ultimately have "subseq ys xs" using list_emb_append_mono [of "(=)" u1 u1 "p # vs" "p # (v2 @ [a]) @ vs"] by simp
    moreover have "a \<notin> set ys" using assms(3) xs(1) x1 v \<open>v3 = vs\<close> ys t by auto
    ultimately show ?thesis ..
  qed
qed

lemma ok_timers: "ev_ok st \<Longrightarrow> ev_mgr st = Some m \<Longrightarrow> distinct (mg_timers m) \<and> (\<forall>a \<in> set (mg_timers m). a < ev_fresh st)"
  by (auto simp: ev_ok_def ev_list_def tms_ok_def below_def) (metis not_le option.distinct(1))

text \<open>Unlinking and freeing a timer.\<close>

lemma step_unlink_timer:
  assumes m: "ev_mgr st = Some m" and xs: "link_skip prv a (mg_timers m) = Some xs" and f: "link_follows prv a (mg_timers m)"
  shows "ev_step_ok st (st\<lparr>ev_mgr := Some (m\<lparr>mg_timers := xs\<rparr>), ev_timers := (ev_timers st)(a := None)\<rparr>)" (is "ev_step_ok st ?st'")
  unfolding ev_step_ok_def
proof (intro impI conjI)
  assume ok: "ev_ok st"
  have s: "subseq xs (mg_timers m)" "a \<notin> set xs" using link_skip_subseq [OF xs f] ok_timers [OF ok m] by auto
  have "tms_ok (without {a} (ev_timers st)) xs"
    using ok m s by (intro tms_ok_without [where xs = "mg_timers m"]) (auto simp: ev_ok_def ev_list_def)
  moreover have "without {a} (ev_timers st) = (ev_timers st)(a := None)" by (auto simp: without_def)
  moreover have "below (ev_fresh st) (without {a} (ev_timers st))" using ok by (intro below_without) (simp add: ev_ok_def)
  ultimately show "ev_ok ?st'" using ok m by (simp add: ev_ok_def ev_list_def no_wake_def del: fun_upd_apply)
  show "ev_rel st ?st'"
    using m s by (intro ev_relI [where new = "[]" and ys = xs and m = m and m' = "m\<lparr>mg_timers := xs\<rparr>"]) simp_all
qed

lemma link_follows_rel:
  assumes ok: "ev_ok st" "ev_ok st1" and r: "ev_rel st st1" and m: "ev_mgr st = Some m" "ev_mgr st1 = Some m1"
    and f: "link_follows prv a (mg_timers m)" and a: "a \<in> set (mg_timers m)" "a \<in> set (mg_timers m1)"
    and p: "\<forall>p. prv = Some p \<longrightarrow> p \<in> set (mg_timers m)"
  shows "link_follows prv a (mg_timers m1)"
proof -
  obtain new ys where x: "mg_timers m1 = new @ ys" "subseq ys (mg_timers m)" "\<forall>a \<in> set new. ev_fresh st \<le> a"
    using r m by (auto simp: ev_rel_def)
  have l: "\<forall>a \<in> set (mg_timers m). a < ev_fresh st" and d: "distinct (mg_timers m)" using ok_timers [OF ok(1) m(1)] by auto
  have n: "a \<notin> set new" "\<forall>p. prv = Some p \<longrightarrow> p \<notin> set new" using x(3) l a(1) p by (auto dest: leD)
  then have "a \<in> set ys" using a(2) x(1) by simp
  then show ?thesis using link_follows_new [OF link_follows_subseq [OF f x(2) d] n(2)] x(1) by simp
qed

lemma link_get_prv: "link_get (Some p) xs = Some y \<Longrightarrow> p \<in> set xs"
  by (simp add: link_get_def split: if_splits)

lemma link_skip_in: "link_skip prv a xs = Some ys \<Longrightarrow> a \<in> set xs"
  by (simp add: link_skip_def split: if_splits)

text \<open>A turn of the loop: the handler of the timer \<open>a\<close> if it is due, then the unlinking of \<open>a\<close> if it is deleted.\<close>

lemma timer_turn_step:
  assumes cb: "cbs_ok cbs" and m: "ev_mgr st = Some m" and g: "link_get prv (mg_timers m) = Some (Some a)"
    and t: "ev_timers st a = Some t"
    and l: "\<And>prv st. ev_keeps_st st (loop prv st)"
  shows "ev_keeps_st st (do {
         st \<leftarrow> (if tm_is_active t \<and> tm_next_ms t \<le> now then do {
             st \<leftarrow> cb_timer cbs (tm_handler t) a (tm_closure t) (sint (tm_decount t)) st;
             t \<leftarrow> ev_timers st a;
             t \<leftarrow> timer_step now t;
             Some (st\<lparr>ev_timers := (ev_timers st)(a \<mapsto> t)\<rparr>)
           } else Some st);
         t \<leftarrow> ev_timers st a;
         if \<not> tm_is_deleted t then loop (Some a) st
         else do {
           m \<leftarrow> ev_mgr st;
           xs \<leftarrow> link_skip prv a (mg_timers m);
           st \<leftarrow> upd_mgr (\<lambda>m. m\<lparr>mg_timers := xs\<rparr>) st;
           loop prv (st\<lparr>ev_timers := (ev_timers st)(a := None)\<rparr>)
         }
       })" (is "ev_keeps_st st (?first \<bind> ?rest)")
  unfolding ev_keeps_def
proof (intro allI impI)
  fix st'
  assume r: "?first \<bind> ?rest = Some st'"
  obtain st1 where st1: "?first = Some st1" and r1: "?rest st1 = Some st'" using r by (auto simp only: bind_eq_Some_conv)
  have c: "ev_keeps_st st (cb_timer cbs h a cl d st)" for h a cl d st using cb by (simp add: cbs_ok_def)
  have "ev_keeps_st st ?first"
  proof (rule so.cond)
    show "ev_keeps_st st (cb_timer cbs (tm_handler t) a (tm_closure t) (sint (tm_decount t)) st \<bind>
        (\<lambda>st. ev_timers st a \<bind> (\<lambda>t. timer_step now t \<bind> (\<lambda>t. Some (st\<lparr>ev_timers := (ev_timers st)(a \<mapsto> t)\<rparr>)))))"
    proof (rule bind_st [OF c])
      fix st2
      show "ev_keeps_st st2 (ev_timers st2 a \<bind> (\<lambda>t. timer_step now t \<bind> (\<lambda>t. Some (st2\<lparr>ev_timers := (ev_timers st2)(a \<mapsto> t)\<rparr>))))"
      proof (intro so.bind_val)
        fix u u' assume u: "ev_timers st2 a = Some u" "timer_step now u = Some u'"
        have "ev_keeps_st st2 (upd_timer a (\<lambda>t. if t = u then u' else t) st2)"
          by (rule ev_keeps_upd_timer) (use timer_step_ok [OF u(2)] in auto)
        then show "ev_keeps_st st2 (Some (st2\<lparr>ev_timers := (ev_timers st2)(a \<mapsto> u')\<rparr>))" using u(1) by (simp add: upd_timer_def)
      qed
    qed
  qed simp
  then have s1: "ev_step_ok st st1" using st1 by (rule ev_keeps_SomeD)
  show "ev_step_ok st st'"
    unfolding ev_step_ok_def
  proof (rule impI)
    assume ok: "ev_ok st"
    then have ok1: "ev_ok st1" "ev_rel st st1" using s1 by (auto simp: ev_step_ok_def)
    obtain t1 where t1: "ev_timers st1 a = Some t1" using r1 by (auto simp: bind_eq_Some_conv)
    have "ev_step_ok st1 st'"
    proof (cases "tm_is_deleted t1")
      case False
      then show ?thesis using r1 t1 ev_keeps_SomeD [OF l] by simp
    next
      case True
      obtain m1 xs where m1: "ev_mgr st1 = Some m1" "link_skip prv a (mg_timers m1) = Some xs"
        and r2: "loop prv (st1\<lparr>ev_mgr := Some (m1\<lparr>mg_timers := xs\<rparr>), ev_timers := (ev_timers st1)(a := None)\<rparr>) = Some st'"
        using r1 t1 True by (auto simp: bind_eq_Some_conv upd_mgr_def)
      have "link_follows prv a (mg_timers m1)"
        using link_get_follows [OF g] link_skip_in [OF m1(2)] link_get_prv g
        by (intro link_follows_rel [OF ok ok1 m m1(1)]) auto
      from step_unlink_timer [OF m1 this] ev_keeps_SomeD [OF l r2] show ?thesis by (rule so.trans)
    qed
    then show "ev_ok st' \<and> ev_rel st st'" using ok ok1 ev_rel_trans by (auto simp: ev_step_ok_def)
  qed
qed

lemma timer_dispatch_loop_step:
  assumes "timer_dispatch_loop cbs now prv st = Some st'"
  shows "cbs_ok cbs \<longrightarrow> ev_step_ok st st'"
  using assms
proof (rule timer_dispatch_loop.raw_induct [where P = "\<lambda>cbs now prv st st'. cbs_ok cbs \<longrightarrow> ev_step_ok st st'", rotated], intro impI, goal_cases)
  case (1 loop cbs now prv st st')
  have l: "ev_keeps_st st (loop cbs now prv st)" for prv st using 1 by (auto simp: ev_keeps_def)
  show ?case
    by (rule ev_keeps_SomeD [where p = "\<lambda>st. st", OF _ 1(2)])
      (intro so.bind_val ev_keeps_opt timer_turn_step; (assumption | rule l | simp add: 1))
qed

lemma ev_keeps_timer_dispatch: "cbs_ok cbs \<Longrightarrow> ev_keeps_st st (timer_dispatch sys cbs st)"
  by (cases "now_ms sys st") (auto simp: ev_keeps_def timer_dispatch_def dest!: timer_dispatch_loop_step intro: so.trans step_now)

lemma ev_keeps_timer_event: "cbs_ok cbs \<Longrightarrow> ev_keeps_rc st (timer_event sys cbs st)"
  unfolding timer_event_def by (intro ev_keeps_intros; simp add: case_prod_beta; (intro impI ev_keeps_intros ev_keeps_timer_dispatch; simp)?)

subsection \<open>The operations of the manager\<close>

text \<open>The state of the manager may change, but not to an event that is the wake-up.\<close>

abbreviation "stays_st \<equiv> ev_keeps stays_ok (\<lambda>st. st)"
abbreviation "stays_rc \<equiv> ev_keeps stays_ok snd"

lemma stays_bind_st: "stays_st st r \<Longrightarrow> (\<And>st1. r = Some st1 \<Longrightarrow> ev_keeps stays_ok p st1 (g st1)) \<Longrightarrow> ev_keeps stays_ok p st (r \<bind> g)"
  by (rule sy.bind)

lemma stays_bind_rc: "stays_rc st r \<Longrightarrow> (\<And>rc st1. r = Some (rc, st1) \<Longrightarrow> ev_keeps stays_ok p st1 (g rc st1)) \<Longrightarrow>
    ev_keeps stays_ok p st (r \<bind> (\<lambda>(rc, st). g rc st))"
  by (rule sy.bind [where q = snd]) auto

lemma stays_ret [simp]: "ev_keeps stays_ok p st (Some x) = stays_ok st (p x)"
  by (rule sy.ret)

lemmas stays_refl [simp] = sy.refl

lemma stays_upd_mgr:
  assumes "\<And>m. mgr_same (m\<lparr>mg_state := mg_state (f m), mg_event_ptr := mg_event_ptr (f m)\<rparr>) (f m)"
    and "\<And>m. mg_state (f m) \<noteq> Pending \<or> mg_event_ptr (f m) \<noteq> PMgr"
  shows "stays_st st (upd_mgr f st)"
  unfolding ev_keeps_def
proof (intro allI impI)
  fix st'
  assume "upd_mgr f st = Some st'"
  then obtain m where m: "ev_mgr st = Some m" "st' = st\<lparr>ev_mgr := Some (f m)\<rparr>" by (auto simp: upd_mgr_def bind_eq_Some_conv)
  show "stays_ok st st'"
    using m assms [of m] by (auto simp: stays_ok_def ev_ok_def ev_list_def no_wake_def mgr_same_def)
qed

lemma stays_set_state: "s \<noteq> Pending \<Longrightarrow> stays_st st (set_state s st)"
  unfolding set_state_def by (rule stays_upd_mgr) (simp_all add: mgr_same_def)

lemmas stays_intros = ev_keeps_opt stays_bind_st stays_bind_rc sy.cond sy.call_let stays_set_state

lemma stays_do_prepare:
  assumes "cbs_ok cbs"
  shows "stays_rc st (do_prepare sys cbs w st)"
  unfolding do_prepare_def
  by (intro sy.bind_val stays_intros ev_keeps_stays [OF ev_keeps_do_cleanup] ev_keeps_stays [OF ev_keeps_preparers_prepare [OF assms]]
      ev_keeps_stays [OF ev_keeps_timer_set] ev_keeps_stays [OF ev_keeps_efds_prepare]; simp)

lemma stays_waited:
  "stays_rc st (if rc < 1 then do {
         st \<leftarrow> upd_mgr (\<lambda>m. m\<lparr>mg_event_events := 0, mg_state := Idle\<rparr>) st;
         Some (if rc \<noteq> 0 then - es_errno sys (ev_kern st) else rc, st)
       }
       else do {
         st \<leftarrow> upd_mgr (\<lambda>m. m\<lparr>mg_event_ptr := p, mg_event_events := events, mg_state := Pending\<rparr>) st;
         if p = PMgr then (case sys_call (f st) st of (_, st) \<Rightarrow> do {
           st \<leftarrow> upd_mgr (\<lambda>m. m\<lparr>mg_event_events := 0, mg_state := Idle\<rparr>) st;
           Some (X_EINTR, st)
         })
         else Some (rc, st)
       })"
proof (cases "\<not> rc < 1 \<and> p = PMgr")
  case True
  show ?thesis
  proof (cases "ev_mgr st")
    case (Some m)
    let ?m = "m\<lparr>mg_event_ptr := PMgr, mg_event_events := 0, mg_state := Idle\<rparr>"
    have "stays_ok st (st\<lparr>ev_kern := k, ev_mgr := Some ?m\<rparr>)" for k
      using Some by (simp add: stays_ok_def ev_ok_def ev_list_def no_wake_def)
    then show ?thesis using True Some by (auto simp: upd_mgr_def sys_call_def Let_def split: prod.splits)
  qed (use True in \<open>simp add: upd_mgr_def ev_keeps_def\<close>)
next
  case False
  then show ?thesis by (intro stays_intros stays_upd_mgr; simp add: mgr_same_def)
qed

lemma stays_case:
  assumes "\<And>r st1. sys_call f st = (r, st1) \<Longrightarrow> ev_keeps stays_ok p st1 (g r st1)"
  shows "ev_keeps stays_ok p st (case sys_call f st of (r, st1) \<Rightarrow> g r st1)"
  using sy.call_let [of f st p g] assms by simp

lemma stays_do_wait: "stays_rc st (do_wait sys timeout st)"
  unfolding do_wait_def Let_def
  by (rule sy.bind_val, rule sy.cond, simp, rule stays_bind_st, rule stays_set_state, simp, rule stays_case,
      simp only: split: prod.split, intro allI impI, rule stays_waited)

lemma stays_do_dispatch:
  assumes "cbs_ok cbs"
  shows "stays_st st (do_dispatch sys cbs st)"
proof -
  have t: "stays_st st (map_option snd (timer_event sys cbs st))" for st
    by (rule sy.map_state [OF ev_keeps_stays [OF ev_keeps_timer_event [OF assms]]]) simp
  show ?thesis
    unfolding do_dispatch_def
    by (intro sy.bind_val stays_intros; simp split: ev_ptr.splits; intro allI impI conjI t ev_keeps_stays [OF ev_keeps_fd_dispatch [OF assms]]; simp)
qed

lemma stays_ev_mgr_prepare_with_wakeup: "cbs_ok cbs \<Longrightarrow> stays_rc st (ev_mgr_prepare_with_wakeup sys cbs w st)"
  unfolding ev_mgr_prepare_with_wakeup_def
  by (cases "now_ms sys st") (auto intro: stays_do_prepare sy.by_step [OF step_now [THEN ev_keeps_stays [of "\<lambda>x. x" st "Some y" for st y, simplified]]])

lemma stays_ev_mgr_run: "cbs_ok cbs \<Longrightarrow> stays_rc st (ev_mgr_run sys cbs timeout st)"
  unfolding ev_mgr_run_def by (intro stays_intros stays_do_prepare stays_do_wait stays_do_dispatch; simp)

lemma ev_keeps_ev_mgr_addref: "ev_keeps_st st (ev_mgr_addref mgr st)"
  unfolding ev_mgr_addref_def by (intro ev_keeps_intros; simp)

lemma ev_keeps_ev_mgr_wakeup: "ev_keeps_st st (ev_mgr_wakeup sys st)"
  unfolding ev_mgr_wakeup_def by (intro ev_keeps_intros; simp)

lemma ev_keeps_ev_mgr_try_change_holder: "ev_keeps_rc st (ev_mgr_try_change_holder h n st)"
  unfolding ev_mgr_try_change_holder_def by (intro ev_keeps_intros; simp)

lemma ev_ok_released:
  assumes "ev_ok st" and "ev_mgr st = Some m"
  shows "ev_ok (st\<lparr>
      ev_preps := (\<lambda>a. if a \<in> set (mg_preparers m) then map_option (\<lambda>p. p\<lparr>pr_mgr := False\<rparr>) (ev_preps st a) else ev_preps st a),
      ev_timers := (\<lambda>a. if a \<in> set (mg_timers m) then map_option (\<lambda>t. t\<lparr>tm_mgr := False\<rparr>) (ev_timers st a) else ev_timers st a),
      ev_fds := (\<lambda>a. if a \<in> set (mg_efds m) then map_option (\<lambda>e. e\<lparr>fd_mgr := False\<rparr>) (ev_fds st a) else ev_fds st a),
      ev_kern := k, ev_mgr := None\<rparr>)"
proof -
  have F: "fds_ok (\<lambda>a. if a \<in> set (mg_efds m) then map_option (\<lambda>e. e\<lparr>fd_mgr := False\<rparr>) (ev_fds st a) else ev_fds st a) []"
    using assms by (auto simp: ev_ok_def ev_list_def fds_ok_def split: if_splits)
  have P: "pps_ok (\<lambda>a. if a \<in> set (mg_preparers m) then map_option (\<lambda>p. p\<lparr>pr_mgr := False\<rparr>) (ev_preps st a) else ev_preps st a) []"
    using assms by (auto simp: ev_ok_def ev_list_def pps_ok_def split: if_splits)
  have B: "below (ev_fresh st) (\<lambda>a. if a \<in> S then map_option f (M a) else M a)" if "below (ev_fresh st) M"
    for S f and M :: "nat \<Rightarrow> 'x option" using that by (simp add: below_def)
  show ?thesis
    using assms(1) F P by (simp add: ev_ok_def ev_list_def no_wake_def tms_ok_def B)
qed

lemma stays_ev_mgr_unref: "stays_st st (ev_mgr_unref sys mgr st)"
proof (cases mgr)
  case True
  have rel: "stays_st st1 (do {
        m \<leftarrow> ev_mgr st1;
        if mg_refcount m \<noteq> 0 then Some st1
        else do {
          let st = st1\<lparr>
            ev_preps := (\<lambda>a. if a \<in> set (mg_preparers m) then map_option (\<lambda>p. p\<lparr>pr_mgr := False\<rparr>) (ev_preps st1 a) else ev_preps st1 a),
            ev_timers := (\<lambda>a. if a \<in> set (mg_timers m) then map_option (\<lambda>t. t\<lparr>tm_mgr := False\<rparr>) (ev_timers st1 a) else ev_timers st1 a),
            ev_fds := (\<lambda>a. if a \<in> set (mg_efds m) then map_option (\<lambda>e. e\<lparr>fd_mgr := False\<rparr>) (ev_fds st1 a) else ev_fds st1 a)\<rparr>;
          let (_, st) = sys_call (es_close sys (mg_epollfd m)) st;
          let (_, st) = sys_call (es_close sys (mg_eventfd m)) st;
          let (_, st) = (if 0 \<le> mg_timerfd m then sys_call (es_close sys (mg_timerfd m)) st else ((), st));
          Some (st\<lparr>ev_mgr := None\<rparr>)
        } })" for st1
  proof (intro sy.bind_val sy.cond)
    fix m assume m: "ev_mgr st1 = Some m"
    note R = ev_ok_released [OF _ m]
    show "stays_st st1 (do {
          let st = st1\<lparr>
            ev_preps := (\<lambda>a. if a \<in> set (mg_preparers m) then map_option (\<lambda>p. p\<lparr>pr_mgr := False\<rparr>) (ev_preps st1 a) else ev_preps st1 a),
            ev_timers := (\<lambda>a. if a \<in> set (mg_timers m) then map_option (\<lambda>t. t\<lparr>tm_mgr := False\<rparr>) (ev_timers st1 a) else ev_timers st1 a),
            ev_fds := (\<lambda>a. if a \<in> set (mg_efds m) then map_option (\<lambda>e. e\<lparr>fd_mgr := False\<rparr>) (ev_fds st1 a) else ev_fds st1 a)\<rparr>;
          let (_, st) = sys_call (es_close sys (mg_epollfd m)) st;
          let (_, st) = sys_call (es_close sys (mg_eventfd m)) st;
          let (_, st) = (if 0 \<le> mg_timerfd m then sys_call (es_close sys (mg_timerfd m)) st else ((), st));
          Some (st\<lparr>ev_mgr := None\<rparr>)
        })"
      by (auto simp: ev_keeps_def stays_ok_def sys_call_def Let_def split: prod.splits if_splits dest!: R)
  qed simp
  show ?thesis
    unfolding ev_mgr_unref_def using True
    by (simp only: not_True_eq_False if_False) (rule stays_bind_st [OF ev_keeps_stays [OF ev_keeps_do_cleanup]],
        rule stays_bind_st [OF ev_keeps_stays [OF ev_keeps_upd_mgr]], simp, rule rel)
qed (simp add: ev_mgr_unref_def)

lemma ev_mgr_create_ok: "ev_mgr_create sys k = (0, st) \<Longrightarrow> ev_ok st"
  by (auto simp: ev_mgr_create_def sys_call_def Let_def ev_ok_def ev_list_def no_wake_def below_def fds_ok_def tms_ok_def pps_ok_def
      split: prod.splits if_splits)

subsection \<open>Reachable states\<close>

text \<open>The calls that a callback may use: those that keep the manager, its state and its event.\<close>

inductive ev_user :: "'k ev_sys \<Rightarrow> 'k evst \<Rightarrow> 'k evst \<Rightarrow> bool" for sys where
  add_fd: "ev_mgr_add_fd sys fd events h c au ac st = Some (rc, a, st') \<Longrightarrow> ev_user sys st st'"
| fd_addref: "ev_fd_addref efd st = Some st' \<Longrightarrow> ev_user sys st st'"
| fd_unref: "ev_fd_unref sys efd st = Some st' \<Longrightarrow> ev_user sys st st'"
| fd_set_events: "ev_fd_set_events sys b events st = Some st' \<Longrightarrow> ev_user sys st st'"
| fd_set_handler: "ev_fd_set_handler b h c st = Some st' \<Longrightarrow> ev_user sys st st'"
| add_timer: "ev_mgr_add_timer sys ab s sm n p acc h c au st = Some (rc, a, st') \<Longrightarrow> ev_user sys st st'"
| timer_addref: "ev_timer_addref timer st = Some st' \<Longrightarrow> ev_user sys st st'"
| timer_unref: "ev_timer_unref timer st = Some st' \<Longrightarrow> ev_user sys st st'"
| add_prepare: "ev_mgr_add_prepare sys h c st = Some (rc, a, st') \<Longrightarrow> ev_user sys st st'"
| prepare_addref: "ev_prepare_addref prep st = Some st' \<Longrightarrow> ev_user sys st st'"
| prepare_unref: "ev_prepare_unref prep st = Some st' \<Longrightarrow> ev_user sys st st'"
| addref: "ev_mgr_addref b st = Some st' \<Longrightarrow> ev_user sys st st'"
| wakeup: "ev_mgr_wakeup sys st = Some st' \<Longrightarrow> ev_user sys st st'"
| change_holder: "ev_mgr_try_change_holder h n st = Some (r, st') \<Longrightarrow> ev_user sys st st'"
| world: "ev_user sys st (st\<lparr>ev_kern := k\<rparr>)"

text \<open>All the calls, in any order; a call whose model is \<open>None\<close> does not return or uses what is released.\<close>

inductive ev_reach :: "'k ev_sys \<Rightarrow> 'k ev_cbs \<Rightarrow> 'k evst \<Rightarrow> bool" for sys cbs where
  create: "ev_mgr_create sys k = (0, st) \<Longrightarrow> ev_reach sys cbs st"
| user: "ev_reach sys cbs st \<Longrightarrow> ev_user sys st st' \<Longrightarrow> ev_reach sys cbs st'"
| prepare: "ev_reach sys cbs st \<Longrightarrow> ev_mgr_prepare sys cbs st = Some (rc, st') \<Longrightarrow> ev_reach sys cbs st'"
| prepare_with_wakeup: "ev_reach sys cbs st \<Longrightarrow> ev_mgr_prepare_with_wakeup sys cbs w st = Some (rc, st') \<Longrightarrow> ev_reach sys cbs st'"
| wait: "ev_reach sys cbs st \<Longrightarrow> ev_mgr_wait sys timeout st = Some (rc, st') \<Longrightarrow> ev_reach sys cbs st'"
| dispatch: "ev_reach sys cbs st \<Longrightarrow> ev_mgr_dispatch sys cbs st = Some st' \<Longrightarrow> ev_reach sys cbs st'"
| run: "ev_reach sys cbs st \<Longrightarrow> ev_mgr_run sys cbs timeout st = Some (rc, st') \<Longrightarrow> ev_reach sys cbs st'"
| recover_run: "ev_reach sys cbs st \<Longrightarrow> ev_mgr_recover_run st = Some st' \<Longrightarrow> ev_reach sys cbs st'"
| unref: "ev_reach sys cbs st \<Longrightarrow> ev_mgr_unref sys b st = Some st' \<Longrightarrow> ev_reach sys cbs st'"

text \<open>Callbacks that use the manager by these calls only, as often as they want.\<close>

definition cbs_use :: "'k ev_sys \<Rightarrow> 'k ev_cbs \<Rightarrow> bool" where
  "cbs_use sys cbs \<longleftrightarrow> (\<forall>h a fd ev c st st'. cb_fd cbs h a fd ev c st = Some st' \<longrightarrow> (ev_user sys)\<^sup>*\<^sup>* st st') \<and>
     (\<forall>h a c d st st'. cb_timer cbs h a c d st = Some st' \<longrightarrow> (ev_user sys)\<^sup>*\<^sup>* st st') \<and>
     (\<forall>h a c st st'. cb_prepare cbs h a c st = Some st' \<longrightarrow> (ev_user sys)\<^sup>*\<^sup>* st st')"

lemma ev_user_step: "ev_user sys st st' \<Longrightarrow> ev_step_ok st st'"
proof (induction rule: ev_user.induct)
  case (world st k)
  then show ?case by (rule so.kern)
qed (use ev_keeps_SomeD [OF ev_keeps_ev_mgr_add_fd] ev_keeps_SomeD [OF ev_keeps_ev_fd_addref] ev_keeps_SomeD [OF ev_keeps_ev_fd_unref]
    ev_keeps_SomeD [OF ev_keeps_ev_fd_set_events] ev_keeps_SomeD [OF ev_keeps_ev_fd_set_handler] ev_keeps_SomeD [OF ev_keeps_ev_mgr_add_timer]
    ev_keeps_SomeD [OF ev_keeps_ev_timer_addref] ev_keeps_SomeD [OF ev_keeps_ev_timer_unref] ev_keeps_SomeD [OF ev_keeps_ev_mgr_add_prepare]
    ev_keeps_SomeD [OF ev_keeps_ev_prepare_addref] ev_keeps_SomeD [OF ev_keeps_ev_prepare_unref] ev_keeps_SomeD [OF ev_keeps_ev_mgr_addref]
    ev_keeps_SomeD [OF ev_keeps_ev_mgr_wakeup] ev_keeps_SomeD [OF ev_keeps_ev_mgr_try_change_holder] in fastforce)+

lemma ev_user_steps: "(ev_user sys)\<^sup>*\<^sup>* st st' \<Longrightarrow> ev_step_ok st st'"
  by (induction rule: rtranclp_induct) (auto intro: so.trans ev_user_step)

lemma cbs_use_ok: "cbs_use sys cbs \<Longrightarrow> cbs_ok cbs"
  unfolding cbs_use_def cbs_ok_def ev_keeps_def by (meson ev_user_steps)

lemma staysD: "ev_keeps stays_ok p st r \<Longrightarrow> r = Some x \<Longrightarrow> ev_ok st \<Longrightarrow> ev_ok (p x)"
  by (simp add: ev_keeps_def stays_ok_def)

lemma ev_reach_inv:
  assumes "cbs_use sys cbs" and "ev_reach sys cbs st"
  shows "ev_ok st"
  using assms(2)
proof (induction rule: ev_reach.induct)
  case (create k st)
  then show ?case by (rule ev_mgr_create_ok)
next
  case (user st st')
  then show ?case using ev_user_step by (auto simp: ev_step_ok_def)
next
  case (recover_run st st')
  have "stays_st st (set_state Idle st)" by (rule stays_set_state) simp
  from staysD [OF this] recover_run show ?case by (simp add: ev_mgr_recover_run_def)
qed (use cbs_use_ok [OF assms(1)] in \<open>auto simp: ev_mgr_prepare_def ev_mgr_wait_def ev_mgr_dispatch_def
    dest: staysD [OF stays_do_prepare] staysD [OF stays_ev_mgr_prepare_with_wakeup] staysD [OF stays_do_wait]
      staysD [OF stays_do_dispatch] staysD [OF stays_ev_mgr_run] staysD [OF stays_ev_mgr_unref]\<close>)

subsection \<open>Calls that always return in a well-formed state\<close>

definition all_in :: "(nat \<Rightarrow> 'a option) \<Rightarrow> nat list \<Rightarrow> bool" where
  "all_in M xs \<longleftrightarrow> (\<forall>a \<in> set xs. M a \<noteq> None)"

lemma all_in_free: "all_in M xs \<Longrightarrow> a \<notin> set xs \<Longrightarrow> all_in (M(a := None)) xs"
  by (auto simp: all_in_def)

lemma all_in_upd: "all_in M xs \<Longrightarrow> all_in (M(a \<mapsto> y)) xs"
  by (auto simp: all_in_def)

lemma all_in_Cons: "all_in M (a # xs) \<longleftrightarrow> (\<exists>x. M a = Some x) \<and> all_in M xs"
  by (auto simp: all_in_def)

lemma efds_sweep_total: "distinct xs \<Longrightarrow> all_in (ev_fds st) xs \<Longrightarrow> efds_sweep sys ep xs st \<noteq> None"
proof (induction xs arbitrary: st)
  case (Cons a xs)
  have "efds_sweep sys ep xs (st\<lparr>ev_kern := k, ev_fds := (ev_fds st)(a := None)\<rparr>) \<noteq> None"
    "efds_sweep sys ep xs (st\<lparr>ev_fds := (ev_fds st)(a := None)\<rparr>) \<noteq> None" "efds_sweep sys ep xs st \<noteq> None" for k
    using Cons.prems by (intro Cons.IH; simp add: all_in_Cons all_in_free del: fun_upd_apply)+
  then show ?case using Cons.prems(2) by (auto simp: all_in_Cons sys_call_def Let_def simp del: fun_upd_apply split: prod.splits)
qed simp

lemma timers_sweep_total: "distinct xs \<Longrightarrow> all_in (ev_timers st) xs \<Longrightarrow> timers_sweep xs st \<noteq> None"
proof (induction xs arbitrary: st)
  case (Cons a xs)
  have "timers_sweep xs (st\<lparr>ev_timers := (ev_timers st)(a := None)\<rparr>) \<noteq> None" "timers_sweep xs st \<noteq> None"
    using Cons.prems by (intro Cons.IH; simp add: all_in_Cons all_in_free del: fun_upd_apply)+
  then show ?case using Cons.prems(2) by (auto simp: all_in_Cons simp del: fun_upd_apply)
qed simp

lemma preparers_sweep_total: "distinct xs \<Longrightarrow> all_in (ev_preps st) xs \<Longrightarrow> preparers_sweep xs st \<noteq> None"
proof (induction xs arbitrary: st)
  case (Cons a xs)
  have "preparers_sweep xs (st\<lparr>ev_preps := (ev_preps st)(a := None)\<rparr>) \<noteq> None" "preparers_sweep xs st \<noteq> None"
    using Cons.prems by (intro Cons.IH; simp add: all_in_Cons all_in_free del: fun_upd_apply)+
  then show ?case using Cons.prems(2) by (auto simp: all_in_Cons simp del: fun_upd_apply)
qed simp

lemma ok_lists:
  assumes "ev_ok st" and "ev_mgr st = Some m"
  shows "distinct (mg_efds m)" "all_in (ev_fds st) (mg_efds m)" "distinct (mg_timers m)" "all_in (ev_timers st) (mg_timers m)"
    "distinct (mg_preparers m)" "all_in (ev_preps st) (mg_preparers m)"
  using assms by (fastforce simp: ev_ok_def ev_list_def fds_ok_def tms_ok_def pps_ok_def all_in_def)+

lemma stepD: "ev_keeps ev_step_ok p st r \<Longrightarrow> r = Some x \<Longrightarrow> ev_ok st \<Longrightarrow> ev_mgr st \<noteq> None \<Longrightarrow> ev_ok (p x) \<and> ev_mgr (p x) \<noteq> None"
  by (auto simp: ev_keeps_def ev_step_ok_def ev_rel_def)

lemma upd_mgr_total [simp]: "ev_mgr st \<noteq> None \<Longrightarrow> upd_mgr f st \<noteq> None"
  by (auto simp: upd_mgr_def)

text \<open>A call that returns in the well-formed states with a manager.\<close>

definition returns :: "('k evst \<Rightarrow> 'x option) \<Rightarrow> bool" where
  "returns f \<longleftrightarrow> (\<forall>st. ev_ok st \<and> ev_mgr st \<noteq> None \<longrightarrow> f st \<noteq> None)"

lemma returns_bind:
  assumes "returns f" and "\<And>st. ev_keeps ev_step_ok p st (f st)" and "\<And>x st. f st = Some x \<Longrightarrow> ev_ok (p x) \<Longrightarrow> ev_mgr (p x) \<noteq> None \<Longrightarrow> g x \<noteq> None"
  shows "returns (\<lambda>st. f st \<bind> g)"
  unfolding returns_def
proof (intro allI impI)
  fix st :: "'a evst"
  assume ok: "ev_ok st \<and> ev_mgr st \<noteq> None"
  then obtain x where x: "f st = Some x" using assms(1) by (auto simp: returns_def)
  then have "ev_ok (p x) \<and> ev_mgr (p x) \<noteq> None" using stepD [OF assms(2) x] ok by blast
  then show "f st \<bind> g \<noteq> None" using assms(3) [OF x] x by simp
qed

lemma returns_efds_cleanup: "returns (efds_cleanup sys)"
proof -
  have "efds_cleanup sys st \<noteq> None" if ok: "ev_ok st" and m: "ev_mgr st = Some m" for st :: "'a evst" and m
  proof -
    have d: "distinct (mg_efds m)" using ok_lists [OF ok m] by simp
    obtain kept st1 where k: "efds_sweep sys (mg_epollfd m) (mg_efds m) st = Some (kept, st1)"
      using efds_sweep_total ok_lists(1,2) [OF ok m] by fastforce
    then show ?thesis using efds_sweep_eq [OF k d] m by (auto simp: efds_cleanup_def upd_mgr_def)
  qed
  then show ?thesis by (auto simp: returns_def)
qed

lemma returns_timers_cleanup: "returns timers_cleanup"
proof -
  have "timers_cleanup st \<noteq> None" if ok: "ev_ok st" and m: "ev_mgr st = Some m" for st :: "'a evst" and m
  proof -
    have d: "distinct (mg_timers m)" using ok_lists [OF ok m] by simp
    obtain kept st1 where k: "timers_sweep (mg_timers m) st = Some (kept, st1)"
      using timers_sweep_total ok_lists(3,4) [OF ok m] by fastforce
    then show ?thesis using timers_sweep_eq [OF k d] m by (auto simp: timers_cleanup_def upd_mgr_def)
  qed
  then show ?thesis by (auto simp: returns_def)
qed

lemma returns_preparers_cleanup: "returns preparers_cleanup"
proof -
  have "preparers_cleanup st \<noteq> None" if ok: "ev_ok st" and m: "ev_mgr st = Some m" for st :: "'a evst" and m
  proof -
    have d: "distinct (mg_preparers m)" using ok_lists [OF ok m] by simp
    obtain kept st1 where k: "preparers_sweep (mg_preparers m) st = Some (kept, st1)"
      using preparers_sweep_total ok_lists(5,6) [OF ok m] by fastforce
    then show ?thesis using preparers_sweep_eq [OF k d] m by (auto simp: preparers_cleanup_def upd_mgr_def)
  qed
  then show ?thesis by (auto simp: returns_def)
qed

lemma returnsD: "returns f \<Longrightarrow> ev_ok st \<Longrightarrow> ev_mgr st \<noteq> None \<Longrightarrow> f st \<noteq> None"
  by (simp add: returns_def)

lemma returns_do_cleanup: "returns (do_cleanup sys)"
  unfolding do_cleanup_def
  by (rule returns_bind [OF returns_efds_cleanup ev_keeps_efds_cleanup]) (rule returnsD, rule returns_bind [OF returns_timers_cleanup ev_keeps_timers_cleanup],
    rule returnsD [OF returns_preparers_cleanup])

lemma all_some_total: "all_in M xs \<Longrightarrow> all_some (map M xs) \<noteq> None"
  by (induction xs) (auto simp: all_in_Cons)

lemma sys_call_parts: "sys_call f st = (r, st1) \<Longrightarrow> \<exists>k. st1 = st\<lparr>ev_kern := k\<rparr>"
  by (auto simp: sys_call_def Let_def split: prod.splits)

lemma returns_timer_arm: "returns (timer_arm sys w)"
  unfolding returns_def
  by (auto simp: timer_arm_def sys_call_def upd_mgr_def Let_def split: prod.splits)

lemma returns_timer_set: "returns (timer_set sys upper)"
  unfolding timer_set_def
proof (rule returns_bind [OF returns_timers_cleanup ev_keeps_timers_cleanup])
  fix st :: "'a evst"
  assume ok: "ev_ok st" and mo: "ev_mgr st \<noteq> None"
  then obtain m where m: "ev_mgr st = Some m" by blast
  obtain ts where "all_some (map (ev_timers st) (mg_timers m)) = Some ts" using all_some_total ok_lists(4) [OF ok m] by blast
  then show "ev_mgr st \<bind> (\<lambda>m. all_some (map (ev_timers st) (mg_timers m)) \<bind> (\<lambda>ts. timer_arm sys (timer_when (timer_slice ts 0 upper)) st)) \<noteq> None"
    using m returnsD [OF returns_timer_arm ok mo] by simp
qed

lemma efds_prepare_loop_total: "all_in (ev_fds st) xs \<Longrightarrow> efds_prepare_loop sys ep xs rc st \<noteq> None"
proof (induction xs arbitrary: rc st)
  case (Cons a xs)
  obtain e where e: "ev_fds st a = Some e" and A: "all_in (ev_fds st) xs" using Cons.prems by (auto simp: all_in_Cons)
  have 1: "efds_prepare_loop sys ep xs rc st \<noteq> None" for rc using A by (rule Cons.IH)
  have 2: "efds_prepare_loop sys ep xs rc (st\<lparr>ev_fds := (ev_fds st)(a \<mapsto> e'), ev_kern := k\<rparr>) \<noteq> None" for rc e' k
    by (rule Cons.IH) (simp add: all_in_upd [OF A] del: fun_upd_apply)
  show ?case using e 1 2 by (simp add: upd_fd_def sys_call_def Let_def split: prod.split del: fun_upd_apply not_None_eq)
qed simp

lemma returns_efds_prepare: "returns (efds_prepare sys)"
proof -
  have "efds_prepare sys st \<noteq> None" if ok: "ev_ok st" and m: "ev_mgr st = Some m" for st :: "'a evst" and m
    using efds_prepare_loop_total [of "st\<lparr>ev_mgr := Some (m\<lparr>mg_efds_changed := False\<rparr>)\<rparr>" "mg_efds m" sys "mg_epollfd m" 0]
      ok_lists(2) [OF ok m] m by (simp add: efds_prepare_def upd_mgr_def)
  then show ?thesis by (auto simp: returns_def)
qed

lemma no_preparers_loop: "ev_mgr st = Some m \<Longrightarrow> mg_preparers m = [] \<Longrightarrow> preparers_prepare cbs st = Some st"
  by (simp add: preparers_prepare_def preparers_prepare_loop.simps link_get_def)

definition no_preparers :: "'k evst \<Rightarrow> bool" where
  "no_preparers st \<longleftrightarrow> ev_list mg_preparers st = []"

lemma set_state_eq: "ev_mgr st = Some m \<Longrightarrow> set_state s st = Some (st\<lparr>ev_mgr := Some (m\<lparr>mg_state := s\<rparr>)\<rparr>)"
  by (simp add: set_state_def upd_mgr_def)

lemma efds_cleanup_preparers: "ev_ok st \<Longrightarrow> efds_cleanup sys st = Some st' \<Longrightarrow> ev_list mg_preparers st' = ev_list mg_preparers st"
  by (auto simp: efds_cleanup_def bind_eq_Some_conv upd_mgr_def ev_list_def dest!: efds_sweep_eq split: if_splits dest: ok_lists)

lemma timers_cleanup_preparers: "ev_ok st \<Longrightarrow> timers_cleanup st = Some st' \<Longrightarrow> ev_list mg_preparers st' = ev_list mg_preparers st"
  by (auto simp: timers_cleanup_def bind_eq_Some_conv upd_mgr_def ev_list_def dest!: timers_sweep_eq split: if_splits dest: ok_lists)

lemma preparers_cleanup_none: "no_preparers st \<Longrightarrow> preparers_cleanup st = Some st' \<Longrightarrow> no_preparers st'"
  by (auto simp: no_preparers_def preparers_cleanup_def bind_eq_Some_conv upd_mgr_def ev_list_def split: if_splits)

lemma do_cleanup_none:
  assumes "ev_ok st" and "no_preparers st" and "do_cleanup sys st = Some st'"
  shows "no_preparers st'"
proof -
  obtain st1 st2 where s: "efds_cleanup sys st = Some st1" "timers_cleanup st1 = Some st2" "preparers_cleanup st2 = Some st'"
    using assms(3) by (auto simp: do_cleanup_def bind_eq_Some_conv)
  have "ev_ok st1" using ev_keeps_SomeD [OF ev_keeps_efds_cleanup s(1)] assms(1) by (simp add: ev_step_ok_def)
  then show ?thesis
    using efds_cleanup_preparers [OF assms(1) s(1)] timers_cleanup_preparers [OF _ s(2)] preparers_cleanup_none [OF _ s(3)] assms(2)
    by (simp add: no_preparers_def)
qed

lemma returns_do_prepare:
  assumes ok: "ev_ok st" and mo: "ev_mgr st = Some m" and n: "no_preparers st"
  shows "do_prepare sys cbs w st \<noteq> None"
proof (cases "mg_state m \<noteq> Idle \<and> mg_state m \<noteq> Ready")
  case False
  let ?s = "st\<lparr>ev_mgr := Some (m\<lparr>mg_state := Preparing\<rparr>)\<rparr>"
  have s: "set_state Preparing st = Some ?s" using mo by (rule set_state_eq)
  have oks: "ev_ok ?s" by (rule staysD [OF stays_set_state s ok]) simp
  have ns: "no_preparers ?s" using n mo by (simp add: no_preparers_def ev_list_def)
  obtain st1 where c: "do_cleanup sys ?s = Some st1" using returnsD [OF returns_do_cleanup oks] by auto
  have 1: "ev_ok st1" "ev_mgr st1 \<noteq> None" using stepD [OF ev_keeps_do_cleanup c oks] by auto
  then obtain m1 where "ev_mgr st1 = Some m1" "mg_preparers m1 = []"
    using do_cleanup_none [OF oks ns c] by (auto simp: no_preparers_def ev_list_def)
  then have p: "preparers_prepare cbs st1 = Some st1" by (rule no_preparers_loop)
  obtain rc st2 where t: "timer_set sys w st1 = Some (rc, st2)" using returnsD [OF returns_timer_set 1] by fastforce
  have 2: "ev_ok st2" "ev_mgr st2 \<noteq> None" using stepD [OF ev_keeps_timer_set t 1] by auto
  obtain rc' st3 where e: "efds_prepare sys st2 = Some (rc', st3)" using returnsD [OF returns_efds_prepare 2] by fastforce
  have 3: "ev_mgr st3 \<noteq> None" using stepD [OF ev_keeps_efds_prepare e 2] by auto
  show ?thesis using False mo s c p t e 3 by (auto simp: do_prepare_def set_state_eq)
qed (use mo in \<open>simp add: do_prepare_def\<close>)

lemma returns_do_wait: "ev_mgr st = Some m \<Longrightarrow> do_wait sys timeout st \<noteq> None"
  by (auto simp: do_wait_def set_state_eq sys_call_def upd_mgr_def Let_def split: prod.split)

lemma returns_ev_mgr_unref:
  assumes "ev_ok st" and "ev_mgr st \<noteq> None"
  shows "ev_mgr_unref sys mgr st \<noteq> None"
proof -
  obtain st1 where c: "do_cleanup sys st = Some st1" using returnsD [OF returns_do_cleanup assms] by blast
  obtain m1 where "ev_mgr st1 = Some m1" using stepD [OF ev_keeps_do_cleanup c assms] by blast
  then show ?thesis using c by (auto simp: ev_mgr_unref_def upd_mgr_def sys_call_def Let_def split: prod.split)
qed

text \<open>
  Property C39: every state that the calls of the manager reach, in any order, with callbacks that use the manager by the
  calls allowed to them, is well formed: the lists hold items that exist, without duplicates, linked to the
  manager, with a period and an accuracy, and inactive when deleted; each linked file descriptor or preparer is in
  its list, none is linked once the manager is released, and a pending event is never the wake-up.
\<close>

theorem ev_reach_ok:
  assumes "cbs_use sys cbs" and "ev_reach sys cbs st"
  shows "ev_ok st"
  using assms by (rule ev_reach_inv)

lemma log_cbs_use: "cbs_use test_sys log_cbs"
  by (auto simp: cbs_use_def log_cbs_def intro: r_into_rtranclp ev_user.world)

definition new_mgr :: "test_world evst" where
  "new_mgr = snd (ev_mgr_create test_sys (5, []))"

lemma new_mgr_reach: "ev_reach test_sys log_cbs new_mgr"
proof (rule ev_reach.create)
  show "ev_mgr_create test_sys (5, []) = (0, new_mgr)"
    by (simp add: new_mgr_def ev_mgr_create_def sys_call_def test_sys_def)
qed

lemma new_mgr_eq: "new_mgr = \<lparr>ev_mgr = Some (test_mgr [] []), ev_fds = \<lambda>_. None, ev_timers = \<lambda>_. None, ev_preps = \<lambda>_. None,
    ev_fresh = 0, ev_kern = (5, [])\<rparr>"
  by (simp add: new_mgr_def ev_mgr_create_def sys_call_def test_sys_def test_mgr_def)

lemma ev_reach_ok_witness:
  "\<exists>st. ev_mgr_add_fd test_sys 8 1 2 3 True False new_mgr = Some (0, Some 0, st) \<and> ev_list mg_efds st = [0] \<and> ev_ok st"
proof -
  let ?r = "ev_mgr_add_fd test_sys 8 1 2 3 True False new_mgr"
  obtain st where st: "?r = Some (0, Some 0, st)" "ev_list mg_efds st = [0]"
    by (simp add: ev_mgr_add_fd_def sys_call_def test_sys_def upd_mgr_def new_mgr_eq ev_list_def test_mgr_def)
  have "ev_reach test_sys log_cbs st" using new_mgr_reach ev_user.add_fd [OF st(1)] by (rule ev_reach.user)
  from ev_reach_ok [OF log_cbs_use this] show ?thesis using st by blast
qed

text \<open>
  Property C40: in every such state the manager can be waited for and released, and prepared when it has no preparer: these
  calls return, and never use an item that was freed.
\<close>

theorem ev_reach_returns:
  assumes "cbs_use sys cbs" and "ev_reach sys cbs st" and "ev_mgr st \<noteq> None"
  shows "ev_mgr_wait sys timeout st \<noteq> None \<and> ev_mgr_unref sys mgr st \<noteq> None \<and>
    (ev_list mg_preparers st = [] \<longrightarrow> ev_mgr_prepare sys cbs st \<noteq> None)"
proof -
  have ok: "ev_ok st" using assms(1,2) by (rule ev_reach_inv)
  obtain m where m: "ev_mgr st = Some m" using assms(3) by blast
  show ?thesis
    using returns_do_wait [OF m] returns_ev_mgr_unref [OF ok assms(3)] returns_do_prepare [OF ok m]
    by (simp add: ev_mgr_wait_def ev_mgr_prepare_def no_preparers_def del: not_None_eq)
qed

lemma ev_reach_returns_witness:
  "ev_mgr_wait test_sys 10 new_mgr \<noteq> None \<and> ev_mgr_unref test_sys True new_mgr \<noteq> None \<and> ev_mgr_prepare test_sys log_cbs new_mgr \<noteq> None"
proof -
  have "ev_mgr new_mgr \<noteq> None" "ev_list mg_preparers new_mgr = []" by (simp_all add: new_mgr_eq ev_list_def test_mgr_def)
  then show ?thesis using ev_reach_returns [OF log_cbs_use new_mgr_reach, of 10 True] by blast
qed

subsection \<open>Behaviours that are not intended\<close>

text \<open>Unreferencing a timer after the release of the manager dereferences the null pointer.\<close>

lemma ev_timer_unref_released:
  "do { st \<leftarrow> ev_mgr_unref test_sys True (test_state [] Map.empty [1] [1 \<mapsto> test_timer 1000 1] 5);
        map_option tm_mgr (ev_timers st 1) } = Some False \<and>
   do { st \<leftarrow> ev_mgr_unref test_sys True (test_state [] Map.empty [1] [1 \<mapsto> test_timer 1000 1] 5);
        ev_timer_unref (Some 1) st } = None"
  by code_simp

definition test_fd :: ev_fd where
  "test_fd = \<lparr>fd_mgr = True, fd_handler = 0, fd_closure = 0, fd_fd = 9, fd_events = 1, fd_refcount = 1, fd_is_active = True,
     fd_is_set = True, fd_has_changed = False, fd_is_deleted = False, fd_auto_close = False, fd_auto_unref = False\<rparr>"

text \<open>The same for a file descriptor that the kernel watches.\<close>

lemma ev_fd_unref_released:
  "do { st \<leftarrow> ev_mgr_unref test_sys True (test_state [0] [0 \<mapsto> test_fd] [] Map.empty 5); ev_fd_unref test_sys (Some 0) st } = None"
  by code_simp

text \<open>
  An event is waiting for a file descriptor that is unreferenced, then the cleanup of \<open>ev_mgr_unref\<close> frees it:
  the dispatch uses it. Without the cleanup the dispatch is that of a deleted item.
\<close>

definition pending_state :: "test_world evst" where
  "pending_state = (test_state [0] [0 \<mapsto> test_fd] [] Map.empty 5)
     \<lparr>ev_mgr := Some ((test_mgr [0] [])\<lparr>mg_state := Pending, mg_event_ptr := PFd 0, mg_event_events := 1, mg_refcount := 2\<rparr>)\<rparr>"

lemma ev_mgr_dispatch_freed:
  "do { st \<leftarrow> ev_fd_unref test_sys (Some 0) pending_state; map_option ev_kern (ev_mgr_dispatch test_sys log_cbs st) } = Some (5, [])"
  "do { st \<leftarrow> ev_fd_unref test_sys (Some 0) pending_state;
        st \<leftarrow> ev_mgr_unref test_sys True st;
        map_option ev_kern (ev_mgr_dispatch test_sys log_cbs st) } = None"
  by code_simp+

end
