(* ===== verification/Spec2Isabelle.thy ===== *)
theory Spec2Isabelle
  imports Prelude Escape EscapeUrl EscapeArgs Base64 Str2Int EnumMap Pearson JsonStr JsonTest U16id Globmatch Globset Subpath Uuid Sha1 ExpandVars PathSearch PathScan Websock Ws Jsonc JsoncPack JsoncUnpack EvMgr EvTimers EvOk
begin

text \<open>
  Verification of the redpesk core utility library \<open>librp-utils\<close>.

  \<^bold>\<open>The program.\<close> The library is a set of C components that are used each for itself: texts
  (\<open>src/misc\<close>, \<open>src/http\<close>), JSON (\<open>src/json\<close>) and the services of a binder
  (\<open>src/sandbox\<close>: maps of identifiers, pattern handlers, web sockets, an event manager). Few of them call
  others: the handlers of patterns call the matching with stars, the packing and unpacking of JSON use the getters
  of integers, the two web sockets share one protocol. File names below are those of the repository.

  \<^bold>\<open>How code is modelled.\<close> A function of the code is a definition with its name, that gives
  \<open>None\<close> where the behaviour of C is undefined (access out of a block, null pointer, overflow of a signed
  integer, conversion of a floating number out of range, released item) or where the code does not return; a theorem
  that gives \<open>Some\<close> is hence one that the code returns and stays in its memory. Errors of the code are values
  of the results. A readable memory, a C string with what follows it, is the list of its characters (\<open>mem\<close> of
  \<open>Prelude\<close>); blocks are lists of the size that is allocated and are accessed by \<open>load\<close>,
  \<open>store\<close> and the guarded \<open>put\<close>. Integers that may wrap are words of their width; those that the
  theorems show in bounds are natural numbers or integers. Functions of other code are parameters: the allocator, json-c,
  the kernel, the clock, the file system, the callbacks and the resolution functions.

  \<^bold>\<open>Theories.\<close>
  \<^item> \<open>Prelude\<close>: characters, memory, the functions of the C library, the laws of the writers that measure
    a text and write it within a size (locale \<open>bounded_writer\<close>, with instances in \<open>Escape\<close>,
    \<open>EscapeUrl\<close> and \<open>JsonStr\<close>) and of pairs of functions that are inverse (locale
    \<open>codec\<close>, with instances in \<open>Escape\<close> and \<open>Base64\<close>).
  \<^item> \<open>Escape\<close>, \<open>EscapeUrl\<close>, \<open>EscapeArgs\<close>: \<open>http/rp-escape.c\<close>. The first
    one escapes and unescapes one text; the second one makes URL of vectors of arguments and splits a query in a block
    of pointers and texts; the third one relates them to lists of pairs. C1 to C4.
  \<^item> \<open>Base64\<close>: \<open>misc/rp-base64.c\<close>, against the groups of 6 bits of the concatenated bytes. C5 to C7.
  \<^item> \<open>Str2Int\<close>: \<open>misc/rp-str2int.c\<close>, on words of 64 bits, against the value of the digits. C8.
  \<^item> \<open>EnumMap\<close>, \<open>Pearson\<close>: \<open>misc/rp-enum-map.c\<close>, \<open>misc/rp-pearson.c\<close> and
    the inline functions of its header, with lemmas on what lookups and hashes give.
  \<^item> \<open>JsonStr\<close>, \<open>JsonTest\<close>: \<open>json/rp-jsonstr.c\<close>. The escapes write what fits
    of the escaped text (C9); the validator, a reader with one character in advance and a recursive descent, accepts
    an inductively defined language (C10), that is larger than JSON.
  \<^item> \<open>U16id\<close>: \<open>sandbox/u16id.c\<close>. The block of a map is the list of its identifiers and pointers
    in one memory, with its invariant, and refines a finite map (C11) until it has 65535 identifiers.
  \<^item> \<open>Globmatch\<close>, \<open>Globset\<close>: \<open>sandbox/globmatch.c\<close>,
    \<open>sandbox/globset.c\<close>. Matching is that of a language (C12); the list of patterns and the hash table of
    exact texts refine a finite map (C13) and the best handler is found (C14). Both need that no pattern has two stars
    in a row, a case where the code does not match what it should.
  \<^item> \<open>Subpath\<close>, \<open>Uuid\<close>, \<open>Sha1\<close>: \<open>sandbox/subpath.c\<close> against the walk along a
    path (C15), \<open>misc/rp-uuid.c\<close> without libuuid (C16), \<open>misc/sha1.c\<close> on a little endian target
    against FIPS 180 (C17).
  \<^item> \<open>ExpandVars\<close>: \<open>misc/rp-expand-vars.c\<close>. Levels of expansion, each made of two scans, against
    the replacement of the variables in a text (C18).
  \<^item> \<open>PathSearch\<close>, \<open>PathScan\<close>: \<open>misc/rp-path-search.c\<close>. Lists of directories are
    nodes with counts of references in a heap from addresses to nodes; lists are made and released (C19), directories
    and files are found (C20), directories are enumerated (C21, C22).
  \<^item> \<open>Websock\<close>: \<open>sandbox/websock.c\<close>. The state is the structure of the web socket, the stream is
    the parameter \<open>websock_itf\<close>. C23 to C27.
  \<^item> \<open>Ws\<close>: \<open>sandbox/ws.c\<close>. The state has also the memory, the slots of the buffers that the
    client hands over with the counts of their uses, and the addresses that are freed. C28 to C30.
  \<^item> \<open>Jsonc\<close>, \<open>JsoncPack\<close>, \<open>JsoncUnpack\<close>: \<open>json/rp-jsonc.c\<close>. Objects are
    values of an abstract type that represent JSON values; json-c is the record \<open>json_c\<close>. Comparison (C31) and
    integers (C32), making an object from a description (C33), reading one with a description (C34), and the round
    trip (C35).
  \<^item> \<open>EvMgr\<close>, \<open>EvTimers\<close>, \<open>EvOk\<close>: \<open>sandbox/ev-mgr.c\<close>. The state has the
    manager, three heaps of items, the lists of addresses that stand for the linked lists, and the state of the kernel
    that the calls of \<open>ev_sys\<close> change; callbacks (\<open>ev_cbs\<close>) may change all of it.
    \<open>EvTimers\<close> has when timers are called (C36 to C38). \<open>EvOk\<close> has the states that any sequence
    of calls reaches, the relation \<open>ev_reach\<close>: they are well formed (C39) and the manager can be used in them
    (C40); its locale \<open>ev_keeping\<close> states what a relation of states has to have to be kept by all the internal
    steps, with two instances, that of what callbacks may do and that of the invariant alone.

  \<^bold>\<open>Loops.\<close> Loops on a text or an array are recursions with a measure. Where a loop may not end or ends for a
  reason that is not in its data, it is a partial function whose \<open>None\<close> is shown or excluded:
  \<open>websock_drop\<close> and \<open>websock_dispatch\<close> (C24 gives when they return; \<open>websock_drop\<close> at the
  end of the stream never does), \<open>dispatch_loop\<close> of \<open>Ws\<close>, the walks of the lists of
  \<open>PathSearch\<close>, \<open>timer_dispatch_loop\<close> (C37) and \<open>preparers_prepare_loop\<close>; the next time of a
  timer is a \<open>while_option\<close>. Fuel is used for the nested calls of the validator, as many as the given length
  and two more, shown enough for every text by C10; of the search, \<open>PATH_MAX\<close>, shown enough by C21 as each level
  lengthens the path of a bounded buffer; of the comparison of JSON objects, an argument that is at least the
  depth of both, as C31 states; of the readings of descriptions, as many turns as the description has
  characters, shown enough for well formed ones by C33 and for the patterns of C34. The expansion of variables stops at ten
  levels because the code does, and the nesting of descriptions is limited to the 32 containers of its stack.

  \<^bold>\<open>Assumptions.\<close> Allocators give blocks of the asked size, or no block; C18 is for allocations that succeed.
  \<open>json_c_makes\<close> and the predicates on the reading of objects state what json-c documents: a constructor gives an object with
  the value or nothing, an addition gives 0 and the larger container or another code and the same container. The code ignores
  this code, and C33 and C35 are for additions that succeed (\<open>adds_succeed\<close>; the lemma
  \<open>rp_jsonc_vpack_lost_item\<close> shows what is made otherwise). File systems give names that are not empty and fit
  in a directory entry. Callbacks of C24 keep the invariant, those of the timers in C37 and C38 leave the manager alone, those of
  C39 and C40 use the manager by its calls that are not the ones of the loop (\<open>cbs_use\<close>).

  \<^bold>\<open>Defects.\<close> The lemmas at the end of the theories show on examples what the code does that it should not, among
  them: reading after the text in \<open>rp_escape\<close> with a length and in the splitting of a truncated escape; the
  65536th identifier of a map; two stars in a row; the padding of SHA-1 for 56 bytes modulo 64; the definitions shorter than a
  name and two braced variables in the expansion; loops of links entered once more by the enumeration, as inode numbers of the links are compared; codes of close frames
  that are lost; web socket buffers that are never freed; negation of the least integers; the error codes over 15; the
  first piece of a text over 256 bytes; timers, descriptors and events used after the release of the manager.

  \<^bold>\<open>Not modelled.\<close> The memory of the objects of json-c and what shares it (cloning, merging and in place
  additions of \<open>json/rp-jsonc.c\<close>, \<open>json/rp-jsonc-expand.c\<close>, \<open>json/rp-jsonc-path.c\<close>); the
  parsers of other projects and what is driven by them (\<open>json/rp-jconf.c\<close>, \<open>yaml\<close>); libcurl and its loops
  (\<open>http/rp-curl.c\<close>, \<open>sandbox/curl-client.c\<close>); functions that are only system calls
  (\<open>misc/rp-file.c\<close>, \<open>misc/rp-read-fd-name.c\<close>, \<open>misc/rp-whichprog.c\<close>, \<open>sys\<close>,
  \<open>sandbox/locale-root.c\<close>, \<open>sandbox/process-name.c\<close>, \<open>sandbox/utils-glue.c\<close>); the locks between
  threads (\<open>sandbox/lockany.c\<close>); spawning (\<open>sandbox/spawn-utils.c\<close>), that needs headers of other
  projects; the replacements of system functions (\<open>sandbox/x-*\<close>); \<open>json/json.hpp\<close>, copied from another
  project; tools and tests. Threads are not modelled: the atomic counts of the event manager are plain counts.
\<close>

end
